(* ===== verification/Sat_Float.thy ===== *)
theory Sat_Float
  imports Complex_Main "HOL-Library.Log_Nat"
begin

text \<open>
  Floating point as the search uses it: a result is the exact one rounded to the nearest double or
  float, ties to even, with gradual underflow.  The activities stay far below the largest double, so
  overflow to infinity is not part of the model.
\<close>

section \<open>Rounding\<close>

definition scale2 :: "int \<Rightarrow> rat" where
  "scale2 e = (if 0 \<le> e then 2 ^ nat e else 1 / 2 ^ nat (- e))"

definition roundHalfEven :: "rat \<Rightarrow> int" where
  "roundHalfEven x =
     (let f = \<lfloor>x\<rfloor>; d = x - of_int f in
      if d < 1 / 2 then f else if d > 1 / 2 then f + 1 else if even f then f else f + 1)"

text \<open>The exponent of a positive number: \<open>scale2 (binade x) \<le> x < scale2 (binade x + 1)\<close>.\<close>

definition binade :: "rat \<Rightarrow> int" where
  "binade x =
     (case quotient_of x of (n, d) \<Rightarrow>
        let e = bitlen n - bitlen d in if scale2 e \<le> x then e else e - 1)"

definition roundTo :: "int \<Rightarrow> int \<Rightarrow> rat \<Rightarrow> rat" where
  "roundTo Precision MinExponent x =
     (if x = 0 then 0
      else
        let u = max (binade \<bar>x\<bar> - (Precision - 1)) MinExponent in
        of_int (roundHalfEven (x / scale2 u)) * scale2 u)"

definition toDouble :: "rat \<Rightarrow> rat" where
  "toDouble x = roundTo 53 (- 1074) x"

definition toFloat :: "rat \<Rightarrow> rat" where
  "toFloat x = roundTo 24 (- 149) x"

lemma scale2_pos [simp]: "0 < scale2 e"
  by (simp add: scale2_def)

lemma roundHalfEven_close: "\<bar>of_int (roundHalfEven x) - x\<bar> \<le> 1 / 2"
proof -
  have "of_int \<lfloor>x\<rfloor> \<le> x" "x < of_int \<lfloor>x\<rfloor> + 1" by linarith+
  then show ?thesis unfolding roundHalfEven_def Let_def abs_le_iff by (simp; linarith)
qed

lemma roundHalfEven_int [simp]: "roundHalfEven (of_int k) = k"
  by (simp add: roundHalfEven_def)

text \<open>Rounding moves a number by at most half a unit in its last place.\<close>

lemma roundTo_close:
  "x \<noteq> 0 \<Longrightarrow> \<bar>roundTo p m x - x\<bar> \<le> scale2 (max (binade \<bar>x\<bar> - (p - 1)) m) / 2"
proof -
  assume x: "x \<noteq> 0"
  let ?u = "max (binade \<bar>x\<bar> - (p - 1)) m"
  have "roundTo p m x - x = (of_int (roundHalfEven (x / scale2 ?u)) - x / scale2 ?u) * scale2 ?u"
    using x less_imp_neq [OF scale2_pos, of ?u] by (simp add: roundTo_def Let_def left_diff_distrib)
  also have "\<bar>\<dots>\<bar> \<le> 1 / 2 * scale2 ?u"
    unfolding abs_mult using roundHalfEven_close [of "x / scale2 ?u"] less_imp_le [OF scale2_pos, of ?u] by (intro mult_mono) auto
  finally show ?thesis by simp
qed

end
