(* ===== verification/Prelude.thy ===== *)
theory Prelude
  imports Main "HOL-Library.Word" "HOL-Library.Signed_Division"
begin

text \<open>
  Shared vocabulary of the development: machine-integer type synonyms, the little-endian byte
  readers the decoders use, and the generic lemmas on lists, options and words that the component
  theories share.  The collections \<open>sbf_defs\<close> and \<open>sat_defs\<close> gather the
  unfolding equations the component proofs pass to the simplifier.
\<close>

unbundle bit_operations_syntax

named_theorems sbf_defs \<open>unfolding equations of the SBF model\<close>
named_theorems sat_defs \<open>unfolding equations of the reasoning-engine model\<close>

type_synonym u8 = "8 word"
type_synonym u16 = "16 word"
type_synonym u32 = "32 word"
type_synonym u64 = "64 word"

text \<open>Little-endian composition of bytes; the byte at index 0 is the least significant one.\<close>

fun bytes_le :: "u8 list \<Rightarrow> nat" where
  "bytes_le [] = 0"
| "bytes_le (b # bs) = unat b + 256 * bytes_le bs"

fun le_bytes :: "nat \<Rightarrow> nat \<Rightarrow> u8 list" where
  "le_bytes 0 v = []"
| "le_bytes (Suc n) v = word_of_nat (v mod 256) # le_bytes n (v div 256)"

lemma length_le_bytes [simp]: "length (le_bytes n v) = n"
  by (induction n arbitrary: v) auto

lemma bytes_le_le_bytes: "bytes_le (le_bytes n v) = v mod 256 ^ n"
proof (induction n arbitrary: v)
  case 0
  then show ?case by simp
next
  case (Suc n)
  have "v mod 256 + 256 * (v div 256 mod 256 ^ n) = v mod (256 * 256 ^ n)"
    by (simp add: mod_mult2_eq)
  with Suc show ?case by (simp add: unat_of_nat take_bit_eq_mod)
qed

lemma bytes_le_bound: "bytes_le bs < 256 ^ length bs"
proof (induction bs)
  case Nil
  then show ?case by simp
next
  case (Cons b bs)
  have "unat b < 256" using unsigned_less [of b] by simp
  with Cons show ?case by simp
qed

lemma le_bytes_bytes_le: "le_bytes (length bs) (bytes_le bs) = bs"
proof (induction bs)
  case Nil
  then show ?case by simp
next
  case (Cons b bs)
  have "unat b < 256" using unsigned_less [of b] by simp
  then have "(unat b + 256 * bytes_le bs) mod 256 = unat b"
    and "(unat b + 256 * bytes_le bs) div 256 = bytes_le bs" by simp_all
  with Cons show ?case by simp
qed

text \<open>A byte_slice of a byte array: \<open>n\<close> bytes from offset \<open>off\<close>.\<close>

definition byte_slice :: "nat \<Rightarrow> nat \<Rightarrow> 'a list \<Rightarrow> 'a list" where
  "byte_slice off n xs = take n (drop off xs)"

lemma length_byte_slice [simp]: "off + n \<le> length xs \<Longrightarrow> length (byte_slice off n xs) = n"
  by (simp add: byte_slice_def)

text \<open>Overwrite a run of bytes in place, as a loop over \<open>Bytes[Offset + I]\<close> does.\<close>

definition overwrite :: "nat \<Rightarrow> 'a list \<Rightarrow> 'a list \<Rightarrow> 'a list" where
  "overwrite off ys xs = take off xs @ ys @ drop (off + length ys) xs"

lemma length_overwrite [simp]:
  "off + length ys \<le> length xs \<Longrightarrow> length (overwrite off ys xs) = length xs"
  by (simp add: overwrite_def)

lemma byte_slice_overwrite_same:
  "off + length ys \<le> length xs \<Longrightarrow> byte_slice off (length ys) (overwrite off ys xs) = ys"
  by (simp add: byte_slice_def overwrite_def)

lemma nth_overwrite_outside:
  assumes "off + length ys \<le> length xs" and "i < length xs"
    and "i < off \<or> off + length ys \<le> i"
  shows "overwrite off ys xs ! i = xs ! i"
  using assms by (auto simp: overwrite_def nth_append)

lemma list_eq_by_nth:
  "length xs = n \<Longrightarrow> length ys = n \<Longrightarrow> (\<And>i. i < n \<Longrightarrow> xs ! i = ys ! i) \<Longrightarrow> xs = ys"
  by (rule nth_equalityI) auto

lemma byte_slice_overwrite_disjoint:
  assumes b: "off + length ys \<le> length xs" "a + n \<le> length xs"
    and d: "a + n \<le> off \<or> off + length ys \<le> a"
  shows "byte_slice a n (overwrite off ys xs) = byte_slice a n xs"
proof (rule list_eq_by_nth [where n = n])
  show "length (byte_slice a n (overwrite off ys xs)) = n" "length (byte_slice a n xs) = n"
    using b by simp_all
next
  fix i assume "i < n"
  with b d show "byte_slice a n (overwrite off ys xs) ! i = byte_slice a n xs ! i"
    by (auto simp: byte_slice_def intro!: nth_overwrite_outside)
qed

text \<open>\<open>llvm::support::endian::read16le\<close> and \<open>read32le\<close>: unaligned little-endian loads.\<close>

definition read16le :: "u8 list \<Rightarrow> nat \<Rightarrow> u16" where
  "read16le bs off = word_of_nat (bytes_le (byte_slice off 2 bs))"

definition read32le :: "u8 list \<Rightarrow> nat \<Rightarrow> u32" where
  "read32le bs off = word_of_nat (bytes_le (byte_slice off 4 bs))"

lemma find_Some_iff_set: "List.find P xs = Some x \<Longrightarrow> x \<in> set xs \<and> P x"
  by (induction xs) (auto split: if_splits)

lemma list_all_set: "list_all P xs \<Longrightarrow> x \<in> set xs \<Longrightarrow> P x"
  by (simp add: list_all_iff)

lemma bytes_le_append: "bytes_le (xs @ ys) = bytes_le xs + 256 ^ length xs * bytes_le ys"
  by (induction xs) (simp_all add: algebra_simps)

lemma le_bytes_Suc_snoc:
  "le_bytes (Suc n) v = le_bytes n v @ [word_of_nat (v div 256 ^ n mod 256)]"
proof (induction n arbitrary: v)
  case 0
  then show ?case by simp
next
  case (Suc n)
  have "le_bytes (Suc (Suc n)) v = word_of_nat (v mod 256) # le_bytes (Suc n) (v div 256)" by simp
  also have "\<dots> = word_of_nat (v mod 256) # le_bytes n (v div 256) @
      [word_of_nat (v div 256 div 256 ^ n mod 256)]" by (simp only: Suc.IH)
  finally show ?case by (simp add: div_mult2_eq)
qed

lemma power_256: "(256::'a::comm_semiring_1) ^ n = 2 ^ (n * 8)"
proof -
  have "(2::'a) ^ (n * 8) = (2 ^ 8) ^ n" by (simp only: mult.commute [of n] power_mult)
  then show ?thesis by simp
qed

lemma byte_slice_Suc:
  "off + n < length xs \<Longrightarrow> byte_slice off (Suc n) xs = byte_slice off n xs @ [xs ! (off + n)]"
  by (simp add: byte_slice_def take_Suc_conv_app_nth)

section \<open>Metered loops\<close>

text \<open>
  The contract of a loop that stops when its meter runs out: \<open>advance\<close> is the loop body,
  \<open>stop\<close> its exit condition and \<open>finish\<close> what happens on exit.
\<close>

locale metered_loop =
  fixes loop :: "'s \<Rightarrow> 's" and stop :: "'s \<Rightarrow> bool" and finish advance :: "'s \<Rightarrow> 's"
    and fuel :: "'s \<Rightarrow> nat"
  assumes loop_unfold: "loop s = (if stop s then finish s else loop (advance s))"
    and fuel_decreases: "\<not> stop s \<Longrightarrow> fuel (advance s) < fuel s"
begin

text \<open>The loop runs its body a bounded number of times and then finishes.\<close>

lemma loop_iterates:
  "\<exists>n \<le> fuel s. stop ((advance ^^ n) s) \<and> (\<forall>k < n. \<not> stop ((advance ^^ k) s)) \<and>
     loop s = finish ((advance ^^ n) s)"
proof (induction "fuel s" arbitrary: s rule: less_induct)
  case less
  show ?case
  proof (cases "stop s")
    case True
    then show ?thesis using loop_unfold [of s] by (intro exI [of _ 0]) simp
  next
    case False
    from less [OF fuel_decreases [OF False]] obtain n where
      n: "n \<le> fuel (advance s)" "stop ((advance ^^ n) (advance s))"
        "\<forall>k < n. \<not> stop ((advance ^^ k) (advance s))"
        "loop (advance s) = finish ((advance ^^ n) (advance s))" by blast
    have "\<not> stop ((advance ^^ k) s)" if "k < Suc n" for k
      using that n(3) False by (cases k) (auto simp: funpow_swap1)
    with n fuel_decreases [OF False] loop_unfold [of s] False show ?thesis
      by (intro exI [of _ "Suc n"]) (auto simp: funpow_swap1)
  qed
qed

lemma iterate_invariant:
  assumes "\<And>s. J s \<Longrightarrow> \<not> stop s \<Longrightarrow> J (advance s)" "J s"
    "\<forall>k < n. \<not> stop ((advance ^^ k) s)"
  shows "J ((advance ^^ n) s)"
  using assms(3) by (induction n) (auto intro: assms(1,2))

lemma loop_invariant:
  assumes "\<And>s. J s \<Longrightarrow> \<not> stop s \<Longrightarrow> J (advance s)"
    and "\<And>s. J s \<Longrightarrow> stop s \<Longrightarrow> post (finish s)" and "J s"
  shows "post (loop s)"
proof -
  from loop_iterates [of s] obtain n where
    "stop ((advance ^^ n) s)" "\<forall>k < n. \<not> stop ((advance ^^ k) s)"
    "loop s = finish ((advance ^^ n) s)" by blast
  with assms iterate_invariant [of J s n] show ?thesis by simp
qed

end

end
