(* ===== verification/Sat_Types.thy ===== *)
theory Sat_Types
  imports Prelude
begin

text \<open>
  The vocabulary of the reasoning engine (\<open>include/neverd/solver/SatTypes.h\<close>): boolean
  variables, packed literals, three-valued answers and the outcome of a satisfiability question.
  A literal is one 32-bit word, the variable number doubled with the sign in the low bit; the
  all-ones word stands for ``no literal''.

  The lemmas relate the packing to the reading every other theory uses: a literal is determined by
  its variable and its sign, complementing is an involution that keeps the variable, and the slot
  of a literal in a polarity-indexed table is twice its variable plus its sign.  An assignment is a
  function from variables to truth values; \<open>lit_true\<close> is the worth of a literal under it.
\<close>

section \<open>Variables and literals\<close>

type_synonym SatVar = u32

definition kMaxSatVar :: SatVar where
  "kMaxSatVar = push_bit 31 1 - 2"

definition kInvalidSatVar :: SatVar where
  "kInvalidSatVar = NOT 0"

datatype SatLit = SatLit (Code: u32)

definition kInvalidCode :: u32 where
  "kInvalidCode = NOT 0"

text \<open>The default-constructed literal.\<close>

definition noLit :: SatLit where
  "noLit = SatLit kInvalidCode"

definition mk :: "SatVar \<Rightarrow> bool \<Rightarrow> SatLit" where
  "mk V Negated = SatLit (push_bit 1 V OR of_bool Negated)"

definition positive :: "SatVar \<Rightarrow> SatLit" where
  "positive V = mk V False"

definition negative :: "SatVar \<Rightarrow> SatLit" where
  "negative V = mk V True"

definition fromIndex :: "u32 \<Rightarrow> SatLit" where
  "fromIndex I = SatLit I"

definition var :: "SatLit \<Rightarrow> SatVar" where
  "var L = drop_bit 1 (Code L)"

definition isNegated :: "SatLit \<Rightarrow> bool" where
  "isNegated L \<longleftrightarrow> Code L AND 1 \<noteq> 0"

definition index :: "SatLit \<Rightarrow> u32" where
  "index L = Code L"

definition isValid :: "SatLit \<Rightarrow> bool" where
  "isValid L \<longleftrightarrow> Code L \<noteq> kInvalidCode"

text \<open>\<open>operator~\<close>.\<close>

definition negl :: "SatLit \<Rightarrow> SatLit" where
  "negl L = SatLit (Code L XOR 1)"

definition withPolarity :: "SatLit \<Rightarrow> bool \<Rightarrow> SatLit" where
  "withPolarity L Positive = SatLit (Code L XOR of_bool (\<not> Positive))"

text \<open>Literals are ordered by their packed word.\<close>

definition litBefore :: "SatLit \<Rightarrow> SatLit \<Rightarrow> bool" where
  "litBefore A B \<longleftrightarrow> Code A < Code B"

instantiation SatLit :: linorder
begin

definition less_eq_SatLit :: "SatLit \<Rightarrow> SatLit \<Rightarrow> bool" where
  "less_eq_SatLit A B \<longleftrightarrow> Code A \<le> Code B"

definition less_SatLit :: "SatLit \<Rightarrow> SatLit \<Rightarrow> bool" where
  "less_SatLit A B \<longleftrightarrow> litBefore A B"

instance
  by standard (auto simp: less_eq_SatLit_def less_SatLit_def litBefore_def SatLit.expand)

end

section \<open>Answers\<close>

datatype SatValue = VFalse | VTrue | VUnknown

definition negate :: "SatValue \<Rightarrow> SatValue" where
  "negate V = (case V of VUnknown \<Rightarrow> VUnknown | VFalse \<Rightarrow> VTrue | VTrue \<Rightarrow> VFalse)"

datatype SatResult = Unsat | Sat | Unknown | Invalid

fun satResultName :: "SatResult \<Rightarrow> string" where
  "satResultName Unsat = ''unsat''"
| "satResultName Sat = ''sat''"
| "satResultName Unknown = ''unknown''"
| "satResultName Invalid = ''invalid''"

fun satValueName :: "SatValue \<Rightarrow> string" where
  "satValueName VFalse = ''false''"
| "satValueName VTrue = ''true''"
| "satValueName VUnknown = ''unknown''"

section \<open>The packing\<close>

lemma unat_eq_unat_iff [simp]: "unat (a :: 'a::len word) = unat b \<longleftrightarrow> a = b"
  using unsigned_word_eqI [where 'a = nat] by auto

lemma bit_Code_0: "bit (Code L) 0 = isNegated L"
  by (simp add: isNegated_def and_one_eq mod_2_eq_odd bit_0)

lemma bit_Code_Suc: "bit (Code L) (Suc n) = bit (var L) n"
  by (simp add: var_def bit_drop_bit_eq)

lemma SatLit_eq_iff: "L = M \<longleftrightarrow> var L = var M \<and> isNegated L = isNegated M"
proof
  assume eq: "var L = var M \<and> isNegated L = isNegated M"
  have "bit (Code L) n = bit (Code M) n" for n
    using eq by (cases n) (simp_all add: bit_Code_0 bit_Code_Suc)
  then have "Code L = Code M" by (intro bit_word_eqI) simp
  then show "L = M" by (simp add: SatLit.expand)
qed simp

lemma var_negl [simp]: "var (negl L) = var L"
  by (rule bit_word_eqI) (simp add: var_def negl_def bit_drop_bit_eq bit_xor_iff bit_1_iff)

lemma isNegated_negl [simp]: "isNegated (negl L) = (\<not> isNegated L)"
  by (simp add: negl_def flip: bit_Code_0) (simp add: bit_xor_iff)

lemma negl_negl [simp]: "negl (negl L) = L"
  by (simp add: SatLit_eq_iff)

lemma negl_neq [simp]: "negl L \<noteq> L" "L \<noteq> negl L"
  by (simp_all add: SatLit_eq_iff)

lemma negl_eq_iff [simp]: "negl L = negl M \<longleftrightarrow> L = M"
  by (simp add: SatLit_eq_iff)

lemma negl_swap: "negl L = M \<longleftrightarrow> L = negl M"
  by (auto simp: SatLit_eq_iff)

lemma same_var_cases: "var L = var M \<Longrightarrow> L = M \<or> L = negl M"
  by (auto simp: SatLit_eq_iff)

lemma withPolarity_eq: "withPolarity L b = (if b then L else negl L)"
  by (simp add: withPolarity_def negl_def)

lemma bit_Code_mk:
  "bit (Code (mk V b)) n = (n < 32 \<and> (n = 0 \<and> b \<or> 0 < n \<and> bit V (n - 1)))"
  unfolding mk_def SatLit.sel bit_or_iff bit_push_bit_iff bit_of_bool_iff
  by (cases n) (auto dest: bit_imp_le_length)

lemma isNegated_mk [simp]: "isNegated (mk V b) = b"
  by (simp add: bit_Code_mk flip: bit_Code_0)

lemma var_mk: "unat V < 2 ^ 31 \<Longrightarrow> var (mk V b) = V"
proof (rule bit_word_eqI)
  fix n
  assume V: "unat V < 2 ^ 31" and n: "n < LENGTH(32)"
  have "\<not> bit V n" if "31 \<le> n"
  proof -
    have "unat (take_bit 31 V) = take_bit 31 (unat V)" by (rule unsigned_take_bit_eq)
    also have "\<dots> = unat V" using V by (simp only: take_bit_nat_eq_self_iff)
    finally have "take_bit 31 V = V" by (simp only: unsigned_word_eqI)
    then show ?thesis using that by (metis bit_take_bit_iff not_less)
  qed
  with n show "bit (var (mk V b)) n = bit V n"
    by (simp add: bit_Code_mk flip: bit_Code_Suc) (metis not_le)
qed

lemma unat_kMaxSatVar: "unat kMaxSatVar = 2 ^ 31 - 2"
  by (simp add: kMaxSatVar_def push_bit_eq_mult)

lemma unat_var: "unat (var L) = unat (Code L) div 2"
proof -
  have "unat (drop_bit 1 (Code L)) = drop_bit 1 (unat (Code L))" by (rule unat_drop_bit_eq)
  also have "\<dots> = unat (Code L) div 2" by (simp add: drop_bit_eq_div)
  finally show ?thesis by (simp only: var_def)
qed

lemma unat_var_less: "unat (var L) < 2 ^ 31"
proof -
  note unat_var [of L]
  moreover have "unat (Code L) < 2 ^ 32" using unsigned_less [of "Code L"] by simp
  ultimately show ?thesis by simp
qed

lemma unat_index: "unat (index L) = 2 * unat (var L) + of_bool (isNegated L)"
proof -
  have "unat (Code L) = 2 * (unat (Code L) div 2) + unat (Code L) mod 2" by simp
  moreover note unat_var [of L]
  moreover have "isNegated L \<longleftrightarrow> unat (Code L) mod 2 = 1"
    by (simp only: isNegated_def unat_eq_0 [symmetric] unsigned_and_eq) (simp add: and_one_eq)
  moreover have "unat (Code L) mod 2 = of_bool (isNegated L)"
    using calculation(3) by (cases "isNegated L") simp_all
  ultimately show ?thesis unfolding index_def by linarith
qed

lemma index_inj: "index L = index M \<longleftrightarrow> L = M"
  by (auto simp: index_def SatLit.expand)

lemma isValid_if_small: "unat (var L) \<le> unat kMaxSatVar \<Longrightarrow> isValid L"
proof -
  assume a: "unat (var L) \<le> unat kMaxSatVar"
  have "Code L = NOT 0 \<Longrightarrow> unat (Code L) = 2 ^ 32 - 1" by (simp add: unsigned_minus_1_eq_mask mask_eq_exp_minus_1)
  with a show ?thesis by (auto simp: isValid_def kInvalidCode_def unat_var unat_kMaxSatVar)
qed

lemma less_SatLit_index: "L < M \<longleftrightarrow> unat (index L) < unat (index M)"
  by (simp add: less_SatLit_def litBefore_def index_def word_less_nat_alt)

lemma positive_sel [simp]:
  "isNegated (positive V) = False" "unat V < 2 ^ 31 \<Longrightarrow> var (positive V) = V"
  by (simp_all add: positive_def var_mk)

lemma negative_sel [simp]:
  "isNegated (negative V) = True" "unat V < 2 ^ 31 \<Longrightarrow> var (negative V) = V"
  by (simp_all add: negative_def var_mk)

section \<open>Assignments\<close>

type_synonym assignment = "SatVar \<Rightarrow> bool"

definition lit_true :: "assignment \<Rightarrow> SatLit \<Rightarrow> bool" where
  "lit_true m L \<longleftrightarrow> m (var L) \<noteq> isNegated L"

definition clause_true :: "assignment \<Rightarrow> SatLit list \<Rightarrow> bool" where
  "clause_true m C \<longleftrightarrow> (\<exists>L \<in> set C. lit_true m L)"

definition agree :: "nat \<Rightarrow> assignment \<Rightarrow> assignment \<Rightarrow> bool" where
  "agree n m m' \<longleftrightarrow> (\<forall>v. unat v < n \<longrightarrow> m v = m' v)"

lemma lit_true_negl [simp]: "lit_true m (negl L) = (\<not> lit_true m L)"
  by (auto simp: lit_true_def)

lemma lit_true_withPolarity [simp]: "lit_true m (withPolarity L b) = (lit_true m L = b)"
  by (simp add: withPolarity_eq)

lemma lit_true_positive: "unat V < 2 ^ 31 \<Longrightarrow> lit_true m (positive V) = m V"
  by (simp add: lit_true_def)

lemma lit_true_agree: "agree n m m' \<Longrightarrow> unat (var L) < n \<Longrightarrow> lit_true m L = lit_true m' L"
  by (simp add: agree_def lit_true_def)

lemma clause_true_agree:
  "agree n m m' \<Longrightarrow> \<forall>L \<in> set C. unat (var L) < n \<Longrightarrow> clause_true m C = clause_true m' C"
  unfolding clause_true_def by (meson lit_true_agree)

lemma clause_true_simps [simp]:
  "\<not> clause_true m []"
  "clause_true m (L # C) \<longleftrightarrow> lit_true m L \<or> clause_true m C"
  "clause_true m (C @ D) \<longleftrightarrow> clause_true m C \<or> clause_true m D"
  by (auto simp: clause_true_def)

lemma clause_true_set_cong: "set C = set D \<Longrightarrow> clause_true m C = clause_true m D"
  by (simp add: clause_true_def)

lemma agree_refl [simp]: "agree n m m"
  and agree_trans: "agree n m m' \<Longrightarrow> agree n m' m'' \<Longrightarrow> agree n m m''"
  and agree_mono: "agree n m m' \<Longrightarrow> k \<le> n \<Longrightarrow> agree k m m'"
  and agree_update: "n \<le> unat v \<Longrightarrow> agree n m (m(v := b))"
  by (auto simp: agree_def)

section \<open>The packing round trip\<close>

text \<open>
  Packing a variable and a sign into a literal and reading them back gives the same
  variable and sign for every variable a solver can address, the literal is valid, complementing it
  flips only the sign, and its table slot is twice the variable plus the sign.\<close>

lemma literal_packing:
  assumes "V \<le> kMaxSatVar"
  shows "var (mk V b) = V \<and> isNegated (mk V b) = b \<and> isValid (mk V b) \<and>
    negl (mk V b) = mk V (\<not> b) \<and> unat (index (mk V b)) = 2 * unat V + of_bool b"
proof -
  have le: "unat V \<le> unat kMaxSatVar" using assms by (simp add: word_le_nat_alt)
  then have "unat V < 2 ^ 31" by (simp add: unat_kMaxSatVar)
  then have v: "var (mk V c) = V" for c by (rule var_mk)
  then have "isValid (mk V b)" using le by (intro isValid_if_small) simp
  with v show ?thesis by (simp add: SatLit_eq_iff unat_index)
qed

end
