(* ===== verification/Sat_Queue.thy ===== *)
theory Sat_Queue
  imports Sat_Types
begin

text \<open>
  The decision queue of the search (\<open>ActivityQueue\<close> of \<open>lib/solver/sat/SatDetail.h\<close> and
  \<open>SatHeuristic.cpp\<close>).  The queue has two forms: a sorted sequence
  consumed from \<open>Front\<close>, and, once a priority changes or a variable is reinserted out of
  order, a binary max-heap.  \<open>Position\<close> records where each variable is, or \<open>-1\<close>.
  Activities are read through a list over any linear order; ties break towards the lower variable.
\<close>

record ActivityQueue =
  Heap :: "SatVar list"
  Position :: "int list"
  Front :: nat
  Sorted :: bool

definition emptyQueue :: ActivityQueue where
  "emptyQueue = \<lparr>Heap = [], Position = [], Front = 0, Sorted = True\<rparr>"

definition queueEmpty :: "ActivityQueue \<Rightarrow> bool" where
  "queueEmpty q \<longleftrightarrow> Front q = length (Heap q)"

definition queueSize :: "ActivityQueue \<Rightarrow> nat" where
  "queueSize q = length (Heap q) - Front q"

definition hasSortedPriorities :: "ActivityQueue \<Rightarrow> bool" where
  "hasSortedPriorities q = Sorted q"

definition contains :: "ActivityQueue \<Rightarrow> SatVar \<Rightarrow> bool" where
  "contains q V \<longleftrightarrow> unat V < length (Position q) \<and> Position q ! unat V \<ge> 0"

definition grow :: "nat \<Rightarrow> ActivityQueue \<Rightarrow> ActivityQueue" where
  "grow NumVars q =
     (if length (Position q) < NumVars
      then q\<lparr>Position := Position q @ replicate (NumVars - length (Position q)) (- 1)\<rparr> else q)"

definition higher :: "'a::linorder list \<Rightarrow> SatVar \<Rightarrow> SatVar \<Rightarrow> bool" where
  "higher Activity A B =
     (if Activity ! unat A \<noteq> Activity ! unat B then Activity ! unat A > Activity ! unat B
      else A < B)"

text \<open>Record that slot \<open>I\<close> of the heap holds \<open>V\<close>.\<close>

definition put :: "nat \<Rightarrow> SatVar \<Rightarrow> ActivityQueue \<Rightarrow> ActivityQueue" where
  "put I V q = q\<lparr>Heap := (Heap q)[I := V], Position := (Position q)[unat V := int I]\<rparr>"

fun siftUp_loop :: "'a::linorder list \<Rightarrow> SatVar \<Rightarrow> ActivityQueue \<Rightarrow> nat \<Rightarrow> ActivityQueue \<times> nat" where
  "siftUp_loop Activity V q I =
     (if I > 0 then
        let Parent = (I - 1) div 2 in
        if \<not> higher Activity V (Heap q ! Parent) then (q, I)
        else siftUp_loop Activity V (put I (Heap q ! Parent) q) Parent
      else (q, I))"

declare siftUp_loop.simps [simp del]

definition siftUp :: "'a::linorder list \<Rightarrow> nat \<Rightarrow> ActivityQueue \<Rightarrow> ActivityQueue" where
  "siftUp Activity I q =
     (let V = Heap q ! I; (q, I) = siftUp_loop Activity V q I in put I V q)"

function siftDown_loop ::
    "'a::linorder list \<Rightarrow> SatVar \<Rightarrow> ActivityQueue \<Rightarrow> nat \<Rightarrow> ActivityQueue \<times> nat" where
  "siftDown_loop Activity V q I =
     (let N = length (Heap q); Child = 2 * I + 1 in
      if Child \<ge> N then (q, I)
      else
        let Child = (if Child + 1 < N \<and> higher Activity (Heap q ! (Child + 1)) (Heap q ! Child)
                     then Child + 1 else Child) in
        if \<not> higher Activity (Heap q ! Child) V then (q, I)
        else siftDown_loop Activity V (put I (Heap q ! Child) q) Child)"
  by pat_completeness auto
termination
  by (relation "measure (\<lambda>(_, _, q, I). length (Heap q) - I)")
    (auto simp: put_def Let_def)

declare siftDown_loop.simps [simp del]

definition siftDown :: "'a::linorder list \<Rightarrow> nat \<Rightarrow> ActivityQueue \<Rightarrow> ActivityQueue" where
  "siftDown Activity I q =
     (let V = Heap q ! I; (q, I) = siftDown_loop Activity V q I in put I V q)"

text \<open>
  Move the live entries, the ones from \<open>Front\<close> on, to the beginning of the array: the loop of
  \<open>useHeap\<close>, with \<open>Write\<close> counting the entries moved so far.
\<close>

fun compact_live :: "nat \<Rightarrow> SatVar list \<Rightarrow> ActivityQueue \<Rightarrow> ActivityQueue" where
  "compact_live Write [] q = q\<lparr>Heap := take Write (Heap q)\<rparr>"
| "compact_live Write (V # Vs) q = compact_live (Suc Write) Vs (put Write V q)"

definition useHeap :: "ActivityQueue \<Rightarrow> ActivityQueue" where
  "useHeap q =
     (if \<not> Sorted q then q
      else
        let q = q\<lparr>Sorted := False\<rparr> in
        if Front q = 0 then q
        else (compact_live 0 (drop (Front q) (Heap q)) q)\<lparr>Front := 0\<rparr>)"

definition insertVar :: "'a::linorder list \<Rightarrow> SatVar \<Rightarrow> ActivityQueue \<Rightarrow> ActivityQueue" where
  "insertVar Activity V q =
     (let q = grow (unat V + 1) q in
      if Position q ! unat V \<ge> 0 then q
      else
        let q = (if queueEmpty q then q\<lparr>Heap := [], Front := 0, Sorted := True\<rparr> else q) in
        if Sorted q \<and> (Heap q = [] \<or> \<not> higher Activity V (last (Heap q)))
        then q\<lparr>Position := (Position q)[unat V := int (length (Heap q))], Heap := Heap q @ [V]\<rparr>
        else
          let q = useHeap q;
              q = q\<lparr>Position := (Position q)[unat V := int (length (Heap q))],
                    Heap := Heap q @ [V]\<rparr>
          in siftUp Activity (length (Heap q) - 1) q)"

definition increased :: "'a::linorder list \<Rightarrow> SatVar \<Rightarrow> ActivityQueue \<Rightarrow> ActivityQueue" where
  "increased Activity V q =
     (if unat V < length (Position q) \<and> Position q ! unat V \<ge> 0
      then let q = useHeap q in siftUp Activity (nat (Position q ! unat V)) q
      else q)"

definition removeMax :: "'a::linorder list \<Rightarrow> ActivityQueue \<Rightarrow> SatVar \<times> ActivityQueue" where
  "removeMax Activity q =
     (if Sorted q then
        let Top = Heap q ! Front q in
        (Top, q\<lparr>Front := Front q + 1, Position := (Position q)[unat Top := - 1]\<rparr>)
      else
        let Top = hd (Heap q);
            q = q\<lparr>Position := (Position q)[unat Top := - 1]\<rparr>;
            Last = last (Heap q);
            q = q\<lparr>Heap := butlast (Heap q)\<rparr>
        in if Heap q \<noteq> [] then (Top, siftDown Activity 0 (put 0 Last q)) else (Top, q))"

fun discard_loop :: "int list \<Rightarrow> nat list \<Rightarrow> nat \<Rightarrow> SatVar list \<Rightarrow> ActivityQueue \<Rightarrow> ActivityQueue \<times> nat"
where
  "discard_loop Value Level Write [] q = (q\<lparr>Heap := take Write (Heap q)\<rparr>, Write)"
| "discard_loop Value Level Write (V # Vs) q =
     (if Value ! unat V \<noteq> 0 \<and> Level ! unat V = 0
      then discard_loop Value Level Write Vs (q\<lparr>Position := (Position q)[unat V := - 1]\<rparr>)
      else discard_loop Value Level (Suc Write) Vs (put Write V q))"

fun heapify_down :: "'a::linorder list \<Rightarrow> nat \<Rightarrow> ActivityQueue \<Rightarrow> ActivityQueue" where
  "heapify_down Activity 0 q = q"
| "heapify_down Activity (Suc I) q = heapify_down Activity I (siftDown Activity I q)"

definition discardRootAssigned ::
    "'a::linorder list \<Rightarrow> int list \<Rightarrow> nat list \<Rightarrow> ActivityQueue \<Rightarrow> ActivityQueue" where
  "discardRootAssigned Activity Value Level q =
     (let (q, Write) = discard_loop Value Level (Front q) (drop (Front q) (Heap q)) q in
      if Sorted q then q else heapify_down Activity (Write div 2) q)"

definition clearQueue :: "ActivityQueue \<Rightarrow> ActivityQueue" where
  "clearQueue q = q\<lparr>Heap := [], Front := 0, Sorted := True,
                    Position := replicate (length (Position q)) (- 1)\<rparr>"

end
