(* ===== verification/Sat_Engine.thy ===== *)
theory Sat_Engine
  imports Complex_Main Sat_Float Sat_Queue
begin

text \<open>
  The clause engine: its state (\<open>SatEngine\<close> of \<open>lib/solver/sat/SatDetail.h\<close>), clause
  storage, the trail and unit propagation (\<open>SatPropagate.cpp\<close>), and the construction of the
  formula together with the read-only queries of the public solver (\<open>SatSolver.cpp\<close>).

  The arena is a store from clause references, the offsets of \<open>ClauseView\<close>, to clauses;
  \<open>ArenaWords\<close> is its size in words, so references are handed out exactly as the code does.
  A clause reference fits in 32 bits because \<open>allocClause\<close> refuses to grow the arena past
  \<open>kMaxArenaWords\<close>.  Truth values are kept as the code keeps them, \<open>1\<close>, \<open>-1\<close> and
  \<open>0\<close>.  Activities are rationals, which contain every finite double.
\<close>

section \<open>Clauses\<close>

type_synonym ClauseRef = nat

definition kNoClause :: ClauseRef where
  "kNoClause = 2 ^ 32 - 1"

definition kMaxArenaWords :: nat where
  "kMaxArenaWords = kNoClause - 1"

record clause =
  CLits :: "SatLit list"
  CLearned :: bool
  CDeleted :: bool
  CSpan :: u32
  CActivity :: rat

definition kHeaderWords :: nat where
  "kHeaderWords = 3"

definition kFlagBits :: nat where
  "kFlagBits = 2"

definition kMaxSpan :: u32 where
  "kMaxSpan = drop_bit kFlagBits (NOT 0)"

text \<open>A fresh clause as \<open>initialize\<close> and the \<open>setLit\<close> loop leave it.\<close>

definition initialize :: "SatLit list \<Rightarrow> bool \<Rightarrow> clause" where
  "initialize Lits Learned =
     \<lparr>CLits = Lits, CLearned = Learned, CDeleted = False, CSpan = 0, CActivity = 0\<rparr>"

definition clauseSize :: "clause \<Rightarrow> nat" where
  "clauseSize C = length (CLits C)"

definition markDeleted :: "clause \<Rightarrow> clause" where
  "markDeleted C = C\<lparr>CDeleted := True\<rparr>"

definition setLevelSpan :: "u32 \<Rightarrow> clause \<Rightarrow> clause" where
  "setLevelSpan Span C = C\<lparr>CSpan := min Span kMaxSpan\<rparr>"

definition lit :: "clause \<Rightarrow> nat \<Rightarrow> SatLit" where
  "lit C I = CLits C ! I"

definition swapLits :: "nat \<Rightarrow> nat \<Rightarrow> clause \<Rightarrow> clause" where
  "swapLits I J C = C\<lparr>CLits := (CLits C)[I := CLits C ! J, J := CLits C ! I]\<rparr>"

definition clauseWords :: "clause \<Rightarrow> nat" where
  "clauseWords C = kHeaderWords + clauseSize C"

record Watcher =
  WClause :: ClauseRef
  Blocker :: SatLit

section \<open>The engine state\<close>

record SatOptions =
  VarDecay :: rat
  ClauseDecay :: rat
  RestartInterval :: u64
  LearnedFraction :: rat
  LearnedGrowth :: rat
  MaxConflicts :: u64
  MaxPropagations :: u64
  MaxWatchVisits :: u64
  MinimizeLearned :: bool
  PhaseSaving :: bool
  DefaultPhase :: bool

definition defaultOptions :: SatOptions where
  "defaultOptions =
     \<lparr>VarDecay = toDouble (95 / 100), ClauseDecay = toDouble (999 / 1000), RestartInterval = 100,
      LearnedFraction = toDouble (1 / 3), LearnedGrowth = toDouble (11 / 10), MaxConflicts = 0, MaxPropagations = 0,
      MaxWatchVisits = 0, MinimizeLearned = True, PhaseSaving = True, DefaultPhase = False\<rparr>"

record SatStats =
  Decisions :: u64
  Conflicts :: u64
  Propagations :: u64
  WatchVisits :: u64
  Restarts :: u64
  LearnedClauses :: u64
  DeletedClauses :: u64
  MinimizedLiterals :: u64

definition noStats :: SatStats where
  "noStats = \<lparr>Decisions = 0, Conflicts = 0, Propagations = 0, WatchVisits = 0, Restarts = 0,
     LearnedClauses = 0, DeletedClauses = 0, MinimizedLiterals = 0\<rparr>"

record SatEngine =
  Opts :: SatOptions
  Stats :: SatStats
  SearchAttempted :: bool
  Falsified :: bool
  OutOfSpace :: bool
  Arena :: "ClauseRef \<rightharpoonup> clause"
  ArenaWords :: nat
  Clauses :: "ClauseRef list"
  Learnt :: "ClauseRef list"
  WastedWords :: nat
  Watches :: "Watcher list list"
  Value :: "int list"
  Level :: "nat list"
  Reason :: "ClauseRef list"
  Phase :: "bool list"
  Decidable :: "bool list"
  Seen :: "bool list"
  Activity :: "rat list"
  Order :: ActivityQueue
  Trail :: "SatLit list"
  TrailLim :: "nat list"
  QueueHead :: nat
  VarInc :: rat
  ClauseInc :: rat
  MaxLearnt :: rat
  ConflictBudgetAt :: u64
  PropagationBudgetAt :: u64
  WatchVisitBudgetAt :: u64
  Model :: "int list"
  FailedAssumptions :: "SatLit list"

definition newEngine :: "SatOptions \<Rightarrow> SatEngine" where
  "newEngine Options =
     \<lparr>Opts = Options, Stats = noStats, SearchAttempted = False, Falsified = False, OutOfSpace = False,
      Arena = Map.empty, ArenaWords = 0, Clauses = [], Learnt = [], WastedWords = 0, Watches = [],
      Value = [], Level = [], Reason = [], Phase = [], Decidable = [], Seen = [], Activity = [],
      Order = emptyQueue, Trail = [], TrailLim = [], QueueHead = 0, VarInc = 1, ClauseInc = 1,
      MaxLearnt = 0, ConflictBudgetAt = 0, PropagationBudgetAt = 0, WatchVisitBudgetAt = 0,
      Model = [], FailedAssumptions = []\<rparr>"

text \<open>
  The copy constructor.  The copied queue reads the activities of the copy; a queue in heap form
  drops the variables that are assigned at the root.
\<close>

definition cloneEngine :: "SatEngine \<Rightarrow> SatEngine" where
  "cloneEngine s =
     (if \<not> hasSortedPriorities (Order s)
      then s\<lparr>Order := discardRootAssigned (Activity s) (Value s) (Level s) (Order s)\<rparr> else s)"

definition numVars :: "SatEngine \<Rightarrow> nat" where
  "numVars s = length (Value s)"

definition numClauses :: "SatEngine \<Rightarrow> nat" where
  "numClauses s = length (Clauses s)"

definition numLearnedClauses :: "SatEngine \<Rightarrow> nat" where
  "numLearnedClauses s = length (Learnt s)"

definition decisionLevel :: "SatEngine \<Rightarrow> nat" where
  "decisionLevel s = length (TrailLim s)"

definition varValue :: "SatEngine \<Rightarrow> SatVar \<Rightarrow> int" where
  "varValue s V = Value s ! unat V"

definition litValue :: "SatEngine \<Rightarrow> SatLit \<Rightarrow> int" where
  "litValue s L = (let V = Value s ! unat (var L) in if isNegated L then - V else V)"

definition getClause :: "SatEngine \<Rightarrow> ClauseRef \<Rightarrow> clause" where
  "getClause s Ref = the (Arena s Ref)"

definition outOfPropagationBudget :: "SatEngine \<Rightarrow> bool" where
  "outOfPropagationBudget s \<longleftrightarrow>
     PropagationBudgetAt s \<noteq> 0 \<and> Propagations (Stats s) \<ge> PropagationBudgetAt s"

definition outOfWatchVisitBudget :: "SatEngine \<Rightarrow> bool" where
  "outOfWatchVisitBudget s \<longleftrightarrow>
     WatchVisitBudgetAt s \<noteq> 0 \<and> WatchVisits (Stats s) \<ge> WatchVisitBudgetAt s"

definition outOfBudget :: "SatEngine \<Rightarrow> bool" where
  "outOfBudget s \<longleftrightarrow>
     (ConflictBudgetAt s \<noteq> 0 \<and> Conflicts (Stats s) \<ge> ConflictBudgetAt s) \<or>
     outOfPropagationBudget s \<or> outOfWatchVisitBudget s"

definition budgetEndpoint :: "u64 \<Rightarrow> u64 \<Rightarrow> u64" where
  "budgetEndpoint Used Allowance =
     (if Allowance = 0 then 0
      else if Used > NOT 0 - Allowance then NOT 0 else Used + Allowance)"

definition captureModel :: "SatEngine \<Rightarrow> SatEngine" where
  "captureModel s = s\<lparr>Model := Value s\<rparr>"

section \<open>Clause storage\<close>

text \<open>Drop the first entry for a clause, moving the last entry into the hole.\<close>

fun removeWatch_at :: "nat \<Rightarrow> ClauseRef \<Rightarrow> Watcher list \<Rightarrow> Watcher list \<Rightarrow> Watcher list" where
  "removeWatch_at I Ref [] List = List"
| "removeWatch_at I Ref (W # Ws) List =
     (if WClause W \<noteq> Ref then removeWatch_at (Suc I) Ref Ws List
      else butlast (List[I := last List]))"

definition removeWatch :: "ClauseRef \<Rightarrow> Watcher list \<Rightarrow> Watcher list" where
  "removeWatch Ref List = removeWatch_at 0 Ref List List"

definition allocClause :: "SatLit list \<Rightarrow> bool \<Rightarrow> SatEngine \<Rightarrow> ClauseRef \<times> SatEngine" where
  "allocClause Lits Learned s =
     (let Need = kHeaderWords + length Lits in
      if ArenaWords s + Need > kMaxArenaWords then (kNoClause, s)
      else
        let Ref = ArenaWords s in
        (Ref, s\<lparr>ArenaWords := ArenaWords s + Need,
                Arena := (Arena s)(Ref \<mapsto> initialize Lits Learned)\<rparr>))"

definition pushWatch :: "SatLit \<Rightarrow> Watcher \<Rightarrow> SatEngine \<Rightarrow> SatEngine" where
  "pushWatch L W s =
     s\<lparr>Watches := (Watches s)[unat (index L) := Watches s ! unat (index L) @ [W]]\<rparr>"

definition attachClause :: "ClauseRef \<Rightarrow> SatEngine \<Rightarrow> SatEngine" where
  "attachClause Ref s =
     (let C = getClause s Ref;
          s = pushWatch (negl (lit C 0)) \<lparr>WClause = Ref, Blocker = lit C 1\<rparr> s
      in pushWatch (negl (lit C 1)) \<lparr>WClause = Ref, Blocker = lit C 0\<rparr> s)"

definition dropWatch :: "SatLit \<Rightarrow> ClauseRef \<Rightarrow> SatEngine \<Rightarrow> SatEngine" where
  "dropWatch L Ref s =
     s\<lparr>Watches := (Watches s)[unat (index L) := removeWatch Ref (Watches s ! unat (index L))]\<rparr>"

definition detachClause :: "ClauseRef \<Rightarrow> SatEngine \<Rightarrow> SatEngine" where
  "detachClause Ref s =
     (let C = getClause s Ref
      in dropWatch (negl (lit C 1)) Ref (dropWatch (negl (lit C 0)) Ref s))"

definition isLocked :: "ClauseRef \<Rightarrow> SatEngine \<Rightarrow> bool" where
  "isLocked Ref s \<longleftrightarrow>
     (let First = lit (getClause s Ref) 0 in
      litValue s First = 1 \<and> Reason s ! unat (var First) = Ref)"

section \<open>The trail\<close>

definition enqueue :: "SatLit \<Rightarrow> ClauseRef \<Rightarrow> SatEngine \<Rightarrow> SatEngine" where
  "enqueue L From s =
     (let V = unat (var L) in
      s\<lparr>Value := (Value s)[V := if isNegated L then - 1 else 1],
        Level := (Level s)[V := decisionLevel s],
        Reason := (Reason s)[V := From],
        Phase := (Phase s)[V := \<not> isNegated L],
        Trail := Trail s @ [L]\<rparr>)"

definition newDecisionLevel :: "SatEngine \<Rightarrow> SatEngine" where
  "newDecisionLevel s = s\<lparr>TrailLim := TrailLim s @ [length (Trail s)]\<rparr>"

definition unassign :: "SatLit \<Rightarrow> SatEngine \<Rightarrow> SatEngine" where
  "unassign L s =
     (let V = var L in
      s\<lparr>Value := (Value s)[unat V := 0],
        Reason := (Reason s)[unat V := kNoClause],
        Order := (if Decidable s ! unat V \<and> \<not> contains (Order s) V
                  then insertVar (Activity s) V (Order s) else Order s)\<rparr>)"

definition cancelUntil :: "nat \<Rightarrow> SatEngine \<Rightarrow> SatEngine" where
  "cancelUntil Lvl s =
     (if decisionLevel s \<le> Lvl then s
      else
        let Bound = TrailLim s ! Lvl;
            s = fold unassign (rev (drop Bound (Trail s))) s;
            s = s\<lparr>Trail := take Bound (Trail s), TrailLim := take Lvl (TrailLim s)\<rparr>
        in s\<lparr>QueueHead := length (Trail s)\<rparr>)"

section \<open>Propagation\<close>

definition setClause :: "ClauseRef \<Rightarrow> clause \<Rightarrow> SatEngine \<Rightarrow> SatEngine" where
  "setClause Ref C s = s\<lparr>Arena := (Arena s)(Ref \<mapsto> C)\<rparr>"

text \<open>The first slot from \<open>2\<close> on whose literal is not false, or the size of the clause.\<close>

fun findReplacement :: "SatEngine \<Rightarrow> nat \<Rightarrow> SatLit list \<Rightarrow> nat" where
  "findReplacement s K [] = K"
| "findReplacement s K (L # Ls) =
     (if litValue s L \<noteq> - 1 then K else findReplacement s (Suc K) Ls)"

text \<open>Put the falsified watch in slot one, leaving slot zero for the literal the clause would force.\<close>

definition normaliseWatch :: "SatLit \<Rightarrow> ClauseRef \<Rightarrow> SatEngine \<Rightarrow> SatEngine" where
  "normaliseWatch P Ref s =
     (if lit (getClause s Ref) 0 = negl P
      then setClause Ref (swapLits 0 1 (getClause s Ref)) s else s)"

text \<open>
  The part of a visit that reads the clause.  The result says what stays in the list being
  scanned, the entry the scan writes back if any, and whether the clause is falsified.
\<close>

definition visitClause :: "Watcher \<Rightarrow> SatEngine \<Rightarrow> Watcher option \<times> bool \<times> SatEngine" where
  "visitClause W s =
     (let C = getClause s (WClause W);
          First = lit C 0
      in
      if First \<noteq> Blocker W \<and> litValue s First = 1
      then (Some \<lparr>WClause = WClause W, Blocker = First\<rparr>, False, s)
      else
        let Size = clauseSize C;
            Replacement = findReplacement s 2 (drop 2 (CLits C))
        in
        if Replacement < Size then
          let C = swapLits 1 Replacement C;
              s = setClause (WClause W) C s
          in (None, False,
              pushWatch (negl (lit C 1)) \<lparr>WClause = WClause W, Blocker = First\<rparr> s)
        else if litValue s First = - 1
        then (Some \<lparr>WClause = WClause W, Blocker = First\<rparr>, True,
              s\<lparr>QueueHead := length (Trail s)\<rparr>)
        else (Some \<lparr>WClause = WClause W, Blocker = First\<rparr>, False,
              enqueue First (WClause W) s))"

definition visit :: "SatLit \<Rightarrow> Watcher \<Rightarrow> SatEngine \<Rightarrow> Watcher option \<times> bool \<times> SatEngine" where
  "visit P W s =
     (let s = s\<lparr>Stats := (Stats s)\<lparr>WatchVisits := WatchVisits (Stats s) + 1\<rparr>\<rparr> in
      if litValue s (Blocker W) = 1 then (Some W, False, s)
      else visitClause W (normaliseWatch P (WClause W) s))"

text \<open>
  The scan of one watch list: \<open>Kept\<close> is what has been written back, the second list what has
  not been read.  An interrupted or conflicting scan keeps the unread suffix.
\<close>

fun scan :: "SatLit \<Rightarrow> Watcher list \<Rightarrow> Watcher list \<Rightarrow> SatEngine \<Rightarrow> Watcher list \<times> ClauseRef \<times> SatEngine"
where
  "scan P Kept [] s = (Kept, kNoClause, s)"
| "scan P Kept (W # Ws) s =
     (if outOfWatchVisitBudget s
      then (Kept @ W # Ws, kNoClause, s\<lparr>QueueHead := QueueHead s - 1\<rparr>)
      else
        case visit P W s of (Keep, Conflict, s) \<Rightarrow>
          let Kept = Kept @ (case Keep of None \<Rightarrow> [] | Some W \<Rightarrow> [W]) in
          if Conflict then (Kept @ Ws, WClause W, s) else scan P Kept Ws s)"

text \<open>One round of the propagation loop: the next literal of the trail and its watch list.\<close>

definition propagateNext :: "SatEngine \<Rightarrow> ClauseRef \<times> SatEngine" where
  "propagateNext s =
     (let P = Trail s ! QueueHead s;
          s = s\<lparr>QueueHead := QueueHead s + 1,
                Stats := (Stats s)\<lparr>Propagations := Propagations (Stats s) + 1\<rparr>\<rparr>
      in case scan P [] (Watches s ! unat (index P)) s of (List, Conflict, s) \<Rightarrow>
           (Conflict, s\<lparr>Watches := (Watches s)[unat (index P) := List]\<rparr>))"

text \<open>
  The loop of \<open>propagate\<close>, with fuel.  The trail never holds more literals than there are
  variables, so \<open>propagate\<close> gives the loop one round per variable and two more: an interrupted
  scan leaves its literal to be replayed, and the last round only finds the loop condition false.
\<close>

fun propagate_loop :: "nat \<Rightarrow> ClauseRef \<Rightarrow> SatEngine \<Rightarrow> ClauseRef \<times> SatEngine" where
  "propagate_loop 0 Conflict s = (Conflict, s)"
| "propagate_loop (Suc Fuel) Conflict s =
     (if QueueHead s < length (Trail s) then
        if outOfPropagationBudget s \<or> outOfWatchVisitBudget s then (Conflict, s)
        else
          case propagateNext s of (Found, s) \<Rightarrow>
            propagate_loop Fuel (if Found \<noteq> kNoClause then Found else Conflict) s
      else (Conflict, s))"

definition propagate :: "SatEngine \<Rightarrow> ClauseRef \<times> SatEngine" where
  "propagate s = propagate_loop (numVars s + 2) kNoClause s"

section \<open>Building the formula\<close>

definition newVar :: "bool \<Rightarrow> SatEngine \<Rightarrow> SatVar \<times> SatEngine" where
  "newVar Decision s =
     (if numVars s > unat kMaxSatVar then (kInvalidSatVar, s)
      else
        let V = word_of_nat (numVars s);
            s = s\<lparr>Value := Value s @ [0], Level := Level s @ [0],
                  Reason := Reason s @ [kNoClause],
                  Phase := Phase s @ [DefaultPhase (Opts s)],
                  Decidable := Decidable s @ [Decision], Seen := Seen s @ [False],
                  Activity := Activity s @ [0], Watches := Watches s @ [[], []]\<rparr>;
            s = s\<lparr>Order := grow (numVars s) (Order s)\<rparr>
        in (V, if Decision then s\<lparr>Order := insertVar (Activity s) V (Order s)\<rparr> else s))"

text \<open>
  The simplification of a sorted clause against the root assignment: \<open>None\<close> when the clause is
  already true or holds both polarities of a variable.
\<close>

fun simplifyClause :: "SatEngine \<Rightarrow> SatLit \<Rightarrow> SatLit list \<Rightarrow> SatLit list option" where
  "simplifyClause s Prev [] = Some []"
| "simplifyClause s Prev (L # Ls) =
     (let V = litValue s L in
      if V = 1 then None
      else if isValid Prev \<and> L = negl Prev then None
      else if V = - 1 \<or> (isValid Prev \<and> L = Prev) then simplifyClause s Prev Ls
      else map_option ((#) L) (simplifyClause s L Ls))"

definition addClause :: "SatLit list \<Rightarrow> SatEngine \<Rightarrow> bool \<times> SatEngine" where
  "addClause Lits s =
     (if Falsified s \<or> OutOfSpace s then (False, s)
      else
        let s = cancelUntil 0 s in
        if \<exists>L \<in> set Lits. \<not> isValid L \<or> unat (var L) \<ge> numVars s then (False, s)
        else
          case simplifyClause s noLit (sort Lits) of
            None \<Rightarrow> (True, s)
          | Some [] \<Rightarrow> (False, s\<lparr>Falsified := True\<rparr>)
          | Some [L] \<Rightarrow>
              (case propagate (enqueue L kNoClause s) of (Conflict, s) \<Rightarrow>
                 if Conflict \<noteq> kNoClause then (False, s\<lparr>Falsified := True\<rparr>) else (True, s))
          | Some C \<Rightarrow>
              (case allocClause C False s of (Ref, s) \<Rightarrow>
                 if Ref = kNoClause then (False, s\<lparr>OutOfSpace := True\<rparr>)
                 else (True, attachClause Ref (s\<lparr>Clauses := Clauses s @ [Ref]\<rparr>))))"

section \<open>Reading the state\<close>

definition canCloneEncoding :: "SatEngine \<Rightarrow> bool" where
  "canCloneEncoding s \<longleftrightarrow> \<not> SearchAttempted s \<and> \<not> OutOfSpace s"

definition modelVarValue :: "SatEngine \<Rightarrow> SatVar \<Rightarrow> SatValue" where
  "modelVarValue s V =
     (if unat V \<ge> length (Model s) then VUnknown
      else
        let Val = Model s ! unat V in
        if Val = 0 then VUnknown else if Val > 0 then VTrue else VFalse)"

definition modelValue :: "SatEngine \<Rightarrow> SatLit \<Rightarrow> SatValue" where
  "modelValue s L =
     (let V = modelVarValue s (var L) in if isNegated L then negate V else V)"

definition rootValue :: "SatEngine \<Rightarrow> SatLit \<Rightarrow> SatValue" where
  "rootValue s L =
     (if \<not> isValid L \<or> unat (var L) \<ge> numVars s \<or> Falsified s then VUnknown
      else
        let V = Value s ! unat (var L) in
        if V = 0 \<or> Level s ! unat (var L) \<noteq> 0 then VUnknown
        else
          let Result = (if V > 0 then VTrue else VFalse) in
          if isNegated L then negate Result else Result)"

end
