(* ===== verification/Sat_Propagation.thy ===== *)
theory Sat_Propagation
  imports Sat_Engine
begin

text \<open>
  Unit propagation is correct.  The invariants of the search state are stated on its parts: stored
  clauses have at least two distinct literals of known variables (\<open>arena_ok\<close>), the trail
  and the value table agree (\<open>trail_ok\<close>), every clause is filed exactly under the
  complements of its two watched literals (\<open>watch_ok\<close>), and a clause with a watched literal
  whose complement has been processed is satisfied (\<open>settled\<close>).  Every branch of a visit,
  the scan of a list, a round of the loop and the loop itself keep them.  The models of the clauses
  and the trail never change, so propagation derives only consequences, and what it leaves when it
  stops without a conflict and within its budget has no unit and no falsified clause.
\<close>

section \<open>Invariants of the search state\<close>

definition clits :: "(ClauseRef \<rightharpoonup> clause) \<Rightarrow> ClauseRef \<Rightarrow> SatLit list" where
  "clits A r = CLits (the (A r))"

definition wl :: "Watcher list list \<Rightarrow> SatLit \<Rightarrow> Watcher list" where
  "wl ws P = ws ! unat (index P)"

definition worth :: "int list \<Rightarrow> SatLit \<Rightarrow> int" where
  "worth Val L = (if isNegated L then - (Val ! unat (var L)) else Val ! unat (var L))"

definition arena_ok :: "(ClauseRef \<rightharpoonup> clause) \<Rightarrow> ClauseRef set \<Rightarrow> nat \<Rightarrow> bool" where
  "arena_ok A R n \<longleftrightarrow>
     (\<forall>r \<in> R. r \<in> dom A \<and> 2 \<le> length (clits A r) \<and> distinct (clits A r) \<and>
        (\<forall>L \<in> set (clits A r). unat (var L) < n))"

definition trail_ok :: "int list \<Rightarrow> SatLit list \<Rightarrow> bool" where
  "trail_ok Val T \<longleftrightarrow>
     distinct (map var T) \<and>
     (\<forall>L \<in> set T. unat (var L) < length Val \<and> worth Val L = 1) \<and>
     (\<forall>v < length Val. Val ! v \<in> {- 1, 0, 1} \<and>
        (Val ! v \<noteq> 0 \<longrightarrow> (\<exists>L \<in> set T. unat (var L) = v)))"

definition watch_ok ::
    "(ClauseRef \<rightharpoonup> clause) \<Rightarrow> ClauseRef set \<Rightarrow> nat \<Rightarrow> Watcher list list \<Rightarrow> bool" where
  "watch_ok A R n ws \<longleftrightarrow>
     length ws = 2 * n \<and>
     (\<forall>P. unat (var P) < n \<longrightarrow>
        distinct (map WClause (wl ws P)) \<and>
        (\<forall>W \<in> set (wl ws P). WClause W \<in> R \<and>
           negl P \<in> {clits A (WClause W) ! 0, clits A (WClause W) ! 1} \<and>
           Blocker W \<in> set (clits A (WClause W)))) \<and>
     (\<forall>r \<in> R. \<forall>k < 2. r \<in> WClause ` set (wl ws (negl (clits A r ! k))))"

text \<open>
  Clauses with a watch among the literals whose complement has been processed are satisfied, apart
  from the pairs of clause and literal still pending.
\<close>

definition settled ::
    "(ClauseRef \<rightharpoonup> clause) \<Rightarrow> ClauseRef set \<Rightarrow> int list \<Rightarrow> SatLit set \<Rightarrow> (ClauseRef \<times> SatLit) set \<Rightarrow> bool"
where
  "settled A R Val Q X \<longleftrightarrow>
     (\<forall>r \<in> R. \<forall>k < 2. negl (clits A r ! k) \<in> Q \<longrightarrow> (r, negl (clits A r ! k)) \<notin> X \<longrightarrow>
        (\<exists>L \<in> set (clits A r). worth Val L = 1))"

definition models_of :: "(ClauseRef \<rightharpoonup> clause) \<Rightarrow> ClauseRef set \<Rightarrow> SatLit list \<Rightarrow> assignment set" where
  "models_of A R T = {m. (\<forall>r \<in> R. clause_true m (clits A r)) \<and> (\<forall>L \<in> set T. lit_true m L)}"

section \<open>Lists of watchers\<close>

declare index_inj [simp]

lemma unat_index_less [simp]: "unat (var P) < n \<Longrightarrow> unat (index P) < 2 * n"
  by (cases "isNegated P") (simp_all add: unat_index)

lemma wl_update:
  "length ws = 2 * n \<Longrightarrow> unat (var P) < n \<Longrightarrow>
     wl (ws[unat (index P) := x]) Q = (if Q = P then x else wl ws Q)"
  by (auto simp: wl_def nth_list_update)

section \<open>Truth of literals\<close>

lemma worth_negl [simp]: "worth Val (negl L) = - worth Val L"
  by (simp add: worth_def)

lemma litValue_worth: "litValue s L = worth (Value s) L"
  by (simp add: litValue_def worth_def Let_def)

lemma trail_ok_true: "trail_ok Val T \<Longrightarrow> L \<in> set T \<Longrightarrow> worth Val L = 1"
  by (simp add: trail_ok_def)

lemma trail_ok_false: "trail_ok Val T \<Longrightarrow> negl L \<in> set T \<Longrightarrow> worth Val L = - 1"
  using trail_ok_true [of Val T "negl L"] by simp

lemma trail_ok_range: "trail_ok Val T \<Longrightarrow> unat (var L) < length Val \<Longrightarrow> worth Val L \<in> {- 1, 0, 1}"
  by (auto simp: trail_ok_def worth_def)

lemma trail_ok_worth_1:
  assumes t: "trail_ok Val T" and r: "unat (var L) < length Val" and w: "worth Val L = 1"
  shows "L \<in> set T"
proof -
  from w have "Val ! unat (var L) \<noteq> 0" by (auto simp: worth_def split: if_splits)
  with t r obtain M where M: "M \<in> set T" "var M = var L"
    by (auto simp: trail_ok_def)
  with t have "worth Val M = 1" by (simp add: trail_ok_true)
  with M w have "M = L" using same_var_cases [of M L] by auto
  with M show ?thesis by simp
qed

lemma trail_ok_worth_minus:
  "trail_ok Val T \<Longrightarrow> unat (var L) < length Val \<Longrightarrow> worth Val L = - 1 \<Longrightarrow> negl L \<in> set T"
  by (rule trail_ok_worth_1) simp_all

lemma trail_ok_length: "trail_ok Val T \<Longrightarrow> length T \<le> length Val"
proof -
  assume t: "trail_ok Val T"
  have "inj_on unat (set (map var T))" by (simp add: inj_on_def)
  with t have "card (unat ` set (map var T)) = length T"
    using distinct_card [of "map var T"] by (simp add: trail_ok_def card_image)
  moreover have "unat ` set (map var T) \<subseteq> {..<length Val}" using t by (auto simp: trail_ok_def)
  then have "card (unat ` set (map var T)) \<le> card {..<length Val}" by (intro card_mono) auto
  ultimately show ?thesis by simp
qed

definition assign :: "SatLit \<Rightarrow> int list \<Rightarrow> int list" where
  "assign L Val = Val[unat (var L) := if isNegated L then - 1 else 1]"

lemma length_assign [simp]: "length (assign L Val) = length Val"
  by (simp add: assign_def)

lemma worth_assign:
  "unat (var L) < length Val \<Longrightarrow> worth (assign L Val) M =
     (if M = L then 1 else if M = negl L then - 1 else worth Val M)"
  using same_var_cases [of M L] by (auto simp: worth_def assign_def nth_list_update)

lemma trail_ok_assign:
  assumes t: "trail_ok Val T" and r: "unat (var L) < length Val" and w: "worth Val L = 0"
  shows "trail_ok (assign L Val) (T @ [L])"
proof -
  have new: "var L \<notin> var ` set T"
  proof
    assume "var L \<in> var ` set T"
    then obtain M where "M \<in> set T" "var M = var L" by auto
    with t w same_var_cases [of M L] show False by (auto dest: trail_ok_true)
  qed
  then have "worth (assign L Val) M = 1" if "M \<in> set T" for M
    using that t r w by (auto simp: worth_assign dest: trail_ok_true)
  moreover have "worth (assign L Val) L = 1" using r by (simp add: worth_assign)
  moreover have "assign L Val ! v \<in> {- 1, 0, 1}" if "v < length Val" for v
    using t that by (cases "v = unat (var L)") (auto simp: trail_ok_def assign_def)
  moreover have "assign L Val ! v \<noteq> 0 \<Longrightarrow> \<exists>M \<in> set (T @ [L]). unat (var M) = v" if "v < length Val" for v
    using t that by (cases "v = unat (var L)") (auto simp: trail_ok_def assign_def)
  ultimately show ?thesis using t r new by (auto simp: trail_ok_def)
qed

lemma models_of_snoc: "models_of A R (T @ [L]) = {m \<in> models_of A R T. lit_true m L}"
  by (auto simp: models_of_def)

lemma models_of_trail: "m \<in> models_of A R T \<Longrightarrow> L \<in> set T \<Longrightarrow> lit_true m L"
  by (simp add: models_of_def)

text \<open>A clause whose other literals are all false forces the one that is left.\<close>

lemma models_of_forced:
  assumes m: "m \<in> models_of A R T" and r: "r \<in> R" and t: "trail_ok Val T"
    and f: "\<forall>L \<in> set (clits A r) - {F}. unat (var L) < length Val \<and> worth Val L = - 1"
  shows "lit_true m F"
proof (rule ccontr)
  assume nF: "\<not> lit_true m F"
  from m r obtain L where L: "L \<in> set (clits A r)" "lit_true m L"
    by (auto simp: models_of_def clause_true_def)
  with nF have "L \<noteq> F" by auto
  with L f have "negl L \<in> set T" using trail_ok_worth_minus [OF t, of L] by blast
  with m have "lit_true m (negl L)" by (rule models_of_trail)
  with L show False by simp
qed

section \<open>Moving literals within a clause\<close>

definition swap_in :: "ClauseRef \<Rightarrow> nat \<Rightarrow> nat \<Rightarrow> (ClauseRef \<rightharpoonup> clause) \<Rightarrow> ClauseRef \<rightharpoonup> clause" where
  "swap_in r i j A = A(r \<mapsto> swapLits i j (the (A r)))"

lemma clits_swap_in:
  "clits (swap_in r i j A) r' =
     (if r' = r then (clits A r)[i := clits A r ! j, j := clits A r ! i] else clits A r')"
  by (simp add: clits_def swap_in_def swapLits_def)

lemma clits_swap_set [simp]:
  "i < length (clits A r) \<Longrightarrow> j < length (clits A r) \<Longrightarrow>
     set (clits (swap_in r i j A) r') = set (clits A r')"
  by (simp add: clits_swap_in)

lemma clits_swap_length [simp]: "length (clits (swap_in r i j A) r') = length (clits A r')"
  by (simp add: clits_swap_in)

lemma clits_swap_distinct [simp]:
  "i < length (clits A r) \<Longrightarrow> j < length (clits A r) \<Longrightarrow>
     distinct (clits (swap_in r i j A) r') = distinct (clits A r')"
  by (simp add: clits_swap_in)

lemma arena_ok_swap:
  "arena_ok A R n \<Longrightarrow> i < length (clits A r) \<Longrightarrow> j < length (clits A r) \<Longrightarrow>
     arena_ok (swap_in r i j A) R n"
  by (auto simp: arena_ok_def swap_in_def [of r i j A, THEN fun_cong] split: if_splits)

lemma models_of_swap:
  "i < length (clits A r) \<Longrightarrow> j < length (clits A r) \<Longrightarrow>
     models_of (swap_in r i j A) R T = models_of A R T"
  by (simp add: models_of_def clause_true_def)

lemma clits_swap_01:
  assumes "2 \<le> length (clits A r)"
  shows "clits (swap_in r 0 1 A) r ! 0 = clits A r ! 1"
    "clits (swap_in r 0 1 A) r ! 1 = clits A r ! 0"
proof -
  from assms have "0 < length (clits A r)" "1 < length (clits A r)" by linarith+
  then show "clits (swap_in r 0 1 A) r ! 0 = clits A r ! 1"
    "clits (swap_in r 0 1 A) r ! 1 = clits A r ! 0" by (simp_all add: clits_swap_in nth_list_update)
qed

lemma watch_ok_swap_01:
  assumes w: "watch_ok A R n ws" and l: "2 \<le> length (clits A r)"
  shows "watch_ok (swap_in r 0 1 A) R n ws"
proof -
  let ?A = "swap_in r 0 1 A"
  from l have idx: "0 < length (clits A r)" "1 < length (clits A r)" by linarith+
  have pair: "{clits ?A x ! 0, clits ?A x ! 1} = {clits A x ! 0, clits A x ! 1}" for x
    using clits_swap_01 [OF l] clits_swap_in [of r 0 1 A x] by (cases "x = r") auto
  have slots: "\<exists>j < 2. clits ?A x ! k = clits A x ! j" if "k < 2" for x k
    using that clits_swap_01 [OF l] pair [of x] by (auto simp: less_2_cases_iff)
  show ?thesis unfolding watch_ok_def pair clits_swap_set [OF idx]
  proof (intro conjI ballI allI impI)
    fix x k :: nat assume "x \<in> R" "k < 2"
    with slots [of k x] w show "x \<in> WClause ` set (wl ws (negl (clits ?A x ! k)))"
      by (auto simp: watch_ok_def)
  qed (use w in \<open>auto simp: watch_ok_def\<close>)
qed

lemma settled_swap_01:
  assumes s: "settled A R Val Q X" and l: "2 \<le> length (clits A r)"
  shows "settled (swap_in r 0 1 A) R Val Q X"
  unfolding settled_def
proof (intro ballI allI impI)
  let ?A = "swap_in r 0 1 A"
  fix x k :: nat
  assume x: "x \<in> R" "k < 2" "negl (clits ?A x ! k) \<in> Q" "(x, negl (clits ?A x ! k)) \<notin> X"
  have "\<exists>j < 2. clits ?A x ! k = clits A x ! j"
    using \<open>k < 2\<close> clits_swap_01 [OF l] by (cases "x = r") (auto simp: clits_swap_in less_2_cases_iff)
  with x s have "\<exists>L \<in> set (clits A x). worth Val L = 1" by (auto simp: settled_def)
  moreover have "0 < length (clits A r)" "1 < length (clits A r)" using l by linarith+
  ultimately show "\<exists>L \<in> set (clits ?A x). worth Val L = 1" by (simp only: clits_swap_set)
qed

section \<open>The watch lists during a scan\<close>

lemma watch_okD:
  assumes "watch_ok A R n ws" "unat (var P) < n" "W \<in> set (wl ws P)"
  shows "WClause W \<in> R" "negl P \<in> {clits A (WClause W) ! 0, clits A (WClause W) ! 1}"
    "Blocker W \<in> set (clits A (WClause W))"
  using assms by (auto simp: watch_ok_def)

lemma watch_ok_distinct: "watch_ok A R n ws \<Longrightarrow> unat (var P) < n \<Longrightarrow> distinct (map WClause (wl ws P))"
  by (simp add: watch_ok_def)

lemma watch_ok_length: "watch_ok A R n ws \<Longrightarrow> length ws = 2 * n"
  by (simp add: watch_ok_def)

lemma watch_ok_covers:
  "watch_ok A R n ws \<Longrightarrow> r \<in> R \<Longrightarrow> k < 2 \<Longrightarrow> r \<in> WClause ` set (wl ws (negl (clits A r ! k)))"
  by (simp add: watch_ok_def)

lemma watch_okI:
  assumes "length ws = 2 * n"
    and "\<And>P. unat (var P) < n \<Longrightarrow> distinct (map WClause (wl ws P))"
    and "\<And>P W. unat (var P) < n \<Longrightarrow> W \<in> set (wl ws P) \<Longrightarrow> WClause W \<in> R \<and>
        negl P \<in> {clits A (WClause W) ! 0, clits A (WClause W) ! 1} \<and>
        Blocker W \<in> set (clits A (WClause W))"
    and "\<And>r k. r \<in> R \<Longrightarrow> k < 2 \<Longrightarrow> r \<in> WClause ` set (wl ws (negl (clits A r ! k)))"
  shows "watch_ok A R n ws"
  using assms by (simp add: watch_ok_def)

text \<open>Recording another literal of the same clause as the blocker of an entry.\<close>

lemma watch_ok_blocker:
  assumes w: "watch_ok A R n (ws[unat (index P) := K @ W # Ws])" and P: "unat (var P) < n"
    and F: "F \<in> set (clits A (WClause W))"
  shows "watch_ok A R n (ws[unat (index P) := K @ \<lparr>WClause = WClause W, Blocker = F\<rparr> # Ws])"
    (is "watch_ok _ _ _ ?new")
proof -
  let ?old = "ws[unat (index P) := K @ W # Ws]"
  have len: "length ws = 2 * n" using watch_ok_length [OF w] by simp
  note upd = wl_update [OF len P]
  have cl: "WClause ` set (wl ?new Q) = WClause ` set (wl ?old Q)"
    "map WClause (wl ?new Q) = map WClause (wl ?old Q)" for Q by (auto simp: upd)
  have old: "\<exists>W'. W' \<in> set (wl ?old Q) \<and> WClause W' = WClause V \<and>
      (Blocker V = Blocker W' \<or> Blocker V = F \<and> WClause V = WClause W)"
    if "V \<in> set (wl ?new Q)" for V Q
    using that by (cases "Q = P") (auto simp: upd)
  show ?thesis
  proof (rule watch_okI)
    fix Q V assume "unat (var Q) < n" "V \<in> set (wl ?new Q)"
    with old watch_okD [OF w] F
    show "WClause V \<in> R \<and> negl Q \<in> {clits A (WClause V) ! 0, clits A (WClause V) ! 1} \<and>
        Blocker V \<in> set (clits A (WClause V))" by metis
  qed (use w len cl in \<open>simp_all add: watch_ok_def\<close>)
qed

lemma distinct_other: "distinct (map f (xs @ x # ys)) \<Longrightarrow> y \<in> set (xs @ ys) \<Longrightarrow> f y \<noteq> f x"
  by (force simp: image_iff)

lemma distinct_slots:
  assumes "distinct xs" "2 \<le> k" "k < length xs"
  shows "xs ! k \<noteq> xs ! 0" "xs ! k \<noteq> xs ! 1" "xs ! 0 \<noteq> xs ! 1"
proof -
  from assms have "0 < length xs" "1 < length xs" by linarith+
  with assms show "xs ! k \<noteq> xs ! 0" "xs ! k \<noteq> xs ! 1" "xs ! 0 \<noteq> xs ! 1"
    by (auto simp: nth_eq_iff_index_eq)
qed

text \<open>Watching another literal of a clause instead of the falsified one.\<close>

lemma watch_ok_move:
  assumes w: "watch_ok A R n (ws[unat (index P) := K @ W # Ws])" and P: "unat (var P) < n"
    and a: "arena_ok A R n" and r: "r = WClause W" and one: "clits A r ! 1 = negl P"
    and k: "2 \<le> k" "k < length (clits A r)" and q: "q = negl (clits A r ! k)"
    and F: "F \<in> set (clits A r)"
  shows "watch_ok (swap_in r 1 k A) R n
    (ws[unat (index q) := wl ws q @ [\<lparr>WClause = r, Blocker = F\<rparr>], unat (index P) := K @ Ws])"
    (is "watch_ok ?A _ _ ?new")
proof -
  let ?old = "ws[unat (index P) := K @ W # Ws]"
  have len: "length ws = 2 * n" using watch_ok_length [OF w] by simp
  note upd = wl_update [OF len P]
  have Wold: "W \<in> set (wl ?old P)" by (simp add: upd)
  have rR: "r \<in> R" using watch_okD(1) [OF w P Wold] r by simp
  with a have rc: "distinct (clits A r)" "2 \<le> length (clits A r)"
    "\<forall>L \<in> set (clits A r). unat (var L) < n" by (auto simp: arena_ok_def)
  have neq: "clits A r ! k \<noteq> clits A r ! 0" "clits A r ! k \<noteq> clits A r ! 1"
    "clits A r ! 0 \<noteq> clits A r ! 1"
    using distinct_slots [OF rc(1) k] by auto
  have qP: "q \<noteq> P" using neq(2) one q by (metis negl_negl)
  have qn: "unat (var q) < n" using rc k q by simp
  have new: "wl ?new Q = (if Q = P then K @ Ws else if Q = q
      then wl ?old q @ [\<lparr>WClause = r, Blocker = F\<rparr>] else wl ?old Q)" for Q
    using len P qn qP by (simp add: wl_update [where n = n])
  have slots: "clits ?A r ! 0 = clits A r ! 0" "clits ?A r ! 1 = clits A r ! k"
    using k rc by (auto simp: clits_swap_in nth_list_update)
  have other: "clits ?A x = clits A x" if "x \<noteq> r" for x using that by (simp add: clits_swap_in)
  have sets: "set (clits ?A x) = set (clits A x)" for x using k rc by simp
  have dP: "distinct (map WClause (K @ W # Ws))" using watch_ok_distinct [OF w P] by (simp add: upd)
  have notq: "r \<notin> WClause ` set (wl ?old q)"
    using watch_okD(2) [OF w qn] neq q by (metis image_iff insertE negl_negl singletonD)
  show ?thesis
  proof (rule watch_okI)
    show "length ?new = 2 * n" using len by simp
  next
    fix Q assume Q: "unat (var Q) < n"
    show "distinct (map WClause (wl ?new Q))"
      using watch_ok_distinct [OF w Q] dP notq by (auto simp: new)
  next
    fix Q V assume Q: "unat (var Q) < n" and V: "V \<in> set (wl ?new Q)"
    show "WClause V \<in> R \<and> negl Q \<in> {clits ?A (WClause V) ! 0, clits ?A (WClause V) ! 1} \<and>
        Blocker V \<in> set (clits ?A (WClause V))"
    proof (cases "V \<in> set (wl ?old Q)")
      case True
      note old = watch_okD [OF w Q True]
      show ?thesis
      proof (cases "WClause V = r")
        case False
        from old show ?thesis by (simp only: other [OF False] sets simp_thms)
      next
        case r': True
        have "V \<in> set (K @ Ws)" if "Q = P" using V by (simp only: that new simp_thms if_True)
        with distinct_other [OF dP] r' r have "Q \<noteq> P" by metis
        then have "negl Q \<noteq> clits A r ! 1" using one by (metis negl_negl)
        with old r' slots sets show ?thesis by auto
      qed
    next
      case False
      with V have "Q = q" "V = \<lparr>WClause = r, Blocker = F\<rparr>"
        by (auto simp: new upd split: if_splits)
      with rR slots F q sets show ?thesis by simp
    qed
  next
    fix x k' assume x: "x \<in> R" and k': "k' < (2::nat)"
    show "x \<in> WClause ` set (wl ?new (negl (clits ?A x ! k')))"
    proof (cases "x = r")
      case False
      from watch_ok_covers [OF w x k'] obtain V where
        V: "V \<in> set (wl ?old (negl (clits A x ! k')))" "WClause V = x" by auto
      with False r have "V \<noteq> W" by metis
      with V(1) have "V \<in> set (wl ?new (negl (clits A x ! k')))"
        unfolding new upd by (auto split: if_splits)
      with V(2) other [OF False] show ?thesis by auto
    next
      case True
      have "r \<in> WClause ` set (wl ?old (negl (clits A r ! 0)))"
        using watch_ok_covers [OF w rR, of 0] by simp
      moreover have "negl (clits A r ! 0) \<noteq> P" using neq(3) one by (metis negl_negl)
      ultimately have "r \<in> WClause ` set (wl ?new (negl (clits ?A r ! 0)))"
        unfolding slots new by simp
      moreover have "r \<in> WClause ` set (wl ?new (negl (clits ?A r ! 1)))"
        using qP q unfolding slots new by simp
      ultimately show ?thesis using True k' by (auto simp: less_2_cases_iff)
    qed
  qed
qed

section \<open>Settled clauses\<close>

lemma settled_drop:
  assumes s: "settled A R Val Q X" and "\<exists>L \<in> set (clits A r). worth Val L = 1"
  shows "settled A R Val Q (X - {(r, P)})"
  using assms by (fastforce simp: settled_def)

lemma settled_mono:
  assumes "settled A R Val Q X" and "\<And>L. worth Val L = 1 \<Longrightarrow> worth Val' L = 1"
  shows "settled A R Val' Q X"
  using assms unfolding settled_def by meson

lemma settled_move:
  assumes s: "settled A R Val Q X" and r: "2 \<le> length (clits A r)"
    and one: "clits A r ! 1 = negl P"
    and k: "2 \<le> k" "k < length (clits A r)" and d: "clits A r ! 0 \<noteq> clits A r ! 1"
    and n: "negl (clits A r ! k) \<notin> Q" and X: "\<And>L. (r, L) \<in> X \<Longrightarrow> L = P"
  shows "settled (swap_in r 1 k A) R Val Q (X - {(r, P)})"
  unfolding settled_def
proof (intro ballI allI impI)
  let ?A = "swap_in r 1 k A"
  fix x j :: nat
  assume x: "x \<in> R" "j < 2" "negl (clits ?A x ! j) \<in> Q"
    "(x, negl (clits ?A x ! j)) \<notin> X - {(r, P)}"
  have slots: "clits ?A r ! 0 = clits A r ! 0" "clits ?A r ! 1 = clits A r ! k"
    using k r by (auto simp: clits_swap_in nth_list_update)
  have "\<exists>L \<in> set (clits A x). worth Val L = 1"
  proof (cases "x = r")
    case False
    with x s show ?thesis by (auto simp: settled_def clits_swap_in)
  next
    case True
    with x n slots have j: "j = 0" by (auto simp: less_2_cases_iff)
    have "negl (clits A r ! 0) \<noteq> P" using d one by (metis negl_negl)
    with X have "(r, negl (clits A r ! 0)) \<notin> X" by auto
    moreover have "negl (clits A r ! 0) \<in> Q" using x j True slots by simp
    ultimately show ?thesis
      using s [unfolded settled_def, rule_format, of r 0] x True by simp
  qed
  with k r show "\<exists>L \<in> set (clits ?A x). worth Val L = 1" by simp
qed

section \<open>One visit\<close>

definition refs :: "SatEngine \<Rightarrow> ClauseRef set" where
  "refs s = set (Clauses s) \<union> set (Learnt s)"

definition processed :: "SatEngine \<Rightarrow> SatLit set" where
  "processed s = set (take (QueueHead s) (Trail s))"

definition base_ok :: "SatEngine \<Rightarrow> bool" where
  "base_ok s \<longleftrightarrow> arena_ok (Arena s) (refs s) (numVars s) \<and> trail_ok (Value s) (Trail s) \<and>
     QueueHead s \<le> length (Trail s) \<and> kNoClause \<notin> refs s"

definition pending :: "SatLit \<Rightarrow> Watcher list \<Rightarrow> (ClauseRef \<times> SatLit) set" where
  "pending P Ws = (\<lambda>W. (WClause W, P)) ` set Ws"

definition watching :: "SatLit \<Rightarrow> Watcher list \<Rightarrow> SatEngine \<Rightarrow> bool" where
  "watching P L s \<longleftrightarrow> base_ok s \<and> P \<in> processed s \<and>
     watch_ok (Arena s) (refs s) (numVars s) ((Watches s)[unat (index P) := L])"

definition scanning :: "SatLit \<Rightarrow> Watcher list \<Rightarrow> Watcher list \<Rightarrow> SatEngine \<Rightarrow> bool" where
  "scanning P Kept Ws s \<longleftrightarrow> watching P (Kept @ Ws) s \<and>
     settled (Arena s) (refs s) (Value s) (processed s) (pending P Ws)"

definition models :: "SatEngine \<Rightarrow> assignment set" where
  "models s = models_of (Arena s) (refs s) (Trail s)"

text \<open>What propagation leaves alone.\<close>

definition prop_frame :: "SatEngine \<Rightarrow> SatEngine \<Rightarrow> bool" where
  "prop_frame s s' \<longleftrightarrow>
     Opts s' = Opts s \<and> SearchAttempted s' = SearchAttempted s \<and> Falsified s' = Falsified s \<and>
     OutOfSpace s' = OutOfSpace s \<and> ArenaWords s' = ArenaWords s \<and> dom (Arena s') = dom (Arena s) \<and>
     Clauses s' = Clauses s \<and> Learnt s' = Learnt s \<and> TrailLim s' = TrailLim s \<and>
     ConflictBudgetAt s' = ConflictBudgetAt s \<and> PropagationBudgetAt s' = PropagationBudgetAt s \<and>
     WatchVisitBudgetAt s' = WatchVisitBudgetAt s \<and> Model s' = Model s \<and>
     length (Value s') = length (Value s) \<and> length (Level s') = length (Level s) \<and>
     length (Reason s') = length (Reason s) \<and> length (Watches s') = length (Watches s) \<and>
     (\<exists>T. Trail s' = Trail s @ T)"

lemma prop_frame_refl [simp]: "prop_frame s s"
  by (simp add: prop_frame_def)

lemma prop_frame_trans: "prop_frame s s' \<Longrightarrow> prop_frame s' s'' \<Longrightarrow> prop_frame s s''"
  by (auto simp: prop_frame_def)

lemma watchingD:
  assumes "watching P L s"
  shows "arena_ok (Arena s) (refs s) (numVars s)" "trail_ok (Value s) (Trail s)"
    "QueueHead s \<le> length (Trail s)" "P \<in> processed s" "P \<in> set (Trail s)"
    "watch_ok (Arena s) (refs s) (numVars s) ((Watches s)[unat (index P) := L])"
    "unat (var P) < numVars s" "length (Watches s) = 2 * numVars s" "kNoClause \<notin> refs s"
  using assms watch_ok_length [of "Arena s" "refs s" "numVars s" "(Watches s)[unat (index P) := L]"]
  by (auto simp: watching_def base_ok_def processed_def numVars_def trail_ok_def dest: in_set_takeD)

lemma watching_entry:
  assumes w: "watching P L s" and W: "W \<in> set L"
  shows "WClause W \<in> refs s" "negl P \<in> {clits (Arena s) (WClause W) ! 0, clits (Arena s) (WClause W) ! 1}"
    "Blocker W \<in> set (clits (Arena s) (WClause W))"
    "WClause W \<in> dom (Arena s)" "2 \<le> length (clits (Arena s) (WClause W))"
    "distinct (clits (Arena s) (WClause W))"
    "\<forall>L \<in> set (clits (Arena s) (WClause W)). unat (var L) < numVars s"
proof -
  note f = watchingD [OF w]
  have "W \<in> set (wl ((Watches s)[unat (index P) := L]) P)"
    using W by (simp add: wl_update [OF f(8,7)])
  note e = watch_okD [OF f(6,7) this]
  then show "WClause W \<in> refs s" "Blocker W \<in> set (clits (Arena s) (WClause W))"
    "negl P \<in> {clits (Arena s) (WClause W) ! 0, clits (Arena s) (WClause W) ! 1}" by simp_all
  with f(1) show "WClause W \<in> dom (Arena s)" "2 \<le> length (clits (Arena s) (WClause W))"
    "distinct (clits (Arena s) (WClause W))"
    "\<forall>L \<in> set (clits (Arena s) (WClause W)). unat (var L) < numVars s"
    by (auto simp: arena_ok_def)
qed

text \<open>Normalising the slots keeps everything and puts the falsified literal in slot one.\<close>

lemma normaliseWatch_swap:
  "lit (getClause s r) 0 = negl P \<Longrightarrow>
     normaliseWatch P r s = s\<lparr>Arena := swap_in r 0 1 (Arena s)\<rparr>"
  by (simp add: normaliseWatch_def setClause_def swap_in_def getClause_def)

lemma lit_clits: "lit (getClause s r) k = clits (Arena s) r ! k"
  by (simp add: lit_def getClause_def clits_def)

lemma normaliseWatch_ok:
  assumes sc: "scanning P Kept Ws s" and W: "W \<in> set Ws"
  defines "s' \<equiv> normaliseWatch P (WClause W) s"
  shows "scanning P Kept Ws s'" "models s' = models s" "clits (Arena s') (WClause W) ! 1 = negl P"
    "prop_frame s s'" "QueueHead s' = QueueHead s" "processed s' = processed s"
proof -
  let ?r = "WClause W"
  have w: "watching P (Kept @ Ws) s" using sc by (simp add: scanning_def)
  have We: "W \<in> set (Kept @ Ws)" using W by simp
  note e = watching_entry [OF w We]
  have idx: "0 < length (clits (Arena s) ?r)" "1 < length (clits (Arena s) ?r)"
    using e(5) by linarith+
  have "scanning P Kept Ws s' \<and> models s' = models s \<and> clits (Arena s') ?r ! 1 = negl P \<and>
      prop_frame s s' \<and> QueueHead s' = QueueHead s \<and> processed s' = processed s"
  proof (cases "clits (Arena s) ?r ! 0 = negl P")
    case False
    then have "s' = s" by (simp add: s'_def normaliseWatch_def lit_clits)
    with sc False e(2) show ?thesis by auto
  next
    case True
    then have s': "s' = s\<lparr>Arena := swap_in ?r 0 1 (Arena s)\<rparr>"
      unfolding s'_def by (intro normaliseWatch_swap) (simp add: lit_clits)
    have same: "refs s' = refs s" "numVars s' = numVars s" "Value s' = Value s" "Trail s' = Trail s"
      "QueueHead s' = QueueHead s" "processed s' = processed s" "Watches s' = Watches s"
      by (simp_all add: s' refs_def numVars_def processed_def)
    have A: "Arena s' = swap_in ?r 0 1 (Arena s)" by (simp add: s')
    have d: "dom (Arena s') = dom (Arena s)" using e(4) by (auto simp: A swap_in_def)
    have ok: "arena_ok (Arena s') (refs s) (numVars s)"
      unfolding A by (intro arena_ok_swap idx) (use watchingD [OF w] in simp)
    have wo: "watch_ok (Arena s') (refs s) (numVars s) ((Watches s)[unat (index P) := Kept @ Ws])"
      unfolding A by (intro watch_ok_swap_01 e(5)) (use watchingD [OF w] in simp)
    have "settled (Arena s') (refs s) (Value s) (processed s) (pending P Ws)"
      unfolding A by (intro settled_swap_01 e(5)) (use sc in \<open>simp add: scanning_def\<close>)
    with ok wo watchingD [OF w] have "scanning P Kept Ws s'"
      by (simp add: scanning_def watching_def base_ok_def same)
    moreover have "models s' = models s"
      unfolding models_def same A by (rule models_of_swap [OF idx])
    moreover have "clits (Arena s') ?r ! 1 = negl P"
      unfolding A using clits_swap_01(2) [OF e(5)] True by simp
    moreover have "prop_frame s s'" using d by (auto simp: prop_frame_def s')
    ultimately show ?thesis by (simp add: same)
  qed
  then show "scanning P Kept Ws s'" "models s' = models s" "clits (Arena s') ?r ! 1 = negl P"
    "prop_frame s s'" "QueueHead s' = QueueHead s" "processed s' = processed s" by simp_all
qed

lemma findReplacement_bounds:
  "k \<le> findReplacement s k Ls \<and> findReplacement s k Ls \<le> k + length Ls"
proof (induction Ls arbitrary: k)
  case (Cons L Ls)
  from Cons.IH [of "Suc k"] show ?case by auto
qed simp

lemma findReplacement_found:
  "findReplacement s k Ls < k + length Ls \<Longrightarrow> litValue s (Ls ! (findReplacement s k Ls - k)) \<noteq> - 1"
proof (induction Ls arbitrary: k)
  case (Cons L Ls)
  show ?case
  proof (cases "litValue s L = - 1")
    case True
    with Cons.prems have "findReplacement s (Suc k) Ls < Suc k + length Ls" by simp
    note IH = Cons.IH [OF this]
    have "Suc k \<le> findReplacement s (Suc k) Ls" using findReplacement_bounds by blast
    then have "findReplacement s (Suc k) Ls - k = Suc (findReplacement s (Suc k) Ls - Suc k)" by simp
    with IH True show ?thesis by (simp only: findReplacement.simps nth_Cons_Suc if_False simp_thms)
  qed simp
qed simp

lemma findReplacement_none:
  "findReplacement s k Ls = k + length Ls \<Longrightarrow> \<forall>L \<in> set Ls. litValue s L = - 1"
proof (induction Ls arbitrary: k)
  case (Cons L Ls)
  then have "litValue s L = - 1" by (auto split: if_splits)
  with Cons.prems Cons.IH [of "Suc k"] show ?case by simp
qed simp

definition opt_list :: "'a option \<Rightarrow> 'a list" where
  "opt_list x = (case x of None \<Rightarrow> [] | Some y \<Rightarrow> [y])"

lemma opt_list_simps [simp]: "opt_list None = []" "opt_list (Some x) = [x]"
  by (simp_all add: opt_list_def)

text \<open>What a visit establishes: the scan goes on, or the formula has no model.\<close>

definition visited ::
    "SatLit \<Rightarrow> Watcher list \<Rightarrow> Watcher list \<Rightarrow> SatEngine \<Rightarrow> Watcher option \<Rightarrow> bool \<Rightarrow> SatEngine \<Rightarrow> bool"
where
  "visited P Kept Ws s Keep Conf s' \<longleftrightarrow>
     models s' = models s \<and> prop_frame s s' \<and>
     (if Conf then models s = {} \<and> watching P (Kept @ opt_list Keep @ Ws) s'
      else scanning P (Kept @ opt_list Keep) Ws s' \<and> QueueHead s' = QueueHead s)"

lemma scanning_distinct:
  assumes "scanning P Kept (W # Ws) s"
  shows "pending P (W # Ws) - {(WClause W, P)} = pending P Ws"
proof -
  have w: "watching P (Kept @ W # Ws) s" using assms by (simp add: scanning_def)
  note f = watchingD [OF this]
  have "distinct (map WClause (Kept @ W # Ws))"
    using watch_ok_distinct [OF f(6,7)] by (simp add: wl_update [OF f(8,7)])
  note distinct_other [OF this]
  then show ?thesis by (auto simp: pending_def)
qed

lemma scanning_blocker:
  assumes sc: "scanning P Kept (W # Ws) s" and F: "F \<in> set (clits (Arena s) (WClause W))"
    and t: "\<exists>L \<in> set (clits (Arena s) (WClause W)). worth (Value s) L = 1"
  shows "scanning P (Kept @ [\<lparr>WClause = WClause W, Blocker = F\<rparr>]) Ws s"
proof -
  have w: "watching P (Kept @ W # Ws) s" using sc by (simp add: scanning_def)
  note f = watchingD [OF w]
  have "settled (Arena s) (refs s) (Value s) (processed s) (pending P (W # Ws) - {(WClause W, P)})"
    by (intro settled_drop t) (use sc in \<open>simp add: scanning_def\<close>)
  with w watch_ok_blocker [OF f(6,7) F] show ?thesis
    by (simp add: scanning_def watching_def scanning_distinct [OF sc])
qed

lemma watching_blocker:
  assumes w: "watching P (Kept @ W # Ws) s" and F: "F \<in> set (clits (Arena s) (WClause W))"
  shows "watching P (Kept @ \<lparr>WClause = WClause W, Blocker = F\<rparr> # Ws) s"
  using w watch_ok_blocker [OF watchingD(6,7) [OF w] F] by (simp add: watching_def)

lemma visit_moves:
  assumes sc: "scanning P Kept (W # Ws) s" and one: "clits (Arena s) (WClause W) ! 1 = negl P"
    and k: "2 \<le> k" "k < length (clits (Arena s) (WClause W))"
    and v: "litValue s (clits (Arena s) (WClause W) ! k) \<noteq> - 1"
  defines "r \<equiv> WClause W"
  defines "F \<equiv> clits (Arena s) r ! 0"
  defines "s' \<equiv> pushWatch (negl (clits (Arena s) r ! k)) \<lparr>WClause = r, Blocker = F\<rparr>
             (s\<lparr>Arena := swap_in r 1 k (Arena s)\<rparr>)"
  shows "visited P Kept Ws s None False s'"
proof -
  have w: "watching P (Kept @ W # Ws) s" using sc by (simp add: scanning_def)
  note f = watchingD [OF w]
  have e: "r \<in> refs s" "r \<in> dom (Arena s)" "2 \<le> length (clits (Arena s) r)"
    "distinct (clits (Arena s) r)" "\<forall>L \<in> set (clits (Arena s) r). unat (var L) < numVars s"
    using watching_entry [OF w, of W] by (simp_all add: r_def)
  let ?q = "negl (clits (Arena s) r ! k)" and ?A = "swap_in r 1 k (Arena s)"
  have ws: "Watches s' = (Watches s)[unat (index ?q) := wl (Watches s) ?q @ [\<lparr>WClause = r, Blocker = F\<rparr>]]"
    by (simp add: s'_def pushWatch_def wl_def)
  have same: "refs s' = refs s" "numVars s' = numVars s" "Value s' = Value s" "Trail s' = Trail s"
      "QueueHead s' = QueueHead s" "processed s' = processed s" "Arena s' = ?A"
    by (simp_all add: s'_def refs_def numVars_def processed_def pushWatch_def)
  have idx: "1 < length (clits (Arena s) r)" "k < length (clits (Arena s) r)"
    using e(3) k by (simp_all add: r_def)
  have F: "F \<in> set (clits (Arena s) r)" unfolding F_def by (rule nth_mem) (use idx in linarith)
  have one': "clits (Arena s) r ! 1 = negl P" using one by (simp add: r_def)
  have qnot: "?q \<notin> processed s"
  proof
    assume "?q \<in> processed s"
    then have "?q \<in> set (Trail s)" by (auto simp: processed_def dest: in_set_takeD)
    with trail_ok_false [OF f(2)] v show False by (simp add: litValue_worth r_def)
  qed
  have "watch_ok ?A (refs s) (numVars s) ((Watches s')[unat (index P) := Kept @ Ws])"
    unfolding ws by (rule watch_ok_move [OF f(6,7,1) meta_eq_to_obj_eq [OF r_def] one' _ idx(2) refl F])
      (use k in simp)
  moreover have "arena_ok ?A (refs s) (numVars s)" by (intro arena_ok_swap idx f(1))
  moreover have "settled ?A (refs s) (Value s) (processed s) (pending P (W # Ws) - {(r, P)})"
  proof (rule settled_move)
    show "settled (Arena s) (refs s) (Value s) (processed s) (pending P (W # Ws))"
      using sc by (simp add: scanning_def)
    show "clits (Arena s) r ! 0 \<noteq> clits (Arena s) r ! 1"
      using distinct_slots(3) [OF e(4) k(1)] k(2) by (simp add: r_def)
  qed (use e one' k idx qnot in \<open>auto simp: pending_def\<close>)
  ultimately have "scanning P Kept Ws s'"
    using f scanning_distinct [OF sc]
    by (simp add: scanning_def watching_def base_ok_def same r_def)
  moreover have "models s' = models s"
    unfolding models_def same by (rule models_of_swap [OF idx])
  moreover have "prop_frame s s'"
    using e(2) by (auto simp: prop_frame_def s'_def pushWatch_def swap_in_def)
  ultimately show ?thesis by (simp add: visited_def same)
qed

lemma enqueue_fields [simp]:
  "Value (enqueue L r s) = assign L (Value s)" "Trail (enqueue L r s) = Trail s @ [L]"
  "Arena (enqueue L r s) = Arena s" "refs (enqueue L r s) = refs s"
  "numVars (enqueue L r s) = numVars s" "Watches (enqueue L r s) = Watches s"
  "QueueHead (enqueue L r s) = QueueHead s"
  by (simp_all add: enqueue_def assign_def refs_def numVars_def Let_def)

lemma prop_frame_enqueue: "prop_frame s (enqueue L r s)"
  by (simp add: prop_frame_def enqueue_def Let_def)

lemma visit_forces:
  assumes sc: "scanning P Kept (W # Ws) s" and one: "clits (Arena s) (WClause W) ! 1 = negl P"
    and rest: "\<forall>L \<in> set (drop 2 (clits (Arena s) (WClause W))). litValue s L = - 1"
  defines "F \<equiv> clits (Arena s) (WClause W) ! 0"
  shows "litValue s F = - 1 \<Longrightarrow>
       visited P Kept Ws s (Some \<lparr>WClause = WClause W, Blocker = F\<rparr>) True
         (s\<lparr>QueueHead := length (Trail s)\<rparr>)"
    and "litValue s F \<noteq> - 1 \<Longrightarrow> litValue s F \<noteq> 1 \<Longrightarrow>
       visited P Kept Ws s (Some \<lparr>WClause = WClause W, Blocker = F\<rparr>) False
         (enqueue F (WClause W) s)"
proof -
  let ?r = "WClause W" and ?C = "clits (Arena s) (WClause W)"
  have w: "watching P (Kept @ W # Ws) s" using sc by (simp add: scanning_def)
  note f = watchingD [OF w]
  have e: "?r \<in> refs s" "2 \<le> length ?C" "distinct ?C"
    "\<forall>L \<in> set ?C. unat (var L) < numVars s" using watching_entry [OF w, of W] by simp_all
  obtain a b C where C: "?C = a # b # C" using e(2) by (cases ?C; cases "tl ?C") auto
  have F: "F = a" "F \<in> set ?C" by (simp_all add: F_def C)
  have b: "b = negl P" using one C by simp
  have nP: "worth (Value s) (negl P) = - 1" using trail_ok_true [OF f(2,5)] by simp
  have others: "\<forall>L \<in> set ?C - {F}. unat (var L) < length (Value s) \<and> worth (Value s) L = - 1"
    using rest nP b e(4) F(1) by (auto simp: C litValue_worth numVars_def)
  have forced: "lit_true m F" if "m \<in> models s" for m
    using models_of_forced [OF _ e(1) f(2) others] that by (simp add: models_def)
  { assume Fv: "litValue s F = - 1"
    have "negl F \<in> set (Trail s)"
      using trail_ok_worth_minus [OF f(2)] Fv e(4) F(2) by (simp add: litValue_worth numVars_def)
    then have "\<not> lit_true m F" if "m \<in> models s" for m
      using that models_of_trail [of m "Arena s" "refs s" "Trail s" "negl F"] by (simp add: models_def)
    with forced have "models s = {}" by blast
    moreover have "watching P (Kept @ \<lparr>WClause = ?r, Blocker = F\<rparr> # Ws) (s\<lparr>QueueHead := length (Trail s)\<rparr>)"
      using watching_blocker [OF w F(2)] f(5)
      by (simp add: watching_def base_ok_def processed_def refs_def numVars_def)
    moreover have "prop_frame s (s\<lparr>QueueHead := length (Trail s)\<rparr>)" by (simp add: prop_frame_def)
    moreover have "models (s\<lparr>QueueHead := length (Trail s)\<rparr>) = models s"
      by (simp add: models_def refs_def)
    ultimately show "visited P Kept Ws s (Some \<lparr>WClause = ?r, Blocker = F\<rparr>) True
        (s\<lparr>QueueHead := length (Trail s)\<rparr>)" by (simp add: visited_def) }
  { assume Fv: "litValue s F \<noteq> - 1" "litValue s F \<noteq> 1"
    let ?s = "enqueue F ?r s"
    have Fn: "unat (var F) < length (Value s)" using e(4) F(2) by (simp add: numVars_def)
    have F0: "worth (Value s) F = 0"
      using trail_ok_range [OF f(2) Fn] Fv by (simp add: litValue_worth)
    have t: "trail_ok (assign F (Value s)) (Trail s @ [F])" by (rule trail_ok_assign [OF f(2) Fn F0])
    have up: "worth (assign F (Value s)) L = 1" if "worth (Value s) L = 1" for L
      using that F0 Fn by (auto simp: worth_assign)
    have proc: "processed ?s = processed s" using f(3) by (simp add: processed_def)
    have "scanning P Kept (W # Ws) ?s"
      using sc f t settled_mono [OF _ up]
      by (simp add: scanning_def watching_def base_ok_def proc)
    moreover have "\<exists>L \<in> set (clits (Arena ?s) ?r). worth (Value ?s) L = 1"
      using F Fn by (auto simp: worth_assign intro!: bexI [of _ F])
    ultimately have "scanning P (Kept @ [\<lparr>WClause = ?r, Blocker = F\<rparr>]) Ws ?s"
      by (intro scanning_blocker) (use F(2) in simp_all)
    moreover have "models ?s = models s"
      using forced by (auto simp: models_def models_of_snoc)
    ultimately show "visited P Kept Ws s (Some \<lparr>WClause = ?r, Blocker = F\<rparr>) False ?s"
      by (simp add: visited_def prop_frame_enqueue) }
qed

lemma visited_pre:
  assumes "visited P Kept Ws s1 Keep Conf s'" "models s1 = models s" "prop_frame s s1"
    "QueueHead s1 = QueueHead s"
  shows "visited P Kept Ws s Keep Conf s'"
  using assms prop_frame_trans [of s s1 s'] by (simp add: visited_def split: if_splits)

lemma visitClause_ok:
  assumes sc: "scanning P Kept (W # Ws) s" and one: "clits (Arena s) (WClause W) ! 1 = negl P"
    and blk: "litValue s (Blocker W) \<noteq> 1" and v: "visitClause W s = (Keep, Conf, s')"
  shows "visited P Kept Ws s Keep Conf s'"
proof -
  let ?r = "WClause W" and ?C = "clits (Arena s) (WClause W)"
  let ?F = "?C ! 0" and ?k = "findReplacement s 2 (drop 2 (clits (Arena s) (WClause W)))"
  have w: "watching P (Kept @ W # Ws) s" using sc by (simp add: scanning_def)
  have e: "2 \<le> length ?C" "?r \<in> dom (Arena s)" using watching_entry [OF w, of W] by simp_all
  have F: "?F \<in> set ?C" by (rule nth_mem) (use e in linarith)
  have C: "CLits (getClause s ?r) = ?C" by (simp add: getClause_def clits_def)
  consider (sat) "?F \<noteq> Blocker W" "litValue s ?F = 1"
    | (move) "litValue s ?F \<noteq> 1" "?k < length ?C" | (unit) "litValue s ?F \<noteq> 1" "\<not> ?k < length ?C"
    using blk by fastforce
  then show ?thesis
  proof cases
    case sat
    with v have "Keep = Some \<lparr>WClause = ?r, Blocker = ?F\<rparr>" "\<not> Conf" "s' = s"
      by (auto simp: visitClause_def lit_clits)
    moreover have "scanning P (Kept @ [\<lparr>WClause = ?r, Blocker = ?F\<rparr>]) Ws s"
      using sat F by (intro scanning_blocker [OF sc]) (auto simp: litValue_worth)
    ultimately show ?thesis by (simp add: visited_def)
  next
    case move
    have k2: "2 \<le> ?k" using findReplacement_bounds by blast
    have len: "length (drop 2 ?C) = length ?C - 2" by simp
    have "litValue s (drop 2 ?C ! (?k - 2)) \<noteq> - 1"
      by (rule findReplacement_found) (use move e in simp)
    moreover have "drop 2 ?C ! (?k - 2) = ?C ! ?k"
      using nth_drop [of 2 ?C "?k - 2"] e(1) le_add_diff_inverse [OF k2] by metis
    ultimately have kv: "litValue s (?C ! ?k) \<noteq> - 1" by simp
    have slot: "lit (swapLits 1 ?k (getClause s ?r)) 1 = ?C ! ?k"
      using k2 move e(1) by (simp add: lit_def swapLits_def C nth_list_update Suc_le_eq)
    have "visitClause W s = (None, False,
        pushWatch (negl (?C ! ?k)) \<lparr>WClause = ?r, Blocker = ?F\<rparr> (s\<lparr>Arena := swap_in ?r 1 ?k (Arena s)\<rparr>))"
      using move
      by (simp add: visitClause_def lit_clits clauseSize_def C setClause_def swap_in_def slot [simplified]
          Let_def flip: getClause_def)
    with v visit_moves [OF sc one k2 move(2) kv] show ?thesis by simp
  next
    case unit
    have "?k = 2 + length (drop 2 ?C)"
      using unit findReplacement_bounds [of 2 s "drop 2 ?C"] e by simp
    then have rest: "\<forall>L \<in> set (drop 2 ?C). litValue s L = - 1" by (rule findReplacement_none)
    have "visitClause W s = (Some \<lparr>WClause = ?r, Blocker = ?F\<rparr>, litValue s ?F = - 1,
        if litValue s ?F = - 1 then s\<lparr>QueueHead := length (Trail s)\<rparr> else enqueue ?F ?r s)"
      using unit by (simp add: visitClause_def lit_clits clauseSize_def C Let_def)
    with v visit_forces [OF sc one rest] unit(1) show ?thesis by (auto split: if_splits)
  qed
qed

lemma scanning_stats:
  assumes sc: "scanning P Kept Ws s"
  shows "scanning P Kept Ws (s\<lparr>Stats := st\<rparr>)"
  using sc by (simp add: scanning_def watching_def base_ok_def processed_def refs_def numVars_def)

lemma visit_ok:
  assumes sc: "scanning P Kept (W # Ws) s" and v: "visit P W s = (Keep, Conf, s')"
  shows "visited P Kept Ws s Keep Conf s'"
proof -
  let ?s = "s\<lparr>Stats := (Stats s)\<lparr>WatchVisits := WatchVisits (Stats s) + 1\<rparr>\<rparr>"
  note sc1 = scanning_stats [OF sc, of "(Stats s)\<lparr>WatchVisits := WatchVisits (Stats s) + 1\<rparr>"]
  have pre: "models ?s = models s" "prop_frame s ?s" "QueueHead ?s = QueueHead s"
    by (simp_all add: models_def refs_def prop_frame_def)
  have w: "watching P (Kept @ W # Ws) ?s" using sc1 by (simp add: scanning_def)
  have bl: "Blocker W \<in> set (clits (Arena ?s) (WClause W))" using watching_entry(3) [OF w, of W] by simp
  show ?thesis
  proof (cases "litValue ?s (Blocker W) = 1")
    case True
    with v have "Keep = Some W" "\<not> Conf" "s' = ?s" by (auto simp: visit_def)
    moreover have "scanning P (Kept @ [\<lparr>WClause = WClause W, Blocker = Blocker W\<rparr>]) Ws ?s"
      using True bl by (intro scanning_blocker [OF sc1 bl]) (auto simp: litValue_worth)
    moreover have "\<lparr>WClause = WClause W, Blocker = Blocker W\<rparr> = W" by simp
    ultimately have "visited P Kept Ws ?s Keep Conf s'" by (simp only: visited_def) simp
    then show ?thesis by (rule visited_pre [OF _ pre])
  next
    case False
    note n = normaliseWatch_ok [OF sc1 list.set_intros(1)]
    let ?n = "normaliseWatch P (WClause W) ?s"
    have lv: "litValue ?n (Blocker W) = litValue ?s (Blocker W)"
      by (simp add: normaliseWatch_def setClause_def litValue_def)
    from v False have "visitClause W ?n = (Keep, Conf, s')" by (simp add: visit_def)
    with visitClause_ok [OF n(1) n(3) _ this] False lv
    have "visited P Kept Ws ?n Keep Conf s'" by simp
    then have "visited P Kept Ws ?s Keep Conf s'" by (rule visited_pre [OF _ n(2) n(4) n(5)])
    then show ?thesis by (rule visited_pre [OF _ pre])
  qed
qed

section \<open>Scanning a watch list\<close>

definition watched :: "SatEngine \<Rightarrow> bool" where
  "watched s \<longleftrightarrow> base_ok s \<and> watch_ok (Arena s) (refs s) (numVars s) (Watches s)"

definition propagation_ok :: "SatEngine \<Rightarrow> bool" where
  "propagation_ok s \<longleftrightarrow> watched s \<and> settled (Arena s) (refs s) (Value s) (processed s) {}"

definition interrupted :: "SatLit \<Rightarrow> Watcher list \<Rightarrow> SatEngine \<Rightarrow> bool" where
  "interrupted P L s \<longleftrightarrow> outOfWatchVisitBudget s \<and>
     (\<exists>Kept Ws. L = Kept @ Ws \<and> scanning P Kept Ws (s\<lparr>QueueHead := QueueHead s + 1\<rparr>))"

lemma scan_ok:
  assumes "scanning P Kept Ws s" "0 < QueueHead s" "scan P Kept Ws s = (L, c, s')"
  shows "models s' = models s \<and> prop_frame s s' \<and>
    (if c \<noteq> kNoClause then models s = {} \<and> watching P L s' \<and> QueueHead s' = length (Trail s')
     else scanning P L [] s' \<and> QueueHead s' = QueueHead s \<or>
       interrupted P L s' \<and> QueueHead s' + 1 = QueueHead s)"
  using assms
proof (induction Ws arbitrary: Kept s)
  case Nil
  then show ?case by auto
next
  case (Cons W Ws)
  have w: "watching P (Kept @ W # Ws) s" using Cons.prems by (simp add: scanning_def)
  have rW: "WClause W \<noteq> kNoClause"
    using watchingD(9) [OF w] watching_entry(1) [OF w, of W] by auto
  show ?case
  proof (cases "outOfWatchVisitBudget s")
    case True
    let ?t = "s\<lparr>QueueHead := QueueHead s - 1\<rparr>"
    have r: "L = Kept @ W # Ws" "c = kNoClause" "s' = ?t" using Cons.prems(3) True by auto
    have "?t\<lparr>QueueHead := QueueHead ?t + 1\<rparr> = s" using Cons.prems(2) by simp
    then have "interrupted P L s'"
      using Cons.prems(1) True r unfolding interrupted_def
      by (intro conjI exI [of _ Kept] exI [of _ "W # Ws"]) (simp_all add: outOfWatchVisitBudget_def)
    with r Cons.prems(2) show ?thesis by (simp add: models_def refs_def prop_frame_def)
  next
    case False
    obtain Keep Conf s1 where v: "visit P W s = (Keep, Conf, s1)" by (cases "visit P W s") auto
    note vis = visit_ok [OF Cons.prems(1) v]
    show ?thesis
    proof (cases Conf)
      case True
      have qh: "QueueHead s1 = length (Trail s1)"
        using v True by (auto simp: visit_def visitClause_def Let_def split: if_splits)
      have "L = Kept @ opt_list Keep @ Ws" "c = WClause W" "s' = s1"
        using Cons.prems(3) False v True by (auto simp: opt_list_def)
      with vis True rW qh show ?thesis by (simp add: visited_def)
    next
      case nc: False
      have "scan P (Kept @ opt_list Keep) Ws s1 = (L, c, s')"
        using Cons.prems(3) False v nc by (auto simp: opt_list_def)
      moreover have n: "scanning P (Kept @ opt_list Keep) Ws s1" "QueueHead s1 = QueueHead s"
        "models s1 = models s" "prop_frame s s1"
        using vis nc by (simp_all add: visited_def)
      moreover have "0 < QueueHead s1" using n Cons.prems(2) by simp
      ultimately have "models s' = models s1 \<and> prop_frame s1 s' \<and>
          (if c \<noteq> kNoClause then models s1 = {} \<and> watching P L s' \<and> QueueHead s' = length (Trail s')
           else scanning P L [] s' \<and> QueueHead s' = QueueHead s1 \<or>
             interrupted P L s' \<and> QueueHead s' + 1 = QueueHead s1)"
        by (intro Cons.IH)
      then show ?thesis using prop_frame_trans [OF n(4), of s'] unfolding n(2,3) by blast
    qed
  qed
qed

section \<open>The propagation loop\<close>

lemma propagation_okD:
  assumes "propagation_ok s"
  shows "arena_ok (Arena s) (refs s) (numVars s)" "trail_ok (Value s) (Trail s)"
    "QueueHead s \<le> length (Trail s)" "kNoClause \<notin> refs s"
    "watch_ok (Arena s) (refs s) (numVars s) (Watches s)"
    "settled (Arena s) (refs s) (Value s) (processed s) {}"
  using assms by (simp_all add: propagation_ok_def watched_def base_ok_def)

text \<open>Taking the next literal off the queue starts a scan of its whole watch list.\<close>

lemma scanning_start:
  assumes ok: "propagation_ok s" and q: "QueueHead s < length (Trail s)"
  defines "P \<equiv> Trail s ! QueueHead s"
  shows "scanning P [] (Watches s ! unat (index P))
    (s\<lparr>QueueHead := QueueHead s + 1, Stats := st\<rparr>)" (is "scanning _ _ ?L ?s")
proof -
  note f = propagation_okD [OF ok]
  have P: "P \<in> processed ?s" using q by (auto simp: processed_def P_def take_Suc_conv_app_nth)
  have "P \<in> set (Trail s)" using q by (simp add: P_def)
  with f(2) have Pn: "unat (var P) < numVars s" by (simp add: trail_ok_def numVars_def)
  have proc: "processed ?s = insert P (processed s)"
    using q by (auto simp: processed_def P_def take_Suc_conv_app_nth)
  have "settled (Arena s) (refs s) (Value s) (insert P (processed s)) (pending P ?L)"
    unfolding settled_def
  proof (intro ballI allI impI)
    fix r k :: nat
    assume r: "r \<in> refs s" "k < 2" and m: "negl (clits (Arena s) r ! k) \<in> insert P (processed s)"
      and np: "(r, negl (clits (Arena s) r ! k)) \<notin> pending P ?L"
    have "negl (clits (Arena s) r ! k) \<noteq> P"
    proof
      assume e: "negl (clits (Arena s) r ! k) = P"
      from watch_ok_covers [OF f(5) r] have "r \<in> WClause ` set ?L" by (simp add: wl_def e)
      with np e show False by (auto simp: pending_def)
    qed
    with m r f(6) show "\<exists>L \<in> set (clits (Arena s) r). worth (Value s) L = 1"
      by (auto simp: settled_def)
  qed
  with f P q proc show ?thesis
    by (simp add: scanning_def watching_def base_ok_def numVars_def refs_def)
qed

lemma settled_subset:
  assumes "settled A R Val Q X" and "Q' \<subseteq> Q" and "\<And>r L. (r, L) \<in> X \<Longrightarrow> L \<notin> Q'"
  shows "settled A R Val Q' {}"
  using assms unfolding settled_def by blast

lemma interrupted_ok:
  assumes i: "interrupted P L s" and q: "P = Trail s ! QueueHead s"
  shows "propagation_ok (s\<lparr>Watches := (Watches s)[unat (index P) := L]\<rparr>)" (is "propagation_ok ?s")
proof -
  from i obtain Kept Ws where L: "L = Kept @ Ws"
    and sc: "scanning P Kept Ws (s\<lparr>QueueHead := QueueHead s + 1\<rparr>)" (is "scanning _ _ _ ?u")
    by (auto simp: interrupted_def)
  have w: "watching P (Kept @ Ws) ?u" using sc by (simp add: scanning_def)
  note f = watchingD [OF w]
  have q1: "QueueHead s < length (Trail s)" using f(3) by simp
  have "distinct (Trail s)" using f(2) by (simp add: trail_ok_def distinct_map)
  then have "distinct (take (Suc (QueueHead s)) (Trail s))" by (rule distinct_take)
  then have "P \<notin> processed s" using q q1 by (simp add: processed_def take_Suc_conv_app_nth)
  then have "settled (Arena s) (refs s) (Value s) (processed s) {}"
    using sc q1 by (intro settled_subset [of "Arena s" "refs s" "Value s" "processed ?u" "pending P Ws"])
      (auto simp: scanning_def refs_def pending_def processed_def take_Suc_conv_app_nth)
  with f L show ?thesis
    by (simp add: propagation_ok_def watched_def base_ok_def refs_def numVars_def processed_def)
qed

lemma propagateNext_ok:
  assumes ok: "propagation_ok s" and q: "QueueHead s < length (Trail s)"
    and p: "propagateNext s = (c, s')"
  shows "models s' = models s \<and> prop_frame s s' \<and>
    (if c \<noteq> kNoClause then models s = {} \<and> watched s' \<and> QueueHead s' = length (Trail s')
     else propagation_ok s' \<and> (QueueHead s' = QueueHead s + 1 \<or>
       QueueHead s' = QueueHead s \<and> outOfWatchVisitBudget s'))"
proof -
  let ?P = "Trail s ! QueueHead s"
  let ?u = "s\<lparr>QueueHead := QueueHead s + 1,
              Stats := (Stats s)\<lparr>Propagations := Propagations (Stats s) + 1\<rparr>\<rparr>"
  obtain L c1 t where sc: "scan ?P [] (Watches s ! unat (index ?P)) ?u = (L, c1, t)"
    by (cases "scan ?P [] (Watches s ! unat (index ?P)) ?u") auto
  have c: "c = c1" "s' = t\<lparr>Watches := (Watches t)[unat (index ?P) := L]\<rparr>"
    using p sc by (auto simp: propagateNext_def Let_def)
  note start = scanning_start [OF ok q]
  have u: "models ?u = models s" "prop_frame s ?u" by (simp_all add: models_def refs_def prop_frame_def)
  have "models t = models ?u \<and> prop_frame ?u t \<and>
    (if c \<noteq> kNoClause then models ?u = {} \<and> watching ?P L t \<and> QueueHead t = length (Trail t)
     else scanning ?P L [] t \<and> QueueHead t = QueueHead ?u \<or>
       interrupted ?P L t \<and> QueueHead t + 1 = QueueHead ?u)"
    unfolding c(1) by (rule scan_ok [OF start _ sc]) simp
  then have m: "models t = models s" and fr: "prop_frame s t" and
    cases: "if c \<noteq> kNoClause then models s = {} \<and> watching ?P L t \<and> QueueHead t = length (Trail t)
     else scanning ?P L [] t \<and> QueueHead t = QueueHead s + 1 \<or>
       interrupted ?P L t \<and> QueueHead t = QueueHead s"
    using prop_frame_trans [OF u(2), of t] unfolding u(1) by (simp_all split: if_splits)
  have m': "models s' = models s" and fr': "prop_frame s s'"
    using m fr by (simp_all add: c models_def refs_def prop_frame_def)
  have w: "watched s'" if "watching ?P L t"
    using that by (simp add: c watching_def watched_def base_ok_def refs_def numVars_def)
  have "propagation_ok s' \<and> (QueueHead s' = QueueHead s + 1 \<or>
       QueueHead s' = QueueHead s \<and> outOfWatchVisitBudget s')" if "c = kNoClause"
  proof -
    from cases that consider "scanning ?P L [] t" "QueueHead t = QueueHead s + 1"
      | "interrupted ?P L t" "QueueHead t = QueueHead s" by auto
    then show ?thesis
    proof cases
      case 1
      then show ?thesis
        by (simp add: scanning_def watching_def propagation_ok_def watched_def base_ok_def c refs_def
            numVars_def pending_def processed_def)
    next
      case 2
      obtain T where "Trail t = Trail s @ T" using fr by (auto simp: prop_frame_def)
      with 2 q have "?P = Trail t ! QueueHead t" by (simp add: nth_append)
      from interrupted_ok [OF 2(1) this] 2 show ?thesis
        by (simp add: c interrupted_def outOfWatchVisitBudget_def)
    qed
  qed
  with m' fr' cases w show ?thesis by (simp add: c(2))
qed

text \<open>
  Propagation derives only literals that every model satisfies, stops, and on stopping has either
  found a clause no model satisfies, or run out of budget, or drawn every consequence.
\<close>

lemma propagate_loop_ok:
  assumes "propagation_ok s" "numVars s + 2 \<le> QueueHead s + Fuel \<or>
      outOfWatchVisitBudget s \<and> 0 < Fuel"
    "propagate_loop Fuel kNoClause s = (c, s')"
  shows "models s' = models s \<and> prop_frame s s' \<and>
    (if c \<noteq> kNoClause then models s = {} \<and> watched s' \<and> QueueHead s' = length (Trail s')
     else propagation_ok s' \<and>
       (QueueHead s' = length (Trail s') \<or> outOfPropagationBudget s' \<or> outOfWatchVisitBudget s'))"
  using assms
proof (induction Fuel arbitrary: s)
  case 0
  have "length (Trail s) \<le> numVars s"
    using trail_ok_length [OF propagation_okD(2) [OF 0(1)]] by (simp add: numVars_def)
  with 0 propagation_okD(3) [OF 0(1)] show ?case by simp
next
  case (Suc Fuel)
  show ?case
  proof (cases "QueueHead s < length (Trail s) \<and> \<not> (outOfPropagationBudget s \<or> outOfWatchVisitBudget s)")
    case False
    with Suc.prems propagation_okD(3) [OF Suc.prems(1)] show ?thesis by (auto split: if_splits)
  next
    case True
    obtain c1 t where n: "propagateNext s = (c1, t)" by (cases "propagateNext s") auto
    note r = propagateNext_ok [OF Suc.prems(1) _ n]
    show ?thesis
    proof (cases "c1 = kNoClause")
      case False
      with r True have t: "QueueHead t = length (Trail t)" "models t = models s" "prop_frame s t"
        "models s = {}" "watched t" by simp_all
      have "propagate_loop Fuel c1 t = (c1, t)" using t(1) by (cases Fuel) simp_all
      with Suc.prems(3) True n False have "c = c1" "s' = t" by auto
      with t False show ?thesis by simp
    next
      case nc: True
      with r True have t: "models t = models s" "prop_frame s t" "propagation_ok t"
        "QueueHead t = QueueHead s + 1 \<or> QueueHead t = QueueHead s \<and> outOfWatchVisitBudget t"
        by simp_all
      have nv: "numVars t = numVars s" using t(2) by (simp add: prop_frame_def numVars_def)
      have len: "length (Trail s) \<le> numVars s"
        using trail_ok_length [OF propagation_okD(2) [OF Suc.prems(1)]] by (simp add: numVars_def)
      have fuel: "numVars t + 2 \<le> QueueHead t + Fuel \<or> outOfWatchVisitBudget t \<and> 0 < Fuel"
        using Suc.prems(2) True t(4) nv len by auto
      have "propagate_loop Fuel kNoClause t = (c, s')" using Suc.prems(3) True n nc by simp
      from Suc.IH [OF t(3) fuel this] t prop_frame_trans [OF t(2)] show ?thesis
        by (simp split: if_splits)
    qed
  qed
qed

lemma propagate_ok:
  assumes "propagation_ok s" "propagate s = (c, s')"
  shows "models s' = models s \<and> prop_frame s s' \<and>
    (if c \<noteq> kNoClause then models s = {} \<and> watched s' \<and> QueueHead s' = length (Trail s')
     else propagation_ok s' \<and>
       (QueueHead s' = length (Trail s') \<or> outOfPropagationBudget s' \<or> outOfWatchVisitBudget s'))"
  by (rule propagate_loop_ok [OF assms(1) _ assms(2) [unfolded propagate_def]]) simp

section \<open>What propagation promises\<close>

text \<open>A clause that can force nothing: it has a true literal, or two that are not false.\<close>

definition quiet :: "SatEngine \<Rightarrow> ClauseRef \<Rightarrow> bool" where
  "quiet s r \<longleftrightarrow> (\<exists>L \<in> set (clits (Arena s) r). litValue s L = 1) \<or>
     litValue s (clits (Arena s) r ! 0) \<noteq> - 1 \<and> litValue s (clits (Arena s) r ! 1) \<noteq> - 1"

lemma settled_quiet:
  assumes ok: "propagation_ok s" and q: "QueueHead s = length (Trail s)" and r: "r \<in> refs s"
  shows "quiet s r"
proof (cases "\<exists>L \<in> set (clits (Arena s) r). worth (Value s) L = 1")
  case True
  then show ?thesis by (simp add: quiet_def litValue_worth)
next
  case False
  note f = propagation_okD [OF ok]
  have "worth (Value s) (clits (Arena s) r ! k) \<noteq> - 1" if k: "k < 2" for k
  proof
    assume w: "worth (Value s) (clits (Arena s) r ! k) = - 1"
    have "2 \<le> length (clits (Arena s) r)" "\<forall>L \<in> set (clits (Arena s) r). unat (var L) < numVars s"
      using f(1) r by (auto simp: arena_ok_def)
    then have "unat (var (clits (Arena s) r ! k)) < length (Value s)"
      using k nth_mem [of k "clits (Arena s) r"] by (auto simp: numVars_def)
    from trail_ok_worth_minus [OF f(2) this w] have "negl (clits (Arena s) r ! k) \<in> processed s"
      by (simp add: processed_def q)
    with f(6) r k False show False by (auto simp: settled_def)
  qed
  from this [of 0] this [of 1] show ?thesis by (simp add: quiet_def litValue_worth)
qed

end
