(* ===== verification/Sat_Formula.thy ===== *)
theory Sat_Formula
  imports Sat_Propagation "HOL-Library.Multiset"
begin

text \<open>
  Building a formula is correct.  Between questions the engine keeps \<open>engine_ok\<close>, and
  \<open>root_models\<close> is what the formula means.  Adding a clause cuts the models down to those
  of the clause and answers whether the formula is still open, adding a variable keeps them, and a
  root value is shared by all of them.  The locale \<open>clause_backend\<close> states this contract
  for the encoder, which defines gates over it.
\<close>

section \<open>The formula under construction\<close>

text \<open>
  Between questions the engine is at the root, without a budget, and has drawn every consequence
  of its unit clauses.  Once falsified only its tables matter.
\<close>

definition engine_shape :: "SatEngine \<Rightarrow> bool" where
  "engine_shape s \<longleftrightarrow>
     numVars s \<le> unat kMaxSatVar + 1 \<and> TrailLim s = [] \<and>
     PropagationBudgetAt s = 0 \<and> WatchVisitBudgetAt s = 0 \<and>
     length (Level s) = numVars s \<and> length (Reason s) = numVars s \<and>
     ArenaWords s \<le> kMaxArenaWords \<and> (\<forall>r \<in> dom (Arena s). r < ArenaWords s)"

definition engine_ok :: "SatEngine \<Rightarrow> bool" where
  "engine_ok s \<longleftrightarrow> engine_shape s \<and>
     (\<not> Falsified s \<longrightarrow> propagation_ok s \<and> QueueHead s = length (Trail s))"

definition root_models :: "SatEngine \<Rightarrow> assignment set" where
  "root_models s = (if Falsified s then {} else models s)"

lemma engine_shape_frame: "engine_shape s \<Longrightarrow> prop_frame s s' \<Longrightarrow> engine_shape s'"
  by (simp add: engine_shape_def prop_frame_def numVars_def)

lemma engine_okD:
  assumes "engine_ok s" "\<not> Falsified s"
  shows "propagation_ok s" "QueueHead s = length (Trail s)" "engine_shape s"
  using assms by (simp_all add: engine_ok_def)

lemma newEngine_ok: "engine_ok (newEngine Options)" "root_models (newEngine Options) = UNIV"
  by (simp_all add: engine_ok_def engine_shape_def newEngine_def propagation_ok_def watched_def
      base_ok_def refs_def numVars_def arena_ok_def trail_ok_def watch_ok_def settled_def
      kMaxArenaWords_def kNoClause_def root_models_def models_def models_of_def)

text \<open>The models of the formula are decided by the variables the engine has.\<close>

lemma root_models_agree:
  assumes ok: "engine_ok s" and m: "m \<in> root_models s" and a: "agree (numVars s) m m'"
  shows "m' \<in> root_models s"
proof -
  have nf: "\<not> Falsified s" and mm: "m \<in> models s" using m by (auto simp: root_models_def split: if_splits)
  note f = propagation_okD [OF engine_okD(1) [OF ok nf]]
  have "clause_true m' (clits (Arena s) r)" if "r \<in> refs s" for r
  proof -
    have "\<forall>L \<in> set (clits (Arena s) r). unat (var L) < numVars s"
      using that f(1) by (simp add: arena_ok_def)
    moreover have "clause_true m (clits (Arena s) r)" using mm that by (simp add: models_def models_of_def)
    ultimately show ?thesis using clause_true_agree [OF a] by blast
  qed
  moreover have "lit_true m' L" if "L \<in> set (Trail s)" for L
  proof -
    have "unat (var L) < numVars s" using f(2) that by (simp add: trail_ok_def numVars_def)
    moreover have "lit_true m L" using mm that by (simp add: models_def models_of_def)
    ultimately show ?thesis using lit_true_agree [OF a] by blast
  qed
  ultimately show ?thesis using nf by (simp add: root_models_def models_def models_of_def)
qed

section \<open>Simplifying a clause\<close>

lemma simplifyClause_models:
  assumes t: "trail_ok (Value s) (Trail s)" and m: "\<forall>L \<in> set (Trail s). lit_true m L"
    and r: "\<forall>L \<in> set Ls. unat (var L) < numVars s"
  shows "case simplifyClause s Prev Ls of
      None \<Rightarrow> clause_true m Ls \<or> isValid Prev \<and> lit_true m Prev
    | Some C \<Rightarrow> (clause_true m Ls \<or> isValid Prev \<and> lit_true m Prev) =
        (clause_true m C \<or> isValid Prev \<and> lit_true m Prev)"
  using r
proof (induction Ls arbitrary: Prev)
  case (Cons L Ls)
  have L: "unat (var L) < length (Value s)" using Cons.prems by (simp add: numVars_def)
  have true: "lit_true m L" if "litValue s L = 1"
    using trail_ok_worth_1 [OF t L] that m by (simp add: litValue_worth)
  have false: "\<not> lit_true m L" if "litValue s L = - 1"
    using trail_ok_worth_minus [OF t L] that m lit_true_negl [of m L] by (auto simp: litValue_worth)
  from Cons.IH [of Prev] Cons.IH [of L] Cons.prems true false show ?case
    by (cases "isValid L") (auto simp: Let_def split: option.splits)
qed simp

lemma simplifyClause_kept:
  assumes "simplifyClause s Prev Ls = Some C" "sorted Ls" "\<forall>L \<in> set Ls. isValid L"
    "isValid Prev \<Longrightarrow> \<forall>L \<in> set Ls. Prev \<le> L"
  shows "set C \<subseteq> set Ls \<and> sorted_wrt (<) C \<and> (isValid Prev \<longrightarrow> (\<forall>L \<in> set C. Prev < L)) \<and>
    (\<forall>L \<in> set C. litValue s L \<noteq> 1 \<and> litValue s L \<noteq> - 1)"
  using assms
proof (induction Ls arbitrary: Prev C)
  case (Cons L Ls)
  show ?case
  proof (cases "litValue s L = - 1 \<or> isValid Prev \<and> L = Prev")
    case True
    with Cons.prems(1) have "simplifyClause s Prev Ls = Some C"
      by (auto simp: Let_def split: if_splits)
    with Cons.IH [of Prev C] Cons.prems show ?thesis by auto
  next
    case False
    with Cons.prems(1) obtain D where D: "simplifyClause s L Ls = Some D" "C = L # D"
      and n: "litValue s L \<noteq> 1"
      by (auto simp: Let_def split: if_splits)
    have "set D \<subseteq> set Ls \<and> sorted_wrt (<) D \<and> (isValid L \<longrightarrow> (\<forall>M \<in> set D. L < M)) \<and>
        (\<forall>M \<in> set D. litValue s M \<noteq> 1 \<and> litValue s M \<noteq> - 1)"
      by (rule Cons.IH [OF D(1)]) (use Cons.prems in auto)
    moreover have "Prev < L" if "isValid Prev"
      using that False Cons.prems(4) by (auto simp: order_less_le)
    ultimately show ?thesis using D(2) n False Cons.prems(3) by (auto intro: less_trans)
  qed
qed simp

section \<open>Attaching a clause\<close>

lemma clits_upd: "clits (A(r \<mapsto> c)) x = (if x = r then CLits c else clits A x)"
  by (simp add: clits_def)

lemma watch_ok_attach:
  assumes w: "watch_ok A R n ws" and r: "r \<notin> R" and c: "CLits c = a # b # C"
    and d: "a \<noteq> b" and n: "unat (var a) < n" "unat (var b) < n"
  shows "watch_ok (A(r \<mapsto> c)) (insert r R) n
    (ws[unat (index (negl a)) := wl ws (negl a) @ [\<lparr>WClause = r, Blocker = b\<rparr>],
        unat (index (negl b)) := wl ws (negl b) @ [\<lparr>WClause = r, Blocker = a\<rparr>]])"
    (is "watch_ok ?A _ _ ?new")
proof -
  have len: "length ws = 2 * n" using watch_ok_length [OF w] .
  have new: "wl ?new Q = wl ws Q @ (if Q = negl b then [\<lparr>WClause = r, Blocker = a\<rparr>]
      else if Q = negl a then [\<lparr>WClause = r, Blocker = b\<rparr>] else [])" for Q
    using len n d by (simp add: wl_update [where n = n])
  have inR: "x \<in> R" if "unat (var Q) < n" "x \<in> WClause ` set (wl ws Q)" for x Q
    using watch_okD(1) [OF w that(1)] that(2) by auto
  have old: "clits ?A x = clits A x" if "x \<in> R" for x using that r by (auto simp: clits_upd)
  have cr: "clits ?A r = a # b # C" by (simp add: clits_upd c)
  show ?thesis
  proof (rule watch_okI)
    show "length ?new = 2 * n" using len by simp
  next
    fix Q assume Q: "unat (var Q) < n"
    have "r \<notin> WClause ` set (wl ws Q)" using inR [OF Q] r by blast
    with watch_ok_distinct [OF w Q] show "distinct (map WClause (wl ?new Q))" by (auto simp: new)
  next
    fix Q V assume Q: "unat (var Q) < n" and V: "V \<in> set (wl ?new Q)"
    show "WClause V \<in> insert r R \<and> negl Q \<in> {clits ?A (WClause V) ! 0, clits ?A (WClause V) ! 1} \<and>
        Blocker V \<in> set (clits ?A (WClause V))"
    proof (cases "V \<in> set (wl ws Q)")
      case True
      from watch_okD [OF w Q True] show ?thesis by (simp only: old) simp
    next
      case False
      with V have "(Q = negl b \<and> V = \<lparr>WClause = r, Blocker = a\<rparr>) \<or>
          (Q = negl a \<and> V = \<lparr>WClause = r, Blocker = b\<rparr>)" unfolding new by (auto split: if_splits)
      then show ?thesis by (auto simp: cr)
    qed
  next
    fix x k assume x: "x \<in> insert r R" and k: "k < (2::nat)"
    show "x \<in> WClause ` set (wl ?new (negl (clits ?A x ! k)))"
    proof (cases "x = r")
      case True
      with k show ?thesis unfolding True cr new by (auto simp: less_2_cases_iff d)
    next
      case False
      with x have "x \<in> R" by simp
      with watch_ok_covers [OF w this k] show ?thesis unfolding new old [OF \<open>x \<in> R\<close>] by auto
    qed
  qed
qed

lemma cancelUntil_root: "TrailLim s = [] \<Longrightarrow> cancelUntil 0 s = s"
  by (simp add: cancelUntil_def decisionLevel_def)

lemma enqueue_propagation_ok:
  assumes ok: "propagation_ok s" and n: "unat (var L) < numVars s"
    and v: "litValue s L \<noteq> 1" "litValue s L \<noteq> - 1"
  shows "propagation_ok (enqueue L r s)" "models (enqueue L r s) = {m \<in> models s. lit_true m L}"
proof -
  note f = propagation_okD [OF ok]
  have n': "unat (var L) < length (Value s)" using n by (simp add: numVars_def)
  have L0: "worth (Value s) L = 0" using trail_ok_range [OF f(2) n'] v by (simp add: litValue_worth)
  have up: "worth (assign L (Value s)) M = 1" if "worth (Value s) M = 1" for M
    using that L0 n' by (auto simp: worth_assign)
  have proc: "processed (enqueue L r s) = processed s" using f(3) by (simp add: processed_def)
  show "propagation_ok (enqueue L r s)"
    using f trail_ok_assign [OF f(2) n' L0] settled_mono [OF f(6) up]
    by (simp add: propagation_ok_def watched_def base_ok_def proc)
  show "models (enqueue L r s) = {m \<in> models s. lit_true m L}"
    by (simp add: models_def models_of_snoc)
qed

lemma attach_propagation_ok:
  fixes w :: nat
  assumes ok: "propagation_ok s" and fresh: "\<forall>r \<in> dom (Arena s). r < ArenaWords s"
    and r: "ArenaWords s \<noteq> kNoClause" and C: "C = a # b # D" "distinct C"
    and n: "\<forall>L \<in> set C. unat (var L) < numVars s"
    and v: "\<forall>L \<in> set C. litValue s L \<noteq> 1 \<and> litValue s L \<noteq> - 1"
  defines "u \<equiv> s\<lparr>ArenaWords := w, Arena := (Arena s)(ArenaWords s \<mapsto> initialize C False)\<rparr>"
  defines "s' \<equiv> attachClause (ArenaWords s) (u\<lparr>Clauses := Clauses u @ [ArenaWords s]\<rparr>)"
  shows "propagation_ok s'" "models s' = {m \<in> models s. clause_true m C}"
    "Trail s' = Trail s" "QueueHead s' = QueueHead s" "numVars s' = numVars s"
proof -
  let ?r = "ArenaWords s"
  note f = propagation_okD [OF ok]
  have rR: "?r \<notin> refs s" using f(1) fresh by (auto simp: arena_ok_def)
  have A: "Arena s' = (Arena s)(?r \<mapsto> initialize C False)"
    and same: "refs s' = insert ?r (refs s)" "numVars s' = numVars s" "Value s' = Value s"
      "Trail s' = Trail s" "QueueHead s' = QueueHead s" "processed s' = processed s"
    by (simp_all add: s'_def u_def attachClause_def pushWatch_def refs_def numVars_def processed_def Let_def)
  have lits: "CLits (initialize C False) = a # b # D" by (simp add: initialize_def C)
  have ws: "Watches s' = (Watches s)[
      unat (index (negl a)) := wl (Watches s) (negl a) @ [\<lparr>WClause = ?r, Blocker = b\<rparr>],
      unat (index (negl b)) := wl (Watches s) (negl b) @ [\<lparr>WClause = ?r, Blocker = a\<rparr>]]"
    using C by (simp add: s'_def u_def attachClause_def pushWatch_def getClause_def wl_def
        lit_def initialize_def Let_def)
  have cl: "clits (Arena s') x = (if x = ?r then C else clits (Arena s) x)" for x
    by (simp add: A clits_upd initialize_def)
  have old: "clits (Arena s') x = clits (Arena s) x" if "x \<in> refs s" for x using that rR by (auto simp: cl)
  have "watch_ok (Arena s') (refs s') (numVars s') (Watches s')"
    unfolding A same ws by (rule watch_ok_attach [OF f(5) rR lits]) (use C n in auto)
  moreover have "arena_ok (Arena s') (refs s') (numVars s')"
    using f(1) n C by (auto simp: arena_ok_def same cl) (auto simp: A)
  moreover have "settled (Arena s') (refs s') (Value s') (processed s') {}"
    unfolding settled_def same
  proof (intro ballI allI impI)
    fix x k :: nat
    assume x: "x \<in> insert ?r (refs s)" "k < 2" "negl (clits (Arena s') x ! k) \<in> processed s"
    have "x \<noteq> ?r"
    proof
      assume "x = ?r"
      then have "clits (Arena s') x ! k \<in> set C"
        using x(2) C by (auto simp: cl less_2_cases_iff)
      moreover have "negl (clits (Arena s') x ! k) \<in> set (Trail s)"
        using x(3) by (auto simp: processed_def dest: in_set_takeD)
      ultimately show False using v trail_ok_false [OF f(2)] by (auto simp: litValue_worth)
    qed
    with x old f(6) show "\<exists>L \<in> set (clits (Arena s') x). worth (Value s) L = 1"
      by (auto simp: settled_def)
  qed
  ultimately show "propagation_ok s'"
    using f r by (simp add: propagation_ok_def watched_def base_ok_def same)
  show "models s' = {m \<in> models s. clause_true m C}"
    using old by (auto simp: models_def models_of_def same cl)
  show "Trail s' = Trail s" "QueueHead s' = QueueHead s" "numVars s' = numVars s" by (rule same)+
qed

text \<open>
  What a call of \<open>addClause\<close> does to the formula: the models are cut down to those of the
  clause, and the answer says whether the formula is still open.
\<close>

definition adds_clause :: "SatLit list \<Rightarrow> SatEngine \<Rightarrow> bool \<Rightarrow> SatEngine \<Rightarrow> bool" where
  "adds_clause Lits s b s' \<longleftrightarrow>
     engine_ok s' \<and> numVars s' = numVars s \<and> (OutOfSpace s \<longrightarrow> OutOfSpace s') \<and>
     ((\<forall>L \<in> set Lits. unat (var L) < numVars s) \<longrightarrow> \<not> OutOfSpace s' \<longrightarrow>
        root_models s' = {m \<in> root_models s. clause_true m Lits} \<and> b = (\<not> Falsified s'))"

text \<open>The three ends of \<open>addClause\<close>, by what is left of the clause.\<close>

lemma adds_empty:
  assumes "engine_ok s" "\<not> Falsified s" "\<And>m. m \<in> models s \<Longrightarrow> \<not> clause_true m Lits"
  shows "adds_clause Lits s False (s\<lparr>Falsified := True\<rparr>)"
  using assms by (auto simp: adds_clause_def engine_ok_def engine_shape_def numVars_def root_models_def)

lemma adds_unit:
  assumes ok: "engine_ok s" and nf: "\<not> Falsified s"
    and eq: "\<And>m. m \<in> models s \<Longrightarrow> clause_true m Lits = lit_true m L"
    and L: "unat (var L) < numVars s" "litValue s L \<noteq> 1" "litValue s L \<noteq> - 1"
    and p: "propagate (enqueue L kNoClause s) = (c, t)"
  shows "if c \<noteq> kNoClause then adds_clause Lits s False (t\<lparr>Falsified := True\<rparr>)
    else adds_clause Lits s True t"
proof -
  note e = engine_okD [OF ok nf]
  note q = enqueue_propagation_ok [OF e(1) L, of kNoClause]
  note pr = propagate_ok [OF q(1) p]
  have fr: "prop_frame s t"
    using pr prop_frame_trans [OF prop_frame_enqueue] by (auto split: if_splits)
  have sh: "engine_shape t" by (rule engine_shape_frame [OF e(3) fr])
  have nb: "\<not> outOfPropagationBudget t" "\<not> outOfWatchVisitBudget t"
    using sh by (simp_all add: engine_shape_def outOfPropagationBudget_def outOfWatchVisitBudget_def)
  have nv: "numVars t = numVars s" "OutOfSpace t = OutOfSpace s" "Falsified t = Falsified s"
    using fr by (simp_all add: prop_frame_def numVars_def)
  have mL: "{m \<in> models s. lit_true m L} = {m \<in> models s. clause_true m Lits}"
    using eq by auto
  show ?thesis
  proof (cases "c = kNoClause")
    case True
    with pr nb have "propagation_ok t" "QueueHead t = length (Trail t)"
      "models t = {m \<in> models s. lit_true m L}" by (simp_all add: q(2))
    with sh nv nf mL True show ?thesis by (simp add: adds_clause_def engine_ok_def root_models_def)
  next
    case False
    with pr have "{m \<in> models s. lit_true m L} = {}" by (simp add: q(2))
    with sh nv nf mL False show ?thesis
      by (simp add: adds_clause_def engine_ok_def engine_shape_def root_models_def numVars_def)
  qed
qed

lemma adds_no_space: "engine_ok s \<Longrightarrow> adds_clause Lits s False (s\<lparr>OutOfSpace := True\<rparr>)"
  by (auto simp: adds_clause_def engine_ok_def engine_shape_def numVars_def propagation_ok_def
      watched_def base_ok_def refs_def processed_def)

lemma adds_stored:
  assumes ok: "engine_ok s" and nf: "\<not> Falsified s"
    and eq: "\<And>m. m \<in> models s \<Longrightarrow> clause_true m Lits = clause_true m C"
    and C: "C = x # y # D" "distinct C" "\<forall>L \<in> set C. unat (var L) < numVars s"
      "\<forall>L \<in> set C. litValue s L \<noteq> 1 \<and> litValue s L \<noteq> - 1"
    and al: "allocClause C False s = (r, u)"
  shows "if r = kNoClause then adds_clause Lits s False (u\<lparr>OutOfSpace := True\<rparr>)
    else adds_clause Lits s True (attachClause r (u\<lparr>Clauses := Clauses u @ [r]\<rparr>))"
proof (cases "ArenaWords s + (kHeaderWords + length C) > kMaxArenaWords")
  case True
  with al have "r = kNoClause" "u = s" by (simp_all add: allocClause_def)
  with ok show ?thesis by (simp add: adds_no_space)
next
  case False
  let ?w = "ArenaWords s + (kHeaderWords + length C)"
  note e = engine_okD [OF ok nf]
  have u: "u = s\<lparr>ArenaWords := ?w, Arena := (Arena s)(ArenaWords s \<mapsto> initialize C False)\<rparr>"
    and r: "r = ArenaWords s"
    using al False by (auto simp: allocClause_def Let_def)
  let ?s = "attachClause r (u\<lparr>Clauses := Clauses u @ [r]\<rparr>)"
  have ne: "ArenaWords s \<noteq> kNoClause" using False by (auto simp: kMaxArenaWords_def kHeaderWords_def)
  have fresh: "\<forall>r \<in> dom (Arena s). r < ArenaWords s" using e(3) by (simp add: engine_shape_def)
  note at = attach_propagation_ok [OF e(1) fresh ne C, of ?w, folded u, folded r]
  have "ArenaWords s < ?w" by (simp add: kHeaderWords_def)
  moreover have "\<forall>r \<in> dom (Arena s). r < ?w" using fresh by (blast intro: trans_less_add1)
  ultimately have "engine_shape ?s" using e(3) False
    by (auto simp: engine_shape_def r u attachClause_def pushWatch_def numVars_def Let_def)
  moreover have "OutOfSpace ?s = OutOfSpace s" "Falsified ?s = Falsified s"
    by (simp_all add: u attachClause_def pushWatch_def Let_def)
  moreover have "{m \<in> models s. clause_true m C} = {m \<in> models s. clause_true m Lits}"
    using eq by auto
  ultimately show ?thesis using at e(2) nf ne r
    by (simp add: adds_clause_def engine_ok_def root_models_def)
qed

text \<open>The clause as it is stored: sorted, simplified against the root and without duplicates.\<close>

lemma simplified_clause:
  assumes ok: "engine_ok s" and nf: "\<not> Falsified s" and n: "\<forall>L \<in> set Lits. unat (var L) < numVars s"
  shows "case simplifyClause s noLit (sort Lits) of
      None \<Rightarrow> (\<forall>m \<in> models s. clause_true m Lits)
    | Some C \<Rightarrow> (\<forall>m \<in> models s. clause_true m Lits = clause_true m C) \<and> distinct C \<and>
        (\<forall>L \<in> set C. unat (var L) < numVars s \<and> litValue s L \<noteq> 1 \<and> litValue s L \<noteq> - 1)"
proof -
  note e = engine_okD [OF ok nf]
  have inv: "\<not> isValid noLit" by (simp add: isValid_def noLit_def)
  have n': "\<forall>L \<in> set (sort Lits). unat (var L) < numVars s" using n by simp
  have "numVars s \<le> unat kMaxSatVar + 1" using e(3) by (simp add: engine_shape_def)
  with n have val: "\<forall>L \<in> set (sort Lits). isValid L" by (fastforce intro: isValid_if_small)
  have "clause_true m (sort Lits) = clause_true m Lits" for m by (rule clause_true_set_cong) simp
  with simplifyClause_models [OF propagation_okD(2) [OF e(1)] _ n', of _ noLit] inv
  have "case simplifyClause s noLit (sort Lits) of None \<Rightarrow> clause_true m Lits
      | Some C \<Rightarrow> clause_true m Lits = clause_true m C" if "m \<in> models s" for m
    using that by (fastforce simp: models_def models_of_def split: option.splits)
  moreover have "distinct C \<and> (\<forall>L \<in> set C. unat (var L) < numVars s \<and>
      litValue s L \<noteq> 1 \<and> litValue s L \<noteq> - 1)" if "simplifyClause s noLit (sort Lits) = Some C" for C
    using simplifyClause_kept [OF that _ val] inv n by (auto simp: strict_sorted_iff)
  ultimately show ?thesis by (auto split: option.splits)
qed

lemma addClause_ok:
  assumes ok: "engine_ok s" and a: "addClause Lits s = (b, s')"
  shows "adds_clause Lits s b s'"
proof -
  consider (closed) "Falsified s \<or> OutOfSpace s"
    | (foreign) "\<not> Falsified s" "\<not> OutOfSpace s"
        "\<exists>L \<in> set Lits. \<not> isValid L \<or> unat (var L) \<ge> numVars s"
    | (clause) "\<not> Falsified s" "\<not> OutOfSpace s"
        "\<not> (\<exists>L \<in> set Lits. \<not> isValid L \<or> unat (var L) \<ge> numVars s)" by blast
  then show ?thesis
  proof cases
    case closed
    with a have "b = False" "s' = s" by (auto simp: addClause_def)
    with closed ok show ?thesis by (auto simp: adds_clause_def root_models_def)
  next
    case foreign
    note e = engine_okD [OF ok foreign(1)]
    have root: "cancelUntil 0 s = s" using e(3) by (intro cancelUntil_root) (simp add: engine_shape_def)
    with a foreign have "b = False" "s' = s" by (auto simp: addClause_def Let_def)
    moreover have "\<not> (\<forall>L \<in> set Lits. unat (var L) < numVars s)"
    proof
      assume n: "\<forall>L \<in> set Lits. unat (var L) < numVars s"
      have "numVars s \<le> unat kMaxSatVar + 1" using e(3) by (simp add: engine_shape_def)
      with n have "\<forall>L \<in> set Lits. isValid L" by (fastforce intro: isValid_if_small)
      with foreign(3) n show False by (meson not_less)
    qed
    ultimately show ?thesis using ok by (auto simp: adds_clause_def)
  next
    case clause
    note e = engine_okD [OF ok clause(1)]
    have root: "cancelUntil 0 s = s" using e(3) by (intro cancelUntil_root) (simp add: engine_shape_def)
    have n: "\<forall>L \<in> set Lits. unat (var L) < numVars s" using clause(3) by (auto simp: not_le)
    note simp = simplified_clause [OF ok clause(1) n]
    show ?thesis
    proof (cases "simplifyClause s noLit (sort Lits)")
      case None
      with a clause root have "b" "s' = s" by (auto simp: addClause_def Let_def)
      with ok clause simp None show ?thesis by (auto simp: adds_clause_def root_models_def)
    next
      case (Some C)
      note C = simp [unfolded Some option.case]
      consider "C = []" | L where "C = [L]" | x y D where "C = x # y # D"
        by (cases C; cases "tl C") auto
      then show ?thesis
      proof cases
        case 1
        with a clause root Some have "b = False" "s' = s\<lparr>Falsified := True\<rparr>"
          by (auto simp: addClause_def Let_def)
        with C 1 show ?thesis by (simp add: adds_empty [OF ok clause(1)])
      next
        case (2 L)
        obtain c t where p: "propagate (enqueue L kNoClause s) = (c, t)" by fastforce
        have "if c \<noteq> kNoClause then adds_clause Lits s False (t\<lparr>Falsified := True\<rparr>)
            else adds_clause Lits s True t"
          by (rule adds_unit [OF ok clause(1) _ _ _ _ p]) (use C 2 in auto)
        with a clause root Some 2 p show ?thesis by (auto simp: addClause_def Let_def split: if_splits)
      next
        case (3 x y D)
        obtain r u where al: "allocClause C False s = (r, u)" by fastforce
        have "if r = kNoClause then adds_clause Lits s False (u\<lparr>OutOfSpace := True\<rparr>)
            else adds_clause Lits s True (attachClause r (u\<lparr>Clauses := Clauses u @ [r]\<rparr>))"
          by (rule adds_stored [OF ok clause(1) _ 3 _ _ _ al]) (use C in auto)
        with a clause root Some 3 al show ?thesis by (auto simp: addClause_def Let_def split: if_splits)
      qed
    qed
  qed
qed

section \<open>New variables\<close>

lemma wl_snoc:
  assumes "length ws = 2 * n" and "unat (var P) < Suc n"
  shows "wl (ws @ [[], []]) P = (if unat (var P) < n then wl ws P else [])"
proof (cases "unat (var P) < n")
  case True
  with assms show ?thesis by (simp add: wl_def nth_append)
next
  case False
  with assms have "unat (var P) = n" by simp
  with assms show ?thesis by (cases "isNegated P") (simp_all add: wl_def nth_append unat_index)
qed

lemma watch_ok_snoc:
  assumes w: "watch_ok A R n ws" and a: "arena_ok A R n"
  shows "watch_ok A R (Suc n) (ws @ [[], []])"
proof (rule watch_okI)
  have len: "length ws = 2 * n" by (rule watch_ok_length [OF w])
  then show "length (ws @ [[], []]) = 2 * Suc n" by simp
  fix P assume P: "unat (var P) < Suc n"
  show "distinct (map WClause (wl (ws @ [[], []]) P))"
    using w by (simp add: wl_snoc [OF len P] watch_ok_def)
next
  have len: "length ws = 2 * n" by (rule watch_ok_length [OF w])
  fix P W assume P: "unat (var P) < Suc n" and W: "W \<in> set (wl (ws @ [[], []]) P)"
  then have "unat (var P) < n" "W \<in> set (wl ws P)" by (auto simp: wl_snoc [OF len P] split: if_splits)
  from watch_okD [OF w this] show "WClause W \<in> R \<and>
      negl P \<in> {clits A (WClause W) ! 0, clits A (WClause W) ! 1} \<and>
      Blocker W \<in> set (clits A (WClause W))" by simp
next
  have len: "length ws = 2 * n" by (rule watch_ok_length [OF w])
  fix r k assume r: "r \<in> R" "k < (2::nat)"
  with a have "2 \<le> length (clits A r)" "\<forall>L \<in> set (clits A r). unat (var L) < n"
    by (auto simp: arena_ok_def)
  then have "unat (var (clits A r ! k)) < n" using r(2) nth_mem [of k "clits A r"] by auto
  with watch_ok_covers [OF w r] show "r \<in> WClause ` set (wl (ws @ [[], []]) (negl (clits A r ! k)))"
    by (simp add: wl_snoc [OF len])
qed

lemma trail_ok_snoc:
  assumes "trail_ok Val T"
  shows "trail_ok (Val @ [0]) T"
  using assms by (auto simp: trail_ok_def worth_def nth_append less_Suc_eq)

lemma settled_snoc:
  assumes "settled A R Val Q X" and "arena_ok A R (length Val)"
  shows "settled A R (Val @ [0]) Q X"
  using assms unfolding settled_def arena_ok_def worth_def by (metis nth_append)

lemma newVar_ok:
  assumes ok: "engine_ok s" and nv: "newVar d s = (v, s')"
  shows "engine_ok s'" "OutOfSpace s' = OutOfSpace s" "root_models s' = root_models s"
    "numVars s \<le> unat kMaxSatVar \<Longrightarrow> numVars s' = Suc (numVars s) \<and> unat v = numVars s"
    "\<not> numVars s \<le> unat kMaxSatVar \<Longrightarrow> s' = s"
proof -
  have "engine_ok s' \<and> OutOfSpace s' = OutOfSpace s \<and> root_models s' = root_models s \<and>
      (numVars s \<le> unat kMaxSatVar \<longrightarrow> numVars s' = Suc (numVars s) \<and> unat v = numVars s) \<and>
      (\<not> numVars s \<le> unat kMaxSatVar \<longrightarrow> s' = s)"
  proof (cases "numVars s \<le> unat kMaxSatVar")
    case False
    with ok nv show ?thesis by (simp add: newVar_def)
  next
    case True
    have v: "v = word_of_nat (numVars s)" and
      fields: "Value s' = Value s @ [0]" "Level s' = Level s @ [0]" "Reason s' = Reason s @ [kNoClause]"
        "Watches s' = Watches s @ [[], []]" "Arena s' = Arena s" "ArenaWords s' = ArenaWords s"
        "refs s' = refs s" "Trail s' = Trail s" "QueueHead s' = QueueHead s" "TrailLim s' = TrailLim s"
        "PropagationBudgetAt s' = PropagationBudgetAt s" "WatchVisitBudgetAt s' = WatchVisitBudgetAt s"
        "Falsified s' = Falsified s" "OutOfSpace s' = OutOfSpace s"
      using nv True by (auto simp: newVar_def refs_def Let_def split: if_splits)
    have "numVars s < 2 ^ 32" using True by (simp add: unat_kMaxSatVar)
    then have "unat v = numVars s" by (simp add: v unat_of_nat take_bit_nat_eq_self)
    moreover have n: "numVars s' = Suc (numVars s)" by (simp add: numVars_def fields)
    moreover have "propagation_ok s'" if "\<not> Falsified s"
    proof -
      note f = propagation_okD [OF engine_okD(1) [OF ok that]]
      have "arena_ok (Arena s) (refs s) (Suc (numVars s))" using f(1) by (fastforce simp: arena_ok_def)
      moreover have "settled (Arena s) (refs s) (Value s @ [0]) (processed s) {}"
        using settled_snoc [OF f(6)] f(1) by (simp add: numVars_def)
      ultimately show ?thesis
        using f watch_ok_snoc [OF f(5,1)] trail_ok_snoc [OF f(2)]
        by (simp add: propagation_ok_def watched_def base_ok_def n fields processed_def)
    qed
    ultimately show ?thesis using ok True
      by (simp add: engine_ok_def engine_shape_def fields root_models_def models_def)
  qed
  then show "engine_ok s'" "OutOfSpace s' = OutOfSpace s" "root_models s' = root_models s"
    "numVars s \<le> unat kMaxSatVar \<Longrightarrow> numVars s' = Suc (numVars s) \<and> unat v = numVars s"
    "\<not> numVars s \<le> unat kMaxSatVar \<Longrightarrow> s' = s" by blast+
qed

section \<open>Root values\<close>

lemma rootValue_sound:
  assumes ok: "engine_ok s" and m: "m \<in> root_models s"
  shows "rootValue s L = VTrue \<Longrightarrow> lit_true m L" "rootValue s L = VFalse \<Longrightarrow> \<not> lit_true m L"
proof -
  have nf: "\<not> Falsified s" and mm: "m \<in> models s" using m by (auto simp: root_models_def split: if_splits)
  note f = propagation_okD [OF engine_okD(1) [OF ok nf]]
  have key: "lit_true m L" if "unat (var L) < numVars s" "worth (Value s) L = 1" for L
    using trail_ok_worth_1 [OF f(2)] that mm by (simp add: numVars_def models_def models_of_def)
  have range: "Value s ! unat (var L) \<in> {- 1, 0, 1}" if "unat (var L) < numVars s"
    using f(2) that by (simp add: trail_ok_def numVars_def)
  have T: "worth (Value s) L = 1 \<and> unat (var L) < numVars s" if "rootValue s L = VTrue"
    using that range by (auto simp: rootValue_def negate_def worth_def Let_def split: if_splits)
  have F: "worth (Value s) L = - 1 \<and> unat (var L) < numVars s" if "rootValue s L = VFalse"
    using that range by (auto simp: rootValue_def negate_def worth_def Let_def split: if_splits)
  show "rootValue s L = VTrue \<Longrightarrow> lit_true m L" using T key by blast
  show "rootValue s L = VFalse \<Longrightarrow> \<not> lit_true m L" using F key [of "negl L"] by auto
qed

section \<open>The contract of a clause store\<close>

definition exhausted :: "SatEngine \<Rightarrow> bool" where
  "exhausted s \<longleftrightarrow> OutOfSpace s \<or> numVars s > unat kMaxSatVar"

definition addAll :: "SatLit list list \<Rightarrow> SatEngine \<Rightarrow> SatEngine" where
  "addAll Cs s = fold (\<lambda>C s. snd (addClause C s)) Cs s"

locale clause_backend =
  fixes ok full :: "'s \<Rightarrow> bool" and size :: "'s \<Rightarrow> nat" and mods :: "'s \<Rightarrow> assignment set"
    and fresh :: "bool \<Rightarrow> 's \<Rightarrow> SatVar \<times> 's" and add :: "SatLit list \<Rightarrow> 's \<Rightarrow> bool \<times> 's"
  assumes size_bound: "ok s \<Longrightarrow> size s < 2 ^ 31"
    and mods_agree: "ok s \<Longrightarrow> m \<in> mods s \<Longrightarrow> agree (size s) m m' \<Longrightarrow> m' \<in> mods s"
    and fresh_ok: "ok s \<Longrightarrow> fresh d s = (v, s') \<Longrightarrow> ok s' \<and> (full s \<longrightarrow> full s') \<and> size s \<le> size s' \<and>
      (\<not> full s' \<longrightarrow> unat v = size s \<and> size s' = Suc (size s) \<and> mods s' = mods s)"
    and add_ok: "ok s \<Longrightarrow> add C s = (b, s') \<Longrightarrow> ok s' \<and> (full s \<longrightarrow> full s') \<and> size s' = size s \<and>
      (\<not> full s' \<longrightarrow> (\<forall>L \<in> set C. unat (var L) < size s) \<longrightarrow> mods s' = {m \<in> mods s. clause_true m C})"
begin

lemma add_sequence:
  assumes "ok s" "s' = fold (\<lambda>C s. snd (add C s)) Cs s"
  shows "ok s' \<and> (full s \<longrightarrow> full s') \<and> size s' = size s \<and>
    (\<not> full s' \<longrightarrow> (\<forall>C \<in> set Cs. \<forall>L \<in> set C. unat (var L) < size s) \<longrightarrow>
       mods s' = {m \<in> mods s. \<forall>C \<in> set Cs. clause_true m C})"
  using assms
proof (induction Cs arbitrary: s)
  case (Cons C Cs)
  obtain b t where t: "add C s = (b, t)" by fastforce
  note a = add_ok [OF Cons.prems(1) t]
  with t Cons.prems Cons.IH [of t]
  have r: "ok s' \<and> (full t \<longrightarrow> full s') \<and> size s' = size t \<and>
    (\<not> full s' \<longrightarrow> (\<forall>C \<in> set Cs. \<forall>L \<in> set C. unat (var L) < size t) \<longrightarrow>
       mods s' = {m \<in> mods t. \<forall>C \<in> set Cs. clause_true m C})" by simp
  from a r show ?case by auto
qed auto

text \<open>
  A fresh variable constrained by clauses that some value of it satisfies, whatever the other
  variables are worth, loses no model.
\<close>

lemma define_fresh:
  assumes ok: "ok s" and f: "fresh d s = (v, t)" and s': "s' = fold (\<lambda>C s. snd (add C s)) Cs t"
    and nf: "\<not> full s'" and range: "\<forall>C \<in> set Cs. \<forall>L \<in> set C. unat (var L) \<le> size s"
    and total: "\<And>m. \<exists>b. \<forall>C \<in> set Cs. clause_true (m(v := b)) C"
  shows "mods s' = {m \<in> mods s. \<forall>C \<in> set Cs. clause_true m C}"
    "m \<in> mods s \<Longrightarrow> \<exists>m' \<in> mods s'. agree (size s) m m'"
proof -
  note a = fresh_ok [OF ok f]
  note b = add_sequence [OF conjunct1 [OF a] s']
  have nt: "\<not> full t" using b nf by blast
  then have t: "unat v = size s" "size t = Suc (size s)" "mods t = mods s" using a by auto
  show eq: "mods s' = {m \<in> mods s. \<forall>C \<in> set Cs. clause_true m C}"
    using b nf range t by (simp add: less_Suc_eq_le)
  assume m: "m \<in> mods s"
  from total obtain c where c: "\<forall>C \<in> set Cs. clause_true (m(v := c)) C" by blast
  have ag: "agree (size s) m (m(v := c))" using t(1) by (simp add: agree_update)
  with mods_agree [OF ok m] eq c show "\<exists>m' \<in> mods s'. agree (size s) m m'" by blast
qed

end

interpretation engine: clause_backend engine_ok exhausted numVars root_models newVar addClause
proof
  fix s m m'
  assume "engine_ok s"
  then show "numVars s < 2 ^ 31" by (simp add: engine_ok_def engine_shape_def unat_kMaxSatVar)
  assume "m \<in> root_models s" "agree (numVars s) m m'"
  with \<open>engine_ok s\<close> show "m' \<in> root_models s" by (rule root_models_agree)
next
  fix s d v s'
  assume ok: "engine_ok s" and n: "newVar d s = (v, s')"
  note n = newVar_ok [OF ok n]
  show "engine_ok s' \<and> (exhausted s \<longrightarrow> exhausted s') \<and> numVars s \<le> numVars s' \<and>
      (\<not> exhausted s' \<longrightarrow> unat v = numVars s \<and> numVars s' = Suc (numVars s) \<and>
         root_models s' = root_models s)"
    using n by (cases "numVars s \<le> unat kMaxSatVar") (auto simp: exhausted_def)
next
  fix s C b s'
  assume "engine_ok s" "addClause C s = (b, s')"
  then have "adds_clause C s b s'" by (rule addClause_ok)
  then show "engine_ok s' \<and> (exhausted s \<longrightarrow> exhausted s') \<and> numVars s' = numVars s \<and>
      (\<not> exhausted s' \<longrightarrow> (\<forall>L \<in> set C. unat (var L) < numVars s) \<longrightarrow>
         root_models s' = {m \<in> root_models s. clause_true m C})"
    by (auto simp: adds_clause_def exhausted_def)
qed

section \<open>Undoing assignments\<close>

lemma fold_unassign_fields:
  "Trail (fold unassign Ls s) = Trail s" "TrailLim (fold unassign Ls s) = TrailLim s"
  "length (Value (fold unassign Ls s)) = length (Value s)"
  "Arena (fold unassign Ls s) = Arena s" "refs (fold unassign Ls s) = refs s"
  "Watches (fold unassign Ls s) = Watches s"
  by (induction Ls arbitrary: s) (simp_all add: unassign_def Let_def refs_def)

lemma fold_unassign_Value:
  "v < length (Value s) \<Longrightarrow>
     Value (fold unassign Ls s) ! v = (if v \<in> unat ` var ` set Ls then 0 else Value s ! v)"
proof (induction Ls arbitrary: s)
  case (Cons L Ls)
  then show ?case by (auto simp: unassign_def Let_def nth_list_update)
qed simp

lemma cancelUntil_trail:
  assumes t: "trail_ok (Value s) (Trail s)" and l: "Lvl < decisionLevel s"
  shows "trail_ok (Value (cancelUntil Lvl s)) (take (TrailLim s ! Lvl) (Trail s))"
proof -
  let ?B = "TrailLim s ! Lvl"
  let ?u = "fold unassign (rev (drop ?B (Trail s))) s"
  have V: "Value (cancelUntil Lvl s) = Value ?u" using l by (simp add: cancelUntil_def Let_def)
  have nth: "Value ?u ! v = (if v \<in> unat ` var ` set (drop ?B (Trail s)) then 0 else Value s ! v)"
    if "v < length (Value s)" for v using that by (simp add: fold_unassign_Value)
  have d: "distinct (map var (take ?B (Trail s)) @ map var (drop ?B (Trail s)))"
    using t by (simp add: trail_ok_def flip: map_append)
  have keep: "worth (Value ?u) L = worth (Value s) L" if "L \<in> set (take ?B (Trail s))" for L
  proof -
    have "var L \<notin> var ` set (drop ?B (Trail s))" using d that by auto
    then have "unat (var L) \<notin> unat ` var ` set (drop ?B (Trail s))" by auto
    moreover have "unat (var L) < length (Value s)"
      using that t by (auto simp: trail_ok_def dest: in_set_takeD)
    ultimately show ?thesis by (simp add: worth_def nth)
  qed
  have split: "set (Trail s) = set (take ?B (Trail s)) \<union> set (drop ?B (Trail s))"
    by (metis append_take_drop_id set_append)
  show ?thesis unfolding V trail_ok_def
  proof (intro conjI ballI allI impI)
    show "distinct (map var (take ?B (Trail s)))" using d by simp
  next
    fix L assume L: "L \<in> set (take ?B (Trail s))"
    with t show "unat (var L) < length (Value ?u)"
      by (auto simp: trail_ok_def fold_unassign_fields dest: in_set_takeD)
    from L t show "worth (Value ?u) L = 1" by (auto simp: keep trail_ok_def dest: in_set_takeD)
  next
    fix v assume v: "v < length (Value ?u)"
    then have v': "v < length (Value s)" by (simp add: fold_unassign_fields)
    with t show "Value ?u ! v \<in> {- 1, 0, 1}" by (simp add: nth trail_ok_def)
    assume "Value ?u ! v \<noteq> 0"
    with v' have "v \<notin> unat ` var ` set (drop ?B (Trail s))" "Value s ! v \<noteq> 0"
      by (auto simp: nth split: if_splits)
    with t v' split show "\<exists>L \<in> set (take ?B (Trail s)). unat (var L) = v"
      by (fastforce simp: trail_ok_def)
  qed
qed

lemma removeWatch_at_mset:
  assumes "List = Pre @ Ws" "I = length Pre"
  shows "mset (removeWatch_at I Ref Ws List) =
    (case List.find (\<lambda>W. WClause W = Ref) Ws of None \<Rightarrow> mset List | Some W \<Rightarrow> mset List - {#W#})"
  using assms
proof (induction Ws arbitrary: I Pre)
  case (Cons W Ws)
  show ?case
  proof (cases "WClause W = Ref")
    case False
    then show ?thesis using Cons.IH [of "Pre @ [W]" "Suc I"] Cons.prems by simp
  next
    case True
    have "mset (butlast (List[I := last List])) = mset List - {#W#}"
    proof (cases Ws rule: rev_cases)
      case Nil
      then show ?thesis using Cons.prems by (simp add: butlast_append)
    next
      case (snoc Vs V)
      then have "List[I := last List] = (Pre @ V # Vs) @ [V]" using Cons.prems by simp
      then show ?thesis using snoc Cons.prems by (simp only: butlast_snoc) simp
    qed
    with True show ?thesis by simp
  qed
qed simp

section \<open>What building a formula promises\<close>

definition two_vars :: SatEngine where
  "two_vars = snd (newVar True (snd (newVar True (newEngine defaultOptions))))"

lemma two_vars_ok: "engine_ok two_vars" "root_models two_vars = UNIV"
proof -
  obtain v t where 1: "newVar True (newEngine defaultOptions) = (v, t)" by fastforce
  obtain w u where 2: "newVar True t = (w, u)" by fastforce
  note a = newVar_ok [OF newEngine_ok(1) 1]
  note b = newVar_ok [OF a(1) 2]
  from a b 1 2 newEngine_ok(2) show "engine_ok two_vars" "root_models two_vars = UNIV"
    by (simp_all add: two_vars_def)
qed

lemma two_vars_fields:
  "Value two_vars = [0, 0]" "Falsified two_vars = False" "OutOfSpace two_vars = False"
  "numVars two_vars = 2" "ArenaWords two_vars = 0" "TrailLim two_vars = []"
  "Trail two_vars = []" "Level two_vars = [0, 0]"
  by (simp_all add: two_vars_def newVar_def newEngine_def numVars_def Let_def unat_kMaxSatVar)

lemma var_01 [simp]: "var (positive 0) = 0" "var (positive 1) = 1"
  by simp_all

text \<open>
  C19.  From a state whose watch lists are in order, unit propagation ends; it never changes the
  models of the clauses and the trail, a clause it reports as falsified means there are none, and
  otherwise, unless a budget stopped it, no clause is left unit or falsified.\<close>

theorem unit_propagation_correct:
  assumes "propagation_ok s"
  shows "models (snd (propagate s)) = models s \<and>
    (if fst (propagate s) \<noteq> kNoClause then models s = {}
     else propagation_ok (snd (propagate s)) \<and>
       (outOfPropagationBudget (snd (propagate s)) \<or> outOfWatchVisitBudget (snd (propagate s)) \<or>
        (\<forall>r \<in> refs (snd (propagate s)). quiet (snd (propagate s)) r)))"
  using propagate_ok [OF assms prod.collapse [symmetric]] settled_quiet
  by (auto split: if_splits)

lemma two_vars_pending: "propagation_ok (enqueue (positive 0) kNoClause two_vars)"
  using two_vars_ok(1) two_vars_fields(2)
  by (intro enqueue_propagation_ok) (simp_all add: engine_ok_def litValue_def two_vars_fields)

theorem unit_propagation_correct_witness:
  "models (snd (propagate (enqueue (positive 0) kNoClause two_vars))) =
     models (enqueue (positive 0) kNoClause two_vars)"
  using unit_propagation_correct [OF two_vars_pending] by blast

text \<open>
  C20.  Adding a clause over variables the engine has restricts the models of the formula to those
  of the clause, whatever simplification, unit propagation or storage it takes, and the answer says
  whether the formula is still open; only an exhausted arena is excepted.\<close>

theorem addClause_meaning:
  assumes "engine_ok s" "\<forall>L \<in> set Lits. unat (var L) < numVars s"
    "\<not> OutOfSpace (snd (addClause Lits s))"
  shows "engine_ok (snd (addClause Lits s)) \<and>
    root_models (snd (addClause Lits s)) = {m \<in> root_models s. clause_true m Lits} \<and>
    fst (addClause Lits s) = (\<not> Falsified (snd (addClause Lits s)))"
  using addClause_ok [OF assms(1) prod.collapse [symmetric], of Lits] assms(2,3)
  by (simp add: adds_clause_def)

lemma two_vars_implies:
  "\<not> OutOfSpace (snd (addClause [negl (positive 0), positive 1] two_vars))"
proof -
  have s: "sort [negl (positive 0), positive 1] = [negl (positive 0), positive 1]"
    by (simp add: less_eq_SatLit_def negl_def positive_def mk_def)
  have v: "isValid (negl (positive 0))" "isValid (positive 1)"
    by (simp_all add: isValid_def kInvalidCode_def negl_def positive_def mk_def)
  have ne: "negl (positive 0) \<noteq> positive 1" "positive 1 \<noteq> negl (positive 0)" "positive 1 \<noteq> positive 0"
    by (simp_all add: SatLit_eq_iff)
  show ?thesis
    by (simp add: addClause_def cancelUntil_root two_vars_fields s v ne litValue_def Let_def
        allocClause_def kHeaderWords_def kMaxArenaWords_def kNoClause_def attachClause_def
        pushWatch_def isValid_def noLit_def del: sort_key_simps)
qed

theorem addClause_meaning_witness:
  "root_models (snd (addClause [negl (positive 0), positive 1] two_vars)) = {m. m 0 \<le> m 1}"
  using addClause_meaning [OF two_vars_ok(1) _ two_vars_implies]
  by (auto simp: two_vars_fields two_vars_ok(2) lit_true_def)

text \<open>
  A new variable is the next number, keeps the meaning of the formula and may take either
  value in any model; once the variable numbers are used up the engine is left unchanged.\<close>

lemma newVar_meaning:
  assumes "engine_ok s"
  shows "engine_ok (snd (newVar d s)) \<and> root_models (snd (newVar d s)) = root_models s \<and>
    (if numVars s \<le> unat kMaxSatVar
     then unat (fst (newVar d s)) = numVars s \<and> numVars (snd (newVar d s)) = Suc (numVars s) \<and>
       (\<forall>m \<in> root_models s. \<forall>b. m(fst (newVar d s) := b) \<in> root_models s)
     else newVar d s = (kInvalidSatVar, s))"
proof -
  note n = newVar_ok [OF assms prod.collapse [symmetric], of d]
  have "m(v := b) \<in> root_models s" if "unat v = numVars s" "m \<in> root_models s" for m v b
    using root_models_agree [OF assms that(2) agree_update] that(1) by simp
  with n show ?thesis by (auto simp: newVar_def)
qed

text \<open>
  Backtracking to a level truncates the trail where that level ended and unassigns exactly the
  literals above it: the remaining trail and the value table agree again.\<close>

lemma backtrack_restores:
  assumes "trail_ok (Value s) (Trail s)" "Lvl < decisionLevel s"
  shows "Trail (cancelUntil Lvl s) = take (TrailLim s ! Lvl) (Trail s) \<and>
    trail_ok (Value (cancelUntil Lvl s)) (Trail (cancelUntil Lvl s)) \<and>
    decisionLevel (cancelUntil Lvl s) = Lvl \<and>
    QueueHead (cancelUntil Lvl s) = length (Trail (cancelUntil Lvl s))"
  using cancelUntil_trail [OF assms] assms(2)
  by (simp add: cancelUntil_def Let_def decisionLevel_def fold_unassign_fields)

text \<open>
  Detaching takes exactly the first entry for the clause out of a watch list, up to order.\<close>

lemma removeWatch_exact:
  "mset (removeWatch Ref List) =
     (case List.find (\<lambda>W. WClause W = Ref) List of None \<Rightarrow> mset List | Some W \<Rightarrow> mset List - {#W#})"
  unfolding removeWatch_def by (rule removeWatch_at_mset [where Pre = "[]"]) simp_all

text \<open>
  The end point of a budget is zero exactly for an unbounded allowance, and otherwise the
  sum of what is used and what is allowed, saturated at the largest counter value.\<close>

lemma budget_saturates:
  "unat (budgetEndpoint Used Allowance) =
     (if Allowance = 0 then 0 else min (unat Used + unat Allowance) (2 ^ 64 - 1))"
proof -
  have top: "unat (NOT 0 :: u64) = 2 ^ 64 - 1"
    by (simp add: unsigned_minus_1_eq_mask mask_eq_exp_minus_1)
  have "unat Allowance < 2 ^ 64" using unsigned_less [of Allowance] by simp
  then have le: "unat Allowance \<le> 2 ^ 64 - 1" by simp
  have sub: "unat (NOT 0 - Allowance) = 2 ^ 64 - 1 - unat Allowance"
    using unat_sub [of Allowance "NOT 0"] top le by (simp add: word_le_nat_alt)
  show ?thesis
  proof (cases "Used > NOT 0 - Allowance")
    case True
    with sub le have "unat Used + unat Allowance > 2 ^ 64 - 1" by (simp add: word_less_nat_alt)
    with True top show ?thesis by (simp add: budgetEndpoint_def)
  next
    case False
    with sub le have s: "unat Used + unat Allowance \<le> 2 ^ 64 - 1" by (simp add: word_less_nat_alt not_less)
    then have "unat (Used + Allowance) = unat Used + unat Allowance"
      by (simp add: unat_word_ariths)
    with False s show ?thesis by (simp add: budgetEndpoint_def)
  qed
qed

end
