(* ===== verification/Cnf_Encoder.thy ===== *)
theory Cnf_Encoder
  imports Sat_Formula
begin

text \<open>
  The gate encoder (\<open>include/neverd/solver/CnfEncoder.h\<close>, \<open>lib/solver/cnf/CnfEncoder.cpp\<close>):
  builders that fold constants and repeated operands, a hash table that shares structurally equal
  gates, and the clauses that define a gate, half by half.  The encoder owns its solver here, where
  the code borrows a reference to it.

  Probing an open-addressed table is a loop; its model gets one step per slot, which is enough
  because the table always has an empty slot (theory \<open>Cnf_Gates\<close>).
\<close>

datatype GatePolarity = Positive | Negative | Both

datatype GateKind = GAnd | GXor | GIte | GMajority

fun flip :: "GatePolarity \<Rightarrow> GatePolarity" where
  "flip Positive = Negative"
| "flip Negative = Positive"
| "flip Both = Both"

record Gate =
  GKind :: GateKind
  GEmitted :: u8
  FirstOperand :: u32
  NumOperands :: u32
  GOut :: SatLit

definition kPositiveEmitted :: u8 where
  "kPositiveEmitted = 1"

definition kNegativeEmitted :: u8 where
  "kNegativeEmitted = 2"

record GateBucket =
  BHash :: u32
  BIndex :: u32

record CnfEncoder =
  Solver :: SatEngine
  TrueLit :: SatLit
  Gates :: "Gate list"
  OperandPool :: "SatLit list"
  GateTable :: "GateBucket list"

definition kCnfEncoderMaxXorFanIn :: nat where
  "kCnfEncoderMaxXorFanIn = 3"

section \<open>Constants\<close>

definition newEncoder :: "SatEngine \<Rightarrow> CnfEncoder" where
  "newEncoder s =
     (case newVar False s of (V, s) \<Rightarrow>
        \<lparr>Solver = snd (addClause [positive V] s), TrueLit = positive V, Gates = [],
         OperandPool = [], GateTable = []\<rparr>)"

definition trueLit :: "CnfEncoder \<Rightarrow> SatLit" where
  "trueLit e = TrueLit e"

definition falseLit :: "CnfEncoder \<Rightarrow> SatLit" where
  "falseLit e = negl (TrueLit e)"

definition constantLit :: "CnfEncoder \<Rightarrow> bool \<Rightarrow> SatLit" where
  "constantLit e b = withPolarity (TrueLit e) b"

definition isConstant :: "CnfEncoder \<Rightarrow> SatLit \<Rightarrow> bool" where
  "isConstant e L \<longleftrightarrow> var L = var (TrueLit e) \<or> rootValue (Solver e) L \<noteq> VUnknown"

definition isTrueLit :: "CnfEncoder \<Rightarrow> SatLit \<Rightarrow> bool" where
  "isTrueLit e L =
     (if var L = var (TrueLit e) then L = TrueLit e else rootValue (Solver e) L = VTrue)"

definition isFalseLit :: "CnfEncoder \<Rightarrow> SatLit \<Rightarrow> bool" where
  "isFalseLit e L =
     (if var L = var (TrueLit e) then L = negl (TrueLit e) else rootValue (Solver e) L = VFalse)"

definition freshLit :: "CnfEncoder \<Rightarrow> SatLit \<times> CnfEncoder" where
  "freshLit e = (case newVar True (Solver e) of (V, s) \<Rightarrow> (positive V, e\<lparr>Solver := s\<rparr>))"

definition numGates :: "CnfEncoder \<Rightarrow> nat" where
  "numGates e = length (Gates e)"

section \<open>Emitting definitions\<close>

definition operandsOf :: "CnfEncoder \<Rightarrow> Gate \<Rightarrow> SatLit list" where
  "operandsOf e G = take (unat (NumOperands G)) (drop (unat (FirstOperand G)) (OperandPool e))"

text \<open>The clauses each emitter hands to the solver, in order.\<close>

definition andClauses :: "SatLit list \<Rightarrow> SatLit \<Rightarrow> bool \<Rightarrow> SatLit list list" where
  "andClauses Ins Out Pos =
     (if Pos then map (\<lambda>In. [negl Out, In]) Ins else [Out # map negl Ins])"

definition xorClause :: "SatLit list \<Rightarrow> SatLit \<Rightarrow> nat \<Rightarrow> SatLit list" where
  "xorClause Ins Out Assignment =
     map (\<lambda>I. withPolarity (Ins ! I) (\<not> bit Assignment I)) [0..<length Ins] @
     [withPolarity Out (foldl (\<lambda>Parity I. Parity \<noteq> bit Assignment I) False [0..<length Ins])]"

definition xorClauses :: "SatLit list \<Rightarrow> SatLit \<Rightarrow> SatLit list list" where
  "xorClauses Ins Out = map (xorClause Ins Out) [0..<2 ^ length Ins]"

definition iteClauses :: "SatLit list \<Rightarrow> SatLit \<Rightarrow> bool \<Rightarrow> SatLit list list" where
  "iteClauses Ins Out Pos =
     (let C = Ins ! 0; T = Ins ! 1; E = Ins ! 2 in
      if Pos then [[negl Out, negl C, T], [negl Out, C, E], [negl Out, T, E]]
      else [[Out, negl C, negl T], [Out, C, negl E], [Out, negl T, negl E]])"

definition majorityClauses :: "SatLit list \<Rightarrow> SatLit \<Rightarrow> bool \<Rightarrow> SatLit list list" where
  "majorityClauses Ins Out Pos =
     (let A = Ins ! 0; B = Ins ! 1; C = Ins ! 2 in
      if Pos then [[negl Out, A, B], [negl Out, A, C], [negl Out, B, C]]
      else [[Out, negl A, negl B], [Out, negl A, negl C], [Out, negl B, negl C]])"

definition emitAnd :: "Gate \<Rightarrow> bool \<Rightarrow> CnfEncoder \<Rightarrow> CnfEncoder" where
  "emitAnd G Pos e = e\<lparr>Solver := addAll (andClauses (operandsOf e G) (GOut G) Pos) (Solver e)\<rparr>"

definition emitXor :: "Gate \<Rightarrow> CnfEncoder \<Rightarrow> CnfEncoder" where
  "emitXor G e = e\<lparr>Solver := addAll (xorClauses (operandsOf e G) (GOut G)) (Solver e)\<rparr>"

definition emitIte :: "Gate \<Rightarrow> bool \<Rightarrow> CnfEncoder \<Rightarrow> CnfEncoder" where
  "emitIte G Pos e = e\<lparr>Solver := addAll (iteClauses (operandsOf e G) (GOut G) Pos) (Solver e)\<rparr>"

definition emitMajority :: "Gate \<Rightarrow> bool \<Rightarrow> CnfEncoder \<Rightarrow> CnfEncoder" where
  "emitMajority G Pos e =
     e\<lparr>Solver := addAll (majorityClauses (operandsOf e G) (GOut G) Pos) (Solver e)\<rparr>"

definition setEmitted :: "nat \<Rightarrow> u8 \<Rightarrow> CnfEncoder \<Rightarrow> CnfEncoder" where
  "setEmitted Index M e = e\<lparr>Gates := (Gates e)[Index := (Gates e ! Index)\<lparr>GEmitted := M\<rparr>]\<rparr>"

definition emit :: "nat \<Rightarrow> GatePolarity \<Rightarrow> CnfEncoder \<Rightarrow> CnfEncoder" where
  "emit Index P e =
     (let G = Gates e ! Index;
          Wanted = (if P \<noteq> Negative then kPositiveEmitted else 0) OR
                   (if P \<noteq> Positive then kNegativeEmitted else 0);
          Missing = Wanted AND NOT (GEmitted G);
          halves = (\<lambda>em e.
            let e = setEmitted Index (GEmitted G OR Missing) e;
                e = (if Missing AND kPositiveEmitted \<noteq> 0 then em G True e else e)
            in if Missing AND kNegativeEmitted \<noteq> 0 then em G False e else e)
      in
      if Missing = 0 then e
      else
        case GKind G of
          GAnd \<Rightarrow> halves emitAnd e
        | GXor \<Rightarrow> emitXor G (setEmitted Index (kPositiveEmitted OR kNegativeEmitted) e)
        | GIte \<Rightarrow> halves emitIte e
        | GMajority \<Rightarrow> halves emitMajority e)"

section \<open>The gate table\<close>

definition mixHash :: "u64 \<Rightarrow> u64 \<Rightarrow> u64" where
  "mixHash H V = H XOR (V + 0x9e3779b97f4a7c15 + push_bit 6 H + drop_bit 2 H)"

definition gateFingerprint :: "u64 \<Rightarrow> u32" where
  "gateFingerprint Hash =
     (let Hash = (Hash XOR drop_bit 32 Hash) * 0x9e3779b97f4a7c15
      in ucast (Hash XOR drop_bit 32 Hash))"

fun kindCode :: "GateKind \<Rightarrow> u64" where
  "kindCode GAnd = 0"
| "kindCode GXor = 1"
| "kindCode GIte = 2"
| "kindCode GMajority = 3"

definition gateHash :: "GateKind \<Rightarrow> SatLit list \<Rightarrow> u32" where
  "gateHash Kind Ins =
     gateFingerprint (foldl (\<lambda>H L. mixHash H (ucast (index L))) (mixHash 0x51ed270b (kindCode Kind)) Ins)"

definition emptyBucket :: GateBucket where
  "emptyBucket = \<lparr>BHash = 0, BIndex = 0\<rparr>"

text \<open>The first empty slot from \<open>Slot\<close> on, wrapping at the end of the table.\<close>

fun freeSlot :: "nat \<Rightarrow> GateBucket list \<Rightarrow> nat \<Rightarrow> nat" where
  "freeSlot 0 Table Slot = Slot"
| "freeSlot (Suc n) Table Slot =
     (if BIndex (Table ! Slot) = 0 then Slot
      else freeSlot n Table ((Slot + 1) AND (length Table - 1)))"

definition firstSlot :: "u32 \<Rightarrow> GateBucket list \<Rightarrow> nat" where
  "firstSlot Hash Table = unat Hash AND (length Table - 1)"

definition placeEntry :: "GateBucket \<Rightarrow> GateBucket list \<Rightarrow> GateBucket list" where
  "placeEntry Entry Next =
     (if BIndex Entry = 0 then Next
      else Next[freeSlot (length Next) Next (firstSlot (BHash Entry) Next) := Entry])"

definition growGateTable :: "CnfEncoder \<Rightarrow> CnfEncoder" where
  "growGateTable e =
     e\<lparr>GateTable := fold placeEntry (GateTable e)
         (replicate (if GateTable e = [] then 64 else length (GateTable e) * 2) emptyBucket)\<rparr>"

datatype probe = Hit nat | Miss nat

fun probeGate :: "nat \<Rightarrow> u32 \<Rightarrow> GateKind \<Rightarrow> SatLit list \<Rightarrow> CnfEncoder \<Rightarrow> nat \<Rightarrow> probe" where
  "probeGate 0 Fingerprint Kind Ins e Slot = Miss Slot"
| "probeGate (Suc n) Fingerprint Kind Ins e Slot =
     (let B = GateTable e ! Slot in
      if BIndex B = 0 then Miss Slot
      else
        let Index = unat (BIndex B - 1); G = Gates e ! Index in
        if BHash B = Fingerprint \<and> GKind G = Kind \<and> unat (NumOperands G) = length Ins \<and>
           Ins = operandsOf e G
        then Hit Index
        else probeGate n Fingerprint Kind Ins e ((Slot + 1) AND (length (GateTable e) - 1)))"

definition appendGate :: "u32 \<Rightarrow> GateKind \<Rightarrow> SatLit list \<Rightarrow> nat \<Rightarrow> CnfEncoder \<Rightarrow> SatLit \<times> CnfEncoder" where
  "appendGate Fingerprint Kind Ins Slot e =
     (case freshLit e of (Out, e) \<Rightarrow>
        (Out, e\<lparr>Gates := Gates e @ [\<lparr>GKind = Kind, GEmitted = 0,
                  FirstOperand = word_of_nat (length (OperandPool e)),
                  NumOperands = word_of_nat (length Ins), GOut = Out\<rparr>],
                OperandPool := OperandPool e @ Ins,
                GateTable := (GateTable e)[Slot :=
                  \<lparr>BHash = Fingerprint, BIndex = word_of_nat (length (Gates e)) + 1\<rparr>]\<rparr>))"

definition gate :: "GateKind \<Rightarrow> SatLit list \<Rightarrow> GatePolarity \<Rightarrow> CnfEncoder \<Rightarrow> SatLit \<times> CnfEncoder" where
  "gate Kind Ins P e =
     (let Fingerprint = gateHash Kind Ins;
          e = (if GateTable e = [] then growGateTable e else e)
      in
      case probeGate (length (GateTable e)) Fingerprint Kind Ins e
             (firstSlot Fingerprint (GateTable e)) of
        Hit Index \<Rightarrow> let e = emit Index P e in (GOut (Gates e ! Index), e)
      | Miss Slot \<Rightarrow>
          let full = length (Gates e) \<ge> length (GateTable e) - length (GateTable e) div 4;
              e = (if full then growGateTable e else e);
              Slot = (if full
                      then freeSlot (length (GateTable e)) (GateTable e)
                             (firstSlot Fingerprint (GateTable e))
                      else Slot);
              Index = length (Gates e)
          in case appendGate Fingerprint Kind Ins Slot e of (Out, e) \<Rightarrow> (Out, emit Index P e))"

section \<open>Gate builders\<close>

definition sortGateInputs :: "SatLit list \<Rightarrow> SatLit list" where
  "sortGateInputs Inputs =
     (case Inputs of
        [] \<Rightarrow> []
      | [A] \<Rightarrow> [A]
      | [A, B] \<Rightarrow> if B < A then [B, A] else [A, B]
      | [A, B, C] \<Rightarrow>
          let (A, B) = (if B < A then (B, A) else (A, B));
              (B, C) = (if C < B then (C, B) else (B, C));
              (A, B) = (if B < A then (B, A) else (A, B))
          in [A, B, C]
      | _ \<Rightarrow> sort Inputs)"

fun andTerms :: "CnfEncoder \<Rightarrow> SatLit \<Rightarrow> SatLit list \<Rightarrow> SatLit list option" where
  "andTerms e Prev [] = Some []"
| "andTerms e Prev (L # Ls) =
     (if isTrueLit e L then andTerms e Prev Ls
      else if isFalseLit e L then None
      else if isValid Prev \<and> L = Prev then andTerms e Prev Ls
      else if isValid Prev \<and> L = negl Prev then None
      else map_option ((#) L) (andTerms e L Ls))"

definition mkAnd :: "SatLit list \<Rightarrow> GatePolarity \<Rightarrow> CnfEncoder \<Rightarrow> SatLit \<times> CnfEncoder" where
  "mkAnd Ins P e =
     (case andTerms e noLit (sortGateInputs Ins) of
        None \<Rightarrow> (falseLit e, e)
      | Some [] \<Rightarrow> (trueLit e, e)
      | Some [L] \<Rightarrow> (L, e)
      | Some Terms \<Rightarrow> gate GAnd Terms P e)"

definition mkAnd2 :: "SatLit \<Rightarrow> SatLit \<Rightarrow> CnfEncoder \<Rightarrow> SatLit \<times> CnfEncoder" where
  "mkAnd2 A B e = mkAnd [A, B] Both e"

definition mkOr :: "SatLit list \<Rightarrow> GatePolarity \<Rightarrow> CnfEncoder \<Rightarrow> SatLit \<times> CnfEncoder" where
  "mkOr Ins P e = (case mkAnd (map negl Ins) (flip P) e of (L, e) \<Rightarrow> (negl L, e))"

definition mkOr2 :: "SatLit \<Rightarrow> SatLit \<Rightarrow> CnfEncoder \<Rightarrow> SatLit \<times> CnfEncoder" where
  "mkOr2 A B e = mkOr [A, B] Both e"

definition knownValue :: "CnfEncoder \<Rightarrow> SatLit \<Rightarrow> SatValue" where
  "knownValue e L =
     (if var L = var (TrueLit e) then (if L = TrueLit e then VTrue else VFalse)
      else rootValue (Solver e) L)"

definition mkXor2 :: "SatLit \<Rightarrow> SatLit \<Rightarrow> CnfEncoder \<Rightarrow> SatLit \<times> CnfEncoder" where
  "mkXor2 A B e =
     (if A = B then (falseLit e, e)
      else if A = negl B then (trueLit e, e)
      else
        let AV = knownValue e A; BV = knownValue e B in
        if AV \<noteq> VUnknown then
          if BV \<noteq> VUnknown then (constantLit e (AV \<noteq> BV), e)
          else (withPolarity B (AV = VFalse), e)
        else if BV \<noteq> VUnknown then (withPolarity A (BV = VFalse), e)
        else
          let Complement = isNegated A \<noteq> isNegated B;
              X = positive (var A); Y = positive (var B)
          in case gate GXor (if Y < X then [Y, X] else [X, Y]) Both e of
               (L, e) \<Rightarrow> (withPolarity L (\<not> Complement), e))"

fun xorTerms :: "CnfEncoder \<Rightarrow> SatLit list \<Rightarrow> bool \<times> SatLit list" where
  "xorTerms e [] = (False, [])"
| "xorTerms e (L # Ls) =
     (case xorTerms e Ls of (Complement, Terms) \<Rightarrow>
        if isConstant e L then (Complement \<noteq> isTrueLit e L, Terms)
        else if isNegated L then (\<not> Complement, negl L # Terms)
        else (Complement, L # Terms))"

fun cancelPairs :: "SatLit list \<Rightarrow> SatLit list" where
  "cancelPairs (A # B # Ls) = (if A = B then cancelPairs Ls else A # cancelPairs (B # Ls))"
| "cancelPairs Ls = Ls"

fun xorChain :: "SatLit \<Rightarrow> SatLit list \<Rightarrow> CnfEncoder \<Rightarrow> SatLit \<times> CnfEncoder" where
  "xorChain Acc [] e = (Acc, e)"
| "xorChain Acc (L # Ls) e = (case mkXor2 Acc L e of (Acc, e) \<Rightarrow> xorChain Acc Ls e)"

definition mkXor :: "SatLit list \<Rightarrow> CnfEncoder \<Rightarrow> SatLit \<times> CnfEncoder" where
  "mkXor Ins e =
     (if length Ins = 2 then mkXor2 (Ins ! 0) (Ins ! 1) e
      else
        case xorTerms e Ins of (Complement, Terms) \<Rightarrow>
          case cancelPairs (sortGateInputs Terms) of
            [] \<Rightarrow> (constantLit e Complement, e)
          | [L] \<Rightarrow> (withPolarity L (\<not> Complement), e)
          | L # Ls \<Rightarrow>
              (case (if length (L # Ls) > kCnfEncoderMaxXorFanIn then xorChain L Ls e
                     else gate GXor (L # Ls) Both e) of
                 (Out, e) \<Rightarrow> (withPolarity Out (\<not> Complement), e)))"

definition mkEquiv :: "SatLit \<Rightarrow> SatLit \<Rightarrow> CnfEncoder \<Rightarrow> SatLit \<times> CnfEncoder" where
  "mkEquiv A B e = (case mkXor2 A B e of (L, e) \<Rightarrow> (negl L, e))"

definition mkIte :: "SatLit \<Rightarrow> SatLit \<Rightarrow> SatLit \<Rightarrow> CnfEncoder \<Rightarrow> SatLit \<times> CnfEncoder" where
  "mkIte C T E e =
     (if isTrueLit e C then (T, e)
      else if isFalseLit e C then (E, e)
      else if T = E then (T, e)
      else if T = negl E then mkXor2 C E e
      else if isTrueLit e T then mkOr2 C E e
      else if isFalseLit e T then mkAnd2 (negl C) E e
      else if isTrueLit e E then mkOr2 (negl C) T e
      else if isFalseLit e E then mkAnd2 C T e
      else if T = C then mkOr2 C E e
      else if T = negl C then mkAnd2 (negl C) E e
      else if E = C then mkAnd2 C T e
      else if E = negl C then mkOr2 (negl C) T e
      else
        let (C, T, E) = (if isNegated C then (negl C, E, T) else (C, T, E)) in
        if isNegated T
        then (case gate GIte [C, negl T, negl E] Both e of (L, e) \<Rightarrow> (negl L, e))
        else gate GIte [C, T, E] Both e)"

definition mkMajority :: "SatLit \<Rightarrow> SatLit \<Rightarrow> SatLit \<Rightarrow> CnfEncoder \<Rightarrow> SatLit \<times> CnfEncoder" where
  "mkMajority A B C e =
     (if isConstant e A then (if isTrueLit e A then mkOr2 B C e else mkAnd2 B C e)
      else if isConstant e B then (if isTrueLit e B then mkOr2 A C e else mkAnd2 A C e)
      else if isConstant e C then (if isTrueLit e C then mkOr2 A B e else mkAnd2 A B e)
      else if A = B then (A, e)
      else if A = C then (A, e)
      else if B = C then (B, e)
      else if A = negl B then (C, e)
      else if A = negl C then (B, e)
      else if B = negl C then (A, e)
      else gate GMajority (sortGateInputs [A, B, C]) Both e)"

definition mkFullAdder ::
    "SatLit \<Rightarrow> SatLit \<Rightarrow> SatLit \<Rightarrow> CnfEncoder \<Rightarrow> (SatLit \<times> SatLit) \<times> CnfEncoder" where
  "mkFullAdder A B CarryIn e =
     (case mkXor [A, B, CarryIn] e of (S, e) \<Rightarrow>
        case mkMajority A B CarryIn e of (CarryOut, e) \<Rightarrow> ((S, CarryOut), e))"

section \<open>Assertions\<close>

definition assertTrue :: "SatLit \<Rightarrow> CnfEncoder \<Rightarrow> bool \<times> CnfEncoder" where
  "assertTrue L e = (case addClause [L] (Solver e) of (b, s) \<Rightarrow> (b, e\<lparr>Solver := s\<rparr>))"

definition assertFalse :: "SatLit \<Rightarrow> CnfEncoder \<Rightarrow> bool \<times> CnfEncoder" where
  "assertFalse L e = assertTrue (negl L) e"

definition assertEquiv :: "SatLit \<Rightarrow> SatLit \<Rightarrow> CnfEncoder \<Rightarrow> bool \<times> CnfEncoder" where
  "assertEquiv A B e =
     (case addClause [negl A, B] (Solver e) of (First, s) \<Rightarrow>
        case addClause [A, negl B] s of (Second, s) \<Rightarrow> (First \<and> Second, e\<lparr>Solver := s\<rparr>))"

definition assertImplies :: "SatLit \<Rightarrow> SatLit \<Rightarrow> CnfEncoder \<Rightarrow> bool \<times> CnfEncoder" where
  "assertImplies A B e = (case addClause [negl A, B] (Solver e) of (b, s) \<Rightarrow> (b, e\<lparr>Solver := s\<rparr>))"

end
