(* ===== verification/Cnf_Table.thy ===== *)
theory Cnf_Table
  imports Cnf_Encoder
begin

text \<open>
  The open-addressed table that shares gates.  A probe starts at a hash's slot and walks on, wrapping
  at the end; an entry is found because no empty slot lies on its way, and a walk ends because the
  table always has an empty slot.  Placing entries one by one, as growing the table does, keeps that.
\<close>

section \<open>The open-addressed table\<close>

definition slotAt :: "GateBucket list \<Rightarrow> u32 \<Rightarrow> nat \<Rightarrow> nat" where
  "slotAt T h d = (unat h + d) mod length T"

definition table_shape :: "GateBucket list \<Rightarrow> bool" where
  "table_shape T \<longleftrightarrow> (\<exists>k. length T = 2 ^ k) \<and>
     (\<forall>i < length T. \<forall>j < length T. BIndex (T ! i) \<noteq> 0 \<longrightarrow> BIndex (T ! i) = BIndex (T ! j) \<longrightarrow> i = j)"

text \<open>An entry is found by walking from the slot of its hash over occupied slots.\<close>

definition reaches :: "GateBucket list \<Rightarrow> u32 \<Rightarrow> u32 \<Rightarrow> bool" where
  "reaches T h v \<longleftrightarrow> (\<exists>d < length T. T ! slotAt T h d = \<lparr>BHash = h, BIndex = v\<rparr> \<and>
     (\<forall>d' < d. BIndex (T ! slotAt T h d') \<noteq> 0))"

definition indices :: "GateBucket list \<Rightarrow> u32 set" where
  "indices T = BIndex ` set T - {0}"

lemma and_mask_mod: "(x::nat) AND (2 ^ k - 1) = x mod 2 ^ k"
  by (metis mask_eq_exp_minus_1 take_bit_eq_mask take_bit_eq_mod)

lemma table_shape_mod:
  assumes "table_shape T"
  shows "x AND (length T - 1) = x mod length T" "0 < length T"
  using assms by (auto simp: table_shape_def and_mask_mod simp del: One_nat_def)

lemma firstSlot_slotAt: "table_shape T \<Longrightarrow> firstSlot h T = slotAt T h 0"
  by (simp add: firstSlot_def slotAt_def table_shape_mod del: One_nat_def)

lemma slotAt_Suc: "table_shape T \<Longrightarrow> (slotAt T h d + 1) AND (length T - 1) = slotAt T h (Suc d)"
  by (simp only: table_shape_mod(1)) (simp add: slotAt_def mod_Suc_eq)

lemma slotAt_less: "table_shape T \<Longrightarrow> slotAt T h d < length T"
  using table_shape_mod(2) [of T] by (simp add: slotAt_def)

lemma slotAt_reaches_all:
  assumes s: "table_shape T" and j: "j < length T"
  shows "\<exists>d < length T. slotAt T h d = j"
proof -
  let ?n = "length T"
  let ?d = "(j + (?n - unat h mod ?n)) mod ?n"
  have n: "0 < ?n" by (rule table_shape_mod(2) [OF s])
  have "(unat h + ?d) mod ?n = (unat h mod ?n + (j + (?n - unat h mod ?n))) mod ?n"
    by (simp add: mod_simps)
  also have "unat h mod ?n + (j + (?n - unat h mod ?n)) = j + ?n"
    using mod_less_divisor [OF n, of "unat h"] by simp
  finally have "slotAt T h ?d = j" using j by (simp add: slotAt_def)
  moreover have "?d < ?n" using n by simp
  ultimately show ?thesis by blast
qed

lemma free_exists:
  assumes s: "table_shape T" and c: "card (indices T) < length T"
  shows "\<exists>j < length T. BIndex (T ! j) = 0"
proof (rule ccontr)
  assume "\<not> ?thesis"
  then have occ: "BIndex (T ! j) \<noteq> 0" if "j < length T" for j using that by auto
  with s have "inj_on (\<lambda>j. BIndex (T ! j)) {..<length T}" by (auto simp: inj_on_def table_shape_def)
  then have "card ((\<lambda>j. BIndex (T ! j)) ` {..<length T}) = length T" by (simp add: card_image)
  moreover have "(\<lambda>j. BIndex (T ! j)) ` {..<length T} \<subseteq> indices T"
    using occ by (auto simp: indices_def)
  then have "card ((\<lambda>j. BIndex (T ! j)) ` {..<length T}) \<le> card (indices T)"
    by (intro card_mono) (simp_all add: indices_def)
  ultimately show False using c by simp
qed

text \<open>The walk to a free slot ends within one round of the table.\<close>

lemma freeSlot_walk:
  assumes s: "table_shape T" and free: "BIndex (T ! slotAt T h D) = 0"
    and occ: "\<forall>d < D. BIndex (T ! slotAt T h d) \<noteq> 0" and d: "d \<le> D" "D < d + n"
  shows "freeSlot n T (slotAt T h d) = slotAt T h D"
  using d
proof (induction n arbitrary: d)
  case (Suc n)
  show ?case
  proof (cases "d = D")
    case True
    with free show ?thesis by simp
  next
    case False
    with Suc occ show ?thesis by (simp add: slotAt_Suc [OF s, simplified])
  qed
qed simp

lemma freeSlot_ok:
  assumes s: "table_shape T" and c: "card (indices T) < length T"
  obtains D where "freeSlot (length T) T (firstSlot h T) = slotAt T h D" "D < length T"
    "BIndex (T ! slotAt T h D) = 0" "\<forall>d < D. BIndex (T ! slotAt T h d) \<noteq> 0"
proof -
  from free_exists [OF s c] obtain j where "j < length T" "BIndex (T ! j) = 0" by blast
  with slotAt_reaches_all [OF s, of j h] obtain d where d: "d < length T" "BIndex (T ! slotAt T h d) = 0"
    by blast
  define D where "D = (LEAST d. BIndex (T ! slotAt T h d) = 0)"
  have D0: "BIndex (T ! slotAt T h D) = 0" unfolding D_def by (rule LeastI) (rule d(2))
  have Dle: "D < length T" using Least_le [of "\<lambda>d. BIndex (T ! slotAt T h d) = 0", OF d(2)] d(1)
    by (simp add: D_def)
  have occ: "\<forall>x < D. BIndex (T ! slotAt T h x) \<noteq> 0" unfolding D_def using not_less_Least by blast
  show thesis
    using freeSlot_walk [OF s D0 occ, of 0 "length T"] Dle D0 occ that
    by (simp add: firstSlot_slotAt [OF s])
qed

lemma slotAt_update [simp]: "slotAt (T[i := B]) h d = slotAt T h d"
  by (simp add: slotAt_def)

lemma place_ok:
  assumes s: "table_shape T" and D: "D < length T" "BIndex (T ! slotAt T h D) = 0"
      "\<forall>d < D. BIndex (T ! slotAt T h d) \<noteq> 0"
    and v: "v \<noteq> 0" "v \<notin> indices T"
  defines "T' \<equiv> T[slotAt T h D := \<lparr>BHash = h, BIndex = v\<rparr>]"
  shows "table_shape T'" "reaches T' h v" "indices T' = insert v (indices T)"
    "w \<noteq> 0 \<Longrightarrow> reaches T g w \<Longrightarrow> reaches T' g w"
proof -
  let ?j = "slotAt T h D"
  have j: "?j < length T" by (rule slotAt_less [OF s])
  have len: "length T' = length T" by (simp add: T'_def)
  have nth: "T' ! i = (if i = ?j then \<lparr>BHash = h, BIndex = v\<rparr> else T ! i)" for i
    using j by (simp add: T'_def nth_list_update)
  have vi: "BIndex (T ! i) \<noteq> v" if "i < length T" for i using v that by (auto simp: indices_def)
  show "table_shape T'" using s vi D(2) v(1) unfolding table_shape_def len nth by (auto split: if_splits)
  have at: "slotAt T' g d = slotAt T g d" for g d by (simp add: T'_def)
  show "reaches T' h v" unfolding reaches_def at len nth using D v(1) by (auto intro!: exI [of _ D])
  show "w \<noteq> 0 \<Longrightarrow> reaches T g w \<Longrightarrow> reaches T' g w"
    unfolding reaches_def at len nth using D(2) v(1) by fastforce
  show "indices T' = insert v (indices T)"
  proof
    show "indices T' \<subseteq> insert v (indices T)"
      using set_update_subset_insert [of T ?j "\<lparr>BHash = h, BIndex = v\<rparr>"]
      by (auto simp: indices_def T'_def)
    have "w \<in> indices T'" if "w \<in> indices T" for w
    proof -
      from that obtain i where i: "i < length T" "BIndex (T ! i) = w" "w \<noteq> 0"
        by (auto simp: indices_def in_set_conv_nth)
      with D(2) have "i \<noteq> ?j" by auto
      then have "BIndex (T' ! i) = w" using i by (simp add: nth)
      with i len show ?thesis unfolding indices_def by (metis DiffI image_eqI nth_mem singletonD)
    qed
    moreover have "v \<in> indices T'"
      using j len v(1) nth [of ?j] unfolding indices_def by (metis DiffI GateBucket.select_convs(2) image_eqI nth_mem singletonD)
    ultimately show "insert v (indices T) \<subseteq> indices T'" by blast
  qed
qed

lemma placeEntry_ok:
  assumes s: "table_shape T" and c: "card (indices T) < length T"
    and B: "BIndex B \<noteq> 0" "BIndex B \<notin> indices T"
  shows "table_shape (placeEntry B T)" "reaches (placeEntry B T) (BHash B) (BIndex B)"
    "indices (placeEntry B T) = insert (BIndex B) (indices T)"
    "length (placeEntry B T) = length T"
    "w \<noteq> 0 \<Longrightarrow> reaches T g w \<Longrightarrow> reaches (placeEntry B T) g w"
proof -
  obtain D where D: "freeSlot (length T) T (firstSlot (BHash B) T) = slotAt T (BHash B) D"
    "D < length T" "BIndex (T ! slotAt T (BHash B) D) = 0"
    "\<forall>d < D. BIndex (T ! slotAt T (BHash B) d) \<noteq> 0" by (rule freeSlot_ok [OF s c])
  have eq: "placeEntry B T = T[slotAt T (BHash B) D := \<lparr>BHash = BHash B, BIndex = BIndex B\<rparr>]"
  proof -
    have B': "\<lparr>BHash = BHash B, BIndex = BIndex B\<rparr> = B" by simp
    show ?thesis unfolding B' using B D(1) by (simp add: placeEntry_def)
  qed
  note p = place_ok [OF s D(2-4) B]
  from p show "table_shape (placeEntry B T)" "reaches (placeEntry B T) (BHash B) (BIndex B)"
    "indices (placeEntry B T) = insert (BIndex B) (indices T)"
    "length (placeEntry B T) = length T"
    "w \<noteq> 0 \<Longrightarrow> reaches T g w \<Longrightarrow> reaches (placeEntry B T) g w"
    by (simp_all add: eq)
qed

lemma place_all_ok:
  assumes "table_shape T" "card (indices T) + length Bs < length T"
    "\<And>i j. i < length Bs \<Longrightarrow> j < length Bs \<Longrightarrow> BIndex (Bs ! i) \<noteq> 0 \<Longrightarrow>
       BIndex (Bs ! i) = BIndex (Bs ! j) \<Longrightarrow> i = j"
    "indices T \<inter> indices Bs = {}"
  shows "table_shape (fold placeEntry Bs T) \<and> length (fold placeEntry Bs T) = length T \<and>
    indices (fold placeEntry Bs T) = indices T \<union> indices Bs \<and>
    (\<forall>B \<in> set Bs. BIndex B \<noteq> 0 \<longrightarrow> reaches (fold placeEntry Bs T) (BHash B) (BIndex B)) \<and>
    (\<forall>g w. w \<noteq> 0 \<longrightarrow> reaches T g w \<longrightarrow> reaches (fold placeEntry Bs T) g w)"
  using assms
proof (induction Bs arbitrary: T)
  case Nil
  then show ?case by (simp add: indices_def)
next
  case (Cons B Bs)
  have inj: "\<And>i j. i < length Bs \<Longrightarrow> j < length Bs \<Longrightarrow> BIndex (Bs ! i) \<noteq> 0 \<Longrightarrow>
       BIndex (Bs ! i) = BIndex (Bs ! j) \<Longrightarrow> i = j"
    using Cons.prems(3) [of "Suc _" "Suc _"] by simp
  show ?case
  proof (cases "BIndex B = 0")
    case True
    then have "placeEntry B T = T" "indices (B # Bs) = indices Bs"
      by (auto simp: placeEntry_def indices_def)
    with Cons.IH [OF Cons.prems(1) _ inj] Cons.prems True show ?thesis by auto
  next
    case False
    have new: "BIndex B \<notin> indices Bs"
    proof
      assume "BIndex B \<in> indices Bs"
      then obtain i where "i < length Bs" "BIndex (Bs ! i) = BIndex B"
        by (auto simp: indices_def in_set_conv_nth)
      with Cons.prems(3) [of 0 "Suc i"] False show False by simp
    qed
    have B: "BIndex B \<notin> indices T" "indices (B # Bs) = insert (BIndex B) (indices Bs)"
      using Cons.prems(4) False by (auto simp: indices_def)
    have c: "card (indices T) < length T" using Cons.prems(2) by simp
    note p = placeEntry_ok [OF Cons.prems(1) c False B(1)]
    have fin: "finite (indices T)" by (simp add: indices_def)
    have "card (indices (placeEntry B T)) + length Bs < length (placeEntry B T)"
      using Cons.prems(2) fin B(1) by (simp add: p(3,4))
    moreover have "indices (placeEntry B T) \<inter> indices Bs = {}"
      using Cons.prems(4) new B by (auto simp: p(3))
    ultimately have ih: "table_shape (fold placeEntry Bs (placeEntry B T)) \<and>
        length (fold placeEntry Bs (placeEntry B T)) = length (placeEntry B T) \<and>
        indices (fold placeEntry Bs (placeEntry B T)) = indices (placeEntry B T) \<union> indices Bs \<and>
        (\<forall>B' \<in> set Bs. BIndex B' \<noteq> 0 \<longrightarrow>
           reaches (fold placeEntry Bs (placeEntry B T)) (BHash B') (BIndex B')) \<and>
        (\<forall>g w. w \<noteq> 0 \<longrightarrow> reaches (placeEntry B T) g w \<longrightarrow>
           reaches (fold placeEntry Bs (placeEntry B T)) g w)"
      by (intro Cons.IH [OF p(1) _ inj])
    with p B False show ?thesis by auto
  qed
qed

end
