(* ===== verification/Cnf_Gates.thy ===== *)
theory Cnf_Gates
  imports Cnf_Table
begin

text \<open>
  The gates of the encoder.  \<open>enc_ok\<close> is the invariant of \<open>CnfEncoder\<close>: the emitted halves of
  every gate hold in every model of the clauses, no two gates have the same key, and the table finds
  each of them.  A request keeps it, returns a literal defined as asked, and is conservative when the
  gates are defined in both halves.
\<close>

section \<open>What a gate computes\<close>

definition parity :: "bool list \<Rightarrow> bool" where
  "parity bs = foldl (\<lambda>p b. p \<noteq> b) False bs"

definition majority :: "bool \<Rightarrow> bool \<Rightarrow> bool \<Rightarrow> bool" where
  "majority a b c \<longleftrightarrow> a \<and> b \<or> a \<and> c \<or> b \<and> c"

definition gateFun :: "GateKind \<Rightarrow> bool list \<Rightarrow> bool" where
  "gateFun Kind bs =
     (case Kind of GAnd \<Rightarrow> list_all id bs | GXor \<Rightarrow> parity bs
      | GIte \<Rightarrow> if bs ! 0 then bs ! 1 else bs ! 2
      | GMajority \<Rightarrow> majority (bs ! 0) (bs ! 1) (bs ! 2))"

definition arity_ok :: "GateKind \<Rightarrow> nat \<Rightarrow> bool" where
  "arity_ok Kind n \<longleftrightarrow> (Kind = GIte \<or> Kind = GMajority \<longrightarrow> n = 3)"

definition halfClauses :: "GateKind \<Rightarrow> SatLit list \<Rightarrow> SatLit \<Rightarrow> bool \<Rightarrow> SatLit list list" where
  "halfClauses Kind Ins Out Pos =
     (case Kind of GAnd \<Rightarrow> andClauses Ins Out Pos | GXor \<Rightarrow> xorClauses Ins Out
      | GIte \<Rightarrow> iteClauses Ins Out Pos | GMajority \<Rightarrow> majorityClauses Ins Out Pos)"

lemma parity_foldl: "foldl (\<lambda>p b. p \<noteq> b) q bs = (q \<noteq> parity bs)"
proof (induction bs arbitrary: q)
  case Nil
  then show ?case by (simp add: parity_def)
next
  case (Cons b bs)
  show ?case unfolding parity_def using Cons.IH [of "q \<noteq> b"] Cons.IH [of "False \<noteq> b"] by auto
qed

lemma parity_simps [simp]: "parity [] = False" "parity (b # bs) = (b \<noteq> parity bs)"
  using parity_foldl [of "False \<noteq> b" bs] by (auto simp: parity_def)

lemma parity_append: "parity (xs @ ys) = (parity xs \<noteq> parity ys)"
  by (induction xs) auto

lemma parity_foldl_map: "foldl (\<lambda>p i. p \<noteq> f i) False xs = parity (map f xs)"
  by (simp add: parity_def foldl_map)

lemma bits_of_assignment:
  fixes bs :: "bool list"
  obtains a :: nat where "a < 2 ^ length bs" "\<forall>i < length bs. bit a i = bs ! i"
proof
  let ?a = "horner_sum of_bool 2 bs :: nat"
  show "?a < 2 ^ length bs" by (rule horner_sum_of_bool_2_less)
  show "\<forall>i < length bs. bit ?a i = bs ! i" by (simp add: bit_horner_sum_bit_iff)
qed

lemma xorClause_true:
  "clause_true m (xorClause Ins Out a) \<longleftrightarrow>
     (\<exists>i < length Ins. lit_true m (Ins ! i) \<noteq> bit a i) \<or>
     lit_true m Out = parity (map (bit a) [0..<length Ins])"
  unfolding xorClause_def parity_foldl_map by (auto simp: clause_true_def)

lemma xorClauses_true:
  "(\<forall>C \<in> set (xorClauses Ins Out). clause_true m C) \<longleftrightarrow>
     lit_true m Out = parity (map (lit_true m) Ins)"
proof
  assume all: "\<forall>C \<in> set (xorClauses Ins Out). clause_true m C"
  obtain a :: nat where a: "a < 2 ^ length Ins" "\<forall>i < length Ins. bit a i = lit_true m (Ins ! i)"
    using bits_of_assignment [of "map (lit_true m) Ins"] by auto
  have "clause_true m (xorClause Ins Out a)" using all a(1) by (simp add: xorClauses_def)
  moreover have "map (bit a) [0..<length Ins] = map (lit_true m) Ins"
    using a(2) by (auto intro: nth_equalityI)
  ultimately show "lit_true m Out = parity (map (lit_true m) Ins)"
    using a(2) by (auto simp: xorClause_true)
next
  assume out: "lit_true m Out = parity (map (lit_true m) Ins)"
  have "clause_true m (xorClause Ins Out a)" for a
  proof (cases "\<forall>i < length Ins. lit_true m (Ins ! i) = bit a i")
    case True
    then have "map (bit a) [0..<length Ins] = map (lit_true m) Ins" by (auto intro: nth_equalityI)
    with out show ?thesis by (simp add: xorClause_true)
  qed (auto simp: xorClause_true)
  then show "\<forall>C \<in> set (xorClauses Ins Out). clause_true m C" by (simp add: xorClauses_def)
qed

lemma length_3: "length xs = 3 \<Longrightarrow> \<exists>a b c. xs = [a, b, c]"
  by (auto simp: numeral_3_eq_3 length_Suc_conv)

text \<open>Each half of a definition says one direction of it.\<close>

lemma halfClauses_true:
  assumes "arity_ok Kind (length Ins)"
  shows "(\<forall>C \<in> set (halfClauses Kind Ins Out Pos). clause_true m C) \<longleftrightarrow>
    (if Kind = GXor then lit_true m Out = gateFun Kind (map (lit_true m) Ins)
     else if Pos then lit_true m Out \<longrightarrow> gateFun Kind (map (lit_true m) Ins)
     else gateFun Kind (map (lit_true m) Ins) \<longrightarrow> lit_true m Out)"
proof (cases Kind)
  case GAnd
  then show ?thesis
    by (auto simp: halfClauses_def andClauses_def gateFun_def clause_true_def list_all_iff)
next
  case GXor
  then show ?thesis by (simp add: halfClauses_def gateFun_def xorClauses_true)
next
  case GIte
  with assms obtain c t f where "Ins = [c, t, f]" using length_3 [of Ins] by (auto simp: arity_ok_def)
  with GIte show ?thesis by (auto simp: halfClauses_def iteClauses_def gateFun_def)
next
  case GMajority
  with assms obtain a b c where "Ins = [a, b, c]" using length_3 [of Ins] by (auto simp: arity_ok_def)
  with GMajority show ?thesis
    by (auto simp: halfClauses_def majorityClauses_def gateFun_def majority_def)
qed

lemma halfClauses_range:
  assumes "arity_ok Kind (length Ins)" "C \<in> set (halfClauses Kind Ins Out Pos)" "L \<in> set C"
  shows "var L \<in> insert (var Out) (var ` set Ins)"
proof (cases Kind)
  case GAnd
  with assms show ?thesis by (auto simp: halfClauses_def andClauses_def split: if_splits)
next
  case GXor
  with assms show ?thesis
    by (auto simp: halfClauses_def xorClauses_def xorClause_def withPolarity_eq split: if_splits)
next
  case GIte
  with assms(1) obtain c t f where "Ins = [c, t, f]" using length_3 [of Ins] by (auto simp: arity_ok_def)
  with GIte assms show ?thesis by (auto simp: halfClauses_def iteClauses_def split: if_splits)
next
  case GMajority
  with assms(1) obtain a b c where "Ins = [a, b, c]" using length_3 [of Ins] by (auto simp: arity_ok_def)
  with GMajority assms show ?thesis
    by (auto simp: halfClauses_def majorityClauses_def split: if_splits)
qed

section \<open>Emission as one sequence of clauses\<close>

definition wanted :: "GatePolarity \<Rightarrow> u8" where
  "wanted P = (if P \<noteq> Negative then kPositiveEmitted else 0) OR
              (if P \<noteq> Positive then kNegativeEmitted else 0)"

definition emitClauses :: "Gate \<Rightarrow> SatLit list \<Rightarrow> u8 \<Rightarrow> SatLit list list" where
  "emitClauses G Ins Missing =
     (if GKind G = GXor then halfClauses GXor Ins (GOut G) True
      else (if Missing AND kPositiveEmitted \<noteq> 0 then halfClauses (GKind G) Ins (GOut G) True else []) @
           (if Missing AND kNegativeEmitted \<noteq> 0 then halfClauses (GKind G) Ins (GOut G) False else []))"

definition emittedMask :: "Gate \<Rightarrow> u8 \<Rightarrow> u8" where
  "emittedMask G Missing =
     (if GKind G = GXor then kPositiveEmitted OR kNegativeEmitted else GEmitted G OR Missing)"

lemma addAll_append: "addAll (Cs @ Ds) s = addAll Ds (addAll Cs s)"
  by (simp add: addAll_def)

lemma operandsOf_setEmitted [simp]: "operandsOf (setEmitted i M e) G = operandsOf e G"
  "operandsOf (e\<lparr>Solver := s\<rparr>) G = operandsOf e G"
  by (simp_all add: operandsOf_def setEmitted_def)

lemma emit_eq:
  assumes "Missing = wanted P AND NOT (GEmitted (Gates e ! i))" and "Missing \<noteq> 0"
  shows "emit i P e = (setEmitted i (emittedMask (Gates e ! i) Missing) e)
    \<lparr>Solver := addAll (emitClauses (Gates e ! i) (operandsOf e (Gates e ! i)) Missing) (Solver e)\<rparr>"
proof -
  have s: "Solver (setEmitted i M e) = Solver e" for M by (simp add: setEmitted_def)
  have nil: "addAll [] t = t" for t by (simp add: addAll_def)
  show ?thesis
    unfolding emit_def wanted_def [symmetric] assms(1) [symmetric] Let_def
    using assms(2)
    by (cases "GKind (Gates e ! i)")
      (simp_all add: emitClauses_def emittedMask_def halfClauses_def addAll_append nil s
        emitAnd_def emitXor_def emitIte_def emitMajority_def)
qed

lemma emit_nothing: "wanted P AND NOT (GEmitted (Gates e ! i)) = 0 \<Longrightarrow> emit i P e = e"
  unfolding emit_def wanted_def [symmetric] by simp

section \<open>The encoder's invariant\<close>

definition nv :: "CnfEncoder \<Rightarrow> nat" where
  "nv e = numVars (Solver e)"

definition mods :: "CnfEncoder \<Rightarrow> assignment set" where
  "mods e = root_models (Solver e)"

definition enc_full :: "CnfEncoder \<Rightarrow> bool" where
  "enc_full e \<longleftrightarrow> exhausted (Solver e) \<or> length (OperandPool e) \<ge> 2 ^ 32"

text \<open>The halves of a definition that have been emitted hold in every model.\<close>

definition halves_hold :: "u8 \<Rightarrow> bool \<Rightarrow> bool \<Rightarrow> bool" where
  "halves_hold M out f \<longleftrightarrow>
     (M AND kPositiveEmitted \<noteq> 0 \<longrightarrow> out \<longrightarrow> f) \<and> (M AND kNegativeEmitted \<noteq> 0 \<longrightarrow> f \<longrightarrow> out)"

definition gate_ok :: "CnfEncoder \<Rightarrow> Gate \<Rightarrow> bool" where
  "gate_ok e G \<longleftrightarrow>
     unat (FirstOperand G) + unat (NumOperands G) \<le> length (OperandPool e) \<and>
     arity_ok (GKind G) (length (operandsOf e G)) \<and> unat (var (GOut G)) < nv e \<and>
     (\<forall>L \<in> set (operandsOf e G). unat (var L) < nv e) \<and>
     GEmitted G \<in> {0, 1, 2, 3} \<and> (GKind G = GXor \<longrightarrow> GEmitted G \<in> {0, 3}) \<and>
     (\<forall>m \<in> mods e. halves_hold (GEmitted G) (lit_true m (GOut G))
        (gateFun (GKind G) (map (lit_true m) (operandsOf e G))))"

definition gateKey :: "CnfEncoder \<Rightarrow> Gate \<Rightarrow> GateKind \<times> SatLit list" where
  "gateKey e G = (GKind G, operandsOf e G)"

definition table_ok :: "CnfEncoder \<Rightarrow> bool" where
  "table_ok e \<longleftrightarrow>
     (if GateTable e = [] then Gates e = []
      else table_shape (GateTable e) \<and> 64 \<le> length (GateTable e) \<and>
        length (Gates e) < length (GateTable e) \<and>
        indices (GateTable e) = (\<lambda>i. word_of_nat (Suc i)) ` {..<length (Gates e)} \<and>
        (\<forall>i < length (Gates e). reaches (GateTable e)
           (gateHash (GKind (Gates e ! i)) (operandsOf e (Gates e ! i))) (word_of_nat (Suc i))))"

definition enc_ok :: "CnfEncoder \<Rightarrow> bool" where
  "enc_ok e \<longleftrightarrow> engine_ok (Solver e) \<and> unat (var (TrueLit e)) < nv e \<and>
     (\<forall>m \<in> mods e. lit_true m (TrueLit e)) \<and> length (Gates e) < nv e \<and>
     (\<forall>G \<in> set (Gates e). gate_ok e G) \<and> distinct (map (gateKey e) (Gates e)) \<and> table_ok e"

definition enc_total :: "CnfEncoder \<Rightarrow> bool" where
  "enc_total e \<longleftrightarrow> (\<forall>G \<in> set (Gates e). GEmitted G = 3)"

definition conservative :: "CnfEncoder \<Rightarrow> CnfEncoder \<Rightarrow> bool" where
  "conservative e e' \<longleftrightarrow> (\<forall>m \<in> mods e. \<exists>m' \<in> mods e'. agree (nv e) m m')"

definition enc_step :: "CnfEncoder \<Rightarrow> CnfEncoder \<Rightarrow> bool" where
  "enc_step e e' \<longleftrightarrow> (enc_full e \<longrightarrow> enc_full e') \<and>
     (\<not> enc_full e' \<longrightarrow> enc_ok e' \<and> nv e \<le> nv e' \<and> mods e' \<subseteq> mods e \<and> TrueLit e' = TrueLit e)"

definition total_step :: "CnfEncoder \<Rightarrow> CnfEncoder \<Rightarrow> bool" where
  "total_step e e' \<longleftrightarrow> enc_step e e' \<and>
     (\<not> enc_full e' \<longrightarrow> enc_total e \<longrightarrow> enc_total e' \<and> conservative e e')"

lemma enc_okD:
  assumes "enc_ok e"
  shows "engine_ok (Solver e)" "unat (var (TrueLit e)) < nv e" "\<forall>m \<in> mods e. lit_true m (TrueLit e)"
    "length (Gates e) < nv e" "\<And>G. G \<in> set (Gates e) \<Longrightarrow> gate_ok e G"
    "distinct (map (gateKey e) (Gates e))" "table_ok e"
  using assms by (simp_all add: enc_ok_def)

lemma nv_bound: "enc_ok e \<Longrightarrow> nv e < 2 ^ 31"
  using engine.size_bound enc_okD(1) by (simp add: nv_def)

lemma enc_step_refl: "enc_ok e \<Longrightarrow> enc_step e e"
  by (simp add: enc_step_def)

lemma total_step_refl: "enc_ok e \<Longrightarrow> total_step e e"
  unfolding total_step_def conservative_def using enc_step_refl agree_refl by blast

lemma enc_step_trans: "enc_step e e' \<Longrightarrow> enc_step e' e'' \<Longrightarrow> enc_step e e''"
  by (auto simp: enc_step_def)

lemma conservative_trans:
  assumes "conservative e e'" "conservative e' e''" "nv e \<le> nv e'"
  shows "conservative e e''"
  unfolding conservative_def
proof
  fix m assume "m \<in> mods e"
  with assms(1) obtain m' where m': "m' \<in> mods e'" "agree (nv e) m m'" by (auto simp: conservative_def)
  with assms(2) obtain m'' where "m'' \<in> mods e''" "agree (nv e') m' m''" by (auto simp: conservative_def)
  with m' assms(3) show "\<exists>m' \<in> mods e''. agree (nv e) m m'"
    using agree_trans agree_mono by blast
qed

lemma total_step_trans: "total_step e e' \<Longrightarrow> total_step e' e'' \<Longrightarrow> total_step e e''"
  unfolding total_step_def using enc_step_trans conservative_trans
  by (metis enc_step_def)

section \<open>Operands stay where they are\<close>

lemma operandsOf_append:
  assumes "unat (FirstOperand G) + unat (NumOperands G) \<le> length (OperandPool e)"
    "OperandPool e' = OperandPool e @ xs"
  shows "operandsOf e' G = operandsOf e G"
  using assms by (simp add: operandsOf_def)

lemma length_operandsOf:
  "gate_ok e G \<Longrightarrow> length (operandsOf e G) = unat (NumOperands G)"
  by (auto simp: gate_ok_def operandsOf_def)

lemma gate_ok_grow:
  assumes g: "gate_ok e G" and p: "OperandPool e' = OperandPool e @ xs" and n: "nv e \<le> nv e'"
    and m: "mods e' \<subseteq> mods e"
  shows "gate_ok e' G"
proof -
  have "operandsOf e' G = operandsOf e G" using g p by (intro operandsOf_append) (simp_all add: gate_ok_def)
  with g p n m show ?thesis by (fastforce simp: gate_ok_def)
qed

section \<open>Emitting the halves of a definition\<close>

lemma wanted_mask: "wanted P \<in> {1, 2, 3}"
  by (cases P) (simp_all add: wanted_def kPositiveEmitted_def kNegativeEmitted_def)

lemma addAll_engine:
  assumes "engine_ok s" "s' = addAll Cs s"
  shows "engine_ok s' \<and> (exhausted s \<longrightarrow> exhausted s') \<and> numVars s' = numVars s \<and>
    (\<not> exhausted s' \<longrightarrow> (\<forall>C \<in> set Cs. \<forall>L \<in> set C. unat (var L) < numVars s) \<longrightarrow>
       root_models s' = {m \<in> root_models s. \<forall>C \<in> set Cs. clause_true m C})"
  using engine.add_sequence [OF assms(1), of s' Cs] assms(2) by (simp add: addAll_def)

text \<open>The clauses emitted for a mask say exactly the missing halves.\<close>

lemma emitClauses_true:
  assumes "arity_ok (GKind G) (length Ins)" "Missing \<noteq> 0" "Missing \<in> {0, 1, 2, 3}"
  shows "(\<forall>C \<in> set (emitClauses G Ins Missing). clause_true m C) \<longleftrightarrow>
    halves_hold (if GKind G = GXor then 3 else Missing) (lit_true m (GOut G))
      (gateFun (GKind G) (map (lit_true m) Ins))"
proof (cases "GKind G = GXor")
  case True
  then show ?thesis
    using halfClauses_true [of GXor Ins "GOut G" True m] assms(1)
    by (auto simp: emitClauses_def halves_hold_def kPositiveEmitted_def kNegativeEmitted_def)
next
  case False
  then show ?thesis
    using halfClauses_true [of "GKind G" Ins "GOut G" True m]
      halfClauses_true [of "GKind G" Ins "GOut G" False m] assms
    by (auto simp: emitClauses_def halves_hold_def kPositiveEmitted_def kNegativeEmitted_def ball_Un)
qed

lemma emitClauses_range:
  assumes "arity_ok (GKind G) (length Ins)" "C \<in> set (emitClauses G Ins Missing)" "L \<in> set C"
  shows "var L \<in> insert (var (GOut G)) (var ` set Ins)"
  using assms halfClauses_range by (fastforce simp: emitClauses_def split: if_splits)

definition new_mask :: "Gate \<Rightarrow> GatePolarity \<Rightarrow> u8" where
  "new_mask G P = (if GKind G = GXor then 3 else GEmitted G OR wanted P)"

lemma halves_hold_or: "halves_hold (M OR N) a b = (halves_hold M a b \<and> halves_hold N a b)"
  unfolding halves_hold_def bit.conj_disj_distrib2 or_eq_0_iff by blast

lemma halves_hold_3 [simp]: "halves_hold 3 a b = (a = b)"
  by (auto simp: halves_hold_def kPositiveEmitted_def kNegativeEmitted_def)

lemma halves_hold_equal: "a = b \<Longrightarrow> halves_hold M a b"
  by (simp add: halves_hold_def)

lemma or_missing: "(M::u8) OR (w AND NOT M) = M OR w"
  by (rule bit_word_eqI) (auto simp: bit_simps)

lemma small_mask:
  assumes "M \<in> {0, 1, 2, 3::u8}"
  shows "wanted P AND NOT M \<in> {0, 1, 2, 3}" "M OR wanted P \<in> {0, 1, 2, 3}"
    "wanted P AND NOT M = 0 \<Longrightarrow> M OR wanted P = M" "wanted P AND NOT 3 = 0" "wanted P AND NOT 0 \<noteq> 0"
proof -
  from wanted_mask [of P] consider "wanted P = 1" | "wanted P = 2" | "wanted P = 3" by auto
  then show "wanted P AND NOT M \<in> {0, 1, 2, 3}" "M OR wanted P \<in> {0, 1, 2, 3}"
    "wanted P AND NOT 3 = 0" "wanted P AND NOT 0 \<noteq> 0"
    using assms by (cases; auto)+
  show "wanted P AND NOT M = 0 \<Longrightarrow> M OR wanted P = M" using or_missing [of M "wanted P"] by simp
qed

text \<open>The mask an emission leaves, and what it says of the gate.\<close>

lemma new_mask_ok:
  assumes "GEmitted G \<in> {0, 1, 2, 3}" "GKind G = GXor \<longrightarrow> GEmitted G \<in> {0, 3}"
  shows "wanted P AND NOT (GEmitted G) \<noteq> 0 \<Longrightarrow>
      emittedMask G (wanted P AND NOT (GEmitted G)) = new_mask G P"
    "wanted P AND NOT (GEmitted G) = 0 \<Longrightarrow> GEmitted G = new_mask G P"
    "new_mask G P \<in> {0, 1, 2, 3}" "GKind G = GXor \<longrightarrow> new_mask G P \<in> {0, 3}"
    "halves_hold (new_mask G P) a b \<Longrightarrow> halves_hold (wanted P) a b"
    "halves_hold (GEmitted G) a b \<Longrightarrow>
       halves_hold (if GKind G = GXor then 3 else wanted P AND NOT (GEmitted G)) a b =
       halves_hold (new_mask G P) a b"
    "GEmitted G = 3 \<Longrightarrow> new_mask G P = 3"
proof -
  have z: "wanted P AND NOT 0 \<noteq> 0" using small_mask(5) [of 0 P] by simp
  show "wanted P AND NOT (GEmitted G) \<noteq> 0 \<Longrightarrow>
      emittedMask G (wanted P AND NOT (GEmitted G)) = new_mask G P"
    by (simp add: emittedMask_def new_mask_def or_missing kPositiveEmitted_def kNegativeEmitted_def)
  show "wanted P AND NOT (GEmitted G) = 0 \<Longrightarrow> GEmitted G = new_mask G P"
    using assms z small_mask(3) [OF assms(1)] by (auto simp: new_mask_def)
  show "new_mask G P \<in> {0, 1, 2, 3}" using small_mask(2) [OF assms(1)] by (auto simp: new_mask_def)
  show "GKind G = GXor \<longrightarrow> new_mask G P \<in> {0, 3}" by (simp add: new_mask_def)
  show "halves_hold (new_mask G P) a b \<Longrightarrow> halves_hold (wanted P) a b"
    by (auto simp: new_mask_def halves_hold_or halves_hold_equal split: if_splits)
  show "halves_hold (GEmitted G) a b \<Longrightarrow>
       halves_hold (if GKind G = GXor then 3 else wanted P AND NOT (GEmitted G)) a b =
       halves_hold (new_mask G P) a b"
    using or_missing [of "GEmitted G" "wanted P", symmetric] by (simp add: new_mask_def halves_hold_or)
  show "GEmitted G = 3 \<Longrightarrow> new_mask G P = 3"
    using small_mask(3) [of 3 P] small_mask(4) [of 3 P] by (simp add: new_mask_def)
qed

lemma new_mask_both: "GEmitted G = 0 \<Longrightarrow> new_mask G Both = 3"
  by (simp add: new_mask_def wanted_def kPositiveEmitted_def kNegativeEmitted_def)

lemma gateKey_emitted [simp]: "gateKey e (G\<lparr>GEmitted := M\<rparr>) = gateKey e G"
  "operandsOf e (G\<lparr>GEmitted := M\<rparr>) = operandsOf e G"
  by (simp_all add: gateKey_def operandsOf_def)

lemma emit_fields:
  assumes i: "i < length (Gates e)" and ok: "enc_ok e"
  shows "Gates (emit i P e) = (Gates e)[i := (Gates e ! i)\<lparr>GEmitted := new_mask (Gates e ! i) P\<rparr>]"
    "OperandPool (emit i P e) = OperandPool e" "GateTable (emit i P e) = GateTable e"
    "TrueLit (emit i P e) = TrueLit e"
    "Solver (emit i P e) = (if wanted P AND NOT (GEmitted (Gates e ! i)) = 0 then Solver e
       else addAll (emitClauses (Gates e ! i) (operandsOf e (Gates e ! i))
              (wanted P AND NOT (GEmitted (Gates e ! i)))) (Solver e))"
proof -
  let ?M = "wanted P AND NOT (GEmitted (Gates e ! i))"
  have "gate_ok e (Gates e ! i)" using enc_okD(5) [OF ok] i by simp
  then have n: "?M \<noteq> 0 \<Longrightarrow> emittedMask (Gates e ! i) ?M = new_mask (Gates e ! i) P"
    "?M = 0 \<Longrightarrow> new_mask (Gates e ! i) P = GEmitted (Gates e ! i)"
    using new_mask_ok(1,2) [of "Gates e ! i" P] by (simp_all add: gate_ok_def)
  have "(Gates e)[i := (Gates e ! i)\<lparr>GEmitted := GEmitted (Gates e ! i)\<rparr>] = Gates e" by simp
  with n show "Gates (emit i P e) = (Gates e)[i := (Gates e ! i)\<lparr>GEmitted := new_mask (Gates e ! i) P\<rparr>]"
    by (cases "?M = 0") (simp_all add: emit_nothing emit_eq [OF refl] setEmitted_def)
  show "OperandPool (emit i P e) = OperandPool e" "GateTable (emit i P e) = GateTable e"
    "TrueLit (emit i P e) = TrueLit e"
    "Solver (emit i P e) = (if ?M = 0 then Solver e
       else addAll (emitClauses (Gates e ! i) (operandsOf e (Gates e ! i)) ?M) (Solver e))"
    by (cases "?M = 0"; simp add: emit_nothing emit_eq [OF refl] setEmitted_def)+
qed

lemma operandsOf_emit:
  "i < length (Gates e) \<Longrightarrow> enc_ok e \<Longrightarrow> operandsOf (emit i P e) G = operandsOf e G"
  by (simp add: operandsOf_def emit_fields)

text \<open>The models after an emission are the ones that satisfy the emitted halves.\<close>

lemma emit_mods:
  assumes ok: "enc_ok e" and i: "i < length (Gates e)" and nf: "\<not> exhausted (Solver (emit i P e))"
  shows "mods (emit i P e) = {m \<in> mods e. halves_hold (new_mask (Gates e ! i) P)
      (lit_true m (GOut (Gates e ! i)))
      (gateFun (GKind (Gates e ! i)) (map (lit_true m) (operandsOf e (Gates e ! i))))}"
proof -
  let ?G = "Gates e ! i" and ?M = "wanted P AND NOT (GEmitted (Gates e ! i))"
  have g: "gate_ok e ?G" using enc_okD(5) [OF ok] i by simp
  then have G: "arity_ok (GKind ?G) (length (operandsOf e ?G))" "GEmitted ?G \<in> {0, 1, 2, 3}"
    "GKind ?G = GXor \<longrightarrow> GEmitted ?G \<in> {0, 3}" by (simp_all add: gate_ok_def)
  note f = emit_fields [OF i ok, of P] and n = new_mask_ok [OF G(2,3)]
  show ?thesis
  proof (cases "?M = 0")
    case True
    with g n(2) [OF True, symmetric] show ?thesis by (auto simp: mods_def f gate_ok_def)
  next
    case False
    let ?Cs = "emitClauses ?G (operandsOf e ?G) ?M"
    have M: "?M \<in> {0, 1, 2, 3}" by (rule small_mask(1) [OF G(2)])
    have rng: "\<forall>C \<in> set ?Cs. \<forall>L \<in> set C. unat (var L) < numVars (Solver e)"
    proof (intro ballI)
      fix C L assume "C \<in> set ?Cs" "L \<in> set C"
      from emitClauses_range [OF G(1) this] g show "unat (var L) < numVars (Solver e)"
        by (auto simp: gate_ok_def nv_def)
    qed
    have s: "Solver (emit i P e) = addAll ?Cs (Solver e)" using f(5) False by simp
    have "mods (emit i P e) = {m \<in> mods e. \<forall>C \<in> set ?Cs. clause_true m C}"
      using addAll_engine [OF enc_okD(1) [OF ok] s] nf rng by (simp add: mods_def)
    also have "\<dots> = {m \<in> mods e. halves_hold (if GKind ?G = GXor then 3 else ?M) (lit_true m (GOut ?G))
        (gateFun (GKind ?G) (map (lit_true m) (operandsOf e ?G)))}"
      using emitClauses_true [OF G(1) False M] by auto
    also have "\<dots> = {m \<in> mods e. halves_hold (new_mask ?G P) (lit_true m (GOut ?G))
        (gateFun (GKind ?G) (map (lit_true m) (operandsOf e ?G)))}"
      using n(6) g by (auto simp: gate_ok_def)
    finally show ?thesis .
  qed
qed

lemma emit_ok:
  assumes ok: "enc_ok e" and i: "i < length (Gates e)"
  shows "enc_step e (emit i P e)" "nv (emit i P e) = nv e"
    "\<not> enc_full (emit i P e) \<Longrightarrow> m \<in> mods (emit i P e) \<Longrightarrow> halves_hold (wanted P)
       (lit_true m (GOut (Gates e ! i)))
       (gateFun (GKind (Gates e ! i)) (map (lit_true m) (operandsOf e (Gates e ! i))))"
    "enc_total e \<Longrightarrow> emit i P e = e"
proof -
  let ?e = "emit i P e" and ?G = "Gates e ! i"
  note f = emit_fields [OF i ok, of P]
  have g: "gate_ok e ?G" using enc_okD(5) [OF ok] i by simp
  then have G: "GEmitted ?G \<in> {0, 1, 2, 3}" "GKind ?G = GXor \<longrightarrow> GEmitted ?G \<in> {0, 3}"
    by (simp_all add: gate_ok_def)
  note n = new_mask_ok [OF G]
  have s: "engine_ok (Solver ?e) \<and> numVars (Solver ?e) = numVars (Solver e) \<and>
      (exhausted (Solver e) \<longrightarrow> exhausted (Solver ?e))"
    using addAll_engine [OF enc_okD(1) [OF ok] refl] enc_okD(1) [OF ok] f(5) by auto
  then show nv: "nv ?e = nv e" by (simp add: nv_def)
  have full: "enc_full e \<longrightarrow> enc_full ?e" using s by (auto simp: enc_full_def f)
  { assume nf: "\<not> enc_full ?e"
    then have m: "mods ?e = {m \<in> mods e. halves_hold (new_mask ?G P) (lit_true m (GOut ?G))
        (gateFun (GKind ?G) (map (lit_true m) (operandsOf e ?G)))}"
      by (intro emit_mods [OF ok i]) (simp add: enc_full_def)
    then have sub: "mods ?e \<subseteq> mods e" by blast
    have "gate_ok ?e H" if "H \<in> set (Gates e)" for H
      by (rule gate_ok_grow [OF enc_okD(5) [OF ok that]]) (use f nv sub in simp_all)
    moreover have "gate_ok ?e (?G\<lparr>GEmitted := new_mask ?G P\<rparr>)"
      using g n(3,4) m nv f(2) by (simp add: gate_ok_def operandsOf_emit [OF i ok])
    ultimately have "gate_ok ?e H" if "H \<in> set (Gates ?e)" for H
      using that set_update_subset_insert [of "Gates e" i] by (auto simp: f)
    moreover have key: "map (gateKey ?e) (Gates ?e) = map (gateKey e) (Gates e)"
    proof (rule nth_equalityI)
      fix j assume "j < length (map (gateKey ?e) (Gates ?e))"
      then show "map (gateKey ?e) (Gates ?e) ! j = map (gateKey e) (Gates e) ! j"
        using i by (cases "j = i") (simp_all add: f(1) gateKey_def operandsOf_emit [OF i ok])
    qed (simp add: f(1))
    moreover have "table_ok ?e"
    proof -
      have "GKind (Gates ?e ! j) = GKind (Gates e ! j) \<and> operandsOf e (Gates ?e ! j) = operandsOf e (Gates e ! j)"
        if "j < length (Gates e)" for j
        using that i by (cases "j = i") (simp_all add: f(1))
      moreover have "length (Gates ?e) = length (Gates e)" "Gates ?e = [] \<longleftrightarrow> Gates e = []"
        by (simp_all add: f(1))
      ultimately show ?thesis using enc_okD(7) [OF ok]
        by (simp add: table_ok_def f(3) operandsOf_emit [OF i ok] del: of_nat_Suc)
    qed
    ultimately have "enc_ok ?e"
      using ok s nv sub f unfolding enc_ok_def by auto
    with sub nv f(4) have "enc_ok ?e \<and> nv e \<le> nv ?e \<and> mods ?e \<subseteq> mods e \<and> TrueLit ?e = TrueLit e" by simp
    note this m }
  note r = this
  with full show "enc_step e ?e" by (simp add: enc_step_def)
  show "\<not> enc_full ?e \<Longrightarrow> m \<in> mods ?e \<Longrightarrow> halves_hold (wanted P) (lit_true m (GOut ?G))
       (gateFun (GKind ?G) (map (lit_true m) (operandsOf e ?G)))"
    using r(2) n(5) by blast
  assume "enc_total e"
  then have "GEmitted ?G = 3" using i by (simp add: enc_total_def)
  then have "wanted P AND NOT (GEmitted ?G) = 0" using small_mask(4) [of 3 P] by simp
  then show "emit i P e = e" by (rule emit_nothing)
qed

section \<open>Looking a gate up\<close>

lemma table_okD:
  assumes "enc_ok e" "GateTable e \<noteq> []"
  shows "table_shape (GateTable e)" "64 \<le> length (GateTable e)" "length (Gates e) < length (GateTable e)"
    "indices (GateTable e) = (\<lambda>i. word_of_nat (Suc i)) ` {..<length (Gates e)}"
    "\<And>i. i < length (Gates e) \<Longrightarrow> reaches (GateTable e)
       (gateHash (GKind (Gates e ! i)) (operandsOf e (Gates e ! i))) (word_of_nat (Suc i))"
  using enc_okD(7) [OF assms(1)] assms(2) by (simp_all add: table_ok_def del: of_nat_Suc)

lemma index_word:
  assumes "enc_ok e" "i \<le> length (Gates e)"
  shows "unat (word_of_nat (Suc i) :: u32) = Suc i" "(word_of_nat (Suc i) :: u32) \<noteq> 0"
    "unat (word_of_nat (Suc i) - 1 :: u32) = i"
proof -
  have "Suc i < 2 ^ 32" using assms nv_bound [OF assms(1)] enc_okD(4) [OF assms(1)] by simp
  then show u: "unat (word_of_nat (Suc i) :: u32) = Suc i" by (simp only: unat_of_nat) simp
  show "(word_of_nat (Suc i) :: u32) \<noteq> 0" using u by (metis Zero_not_Suc unat_0)
  have "(word_of_nat (Suc i) - 1 :: u32) = word_of_nat i" by simp
  moreover have "i < 2 ^ 32" using \<open>Suc i < 2 ^ 32\<close> by simp
  ultimately show "unat (word_of_nat (Suc i) - 1 :: u32) = i" by (simp only: unat_of_nat) simp
qed

lemma card_indices:
  assumes "enc_ok e" "GateTable e \<noteq> []"
  shows "card (indices (GateTable e)) < length (GateTable e)"
proof -
  have "card (indices (GateTable e)) \<le> length (Gates e)"
    unfolding table_okD(4) [OF assms] using card_image_le [of "{..<length (Gates e)}"] by simp
  with table_okD(3) [OF assms] show ?thesis by simp
qed

definition matches :: "CnfEncoder \<Rightarrow> GateKind \<Rightarrow> SatLit list \<Rightarrow> GateBucket \<Rightarrow> bool" where
  "matches e Kind Ins B \<longleftrightarrow> BIndex B \<noteq> 0 \<and>
     (let G = Gates e ! unat (BIndex B - 1) in
      BHash B = gateHash Kind Ins \<and> GKind G = Kind \<and> unat (NumOperands G) = length Ins \<and>
      Ins = operandsOf e G)"

lemma probe_walk:
  assumes s: "table_shape (GateTable e)" and free: "BIndex (GateTable e ! slotAt (GateTable e) h D) = 0"
    and occ: "\<forall>d < D. BIndex (GateTable e ! slotAt (GateTable e) h d) \<noteq> 0"
    and h: "h = gateHash Kind Ins" and d: "d \<le> D" "D < d + n"
  shows "case probeGate n h Kind Ins e (slotAt (GateTable e) h d) of
      Hit i \<Rightarrow> (\<exists>x < D. matches e Kind Ins (GateTable e ! slotAt (GateTable e) h x) \<and>
          i = unat (BIndex (GateTable e ! slotAt (GateTable e) h x) - 1))
    | Miss j \<Rightarrow> j = slotAt (GateTable e) h D \<and>
        (\<forall>x. d \<le> x \<longrightarrow> x < D \<longrightarrow> \<not> matches e Kind Ins (GateTable e ! slotAt (GateTable e) h x))"
  using d
proof (induction n arbitrary: d)
  case (Suc n)
  let ?B = "GateTable e ! slotAt (GateTable e) h d"
  show ?case
  proof (cases "d = D")
    case True
    with free show ?thesis by (simp add: Let_def)
  next
    case False
    with Suc.prems have dD: "d < D" by simp
    show ?thesis
    proof (cases "matches e Kind Ins ?B")
      case True
      with dD h show ?thesis by (auto simp: matches_def Let_def)
    next
      case nm: False
      then have "probeGate (Suc n) h Kind Ins e (slotAt (GateTable e) h d) =
          probeGate n h Kind Ins e (slotAt (GateTable e) h (Suc d))"
        using occ dD h slotAt_Suc [OF s, of h d] by (auto simp: matches_def Let_def)
      moreover have "x = d \<or> Suc d \<le> x" if "d \<le> x" for x using that by auto
      ultimately show ?thesis using Suc.IH [of "Suc d"] dD Suc.prems nm
        by (auto split: probe.splits)
    qed
  qed
qed simp

lemma probe_ok:
  fixes Kind :: GateKind and Ins :: "SatLit list"
  assumes ok: "enc_ok e" and T: "GateTable e \<noteq> []"
  defines "h \<equiv> gateHash Kind Ins"
  shows "case probeGate (length (GateTable e)) h Kind Ins e (firstSlot h (GateTable e)) of
      Hit i \<Rightarrow> i < length (Gates e) \<and> GKind (Gates e ! i) = Kind \<and> operandsOf e (Gates e ! i) = Ins
    | Miss j \<Rightarrow> (\<exists>D < length (GateTable e). j = slotAt (GateTable e) h D \<and>
          BIndex (GateTable e ! slotAt (GateTable e) h D) = 0 \<and>
          (\<forall>d < D. BIndex (GateTable e ! slotAt (GateTable e) h d) \<noteq> 0)) \<and>
        (Kind, Ins) \<notin> gateKey e ` set (Gates e)"
proof -
  let ?T = "GateTable e"
  note t = table_okD [OF ok T]
  obtain D where D: "D < length ?T" "BIndex (?T ! slotAt ?T h D) = 0"
    "\<forall>d < D. BIndex (?T ! slotAt ?T h d) \<noteq> 0"
    by (rule freeSlot_ok [OF t(1) card_indices [OF ok T], of h])
  have idx: "unat (BIndex (?T ! x) - 1) < length (Gates e)"
    if "x < length ?T" "BIndex (?T ! x) \<noteq> 0" for x
  proof -
    have "BIndex (?T ! x) \<in> indices ?T" using that by (auto simp: indices_def)
    then obtain i where "i < length (Gates e)" "BIndex (?T ! x) = word_of_nat (Suc i)"
      unfolding t(4) by blast
    with index_word(3) [OF ok, of i] show ?thesis by simp
  qed
  note w = probe_walk [OF t(1) D(2,3) _ le0, of Kind Ins "length ?T"]
  have w: "case probeGate (length ?T) h Kind Ins e (firstSlot h ?T) of
      Hit i \<Rightarrow> (\<exists>x < D. matches e Kind Ins (?T ! slotAt ?T h x) \<and>
          i = unat (BIndex (?T ! slotAt ?T h x) - 1))
    | Miss j \<Rightarrow> j = slotAt ?T h D \<and>
        (\<forall>x. 0 \<le> x \<longrightarrow> x < D \<longrightarrow> \<not> matches e Kind Ins (?T ! slotAt ?T h x))"
    using w D(1) by (simp add: h_def firstSlot_slotAt [OF t(1)])
  show ?thesis
  proof (cases "probeGate (length ?T) h Kind Ins e (firstSlot h ?T)")
    case (Hit i)
    with w obtain x where "x < D" "matches e Kind Ins (?T ! slotAt ?T h x)"
      "i = unat (BIndex (?T ! slotAt ?T h x) - 1)" by auto
    with idx [OF slotAt_less [OF t(1)]] Hit show ?thesis by (auto simp: matches_def Let_def)
  next
    case (Miss j)
    have "(Kind, Ins) \<notin> gateKey e ` set (Gates e)"
    proof
      assume "(Kind, Ins) \<in> gateKey e ` set (Gates e)"
      then obtain i where i: "i < length (Gates e)" "GKind (Gates e ! i) = Kind"
        "operandsOf e (Gates e ! i) = Ins" by (auto simp: gateKey_def in_set_conv_nth)
      with t(5) [OF i(1)] obtain d where d: "?T ! slotAt ?T h d = \<lparr>BHash = h, BIndex = word_of_nat (Suc i)\<rparr>"
        "\<forall>d' < d. BIndex (?T ! slotAt ?T h d') \<noteq> 0" by (auto simp: reaches_def h_def simp del: of_nat_Suc)
      have nz: "BIndex (?T ! slotAt ?T h d) \<noteq> 0" using d(1) index_word(2) [OF ok] i(1) by simp
      with D(2) d(2) have "d < D" by (metis linorder_neqE_nat)
      moreover have "matches e Kind Ins (?T ! slotAt ?T h d)"
        using i nz d(1) index_word(3) [OF ok less_imp_le [OF i(1)]]
          length_operandsOf [OF enc_okD(5) [OF ok nth_mem [OF i(1)]]]
        by (simp add: matches_def h_def Let_def del: of_nat_Suc)
      ultimately show False using w Miss by simp
    qed
    with w Miss D show ?thesis by auto
  qed
qed

section \<open>Growing the table\<close>

lemma grow_ok:
  assumes ok: "enc_ok e"
  defines "e' \<equiv> growGateTable e"
  shows "enc_ok e'" "GateTable e' \<noteq> []" "length (Gates e) + 1 < length (GateTable e')"
    "Gates e' = Gates e" "OperandPool e' = OperandPool e" "Solver e' = Solver e" "TrueLit e' = TrueLit e"
proof -
  let ?T = "GateTable e"
  define N where "N = replicate (if ?T = [] then 64 else length ?T * 2) emptyBucket"
  have T': "GateTable e' = fold placeEntry ?T N" by (simp add: e'_def growGateTable_def N_def)
  have same: "Gates e' = Gates e" "OperandPool e' = OperandPool e" "Solver e' = Solver e"
    "TrueLit e' = TrueLit e" by (simp_all add: e'_def growGateTable_def)
  have pow: "\<exists>k. length N = 2 ^ k"
  proof (cases "?T = []")
    case True
    then show ?thesis by (simp add: N_def exI [of _ 6])
  next
    case False
    with table_okD(1) [OF ok] obtain k where "length ?T = 2 ^ k" by (auto simp: table_shape_def)
    with False show ?thesis by (auto simp: N_def intro!: exI [of _ "Suc k"])
  qed
  have empty: "BIndex (N ! i) = 0" if "i < length N" for i
    using that by (simp add: N_def emptyBucket_def split: if_splits)
  have ind: "indices N = {}" by (auto simp: indices_def N_def emptyBucket_def split: if_splits)
  have shape: "table_shape N" using pow empty by (auto simp: table_shape_def)
  have len: "length ?T < length N" by (auto simp: N_def)
  have inj: "i = j" if "i < length ?T" "j < length ?T" "BIndex (?T ! i) \<noteq> 0"
    "BIndex (?T ! i) = BIndex (?T ! j)" for i j
  proof -
    have "?T \<noteq> []" using that(1) by auto
    from table_okD(1) [OF ok this, unfolded table_shape_def, THEN conjunct2, rule_format, OF that]
    show ?thesis .
  qed
  have "card (indices N) + length ?T < length N" "indices N \<inter> indices ?T = {}"
    using len by (simp_all add: ind)
  from place_all_ok [OF shape this(1) inj this(2)]
  have p: "table_shape (GateTable e')" "length (GateTable e') = length N"
    "indices (GateTable e') = indices ?T"
    "\<forall>B \<in> set ?T. BIndex B \<noteq> 0 \<longrightarrow> reaches (GateTable e') (BHash B) (BIndex B)"
    unfolding T' ind by simp_all
  show "GateTable e' \<noteq> []" using p(2) len by auto
  have g: "length (Gates e) + 1 < length N"
  proof (cases "?T = []")
    case True
    then have "Gates e = []" using enc_okD(7) [OF ok] by (simp add: table_ok_def)
    with True show ?thesis by (simp add: N_def)
  next
    case False
    with table_okD(2,3) [OF ok] show ?thesis by (simp add: N_def)
  qed
  then show "length (Gates e) + 1 < length (GateTable e')" by (simp add: p(2))
  have "table_ok e'"
  proof (cases "?T = []")
    case True
    then have "Gates e = []" using enc_okD(7) [OF ok] by (simp add: table_ok_def)
    with True p g show ?thesis by (auto simp: table_ok_def same N_def indices_def)
  next
    case False
    note t = table_okD [OF ok False]
    have "reaches (GateTable e') (gateHash (GKind (Gates e ! i)) (operandsOf e (Gates e ! i)))
        (word_of_nat (Suc i))" if i: "i < length (Gates e)" for i
    proof -
      from t(5) [OF i] obtain d where "?T ! slotAt ?T (gateHash (GKind (Gates e ! i))
          (operandsOf e (Gates e ! i))) d = \<lparr>BHash = gateHash (GKind (Gates e ! i))
          (operandsOf e (Gates e ! i)), BIndex = word_of_nat (Suc i)\<rparr>"
        by (auto simp: reaches_def simp del: of_nat_Suc)
      then have "\<lparr>BHash = gateHash (GKind (Gates e ! i)) (operandsOf e (Gates e ! i)),
          BIndex = word_of_nat (Suc i)\<rparr> \<in> set ?T"
        by (metis nth_mem slotAt_less t(1))
      with p(4) index_word(2) [OF ok less_imp_le [OF i]] show ?thesis
        by (metis GateBucket.select_convs)
    qed
    moreover have "operandsOf e' G = operandsOf e G" for G by (simp add: operandsOf_def same)
    moreover have "64 \<le> length N" using t(2) by (simp add: N_def False)
    ultimately show ?thesis using p g t(4) by (simp add: table_ok_def same del: of_nat_Suc) auto
  qed
  moreover have "gate_ok e' = gate_ok e" "gateKey e' = gateKey e"
    by (simp_all add: fun_eq_iff gate_ok_def gateKey_def operandsOf_def same nv_def mods_def)
  ultimately show "enc_ok e'"
    using ok by (simp add: enc_ok_def same nv_def mods_def)
  show "Gates e' = Gates e" "OperandPool e' = OperandPool e" "Solver e' = Solver e" "TrueLit e' = TrueLit e"
    by (rule same)+
qed

section \<open>A new gate\<close>

text \<open>What a builder promises of the literal it returns, for the halves asked for.\<close>

definition defines_lit ::
    "GatePolarity \<Rightarrow> CnfEncoder \<Rightarrow> SatLit \<times> CnfEncoder \<Rightarrow> (assignment \<Rightarrow> bool) \<Rightarrow> bool" where
  "defines_lit P e r F \<longleftrightarrow>
     (case r of (L, e') \<Rightarrow> enc_step e e' \<and> (P = Both \<longrightarrow> total_step e e') \<and>
        (\<not> enc_full e' \<longrightarrow> unat (var L) < nv e' \<and>
           (\<forall>m \<in> mods e'. halves_hold (wanted P) (lit_true m L) (F m))))"

lemma freshLit_ok:
  assumes ok: "enc_ok e" and f: "freshLit e = (Out, e')"
  shows "engine_ok (Solver e')" "enc_full e \<longrightarrow> enc_full e'"
    "\<not> enc_full e' \<Longrightarrow> unat (var Out) = nv e \<and> nv e' = Suc (nv e) \<and> mods e' = mods e \<and>
       lit_true m Out = m (var Out) \<and> newVar True (Solver e) = (var Out, Solver e') \<and>
       Out = positive (var Out)"
    "Gates e' = Gates e" "OperandPool e' = OperandPool e" "GateTable e' = GateTable e"
    "TrueLit e' = TrueLit e"
proof -
  obtain v s where n: "newVar True (Solver e) = (v, s)" by fastforce
  with f have e': "Out = positive v" "e' = e\<lparr>Solver := s\<rparr>" by (auto simp: freshLit_def)
  note a = engine.fresh_ok [OF enc_okD(1) [OF ok] n]
  show "engine_ok (Solver e')" "enc_full e \<longrightarrow> enc_full e'" using a by (auto simp: e' enc_full_def)
  show "Gates e' = Gates e" "OperandPool e' = OperandPool e" "GateTable e' = GateTable e"
    "TrueLit e' = TrueLit e" by (simp_all add: e')
  assume "\<not> enc_full e'"
  with a have s: "unat v = nv e" "numVars s = Suc (nv e)" "root_models s = mods e"
    by (auto simp: e' enc_full_def nv_def mods_def)
  have "unat v < 2 ^ 31" using s(1) nv_bound [OF ok] by simp
  with s n show "unat (var Out) = nv e \<and> nv e' = Suc (nv e) \<and> mods e' = mods e \<and>
       lit_true m Out = m (var Out) \<and> newVar True (Solver e) = (var Out, Solver e') \<and>
       Out = positive (var Out)"
    by (simp add: e' nv_def mods_def lit_true_def)
qed

lemma word_nat_32: "n < 2 ^ 32 \<Longrightarrow> unat (word_of_nat n :: u32) = n"
  by (simp add: unat_of_nat take_bit_nat_eq_self)

lemma append_ok:
  assumes ok: "enc_ok e" and T: "GateTable e \<noteq> []" "length (Gates e) + 1 < length (GateTable e)"
    and D: "D < length (GateTable e)" "BIndex (GateTable e ! slotAt (GateTable e) h D) = 0"
      "\<forall>d < D. BIndex (GateTable e ! slotAt (GateTable e) h d) \<noteq> 0"
    and h: "h = gateHash Kind Ins" and new: "(Kind, Ins) \<notin> gateKey e ` set (Gates e)"
    and ar: "arity_ok Kind (length Ins)" and rng: "\<forall>L \<in> set Ins. unat (var L) < nv e"
    and a: "appendGate h Kind Ins (slotAt (GateTable e) h D) e = (Out, e')"
  shows "enc_full e \<longrightarrow> enc_full e'" "length (Gates e') = Suc (length (Gates e))"
    "\<not> enc_full e' \<Longrightarrow> enc_ok e' \<and> nv e' = Suc (nv e) \<and> unat (var Out) = nv e \<and> mods e' = mods e \<and>
       TrueLit e' = TrueLit e \<and> newVar True (Solver e) = (var Out, Solver e') \<and>
       Gates e' ! length (Gates e) = \<lparr>GKind = Kind, GEmitted = 0,
         FirstOperand = word_of_nat (length (OperandPool e)), NumOperands = word_of_nat (length Ins),
         GOut = Out\<rparr> \<and> take (length (Gates e)) (Gates e') = Gates e \<and>
       operandsOf e' (Gates e' ! length (Gates e)) = Ins"
proof -
  let ?T = "GateTable e" and ?n = "length (Gates e)"
  obtain u where f: "freshLit e = (Out, u)" and e': "e' = u\<lparr>
      Gates := Gates e @ [\<lparr>GKind = Kind, GEmitted = 0,
        FirstOperand = word_of_nat (length (OperandPool e)), NumOperands = word_of_nat (length Ins),
        GOut = Out\<rparr>],
      OperandPool := OperandPool e @ Ins,
      GateTable := ?T[slotAt ?T h D := \<lparr>BHash = h, BIndex = word_of_nat ?n + 1\<rparr>]\<rparr>"
    (is "_ = u\<lparr>Gates := Gates e @ [?G], OperandPool := _, GateTable := _\<rparr>")
    using a freshLit_ok(4-6) [OF ok] by (auto simp: appendGate_def split: prod.splits)
  note fr = freshLit_ok [OF ok f] and t = table_okD [OF ok T(1)]
  show "enc_full e \<longrightarrow> enc_full e'" using fr(2,5) by (auto simp: enc_full_def e')
  show "length (Gates e') = Suc (length (Gates e))" by (simp add: e')
  assume nf: "\<not> enc_full e'"
  then have nu: "\<not> enc_full u" and pool: "length (OperandPool e) + length Ins < 2 ^ 32"
    using fr(5) by (simp_all add: enc_full_def e')
  note f3 = fr(3) [OF nu]
  have nv: "nv e' = Suc (nv e)" and md: "mods e' = mods e" using f3 by (simp_all add: e' nv_def mods_def)
  have op_new: "operandsOf e' ?G = Ins"
    using pool by (simp add: operandsOf_def e' word_nat_32)
  have old: "gate_ok e' G" "operandsOf e' G = operandsOf e G" if "G \<in> set (Gates e)" for G
  proof -
    note g = enc_okD(5) [OF ok that]
    show "gate_ok e' G" by (rule gate_ok_grow [OF g]) (simp_all add: nv md, simp add: e')
    show "operandsOf e' G = operandsOf e G"
      using g by (intro operandsOf_append) (simp_all add: gate_ok_def e')
  qed
  have g_new: "gate_ok e' ?G"
    using ar rng pool f3 nv op_new
    by (auto simp: gate_ok_def halves_hold_def word_nat_32 less_Suc_eq) (simp add: e')
  let ?v = "word_of_nat (Suc ?n) :: u32"
  have v: "word_of_nat ?n + 1 = ?v" by simp
  have v_new: "?v \<notin> indices ?T"
  proof
    assume "?v \<in> indices ?T"
    then obtain i where i: "i < ?n" "?v = word_of_nat (Suc i)" unfolding t(4) by blast
    with index_word(1) [OF ok, of ?n] index_word(1) [OF ok, of i] show False by simp
  qed
  note p = place_ok [OF t(1) D index_word(2) [OF ok order_refl] v_new]
  have T': "GateTable e' = ?T[slotAt ?T h D := \<lparr>BHash = h, BIndex = ?v\<rparr>]" by (simp add: e' v)
  have "table_ok e'"
  proof -
    have "reaches (GateTable e') (gateHash (GKind (Gates e' ! i)) (operandsOf e' (Gates e' ! i)))
        (word_of_nat (Suc i))" if i: "i < Suc ?n" for i
    proof (cases "i = ?n")
      case True
      then have G': "Gates e' ! i = ?G" by (simp add: e')
      show ?thesis unfolding G' op_new T' using p(2) True h by (simp del: of_nat_Suc)
    next
      case False
      with i have i': "i < ?n" by simp
      then have "Gates e' ! i = Gates e ! i" by (simp add: e' nth_append)
      with old(2) [OF nth_mem [OF i']] t(5) [OF i'] p(4) index_word(2) [OF ok less_imp_le [OF i']]
      show ?thesis by (simp add: T' del: of_nat_Suc)
    qed
    moreover have "indices (GateTable e') = (\<lambda>i. word_of_nat (Suc i)) ` {..<Suc ?n}"
      unfolding T' p(3) t(4) by (simp add: lessThan_Suc del: of_nat_Suc)
    moreover have "length (Gates e') = Suc ?n" "length (GateTable e') = length ?T" "GateTable e' \<noteq> []"
      using T(1) by (simp_all add: e')
    ultimately show ?thesis using p(1) t(2) T(2) unfolding table_ok_def T'
      by (simp del: of_nat_Suc)
  qed
  moreover have "distinct (map (gateKey e') (Gates e'))"
  proof -
    have "map (gateKey e') (Gates e) = map (gateKey e) (Gates e)" using old(2) by (simp add: gateKey_def)
    moreover have "gateKey e' ?G = (Kind, Ins)" by (simp add: gateKey_def op_new)
    moreover have "Gates e' = Gates e @ [?G]" by (simp add: e')
    ultimately have "map (gateKey e') (Gates e') = map (gateKey e) (Gates e) @ [(Kind, Ins)]"
      by (simp only: map_append list.map)
    with enc_okD(6) [OF ok] new show ?thesis by (simp only: distinct_append) simp
  qed
  moreover have "\<forall>G \<in> set (Gates e'). gate_ok e' G" using old(1) g_new by (simp add: e')
  moreover have "TrueLit e' = TrueLit e" "engine_ok (Solver e')" "length (Gates e') = Suc ?n"
    using fr(1,7) by (simp_all add: e')
  ultimately have "enc_ok e'"
    using enc_okD(2-4) [OF ok] nv md by (simp add: enc_ok_def)
  moreover have "Gates e' ! ?n = ?G" "take ?n (Gates e') = Gates e" by (simp_all add: e')
  moreover have "TrueLit e' = TrueLit e" using fr(7) by (simp add: e')
  moreover have "newVar True (Solver e) = (var Out, Solver e')" using f3 by (simp add: e')
  ultimately show "enc_ok e' \<and> nv e' = Suc (nv e) \<and> unat (var Out) = nv e \<and> mods e' = mods e \<and>
       TrueLit e' = TrueLit e \<and> newVar True (Solver e) = (var Out, Solver e') \<and>
       Gates e' ! length (Gates e) = ?G \<and> take (length (Gates e)) (Gates e') = Gates e \<and>
       operandsOf e' (Gates e' ! length (Gates e)) = Ins"
    using nv md f3 op_new by simp
qed

lemma append_basic:
  assumes "enc_ok e" "appendGate h Kind Ins j e = (Out, u)"
  shows "engine_ok (Solver u)" "\<not> isNegated Out"
  using assms freshLit_ok(1) [OF assms(1)]
  by (auto simp: appendGate_def freshLit_def split: prod.splits)

lemma emit_full:
  assumes "engine_ok (Solver e)" "enc_full e"
  shows "enc_full (emit i P e)"
proof (cases "wanted P AND NOT (GEmitted (Gates e ! i)) = 0")
  case True
  with assms(2) show ?thesis by (simp add: emit_nothing)
next
  case False
  with addAll_engine [OF assms(1) refl] assms(2) show ?thesis
    by (auto simp: emit_eq [OF refl] enc_full_def setEmitted_def)
qed

text \<open>Both halves of a definition can be met by the fresh output alone.\<close>

lemma fresh_definition_conservative:
  assumes ok: "enc_ok e" and n: "newVar True (Solver e) = (var (GOut G), s)"
    and out: "unat (var (GOut G)) = nv e" "\<not> isNegated (GOut G)"
    and ar: "arity_ok (GKind G) (length Ins)" and rng: "\<forall>L \<in> set Ins. unat (var L) < nv e"
    and s': "s' = addAll (emitClauses G Ins 3) s" and nf: "\<not> exhausted s'" and m: "m \<in> mods e"
  shows "\<exists>m' \<in> root_models s'. agree (nv e) m m'"
proof -
  have range: "\<forall>C \<in> set (emitClauses G Ins 3). \<forall>L \<in> set C. unat (var L) \<le> numVars (Solver e)"
    using emitClauses_range [OF ar, of _ 3] rng out(1) by (fastforce simp: nv_def)
  have tot: "\<exists>b. \<forall>C \<in> set (emitClauses G Ins 3). clause_true (m'(var (GOut G) := b)) C" for m'
  proof
    let ?b = "gateFun (GKind G) (map (lit_true m') Ins)"
    let ?m = "m'(var (GOut G) := ?b)"
    have "agree (nv e) m' ?m" using out by (intro agree_update) simp
    then have "map (lit_true ?m) Ins = map (lit_true m') Ins"
      using lit_true_agree [of "nv e" m' ?m] rng by simp
    then have "gateFun (GKind G) (map (lit_true ?m) Ins) = ?b" by (rule arg_cong)
    moreover have "lit_true ?m (GOut G) = ?b" using out(2) by (simp add: lit_true_def)
    ultimately show "\<forall>C \<in> set (emitClauses G Ins 3). clause_true ?m C"
      using emitClauses_true [OF ar, of 3 ?m] by simp
  qed
  from engine.define_fresh(2) [OF enc_okD(1) [OF ok] n s' [unfolded addAll_def] nf range tot] m
  show ?thesis by (simp add: mods_def nv_def)
qed

lemma new_gate_ok:
  assumes ok: "enc_ok e" and T: "GateTable e \<noteq> []" "length (Gates e) + 1 < length (GateTable e)"
    and D: "D < length (GateTable e)" "BIndex (GateTable e ! slotAt (GateTable e) h D) = 0"
      "\<forall>d < D. BIndex (GateTable e ! slotAt (GateTable e) h d) \<noteq> 0"
    and h: "h = gateHash Kind Ins" and new: "(Kind, Ins) \<notin> gateKey e ` set (Gates e)"
    and ar: "arity_ok Kind (length Ins)" and rng: "\<forall>L \<in> set Ins. unat (var L) < nv e"
    and a: "appendGate h Kind Ins (slotAt (GateTable e) h D) e = (Out, u)"
  shows "defines_lit P e (Out, emit (length (Gates e)) P u) (\<lambda>m. gateFun Kind (map (lit_true m) Ins))"
proof -
  let ?n = "length (Gates e)" and ?e = "emit (length (Gates e)) P u" and ?G = "Gates u ! length (Gates e)"
  note ap = append_ok [OF ok T D h new ar rng a] and ab = append_basic [OF ok a]
  have i: "?n < length (Gates u)" using ap(2) by simp
  have full: "enc_full e \<longrightarrow> enc_full ?e" using ap(1) emit_full [OF ab(1)] by blast
  { assume nf: "\<not> enc_full ?e"
    then have nu: "\<not> enc_full u" using emit_full [OF ab(1)] by blast
    note u = ap(3) [OF nu]
    have uok: "enc_ok u" using u by simp
    have op: "operandsOf u ?G = Ins" "GKind ?G = Kind" "GOut ?G = Out" using u by auto
    note em = emit_ok [OF uok i, of P] and f = emit_fields [OF i uok, of P]
    have st: "enc_ok ?e" "mods ?e \<subseteq> mods u" "TrueLit ?e = TrueLit u"
      using em(1) nf by (auto simp: enc_step_def)
    have nv: "nv ?e = Suc (nv e)" using em(2) u by simp
    have es: "enc_step e ?e" using st u nv full nf by (auto simp: enc_step_def)
    have "total_step e ?e" if P: "P = Both"
    proof -
      have w: "wanted P AND NOT (GEmitted ?G) = 3"
        using u by (simp add: P wanted_def kPositiveEmitted_def kNegativeEmitted_def)
      have "Gates u = Gates e @ [?G]"
        using u ap(2) take_Suc_conv_app_nth [OF i] by (simp add: take_all_iff)
      with f(1) have "Gates ?e = Gates e @ [?G\<lparr>GEmitted := new_mask ?G P\<rparr>]" by (metis list_update_length)
      moreover have "new_mask ?G P = 3" unfolding P by (rule new_mask_both) (use u in simp)
      ultimately have et: "enc_total e \<longrightarrow> enc_total ?e" by (auto simp: enc_total_def)
      have s: "Solver ?e = addAll (emitClauses ?G Ins 3) (Solver u)" unfolding f(5) w op by simp
      have "\<exists>m' \<in> mods ?e. agree (nv e) m m'" if "m \<in> mods e" for m
        unfolding mods_def
        by (rule fresh_definition_conservative [OF ok _ _ _ _ rng s _ that])
          (use u ar ab nf in \<open>simp_all add: enc_full_def\<close>)
      with es et show ?thesis by (simp add: total_step_def conservative_def)
    qed
    moreover have "halves_hold (wanted P) (lit_true m Out) (gateFun Kind (map (lit_true m) Ins))"
      if "m \<in> mods ?e" for m using em(3) [OF nf that] by (simp only: op)
    moreover have "unat (var Out) < nv ?e" using u nv by simp
    ultimately have "defines_lit P e (Out, ?e) (\<lambda>m. gateFun Kind (map (lit_true m) Ins))"
      using es by (simp add: defines_lit_def) }
  then show ?thesis using full by (auto simp: defines_lit_def enc_step_def total_step_def)
qed

section \<open>Finding or creating a gate\<close>

lemma defines_lit_same_solver:
  assumes d: "defines_lit P u r F" and s: "Solver u = Solver e" "TrueLit u = TrueLit e"
    "OperandPool u = OperandPool e" "Gates u = Gates e"
  shows "defines_lit P e r F"
proof -
  have "mods u = mods e" "nv u = nv e" "enc_full u = enc_full e" "enc_total u = enc_total e"
    by (simp_all add: mods_def nv_def enc_full_def enc_total_def s)
  with d s show ?thesis
    by (simp add: defines_lit_def enc_step_def total_step_def conservative_def split: prod.splits)
qed

definition same_gates :: "CnfEncoder \<Rightarrow> CnfEncoder \<Rightarrow> bool" where
  "same_gates e u \<longleftrightarrow> Solver u = Solver e \<and> TrueLit u = TrueLit e \<and>
     OperandPool u = OperandPool e \<and> Gates u = Gates e"

lemma grow_same_gates: "enc_ok e \<Longrightarrow> same_gates e (growGateTable e)"
  using grow_ok by (simp add: same_gates_def)

text \<open>A request either finds the gate or appends it at a free slot of a table with room.\<close>

lemma gate_cases [consumes 1, case_names hit miss]:
  assumes ok: "enc_ok e"
  obtains u i where "enc_ok u" "same_gates e u" "i < length (Gates u)"
      "GKind (Gates u ! i) = Kind" "operandsOf u (Gates u ! i) = Ins"
      "gate Kind Ins P e = (GOut (Gates u ! i), emit i P u)"
  | u D Out w where "enc_ok u" "same_gates e u" "GateTable u \<noteq> []"
      "length (Gates u) + 1 < length (GateTable u)" "D < length (GateTable u)"
      "BIndex (GateTable u ! slotAt (GateTable u) (gateHash Kind Ins) D) = 0"
      "\<forall>d < D. BIndex (GateTable u ! slotAt (GateTable u) (gateHash Kind Ins) d) \<noteq> 0"
      "(Kind, Ins) \<notin> gateKey u ` set (Gates u)"
      "appendGate (gateHash Kind Ins) Kind Ins (slotAt (GateTable u) (gateHash Kind Ins) D) u = (Out, w)"
      "gate Kind Ins P e = (Out, emit (length (Gates u)) P w)"
proof -
  let ?h = "gateHash Kind Ins"
  define u where "u = (if GateTable e = [] then growGateTable e else e)"
  have u: "enc_ok u" "GateTable u \<noteq> []" "same_gates e u"
    using ok grow_ok [OF ok] grow_same_gates [OF ok] by (auto simp: u_def same_gates_def)
  show thesis
  proof (cases "probeGate (length (GateTable u)) ?h Kind Ins u (firstSlot ?h (GateTable u))")
    case (Hit i)
    with probe_ok [OF u(1,2), of Kind Ins]
    have i: "i < length (Gates u)" "GKind (Gates u ! i) = Kind" "operandsOf u (Gates u ! i) = Ins" by simp_all
    have "gate Kind Ins P e = (GOut (Gates u ! i), emit i P u)"
      using Hit i(1) emit_fields(1) [OF i(1) u(1), of P] by (simp add: gate_def u_def [symmetric] Let_def)
    with u i show thesis by (intro that(1))
  next
    case (Miss j)
    with probe_ok [OF u(1,2), of Kind Ins] obtain D where
      D: "D < length (GateTable u)" "j = slotAt (GateTable u) ?h D"
        "BIndex (GateTable u ! slotAt (GateTable u) ?h D) = 0"
        "\<forall>d < D. BIndex (GateTable u ! slotAt (GateTable u) ?h d) \<noteq> 0"
      and new: "(Kind, Ins) \<notin> gateKey u ` set (Gates u)" by auto
    show thesis
    proof (cases "length (Gates u) \<ge> length (GateTable u) - length (GateTable u) div 4")
      case False
      obtain Out w where a: "appendGate ?h Kind Ins j u = (Out, w)" by fastforce
      have "gate Kind Ins P e = (Out, emit (length (Gates u)) P w)"
        using Miss False a by (simp add: gate_def u_def [symmetric] Let_def)
      moreover have "length (Gates u) + 1 < length (GateTable u)"
        using False table_okD(2) [OF u(1,2)] by simp
      ultimately show thesis using that(2) [OF u(1,3,2) _ D(1,3,4) new] a D(2) by simp
    next
      case True
      let ?w = "growGateTable u"
      note gw = grow_ok [OF u(1)]
      obtain E where E: "freeSlot (length (GateTable ?w)) (GateTable ?w) (firstSlot ?h (GateTable ?w)) =
          slotAt (GateTable ?w) ?h E" "E < length (GateTable ?w)"
        "BIndex (GateTable ?w ! slotAt (GateTable ?w) ?h E) = 0"
        "\<forall>d < E. BIndex (GateTable ?w ! slotAt (GateTable ?w) ?h d) \<noteq> 0"
        by (rule freeSlot_ok [OF table_okD(1) [OF gw(1,2)] card_indices [OF gw(1,2)]])
      obtain Out w where a: "appendGate ?h Kind Ins (slotAt (GateTable ?w) ?h E) ?w = (Out, w)" by fastforce
      have r: "gate Kind Ins P e = (Out, emit (length (Gates ?w)) P w)"
        using Miss True a E(1) by (simp add: gate_def u_def [symmetric] Let_def)
      have "gateKey ?w = gateKey u" by (simp add: fun_eq_iff gateKey_def operandsOf_def gw)
      then have new': "(Kind, Ins) \<notin> gateKey ?w ` set (Gates ?w)" using new by (simp add: gw)
      have "same_gates e ?w" using u(3) by (simp add: same_gates_def gw)
      moreover have "length (Gates ?w) + 1 < length (GateTable ?w)" using gw(3,4) by simp
      ultimately show thesis by (rule that(2) [OF gw(1) _ gw(2) _ E(2-4) new' a r])
    qed
  qed
qed

lemma gate_defines:
  assumes ok: "enc_ok e" and ar: "arity_ok Kind (length Ins)"
    and rng: "\<forall>L \<in> set Ins. unat (var L) < nv e"
  shows "defines_lit P e (gate Kind Ins P e) (\<lambda>m. gateFun Kind (map (lit_true m) Ins))"
using ok
proof (cases rule: gate_cases [where Kind = Kind and Ins = Ins and P = P])
  case (hit u i)
  have "unat (var (GOut (Gates u ! i))) < nv u"
    using enc_okD(5) [OF hit(1) nth_mem [OF hit(3)]] by (simp add: gate_ok_def)
  moreover note em = emit_ok [OF hit(1,3), of P]
  moreover have "total_step u (emit i P u)"
    using em(1,4) total_step_refl [OF hit(1)] by (auto simp: total_step_def)
  ultimately have "defines_lit P u (gate Kind Ins P e) (\<lambda>m. gateFun Kind (map (lit_true m) Ins))"
    using hit(4-6) by (auto simp: defines_lit_def)
  then show ?thesis by (rule defines_lit_same_solver) (use hit(2) in \<open>simp_all add: same_gates_def\<close>)
next
  case (miss u D Out w)
  have "\<forall>L \<in> set Ins. unat (var L) < nv u" using rng miss(2) by (simp add: nv_def same_gates_def)
  from new_gate_ok [OF miss(1,3-7) refl miss(8) ar this miss(9)]
  have "defines_lit P u (gate Kind Ins P e) (\<lambda>m. gateFun Kind (map (lit_true m) Ins))"
    using miss(10) by simp
  then show ?thesis by (rule defines_lit_same_solver) (use miss(2) in \<open>simp_all add: same_gates_def\<close>)
qed

text \<open>The literal returned is the output of the one gate with that operator and those operands.\<close>

lemma gate_entry:
  assumes ok: "enc_ok e" and ar: "arity_ok Kind (length Ins)"
    and rng: "\<forall>L \<in> set Ins. unat (var L) < nv e" and nf: "\<not> enc_full (snd (gate Kind Ins P e))"
  shows "\<exists>G \<in> set (Gates (snd (gate Kind Ins P e))).
    gateKey (snd (gate Kind Ins P e)) G = (Kind, Ins) \<and> GOut G = fst (gate Kind Ins P e)"
using ok
proof (cases rule: gate_cases [where Kind = Kind and Ins = Ins and P = P])
  case (hit u i)
  note f = emit_fields [OF hit(3,1), of P]
  let ?G = "(Gates u ! i)\<lparr>GEmitted := new_mask (Gates u ! i) P\<rparr>"
  have "?G \<in> set (Gates (emit i P u))" using hit(3) by (simp add: f(1) set_update_memI)
  moreover have "gateKey (emit i P u) ?G = (Kind, Ins)" "GOut ?G = GOut (Gates u ! i)"
    using hit(4,5) by (simp_all add: gateKey_def operandsOf_emit [OF hit(3,1)])
  ultimately show ?thesis unfolding hit(6) fst_conv snd_conv by (intro bexI [of _ ?G] conjI)
next
  case (miss u D Out w)
  let ?n = "length (Gates u)"
  have r: "\<forall>L \<in> set Ins. unat (var L) < nv u" using rng miss(2) by (simp add: nv_def same_gates_def)
  note ap = append_ok [OF miss(1,3-7) refl miss(8) ar r miss(9)]
  have nw: "\<not> enc_full w" using nf miss(10) emit_full [OF append_basic(1) [OF miss(1,9)]] by auto
  note w = ap(3) [OF nw]
  have i: "?n < length (Gates w)" using ap(2) by simp
  have wok: "enc_ok w" using w by simp
  note f = emit_fields [OF i wok, of P]
  let ?G = "(Gates w ! ?n)\<lparr>GEmitted := new_mask (Gates w ! ?n) P\<rparr>"
  have op: "operandsOf w (Gates w ! ?n) = Ins" "GKind (Gates w ! ?n) = Kind" "GOut (Gates w ! ?n) = Out"
    using w by auto
  have "?G \<in> set (Gates (emit ?n P w))" using i by (simp add: f(1) set_update_memI)
  moreover have "gateKey (emit ?n P w) ?G = (Kind, Ins)" "GOut ?G = Out"
    by (simp_all add: gateKey_def operandsOf_emit [OF i wok] op)
  ultimately show ?thesis unfolding miss(10) fst_conv snd_conv by (intro bexI [of _ ?G] conjI)
qed

lemma gate_shared:
  assumes ok: "enc_ok e" and G: "G \<in> set (Gates e)" "gateKey e G = (Kind, Ins)"
  shows "fst (gate Kind Ins P e) = GOut G \<and> length (Gates (snd (gate Kind Ins P e))) = length (Gates e)"
using ok
proof (cases rule: gate_cases [where Kind = Kind and Ins = Ins and P = P])
  case (hit u i)
  have same: "Gates u = Gates e" "gateKey u = gateKey e"
    using hit(2) by (simp_all add: same_gates_def fun_eq_iff gateKey_def operandsOf_def)
  have "gateKey e (Gates e ! i) = gateKey e G" using hit(4,5) same G(2) by (simp add: gateKey_def fun_eq_iff)
  moreover have "Gates e ! i \<in> set (Gates e)" using hit(3) same by simp
  ultimately have "Gates e ! i = G" using enc_okD(6) [OF ok] G(1) by (simp add: distinct_map inj_on_def)
  with hit(6) same emit_fields(1) [OF hit(3,1), of P] show ?thesis by simp
next
  case (miss u D Out w)
  have "gateKey u = gateKey e" "Gates u = Gates e"
    using miss(2) by (simp_all add: same_gates_def fun_eq_iff gateKey_def operandsOf_def)
  with miss(8) G show ?thesis by (metis image_eqI)
qed

end
