(* ===== verification/Cnf_Builders.thy ===== *)
theory Cnf_Builders
  imports Cnf_Gates
begin

text \<open>
  The builders of the encoder compute what they are named for, whatever they fold, and an encoder
  with room for a gate does not run out of variables, operands or clause words while it builds one.
  Running out is permanent, so a caller that is not out of room at the end was not on the way.
\<close>

section \<open>Running out is permanent\<close>

text \<open>An engine grows by variables to decide and by clauses; this is all an encoder does to it.\<close>

inductive grown :: "SatEngine \<Rightarrow> SatEngine \<Rightarrow> bool" where
  grown_refl [simp]: "grown s s"
| grown_var: "grown s t \<Longrightarrow> grown s (snd (newVar True t))"
| grown_clause: "grown s t \<Longrightarrow> grown s (snd (addClause C t))"

lemma grown_trans: "grown t u \<Longrightarrow> grown s t \<Longrightarrow> grown s u"
  by (induction rule: grown.induct) (auto intro: grown.intros)

lemma grown_addAll: "grown s t \<Longrightarrow> grown s (addAll Cs t)"
  by (induction Cs arbitrary: t) (simp_all add: addAll_def grown_clause)

definition enc_mono :: "CnfEncoder \<Rightarrow> CnfEncoder \<Rightarrow> bool" where
  "enc_mono e e' \<longleftrightarrow>
     grown (Solver e) (Solver e') \<and>
     (engine_ok (Solver e) \<longrightarrow> engine_ok (Solver e') \<and> (enc_full e \<longrightarrow> enc_full e'))"

lemma enc_mono_refl [simp]: "enc_mono e e"
  by (simp add: enc_mono_def)

lemma enc_mono_trans: "enc_mono e e' \<Longrightarrow> enc_mono e' e'' \<Longrightarrow> enc_mono e e''"
  by (auto simp: enc_mono_def intro: grown_trans)

lemma snd_mapped [simp]: "snd (case r of (L, e) \<Rightarrow> (f L, e)) = snd r"
  by (simp add: case_prod_beta)

lemma enc_mono_emit: "enc_mono e (emit i P e)"
proof (cases "wanted P AND NOT (GEmitted (Gates e ! i)) = 0")
  case True
  then show ?thesis by (simp add: emit_nothing)
next
  case False
  then show ?thesis using addAll_engine [OF _ refl]
    by (auto simp: enc_mono_def emit_eq [OF refl] enc_full_def setEmitted_def grown_addAll)
qed

lemma enc_mono_freshLit: "enc_mono e (snd (freshLit e))"
  using engine.fresh_ok [of "Solver e" True, OF _ prod.collapse [symmetric]] grown_var [OF grown_refl, of "Solver e"]
  by (auto simp: enc_mono_def freshLit_def enc_full_def split: prod.splits)

lemma enc_mono_append: "enc_mono e (snd (appendGate h Kind Ins j e))"
proof -
  obtain Out u where f: "freshLit e = (Out, u)" by fastforce
  have "enc_mono e u" using enc_mono_freshLit [of e] f by simp
  moreover have "enc_mono u (snd (appendGate h Kind Ins j e))"
    by (auto simp: appendGate_def f enc_mono_def enc_full_def)
  ultimately show ?thesis by (rule enc_mono_trans)
qed

lemma enc_mono_grow: "enc_mono e (growGateTable e)"
  by (simp add: enc_mono_def growGateTable_def enc_full_def)

lemma enc_mono_gate: "enc_mono e (snd (gate Kind Ins P e))"
proof -
  define u where "u = (if GateTable e = [] then growGateTable e else e)"
  have u: "enc_mono e u" by (simp add: u_def enc_mono_grow)
  show ?thesis
  proof (cases "probeGate (length (GateTable u)) (gateHash Kind Ins) Kind Ins u
      (firstSlot (gateHash Kind Ins) (GateTable u))")
    case (Hit i)
    then have "snd (gate Kind Ins P e) = emit i P u" by (simp add: gate_def u_def [symmetric] Let_def)
    with enc_mono_trans [OF u enc_mono_emit] show ?thesis by simp
  next
    case (Miss j)
    define w where "w = (if length (Gates u) \<ge> length (GateTable u) - length (GateTable u) div 4
      then growGateTable u else u)"
    have w: "enc_mono u w" by (simp add: w_def enc_mono_grow)
    have "\<exists>k n. snd (gate Kind Ins P e) = emit n P (snd (appendGate (gateHash Kind Ins) Kind Ins k w))"
      using Miss by (auto simp: gate_def u_def [symmetric] w_def Let_def case_prod_beta)
    then obtain k n where
      "snd (gate Kind Ins P e) = emit n P (snd (appendGate (gateHash Kind Ins) Kind Ins k w))" by blast
    with enc_mono_trans [OF u enc_mono_trans [OF w enc_mono_trans [OF enc_mono_append enc_mono_emit]]]
    show ?thesis by simp
  qed
qed

lemma enc_mono_mkAnd: "enc_mono e (snd (mkAnd Ins P e))"
  by (simp add: mkAnd_def enc_mono_gate split: option.split list.split)

lemma enc_mono_mkOr: "enc_mono e (snd (mkOr Ins P e))"
  by (simp add: mkOr_def enc_mono_mkAnd)

lemma enc_mono_mkAnd2: "enc_mono e (snd (mkAnd2 A B e))"
  by (simp add: mkAnd2_def enc_mono_mkAnd)

lemma enc_mono_mkOr2: "enc_mono e (snd (mkOr2 A B e))"
  by (simp add: mkOr2_def enc_mono_mkOr)

lemma enc_mono_mkXor2: "enc_mono e (snd (mkXor2 A B e))"
  by (simp add: mkXor2_def enc_mono_gate Let_def)

lemma enc_mono_xorChain: "enc_mono e (snd (xorChain Acc Ls e))"
proof (induction Ls arbitrary: Acc e)
  case (Cons L Ls)
  show ?case using enc_mono_trans [OF enc_mono_mkXor2 Cons.IH] by (simp add: case_prod_beta)
qed simp

lemma enc_mono_mkXor: "enc_mono e (snd (mkXor Ins e))"
  by (simp add: mkXor_def enc_mono_mkXor2 enc_mono_xorChain enc_mono_gate del: xorChain.simps
      split: prod.split list.split)

lemma enc_mono_mkEquiv: "enc_mono e (snd (mkEquiv A B e))"
  by (simp add: mkEquiv_def enc_mono_mkXor2)

lemma enc_mono_mkIte: "enc_mono e (snd (mkIte C T E e))"
  by (simp add: mkIte_def enc_mono_mkXor2 enc_mono_mkOr2 enc_mono_mkAnd2 enc_mono_gate Let_def
      case_prod_beta)

lemma enc_mono_mkMajority: "enc_mono e (snd (mkMajority A B C e))"
  by (simp add: mkMajority_def enc_mono_mkOr2 enc_mono_mkAnd2 enc_mono_gate)

lemma enc_mono_mkFullAdder: "enc_mono e (snd (mkFullAdder A B C e))"
  using enc_mono_trans [OF enc_mono_mkXor enc_mono_mkMajority]
  by (simp add: mkFullAdder_def case_prod_beta)

lemmas gate_monos = enc_mono_freshLit enc_mono_gate enc_mono_mkAnd enc_mono_mkOr enc_mono_mkAnd2
  enc_mono_mkOr2 enc_mono_mkXor2 enc_mono_mkXor enc_mono_mkEquiv enc_mono_mkIte enc_mono_mkMajority
  enc_mono_mkFullAdder

lemma enc_mono_not_full:
  "enc_mono e e' \<Longrightarrow> engine_ok (Solver e) \<Longrightarrow> \<not> enc_full e' \<Longrightarrow> \<not> enc_full e \<and> engine_ok (Solver e')"
  by (auto simp: enc_mono_def)

section \<open>Steps of a circuit\<close>

definition good :: "CnfEncoder \<Rightarrow> CnfEncoder \<Rightarrow> bool" where
  "good e e' \<longleftrightarrow> enc_ok e' \<and> nv e \<le> nv e' \<and> mods e' \<subseteq> mods e \<and> TrueLit e' = TrueLit e \<and>
     (enc_total e \<longrightarrow> enc_total e' \<and> conservative e e')"

lemma good_refl: "enc_ok e \<Longrightarrow> good e e"
  unfolding good_def conservative_def using agree_refl by blast

lemma good_trans: "good e e' \<Longrightarrow> good e' e'' \<Longrightarrow> good e e''"
  unfolding good_def using conservative_trans by (metis order_trans)

lemma goodD: "good e e' \<Longrightarrow> enc_ok e'" "good e e' \<Longrightarrow> nv e \<le> nv e'" "good e e' \<Longrightarrow> m \<in> mods e' \<Longrightarrow> m \<in> mods e"
  "good e e' \<Longrightarrow> TrueLit e' = TrueLit e"
  by (auto simp: good_def)

text \<open>A literal that computes a function of the assignment, built by a step that is good.\<close>

definition computes :: "CnfEncoder \<Rightarrow> SatLit \<Rightarrow> (assignment \<Rightarrow> bool) \<Rightarrow> CnfEncoder \<Rightarrow> bool" where
  "computes e L F e' \<longleftrightarrow> good e e' \<and> unat (var L) < nv e' \<and> (\<forall>m \<in> mods e'. lit_true m L = F m)"

lemma wanted_Both [simp]: "wanted Both = 3"
  by (simp add: wanted_def kPositiveEmitted_def kNegativeEmitted_def)

lemma defines_computes: "defines_lit Both e (L, e') F \<Longrightarrow> \<not> enc_full e' \<Longrightarrow> computes e L F e'"
  by (auto simp: defines_lit_def computes_def good_def total_step_def enc_step_def)

lemma computes_defines:
  assumes "enc_full e \<longrightarrow> enc_full e'" "\<not> enc_full e' \<Longrightarrow> computes e L F e'"
  shows "defines_lit Both e (L, e') F"
  using assms by (auto simp: defines_lit_def computes_def good_def total_step_def enc_step_def)

lemma known_lit:
  "enc_ok e \<Longrightarrow> unat (var L) < nv e \<Longrightarrow> (\<And>m. m \<in> mods e \<Longrightarrow> lit_true m L = F m) \<Longrightarrow> defines_lit P e (L, e) F"
  by (simp add: defines_lit_def enc_step_refl total_step_refl halves_hold_equal)

lemma known_lit_computes:
  "enc_ok e \<Longrightarrow> unat (var L) < nv e \<Longrightarrow> (\<And>m. m \<in> mods e \<Longrightarrow> lit_true m L = F m) \<Longrightarrow> computes e L F e"
  by (simp add: computes_def good_refl)

section \<open>Constants\<close>

lemma trueLit_true: "enc_ok e \<Longrightarrow> m \<in> mods e \<Longrightarrow> lit_true m (TrueLit e)"
  using enc_okD(3) by blast

lemma isTrueLit_sound:
  assumes "enc_ok e" "m \<in> mods e" "isTrueLit e L"
  shows "lit_true m L"
  using assms trueLit_true rootValue_sound(1) [OF enc_okD(1) [OF assms(1)], of m L]
  by (auto simp: isTrueLit_def mods_def split: if_splits)

lemma isFalseLit_sound:
  assumes "enc_ok e" "m \<in> mods e" "isFalseLit e L"
  shows "\<not> lit_true m L"
  using assms trueLit_true rootValue_sound(2) [OF enc_okD(1) [OF assms(1)], of m L]
  by (auto simp: isFalseLit_def mods_def split: if_splits)

lemma isConstant_cases: "isConstant e L \<Longrightarrow> isTrueLit e L \<or> isFalseLit e L"
  using same_var_cases [of L "TrueLit e"]
  by (cases "rootValue (Solver e) L") (auto simp: isConstant_def isTrueLit_def isFalseLit_def)

lemma isConstant_sound:
  "enc_ok e \<Longrightarrow> m \<in> mods e \<Longrightarrow> isConstant e L \<Longrightarrow> lit_true m L = isTrueLit e L"
  using isConstant_cases isTrueLit_sound isFalseLit_sound by blast

lemma knownValue_sound:
  assumes "enc_ok e" "m \<in> mods e"
  shows "knownValue e L = VTrue \<Longrightarrow> lit_true m L" "knownValue e L = VFalse \<Longrightarrow> \<not> lit_true m L"
proof -
  note r = rootValue_sound [OF enc_okD(1) [OF assms(1)], of m L]
  show "knownValue e L = VTrue \<Longrightarrow> lit_true m L"
    using r assms trueLit_true by (auto simp: knownValue_def mods_def split: if_splits)
  show "knownValue e L = VFalse \<Longrightarrow> \<not> lit_true m L"
    using r assms trueLit_true same_var_cases [of L "TrueLit e"]
    by (auto simp: knownValue_def mods_def split: if_splits)
qed

lemma range_valid: "enc_ok e \<Longrightarrow> unat (var L) < nv e \<Longrightarrow> isValid L"
  using nv_bound [of e] by (intro isValid_if_small) (simp add: unat_kMaxSatVar)

section \<open>Conjunction and disjunction\<close>

lemma sortGateInputs_mset: "mset (sortGateInputs Ls) = mset Ls"
proof -
  consider "Ls = []" | a where "Ls = [a]" | a b where "Ls = [a, b]" | a b c where "Ls = [a, b, c]"
    | a b c d xs where "Ls = a # b # c # d # xs" by (metis list.exhaust)
  then show ?thesis
    by cases (simp_all add: sortGateInputs_def Let_def add_mset_commute)
qed

lemma sortGateInputs_set [simp]: "set (sortGateInputs Ls) = set Ls"
  by (rule mset_eq_setD) (rule sortGateInputs_mset)

lemma andTerms_spec:
  assumes ok: "enc_ok e" and m: "m \<in> mods e" and r: "\<forall>L \<in> set Ls. isValid L"
  shows "case andTerms e Prev Ls of
      None \<Rightarrow> \<not> ((\<forall>L \<in> set Ls. lit_true m L) \<and> (isValid Prev \<longrightarrow> lit_true m Prev))
    | Some C \<Rightarrow> ((\<forall>L \<in> set Ls. lit_true m L) \<and> (isValid Prev \<longrightarrow> lit_true m Prev)) =
        ((\<forall>L \<in> set C. lit_true m L) \<and> (isValid Prev \<longrightarrow> lit_true m Prev))"
  using r
proof (induction Ls arbitrary: Prev)
  case (Cons L Ls)
  have val: "isValid L" "\<forall>L \<in> set Ls. isValid L" using Cons.prems by simp_all
  consider "isTrueLit e L" | "\<not> isTrueLit e L" "isFalseLit e L"
    | "\<not> isTrueLit e L" "\<not> isFalseLit e L" "isValid Prev" "L = Prev"
    | "\<not> isTrueLit e L" "\<not> isFalseLit e L" "isValid Prev" "L = negl Prev"
    | "\<not> isTrueLit e L" "\<not> isFalseLit e L" "\<not> (isValid Prev \<and> (L = Prev \<or> L = negl Prev))" by blast
  then show ?case
  proof cases
    case 1
    with Cons.IH [OF val(2), of Prev] isTrueLit_sound [OF ok m] show ?thesis
      by (simp split: option.splits)
  next
    case 2
    with isFalseLit_sound [OF ok m] show ?thesis by simp
  next
    case 3
    with Cons.IH [OF val(2), of Prev] show ?thesis by (auto split: option.splits)
  next
    case 4
    then show ?thesis by auto
  next
    case 5
    then have eq: "andTerms e Prev (L # Ls) = map_option ((#) L) (andTerms e L Ls)" by auto
    from Cons.IH [OF val(2), of L] val(1) show ?thesis unfolding eq by (cases "andTerms e L Ls") auto
  qed
qed simp

lemma andTerms_subset: "andTerms e Prev Ls = Some C \<Longrightarrow> set C \<subseteq> set Ls"
proof (induction Ls arbitrary: Prev C)
  case (Cons L Ls)
  from Cons.prems have "andTerms e Prev Ls = Some C \<or> (\<exists>D. C = L # D \<and> andTerms e L Ls = Some D)"
    by (auto split: if_splits)
  with Cons.IH show ?case by fastforce
qed simp

lemma falseLit_computes:
  assumes "enc_ok e" "\<And>m. m \<in> mods e \<Longrightarrow> \<not> F m"
  shows "defines_lit P e (falseLit e, e) F"
  using assms trueLit_true enc_okD(2) by (intro known_lit) (auto simp: falseLit_def)

lemma trueLit_computes:
  assumes "enc_ok e" "\<And>m. m \<in> mods e \<Longrightarrow> F m"
  shows "defines_lit P e (trueLit e, e) F"
  using assms trueLit_true enc_okD(2) by (intro known_lit) (auto simp: trueLit_def)

lemma defines_lit_cong:
  assumes "defines_lit P e r F" "\<And>m. m \<in> mods e \<Longrightarrow> F m = G m"
  shows "defines_lit P e r G"
proof (cases r)
  case (Pair L e')
  have "F m = G m" if "m \<in> mods e'" "\<not> enc_full e'" for m
    using assms that Pair by (auto simp: defines_lit_def enc_step_def)
  with assms(1) Pair show ?thesis by (simp add: defines_lit_def)
qed

lemma mkAnd_defines:
  assumes ok: "enc_ok e" and r: "\<forall>L \<in> set Ins. unat (var L) < nv e"
  shows "defines_lit P e (mkAnd Ins P e) (\<lambda>m. \<forall>L \<in> set Ins. lit_true m L)"
proof -
  have val: "\<forall>L \<in> set (sortGateInputs Ins). isValid L" using r range_valid [OF ok] by simp
  have nl: "\<not> isValid noLit" by (simp add: isValid_def noLit_def)
  note sp = andTerms_spec [OF ok _ val, where Prev = noLit]
  show ?thesis
  proof (cases "andTerms e noLit (sortGateInputs Ins)")
    case None
    then show ?thesis using sp nl by (auto simp: mkAnd_def intro!: falseLit_computes [OF ok])
  next
    case (Some C)
    then have sub: "set C \<subseteq> set Ins" using andTerms_subset by fastforce
    have eq: "(\<forall>L \<in> set C. lit_true m L) = (\<forall>L \<in> set Ins. lit_true m L)" if "m \<in> mods e" for m
      using sp [OF that] Some nl by simp
    consider "C = []" | L where "C = [L]" | x y D where "C = x # y # D" by (cases C; cases "tl C") auto
    then show ?thesis
    proof cases
      case 1
      with Some eq show ?thesis by (auto simp: mkAnd_def intro!: trueLit_computes [OF ok])
    next
      case (2 L)
      with Some eq sub r show ?thesis by (auto simp: mkAnd_def intro!: known_lit [OF ok])
    next
      case (3 x y D)
      have "defines_lit P e (gate GAnd C P e) (\<lambda>m. gateFun GAnd (map (lit_true m) C))"
        using sub r by (intro gate_defines [OF ok]) (auto simp: arity_ok_def)
      then have "defines_lit P e (gate GAnd C P e) (\<lambda>m. \<forall>L \<in> set Ins. lit_true m L)"
        by (rule defines_lit_cong) (simp add: gateFun_def list_all_iff eq [symmetric])
      with Some 3 show ?thesis by (simp add: mkAnd_def)
    qed
  qed
qed

lemma halves_hold_flip: "halves_hold (wanted (flip P)) a b = halves_hold (wanted P) (\<not> a) (\<not> b)"
  by (cases P) (auto simp: halves_hold_def wanted_def kPositiveEmitted_def kNegativeEmitted_def)

lemma defines_lit_negl:
  assumes "defines_lit (flip P) e r F"
  shows "defines_lit P e (case r of (L, e) \<Rightarrow> (negl L, e)) (\<lambda>m. \<not> F m)"
  using assms by (cases P) (auto simp: defines_lit_def halves_hold_flip [symmetric] split: prod.splits)

lemma mkOr_defines:
  assumes ok: "enc_ok e" and r: "\<forall>L \<in> set Ins. unat (var L) < nv e"
  shows "defines_lit P e (mkOr Ins P e) (\<lambda>m. \<exists>L \<in> set Ins. lit_true m L)"
proof -
  have "defines_lit (flip P) e (mkAnd (map negl Ins) (flip P) e)
      (\<lambda>m. \<forall>L \<in> set (map negl Ins). lit_true m L)"
    by (rule mkAnd_defines [OF ok]) (use r in simp)
  from defines_lit_negl [OF this] show ?thesis by (simp add: mkOr_def)
qed

lemma mkAnd2_computes:
  assumes "enc_ok e" "unat (var A) < nv e" "unat (var B) < nv e"
  shows "defines_lit Both e (mkAnd2 A B e) (\<lambda>m. lit_true m A \<and> lit_true m B)"
  using mkAnd_defines [of e "[A, B]" Both] assms by (simp add: mkAnd2_def)

lemma mkOr2_computes:
  assumes "enc_ok e" "unat (var A) < nv e" "unat (var B) < nv e"
  shows "defines_lit Both e (mkOr2 A B e) (\<lambda>m. lit_true m A \<or> lit_true m B)"
  using mkOr_defines [of e "[A, B]" Both] assms by (simp add: mkOr2_def)

section \<open>Exclusive or\<close>

lemma defines_lit_polarity:
  assumes "defines_lit Both e r F"
  shows "defines_lit Both e (case r of (L, e) \<Rightarrow> (withPolarity L b, e)) (\<lambda>m. F m = b)"
  using assms by (auto simp: defines_lit_def withPolarity_eq split: prod.splits)

lemma mkXor2_computes:
  assumes ok: "enc_ok e" and r: "unat (var A) < nv e" "unat (var B) < nv e"
  shows "defines_lit Both e (mkXor2 A B e) (\<lambda>m. lit_true m A \<noteq> lit_true m B)"
proof -
  have kv: "lit_true m L = (knownValue e L = VTrue)" if "knownValue e L \<noteq> VUnknown" "m \<in> mods e" for m L
    using that knownValue_sound [OF ok that(2), of L] by (cases "knownValue e L") auto
  consider "A = B" | "A \<noteq> B" "A = negl B" | "A \<noteq> B" "A \<noteq> negl B" "knownValue e A \<noteq> VUnknown"
    | "A \<noteq> B" "A \<noteq> negl B" "knownValue e A = VUnknown" "knownValue e B \<noteq> VUnknown"
    | "A \<noteq> B" "A \<noteq> negl B" "knownValue e A = VUnknown" "knownValue e B = VUnknown" by blast
  then show ?thesis
  proof cases
    case 1
    then show ?thesis by (simp add: mkXor2_def falseLit_computes [OF ok])
  next
    case 2
    then show ?thesis by (simp add: mkXor2_def trueLit_computes [OF ok])
  next
    case 3
    show ?thesis
    proof (cases "knownValue e B = VUnknown")
      case True
      have "defines_lit Both e (withPolarity B (knownValue e A = VFalse), e) (\<lambda>m. lit_true m A \<noteq> lit_true m B)"
        using r kv [OF 3(3)] 3(3)
        by (intro known_lit [OF ok]) (cases "knownValue e A"; auto simp: withPolarity_eq)+
      with 3 True show ?thesis by (simp add: mkXor2_def)
    next
      case False
      have "defines_lit Both e (constantLit e (knownValue e A \<noteq> knownValue e B), e)
          (\<lambda>m. lit_true m A \<noteq> lit_true m B)"
        using enc_okD(2) [OF ok] trueLit_true [OF ok] kv [OF 3(3)] kv [OF False] 3(3) False
        by (intro known_lit [OF ok])
          (cases "knownValue e A"; cases "knownValue e B"; auto simp: constantLit_def withPolarity_eq)+
      with 3 False show ?thesis by (simp add: mkXor2_def)
    qed
  next
    case 4
    have "defines_lit Both e (withPolarity A (knownValue e B = VFalse), e) (\<lambda>m. lit_true m A \<noteq> lit_true m B)"
      using r kv [OF 4(4)] 4(4)
      by (intro known_lit [OF ok]) (cases "knownValue e B"; auto simp: withPolarity_eq)+
    with 4 show ?thesis by (simp add: mkXor2_def)
  next
    case 5
    let ?X = "positive (var A)" and ?Y = "positive (var B)" and ?c = "isNegated A \<noteq> isNegated B"
    let ?Ts = "if ?Y < ?X then [?Y, ?X] else [?X, ?Y]"
    have v: "var ?X = var A" "var ?Y = var B" by (rule positive_sel(2) [OF unat_var_less])+
    have "defines_lit Both e (gate GXor ?Ts Both e) (\<lambda>m. gateFun GXor (map (lit_true m) ?Ts))"
      using r v by (intro gate_defines [OF ok]) (auto simp: arity_ok_def)
    from defines_lit_polarity [OF this, of "\<not> ?c"]
    have "defines_lit Both e (case gate GXor ?Ts Both e of (L, e) \<Rightarrow> (withPolarity L (\<not> ?c), e))
        (\<lambda>m. lit_true m A \<noteq> lit_true m B)"
      by (rule defines_lit_cong) (auto simp: gateFun_def lit_true_def v)
    with 5 show ?thesis by (simp add: mkXor2_def Let_def)
  qed
qed

lemma defines_lit_step:
  assumes ok: "enc_ok e" and a: "defines_lit Both e (A, u) F"
    and mono: "enc_mono u (snd r)"
    and b: "\<And>L e'. r = (L, e') \<Longrightarrow> enc_ok u \<Longrightarrow> unat (var A) < nv u \<Longrightarrow> nv e \<le> nv u \<Longrightarrow>
       (\<And>m. m \<in> mods u \<Longrightarrow> lit_true m A = F m \<and> m \<in> mods e) \<Longrightarrow> defines_lit Both u (L, e') G"
  shows "enc_mono e u \<Longrightarrow> defines_lit Both e r G"
proof -
  assume mu: "enc_mono e u"
  obtain L e' where r: "r = (L, e')" by fastforce
  have eng: "engine_ok (Solver e)" by (rule enc_okD(1) [OF ok])
  show ?thesis unfolding r
  proof (rule computes_defines)
    show "enc_full e \<longrightarrow> enc_full e'"
      using enc_mono_trans [OF mu mono] eng by (simp add: enc_mono_def r)
    assume nf: "\<not> enc_full e'"
    have nu: "\<not> enc_full u"
      using enc_mono_not_full [OF mono] enc_mono_def [of e u] mu eng nf by (simp add: r)
    note ca = defines_computes [OF a nu]
    have "defines_lit Both u (L, e') G"
      by (rule b [OF r]) (use ca in \<open>auto simp: computes_def good_def\<close>)
    from defines_computes [OF this nf] ca show "computes e L G e'"
      using good_trans by (auto simp: computes_def)
  qed
qed

lemma xorChain_computes:
  assumes "enc_ok e" "unat (var Acc) < nv e" "\<forall>L \<in> set Ls. unat (var L) < nv e"
  shows "defines_lit Both e (xorChain Acc Ls e) (\<lambda>m. lit_true m Acc \<noteq> parity (map (lit_true m) Ls))"
  using assms
proof (induction Ls arbitrary: Acc e)
  case Nil
  then show ?case by (auto intro: known_lit)
next
  case (Cons L Ls)
  obtain A u where u: "mkXor2 Acc L e = (A, u)" by fastforce
  have a: "defines_lit Both e (A, u) (\<lambda>m. lit_true m Acc \<noteq> lit_true m L)"
    using mkXor2_computes [OF Cons.prems(1,2), of L] Cons.prems(3) u by simp
  have "enc_mono e u" using enc_mono_mkXor2 [of e Acc L] u by simp
  then have "defines_lit Both e (xorChain A Ls u) (\<lambda>m. lit_true m Acc \<noteq> parity (map (lit_true m) (L # Ls)))"
  proof (rule defines_lit_step [OF Cons.prems(1) a enc_mono_xorChain, rotated])
    fix M e'
    assume r: "xorChain A Ls u = (M, e')" and s: "enc_ok u" "unat (var A) < nv u" "nv e \<le> nv u"
      "\<And>m. m \<in> mods u \<Longrightarrow> lit_true m A = (lit_true m Acc \<noteq> lit_true m L) \<and> m \<in> mods e"
    have "defines_lit Both u (M, e') (\<lambda>m. lit_true m A \<noteq> parity (map (lit_true m) Ls))"
      using Cons.IH [OF s(1,2)] Cons.prems(3) s(3) r by fastforce
    then show "defines_lit Both u (M, e') (\<lambda>m. lit_true m Acc \<noteq> parity (map (lit_true m) (L # Ls)))"
      by (rule defines_lit_cong) (use s(4) in auto)
  qed
  with u show ?case by simp
qed

lemma parity_perm:
  assumes "mset xs = mset ys"
  shows "parity xs = parity ys"
proof -
  have odd: "parity zs = odd (count (mset zs) True)" for zs
    by (induction zs) auto
  show ?thesis by (simp add: odd assms)
qed

lemma cancelPairs_parity: "parity (map f (cancelPairs Ls)) = parity (map f Ls)"
  by (induction Ls rule: cancelPairs.induct) auto

lemma cancelPairs_subset: "set (cancelPairs Ls) \<subseteq> set Ls"
  by (induction Ls rule: cancelPairs.induct) auto

lemma xorTerms_spec:
  assumes ok: "enc_ok e" and x: "xorTerms e Ls = (Complement, Terms)"
  shows "var ` set Terms \<subseteq> var ` set Ls"
    "m \<in> mods e \<Longrightarrow> parity (map (lit_true m) Ls) = (Complement \<noteq> parity (map (lit_true m) Terms))"
  using x
proof (induction Ls arbitrary: Complement Terms)
  case (Cons L Ls)
  obtain c ts where r: "xorTerms e Ls = (c, ts)" by fastforce
  case 1
  then have "set Terms \<subseteq> insert L (insert (negl L) (set ts))" using r by (auto split: if_splits)
  then have "var ` set Terms \<subseteq> insert (var L) (var ` set ts)" by auto
  with Cons(1) [OF r] have "var ` set Terms \<subseteq> insert (var L) (var ` set Ls)" by blast
  then show ?case by simp
  case 2
  with Cons(2) [OF _ r] r isConstant_sound [OF ok, of m L] show ?case by (auto split: if_splits)
qed simp_all

lemma mkXor_computes:
  assumes ok: "enc_ok e" and r: "\<forall>L \<in> set Ins. unat (var L) < nv e"
  shows "defines_lit Both e (mkXor Ins e) (\<lambda>m. parity (map (lit_true m) Ins))"
proof (cases "length Ins = 2")
  case True
  then obtain A B where "Ins = [A, B]" by (auto simp: numeral_2_eq_2 length_Suc_conv)
  with mkXor2_computes [OF ok, of A B] r show ?thesis by (simp add: mkXor_def)
next
  case False
  obtain c ts where x: "xorTerms e Ins = (c, ts)" by fastforce
  note t = xorTerms_spec [OF ok x]
  let ?C = "cancelPairs (sortGateInputs ts)"
  have rng: "\<forall>L \<in> set ?C. unat (var L) < nv e"
    using cancelPairs_subset [of "sortGateInputs ts"] t(1) r by fastforce
  have par: "parity (map (lit_true m) Ins) = (c \<noteq> parity (map (lit_true m) ?C))" if "m \<in> mods e" for m
  proof -
    have "parity (map (lit_true m) (sortGateInputs ts)) = parity (map (lit_true m) ts)"
      by (rule parity_perm) (simp add: sortGateInputs_mset)
    with t(2) [OF that] show ?thesis by (simp add: cancelPairs_parity)
  qed
  have final: "defines_lit Both e (case q of (Out, e) \<Rightarrow> (withPolarity Out (\<not> c), e))
      (\<lambda>m. parity (map (lit_true m) Ins))"
    if "defines_lit Both e q (\<lambda>m. parity (map (lit_true m) ?C))" for q
    by (rule defines_lit_cong [OF defines_lit_polarity [OF that, of "\<not> c"]]) (use par in auto)
  consider "?C = []" | L where "?C = [L]" | L M Ls where "?C = L # M # Ls" by (cases ?C; cases "tl ?C") auto
  then show ?thesis
  proof cases
    case 1
    have "defines_lit Both e (constantLit e c, e) (\<lambda>m. parity (map (lit_true m) Ins))"
      using par 1 trueLit_true [OF ok] enc_okD(2) [OF ok]
      by (intro known_lit [OF ok]) (auto simp: constantLit_def withPolarity_eq)
    with False x 1 show ?thesis by (simp add: mkXor_def)
  next
    case (2 L)
    have "defines_lit Both e (withPolarity L (\<not> c), e) (\<lambda>m. parity (map (lit_true m) Ins))"
      using par 2 rng by (intro known_lit [OF ok]) (auto simp: withPolarity_eq)
    with False x 2 show ?thesis by (simp add: mkXor_def)
  next
    case (3 L M Ls)
    have chain: "defines_lit Both e (xorChain L (M # Ls) e) (\<lambda>m. parity (map (lit_true m) ?C))"
      using xorChain_computes [OF ok, of L "M # Ls"] rng by (simp add: 3 del: xorChain.simps)
    have gt: "defines_lit Both e (gate GXor ?C Both e) (\<lambda>m. parity (map (lit_true m) ?C))"
      using gate_defines [OF ok, of GXor ?C Both] rng by (simp add: arity_ok_def gateFun_def)
    show ?thesis
    proof (cases "length ?C > kCnfEncoderMaxXorFanIn")
      case True
      with False x 3 final [OF chain] show ?thesis by (simp add: mkXor_def del: xorChain.simps)
    next
      case nle: False
      with False x 3 final [OF gt] show ?thesis by (simp add: mkXor_def del: xorChain.simps)
    qed
  qed
qed

lemma mkEquiv_computes:
  assumes "enc_ok e" "unat (var A) < nv e" "unat (var B) < nv e"
  shows "defines_lit Both e (mkEquiv A B e) (\<lambda>m. lit_true m A = lit_true m B)"
  using defines_lit_negl [where P = Both, unfolded flip.simps, OF mkXor2_computes [OF assms]]
  by (simp add: mkEquiv_def)

section \<open>Selection and majority\<close>

lemma gateFun_3 [simp]:
  "gateFun GIte [a, b, c] = (if a then b else c)" "gateFun GMajority [a, b, c] = majority a b c"
  by (simp_all add: gateFun_def)

lemma defines_lit_if:
  "(b \<Longrightarrow> defines_lit P e x F) \<Longrightarrow> (\<not> b \<Longrightarrow> defines_lit P e y F) \<Longrightarrow> defines_lit P e (if b then x else y) F"
  by simp

lemma mkIte_computes:
  assumes ok: "enc_ok e" and r: "unat (var C) < nv e" "unat (var T) < nv e" "unat (var E) < nv e"
  shows "defines_lit Both e (mkIte C T E e) (\<lambda>m. if lit_true m C then lit_true m T else lit_true m E)"
    (is "defines_lit _ _ _ ?F")
proof -
  note isT = isTrueLit_sound [OF ok] and isF = isFalseLit_sound [OF ok]
  have n: "unat (var (negl C)) < nv e" using r by simp
  note two = mkXor2_computes [OF ok r(1,3)] mkOr2_computes [OF ok r(1,3)] mkAnd2_computes [OF ok n r(3)]
    mkOr2_computes [OF ok n r(2)] mkAnd2_computes [OF ok r(1,2)]
  have g: "defines_lit Both e (gate GIte [c, t, f] Both e)
      (\<lambda>m. if lit_true m c then lit_true m t else lit_true m f)"
    if "unat (var c) < nv e" "unat (var t) < nv e" "unat (var f) < nv e" for c t f
    using gate_defines [OF ok, of GIte "[c, t, f]" Both] that by (simp add: arity_ok_def)
  have norm: "defines_lit Both e
      (if isNegated t then (case gate GIte [c, negl t, negl f] Both e of (L, e) \<Rightarrow> (negl L, e))
       else gate GIte [c, t, f] Both e) (\<lambda>m. if lit_true m c then lit_true m t else lit_true m f)"
    if v: "unat (var c) < nv e" "unat (var t) < nv e" "unat (var f) < nv e" for c t f
  proof -
    have "defines_lit Both e (gate GIte [c, negl t, negl f] Both e)
        (\<lambda>m. \<not> (if lit_true m c then lit_true m t else lit_true m f))"
      using g [of c "negl t" "negl f"] v by (auto elim: defines_lit_cong)
    from defines_lit_negl [where P = Both, simplified, OF this] g [OF v] show ?thesis by simp
  qed
  have last: "defines_lit Both e (let (C, T, E) = (if isNegated C then (negl C, E, T) else (C, T, E)) in
      if isNegated T then (case gate GIte [C, negl T, negl E] Both e of (L, e) \<Rightarrow> (negl L, e))
      else gate GIte [C, T, E] Both e) ?F"
  proof (cases "isNegated C")
    case True
    have "defines_lit Both e
        (if isNegated E then (case gate GIte [negl C, negl E, negl T] Both e of (L, e) \<Rightarrow> (negl L, e))
         else gate GIte [negl C, E, T] Both e) ?F"
      by (rule defines_lit_cong [OF norm [OF n r(3,2)]]) auto
    with True show ?thesis by simp
  next
    case False
    with norm [OF r] show ?thesis by simp
  qed
  show ?thesis
    unfolding mkIte_def
    apply (intro defines_lit_if last)
    subgoal by (rule known_lit [OF ok r(2)]) (simp add: isT)
    subgoal by (rule known_lit [OF ok r(3)]) (simp add: isF)
    subgoal by (rule known_lit [OF ok r(2)]) simp
    subgoal by (rule defines_lit_cong [OF two(1)]) simp
    subgoal by (rule defines_lit_cong [OF two(2)]) (auto dest: isT)
    subgoal by (rule defines_lit_cong [OF two(3)]) (auto dest: isF)
    subgoal by (rule defines_lit_cong [OF two(4)]) (auto dest: isT)
    subgoal by (rule defines_lit_cong [OF two(5)]) (auto dest: isF)
    subgoal by (rule defines_lit_cong [OF two(2)]) simp
    subgoal by (rule defines_lit_cong [OF two(3)]) simp
    subgoal by (rule defines_lit_cong [OF two(5)]) simp
    subgoal by (rule defines_lit_cong [OF two(4)]) simp
    done
qed

lemma majority_perm:
  assumes "mset [a, b, c] = mset [x, y, z]"
  shows "majority a b c = majority x y z"
proof -
  have "count (mset [a, b, c]) True = count (mset [x, y, z]) True" by (simp only: assms)
  then show ?thesis
    by (cases a; cases b; cases c; cases x; cases y; cases z) (simp_all add: majority_def)
qed

lemma mkMajority_computes:
  assumes ok: "enc_ok e" and r: "unat (var A) < nv e" "unat (var B) < nv e" "unat (var C) < nv e"
  shows "defines_lit Both e (mkMajority A B C e) (\<lambda>m. majority (lit_true m A) (lit_true m B) (lit_true m C))"
proof -
  note isC = isConstant_sound [OF ok]
  let ?S = "sortGateInputs [A, B, C]"
  have len: "length ?S = 3" using arg_cong [OF sortGateInputs_mset [of "[A, B, C]"], of size] by simp
  then obtain x y z where S: "?S = [x, y, z]" using length_3 by metis
  have ms: "mset [x, y, z] = mset [A, B, C]" using sortGateInputs_mset [of "[A, B, C]"] S by simp
  have g: "defines_lit Both e (gate GMajority ?S Both e)
      (\<lambda>m. majority (lit_true m A) (lit_true m B) (lit_true m C))"
  proof (rule defines_lit_cong)
    show "defines_lit Both e (gate GMajority ?S Both e) (\<lambda>m. gateFun GMajority (map (lit_true m) ?S))"
      by (rule gate_defines [OF ok]) (use r len in \<open>auto simp: arity_ok_def\<close>)
    fix m
    have "mset (map (lit_true m) [x, y, z]) = mset (map (lit_true m) [A, B, C])" using ms by (simp only: mset_map)
    from majority_perm [OF this [unfolded list.map]]
    show "gateFun GMajority (map (lit_true m) ?S) = majority (lit_true m A) (lit_true m B) (lit_true m C)"
      unfolding S by simp
  qed
  note two = mkOr2_computes [OF ok r(2,3)] mkAnd2_computes [OF ok r(2,3)] mkOr2_computes [OF ok r(1,3)]
    mkAnd2_computes [OF ok r(1,3)] mkOr2_computes [OF ok r(1,2)] mkAnd2_computes [OF ok r(1,2)]
  show ?thesis
    unfolding mkMajority_def
    apply (intro defines_lit_if g)
    subgoal by (rule defines_lit_cong [OF two(1)]) (auto simp: majority_def isC)
    subgoal by (rule defines_lit_cong [OF two(2)]) (auto simp: majority_def isC)
    subgoal by (rule defines_lit_cong [OF two(3)]) (auto simp: majority_def isC)
    subgoal by (rule defines_lit_cong [OF two(4)]) (auto simp: majority_def isC)
    subgoal by (rule defines_lit_cong [OF two(5)]) (auto simp: majority_def isC)
    subgoal by (rule defines_lit_cong [OF two(6)]) (auto simp: majority_def isC)
    subgoal by (rule known_lit [OF ok r(1)]) (auto simp: majority_def)
    subgoal by (rule known_lit [OF ok r(1)]) (auto simp: majority_def)
    subgoal by (rule known_lit [OF ok r(2)]) (auto simp: majority_def)
    subgoal by (rule known_lit [OF ok r(3)]) (auto simp: majority_def)
    subgoal by (rule known_lit [OF ok r(2)]) (auto simp: majority_def)
    subgoal by (rule known_lit [OF ok r(1)]) (auto simp: majority_def)
    done
qed

section \<open>The encoder at work\<close>

lemma newEncoder_ok:
  assumes ok: "engine_ok s" and nf: "\<not> exhausted (Solver (newEncoder s))"
  shows "enc_ok (newEncoder s) \<and> enc_total (newEncoder s) \<and> \<not> enc_full (newEncoder s) \<and>
    nv (newEncoder s) = Suc (numVars s) \<and>
    mods (newEncoder s) = {m \<in> root_models s. lit_true m (TrueLit (newEncoder s))}"
proof -
  obtain V t where t: "newVar False s = (V, t)" by fastforce
  obtain b u where u: "addClause [positive V] t = (b, u)" by fastforce
  note a = engine.fresh_ok [OF ok t]
  note c = engine.add_ok [OF conjunct1 [OF a] u]
  have e: "newEncoder s = \<lparr>Solver = u, TrueLit = positive V, Gates = [], OperandPool = [], GateTable = []\<rparr>"
    by (simp add: newEncoder_def t u)
  have nu: "\<not> exhausted u" using nf e by simp
  then have nt: "\<not> exhausted t" using c by blast
  have v: "unat V = numVars s" "numVars t = Suc (numVars s)" "root_models t = root_models s"
    using a nt by auto
  have "var (positive V) = V"
    using engine.size_bound [OF ok] v(1) by (simp add: positive_def var_mk)
  with v c nu have "numVars u = Suc (numVars s)"
    "root_models u = {m \<in> root_models s. lit_true m (positive V)}" "unat (var (positive V)) < numVars u"
    by (auto simp: clause_true_def)
  with c nu show ?thesis
    by (simp add: e enc_ok_def enc_total_def enc_full_def nv_def mods_def table_ok_def)
qed

lemma assert_ok:
  assumes ok: "enc_ok e" and a: "addClause C (Solver e) = (b, s)" and e': "e' = e\<lparr>Solver := s\<rparr>"
    and r: "\<forall>L \<in> set C. unat (var L) < nv e" and nf: "\<not> enc_full e'"
  shows "enc_ok e'" "mods e' = {m \<in> mods e. clause_true m C}" "nv e' = nv e" "TrueLit e' = TrueLit e"
    "Gates e' = Gates e"
proof -
  note c = engine.add_ok [OF enc_okD(1) [OF ok] a]
  have eq: "mods e' = {m \<in> mods e. clause_true m C}" "nv e' = nv e"
    using c r nf by (simp_all add: e' mods_def nv_def enc_full_def)
  then show "mods e' = {m \<in> mods e. clause_true m C}" "nv e' = nv e" by simp_all
  show "TrueLit e' = TrueLit e" "Gates e' = Gates e" by (simp_all add: e')
  have op: "operandsOf e' = operandsOf e" by (simp add: operandsOf_def e' fun_eq_iff)
  moreover have "gate_ok e' G" if "gate_ok e G" for G
    using that eq op by (auto simp: gate_ok_def e')
  moreover have "table_ok e'" using enc_okD(7) [OF ok] op by (simp add: table_ok_def e' del: of_nat_Suc)
  moreover have "gateKey e' = gateKey e" by (simp add: gateKey_def fun_eq_iff op)
  moreover have "engine_ok (Solver e')" using c by (simp add: e')
  ultimately show "enc_ok e'"
    using enc_okD [OF ok] eq by (simp add: enc_ok_def \<open>TrueLit e' = TrueLit e\<close> \<open>Gates e' = Gates e\<close>)
qed

lemma mkFullAdder_computes:
  assumes ok: "enc_ok e" and r: "unat (var A) < nv e" "unat (var B) < nv e" "unat (var C) < nv e"
    and f: "mkFullAdder A B C e = ((S, K), e')" and nf: "\<not> enc_full e'"
  shows "good e e' \<and> unat (var S) < nv e' \<and> unat (var K) < nv e' \<and>
    (\<forall>m \<in> mods e'. of_bool (lit_true m S) + 2 * of_bool (lit_true m K) =
       of_bool (lit_true m A) + of_bool (lit_true m B) + (of_bool (lit_true m C) :: nat))"
proof -
  obtain u where u: "mkXor [A, B, C] e = (S, u)" and k: "mkMajority A B C u = (K, e')"
    using f by (auto simp: mkFullAdder_def split: prod.splits)
  have x: "defines_lit Both e (S, u) (\<lambda>m. parity (map (lit_true m) [A, B, C]))"
    using mkXor_computes [OF ok, of "[A, B, C]"] r u by simp
  have nu: "\<not> enc_full u"
    using enc_mono_mkMajority [of u A B C] enc_mono_mkXor [of e "[A, B, C]"] k u nf enc_okD(1) [OF ok]
    by (auto simp: enc_mono_def)
  note cx = defines_computes [OF x nu]
  then have g: "good e u" by (simp add: computes_def)
  have r': "unat (var A) < nv u" "unat (var B) < nv u" "unat (var C) < nv u"
    using r goodD(2) [OF g] by linarith+
  have "defines_lit Both u (K, e') (\<lambda>m. majority (lit_true m A) (lit_true m B) (lit_true m C))"
    using mkMajority_computes [OF goodD(1) [OF g] r'] k by simp
  from defines_computes [OF this nf] have ck: "good u e'" "unat (var K) < nv e'"
    "\<And>m. m \<in> mods e' \<Longrightarrow> lit_true m K = majority (lit_true m A) (lit_true m B) (lit_true m C)"
    by (auto simp: computes_def)
  have s: "lit_true m S = parity (map (lit_true m) [A, B, C])" if "m \<in> mods e'" for m
    using cx that goodD(3) [OF ck(1)] by (auto simp: computes_def)
  have "unat (var S) < nv e'" using cx goodD(2) [OF ck(1)] by (auto simp: computes_def)
  with good_trans [OF g ck(1)] ck s show ?thesis by (auto simp: majority_def of_bool_def)
qed

section \<open>How much a clause takes\<close>

lemma simplifyClause_length: "simplifyClause s Prev Ls = Some C \<Longrightarrow> length C \<le> length Ls"
  by (induction s Prev Ls arbitrary: C rule: simplifyClause.induct)
    (fastforce simp: Let_def split: if_splits)+

lemma addClause_words:
  assumes ok: "engine_ok s" and a: "addClause Lits s = (b, s')" and sp: "\<not> OutOfSpace s"
    and room: "ArenaWords s + (kHeaderWords + length Lits) \<le> kMaxArenaWords"
  shows "\<not> OutOfSpace s' \<and> ArenaWords s' \<le> ArenaWords s + (kHeaderWords + length Lits)"
proof (cases "Falsified s \<or> (\<exists>L \<in> set Lits. \<not> isValid L \<or> unat (var L) \<ge> numVars s)")
  case True
  have "TrailLim s = []" using ok by (simp add: engine_ok_def engine_shape_def)
  from cancelUntil_root [OF this] True a sp have "s' = s"
    by (cases "Falsified s") (simp_all add: addClause_def Let_def)
  with sp show ?thesis by simp
next
  case False
  then have nf: "\<not> Falsified s" and n: "\<forall>L \<in> set Lits. unat (var L) < numVars s" by (auto simp: not_le)
  note e = engine_okD [OF ok nf]
  have root: "cancelUntil 0 s = s" using e(3) by (intro cancelUntil_root) (simp add: engine_shape_def)
  note simp = simplified_clause [OF ok nf n]
  show ?thesis
  proof (cases "simplifyClause s noLit (sort Lits)")
    case None
    with a False sp root show ?thesis by (auto simp: addClause_def Let_def)
  next
    case (Some C)
    note C = simp [unfolded Some option.case]
    have len: "length C \<le> length Lits" using simplifyClause_length [OF Some] by simp
    consider "C = []" | L where "C = [L]" | x y D where "C = x # y # D" by (cases C; cases "tl C") auto
    then show ?thesis
    proof cases
      case 1
      with a False sp root Some show ?thesis by (auto simp: addClause_def Let_def)
    next
      case (2 L)
      obtain c t where p: "propagate (enqueue L kNoClause s) = (c, t)" by fastforce
      have "propagation_ok (enqueue L kNoClause s)"
        by (rule enqueue_propagation_ok [OF e(1)]) (use C 2 in auto)
      from propagate_ok [OF this p] have "OutOfSpace t = OutOfSpace s" "ArenaWords t = ArenaWords s"
        by (auto simp: prop_frame_def enqueue_def Let_def)
      with a False sp root Some 2 p show ?thesis by (auto simp: addClause_def Let_def split: if_splits)
    next
      case (3 x y D)
      have "allocClause C False s = (ArenaWords s, s\<lparr>ArenaWords := ArenaWords s + (kHeaderWords + length C),
          Arena := (Arena s)(ArenaWords s \<mapsto> initialize C False)\<rparr>)"
        using room len by (auto simp: allocClause_def Let_def)
      moreover have "ArenaWords s \<noteq> kNoClause"
        using room by (auto simp: kMaxArenaWords_def kHeaderWords_def kNoClause_def)
      ultimately show ?thesis using a False sp root Some 3 len
        by (auto simp: addClause_def Let_def attachClause_def pushWatch_def)
    qed
  qed
qed

definition clauseCost :: "SatLit list list \<Rightarrow> nat" where
  "clauseCost Cs = sum_list (map (\<lambda>C. kHeaderWords + length C) Cs)"

lemma addAll_words:
  assumes "engine_ok s" "\<not> OutOfSpace s" "ArenaWords s + clauseCost Cs \<le> kMaxArenaWords"
  shows "\<not> OutOfSpace (addAll Cs s) \<and> ArenaWords (addAll Cs s) \<le> ArenaWords s + clauseCost Cs"
  using assms
proof (induction Cs arbitrary: s)
  case (Cons C Cs)
  obtain b t where t: "addClause C s = (b, t)" by fastforce
  have c: "clauseCost (C # Cs) = (kHeaderWords + length C) + clauseCost Cs" by (simp add: clauseCost_def)
  have w: "\<not> OutOfSpace t \<and> ArenaWords t \<le> ArenaWords s + (kHeaderWords + length C)"
    using addClause_words [OF Cons.prems(1) t Cons.prems(2)] Cons.prems(3) c by simp
  have "engine_ok t" using engine.add_ok [OF Cons.prems(1) t] by simp
  from Cons.IH [OF this] w c Cons.prems(3) have
    "\<not> OutOfSpace (addAll Cs t) \<and> ArenaWords (addAll Cs t) \<le> ArenaWords t + clauseCost Cs" by simp
  moreover have "addAll (C # Cs) s = addAll Cs t" by (simp add: addAll_def t)
  ultimately show ?case using w c by simp
qed (simp add: addAll_def clauseCost_def)

lemma emitClauses_cost:
  assumes "length Ins \<le> 3" "arity_ok (GKind G) (length Ins)"
  shows "clauseCost (emitClauses G Ins M) \<le> 56"
proof -
  have x: "clauseCost (xorClauses Ins Out) \<le> 56" for Out
  proof -
    have "map (\<lambda>C. kHeaderWords + length C) (xorClauses Ins Out) = replicate (2 ^ length Ins) (4 + length Ins)"
      by (rule nth_equalityI) (simp_all add: xorClauses_def xorClause_def kHeaderWords_def)
    then have "clauseCost (xorClauses Ins Out) = 2 ^ length Ins * (4 + length Ins)"
      by (simp add: clauseCost_def sum_list_replicate)
    also have "\<dots> \<le> 2 ^ 3 * (4 + 3)" using assms(1) by (intro mult_le_mono power_increasing) auto
    finally show ?thesis by simp
  qed
  have a: "clauseCost (andClauses Ins Out True) \<le> 15" "clauseCost (andClauses Ins Out False) \<le> 7" for Out
    using assms(1) by (simp_all add: clauseCost_def andClauses_def kHeaderWords_def o_def sum_list_const_mult
      sum_list_triv)
  have i: "clauseCost (iteClauses Ins Out b) = 18" "clauseCost (majorityClauses Ins Out b) = 18" for Out b
    by (simp_all add: clauseCost_def iteClauses_def majorityClauses_def kHeaderWords_def Let_def)
  have ap: "clauseCost (A @ B) = clauseCost A + clauseCost B" "clauseCost [] = 0" for A B
    by (simp_all add: clauseCost_def)
  show ?thesis
  proof (cases "GKind G")
    case GAnd
    with a [of "GOut G"] show ?thesis by (simp add: emitClauses_def halfClauses_def ap)
  next
    case GXor
    with x [of "GOut G"] show ?thesis by (simp add: emitClauses_def halfClauses_def ap)
  qed (simp_all add: emitClauses_def halfClauses_def ap i)
qed

section \<open>Room for gates\<close>

definition room :: "nat \<Rightarrow> CnfEncoder \<Rightarrow> bool" where
  "room n e \<longleftrightarrow> \<not> OutOfSpace (Solver e) \<and> ArenaWords (Solver e) + 56 * n \<le> kMaxArenaWords \<and>
     nv e + n \<le> unat kMaxSatVar \<and> length (OperandPool e) + 3 * n < 2 ^ 32"

lemma room_not_full: "room n e \<Longrightarrow> \<not> enc_full e"
  by (auto simp: room_def enc_full_def exhausted_def nv_def)

lemma room_mono: "room n e \<Longrightarrow> k \<le> n \<Longrightarrow> room k e"
  unfolding room_def by (auto intro: order_trans [rotated] order_le_less_trans [rotated])

lemma emit_words:
  assumes i: "i < length (Gates e)" and ok: "enc_ok e"
    and len: "length (operandsOf e (Gates e ! i)) \<le> 3"
    and sp: "\<not> OutOfSpace (Solver e)" "ArenaWords (Solver e) + 56 \<le> kMaxArenaWords"
  shows "\<not> OutOfSpace (Solver (emit i P e))"
    "ArenaWords (Solver (emit i P e)) \<le> ArenaWords (Solver e) + 56"
    "nv (emit i P e) = nv e" "OperandPool (emit i P e) = OperandPool e"
proof -
  note f = emit_fields [OF i ok, of P]
  let ?M = "wanted P AND NOT (GEmitted (Gates e ! i))"
  have ar: "arity_ok (GKind (Gates e ! i)) (length (operandsOf e (Gates e ! i)))"
    using enc_okD(5) [OF ok] i by (simp add: gate_ok_def)
  note c = emitClauses_cost [OF len ar, of ?M]
  have eng: "engine_ok (Solver e)" by (rule enc_okD(1) [OF ok])
  have "\<not> OutOfSpace (Solver (emit i P e)) \<and> ArenaWords (Solver (emit i P e)) \<le> ArenaWords (Solver e) + 56"
  proof (cases "?M = 0")
    case True
    with sp f(5) show ?thesis by simp
  next
    case False
    with addAll_words [OF eng, of "emitClauses (Gates e ! i) (operandsOf e (Gates e ! i)) ?M"] c sp f(5)
    show ?thesis by simp
  qed
  then show "\<not> OutOfSpace (Solver (emit i P e))"
    "ArenaWords (Solver (emit i P e)) \<le> ArenaWords (Solver e) + 56" by simp_all
  show "nv (emit i P e) = nv e" using addAll_engine [OF eng refl] f(5) by (simp add: nv_def)
  show "OperandPool (emit i P e) = OperandPool e" by (rule f(2))
qed

lemma room_gate:
  assumes ok: "enc_ok e" and ar: "arity_ok Kind (length Ins)" and len: "length Ins \<le> 3"
    and rng: "\<forall>L \<in> set Ins. unat (var L) < nv e" and r: "room (Suc n) e"
  shows "room n (snd (gate Kind Ins P e))"
using ok
proof (cases rule: gate_cases [where Kind = Kind and Ins = Ins and P = P])
  case (hit u i)
  have "room (Suc n) u" using r hit(2) by (simp add: room_def same_gates_def nv_def)
  with emit_words [OF hit(3,1), of P] hit(5) len have "room n (emit i P u)" by (simp add: room_def)
  with hit(6) show ?thesis by simp
next
  case (miss u D Out w)
  let ?n = "length (Gates u)"
  have u: "room (Suc n) u" "nv u = nv e" using r miss(2) by (simp_all add: room_def same_gates_def nv_def)
  obtain t where t: "freshLit u = (Out, t)" and w: "Solver w = Solver t" "OperandPool w = OperandPool t @ Ins"
    using miss(9) by (auto simp: appendGate_def split: prod.splits)
  have "OutOfSpace (Solver t) = OutOfSpace (Solver u)" "ArenaWords (Solver t) = ArenaWords (Solver u)"
    "OperandPool t = OperandPool u" "nv t \<le> Suc (nv u)"
    using t by (auto simp: freshLit_def newVar_def nv_def numVars_def Let_def split: prod.splits if_splits)
  with w u len have wr: "\<not> OutOfSpace (Solver w)" "ArenaWords (Solver w) = ArenaWords (Solver u)"
    "length (OperandPool w) \<le> length (OperandPool u) + 3" "nv w \<le> Suc (nv u)"
    by (auto simp: room_def nv_def)
  with u have nf: "\<not> enc_full w" by (auto simp: room_def enc_full_def exhausted_def nv_def)
  have rg: "\<forall>L \<in> set Ins. unat (var L) < nv u" using rng u by simp
  note ap = append_ok [OF miss(1,3-7) refl miss(8) ar rg miss(9)]
  have "operandsOf w (Gates w ! ?n) = Ins" using ap(3) [OF nf] by blast
  then have ww: "enc_ok w" "?n < length (Gates w)" "length (operandsOf w (Gates w ! ?n)) \<le> 3"
    using ap(2) ap(3) [OF nf] len by simp_all
  have "room n (emit ?n P w)"
    using emit_words [OF ww(2,1,3), of P] wr u by (simp add: room_def)
  with miss(10) show ?thesis by simp
qed

text \<open>What a builder of bounded fan-in does to the encoder: nothing, or one gate.\<close>

definition one_gate :: "CnfEncoder \<Rightarrow> CnfEncoder \<Rightarrow> bool" where
  "one_gate e e' \<longleftrightarrow> e' = e \<or> (\<exists>Kind Ins P. arity_ok Kind (length Ins) \<and> length Ins \<le> 3 \<and>
     (\<forall>L \<in> set Ins. unat (var L) < nv e) \<and> e' = snd (gate Kind Ins P e))"

lemma room_one_gate: "enc_ok e \<Longrightarrow> one_gate e e' \<Longrightarrow> room (Suc n) e \<Longrightarrow> room n e'"
  unfolding one_gate_def using room_gate room_mono [of "Suc n" e n] by auto

lemma one_gate_refl [simp]: "one_gate e e"
  by (simp add: one_gate_def)

lemma one_gateI:
  "arity_ok Kind (length Ins) \<Longrightarrow> length Ins \<le> 3 \<Longrightarrow> \<forall>L \<in> set Ins. unat (var L) < nv e \<Longrightarrow>
     one_gate e (snd (gate Kind Ins P e))"
  by (auto simp: one_gate_def)

lemma andTerms_length: "andTerms e Prev Ls = Some C \<Longrightarrow> length C \<le> length Ls"
  by (induction e Prev Ls arbitrary: C rule: andTerms.induct) (fastforce split: if_splits)+

lemma length_sortGateInputs [simp]: "length (sortGateInputs Ls) = length Ls"
  by (rule mset_eq_length) (rule sortGateInputs_mset)

lemma one_gate_mkAnd:
  assumes "\<forall>L \<in> set Ins. unat (var L) < nv e" "length Ins \<le> 3"
  shows "one_gate e (snd (mkAnd Ins P e))"
proof (cases "andTerms e noLit (sortGateInputs Ins)")
  case (Some C)
  with andTerms_subset [OF Some] andTerms_length [OF Some] assms
  have "length C \<le> 3" "\<forall>L \<in> set C. unat (var L) < nv e" by auto
  then have "one_gate e (snd (gate GAnd C P e))" by (intro one_gateI) (simp_all add: arity_ok_def)
  with Some show ?thesis by (auto simp: mkAnd_def split: list.split)
qed (simp add: mkAnd_def)

lemma one_gate_mkOr:
  assumes "\<forall>L \<in> set Ins. unat (var L) < nv e" "length Ins \<le> 3"
  shows "one_gate e (snd (mkOr Ins P e))"
  using one_gate_mkAnd [of "map negl Ins" e "flip P"] assms by (simp add: mkOr_def)

lemma one_gate_pair:
  assumes "unat (var A) < nv e" "unat (var B) < nv e"
  shows "one_gate e (snd (mkAnd2 A B e))" "one_gate e (snd (mkOr2 A B e))" "one_gate e (snd (mkXor2 A B e))"
    "one_gate e (snd (mkEquiv A B e))"
proof -
  show "one_gate e (snd (mkAnd2 A B e))" "one_gate e (snd (mkOr2 A B e))"
    using assms by (simp_all add: mkAnd2_def mkOr2_def one_gate_mkAnd one_gate_mkOr)
  have "one_gate e (snd (gate GXor [positive (var X), positive (var Y)] Both e))"
    if "unat (var X) < nv e" "unat (var Y) < nv e" for X Y
    using that by (intro one_gateI) (auto simp: arity_ok_def positive_def var_mk [OF unat_var_less])
  with assms show "one_gate e (snd (mkXor2 A B e))" by (simp add: mkXor2_def Let_def)
  then show "one_gate e (snd (mkEquiv A B e))" by (simp add: mkEquiv_def)
qed

lemma one_gate_mkXor3:
  assumes ok: "enc_ok e" and r: "unat (var A) < nv e" "unat (var B) < nv e" "unat (var C) < nv e"
  shows "one_gate e (snd (mkXor [A, B, C] e))"
proof -
  obtain K Ts where t: "xorTerms e [A, B, C] = (K, Ts)" by fastforce
  have l: "length Ts \<le> 3" using t by (auto split: prod.splits if_splits)
  have c: "length (cancelPairs Ls) \<le> length Ls" for Ls by (induction Ls rule: cancelPairs.induct) auto
  let ?T = "cancelPairs (sortGateInputs Ts)"
  have T: "length ?T \<le> 3" using c [of "sortGateInputs Ts"] l by simp
  have "var ` set ?T \<subseteq> var ` set [A, B, C]"
    using xorTerms_spec(1) [OF ok t] cancelPairs_subset [of "sortGateInputs Ts"] by auto
  with r have "\<forall>L \<in> set ?T. unat (var L) < nv e" by fastforce
  with T have "one_gate e (snd (gate GXor ?T Both e))" by (intro one_gateI) (simp_all add: arity_ok_def)
  moreover have "mkXor [A, B, C] e = (case ?T of [] \<Rightarrow> (constantLit e K, e) | [L] \<Rightarrow> (withPolarity L (\<not> K), e)
      | L # Ls \<Rightarrow> (case gate GXor ?T Both e of (Out, e) \<Rightarrow> (withPolarity Out (\<not> K), e)))"
    using T by (simp add: mkXor_def t kCnfEncoderMaxXorFanIn_def del: xorTerms.simps xorChain.simps split: list.split)
      auto
  ultimately show ?thesis by (auto split: list.split)
qed

lemma one_gate_mkIte:
  assumes "unat (var C) < nv e" "unat (var T) < nv e" "unat (var E) < nv e"
  shows "one_gate e (snd (mkIte C T E e))"
proof -
  have "one_gate e (snd (gate GIte [X, Y, Z] Both e))"
    if "unat (var X) < nv e" "unat (var Y) < nv e" "unat (var Z) < nv e" for X Y Z
    using that by (intro one_gateI) (auto simp: arity_ok_def)
  with assms show ?thesis by (simp add: mkIte_def one_gate_pair Let_def case_prod_beta)
qed

lemma one_gate_mkMajority:
  assumes "unat (var A) < nv e" "unat (var B) < nv e" "unat (var C) < nv e"
  shows "one_gate e (snd (mkMajority A B C e))"
proof -
  have "one_gate e (snd (gate GMajority (sortGateInputs [A, B, C]) Both e))"
    using assms by (intro one_gateI) (auto simp: arity_ok_def)
  with assms show ?thesis by (simp add: mkMajority_def one_gate_pair)
qed

lemma newEncoder_room:
  assumes ok: "engine_ok s" and sp: "\<not> OutOfSpace s" "ArenaWords s + 4 + 56 * n \<le> kMaxArenaWords"
    "numVars s + 1 + n \<le> unat kMaxSatVar" "3 * n < 2 ^ 32"
  shows "room n (newEncoder s)"
proof -
  obtain V t where t: "newVar False s = (V, t)" by fastforce
  obtain b u where u: "addClause [positive V] t = (b, u)" by fastforce
  have tt: "engine_ok t" "\<not> OutOfSpace t" "ArenaWords t = ArenaWords s" "numVars t \<le> Suc (numVars s)"
    using engine.fresh_ok [OF ok t] t sp by (auto simp: newVar_def numVars_def Let_def split: if_splits)
  have "\<not> OutOfSpace u \<and> ArenaWords u \<le> ArenaWords t + 4"
    using addClause_words [OF tt(1) u tt(2)] tt(3) sp(2) by (simp add: kHeaderWords_def)
  moreover have "numVars u = numVars t" using engine.add_ok [OF tt(1) u] by simp
  ultimately show ?thesis using tt sp by (simp add: room_def newEncoder_def t u nv_def)
qed

section \<open>What the encoder promises\<close>

definition two_inputs :: CnfEncoder where
  "two_inputs = newEncoder two_vars"

lemma two_inputs_room: "n \<le> 1000 \<Longrightarrow> room n two_inputs"
  unfolding two_inputs_def
  by (rule newEncoder_room [OF two_vars_ok(1)])
    (simp_all add: two_vars_fields kMaxArenaWords_def kNoClause_def unat_kMaxSatVar)

lemma two_inputs_ok: "enc_ok two_inputs" "enc_total two_inputs" "nv two_inputs = 3"
proof -
  have "\<not> exhausted (Solver (newEncoder two_vars))"
    using room_not_full [OF two_inputs_room [of 0]] by (simp add: enc_full_def two_inputs_def)
  from newEncoder_ok [OF two_vars_ok(1) this] show "enc_ok two_inputs" "enc_total two_inputs" "nv two_inputs = 3"
    by (simp_all add: two_inputs_def two_vars_fields)
qed

lemma two_inputs_nv [simp]: "nv two_inputs = 3"
  by (rule two_inputs_ok(3))

lemma halves_hold_wanted:
  "halves_hold (wanted P) a b \<longleftrightarrow> (P \<noteq> Negative \<longrightarrow> a \<longrightarrow> b) \<and> (P \<noteq> Positive \<longrightarrow> b \<longrightarrow> a)"
  by (cases P) (auto simp: halves_hold_def wanted_def kPositiveEmitted_def kNegativeEmitted_def)

text \<open>
  The literal of a conjunction implies every operand when its positive half was asked for and
  is implied by them when its negative half was, in every model of the clauses emitted so far,
  whichever operands were folded, sorted or found in the table.\<close>

lemma and_gate_halves:
  assumes "enc_ok e" "\<forall>L \<in> set Ins. unat (var L) < nv e" "mkAnd Ins P e = (Out, e')" "\<not> enc_full e'"
  shows "enc_ok e' \<and> mods e' \<subseteq> mods e \<and> unat (var Out) < nv e' \<and>
    (\<forall>m \<in> mods e'. (P \<noteq> Negative \<longrightarrow> lit_true m Out \<longrightarrow> (\<forall>L \<in> set Ins. lit_true m L)) \<and>
       (P \<noteq> Positive \<longrightarrow> (\<forall>L \<in> set Ins. lit_true m L) \<longrightarrow> lit_true m Out))"
  using mkAnd_defines [OF assms(1,2), of P] assms(4)
  unfolding defines_lit_def assms(3) prod.case enc_step_def halves_hold_wanted by blast

text \<open>
  C29.  An exclusive or of any number of operands has exactly their parity in every model, through
  constants, repeated and complemented operands, and the chain of two-input gates it is split into
  beyond the fan-in limit.\<close>

theorem xor_gate_parity:
  assumes "enc_ok e" "\<forall>L \<in> set Ins. unat (var L) < nv e" "mkXor Ins e = (Out, e')" "\<not> enc_full e'"
  shows "enc_ok e' \<and> mods e' \<subseteq> mods e \<and> unat (var Out) < nv e' \<and>
    (\<forall>m \<in> mods e'. lit_true m Out \<longleftrightarrow> odd (length (filter (lit_true m) Ins)))"
proof -
  have "parity (map f Ls) = odd (length (filter f Ls))" for f :: "SatLit \<Rightarrow> bool" and Ls
    by (induction Ls) auto
  with defines_computes [OF _ assms(4)] mkXor_computes [OF assms(1,2)] assms(3)
  show ?thesis by (simp add: computes_def good_def)
qed

theorem xor_gate_parity_witness:
  "mods (snd (mkXor [positive 0, negl (positive 1), positive 2] two_inputs)) \<subseteq> {m. lit_true m (fst (mkXor [positive 0, negl (positive 1), positive 2] two_inputs)) \<longleftrightarrow>
     odd (length (filter (lit_true m) [positive 0, negl (positive 1), positive 2]))}"
proof -
  let ?L = "[positive 0, negl (positive 1), positive 2]"
  have v: "unat (var (positive 2)) < nv two_inputs" by simp
  have "room 0 (snd (mkXor ?L two_inputs))"
    by (rule room_one_gate [OF two_inputs_ok(1) one_gate_mkXor3 two_inputs_room])
      (use v in \<open>simp_all add: two_inputs_ok(1)\<close>)
  from xor_gate_parity [OF two_inputs_ok(1) _ prod.collapse [symmetric] room_not_full [OF this]] v
  show ?thesis by auto
qed

text \<open>
  The multiplexer's literal is worth what the chosen operand is worth in every model.\<close>

lemma ite_gate_selects:
  assumes "enc_ok e" "unat (var C) < nv e" "unat (var T) < nv e" "unat (var E) < nv e"
    "mkIte C T E e = (Out, e')" "\<not> enc_full e'"
  shows "enc_ok e' \<and> mods e' \<subseteq> mods e \<and> unat (var Out) < nv e' \<and>
    (\<forall>m \<in> mods e'. lit_true m Out = lit_true m (if lit_true m C then T else E))"
  using defines_computes [OF _ assms(6)] mkIte_computes [OF assms(1-4)] assms(5)
  by (auto simp: computes_def good_def)

lemma room_mkFullAdder:
  assumes ok: "enc_ok e" and r: "unat (var A) < nv e" "unat (var B) < nv e" "unat (var C) < nv e"
    and room: "room (n + 2) e"
  shows "room n (snd (mkFullAdder A B C e))"
proof -
  obtain S u where u: "mkXor [A, B, C] e = (S, u)" by fastforce
  have ru: "room (Suc n) u"
    using room_one_gate [OF ok one_gate_mkXor3 [OF ok r], of "Suc n"] room u by simp
  have "defines_lit Both e (S, u) (\<lambda>m. parity (map (lit_true m) [A, B, C]))"
    using mkXor_computes [OF ok, of "[A, B, C]"] r u by simp
  from defines_computes [OF this room_not_full [OF ru]] have g: "enc_ok u" "nv e \<le> nv u"
    by (simp_all add: computes_def good_def)
  have "room n (snd (mkMajority A B C u))"
    by (rule room_one_gate [OF g(1) one_gate_mkMajority ru]) (use r g in auto)
  then show ?thesis by (simp add: mkFullAdder_def u case_prod_beta)
qed

definition gates_kept :: "CnfEncoder \<Rightarrow> CnfEncoder \<Rightarrow> bool" where
  "gates_kept e e' \<longleftrightarrow>
     (\<forall>G \<in> set (Gates e). \<exists>G' \<in> set (Gates e'). gateKey e' G' = gateKey e G \<and> GOut G' = GOut G)"

lemma gates_kept_refl: "gates_kept e e"
  by (auto simp: gates_kept_def)

lemma gates_kept_trans: "gates_kept e e' \<Longrightarrow> gates_kept e' e'' \<Longrightarrow> gates_kept e e''"
  unfolding gates_kept_def by metis

lemma gates_kept_same: "Gates e' = Gates e \<Longrightarrow> OperandPool e' = OperandPool e \<Longrightarrow> gates_kept e e'"
  by (auto simp: gates_kept_def gateKey_def operandsOf_def)

lemma gates_kept_emit:
  assumes "i < length (Gates e)" "enc_ok e"
  shows "gates_kept e (emit i P e)"
  unfolding gates_kept_def
proof
  fix G
  assume "G \<in> set (Gates e)"
  then obtain j where j: "j < length (Gates e)" "Gates e ! j = G" by (auto simp: in_set_conv_nth)
  let ?G = "Gates (emit i P e) ! j"
  have "?G \<in> set (Gates (emit i P e))" using j(1) by (simp add: emit_fields(1) [OF assms])
  moreover have "GKind ?G = GKind G" "GOut ?G = GOut G" "operandsOf (emit i P e) ?G = operandsOf e G"
    using j assms(1) by (auto simp: emit_fields(1,2) [OF assms] nth_list_update operandsOf_def)
  ultimately show "\<exists>G' \<in> set (Gates (emit i P e)). gateKey (emit i P e) G' = gateKey e G \<and> GOut G' = GOut G"
    unfolding gateKey_def by metis
qed

lemma gates_kept_append:
  assumes "enc_ok e"
  shows "gates_kept e (snd (appendGate h Kind Ins j e))"
proof -
  obtain Out u where f: "freshLit e = (Out, u)" by fastforce
  note fr = freshLit_ok(4,5) [OF assms f]
  have "operandsOf (snd (appendGate h Kind Ins j e)) G = operandsOf e G" if "G \<in> set (Gates e)" for G
    using enc_okD(5) [OF assms that] by (intro operandsOf_append [where xs = Ins]) (simp_all add: gate_ok_def appendGate_def f fr)
  moreover have "set (Gates e) \<subseteq> set (Gates (snd (appendGate h Kind Ins j e)))" by (auto simp: appendGate_def f fr)
  ultimately show ?thesis unfolding gates_kept_def gateKey_def by fastforce
qed

text \<open>A request keeps the gates there are, through any growth of the table.\<close>

lemma gates_kept_gate:
  assumes ok: "enc_ok e" and ar: "arity_ok Kind (length Ins)"
    and rng: "\<forall>L \<in> set Ins. unat (var L) < nv e" and nf: "\<not> enc_full (snd (gate Kind Ins P e))"
  shows "gates_kept e (snd (gate Kind Ins P e))"
using ok
proof (cases rule: gate_cases [where Kind = Kind and Ins = Ins and P = P])
  case (hit u i)
  have "gates_kept e u" using hit(2) by (intro gates_kept_same) (simp_all add: same_gates_def)
  from gates_kept_trans [OF this gates_kept_emit [OF hit(3,1)]] show ?thesis by (simp add: hit(6))
next
  case (miss u D Out w)
  have r: "\<forall>L \<in> set Ins. unat (var L) < nv u" using rng miss(2) by (simp add: nv_def same_gates_def)
  note ap = append_ok [OF miss(1,3-7) refl miss(8) ar r miss(9)]
  have "\<not> enc_full w" using nf miss(10) emit_full [OF append_basic(1) [OF miss(1,9)]] by auto
  then have w: "enc_ok w" "length (Gates u) < length (Gates w)" using ap(2,3) by simp_all
  have "gates_kept e u" using miss(2) by (intro gates_kept_same) (simp_all add: same_gates_def)
  moreover have "gates_kept u w" using gates_kept_append [OF miss(1)] miss(9) by (metis snd_conv)
  ultimately show ?thesis using gates_kept_emit [OF w(2,1)] by (simp add: miss(10)) (metis gates_kept_trans)
qed

text \<open>What may happen to an encoder: requests for gates, fresh literals and clauses over known variables.\<close>

inductive encoded :: "CnfEncoder \<Rightarrow> CnfEncoder \<Rightarrow> bool" where
  encoded_refl: "encoded e e"
| encoded_gate: "encoded e e' \<Longrightarrow> arity_ok Kind (length Ins) \<Longrightarrow> \<forall>L \<in> set Ins. unat (var L) < nv e' \<Longrightarrow>
    encoded e (snd (gate Kind Ins P e'))"
| encoded_fresh: "encoded e e' \<Longrightarrow> encoded e (snd (freshLit e'))"
| encoded_clause: "encoded e e' \<Longrightarrow> \<forall>L \<in> set C. unat (var L) < nv e' \<Longrightarrow>
    encoded e (e'\<lparr>Solver := snd (addClause C (Solver e'))\<rparr>)"

lemma enc_ok_engine:
  assumes ok: "enc_ok e" and t: "engine_ok t" "nv e \<le> numVars t" "root_models t \<subseteq> mods e"
  shows "enc_ok (e\<lparr>Solver := t\<rparr>)"
proof -
  let ?e = "e\<lparr>Solver := t\<rparr>"
  have f: "nv e \<le> nv ?e" "mods ?e \<subseteq> mods e" using t by (simp_all add: nv_def mods_def)
  have ops: "operandsOf ?e G = operandsOf e G" for G by (simp add: operandsOf_def)
  have "gate_ok ?e G" if "gate_ok e G" for G using gate_ok_grow [OF that _ f] by simp
  moreover have "gateKey ?e = gateKey e" by (simp add: fun_eq_iff gateKey_def ops)
  moreover have "table_ok ?e = table_ok e" by (simp add: table_ok_def ops)
  ultimately show ?thesis using ok f t(1) by (auto simp: enc_ok_def)
qed

lemma encoded_mono: "encoded e e' \<Longrightarrow> enc_mono e e'"
proof (induction rule: encoded.induct)
  case (encoded_clause e e' C)
  have "enc_mono e' (e'\<lparr>Solver := snd (addClause C (Solver e'))\<rparr>)"
    using engine.add_ok [of "Solver e'" C, OF _ prod.collapse [symmetric]] grown_clause [OF grown_refl, of "Solver e'" C]
    by (auto simp: enc_mono_def enc_full_def)
  with encoded_clause show ?case using enc_mono_trans by blast
qed (auto intro: enc_mono_trans enc_mono_gate enc_mono_freshLit)

lemma encoded_engine: "encoded e e' \<Longrightarrow> enc_ok e \<Longrightarrow> engine_ok (Solver e')"
  using encoded_mono enc_okD(1) by (simp add: enc_mono_def)

lemma encoded_keeps:
  assumes "encoded e e'" "enc_ok e" "\<not> enc_full e'"
  shows "enc_ok e' \<and> gates_kept e e'"
  using assms
proof (induction rule: encoded.induct)
  case (encoded_refl e)
  then show ?case by (simp add: gates_kept_refl)
next
  case (encoded_gate e e' Kind Ins P)
  have eng: "engine_ok (Solver e')" by (rule encoded_engine [OF encoded_gate(1,5)])
  from enc_mono_not_full [OF enc_mono_gate eng encoded_gate(6)] encoded_gate(4,5)
  have e': "enc_ok e'" "gates_kept e e'" by simp_all
  moreover have "enc_ok (snd (gate Kind Ins P e'))"
    using gate_defines [OF e'(1) encoded_gate(2,3), of P] encoded_gate(6) by (auto simp: defines_lit_def enc_step_def)
  ultimately show ?case using gates_kept_trans gates_kept_gate [OF e'(1) encoded_gate(2,3,6)] by blast
next
  case (encoded_fresh e e')
  have eng: "engine_ok (Solver e')" by (rule encoded_engine [OF encoded_fresh(1,3)])
  from enc_mono_not_full [OF enc_mono_freshLit eng encoded_fresh(4)] encoded_fresh(2,3)
  have e': "enc_ok e'" "gates_kept e e'" by simp_all
  obtain Out u where u: "freshLit e' = (Out, u)" by fastforce
  note f = freshLit_ok [OF e'(1) u]
  have nf: "\<not> enc_full u" using encoded_fresh(4) u by simp
  have u': "u = e'\<lparr>Solver := Solver u\<rparr>" using u by (auto simp: freshLit_def split: prod.splits)
  have "enc_ok (e'\<lparr>Solver := Solver u\<rparr>)"
    by (rule enc_ok_engine [OF e'(1) f(1)]) (use f(3) [OF nf] in \<open>simp_all add: nv_def mods_def\<close>)
  then have "enc_ok u" using u' by simp
  moreover have "gates_kept e' u" by (rule gates_kept_same [OF f(4,5)])
  ultimately show ?case using e'(2) gates_kept_trans u by auto
next
  case (encoded_clause e e' C)
  have eng: "engine_ok (Solver e')" by (rule encoded_engine [OF encoded_clause(1,4)])
  obtain b t where a: "addClause C (Solver e') = (b, t)" by fastforce
  note k = engine.add_ok [OF eng a]
  have nf: "\<not> exhausted t" "\<not> enc_full e'" using encoded_clause(5) k a by (auto simp: enc_full_def)
  with encoded_clause(3,4) have e': "enc_ok e'" "gates_kept e e'" by simp_all
  have "enc_ok (e'\<lparr>Solver := t\<rparr>)"
    by (rule enc_ok_engine [OF e'(1)]) (use k nf encoded_clause(2) in \<open>auto simp: nv_def mods_def\<close>)
  moreover have "gates_kept e' (e'\<lparr>Solver := t\<rparr>)" by (rule gates_kept_same) simp_all
  ultimately show ?case using e'(2) gates_kept_trans a by auto
qed

text \<open>
  C30.  A gate is built once.  However many gates, fresh literals and clauses follow a request, and
  however often the table grows meanwhile, a later request for the same gate, in whatever half,
  hands out the same literal and adds no gate.\<close>

theorem gate_shared_once:
  assumes "enc_ok e" "arity_ok Kind (length Ins)" "\<forall>L \<in> set Ins. unat (var L) < nv e"
    "gate Kind Ins P e = (Out, e')" "encoded e' e''" "\<not> enc_full e''"
  shows "fst (gate Kind Ins Q e'') = Out \<and> numGates (snd (gate Kind Ins Q e'')) = numGates e''"
proof -
  have "engine_ok (Solver e')" using enc_mono_gate [of e Kind Ins P] enc_okD(1) [OF assms(1)] assms(4) by (simp add: enc_mono_def)
  then have nf: "\<not> enc_full e'" using enc_mono_not_full [OF encoded_mono [OF assms(5)]] assms(6) by blast
  from gate_entry [OF assms(1-3), of P] assms(4) nf
  obtain G where G: "G \<in> set (Gates e')" "gateKey e' G = (Kind, Ins)" "GOut G = Out" by auto
  have "enc_ok e'" using gate_defines [OF assms(1-3), of P] assms(4) nf by (simp add: defines_lit_def enc_step_def)
  from encoded_keeps [OF assms(5) this assms(6)] have e'': "enc_ok e''" "gates_kept e' e''" by simp_all
  then obtain G' where "G' \<in> set (Gates e'')" "gateKey e'' G' = (Kind, Ins)" "GOut G' = Out"
    using G unfolding gates_kept_def by metis
  from gate_shared [OF e''(1) this(1,2)] this(3) show ?thesis by (simp add: numGates_def)
qed

lemma two_inputs_and:
  defines "e \<equiv> snd (gate GAnd [positive 0, positive 1] Positive two_inputs)"
  shows "room 1 e" "enc_ok e" "3 \<le> nv e"
proof -
  show r: "room 1 e" unfolding e_def by (rule room_gate [OF two_inputs_ok(1) _ _ _ two_inputs_room]) (simp_all add: arity_ok_def)
  show "enc_ok e" "3 \<le> nv e"
    using gate_defines [OF two_inputs_ok(1), of GAnd "[positive 0, positive 1]" Positive] room_not_full [OF r]
    unfolding e_def by (auto simp: arity_ok_def defines_lit_def enc_step_def)
qed

theorem gate_shared_once_witness:
  "fst (gate GAnd [positive 0, positive 1] Negative (snd (gate GXor [positive 0, positive 1] Both
     (snd (gate GAnd [positive 0, positive 1] Positive two_inputs))))) =
   fst (gate GAnd [positive 0, positive 1] Positive two_inputs)" (is "fst (gate _ _ _ (snd (gate _ _ _ ?e))) = _")
proof -
  have "\<forall>L \<in> set [positive 0, positive 1]. unat (var L) < nv ?e" using two_inputs_and(3) by simp
  moreover have "arity_ok GXor (length [positive 0, positive 1])" by (simp add: arity_ok_def)
  ultimately have "encoded ?e (snd (gate GXor [positive 0, positive 1] Both ?e))"
      "room 0 (snd (gate GXor [positive 0, positive 1] Both ?e))"
    using two_inputs_and(1) by (auto intro!: encoded_gate encoded_refl room_gate [OF two_inputs_and(2)])
  from gate_shared_once [OF two_inputs_ok(1) _ _ prod.collapse [symmetric] this(1) room_not_full [OF this(2)]]
  show ?thesis by (simp add: arity_ok_def)
qed

text \<open>
  C31.  Definitions lose nothing: when gates are defined in both halves, every model of the formula
  before the request extends, on the new variables only, to a model after it.\<close>

theorem gate_conservative:
  assumes "enc_ok e" "enc_total e" "arity_ok Kind (length Ins)" "\<forall>L \<in> set Ins. unat (var L) < nv e"
    "gate Kind Ins Both e = (Out, e')" "\<not> enc_full e'" "m \<in> mods e"
  shows "enc_total e' \<and> (\<exists>m' \<in> mods e'. \<forall>v. unat v < nv e \<longrightarrow> m' v = m v)"
proof -
  have "total_step e e'" using gate_defines [OF assms(1,3,4), of Both] assms(5) by (simp add: defines_lit_def)
  with assms(2,6) have "enc_total e'" "conservative e e'" by (simp_all add: total_step_def)
  moreover from this(2) assms(7) obtain m' where "m' \<in> mods e'" "agree (nv e) m m'"
    unfolding conservative_def by blast
  ultimately show ?thesis by (metis agree_def)
qed

lemma two_inputs_mods: "\<exists>m. m \<in> mods two_inputs"
proof -
  have "(\<lambda>_. True) \<in> mods two_inputs"
    using newEncoder_ok [OF two_vars_ok(1)] room_not_full [OF two_inputs_room [of 0]] two_vars_ok(2)
    by (simp add: two_inputs_def enc_full_def newEncoder_def case_prod_beta lit_true_def positive_def)
  then show ?thesis by blast
qed

theorem gate_conservative_witness:
  "\<exists>m'. m' \<in> mods (snd (gate GXor [positive 0, positive 1] Both two_inputs))"
proof -
  have "room 0 (snd (gate GXor [positive 0, positive 1] Both two_inputs))"
    by (rule room_gate [OF two_inputs_ok(1) _ _ _ two_inputs_room]) (simp_all add: arity_ok_def)
  from gate_conservative [OF two_inputs_ok(1,2) _ _ prod.collapse [symmetric] room_not_full [OF this]]
    two_inputs_mods show ?thesis by (auto simp: arity_ok_def)
qed

text \<open>
  An encoder with room for one more gate cannot run out while it encodes one of up to three
  operands, hit or miss.\<close>

lemma gate_within_room:
  assumes "enc_ok e" "arity_ok Kind (length Ins)" "length Ins \<le> 3" "\<forall>L \<in> set Ins. unat (var L) < nv e"
    "room (Suc n) e"
  shows "\<not> enc_full (snd (gate Kind Ins P e)) \<and> room n (snd (gate Kind Ins P e))"
  using room_gate [OF assms, of P] room_not_full by blast

end
