(* ===== verification/Bit_Circuits.thy ===== *)
theory Bit_Circuits
  imports Cnf_Builders
begin

text \<open>
  The circuits over literal vectors (\<open>lib/solver/bv/BitBlastDetail.h\<close>, \<open>BitBlastArith.cpp\<close>,
  \<open>BitBlastShift.cpp\<close>).  A vector is a list of literals, least significant first, and every
  circuit threads the encoder through its gates in the order the code builds them.  Loops over the
  bits are recursions over the vectors; where the code reuses an output vector the model returns it.
  A null output pointer is a missing request: \<open>addBits\<close> takes whether the carry is wanted.
  Shift distances and residues stay below twice the width of a vector, so they are natural numbers.
\<close>

type_synonym LitVec = "SatLit list"

section \<open>Selection\<close>

fun selectBits :: "SatLit \<Rightarrow> LitVec \<Rightarrow> LitVec \<Rightarrow> CnfEncoder \<Rightarrow> LitVec \<times> CnfEncoder" where
  "selectBits Cond (T # Then) (E # Else) e =
     (case mkIte Cond T E e of (L, e) \<Rightarrow>
        case selectBits Cond Then Else e of (Out, e) \<Rightarrow> (L # Out, e))"
| "selectBits Cond Then Else e = ([], e)"

section \<open>Addition\<close>

definition repeatedPair :: "(SatLit \<times> SatLit) option \<Rightarrow> SatLit \<Rightarrow> SatLit \<Rightarrow> bool" where
  "repeatedPair Prev A B \<longleftrightarrow> Prev = Some (A, B) \<or> Prev = Some (B, A)"

fun addLoop :: "bool \<Rightarrow> (SatLit \<times> SatLit) option \<Rightarrow> LitVec \<Rightarrow> LitVec \<Rightarrow> SatLit \<Rightarrow> CnfEncoder \<Rightarrow>
    (LitVec \<times> SatLit) \<times> CnfEncoder" where
  "addLoop Want Prev (A # As) (B # Bs) Carry e =
     (if repeatedPair Prev A B then
        case mkXor [A, B, Carry] e of (S, e) \<Rightarrow>
          case addLoop Want (Some (A, B)) As Bs Carry e of ((Out, C), e) \<Rightarrow> ((S # Out, C), e)
      else if As = [] \<and> \<not> Want then
        case mkXor [A, B, Carry] e of (S, e) \<Rightarrow> (([S], Carry), e)
      else
        case mkFullAdder A B Carry e of ((S, Next), e) \<Rightarrow>
          case addLoop Want (Some (A, B)) As Bs Next e of ((Out, C), e) \<Rightarrow> ((S # Out, C), e))"
| "addLoop Want Prev As Bs Carry e = (([], Carry), e)"

definition addBits :: "LitVec \<Rightarrow> LitVec \<Rightarrow> SatLit \<Rightarrow> CnfEncoder \<Rightarrow> LitVec \<times> CnfEncoder" where
  "addBits A B CarryIn e = (case addLoop False None A B CarryIn e of ((Out, _), e) \<Rightarrow> (Out, e))"

definition addBitsCarry ::
    "LitVec \<Rightarrow> LitVec \<Rightarrow> SatLit \<Rightarrow> CnfEncoder \<Rightarrow> (LitVec \<times> SatLit) \<times> CnfEncoder" where
  "addBitsCarry A B CarryIn e = addLoop True None A B CarryIn e"

fun negateLoop :: "SatLit \<Rightarrow> LitVec \<Rightarrow> CnfEncoder \<Rightarrow> LitVec \<times> CnfEncoder" where
  "negateLoop Carry [] e = ([], e)"
| "negateLoop Carry (A # As) e =
     (let Bit = negl A in
      case mkXor2 Bit Carry e of (L, e) \<Rightarrow>
        case (if As \<noteq> [] then mkAnd2 Bit Carry e else (Carry, e)) of (Carry, e) \<Rightarrow>
          case negateLoop Carry As e of (Out, e) \<Rightarrow> (L # Out, e))"

definition negateBits :: "LitVec \<Rightarrow> CnfEncoder \<Rightarrow> LitVec \<times> CnfEncoder" where
  "negateBits A e = negateLoop (trueLit e) A e"

section \<open>Multiplication\<close>

definition constantPattern :: "CnfEncoder \<Rightarrow> LitVec \<Rightarrow> bool list option" where
  "constantPattern e Bits =
     (if list_all (isConstant e) Bits then Some (map (isTrueLit e) Bits) else None)"

record ProductTerm =
  Shift :: nat
  Subtract :: bool

text \<open>One run of set bits, from \<open>First\<close> on, and the terms it costs.\<close>

definition runLength :: "bool list \<Rightarrow> nat" where
  "runLength Bits = length (takeWhile id Bits)"

definition runTerms :: "nat \<Rightarrow> nat \<Rightarrow> nat \<Rightarrow> ProductTerm list" where
  "runTerms N First Len =
     (if Len \<ge> 3 then
        (if First + Len < N then [\<lparr>Shift = First + Len, Subtract = False\<rparr>] else []) @
        [\<lparr>Shift = First, Subtract = True\<rparr>]
      else map (\<lambda>Bit. \<lparr>Shift = Bit, Subtract = False\<rparr>) [First..<First + Len])"

function recodeLoop :: "nat \<Rightarrow> nat \<Rightarrow> bool list \<Rightarrow> ProductTerm list" where
  "recodeLoop N First [] = []"
| "recodeLoop N First (False # Bits) = recodeLoop N (Suc First) Bits"
| "recodeLoop N First (True # Bits) =
     (let Len = runLength (True # Bits) in
      runTerms N First Len @ recodeLoop N (First + Len) (drop Len (True # Bits)))"
  by pat_completeness auto

termination
  by (relation "measure (\<lambda>(_, _, Bits). length Bits)") (auto simp: runLength_def)

definition recodeMultiplier :: "bool list \<Rightarrow> ProductTerm list" where
  "recodeMultiplier Multiplier = recodeLoop (length Multiplier) 0 Multiplier"

definition productAddend :: "CnfEncoder \<Rightarrow> LitVec \<Rightarrow> ProductTerm \<Rightarrow> LitVec" where
  "productAddend e A Term =
     (let Fill = (if Subtract Term then trueLit e else falseLit e) in
      map (\<lambda>I. if I < Shift Term then Fill
               else if Subtract Term then negl (A ! (I - Shift Term)) else A ! (I - Shift Term))
        [0..<length A])"

fun patternLoop :: "LitVec \<Rightarrow> ProductTerm list \<Rightarrow> LitVec \<Rightarrow> CnfEncoder \<Rightarrow> LitVec \<times> CnfEncoder" where
  "patternLoop A [] Out e = (Out, e)"
| "patternLoop A (Term # Terms) Out e =
     (let Fill = (if Subtract Term then trueLit e else falseLit e) in
      case addBits Out (productAddend e A Term) Fill e of (Out, e) \<Rightarrow> patternLoop A Terms Out e)"

definition multiplyByPattern :: "LitVec \<Rightarrow> bool list \<Rightarrow> CnfEncoder \<Rightarrow> LitVec \<times> CnfEncoder" where
  "multiplyByPattern A Multiplier e =
     patternLoop A (recodeMultiplier Multiplier) (replicate (length A) (falseLit e)) e"

text \<open>One row of the long multiplication, over the window of the output from the row's offset.\<close>

fun rowLoop :: "SatLit \<Rightarrow> LitVec \<Rightarrow> LitVec \<Rightarrow> SatLit \<Rightarrow> CnfEncoder \<Rightarrow> LitVec \<times> CnfEncoder" where
  "rowLoop Multiplier (O1 # Os) (A # As) Carry e =
     (case mkAnd2 A Multiplier e of (Partial, e) \<Rightarrow>
        if Os = [] then case mkXor [O1, Partial, Carry] e of (S, e) \<Rightarrow> ([S], e)
        else
          case mkFullAdder O1 Partial Carry e of ((S, Next), e) \<Rightarrow>
            case rowLoop Multiplier Os As Next e of (Out, e) \<Rightarrow> (S # Out, e))"
| "rowLoop Multiplier Os As Carry e = ([], e)"

fun rowsLoop :: "LitVec \<Rightarrow> nat \<Rightarrow> LitVec \<Rightarrow> LitVec \<Rightarrow> CnfEncoder \<Rightarrow> LitVec \<times> CnfEncoder" where
  "rowsLoop A Row [] Out e = (Out, e)"
| "rowsLoop A Row (Multiplier # Bs) Out e =
     (if isFalseLit e Multiplier then rowsLoop A (Suc Row) Bs Out e
      else
        case rowLoop Multiplier (drop Row Out) A (falseLit e) e of (Win, e) \<Rightarrow>
          rowsLoop A (Suc Row) Bs (take Row Out @ Win) e)"

definition zeroPrefix :: "CnfEncoder \<Rightarrow> LitVec \<Rightarrow> nat" where
  "zeroPrefix e A = length (takeWhile (isFalseLit e) A)"

function multiplyBits :: "LitVec \<Rightarrow> LitVec \<Rightarrow> CnfEncoder \<Rightarrow> LitVec \<times> CnfEncoder" where
  "multiplyBits A B e =
     (let AZero = zeroPrefix e A; BZero = zeroPrefix e B; N = length A;
          Zeros = replicate N (falseLit e)
      in
      if AZero \<noteq> 0 \<or> BZero \<noteq> 0 then
        if AZero \<ge> N - BZero then (Zeros, e)
        else
          let Shift = AZero + BZero; Observed = N - Shift in
          case multiplyBits (take Observed (drop AZero A)) (take Observed (drop BZero B)) e of
            (Product, e) \<Rightarrow> (take Shift Zeros @ Product, e)
      else
        case constantPattern e B of Some Pattern \<Rightarrow> multiplyByPattern A Pattern e
        | None \<Rightarrow>
            (case constantPattern e A of Some Pattern \<Rightarrow> multiplyByPattern B Pattern e
             | None \<Rightarrow> rowsLoop A 0 B Zeros e))"
  by pat_completeness auto

termination
  by (relation "measure (\<lambda>(A, B, e). length A)") auto

declare multiplyBits.simps [simp del]

section \<open>Division\<close>

fun subtractLoop :: "LitVec \<Rightarrow> LitVec \<Rightarrow> SatLit \<Rightarrow> CnfEncoder \<Rightarrow> (LitVec \<times> SatLit) \<times> CnfEncoder" where
  "subtractLoop (S # Ss) Bs Carry e =
     (let Operand = (case Bs of B # _ \<Rightarrow> negl B | [] \<Rightarrow> trueLit e) in
      case mkFullAdder S Operand Carry e of ((D, Next), e) \<Rightarrow>
        case subtractLoop Ss (tl Bs) Next e of ((Ds, C), e) \<Rightarrow> ((D # Ds, C), e))"
| "subtractLoop [] Bs Carry e = (([], Carry), e)"

text \<open>One step of the division per bit of the dividend, from the top down.\<close>

fun divideLoop :: "LitVec \<Rightarrow> LitVec \<Rightarrow> LitVec \<Rightarrow> CnfEncoder \<Rightarrow> (LitVec \<times> LitVec) \<times> CnfEncoder" where
  "divideLoop B [] Rest e = (([], Rest), e)"
| "divideLoop B (Bit # Bits) Rest e =
     (let Shifted = Bit # butlast Rest in
      case subtractLoop Shifted B (trueLit e) e of ((Difference, Carry), e) \<Rightarrow>
        case selectBits Carry Difference Shifted e of (Rest, e) \<Rightarrow>
          case divideLoop B Bits Rest e of ((Quot, Rest), e) \<Rightarrow> ((Quot @ [Carry], Rest), e))"

definition divideBits :: "LitVec \<Rightarrow> LitVec \<Rightarrow> CnfEncoder \<Rightarrow> (LitVec \<times> LitVec) \<times> CnfEncoder" where
  "divideBits A B e =
     (case divideLoop B (rev A) (replicate (length A + 1) (falseLit e)) e of ((Quot, Rest), e) \<Rightarrow>
        ((Quot, take (length A) Rest), e))"

text \<open>Complement a value where a sign asks for it: the magnitudes and the signed remainder.\<close>

definition applySign :: "SatLit \<Rightarrow> LitVec \<Rightarrow> CnfEncoder \<Rightarrow> LitVec \<times> CnfEncoder" where
  "applySign Sign A e = (case negateBits A e of (Negated, e) \<Rightarrow> selectBits Sign Negated A e)"

definition divideSignedBits :: "bool \<Rightarrow> bool \<Rightarrow> LitVec \<Rightarrow> LitVec \<Rightarrow> CnfEncoder \<Rightarrow>
    (LitVec option \<times> LitVec option) \<times> CnfEncoder" where
  "divideSignedBits WantQuotient WantRemainder A B e =
     (let SignA = last A; SignB = last B in
      case applySign SignA A e of (MagnitudeA, e) \<Rightarrow>
      case applySign SignB B e of (MagnitudeB, e) \<Rightarrow>
      case divideBits MagnitudeA MagnitudeB e of ((UnsignedQuotient, UnsignedRemainder), e) \<Rightarrow>
      case (if WantQuotient then
              case negateBits UnsignedQuotient e of (Negated, e) \<Rightarrow>
              case mkXor2 SignA SignB e of (Sign, e) \<Rightarrow>
              case selectBits Sign Negated UnsignedQuotient e of (Q, e) \<Rightarrow> (Some Q, e)
            else (None, e)) of (Quot, e) \<Rightarrow>
      case (if WantRemainder then
              case applySign SignA UnsignedRemainder e of (R, e) \<Rightarrow> (Some R, e)
            else (None, e)) of (Rem, e) \<Rightarrow>
        ((Quot, Rem), e))"

section \<open>Comparison\<close>

fun equivLoop :: "LitVec \<Rightarrow> LitVec \<Rightarrow> CnfEncoder \<Rightarrow> LitVec \<times> CnfEncoder" where
  "equivLoop (A # As) (B # Bs) e =
     (case mkEquiv A B e of (L, e) \<Rightarrow> case equivLoop As Bs e of (Same, e) \<Rightarrow> (L # Same, e))"
| "equivLoop As Bs e = ([], e)"

definition equalBits :: "LitVec \<Rightarrow> LitVec \<Rightarrow> CnfEncoder \<Rightarrow> SatLit \<times> CnfEncoder" where
  "equalBits A B e = (case equivLoop A B e of (Same, e) \<Rightarrow> mkAnd Same Both e)"

fun carryChain :: "LitVec \<Rightarrow> LitVec \<Rightarrow> SatLit \<Rightarrow> CnfEncoder \<Rightarrow> SatLit \<times> CnfEncoder" where
  "carryChain (A # As) (B # Bs) Carry e =
     (case mkMajority A (negl B) Carry e of (Carry, e) \<Rightarrow> carryChain As Bs Carry e)"
| "carryChain As Bs Carry e = (Carry, e)"

function unsignedAtLeast :: "LitVec \<Rightarrow> LitVec \<Rightarrow> CnfEncoder \<Rightarrow> SatLit \<times> CnfEncoder" where
  "unsignedAtLeast A B e =
     (if length A > 8 then
        let LowSize = length A div 2; HighA = drop LowSize A; HighB = drop LowSize B in
        case equalBits HighA HighB e of (HighEqual, e) \<Rightarrow>
          case unsignedAtLeast HighA HighB e of (HighAtLeast, e) \<Rightarrow>
            case unsignedAtLeast (take LowSize A) (take LowSize B) e of (LowAtLeast, e) \<Rightarrow>
              mkIte HighEqual LowAtLeast HighAtLeast e
      else carryChain A B (trueLit e) e)"
  by pat_completeness auto

termination
  by (relation "measure (\<lambda>(A, B, e). length A)") auto

declare unsignedAtLeast.simps [simp del]

definition flipSign :: "LitVec \<Rightarrow> LitVec" where
  "flipSign A = A[length A - 1 := negl (last A)]"

definition lessThanBits ::
    "LitVec \<Rightarrow> LitVec \<Rightarrow> bool \<Rightarrow> bool \<Rightarrow> CnfEncoder \<Rightarrow> SatLit \<times> CnfEncoder" where
  "lessThanBits A B OrEqual Signed e =
     (let A = (if Signed then flipSign A else A); B = (if Signed then flipSign B else B) in
      if OrEqual then unsignedAtLeast B A e
      else case unsignedAtLeast A B e of (L, e) \<Rightarrow> (negl L, e))"

section \<open>Shifts and rotates\<close>

datatype ShiftKind = Left | LogicalRight | ArithmeticRight | RotateLeft | RotateRight

definition isRotate :: "ShiftKind \<Rightarrow> bool" where
  "isRotate Kind \<longleftrightarrow> Kind = RotateLeft \<or> Kind = RotateRight"

function stageLoop :: "nat \<Rightarrow> nat \<Rightarrow> nat" where
  "stageLoop Width Stages = (if 2 ^ Stages < Width then stageLoop Width (Suc Stages) else Stages)"
  by pat_completeness auto

termination
  by (relation "measure (\<lambda>(W, S). W - S)") (auto intro: diff_less_mono2 less_trans [OF less_exp])

declare stageLoop.simps [simp del]

definition stageCount :: "nat \<Rightarrow> nat" where
  "stageCount Width = stageLoop Width 0"

fun amountLoop :: "CnfEncoder \<Rightarrow> nat \<Rightarrow> nat \<Rightarrow> bool \<Rightarrow> LitVec \<Rightarrow> (nat \<times> bool) option" where
  "amountLoop e I Val Saturated [] = Some (Val, Saturated)"
| "amountLoop e I Val Saturated (L # Ls) =
     (if \<not> isConstant e L then None
      else if \<not> isTrueLit e L then amountLoop e (Suc I) Val Saturated Ls
      else if I \<ge> 64 then amountLoop e (Suc I) Val True Ls
      else amountLoop e (Suc I) (Val OR push_bit I 1) Saturated Ls)"

definition constantAmount :: "CnfEncoder \<Rightarrow> LitVec \<Rightarrow> nat \<Rightarrow> nat option" where
  "constantAmount e Amount Limit =
     map_option (\<lambda>(Val, Saturated). if Saturated \<or> Val > Limit then Limit else Val)
       (amountLoop e 0 0 False Amount)"

fun residueLoop :: "CnfEncoder \<Rightarrow> nat \<Rightarrow> nat \<Rightarrow> nat \<Rightarrow> LitVec \<Rightarrow> nat option" where
  "residueLoop e Modulus Residue Place [] = Some Residue"
| "residueLoop e Modulus Residue Place (L # Ls) =
     (if \<not> isConstant e L then None
      else residueLoop e Modulus (if isTrueLit e L then (Residue + Place) mod Modulus else Residue)
             ((Place * 2) mod Modulus) Ls)"

definition constantResidue :: "CnfEncoder \<Rightarrow> LitVec \<Rightarrow> nat \<Rightarrow> nat option" where
  "constantResidue e Amount Modulus = residueLoop e Modulus 0 (1 mod Modulus) Amount"

definition shiftBitsByConstant :: "CnfEncoder \<Rightarrow> LitVec \<Rightarrow> nat \<Rightarrow> ShiftKind \<Rightarrow> LitVec" where
  "shiftBitsByConstant e A Amount Kind =
     (let Width = length A in
      if isRotate Kind then
        let Step = Amount mod Width in
        map (\<lambda>I. A ! (if Kind = RotateLeft then (I + Width - Step) mod Width else (I + Step) mod Width))
          [0..<Width]
      else
        let Step = min Amount Width in
        case Kind of
          Left \<Rightarrow> map (\<lambda>I. if I < Step then falseLit e else A ! (I - Step)) [0..<Width]
        | LogicalRight \<Rightarrow> map (\<lambda>I. if I + Step < Width then A ! (I + Step) else falseLit e) [0..<Width]
        | ArithmeticRight \<Rightarrow>
            map (\<lambda>I. if I + Step < Width then A ! (I + Step) else A ! (Width - 1)) [0..<Width]
        | _ \<Rightarrow> [])"

definition nextDistance :: "ShiftKind \<Rightarrow> nat \<Rightarrow> nat \<Rightarrow> nat" where
  "nextDistance Kind Width Distance =
     (if isRotate Kind then (2 * Distance) mod Width else 2 * Distance)"

fun stagesLoop :: "ShiftKind \<Rightarrow> nat \<Rightarrow> LitVec \<Rightarrow> LitVec \<Rightarrow> CnfEncoder \<Rightarrow> LitVec \<times> CnfEncoder" where
  "stagesLoop Kind Distance [] Current e = (Current, e)"
| "stagesLoop Kind Distance (Step # Steps) Current e =
     (if Distance = 0 then (Current, e)
      else
        let Next = nextDistance Kind (length Current) Distance in
        if isFalseLit e Step then stagesLoop Kind Next Steps Current e
        else
          let Stage = shiftBitsByConstant e Current Distance Kind in
          if isTrueLit e Step then stagesLoop Kind Next Steps Stage e
          else
            case selectBits Step Stage Current e of (Selected, e) \<Rightarrow>
              stagesLoop Kind Next Steps Selected e)"

fun anyLoop :: "SatLit \<Rightarrow> LitVec \<Rightarrow> CnfEncoder \<Rightarrow> SatLit \<times> CnfEncoder" where
  "anyLoop Beyond [] e = (Beyond, e)"
| "anyLoop Beyond (L # Ls) e = (case mkOr2 Beyond L e of (Beyond, e) \<Rightarrow> anyLoop Beyond Ls e)"

definition fixedShift :: "CnfEncoder \<Rightarrow> LitVec \<Rightarrow> nat \<Rightarrow> ShiftKind \<Rightarrow> nat option" where
  "fixedShift e Amount Width Kind =
     (if isRotate Kind then constantResidue e Amount Width else constantAmount e Amount Width)"

definition shiftBits :: "LitVec \<Rightarrow> LitVec \<Rightarrow> ShiftKind \<Rightarrow> CnfEncoder \<Rightarrow> LitVec \<times> CnfEncoder" where
  "shiftBits A Amount Kind e =
     (let Width = length A in
      case fixedShift e Amount Width Kind of
        Some Fixed \<Rightarrow> (shiftBitsByConstant e A Fixed Kind, e)
      | None \<Rightarrow>
          let Stages = stageCount Width;
              Usable = (if isRotate Kind then length Amount else min Stages (length Amount));
              Distance = (if isRotate Kind then 1 mod Width else 1)
          in
          case stagesLoop Kind Distance (take Usable Amount) A e of (Current, e) \<Rightarrow>
            if isRotate Kind then (Current, e)
            else
              case anyLoop (falseLit e) (drop Stages Amount) e of (Beyond, e) \<Rightarrow>
                if isFalseLit e Beyond then (Current, e)
                else
                  let Fill = (if Kind = ArithmeticRight then A ! (Width - 1) else falseLit e) in
                  selectBits Beyond (replicate Width Fill) Current e)"

end
