(* ===== verification/Bit_Logic.thy ===== *)
theory Bit_Logic
  imports Bit_Circuits
begin

text \<open>
  A small program logic for circuits.  \<open>yields\<close> says of a circuit that, unless the encoder runs
  out, it adds definitions only and its output literals are worth what it promises in every model;
  it composes along the encoder the way the code threads it.
\<close>

section \<open>Reasoning about circuits\<close>

definition inr :: "CnfEncoder \<Rightarrow> SatLit set \<Rightarrow> bool" where
  "inr e S \<longleftrightarrow> (\<forall>L \<in> S. unat (var L) < nv e)"

text \<open>
  What a circuit promises: started in order and not out of room at the end, it only adds
  definitions, its outputs are literals the encoder has, and they are as \<open>V\<close> says in every model.
\<close>

definition yields ::
    "CnfEncoder \<Rightarrow> 'a \<times> CnfEncoder \<Rightarrow> ('a \<Rightarrow> SatLit set) \<Rightarrow> (assignment \<Rightarrow> 'a \<Rightarrow> bool) \<Rightarrow> bool" where
  "yields e r lits V \<longleftrightarrow> enc_mono e (snd r) \<and>
     (enc_ok e \<longrightarrow> \<not> enc_full (snd r) \<longrightarrow>
        good e (snd r) \<and> inr (snd r) (lits (fst r)) \<and> (\<forall>m \<in> mods (snd r). V m (fst r)))"

lemma inr_mono: "inr e S \<Longrightarrow> nv e \<le> nv u \<Longrightarrow> inr u S"
  by (auto simp: inr_def)

lemma inr_subset: "inr e S \<Longrightarrow> T \<subseteq> S \<Longrightarrow> inr e T"
  by (auto simp: inr_def)

lemma inr_simps [simp]: "inr e {}" "inr e (insert L S) \<longleftrightarrow> unat (var L) < nv e \<and> inr e S"
  "inr e (S \<union> T) \<longleftrightarrow> inr e S \<and> inr e T"
  by (auto simp: inr_def)

lemma inr_negl [simp]: "inr e (negl ` S) = inr e S"
  by (simp add: inr_def)

lemma inr_sublist [intro]: "inr e (set xs) \<Longrightarrow> inr e (set (take n xs))" "inr e (set xs) \<Longrightarrow> inr e (set (drop n xs))"
  "inr e (set xs) \<Longrightarrow> inr e (set (butlast xs))" "inr e (set xs) \<Longrightarrow> inr e (set (tl xs))"
  by (auto simp: inr_def dest: in_set_takeD in_set_dropD in_set_butlastD intro: list.set_sel(2))
    (metis list.sel(2) list.set_sel(2))

lemma inr_last: "inr e (set xs) \<Longrightarrow> xs \<noteq> [] \<Longrightarrow> unat (var (last xs)) < nv e"
  by (simp add: inr_def)

lemma inr_nth: "inr e (set xs) \<Longrightarrow> i < length xs \<Longrightarrow> unat (var (xs ! i)) < nv e"
  by (simp add: inr_def)

lemma yields_mono: "yields e r lits V \<Longrightarrow> enc_mono e (snd r)"
  by (simp add: yields_def)

lemma yields_return:
  assumes "enc_ok e \<Longrightarrow> inr e (lits x)" "\<And>m. enc_ok e \<Longrightarrow> m \<in> mods e \<Longrightarrow> V m x"
  shows "yields e (x, e) lits V"
  using assms by (simp add: yields_def good_refl)

lemma yields_weaken:
  assumes "yields e r lits V" "\<And>m x. enc_ok e \<Longrightarrow> m \<in> mods e \<Longrightarrow> V m x \<Longrightarrow> W m x"
    "\<And>x. enc_ok e \<Longrightarrow> lits' x \<subseteq> lits x"
  shows "yields e r lits' W"
  using assms unfolding yields_def by (meson goodD(3) inr_subset)

lemma enc_mono_bind:
  "enc_mono e (snd r) \<Longrightarrow> (\<And>x u. enc_mono u (snd (f x u))) \<Longrightarrow> enc_mono e (snd (case r of (x, u) \<Rightarrow> f x u))"
  by (auto simp: case_prod_beta intro: enc_mono_trans)

lemma yields_bind:
  assumes r: "yields e r lits V" and mono: "\<And>x u. enc_mono u (snd (f x u))"
    and f: "\<And>x u. r = (x, u) \<Longrightarrow> enc_ok u \<Longrightarrow> nv e \<le> nv u \<Longrightarrow> inr u (lits x) \<Longrightarrow>
      yields u (f x u) lits' (\<lambda>m y. m \<in> mods e \<longrightarrow> V m x \<longrightarrow> W m y)"
  shows "yields e (case r of (x, u) \<Rightarrow> f x u) lits' W"
proof -
  obtain x u where xu: "r = (x, u)" by fastforce
  have m: "enc_mono e (snd (f x u))"
    by (rule enc_mono_trans [OF yields_mono [OF r, unfolded xu snd_conv] mono])
  show ?thesis unfolding xu prod.case
  proof (unfold yields_def, intro conjI impI)
    show "enc_mono e (snd (f x u))" by (rule m)
  next
    assume ok: "enc_ok e" and nf: "\<not> enc_full (snd (f x u))"
    have "engine_ok (Solver u) \<and> (enc_full u \<longrightarrow> enc_full (snd (f x u)))"
      using yields_mono [OF r, unfolded xu snd_conv] enc_okD(1) [OF ok] mono [of u x]
      by (simp add: enc_mono_def)
    with nf have nu: "\<not> enc_full u" by blast
    have u: "good e u \<and> inr u (lits x) \<and> (\<forall>m \<in> mods u. V m x)"
      using r ok nu by (simp add: yields_def xu)
    have g: "good u (snd (f x u)) \<and> inr (snd (f x u)) (lits' (fst (f x u))) \<and>
        (\<forall>m \<in> mods (snd (f x u)). m \<in> mods e \<longrightarrow> V m x \<longrightarrow> W m (fst (f x u)))"
      using f [OF xu] u nf by (simp add: yields_def goodD(1,2) [of e u])
    show "good e (snd (f x u))" using good_trans u g by blast
    show "inr (snd (f x u)) (lits' (fst (f x u)))" using g by blast
    show "\<forall>m \<in> mods (snd (f x u)). W m (fst (f x u))"
    proof
      fix m assume "m \<in> mods (snd (f x u))"
      with u g goodD(3) [of u "snd (f x u)" m] goodD(3) [of e u m] show "W m (fst (f x u))" by simp
    qed
  qed
qed

lemma yields_map:
  assumes y: "yields e r lits V" and T: "inr e T" and sub: "\<And>x. lits' (g x) \<subseteq> T \<union> lits x"
    and W: "\<And>m x. enc_ok e \<Longrightarrow> m \<in> mods e \<Longrightarrow> V m x \<Longrightarrow> W m (g x)"
  shows "yields e (case r of (x, u) \<Rightarrow> (g x, u)) lits' W"
proof -
  obtain x u where r: "r = (x, u)" by fastforce
  have "good e u \<and> inr u (lits' (g x)) \<and> (\<forall>m \<in> mods u. W m (g x))" if "enc_ok e" "\<not> enc_full u"
  proof -
    have u: "good e u" "inr u (lits x)" "\<forall>m \<in> mods u. V m x" using y that by (simp_all add: yields_def r)
    have "inr u (T \<union> lits x)" using inr_mono [OF T goodD(2) [OF u(1)]] u(2) by simp
    from inr_subset [OF this sub] u W that goodD(3) [OF u(1)] show ?thesis by blast
  qed
  with yields_mono [OF y] show ?thesis by (simp add: yields_def r)
qed

lemma yields_map2:
  assumes "yields e r lits V" "inr e T" "\<And>a b. lits' (g a b) \<subseteq> T \<union> lits (a, b)"
    "\<And>m a b. enc_ok e \<Longrightarrow> m \<in> mods e \<Longrightarrow> V m (a, b) \<Longrightarrow> W m (g a b)"
  shows "yields e (case r of ((a, b), u) \<Rightarrow> (g a b, u)) lits' W"
proof -
  have "yields e (case r of (x, u) \<Rightarrow> (case x of (a, b) \<Rightarrow> g a b, u)) lits' W"
    by (rule yields_map [OF assms(1,2)]) (use assms(3,4) in \<open>auto split: prod.splits\<close>)
  then show ?thesis by (simp add: case_prod_beta)
qed

lemma yields_bind2:
  assumes "yields e r lits V" "\<And>a b u. enc_mono u (snd (f a b u))"
    "\<And>a b u. r = ((a, b), u) \<Longrightarrow> enc_ok u \<Longrightarrow> nv e \<le> nv u \<Longrightarrow> inr u (lits (a, b)) \<Longrightarrow>
      yields u (f a b u) lits' (\<lambda>m y. m \<in> mods e \<longrightarrow> V m (a, b) \<longrightarrow> W m y)"
  shows "yields e (case r of ((a, b), u) \<Rightarrow> f a b u) lits' W"
proof -
  have "yields e (case r of (x, u) \<Rightarrow> f (fst x) (snd x) u) lits' W"
    by (rule yields_bind [OF assms(1,2)]) (use assms(3) in \<open>simp add: prod_eq_iff\<close>)
  then show ?thesis by (simp add: case_prod_beta)
qed

text \<open>The gates, as circuits.\<close>

abbreviation one :: "SatLit \<Rightarrow> SatLit set" where
  "one L \<equiv> {L}"

lemma yields_gate:
  assumes "enc_mono e (snd r)" "enc_ok e \<Longrightarrow> defines_lit Both e r F"
  shows "yields e r one (\<lambda>m L. lit_true m L = F m)"
proof -
  obtain L e' where r: "r = (L, e')" by fastforce
  show ?thesis using assms defines_computes by (auto simp: yields_def r computes_def)
qed

lemma yields_mkXor:
  "inr e (set Ins) \<Longrightarrow> yields e (mkXor Ins e) one (\<lambda>m L. lit_true m L = parity (map (lit_true m) Ins))"
  by (intro yields_gate enc_mono_mkXor mkXor_computes) (simp_all add: inr_def)

lemma yields_mkXor2:
  "inr e {A, B} \<Longrightarrow> yields e (mkXor2 A B e) one (\<lambda>m L. lit_true m L = (lit_true m A \<noteq> lit_true m B))"
  by (intro yields_gate enc_mono_mkXor2 mkXor2_computes) simp_all

lemma yields_mkAnd2:
  "inr e {A, B} \<Longrightarrow> yields e (mkAnd2 A B e) one (\<lambda>m L. lit_true m L = (lit_true m A \<and> lit_true m B))"
  by (intro yields_gate enc_mono_mkAnd2 mkAnd2_computes) simp_all

lemma yields_mkOr2:
  "inr e {A, B} \<Longrightarrow> yields e (mkOr2 A B e) one (\<lambda>m L. lit_true m L = (lit_true m A \<or> lit_true m B))"
  by (intro yields_gate enc_mono_mkOr2 mkOr2_computes) simp_all

lemma yields_mkEquiv:
  "inr e {A, B} \<Longrightarrow> yields e (mkEquiv A B e) one (\<lambda>m L. lit_true m L = (lit_true m A = lit_true m B))"
  by (intro yields_gate enc_mono_mkEquiv mkEquiv_computes) simp_all

lemma yields_mkAnd:
  "inr e (set Ins) \<Longrightarrow> yields e (mkAnd Ins Both e) one (\<lambda>m L. lit_true m L = (\<forall>X \<in> set Ins. lit_true m X))"
  by (intro yields_gate enc_mono_mkAnd mkAnd_defines) (simp_all add: inr_def)

lemma yields_mkIte:
  "inr e {C, T, E} \<Longrightarrow> yields e (mkIte C T E e) one
     (\<lambda>m L. lit_true m L = (if lit_true m C then lit_true m T else lit_true m E))"
  by (intro yields_gate enc_mono_mkIte mkIte_computes) simp_all

lemma yields_mkMajority:
  "inr e {A, B, C} \<Longrightarrow> yields e (mkMajority A B C e) one
     (\<lambda>m L. lit_true m L = majority (lit_true m A) (lit_true m B) (lit_true m C))"
  by (intro yields_gate enc_mono_mkMajority mkMajority_computes) simp_all

lemma yields_mkFullAdder:
  assumes "inr e {A, B, C}"
  shows "yields e (mkFullAdder A B C e) (\<lambda>(S, K). {S, K})
     (\<lambda>m (S, K). of_bool (lit_true m S) + 2 * of_bool (lit_true m K) =
        of_bool (lit_true m A) + of_bool (lit_true m B) + (of_bool (lit_true m C) :: nat) \<and>
        lit_true m K = majority (lit_true m A) (lit_true m B) (lit_true m C))"
proof -
  obtain S K e' where f: "mkFullAdder A B C e = ((S, K), e')" by (metis prod.collapse)
  have maj: "of_bool x + 2 * of_bool k = of_bool a + of_bool b + (of_bool c :: nat) \<Longrightarrow> k = majority a b c"
    for x a b c k by (cases a; cases b; cases c; cases k; cases x) (auto simp: majority_def)
  show ?thesis
    using assms mkFullAdder_computes [OF _ _ _ _ f] enc_mono_mkFullAdder [of e A B C] maj
    unfolding yields_def f by (simp add: Ball_def) blast
qed

section \<open>The value of a vector\<close>

definition bitsVal :: "assignment \<Rightarrow> LitVec \<Rightarrow> nat" where
  "bitsVal m Ls = horner_sum of_bool 2 (map (lit_true m) Ls)"

lemma bitsVal_simps [simp]: "bitsVal m [] = 0" "bitsVal m (L # Ls) = of_bool (lit_true m L) + 2 * bitsVal m Ls"
  by (simp_all add: bitsVal_def)

lemma bitsVal_append: "bitsVal m (xs @ ys) = bitsVal m xs + 2 ^ length xs * bitsVal m ys"
  by (simp add: bitsVal_def horner_sum_append)

lemma bitsVal_less: "bitsVal m Ls < 2 ^ length Ls"
  using horner_sum_of_bool_2_less [of "map (lit_true m) Ls"] by (simp add: bitsVal_def)

lemma bit_bitsVal: "bit (bitsVal m Ls) i \<longleftrightarrow> i < length Ls \<and> lit_true m (Ls ! i)"
  by (auto simp: bitsVal_def bit_horner_sum_bit_iff)

lemma bitsVal_negl: "bitsVal m (map negl Ls) + bitsVal m Ls + 1 = 2 ^ length Ls"
  by (induction Ls) (auto simp: of_bool_def)

lemma bitsVal_take: "bitsVal m (take n Ls) = bitsVal m Ls mod 2 ^ n"
  by (rule bit_eqI) (auto simp: bit_bitsVal bit_take_bit_iff simp flip: take_bit_eq_mod)

lemma bitsVal_drop: "bitsVal m (drop n Ls) = bitsVal m Ls div 2 ^ n"
  by (rule bit_eqI) (auto simp: bit_bitsVal bit_drop_bit_eq add.commute simp flip: drop_bit_eq_div)

lemma constants_true:
  assumes "enc_ok e" "m \<in> mods e"
  shows "lit_true m (trueLit e)" "\<not> lit_true m (falseLit e)" "bitsVal m (replicate k (falseLit e)) = 0"
proof -
  show t: "lit_true m (trueLit e)" "\<not> lit_true m (falseLit e)"
    using trueLit_true [OF assms] by (simp_all add: trueLit_def falseLit_def)
  show "bitsVal m (replicate k (falseLit e)) = 0" using t by (induction k) simp_all
qed

lemma constants_inr:
  assumes "enc_ok e"
  shows "unat (var (trueLit e)) < nv e" "unat (var (falseLit e)) < nv e" "inr e (set (replicate k (falseLit e)))"
  using enc_okD(2) [OF assms] by (auto simp: trueLit_def falseLit_def inr_def)

lemma mod_split: "(lo :: nat) < 2 ^ R \<Longrightarrow> (lo + 2 ^ R * x) mod 2 ^ (R + K) = lo + 2 ^ R * (x mod 2 ^ K)"
  using mod_mult2_eq [of "lo + 2 ^ R * x" "2 ^ R" "2 ^ K"] by (simp add: power_add)

lemma mod_step: "(s :: nat) < 2 \<Longrightarrow> (s + 2 * x) mod 2 ^ Suc n = s + 2 * (x mod 2 ^ n)"
  using mod_split [of s 1 x n] by simp

section \<open>Circuits never recover room\<close>

lemma snd_mapped2 [simp]: "snd (case r of ((a, b), e) \<Rightarrow> (f a b, e)) = snd r"
  by (simp add: case_prod_beta)

lemma enc_mono_bind2:
  "enc_mono e (snd r) \<Longrightarrow> (\<And>a b u. enc_mono u (snd (f a b u))) \<Longrightarrow>
     enc_mono e (snd (case r of ((a, b), u) \<Rightarrow> f a b u))"
  by (auto simp: case_prod_beta intro: enc_mono_trans)

lemma enc_mono_if: "(c \<Longrightarrow> enc_mono e (snd a)) \<Longrightarrow> (\<not> c \<Longrightarrow> enc_mono e (snd b)) \<Longrightarrow> enc_mono e (snd (if c then a else b))"
  by simp

lemmas step_monos = enc_mono_bind enc_mono_bind2 enc_mono_if gate_monos enc_mono_refl

lemma enc_mono_selectBits: "enc_mono e (snd (selectBits C T E e))"
proof (induction T arbitrary: E e)
  case (Cons X T)
  show ?case
    using Cons.IH by (cases E) (auto intro!: step_monos)
qed simp

lemma enc_mono_addLoop: "enc_mono e (snd (addLoop Want Prev A B Carry e))"
proof (induction A arbitrary: Prev B Carry e)
  case (Cons X A)
  show ?case
    by (cases B) (auto intro!: step_monos Cons.IH)
qed simp

lemma enc_mono_addBits: "enc_mono e (snd (addBits A B Carry e))"
  using enc_mono_addLoop by (simp add: addBits_def)

lemma enc_mono_negateLoop: "enc_mono e (snd (negateLoop Carry A e))"
proof (induction A arbitrary: Carry e)
  case (Cons X A)
  show ?case
    by (auto intro!: step_monos Cons.IH simp: Let_def)
qed simp

lemma enc_mono_negateBits: "enc_mono e (snd (negateBits A e))"
  using enc_mono_negateLoop by (simp add: negateBits_def)

lemma enc_mono_patternLoop: "enc_mono e (snd (patternLoop A Ts Out e))"
proof (induction Ts arbitrary: Out e)
  case (Cons T Ts)
  show ?case
    by (auto intro!: step_monos enc_mono_addBits Cons.IH simp: Let_def)
qed simp

lemma enc_mono_multiplyByPattern: "enc_mono e (snd (multiplyByPattern A P e))"
  using enc_mono_patternLoop by (simp add: multiplyByPattern_def)

lemma enc_mono_rowLoop: "enc_mono e (snd (rowLoop M Os As Carry e))"
proof (induction Os arbitrary: As Carry e)
  case (Cons X Os)
  show ?case
    by (cases As) (auto intro!: step_monos Cons.IH)
qed simp

lemma enc_mono_rowsLoop: "enc_mono e (snd (rowsLoop A Row Bs Out e))"
proof (induction Bs arbitrary: Row Out e)
  case (Cons X Bs)
  show ?case
    by (auto intro!: step_monos enc_mono_rowLoop Cons.IH)
qed simp

lemma enc_mono_multiplyBits: "enc_mono e (snd (multiplyBits A B e))"
proof (induction A B e rule: multiplyBits.induct)
  case (1 A B e)
  show ?case
    unfolding multiplyBits.simps [of A B e] Let_def
    using 1 by (simp add: enc_mono_multiplyByPattern enc_mono_rowsLoop split: option.split)
qed

lemma enc_mono_subtractLoop: "enc_mono e (snd (subtractLoop Ss Bs Carry e))"
proof (induction Ss arbitrary: Bs Carry e)
  case (Cons X Ss)
  show ?case
    by (auto intro!: step_monos Cons.IH simp: Let_def)
qed simp

lemma enc_mono_divideLoop: "enc_mono e (snd (divideLoop B Bits Rest e))"
proof (induction Bits arbitrary: Rest e)
  case (Cons X Bits)
  show ?case
    by (auto intro!: step_monos enc_mono_subtractLoop enc_mono_selectBits Cons.IH simp: Let_def
        simp del: subtractLoop.simps selectBits.simps)
qed simp

lemma enc_mono_divideBits: "enc_mono e (snd (divideBits A B e))"
  using enc_mono_divideLoop by (simp add: divideBits_def)

lemma enc_mono_applySign: "enc_mono e (snd (applySign S A e))"
  by (auto intro!: step_monos enc_mono_negateBits enc_mono_selectBits simp: applySign_def)

lemma enc_mono_divideSignedBits: "enc_mono e (snd (divideSignedBits Q R A B e))"
  unfolding divideSignedBits_def Let_def
  by (auto intro!: step_monos enc_mono_divideBits enc_mono_applySign enc_mono_negateBits enc_mono_selectBits)

lemma enc_mono_equivLoop: "enc_mono e (snd (equivLoop A B e))"
proof (induction A arbitrary: B e)
  case (Cons X A)
  show ?case
    by (cases B) (auto intro!: step_monos Cons.IH)
qed simp

lemma enc_mono_equalBits: "enc_mono e (snd (equalBits A B e))"
  by (auto intro!: step_monos enc_mono_equivLoop simp: equalBits_def)

lemma enc_mono_carryChain: "enc_mono e (snd (carryChain A B C e))"
proof (induction A arbitrary: B C e)
  case (Cons X A)
  show ?case
    by (cases B) (auto intro!: step_monos Cons.IH)
qed simp

lemma enc_mono_anyLoop: "enc_mono e (snd (anyLoop L Ls e))"
proof (induction Ls arbitrary: L e)
  case (Cons X Ls)
  show ?case
    by (auto intro!: step_monos Cons.IH)
qed simp

lemma enc_mono_stagesLoop: "enc_mono e (snd (stagesLoop Kind D Steps Current e))"
proof (induction Steps arbitrary: D Current e)
  case (Cons X Steps)
  show ?case
    by (auto intro!: step_monos enc_mono_selectBits Cons.IH simp: Let_def)
qed simp

lemma enc_mono_shiftBits: "enc_mono e (snd (shiftBits A Amount Kind e))"
  by (auto intro!: step_monos enc_mono_stagesLoop enc_mono_anyLoop enc_mono_selectBits
      simp: shiftBits_def Let_def split: option.split)

section \<open>Widths\<close>

lemma length_selectBits [simp]: "length (fst (selectBits C T E e)) = min (length T) (length E)"
proof (induction T arbitrary: E e)
  case (Cons X T)
  then show ?case by (cases E) (simp_all add: case_prod_beta)
qed simp

lemma length_addLoop [simp]: "length (fst (fst (addLoop W P A B C e))) = min (length A) (length B)"
proof (induction A arbitrary: B P C e)
  case (Cons X A)
  then show ?case by (cases B) (simp_all add: case_prod_beta)
qed simp

lemma length_addBits [simp]: "length (fst (addBits A B C e)) = min (length A) (length B)"
  by (simp add: addBits_def case_prod_beta)

lemma length_negateLoop [simp]: "length (fst (negateLoop C A e)) = length A"
  by (induction A arbitrary: C e) (simp_all add: case_prod_beta Let_def)

lemma length_negateBits [simp]: "length (fst (negateBits A e)) = length A"
  by (simp add: negateBits_def)

lemma length_productAddend [simp]: "length (productAddend e A T) = length A"
  by (simp add: productAddend_def Let_def)

lemma length_patternLoop [simp]: "length Out = length A \<Longrightarrow> length (fst (patternLoop A Ts Out e)) = length A"
  by (induction Ts arbitrary: Out e) (simp_all add: case_prod_beta Let_def)

lemma length_rowLoop [simp]: "length (fst (rowLoop M Os As C e)) = min (length Os) (length As)"
proof (induction Os arbitrary: As C e)
  case (Cons X Os)
  then show ?case by (cases As) (auto simp: case_prod_beta)
qed simp

lemma length_subtractLoop [simp]: "length (fst (fst (subtractLoop Ss Bs C e))) = length Ss"
  by (induction Ss arbitrary: Bs C e) (simp_all add: case_prod_beta Let_def)

lemma length_equivLoop [simp]: "length (fst (equivLoop A B e)) = min (length A) (length B)"
proof (induction A arbitrary: B e)
  case (Cons X A)
  then show ?case by (cases B) (simp_all add: case_prod_beta)
qed simp

lemma length_shiftBitsByConstant [simp]: "length (shiftBitsByConstant e A D Kind) = length A"
  by (cases Kind) (simp_all add: shiftBitsByConstant_def isRotate_def Let_def)

end
