(* ===== verification/Bit_Arith.thy ===== *)
theory Bit_Arith
  imports Bit_Logic
begin

text \<open>
  The arithmetic circuits compute what they are named for, on vectors of any width: selection,
  addition with its shortcut for repeated operand pairs, negation, and multiplication in each of the
  forms the code chooses between.
\<close>

section \<open>Selection and addition\<close>

lemma yields_selectBits:
  assumes "length T = length E" "inr e (insert C (set T \<union> set E))"
  shows "yields e (selectBits C T E e) set
    (\<lambda>m Out. map (lit_true m) Out = map (lit_true m) (if lit_true m C then T else E))"
  using assms
proof (induction T arbitrary: E e)
  case (Cons X T)
  then obtain Y F where E: "E = Y # F" by (cases E) auto
  show ?case unfolding E selectBits.simps
  proof (rule yields_bind [OF yields_mkIte])
    show "inr e {C, X, Y}" using Cons.prems E by simp
    fix L u
    show "enc_mono u (snd (case selectBits C T F u of (Out, e) \<Rightarrow> (L # Out, e)))"
      by (simp add: enc_mono_selectBits)
    assume u: "nv e \<le> nv u" and L: "inr u {L}"
    have "inr e (insert C (set T \<union> set F))" "length T = length F" using Cons.prems E by simp_all
    then have "yields u (selectBits C T F u) set
        (\<lambda>m Out. map (lit_true m) Out = map (lit_true m) (if lit_true m C then T else F))"
      using Cons.IH inr_mono [OF _ u] by blast
    then show "yields u (case selectBits C T F u of (Out, e) \<Rightarrow> (L # Out, e)) set
        (\<lambda>m Out. m \<in> mods e \<longrightarrow> lit_true m L = (if lit_true m C then lit_true m X else lit_true m Y) \<longrightarrow>
           map (lit_true m) Out = map (lit_true m) (if lit_true m C then X # T else Y # F))"
      by (rule yields_map [OF _ L]) auto
  qed
qed (auto intro: yields_return)

lemma adder_cell: "of_bool (parity [a, b, c]) + 2 * of_bool (majority a b c) = of_bool a + of_bool b + (of_bool c :: nat)"
  by (auto simp: majority_def)

text \<open>A carry that a repeated pair leaves as it is.\<close>

definition absorbed :: "assignment \<Rightarrow> (SatLit \<times> SatLit) option \<Rightarrow> SatLit \<Rightarrow> bool" where
  "absorbed m Prev C \<longleftrightarrow>
     (case Prev of None \<Rightarrow> True
      | Some (P, Q) \<Rightarrow> lit_true m C = majority (lit_true m P) (lit_true m Q) (lit_true m C))"

lemma absorbed_repeated:
  "absorbed m Prev C \<Longrightarrow> repeatedPair Prev A B \<Longrightarrow> lit_true m C = majority (lit_true m A) (lit_true m B) (lit_true m C)"
  by (auto simp: absorbed_def repeatedPair_def majority_def)

definition spells :: "bool \<Rightarrow> assignment \<Rightarrow> LitVec \<Rightarrow> LitVec \<Rightarrow> SatLit \<Rightarrow> LitVec \<times> SatLit \<Rightarrow> bool" where
  "spells Want m A B C r \<longleftrightarrow>
     (case r of (Out, K) \<Rightarrow>
        let S = bitsVal m A + bitsVal m B + of_bool (lit_true m C) in
        bitsVal m Out = S mod 2 ^ length A \<and>
        (Want \<longrightarrow> bitsVal m Out + 2 ^ length A * of_bool (lit_true m K) = S))"

lemma spells_step:
  assumes cell: "of_bool (lit_true m S) + 2 * of_bool (lit_true m N) =
      of_bool (lit_true m A) + of_bool (lit_true m B) + (of_bool (lit_true m C) :: nat)"
    and rest: "spells Want m As Bs N (Out, K)"
  shows "spells Want m (A # As) (B # Bs) C (S # Out, K)"
proof -
  let ?s = "of_bool (lit_true m S) :: nat" and ?x = "bitsVal m As + bitsVal m Bs + of_bool (lit_true m N)"
  have tot: "bitsVal m (A # As) + bitsVal m (B # Bs) + of_bool (lit_true m C) = ?s + 2 * ?x"
    using cell by simp
  have "bitsVal m (S # Out) = (?s + 2 * ?x) mod 2 ^ Suc (length As)"
    using rest by (subst mod_step) (simp_all add: spells_def Let_def)
  moreover have "bitsVal m (S # Out) + 2 ^ Suc (length As) * of_bool (lit_true m K) = ?s + 2 * ?x" if Want
  proof -
    have "bitsVal m Out + 2 ^ length As * of_bool (lit_true m K) = ?x"
      using rest that by (simp add: spells_def Let_def)
    then show ?thesis by (simp add: algebra_simps)
  qed
  ultimately show ?thesis unfolding spells_def prod.case Let_def tot by simp
qed

lemma yields_addLoop:
  assumes "length A = length B" "inr e (insert C (set A \<union> set B))"
  shows "yields e (addLoop Want Prev A B C e) (\<lambda>(Out, K). insert K (set Out))
    (\<lambda>m r. absorbed m Prev C \<longrightarrow> spells Want m A B C r)"
  using assms
proof (induction A arbitrary: B Prev C e)
  case Nil
  then show ?case by (auto intro!: yields_return simp: spells_def)
next
  case (Cons X A)
  then obtain Y F where B: "B = Y # F" by (cases B) auto
  have pre: "length A = length F" "inr e {X, Y, C}" "inr e (set A \<union> set F)" using Cons.prems B by simp_all
  have xor: "yields e (mkXor [X, Y, C] e) one
      (\<lambda>m L. lit_true m L = parity (map (lit_true m) [X, Y, C]))"
    using pre(2) by (intro yields_mkXor) simp
  let ?lits = "\<lambda>(Out, K). insert K (set Out)"
  consider (same) "repeatedPair Prev X Y" | (top) "\<not> repeatedPair Prev X Y" "A = []" "\<not> Want"
    | (cell) "\<not> repeatedPair Prev X Y" "\<not> (A = [] \<and> \<not> Want)" by blast
  then show ?case
  proof cases
    case same
    have "yields e (case mkXor [X, Y, C] e of (S, e) \<Rightarrow>
        case addLoop Want (Some (X, Y)) A F C e of ((Out, K), e) \<Rightarrow> ((S # Out, K), e)) ?lits
        (\<lambda>m r. absorbed m Prev C \<longrightarrow> spells Want m (X # A) (Y # F) C r)"
    proof (rule yields_bind [OF xor])
      fix S u assume u: "nv e \<le> nv u" and S: "inr u {S}"
      have "inr u (insert C (set A \<union> set F))" by (rule inr_mono [OF _ u]) (use pre in simp)
      from Cons.IH [OF pre(1) this, of "Some (X, Y)"]
      show "yields u (case addLoop Want (Some (X, Y)) A F C u of ((Out, K), e) \<Rightarrow> ((S # Out, K), e)) ?lits
          (\<lambda>m r. m \<in> mods e \<longrightarrow> lit_true m S = parity (map (lit_true m) [X, Y, C]) \<longrightarrow>
             absorbed m Prev C \<longrightarrow> spells Want m (X # A) (Y # F) C r)"
      proof (rule yields_map2 [OF _ S])
        fix m Out K
        assume r: "absorbed m (Some (X, Y)) C \<longrightarrow> spells Want m A F C (Out, K)"
        show "m \<in> mods e \<longrightarrow> lit_true m S = parity (map (lit_true m) [X, Y, C]) \<longrightarrow>
            absorbed m Prev C \<longrightarrow> spells Want m (X # A) (Y # F) C (S # Out, K)"
        proof (intro impI)
          assume S: "lit_true m S = parity (map (lit_true m) [X, Y, C])" and ab: "absorbed m Prev C"
          have k: "lit_true m C = majority (lit_true m X) (lit_true m Y) (lit_true m C)"
            by (rule absorbed_repeated [OF ab same])
          then have "spells Want m A F C (Out, K)" using r by (simp add: absorbed_def)
          moreover have "of_bool (lit_true m S) + 2 * of_bool (lit_true m C) =
              of_bool (lit_true m X) + of_bool (lit_true m Y) + (of_bool (lit_true m C) :: nat)"
            using adder_cell [of "lit_true m X" "lit_true m Y" "lit_true m C"] S k by simp
          ultimately show "spells Want m (X # A) (Y # F) C (S # Out, K)" by (intro spells_step)
        qed
      qed auto
    qed (simp add: enc_mono_addLoop)
    with same B show ?thesis by simp
  next
    case top
    have "yields e (case mkXor [X, Y, C] e of (S, e) \<Rightarrow> (([S], C), e)) ?lits
        (\<lambda>m r. absorbed m Prev C \<longrightarrow> spells Want m (X # A) (Y # F) C r)"
      by (rule yields_map [OF xor pre(2)]) (use top pre(1) in \<open>auto simp: spells_def\<close>)
    with top B show ?thesis by simp
  next
    case cell
    have "yields e (case mkFullAdder X Y C e of ((S, N), e) \<Rightarrow>
        case addLoop Want (Some (X, Y)) A F N e of ((Out, K), e) \<Rightarrow> ((S # Out, K), e)) ?lits
        (\<lambda>m r. absorbed m Prev C \<longrightarrow> spells Want m (X # A) (Y # F) C r)"
    proof (rule yields_bind2 [OF yields_mkFullAdder [OF pre(2)]], simp add: enc_mono_addLoop, unfold prod.case)
      fix S N u assume u: "nv e \<le> nv u" and S: "inr u {S, N}"
      have "inr u (insert N (set A \<union> set F))" using inr_mono [OF pre(3) u] S by simp
      from Cons.IH [OF pre(1) this, of "Some (X, Y)"]
      show "yields u (case addLoop Want (Some (X, Y)) A F N u of ((Out, K), e) \<Rightarrow> ((S # Out, K), e)) ?lits
          (\<lambda>m r. m \<in> mods e \<longrightarrow> of_bool (lit_true m S) + 2 * of_bool (lit_true m N) =
              of_bool (lit_true m X) + of_bool (lit_true m Y) + (of_bool (lit_true m C) :: nat) \<and>
              lit_true m N = majority (lit_true m X) (lit_true m Y) (lit_true m C) \<longrightarrow>
              absorbed m Prev C \<longrightarrow> spells Want m (X # A) (Y # F) C r)"
        by (rule yields_map2 [OF _ S]) (auto simp: absorbed_def majority_def intro: spells_step)
    qed
    with cell B show ?thesis by auto
  qed
qed

lemma yields_addBits:
  assumes "length A = length B" "inr e (insert C (set A \<union> set B))"
  shows "yields e (addBits A B C e) set
    (\<lambda>m Out. bitsVal m Out = (bitsVal m A + bitsVal m B + of_bool (lit_true m C)) mod 2 ^ length A)"
  unfolding addBits_def
  by (rule yields_map2 [OF yields_addLoop [OF assms], where T = "{}"]) (auto simp: spells_def absorbed_def)

lemma yields_negateLoop:
  assumes "inr e (insert C (set A))"
  shows "yields e (negateLoop C A e) set
    (\<lambda>m Out. bitsVal m Out = (bitsVal m (map negl A) + of_bool (lit_true m C)) mod 2 ^ length A)"
  using assms
proof (induction A arbitrary: C e)
  case Nil
  then show ?case by (auto intro: yields_return)
next
  case (Cons X A)
  show ?case unfolding negateLoop.simps Let_def
  proof (rule yields_bind [OF yields_mkXor2])
    show "inr e {negl X, C}" using Cons.prems by simp
    fix L u
    show "enc_mono u (snd (case if A \<noteq> [] then mkAnd2 (negl X) C u else (C, u) of
        (Carry, e) \<Rightarrow> case negateLoop Carry A e of (Out, e) \<Rightarrow> (L # Out, e)))"
      by (auto intro!: step_monos enc_mono_negateLoop)
    assume u: "enc_ok u" "nv e \<le> nv u" and L: "inr u {L}"
    have r: "inr u {negl X, C}" "inr u (set A)" using inr_mono [OF Cons.prems u(2)] by simp_all
    have k: "yields u (if A \<noteq> [] then mkAnd2 (negl X) C u else (C, u)) one
        (\<lambda>m K. A \<noteq> [] \<longrightarrow> lit_true m K = (\<not> lit_true m X \<and> lit_true m C))"
    proof (cases "A = []")
      case False
      have "yields u (mkAnd2 (negl X) C u) one (\<lambda>m K. A \<noteq> [] \<longrightarrow> lit_true m K = (\<not> lit_true m X \<and> lit_true m C))"
        by (rule yields_weaken [OF yields_mkAnd2 [OF r(1)]]) auto
      with False show ?thesis by simp
    qed (use r in \<open>auto intro!: yields_return\<close>)
    show "yields u (case if A \<noteq> [] then mkAnd2 (negl X) C u else (C, u) of
        (Carry, e) \<Rightarrow> case negateLoop Carry A e of (Out, e) \<Rightarrow> (L # Out, e)) set
        (\<lambda>m Out. m \<in> mods e \<longrightarrow> lit_true m L = (lit_true m (negl X) \<noteq> lit_true m C) \<longrightarrow>
           bitsVal m Out = (bitsVal m (map negl (X # A)) + of_bool (lit_true m C)) mod 2 ^ length (X # A))"
    proof (rule yields_bind [OF k])
      fix K w
      show "enc_mono w (snd (case negateLoop K A w of (Out, e) \<Rightarrow> (L # Out, e)))"
        by (simp add: enc_mono_negateLoop)
      assume w: "nv u \<le> nv w" and K: "inr w {K}"
      have "inr w (insert K (set A))" using inr_mono [OF r(2) w] K by simp
      from Cons.IH [OF this] inr_mono [OF L w]
      show "yields w (case negateLoop K A w of (Out, e) \<Rightarrow> (L # Out, e)) set
          (\<lambda>m Out. m \<in> mods u \<longrightarrow> (A \<noteq> [] \<longrightarrow> lit_true m K = (\<not> lit_true m X \<and> lit_true m C)) \<longrightarrow>
             m \<in> mods e \<longrightarrow> lit_true m L = (lit_true m (negl X) \<noteq> lit_true m C) \<longrightarrow>
             bitsVal m Out = (bitsVal m (map negl (X # A)) + of_bool (lit_true m C)) mod 2 ^ length (X # A))"
      proof (rule yields_map)
        fix m Out
        assume v: "bitsVal m Out = (bitsVal m (map negl A) + of_bool (lit_true m K)) mod 2 ^ length A"
        show "m \<in> mods u \<longrightarrow> (A \<noteq> [] \<longrightarrow> lit_true m K = (\<not> lit_true m X \<and> lit_true m C)) \<longrightarrow>
            m \<in> mods e \<longrightarrow> lit_true m L = (lit_true m (negl X) \<noteq> lit_true m C) \<longrightarrow>
            bitsVal m (L # Out) = (bitsVal m (map negl (X # A)) + of_bool (lit_true m C)) mod 2 ^ length (X # A)"
        proof (intro impI)
          assume K: "A \<noteq> [] \<longrightarrow> lit_true m K = (\<not> lit_true m X \<and> lit_true m C)"
            and L: "lit_true m L = (lit_true m (negl X) \<noteq> lit_true m C)"
          let ?k = "of_bool (\<not> lit_true m X \<and> lit_true m C) :: nat"
          have "bitsVal m Out = (bitsVal m (map negl A) + ?k) mod 2 ^ length A" using v K by (cases A) auto
          then have "bitsVal m (L # Out) = (of_bool (lit_true m L) + 2 * (bitsVal m (map negl A) + ?k)) mod 2 ^ Suc (length A)"
            by (subst mod_step) simp_all
          also have "of_bool (lit_true m L) + 2 * (bitsVal m (map negl A) + ?k) =
              bitsVal m (map negl (X # A)) + of_bool (lit_true m C)" using L by auto
          finally show "bitsVal m (L # Out) =
              (bitsVal m (map negl (X # A)) + of_bool (lit_true m C)) mod 2 ^ length (X # A)" by simp
        qed
      qed auto
    qed
  qed
qed

lemma yields_negateBits:
  assumes "inr e (set A)"
  shows "yields e (negateBits A e) set (\<lambda>m Out. bitsVal m Out = (2 ^ length A - bitsVal m A) mod 2 ^ length A)"
proof (cases "enc_ok e")
  case True
  have "yields e (negateLoop (trueLit e) A e) set
      (\<lambda>m Out. bitsVal m Out = (bitsVal m (map negl A) + of_bool (lit_true m (trueLit e))) mod 2 ^ length A)"
    using assms enc_okD(2) [OF True] by (intro yields_negateLoop) (simp add: trueLit_def)
  then show ?thesis unfolding negateBits_def
  proof (rule yields_weaken)
    fix m Out
    assume "m \<in> mods e"
      and v: "bitsVal m Out = (bitsVal m (map negl A) + of_bool (lit_true m (trueLit e))) mod 2 ^ length A"
    then have "lit_true m (trueLit e)" using trueLit_true [OF True] by (simp add: trueLit_def)
    moreover have "bitsVal m (map negl A) + 1 = 2 ^ length A - bitsVal m A" using bitsVal_negl [of m A] by simp
    ultimately show "bitsVal m Out = (2 ^ length A - bitsVal m A) mod 2 ^ length A" using v by simp
  qed simp
qed (simp add: yields_def enc_mono_negateBits)

section \<open>Multiplication by a pattern\<close>

definition termWeight :: "ProductTerm \<Rightarrow> int" where
  "termWeight T = (if Subtract T then - (2 ^ Shift T) else 2 ^ Shift T)"

definition patternVal :: "bool list \<Rightarrow> int" where
  "patternVal Bits = horner_sum of_bool 2 Bits"

lemma runTerms_weight:
  assumes "First + Len \<le> N"
  shows "2 ^ N dvd sum_list (map termWeight (runTerms N First Len)) - 2 ^ First * (2 ^ Len - 1)"
proof (cases "Len \<ge> 3")
  case True
  have "sum_list (map termWeight (runTerms N First Len)) - 2 ^ First * (2 ^ Len - 1) =
      (if First + Len < N then 0 else - (2 ^ (First + Len)))"
    using True by (simp add: runTerms_def termWeight_def power_add algebra_simps)
  with assms show ?thesis by auto
next
  case False
  have "sum_list (map termWeight (map (\<lambda>B. \<lparr>Shift = B, Subtract = False\<rparr>) [First..<First + Len])) =
      2 ^ First * (2 ^ Len - 1)"
  proof (induction Len)
    case (Suc n)
    then show ?case by (simp add: termWeight_def power_add algebra_simps)
  qed simp
  with False show ?thesis by (simp add: runTerms_def)
qed

lemma runLength_split: "patternVal Bits = (2 ^ runLength Bits - 1) + 2 ^ runLength Bits * patternVal (drop (runLength Bits) Bits)"
proof (induction Bits)
  case (Cons b Bits)
  then show ?case by (cases b) (simp_all add: patternVal_def runLength_def algebra_simps)
qed (simp add: patternVal_def runLength_def)

lemma recodeLoop_weight:
  assumes "First + length Bits = N"
  shows "2 ^ N dvd sum_list (map termWeight (recodeLoop N First Bits)) - 2 ^ First * patternVal Bits"
  using assms
proof (induction N First Bits rule: recodeLoop.induct)
  case (2 N First Bits)
  then show ?case by (simp add: patternVal_def algebra_simps)
next
  case (3 N First Bits)
  let ?B = "True # Bits"
  define k where "k = runLength ?B"
  have k: "k \<le> length ?B" by (simp add: k_def runLength_def length_takeWhile_le)
  have ih: "2 ^ N dvd sum_list (map termWeight (recodeLoop N (First + k) (drop k ?B))) - 2 ^ (First + k) * patternVal (drop k ?B)"
    using 3 k by (simp add: k_def)
  have run: "2 ^ N dvd sum_list (map termWeight (runTerms N First k)) - 2 ^ First * (2 ^ k - 1)"
    using 3 k by (intro runTerms_weight) simp
  have "sum_list (map termWeight (recodeLoop N First ?B)) - 2 ^ First * patternVal ?B =
      (sum_list (map termWeight (runTerms N First k)) - 2 ^ First * (2 ^ k - 1)) +
      (sum_list (map termWeight (recodeLoop N (First + k) (drop k ?B))) - 2 ^ (First + k) * patternVal (drop k ?B))"
    by (simp add: runLength_split [of ?B, folded k_def] k_def [symmetric] Let_def power_add algebra_simps)
  with ih run show ?case by (metis dvd_add)
qed (simp_all add: patternVal_def)

lemma recodeMultiplier_weight:
  "2 ^ length Bits dvd sum_list (map termWeight (recodeMultiplier Bits)) - patternVal Bits"
  using recodeLoop_weight [of 0 Bits "length Bits"] by (simp add: recodeMultiplier_def)

lemma recode_shift: "T \<in> set (recodeLoop N First Bits) \<Longrightarrow> First + length Bits \<le> N \<Longrightarrow> Shift T < N"
proof (induction N First Bits rule: recodeLoop.induct)
  case (3 N First Bits)
  let ?k = "runLength (True # Bits)"
  have k: "?k \<le> length (True # Bits)" "0 < ?k" by (simp_all add: runLength_def length_takeWhile_le)
  from 3 consider "T \<in> set (runTerms N First ?k)"
    | "T \<in> set (recodeLoop N (First + ?k) (drop ?k (True # Bits)))" by (auto simp: Let_def)
  then show ?case
  proof cases
    case 1
    with k 3(3) show ?thesis by (auto simp: runTerms_def split: if_splits)
  next
    case 2
    with 3(1) [OF refl 2] 3(3) k show ?thesis by simp
  qed
qed simp_all

lemma recodeMultiplier_shift: "T \<in> set (recodeMultiplier Bits) \<Longrightarrow> Shift T < length Bits"
  using recode_shift by (fastforce simp: recodeMultiplier_def)

lemma productAddend_value:
  assumes ok: "enc_ok e" and m: "m \<in> mods e"
  shows "2 ^ length A dvd int (bitsVal m (productAddend e A T)) + of_bool (Subtract T) - termWeight T * int (bitsVal m A)"
proof -
  let ?N = "length A" and ?s = "Shift T"
  define P where "P = replicate (min ?s ?N) (falseLit e) @ take (?N - ?s) A"
  have lenP: "length P = ?N" by (simp add: P_def)
  note z = constants_true(3) [OF ok m]
  have P: "2 ^ ?N dvd int (bitsVal m P) - 2 ^ ?s * int (bitsVal m A)"
  proof (cases "?s < ?N")
    case True
    define d where "d = ?N - ?s"
    have N: "?N = ?s + d" using True by (simp add: d_def)
    define q r where "q = bitsVal m A div 2 ^ d" and "r = bitsVal m A mod 2 ^ d"
    have "2 ^ d * q + r = bitsVal m A" by (simp add: q_def r_def)
    then have a: "int (bitsVal m A) = 2 ^ d * int q + int r" by (metis of_nat_add of_nat_mult of_nat_power of_nat_numeral)
    have "int (bitsVal m P) = 2 ^ ?s * int r"
      using True N by (simp add: P_def bitsVal_append z bitsVal_take r_def)
    then have "int (bitsVal m P) - 2 ^ ?s * int (bitsVal m A) = 2 ^ ?N * - int q"
      unfolding a N power_add by (simp add: algebra_simps)
    then show ?thesis by (metis dvd_triv_left)
  next
    case False
    then have "int (bitsVal m P) = 0" by (simp add: P_def z)
    moreover have "(2 :: int) ^ ?N dvd 2 ^ ?s" using False by (intro le_imp_power_dvd) simp
    ultimately show ?thesis by simp
  qed
  have nn: "falseLit e = negl (trueLit e)" by (simp add: falseLit_def trueLit_def)
  have nthP: "P ! I = (if I < ?s then falseLit e else A ! (I - ?s))" if "I < ?N" for I
    using that by (auto simp: P_def nth_append)
  have eq: "productAddend e A T = (if Subtract T then map negl P else P)"
    by (rule nth_equalityI) (use nthP in \<open>auto simp: productAddend_def Let_def lenP nn\<close>)
  have "int (bitsVal m (map negl P)) + 1 = 2 ^ ?N - int (bitsVal m P)"
    using arg_cong [OF bitsVal_negl [of m P], of int] lenP by simp
  then have "int (bitsVal m (productAddend e A T)) + of_bool (Subtract T) - termWeight T * int (bitsVal m A) =
      (if Subtract T then 2 ^ ?N - (int (bitsVal m P) - 2 ^ ?s * int (bitsVal m A))
       else int (bitsVal m P) - 2 ^ ?s * int (bitsVal m A))"
    by (cases "Subtract T") (simp_all add: eq termWeight_def)
  then show ?thesis using P dvd_diff [OF dvd_refl P] by (cases "Subtract T") simp_all
qed

lemma productAddend_inr:
  assumes "enc_ok e" "inr e (set A)"
  shows "inr e (set (productAddend e A T))"
  using assms enc_okD(2) by (auto simp: inr_def productAddend_def Let_def trueLit_def falseLit_def)

lemma yields_patternLoop:
  assumes "enc_ok e" "length Out = length A" "inr e (set A \<union> set Out)"
  shows "yields e (patternLoop A Ts Out e) set
    (\<lambda>m R. 2 ^ length A dvd int (bitsVal m R) - (int (bitsVal m Out) + sum_list (map termWeight Ts) * int (bitsVal m A)))"
  using assms
proof (induction Ts arbitrary: Out e)
  case Nil
  then show ?case by (auto intro!: yields_return)
next
  case (Cons T Ts)
  let ?Fill = "if Subtract T then trueLit e else falseLit e"
  have r: "inr e (insert ?Fill (set Out \<union> set (productAddend e A T)))"
    using Cons.prems productAddend_inr [OF Cons.prems(1), of A T] enc_okD(2) [OF Cons.prems(1)]
    by (simp add: trueLit_def falseLit_def)
  have len: "length Out = length (productAddend e A T)" using Cons.prems by simp
  show ?case unfolding patternLoop.simps Let_def
  proof (rule yields_bind [OF yields_addBits [OF len r]])
    fix S u
    show "enc_mono u (snd (patternLoop A Ts S u))" by (rule enc_mono_patternLoop)
    assume a: "addBits Out (productAddend e A T) ?Fill e = (S, u)" and u: "enc_ok u" "nv e \<le> nv u" and S: "inr u (set S)"
    have lS: "length S = length A" using length_addBits [of Out "productAddend e A T" ?Fill e] a Cons.prems by simp
    have "inr u (set A \<union> set S)" using inr_mono [OF _ u(2)] Cons.prems S by simp
    from Cons.IH [OF u(1) lS this] show "yields u (patternLoop A Ts S u) set
        (\<lambda>m R. m \<in> mods e \<longrightarrow> bitsVal m S = (bitsVal m Out + bitsVal m (productAddend e A T) +
             of_bool (lit_true m ?Fill)) mod 2 ^ length Out \<longrightarrow>
           2 ^ length A dvd int (bitsVal m R) -
             (int (bitsVal m Out) + sum_list (map termWeight (T # Ts)) * int (bitsVal m A)))"
    proof (rule yields_weaken, intro impI)
      fix m R
      assume ih: "2 ^ length A dvd int (bitsVal m R) - (int (bitsVal m S) + sum_list (map termWeight Ts) * int (bitsVal m A))"
        and m: "m \<in> mods e"
        and S: "bitsVal m S = (bitsVal m Out + bitsVal m (productAddend e A T) + of_bool (lit_true m ?Fill)) mod 2 ^ length Out"
      have fill: "lit_true m ?Fill = Subtract T"
        using trueLit_true [OF Cons.prems(1) m] by (auto simp: trueLit_def falseLit_def)
      let ?x = "int (bitsVal m Out) + int (bitsVal m (productAddend e A T)) + of_bool (Subtract T)"
      have "int (bitsVal m S) = ?x mod 2 ^ length A" using S Cons.prems(2) fill by (simp add: zmod_int)
      then have "2 ^ length A dvd int (bitsVal m S) - ?x" by (simp add: mod_eq_dvd_iff [symmetric])
      from dvd_add [OF this dvd_add [OF ih productAddend_value [OF Cons.prems(1) m, of A T]]]
      show "2 ^ length A dvd int (bitsVal m R) -
          (int (bitsVal m Out) + sum_list (map termWeight (T # Ts)) * int (bitsVal m A))"
        by (simp add: algebra_simps)
    qed simp
  qed
qed

lemma yields_multiplyByPattern:
  assumes ok: "enc_ok e" and r: "inr e (set A)" and len: "length P = length A"
    and P: "\<And>m. m \<in> mods e \<Longrightarrow> patternVal P = int (b m)"
  shows "yields e (multiplyByPattern A P e) set (\<lambda>m Out. bitsVal m Out = (bitsVal m A * b m) mod 2 ^ length A)"
proof -
  let ?Z = "replicate (length A) (falseLit e)"
  have z: "inr e (set A \<union> set ?Z)" using r enc_okD(2) [OF ok] by (auto simp: inr_def falseLit_def)
  have "yields e (multiplyByPattern A P e) (\<lambda>Out. set Out) (\<lambda>m Out. 2 ^ length A dvd int (bitsVal m Out) -
      (int (bitsVal m ?Z) + sum_list (map termWeight (recodeMultiplier P)) * int (bitsVal m A)))"
    unfolding multiplyByPattern_def by (rule yields_patternLoop [OF ok _ z]) simp
  then have y: "yields e (case multiplyByPattern A P e of (Out, u) \<Rightarrow> (Out, u)) set
    (\<lambda>m Out. length Out = length A \<longrightarrow> bitsVal m Out = (bitsVal m A * b m) mod 2 ^ length A)"
  proof (rule yields_map [where T = "{}"])
    fix m Out
    assume m: "m \<in> mods e" and v: "2 ^ length A dvd int (bitsVal m Out) -
      (int (bitsVal m ?Z) + sum_list (map termWeight (recodeMultiplier P)) * int (bitsVal m A))"
    note z = constants_true(3) [OF ok m]
    have w: "2 ^ length A dvd (sum_list (map termWeight (recodeMultiplier P)) - int (b m)) * int (bitsVal m A)"
      using recodeMultiplier_weight [of P] P [OF m] len by simp
    have "2 ^ length A dvd int (bitsVal m Out) - int (bitsVal m A) * int (b m)"
      using dvd_add [OF v w] by (simp add: z algebra_simps)
    then have "int (bitsVal m Out) mod 2 ^ length A = int (bitsVal m A * b m) mod 2 ^ length A"
      by (simp add: mod_eq_dvd_iff)
    then have "int (bitsVal m Out mod 2 ^ length A) = int ((bitsVal m A * b m) mod 2 ^ length A)"
      by (simp only: zmod_int of_nat_power of_nat_numeral)
    then have "bitsVal m Out mod 2 ^ length A = (bitsVal m A * b m) mod 2 ^ length A" by linarith
    then show "length Out = length A \<longrightarrow> bitsVal m Out = (bitsVal m A * b m) mod 2 ^ length A"
      using bitsVal_less [of m Out] by auto
  qed auto
  have l: "length (fst (multiplyByPattern A P e)) = length A" by (simp add: multiplyByPattern_def)
  from y show ?thesis by (simp add: yields_def l)
qed

section \<open>Long multiplication\<close>

lemma length_rowsLoop [simp]:
  "length Out = length A \<Longrightarrow> Row + length Bs \<le> length A \<Longrightarrow> length (fst (rowsLoop A Row Bs Out e)) = length A"
  by (induction Bs arbitrary: Row Out e) (simp_all add: case_prod_beta)

lemma yields_rowLoop:
  assumes "length Os \<le> length As" "inr e ({M, C} \<union> set Os \<union> set As)"
  shows "yields e (rowLoop M Os As C e) set
    (\<lambda>m Out. bitsVal m Out = (bitsVal m Os + of_bool (lit_true m M) * bitsVal m As + of_bool (lit_true m C)) mod 2 ^ length Os)"
  using assms
proof (induction Os arbitrary: As C e)
  case Nil
  then show ?case by (auto intro!: yields_return)
next
  case (Cons X Os)
  then obtain Y F where As: "As = Y # F" by (cases As) auto
  show ?case unfolding As rowLoop.simps
  proof (rule yields_bind [OF yields_mkAnd2])
    show "inr e {Y, M}" using Cons.prems As by simp
    fix P u
    show "enc_mono u (snd (if Os = [] then case mkXor [X, P, C] u of (S, e) \<Rightarrow> ([S], e)
        else case mkFullAdder X P C u of ((S, Next), e) \<Rightarrow>
          case rowLoop M Os F Next e of (Out, e) \<Rightarrow> (S # Out, e)))"
      by (auto intro!: step_monos enc_mono_rowLoop)
    assume u: "enc_ok u" "nv e \<le> nv u" and P: "inr u {P}"
    have r: "inr u {X, P, C}" "inr u (insert M (set Os \<union> set F))" "length Os \<le> length F"
      using inr_mono [OF Cons.prems(2) u(2)] Cons.prems(1) As P by simp_all
    let ?W = "\<lambda>m Out. m \<in> mods e \<longrightarrow> lit_true m P = (lit_true m Y \<and> lit_true m M) \<longrightarrow>
      bitsVal m Out = (bitsVal m (X # Os) + of_bool (lit_true m M) * bitsVal m (Y # F) + of_bool (lit_true m C)) mod 2 ^ length (X # Os)"
    have xor: "yields u (mkXor [X, P, C] u) one (\<lambda>m L. lit_true m L = parity (map (lit_true m) [X, P, C]))"
      using r(1) by (intro yields_mkXor) simp
    have top: "yields u (case mkXor [X, P, C] u of (S, e) \<Rightarrow> ([S], e)) set ?W" if "Os = []"
    proof (rule yields_map [OF xor, where T = "{}"])
      fix m L
      assume L: "lit_true m L = parity (map (lit_true m) [X, P, C])"
      show "?W m [L]" using that L by (cases "lit_true m M") (auto simp: mod2_eq_if)
    qed auto
    have cell: "yields u (case mkFullAdder X P C u of ((S, Next), e) \<Rightarrow>
        case rowLoop M Os F Next e of (Out, e) \<Rightarrow> (S # Out, e)) set ?W"
    proof (rule yields_bind2 [OF yields_mkFullAdder [OF r(1)]], simp add: enc_mono_rowLoop, unfold prod.case)
      fix S N w assume w: "nv u \<le> nv w" and S: "inr w {S, N}"
      have "inr w ({M, N} \<union> set Os \<union> set F)" using inr_mono [OF r(2) w] S by simp
      from Cons.IH [OF r(3) this] show "yields w (case rowLoop M Os F N w of (Out, e) \<Rightarrow> (S # Out, e)) set
          (\<lambda>m Out. m \<in> mods u \<longrightarrow> of_bool (lit_true m S) + 2 * of_bool (lit_true m N) =
             of_bool (lit_true m X) + of_bool (lit_true m P) + (of_bool (lit_true m C) :: nat) \<and>
             lit_true m N = majority (lit_true m X) (lit_true m P) (lit_true m C) \<longrightarrow> ?W m Out)"
      proof (rule yields_map [OF _ S], goal_cases)
        case (2 m Out)
        then have v: "bitsVal m Out = (bitsVal m Os + of_bool (lit_true m M) * bitsVal m F + of_bool (lit_true m N)) mod 2 ^ length Os"
          by simp
        let ?x = "bitsVal m Os + of_bool (lit_true m M) * bitsVal m F + of_bool (lit_true m N)"
        have "bitsVal m (S # Out) = (of_bool (lit_true m S) + 2 * ?x) mod 2 ^ Suc (length Os)"
          using v by (subst mod_step) simp_all
        moreover have "of_bool (lit_true m S) + 2 * ?x =
            bitsVal m (X # Os) + of_bool (lit_true m M) * bitsVal m (Y # F) + of_bool (lit_true m C)"
          if "of_bool (lit_true m S) + 2 * of_bool (lit_true m N) =
             of_bool (lit_true m X) + of_bool (lit_true m P) + (of_bool (lit_true m C) :: nat)"
             "lit_true m P = (lit_true m Y \<and> lit_true m M)"
          using that by (cases "lit_true m M") simp_all
        ultimately show ?case by (intro impI) (metis length_Cons)
      qed auto
    qed
    from top cell show "yields u (if Os = [] then case mkXor [X, P, C] u of (S, e) \<Rightarrow> ([S], e)
        else case mkFullAdder X P C u of ((S, Next), e) \<Rightarrow>
          case rowLoop M Os F Next e of (Out, e) \<Rightarrow> (S # Out, e)) set ?W" by simp
  qed
qed

lemma row_value:
  assumes "Row \<le> length Out" and "bitsVal m Win = (bitsVal m (drop Row Out) + x) mod 2 ^ (length Out - Row)"
  shows "bitsVal m (take Row Out @ Win) = (bitsVal m Out + 2 ^ Row * x) mod 2 ^ length Out"
proof -
  have lo: "bitsVal m (take Row Out) < 2 ^ Row" using bitsVal_less [of m "take Row Out"] assms(1) by simp
  have o: "bitsVal m Out = bitsVal m (take Row Out) + 2 ^ Row * bitsVal m (drop Row Out)"
    using bitsVal_append [of m "take Row Out" "drop Row Out"] assms(1) by (simp add: min_def)
  have "bitsVal m (take Row Out @ Win) = bitsVal m (take Row Out) + 2 ^ Row * bitsVal m Win"
    using assms(1) by (simp add: bitsVal_append min_def)
  also have "\<dots> = (bitsVal m (take Row Out) + 2 ^ Row * (bitsVal m (drop Row Out) + x)) mod 2 ^ (Row + (length Out - Row))"
    unfolding assms(2) by (rule mod_split [OF lo, symmetric])
  also have "\<dots> = (bitsVal m Out + 2 ^ Row * x) mod 2 ^ length Out"
    using assms(1) unfolding o by (simp add: algebra_simps)
  finally show ?thesis .
qed

lemma yields_rowsLoop:
  assumes "enc_ok e" "length Out = length A" "Row + length Bs = length A" "inr e (set A \<union> set Bs \<union> set Out)"
  shows "yields e (rowsLoop A Row Bs Out e) set
    (\<lambda>m R. bitsVal m R = (bitsVal m Out + 2 ^ Row * (bitsVal m A * bitsVal m Bs)) mod 2 ^ length A)"
  using assms
proof (induction Bs arbitrary: Row Out e)
  case Nil
  then show ?case
    by (auto intro!: yields_return simp: mod_less bitsVal_less) (metis bitsVal_less mod_less)
next
  case (Cons M Bs)
  show ?case
  proof (cases "isFalseLit e M")
    case True
    have "yields e (rowsLoop A (Suc Row) Bs Out e) set
        (\<lambda>m R. bitsVal m R = (bitsVal m Out + 2 ^ Row * (bitsVal m A * bitsVal m (M # Bs))) mod 2 ^ length A)"
      by (rule yields_weaken [OF Cons.IH])
        (use Cons.prems isFalseLit_sound [OF Cons.prems(1) _ True] in \<open>auto simp: algebra_simps\<close>)
    with True show ?thesis by simp
  next
    case False
    have Row: "Row < length Out" "length (drop Row Out) \<le> length A" using Cons.prems by simp_all
    have r: "inr e ({M, falseLit e} \<union> set (drop Row Out) \<union> set A)"
      using Cons.prems constants_inr [OF Cons.prems(1)] by auto
    have "yields e (case rowLoop M (drop Row Out) A (falseLit e) e of (Win, e) \<Rightarrow>
        rowsLoop A (Suc Row) Bs (take Row Out @ Win) e) set
        (\<lambda>m R. bitsVal m R = (bitsVal m Out + 2 ^ Row * (bitsVal m A * bitsVal m (M # Bs))) mod 2 ^ length A)"
    proof (rule yields_bind [OF yields_rowLoop [OF Row(2) r]])
      fix Win u
      show "enc_mono u (snd (rowsLoop A (Suc Row) Bs (take Row Out @ Win) u))" by (rule enc_mono_rowsLoop)
      assume w: "rowLoop M (drop Row Out) A (falseLit e) e = (Win, u)" and u: "enc_ok u" "nv e \<le> nv u"
        and Win: "inr u (set Win)"
      let ?O = "take Row Out @ Win"
      have "length Win = length A - Row"
        using length_rowLoop [of M "drop Row Out" A "falseLit e" e] w Cons.prems by simp
      then have pre: "length ?O = length A" "Suc Row + length Bs = length A" using Cons.prems by simp_all
      have "inr u (set A \<union> set Bs \<union> set (take Row Out))" using inr_mono [OF _ u(2)] Cons.prems by auto
      with Win have "inr u (set A \<union> set Bs \<union> set ?O)" by simp
      from Cons.IH [OF u(1) pre this]
      show "yields u (rowsLoop A (Suc Row) Bs ?O u) set
          (\<lambda>m R. m \<in> mods e \<longrightarrow> bitsVal m Win = (bitsVal m (drop Row Out) + of_bool (lit_true m M) * bitsVal m A +
               of_bool (lit_true m (falseLit e))) mod 2 ^ length (drop Row Out) \<longrightarrow>
             bitsVal m R = (bitsVal m Out + 2 ^ Row * (bitsVal m A * bitsVal m (M # Bs))) mod 2 ^ length A)"
      proof (rule yields_weaken, intro impI)
        fix m R
        assume ih: "bitsVal m R = (bitsVal m ?O + 2 ^ Suc Row * (bitsVal m A * bitsVal m Bs)) mod 2 ^ length A"
          and m: "m \<in> mods e" and win: "bitsVal m Win = (bitsVal m (drop Row Out) + of_bool (lit_true m M) * bitsVal m A +
               of_bool (lit_true m (falseLit e))) mod 2 ^ length (drop Row Out)"
        have "bitsVal m ?O = (bitsVal m Out + 2 ^ Row * (of_bool (lit_true m M) * bitsVal m A)) mod 2 ^ length Out"
          using win Row constants_true(2) [OF Cons.prems(1) m] by (intro row_value) simp_all
        with ih Cons.prems(2) have "bitsVal m R = (bitsVal m Out + 2 ^ Row * (of_bool (lit_true m M) * bitsVal m A) +
            2 ^ Suc Row * (bitsVal m A * bitsVal m Bs)) mod 2 ^ length A"
          by (simp add: mod_add_left_eq)
        also have "bitsVal m Out + 2 ^ Row * (of_bool (lit_true m M) * bitsVal m A) + 2 ^ Suc Row * (bitsVal m A * bitsVal m Bs) =
            bitsVal m Out + 2 ^ Row * (bitsVal m A * bitsVal m (M # Bs))" by (simp add: algebra_simps)
        finally show "bitsVal m R = (bitsVal m Out + 2 ^ Row * (bitsVal m A * bitsVal m (M # Bs))) mod 2 ^ length A" .
      qed simp
    qed
    with False show ?thesis by simp
  qed
qed

lemma zeroPrefix_value:
  assumes "enc_ok e" "m \<in> mods e"
  shows "bitsVal m A = 2 ^ zeroPrefix e A * bitsVal m (drop (zeroPrefix e A) A)"
proof (induction A)
  case (Cons X A)
  then show ?case using isFalseLit_sound [OF assms] by (simp add: zeroPrefix_def)
qed (simp add: zeroPrefix_def)

lemma zeroPrefix_le: "zeroPrefix e A \<le> length A"
  by (simp add: zeroPrefix_def length_takeWhile_le)

lemma constantPattern_value:
  assumes "enc_ok e" "m \<in> mods e" "constantPattern e A = Some P"
  shows "patternVal P = int (bitsVal m A)" "length P = length A"
proof -
  have P: "P = map (isTrueLit e) A" "list_all (isConstant e) A"
    using assms(3) by (auto simp: constantPattern_def split: if_splits)
  then have "P = map (lit_true m) A" using isConstant_sound [OF assms(1,2)] by (auto simp: list_all_iff)
  moreover have "patternVal (map f Ls) = int (horner_sum of_bool 2 (map f Ls))" for f :: "SatLit \<Rightarrow> bool" and Ls
    by (induction Ls) (simp_all add: patternVal_def)
  ultimately show "patternVal P = int (bitsVal m A)" by (simp add: bitsVal_def)
  show "length P = length A" by (simp add: P)
qed

lemma constantPattern_length: "constantPattern e A = Some P \<Longrightarrow> length P = length A"
  by (auto simp: constantPattern_def split: if_splits)

lemma product_shift:
  assumes N: "N = s + k" "s = i + j"
  shows "2 ^ s * ((a mod 2 ^ k * (b mod 2 ^ k)) mod 2 ^ k) = ((2 ^ i * a) * (2 ^ j * b)) mod (2 :: nat) ^ N"
proof -
  have "(a mod 2 ^ k * (b mod 2 ^ k)) mod 2 ^ k = (a * b) mod (2 :: nat) ^ k" by (simp add: mod_mult_eq)
  then show ?thesis using mod_split [of 0 s "a * b" k] by (simp add: N power_add algebra_simps)
qed

lemma yields_multiplyBits:
  assumes "enc_ok e" "length A = length B" "inr e (set A \<union> set B)"
  shows "yields e (multiplyBits A B e) set (\<lambda>m Out. bitsVal m Out = (bitsVal m A * bitsVal m B) mod 2 ^ length A)"
  using assms
proof (induction A B e rule: multiplyBits.induct)
  case (1 A B e)
  note ok = "1.prems"(1) and len = "1.prems"(2) and r = "1.prems"(3)
  let ?N = "length A" and ?a = "zeroPrefix e A" and ?b = "zeroPrefix e B"
  let ?Z = "replicate ?N (falseLit e)" and ?k = "?N - (?a + ?b)"
  let ?W = "\<lambda>m Out. bitsVal m Out = (bitsVal m A * bitsVal m B) mod 2 ^ ?N"
  have z: "inr e (set ?Z)" by (rule constants_inr(3) [OF ok])
  note zp = zeroPrefix_value [OF ok]
  consider (zero) "?a \<noteq> 0 \<or> ?b \<noteq> 0" "?a \<ge> ?N - ?b" | (prefix) "?a \<noteq> 0 \<or> ?b \<noteq> 0" "?a < ?N - ?b"
    | (right) P where "?a = 0" "?b = 0" "constantPattern e B = Some P"
    | (left) P where "?a = 0" "?b = 0" "constantPattern e B = None" "constantPattern e A = Some P"
    | (rows) "?a = 0" "?b = 0" "constantPattern e B = None" "constantPattern e A = None"
    by (cases "constantPattern e B"; cases "constantPattern e A"; cases "?a \<ge> ?N - ?b") auto
  then show ?case
  proof cases
    case zero
    have "yields e (?Z, e) set ?W"
    proof (rule yields_return)
      fix m assume m: "m \<in> mods e"
      have "(2 :: nat) ^ ?N dvd 2 ^ ?a * 2 ^ ?b" unfolding power_add [symmetric]
        by (rule le_imp_power_dvd) (use zero(2) in simp)
      then have "(2 :: nat) ^ ?N dvd bitsVal m A * bitsVal m B"
        using dvd_mult2 [of "2 ^ ?N" "2 ^ ?a * 2 ^ ?b" "bitsVal m (drop ?a A) * bitsVal m (drop ?b B)"]
          zp(1) [OF m, of A] zp(1) [OF m, of B] by (simp add: mult.assoc mult.left_commute)
      then show "?W m ?Z" using constants_true(3) [OF ok m] by (simp add: mod_eq_0_iff_dvd)
    qed (rule z)
    with zero show ?thesis by (simp add: multiplyBits.simps [of A B e] Let_def)
  next
    case prefix
    let ?A = "take ?k (drop ?a A)" and ?B = "take ?k (drop ?b B)"
    have lens: "length ?A = ?k" "length ?B = ?k" using prefix(2) len by simp_all
    have ra: "inr e (set ?A \<union> set ?B)" using r by auto
    have ih: "yields e (multiplyBits ?A ?B e) set (\<lambda>m Out. bitsVal m Out = (bitsVal m ?A * bitsVal m ?B) mod 2 ^ length ?A)"
      using prefix lens ra ok by (intro "1.IH") simp_all
    have "yields e (case multiplyBits ?A ?B e of (Product, e) \<Rightarrow> (take (?a + ?b) ?Z @ Product, e)) set ?W"
    proof (rule yields_map [OF ih z])
      fix m Out
      assume m: "m \<in> mods e" and v: "bitsVal m Out = (bitsVal m ?A * bitsVal m ?B) mod 2 ^ length ?A"
      have "bitsVal m (take (?a + ?b) ?Z @ Out) = 2 ^ (?a + ?b) * bitsVal m Out"
        using prefix(2) constants_true(3) [OF ok m] by (auto simp: bitsVal_append min_def)
      also have "\<dots> = (2 ^ ?a * bitsVal m (drop ?a A)) * (2 ^ ?b * bitsVal m (drop ?b B)) mod 2 ^ ?N"
        unfolding v lens bitsVal_take by (rule product_shift) (use prefix(2) in simp_all)
      also have "\<dots> = (bitsVal m A * bitsVal m B) mod 2 ^ ?N"
        using zp(1) [OF m, of A] zp(1) [OF m, of B] by simp
      finally show "?W m (take (?a + ?b) ?Z @ Out)" .
    qed (auto dest: in_set_takeD)
    with prefix show ?thesis by (simp add: multiplyBits.simps [of A B e] Let_def)
  next
    case right
    have "yields e (multiplyByPattern A P e) set (\<lambda>m Out. bitsVal m Out = (bitsVal m A * bitsVal m B) mod 2 ^ ?N)"
      using constantPattern_value [OF ok _ right(3)] constantPattern_length [OF right(3)] r len
      by (intro yields_multiplyByPattern [OF ok]) auto
    with right show ?thesis by (simp add: multiplyBits.simps [of A B e] Let_def)
  next
    case left
    have "yields e (multiplyByPattern B P e) set (\<lambda>m Out. bitsVal m Out = (bitsVal m B * bitsVal m A) mod 2 ^ length B)"
      using constantPattern_value [OF ok _ left(4)] constantPattern_length [OF left(4)] r len
      by (intro yields_multiplyByPattern [OF ok]) auto
    with left len show ?thesis by (simp add: multiplyBits.simps [of A B e] Let_def mult.commute)
  next
    case rows
    have "yields e (rowsLoop A 0 B ?Z e) set ?W"
      by (rule yields_weaken [OF yields_rowsLoop [OF ok]]) (use r z len constants_true(3) [OF ok] in auto)
    with rows show ?thesis by (simp add: multiplyBits.simps [of A B e] Let_def)
  qed
qed

lemma length_multiplyBits [simp]: "length A = length B \<Longrightarrow> length (fst (multiplyBits A B e)) = length A"
proof (induction A B e rule: multiplyBits.induct)
  case (1 A B e)
  let ?a = "zeroPrefix e A" and ?b = "zeroPrefix e B" and ?N = "length A"
  show ?case
  proof (cases "(?a \<noteq> 0 \<or> ?b \<noteq> 0) \<and> ?a < ?N - ?b")
    case True
    let ?k = "?N - (?a + ?b)"
    have l: "length (take ?k (drop ?a A)) = ?k" "length (take ?k (drop ?b B)) = ?k" using True 1(2) by simp_all
    with True 1(1) have "length (fst (multiplyBits (take ?k (drop ?a A)) (take ?k (drop ?b B)) e)) = ?k" by simp
    with True show ?thesis by (simp add: multiplyBits.simps [of A B e] Let_def case_prod_beta)
  next
    case False
    then consider "?a = 0" "?b = 0" | "?a \<noteq> 0 \<or> ?b \<noteq> 0" "?N - ?b \<le> ?a" by linarith
    then show ?thesis
      by cases (use 1(2) in \<open>simp_all add: multiplyBits.simps [of A B e] Let_def multiplyByPattern_def constantPattern_def\<close>)
  qed
qed

section \<open>What the circuits promise\<close>

lemma yieldsD:
  assumes "yields e r lits V" "enc_ok e" "r = (x, e')" "\<not> enc_full e'"
  shows "good e e'" "inr e' (lits x)" "\<And>m. m \<in> mods e' \<Longrightarrow> V m x"
  using assms by (simp_all add: yields_def)

text \<open>Gates over the constants fold away.\<close>

lemma constant_folds [simp]:
  "isConstant e (trueLit e)" "isConstant e (falseLit e)" "isTrueLit e (trueLit e)" "\<not> isTrueLit e (falseLit e)"
  "isFalseLit e (falseLit e)" "\<not> isFalseLit e (trueLit e)"
  by (simp_all add: isConstant_def isTrueLit_def isFalseLit_def trueLit_def falseLit_def)

lemma constantLit_simps [simp]: "constantLit e True = trueLit e" "constantLit e False = falseLit e"
  "negl (trueLit e) = falseLit e" "negl (falseLit e) = trueLit e"
  by (simp_all add: constantLit_def trueLit_def falseLit_def withPolarity_eq)

text \<open>
  C26.  Addition modulo two to the width: in every model the output vector is worth the sum of the
  operands and the carry, whatever pairs of operand bits repeat and whatever folds away.\<close>

theorem addition_circuit:
  assumes "enc_ok e" "length A = length B" "\<forall>L \<in> set A \<union> set B. unat (var L) < nv e" "unat (var C) < nv e"
    "addBits A B C e = (Out, e')" "\<not> enc_full e'"
  shows "good e e' \<and> length Out = length A \<and>
    (\<forall>m \<in> mods e'. bitsVal m Out = (bitsVal m A + bitsVal m B + of_bool (lit_true m C)) mod 2 ^ length A)"
proof -
  have r: "inr e (insert C (set A \<union> set B))" using assms(3,4) by (auto simp: inr_def)
  note y = yieldsD [OF yields_addBits [OF assms(2) r] assms(1,5,6)]
  have "length Out = length A" using length_addBits [of A B C e] assms(2,5) by simp
  with y show ?thesis by blast
qed

lemma room_addLoop:
  assumes "enc_ok e" "length A = length B" "inr e (insert C (set A \<union> set B))" "room (n + 2 * length A) e"
  shows "room n (snd (addLoop W P A B C e))"
  using assms
proof (induction A arbitrary: B P C e)
  case (Cons X A)
  then obtain Y F where B: "B = Y # F" by (cases B) auto
  have pre: "inr e {X, Y, C}" "inr e (set A \<union> set F)" "length A = length F" using Cons.prems B by simp_all
  have room2: "room ((n + 2 * length A) + 2) e" "room (Suc (Suc (n + 2 * length A))) e" using Cons.prems(4) by simp_all
  have xr: "room (Suc (n + 2 * length A)) (snd (mkXor [X, Y, C] e))"
    by (rule room_one_gate [OF Cons.prems(1) one_gate_mkXor3 room2(2)]) (use Cons.prems(1) pre in simp_all)
  have fr: "room (n + 2 * length A) (snd (mkFullAdder X Y C e))"
    by (rule room_mkFullAdder [OF Cons.prems(1) _ _ _ room2(1)]) (use pre in simp_all)
  have x: "yields e (mkXor [X, Y, C] e) one (\<lambda>m L. lit_true m L = parity (map (lit_true m) [X, Y, C]))"
    using pre(1) by (intro yields_mkXor) simp
  obtain S u where u: "mkXor [X, Y, C] e = (S, u)" by fastforce
  note yu = yieldsD [OF x Cons.prems(1) u] 
  obtain T K w where w: "mkFullAdder X Y C e = ((T, K), w)" by (metis prod.collapse)
  note yw = yieldsD [OF yields_mkFullAdder [OF pre(1)] Cons.prems(1) w]
  have nu: "\<not> enc_full u" "\<not> enc_full w" using room_not_full xr fr u w by auto
  have iu: "inr u (insert C (set A \<union> set F))" "inr w (insert K (set A \<union> set F))"
    using inr_mono [OF pre(1) goodD(2) [OF yu(1) [OF nu(1)]]] inr_mono [OF pre(2) goodD(2) [OF yu(1) [OF nu(1)]]]
      inr_mono [OF pre(2) goodD(2) [OF yw(1) [OF nu(2)]]] yw(2) [OF nu(2)] by simp_all
  have r1: "room n (snd (addLoop W (Some (X, Y)) A F C u))"
    using Cons.IH [OF goodD(1) [OF yu(1) [OF nu(1)]] pre(3) iu(1)] room_mono [OF xr] u by simp
  have r2: "room n (snd (addLoop W (Some (X, Y)) A F K w))"
    using Cons.IH [OF goodD(1) [OF yw(1) [OF nu(2)]] pre(3) iu(2)] fr w by simp
  have r3: "room n u" using room_mono [OF xr, of n] u by simp
  show ?case using r1 r2 r3 by (simp add: B u w)
qed (auto intro: room_mono)

lemma room_addBits:
  assumes "enc_ok e" "length A = length B" "inr e (insert C (set A \<union> set B))" "room (n + 2 * length A) e"
  shows "room n (snd (addBits A B C e))"
  using room_addLoop [OF assms] by (simp add: addBits_def)

theorem addition_circuit_witness:
  "mods (snd (addBits [positive 0, positive 1] [positive 1, positive 0] (positive 0) two_inputs)) \<subseteq> {m. bitsVal m (fst (addBits [positive 0, positive 1] [positive 1, positive 0] (positive 0) two_inputs)) =
     (bitsVal m [positive 0, positive 1] + bitsVal m [positive 1, positive 0] + of_bool (lit_true m (positive 0))) mod 4}"
proof -
  have "room 0 (snd (addBits [positive 0, positive 1] [positive 1, positive 0] (positive 0) two_inputs))"
    by (rule room_addBits [OF two_inputs_ok(1)]) (simp_all add: two_inputs_room)
  from addition_circuit [OF two_inputs_ok(1) _ _ _ prod.collapse [symmetric] room_not_full [OF this]]
  show ?thesis by auto
qed

text \<open>
  C21.  Multiplication modulo two to the width: in every model the output vector is worth the product
  of the operands, through the removal of known-zero low bits, the recoding of a literal factor into
  runs to add and to subtract, and the rows of the long multiplication.\<close>

theorem multiplication_circuit:
  assumes "enc_ok e" "length A = length B" "\<forall>L \<in> set A \<union> set B. unat (var L) < nv e"
    "multiplyBits A B e = (Out, e')" "\<not> enc_full e'"
  shows "good e e' \<and> length Out = length A \<and>
    (\<forall>m \<in> mods e'. bitsVal m Out = (bitsVal m A * bitsVal m B) mod 2 ^ length A)"
proof -
  have r: "inr e (set A \<union> set B)" using assms(3) by (simp add: inr_def)
  note y = yieldsD [OF yields_multiplyBits [OF assms(1,2) r] assms(1,4,5)]
  have "length Out = length A" using length_multiplyBits [OF assms(2), of e] assms(4) by simp
  with y show ?thesis by blast
qed

lemma two_inputs_constants: "unat (var (trueLit two_inputs)) < 3" "unat (var (falseLit two_inputs)) < 3"
  using constants_inr [OF two_inputs_ok(1)] by simp_all

lemma two_inputs_not_full: "\<not> enc_full two_inputs"
  using room_not_full [OF two_inputs_room [of 0]] by simp

theorem multiplication_circuit_witness:
  "mods two_inputs \<subseteq> {m. bitsVal m (fst (multiplyBits [trueLit two_inputs, trueLit two_inputs, trueLit two_inputs] [trueLit two_inputs, trueLit two_inputs, trueLit two_inputs] two_inputs)) =
     (bitsVal m [trueLit two_inputs, trueLit two_inputs, trueLit two_inputs] * bitsVal m [trueLit two_inputs, trueLit two_inputs, trueLit two_inputs]) mod 2 ^ 3}"
proof -
  let ?T = "[trueLit two_inputs, trueLit two_inputs, trueLit two_inputs]"
  have e: "snd (multiplyBits ?T ?T two_inputs) = two_inputs"
    by (simp add: multiplyBits.simps [of ?T ?T] zeroPrefix_def constantPattern_def multiplyByPattern_def numeral_3_eq_3
        recodeMultiplier_def runLength_def runTerms_def Let_def addBits_def productAddend_def upt_rec
        repeatedPair_def mkXor_def mkFullAdder_def sortGateInputs_def mkMajority_def mkOr2_def mkAnd2_def mkOr_def mkAnd_def)
  from multiplication_circuit [OF two_inputs_ok(1) refl _ prod.collapse [symmetric], of ?T] two_inputs_constants
    two_inputs_not_full e show ?thesis by auto
qed

end
