(* ===== verification/Bit_Division.thy ===== *)
theory Bit_Division
  imports Bit_Arith "HOL-Library.Signed_Division"
begin

text \<open>
  Division.  The restoring divider subtracts the divisor from a remainder one bit wider than the
  operands, once per bit of the dividend from the top down; signed division divides the magnitudes and
  puts the signs back.
\<close>

section \<open>Long division\<close>

lemma yields_subtractLoop:
  assumes "enc_ok e" "length Bs \<le> length Ss" "inr e (insert C (set Ss \<union> set Bs))"
  shows "yields e (subtractLoop Ss Bs C e) (\<lambda>(Ds, K). insert K (set Ds))
    (\<lambda>m (Ds, K). bitsVal m Ds + 2 ^ length Ss * of_bool (lit_true m K) + bitsVal m Bs + 1 =
       bitsVal m Ss + 2 ^ length Ss + of_bool (lit_true m C))"
  using assms
proof (induction Ss arbitrary: Bs C e)
  case Nil
  then show ?case by (auto intro!: yields_return)
next
  case (Cons X Ss)
  let ?Op = "case Bs of B # _ \<Rightarrow> negl B | [] \<Rightarrow> trueLit e"
  let ?b = "\<lambda>m. case Bs of B # _ \<Rightarrow> lit_true m B | [] \<Rightarrow> False"
  have op: "inr e {X, ?Op, C}" using Cons.prems constants_inr(1) [OF Cons.prems(1)] by (auto split: list.split)
  have tl: "length (tl Bs) \<le> length Ss" "inr e (set Ss \<union> set (tl Bs))"
    using Cons.prems by (cases Bs; simp)+
  have val: "bitsVal m Bs = of_bool (?b m) + 2 * bitsVal m (tl Bs)" for m by (cases Bs) simp_all
  have opv: "m \<in> mods e \<Longrightarrow> lit_true m ?Op = (\<not> ?b m)" for m
    using constants_true(1) [OF Cons.prems(1)] by (cases Bs) simp_all
  show ?case unfolding subtractLoop.simps Let_def
  proof (rule yields_bind2 [OF yields_mkFullAdder [OF op]], simp add: enc_mono_subtractLoop, unfold prod.case)
    fix D N u assume u: "enc_ok u" "nv e \<le> nv u" and D: "inr u {D, N}"
    have r: "inr u (insert N (set Ss \<union> set (tl Bs)))" using inr_mono [OF tl(2) u(2)] D by simp
    show "yields u (case subtractLoop Ss (tl Bs) N u of ((Ds, C), e) \<Rightarrow> ((D # Ds, C), e))
        (\<lambda>(Ds, K). insert K (set Ds))
        (\<lambda>m r. m \<in> mods e \<longrightarrow> of_bool (lit_true m D) + 2 * of_bool (lit_true m N) =
            of_bool (lit_true m X) + of_bool (lit_true m ?Op) + (of_bool (lit_true m C) :: nat) \<and>
            lit_true m N = majority (lit_true m X) (lit_true m ?Op) (lit_true m C) \<longrightarrow>
            (case r of (Ds, K) \<Rightarrow> bitsVal m Ds + 2 ^ length (X # Ss) * of_bool (lit_true m K) + bitsVal m Bs + 1 =
              bitsVal m (X # Ss) + 2 ^ length (X # Ss) + of_bool (lit_true m C)))"
    proof (rule yields_map2 [OF Cons.IH [OF u(1) tl(1) r] D], goal_cases)
      case (2 m Ds K)
      then have ih: "bitsVal m Ds + 2 ^ length Ss * of_bool (lit_true m K) + bitsVal m (tl Bs) + 1 =
          bitsVal m Ss + 2 ^ length Ss + of_bool (lit_true m N)" by simp
      show ?case
      proof (intro impI)
        assume m: "m \<in> mods e" and cell: "of_bool (lit_true m D) + 2 * of_bool (lit_true m N) =
            of_bool (lit_true m X) + of_bool (lit_true m ?Op) + (of_bool (lit_true m C) :: nat) \<and>
            lit_true m N = majority (lit_true m X) (lit_true m ?Op) (lit_true m C)"
        have o: "of_bool (lit_true m ?Op) + of_bool (?b m) = (1 :: nat)" using opv [OF m] by simp
        have "of_bool (lit_true m D) + 2 * bitsVal m Ds + 2 * (2 ^ length Ss * of_bool (lit_true m K)) +
            (of_bool (?b m) + 2 * bitsVal m (tl Bs)) + 1 =
            of_bool (lit_true m X) + 2 * bitsVal m Ss + 2 * 2 ^ length Ss + of_bool (lit_true m C)"
          using ih conjunct1 [OF cell] o by linarith
        then show "case (D # Ds, K) of (Ds, K) \<Rightarrow> bitsVal m Ds + 2 ^ length (X # Ss) * of_bool (lit_true m K) + bitsVal m Bs + 1 =
            bitsVal m (X # Ss) + 2 ^ length (X # Ss) + of_bool (lit_true m C)"
          unfolding val [of m] by simp
      qed
    qed auto
  qed
qed

text \<open>What the remaining steps of the division make of the running remainder.\<close>

definition divides :: "nat \<Rightarrow> nat \<Rightarrow> nat \<Rightarrow> nat \<Rightarrow> nat \<Rightarrow> nat \<Rightarrow> nat \<Rightarrow> bool" where
  "divides W b r k v q r' \<longleftrightarrow>
     (0 < b \<longrightarrow> r < b \<longrightarrow> q = (r * 2 ^ k + v) div b \<and> r' = (r * 2 ^ k + v) mod b) \<and>
     (b = 0 \<longrightarrow> (r + 1) * 2 ^ k \<le> 2 ^ W \<longrightarrow> q = 2 ^ k - 1 \<and> r' = r * 2 ^ k + v)"

lemma divides_step:
  assumes b: "b < 2 ^ W" and t: "t \<le> 1"
    and s: "(0 < b \<and> r < b) \<or> (b = 0 \<and> (r + 1) * 2 ^ Suc k \<le> 2 ^ W) \<Longrightarrow>
      s = t + 2 * r \<and> (K \<longleftrightarrow> b \<le> s) \<and> x = (if b \<le> s then s - b else s)"
    and rest: "divides W b x k v q r'"
  shows "divides W b r (Suc k) (t * 2 ^ k + v) (q + 2 ^ k * of_bool K) r'"
proof -
  have eq: "r * 2 ^ Suc k + (t * 2 ^ k + v) = (t + 2 * r) * 2 ^ k + v" by (simp add: algebra_simps)
  have pos: "q + 2 ^ k * of_bool K = ((t + 2 * r) * 2 ^ k + v) div b \<and> r' = ((t + 2 * r) * 2 ^ k + v) mod b"
    if "0 < b" "r < b"
  proof -
    from s that have s: "s = t + 2 * r" "K \<longleftrightarrow> b \<le> s" "x = (if b \<le> s then s - b else s)" by auto
    have "x < b" using s t that by auto
    with rest that have q: "q = (x * 2 ^ k + v) div b" "r' = (x * 2 ^ k + v) mod b" by (auto simp: divides_def)
    have eq: "(t + 2 * r) * 2 ^ k + v = (x * 2 ^ k + v) + (2 ^ k * of_bool K) * b"
      unfolding s(1) [symmetric] using s(2,3) by (auto simp: diff_mult_distrib)
    show ?thesis unfolding eq q using that(1) by (simp only: div_mult_self1 mod_mult_self1) simp
  qed
  have zero: "q + 2 ^ k * of_bool K = 2 ^ Suc k - 1 \<and> r' = (t + 2 * r) * 2 ^ k + v"
    if "b = 0" "(r + 1) * 2 ^ Suc k \<le> 2 ^ W"
  proof -
    from s that have s: "s = t + 2 * r" "K" "x = s" by auto
    have "(x + 1) * 2 ^ k \<le> (r + 1) * 2 ^ Suc k" using s t by (simp add: algebra_simps)
    with that rest have "q = 2 ^ k - 1" "r' = x * 2 ^ k + v" by (auto simp: divides_def)
    with s show ?thesis by simp
  qed
  show ?thesis unfolding divides_def eq using pos zero by blast
qed

lemma length_divideLoop [simp]:
  "length Rest = Suc n \<Longrightarrow> length (fst (fst (divideLoop B Bits Rest e))) = length Bits \<and>
     length (snd (fst (divideLoop B Bits Rest e))) = Suc n"
proof (induction Bits arbitrary: Rest e)
  case (Cons X Bits)
  then show ?case by (simp add: case_prod_beta Let_def del: subtractLoop.simps selectBits.simps)
qed simp

lemma yields_divideLoop:
  assumes "enc_ok e" "length Rest = Suc (length B)" "inr e (set B \<union> set Bits \<union> set Rest)"
  shows "yields e (divideLoop B Bits Rest e) (\<lambda>(Q, R). set Q \<union> set R)
    (\<lambda>m (Q, R). length Q = length Bits \<longrightarrow>
       divides (length B) (bitsVal m B) (bitsVal m Rest) (length Bits) (bitsVal m (rev Bits)) (bitsVal m Q) (bitsVal m R))"
  using assms
proof (induction Bits arbitrary: Rest e)
  case Nil
  then show ?case by (auto intro!: yields_return simp: divides_def)
next
  case (Cons X Bits)
  let ?S = "X # butlast Rest" and ?W = "length B"
  let ?lits = "\<lambda>(Q, R). set Q \<union> set R"
  have lenS: "length ?S = Suc ?W" using Cons.prems by simp
  have rS: "inr e (insert (trueLit e) (set ?S \<union> set B))"
    using Cons.prems constants_inr(1) [OF Cons.prems(1)] inr_sublist(3) [of e Rest] by auto
  have yS: "yields e (subtractLoop ?S B (trueLit e) e) (\<lambda>(Ds, K). insert K (set Ds))
    (\<lambda>m (Ds, K). bitsVal m Ds + 2 ^ length ?S * of_bool (lit_true m K) + bitsVal m B + 1 =
       bitsVal m ?S + 2 ^ length ?S + of_bool (lit_true m (trueLit e)))"
    by (rule yields_subtractLoop [OF Cons.prems(1) _ rS]) (use lenS in simp)
  show ?case unfolding divideLoop.simps Let_def
  proof (rule yields_bind2 [OF yS], goal_cases)
    case (1 D K u)
    show ?case by (intro enc_mono_bind enc_mono_selectBits) (simp_all add: enc_mono_divideLoop split: prod.split)
  next
    case (2 D K u)
    then have u: "enc_ok u" "nv e \<le> nv u" and D: "inr u (insert K (set D))" by simp_all
    have lenD: "length D = Suc ?W"
      using length_subtractLoop [of ?S B "trueLit e" e] 2(1) lenS by (simp del: subtractLoop.simps)
    have rb: "inr e (set ?S)" "inr e (set B \<union> set Bits)" using rS Cons.prems by simp_all
    note ru = inr_mono [OF rb(1) u(2)] inr_mono [OF rb(2) u(2)]
    have ySel: "yields u (selectBits K D ?S u) set
        (\<lambda>m Out. map (lit_true m) Out = map (lit_true m) (if lit_true m K then D else ?S))"
      by (rule yields_selectBits) (use lenD lenS ru D in simp_all)
    show ?case
    proof (rule yields_bind [OF ySel], goal_cases)
      case 1
      show ?case by (simp add: enc_mono_divideLoop)
    next
      case (2 R w)
      then have w: "enc_ok w" "nv u \<le> nv w" and R: "inr w (set R)" by simp_all
      have lenR: "length R = Suc ?W" using length_selectBits [of K D ?S u] 2(1) lenD lenS by (simp del: selectBits.simps)
      have "inr w (set B \<union> set Bits \<union> set R)" using inr_mono [OF ru(2) w(2)] R by simp
      note ih = Cons.IH [OF w(1) lenR this]
      have K: "inr w {K}" by (rule inr_mono [OF _ w(2)]) (use D in simp)
      show ?case
      proof (rule yields_map2 [OF ih K], goal_cases)
        case (2 m Q R')
        then have d: "length Q = length Bits \<longrightarrow> divides ?W (bitsVal m B) (bitsVal m R) (length Bits)
            (bitsVal m (rev Bits)) (bitsVal m Q) (bitsVal m R')" by simp
        show ?case unfolding prod.case
        proof (intro impI)
          assume m: "m \<in> mods e" and sel: "map (lit_true m) R = map (lit_true m) (if lit_true m K then D else ?S)"
            and sub: "bitsVal m D + 2 ^ length ?S * of_bool (lit_true m K) + bitsVal m B + 1 =
              bitsVal m ?S + 2 ^ length ?S + of_bool (lit_true m (trueLit e))"
            and len: "length (Q @ [K]) = length (X # Bits)"
          have rv: "bitsVal m R = (if lit_true m K then bitsVal m D else bitsVal m ?S)"
            using sel unfolding bitsVal_def by (simp split: if_splits)
          have sub': "bitsVal m D + 2 ^ Suc ?W * of_bool (lit_true m K) + bitsVal m B = bitsVal m ?S + 2 ^ Suc ?W"
            using sub lenS constants_true(1) [OF Cons.prems(1) m] by (simp del: bitsVal_simps)
          have Dl: "bitsVal m D < 2 ^ Suc ?W" using bitsVal_less [of m D] lenD by simp
          have Bl: "bitsVal m B < 2 ^ ?W" by (rule bitsVal_less)
          have K: "lit_true m K \<longleftrightarrow> bitsVal m B \<le> bitsVal m ?S"
            using sub' Dl Bl by (cases "lit_true m K") (simp_all del: bitsVal_simps)
          have Sv: "bitsVal m ?S = of_bool (lit_true m X) + 2 * (bitsVal m Rest mod 2 ^ ?W)"
            using Cons.prems(2) by (simp add: butlast_conv_take bitsVal_take)
          have "divides ?W (bitsVal m B) (bitsVal m Rest) (Suc (length Bits))
              (of_bool (lit_true m X) * 2 ^ length Bits + bitsVal m (rev Bits))
              (bitsVal m Q + 2 ^ length Bits * of_bool (lit_true m K)) (bitsVal m R')"
          proof (rule divides_step [OF Bl, where s = "bitsVal m ?S" and x = "bitsVal m R"])
            assume c: "0 < bitsVal m B \<and> bitsVal m Rest < bitsVal m B \<or>
              bitsVal m B = 0 \<and> (bitsVal m Rest + 1) * 2 ^ Suc (length Bits) \<le> 2 ^ ?W"
            have "bitsVal m Rest < 2 ^ ?W"
            proof (cases "0 < bitsVal m B")
              case False
              with c have "(bitsVal m Rest + 1) * 2 ^ Suc (length Bits) \<le> 2 ^ ?W" by simp
              moreover have "(bitsVal m Rest + 1) * 1 \<le> (bitsVal m Rest + 1) * 2 ^ Suc (length Bits)"
                by (intro mult_le_mono2) simp
              ultimately have "bitsVal m Rest + 1 \<le> 2 ^ ?W" by (metis order_trans mult_1_right)
              then show ?thesis by simp
            qed (use c Bl in linarith)
            then have "bitsVal m ?S = of_bool (lit_true m X) + 2 * bitsVal m Rest" using Sv by simp
            moreover have "bitsVal m R = (if bitsVal m B \<le> bitsVal m ?S then bitsVal m ?S - bitsVal m B else bitsVal m ?S)"
              using rv K sub' by (cases "lit_true m K") (simp_all del: bitsVal_simps)
            ultimately show "bitsVal m ?S = of_bool (lit_true m X) + 2 * bitsVal m Rest \<and>
                (lit_true m K \<longleftrightarrow> bitsVal m B \<le> bitsVal m ?S) \<and>
                bitsVal m R = (if bitsVal m B \<le> bitsVal m ?S then bitsVal m ?S - bitsVal m B else bitsVal m ?S)"
              using K by blast
          qed (use d len in simp_all)
          then show "divides ?W (bitsVal m B) (bitsVal m Rest) (length (X # Bits)) (bitsVal m (rev (X # Bits)))
              (bitsVal m (Q @ [K])) (bitsVal m R')"
            using len by (simp add: bitsVal_append algebra_simps)
        qed
      qed auto
    qed
  qed
qed

lemma yields_divideBits:
  assumes ok: "enc_ok e" and len: "length A = length B" and r: "inr e (set A \<union> set B)"
  shows "yields e (divideBits A B e) (\<lambda>(Q, R). set Q \<union> set R)
    (\<lambda>m (Q, R). bitsVal m Q = (if bitsVal m B = 0 then 2 ^ length A - 1 else bitsVal m A div bitsVal m B) \<and>
       bitsVal m R = bitsVal m A mod bitsVal m B)"
proof -
  let ?Z = "replicate (length A + 1) (falseLit e)" and ?d = "divideLoop B (rev A) (replicate (length A + 1) (falseLit e)) e"
  have z: "inr e (set B \<union> set (rev A) \<union> set ?Z)" using r constants_inr(3) [OF ok, of "length A + 1"] by simp
  have y: "yields e ?d (\<lambda>(Q, R). set Q \<union> set R)
    (\<lambda>m (Q, R). length Q = length (rev A) \<longrightarrow>
       divides (length B) (bitsVal m B) (bitsVal m ?Z) (length (rev A)) (bitsVal m (rev (rev A))) (bitsVal m Q) (bitsVal m R))"
    by (rule yields_divideLoop [OF ok _ z]) (simp add: len)
  obtain Q R u where d: "?d = ((Q, R), u)" by (metis prod.collapse)
  have lq: "length Q = length A"
    using length_divideLoop [of ?Z "length A" B "rev A" e] unfolding d by (simp del: replicate.simps)
  have eq: "divideBits A B e = ((Q, take (length A) R), u)" unfolding divideBits_def d by simp
  show ?thesis
  proof (unfold eq yields_def fst_conv snd_conv prod.case, intro conjI impI ballI)
    show "enc_mono e u" using yields_mono [OF y] d by simp
    assume "enc_ok e" "\<not> enc_full u"
    with y d have g: "good e u" "inr u (set Q \<union> set R)"
      and v: "\<And>m. m \<in> mods u \<Longrightarrow> length Q = length (rev A) \<longrightarrow> divides (length B) (bitsVal m B) (bitsVal m ?Z)
        (length (rev A)) (bitsVal m (rev (rev A))) (bitsVal m Q) (bitsVal m R)"
      by (simp_all add: yields_def del: replicate.simps)
    show "good e u" by (rule g)
    show "inr u (set Q \<union> set (take (length A) R))" using g(2) by auto
    fix m assume m: "m \<in> mods u"
    have "bitsVal m ?Z = 0" by (rule constants_true(3) [OF ok goodD(3) [OF g(1) m]])
    with v [OF m] lq len have d: "divides (length A) (bitsVal m B) 0 (length A) (bitsVal m A) (bitsVal m Q) (bitsVal m R)"
      by (simp del: replicate.simps)
    then show "bitsVal m Q = (if bitsVal m B = 0 then 2 ^ length A - 1 else bitsVal m A div bitsVal m B)"
      by (auto simp: divides_def)
    have "bitsVal m R = bitsVal m A mod bitsVal m B" using d by (auto simp: divides_def)
    moreover have "bitsVal m A mod bitsVal m B < 2 ^ length A"
      using bitsVal_less [of m A] le_less_trans [OF mod_less_eq_dividend] by blast
    ultimately show "bitsVal m (take (length A) R) = bitsVal m A mod bitsVal m B"
      by (simp add: bitsVal_take)
  qed
qed

section \<open>Signed division\<close>

definition signedVal :: "assignment \<Rightarrow> LitVec \<Rightarrow> int" where
  "signedVal m A = int (bitsVal m A) - (if lit_true m (last A) then 2 ^ length A else 0)"

lemma signedVal_range:
  assumes "A \<noteq> []"
  shows "- (2 ^ (length A - 1)) \<le> signedVal m A" "signedVal m A < 2 ^ (length A - 1)"
    "signedVal m A < 0 \<longleftrightarrow> lit_true m (last A)"
proof -
  obtain As L where A: "A = As @ [L]" using assms by (meson rev_exhaust)
  have b: "int (bitsVal m As) < 2 ^ length As"
    using bitsVal_less [of m As] by (metis of_nat_less_iff of_nat_numeral of_nat_power)
  have v: "signedVal m A = int (bitsVal m As) - (if lit_true m L then 2 ^ length As else 0)"
    by (simp add: A signedVal_def bitsVal_append)
  have l: "length A - 1 = length As" "last A = L" by (simp_all add: A)
  have p: "(0 :: int) < 2 ^ length As" by simp
  show "- (2 ^ (length A - 1)) \<le> signedVal m A" "signedVal m A < 2 ^ (length A - 1)"
    "signedVal m A < 0 \<longleftrightarrow> lit_true m (last A)"
    unfolding v l using b p of_nat_0_le_iff [of "bitsVal m As", where 'a = int] 
    by (cases "lit_true m L"; simp only: if_True if_False simp_thms; linarith)+
qed

lemma bitsVal_pos: "A \<noteq> [] \<Longrightarrow> lit_true m (last A) \<Longrightarrow> 0 < bitsVal m A"
  by (induction A) (auto split: if_splits)

lemma bitsVal_map_eq: "map (lit_true m) X = map (lit_true m) Y \<Longrightarrow> bitsVal m X = bitsVal m Y"
  by (simp add: bitsVal_def)

lemma yields_applySign:
  assumes r: "inr e (insert S (set A))"
  shows "yields e (applySign S A e) set
    (\<lambda>m Out. bitsVal m Out = (if lit_true m S then (2 ^ length A - bitsVal m A) mod 2 ^ length A else bitsVal m A))"
  unfolding applySign_def
proof (rule yields_bind [OF yields_negateBits], goal_cases)
  case 1
  show ?case using r by simp
next
  case (2 N u)
  show ?case by (rule enc_mono_selectBits)
next
  case (3 N u)
  have len: "length N = length A" using length_negateBits [of A e] 3(1) by simp
  have "inr u (insert S (set A))" by (rule inr_mono [OF r 3(3)])
  then have "yields u (selectBits S N A u) set (\<lambda>m Out. map (lit_true m) Out = map (lit_true m) (if lit_true m S then N else A))"
    using 3(4) by (intro yields_selectBits [OF len]) simp
  then show ?case by (rule yields_weaken) (auto dest!: bitsVal_map_eq split: if_splits)
qed

lemma length_applySign [simp]: "length (fst (applySign S A e)) = length A"
  by (simp add: applySign_def case_prod_beta)

lemma magnitude_value:
  assumes "A \<noteq> []" "bitsVal m M = (if lit_true m (last A) then (2 ^ length A - bitsVal m A) mod 2 ^ length A else bitsVal m A)"
  shows "int (bitsVal m M) = \<bar>signedVal m A\<bar>"
proof (cases "lit_true m (last A)")
  case True
  then have neg: "signedVal m A < 0" using signedVal_range(3) [OF assms(1)] by simp
  have l: "bitsVal m A < 2 ^ length A" by (rule bitsVal_less)
  have i: "int (2 ^ length A - bitsVal m A) = - signedVal m A" using True l by (simp add: signedVal_def of_nat_diff)
  have "0 < bitsVal m A" by (rule bitsVal_pos [OF assms(1) True])
  then have "(2 ^ length A - bitsVal m A) mod 2 ^ length A = 2 ^ length A - bitsVal m A" by simp
  with True assms(2) i neg show ?thesis by simp
next
  case False
  with assms signedVal_range(3) [OF assms(1), of m] show ?thesis by (simp add: signedVal_def)
qed

lemma negate_mod:
  assumes "x \<le> 2 ^ n"
  shows "int ((2 ^ n - x) mod 2 ^ n) = (- int x) mod 2 ^ n"
proof -
  have "int ((2 ^ n - x) mod 2 ^ n) = (2 ^ n - int x) mod 2 ^ n" using assms by (simp add: zmod_int of_nat_diff)
  also have "\<dots> = (- int x) mod 2 ^ n" by (metis add_uminus_conv_diff add.commute mod_add_self2)
  finally show ?thesis .
qed

definition signedQuotient :: "int \<Rightarrow> int \<Rightarrow> int" where
  "signedQuotient a b = (if b = 0 then (if a < 0 then 1 else - 1) else a sdiv b)"

lemma signed_quotient_value:
  fixes a b :: int
  assumes q: "uq = (if b = 0 then 2 ^ n - 1 else nat \<bar>a\<bar> div nat \<bar>b\<bar>)" and a: "\<bar>a\<bar> \<le> 2 ^ n"
    and v: "v = (if (a < 0) \<noteq> (b < 0) then (2 ^ n - uq) mod 2 ^ n else uq)" "v < 2 ^ n"
  shows "int v = signedQuotient a b mod 2 ^ n"
proof -
  have le: "uq \<le> 2 ^ n"
  proof (cases "b = 0")
    case False
    have "nat \<bar>a\<bar> div nat \<bar>b\<bar> \<le> nat \<bar>a\<bar>" by (rule div_le_dividend)
    also have "\<dots> \<le> 2 ^ n" using a by (simp add: nat_le_iff)
    finally show ?thesis using q False by simp
  qed (simp add: q)
  have "int v mod 2 ^ n = (if (a < 0) \<noteq> (b < 0) then - int uq else int uq) mod 2 ^ n"
    unfolding v(1) using negate_mod [OF le] by simp
  also have "(if (a < 0) \<noteq> (b < 0) then - int uq else int uq) mod 2 ^ n = signedQuotient a b mod 2 ^ n"
  proof (cases "b = 0")
    case True
    then have u: "int uq = 2 ^ n - 1" using q by (simp add: of_nat_diff)
    have "(2 ^ n - 1 :: int) mod 2 ^ n = (- 1) mod 2 ^ n" by (metis add_uminus_conv_diff add.commute mod_add_self2)
    moreover have "(- (2 ^ n - 1) :: int) mod 2 ^ n = 1 mod 2 ^ n"
      by (metis minus_diff_eq add_uminus_conv_diff minus_mod_self2)
    ultimately show ?thesis using True u by (simp add: signedQuotient_def)
  next
    case False
    have "int uq = \<bar>a\<bar> div \<bar>b\<bar>" using q False by (simp add: zdiv_int)
    then have "(if (a < 0) \<noteq> (b < 0) then - int uq else int uq) = a sdiv b"
      using False by (auto simp: signed_divide_int_def sgn_if)
    with False show ?thesis by (simp add: signedQuotient_def)
  qed
  finally show ?thesis using v(2) by simp
qed

lemma signed_remainder_value:
  fixes a b :: int
  assumes r: "ur = nat \<bar>a\<bar> mod nat \<bar>b\<bar>" and a: "\<bar>a\<bar> \<le> 2 ^ n"
    and v: "v = (if a < 0 then (2 ^ n - ur) mod 2 ^ n else ur)" "v < 2 ^ n"
  shows "int v = (a smod b) mod 2 ^ n"
proof -
  have "ur \<le> nat \<bar>a\<bar>" unfolding r by (rule mod_less_eq_dividend)
  also have "\<dots> \<le> 2 ^ n" using a by (simp add: nat_le_iff)
  finally have le: "ur \<le> 2 ^ n" .
  have "int ur = \<bar>a\<bar> mod \<bar>b\<bar>" using r by (simp add: zmod_int)
  then have "(if a < 0 then - int ur else int ur) = a smod b" by (auto simp: signed_modulo_int_def sgn_if)
  moreover have "int v mod 2 ^ n = (if a < 0 then - int ur else int ur) mod 2 ^ n"
    unfolding v(1) using negate_mod [OF le] by simp
  ultimately show ?thesis using v(2) by simp
qed

lemma bitsVal_bound: "\<bar>signedVal m A\<bar> \<le> 2 ^ length A"
proof -
  have "int (bitsVal m A) < 2 ^ length A"
    using bitsVal_less [of m A] by (metis of_nat_less_iff of_nat_numeral of_nat_power)
  then show ?thesis unfolding signedVal_def by (simp only: abs_le_iff split: if_split) linarith
qed

lemma yields_option:
  assumes "W \<Longrightarrow> yields e r lits V"
  shows "yields e (if W then case r of (x, u) \<Rightarrow> (Some x, u) else (None, e))
    (\<lambda>x. case x of None \<Rightarrow> {} | Some y \<Rightarrow> lits y) (\<lambda>m x. W = (x \<noteq> None) \<and> (case x of None \<Rightarrow> True | Some y \<Rightarrow> V m y))"
proof (cases W)
  case True
  have "yields e (case r of (x, u) \<Rightarrow> (Some x, u)) (\<lambda>x. case x of None \<Rightarrow> {} | Some y \<Rightarrow> lits y)
      (\<lambda>m x. W = (x \<noteq> None) \<and> (case x of None \<Rightarrow> True | Some y \<Rightarrow> V m y))"
    by (rule yields_map [OF assms [OF True], where T = "{}"]) (use True in auto)
  with True show ?thesis by simp
qed (auto intro!: yields_return)

text \<open>The sign of a quotient is chosen after its complement is built.\<close>

lemma yields_quotientSign:
  assumes r: "inr e (insert A (insert B (set Q)))"
  shows "yields e (case negateBits Q e of (Negated, e) \<Rightarrow>
      case mkXor2 A B e of (Sign, e) \<Rightarrow> selectBits Sign Negated Q e) set
    (\<lambda>m Out. bitsVal m Out = (if lit_true m A \<noteq> lit_true m B
       then (2 ^ length Q - bitsVal m Q) mod 2 ^ length Q else bitsVal m Q))"
proof (rule yields_bind [OF yields_negateBits], goal_cases)
  case 1
  show ?case using r by simp
next
  case (2 N u)
  show ?case by (intro enc_mono_bind enc_mono_mkXor2 enc_mono_selectBits)
next
  case (3 N u)
  have len: "length N = length Q" using length_negateBits [of Q e] 3(1) by simp
  have ru: "inr u (insert A (insert B (set Q)))" by (rule inr_mono [OF r 3(3)])
  show ?case
  proof (rule yields_bind [OF yields_mkXor2], goal_cases)
    case 1
    show ?case using ru by simp
  next
    case (2 S w)
    show ?case by (rule enc_mono_selectBits)
  next
    case S: (3 S w)
    have "inr w (set N \<union> set Q)" by (rule inr_mono [OF _ S(3)]) (use 3(4) ru in simp)
    then have "yields w (selectBits S N Q w) set
        (\<lambda>m Out. map (lit_true m) Out = map (lit_true m) (if lit_true m S then N else Q))"
      using S(4) by (intro yields_selectBits [OF len]) simp
    then show ?case by (rule yields_weaken) (auto dest!: bitsVal_map_eq split: if_splits)
  qed
qed

lemma length_divideBits: "length A = length B \<Longrightarrow>
    length (fst (fst (divideBits A B e))) = length A \<and> length (snd (fst (divideBits A B e))) = length A"
  using length_divideLoop [of "replicate (length A + 1) (falseLit e)" "length A" B "rev A" e]
  by (simp add: divideBits_def case_prod_beta del: replicate.simps)

definition signedDivision :: "bool \<Rightarrow> bool \<Rightarrow> LitVec \<Rightarrow> LitVec \<Rightarrow> assignment \<Rightarrow> LitVec option \<times> LitVec option \<Rightarrow> bool"
where
  "signedDivision WQ WR A B m r \<longleftrightarrow>
     (case r of (Q, R) \<Rightarrow> WQ = (Q \<noteq> None) \<and> WR = (R \<noteq> None) \<and>
       (case Q of None \<Rightarrow> True | Some Q \<Rightarrow> bitsVal m Q < 2 ^ length A \<longrightarrow>
          int (bitsVal m Q) = signedQuotient (signedVal m A) (signedVal m B) mod 2 ^ length A) \<and>
       (case R of None \<Rightarrow> True | Some R \<Rightarrow> bitsVal m R < 2 ^ length A \<longrightarrow>
          int (bitsVal m R) = (signedVal m A smod signedVal m B) mod 2 ^ length A))"

definition quotientSign :: "SatLit \<Rightarrow> SatLit \<Rightarrow> LitVec \<Rightarrow> CnfEncoder \<Rightarrow> LitVec \<times> CnfEncoder" where
  "quotientSign A B Q e = (case negateBits Q e of (Negated, e) \<Rightarrow>
      case mkXor2 A B e of (Sign, e) \<Rightarrow> selectBits Sign Negated Q e)"

definition option_lits :: "LitVec option \<Rightarrow> SatLit set" where
  "option_lits X = (case X of None \<Rightarrow> {} | Some L \<Rightarrow> set L)"

lemma divideSignedBits_eq:
  "divideSignedBits WQ WR A B e =
     (case applySign (last A) A e of (MA, e) \<Rightarrow>
      case applySign (last B) B e of (MB, e) \<Rightarrow>
      case divideBits MA MB e of ((UQ, UR), e) \<Rightarrow>
      case (if WQ then case quotientSign (last A) (last B) UQ e of (Q, e) \<Rightarrow> (Some Q, e) else (None, e)) of (Q, e) \<Rightarrow>
      case (if WR then case applySign (last A) UR e of (R, e) \<Rightarrow> (Some R, e) else (None, e)) of (R, e) \<Rightarrow>
        ((Q, R), e))"
  by (simp add: divideSignedBits_def quotientSign_def Let_def case_prod_beta)

lemma enc_mono_quotientSign: "enc_mono e (snd (quotientSign A B Q e))"
  unfolding quotientSign_def by (intro enc_mono_bind enc_mono_negateBits enc_mono_mkXor2 enc_mono_selectBits)

lemma length_quotientSign [simp]: "length (fst (quotientSign A B Q e)) = length Q"
  by (simp add: quotientSign_def case_prod_beta)

lemma enc_mono_option:
  "enc_mono e (snd r) \<Longrightarrow> enc_mono e (snd (if W then case r of (x, u) \<Rightarrow> (Some x, u) else (None, e)))"
  by simp

lemma yields_divideSignedBits:
  assumes ok: "enc_ok e" and len: "length A = length B" "A \<noteq> []" and r: "inr e (set A \<union> set B)"
  shows "yields e (divideSignedBits WQ WR A B e) (\<lambda>(Q, R). option_lits Q \<union> option_lits R) (signedDivision WQ WR A B)"
proof -
  let ?n = "length A" and ?a = "last A" and ?b = "last B"
  have Bn: "B \<noteq> []" using len by auto
  have ends: "inr e {?a, ?b}" using r len Bn inr_last by auto
  have ra: "inr e (insert ?a (set A))" "inr e (insert ?b (set B))" using r ends by simp_all
  show ?thesis unfolding divideSignedBits_eq
  proof (rule yields_bind [OF yields_applySign [OF ra(1)]], goal_cases)
    case 1
    show ?case by (intro enc_mono_bind enc_mono_bind2 enc_mono_option enc_mono_applySign enc_mono_divideBits enc_mono_quotientSign) simp
  next
    case MA: (2 MA u)
    have lMA: "length MA = ?n" using length_applySign [of ?a A e] MA(1) by simp
    have ru: "inr u (insert ?b (set B))" "inr u {?a, ?b}" using inr_mono [OF ra(2) MA(3)] inr_mono [OF ends MA(3)] .
    show ?case
    proof (rule yields_bind [OF yields_applySign [OF ru(1)]], goal_cases)
      case 1
      show ?case by (intro enc_mono_bind enc_mono_bind2 enc_mono_option enc_mono_applySign enc_mono_divideBits enc_mono_quotientSign) simp
    next
      case MB: (2 MB v)
      have lMB: "length MB = ?n" using length_applySign [of ?b B u] MB(1) len by simp
      have rv: "inr v {?a, ?b}" "inr v (set MA \<union> set MB)"
        using inr_mono [OF ru(2) MB(3)] inr_mono [OF MA(4) MB(3)] MB(4) by simp_all
      have lm: "length MA = length MB" using lMA lMB by simp
      show ?case
      proof (rule yields_bind2 [OF yields_divideBits [OF MB(2) lm rv(2)]], goal_cases)
        case 1
        show ?case by (intro enc_mono_bind enc_mono_option enc_mono_applySign enc_mono_quotientSign) simp
      next
        case D: (2 UQ UR w)
        have lQ: "length UQ = ?n" "length UR = ?n"
          using length_divideBits [OF lm, of v] D(1) lMA by simp_all
        have rw: "inr w {?a, ?b}" by (rule inr_mono [OF rv(1) D(3)])
        have rQ: "inr w (insert ?a (insert ?b (set UQ)))" "inr w (set UR)" using rw D(4) by simp_all
        have yq: "yields w (quotientSign ?a ?b UQ w) set (\<lambda>m Out. bitsVal m Out = (if lit_true m ?a \<noteq> lit_true m ?b
            then (2 ^ length UQ - bitsVal m UQ) mod 2 ^ length UQ else bitsVal m UQ))"
          unfolding quotientSign_def by (rule yields_quotientSign [OF rQ(1)])
        show ?case
        proof (rule yields_bind [OF yields_option [OF yq]], goal_cases)
          case 1
          show ?case by (intro enc_mono_bind enc_mono_option enc_mono_applySign) simp
        next
          case Q: (2 Q x)
          have rx: "inr x (insert ?a (set UR))" using inr_mono [OF rw Q(3)] inr_mono [OF rQ(2) Q(3)] by simp
          show ?case
          proof (rule yields_map [OF yields_option [OF yields_applySign [OF rx]] Q(4)], goal_cases)
            case R: (2 m R)
            then have R': "WR = (R \<noteq> None)" "case R of None \<Rightarrow> True | Some y \<Rightarrow> bitsVal m y =
              (if lit_true m ?a then (2 ^ length UR - bitsVal m UR) mod 2 ^ length UR else bitsVal m UR)" by simp_all
            show ?case
            proof (intro impI)
              assume Q: "WQ = (Q \<noteq> None) \<and> (case Q of None \<Rightarrow> True | Some y \<Rightarrow> bitsVal m y =
                  (if lit_true m ?a \<noteq> lit_true m ?b then (2 ^ length UQ - bitsVal m UQ) mod 2 ^ length UQ else bitsVal m UQ))"
                and D: "case (UQ, UR) of (Q, R) \<Rightarrow>
                  bitsVal m Q = (if bitsVal m MB = 0 then 2 ^ length MA - 1 else bitsVal m MA div bitsVal m MB) \<and>
                  bitsVal m R = bitsVal m MA mod bitsVal m MB"
                and MB: "bitsVal m MB = (if lit_true m ?b then (2 ^ length B - bitsVal m B) mod 2 ^ length B else bitsVal m B)"
                and MA: "bitsVal m MA = (if lit_true m ?a then (2 ^ length A - bitsVal m A) mod 2 ^ length A else bitsVal m A)"
              let ?x = "signedVal m A" and ?y = "signedVal m B"
              have ma: "bitsVal m MA = nat \<bar>?x\<bar>" "bitsVal m MB = nat \<bar>?y\<bar>"
                using magnitude_value [OF len(2) MA] magnitude_value [OF Bn MB] by linarith+
              have sg: "lit_true m ?a = (?x < 0)" "lit_true m ?b = (?y < 0)"
                using signedVal_range(3) len(2) Bn by blast+
              have uq: "bitsVal m UQ = (if ?y = 0 then 2 ^ ?n - 1 else nat \<bar>?x\<bar> div nat \<bar>?y\<bar>)"
                "bitsVal m UR = nat \<bar>?x\<bar> mod nat \<bar>?y\<bar>" using D ma lMA by simp_all
              note qv = signed_quotient_value [OF uq(1) bitsVal_bound [of m A]]
              note rv = signed_remainder_value [OF uq(2) bitsVal_bound [of m A]]
              show "signedDivision WQ WR A B m (Q, R)"
                unfolding signedDivision_def prod.case
                using Q R' qv rv lQ sg by (auto split: option.splits)
            qed
          qed (auto simp: option_lits_def)
        qed
      qed
    qed
  qed
qed

section \<open>What the division circuits promise\<close>

lemma length_divideSignedBits:
  assumes "length A = length B"
  shows "fst (fst (divideSignedBits WQ WR A B e)) = Some Q \<Longrightarrow> length Q = length A"
    "snd (fst (divideSignedBits WQ WR A B e)) = Some R \<Longrightarrow> length R = length A"
  using assms length_divideBits by (auto simp: divideSignedBits_eq case_prod_beta split: if_splits)

text \<open>
  C24.  Unsigned division: in every model the quotient and the remainder are those of the operands; a
  zero divisor gives the quotient with every bit set and the dividend as the remainder.\<close>

theorem division_circuit:
  assumes "enc_ok e" "length A = length B" "\<forall>L \<in> set A \<union> set B. unat (var L) < nv e"
    "divideBits A B e = ((Q, R), e')" "\<not> enc_full e'"
  shows "good e e' \<and> length Q = length A \<and> length R = length A \<and>
    (\<forall>m \<in> mods e'. bitsVal m Q = (if bitsVal m B = 0 then 2 ^ length A - 1 else bitsVal m A div bitsVal m B) \<and>
       bitsVal m R = bitsVal m A mod bitsVal m B)"
proof -
  have r: "inr e (set A \<union> set B)" using assms(3) by (simp add: inr_def)
  note y = yieldsD [OF yields_divideBits [OF assms(1,2) r] assms(1,4,5)]
  have "length Q = length A \<and> length R = length A" using length_divideBits [OF assms(2), of e] assms(4) by simp
  with y show ?thesis by auto
qed

lemmas fold_gates = mkXor_def mkFullAdder_def sortGateInputs_def mkMajority_def mkOr2_def mkAnd2_def mkOr_def mkAnd_def
  mkIte_def mkXor2_def mkEquiv_def Let_def

lemma constants_differ [simp]: "falseLit e \<noteq> trueLit e" "trueLit e \<noteq> falseLit e"
  using constant_folds(3,4) by metis+

lemma two_inputs_falseLit: "unat (var (falseLit two_inputs)) < nv two_inputs" "unat (var (trueLit two_inputs)) < nv two_inputs"
  using constants_inr [OF two_inputs_ok(1)] by simp_all

theorem division_circuit_witness:
  "mods two_inputs \<subseteq> {m. (case divideBits [trueLit two_inputs, trueLit two_inputs] [falseLit two_inputs, trueLit two_inputs] two_inputs of
     ((Q, R), _) \<Rightarrow> bitsVal m Q = bitsVal m [trueLit two_inputs, trueLit two_inputs] div bitsVal m [falseLit two_inputs, trueLit two_inputs] \<and>
       bitsVal m R = bitsVal m [trueLit two_inputs, trueLit two_inputs] mod bitsVal m [falseLit two_inputs, trueLit two_inputs])}"
proof -
  let ?A = "[trueLit two_inputs, trueLit two_inputs]" and ?B = "[falseLit two_inputs, trueLit two_inputs]"
  obtain Q R where d: "divideBits ?A ?B two_inputs = ((Q, R), two_inputs)"
    by (simp add: divideBits_def fold_gates)
  show ?thesis
    using division_circuit [OF two_inputs_ok(1) _ _ d two_inputs_not_full] two_inputs_falseLit d
      constants_true [OF two_inputs_ok(1)] by (auto simp flip: numeral_2_eq_2 numeral_3_eq_3)
qed

text \<open>
  C27.  Signed division truncates towards zero: in every model the quotient and the remainder asked for
  are those of the signed operands modulo two to the width, the remainder has the sign of the
  dividend, and a zero divisor gives minus one, or one for a negative dividend.\<close>

theorem signed_division_circuit:
  assumes "enc_ok e" "length A = length B" "A \<noteq> []" "\<forall>L \<in> set A \<union> set B. unat (var L) < nv e"
    "divideSignedBits True True A B e = ((Some Q, Some R), e')" "\<not> enc_full e'"
  shows "good e e' \<and> length Q = length A \<and> length R = length A \<and>
    (\<forall>m \<in> mods e'. int (bitsVal m Q) = signedQuotient (signedVal m A) (signedVal m B) mod 2 ^ length A \<and>
       int (bitsVal m R) = (signedVal m A smod signedVal m B) mod 2 ^ length A)"
proof -
  have r: "inr e (set A \<union> set B)" using assms(4) by (simp add: inr_def)
  note y = yieldsD [OF yields_divideSignedBits [OF assms(1,2,3) r] assms(1,5,6)]
  have l: "length Q = length A" "length R = length A" using length_divideSignedBits [OF assms(2), of True True e] assms(5) by simp_all
  have b: "bitsVal m Q < 2 ^ length A" "bitsVal m R < 2 ^ length A" for m
    using bitsVal_less [of m Q] bitsVal_less [of m R] l by simp_all
  from y(1) y(3) l b show ?thesis by (auto simp: signedDivision_def)
qed

theorem signed_division_circuit_witness:
  "mods two_inputs \<subseteq> {m. case divideSignedBits True True [falseLit two_inputs, trueLit two_inputs] [trueLit two_inputs, falseLit two_inputs] two_inputs of
     ((Some Q, Some R), _) \<Rightarrow> int (bitsVal m Q) = 2 \<and> int (bitsVal m R) = 0 | _ \<Rightarrow> False}"
proof -
  let ?A = "[falseLit two_inputs, trueLit two_inputs]" and ?B = "[trueLit two_inputs, falseLit two_inputs]"
  obtain Q R where d: "divideSignedBits True True ?A ?B two_inputs = ((Some Q, Some R), two_inputs)"
    by (simp add: divideSignedBits_def divideBits_def applySign_def negateBits_def fold_gates)
  show ?thesis
    using signed_division_circuit [OF two_inputs_ok(1) _ _ _ d two_inputs_not_full] two_inputs_falseLit d
      constants_true [OF two_inputs_ok(1)] by (auto simp: signedVal_def signedQuotient_def signed_modulo_int_def)
qed

end
