(* ===== verification/Bit_Compare.thy ===== *)
theory Bit_Compare
  imports Bit_Division
begin

text \<open>
  Comparison.  Equality is a conjunction of equivalences; an order is the last carry of a subtraction,
  halving wide vectors first, and a signed order flips the sign bits of both sides.
\<close>

section \<open>Comparison\<close>

lemma yields_equivLoop:
  assumes "length A = length B" "inr e (set A \<union> set B)"
  shows "yields e (equivLoop A B e) set
    (\<lambda>m Same. (\<forall>L \<in> set Same. lit_true m L) = (map (lit_true m) A = map (lit_true m) B))"
  using assms
proof (induction A arbitrary: B e)
  case (Cons X A)
  then obtain Y F where B: "B = Y # F" by (cases B) auto
  show ?case unfolding B equivLoop.simps
  proof (rule yields_bind [OF yields_mkEquiv], goal_cases)
    case 1
    show ?case using Cons.prems B by simp
  next
    case (2 L u)
    show ?case by (simp add: enc_mono_equivLoop)
  next
    case (3 L u)
    have "inr u (set A \<union> set F)" by (rule inr_mono [OF _ 3(3)]) (use Cons.prems B in simp)
    then have "yields u (equivLoop A F u) set
        (\<lambda>m Same. (\<forall>L \<in> set Same. lit_true m L) = (map (lit_true m) A = map (lit_true m) F))"
      using Cons.IH Cons.prems B by simp
    then show ?case by (rule yields_map [OF _ 3(4)]) auto
  qed
qed (auto intro!: yields_return)

lemma bitsVal_inj: "length A = length B \<Longrightarrow> bitsVal m A = bitsVal m B \<longleftrightarrow> map (lit_true m) A = map (lit_true m) B"
proof (induction A arbitrary: B)
  case (Cons X A)
  then obtain Y F where B: "B = Y # F" "length A = length F" by (cases B) auto
  have "bitsVal m (X # A) = bitsVal m (Y # F) \<longleftrightarrow> lit_true m X = lit_true m Y \<and> bitsVal m A = bitsVal m F"
    by (cases "lit_true m X"; cases "lit_true m Y") (simp_all, presburger+)
  with Cons.IH [OF B(2)] B(1) show ?case by simp
qed simp

lemma yields_equalBits:
  assumes "length A = length B" "inr e (set A \<union> set B)"
  shows "yields e (equalBits A B e) one (\<lambda>m L. lit_true m L = (bitsVal m A = bitsVal m B))"
  unfolding equalBits_def
proof (rule yields_bind [OF yields_equivLoop [OF assms]], goal_cases)
  case 1
  show ?case by (rule enc_mono_mkAnd)
next
  case (2 Same u)
  show ?case by (rule yields_weaken [OF yields_mkAnd [OF 2(4)]]) (auto simp: bitsVal_inj [OF assms(1)])
qed

lemma carry_compare:
  "(b' < a' + of_bool (majority a (\<not> b) c)) = (of_bool b + 2 * b' < of_bool a + 2 * a' + (of_bool c :: nat))"
  by (cases a; cases b; cases c) (auto simp: majority_def)

lemma yields_carryChain:
  assumes "length A = length B" "inr e (insert C (set A \<union> set B))"
  shows "yields e (carryChain A B C e) one (\<lambda>m L. lit_true m L = (bitsVal m B < bitsVal m A + of_bool (lit_true m C)))"
  using assms
proof (induction A arbitrary: B C e)
  case (Cons X A)
  then obtain Y F where B: "B = Y # F" by (cases B) auto
  show ?case unfolding B carryChain.simps
  proof (rule yields_bind [OF yields_mkMajority], goal_cases)
    case 1
    show ?case using Cons.prems B by simp
  next
    case (2 N u)
    show ?case by (rule enc_mono_carryChain)
  next
    case (3 N u)
    have "inr u (set A \<union> set F)" by (rule inr_mono [OF _ 3(3)]) (use Cons.prems B in simp)
    then have "yields u (carryChain A F N u) one (\<lambda>m L. lit_true m L = (bitsVal m F < bitsVal m A + of_bool (lit_true m N)))"
      using Cons.IH Cons.prems B 3(4) by simp
    then show ?case by (rule yields_weaken) (simp_all add: carry_compare)
  qed
qed (auto intro!: yields_return)

lemma enc_mono_unsignedAtLeast: "enc_mono e (snd (unsignedAtLeast A B e))"
proof (induction "length A" arbitrary: A B e rule: less_induct)
  case less
  have ih: "8 < length A \<Longrightarrow> enc_mono u (snd (unsignedAtLeast (drop (length A div 2) A) X u))"
    "8 < length A \<Longrightarrow> enc_mono u (snd (unsignedAtLeast (take (length A div 2) A) X u))" for u X
    by (intro less; simp)+
  show ?case unfolding unsignedAtLeast.simps [of A B e] Let_def
    by (simp add: enc_mono_carryChain)
      (intro impI enc_mono_bind enc_mono_equalBits ih enc_mono_mkIte, simp_all)
qed

lemma split_compare:
  assumes "(a :: nat) < 2 ^ k" "b < 2 ^ k"
  shows "(b + 2 ^ k * d \<le> a + 2 ^ k * c) = (if c = d then b \<le> a else d \<le> c)"
proof (cases "c = d")
  case False
  then consider "c < d" | "d < c" by linarith
  then show ?thesis
  proof cases
    case 1
    then have "2 ^ k * (c + 1) \<le> 2 ^ k * d" by (intro mult_le_mono2) simp
    with 1 assms show ?thesis by (auto simp: algebra_simps)
  next
    case 2
    then have "2 ^ k * (d + 1) \<le> 2 ^ k * c" by (intro mult_le_mono2) simp
    with 2 assms show ?thesis by (auto simp: algebra_simps)
  qed
qed simp

lemma yields_unsignedAtLeast:
  assumes "enc_ok e" "length A = length B" "inr e (set A \<union> set B)"
  shows "yields e (unsignedAtLeast A B e) one (\<lambda>m L. lit_true m L = (bitsVal m B \<le> bitsVal m A))"
  using assms
proof (induction "length A" arbitrary: A B e rule: less_induct)
  case less
  let ?k = "length A div 2"
  let ?HA = "drop ?k A" and ?HB = "drop ?k B" and ?LA = "take ?k A" and ?LB = "take ?k B"
  show ?case
  proof (cases "8 < length A")
    case False
    have "yields e (carryChain A B (trueLit e) e) one (\<lambda>m L. lit_true m L = (bitsVal m B \<le> bitsVal m A))"
      by (rule yields_weaken [OF yields_carryChain])
        (use less.prems constants_inr [OF less.prems(1)] constants_true(1) [OF less.prems(1)] in auto)
    with False show ?thesis by (simp add: unsignedAtLeast.simps [of A B e])
  next
    case True
    have len: "length ?HA = length ?HB" "length ?LA = length ?LB" "length ?HA < length A" "length ?LA < length A"
      using True less.prems(2) by simp_all
    have rg: "inr e (set ?HA \<union> set ?HB)" "inr e (set ?LA \<union> set ?LB)" using less.prems(3) by auto
    have split: "(bitsVal m B \<le> bitsVal m A) =
        (if bitsVal m ?HA = bitsVal m ?HB then bitsVal m ?LB \<le> bitsVal m ?LA else bitsVal m ?HB \<le> bitsVal m ?HA)" for m
    proof -
      have "bitsVal m A = bitsVal m ?LA + 2 ^ ?k * bitsVal m ?HA" "bitsVal m B = bitsVal m ?LB + 2 ^ ?k * bitsVal m ?HB"
        using bitsVal_append [of m ?LA ?HA] bitsVal_append [of m ?LB ?HB] less.prems(2)
        unfolding append_take_drop_id by simp_all
      moreover have "bitsVal m ?LA < 2 ^ ?k" "bitsVal m ?LB < 2 ^ ?k"
        using bitsVal_less [of m ?LA] bitsVal_less [of m ?LB] less.prems(2) by simp_all
      ultimately show ?thesis using split_compare [of "bitsVal m ?LA" ?k "bitsVal m ?LB" "bitsVal m ?HB" "bitsVal m ?HA"]
        by (simp only:)
    qed
    have "yields e (case equalBits ?HA ?HB e of (HighEqual, e) \<Rightarrow>
          case unsignedAtLeast ?HA ?HB e of (HighAtLeast, e) \<Rightarrow>
            case unsignedAtLeast ?LA ?LB e of (LowAtLeast, e) \<Rightarrow>
              mkIte HighEqual LowAtLeast HighAtLeast e) one (\<lambda>m L. lit_true m L = (bitsVal m B \<le> bitsVal m A))"
    proof (rule yields_bind [OF yields_equalBits [OF len(1) rg(1)]], goal_cases)
      case 1
      show ?case by (intro enc_mono_bind enc_mono_unsignedAtLeast enc_mono_mkIte)
    next
      case E: (2 E u)
      show ?case
      proof (rule yields_bind [OF less.hyps [OF len(3) E(2) len(1) inr_mono [OF rg(1) E(3)]]], goal_cases)
        case 1
        show ?case by (intro enc_mono_bind enc_mono_unsignedAtLeast enc_mono_mkIte)
      next
        case H: (2 H v)
        show ?case
        proof (rule yields_bind [OF less.hyps [OF len(4) H(2) len(2) inr_mono [OF inr_mono [OF rg(2) E(3)] H(3)]]], goal_cases)
          case 1
          show ?case by (rule enc_mono_mkIte)
        next
          case L: (2 L w)
          have "inr w {E, L, H}" using inr_mono [OF inr_mono [OF E(4) H(3)] L(3)] inr_mono [OF H(4) L(3)] L(4) by simp
          then show ?case by (intro yields_weaken [OF yields_mkIte]) (auto simp: split)
        qed
      qed
    qed
    with True show ?thesis by (simp add: unsignedAtLeast.simps [of A B e] Let_def)
  qed
qed

lemma flipSign_value:
  assumes "A \<noteq> []"
  shows "int (bitsVal m (flipSign A)) = signedVal m A + 2 ^ (length A - 1)"
proof -
  obtain As L where A: "A = As @ [L]" using assms by (meson rev_exhaust)
  show ?thesis by (simp add: A flipSign_def signedVal_def bitsVal_append list_update_append)
qed

lemma flipSign_inr: "inr e (set A) \<Longrightarrow> A \<noteq> [] \<Longrightarrow> inr e (set (flipSign A))"
  using set_update_subset_insert [of A "length A - 1" "negl (last A)"] by (auto simp: flipSign_def inr_def)

lemma length_flipSign [simp]: "length (flipSign A) = length A"
  by (simp add: flipSign_def)

lemma yields_lessThanBits:
  assumes ok: "enc_ok e" and len: "length A = length B" "A \<noteq> []" and r: "inr e (set A \<union> set B)"
  shows "yields e (lessThanBits A B OrEqual Signed e) one
    (\<lambda>m L. lit_true m L = (let a = (if Signed then signedVal m A else int (bitsVal m A));
                               b = (if Signed then signedVal m B else int (bitsVal m B))
                           in if OrEqual then a \<le> b else a < b))"
proof -
  let ?A = "if Signed then flipSign A else A" and ?B = "if Signed then flipSign B else B"
  have Bn: "B \<noteq> []" using len by auto
  have rg: "inr e (set ?A \<union> set ?B)" "inr e (set ?B \<union> set ?A)" using r flipSign_inr len(2) Bn by auto
  have ln: "length ?A = length ?B" "length ?B = length ?A" using len by simp_all
  have v: "(bitsVal m ?A \<le> bitsVal m ?B) = ((if Signed then signedVal m A else int (bitsVal m A)) \<le>
      (if Signed then signedVal m B else int (bitsVal m B)))"
    "(bitsVal m ?B \<le> bitsVal m ?A) = ((if Signed then signedVal m B else int (bitsVal m B)) \<le>
      (if Signed then signedVal m A else int (bitsVal m A)))" for m
    using flipSign_value [OF len(2), of m] flipSign_value [OF Bn, of m] len(1) by auto
  show ?thesis
  proof (cases OrEqual)
    case True
    then show ?thesis unfolding lessThanBits_def Let_def
      using yields_unsignedAtLeast [OF ok ln(2) rg(2)] by (simp add: v)
  next
    case False
    have "yields e (case unsignedAtLeast ?A ?B e of (L, e) \<Rightarrow> (negl L, e)) one
        (\<lambda>m L. lit_true m L = ((if Signed then signedVal m A else int (bitsVal m A)) <
          (if Signed then signedVal m B else int (bitsVal m B))))"
    proof (rule yields_bind [OF yields_unsignedAtLeast [OF ok ln(1) rg(1)]], goal_cases)
      case (2 L u)
      then show ?case by (auto intro!: yields_return simp: v not_le)
    qed simp
    with False show ?thesis unfolding lessThanBits_def Let_def by simp
  qed
qed

lemma enc_mono_lessThanBits: "enc_mono e (snd (lessThanBits A B OrEqual Signed e))"
  by (simp add: lessThanBits_def Let_def enc_mono_unsignedAtLeast)

section \<open>What the comparison and shift circuits promise\<close>

text \<open>
  C28.  Comparison: in every model the output literal is true exactly when the operands compare that way,
  as signed or as unsigned numbers, strictly or not, whether the carry chain decides it or the vector
  is halved first.\<close>

theorem comparison_circuit:
  assumes "enc_ok e" "length A = length B" "A \<noteq> []" "\<forall>L \<in> set A \<union> set B. unat (var L) < nv e"
    "lessThanBits A B OrEqual Signed e = (L, e')" "\<not> enc_full e'"
  shows "good e e' \<and> (\<forall>m \<in> mods e'. lit_true m L =
    (let a = (if Signed then signedVal m A else int (bitsVal m A));
         b = (if Signed then signedVal m B else int (bitsVal m B))
     in if OrEqual then a \<le> b else a < b))"
proof -
  have r: "inr e (set A \<union> set B)" using assms(4) by (simp add: inr_def)
  note y = yieldsD [OF yields_lessThanBits [OF assms(1,2,3) r] assms(1,5,6)]
  from y(1,3) show ?thesis by blast
qed

theorem comparison_circuit_witness:
  "mods two_inputs \<subseteq> {m. lit_true m (fst (lessThanBits [falseLit two_inputs, trueLit two_inputs] [trueLit two_inputs, falseLit two_inputs] False True two_inputs))}"
proof -
  let ?A = "[falseLit two_inputs, trueLit two_inputs]" and ?B = "[trueLit two_inputs, falseLit two_inputs]"
  obtain L where d: "lessThanBits ?A ?B False True two_inputs = (L, two_inputs)"
    by (simp add: lessThanBits_def unsignedAtLeast.simps flipSign_def fold_gates)
  show ?thesis
    using comparison_circuit [OF two_inputs_ok(1) _ _ _ d two_inputs_not_full] two_inputs_falseLit d
      constants_true [OF two_inputs_ok(1)] by (auto simp: signedVal_def)
qed

end
