(* ===== verification/Bit_Shift.thy ===== *)
theory Bit_Shift
  imports Bit_Compare
begin

text \<open>
  Shifts and rotates.  The reference shifts a whole list; a fixed distance renames wires as it says, the
  stages compose into the value of the distance they read, and what lies above the stages is
  past the width.
\<close>

section \<open>Shifting a list\<close>

text \<open>
  The reference: a shift of a whole list, least significant first, with \<open>z\<close> shifted in.  Rotation is
  the rotation of lists.
\<close>

fun shifted :: "ShiftKind \<Rightarrow> 'a \<Rightarrow> nat \<Rightarrow> 'a list \<Rightarrow> 'a list" where
  "shifted Left z d xs = take (length xs) (replicate d z @ xs)"
| "shifted LogicalRight z d xs = drop d xs @ replicate (min d (length xs)) z"
| "shifted ArithmeticRight z d xs = drop d xs @ replicate (min d (length xs)) (last xs)"
| "shifted RotateLeft z d xs = rotate (length xs - d mod length xs) xs"
| "shifted RotateRight z d xs = rotate d xs"

lemma length_shifted [simp]: "length (shifted Kind z d xs) = length xs"
  by (cases Kind) simp_all

lemma map_shifted: "xs \<noteq> [] \<Longrightarrow> map f (shifted Kind z d xs) = shifted Kind (f z) d (map f xs)"
  by (cases Kind) (simp_all add: take_map drop_map rotate_map last_map)

lemma shifted_0 [simp]: "shifted Kind z 0 xs = xs"
  by (cases Kind) simp_all

lemma rotation_mod: "isRotate Kind \<Longrightarrow> d mod length xs = d' mod length xs \<Longrightarrow> shifted Kind z d xs = shifted Kind z d' xs"
  using rotate_conv_mod [of d xs] rotate_conv_mod [of d' xs] by (auto simp: isRotate_def)

lemma rotate_left_add:
  assumes "n = length xs"
  shows "rotate (n - a mod n) (rotate (n - b mod n) xs) = rotate (n - (a + b) mod n) xs"
proof (cases "n = 0")
  case False
  have s: "((n - x mod n) + x) mod n = 0" for x :: nat
  proof -
    have "((n - x mod n) + x) mod n = ((n - x mod n) + x mod n) mod n" by (simp add: mod_simps)
    also have "\<dots> = 0" using False by (simp add: less_imp_le)
    finally show ?thesis .
  qed
  let ?l = "(n - a mod n) + (n - b mod n)" and ?r = "n - (a + b) mod n"
  have l: "(?l + (a + b)) mod n = 0"
    using mod_add_eq [of "(n - a mod n) + a" n "(n - b mod n) + b"] by (simp only: s) (simp add: ac_simps)
  have "?l mod n = (?l + (?r + (a + b))) mod n" using mod_add_right_eq [of ?l "?r + (a + b)" n] s [of "a + b"] by simp
  also have "\<dots> = ((?l + (a + b)) + ?r) mod n" by (simp only: ac_simps)
  also have "\<dots> = ?r mod n" using mod_add_left_eq [of "?l + (a + b)" n ?r] l by simp
  finally have "?l mod n = ?r mod n" .
  then show ?thesis using assms rotate_conv_mod [of ?l xs] rotate_conv_mod [of ?r xs] by (simp add: rotate_rotate)
qed (use assms in simp)

lemma take_append_take: "take n (ys @ take n zs) = take n (ys @ zs)"
  by simp

lemma shifted_add: "xs \<noteq> [] \<Longrightarrow> shifted Kind z a (shifted Kind z b xs) = shifted Kind z (a + b) xs"
proof (cases Kind)
  case Left
  then show ?thesis by (simp add: replicate_add take_append_take del: take_append)
next
  case LogicalRight
  then show ?thesis by (auto simp: min_def simp flip: replicate_add)
next
  case ArithmeticRight
  assume "xs \<noteq> []"
  with ArithmeticRight show ?thesis by (auto simp: min_def last_append last_drop simp flip: replicate_add)
next
  case RotateLeft
  then show ?thesis using rotate_left_add [of "length xs" xs a b] by simp
next
  case RotateRight
  then show ?thesis by (simp add: rotate_rotate)
qed

lemma shifted_full: "xs \<noteq> [] \<Longrightarrow> length xs \<le> d \<Longrightarrow> \<not> isRotate Kind \<Longrightarrow>
    shifted Kind z d xs = replicate (length xs) (if Kind = ArithmeticRight then last xs else z)"
  by (cases Kind) (simp_all add: isRotate_def min_def)

text \<open>The renaming of wires is this reference on literals.\<close>

lemma shiftBitsByConstant_eq:
  assumes "A \<noteq> []"
  shows "shiftBitsByConstant e A d Kind = shifted Kind (falseLit e) d A"
proof (rule nth_equalityI)
  fix i assume "i < length (shiftBitsByConstant e A d Kind)"
  then have i: "i < length A" by simp
  show "shiftBitsByConstant e A d Kind ! i = shifted Kind (falseLit e) d A ! i"
    using i assms by (cases Kind) (auto simp: shiftBitsByConstant_def isRotate_def Let_def nth_append nth_rotate min_def last_conv_nth
        add.commute mod_simps)
qed simp

section \<open>Shift circuits\<close>

lemma stageLoop_bound: "Width \<le> 2 ^ stageLoop Width Stages"
proof (induction Width Stages rule: stageLoop.induct)
  case (1 Width Stages)
  then show ?case by (cases "2 ^ Stages < Width") (simp_all add: stageLoop.simps [of Width Stages])
qed

lemma stageCount_bound: "Width \<le> 2 ^ stageCount Width"
  by (simp add: stageCount_def stageLoop_bound)

lemma inr_shifted: "xs \<noteq> [] \<Longrightarrow> inr e (insert z (set xs)) \<Longrightarrow> inr e (set (shifted Kind z d xs))"
  by (cases Kind) (auto simp: inr_def dest: in_set_takeD in_set_dropD)

lemma yields_anyLoop:
  assumes "inr e (insert L (set Ls))"
  shows "yields e (anyLoop L Ls e) one (\<lambda>m B. lit_true m B = (lit_true m L \<or> 0 < bitsVal m Ls))"
  using assms
proof (induction Ls arbitrary: L e)
  case (Cons X Ls)
  show ?case unfolding anyLoop.simps
  proof (rule yields_bind [OF yields_mkOr2], goal_cases)
    case 1
    then show ?case using Cons.prems by simp
  next
    case 2
    then show ?case by (rule enc_mono_anyLoop)
  next
    case (3 N u)
    have "inr u (set Ls)" by (rule inr_mono [OF _ 3(3)]) (use Cons.prems in simp)
    with 3(4) have "inr u (insert N (set Ls))" by simp
    from Cons.IH [OF this] show ?case by (rule yields_weaken) auto
  qed
qed (auto intro!: yields_return)

lemma shift_step:
  assumes "xs \<noteq> []"
  shows "shifted Kind z (nextDistance Kind (length xs) D * v) (shifted Kind z (D * of_bool b) xs) =
    shifted Kind z (D * (of_bool b + 2 * v)) xs"
proof -
  have "shifted Kind z (nextDistance Kind (length xs) D * v) (shifted Kind z (D * of_bool b) xs) =
      shifted Kind z (nextDistance Kind (length xs) D * v + D * of_bool b) xs"
    by (rule shifted_add [OF assms])
  also have "\<dots> = shifted Kind z (2 * D * v + D * of_bool b) xs"
  proof (cases "isRotate Kind")
    case True
    have "(2 * D mod length xs * v + D * of_bool b) mod length xs = (2 * D * v + D * of_bool b) mod length xs"
      using mod_mult_left_eq [of "2 * D" "length xs" v] by (rule mod_add_cong) simp
    with True show ?thesis by (intro rotation_mod) (simp_all add: nextDistance_def)
  qed (simp add: nextDistance_def)
  also have "2 * D * v + D * of_bool b = D * (of_bool b + 2 * v)" by (simp add: algebra_simps)
  finally show ?thesis .
qed

abbreviation bits :: "assignment \<Rightarrow> LitVec \<Rightarrow> bool list" where
  "bits m \<equiv> map (lit_true m)"

lemma bits_shiftBitsByConstant:
  assumes "enc_ok e" "m \<in> mods e" "A \<noteq> []"
  shows "bits m (shiftBitsByConstant e A d Kind) = shifted Kind False d (bits m A)"
  using assms constants_true [OF assms(1,2)] by (simp add: shiftBitsByConstant_eq map_shifted)

lemma inr_shiftBitsByConstant:
  assumes "enc_ok e" "inr e (set A)" "A \<noteq> []"
  shows "inr e (set (shiftBitsByConstant e A d Kind))"
  using assms constants_inr [OF assms(1)] by (simp add: shiftBitsByConstant_eq inr_shifted)

lemma yields_stagesLoop:
  assumes "enc_ok e" "Current \<noteq> []" "inr e (set Steps \<union> set Current)"
  shows "yields e (stagesLoop Kind D Steps Current e) set
    (\<lambda>m Out. bits m Out = shifted Kind False (D * bitsVal m Steps) (bits m Current))"
  using assms
proof (induction Steps arbitrary: D Current e)
  case Nil
  then show ?case by (auto intro!: yields_return)
next
  case (Cons S Steps)
  let ?N = "nextDistance Kind (length Current) D" and ?Stage = "shiftBitsByConstant e Current D Kind"
  let ?W = "\<lambda>m Out. bits m Out = shifted Kind False (D * bitsVal m (S # Steps)) (bits m Current)"
  have step: "lit_true m S \<Longrightarrow> shifted Kind False (?N * bitsVal m Steps) (shifted Kind False D (bits m Current)) =
      shifted Kind False (D * bitsVal m (S # Steps)) (bits m Current)"
    "\<not> lit_true m S \<Longrightarrow> shifted Kind False (?N * bitsVal m Steps) (bits m Current) =
      shifted Kind False (D * bitsVal m (S # Steps)) (bits m Current)" for m
    using shift_step [of "bits m Current" Kind False D "bitsVal m Steps" "lit_true m S"] Cons.prems(2) by simp_all
  have stage: "?Stage \<noteq> []" "inr e (set ?Stage)" "\<And>m. m \<in> mods e \<Longrightarrow> bits m ?Stage = shifted Kind False D (bits m Current)"
    using Cons.prems inr_shiftBitsByConstant bits_shiftBitsByConstant
    by (simp_all flip: length_greater_0_conv)
  consider "D = 0" | "D \<noteq> 0" "isFalseLit e S" | "D \<noteq> 0" "\<not> isFalseLit e S" "isTrueLit e S"
    | "D \<noteq> 0" "\<not> isFalseLit e S" "\<not> isTrueLit e S" by blast
  then show ?case
  proof cases
    case 1
    then show ?thesis using Cons.prems by (auto intro!: yields_return)
  next
    case 2
    have "yields e (stagesLoop Kind ?N Steps Current e) set ?W"
      by (rule yields_weaken [OF Cons.IH])
        (use Cons.prems step isFalseLit_sound [OF Cons.prems(1) _ 2(2)] in auto)
    with 2 show ?thesis by (simp add: Let_def)
  next
    case 3
    have "yields e (stagesLoop Kind ?N Steps ?Stage e) set ?W"
      by (rule yields_weaken [OF Cons.IH])
        (use Cons.prems stage step isTrueLit_sound [OF Cons.prems(1) _ 3(3)] in auto)
    with 3 show ?thesis by (simp add: Let_def)
  next
    case 4
    have "yields e (case selectBits S ?Stage Current e of (Selected, e) \<Rightarrow> stagesLoop Kind ?N Steps Selected e) set ?W"
    proof (rule yields_bind [OF yields_selectBits], goal_cases)
      case (4 Sel u)
      have "Sel \<noteq> []" using length_selectBits [of S ?Stage Current e] 4(1) Cons.prems(2) by auto
      moreover have "inr u (set Steps)" by (rule inr_mono [OF _ 4(3)]) (use Cons.prems in simp)
      ultimately show ?case using 4 stage(3) step
        by (intro yields_weaken [OF Cons.IH]) (force split: if_splits)+
    qed (use Cons.prems stage in \<open>auto intro: enc_mono_stagesLoop\<close>)
    with 4 show ?thesis by (simp add: Let_def)
  qed
qed

text \<open>A constant distance is read without wrapping: beyond the limit only that it is beyond it counts.\<close>

lemma or_place:
  assumes "(v :: nat) < 2 ^ i"
  shows "v OR 2 ^ i = v + 2 ^ i"
proof -
  have "\<not> bit v i" using assms by (metis bit_take_bit_iff less_irrefl take_bit_nat_eq_self)
  then have "v AND 2 ^ i = 0" by (intro bit_eqI) (auto simp: bit_and_iff bit_exp_iff)
  from disjunctive_add_eq_or [OF this] show ?thesis by simp
qed

lemma amountLoop_saturated: "amountLoop e I V True Ls = Some (V', S') \<Longrightarrow> S'"
  by (induction Ls arbitrary: I V) (auto split: if_splits)

lemma amountLoop_value:
  assumes "enc_ok e" "m \<in> mods e" "amountLoop e I V S Ls = Some (V', S')" "V < 2 ^ I"
  shows "(S' \<longrightarrow> S \<or> 2 ^ 64 \<le> V + 2 ^ I * bitsVal m Ls) \<and> (\<not> S' \<longrightarrow> V' = V + 2 ^ I * bitsVal m Ls)"
  using assms(3,4)
proof (induction Ls arbitrary: I V S)
  case (Cons L Ls)
  have c: "isConstant e L" using Cons.prems(1) by (auto split: if_splits)
  note l = isConstant_sound [OF assms(1,2) c]
  have V: "V < 2 ^ Suc I" "V + 2 ^ I < 2 ^ Suc I" using Cons.prems(2) by simp_all
  consider "\<not> isTrueLit e L" | "isTrueLit e L" "64 \<le> I" | "isTrueLit e L" "I < 64" by linarith
  then show ?case
  proof cases
    case 1
    then show ?thesis using Cons.IH [OF _ V(1)] Cons.prems(1) c l by (auto simp: algebra_simps)
  next
    case 2
    have "(2 :: nat) ^ 64 \<le> 2 ^ I" using 2(2) by (intro power_increasing) simp_all
    moreover have "S'" using Cons.prems(1) c 2 by (auto dest!: amountLoop_saturated)
    ultimately show ?thesis using l 2 by (auto simp: algebra_simps)
  next
    case 3
    then have "amountLoop e (Suc I) (V + 2 ^ I) S Ls = Some (V', S')"
      using Cons.prems c by (simp add: or_place)
    from Cons.IH [OF this V(2)] 3 l show ?thesis by (auto simp: algebra_simps)
  qed
qed auto

lemma constantAmount_value:
  assumes "enc_ok e" "m \<in> mods e" "constantAmount e Amount Limit = Some d" "Limit \<le> 2 ^ 64"
  shows "d = min (bitsVal m Amount) Limit"
proof -
  obtain V S where a: "amountLoop e 0 0 False Amount = Some (V, S)" "d = (if S \<or> V > Limit then Limit else V)"
    using assms(3) by (auto simp: constantAmount_def)
  with amountLoop_value [OF assms(1,2) a(1)] assms(4) show ?thesis by (auto simp: min_def)
qed

lemma residueLoop_value:
  assumes "enc_ok e" "m \<in> mods e" "residueLoop e M R P Ls = Some d"
  shows "d mod M = (R + P * bitsVal m Ls) mod M"
  using assms(3)
proof (induction Ls arbitrary: R P)
  case (Cons L Ls)
  have c: "isConstant e L" using Cons.prems by (auto split: if_splits)
  let ?R = "if isTrueLit e L then (R + P) mod M else R" and ?v = "bitsVal m Ls"
  have "d mod M = (?R + (P * 2) mod M * ?v) mod M" using Cons c by simp
  also have "\<dots> = ((if isTrueLit e L then R + P else R) + P * 2 * ?v) mod M"
    by (rule mod_add_cong) (simp_all add: mod_mult_left_eq)
  also have "(if isTrueLit e L then R + P else R) + P * 2 * ?v = R + P * bitsVal m (L # Ls)"
    using isConstant_sound [OF assms(1,2) c] by (simp add: algebra_simps)
  finally show ?case .
qed simp

lemma constantResidue_value:
  assumes "enc_ok e" "m \<in> mods e" "constantResidue e Amount M = Some d"
  shows "d mod M = bitsVal m Amount mod M"
proof -
  have "d mod M = (0 + 1 mod M * bitsVal m Amount) mod M"
    using residueLoop_value [OF assms(1,2)] assms(3) by (simp add: constantResidue_def)
  then show ?thesis by (simp add: mod_mult_left_eq)
qed

lemma shifted_min: "xs \<noteq> [] \<Longrightarrow> \<not> isRotate Kind \<Longrightarrow> shifted Kind z (min d (length xs)) xs = shifted Kind z d xs"
  by (cases "d \<le> length xs") (simp_all add: shifted_full min_def)

lemma fixedShift_value:
  assumes "enc_ok e" "m \<in> mods e" "A \<noteq> []" "length A \<le> 2 ^ 64" "fixedShift e Amount (length A) Kind = Some d"
  shows "bits m (shiftBitsByConstant e A d Kind) = shifted Kind False (bitsVal m Amount) (bits m A)"
proof (cases "isRotate Kind")
  case True
  then show ?thesis using assms constantResidue_value [OF assms(1,2)]
    by (auto simp: bits_shiftBitsByConstant fixedShift_def intro!: rotation_mod)
next
  case False
  then have "d = min (bitsVal m Amount) (length (bits m A))"
    using assms constantAmount_value [OF assms(1,2)] by (simp add: fixedShift_def)
  then show ?thesis using assms False shifted_min [of "bits m A" Kind False] by (simp add: bits_shiftBitsByConstant)
qed

lemma length_stagesLoop [simp]: "length (fst (stagesLoop Kind D Steps Current e)) = length Current"
  by (induction Steps arbitrary: D Current e) (simp_all add: Let_def case_prod_beta)

lemma length_shiftBits: "A \<noteq> [] \<Longrightarrow> length (fst (shiftBits A Amount Kind e)) = length A"
  by (simp add: shiftBits_def Let_def case_prod_beta split: option.split)

lemma shift_beyond:
  assumes "xs \<noteq> []" "\<not> isRotate Kind" "length xs \<le> 2 ^ K"
  shows "(if 0 < bitsVal m (drop K Amount) then replicate (length xs) (if Kind = ArithmeticRight then last xs else z)
      else shifted Kind z (bitsVal m (take K Amount)) xs) = shifted Kind z (bitsVal m Amount) xs"
proof (cases "0 < bitsVal m (drop K Amount)")
  case True
  then have "2 ^ K \<le> bitsVal m Amount" by (simp add: bitsVal_drop div_greater_zero_iff)
  with True assms show ?thesis by (simp add: shifted_full)
next
  case False
  then have "bitsVal m Amount < 2 ^ K" by (simp add: bitsVal_drop div_eq_0_iff)
  with False show ?thesis by (simp add: bitsVal_take)
qed

text \<open>The guard behind the stages: any distance bit above them shifts everything out.\<close>

lemma yields_beyond:
  assumes ok: "enc_ok u" and A: "A \<noteq> []" and len: "length Cur = length A"
    and r: "inr u (set A \<union> set Cur \<union> set High)"
  shows "yields u (case anyLoop (falseLit u) High u of (Beyond, e) \<Rightarrow>
      if isFalseLit e Beyond then (Cur, e)
      else selectBits Beyond (replicate (length A) (if Kind = ArithmeticRight then A ! (length A - 1) else falseLit e)) Cur e) set
    (\<lambda>m Out. bits m Out = (if 0 < bitsVal m High
       then replicate (length A) (if Kind = ArithmeticRight then last (bits m A) else False) else bits m Cur))"
proof (rule yields_bind [OF yields_anyLoop], goal_cases)
  case 1
  show ?case using constants_inr [OF ok] r by simp
next
  case 2
  show ?case by (intro enc_mono_if enc_mono_selectBits) simp
next
  case (3 B w)
  let ?F = "replicate (length A) (if Kind = ArithmeticRight then A ! (length A - 1) else falseLit w)"
  have rw: "inr w (set A)" "inr w (set Cur)" by (rule inr_mono [OF _ 3(3)]; use r in simp)+
  have fill: "bits m ?F = replicate (length A) (if Kind = ArithmeticRight then last (bits m A) else False)"
    if "m \<in> mods w" for m
    using constants_true [OF 3(2) that] A by (simp add: last_map last_conv_nth)
  have rF: "inr w (set ?F)" using constants_inr [OF 3(2)] inr_last [OF rw(1) A] by (auto simp: inr_def last_conv_nth)
  have nf: "\<not> lit_true m (falseLit u)" if "m \<in> mods u" for m using constants_true [OF ok that] by simp
  show ?case
  proof (cases "isFalseLit w B")
    case True
    then show ?thesis using rw(2) isFalseLit_sound [OF 3(2) _ True] nf by (auto intro!: yields_return)
  next
    case False
    have g: "bits m (if lit_true m B then ?F else Cur) = (if 0 < bitsVal m High
          then replicate (length A) (if Kind = ArithmeticRight then last (bits m A) else False) else bits m Cur)"
      if "m \<in> mods w" "m \<in> mods u" "lit_true m B = (lit_true m (falseLit u) \<or> 0 < bitsVal m High)" for m
      using fill [OF that(1)] nf [OF that(2)] that(3) by simp
    have "yields w (selectBits B ?F Cur w) set (\<lambda>m Out. bits m Out = bits m (if lit_true m B then ?F else Cur))"
      by (rule yields_selectBits) (use len rw rF 3(4) in simp_all)
    then have "yields w (selectBits B ?F Cur w) set
      (\<lambda>m Out. m \<in> mods u \<longrightarrow> lit_true m B = (lit_true m (falseLit u) \<or> 0 < bitsVal m High) \<longrightarrow>
        bits m Out = (if 0 < bitsVal m High
          then replicate (length A) (if Kind = ArithmeticRight then last (bits m A) else False) else bits m Cur))"
      by (rule yields_weaken) (intro impI, erule trans, rule g, assumption+, rule subset_refl)
    with False show ?thesis by simp
  qed
qed

lemma yields_shiftBits:
  assumes ok: "enc_ok e" and A: "A \<noteq> []" "length A \<le> 2 ^ 64" and r: "inr e (set A \<union> set Amount)"
  shows "yields e (shiftBits A Amount Kind e) set
    (\<lambda>m Out. bits m Out = shifted Kind False (bitsVal m Amount) (bits m A))"
proof (cases "fixedShift e Amount (length A) Kind")
  case (Some d)
  with assms show ?thesis
    by (auto simp: shiftBits_def inr_shiftBitsByConstant fixedShift_value intro!: yields_return)
next
  case None
  let ?K = "stageCount (length A)" and ?Rot = "isRotate Kind"
  let ?U = "if ?Rot then length Amount else min ?K (length Amount)" and ?D = "if ?Rot then 1 mod length A else 1"
  define P where "P m = shifted Kind False (?D * bitsVal m (take ?U Amount)) (bits m A)" for m
  have stages: "yields e (stagesLoop Kind ?D (take ?U Amount) A e) set (\<lambda>m Out. bits m Out = P m)"
    unfolding P_def by (rule yields_stagesLoop [OF ok A(1)]) (use r in auto)
  have rot: "P m = shifted Kind False (bitsVal m Amount) (bits m A)" if "?Rot" for m
    unfolding P_def by (rule rotation_mod) (use that in \<open>simp_all add: mod_mult_left_eq\<close>)
  have beyond: "(if 0 < bitsVal m (drop ?K Amount) then replicate (length A) (if Kind = ArithmeticRight then last (bits m A) else False)
      else P m) = shifted Kind False (bitsVal m Amount) (bits m A)" if "\<not> ?Rot" for m
    using shift_beyond [of "bits m A" Kind ?K m Amount False] A(1) that stageCount_bound [of "length A"]
    by (auto simp: min_def P_def)
  have "yields e (case stagesLoop Kind ?D (take ?U Amount) A e of (Current, e) \<Rightarrow>
      if ?Rot then (Current, e) else case anyLoop (falseLit e) (drop ?K Amount) e of (Beyond, e) \<Rightarrow>
        if isFalseLit e Beyond then (Current, e)
        else selectBits Beyond (replicate (length A) (if Kind = ArithmeticRight then A ! (length A - 1) else falseLit e)) Current e) set
      (\<lambda>m Out. bits m Out = shifted Kind False (bitsVal m Amount) (bits m A))"
  proof (rule yields_bind [OF stages], goal_cases)
    case 1
    show ?case by (intro enc_mono_if enc_mono_bind enc_mono_anyLoop enc_mono_selectBits) simp_all
  next
    case (2 Cur u)
    have len: "length Cur = length A" using length_stagesLoop [of Kind ?D "take ?U Amount" A e] 2(1) by simp
    have "inr u (set A \<union> set (drop ?K Amount))" by (rule inr_mono [OF _ 2(3)]) (use r in auto)
    with 2(4) have ru: "inr u (set A \<union> set Cur \<union> set (drop ?K Amount))" by simp
    show ?case
    proof (cases ?Rot)
      case True
      with 2 rot show ?thesis by (auto intro!: yields_return)
    next
      case False
      have "yields u (case anyLoop (falseLit u) (drop ?K Amount) u of (Beyond, e) \<Rightarrow>
          if isFalseLit e Beyond then (Cur, e)
          else selectBits Beyond (replicate (length A) (if Kind = ArithmeticRight then A ! (length A - 1) else falseLit e)) Cur e) set
          (\<lambda>m Out. m \<in> mods e \<longrightarrow> bits m Cur = P m \<longrightarrow> bits m Out = shifted Kind False (bitsVal m Amount) (bits m A))"
        by (rule yields_weaken [OF yields_beyond [OF 2(2) A(1) len ru, of Kind]])
          (simp_all add: beyond [OF False, symmetric])
      with False show ?thesis by simp
    qed
  qed
  then show ?thesis unfolding shiftBits_def Let_def None option.case .
qed

section \<open>Shifts as arithmetic\<close>

definition listVal :: "bool list \<Rightarrow> nat" where
  "listVal bs = horner_sum of_bool 2 bs"

definition listSigned :: "bool list \<Rightarrow> int" where
  "listSigned bs = int (listVal bs) - (if last bs then 2 ^ length bs else 0)"

lemma listVal_simps [simp]: "listVal [] = 0" "listVal (b # bs) = of_bool b + 2 * listVal bs"
  "listVal (replicate n False) = 0"
  by (simp_all add: listVal_def) (induction n; simp)

lemma listVal_append: "listVal (xs @ ys) = listVal xs + 2 ^ length xs * listVal ys"
  by (simp add: listVal_def horner_sum_append)

lemma listVal_take: "listVal (take n bs) = listVal bs mod 2 ^ n"
  by (simp add: listVal_def flip: take_bit_horner_sum_bit_eq take_bit_eq_mod)

lemma listVal_drop: "listVal (drop n bs) = listVal bs div 2 ^ n"
proof (induction bs arbitrary: n)
  case (Cons b bs)
  then show ?case by (cases n) (simp_all add: div_mult2_eq)
qed simp

lemma listVal_bits: "listVal (bits m A) = bitsVal m A" "A \<noteq> [] \<Longrightarrow> listSigned (bits m A) = signedVal m A"
  by (simp_all add: listVal_def bitsVal_def listSigned_def signedVal_def last_map)

lemma shift_left_value: "listVal (shifted Left False d bs) = listVal bs * 2 ^ d mod 2 ^ length bs"
  unfolding shifted.simps listVal_take by (simp add: listVal_append mult.commute)

lemma shift_right_value: "listVal (shifted LogicalRight False d bs) = listVal bs div 2 ^ d"
  by (simp add: listVal_append listVal_drop)

lemma shift_arithmetic_one:
  assumes "bs \<noteq> []"
  shows "listSigned (shifted ArithmeticRight z 1 bs) = listSigned bs div 2"
proof -
  obtain b cs where bs: "bs = b # cs" using assms by (cases bs) auto
  show ?thesis
  proof (cases "cs = []")
    case False
    let ?s = "int (listVal cs) - (if last cs then 2 ^ length cs else 0)"
    have "listSigned (shifted ArithmeticRight z 1 bs) = ?s"
      using False by (simp add: bs listSigned_def listVal_append)
    moreover have "listSigned bs = of_bool b + 2 * ?s" using False by (simp add: bs listSigned_def)
    ultimately show ?thesis by simp
  qed (simp add: bs listSigned_def)
qed

lemma shift_arithmetic_value:
  "bs \<noteq> [] \<Longrightarrow> listSigned (shifted ArithmeticRight z d bs) = listSigned bs div 2 ^ d"
proof (induction d)
  case (Suc d)
  have "shifted ArithmeticRight z (Suc d) bs = shifted ArithmeticRight z 1 (shifted ArithmeticRight z d bs)"
    using shifted_add [OF Suc.prems, of ArithmeticRight z 1 d] by simp
  moreover have "shifted ArithmeticRight z d bs \<noteq> []" using Suc.prems length_shifted [of ArithmeticRight z d bs] by fastforce
  ultimately have "listSigned (shifted ArithmeticRight z (Suc d) bs) = listSigned bs div 2 ^ d div 2"
    using shift_arithmetic_one Suc by metis
  then show ?case by (simp add: zdiv_zmult2_eq power_Suc2 del: power_Suc)
qed simp

lemma rotations_inverse: "shifted RotateRight z d (shifted RotateLeft z d bs) = bs"
proof (cases "bs = []")
  case False
  have "(d + (length bs - d mod length bs)) mod length bs = (d mod length bs + (length bs - d mod length bs)) mod length bs"
    by (simp add: mod_simps)
  also have "\<dots> = 0" using False by (simp add: less_imp_le)
  finally show ?thesis using rotate_conv_mod [of "d + (length bs - d mod length bs)" bs] by (simp add: rotate_rotate)
qed simp

text \<open>
  C25.  Shifts and rotates by a vector: in every model the output is the operand shifted by the whole
  value of the distance, however wide the distance is.  A left shift multiplies by two to the distance
  modulo two to the width, a right shift divides the unsigned value, an arithmetic one the signed
  value towards minus infinity, and a rotation turns the list by the distance modulo any width.\<close>

theorem shift_circuit:
  assumes "enc_ok e" "A \<noteq> []" "length A \<le> 2 ^ 64" "\<forall>L \<in> set A \<union> set Amount. unat (var L) < nv e"
    "shiftBits A Amount Kind e = (Out, e')" "\<not> enc_full e'"
  shows "good e e' \<and> length Out = length A \<and> (\<forall>m \<in> mods e'.
    case Kind of
      Left \<Rightarrow> bitsVal m Out = bitsVal m A * 2 ^ bitsVal m Amount mod 2 ^ length A
    | LogicalRight \<Rightarrow> bitsVal m Out = bitsVal m A div 2 ^ bitsVal m Amount
    | ArithmeticRight \<Rightarrow> signedVal m Out = signedVal m A div 2 ^ bitsVal m Amount
    | RotateLeft \<Rightarrow> rotate (bitsVal m Amount) (bits m Out) = bits m A
    | RotateRight \<Rightarrow> bits m Out = rotate (bitsVal m Amount) (bits m A))"
proof -
  have r: "inr e (set A \<union> set Amount)" using assms(4) by (simp add: inr_def)
  note y = yieldsD [OF yields_shiftBits [OF assms(1,2,3) r] assms(1,5,6)]
  have len: "length Out = length A" using length_shiftBits [OF assms(2), of Amount Kind e] assms(5) by simp
  then have ne: "Out \<noteq> []" using assms(2) by auto
  have "case Kind of
      Left \<Rightarrow> bitsVal m Out = bitsVal m A * 2 ^ bitsVal m Amount mod 2 ^ length A
    | LogicalRight \<Rightarrow> bitsVal m Out = bitsVal m A div 2 ^ bitsVal m Amount
    | ArithmeticRight \<Rightarrow> signedVal m Out = signedVal m A div 2 ^ bitsVal m Amount
    | RotateLeft \<Rightarrow> rotate (bitsVal m Amount) (bits m Out) = bits m A
    | RotateRight \<Rightarrow> bits m Out = rotate (bitsVal m Amount) (bits m A)" if m: "m \<in> mods e'" for m
    using y(3) [OF m] shift_left_value [of "bitsVal m Amount" "bits m A"] shift_right_value [of "bitsVal m Amount" "bits m A"]
      shift_arithmetic_value [of "bits m A" False "bitsVal m Amount"] rotations_inverse [of False "bitsVal m Amount" "bits m A"]
      listVal_bits(1) listVal_bits(2) [OF ne, of m] listVal_bits(2) [OF assms(2), of m] ne assms(2) by (cases Kind) (simp_all del: shifted.simps(1-4), metis+)
  with y(1) len show ?thesis by blast
qed

theorem shift_circuit_witness:
  "mods two_inputs \<subseteq> {m. signedVal m (fst (shiftBits [falseLit two_inputs, falseLit two_inputs, trueLit two_inputs] [trueLit two_inputs] ArithmeticRight two_inputs)) = - 2}"
proof -
  let ?A = "[falseLit two_inputs, falseLit two_inputs, trueLit two_inputs]" and ?S = "[trueLit two_inputs]"
  obtain Out where d: "shiftBits ?A ?S ArithmeticRight two_inputs = (Out, two_inputs)"
    by (simp add: shiftBits_def fixedShift_def isRotate_def constantAmount_def)
  have v: "signedVal m ?A = - 4" "bitsVal m ?S = 1" if "m \<in> mods two_inputs" for m
    using constants_true [OF two_inputs_ok(1) that] by (simp_all add: signedVal_def)
  have "signedVal m Out = signedVal m ?A div 2 ^ bitsVal m ?S" if "m \<in> mods two_inputs" for m
    using shift_circuit [OF two_inputs_ok(1) _ _ _ d two_inputs_not_full] two_inputs_falseLit that by simp
  with v d show ?thesis by auto
qed

end
