(* ===== verification/Sym_Expr.thy ===== *)
theory Sym_Expr
  imports Bit_Shift
begin

text \<open>
  Interned expressions, as the symbolic context stores them, and what they are worth: the reference
  semantics the circuits are compared with, and the shape every interned node has.
\<close>

section \<open>Expressions\<close>

datatype SymOp =
    SConst | SVar
  | SAdd | SMul | SAnd | SOr | SXor
  | SNot
  | SShl | SLShr | SAShr | SUDiv | SSDiv | SURem | SSRem | SRol | SRor
  | SExtract | SConcat | SZExt | SSExt | SIte
  | SEq | SUlt | SUle | SSlt | SSle

type_synonym SymRef = u32

definition isValidRef :: "SymRef \<Rightarrow> bool" where
  "isValidRef R \<longleftrightarrow> R \<noteq> NOT 0"

record SymNode =
  NOp :: SymOp
  NWidth :: u32
  NFirstOperand :: u32
  NNumOperands :: u32
  NAux :: u64

record SymContext =
  Nodes :: "SymNode list"
  NodeOperands :: "SymRef list"
  WideConsts :: "nat list"

definition numNodes :: "SymContext \<Rightarrow> nat" where
  "numNodes c = length (Nodes c)"

definition node :: "SymContext \<Rightarrow> SymRef \<Rightarrow> SymNode" where
  "node c R = Nodes c ! unat R"

definition symWidth :: "SymContext \<Rightarrow> SymRef \<Rightarrow> u32" where
  "symWidth c R = NWidth (node c R)"

definition operands :: "SymContext \<Rightarrow> SymRef \<Rightarrow> SymRef list" where
  "operands c R =
     take (unat (NNumOperands (node c R))) (drop (unat (NFirstOperand (node c R))) (NodeOperands c))"

definition constValue :: "SymContext \<Rightarrow> SymRef \<Rightarrow> nat" where
  "constValue c R =
     (if NWidth (node c R) \<le> 64 then unat (NAux (node c R)) else WideConsts c ! unat (NAux (node c R)))"

definition varId :: "SymContext \<Rightarrow> SymRef \<Rightarrow> u32" where
  "varId c R = ucast (NAux (node c R))"

section \<open>What an expression is worth\<close>

text \<open>
  The reference semantics of the operators, on natural numbers below two to the width; operands come
  with their widths.
\<close>

definition asSigned :: "nat \<Rightarrow> nat \<Rightarrow> int" where
  "asSigned W v = int v - (if 2 ^ (W - 1) \<le> v then 2 ^ W else 0)"

definition rotatedRight :: "nat \<Rightarrow> nat \<Rightarrow> nat \<Rightarrow> nat" where
  "rotatedRight W v k = v div 2 ^ k + 2 ^ (W - k) * (v mod 2 ^ k)"

fun opValue :: "SymOp \<Rightarrow> nat \<Rightarrow> nat \<Rightarrow> (nat \<times> nat) list \<Rightarrow> nat" where
  "opValue SAdd W Low Args = sum_list (map snd Args) mod 2 ^ W"
| "opValue SMul W Low Args = prod_list (map snd Args) mod 2 ^ W"
| "opValue SAnd W Low Args = foldl (AND) (snd (hd Args)) (map snd (tl Args))"
| "opValue SOr W Low Args = foldl (OR) (snd (hd Args)) (map snd (tl Args))"
| "opValue SXor W Low Args = foldl (XOR) (snd (hd Args)) (map snd (tl Args))"
| "opValue SNot W Low [(_, a)] = 2 ^ W - 1 - a"
| "opValue SShl W Low [(_, a), (_, b)] = a * 2 ^ b mod 2 ^ W"
| "opValue SLShr W Low [(_, a), (_, b)] = a div 2 ^ b"
| "opValue SAShr W Low [(_, a), (_, b)] = nat (asSigned W a div 2 ^ b mod 2 ^ W)"
| "opValue SUDiv W Low [(_, a), (_, b)] = (if b = 0 then 2 ^ W - 1 else a div b)"
| "opValue SURem W Low [(_, a), (_, b)] = a mod b"
| "opValue SSDiv W Low [(_, a), (_, b)] = nat (signedQuotient (asSigned W a) (asSigned W b) mod 2 ^ W)"
| "opValue SSRem W Low [(_, a), (_, b)] = nat (asSigned W a smod asSigned W b mod 2 ^ W)"
| "opValue SRol W Low [(_, a), (_, b)] = rotatedRight W a (W - b mod W)"
| "opValue SRor W Low [(_, a), (_, b)] = rotatedRight W a (b mod W)"
| "opValue SExtract W Low [(_, a)] = a div 2 ^ Low mod 2 ^ W"
| "opValue SConcat W Low Args = foldl (\<lambda>acc (w, v). acc * 2 ^ w + v) 0 Args"
| "opValue SZExt W Low [(_, a)] = a"
| "opValue SSExt W Low [(w, a)] = nat (asSigned w a mod 2 ^ W)"
| "opValue SIte W Low [(_, c), (_, t), (_, e)] = (if c \<noteq> 0 then t else e)"
| "opValue SEq W Low [(_, a), (_, b)] = of_bool (a = b)"
| "opValue SUlt W Low [(_, a), (_, b)] = of_bool (a < b)"
| "opValue SUle W Low [(_, a), (_, b)] = of_bool (a \<le> b)"
| "opValue SSlt W Low [(w, a), (_, b)] = of_bool (asSigned w a < asSigned w b)"
| "opValue SSle W Low [(w, a), (_, b)] = of_bool (asSigned w a \<le> asSigned w b)"
| "opValue Op W Low Args = 0"

definition nodeValue :: "SymContext \<Rightarrow> (u32 \<Rightarrow> nat) \<Rightarrow> (SymRef \<Rightarrow> nat) \<Rightarrow> SymRef \<Rightarrow> nat" where
  "nodeValue c \<rho> val R =
     (let N = node c R; W = unat (NWidth N) in
      if NOp N = SConst then constValue c R
      else if NOp N = SVar then \<rho> (varId c R) mod 2 ^ W
      else opValue (NOp N) W (unat (ucast (NAux N) :: u32))
             (map (\<lambda>x. (unat (symWidth c x), val x)) (operands c R)))"

text \<open>Operands have smaller numbers than their users, so the values are computed in that order.\<close>

primrec nodeValues :: "SymContext \<Rightarrow> (u32 \<Rightarrow> nat) \<Rightarrow> nat \<Rightarrow> nat list" where
  "nodeValues c \<rho> 0 = []"
| "nodeValues c \<rho> (Suc n) =
     (let vs = nodeValues c \<rho> n in vs @ [nodeValue c \<rho> (\<lambda>x. if unat x < n then vs ! unat x else 0) (word_of_nat n)])"

definition symValue :: "SymContext \<Rightarrow> (u32 \<Rightarrow> nat) \<Rightarrow> SymRef \<Rightarrow> nat" where
  "symValue c \<rho> R = nodeValues c \<rho> (Suc (unat R)) ! unat R"

section \<open>Well-formed contexts\<close>

text \<open>What the interning builders establish of every node.\<close>

abbreviation widthOf :: "SymContext \<Rightarrow> SymRef \<Rightarrow> nat" where
  "widthOf c R \<equiv> unat (symWidth c R)"

fun shape_ok :: "SymOp \<Rightarrow> nat \<Rightarrow> nat \<Rightarrow> nat list \<Rightarrow> bool" where
  "shape_ok SConst W Low ws = (ws = [])"
| "shape_ok SVar W Low ws = (ws = [])"
| "shape_ok SNot W Low ws = (ws = [W])"
| "shape_ok SShl W Low ws = (length ws = 2 \<and> hd ws = W)"
| "shape_ok SLShr W Low ws = (length ws = 2 \<and> hd ws = W)"
| "shape_ok SAShr W Low ws = (length ws = 2 \<and> hd ws = W)"
| "shape_ok SRol W Low ws = (length ws = 2 \<and> hd ws = W)"
| "shape_ok SRor W Low ws = (length ws = 2 \<and> hd ws = W)"
| "shape_ok SUDiv W Low ws = (ws = [W, W])"
| "shape_ok SSDiv W Low ws = (ws = [W, W])"
| "shape_ok SURem W Low ws = (ws = [W, W])"
| "shape_ok SSRem W Low ws = (ws = [W, W])"
| "shape_ok SExtract W Low ws = (length ws = 1 \<and> Low + W \<le> hd ws)"
| "shape_ok SConcat W Low ws = (sum_list ws = W)"
| "shape_ok SZExt W Low ws = (length ws = 1 \<and> hd ws \<le> W)"
| "shape_ok SSExt W Low ws = (length ws = 1 \<and> 0 < hd ws \<and> hd ws \<le> W)"
| "shape_ok SIte W Low ws = (ws = [1, W, W])"
| "shape_ok SEq W Low ws = (W = 1 \<and> length ws = 2 \<and> ws ! 0 = ws ! 1)"
| "shape_ok SUlt W Low ws = (W = 1 \<and> length ws = 2 \<and> ws ! 0 = ws ! 1 \<and> 0 < ws ! 0)"
| "shape_ok SUle W Low ws = (W = 1 \<and> length ws = 2 \<and> ws ! 0 = ws ! 1 \<and> 0 < ws ! 0)"
| "shape_ok SSlt W Low ws = (W = 1 \<and> length ws = 2 \<and> ws ! 0 = ws ! 1 \<and> 0 < ws ! 0)"
| "shape_ok SSle W Low ws = (W = 1 \<and> length ws = 2 \<and> ws ! 0 = ws ! 1 \<and> 0 < ws ! 0)"
| "shape_ok Op W Low ws = (ws \<noteq> [] \<and> list_all (\<lambda>w. w = W) ws)"

definition node_ok :: "SymContext \<Rightarrow> SymRef \<Rightarrow> bool" where
  "node_ok c R \<longleftrightarrow> symWidth c R \<noteq> 0 \<and>
     list_all (\<lambda>x. unat x < unat R) (operands c R) \<and>
     shape_ok (NOp (node c R)) (widthOf c R) (unat (ucast (NAux (node c R)) :: u32)) (map (widthOf c) (operands c R)) \<and>
     (NOp (node c R) = SConst \<longrightarrow> constValue c R < 2 ^ widthOf c R)"

definition ctx_ok :: "SymContext \<Rightarrow> bool" where
  "ctx_ok c \<longleftrightarrow> numNodes c \<le> 2 ^ 32 \<and> (\<forall>n < numNodes c. node_ok c (word_of_nat n)) \<and>
     (\<forall>R R'. unat R < numNodes c \<longrightarrow> unat R' < numNodes c \<longrightarrow> NOp (node c R) = SVar \<longrightarrow> NOp (node c R') = SVar \<longrightarrow>
        varId c R = varId c R' \<longrightarrow> R = R')"

lemma ctx_okD:
  assumes "ctx_ok c" "unat R < numNodes c"
  shows "node_ok c R" "\<And>x. x \<in> set (operands c R) \<Longrightarrow> unat x < unat R"
proof -
  show "node_ok c R" using assms by (auto simp: ctx_ok_def dest!: spec [of _ "unat R"])
  then show "\<And>x. x \<in> set (operands c R) \<Longrightarrow> unat x < unat R" by (auto simp: node_ok_def list_all_iff)
qed

lemma length_nodeValues [simp]: "length (nodeValues c \<rho> n) = n"
  by (induction n) (simp_all add: Let_def)

lemma nodeValues_nth: "i < n \<Longrightarrow> nodeValues c \<rho> n ! i = nodeValues c \<rho> (Suc i) ! i"
proof (induction n)
  case (Suc n)
  then show ?case by (cases "i < n") (auto simp: Let_def nth_append less_Suc_eq)
qed simp

text \<open>The value of a node is that of its operator on the values of its operands.\<close>

lemma symValue_eq:
  assumes "ctx_ok c" "unat R < numNodes c"
  shows "symValue c \<rho> R = nodeValue c \<rho> (symValue c \<rho>) R"
proof -
  let ?n = "unat R" and ?vs = "nodeValues c \<rho> (unat R)"
  have "symValue c \<rho> R = nodeValue c \<rho> (\<lambda>x. if unat x < ?n then ?vs ! unat x else 0) R"
    by (simp add: symValue_def Let_def nth_append)
  also have "\<dots> = nodeValue c \<rho> (symValue c \<rho>) R"
  proof -
    have "map (\<lambda>x. (widthOf c x, if unat x < ?n then ?vs ! unat x else 0)) (operands c R) =
        map (\<lambda>x. (widthOf c x, symValue c \<rho> x)) (operands c R)"
      using ctx_okD(2) [OF assms] nodeValues_nth [of _ ?n c \<rho>] by (simp add: symValue_def)
    then show ?thesis unfolding nodeValue_def Let_def by (simp only:)
  qed
  finally show ?thesis .
qed

end
