(* ===== verification/Blast_Model.thy ===== *)
theory Blast_Model
  imports Sym_Expr
begin

text \<open>
  The bit blaster: its cache from nodes to slices of a pool of literals, the circuit of each operator, the
  walk over the nodes a root reaches, and the radix sort that puts them in order.
\<close>

section \<open>The blaster's state\<close>

record BlastLimits =
  MaxWidth :: u32
  MaxGates :: nat

definition unlimitedLimits :: BlastLimits where
  "unlimitedLimits = \<lparr>MaxWidth = 0, MaxGates = 0\<rparr>"

datatype BlastError = NoError | WidthTooLarge | TooManyGates | MalformedExpr

fun blastErrorName :: "BlastError \<Rightarrow> string" where
  "blastErrorName NoError = ''none''"
| "blastErrorName WidthTooLarge = ''width too large''"
| "blastErrorName TooManyGates = ''too many gates''"
| "blastErrorName MalformedExpr = ''malformed expression''"

record Slice =
  SFirst :: nat
  SWidth :: u32

record BitBlaster =
  Enc :: CnfEncoder
  BLimits :: BlastLimits
  BError :: BlastError
  GateBase :: nat
  BitPool :: LitVec
  Encoded :: "SymRef \<Rightarrow> Slice option"
  VarSlices :: "u32 \<Rightarrow> Slice option"
  EncodedVars :: "u32 list"

definition newBlaster :: "CnfEncoder \<Rightarrow> BlastLimits \<Rightarrow> BitBlaster" where
  "newBlaster e L =
     \<lparr>Enc = e, BLimits = L, BError = NoError, GateBase = numGates e, BitPool = [],
      Encoded = Map.empty, VarSlices = Map.empty, EncodedVars = []\<rparr>"

definition cloneBlaster :: "CnfEncoder \<Rightarrow> BitBlaster \<Rightarrow> BitBlaster" where
  "cloneBlaster e Other =
     \<lparr>Enc = e, BLimits = BLimits Other, BError = BError Other, GateBase = GateBase Other,
      BitPool = BitPool Other, Encoded = Encoded Other, VarSlices = VarSlices Other,
      EncodedVars = EncodedVars Other\<rparr>"

definition blasterOk :: "BitBlaster \<Rightarrow> bool" where
  "blasterOk b \<longleftrightarrow> BError b = NoError"

definition withinGateBudget :: "BitBlaster \<Rightarrow> bool" where
  "withinGateBudget b \<longleftrightarrow>
     MaxGates (BLimits b) = 0 \<or> numGates (Enc b) - GateBase b \<le> MaxGates (BLimits b)"

definition blastFail :: "BlastError \<Rightarrow> BitBlaster \<Rightarrow> bool \<times> BitBlaster" where
  "blastFail E b = (False, if BError b = NoError then b\<lparr>BError := E\<rparr> else b)"

definition storeBits :: "SymRef \<Rightarrow> LitVec \<Rightarrow> BitBlaster \<Rightarrow> BitBlaster" where
  "storeBits R Bits b =
     b\<lparr>BitPool := BitPool b @ Bits,
       Encoded := (Encoded b)(R \<mapsto> \<lparr>SFirst = length (BitPool b), SWidth = word_of_nat (length Bits)\<rparr>)\<rparr>"

definition sliceBits :: "BitBlaster \<Rightarrow> Slice \<Rightarrow> LitVec" where
  "sliceBits b S = take (unat (SWidth S)) (drop (SFirst S) (BitPool b))"

definition variableBits :: "BitBlaster \<Rightarrow> u32 \<Rightarrow> LitVec" where
  "variableBits b VarId = (case VarSlices b VarId of None \<Rightarrow> [] | Some S \<Rightarrow> sliceBits b S)"

definition bitsOf :: "BitBlaster \<Rightarrow> SymRef \<Rightarrow> LitVec" where
  "bitsOf b R = sliceBits b (the (Encoded b R))"

definition isEncoded :: "BitBlaster \<Rightarrow> SymRef \<Rightarrow> bool" where
  "isEncoded b R \<longleftrightarrow> Encoded b R \<noteq> None"

section \<open>One node\<close>

text \<open>The literals of a new variable, least significant first.\<close>

fun freshBits :: "nat \<Rightarrow> CnfEncoder \<Rightarrow> LitVec \<times> CnfEncoder" where
  "freshBits 0 e = ([], e)"
| "freshBits (Suc n) e =
     (case freshLit e of (L, e) \<Rightarrow> case freshBits n e of (Ls, e) \<Rightarrow> (L # Ls, e))"

definition bitwiseGate :: "SymOp \<Rightarrow> SatLit \<Rightarrow> SatLit \<Rightarrow> CnfEncoder \<Rightarrow> SatLit \<times> CnfEncoder" where
  "bitwiseGate Op A B e =
     (if Op = SAnd then mkAnd2 A B e else if Op = SOr then mkOr2 A B e else mkXor2 A B e)"

fun bitwiseRow :: "SymOp \<Rightarrow> LitVec \<Rightarrow> LitVec \<Rightarrow> CnfEncoder \<Rightarrow> LitVec \<times> CnfEncoder" where
  "bitwiseRow Op (A # As) (B # Bs) e =
     (case bitwiseGate Op A B e of (L, e) \<Rightarrow> case bitwiseRow Op As Bs e of (Ls, e) \<Rightarrow> (L # Ls, e))"
| "bitwiseRow Op As Bs e = ([], e)"

text \<open>The operators of any number of operands start from the first and take the others in turn.\<close>

fun foldBits :: "(LitVec \<Rightarrow> LitVec \<Rightarrow> CnfEncoder \<Rightarrow> LitVec \<times> CnfEncoder) \<Rightarrow> LitVec \<Rightarrow> LitVec list \<Rightarrow> CnfEncoder \<Rightarrow> LitVec \<times> CnfEncoder" where
  "foldBits f Result [] e = (Result, e)"
| "foldBits f Result (Next # Rest) e = (case f Result Next e of (Result, e) \<Rightarrow> foldBits f Result Rest e)"

definition addOperand :: "LitVec \<Rightarrow> LitVec \<Rightarrow> CnfEncoder \<Rightarrow> LitVec \<times> CnfEncoder" where
  "addOperand A B e = addBits A B (falseLit e) e"

definition resizeBits :: "LitVec \<Rightarrow> nat \<Rightarrow> SatLit \<Rightarrow> LitVec" where
  "resizeBits Bits Size Fill = take Size Bits @ replicate (Size - length Bits) Fill"

text \<open>The circuit of an operator other than a variable; no circuit means a malformed node.\<close>

definition nodeCircuit :: "SymContext \<Rightarrow> SymRef \<Rightarrow> LitVec list \<Rightarrow> CnfEncoder \<Rightarrow> (LitVec \<times> CnfEncoder) option" where
  "nodeCircuit c R Args e =
     (let N = node c R; Width = NWidth N; A = Args ! 0; B = Args ! 1 in
      case NOp N of
        SConst \<Rightarrow> Some (map (\<lambda>I. constantLit e (bit (constValue c R) I)) [0..<unat Width], e)
      | SVar \<Rightarrow> Some (freshBits (unat Width) e)
      | SNot \<Rightarrow> Some (map negl A, e)
      | SAnd \<Rightarrow> Some (foldBits (bitwiseRow SAnd) A (tl Args) e)
      | SOr \<Rightarrow> Some (foldBits (bitwiseRow SOr) A (tl Args) e)
      | SXor \<Rightarrow> Some (foldBits (bitwiseRow SXor) A (tl Args) e)
      | SAdd \<Rightarrow> Some (foldBits addOperand A (tl Args) e)
      | SMul \<Rightarrow> Some (foldBits multiplyBits A (tl Args) e)
      | SShl \<Rightarrow> Some (shiftBits A B Left e)
      | SLShr \<Rightarrow> Some (shiftBits A B LogicalRight e)
      | SAShr \<Rightarrow> Some (shiftBits A B ArithmeticRight e)
      | SRol \<Rightarrow> Some (shiftBits A B RotateLeft e)
      | SRor \<Rightarrow> Some (shiftBits A B RotateRight e)
      | SUDiv \<Rightarrow> Some (case divideBits A B e of ((Q, _), e) \<Rightarrow> (Q, e))
      | SURem \<Rightarrow> Some (case divideBits A B e of ((_, R), e) \<Rightarrow> (R, e))
      | SSDiv \<Rightarrow> Some (case divideSignedBits True False A B e of ((Q, _), e) \<Rightarrow> (the Q, e))
      | SSRem \<Rightarrow> Some (case divideSignedBits False True A B e of ((_, R), e) \<Rightarrow> (the R, e))
      | SExtract \<Rightarrow>
          let Low = ucast (NAux N) :: u32 in
          if unat (Low + Width) > length A then None
          else Some (take (unat Width) (drop (unat Low) A), e)
      | SConcat \<Rightarrow> let Result = concat (rev Args) in if length Result \<noteq> unat Width then None else Some (Result, e)
      | SZExt \<Rightarrow> Some (resizeBits A (unat Width) (falseLit e), e)
      | SSExt \<Rightarrow> if A = [] then None else Some (resizeBits A (unat Width) (last A), e)
      | SIte \<Rightarrow> if length A \<noteq> 1 then None else Some (selectBits (A ! 0) B (Args ! 2) e)
      | SEq \<Rightarrow> Some (case equalBits A B e of (L, e) \<Rightarrow> ([L], e))
      | SUlt \<Rightarrow> Some (case lessThanBits A B False False e of (L, e) \<Rightarrow> ([L], e))
      | SUle \<Rightarrow> Some (case lessThanBits A B True False e of (L, e) \<Rightarrow> ([L], e))
      | SSlt \<Rightarrow> Some (case lessThanBits A B False True e of (L, e) \<Rightarrow> ([L], e))
      | SSle \<Rightarrow> Some (case lessThanBits A B True True e of (L, e) \<Rightarrow> ([L], e)))"

definition encodeNode :: "SymContext \<Rightarrow> SymRef \<Rightarrow> BitBlaster \<Rightarrow> bool \<times> BitBlaster" where
  "encodeNode c R b =
     (let N = node c R; Width = NWidth N; Limit = MaxWidth (BLimits b) in
      if Width = 0 then blastFail MalformedExpr b
      else if Limit \<noteq> 0 \<and> Width > Limit then blastFail WidthTooLarge b
      else
        case nodeCircuit c R (map (bitsOf b) (operands c R)) (Enc b) of
          None \<Rightarrow> blastFail MalformedExpr b
        | Some (Result, e) \<Rightarrow>
            let b = b\<lparr>Enc := e\<rparr> in
            if NOp N = SVar then
              let b = storeBits R Result b; Id = varId c R in
              (True, b\<lparr>VarSlices := (VarSlices b)(Id := Encoded b R), EncodedVars := EncodedVars b @ [Id]\<rparr>)
            else if length Result \<noteq> unat Width then blastFail MalformedExpr b
            else (True, storeBits R Result b))"

section \<open>The traversal\<close>

text \<open>One counting pass over the digit at \<open>Sh\<close>: count, turn counts into offsets, place in order.\<close>

definition radixDigit :: "nat \<Rightarrow> u32 \<Rightarrow> nat" where
  "radixDigit Sh Index = unat (drop_bit Sh Index AND (push_bit 11 1 - 1))"

fun countDigits :: "nat \<Rightarrow> u32 list \<Rightarrow> nat list \<Rightarrow> nat list" where
  "countDigits Sh [] Offsets = Offsets"
| "countDigits Sh (Index # Ord) Offsets =
     countDigits Sh Ord (Offsets[radixDigit Sh Index := Offsets ! radixDigit Sh Index + 1])"

fun startOffsets :: "nat \<Rightarrow> nat list \<Rightarrow> nat list" where
  "startOffsets Begin [] = []"
| "startOffsets Begin (Size # Counts) = Begin # startOffsets (Begin + Size) Counts"

fun placeDigits :: "nat \<Rightarrow> u32 list \<Rightarrow> nat list \<Rightarrow> u32 list \<Rightarrow> u32 list" where
  "placeDigits Sh [] Offsets Work = Work"
| "placeDigits Sh (Index # Ord) Offsets Work =
     (let D = radixDigit Sh Index in
      placeDigits Sh Ord (Offsets[D := Offsets ! D + 1]) (Work[Offsets ! D := Index]))"

definition radixPass :: "nat \<Rightarrow> u32 list \<Rightarrow> u32 list \<Rightarrow> u32 list" where
  "radixPass Sh Ord Work =
     placeDigits Sh Ord (startOffsets 0 (countDigits Sh Ord (replicate 2048 0))) Work"

function radixLoop :: "u32 \<Rightarrow> nat \<Rightarrow> u32 list \<Rightarrow> u32 list \<Rightarrow> u32 list" where
  "radixLoop Maximum Sh Ord Work =
     (if Sh < 32 \<and> drop_bit Sh Maximum \<noteq> 0
      then radixLoop Maximum (Sh + 11) (radixPass Sh Ord Work) Ord
      else Ord)"
  by pat_completeness auto

termination
  by (relation "measure (\<lambda>(_, Sh, _, _). 32 - Sh)") auto

declare radixLoop.simps [simp del]

text \<open>The scratch vector is resized to the length of the order; every place of it is written.\<close>

definition sortLargeNodeOrder :: "u32 list \<Rightarrow> u32 list" where
  "sortLargeNodeOrder Ord = radixLoop (Max (set Ord)) 0 Ord (replicate (length Ord) 0)"

definition kBitBlasterEncodeReachableOrderSizeLimit :: nat where
  "kBitBlasterEncodeReachableOrderSizeLimit = 1024"

lemma unseen_less: "x \<notin> S \<Longrightarrow> card (- insert x S) < card (- S)" for x :: SymRef
  by (rule psubset_card_mono) auto

function reachLoop :: "SymContext \<Rightarrow> BitBlaster \<Rightarrow> SymRef list \<Rightarrow> SymRef set \<Rightarrow> SymRef list \<Rightarrow> SymRef list" where
  "reachLoop c b Work Visited Ord =
     (if Work = [] then Ord
      else
        let Index = last Work; Work = butlast Work in
        if Index \<in> Visited then reachLoop c b Work Visited Ord
        else
          let Visited = insert Index Visited in
          if isEncoded b Index then reachLoop c b Work Visited Ord
          else reachLoop c b (Work @ operands c Index) Visited (Ord @ [Index]))"
  by pat_completeness auto

termination
  by (relation "measures [\<lambda>(_, _, _, Visited, _). card (- Visited), \<lambda>(_, _, Work, _, _). length Work]")
    (auto simp: unseen_less)

declare reachLoop.simps [simp del]

fun encodeAll :: "SymContext \<Rightarrow> SymRef list \<Rightarrow> BitBlaster \<Rightarrow> bool \<times> BitBlaster" where
  "encodeAll c [] b = (True, b)"
| "encodeAll c (Index # Ord) b =
     (case encodeNode c Index b of (Done, b) \<Rightarrow>
        if \<not> Done then (False, b)
        else if \<not> withinGateBudget b then blastFail TooManyGates b
        else encodeAll c Ord b)"

definition encodeReachable :: "SymContext \<Rightarrow> SymRef \<Rightarrow> BitBlaster \<Rightarrow> bool \<times> BitBlaster" where
  "encodeReachable c Root b =
     (if \<not> isValidRef Root \<or> unat Root \<ge> numNodes c then blastFail MalformedExpr b
      else
        let Ord = reachLoop c b [Root] {} [];
            Ord = (if length Ord < kBitBlasterEncodeReachableOrderSizeLimit then sort Ord
                     else sortLargeNodeOrder Ord)
        in encodeAll c Ord b)"

definition blast :: "SymContext \<Rightarrow> SymRef \<Rightarrow> BitBlaster \<Rightarrow> (bool \<times> LitVec) \<times> BitBlaster" where
  "blast c R b =
     (if \<not> blasterOk b then ((False, []), b)
      else
        case encodeReachable c R b of (Done, b) \<Rightarrow>
          if \<not> Done then ((False, []), b) else ((True, bitsOf b R), b))"

text \<open>The literal is an output of the call, so a call that fails leaves it as it was.\<close>

definition blastPredicate :: "SymContext \<Rightarrow> SymRef \<Rightarrow> SatLit \<Rightarrow> BitBlaster \<Rightarrow> (bool \<times> SatLit) \<times> BitBlaster" where
  "blastPredicate c R Out b =
     (if \<not> blasterOk b then ((False, Out), b)
      else if \<not> isValidRef R \<or> unat R \<ge> numNodes c \<or> symWidth c R \<noteq> 1
      then (case blastFail MalformedExpr b of (_, b) \<Rightarrow> ((False, Out), b))
      else
        case encodeReachable c R b of (Done, b) \<Rightarrow>
          if \<not> Done then ((False, Out), b) else ((True, bitsOf b R ! 0), b))"

end
