(* ===== verification/Blast_Order.thy ===== *)
theory Blast_Order
  imports Blast_Model "HOL-Library.Multiset"
begin

text \<open>
  The radix sort of the blaster sorts.  A pass is stable and keeps the numbers, so after the pass over a
  digit the numbers are in order of all digits up to it.
\<close>

section \<open>The radix sort\<close>

abbreviation bucket :: "nat \<Rightarrow> u32 list \<Rightarrow> nat \<Rightarrow> u32 list" where
  "bucket Sh xs d \<equiv> filter (\<lambda>x. radixDigit Sh x = d) xs"

definition bucketStart :: "nat \<Rightarrow> u32 list \<Rightarrow> nat \<Rightarrow> nat" where
  "bucketStart Sh xs d = (\<Sum>k<d. length (bucket Sh xs k))"

lemma radixDigit_eq: "radixDigit Sh x = unat x div 2 ^ Sh mod 2 ^ 11"
proof -
  have m: "(push_bit 11 1 - 1 :: u32) = mask 11" by (simp add: mask_eq_exp_minus_1)
  have "radixDigit Sh x = unat (take_bit 11 (drop_bit Sh x))"
    unfolding radixDigit_def m by (simp only: take_bit_eq_mask)
  also have "\<dots> = take_bit 11 (drop_bit Sh (unat x))"
    by (simp only: unsigned_take_bit_eq unat_drop_bit_eq)
  finally show ?thesis by (simp add: take_bit_eq_mod drop_bit_eq_div)
qed

lemma radixDigit_less: "radixDigit Sh x < 2048"
  using mod_less_divisor [of "2 ^ 11 :: nat" "unat x div 2 ^ Sh"] by (simp add: radixDigit_eq)

lemma countDigits_nth:
  assumes "length Offs = 2048" "d < 2048"
  shows "countDigits Sh xs Offs ! d = Offs ! d + length (bucket Sh xs d)" "length (countDigits Sh xs Offs) = 2048"
  using assms by (induction xs arbitrary: Offs) (auto simp: nth_list_update radixDigit_less)

lemma startOffsets_nth: "d < length cs \<Longrightarrow> startOffsets b cs ! d = b + (\<Sum>k<d. cs ! k)"
proof (induction cs arbitrary: b d)
  case (Cons c cs)
  then show ?case by (cases d) (simp_all add: sum.lessThan_Suc_shift del: sum.lessThan_Suc)
qed simp

lemma length_startOffsets [simp]: "length (startOffsets b cs) = length cs"
  by (induction cs arbitrary: b) auto

lemma starts:
  "length (startOffsets 0 (countDigits Sh xs (replicate 2048 0))) = 2048"
  "d < 2048 \<Longrightarrow> startOffsets 0 (countDigits Sh xs (replicate 2048 0)) ! d = bucketStart Sh xs d"
proof -
  have l: "length (countDigits Sh xs (replicate 2048 0)) = 2048" using countDigits_nth(2) [of "replicate 2048 0" 0 Sh xs] by simp
  then show "length (startOffsets 0 (countDigits Sh xs (replicate 2048 0))) = 2048" by simp
  assume d: "d < 2048"
  then show "startOffsets 0 (countDigits Sh xs (replicate 2048 0)) ! d = bucketStart Sh xs d"
    using l countDigits_nth(1) [of "replicate 2048 0" _ Sh xs]
    by (simp add: startOffsets_nth bucketStart_def)
qed

lemma bucketStart_Suc: "bucketStart Sh xs (Suc d) = bucketStart Sh xs d + length (bucket Sh xs d)"
  by (simp add: bucketStart_def)

lemma bucketStart_mono: "d \<le> d' \<Longrightarrow> bucketStart Sh xs d \<le> bucketStart Sh xs d'"
  unfolding bucketStart_def by (rule sum_mono2) auto

lemma bucketStart_total: "bucketStart Sh xs 2048 = length xs"
proof (induction xs)
  case (Cons x xs)
  have "(\<Sum>k<2048. length (bucket Sh (x # xs) k)) = (\<Sum>k<2048. (if k = radixDigit Sh x then 1 else 0) + length (bucket Sh xs k))"
    by (rule sum.cong) auto
  also have "\<dots> = 1 + length xs"
    using Cons radixDigit_less [of Sh x] by (simp add: sum.distrib bucketStart_def)
  finally show ?case by (simp add: bucketStart_def)
qed (simp add: bucketStart_def)

text \<open>Places of different buckets, or of one bucket at different positions, differ.\<close>

lemma bucket_places:
  assumes "j < length (bucket Sh xs d)" "j' < length (bucket Sh xs d')" "bucketStart Sh xs d + j = bucketStart Sh xs d' + j'"
  shows "d = d'"
proof (rule ccontr)
  assume "d \<noteq> d'"
  then consider "Suc d \<le> d'" | "Suc d' \<le> d" by linarith
  then show False
    using assms bucketStart_mono [of "Suc d" d' Sh xs] bucketStart_mono [of "Suc d'" d Sh xs] bucketStart_Suc [of Sh xs]
    by cases auto
qed

definition placed :: "nat \<Rightarrow> u32 list \<Rightarrow> u32 list \<Rightarrow> u32 list \<Rightarrow> bool" where
  "placed Sh xs ys W \<longleftrightarrow>
     (\<forall>d<2048. \<forall>j<length (bucket Sh ys d). W ! (bucketStart Sh xs d + j) = bucket Sh ys d ! j)"

lemma placeDigits_placed:
  assumes "xs = ys @ rest" "length W = length xs" "length Offs = 2048"
    "\<forall>d<2048. Offs ! d = bucketStart Sh xs d + length (bucket Sh ys d)" "placed Sh xs ys W"
  shows "placed Sh xs xs (placeDigits Sh rest Offs W) \<and> length (placeDigits Sh rest Offs W) = length xs"
  using assms
proof (induction rest arbitrary: ys Offs W)
  case (Cons x rest)
  let ?D = "radixDigit Sh x" and ?d = "ys @ [x]"
  let ?o = "Offs ! ?D"
  have D: "?D < 2048" by (rule radixDigit_less)
  have o: "?o = bucketStart Sh xs ?D + length (bucket Sh ys ?D)" using Cons.prems(4) D by simp
  have lt: "length (bucket Sh ys ?D) < length (bucket Sh xs ?D)" by (simp add: Cons.prems(1))
  have "bucketStart Sh xs (Suc ?D) \<le> length xs" using bucketStart_mono [of "Suc ?D" 2048 Sh xs] D bucketStart_total by simp
  then have ow: "?o < length W" using o lt Cons.prems(2) by (simp add: bucketStart_Suc)
  have new: "placed Sh xs ?d (W[?o := x])"
    unfolding placed_def
  proof (intro allI impI)
    fix d j assume d: "d < 2048" and j: "j < length (bucket Sh ?d d)"
    have le: "length (bucket Sh ys d) \<le> length (bucket Sh xs d)" by (simp add: Cons.prems(1))
    show "W[?o := x] ! (bucketStart Sh xs d + j) = bucket Sh ?d d ! j"
    proof (cases "d = ?D \<and> j = length (bucket Sh ys ?D)")
      case True
      then show ?thesis using ow o by simp
    next
      case False
      then have j': "j < length (bucket Sh ys d)" using j by (auto split: if_splits)
      have "bucketStart Sh xs d + j \<noteq> ?o" using bucket_places [where j = j and d = d and j' = "length (bucket Sh ys ?D)" and d' = ?D and Sh = Sh and xs = xs] j' le lt o False by fastforce
      with j' d Cons.prems(5) show ?thesis by (simp add: placed_def nth_append)
    qed
  qed
  have offs: "\<forall>d<2048. Offs[?D := ?o + 1] ! d = bucketStart Sh xs d + length (bucket Sh ?d d)"
    using Cons.prems(3,4) by (auto simp: nth_list_update)
  show ?case
    using Cons.IH [OF _ _ _ offs new] Cons.prems(1-3) by (simp add: Let_def)
qed simp

lemma placed_take:
  assumes "placed Sh xs xs W" "length W = length xs" "d \<le> 2048"
  shows "take (bucketStart Sh xs d) W = concat (map (bucket Sh xs) [0..<d])"
  using assms(3)
proof (induction d)
  case (Suc d)
  have le: "bucketStart Sh xs d + length (bucket Sh xs d) \<le> length W"
    using bucketStart_mono [OF Suc.prems] bucketStart_total assms(2) by (simp add: bucketStart_Suc)
  have "take (length (bucket Sh xs d)) (drop (bucketStart Sh xs d) W) = bucket Sh xs d"
    using assms(1) Suc.prems le by (intro nth_equalityI) (auto simp: placed_def)
  then show ?case using Suc by (simp add: bucketStart_Suc take_add)
qed (simp add: bucketStart_def)

lemma radixPass_buckets:
  assumes "length W = length xs"
  shows "radixPass Sh xs W = concat (map (bucket Sh xs) [0..<2048])" "length (radixPass Sh xs W) = length xs"
proof -
  have p: "placed Sh xs xs (radixPass Sh xs W) \<and> length (radixPass Sh xs W) = length xs"
    unfolding radixPass_def
    by (rule placeDigits_placed [where ys = "[]"]) (use starts assms in \<open>simp_all add: placed_def\<close>)
  then show "length (radixPass Sh xs W) = length xs" by simp
  show "radixPass Sh xs W = concat (map (bucket Sh xs) [0..<2048])"
    using placed_take [of Sh xs "radixPass Sh xs W" 2048] p bucketStart_total by simp
qed

lemma bucket_bucket: "bucket Sh (bucket Sh xs d) k = (if d = k then bucket Sh xs k else [])"
  by (auto simp: filter_empty_conv intro!: filter_cong)

lemma filter_buckets: "bucket Sh (concat (map (bucket Sh xs) [0..<n])) k = (if k < n then bucket Sh xs k else [])"
  by (induction n) (auto simp: bucket_bucket simp del: filter_filter)

lemma sorted_buckets: "sorted (map (radixDigit Sh) (concat (map (bucket Sh xs) [0..<n])))"
proof (induction n)
  case (Suc n)
  have "sorted (map (radixDigit Sh) (bucket Sh xs n))"
    by (induction xs) auto
  with Suc show ?case by (auto simp: sorted_append less_imp_le)
qed simp

lemma mset_eq_by_buckets:
  assumes "\<And>k. bucket Sh ys k = bucket Sh xs k"
  shows "mset ys = mset xs"
proof (rule multiset_eqI)
  fix x
  have c: "count (mset zs) x = count (mset (bucket Sh zs (radixDigit Sh x))) x" for zs by (simp add: mset_filter)
  show "count (mset ys) x = count (mset xs) x" unfolding c [of ys] c [of xs] assms ..
qed

lemma radixPass_sorts:
  assumes "length W = length xs"
  shows "radixPass Sh xs W = sort_key (radixDigit Sh) xs"
proof -
  let ?ys = "concat (map (bucket Sh xs) [0..<2048])"
  have b: "bucket Sh ?ys k = bucket Sh xs k" for k
  proof (cases "k < 2048")
    case False
    then have "bucket Sh xs k = []" using radixDigit_less [of Sh] by (auto simp: filter_empty_conv dest: sym)
    then show ?thesis using False by (simp add: filter_buckets)
  qed (simp add: filter_buckets)
  have "sort_key (radixDigit Sh) xs = ?ys"
  proof (rule properties_for_sort_key)
    show "mset ?ys = mset xs" by (rule mset_eq_by_buckets [OF b])
    fix k show "filter (\<lambda>x. radixDigit Sh k = radixDigit Sh x) ?ys = filter (\<lambda>x. radixDigit Sh k = radixDigit Sh x) xs"
      using b [of "radixDigit Sh k"] by (simp add: eq_commute [of "radixDigit Sh k"])
  qed (rule sorted_buckets)
  with radixPass_buckets [OF assms] show ?thesis by simp
qed

text \<open>A stable pass on a more significant digit keeps the order by the less significant ones.\<close>

lemma sorted_by_digits:
  fixes f g h :: "u32 \<Rightarrow> nat"
  assumes "sorted (map f ys)" "\<And>k. sorted (map g (filter (\<lambda>x. f x = k) ys))"
    "\<And>x y. f x < f y \<or> f x = f y \<and> g x \<le> g y \<Longrightarrow> h x \<le> h y"
  shows "sorted (map h ys)"
  using assms(1,2)
proof (induction ys)
  case (Cons y ys)
  have "sorted (map g (filter (\<lambda>x. f x = k) ys))" for k
    using Cons.prems(2) [of k] by (cases "f y = k") simp_all
  moreover have "h y \<le> h z" if "z \<in> set ys" for z
    using that Cons.prems(1) Cons.prems(2) [of "f y"] by (intro assms(3)) force
  ultimately show ?case using Cons by auto
qed simp

lemma sorted_digit_step:
  assumes "sorted (map (\<lambda>x. unat x mod 2 ^ Sh) xs)"
  shows "sorted (map (\<lambda>x. unat x mod 2 ^ (Sh + 11)) (sort_key (radixDigit Sh) xs))"
proof (rule sorted_by_digits [where f = "radixDigit Sh" and g = "\<lambda>x. unat x mod 2 ^ Sh"])
  fix k
  show "sorted (map (\<lambda>x. unat x mod 2 ^ Sh) (filter (\<lambda>x. radixDigit Sh x = k) (sort_key (radixDigit Sh) xs)))"
    using sorted_filter [OF assms] by (simp add: sort_key_stable)
next
  fix x y :: u32
  have split: "unat z mod 2 ^ (Sh + 11) = 2 ^ Sh * radixDigit Sh z + unat z mod 2 ^ Sh" for z :: u32
    using mod_mult2_eq [of "unat z" "2 ^ Sh" "2 ^ 11"] by (simp add: power_add radixDigit_eq)
  have "2 ^ Sh * radixDigit Sh x + 2 ^ Sh \<le> 2 ^ Sh * radixDigit Sh y" if "radixDigit Sh x < radixDigit Sh y"
    using mult_le_mono2 [of "Suc (radixDigit Sh x)" "radixDigit Sh y" "2 ^ Sh"] that by simp
  moreover have "unat x mod 2 ^ Sh < 2 ^ Sh" by simp
  ultimately show "radixDigit Sh x < radixDigit Sh y \<or> radixDigit Sh x = radixDigit Sh y \<and> unat x mod 2 ^ Sh \<le> unat y mod 2 ^ Sh
      \<Longrightarrow> unat x mod 2 ^ (Sh + 11) \<le> unat y mod 2 ^ (Sh + 11)"
    unfolding split by (elim disjE conjE) (linarith, simp)
qed simp

lemma radixLoop_sorts:
  assumes "\<forall>x \<in> set xs. x \<le> M" "length W = length xs" "sorted (map (\<lambda>x. unat x mod 2 ^ Sh) xs)"
  shows "sorted (radixLoop M Sh xs W) \<and> mset (radixLoop M Sh xs W) = mset xs"
  using assms
proof (induction M Sh xs W rule: radixLoop.induct)
  case (1 M Sh xs W)
  show ?case
  proof (cases "Sh < 32 \<and> drop_bit Sh M \<noteq> 0")
    case True
    let ?ys = "radixPass Sh xs W"
    have ys: "?ys = sort_key (radixDigit Sh) xs" by (rule radixPass_sorts [OF 1(3)])
    have "sorted (radixLoop M (Sh + 11) ?ys xs) \<and> mset (radixLoop M (Sh + 11) ?ys xs) = mset ?ys"
      by (rule 1(1) [OF True]) (use 1 sorted_digit_step in \<open>simp_all add: ys\<close>)
    then show ?thesis using True by (simp add: radixLoop.simps [of M Sh xs W] ys)
  next
    case False
    have "unat x < 2 ^ Sh" if "x \<in> set xs" for x
    proof -
      have "unat M < 2 ^ Sh"
      proof (cases "Sh < 32")
        case True
        with False have "drop_bit Sh (unat M) = 0" by (simp only: unat_drop_bit_eq [symmetric]) simp
        then show ?thesis by (simp add: drop_bit_eq_div div_eq_0_iff)
      next
        case False
        then have "(2 :: nat) ^ 32 \<le> 2 ^ Sh" by (intro power_increasing) simp_all
        moreover have "unat M < 2 ^ LENGTH(32)" by (rule unsigned_less)
        ultimately show ?thesis by simp
      qed
      then show ?thesis using 1(2) that by (meson le_less_trans word_le_nat_alt)
    qed
    then have "map (\<lambda>x. unat x mod 2 ^ Sh) xs = map unat xs" by simp
    with 1(4) have "sorted_wrt (\<lambda>x y. unat x \<le> unat y) xs" by (simp only: sorted_map)
    then have "sorted xs" by (rule sorted_wrt_mono_rel [rotated]) (simp add: word_le_nat_alt)
    with False show ?thesis by (auto simp: radixLoop.simps [of M Sh xs W])
  qed
qed

text \<open>The radix passes give the ascending order the comparison sort gives.\<close>

lemma sortLargeNodeOrder_sorts: "sortLargeNodeOrder xs = sort xs"
proof -
  have "sorted (sortLargeNodeOrder xs) \<and> mset (sortLargeNodeOrder xs) = mset xs"
    unfolding sortLargeNodeOrder_def by (rule radixLoop_sorts) (simp_all add: sorted_iff_nth_mono)
  then show ?thesis by (metis properties_for_sort)
qed

text \<open>
  The radix sort of large graphs, which moves node numbers eleven bits at a time between two
  vectors and stops at the highest digit in use, gives the ascending order the comparison sort of small
  graphs gives: every number is kept as often as it occurred.\<close>

lemma large_order_ascending: "sorted (sortLargeNodeOrder Ord) \<and> mset (sortLargeNodeOrder Ord) = mset Ord"
  by (simp add: sortLargeNodeOrder_sorts)

end
