(* ===== verification/Blast_Circuits.thy ===== *)
theory Blast_Circuits
  imports Blast_Order
begin

text \<open>
  The circuit of every operator has the width of its node and is worth what the operator is.
\<close>

section \<open>Values of vectors\<close>

lemma bit_op_step:
  fixes x y :: nat
  shows "(of_bool a + 2 * x) AND (of_bool b + 2 * y) = of_bool (a \<and> b) + 2 * (x AND y)"
    "(of_bool a + 2 * x) OR (of_bool b + 2 * y) = of_bool (a \<or> b) + 2 * (x OR y)"
    "(of_bool a + 2 * x) XOR (of_bool b + 2 * y) = of_bool (a \<noteq> b) + 2 * (x XOR y)"
proof -
  have bit: "bit (of_bool a + 2 * x) n = (if n = 0 then a else bit x (n - 1))" for a and x n :: nat
    by (cases n) (simp_all add: bit_0 bit_Suc)
  show "(of_bool a + 2 * x) AND (of_bool b + 2 * y) = of_bool (a \<and> b) + 2 * (x AND y)"
    by (rule bit_eqI, simp only: bit bit_and_iff) auto
  show "(of_bool a + 2 * x) OR (of_bool b + 2 * y) = of_bool (a \<or> b) + 2 * (x OR y)"
    by (rule bit_eqI, simp only: bit bit_or_iff) auto
  show "(of_bool a + 2 * x) XOR (of_bool b + 2 * y) = of_bool (a \<noteq> b) + 2 * (x XOR y)"
    by (rule bit_eqI, simp only: bit bit_xor_iff) auto
qed

fun bitOp :: "SymOp \<Rightarrow> nat \<Rightarrow> nat \<Rightarrow> nat" where
  "bitOp SAnd a b = a AND b"
| "bitOp SOr a b = a OR b"
| "bitOp Op a b = a XOR b"

lemma signed_of_bits: "A \<noteq> [] \<Longrightarrow> asSigned (length A) (bitsVal m A) = signedVal m A"
proof -
  assume "A \<noteq> []"
  then obtain As L where A: "A = As @ [L]" by (meson rev_exhaust)
  show ?thesis using bitsVal_less [of m As] by (simp add: A asSigned_def signedVal_def bitsVal_append)
qed

lemma bits_of_signed: "A \<noteq> [] \<Longrightarrow> bitsVal m A = nat (signedVal m A mod 2 ^ length A)"
proof -
  assume "A \<noteq> []"
  have "int (bitsVal m A) < 2 ^ length A" using bitsVal_less [of m A] by (metis of_nat_less_iff of_nat_numeral of_nat_power)
  moreover have "signedVal m A mod 2 ^ length A = int (bitsVal m A) mod 2 ^ length A"
    by (simp add: signedVal_def)
  ultimately show ?thesis by simp
qed

lemma signed_extend_one: "A \<noteq> [] \<Longrightarrow> signedVal m (A @ [last A]) = signedVal m A"
  by (simp add: signedVal_def bitsVal_append)

lemma signed_extend: "A \<noteq> [] \<Longrightarrow> signedVal m (A @ replicate k (last A)) = signedVal m A"
proof (induction k)
  case (Suc k)
  have "A @ replicate (Suc k) (last A) = (A @ replicate k (last A)) @ [last A]" by (simp add: replicate_append_same)
  moreover have "last (A @ replicate k (last A)) = last A" using Suc.prems by (cases k) (simp_all add: last_append)
  ultimately show ?case
    using Suc signed_extend_one [of "A @ replicate k (last A)" m] by (simp del: append_assoc replicate.simps)
qed simp

lemma concat_value: "bitsVal m (concat (rev As)) = foldl (\<lambda>acc (w, v). acc * 2 ^ w + v) 0 (map (\<lambda>A. (length A, bitsVal m A)) As)"
  by (induction As rule: rev_induct) (simp_all add: bitsVal_append)

lemma listVal_less: "listVal bs < 2 ^ length bs"
  using horner_sum_of_bool_2_less [of bs] by (simp add: listVal_def)

lemma rotate_value: "listVal (rotate k bs) = rotatedRight (length bs) (listVal bs) (k mod length bs)"
  by (simp add: rotate_drop_take listVal_append listVal_drop listVal_take rotatedRight_def)

lemma rotate_left_value:
  assumes "bs \<noteq> []"
  shows "listVal (shifted RotateLeft z d bs) = rotatedRight (length bs) (listVal bs) (length bs - d mod length bs)"
proof (cases "d mod length bs = 0")
  case True
  then show ?thesis using listVal_less [of bs] by (simp add: rotatedRight_def)
next
  case False
  then have "(length bs - d mod length bs) mod length bs = length bs - d mod length bs" using assms by simp
  then show ?thesis using rotate_value [of "length bs - d mod length bs" bs] by simp
qed

lemma foldl_add_mod: "a < M \<Longrightarrow> foldl (\<lambda>a b. (a + b) mod M) a bs = (a + sum_list bs) mod M" for M :: nat
proof (induction bs arbitrary: a)
  case (Cons b bs)
  then have "0 < M" by simp
  with Cons.IH [of "(a + b) mod M"] show ?case by (simp add: mod_add_left_eq add.assoc)
qed simp

lemma foldl_mul_mod: "a < M \<Longrightarrow> foldl (\<lambda>a b. (a * b) mod M) a bs = (a * prod_list bs) mod M" for M :: nat
proof (induction bs arbitrary: a)
  case (Cons b bs)
  then have "0 < M" by simp
  with Cons.IH [of "(a * b) mod M"] show ?case by (simp add: mod_mult_left_eq mult.assoc)
qed simp

section \<open>Circuits of operators\<close>

lemma length_bitwiseRow [simp]: "length (fst (bitwiseRow Op A B e)) = min (length A) (length B)"
proof (induction A arbitrary: B e)
  case (Cons X A)
  then show ?case by (cases B) (simp_all add: case_prod_beta)
qed simp

lemma enc_mono_bitwiseGate: "enc_mono e (snd (bitwiseGate Op A B e))"
  by (simp add: bitwiseGate_def gate_monos)

lemma enc_mono_bitwiseRow: "enc_mono e (snd (bitwiseRow Op A B e))"
proof (induction A arbitrary: B e)
  case (Cons X A)
  then show ?case by (cases B) (auto intro!: enc_mono_bind enc_mono_bitwiseGate)
qed simp

lemma bitOp_bool:
  "bitOp SAnd (of_bool a) (of_bool b) = of_bool (a \<and> b)" "bitOp SOr (of_bool a) (of_bool b) = of_bool (a \<or> b)"
  "bitOp SXor (of_bool a) (of_bool b) = of_bool (a \<noteq> b)"
  by (cases a; cases b; simp)+

lemma yields_bitwiseGate:
  assumes r: "inr e {A, B}" and Op: "Op \<in> {SAnd, SOr, SXor}"
  shows "yields e (bitwiseGate Op A B e) one
     (\<lambda>m L. (of_bool (lit_true m L) :: nat) = bitOp Op (of_bool (lit_true m A)) (of_bool (lit_true m B)))"
proof -
  note weaken = yields_weaken [OF yields_mkAnd2 [OF r]] yields_weaken [OF yields_mkOr2 [OF r]] yields_weaken [OF yields_mkXor2 [OF r]]
  have "yields e (mkAnd2 A B e) one (\<lambda>m L. (of_bool (lit_true m L) :: nat) = bitOp SAnd (of_bool (lit_true m A)) (of_bool (lit_true m B)))"
    by (rule weaken(1)) (simp_all only: bitOp_bool order_refl)
  moreover have "yields e (mkOr2 A B e) one (\<lambda>m L. (of_bool (lit_true m L) :: nat) = bitOp SOr (of_bool (lit_true m A)) (of_bool (lit_true m B)))"
    by (rule weaken(2)) (simp_all only: bitOp_bool order_refl)
  moreover have "yields e (mkXor2 A B e) one (\<lambda>m L. (of_bool (lit_true m L) :: nat) = bitOp SXor (of_bool (lit_true m A)) (of_bool (lit_true m B)))"
    by (rule weaken(3)) (simp_all only: bitOp_bool order_refl)
  ultimately show ?thesis using Op
    by (elim insertE emptyE) (simp_all only: bitwiseGate_def SymOp.distinct if_True if_False simp_thms)
qed

lemma bitOp_step:
  assumes "Op \<in> {SAnd, SOr, SXor}"
  shows "bitOp Op (of_bool a + 2 * x) (of_bool b + 2 * y) = bitOp Op (of_bool a) (of_bool b) + 2 * bitOp Op x y"
  using assms bit_op_step [of a x b y] bit_op_step [of a 0 b 0] by auto

lemma yields_bitwiseRow:
  assumes "length A = length B" "inr e (set A \<union> set B)" "Op \<in> {SAnd, SOr, SXor}"
  shows "yields e (bitwiseRow Op A B e) set (\<lambda>m Out. bitsVal m Out = bitOp Op (bitsVal m A) (bitsVal m B))"
  using assms
proof (induction A arbitrary: B e)
  case Nil
  then show ?case by (auto intro!: yields_return)
next
  case (Cons X A)
  then obtain Y F where B: "B = Y # F" by (cases B) auto
  show ?case unfolding B bitwiseRow.simps
  proof (rule yields_bind [OF yields_bitwiseGate], goal_cases)
    case (4 L u)
    have "inr u (set A \<union> set F)" by (rule inr_mono [OF _ 4(3)]) (use Cons.prems B in simp)
    then have "yields u (bitwiseRow Op A F u) set (\<lambda>m Out. bitsVal m Out = bitOp Op (bitsVal m A) (bitsVal m F))"
      using Cons.IH Cons.prems B by simp
    then show ?case
      by (rule yields_map [OF _ 4(4)]) (use Cons.prems(3) in \<open>auto simp: bitOp_step\<close>)
  qed (use Cons.prems B in \<open>simp_all add: enc_mono_bitwiseRow\<close>)
qed

lemma length_foldBits:
  assumes "\<And>A B e. length A = n \<Longrightarrow> length B = n \<Longrightarrow> length (fst (f A B e)) = n" "length A = n" "\<forall>B \<in> set Bs. length B = n"
  shows "length (fst (foldBits f A Bs e)) = n"
  using assms(2,3)
proof (induction Bs arbitrary: A e)
  case (Cons B Bs)
  then show ?case using assms(1) [of A B e] by (simp add: case_prod_beta)
qed simp

lemma enc_mono_foldBits:
  "(\<And>A B e. enc_mono e (snd (f A B e))) \<Longrightarrow> enc_mono e (snd (foldBits f A Bs e))"
  by (induction Bs arbitrary: A e) (auto intro!: enc_mono_bind)

lemma yields_foldBits:
  assumes len: "\<And>A B e. length A = n \<Longrightarrow> length B = n \<Longrightarrow> length (fst (f A B e)) = n"
    and mono: "\<And>A B e. enc_mono e (snd (f A B e))"
    and step: "\<And>A B e. enc_ok e \<Longrightarrow> length A = n \<Longrightarrow> length B = n \<Longrightarrow> inr e (set A \<union> set B) \<Longrightarrow>
      yields e (f A B e) set (\<lambda>m Out. bitsVal m Out = g (bitsVal m A) (bitsVal m B))"
    and "enc_ok e" "length A = n" "\<forall>B \<in> set Bs. length B = n" "inr e (set A \<union> \<Union> (set ` set Bs))"
  shows "yields e (foldBits f A Bs e) set (\<lambda>m Out. bitsVal m Out = foldl g (bitsVal m A) (map (bitsVal m) Bs))"
  using assms(4-)
proof (induction Bs arbitrary: A e)
  case Nil
  then show ?case by (auto intro!: yields_return)
next
  case (Cons B Bs)
  show ?case unfolding foldBits.simps
  proof (rule yields_bind [OF step], goal_cases)
    case (6 X u)
    have "length X = n" using len [of A B e] 6(1) Cons.prems by simp
    moreover have "inr u (\<Union> (set ` set Bs))" by (rule inr_mono [OF _ 6(3)]) (use Cons.prems in simp)
    ultimately have "yields u (foldBits f X Bs u) set (\<lambda>m Out. bitsVal m Out = foldl g (bitsVal m X) (map (bitsVal m) Bs))"
      using Cons.IH [OF 6(2)] Cons.prems 6(4) by simp
    then show ?case by (rule yields_weaken) simp_all
  qed (use Cons.prems in \<open>auto intro: enc_mono_foldBits mono\<close>)
qed

definition circuit_ok :: "CnfEncoder \<Rightarrow> LitVec \<times> CnfEncoder \<Rightarrow> nat \<Rightarrow> (assignment \<Rightarrow> nat) \<Rightarrow> bool" where
  "circuit_ok e r W F \<longleftrightarrow> yields e r set (\<lambda>m Out. bitsVal m Out = F m) \<and> length (fst r) = W"

lemma circuit_okI:
  "yields e r set (\<lambda>m Out. bitsVal m Out = F m) \<Longrightarrow> length (fst r) = W \<Longrightarrow> circuit_ok e r W F"
  by (simp add: circuit_ok_def)

lemma circuit_renaming:
  assumes "enc_ok e \<Longrightarrow> inr e (set Out)" "\<And>m. enc_ok e \<Longrightarrow> m \<in> mods e \<Longrightarrow> bitsVal m Out = F m" "length Out = W"
  shows "circuit_ok e (Out, e) W F"
  using assms by (auto intro!: circuit_okI yields_return)

lemma circuit_constant:
  assumes "v < 2 ^ W"
  shows "circuit_ok e (map (\<lambda>I. constantLit e (bit v I)) [0..<W], e) W (\<lambda>_. v)"
proof (rule circuit_renaming)
  assume "enc_ok e"
  note k = constants_inr [OF this]
  then show "inr e (set (map (\<lambda>I. constantLit e (bit v I)) [0..<W]))"
    by (auto simp: inr_def constantLit_def withPolarity_eq trueLit_def falseLit_def)
  fix m assume m: "m \<in> mods e"
  have l: "lit_true m (constantLit e b) = b" for b
    using constants_true [OF \<open>enc_ok e\<close> m] by (simp add: constantLit_def withPolarity_eq trueLit_def)
  show "bitsVal m (map (\<lambda>I. constantLit e (bit v I)) [0..<W]) = v"
  proof (rule bit_eqI)
    fix n
    have "bit v n \<Longrightarrow> n < W" using assms by (metis bit_take_bit_iff take_bit_nat_eq_self)
    then show "bit (bitsVal m (map (\<lambda>I. constantLit e (bit v I)) [0..<W])) n = bit v n" using l [of True] by (auto simp: bit_bitsVal l)
  qed
qed simp

lemma circuit_bitwise:
  assumes "enc_ok e" "Op \<in> {SAnd, SOr, SXor}" "Args \<noteq> []" "\<forall>A \<in> set Args. length A = W" "inr e (\<Union> (set ` set Args))"
  shows "circuit_ok e (foldBits (bitwiseRow Op) (Args ! 0) (tl Args) e) W
    (\<lambda>m. foldl (bitOp Op) (bitsVal m (hd Args)) (map (bitsVal m) (tl Args)))"
proof -
  obtain A As where Args: "Args = A # As" using assms(3) by (cases Args) auto
  show ?thesis
  proof (rule circuit_okI)
    show "yields e (foldBits (bitwiseRow Op) (Args ! 0) (tl Args) e) set
        (\<lambda>m Out. bitsVal m Out = foldl (bitOp Op) (bitsVal m (hd Args)) (map (bitsVal m) (tl Args)))"
      unfolding Args by (simp, rule yields_foldBits [where n = W])
        (use assms Args in \<open>auto intro: enc_mono_bitwiseRow yields_bitwiseRow\<close>)
    show "length (fst (foldBits (bitwiseRow Op) (Args ! 0) (tl Args) e)) = W"
      using assms(4) by (intro length_foldBits) (simp_all add: Args)
  qed
qed

lemma circuit_sum:
  assumes "enc_ok e" "Args \<noteq> []" "\<forall>A \<in> set Args. length A = W" "inr e (\<Union> (set ` set Args))"
  shows "circuit_ok e (foldBits addOperand (Args ! 0) (tl Args) e) W (\<lambda>m. sum_list (map (bitsVal m) Args) mod 2 ^ W)"
    "circuit_ok e (foldBits multiplyBits (Args ! 0) (tl Args) e) W (\<lambda>m. prod_list (map (bitsVal m) Args) mod 2 ^ W)"
proof -
  obtain A As where Args: "Args = A # As" using assms(2) by (cases Args) auto
  have a: "bitsVal m A < 2 ^ W" for m using bitsVal_less [of m A] assms(3) Args by simp
  have "yields e (foldBits addOperand A As e) set (\<lambda>m Out. bitsVal m Out = foldl (\<lambda>a b. (a + b) mod 2 ^ W) (bitsVal m A) (map (bitsVal m) As))"
  proof (rule yields_foldBits [where n = W])
    fix X Y :: LitVec and u
    show "enc_mono u (snd (addOperand X Y u))" by (simp add: addOperand_def enc_mono_addBits)
    assume "length X = W" "length Y = W"
    then show "length (fst (addOperand X Y u)) = W" by (simp add: addOperand_def)
    assume "enc_ok u" "inr u (set X \<union> set Y)"
    then show "yields u (addOperand X Y u) set (\<lambda>m Out. bitsVal m Out = (bitsVal m X + bitsVal m Y) mod 2 ^ W)"
      unfolding addOperand_def using \<open>length X = W\<close> \<open>length Y = W\<close> constants_inr [OF \<open>enc_ok u\<close>] constants_true(2) [OF \<open>enc_ok u\<close>]
      by (intro yields_weaken [OF yields_addBits]) auto
  qed (use assms Args in auto)
  moreover have "length (fst (foldBits addOperand A As e)) = W"
    using assms(3) by (intro length_foldBits) (simp_all add: Args addOperand_def)
  ultimately show "circuit_ok e (foldBits addOperand (Args ! 0) (tl Args) e) W (\<lambda>m. sum_list (map (bitsVal m) Args) mod 2 ^ W)"
    by (simp add: Args circuit_ok_def foldl_add_mod [OF a])
  have "yields e (foldBits multiplyBits A As e) set (\<lambda>m Out. bitsVal m Out = foldl (\<lambda>a b. (a * b) mod 2 ^ W) (bitsVal m A) (map (bitsVal m) As))"
  proof (rule yields_foldBits [where n = W])
    fix X Y :: LitVec and u
    show "enc_mono u (snd (multiplyBits X Y u))" by (rule enc_mono_multiplyBits)
    assume "length X = W" "length Y = W"
    then show "length (fst (multiplyBits X Y u)) = W" by simp
    assume "enc_ok u" "inr u (set X \<union> set Y)"
    then show "yields u (multiplyBits X Y u) set (\<lambda>m Out. bitsVal m Out = (bitsVal m X * bitsVal m Y) mod 2 ^ W)"
      using yields_multiplyBits [of u X Y] \<open>length X = W\<close> \<open>length Y = W\<close> by simp
  qed (use assms Args in auto)
  moreover have "length (fst (foldBits multiplyBits A As e)) = W"
    using assms(3) by (intro length_foldBits) (simp_all add: Args)
  ultimately show "circuit_ok e (foldBits multiplyBits (Args ! 0) (tl Args) e) W (\<lambda>m. prod_list (map (bitsVal m) Args) mod 2 ^ W)"
    by (simp add: Args circuit_ok_def foldl_mul_mod [OF a])
qed

lemma circuit_shift:
  assumes "enc_ok e" "A \<noteq> []" "length A \<le> 2 ^ 64" "inr e (set A \<union> set B)"
  shows "circuit_ok e (shiftBits A B Left e) (length A) (\<lambda>m. opValue SShl (length A) Low [(length A, bitsVal m A), (length B, bitsVal m B)])"
    "circuit_ok e (shiftBits A B LogicalRight e) (length A) (\<lambda>m. opValue SLShr (length A) Low [(length A, bitsVal m A), (length B, bitsVal m B)])"
    "circuit_ok e (shiftBits A B ArithmeticRight e) (length A) (\<lambda>m. opValue SAShr (length A) Low [(length A, bitsVal m A), (length B, bitsVal m B)])"
    "circuit_ok e (shiftBits A B RotateLeft e) (length A) (\<lambda>m. opValue SRol (length A) Low [(length A, bitsVal m A), (length B, bitsVal m B)])"
    "circuit_ok e (shiftBits A B RotateRight e) (length A) (\<lambda>m. opValue SRor (length A) Low [(length A, bitsVal m A), (length B, bitsVal m B)])"
proof -
  have len: "length (fst (shiftBits A B Kind e)) = length A" for Kind by (rule length_shiftBits [OF assms(2)])
  have ne: "bits m A \<noteq> []" for m using assms(2) by simp
  have val: "bitsVal m X = listVal (bits m X)" for m X by (simp add: listVal_bits)
  have shift: "circuit_ok e (shiftBits A B Kind e) (length A) F"
    if "\<And>m. listVal (shifted Kind False (bitsVal m B) (bits m A)) = F m" for Kind F
    by (rule circuit_okI [OF yields_weaken [OF yields_shiftBits [OF assms]] len]) (simp_all add: val that [unfolded val])
  show "circuit_ok e (shiftBits A B Left e) (length A) (\<lambda>m. opValue SShl (length A) Low [(length A, bitsVal m A), (length B, bitsVal m B)])"
    by (rule shift) (simp add: shift_left_value listVal_bits del: shifted.simps)
  show "circuit_ok e (shiftBits A B LogicalRight e) (length A) (\<lambda>m. opValue SLShr (length A) Low [(length A, bitsVal m A), (length B, bitsVal m B)])"
    by (rule shift) (simp add: shift_right_value listVal_bits del: shifted.simps)
  show "circuit_ok e (shiftBits A B RotateRight e) (length A) (\<lambda>m. opValue SRor (length A) Low [(length A, bitsVal m A), (length B, bitsVal m B)])"
    by (rule shift) (simp add: rotate_value listVal_bits)
  show "circuit_ok e (shiftBits A B RotateLeft e) (length A) (\<lambda>m. opValue SRol (length A) Low [(length A, bitsVal m A), (length B, bitsVal m B)])"
    by (rule shift) (simp add: rotate_left_value [OF ne] listVal_bits del: shifted.simps)
  have "listVal bs = nat (listSigned bs mod 2 ^ length bs)" if "bs \<noteq> []" for bs
    using listVal_less [of bs] by (simp add: listSigned_def nat_mod_distrib)
  then have "listVal (shifted ArithmeticRight False d (bits m A)) = nat (listSigned (bits m A) div 2 ^ d mod 2 ^ length A)" for d m
    using ne shift_arithmetic_value [OF ne, of False d m] by (metis length_map length_shifted length_0_conv)
  then show "circuit_ok e (shiftBits A B ArithmeticRight e) (length A) (\<lambda>m. opValue SAShr (length A) Low [(length A, bitsVal m A), (length B, bitsVal m B)])"
    by (intro shift) (simp add: listVal_bits assms(2) signed_of_bits del: shifted.simps)
qed

lemma circuit_divide:
  assumes "enc_ok e" "length A = length B" "A \<noteq> []" "inr e (set A \<union> set B)"
  shows "circuit_ok e (case divideBits A B e of ((Q, _), e) \<Rightarrow> (Q, e)) (length A)
      (\<lambda>m. opValue SUDiv (length A) Low [(length A, bitsVal m A), (length B, bitsVal m B)])"
    "circuit_ok e (case divideBits A B e of ((_, R), e) \<Rightarrow> (R, e)) (length A)
      (\<lambda>m. opValue SURem (length A) Low [(length A, bitsVal m A), (length B, bitsVal m B)])"
    "circuit_ok e (case divideSignedBits True False A B e of ((Q, _), e) \<Rightarrow> (the Q, e)) (length A)
      (\<lambda>m. opValue SSDiv (length A) Low [(length A, bitsVal m A), (length B, bitsVal m B)])"
    "circuit_ok e (case divideSignedBits False True A B e of ((_, R), e) \<Rightarrow> (the R, e)) (length A)
      (\<lambda>m. opValue SSRem (length A) Low [(length A, bitsVal m A), (length B, bitsVal m B)])"
proof -
  have Bn: "B \<noteq> []" using assms(2,3) by auto
  note len = length_divideBits [OF assms(2), of e]
  note y = yields_divideBits [OF assms(1,2,4)]
  show "circuit_ok e (case divideBits A B e of ((Q, _), e) \<Rightarrow> (Q, e)) (length A)
      (\<lambda>m. opValue SUDiv (length A) Low [(length A, bitsVal m A), (length B, bitsVal m B)])"
    by (rule circuit_okI [OF yields_map2 [OF y, where T = "{}"]]) (use len in \<open>auto simp: case_prod_beta\<close>)
  show "circuit_ok e (case divideBits A B e of ((_, R), e) \<Rightarrow> (R, e)) (length A)
      (\<lambda>m. opValue SURem (length A) Low [(length A, bitsVal m A), (length B, bitsVal m B)])"
    by (rule circuit_okI [OF yields_map2 [OF y, where T = "{}"]]) (use len in \<open>auto simp: case_prod_beta\<close>)
  have some: "fst (fst (divideSignedBits True False A B e)) \<noteq> None" "snd (fst (divideSignedBits False True A B e)) \<noteq> None"
    by (simp_all add: divideSignedBits_eq case_prod_beta)
  then have ls: "length (the (fst (fst (divideSignedBits True False A B e)))) = length A"
    "length (the (snd (fst (divideSignedBits False True A B e)))) = length A"
    using length_divideSignedBits [OF assms(2)] by auto
  have less: "int (bitsVal m X) = n \<Longrightarrow> bitsVal m X = nat n" for m X n by simp
  note s = signed_of_bits [OF assms(3)] signed_of_bits [OF Bn, folded assms(2)]
  have sd: "yields e (divideSignedBits WQ WR A B e) (\<lambda>(Q, R). option_lits Q \<union> option_lits R)
      (\<lambda>m r. signedDivision WQ WR A B m r)" for WQ WR by (rule yields_divideSignedBits [OF assms(1-4)])
  obtain Q u where q: "divideSignedBits True False A B e = ((Some Q, None), u)"
    using some(1) by (cases "divideSignedBits True False A B e") (auto simp: divideSignedBits_eq case_prod_beta)
  obtain R w where r: "divideSignedBits False True A B e = ((None, Some R), w)"
    using some(2) by (cases "divideSignedBits False True A B e") (auto simp: divideSignedBits_eq case_prod_beta)
  have lq: "length Q = length A" "length R = length A" using ls q r by simp_all
  have bq: "bitsVal m Q < 2 ^ length A" "bitsVal m R < 2 ^ length A" for m
    using bitsVal_less [of m Q] bitsVal_less [of m R] lq by simp_all
  show "circuit_ok e (case divideSignedBits True False A B e of ((Q, _), e) \<Rightarrow> (the Q, e)) (length A)
      (\<lambda>m. opValue SSDiv (length A) Low [(length A, bitsVal m A), (length B, bitsVal m B)])"
    using sd [of True False] bq(1) lq(1) unfolding q
    by (simp add: circuit_ok_def yields_def signedDivision_def option_lits_def s) (metis nat_int)
  show "circuit_ok e (case divideSignedBits False True A B e of ((_, R), e) \<Rightarrow> (the R, e)) (length A)
      (\<lambda>m. opValue SSRem (length A) Low [(length A, bitsVal m A), (length B, bitsVal m B)])"
    using sd [of False True] bq(2) lq(2) unfolding r
    by (simp add: circuit_ok_def yields_def signedDivision_def option_lits_def s) (metis nat_int)
qed

lemma circuit_predicate:
  assumes "yields e r one (\<lambda>m L. lit_true m L = P m)"
  shows "circuit_ok e (case r of (L, e) \<Rightarrow> ([L], e)) 1 (\<lambda>m. of_bool (P m))"
  by (rule circuit_okI [OF yields_map [OF assms, where T = "{}"]]) (auto simp: case_prod_beta)

lemma circuit_select:
  assumes "length A = 1" "length B = length C" "inr e (set A \<union> set B \<union> set C)"
  shows "circuit_ok e (selectBits (A ! 0) B C e) (length B)
    (\<lambda>m. opValue SIte W Low [(length A, bitsVal m A), (length B, bitsVal m B), (length C, bitsVal m C)])"
proof -
  obtain L where A: "A = [L]" using assms(1) by (cases A) auto
  show ?thesis
    by (rule circuit_okI [OF yields_weaken [OF yields_selectBits]])
      (use assms in \<open>auto simp: A dest!: bitsVal_map_eq split: if_splits\<close>)
qed

lemma circuit_extend:
  assumes "inr e (set A)" "length A \<le> W"
  shows "circuit_ok e (resizeBits A W (falseLit e), e) W (\<lambda>m. bitsVal m A)"
    "A \<noteq> [] \<Longrightarrow> circuit_ok e (resizeBits A W (last A), e) W (\<lambda>m. nat (asSigned (length A) (bitsVal m A) mod 2 ^ W))"
proof -
  show "circuit_ok e (resizeBits A W (falseLit e), e) W (\<lambda>m. bitsVal m A)"
    using assms constants_inr constants_true
    by (intro circuit_renaming) (auto simp: resizeBits_def bitsVal_append inr_def)
  assume A: "A \<noteq> []"
  have "bitsVal m (resizeBits A W (last A)) = nat (asSigned (length A) (bitsVal m A) mod 2 ^ W)" for m
    using bits_of_signed [of "resizeBits A W (last A)" m] signed_extend [OF A] assms(2) A
    by (simp add: resizeBits_def signed_of_bits)
  then show "circuit_ok e (resizeBits A W (last A), e) W (\<lambda>m. nat (asSigned (length A) (bitsVal m A) mod 2 ^ W))"
    using assms A by (intro circuit_renaming) (auto simp: resizeBits_def inr_def)
qed

lemma circuit_complement:
  assumes "inr e (set A)"
  shows "circuit_ok e (map negl A, e) (length A) (\<lambda>m. 2 ^ length A - 1 - bitsVal m A)"
proof (rule circuit_renaming)
  fix m show "bitsVal m (map negl A) = 2 ^ length A - 1 - bitsVal m A" using bitsVal_negl [of m A] by linarith
qed (use assms in \<open>simp_all add: image_image\<close>)

text \<open>Every operator's circuit has the node's width and is worth what the operator is.\<close>

lemma foldl_bitOp: "foldl (bitOp SAnd) = foldl (AND)" "foldl (bitOp SOr) = foldl (OR)" "foldl (bitOp SXor) = foldl (XOR)"
proof -
  have "bitOp SAnd = (AND)" "bitOp SOr = (OR)" "bitOp SXor = (XOR)" by (intro ext; simp)+
  then show "foldl (bitOp SAnd) = foldl (AND)" "foldl (bitOp SOr) = foldl (OR)" "foldl (bitOp SXor) = foldl (XOR)" by simp_all
qed

abbreviation sized :: "assignment \<Rightarrow> LitVec \<Rightarrow> nat \<times> nat" where
  "sized m A \<equiv> (length A, bitsVal m A)"

lemma hd_sized: "Args \<noteq> [] \<Longrightarrow> snd (hd (map (sized m) Args)) = bitsVal m (hd Args)"
  by (cases Args) simp_all

definition opCircuit :: "CnfEncoder \<Rightarrow> SymNode \<Rightarrow> LitVec list \<Rightarrow> (LitVec \<times> CnfEncoder) option \<Rightarrow> bool" where
  "opCircuit e N Args r \<longleftrightarrow>
     (case r of None \<Rightarrow> False | Some x \<Rightarrow> circuit_ok e x (unat (NWidth N))
        (\<lambda>m. opValue (NOp N) (unat (NWidth N)) (unat (ucast (NAux N) :: u32)) (map (sized m) Args)))"

lemma two_args: "length (xs :: 'a list) = 2 \<Longrightarrow> \<exists>a b. xs = [a, b]"
  by (cases xs; cases "tl xs") auto

lemma nodeCircuit_binary:
  assumes ok: "enc_ok e" and N: "node c R = N" and W: "NWidth N \<noteq> 0" and r: "inr e (set A \<union> set B)"
    and sh: "shape_ok (NOp N) (unat (NWidth N)) (unat (ucast (NAux N) :: u32)) (map length [A, B])"
    and Op: "NOp N \<in> {SShl, SLShr, SAShr, SRol, SRor, SUDiv, SSDiv, SURem, SSRem, SEq, SUlt, SUle, SSlt, SSle}"
  shows "opCircuit e N [A, B] (nodeCircuit c R [A, B] e)"
proof -
  let ?W = "unat (NWidth N)" and ?Low = "unat (ucast (NAux N) :: u32)"
  have W0: "0 < ?W" using W by (simp add: unat_gt_0)
  have "?W < 2 ^ LENGTH(32)" by (rule unsigned_less)
  then have W64: "?W \<le> 2 ^ 64" by simp
  show ?thesis
  proof (cases "NOp N \<in> {SShl, SLShr, SAShr, SRol, SRor}")
    case True
    then have A: "length A = ?W" "A \<noteq> []" using sh W0 by auto
    note s = circuit_shift [OF ok A(2) _ r, of ?Low] 
    from True s A W64 N show ?thesis by (auto simp: nodeCircuit_def Let_def opCircuit_def)
  next
    case False
    show ?thesis
    proof (cases "NOp N \<in> {SUDiv, SSDiv, SURem, SSRem}")
      case True
      then have A: "length A = ?W" "length A = length B" "A \<noteq> []" using sh W0 by auto
      note s = circuit_divide [OF ok A(2,3) r, of ?Low]
      from True s A(1) N show ?thesis
        by (elim insertE emptyE) (simp_all add: nodeCircuit_def Let_def opCircuit_def del: opValue.simps)
    next
      case nd: False
      then have P: "NOp N \<in> {SEq, SUlt, SUle, SSlt, SSle}" using Op False by auto
      then have W1: "?W = 1" and l: "length A = length B" using sh by auto
      have eq: "circuit_ok e (case equalBits A B e of (L, e) \<Rightarrow> ([L], e)) 1 (\<lambda>m. of_bool (bitsVal m A = bitsVal m B))"
        by (rule circuit_predicate [OF yields_equalBits [OF l r]])
      show ?thesis
      proof (cases "NOp N = SEq")
        case True
        with eq W1 N show ?thesis by (auto simp: nodeCircuit_def Let_def opCircuit_def)
      next
        case False
        then have A: "A \<noteq> []" "B \<noteq> []" using sh P l by auto
        note s = signed_of_bits [OF A(1)] signed_of_bits [OF A(2), folded l]
        note p = circuit_predicate [OF yields_lessThanBits [OF ok l A(1) r]]
        have "circuit_ok e (case lessThanBits A B OrEqual Signed e of (L, e) \<Rightarrow> ([L], e)) 1
            (\<lambda>m. of_bool (let a = (if Signed then asSigned (length A) (bitsVal m A) else int (bitsVal m A));
               b = (if Signed then asSigned (length A) (bitsVal m B) else int (bitsVal m B)) in if OrEqual then a \<le> b else a < b))" for OrEqual Signed
          using p [of OrEqual Signed] by (simp only: s)
        note p = this [of False False] this [of True False] this [of False True] this [of True True]
        from False P p W1 N show ?thesis by (auto simp: nodeCircuit_def Let_def opCircuit_def)
      qed
    qed
  qed
qed

lemma nodeCircuit_other:
  assumes ok: "enc_ok e" and N: "node c R = N" and W: "NWidth N \<noteq> 0" and r: "inr e (\<Union> (set ` set Args))"
    and sh: "shape_ok (NOp N) (unat (NWidth N)) (unat (ucast (NAux N) :: u32)) (map length Args)"
    and Op: "NOp N \<in> {SAdd, SMul, SAnd, SOr, SXor, SNot, SExtract, SConcat, SZExt, SSExt, SIte}"
  shows "opCircuit e N Args (nodeCircuit c R Args e)"
proof -
  let ?W = "unat (NWidth N)" and ?Low = "unat (ucast (NAux N) :: u32)"
  have W0: "0 < ?W" using W by (simp add: unat_gt_0)
  have wb: "?W < 2 ^ LENGTH(32)" by (rule unsigned_less)
  have nary: "Args \<noteq> []" "\<forall>A \<in> set Args. length A = ?W" if "NOp N \<in> {SAdd, SMul, SAnd, SOr, SXor}"
    using that sh by (auto simp: list_all_iff)
  have one: "\<exists>A. Args = [A]" if "NOp N \<in> {SNot, SExtract, SZExt, SSExt}"
    using that sh by (cases Args) (auto simp: map_eq_Cons_conv)
  from Op consider "NOp N = SAdd" | "NOp N = SMul" | "NOp N \<in> {SAnd, SOr, SXor}" | "NOp N = SNot" | "NOp N = SExtract"
    | "NOp N = SConcat" | "NOp N = SZExt" | "NOp N = SSExt" | "NOp N = SIte" by auto
  then show ?thesis
  proof cases
    case 1
    then show ?thesis using circuit_sum(1) [OF ok _ _ r, of ?W] nary N
      by (simp add: nodeCircuit_def Let_def opCircuit_def o_def)
  next
    case 2
    then show ?thesis using circuit_sum(2) [OF ok _ _ r, of ?W] nary N
      by (simp add: nodeCircuit_def Let_def opCircuit_def o_def)
  next
    case 3
    then have n: "Args \<noteq> []" "\<forall>A \<in> set Args. length A = ?W" using nary by auto
    note b = circuit_bitwise [OF ok 3 n r] and h = hd_sized [OF n(1)]
    have "map snd (tl (map (sized m) Args)) = map (bitsVal m) (tl Args)" for m by (simp add: map_tl o_def)
    with 3 b N h show ?thesis
      by (elim insertE emptyE) (simp_all add: nodeCircuit_def Let_def opCircuit_def foldl_bitOp o_def)
  next
    case 4
    then obtain A where A: "Args = [A]" "length A = ?W" using one sh by auto
    with 4 r N circuit_complement [of e A] show ?thesis by (simp add: nodeCircuit_def Let_def opCircuit_def)
  next
    case 5
    then obtain A where A: "Args = [A]" "?Low + ?W \<le> length A" using one sh by auto
    let ?w = "(ucast (NAux N) :: u32) + NWidth N"
    have "unat ?w \<le> ?Low + ?W" by (simp add: unat_plus_if_size)
    then have "\<not> length A < unat ?w" using A(2) by simp
    moreover have "circuit_ok e (take ?W (drop ?Low A), e) ?W (\<lambda>m. bitsVal m A div 2 ^ ?Low mod 2 ^ ?W)"
      using r A by (intro circuit_renaming) (auto simp: bitsVal_take bitsVal_drop)
    ultimately show ?thesis using 5 A N by (simp add: nodeCircuit_def Let_def opCircuit_def)
  next
    case 6
    then have len: "length (concat (rev Args)) = ?W" using sh by (simp add: length_concat rev_map [symmetric] sum_list_rev)
    have "circuit_ok e (concat (rev Args), e) ?W (\<lambda>m. foldl (\<lambda>acc (w, v). acc * 2 ^ w + v) 0 (map (sized m) Args))"
      using r len by (intro circuit_renaming) (auto simp: concat_value inr_def)
    then show ?thesis using 6 len N by (simp add: nodeCircuit_def Let_def opCircuit_def)
  next
    case 7
    then obtain A where A: "Args = [A]" "length A \<le> ?W" using one sh by auto
    with 7 r N circuit_extend(1) [of e A ?W] show ?thesis by (simp add: nodeCircuit_def Let_def opCircuit_def)
  next
    case 8
    then obtain A where A: "Args = [A]" "length A \<le> ?W" "A \<noteq> []" using one sh by auto
    with 8 r N circuit_extend(2) [of e A ?W] show ?thesis by (simp add: nodeCircuit_def Let_def opCircuit_def)
  next
    case 9
    then obtain A B C where A: "Args = [A, B, C]" "length A = 1" "length B = ?W" "length C = ?W"
      using sh by (auto simp: map_eq_Cons_conv)
    with 9 r N circuit_select [of A B C e ?W ?Low] show ?thesis by (simp add: nodeCircuit_def Let_def opCircuit_def)
  qed
qed

lemma nodeCircuit_ok:
  assumes "enc_ok e" "NWidth (node c R) \<noteq> 0" "inr e (\<Union> (set ` set Args))"
    "shape_ok (NOp (node c R)) (unat (NWidth (node c R))) (unat (ucast (NAux (node c R)) :: u32)) (map length Args)"
    "NOp (node c R) \<noteq> SConst" "NOp (node c R) \<noteq> SVar"
  shows "opCircuit e (node c R) Args (nodeCircuit c R Args e)"
proof (cases "NOp (node c R) \<in> {SAdd, SMul, SAnd, SOr, SXor, SNot, SExtract, SConcat, SZExt, SSExt, SIte}")
  case True
  then show ?thesis by (rule nodeCircuit_other [OF assms(1) refl assms(2-4)])
next
  case False
  then have Op: "NOp (node c R) \<in> {SShl, SLShr, SAShr, SRol, SRor, SUDiv, SSDiv, SURem, SSRem, SEq, SUlt, SUle, SSlt, SSle}"
    using assms(5,6) by (cases "NOp (node c R)") auto
  then have "length (map length Args) = 2" using assms(4) by auto
  then obtain A B where A: "Args = [A, B]" using two_args [of Args] by auto
  show ?thesis using nodeCircuit_binary [OF assms(1) refl assms(2) _ _ Op, of A B] assms(3,4) A by simp
qed

end
