(* ===== verification/Bit_Blaster.thy ===== *)
theory Bit_Blaster
  imports Blast_Circuits
begin

text \<open>
  The blaster is correct.  \<open>blaster_inv\<close> says that the slice of every encoded node lies in the pool
  and is worth the node in every model of the clauses, for every valuation the model spells; encoding
  a node, and so everything a root reaches, keeps it, loses no model and refuses a well-formed
  expression for its size only.
\<close>

section \<open>Fresh variables\<close>

lemma conservative_same: "mods u = mods e \<Longrightarrow> conservative e u"
  unfolding conservative_def using agree_refl by blast

lemma freshLit_good:
  assumes ok: "enc_ok e" and f: "freshLit e = (L, u)" and nf: "\<not> enc_full u"
  shows "good e u" "unat (var L) = nv e" "nv u = Suc (nv e)" "mods u = mods e" "L = positive (var L)"
proof -
  note l = freshLit_ok [OF ok f]
  note n = l(3) [OF nf]
  show nv: "unat (var L) = nv e" "nv u = Suc (nv e)" "mods u = mods e" "L = positive (var L)" using n by blast+
  have ops: "operandsOf u G = operandsOf e G" for G using l(5) by (simp add: operandsOf_def)
  have "gate_ok u G" if "gate_ok e G" for G
    using that nv l(5) by (auto simp: gate_ok_def ops less_Suc_eq)
  moreover have "gateKey u = gateKey e" by (simp add: fun_eq_iff gateKey_def ops)
  moreover have "table_ok u = table_ok e" using l(4,6) by (simp add: table_ok_def ops)
  ultimately have "enc_ok u" using ok l nv by (auto simp: enc_ok_def)
  then show "good e u" using nv l(4,7)
    by (auto simp: good_def enc_total_def intro: conservative_same)
qed

lemma enc_mono_freshBits: "enc_mono e (snd (freshBits n e))"
  by (induction n arbitrary: e) (auto intro!: enc_mono_bind enc_mono_freshLit)

lemma length_freshBits [simp]: "length (fst (freshBits n e)) = n"
  by (induction n arbitrary: e) (simp_all add: case_prod_beta)

text \<open>Fresh bits are unconstrained: any model extends to any value of them.\<close>

lemma freshBits_good:
  assumes "enc_ok e" "freshBits n e = (Ls, u)" "\<not> enc_full u"
  shows "good e u \<and> inr u (set Ls) \<and> nv u = nv e + n \<and> mods u = mods e \<and>
    (\<forall>L \<in> set Ls. nv e \<le> unat (var L)) \<and>
    (\<forall>m v. v < 2 ^ n \<longrightarrow> (\<exists>m'. agree (nv e) m m' \<and> bitsVal m' Ls = v))"
  using assms
proof (induction n arbitrary: e Ls)
  case 0
  then show ?case using agree_refl [of "nv u"] by (auto simp: good_refl simp del: agree_refl)
next
  case (Suc n)
  obtain L w where f: "freshLit e = (L, w)" by fastforce
  obtain Ks where fs: "freshBits n w = (Ks, u)" and Ls: "Ls = L # Ks" using Suc.prems(2) f by (auto split: prod.splits)
  have nw: "\<not> enc_full w"
    using enc_mono_freshBits [of w n] fs Suc.prems(3) freshLit_ok(1) [OF Suc.prems(1) f] by (auto simp: enc_mono_def)
  note L = freshLit_good [OF Suc.prems(1) f nw]
  note ih = Suc.IH [OF goodD(1) [OF L(1)] fs Suc.prems(3)]
  have ext: "\<exists>m'. agree (nv e) m m' \<and> bitsVal m' Ls = v" if v: "v < 2 ^ Suc n" for m v
  proof -
    let ?m = "m(var L := odd v)"
    obtain m' where m': "agree (nv w) ?m m'" "bitsVal m' Ks = v div 2"
      using ih v by (metis less_mult_imp_div_less mult.commute power_Suc)
    have "unat (var L) < nv w" using L(2,3) by simp
    then have "lit_true m' L = odd v" using m'(1) L(5) nv_bound [OF Suc.prems(1)] L(2)
      by (metis agree_def fun_upd_same lit_true_agree freshLit_ok(3) [OF Suc.prems(1) f nw])
    moreover have "agree (nv e) m m'"
      using agree_trans [OF agree_update agree_mono [OF m'(1)]] L(2,3) by simp
    ultimately show ?thesis using m'(2) unfolding Ls by (intro exI [of _ m']) (simp add: odd_two_times_div_two_succ of_bool_def)
  qed
  have "unat (var L) < nv u" using ih L(2,3) by simp
  with ih L ext show ?case unfolding Ls using good_trans [OF L(1)] by (auto simp: Ls)
qed

section \<open>The invariant of the blaster\<close>

text \<open>A valuation agrees with a model when it gives each encoded variable what its bits spell.\<close>

definition env_agrees :: "SymContext \<Rightarrow> BitBlaster \<Rightarrow> assignment \<Rightarrow> (u32 \<Rightarrow> nat) \<Rightarrow> bool" where
  "env_agrees c b m \<rho> \<longleftrightarrow>
     (\<forall>R. isEncoded b R \<longrightarrow> NOp (node c R) = SVar \<longrightarrow> \<rho> (varId c R) mod 2 ^ widthOf c R = bitsVal m (bitsOf b R))"

definition slice_ok :: "SymContext \<Rightarrow> BitBlaster \<Rightarrow> SymRef \<Rightarrow> Slice \<Rightarrow> bool" where
  "slice_ok c b R S \<longleftrightarrow> unat R < numNodes c \<and> SFirst S + unat (SWidth S) \<le> length (BitPool b) \<and>
     SWidth S = symWidth c R \<and> symWidth c R \<noteq> 0"

definition blaster_inv :: "SymContext \<Rightarrow> BitBlaster \<Rightarrow> bool" where
  "blaster_inv c b \<longleftrightarrow> enc_ok (Enc b) \<and> inr (Enc b) (set (BitPool b)) \<and>
     (\<forall>R S. Encoded b R = Some S \<longrightarrow> slice_ok c b R S) \<and>
     (\<forall>R. unat R < numNodes c \<longrightarrow> NOp (node c R) = SVar \<longrightarrow> VarSlices b (varId c R) = Encoded b R) \<and>
     (\<forall>m \<rho> R. m \<in> mods (Enc b) \<longrightarrow> env_agrees c b m \<rho> \<longrightarrow> isEncoded b R \<longrightarrow> bitsVal m (bitsOf b R) = symValue c \<rho> R)"

lemma blaster_invD:
  assumes "blaster_inv c b"
  shows "enc_ok (Enc b)" "inr (Enc b) (set (BitPool b))" "\<And>R S. Encoded b R = Some S \<Longrightarrow> slice_ok c b R S"
    "\<And>R. unat R < numNodes c \<Longrightarrow> NOp (node c R) = SVar \<Longrightarrow> VarSlices b (varId c R) = Encoded b R"
    "\<And>m \<rho> R. m \<in> mods (Enc b) \<Longrightarrow> env_agrees c b m \<rho> \<Longrightarrow> isEncoded b R \<Longrightarrow> bitsVal m (bitsOf b R) = symValue c \<rho> R"
  using assms by (simp_all add: blaster_inv_def)

lemma newBlaster_inv: "enc_ok e \<Longrightarrow> blaster_inv c (newBlaster e L)"
  by (simp add: blaster_inv_def newBlaster_def isEncoded_def)

lemma sliceBits_set: "set (sliceBits b S) \<subseteq> set (BitPool b)"
  by (auto simp: sliceBits_def dest: in_set_takeD in_set_dropD)

lemma bitsOf_ok:
  assumes "blaster_inv c b" "isEncoded b R"
  shows "length (bitsOf b R) = widthOf c R" "inr (Enc b) (set (bitsOf b R))" "symWidth c R \<noteq> 0" "unat R < numNodes c"
proof -
  obtain S where S: "Encoded b R = Some S" using assms(2) by (auto simp: isEncoded_def)
  note s = blaster_invD(3) [OF assms(1) S]
  show "length (bitsOf b R) = widthOf c R" "symWidth c R \<noteq> 0" "unat R < numNodes c"
    using s by (auto simp: bitsOf_def sliceBits_def S slice_ok_def)
  show "inr (Enc b) (set (bitsOf b R))"
    unfolding bitsOf_def by (rule inr_subset [OF blaster_invD(2) [OF assms(1)] sliceBits_set])
qed

text \<open>Storing a vector leaves the others where they are.\<close>

lemma storeBits_bits:
  assumes "length Bits = unat (word_of_nat (length Bits) :: u32)"
  shows "bitsOf (storeBits R Bits b) R = Bits"
    "Encoded b Q = Some S \<Longrightarrow> Q \<noteq> R \<Longrightarrow> SFirst S + unat (SWidth S) \<le> length (BitPool b) \<Longrightarrow>
       bitsOf (storeBits R Bits b) Q = bitsOf b Q"
  using assms by (simp_all add: bitsOf_def sliceBits_def storeBits_def)

lemma isEncoded_storeBits [simp]: "isEncoded (storeBits R Bits b) Q \<longleftrightarrow> Q = R \<or> isEncoded b Q"
  by (simp add: isEncoded_def storeBits_def)

lemma storeBits_fields [simp]: "Enc (storeBits R Bits b) = Enc b" "VarSlices (storeBits R Bits b) = VarSlices b"
  "BLimits (storeBits R Bits b) = BLimits b" "BError (storeBits R Bits b) = BError b" "GateBase (storeBits R Bits b) = GateBase b"
  "EncodedVars (storeBits R Bits b) = EncodedVars b" "BitPool (storeBits R Bits b) = BitPool b @ Bits"
  by (simp_all add: storeBits_def)

section \<open>Encoding one node\<close>

lemma enc_mono_case2: "enc_mono e (snd (case r of ((a, b), u) \<Rightarrow> (f a b, u))) \<longleftrightarrow> enc_mono e (snd r)"
  by (simp add: case_prod_beta)

lemma enc_mono_nodeCircuit: "nodeCircuit c R Args e = Some r \<Longrightarrow> enc_mono e (snd r)"
  by (cases "NOp (node c R)")
    (auto simp: nodeCircuit_def Let_def addOperand_def split: if_splits
      intro!: enc_mono_foldBits enc_mono_bitwiseRow enc_mono_addBits enc_mono_multiplyBits enc_mono_shiftBits
        enc_mono_divideBits enc_mono_divideSignedBits enc_mono_equalBits enc_mono_lessThanBits enc_mono_selectBits
        enc_mono_freshBits)

lemma encodeNode_mono: "enc_mono (Enc b) (Enc (snd (encodeNode c R b)))"
  using enc_mono_nodeCircuit [of c R "map (bitsOf b) (operands c R)" "Enc b"]
  by (auto simp: encodeNode_def Let_def blastFail_def split: option.splits)

text \<open>Fields that do not matter.\<close>

lemma blaster_fields [simp]:
  "isEncoded (b\<lparr>BError := E\<rparr>) = isEncoded b" "bitsOf (b\<lparr>BError := E\<rparr>) = bitsOf b"
  "isEncoded (b\<lparr>Enc := e\<rparr>) = isEncoded b" "bitsOf (b\<lparr>Enc := e\<rparr>) = bitsOf b"
  "isEncoded (b\<lparr>EncodedVars := vs\<rparr>) = isEncoded b" "bitsOf (b\<lparr>EncodedVars := vs\<rparr>) = bitsOf b"
  "isEncoded (b\<lparr>VarSlices := V\<rparr>) = isEncoded b" "bitsOf (b\<lparr>VarSlices := V\<rparr>) = bitsOf b"
  by (simp_all add: fun_eq_iff isEncoded_def bitsOf_def sliceBits_def)

lemma invariant_fields [simp]:
  "slice_ok c (b\<lparr>BError := E\<rparr>) = slice_ok c b" "env_agrees c (b\<lparr>BError := E\<rparr>) = env_agrees c b"
  "slice_ok c (b\<lparr>Enc := e\<rparr>) = slice_ok c b" "env_agrees c (b\<lparr>Enc := e\<rparr>) = env_agrees c b"
  "slice_ok c (b\<lparr>EncodedVars := vs\<rparr>) = slice_ok c b" "env_agrees c (b\<lparr>EncodedVars := vs\<rparr>) = env_agrees c b"
  "slice_ok c (b\<lparr>VarSlices := V\<rparr>) = slice_ok c b" "env_agrees c (b\<lparr>VarSlices := V\<rparr>) = env_agrees c b"
  by (simp_all add: fun_eq_iff slice_ok_def env_agrees_def)

lemma storeBits_Enc: "storeBits R Bits (b\<lparr>Enc := e\<rparr>) = (storeBits R Bits b)\<lparr>Enc := e\<rparr>"
  by (simp add: storeBits_def)

definition blast_step :: "SymContext \<Rightarrow> BitBlaster \<Rightarrow> BitBlaster \<Rightarrow> bool" where
  "blast_step c b b' \<longleftrightarrow> good (Enc b) (Enc b') \<and> blaster_inv c b' \<and>
     (\<forall>Q. isEncoded b Q \<longrightarrow> isEncoded b' Q \<and> bitsOf b' Q = bitsOf b Q) \<and>
     (enc_total (Enc b) \<longrightarrow> (\<forall>m \<rho>. m \<in> mods (Enc b) \<longrightarrow> env_agrees c b m \<rho> \<longrightarrow>
        (\<exists>m' \<in> mods (Enc b'). agree (nv (Enc b)) m m' \<and> env_agrees c b' m' \<rho>)))"

lemma blast_step_refl: "blaster_inv c b \<Longrightarrow> blast_step c b b"
  unfolding blast_step_def using good_refl [OF blaster_invD(1)] agree_refl by blast

lemma blast_step_error: "blaster_inv c b \<Longrightarrow> blast_step c b (b\<lparr>BError := E\<rparr>)"
proof -
  assume i: "blaster_inv c b"
  then have "blaster_inv c (b\<lparr>BError := E\<rparr>)" by (simp add: blaster_inv_def)
  then show ?thesis using blast_step_refl [OF i] by (simp add: blast_step_def)
qed

lemma blast_step_trans:
  assumes "blast_step c b b'" "blast_step c b' b''"
  shows "blast_step c b b''"
  unfolding blast_step_def
proof (intro conjI impI allI)
  note s = assms [unfolded blast_step_def]
  have g: "good (Enc b) (Enc b')" "good (Enc b') (Enc b'')" using s by blast+
  show "good (Enc b) (Enc b'')" using good_trans g by blast
  show "blaster_inv c b''" using s by blast
  fix Q assume "isEncoded b Q"
  then show "isEncoded b'' Q" "bitsOf b'' Q = bitsOf b Q" using s by auto
next
  note s = assms [unfolded blast_step_def]
  fix m \<rho> assume t: "enc_total (Enc b)" and m: "m \<in> mods (Enc b)" "env_agrees c b m \<rho>"
  then obtain m' where m': "m' \<in> mods (Enc b')" "agree (nv (Enc b)) m m'" "env_agrees c b' m' \<rho>" using s(1) by blast
  have "enc_total (Enc b')" using s(1) t by (simp add: good_def)
  with m' s(2) obtain m'' where m'': "m'' \<in> mods (Enc b'')" "agree (nv (Enc b')) m' m''" "env_agrees c b'' m'' \<rho>" by blast
  have "nv (Enc b) \<le> nv (Enc b')" using s(1) by (simp add: good_def)
  with m'(2) m'' show "\<exists>m'' \<in> mods (Enc b''). agree (nv (Enc b)) m m'' \<and> env_agrees c b'' m'' \<rho>"
    by (meson agree_mono agree_trans)
qed

lemma bitsVal_agree: "agree n m m' \<Longrightarrow> \<forall>L \<in> set Ls. unat (var L) < n \<Longrightarrow> bitsVal m Ls = bitsVal m' Ls"
  by (induction Ls) (auto dest: lit_true_agree)

lemma env_agrees_agree:
  assumes "blaster_inv c b" "agree (nv (Enc b)) m m'"
  shows "env_agrees c b m \<rho> = env_agrees c b m' \<rho>"
proof -
  have "bitsVal m (bitsOf b R) = bitsVal m' (bitsOf b R)" if "isEncoded b R" for R
    using bitsOf_ok(2) [OF assms(1) that] by (intro bitsVal_agree [OF assms(2)]) (simp add: inr_def)
  then show ?thesis by (simp add: env_agrees_def)
qed

text \<open>Storing a vector of the node's width, whatever it means.\<close>

lemma store_shape:
  assumes inv: "blaster_inv c b" and R: "unat R < numNodes c" "\<not> isEncoded b R" "symWidth c R \<noteq> 0"
    and len: "length Bits = widthOf c R"
  shows "bitsOf (storeBits R Bits b) R = Bits" "isEncoded b Q \<Longrightarrow> bitsOf (storeBits R Bits b) Q = bitsOf b Q"
    "Encoded (storeBits R Bits b) Q = Some S \<Longrightarrow> slice_ok c (storeBits R Bits b) Q S"
proof -
  have w: "word_of_nat (length Bits) = symWidth c R" using len by simp
  then have l: "length Bits = unat (word_of_nat (length Bits) :: u32)" using len by simp
  show "bitsOf (storeBits R Bits b) R = Bits" by (rule storeBits_bits(1) [OF l])
  show "bitsOf (storeBits R Bits b) Q = bitsOf b Q" if q: "isEncoded b Q"
  proof -
    obtain T where T: "Encoded b Q = Some T" using q by (auto simp: isEncoded_def)
    show ?thesis using T R(2) q blaster_invD(3) [OF inv T] by (intro storeBits_bits(2) [OF l T]) (auto simp: slice_ok_def)
  qed
  show "slice_ok c (storeBits R Bits b) Q S" if "Encoded (storeBits R Bits b) Q = Some S"
    using that blaster_invD(3) [OF inv, of Q S] R w len
    by (auto simp: storeBits_def slice_ok_def split: if_splits)
qed

lemma store_step:
  assumes inv: "blaster_inv c b" and ctx: "ctx_ok c" and R: "unat R < numNodes c" "\<not> isEncoded b R" "symWidth c R \<noteq> 0"
    and nv: "NOp (node c R) \<noteq> SVar" and circ: "circuit_ok (Enc b) (Bits, e) (widthOf c R) F" and nf: "\<not> enc_full e"
    and val: "\<And>m \<rho>. m \<in> mods (Enc b) \<Longrightarrow> env_agrees c b m \<rho> \<Longrightarrow> F m = symValue c \<rho> R"
  shows "blast_step c b (storeBits R Bits (b\<lparr>Enc := e\<rparr>))"
proof -
  let ?b = "b\<lparr>Enc := e\<rparr>" and ?b' = "storeBits R Bits (b\<lparr>Enc := e\<rparr>)"
  have len: "length Bits = widthOf c R" using circ by (simp add: circuit_ok_def)
  have y: "good (Enc b) e" "inr e (set Bits)" "\<And>m. m \<in> mods e \<Longrightarrow> bitsVal m Bits = F m"
    using circ blaster_invD(1) [OF inv] nf by (simp_all add: circuit_ok_def yields_def)
  have st: "bitsOf ?b' R = Bits" "\<And>Q. isEncoded b Q \<Longrightarrow> bitsOf ?b' Q = bitsOf b Q"
    "\<And>Q S. Encoded ?b' Q = Some S \<Longrightarrow> slice_ok c ?b' Q S"
    using store_shape [OF inv R len] by (simp_all add: storeBits_Enc)
  have env: "env_agrees c ?b' m \<rho> = env_agrees c b m \<rho>" for m \<rho>
    using st(2) nv R(2) by (auto simp: env_agrees_def)
  have "inr e (set (BitPool b))" by (rule inr_mono [OF blaster_invD(2) [OF inv] goodD(2) [OF y(1)]])
  moreover have "bitsVal m (bitsOf ?b' Q) = symValue c \<rho> Q"
    if "m \<in> mods e" "env_agrees c ?b' m \<rho>" "isEncoded ?b' Q" for m \<rho> Q
    using that y(3) val st(1,2) env blaster_invD(5) [OF inv] goodD(3) [OF y(1)] by auto
  moreover have "VarSlices ?b' (varId c Q) = Encoded ?b' Q" if "unat Q < numNodes c" "NOp (node c Q) = SVar" for Q
    using blaster_invD(4) [OF inv that] nv that by (auto simp: storeBits_def)
  ultimately have inv': "blaster_inv c ?b'"
    using goodD(1) [OF y(1)] y(2) st(3) unfolding blaster_inv_def by simp
  have "\<exists>m' \<in> mods e. agree (nv (Enc b)) m m' \<and> env_agrees c ?b' m' \<rho>"
    if t: "enc_total (Enc b)" "m \<in> mods (Enc b)" "env_agrees c b m \<rho>" for m \<rho>
  proof -
    obtain m' where "m' \<in> mods e" "agree (nv (Enc b)) m m'" using t y(1) by (auto simp: good_def conservative_def)
    with t(3) env env_agrees_agree [OF inv] show ?thesis by blast
  qed
  with inv' y(1) st(2) show ?thesis by (auto simp: blast_step_def)
qed

text \<open>A variable gets fresh bits, which any valuation can give their value.\<close>

lemma var_step:
  assumes inv: "blaster_inv c b" and ctx: "ctx_ok c" and R: "unat R < numNodes c" "\<not> isEncoded b R" "symWidth c R \<noteq> 0"
    and v: "NOp (node c R) = SVar" and f: "freshBits (widthOf c R) (Enc b) = (Bits, e)" and nf: "\<not> enc_full e"
    and b': "b' = (storeBits R Bits (b\<lparr>Enc := e\<rparr>))\<lparr>VarSlices := (VarSlices b)(varId c R := Encoded (storeBits R Bits b) R),
      EncodedVars := vs\<rparr>"
  shows "blast_step c b b'"
proof -
  have len: "length Bits = widthOf c R" using length_freshBits [of "widthOf c R" "Enc b"] f by simp
  note g = freshBits_good [OF blaster_invD(1) [OF inv] f nf]
  have good: "good (Enc b) e" and fresh: "inr e (set Bits)" "mods e = mods (Enc b)" using g by blast+
  have enc: "isEncoded b' Q \<longleftrightarrow> Q = R \<or> isEncoded b Q" for Q by (simp add: b')
  have st: "bitsOf b' R = Bits" "\<And>Q. isEncoded b Q \<Longrightarrow> bitsOf b' Q = bitsOf b Q"
    "\<And>Q S. Encoded b' Q = Some S \<Longrightarrow> slice_ok c b' Q S"
    using store_shape [OF inv R len] by (simp_all add: b' storeBits_Enc)
  have env: "env_agrees c b' m \<rho> \<longleftrightarrow> env_agrees c b m \<rho> \<and> \<rho> (varId c R) mod 2 ^ widthOf c R = bitsVal m Bits" for m \<rho>
    using st v R(2) unfolding env_agrees_def enc by (metis (no_types, lifting))
  have sv: "symValue c \<rho> R = \<rho> (varId c R) mod 2 ^ widthOf c R" for \<rho>
    using symValue_eq [OF ctx R(1)] v by (simp add: nodeValue_def symWidth_def)
  have "inr e (set (BitPool b))" by (rule inr_mono [OF blaster_invD(2) [OF inv] goodD(2) [OF good]])
  then have pool: "inr e (set (BitPool b'))" using fresh by (simp add: b')
  have vals: "bitsVal m (bitsOf b' Q) = symValue c \<rho> Q" if "m \<in> mods e" "env_agrees c b' m \<rho>" "isEncoded b' Q" for m \<rho> Q
    using that st(1,2) env sv blaster_invD(5) [OF inv] fresh(2) by (auto simp: enc)
  have slices: "VarSlices b' (varId c Q) = Encoded b' Q" if "unat Q < numNodes c" "NOp (node c Q) = SVar" for Q
  proof (cases "Q = R")
    case False
    then have "varId c Q \<noteq> varId c R" using ctx that R(1) v by (auto simp: ctx_ok_def)
    then show ?thesis using False blaster_invD(4) [OF inv that] by (simp add: b' storeBits_def)
  qed (simp add: b' storeBits_def)
  have inv': "blaster_inv c b'"
    using goodD(1) [OF good] pool vals slices st(3) unfolding blaster_inv_def by (simp add: b')
  have "\<exists>m' \<in> mods e. agree (nv (Enc b)) m m' \<and> env_agrees c b' m' \<rho>"
    if t: "m \<in> mods (Enc b)" "env_agrees c b m \<rho>" for m \<rho>
  proof -
    have lt: "\<rho> (varId c R) mod 2 ^ widthOf c R < 2 ^ widthOf c R" by simp
    obtain m' where m': "agree (nv (Enc b)) m m'" "bitsVal m' Bits = \<rho> (varId c R) mod 2 ^ widthOf c R"
      using g lt by blast
    have "m' \<in> mods e"
      using root_models_agree [OF enc_okD(1) [OF blaster_invD(1) [OF inv]], of m m'] t(1) m'(1) fresh(2) by (simp add: mods_def nv_def)
    with m' t(2) env env_agrees_agree [OF inv m'(1)] show ?thesis by auto
  qed
  with inv' good st(2) enc show ?thesis by (auto simp: blast_step_def b')
qed

text \<open>Well-formed nodes are refused for their width or the gate budget only, and never without limits.\<close>

definition refusal :: "BitBlaster \<Rightarrow> bool \<Rightarrow> BitBlaster \<Rightarrow> bool" where
  "refusal b Done b' \<longleftrightarrow> BLimits b' = BLimits b \<and> (BLimits b = unlimitedLimits \<longrightarrow> Done) \<and>
     (BError b = NoError \<longrightarrow> (if Done then BError b' = NoError else BError b' \<in> {WidthTooLarge, TooManyGates}))"

lemma encodeNode_step:
  assumes inv: "blaster_inv c b" and ctx: "ctx_ok c" and R: "unat R < numNodes c" "\<not> isEncoded b R"
    and ops: "\<forall>x \<in> set (operands c R). isEncoded b x" and n: "encodeNode c R b = (Done, b')" and nf: "\<not> enc_full (Enc b')"
  shows "blast_step c b b'" "Done \<Longrightarrow> isEncoded b' Q \<longleftrightarrow> Q = R \<or> isEncoded b Q"
    "refusal b Done b'"
proof -
  let ?N = "node c R" and ?Args = "map (bitsOf b) (operands c R)"
  have ok: "node_ok c R" by (rule ctx_okD(1) [OF ctx R(1)])
  have lens: "map length ?Args = map (widthOf c) (operands c R)" using ops bitsOf_ok(1) [OF inv] by simp
  have rng: "inr (Enc b) (\<Union> (set ` set ?Args))" using ops bitsOf_ok(2) [OF inv] by (auto simp: inr_def)
  have sw: "symWidth c R = NWidth ?N" by (simp add: symWidth_def)
  have W: "symWidth c R \<noteq> 0" "NWidth ?N \<noteq> 0" using ok by (simp_all add: node_ok_def sw)
  have "blast_step c b b' \<and> (Done \<longrightarrow> (isEncoded b' Q \<longleftrightarrow> Q = R \<or> isEncoded b Q)) \<and>
    refusal b Done b'"
  proof (cases "MaxWidth (BLimits b) \<noteq> 0 \<and> MaxWidth (BLimits b) < NWidth ?N")
    case True
    then show ?thesis using n blast_step_refl [OF inv] blast_step_error [OF inv] W
      by (auto simp: encodeNode_def Let_def blastFail_def refusal_def unlimitedLimits_def split: if_splits)
  next
    case w: False
    show ?thesis
    proof (cases "NOp ?N = SVar")
      case True
      obtain Bits e where f: "freshBits (widthOf c R) (Enc b) = (Bits, e)" by fastforce
      have c: "nodeCircuit c R ?Args (Enc b) = Some (Bits, e)" using True f by (simp add: nodeCircuit_def Let_def sw)
      from n c w W True have b': "Done" "b' = (storeBits R Bits (b\<lparr>Enc := e\<rparr>))\<lparr>VarSlices := (VarSlices b)(varId c R := Encoded (storeBits R Bits b) R),
          EncodedVars := EncodedVars b @ [varId c R]\<rparr>"
        by (auto simp: encodeNode_def Let_def storeBits_def split: if_splits)
      then have "\<not> enc_full e" using nf by simp
      from var_step [OF inv ctx R W(1) True f this b'(2)] b' w show ?thesis by (simp add: refusal_def)
    next
      case nv: False
      let ?F = "\<lambda>m. if NOp ?N = SConst then constValue c R
        else opValue (NOp ?N) (widthOf c R) (unat (ucast (NAux ?N) :: u32)) (map (sized m) ?Args)"
      obtain Bits e where c: "nodeCircuit c R ?Args (Enc b) = Some (Bits, e)"
        and circ: "circuit_ok (Enc b) (Bits, e) (widthOf c R) ?F"
      proof (cases "NOp ?N = SConst")
        case True
        then have "constValue c R < 2 ^ widthOf c R" using ok by (simp add: node_ok_def)
        from circuit_constant [OF this, of "Enc b"] True show ?thesis
          by (intro that) (simp_all add: nodeCircuit_def Let_def sw)
      next
        case False
        have "shape_ok (NOp ?N) (unat (NWidth ?N)) (unat (ucast (NAux ?N) :: u32)) (map length ?Args)"
          unfolding lens using ok by (simp add: node_ok_def sw)
        from nodeCircuit_ok [OF blaster_invD(1) [OF inv] W(2) rng this False nv] False that show ?thesis
          by (auto simp: opCircuit_def sw split: option.splits)
      qed
      have b': "Done" "b' = storeBits R Bits (b\<lparr>Enc := e\<rparr>)"
        using n c w W nv circ by (auto simp: encodeNode_def Let_def circuit_ok_def sw split: if_splits)
      have val: "?F m = symValue c \<rho> R" if "m \<in> mods (Enc b)" "env_agrees c b m \<rho>" for m \<rho>
      proof -
        have e: "map (sized m) ?Args = map (\<lambda>x. (widthOf c x, symValue c \<rho> x)) (operands c R)"
          using ops bitsOf_ok(1) [OF inv] blaster_invD(5) [OF inv that] by simp
        show ?thesis unfolding e using symValue_eq [OF ctx R(1), of \<rho>] nv by (simp add: nodeValue_def Let_def sw)
      qed
      have "\<not> enc_full e" using nf b'(2) by simp
      from store_step [OF inv ctx R W(1) nv circ this val] b' w show ?thesis by (simp add: refusal_def)
    qed
  qed
  then show "blast_step c b b'" "Done \<Longrightarrow> isEncoded b' Q \<longleftrightarrow> Q = R \<or> isEncoded b Q"
    "refusal b Done b'" by blast+
qed

section \<open>Encoding what a root reaches\<close>

definition reaches_all :: "SymContext \<Rightarrow> BitBlaster \<Rightarrow> SymRef set \<Rightarrow> SymRef list \<Rightarrow> bool" where
  "reaches_all c b Start Ord \<longleftrightarrow> (\<exists>V. Start \<subseteq> V \<and> (\<forall>x \<in> V. unat x < numNodes c) \<and>
     set Ord = {x \<in> V. \<not> isEncoded b x} \<and> distinct Ord \<and> (\<forall>x \<in> set Ord. set (operands c x) \<subseteq> V))"

lemma reaches_all_mono: "reaches_all c b T Ord \<Longrightarrow> S \<subseteq> T \<Longrightarrow> reaches_all c b S Ord"
  unfolding reaches_all_def by (meson order_trans)

lemma reachLoop_closed:
  assumes "ctx_ok c" "\<forall>x \<in> Visited \<union> set Work. unat x < numNodes c"
    "set Ord = {x \<in> Visited. \<not> isEncoded b x}" "distinct Ord" "\<forall>x \<in> set Ord. set (operands c x) \<subseteq> Visited \<union> set Work"
  shows "reaches_all c b (Visited \<union> set Work) (reachLoop c b Work Visited Ord)"
  using assms
proof (induction c b Work Visited Ord rule: reachLoop.induct)
  case (1 c b Work Visited Ord)
  show ?case
  proof (cases "Work = []")
    case True
    have e: "reachLoop c b Work Visited Ord = Ord" using True by (simp add: reachLoop.simps [of c b "[]"])
    show ?thesis unfolding e reaches_all_def using "1.prems" True by (intro exI [of _ Visited]) simp
  next
    case False
    let ?x = "last Work" and ?W = "butlast Work"
    note ih = "1.IH" [OF False refl refl]
    have set: "set Work = insert ?x (set ?W)"
      using False append_butlast_last_id [of Work] set_append [of ?W "[?x]"] by (metis Un_insert_right list.simps(15) set_append sup_bot_right empty_set)
    have x: "unat ?x < numNodes c" using "1.prems"(2) set by simp
    have ops: "\<forall>y \<in> set (operands c ?x). unat y < numNodes c" using ctx_okD(2) [OF "1.prems"(1) x] x by fastforce
    consider "?x \<in> Visited" | "?x \<notin> Visited" "isEncoded b ?x" | "?x \<notin> Visited" "\<not> isEncoded b ?x" by blast
    then show ?thesis
    proof cases
      case 1
      have "reaches_all c b (Visited \<union> set ?W) (reachLoop c b ?W Visited Ord)"
        by (rule ih(1) [OF 1]) (use "1.prems" set 1 in auto)
      then show ?thesis using 1 False set by (simp add: reachLoop.simps [of c b Work] insert_absorb)
    next
      case 2
      have "reaches_all c b (insert ?x Visited \<union> set ?W) (reachLoop c b ?W (insert ?x Visited) Ord)"
        by (rule ih(2) [OF 2(1) refl 2(2)]) (use "1.prems" set 2 in auto)
      then show ?thesis using 2 False set by (simp add: reachLoop.simps [of c b Work] Let_def)
    next
      case 3
      have "reaches_all c b (insert ?x Visited \<union> set (?W @ operands c ?x)) (reachLoop c b (?W @ operands c ?x) (insert ?x Visited) (Ord @ [?x]))"
        by (rule ih(3) [OF 3(1) refl 3(2)]) (use "1.prems" set 3 ops in auto)
      then have "reaches_all c b (Visited \<union> set Work) (reachLoop c b (?W @ operands c ?x) (insert ?x Visited) (Ord @ [?x]))"
        by (rule reaches_all_mono) (auto simp: set)
      then show ?thesis using 3 False by (simp add: reachLoop.simps [of c b Work] Let_def)
    qed
  qed
qed

lemma operands_first:
  assumes "ctx_ok c" "sorted (R # Ord)" "unat R < numNodes c" "\<forall>y \<in> set (operands c R). isEncoded b y \<or> y \<in> set (R # Ord)"
  shows "\<forall>y \<in> set (operands c R). isEncoded b y"
proof
  fix y assume y: "y \<in> set (operands c R)"
  have "y < R" using ctx_okD(2) [OF assms(1,3) y] by (simp add: word_less_nat_alt)
  moreover have "R \<le> x" if "x \<in> set Ord" for x using assms(2) that by simp
  ultimately show "isEncoded b y" using assms(4) y by fastforce
qed

lemma encodeAll_mono: "enc_mono (Enc b) (Enc (snd (encodeAll c Ord b)))"
proof (induction Ord arbitrary: b)
  case (Cons R Ord)
  obtain Done b' where e: "encodeNode c R b = (Done, b')" by fastforce
  have "enc_mono (Enc b) (Enc b')" using encodeNode_mono [of b c R] e by simp
  with Cons [of b'] show ?case by (auto simp: e blastFail_def intro: enc_mono_trans)
qed simp

lemma encodeAll_step:
  assumes "blaster_inv c b" "ctx_ok c" "sorted Ord" "distinct Ord"
    "\<forall>x \<in> set Ord. unat x < numNodes c \<and> \<not> isEncoded b x \<and> (\<forall>y \<in> set (operands c x). isEncoded b y \<or> y \<in> set Ord)"
    "encodeAll c Ord b = (Done, b')" "\<not> enc_full (Enc b')"
  shows "blast_step c b b' \<and> (Done \<longrightarrow> (\<forall>Q. isEncoded b' Q \<longleftrightarrow> Q \<in> set Ord \<or> isEncoded b Q)) \<and> refusal b Done b'"
  using assms(1,3-)
proof (induction Ord arbitrary: b)
  case Nil
  then show ?case by (simp add: blast_step_refl refusal_def)
next
  case (Cons R Ord)
  obtain D u where n: "encodeNode c R b = (D, u)" by fastforce
  have nu: "\<not> enc_full (Enc u)"
    using encodeAll_mono [of u c Ord] Cons.prems(5,6) n encodeNode_mono [of b c R] enc_okD(1) [OF blaster_invD(1) [OF Cons.prems(1)]]
    by (auto simp: enc_mono_def blastFail_def split: if_splits)
  have R: "unat R < numNodes c" "\<not> isEncoded b R" using Cons.prems(4) by simp_all
  have ops: "\<forall>x \<in> set (operands c R). isEncoded b x"
    by (rule operands_first [OF assms(2) Cons.prems(2) R(1)]) (use Cons.prems(4) in simp)
  note s = encodeNode_step [OF Cons.prems(1) assms(2) R ops n nu]
  have inv: "blaster_inv c u" using s(1) by (simp add: blast_step_def)
  show ?case
  proof (cases "D \<and> withinGateBudget u")
    case False
    then show ?thesis using Cons.prems(5) n s(1,3) blast_step_trans [OF s(1) blast_step_error [OF inv]]
      by (auto simp: blastFail_def refusal_def unlimitedLimits_def withinGateBudget_def split: if_splits)
  next
    case True
    then have enc: "\<And>Q. isEncoded u Q \<longleftrightarrow> Q = R \<or> isEncoded b Q" using s(2) by blast
    have e: "encodeAll c Ord u = (Done, b')" using True Cons.prems(5) n by simp
    have "blast_step c u b' \<and> (Done \<longrightarrow> (\<forall>Q. isEncoded b' Q \<longleftrightarrow> Q \<in> set Ord \<or> isEncoded u Q)) \<and> refusal u Done b'"
      by (rule Cons.IH [OF inv _ _ _ e Cons.prems(6)]) (use Cons.prems enc in auto)
    then show ?thesis using blast_step_trans [OF s(1)] enc s(3) True by (auto simp: refusal_def)
  qed
qed

lemma encodeReachable_step:
  assumes "blaster_inv c b" "ctx_ok c" "encodeReachable c R b = (Done, b')" "\<not> enc_full (Enc b')"
  shows "blast_step c b b'" "Done \<Longrightarrow> isEncoded b' R" "isValidRef R \<and> unat R < numNodes c \<Longrightarrow> refusal b Done b'"
proof -
  have "blast_step c b b' \<and> (Done \<longrightarrow> isEncoded b' R) \<and> (isValidRef R \<and> unat R < numNodes c \<longrightarrow> refusal b Done b')"
  proof (cases "isValidRef R \<and> unat R < numNodes c")
    case False
    then show ?thesis using assms(3) blast_step_refl [OF assms(1)] blast_step_error [OF assms(1)]
      by (auto simp: encodeReachable_def blastFail_def split: if_splits)
  next
    case True
    let ?O = "reachLoop c b [R] {} []"
    have "reaches_all c b ({} \<union> set [R]) ?O"
      by (rule reachLoop_closed [OF assms(2)]) (use True in simp_all)
    then obtain V where V0: "{} \<union> set [R] \<subseteq> V \<and> (\<forall>x \<in> V. unat x < numNodes c) \<and> set ?O = {x \<in> V. \<not> isEncoded b x} \<and> distinct ?O \<and>
        (\<forall>x \<in> set ?O. set (operands c x) \<subseteq> V)" unfolding reaches_all_def ..
    then have V: "R \<in> V" "\<forall>x \<in> V. unat x < numNodes c" "set ?O = {x \<in> V. \<not> isEncoded b x}" "distinct ?O"
        "\<forall>x \<in> set ?O. set (operands c x) \<subseteq> V" by simp_all
    have e: "encodeAll c (sort ?O) b = (Done, b')"
      using assms(3) True by (auto simp: encodeReachable_def Let_def sortLargeNodeOrder_sorts split: if_splits)
    have "\<forall>x \<in> set (sort ?O). unat x < numNodes c \<and> \<not> isEncoded b x \<and> (\<forall>y \<in> set (operands c x). isEncoded b y \<or> y \<in> set (sort ?O))"
      using V by auto
    from encodeAll_step [OF assms(1,2) _ _ this e assms(4)] V show ?thesis by auto
  qed
  then show "blast_step c b b'" "Done \<Longrightarrow> isEncoded b' R" "isValidRef R \<and> unat R < numNodes c \<Longrightarrow> refusal b Done b'" by blast+
qed

section \<open>What the blaster promises\<close>

text \<open>The valuation a model spells on the encoded variables.\<close>

definition modelEnv :: "BitBlaster \<Rightarrow> assignment \<Rightarrow> u32 \<Rightarrow> nat" where
  "modelEnv b m VarNo = bitsVal m (variableBits b VarNo)"

lemma modelEnv_agrees:
  assumes "blaster_inv c b"
  shows "env_agrees c b m (modelEnv b m)"
  unfolding env_agrees_def
proof (intro allI impI)
  fix R assume R: "isEncoded b R" "NOp (node c R) = SVar"
  note k = bitsOf_ok [OF assms R(1)]
  have "VarSlices b (varId c R) = Encoded b R" by (rule blaster_invD(4) [OF assms k(4) R(2)])
  then have "variableBits b (varId c R) = bitsOf b R" using R(1) by (auto simp: variableBits_def bitsOf_def isEncoded_def)
  then show "modelEnv b m (varId c R) mod 2 ^ widthOf c R = bitsVal m (bitsOf b R)"
    using bitsVal_less [of m "bitsOf b R"] k(1) by (simp add: modelEnv_def)
qed

lemma blast_steps:
  assumes "blaster_inv c b" "ctx_ok c" "blast c R b = ((True, Out), b')" "\<not> enc_full (Enc b')"
  shows "blast_step c b b'" "isEncoded b' R" "Out = bitsOf b' R"
proof -
  obtain Done u where e: "encodeReachable c R b = (Done, u)" by fastforce
  then have D: "Done" "u = b'" "Out = bitsOf b' R" using assms(3) by (auto simp: blast_def split: if_splits)
  from e D have "encodeReachable c R b = (True, b')" by simp
  note s = encodeReachable_step [OF assms(1,2) this assms(4)]
  show "blast_step c b b'" "isEncoded b' R" "Out = bitsOf b' R" using s D by simp_all
qed

text \<open>
  C9.  Soundness of bit blasting: the literals handed back for an expression are worth, in every model
  of the clauses, what the expression is worth when each variable has the value its own bits spell in
  that model.  What was encoded before keeps its meaning and the encoding loses no model.\<close>

theorem blast_sound:
  assumes "blaster_inv c b" "ctx_ok c" "blast c R b = ((True, Out), b')" "\<not> enc_full (Enc b')"
  shows "blaster_inv c b' \<and> good (Enc b) (Enc b') \<and> length Out = widthOf c R \<and>
    (\<forall>m \<in> mods (Enc b'). bitsVal m Out = symValue c (modelEnv b' m) R)"
proof -
  note s = blast_steps [OF assms]
  have i: "blaster_inv c b'" "good (Enc b) (Enc b')" using s(1) by (simp_all add: blast_step_def)
  then show ?thesis
    using s(2,3) blaster_invD(5) [OF i(1) _ modelEnv_agrees [OF i(1)] s(2)] bitsOf_ok(1) [OF i(1) s(2)] by simp
qed

text \<open>
  C10.  Completeness of bit blasting: any valuation that agrees with a model on the variables encoded so
  far is realised by a model of the extended clauses, and there the literals of the expression
  are worth its value under the valuation.  From a new blaster every valuation is realised.\<close>

theorem blast_complete:
  assumes "blaster_inv c b" "ctx_ok c" "blast c R b = ((True, Out), b')" "\<not> enc_full (Enc b')"
    "enc_total (Enc b)" "m \<in> mods (Enc b)" "env_agrees c b m \<rho>"
  shows "\<exists>m' \<in> mods (Enc b'). (\<forall>v. unat v < nv (Enc b) \<longrightarrow> m' v = m v) \<and> env_agrees c b' m' \<rho> \<and>
    bitsVal m' Out = symValue c \<rho> R"
proof -
  note s = blast_steps [OF assms(1-4)]
  have i: "blaster_inv c b'" using s(1) by (simp add: blast_step_def)
  obtain m' where m': "m' \<in> mods (Enc b')" "agree (nv (Enc b)) m m'" "env_agrees c b' m' \<rho>"
    using s(1) assms(5-7) unfolding blast_step_def by blast
  moreover have "bitsVal m' Out = symValue c \<rho> R" using blaster_invD(5) [OF i m'(1,3) s(2)] s(3) by simp
  ultimately show ?thesis by (auto simp: agree_def intro!: bexI [of _ m'])
qed

section \<open>When the blaster succeeds\<close>

text \<open>
  C11.  A well-formed expression is refused only for its width or for the number of gates, and never
  when neither is limited: then blasting it returns its literals.\<close>

theorem blast_returns:
  assumes "blaster_inv c b" "ctx_ok c" "blasterOk b" "isValidRef R" "unat R < numNodes c"
    "blast c R b = ((Done, Out), b')" "\<not> enc_full (Enc b')"
  shows "(Done \<longleftrightarrow> BError b' = NoError) \<and> (\<not> Done \<longrightarrow> BError b' \<in> {WidthTooLarge, TooManyGates}) \<and>
    (BLimits b = unlimitedLimits \<longrightarrow> Done)"
proof -
  obtain D u where e: "encodeReachable c R b = (D, u)" by fastforce
  then have D: "Done = D" "u = b'" using assms(3,6) by (auto simp: blast_def split: if_splits)
  have "refusal b Done b'"
    using encodeReachable_step(3) [OF assms(1,2) e] assms(4,5,7) D by simp
  then show ?thesis using assms(3) by (auto simp: refusal_def blasterOk_def split: if_splits)
qed

section \<open>A concrete expression\<close>

text \<open>Two bits of a variable above the sum one plus one, as a node of four bits.\<close>

definition demo_context :: SymContext where
  "demo_context =
     \<lparr>Nodes = [\<lparr>NOp = SConst, NWidth = 2, NFirstOperand = 0, NNumOperands = 0, NAux = 1\<rparr>,
               \<lparr>NOp = SAdd, NWidth = 2, NFirstOperand = 0, NNumOperands = 2, NAux = 0\<rparr>,
               \<lparr>NOp = SVar, NWidth = 2, NFirstOperand = 2, NNumOperands = 0, NAux = 0\<rparr>,
               \<lparr>NOp = SConcat, NWidth = 4, NFirstOperand = 2, NNumOperands = 2, NAux = 0\<rparr>],
      NodeOperands = [0, 0, 2, 1], WideConsts = []\<rparr>"

lemma demo_nodes:
  "numNodes demo_context = 4" "NOp (node demo_context 0) = SConst" "NOp (node demo_context 1) = SAdd"
  "NOp (node demo_context 2) = SVar" "NOp (node demo_context 3) = SConcat"
  "NWidth (node demo_context 0) = 2" "NWidth (node demo_context 1) = 2" "NWidth (node demo_context 2) = 2"
  "NWidth (node demo_context 3) = 4"
  "operands demo_context 0 = []" "operands demo_context 1 = [0, 0]" "operands demo_context 2 = []"
  "operands demo_context 3 = [2, 1]" "constValue demo_context 0 = 1" "varId demo_context 2 = 0"
  by (simp_all add: demo_context_def numNodes_def node_def operands_def constValue_def varId_def)

lemma demo_ctx_ok: "ctx_ok demo_context"
proof -
  have node: "node_ok demo_context R" if "R \<in> {0, 1, 2, 3}" for R
    using that by (auto simp: node_ok_def symWidth_def demo_nodes)
  have small: "R \<in> {0, 1, 2, 3}" if "unat R < 4" for R :: u32
  proof -
    have "unat R = 0 \<or> unat R = 1 \<or> unat R = 2 \<or> unat R = 3" using that by linarith
    moreover have "R = word_of_nat (unat R)" by simp
    ultimately have "R = word_of_nat 0 \<or> R = word_of_nat 1 \<or> R = word_of_nat 2 \<or> R = word_of_nat 3" by metis
    then show ?thesis by auto
  qed
  have "node_ok demo_context (word_of_nat n)" if "n < 4" for n
    using node small [of "word_of_nat n"] that by (simp add: unat_of_nat take_bit_nat_eq_self)
  moreover have "R = 2" if "unat R < 4" "NOp (node demo_context R) = SVar" for R
    using small [OF that(1)] that(2) by (auto simp: demo_nodes)
  ultimately show ?thesis by (auto simp: ctx_ok_def demo_nodes)
qed

lemma room_freshLit:
  assumes "room (Suc n) e"
  shows "room n (snd (freshLit e))"
  using assms by (auto simp: freshLit_def newVar_def room_def nv_def numVars_def Let_def split: prod.splits if_splits)

lemma room_freshBits: "room (n + k) e \<Longrightarrow> room n (snd (freshBits k e))"
  by (induction k arbitrary: e) (auto simp: case_prod_beta dest!: room_freshLit)

lemma demo_order: "sort (reachLoop demo_context (newBlaster two_inputs unlimitedLimits) [3] {} []) = [0, 1, 2, 3]"
  by (simp add: reachLoop.simps demo_nodes isEncoded_def newBlaster_def Let_def word_le_nat_alt)

lemma demo_length: "length (reachLoop demo_context (newBlaster two_inputs unlimitedLimits) [3] {} []) < 1024"
  using arg_cong [OF demo_order, of length] by simp

lemma demo_sum: "foldBits addOperand [trueLit e, falseLit e] [[trueLit e, falseLit e]] e = ([falseLit e, trueLit e], e)"
  by (simp add: addOperand_def addBits_def repeatedPair_def fold_gates)

lemma demo_circuits:
  "nodeCircuit demo_context 0 [] e = Some ([trueLit e, falseLit e], e)"
  "nodeCircuit demo_context 1 [[trueLit e, falseLit e], [trueLit e, falseLit e]] e = Some ([falseLit e, trueLit e], e)"
  "nodeCircuit demo_context 2 [] e = Some (freshBits 2 e)"
  "nodeCircuit demo_context 3 [[L, K], [M, N]] e = Some ([M, N, L, K], e)"
proof -
  have u: "[0..<2] = [0, Suc 0]" by (simp add: upt_rec)
  show "nodeCircuit demo_context 0 [] e = Some ([trueLit e, falseLit e], e)"
    by (simp add: nodeCircuit_def Let_def demo_nodes u bit_Suc bit_0)
qed (simp_all add: nodeCircuit_def Let_def demo_nodes demo_sum del: foldBits.simps)

lemma demo_blast:
  assumes "freshBits 2 two_inputs = ([L, K], e)"
  shows "\<exists>b'. blast demo_context 3 (newBlaster two_inputs unlimitedLimits) =
    ((True, [falseLit two_inputs, trueLit two_inputs, L, K]), b') \<and> Enc b' = e \<and> variableBits b' 0 = [L, K]"
proof -
  let ?T = "trueLit two_inputs" and ?F = "falseLit two_inputs"
  let ?b0 = "newBlaster two_inputs unlimitedLimits"
  let ?b1 = "?b0\<lparr>BitPool := [?T, ?F], Encoded := [0 \<mapsto> \<lparr>SFirst = 0, SWidth = 2\<rparr>]\<rparr>"
  let ?b2 = "?b0\<lparr>BitPool := [?T, ?F, ?F, ?T], Encoded := [0 \<mapsto> \<lparr>SFirst = 0, SWidth = 2\<rparr>, 1 \<mapsto> \<lparr>SFirst = 2, SWidth = 2\<rparr>]\<rparr>"
  let ?b3 = "?b0\<lparr>Enc := e, BitPool := [?T, ?F, ?F, ?T, L, K],
    Encoded := [0 \<mapsto> \<lparr>SFirst = 0, SWidth = 2\<rparr>, 1 \<mapsto> \<lparr>SFirst = 2, SWidth = 2\<rparr>, 2 \<mapsto> \<lparr>SFirst = 4, SWidth = 2\<rparr>],
    VarSlices := [0 \<mapsto> \<lparr>SFirst = 4, SWidth = 2\<rparr>], EncodedVars := [0]\<rparr>"
  let ?b4 = "?b3\<lparr>BitPool := [?T, ?F, ?F, ?T, L, K, ?F, ?T, L, K],
    Encoded := [0 \<mapsto> \<lparr>SFirst = 0, SWidth = 2\<rparr>, 1 \<mapsto> \<lparr>SFirst = 2, SWidth = 2\<rparr>, 2 \<mapsto> \<lparr>SFirst = 4, SWidth = 2\<rparr>,
      3 \<mapsto> \<lparr>SFirst = 6, SWidth = 4\<rparr>]\<rparr>"
  have 1: "encodeNode demo_context 0 ?b0 = (True, ?b1)"
    by (simp add: encodeNode_def Let_def demo_nodes demo_circuits newBlaster_def unlimitedLimits_def storeBits_def)
  have 2: "encodeNode demo_context 1 ?b1 = (True, ?b2)"
    by (simp add: encodeNode_def Let_def demo_nodes bitsOf_def sliceBits_def demo_circuits newBlaster_def unlimitedLimits_def storeBits_def; simp add: numeral_eq_Suc)
  have 3: "encodeNode demo_context 2 ?b2 = (True, ?b3)"
    by (simp add: encodeNode_def Let_def demo_nodes demo_circuits assms newBlaster_def unlimitedLimits_def storeBits_def; simp add: numeral_eq_Suc)
  have 4: "encodeNode demo_context 3 ?b3 = (True, ?b4)"
    by (simp add: encodeNode_def Let_def demo_nodes bitsOf_def sliceBits_def demo_circuits newBlaster_def unlimitedLimits_def storeBits_def; simp add: numeral_eq_Suc)
  have "withinGateBudget ?b1" "withinGateBudget ?b2" "withinGateBudget ?b3" "withinGateBudget ?b4"
    by (simp_all add: withinGateBudget_def newBlaster_def unlimitedLimits_def)
  then have "encodeAll demo_context [0, 1, 2, 3] ?b0 = (True, ?b4)" using 1 2 3 4 by simp
  then have "blast demo_context 3 ?b0 = ((True, bitsOf ?b4 3), ?b4)"
    using demo_order demo_length
    by (simp add: blast_def blasterOk_def newBlaster_def encodeReachable_def isValidRef_def demo_nodes Let_def
        kBitBlasterEncodeReachableOrderSizeLimit_def)
  moreover have "bitsOf ?b4 3 = [?F, ?T, L, K]" "variableBits ?b4 0 = [L, K]"
    by (simp_all add: bitsOf_def sliceBits_def variableBits_def newBlaster_def)
  ultimately show ?thesis by simp
qed

lemma demo_encoded:
  obtains L K e b' where "freshBits 2 two_inputs = ([L, K], e)" "Enc b' = e" "variableBits b' 0 = [L, K]" "\<not> enc_full e"
    "blast demo_context 3 (newBlaster two_inputs unlimitedLimits) = ((True, [falseLit two_inputs, trueLit two_inputs, L, K]), b')"
proof -
  obtain Bits e where f: "freshBits 2 two_inputs = (Bits, e)" by fastforce
  moreover have "length Bits = 2" using length_freshBits [of 2 two_inputs] f by simp
  ultimately obtain L K where g: "freshBits 2 two_inputs = ([L, K], e)" by (auto simp: length_Suc_conv numeral_2_eq_2)
  have "room (0 + 2) two_inputs" by (rule two_inputs_room) simp
  from room_not_full [OF room_freshBits [OF this]] g have "\<not> enc_full e" by simp
  with demo_blast [OF g] g that show thesis by metis
qed

lemma demo_value: "symValue demo_context \<rho> 3 = 2 + 4 * (\<rho> 0 mod 4)"
proof -
  have "symValue demo_context \<rho> R = nodeValue demo_context \<rho> (symValue demo_context \<rho>) R" if "unat R < 4" for R
    by (rule symValue_eq [OF demo_ctx_ok]) (use that in \<open>simp add: demo_nodes\<close>)
  from this [of 0] this [of 1] this [of 2] this [of 3] show ?thesis
    by (simp add: nodeValue_def Let_def demo_nodes symWidth_def)
qed

abbreviation demo_run :: "(bool \<times> SatLit list) \<times> BitBlaster" where
  "demo_run \<equiv> blast demo_context 3 (newBlaster two_inputs unlimitedLimits)"

lemma demo_run_split: obtains Out b' where "demo_run = ((True, Out), b')" "\<not> enc_full (Enc b')"
  using demo_encoded by metis

lemma demo_start: "blaster_inv demo_context (newBlaster two_inputs unlimitedLimits)"
  by (rule newBlaster_inv [OF two_inputs_ok(1)])

theorem blast_sound_witness:
  "mods (Enc (snd demo_run)) \<subseteq> {m. bitsVal m (snd (fst demo_run)) = 2 + 4 * (modelEnv (snd demo_run) m 0 mod 4)}"
proof -
  obtain Out b' where d: "demo_run = ((True, Out), b')" "\<not> enc_full (Enc b')" by (rule demo_run_split)
  from blast_sound [OF demo_start demo_ctx_ok this] d show ?thesis by (auto simp: demo_value)
qed

theorem blast_complete_witness:
  "\<exists>m. m \<in> mods (Enc (snd demo_run)) \<and> bitsVal m (snd (fst demo_run)) = 14"
proof -
  obtain Out b' where d: "demo_run = ((True, Out), b')" "\<not> enc_full (Enc b')" by (rule demo_run_split)
  obtain m where m: "m \<in> mods two_inputs" using two_inputs_mods by blast
  have "Enc (newBlaster two_inputs unlimitedLimits) = two_inputs" by (simp add: newBlaster_def)
  moreover have "env_agrees demo_context (newBlaster two_inputs unlimitedLimits) m (\<lambda>_. 3)"
    by (simp add: env_agrees_def isEncoded_def newBlaster_def)
  ultimately show ?thesis
    using blast_complete [OF demo_start demo_ctx_ok d, of m "\<lambda>_. 3"] two_inputs_ok(2) m d
    by (auto simp: demo_value)
qed

theorem blast_returns_witness: "fst (fst demo_run)"
proof -
  obtain Out b' where d: "demo_run = ((True, Out), b')" "\<not> enc_full (Enc b')" by (rule demo_run_split)
  from blast_returns [OF demo_start demo_ctx_ok _ _ _ d] d show ?thesis
    by (simp add: blasterOk_def newBlaster_def isValidRef_def demo_nodes)
qed

end
