(* ===== verification/Sat_Search.thy ===== *)
theory Sat_Search
  imports Sat_Engine
begin

text \<open>
  The search: the heuristics of \<open>SatHeuristic.cpp\<close>, conflict analysis of \<open>SatAnalyze.cpp\<close> and the
  search loop, the restarts and the entry point of \<open>SatSolver.cpp\<close>.  The two loops that need a proof
  to end, \<open>searchLoop\<close> and \<open>restartLoop\<close>, are partial functions: a loop that did not end would be
  \<open>None\<close>.
\<close>

section \<open>Heuristics\<close>

definition kVarActivityScale :: rat where
  "kVarActivityScale = toDouble (1 / 10 ^ 100)"

definition kClauseActivityScale :: rat where
  "kClauseActivityScale = toFloat (1 / 10 ^ 20)"

definition kSatHeuristicVarActivityCeiling :: rat where
  "kSatHeuristicVarActivityCeiling = toDouble (10 ^ 100)"

definition kSatHeuristicClauseActivityCeiling :: rat where
  "kSatHeuristicClauseActivityCeiling = toFloat (10 ^ 20)"

definition kSatSolverSatEngineSolveMaxLearntMaxArgument2 :: rat where
  "kSatSolverSatEngineSolveMaxLearntMaxArgument2 = 64"

function restartRun :: "u64 \<Rightarrow> u64 \<Rightarrow> nat \<Rightarrow> u64 \<times> nat" where
  "restartRun I Size Exponent =
     (if Size < I + 1 \<and> Exponent < 62 then restartRun I (2 * Size + 1) (Exponent + 1) else (Size, Exponent))"
  by pat_completeness auto

termination
  by (relation "measure (\<lambda>(_, _, Exponent). 62 - Exponent)") auto

declare restartRun.simps [simp del]

fun restartDescend :: "u64 \<Rightarrow> u64 \<Rightarrow> nat \<Rightarrow> nat" where
  "restartDescend I Size 0 = 0"
| "restartDescend I Size (Suc Exponent) =
     (if Size - 1 \<noteq> I then
        let Size = (Size - 1) div 2 in restartDescend (I mod Size) Size Exponent
      else Suc Exponent)"

definition restartTerm :: "u64 \<Rightarrow> u64" where
  "restartTerm I = (case restartRun I 1 0 of (Size, Exponent) \<Rightarrow> push_bit (restartDescend I Size Exponent) 1)"

definition bumpVarActivity :: "SatVar \<Rightarrow> SatEngine \<Rightarrow> SatEngine" where
  "bumpVarActivity V s =
     (let s = s\<lparr>Activity := (Activity s)[unat V := toDouble (Activity s ! unat V + VarInc s)]\<rparr>;
          s = (if Activity s ! unat V > kSatHeuristicVarActivityCeiling
               then s\<lparr>Activity := map (\<lambda>A. toDouble (A * kVarActivityScale)) (Activity s),
                      VarInc := toDouble (VarInc s * kVarActivityScale)\<rparr>
               else s)
      in s\<lparr>Order := increased (Activity s) V (Order s)\<rparr>)"

definition decayVarActivity :: "SatEngine \<Rightarrow> SatEngine" where
  "decayVarActivity s = s\<lparr>VarInc := toDouble (VarInc s / VarDecay (Opts s))\<rparr>"

definition decayClauseActivity :: "SatEngine \<Rightarrow> SatEngine" where
  "decayClauseActivity s = s\<lparr>ClauseInc := toDouble (ClauseInc s / ClauseDecay (Opts s))\<rparr>"

definition setActivity :: "rat \<Rightarrow> clause \<Rightarrow> clause" where
  "setActivity A C = C\<lparr>CActivity := A\<rparr>"

definition scaleClause :: "ClauseRef \<Rightarrow> SatEngine \<Rightarrow> SatEngine" where
  "scaleClause Other s =
     (let D = getClause s Other
      in setClause Other (setActivity (toFloat (CActivity D * kClauseActivityScale)) D) s)"

definition bumpClauseActivity :: "ClauseRef \<Rightarrow> SatEngine \<Rightarrow> SatEngine" where
  "bumpClauseActivity Ref s =
     (let C = getClause s Ref;
          Updated = toFloat (CActivity C + toFloat (ClauseInc s));
          s = setClause Ref (setActivity Updated C) s
      in if Updated \<le> kSatHeuristicClauseActivityCeiling then s
         else (fold scaleClause (Learnt s) s)\<lparr>ClauseInc := toDouble (ClauseInc s * kClauseActivityScale)\<rparr>)"

text \<open>The queue shrinks by one entry each round, so its size bounds the rounds.\<close>

fun pickLoop :: "nat \<Rightarrow> SatEngine \<Rightarrow> SatLit \<times> SatEngine" where
  "pickLoop 0 s = (noLit, s)"
| "pickLoop (Suc Fuel) s =
     (if queueEmpty (Order s) then (noLit, s)
      else
        case removeMax (Activity s) (Order s) of (V, q) \<Rightarrow>
          let s = s\<lparr>Order := q\<rparr> in
          if Value s ! unat V \<noteq> 0 \<or> \<not> Decidable s ! unat V then pickLoop Fuel s
          else
            let Positive = (if PhaseSaving (Opts s) then Phase s ! unat V else DefaultPhase (Opts s))
            in (mk V (\<not> Positive), s))"

definition pickBranchLit :: "SatEngine \<Rightarrow> SatLit \<times> SatEngine" where
  "pickBranchLit s = pickLoop (queueSize (Order s)) s"

text \<open>A stable sort by a strict order: equal elements keep their places.\<close>

fun insertBy :: "('a \<Rightarrow> 'a \<Rightarrow> bool) \<Rightarrow> 'a \<Rightarrow> 'a list \<Rightarrow> 'a list" where
  "insertBy lt x [] = [x]"
| "insertBy lt x (y # ys) = (if lt y x then y # insertBy lt x ys else x # y # ys)"

definition stableSort :: "('a \<Rightarrow> 'a \<Rightarrow> bool) \<Rightarrow> 'a list \<Rightarrow> 'a list" where
  "stableSort lt xs = foldr (insertBy lt) xs []"

definition worseClause :: "SatEngine \<Rightarrow> ClauseRef \<Rightarrow> ClauseRef \<Rightarrow> bool" where
  "worseClause s A B =
     (let CA = getClause s A; CB = getClause s B in
      if CSpan CA \<noteq> CSpan CB then CSpan CA > CSpan CB
      else if CActivity CA \<noteq> CActivity CB then CActivity CA < CActivity CB
      else A > B)"

definition discardClause :: "ClauseRef \<Rightarrow> SatEngine \<Rightarrow> SatEngine" where
  "discardClause Ref s =
     (let s = detachClause Ref s;
          C = getClause s Ref;
          s = setClause Ref (markDeleted C) s
      in s\<lparr>WastedWords := WastedWords s + clauseWords C,
           Stats := (Stats s)\<lparr>DeletedClauses := DeletedClauses (Stats s) + 1\<rparr>\<rparr>)"

fun reduceLoop :: "nat \<Rightarrow> nat \<Rightarrow> ClauseRef list \<Rightarrow> ClauseRef list \<Rightarrow> SatEngine \<Rightarrow> ClauseRef list \<times> SatEngine" where
  "reduceLoop I Half Kept [] s = (Kept, s)"
| "reduceLoop I Half Kept (Ref # Refs) s =
     (let C = getClause s Ref in
      if \<not> (I < Half \<and> clauseSize C > 2 \<and> CSpan C > 2 \<and> \<not> isLocked Ref s)
      then reduceLoop (Suc I) Half (Kept @ [Ref]) Refs s
      else reduceLoop (Suc I) Half Kept Refs (discardClause Ref s))"

definition reduceDatabase :: "SatEngine \<Rightarrow> SatEngine" where
  "reduceDatabase s =
     (let Refs = stableSort (worseClause s) (Learnt s) in
      case reduceLoop 0 (length Refs div 2) [] Refs s of (Kept, s) \<Rightarrow> s\<lparr>Learnt := Kept\<rparr>)"

section \<open>Conflict analysis\<close>

definition levelBit :: "nat \<Rightarrow> u32" where
  "levelBit Lvl = push_bit (unat ((word_of_nat Lvl :: u32) AND 31)) 1"

record Analysis =
  PathCount :: nat
  LearntLits :: "SatLit list"
  ToClear :: "SatVar list"

fun analyzeLits :: "SatLit list \<Rightarrow> Analysis \<Rightarrow> SatEngine \<Rightarrow> Analysis \<times> SatEngine" where
  "analyzeLits [] a s = (a, s)"
| "analyzeLits (Q # Qs) a s =
     (let V = var Q in
      if Seen s ! unat V \<or> Level s ! unat V = 0 then analyzeLits Qs a s
      else
        let s = bumpVarActivity V (s\<lparr>Seen := (Seen s)[unat V := True]\<rparr>);
            a = a\<lparr>ToClear := ToClear a @ [V]\<rparr>;
            a = (if Level s ! unat V \<ge> decisionLevel s then a\<lparr>PathCount := PathCount a + 1\<rparr>
                 else a\<lparr>LearntLits := LearntLits a @ [Q]\<rparr>)
        in analyzeLits Qs a s)"

definition analyzeClause :: "ClauseRef \<Rightarrow> nat \<Rightarrow> Analysis \<Rightarrow> SatEngine \<Rightarrow> Analysis \<times> SatEngine" where
  "analyzeClause Current From a s =
     (let s = (if CLearned (getClause s Current) then bumpClauseActivity Current s else s)
      in analyzeLits (drop From (CLits (getClause s Current))) a s)"

text \<open>
  The walk back along the trail, \<open>Index\<close> entries of which are still ahead.  An unmarked entry is
  passed over; a marked one is the next pivot, and either ends the walk or is replaced by its reason.
\<close>

fun analyzeWalk :: "nat \<Rightarrow> Analysis \<Rightarrow> SatEngine \<Rightarrow> SatLit \<times> Analysis \<times> SatEngine" where
  "analyzeWalk 0 a s = (noLit, a, s)"
| "analyzeWalk (Suc Index) a s =
     (let Pivot = Trail s ! Index; V = unat (var Pivot) in
      if \<not> Seen s ! V then analyzeWalk Index a s
      else
        let Current = Reason s ! V;
            s = s\<lparr>Seen := (Seen s)[V := False]\<rparr>;
            a = a\<lparr>PathCount := PathCount a - 1\<rparr>
        in if PathCount a > 0
           then case analyzeClause Current 1 a s of (a, s) \<Rightarrow> analyzeWalk Index a s
           else (Pivot, a, s))"

text \<open>The literals of one reason: marked ones are covered, a way out of the clause ends the check.\<close>

fun redundantLits :: "u32 \<Rightarrow> SatLit list \<Rightarrow> bool list \<Rightarrow> SatVar list \<Rightarrow> SatLit list \<Rightarrow> SatEngine \<Rightarrow>
    (bool list \<times> SatVar list \<times> SatLit list) option" where
  "redundantLits LevelMask [] Marks Clear Stack s = Some (Marks, Clear, Stack)"
| "redundantLits LevelMask (M # Ms) Marks Clear Stack s =
     (let V = var M in
      if Marks ! unat V \<or> Level s ! unat V = 0 then redundantLits LevelMask Ms Marks Clear Stack s
      else if Reason s ! unat V = kNoClause \<or> levelBit (Level s ! unat V) AND LevelMask = 0 then None
      else redundantLits LevelMask Ms (Marks[unat V := True]) (Clear @ [V]) (Stack @ [M]) s)"

text \<open>Every literal put on the stack marks its variable, so the number of variables bounds the rounds.\<close>

fun redundantLoop :: "nat \<Rightarrow> u32 \<Rightarrow> bool list \<Rightarrow> SatVar list \<Rightarrow> SatLit list \<Rightarrow> SatEngine \<Rightarrow>
    (bool list \<times> SatVar list) option" where
  "redundantLoop 0 LevelMask Marks Clear Stack s = (if Stack = [] then Some (Marks, Clear) else None)"
| "redundantLoop (Suc Fuel) LevelMask Marks Clear Stack s =
     (if Stack = [] then Some (Marks, Clear)
      else
        let Q = last Stack; C = getClause s (Reason s ! unat (var Q)) in
        case redundantLits LevelMask (drop 1 (CLits C)) Marks Clear (butlast Stack) s of
          None \<Rightarrow> None
        | Some (Marks, Clear, Stack) \<Rightarrow> redundantLoop Fuel LevelMask Marks Clear Stack s)"

text \<open>A failed check takes its marks back, which leaves the marks as they were.\<close>

definition isRedundant :: "SatLit \<Rightarrow> u32 \<Rightarrow> SatVar list \<Rightarrow> SatEngine \<Rightarrow> bool \<times> SatVar list \<times> SatEngine" where
  "isRedundant L LevelMask Clear s =
     (case redundantLoop (numVars s + 1) LevelMask (Seen s) Clear [L] s of
        None \<Rightarrow> (False, Clear, s)
      | Some (Marks, Clear) \<Rightarrow> (True, Clear, s\<lparr>Seen := Marks\<rparr>))"

fun minimizeLoop :: "u32 \<Rightarrow> SatLit list \<Rightarrow> SatLit list \<Rightarrow> SatVar list \<Rightarrow> SatEngine \<Rightarrow> SatLit list \<times> SatVar list \<times> SatEngine"
where
  "minimizeLoop LevelMask Kept [] Clear s = (Kept, Clear, s)"
| "minimizeLoop LevelMask Kept (L # Ls) Clear s =
     (if Reason s ! unat (var L) = kNoClause then minimizeLoop LevelMask (Kept @ [L]) Ls Clear s
      else
        case isRedundant L LevelMask Clear s of (Redundant, Clear, s) \<Rightarrow>
          minimizeLoop LevelMask (if Redundant then Kept else Kept @ [L]) Ls Clear s)"

definition minimize :: "SatLit list \<Rightarrow> SatVar list \<Rightarrow> SatEngine \<Rightarrow> SatLit list \<times> SatVar list \<times> SatEngine" where
  "minimize Lits Clear s =
     (if MinimizeLearned (Opts s) \<and> length Lits > 1 then
        let LevelMask = fold (\<lambda>L Mask. Mask OR levelBit (Level s ! unat (var L))) (drop 1 Lits) 0 in
        case minimizeLoop LevelMask (take 1 Lits) (drop 1 Lits) Clear s of (Kept, Clear, s) \<Rightarrow>
          (Kept, Clear, s\<lparr>Stats := (Stats s)\<lparr>MinimizedLiterals :=
             MinimizedLiterals (Stats s) + word_of_nat (length Lits - length Kept)\<rparr>\<rparr>)
      else (Lits, Clear, s))"

text \<open>The slot of the literal assigned at the highest level, the first one of them.\<close>

fun latestSlot :: "SatEngine \<Rightarrow> SatLit list \<Rightarrow> nat \<Rightarrow> SatLit list \<Rightarrow> nat \<Rightarrow> nat" where
  "latestSlot s Lits I [] Latest = Latest"
| "latestSlot s Lits I (L # Ls) Latest =
     latestSlot s Lits (Suc I) Ls
       (if Level s ! unat (var L) > Level s ! unat (var (Lits ! Latest)) then I else Latest)"

definition placeLatest :: "SatEngine \<Rightarrow> SatLit list \<Rightarrow> SatLit list \<times> nat" where
  "placeLatest s Lits =
     (if length Lits = 1 then (Lits, 0)
      else
        let Latest = latestSlot s Lits 2 (drop 2 Lits) 1;
            Lits = Lits[1 := Lits ! Latest, Latest := Lits ! 1]
        in (Lits, Level s ! unat (var (Lits ! 1))))"

definition levelSpan :: "SatEngine \<Rightarrow> SatLit list \<Rightarrow> u32" where
  "levelSpan s Lits = word_of_nat (length (remdups_adj (sort (map (\<lambda>L. Level s ! unat (var L)) Lits))))"

definition clearMarks :: "SatVar list \<Rightarrow> SatEngine \<Rightarrow> SatEngine" where
  "clearMarks Vs s = s\<lparr>Seen := fold (\<lambda>V Marks. Marks[unat V := False]) Vs (Seen s)\<rparr>"

definition analyze :: "ClauseRef \<Rightarrow> SatEngine \<Rightarrow> SatLit list \<times> nat \<times> u32 \<times> SatEngine" where
  "analyze Conflict s =
     (case analyzeClause Conflict 0 \<lparr>PathCount = 0, LearntLits = [noLit], ToClear = []\<rparr> s of (a, s) \<Rightarrow>
      case analyzeWalk (length (Trail s)) a s of (Pivot, a, s) \<Rightarrow>
      case minimize ((LearntLits a)[0 := negl Pivot]) (ToClear a) s of (Lits, Clear, s) \<Rightarrow>
      case placeLatest s Lits of (Lits, BacktrackLevel) \<Rightarrow>
        (Lits, BacktrackLevel, levelSpan s Lits, clearMarks Clear s))"

text \<open>The walk that collects the assumptions behind a literal that is already false.\<close>

fun finalWalk :: "nat \<Rightarrow> nat \<Rightarrow> SatLit list \<Rightarrow> SatEngine \<Rightarrow> SatLit list \<times> SatEngine" where
  "finalWalk Bound 0 Out s = (Out, s)"
| "finalWalk Bound (Suc I) Out s =
     (if I < Bound then (Out, s)
      else
        let V = unat (var (Trail s ! I)) in
        if \<not> Seen s ! V then finalWalk Bound I Out s
        else
          let s = s\<lparr>Seen := (Seen s)[V := False]\<rparr>; R = Reason s ! V in
          if R = kNoClause
          then finalWalk Bound I (if Level s ! V > 0 then Out @ [Trail s ! I] else Out) s
          else
            finalWalk Bound I Out
              (s\<lparr>Seen := fold (\<lambda>L Marks. if Level s ! unat (var L) > 0 then Marks[unat (var L) := True] else Marks)
                   (drop 1 (CLits (getClause s R))) (Seen s)\<rparr>))"

definition analyzeFinal :: "SatLit \<Rightarrow> SatEngine \<Rightarrow> SatLit list \<times> SatEngine" where
  "analyzeFinal Failed s =
     (if decisionLevel s = 0 then ([Failed], s)
      else
        let s = s\<lparr>Seen := (Seen s)[unat (var Failed) := True]\<rparr> in
        case finalWalk (TrailLim s ! 0) (length (Trail s)) [Failed] s of (Out, s) \<Rightarrow>
          (Out, s\<lparr>Seen := (Seen s)[unat (var Failed) := False]\<rparr>))"

section \<open>Searching\<close>

text \<open>A conflict is turned into a clause, which asserts its first literal once the search is back.\<close>

definition learnFrom :: "ClauseRef \<Rightarrow> SatEngine \<Rightarrow> bool \<times> SatEngine" where
  "learnFrom Conflict s =
     (case analyze Conflict s of (Lits, BacktrackLevel, Span, s) \<Rightarrow>
        let s = cancelUntil BacktrackLevel s in
        if length Lits = 1 then (True, enqueue (Lits ! 0) kNoClause s)
        else
          case allocClause Lits True s of (Ref, s) \<Rightarrow>
            if Ref = kNoClause then (False, s\<lparr>OutOfSpace := True\<rparr>)
            else
              let s = setClause Ref (setLevelSpan Span (getClause s Ref)) s;
                  s = s\<lparr>Learnt := Learnt s @ [Ref]\<rparr>;
                  s = attachClause Ref s;
                  s = bumpClauseActivity Ref s;
                  s = enqueue (Lits ! 0) Ref s
              in (True, s\<lparr>Stats := (Stats s)\<lparr>LearnedClauses := LearnedClauses (Stats s) + 1\<rparr>\<rparr>))"

text \<open>The next assumption to take: a failed one on the left, one to decide on the right, none as no literal.\<close>

function assumeNext :: "SatLit list \<Rightarrow> SatEngine \<Rightarrow> (SatLit + SatLit) \<times> SatEngine" where
  "assumeNext Assumptions s =
     (if decisionLevel s < length Assumptions then
        let A = Assumptions ! decisionLevel s; V = litValue s A in
        if V = 1 then assumeNext Assumptions (newDecisionLevel s)
        else if V = - 1 then (Inl A, s)
        else (Inr A, s)
      else (Inr noLit, s))"
  by pat_completeness auto

termination
  by (relation "measure (\<lambda>(Assumptions, s). length Assumptions - decisionLevel s)")
    (auto simp: decisionLevel_def newDecisionLevel_def)

declare assumeNext.simps [simp del]

definition reduceIfFull :: "SatEngine \<Rightarrow> SatEngine" where
  "reduceIfFull s =
     (if toDouble (toDouble (of_nat (length (Learnt s))) - toDouble (of_nat (length (Trail s)))) \<ge> MaxLearnt s
      then reduceDatabase s else s)"

text \<open>One round of the search: an answer on the left, the conflicts so far and the next state on the right.\<close>

definition searchStep :: "u64 \<Rightarrow> SatLit list \<Rightarrow> u64 \<Rightarrow> SatEngine \<Rightarrow> (SatResult \<times> SatEngine) + (u64 \<times> SatEngine)" where
  "searchStep ConflictBudget Assumptions ConflictsHere s =
     (case propagate s of (Conflict, s) \<Rightarrow>
        if Conflict \<noteq> kNoClause then
          let s = s\<lparr>Stats := (Stats s)\<lparr>Conflicts := Conflicts (Stats s) + 1\<rparr>\<rparr> in
          if decisionLevel s = 0 then Inl (Unsat, s\<lparr>Falsified := True\<rparr>)
          else
            case learnFrom Conflict s of (Stored, s) \<Rightarrow>
              if \<not> Stored then Inl (Unknown, s)
              else Inr (ConflictsHere + 1, decayClauseActivity (decayVarActivity s))
        else if outOfBudget s then Inl (Unknown, s)
        else if ConflictBudget \<noteq> 0 \<and> ConflictsHere \<ge> ConflictBudget then Inl (Unknown, cancelUntil 0 s)
        else
          case assumeNext Assumptions (reduceIfFull s) of
            (Inl A, s) \<Rightarrow>
              (case analyzeFinal A s of (Out, s) \<Rightarrow> Inl (Unsat, s\<lparr>FailedAssumptions := Out\<rparr>))
          | (Inr Next, s) \<Rightarrow>
              if isValid Next
              then Inr (ConflictsHere, enqueue Next kNoClause (newDecisionLevel s))
              else
                case pickBranchLit s of (Next, s) \<Rightarrow>
                  if \<not> isValid Next then Inl (Sat, captureModel s)
                  else
                    let s = s\<lparr>Stats := (Stats s)\<lparr>Decisions := Decisions (Stats s) + 1\<rparr>\<rparr>
                    in Inr (ConflictsHere, enqueue Next kNoClause (newDecisionLevel s)))"

partial_function (option) searchLoop ::
    "u64 \<Rightarrow> SatLit list \<Rightarrow> u64 \<Rightarrow> SatEngine \<Rightarrow> (SatResult \<times> SatEngine) option" where
  "searchLoop ConflictBudget Assumptions ConflictsHere s =
     (case searchStep ConflictBudget Assumptions ConflictsHere s of
        Inl Answer \<Rightarrow> Some Answer
      | Inr Next \<Rightarrow> searchLoop ConflictBudget Assumptions (fst Next) (snd Next))"

definition search :: "u64 \<Rightarrow> SatLit list \<Rightarrow> SatEngine \<Rightarrow> (SatResult \<times> SatEngine) option" where
  "search ConflictBudget Assumptions s = searchLoop ConflictBudget Assumptions 0 s"

partial_function (option) restartLoop :: "SatLit list \<Rightarrow> u64 \<Rightarrow> SatEngine \<Rightarrow> (SatResult \<times> SatEngine) option" where
  "restartLoop Assumptions Restart s =
     (if outOfBudget s \<or> OutOfSpace s then Some (Unknown, s)
      else
        Option.bind
          (search (if RestartInterval (Opts s) = 0 then 0 else RestartInterval (Opts s) * restartTerm Restart)
             Assumptions s)
          (\<lambda>Found.
             if fst Found = Unknown
             then restartLoop Assumptions (Restart + 1)
                    ((snd Found)\<lparr>Stats := (Stats (snd Found))\<lparr>Restarts := Restarts (Stats (snd Found)) + 1\<rparr>,
                       MaxLearnt := toDouble (MaxLearnt (snd Found) * max (LearnedGrowth (Opts (snd Found))) 1)\<rparr>)
             else Some Found))"

definition startSolve :: "SatEngine \<Rightarrow> SatEngine" where
  "startSolve s =
     (let s = cancelUntil 0 s in
      s\<lparr>ConflictBudgetAt := budgetEndpoint (Conflicts (Stats s)) (MaxConflicts (Opts s)),
        PropagationBudgetAt := budgetEndpoint (Propagations (Stats s)) (MaxPropagations (Opts s)),
        WatchVisitBudgetAt := budgetEndpoint (WatchVisits (Stats s)) (MaxWatchVisits (Opts s)),
        MaxLearnt := max (toDouble (toDouble (of_nat (length (Clauses s))) * max (LearnedFraction (Opts s)) 0))
                          kSatSolverSatEngineSolveMaxLearntMaxArgument2\<rparr>)"

definition endSolve :: "SatEngine \<Rightarrow> SatEngine" where
  "endSolve s = (cancelUntil 0 s)\<lparr>ConflictBudgetAt := 0, PropagationBudgetAt := 0, WatchVisitBudgetAt := 0\<rparr>"

definition solve :: "SatLit list \<Rightarrow> SatEngine \<Rightarrow> (SatResult \<times> SatEngine) option" where
  "solve Assumptions s =
     (let s = s\<lparr>SearchAttempted := True, Model := [], FailedAssumptions := []\<rparr> in
      if \<exists>A \<in> set Assumptions. \<not> isValid A \<or> unat (var A) \<ge> numVars s then Some (Invalid, s)
      else if Falsified s then Some (Unsat, s)
      else if OutOfSpace s then Some (Unknown, s)
      else map_option (\<lambda>(R, s). (R, endSolve s)) (restartLoop Assumptions 0 (startSolve s)))"

end
