(* ===== verification/Sat_Levels.thy ===== *)
theory Sat_Levels
  imports Sat_Formula
begin

text \<open>
  Levels and reasons.  Every entry of the trail is at the level its place says, and was forced by a
  clause whose other literals were false before it unless it is a choice or a root fact.  Propagation
  keeps this, and keeps what was settled on any earlier part of the trail.
\<close>

section \<open>Levels and reasons\<close>

text \<open>The level of a place on the trail is the number of levels that start at or before it.\<close>

definition levelAt :: "nat list \<Rightarrow> nat \<Rightarrow> nat" where
  "levelAt TL i = length (filter (\<lambda>b. b \<le> i) TL)"

definition levels_ok :: "SatEngine \<Rightarrow> bool" where
  "levels_ok s \<longleftrightarrow> sorted (TrailLim s) \<and> (\<forall>b \<in> set (TrailLim s). b \<le> length (Trail s)) \<and>
     length (Level s) = numVars s \<and>
     (\<forall>i < length (Trail s). Level s ! unat (var (Trail s ! i)) = levelAt (TrailLim s) i)"

definition reasons_ok :: "SatEngine \<Rightarrow> bool" where
  "reasons_ok s \<longleftrightarrow> length (Reason s) = numVars s \<and>
     (\<forall>i < length (Trail s).
        let r = Reason s ! unat (var (Trail s ! i)) in
        if r = kNoClause then levelAt (TrailLim s) i = 0 \<or> i \<in> set (TrailLim s)
        else r \<in> refs s \<and> clits (Arena s) r ! 0 = Trail s ! i \<and>
          (\<forall>L \<in> set (tl (clits (Arena s) r)). negl L \<in> set (take i (Trail s))))"

definition deep_ok :: "SatEngine \<Rightarrow> bool" where
  "deep_ok s \<longleftrightarrow> levels_ok s \<and> reasons_ok s"

text \<open>On an initial part of the trail no watched literal is false unless the clause is true there.\<close>

definition prefix_settled :: "(ClauseRef \<rightharpoonup> clause) \<Rightarrow> ClauseRef set \<Rightarrow> SatLit list \<Rightarrow> bool" where
  "prefix_settled A R T \<longleftrightarrow>
     (\<forall>r \<in> R. \<forall>k < 2. negl (clits A r ! k) \<in> set T \<longrightarrow> (\<exists>L \<in> set (clits A r). L \<in> set T))"

definition deep_frame :: "SatEngine \<Rightarrow> SatEngine \<Rightarrow> bool" where
  "deep_frame s s' \<longleftrightarrow>
     Seen s' = Seen s \<and> Decidable s' = Decidable s \<and> Activity s' = Activity s \<and> Order s' = Order s \<and>
     FailedAssumptions s' = FailedAssumptions s \<and> length (Phase s') = length (Phase s) \<and>
     refs s' = refs s \<and> set (Trail s) \<subseteq> set (Trail s') \<and>
     Conflicts (Stats s') = Conflicts (Stats s) \<and>
     (\<forall>L \<in> set (Trail s). Reason s' ! unat (var L) = Reason s ! unat (var L)) \<and>
     (\<forall>r \<in> refs s. set (clits (Arena s') r) = set (clits (Arena s) r))"

definition deep_step :: "SatEngine \<Rightarrow> SatEngine \<Rightarrow> bool" where
  "deep_step s s' \<longleftrightarrow> (deep_ok s \<longrightarrow> deep_ok s') \<and> deep_frame s s' \<and>
     (\<forall>T. set T \<subseteq> set (Trail s) \<longrightarrow> prefix_settled (Arena s) (refs s) T \<longrightarrow> prefix_settled (Arena s') (refs s') T)"

lemma deep_step_refl [simp]: "deep_step s s"
  by (simp add: deep_step_def deep_frame_def)

lemma deep_frame_trans: "deep_frame s t \<Longrightarrow> deep_frame t u \<Longrightarrow> deep_frame s u"
  by (auto simp: deep_frame_def)

lemma deep_step_trans:
  assumes "deep_step s t" "deep_step t u"
  shows "deep_step s u"
proof -
  have "set (Trail s) \<subseteq> set (Trail t)" using assms(1) by (simp add: deep_step_def deep_frame_def)
  then show ?thesis
    using assms deep_frame_trans [of s t u] unfolding deep_step_def by (meson subset_trans)
qed

lemma levelAt_append: "levelAt (TL @ [b]) i = levelAt TL i + of_bool (b \<le> i)"
  by (simp add: levelAt_def)

lemma levelAt_le: "levelAt TL i \<le> length TL"
  by (simp add: levelAt_def)

lemma levelAt_top: "\<forall>b \<in> set TL. b \<le> i \<Longrightarrow> levelAt TL i = length TL"
  by (simp add: levelAt_def filter_id_conv)

lemma levelAt_mono: "i \<le> j \<Longrightarrow> levelAt TL i \<le> levelAt TL j"
  by (induction TL) (auto simp: levelAt_def)

text \<open>States that differ in fields the invariants do not read.\<close>

lemma deep_step_same:
  assumes "Arena s' = Arena s" "refs s' = refs s" "Trail s' = Trail s" "TrailLim s' = TrailLim s" "Level s' = Level s"
    "Reason s' = Reason s" "numVars s' = numVars s" "Seen s' = Seen s" "Decidable s' = Decidable s" "Activity s' = Activity s"
    "Order s' = Order s" "FailedAssumptions s' = FailedAssumptions s" "Phase s' = Phase s" "Conflicts (Stats s') = Conflicts (Stats s)"
  shows "deep_step s s'"
  using assms by (simp add: deep_step_def deep_frame_def deep_ok_def levels_ok_def reasons_ok_def)

section \<open>Swapping literals of a clause\<close>

lemma prefix_settled_swap_01:
  assumes "prefix_settled A R T" "2 \<le> length (clits A r)"
  shows "prefix_settled (swap_in r 0 1 A) R T"
  unfolding prefix_settled_def
proof (intro ballI allI impI)
  fix x k :: nat
  assume x: "x \<in> R" "k < 2" "negl (clits (swap_in r 0 1 A) x ! k) \<in> set T"
  have l: "0 < length (clits A r)" "1 < length (clits A r)" using assms(2) by linarith+
  have "\<exists>k' < 2. clits (swap_in r 0 1 A) x ! k = clits A x ! k'"
  proof (cases "x = r")
    case True
    with x(2) clits_swap_01 [OF assms(2)] show ?thesis by (cases "k = 0") (auto simp: less_2_cases_iff)
  next
    case False
    with x(2) show ?thesis by (auto simp: clits_swap_in)
  qed
  with x assms(1) show "\<exists>L \<in> set (clits (swap_in r 0 1 A) x). L \<in> set T"
    unfolding prefix_settled_def clits_swap_set [OF l] by metis
qed

lemma prefix_settled_move:
  assumes "prefix_settled A R T" "2 \<le> k" "k < length (clits A r)" "negl (clits A r ! k) \<notin> set T"
  shows "prefix_settled (swap_in r 1 k A) R T"
  unfolding prefix_settled_def
proof (intro ballI allI impI)
  fix x j :: nat
  assume x: "x \<in> R" "j < 2" "negl (clits (swap_in r 1 k A) x ! j) \<in> set T"
  have l: "1 < length (clits A r)" "k < length (clits A r)" using assms by linarith+
  have "clits (swap_in r 1 k A) x ! j = clits A x ! j"
  proof (cases "x = r \<and> j = 1")
    case True
    then have "clits (swap_in r 1 k A) x ! j = clits A r ! k" using l assms(2) by (simp add: clits_swap_in nth_list_update)
    with x(3) assms(4) show ?thesis by simp
  next
    case False
    with x(2) assms(2) show ?thesis by (auto simp: clits_swap_in nth_list_update less_2_cases_iff)
  qed
  with x assms(1) show "\<exists>L \<in> set (clits (swap_in r 1 k A) x). L \<in> set T"
    unfolding prefix_settled_def clits_swap_set [OF l] by metis
qed

lemma swap_frame:
  assumes "i < length (clits (Arena s) r)" "j < length (clits (Arena s) r)"
    "Arena s' = swap_in r i j (Arena s)" "refs s' = refs s" "Trail s' = Trail s" "TrailLim s' = TrailLim s" "Level s' = Level s"
    "Reason s' = Reason s" "numVars s' = numVars s" "Seen s' = Seen s" "Decidable s' = Decidable s" "Activity s' = Activity s"
    "Order s' = Order s" "FailedAssumptions s' = FailedAssumptions s" "Phase s' = Phase s" "Conflicts (Stats s') = Conflicts (Stats s)"
  shows "deep_frame s s'" "levels_ok s \<Longrightarrow> levels_ok s'"
  using assms by (simp_all add: deep_frame_def levels_ok_def)

text \<open>A reason keeps its first literal, whichever other literals change places.\<close>

lemma reasons_ok_swap:
  assumes ok: "reasons_ok s" and l: "2 \<le> length (clits (Arena s) r)" "i < length (clits (Arena s) r)" "j < length (clits (Arena s) r)"
    and z: "0 < i \<and> 0 < j \<or> clits (Arena s) r ! 0 \<notin> set (Trail s)"
    and same: "Arena s' = swap_in r i j (Arena s)" "refs s' = refs s" "Trail s' = Trail s" "TrailLim s' = TrailLim s"
      "Reason s' = Reason s" "numVars s' = numVars s"
  shows "reasons_ok s'"
proof -
  have cl: "clits (Arena s') x ! 0 = clits (Arena s) x ! 0 \<and> set (tl (clits (Arena s') x)) = set (tl (clits (Arena s) x))"
    if ne: "x \<noteq> r \<or> 0 < i \<and> 0 < j" for x
  proof (cases "x = r")
    case True
    obtain a C where C: "clits (Arena s) r = a # C" using l by (cases "clits (Arena s) r") auto
    obtain i' j' where "i = Suc i'" "j = Suc j'" using ne True by (cases i; cases j) auto
    with C l True show ?thesis by (simp add: same clits_swap_in)
  next
    case False
    then show ?thesis by (simp add: same clits_swap_in)
  qed
  show ?thesis
    unfolding reasons_ok_def same Let_def
  proof (intro conjI allI impI)
    show "length (Reason s) = numVars s" using ok by (simp add: reasons_ok_def)
    fix n assume n: "n < length (Trail s)"
    let ?r = "Reason s ! unat (var (Trail s ! n))"
    have f: "if ?r = kNoClause then levelAt (TrailLim s) n = 0 \<or> n \<in> set (TrailLim s)
        else ?r \<in> refs s \<and> clits (Arena s) ?r ! 0 = Trail s ! n \<and>
          (\<forall>L \<in> set (tl (clits (Arena s) ?r)). negl L \<in> set (take n (Trail s)))"
      using ok n by (simp add: reasons_ok_def Let_def)
    moreover have "?r \<noteq> r \<or> 0 < i \<and> 0 < j" if "?r \<noteq> kNoClause"
    proof (rule ccontr)
      assume "\<not> (?r \<noteq> r \<or> 0 < i \<and> 0 < j)"
      then have "?r = r" "clits (Arena s) r ! 0 \<notin> set (Trail s)" using z by auto
      with f that n show False by auto
    qed
    ultimately show "if ?r = kNoClause then levelAt (TrailLim s) n = 0 \<or> n \<in> set (TrailLim s)
        else ?r \<in> refs s \<and> clits (swap_in r i j (Arena s)) ?r ! 0 = Trail s ! n \<and>
          (\<forall>L \<in> set (tl (clits (swap_in r i j (Arena s)) ?r)). negl L \<in> set (take n (Trail s)))"
      using cl [of ?r] by (auto simp: same)
  qed
qed

section \<open>Assigning a literal\<close>

lemma enqueue_more [simp]:
  "TrailLim (enqueue L r s) = TrailLim s" "Level (enqueue L r s) = (Level s)[unat (var L) := decisionLevel s]"
  "Reason (enqueue L r s) = (Reason s)[unat (var L) := r]" "Seen (enqueue L r s) = Seen s"
  "Decidable (enqueue L r s) = Decidable s" "Activity (enqueue L r s) = Activity s" "Order (enqueue L r s) = Order s"
  "FailedAssumptions (enqueue L r s) = FailedAssumptions s" "length (Phase (enqueue L r s)) = length (Phase s)"
  "Stats (enqueue L r s) = Stats s" "decisionLevel (enqueue L r s) = decisionLevel s"
  by (simp_all add: enqueue_def Let_def decisionLevel_def)

lemma trail_ok_fresh_var:
  assumes "trail_ok Val T" "unat (var L) < length Val" "worth Val L = 0" "i < length T"
  shows "var (T ! i) \<noteq> var L"
proof
  assume "var (T ! i) = var L"
  then have "worth Val (T ! i) = 0" using assms(3) by (auto simp: worth_def split: if_splits)
  with trail_ok_true [OF assms(1), of "T ! i"] assms(4) show False by simp
qed

lemma enqueue_deep:
  assumes ok: "deep_ok s" and t: "trail_ok (Value s) (Trail s)" and n: "unat (var L) < numVars s" and z: "worth (Value s) L = 0"
    and r: "if r = kNoClause then decisionLevel s = 0 \<or> length (Trail s) \<in> set (TrailLim s)
      else r \<in> refs s \<and> clits (Arena s) r ! 0 = L \<and> (\<forall>M \<in> set (tl (clits (Arena s) r)). negl M \<in> set (Trail s))"
  shows "deep_ok (enqueue L r s)"
proof -
  let ?s = "enqueue L r s"
  have lv: "levels_ok s" and re: "reasons_ok s" using ok by (simp_all add: deep_ok_def)
  have top: "levelAt (TrailLim s) (length (Trail s)) = decisionLevel s"
    using lv by (simp add: levels_ok_def levelAt_top decisionLevel_def)
  have new: "unat (var (Trail s ! i)) \<noteq> unat (var L)" if "i < length (Trail s)" for i
    using trail_ok_fresh_var [OF t _ z that] n by (simp add: numVars_def)
  have "Level ?s ! unat (var (Trail ?s ! i)) = levelAt (TrailLim s) i" if "i < length (Trail ?s)" for i
  proof (cases "i < length (Trail s)")
    case True
    with lv new [OF True] show ?thesis by (simp add: levels_ok_def nth_append)
  next
    case False
    with that have "i = length (Trail s)" by simp
    with lv n top show ?thesis by (simp add: levels_ok_def)
  qed
  with lv have "levels_ok ?s" by (auto simp: levels_ok_def)
  moreover have "reasons_ok ?s"
    unfolding reasons_ok_def Let_def
  proof (intro conjI allI impI)
    show "length (Reason ?s) = numVars ?s" using re by (simp add: reasons_ok_def)
    fix i assume i: "i < length (Trail ?s)"
    show "if Reason ?s ! unat (var (Trail ?s ! i)) = kNoClause then levelAt (TrailLim ?s) i = 0 \<or> i \<in> set (TrailLim ?s)
        else Reason ?s ! unat (var (Trail ?s ! i)) \<in> refs ?s \<and>
          clits (Arena ?s) (Reason ?s ! unat (var (Trail ?s ! i))) ! 0 = Trail ?s ! i \<and>
          (\<forall>M \<in> set (tl (clits (Arena ?s) (Reason ?s ! unat (var (Trail ?s ! i))))). negl M \<in> set (take i (Trail ?s)))"
    proof (cases "i < length (Trail s)")
      case True
      then show ?thesis using re new [OF True] by (simp add: reasons_ok_def Let_def nth_append)
    next
      case False
      with i have "i = length (Trail s)" by simp
      moreover have "unat (var L) < length (Reason s)" using re n by (simp add: reasons_ok_def)
      ultimately show ?thesis using r top by simp
    qed
  qed
  ultimately show ?thesis by (simp add: deep_ok_def)
qed

lemma enqueue_frame:
  assumes t: "trail_ok (Value s) (Trail s)" and n: "unat (var L) < numVars s" and z: "worth (Value s) L = 0"
  shows "deep_frame s (enqueue L r s)"
proof -
  have "Reason (enqueue L r s) ! unat (var M) = Reason s ! unat (var M)" if "M \<in> set (Trail s)" for M
  proof -
    have "unat (var L) \<noteq> unat (var M)" using that trail_ok_fresh_var [OF t _ z] n by (fastforce simp: numVars_def in_set_conv_nth)
    then show ?thesis by simp
  qed
  then show ?thesis by (auto simp: deep_frame_def simp del: enqueue_more(3))
qed

section \<open>Propagation keeps levels and reasons\<close>

definition false_clause :: "SatEngine \<Rightarrow> ClauseRef \<Rightarrow> bool" where
  "false_clause s r \<longleftrightarrow> r \<in> refs s \<and> (\<forall>L \<in> set (clits (Arena s) r). negl L \<in> set (Trail s))"

lemma swap_deep:
  assumes l: "2 \<le> length (clits (Arena s) r)" "i < length (clits (Arena s) r)" "j < length (clits (Arena s) r)"
    and z: "0 < i \<and> 0 < j \<or> clits (Arena s) r ! 0 \<notin> set (Trail s)"
    and p: "\<And>T. set T \<subseteq> set (Trail s) \<Longrightarrow> prefix_settled (Arena s) (refs s) T \<Longrightarrow> prefix_settled (swap_in r i j (Arena s)) (refs s) T"
    and same: "Arena s' = swap_in r i j (Arena s)" "refs s' = refs s" "Trail s' = Trail s" "TrailLim s' = TrailLim s" "Level s' = Level s"
    "Reason s' = Reason s" "numVars s' = numVars s" "Seen s' = Seen s" "Decidable s' = Decidable s" "Activity s' = Activity s"
    "Order s' = Order s" "FailedAssumptions s' = FailedAssumptions s" "Phase s' = Phase s" "Conflicts (Stats s') = Conflicts (Stats s)"
  shows "deep_step s s'"
  using swap_frame [OF l(2,3) same] reasons_ok_swap [OF _ l z same(1-4,6,7)] p
  by (simp add: deep_step_def deep_ok_def same)

lemma negl_not_in_trail: "trail_ok Val T \<Longrightarrow> P \<in> set T \<Longrightarrow> negl P \<notin> set T"
  using trail_ok_true [of Val T P] trail_ok_true [of Val T "negl P"] by auto

lemma normaliseWatch_deep:
  assumes sc: "scanning P Kept Ws s" and W: "W \<in> set Ws"
  shows "deep_step s (normaliseWatch P (WClause W) s)"
proof (cases "clits (Arena s) (WClause W) ! 0 = negl P")
  case True
  have w: "watching P (Kept @ Ws) s" using sc by (simp add: scanning_def)
  note f = watchingD [OF w]
  have l: "2 \<le> length (clits (Arena s) (WClause W))" using watching_entry(5) [OF w, of W] W by simp
  have n: "normaliseWatch P (WClause W) s = s\<lparr>Arena := swap_in (WClause W) 0 1 (Arena s)\<rparr>"
    by (rule normaliseWatch_swap) (simp add: lit_clits True)
  show ?thesis
    unfolding n
    by (rule swap_deep [OF l, of 0 1])
      (use l True negl_not_in_trail [OF f(2,5)] prefix_settled_swap_01 [OF _ l] in \<open>auto simp: refs_def numVars_def\<close>)
next
  case False
  then show ?thesis by (simp add: normaliseWatch_def lit_clits)
qed

lemma visitClause_deep:
  assumes sc: "scanning P Kept (W # Ws) s" and one: "clits (Arena s) (WClause W) ! 1 = negl P"
    and blk: "litValue s (Blocker W) \<noteq> 1" and v: "visitClause W s = (Keep, Conf, s')"
  shows "deep_step s s' \<and> (Conf \<longrightarrow> false_clause s' (WClause W))"
proof -
  let ?r = "WClause W" and ?C = "clits (Arena s) (WClause W)"
  let ?F = "?C ! 0" and ?k = "findReplacement s 2 (drop 2 (clits (Arena s) (WClause W)))"
  have w: "watching P (Kept @ W # Ws) s" using sc by (simp add: scanning_def)
  note f = watchingD [OF w]
  have e: "2 \<le> length ?C" "?r \<in> refs s" "\<forall>L \<in> set ?C. unat (var L) < numVars s"
    using watching_entry [OF w, of W] by simp_all
  have C: "CLits (getClause s ?r) = ?C" by (simp add: getClause_def clits_def)
  obtain a b D where D: "?C = a # b # D" using e(1) by (cases ?C; cases "tl ?C") auto
  consider (sat) "?F \<noteq> Blocker W" "litValue s ?F = 1"
    | (move) "litValue s ?F \<noteq> 1" "?k < length ?C" | (unit) "litValue s ?F \<noteq> 1" "\<not> ?k < length ?C"
    using blk by fastforce
  then show ?thesis
  proof cases
    case sat
    with v show ?thesis by (auto simp: visitClause_def lit_clits)
  next
    case move
    have k2: "2 \<le> ?k" using findReplacement_bounds by blast
    have "litValue s (drop 2 ?C ! (?k - 2)) \<noteq> - 1"
      by (rule findReplacement_found) (use move e in simp)
    moreover have "drop 2 ?C ! (?k - 2) = ?C ! ?k"
      using nth_drop [of 2 ?C "?k - 2"] e(1) le_add_diff_inverse [OF k2] by metis
    ultimately have kv: "negl (?C ! ?k) \<notin> set (Trail s)"
      using trail_ok_false [OF f(2)] by (auto simp: litValue_worth)
    have s': "\<not> Conf" "s' = pushWatch (negl (lit (swapLits 1 ?k (getClause s ?r)) 1)) \<lparr>WClause = ?r, Blocker = ?F\<rparr>
        (s\<lparr>Arena := swap_in ?r 1 ?k (Arena s)\<rparr>)"
      using move v by (auto simp: visitClause_def lit_clits clauseSize_def C setClause_def swap_in_def Let_def
          simp flip: getClause_def)
    have "deep_step s s'"
      by (rule swap_deep [OF e(1), of 1 ?k])
        (use e(1) move k2 kv prefix_settled_move [OF _ k2 move(2)] in \<open>auto simp: s' pushWatch_def refs_def numVars_def\<close>)
    with s' show ?thesis by simp
  next
    case unit
    have "?k = 2 + length (drop 2 ?C)"
      using unit findReplacement_bounds [of 2 s "drop 2 ?C"] e by simp
    then have "\<forall>L \<in> set (drop 2 ?C). litValue s L = - 1" by (rule findReplacement_none)
    then have rest: "\<forall>L \<in> set D. negl L \<in> set (Trail s)"
      using trail_ok_worth_minus [OF f(2)] e(3) by (auto simp: D litValue_worth numVars_def)
    have b: "negl b \<in> set (Trail s)" using one f(5) by (simp add: D)
    have s': "Conf = (litValue s ?F = - 1)"
        "s' = (if litValue s ?F = - 1 then s\<lparr>QueueHead := length (Trail s)\<rparr> else enqueue ?F ?r s)"
      using unit v by (auto simp: visitClause_def lit_clits clauseSize_def C Let_def split: if_splits)
    show ?thesis
    proof (cases "litValue s ?F = - 1")
      case True
      then have "negl a \<in> set (Trail s)"
        using trail_ok_worth_minus [OF f(2), of a] e(3) by (simp add: D litValue_worth numVars_def)
      moreover have "deep_step s (s\<lparr>QueueHead := length (Trail s)\<rparr>)"
        by (rule deep_step_same) (simp_all add: refs_def numVars_def)
      moreover have "refs (s\<lparr>QueueHead := length (Trail s)\<rparr>) = refs s" by (simp add: refs_def)
      ultimately show ?thesis using rest b s' True e(2) by (simp add: false_clause_def D)
    next
      case False
      have n: "unat (var a) < numVars s" using e(3) by (simp add: D)
      then have z: "worth (Value s) a = 0"
        using trail_ok_range [OF f(2), of a] unit False by (simp add: litValue_worth D numVars_def)
      have "?r \<noteq> kNoClause" using e(2) f(9) by metis
      then have "deep_ok (enqueue ?F ?r s)" if "deep_ok s"
        using enqueue_deep [OF that f(2) n z, of ?r] e(2) rest b by (simp add: D)
      moreover have "prefix_settled (Arena (enqueue ?F ?r s)) (refs (enqueue ?F ?r s)) T"
        if "prefix_settled (Arena s) (refs s) T" for T using that by simp
      ultimately show ?thesis using s' False enqueue_frame [OF f(2) n z] by (simp add: deep_step_def D)
    qed
  qed
qed

lemma visit_deep:
  assumes sc: "scanning P Kept (W # Ws) s" and v: "visit P W s = (Keep, Conf, s')"
  shows "deep_step s s' \<and> (Conf \<longrightarrow> false_clause s' (WClause W))"
proof -
  let ?s = "s\<lparr>Stats := (Stats s)\<lparr>WatchVisits := WatchVisits (Stats s) + 1\<rparr>\<rparr>"
  note sc1 = scanning_stats [OF sc, of "(Stats s)\<lparr>WatchVisits := WatchVisits (Stats s) + 1\<rparr>"]
  have pre: "deep_step s ?s" by (rule deep_step_same) (simp_all add: refs_def numVars_def)
  show ?thesis
  proof (cases "litValue ?s (Blocker W) = 1")
    case True
    with v pre show ?thesis by (auto simp: visit_def)
  next
    case False
    note n = normaliseWatch_ok [OF sc1 list.set_intros(1)]
    let ?n = "normaliseWatch P (WClause W) ?s"
    have lv: "litValue ?n (Blocker W) = litValue ?s (Blocker W)"
      by (simp add: normaliseWatch_def setClause_def litValue_def)
    from v False have "visitClause W ?n = (Keep, Conf, s')" by (simp add: visit_def)
    with visitClause_deep [OF n(1) n(3) _ this] False lv
    have "deep_step ?n s' \<and> (Conf \<longrightarrow> false_clause s' (WClause W))" by simp
    moreover have "deep_step ?s ?n" by (rule normaliseWatch_deep [OF sc1]) simp
    ultimately show ?thesis using pre deep_step_trans by blast
  qed
qed

lemma scan_deep:
  assumes "scanning P Kept Ws s" "scan P Kept Ws s = (L, c, s')"
  shows "deep_step s s' \<and> (c \<noteq> kNoClause \<longrightarrow> false_clause s' c)"
  using assms
proof (induction Ws arbitrary: Kept s)
  case Nil
  then show ?case by auto
next
  case (Cons W Ws)
  show ?case
  proof (cases "outOfWatchVisitBudget s")
    case True
    have "deep_step s (s\<lparr>QueueHead := QueueHead s - 1\<rparr>)" by (rule deep_step_same) (simp_all add: refs_def numVars_def)
    with Cons.prems True show ?thesis by auto
  next
    case False
    obtain Keep Conf s1 where v: "visit P W s = (Keep, Conf, s1)" by (cases "visit P W s") auto
    note d = visit_deep [OF Cons.prems(1) v]
    show ?thesis
    proof (cases Conf)
      case True
      with Cons.prems(2) False v d show ?thesis by auto
    next
      case nc: False
      have "scan P (Kept @ opt_list Keep) Ws s1 = (L, c, s')"
        using Cons.prems(2) False v nc by (auto simp: opt_list_def)
      moreover have "scanning P (Kept @ opt_list Keep) Ws s1"
        using visit_ok [OF Cons.prems(1) v] nc by (simp add: visited_def)
      ultimately show ?thesis using Cons.IH d deep_step_trans by blast
    qed
  qed
qed

lemma propagateNext_deep:
  assumes ok: "propagation_ok s" and q: "QueueHead s < length (Trail s)" and p: "propagateNext s = (c, s')"
  shows "deep_step s s' \<and> (c \<noteq> kNoClause \<longrightarrow> false_clause s' c)"
proof -
  let ?P = "Trail s ! QueueHead s"
  let ?u = "s\<lparr>QueueHead := QueueHead s + 1,
              Stats := (Stats s)\<lparr>Propagations := Propagations (Stats s) + 1\<rparr>\<rparr>"
  obtain L c1 t where sc: "scan ?P [] (Watches s ! unat (index ?P)) ?u = (L, c1, t)"
    by (cases "scan ?P [] (Watches s ! unat (index ?P)) ?u") auto
  have c: "c = c1" "s' = t\<lparr>Watches := (Watches t)[unat (index ?P) := L]\<rparr>"
    using p sc by (auto simp: propagateNext_def Let_def)
  have "deep_step s ?u" "deep_step t s'"
    by (rule deep_step_same; simp add: c refs_def numVars_def)+
  moreover note scan_deep [OF scanning_start [OF ok q] sc]
  moreover have "false_clause t r \<Longrightarrow> false_clause s' r" for r by (simp add: false_clause_def c refs_def)
  ultimately show ?thesis using deep_step_trans c(1) by blast
qed

lemma propagate_loop_deep:
  assumes "propagation_ok s" "propagate_loop Fuel kNoClause s = (c, s')"
  shows "deep_step s s' \<and> (c \<noteq> kNoClause \<longrightarrow> false_clause s' c)"
  using assms
proof (induction Fuel arbitrary: s)
  case (Suc Fuel)
  show ?case
  proof (cases "QueueHead s < length (Trail s) \<and> \<not> (outOfPropagationBudget s \<or> outOfWatchVisitBudget s)")
    case False
    with Suc.prems show ?thesis by (auto split: if_splits)
  next
    case True
    obtain c1 t where n: "propagateNext s = (c1, t)" by (cases "propagateNext s") auto
    note r = propagateNext_ok [OF Suc.prems(1) _ n] and d = propagateNext_deep [OF Suc.prems(1) _ n]
    show ?thesis
    proof (cases "c1 = kNoClause")
      case False
      with r True have "QueueHead t = length (Trail t)" by simp
      then have "propagate_loop Fuel c1 t = (c1, t)" by (cases Fuel) simp_all
      with Suc.prems(2) True n False d show ?thesis by auto
    next
      case nc: True
      with r True have t: "propagation_ok t" by simp
      have "propagate_loop Fuel kNoClause t = (c, s')" using Suc.prems(2) True n nc by simp
      from Suc.IH [OF t this] d True deep_step_trans show ?thesis by blast
    qed
  qed
qed simp

lemma propagate_deep:
  assumes "propagation_ok s" "propagate s = (c, s')"
  shows "deep_step s s' \<and> (c \<noteq> kNoClause \<longrightarrow> false_clause s' c)"
  by (rule propagate_loop_deep [OF assms(1) assms(2) [unfolded propagate_def]])

end
