(* ===== verification/Sat_Order.thy ===== *)
theory Sat_Order
  imports Sat_Queue
begin

text \<open>
  The decision queue is correct.  \<open>queue_ok\<close> says that the position table and the live part of the
  heap array describe each other; sifting, compaction, insertion, a raised priority and taking the
  first entry keep it, with the expected effect on the \<open>members\<close>.  The locale \<open>decision_queue\<close> is
  the contract the search relies on.
\<close>

section \<open>The queue and its positions\<close>

definition members :: "ActivityQueue \<Rightarrow> SatVar set" where
  "members q = set (drop (Front q) (Heap q))"

definition slots_ok :: "ActivityQueue \<Rightarrow> bool" where
  "slots_ok q \<longleftrightarrow>
     (\<forall>i. Front q \<le> i \<and> i < length (Heap q) \<longrightarrow>
        unat (Heap q ! i) < length (Position q) \<and> Position q ! unat (Heap q ! i) = int i) \<and>
     (\<forall>v < length (Position q). Position q ! v \<noteq> - 1 \<longrightarrow>
        (\<exists>i. Front q \<le> i \<and> i < length (Heap q) \<and> v = unat (Heap q ! i)))"

definition queue_ok :: "ActivityQueue \<Rightarrow> bool" where
  "queue_ok q \<longleftrightarrow> Front q \<le> length (Heap q) \<and> (\<not> Sorted q \<longrightarrow> Front q = 0) \<and> slots_ok q"

lemma members_iff: "V \<in> members q \<longleftrightarrow> (\<exists>i. Front q \<le> i \<and> i < length (Heap q) \<and> Heap q ! i = V)"
proof
  assume "V \<in> members q"
  then obtain j where "j < length (Heap q) - Front q" "Heap q ! (Front q + j) = V"
    by (auto simp: members_def in_set_conv_nth)
  then show "\<exists>i. Front q \<le> i \<and> i < length (Heap q) \<and> Heap q ! i = V" by (intro exI [of _ "Front q + j"]) auto
next
  assume "\<exists>i. Front q \<le> i \<and> i < length (Heap q) \<and> Heap q ! i = V"
  then obtain i where "Front q \<le> i" "i < length (Heap q)" "Heap q ! i = V" by blast
  then have "drop (Front q) (Heap q) ! (i - Front q) = V" "i - Front q < length (drop (Front q) (Heap q))" by auto
  then show "V \<in> members q" unfolding members_def by (metis nth_mem)
qed

lemma slots_okD:
  assumes "slots_ok q" "Front q \<le> i" "i < length (Heap q)"
  shows "unat (Heap q ! i) < length (Position q)" "Position q ! unat (Heap q ! i) = int i"
  using assms by (auto simp: slots_ok_def)

lemma slots_inj:
  assumes "slots_ok q" "Front q \<le> i" "i < length (Heap q)" "Front q \<le> j" "j < length (Heap q)" "Heap q ! i = Heap q ! j"
  shows "i = j"
proof -
  have "int i = Position q ! unat (Heap q ! i)" using slots_okD(2) [OF assms(1-3)] by simp
  also have "\<dots> = Position q ! unat (Heap q ! j)" by (simp only: assms(6))
  also have "\<dots> = int j" by (rule slots_okD(2) [OF assms(1,4,5)])
  finally show ?thesis by simp
qed

lemma contains_members:
  assumes "queue_ok q"
  shows "contains q V \<longleftrightarrow> V \<in> members q"
proof -
  have s: "slots_ok q" using assms by (simp add: queue_ok_def)
  show ?thesis
  proof
    assume "contains q V"
    then have "unat V < length (Position q)" "Position q ! unat V \<noteq> - 1" by (auto simp: contains_def)
    with s obtain i where "Front q \<le> i" "i < length (Heap q)" "unat V = unat (Heap q ! i)"
      unfolding slots_ok_def by blast
    then show "V \<in> members q" by (auto simp: members_iff)
  next
    assume "V \<in> members q"
    then obtain i where "Front q \<le> i" "i < length (Heap q)" "Heap q ! i = V" by (auto simp: members_iff)
    with slots_okD [OF s this(1,2)] show "contains q V" by (simp add: contains_def)
  qed
qed

lemma members_range: "queue_ok q \<Longrightarrow> V \<in> members q \<Longrightarrow> unat V < length (Position q)"
  using contains_members [of q V] by (simp add: contains_def)

lemma grow_queue: "queue_ok q \<Longrightarrow> queue_ok (grow n q) \<and> members (grow n q) = members q \<and>
    length (Position (grow n q)) = max n (length (Position q))"
  by (auto simp: grow_def queue_ok_def slots_ok_def members_def nth_append)

section \<open>Sifting\<close>

text \<open>Exchanging two live slots keeps the tables consistent.\<close>

lemma swap_slots:
  assumes ok: "slots_ok q" and i: "Front q \<le> i" "i < length (Heap q)" and j: "Front q \<le> j" "j < length (Heap q)"
    and ij: "i \<noteq> j"
  defines "q' \<equiv> put j (Heap q ! i) (put i (Heap q ! j) q)"
  shows "slots_ok q'" "members q' = members q"
proof -
  let ?x = "Heap q ! i" and ?y = "Heap q ! j"
  have ne: "?x \<noteq> ?y" using slots_inj [OF ok i j] ij by blast
  have H: "Heap q' = (Heap q)[i := ?y, j := ?x]" and P: "Position q' = (Position q)[unat ?y := int i, unat ?x := int j]"
    and F: "Front q' = Front q" by (simp_all add: q'_def put_def)
  have h: "Heap q' ! k = (if k = j then ?x else if k = i then ?y else Heap q ! k)" if "k < length (Heap q)" for k
    using that by (simp add: H nth_list_update)
  have r: "unat ?x < length (Position q)" "unat ?y < length (Position q)"
    using slots_okD(1) [OF ok i] slots_okD(1) [OF ok j] by simp_all
  have p: "Position q' ! v = (if v = unat ?x then int j else if v = unat ?y then int i else Position q ! v)"
    if "v < length (Position q)" for v
    using that ne by (auto simp: P nth_list_update)
  have sub: "\<exists>k'. Front q \<le> k' \<and> k' < length (Heap q) \<and> Heap q' ! k' = Heap q ! k" if "Front q \<le> k" "k < length (Heap q)" for k
    using that i j by (cases "k = i"; cases "k = j") (auto simp: h intro: exI [of _ i] exI [of _ j] exI [of _ k])
  show "slots_ok q'"
    unfolding slots_ok_def
  proof (intro conjI allI impI)
    fix k assume k: "Front q' \<le> k \<and> k < length (Heap q')"
    then have k': "Front q \<le> k" "k < length (Heap q)" by (simp_all add: F H)
    have "Heap q ! k \<noteq> ?x" if "k \<noteq> i" using slots_inj [OF ok k' i] that by blast
    moreover have "Heap q ! k \<noteq> ?y" if "k \<noteq> j" using slots_inj [OF ok k' j] that by blast
    ultimately show "unat (Heap q' ! k) < length (Position q')" "Position q' ! unat (Heap q' ! k) = int k"
      using slots_okD [OF ok k'] r ne h [OF k'(2)] by (auto simp: P p)
  next
    fix v assume v: "v < length (Position q')" "Position q' ! v \<noteq> - 1"
    have "\<exists>k. Front q \<le> k \<and> k < length (Heap q) \<and> v = unat (Heap q ! k)"
      using v ok i j unfolding slots_ok_def P by (auto simp: nth_list_update split: if_splits)
    then show "\<exists>k. Front q' \<le> k \<and> k < length (Heap q') \<and> v = unat (Heap q' ! k)"
      using sub by (auto simp: F H) metis
  qed
  show "members q' = members q"
  proof (intro equalityI subsetI)
    fix V assume "V \<in> members q"
    then show "V \<in> members q'" using sub by (auto simp: members_iff F H)
  next
    fix V assume "V \<in> members q'"
    then obtain k where "Front q \<le> k" "k < length (Heap q)" "Heap q' ! k = V" by (auto simp: members_iff F H)
    then show "V \<in> members q" using i j by (auto simp: members_iff h split: if_splits)
  qed
qed

text \<open>The loops carry a hole: the sifted variable belongs at \<open>I\<close> and is written there at the end.\<close>

definition hole_ok :: "SatVar \<Rightarrow> nat \<Rightarrow> ActivityQueue \<Rightarrow> SatVar set \<Rightarrow> bool" where
  "hole_ok V I q M \<longleftrightarrow> slots_ok (put I V q) \<and> Front q \<le> I \<and> I < length (Heap q) \<and> members (put I V q) = M \<and>
     unat V < length (Position q)"

lemma put_fields [simp]:
  "Front (put I V q) = Front q" "Sorted (put I V q) = Sorted q" "length (Heap (put I V q)) = length (Heap q)"
  "length (Position (put I V q)) = length (Position q)" "Heap (put I V q) = (Heap q)[I := V]"
  by (simp_all add: put_def)

lemma hole_move:
  assumes h: "hole_ok V I q M" and j: "Front q \<le> J" "J < length (Heap q)" "J \<noteq> I"
  shows "hole_ok V J (put I (Heap q ! J) q) M"
proof -
  let ?Q = "put I V q"
  have f: "slots_ok ?Q" "Front q \<le> I" "I < length (Heap q)" "members ?Q = M" "unat V < length (Position q)"
    using h by (simp_all add: hole_ok_def)
  have e: "put J V (put I (Heap q ! J) q) = put J (Heap ?Q ! I) (put I (Heap ?Q ! J) ?Q)"
    using f(3) j(2,3) by (cases "Heap q ! J = V") (auto simp: put_def list_update_swap)
  note s = swap_slots [OF f(1), of I J]
  from s f j show ?thesis unfolding hole_ok_def e [symmetric] using e by simp
qed

lemma siftUp_loop_ok:
  assumes "siftUp_loop A V q I = (q', J)" "hole_ok V I q M" "Front q = 0"
  shows "hole_ok V J q' M \<and> Front q' = Front q \<and> Sorted q' = Sorted q \<and> length (Position q') = length (Position q) \<and>
    length (Heap q') = length (Heap q)"
  using assms
proof (induction A V q I arbitrary: q' J rule: siftUp_loop.induct)
  case (1 A V q I)
  let ?P = "(I - 1) div 2"
  show ?case
  proof (cases "I > 0 \<and> higher A V (Heap q ! ?P)")
    case True
    have I: "I < length (Heap q)" using "1.prems"(2) by (simp add: hole_ok_def)
    have rec: "siftUp_loop A V (put I (Heap q ! ?P) q) ?P = (q', J)"
      using True "1.prems"(1) by (simp add: siftUp_loop.simps [of A V q I] Let_def)
    have "?P < I" using True by linarith
    then have "hole_ok V ?P (put I (Heap q ! ?P) q) M"
      using hole_move [OF "1.prems"(2)] I "1.prems"(3) by simp
    with "1.IH" [OF _ refl _ rec this] True "1.prems"(3) show ?thesis by simp
  next
    case False
    with "1.prems" show ?thesis by (auto simp: siftUp_loop.simps [of A V q I] Let_def split: if_splits)
  qed
qed

lemma siftDown_loop_ok:
  assumes "siftDown_loop A V q I = (q', J)" "hole_ok V I q M" "Front q = 0"
  shows "hole_ok V J q' M \<and> Front q' = Front q \<and> Sorted q' = Sorted q \<and> length (Position q') = length (Position q) \<and>
    length (Heap q') = length (Heap q)"
  using assms
proof (induction A V q I arbitrary: q' J rule: siftDown_loop.induct)
  case (1 A V q I)
  let ?N = "length (Heap q)"
  let ?C = "if 2 * I + 1 + 1 < ?N \<and> higher A (Heap q ! (2 * I + 1 + 1)) (Heap q ! (2 * I + 1)) then 2 * I + 1 + 1 else 2 * I + 1"
  show ?case
  proof (cases "2 * I + 1 < ?N \<and> higher A (Heap q ! ?C) V")
    case True
    have rec: "siftDown_loop A V (put I (Heap q ! ?C) q) ?C = (q', J)"
      using True "1.prems"(1) by (subst (asm) siftDown_loop.simps) (auto simp: Let_def split: if_splits)
    have "hole_ok V ?C (put I (Heap q ! ?C) q) M"
      using hole_move [OF "1.prems"(2), of ?C] True "1.prems"(3) by auto
    with "1.IH" [OF refl refl _ refl _ rec this] True "1.prems"(3) show ?thesis by simp
  next
    case False
    with "1.prems" show ?thesis by (subst (asm) siftDown_loop.simps) (auto simp: Let_def split: if_splits)
  qed
qed

definition resifted :: "ActivityQueue \<Rightarrow> ActivityQueue \<Rightarrow> bool" where
  "resifted q q' \<longleftrightarrow> queue_ok q' \<and> members q' = members q \<and> length (Position q') = length (Position q) \<and>
     length (Heap q') = length (Heap q) \<and> Sorted q' = Sorted q \<and> Front q' = Front q"

lemma hole_start:
  assumes "queue_ok q" "Front q \<le> I" "I < length (Heap q)"
  shows "hole_ok (Heap q ! I) I q (members q)"
proof -
  have s: "slots_ok q" using assms by (simp add: queue_ok_def)
  have "(Position q)[unat (Heap q ! I) := int I] = Position q"
    using slots_okD(2) [OF s assms(2,3)] by (metis list_update_id)
  then have "put I (Heap q ! I) q = q" by (simp add: put_def)
  then show ?thesis using s assms slots_okD(1) [OF s assms(2,3)] by (simp add: hole_ok_def)
qed

lemma siftUp_ok:
  assumes "queue_ok q" "I < length (Heap q)" "Front q = 0"
  shows "resifted q (siftUp A I q)"
proof -
  obtain q' J where l: "siftUp_loop A (Heap q ! I) q I = (q', J)" by fastforce
  from siftUp_loop_ok [OF l hole_start assms(3)] assms l show ?thesis
    by (auto simp: siftUp_def Let_def resifted_def hole_ok_def queue_ok_def)
qed

lemma siftDown_ok:
  assumes "queue_ok q" "I < length (Heap q)" "Front q = 0"
  shows "resifted q (siftDown A I q)"
proof -
  obtain q' J where l: "siftDown_loop A (Heap q ! I) q I = (q', J)" by fastforce
  from siftDown_loop_ok [OF l hole_start assms(3)] assms l show ?thesis
    by (auto simp: siftDown_def Let_def resifted_def hole_ok_def queue_ok_def)
qed

section \<open>Compaction\<close>

lemma compact_live_fields:
  assumes "w + length Vs \<le> length (Heap q)"
  shows "Heap (compact_live w Vs q) = take w (Heap q) @ Vs \<and> Front (compact_live w Vs q) = Front q \<and>
    Sorted (compact_live w Vs q) = Sorted q \<and> length (Position (compact_live w Vs q)) = length (Position q)"
  using assms
proof (induction w Vs q rule: compact_live.induct)
  case (2 w V Vs q)
  then have "w < length (Heap q)" by simp
  then have "take (Suc w) ((Heap q)[w := V]) = take w (Heap q) @ [V]" by (simp add: take_Suc_conv_app_nth)
  with 2 show ?case by simp
qed simp

lemma compact_live_other:
  "v \<notin> unat ` set Vs \<Longrightarrow> Position (compact_live w Vs q) ! v = Position q ! v"
proof (induction w Vs q rule: compact_live.induct)
  case (2 w V Vs q)
  then have "Position (compact_live w (V # Vs) q) ! v = Position (put w V q) ! v" by simp
  also have "\<dots> = Position q ! v" using 2 by (auto simp: put_def)
  finally show ?case .
qed simp

lemma compact_live_placed:
  assumes "distinct Vs" "\<forall>V \<in> set Vs. unat V < length (Position q)" "k < length Vs"
  shows "Position (compact_live w Vs q) ! unat (Vs ! k) = int (w + k)"
  using assms
proof (induction w Vs q arbitrary: k rule: compact_live.induct)
  case (2 w V Vs q)
  show ?case
  proof (cases k)
    case 0
    have "unat V \<notin> unat ` set Vs" using 2 by auto
    from compact_live_other [OF this, of "Suc w" "put w V q"] 0 2 show ?thesis by (simp add: put_def)
  next
    case (Suc j)
    with 2 show ?thesis by simp
  qed
qed simp

lemma live_distinct:
  assumes "slots_ok q"
  shows "distinct (drop (Front q) (Heap q))"
proof (rule distinct_conv_nth [THEN iffD2], intro allI impI)
  fix i j assume a: "i < length (drop (Front q) (Heap q))" "j < length (drop (Front q) (Heap q))" "i \<noteq> j"
  then show "drop (Front q) (Heap q) ! i \<noteq> drop (Front q) (Heap q) ! j"
    using slots_inj [OF assms, of "Front q + i" "Front q + j"] by (auto simp: less_diff_conv add.commute)
qed

text \<open>A queue that consists of its live entries alone, with the tables saying so.\<close>

lemma slots_ok_fresh:
  assumes "Front q = 0" "distinct (Heap q)" "\<forall>V \<in> set (Heap q). unat V < length (Position q)"
    "\<And>k. k < length (Heap q) \<Longrightarrow> Position q ! unat (Heap q ! k) = int k"
    "\<And>v. v < length (Position q) \<Longrightarrow> v \<notin> unat ` set (Heap q) \<Longrightarrow> Position q ! v = - 1"
  shows "slots_ok q"
  unfolding slots_ok_def
proof (intro conjI allI impI)
  fix v assume "v < length (Position q)" "Position q ! v \<noteq> - 1"
  with assms(5) have "v \<in> unat ` set (Heap q)" by blast
  then show "\<exists>i. Front q \<le> i \<and> i < length (Heap q) \<and> v = unat (Heap q ! i)"
    using assms(1) by (auto simp: in_set_conv_nth)
qed (use assms in auto)

lemma not_live:
  assumes "slots_ok q" "v < length (Position q)" "v \<notin> unat ` members q"
  shows "Position q ! v = - 1"
proof (rule ccontr)
  assume "Position q ! v \<noteq> - 1"
  with assms(1,2) obtain i where "Front q \<le> i" "i < length (Heap q)" "v = unat (Heap q ! i)"
    unfolding slots_ok_def by blast
  then have "Heap q ! i \<in> members q" by (auto simp: members_iff)
  with assms(3) \<open>v = _\<close> show False by simp
qed

lemma useHeap_ok:
  assumes "queue_ok q"
  shows "queue_ok (useHeap q) \<and> members (useHeap q) = members q \<and> length (Position (useHeap q)) = length (Position q) \<and>
    \<not> Sorted (useHeap q) \<and> Front (useHeap q) = 0"
proof (cases "Sorted q \<and> Front q \<noteq> 0")
  case False
  with assms show ?thesis
    by (auto simp: useHeap_def queue_ok_def slots_ok_def members_def)
next
  case True
  let ?q = "q\<lparr>Sorted := False\<rparr>" and ?Vs = "drop (Front q) (Heap q)"
  let ?u = "compact_live 0 ?Vs ?q"
  have s: "slots_ok q" using assms by (simp add: queue_ok_def)
  have u: "useHeap q = ?u\<lparr>Front := 0\<rparr>" using True by (simp add: useHeap_def)
  have f: "Heap ?u = ?Vs" "Sorted ?u = False" "length (Position ?u) = length (Position q)"
    using compact_live_fields [of 0 ?Vs ?q] by simp_all
  have range: "\<forall>V \<in> set ?Vs. unat V < length (Position ?q)"
    using members_range [OF assms] by (simp add: members_def)
  have "slots_ok (?u\<lparr>Front := 0\<rparr>)"
  proof (rule slots_ok_fresh)
    show "distinct (Heap (?u\<lparr>Front := 0\<rparr>))" using live_distinct [OF s] f by simp
    show "\<forall>V \<in> set (Heap (?u\<lparr>Front := 0\<rparr>)). unat V < length (Position (?u\<lparr>Front := 0\<rparr>))" using range f by simp
    show "Position (?u\<lparr>Front := 0\<rparr>) ! unat (Heap (?u\<lparr>Front := 0\<rparr>) ! k) = int k" if "k < length (Heap (?u\<lparr>Front := 0\<rparr>))" for k
      using compact_live_placed [OF live_distinct [OF s] range, of k 0] that f by simp
    show "Position (?u\<lparr>Front := 0\<rparr>) ! v = - 1"
      if "v < length (Position (?u\<lparr>Front := 0\<rparr>))" "v \<notin> unat ` set (Heap (?u\<lparr>Front := 0\<rparr>))" for v
      using compact_live_other [of v ?Vs 0 ?q] not_live [OF s, of v] that f by (simp add: members_def)
  qed simp
  then show ?thesis using f unfolding u by (simp add: queue_ok_def members_def)
qed

section \<open>Operations\<close>

lemma append_slot:
  assumes "queue_ok q" "unat V < length (Position q)" "V \<notin> members q"
  shows "queue_ok (q\<lparr>Position := (Position q)[unat V := int (length (Heap q))], Heap := Heap q @ [V]\<rparr>)" (is "queue_ok ?q")
    "members (q\<lparr>Position := (Position q)[unat V := int (length (Heap q))], Heap := Heap q @ [V]\<rparr>) = insert V (members q)"
proof -
  have s: "slots_ok q" and f: "Front q \<le> length (Heap q)" using assms(1) by (simp_all add: queue_ok_def)
  have ne: "Heap q ! i \<noteq> V" if "Front q \<le> i" "i < length (Heap q)" for i
    using assms(3) that by (auto simp: members_iff)
  have "slots_ok ?q"
    unfolding slots_ok_def
  proof (intro conjI allI impI)
    fix i assume i: "Front ?q \<le> i \<and> i < length (Heap ?q)"
    then show "unat (Heap ?q ! i) < length (Position ?q)" "Position ?q ! unat (Heap ?q ! i) = int i"
      using slots_okD [OF s, of i] ne [of i] assms(2) by (auto simp: nth_append nth_list_update less_Suc_eq)
  next
    fix v assume v: "v < length (Position ?q)" "Position ?q ! v \<noteq> - 1"
    show "\<exists>i. Front ?q \<le> i \<and> i < length (Heap ?q) \<and> v = unat (Heap ?q ! i)"
    proof (cases "v = unat V")
      case True
      then show ?thesis using f by (intro exI [of _ "length (Heap q)"]) simp
    next
      case False
      with v s obtain i where "Front q \<le> i" "i < length (Heap q)" "v = unat (Heap q ! i)"
        unfolding slots_ok_def by auto
      then show ?thesis by (intro exI [of _ i]) (simp add: nth_append)
    qed
  qed
  with assms(1) show "queue_ok ?q" by (simp add: queue_ok_def)
  show "members ?q = insert V (members q)" using f by (simp add: members_def)
qed

lemma insertVar_ok:
  assumes "queue_ok q"
  shows "queue_ok (insertVar A V q) \<and> members (insertVar A V q) = insert V (members q) \<and>
    length (Position (insertVar A V q)) = max (unat V + 1) (length (Position q))"
proof -
  let ?g = "grow (unat V + 1) q"
  note g = grow_queue [OF assms, of "unat V + 1"]
  have V: "unat V < length (Position ?g)" using g by simp
  show ?thesis
  proof (cases "Position ?g ! unat V \<ge> 0")
    case True
    then have "contains ?g V" using V by (simp add: contains_def)
    then have "V \<in> members q" using contains_members [of ?g V] g by simp
    with True g show ?thesis by (auto simp: insertVar_def Let_def)
  next
    case False
    define e where "e = (if queueEmpty ?g then ?g\<lparr>Heap := [], Front := 0, Sorted := True\<rparr> else ?g)"
    define h where "h = useHeap e"
    define k where "k = h\<lparr>Position := (Position h)[unat V := int (length (Heap h))], Heap := Heap h @ [V]\<rparr>"
    have ins: "insertVar A V q = (if Sorted e \<and> (Heap e = [] \<or> \<not> higher A V (last (Heap e)))
        then e\<lparr>Position := (Position e)[unat V := int (length (Heap e))], Heap := Heap e @ [V]\<rparr>
        else siftUp A (length (Heap k) - 1) k)"
      using False unfolding insertVar_def Let_def e_def [symmetric] h_def k_def by simp
    have "\<not> contains ?g V" using False by (simp add: contains_def)
    then have nm: "V \<notin> members ?g" using contains_members [of ?g V] g by simp
    have e: "queue_ok e" "members e = members ?g" "length (Position e) = length (Position ?g)"
      using g by (auto simp: e_def queueEmpty_def queue_ok_def slots_ok_def members_def)
    have h: "queue_ok h" "members h = members ?g" "length (Position h) = length (Position ?g)" "Front h = 0"
      using useHeap_ok [OF e(1)] e by (simp_all add: h_def)
    have k: "queue_ok k" "members k = insert V (members q)" "length (Position k) = length (Position ?g)" "Front k = 0" "Heap k \<noteq> []"
      using append_slot [OF h(1), of V] h nm V g by (simp_all add: k_def)
    show ?thesis
    proof (cases "Sorted e \<and> (Heap e = [] \<or> \<not> higher A V (last (Heap e)))")
      case True
      then show ?thesis using append_slot [OF e(1), of V] e nm V g by (simp add: ins)
    next
      case n: False
      have "resifted k (siftUp A (length (Heap k) - 1) k)" by (rule siftUp_ok [OF k(1)]) (use k in simp_all)
      moreover have "insertVar A V q = siftUp A (length (Heap k) - 1) k" using n by (simp only: ins if_False)
      ultimately show ?thesis using k g by (simp add: resifted_def)
    qed
  qed
qed

lemma increased_ok:
  assumes "queue_ok q"
  shows "queue_ok (increased A V q) \<and> members (increased A V q) = members q \<and>
    length (Position (increased A V q)) = length (Position q)"
proof (cases "contains q V")
  case True
  let ?h = "useHeap q"
  note h = useHeap_ok [OF assms]
  have "V \<in> members ?h" using True contains_members [OF assms] h by simp
  then obtain i where i: "i < length (Heap ?h)" "Heap ?h ! i = V" using h members_iff [of V ?h] by auto
  then have p: "Position ?h ! unat V = int i"
    using slots_okD(2) [of ?h i] h by (simp add: queue_ok_def)
  have "increased A V q = siftUp A i ?h" using True p by (simp add: increased_def contains_def Let_def)
  with siftUp_ok [of ?h i A] h i show ?thesis by (simp add: resifted_def)
next
  case False
  then show ?thesis using assms by (auto simp: increased_def contains_def)
qed

lemma removeMax_ok:
  assumes "queue_ok q" "\<not> queueEmpty q" "removeMax A q = (Top, q')"
  shows "Top \<in> members q \<and> queue_ok q' \<and> members q' = members q - {Top} \<and>
    length (Position q') = length (Position q) \<and> Suc (queueSize q') = queueSize q"
proof -
  have s: "slots_ok q" and F: "Front q < length (Heap q)" using assms by (auto simp: queue_ok_def queueEmpty_def)
  show ?thesis
  proof (cases "Sorted q")
    case True
    then have T: "Top = Heap q ! Front q" "q' = q\<lparr>Front := Front q + 1, Position := (Position q)[unat Top := - 1]\<rparr>"
      using assms(3) by (auto simp: removeMax_def Let_def)
    have split: "drop (Front q) (Heap q) = Top # drop (Suc (Front q)) (Heap q)"
      using F by (simp add: T Cons_nth_drop_Suc)
    then have m: "members q' = members q - {Top}" "Top \<in> members q"
      using live_distinct [OF s] by (auto simp: members_def T(2))
    have ne: "Heap q ! i \<noteq> Top" if "Front q < i" "i < length (Heap q)" for i
      using slots_inj [OF s, of i "Front q"] that F T(1) by auto
    have "slots_ok q'"
      unfolding slots_ok_def
    proof (intro conjI allI impI)
      fix i assume i: "Front q' \<le> i \<and> i < length (Heap q')"
      then show "unat (Heap q' ! i) < length (Position q')" "Position q' ! unat (Heap q' ! i) = int i"
        using slots_okD [OF s, of i] ne [of i] by (auto simp: T(2) nth_list_update)
    next
      fix v assume v: "v < length (Position q')" "Position q' ! v \<noteq> - 1"
      then have nT: "v \<noteq> unat Top" by (auto simp: T(2))
      with v s obtain i where i: "Front q \<le> i" "i < length (Heap q)" "v = unat (Heap q ! i)"
        unfolding slots_ok_def by (auto simp: T(2))
      moreover from this nT have "i \<noteq> Front q" by (auto simp: T(1))
      ultimately show "\<exists>i. Front q' \<le> i \<and> i < length (Heap q') \<and> v = unat (Heap q' ! i)"
        by (intro exI [of _ i]) (auto simp: T(2))
    qed
    then show ?thesis using m F True assms(1) by (simp add: queue_ok_def T(2) queueSize_def)
  next
    case False
    then have F0: "Front q = 0" using assms(1) by (simp add: queue_ok_def)
    define u where "u = q\<lparr>Position := (Position q)[unat (hd (Heap q)) := - 1], Heap := butlast (Heap q)\<rparr>"
    have ne: "Heap q \<noteq> []" using F by auto
    then have T: "Top = Heap q ! 0" "q' = (if Heap u \<noteq> [] then siftDown A 0 (put 0 (last (Heap q)) u) else u)"
      using assms(3) False by (auto simp: removeMax_def Let_def u_def hd_conv_nth split: if_splits)
    have d: "distinct (Heap q)" using live_distinct [OF s] F0 by simp
    have r: "\<forall>V \<in> set (Heap q). unat V < length (Position q)" using members_range [OF assms(1)] F0 by (simp add: members_def)
    show ?thesis
    proof (cases "Heap u = []")
      case True
      then have "Heap q = [Top]" using ne T(1) by (cases "Heap q") (auto simp: u_def split: if_splits)
      then have "slots_ok u" "members u = {}" "members q = {Top}" "length (Heap q) = 1"
        using s F0 by (auto simp: slots_ok_def u_def members_def nth_list_update)
      then show ?thesis using T(2) True assms(1) F0 by (auto simp: queue_ok_def u_def queueSize_def)
    next
      case nu: False
      let ?L = "last (Heap q)" and ?n = "length (Heap q) - 1"
      have n: "0 < ?n" using nu ne by (cases "Heap q") (auto simp: u_def)
      have L: "?L = Heap q ! ?n" using ne by (simp add: last_conv_nth)
      define k where "k = put 0 ?L u"
      have H: "Heap k = (butlast (Heap q))[0 := ?L]" and P: "Position k = (Position q)[unat Top := - 1, unat ?L := 0]"
        and kf: "Front k = 0" "Sorted k = False" "length (Position k) = length (Position q)"
        using ne F0 False by (simp_all add: k_def u_def put_def T(1) hd_conv_nth)
      have TL: "Top \<noteq> ?L" using d n ne by (simp add: T(1) L nth_eq_iff_index_eq)
      have nth: "Heap k ! i = (if i = 0 then ?L else Heap q ! i)" if "i < ?n" for i
        using that by (simp add: H nth_butlast nth_list_update)
      have lk: "length (Heap k) = ?n" by (simp add: H)
      obtain B where B: "Heap q = Top # B @ [?L]"
      proof (cases "Heap q")
        case (Cons x xs)
        then have "xs \<noteq> []" using n by auto
        with Cons T(1) that [of "butlast xs"] show thesis by simp
      qed (use ne in simp)
      have "butlast (Heap q) = Top # B" by (subst B) (simp add: butlast_append)
      then have Hk: "Heap k = ?L # B" by (simp add: H)
      have "distinct (Top # B @ [?L])" using d B by simp
      then have dk: "distinct (Heap k)" and nT: "Top \<notin> set (Heap k)" by (auto simp: Hk)
      have "set (Heap q) = set (Top # B @ [?L])" using B by simp
      then have hq: "set (Heap q) = insert Top (set (Heap k))" "Top \<notin> set (Heap k)" using nT by (auto simp: Hk)
      have "slots_ok k"
      proof (rule slots_ok_fresh [OF kf(1) dk])
        show "\<forall>V \<in> set (Heap k). unat V < length (Position k)" using r hq kf by simp
        show "Position k ! unat (Heap k ! i) = int i" if i: "i < length (Heap k)" for i
        proof (cases "i = 0")
          case True
          then show ?thesis using nth [of 0] n r ne by (simp add: P)
        next
          case i0: False
          have "i < length (Heap q)" "0 < length (Heap q)" "?n < length (Heap q)" "i \<noteq> ?n" using i lk n by linarith+
          then have "Heap q ! i \<noteq> Top" "Heap q ! i \<noteq> ?L"
            using d i0 by (simp_all add: T(1) L nth_eq_iff_index_eq)
          then show ?thesis using slots_okD(2) [OF s, of i] i i0 lk nth [of i] F0 by (simp add: P)
        qed
        show "Position k ! v = - 1" if v: "v < length (Position k)" "v \<notin> unat ` set (Heap k)" for v
        proof (cases "v = unat Top")
          case True
          then show ?thesis using TL v kf by (simp add: P)
        next
          case vT: False
          then have "v \<notin> unat ` members q" using v(2) hq F0 by (auto simp: members_def)
          moreover have "v \<noteq> unat ?L" using v(2) nth [of 0] n lk by (metis image_eqI nth_mem)
          ultimately show ?thesis using not_live [OF s] v kf vT by (simp add: P)
        qed
      qed
      then have qk: "queue_ok k" using kf by (simp add: queue_ok_def)
      have "resifted k (siftDown A 0 k)" by (rule siftDown_ok [OF qk]) (use kf lk n in simp_all)
      moreover have "q' = siftDown A 0 k" using T(2) nu by (simp add: k_def)
      moreover have "members k = members q - {Top}" "Top \<in> members q" using hq kf F0 by (auto simp: members_def)
      ultimately show ?thesis using kf lk n F0 by (simp add: resifted_def queueSize_def)
    qed
  qed
qed

section \<open>The contract of a decision queue\<close>

text \<open>Taking entries off a queue until it is empty, at most \<open>n\<close> of them.\<close>

primrec drain :: "('q \<Rightarrow> bool) \<Rightarrow> ('q \<Rightarrow> 'v \<times> 'q) \<Rightarrow> nat \<Rightarrow> 'q \<Rightarrow> 'v list" where
  "drain none pop 0 q = []"
| "drain none pop (Suc n) q = (if none q then [] else case pop q of (v, q) \<Rightarrow> v # drain none pop n q)"

locale decision_queue =
  fixes ok none :: "'q \<Rightarrow> bool" and mem :: "'q \<Rightarrow> 'v set" and push :: "'v \<Rightarrow> 'q \<Rightarrow> 'q" and pop :: "'q \<Rightarrow> 'v \<times> 'q"
  assumes mem_finite: "finite (mem q)"
    and none_iff: "ok q \<Longrightarrow> none q \<longleftrightarrow> mem q = {}"
    and push_ok: "ok q \<Longrightarrow> ok (push v q) \<and> mem (push v q) = insert v (mem q)"
    and pop_ok: "ok q \<Longrightarrow> \<not> none q \<Longrightarrow> pop q = (v, q') \<Longrightarrow> v \<in> mem q \<and> ok q' \<and> mem q' = mem q - {v}"
begin

lemma push_all: "ok q \<Longrightarrow> ok (fold push vs q) \<and> mem (fold push vs q) = set vs \<union> mem q"
  by (induction vs arbitrary: q) (auto simp: push_ok)

lemma drain_all:
  assumes "ok q" "card (mem q) \<le> n"
  shows "set (drain none pop n q) = mem q \<and> distinct (drain none pop n q)"
  using assms
proof (induction n arbitrary: q)
  case 0
  then show ?case using mem_finite [of q] by simp
next
  case (Suc n)
  show ?case
  proof (cases "none q")
    case True
    then show ?thesis using none_iff [OF Suc.prems(1)] by simp
  next
    case False
    obtain v q' where p: "pop q = (v, q')" by fastforce
    note o = pop_ok [OF Suc.prems(1) False p]
    have "card (mem q') \<le> n" using o Suc.prems(2) mem_finite [of q] by simp
    with Suc.IH [of q'] o False p show ?thesis by auto
  qed
qed

end

interpretation activity: decision_queue queue_ok queueEmpty members "insertVar A" "removeMax A"
proof
  fix q V q' v
  show "finite (members q)" by (simp add: members_def)
  assume ok: "queue_ok q"
  show "queueEmpty q \<longleftrightarrow> members q = {}" using ok by (auto simp: members_def queueEmpty_def queue_ok_def)
  show "queue_ok (insertVar A v q) \<and> members (insertVar A v q) = insert v (members q)" using insertVar_ok [OF ok] by blast
  assume "\<not> queueEmpty q" "removeMax A q = (v, q')"
  from removeMax_ok [OF ok this] show "v \<in> members q \<and> queue_ok q' \<and> members q' = members q - {v}" by blast
qed

text \<open>
  C14.  The decision queue neither loses nor repeats a variable: whatever is put in, in any order and
  with repetitions, comes out again, each variable once.\<close>

theorem queue_drains:
  "set (drain queueEmpty (removeMax Activity) (length Vs) (fold (insertVar Activity) Vs emptyQueue)) = set Vs \<and>
   distinct (drain queueEmpty (removeMax Activity) (length Vs) (fold (insertVar Activity) Vs emptyQueue))"
proof -
  have e: "queue_ok emptyQueue" "members emptyQueue = {}"
    by (simp_all add: queue_ok_def slots_ok_def emptyQueue_def members_def)
  let ?q = "fold (insertVar Activity) Vs emptyQueue"
  have q: "queue_ok ?q" "members ?q = set Vs" using activity.push_all [OF e(1), of Activity Vs] e(2) by simp_all
  then have "card (members ?q) \<le> length Vs" by (simp add: card_length)
  from activity.drain_all [OF q(1) this, of Activity] q(2) show ?thesis by simp
qed

end
