(* ===== verification/Sat_Marks.thy ===== *)
theory Sat_Marks
  imports Sat_Search Sat_Levels Sat_Order
begin

text \<open>
  Conflict analysis, one clause at a time.  \<open>core_frame\<close> is what the heuristics leave alone;
  \<open>analysis_ok\<close> says which variables are marked, counted and collected while part of the trail is
  still ahead, and \<open>blocked\<close> that the marked literals cannot all be true.
\<close>

section \<open>What the heuristics leave alone\<close>

definition core_frame :: "SatEngine \<Rightarrow> SatEngine \<Rightarrow> bool" where
  "core_frame s s' \<longleftrightarrow>
     Trail s' = Trail s \<and> TrailLim s' = TrailLim s \<and> Level s' = Level s \<and> Reason s' = Reason s \<and> Value s' = Value s \<and>
     Watches s' = Watches s \<and> Clauses s' = Clauses s \<and> Learnt s' = Learnt s \<and> QueueHead s' = QueueHead s \<and>
     Decidable s' = Decidable s \<and> Phase s' = Phase s \<and> ArenaWords s' = ArenaWords s \<and> Opts s' = Opts s \<and>
     Falsified s' = Falsified s \<and> OutOfSpace s' = OutOfSpace s \<and> SearchAttempted s' = SearchAttempted s \<and>
     ConflictBudgetAt s' = ConflictBudgetAt s \<and> PropagationBudgetAt s' = PropagationBudgetAt s \<and>
     WatchVisitBudgetAt s' = WatchVisitBudgetAt s \<and> Model s' = Model s \<and> FailedAssumptions s' = FailedAssumptions s \<and>
     Conflicts (Stats s') = Conflicts (Stats s) \<and>
     dom (Arena s') = dom (Arena s) \<and> clits (Arena s') = clits (Arena s) \<and>
     length (Seen s') = length (Seen s) \<and> length (Activity s') = length (Activity s) \<and>
     (queue_ok (Order s) \<longrightarrow> queue_ok (Order s') \<and> members (Order s') = members (Order s) \<and>
        length (Position (Order s')) = length (Position (Order s)))"

lemma core_frame_refl [simp]: "core_frame s s"
  by (simp add: core_frame_def)

lemma core_frame_trans:
  assumes "core_frame s t" "core_frame t u"
  shows "core_frame s u"
  using assms unfolding core_frame_def by presburger

lemma core_frame_derived:
  assumes "core_frame s s'"
  shows "refs s' = refs s" "numVars s' = numVars s" "decisionLevel s' = decisionLevel s"
    "CLits (getClause s' r) = CLits (getClause s r)" "litValue s' L = litValue s L" "processed s' = processed s"
    "Trail s' = Trail s" "TrailLim s' = TrailLim s" "Level s' = Level s" "Reason s' = Reason s" "clits (Arena s') = clits (Arena s)"
    "dom (Arena s') = dom (Arena s)" "Learnt s' = Learnt s" "Opts s' = Opts s"
proof -
  have c: "clits (Arena s') r = clits (Arena s) r" using assms by (simp add: core_frame_def)
  then show "CLits (getClause s' r) = CLits (getClause s r)" by (simp add: clits_def getClause_def)
qed (use assms in \<open>simp_all add: core_frame_def refs_def numVars_def decisionLevel_def litValue_def processed_def\<close>)

lemma core_frame_seen [simp]: "length m = length (Seen s) \<Longrightarrow> core_frame s (s\<lparr>Seen := m\<rparr>)"
  by (simp add: core_frame_def)

lemma bumpVarActivity_frame: "core_frame s (bumpVarActivity V s)" "Seen (bumpVarActivity V s) = Seen s"
  using increased_ok by (auto simp: bumpVarActivity_def Let_def core_frame_def)

lemma setActivity_clits: "CLits c = clits A r \<Longrightarrow> clits (A(r \<mapsto> setActivity a c)) = clits A"
  by (auto simp: clits_def setActivity_def)

lemma setActivity_frame:
  assumes "r \<in> dom (Arena s)"
  shows "core_frame s (setClause r (setActivity a (getClause s r)) s)"
proof -
  have "clits ((Arena s)(r \<mapsto> setActivity a (getClause s r))) = clits (Arena s)"
    by (rule setActivity_clits) (simp add: getClause_def clits_def)
  moreover have "insert r (dom (Arena s)) = dom (Arena s)" using assms by (rule insert_absorb)
  ultimately show ?thesis by (simp add: core_frame_def setClause_def)
qed

lemma setClause_seen [simp]: "Seen (setClause r c s) = Seen s" "ClauseInc (setClause r c s) = ClauseInc s"
  by (simp_all add: setClause_def)

lemma scaleClause_frame:
  "r \<in> dom (Arena s) \<Longrightarrow> core_frame s (scaleClause r s)" "Seen (scaleClause r s) = Seen s"
  using setActivity_frame by (simp_all add: scaleClause_def Let_def)

lemma scaleAll_frame:
  "set rs \<subseteq> dom (Arena s) \<Longrightarrow> core_frame s (fold scaleClause rs s) \<and> Seen (fold scaleClause rs s) = Seen s"
proof (induction rs arbitrary: s)
  case (Cons r rs)
  then have f: "core_frame s (scaleClause r s)" by (intro scaleClause_frame) simp
  moreover have "set rs \<subseteq> dom (Arena (scaleClause r s))" using Cons.prems core_frame_derived(12) [OF f] by simp
  ultimately show ?case using Cons.IH [of "scaleClause r s"] core_frame_trans [OF f] by (simp add: scaleClause_frame)
qed simp

lemma bumpClauseActivity_frame:
  assumes "r \<in> dom (Arena s)" "set (Learnt s) \<subseteq> dom (Arena s)"
  shows "core_frame s (bumpClauseActivity r s)" "Seen (bumpClauseActivity r s) = Seen s"
proof -
  define t where "t = setClause r (setActivity (toFloat (CActivity (getClause s r) + toFloat (ClauseInc s))) (getClause s r)) s"
  have t: "core_frame s t" "Seen t = Seen s" using setActivity_frame [OF assms(1)] by (simp_all add: t_def)
  note u = scaleAll_frame [of "Learnt t" t]
  have sub: "set (Learnt t) \<subseteq> dom (Arena t)" using assms(2) core_frame_derived(12,13) [OF t(1)] by simp
  have "core_frame (fold scaleClause (Learnt t) t) ((fold scaleClause (Learnt t) t)\<lparr>ClauseInc := c\<rparr>)" for c
    by (simp add: core_frame_def)
  then have v: "core_frame s ((fold scaleClause (Learnt t) t)\<lparr>ClauseInc := c\<rparr>)" for c
    using u [OF sub] t(1) core_frame_trans by blast
  show "core_frame s (bumpClauseActivity r s)" "Seen (bumpClauseActivity r s) = Seen s"
    using t v u [OF sub] by (simp_all add: bumpClauseActivity_def Let_def t_def [symmetric])
qed

section \<open>Marks\<close>

definition marked :: "SatEngine \<Rightarrow> nat \<Rightarrow> bool" where
  "marked s i \<longleftrightarrow> Seen s ! unat (var (Trail s ! i))"

definition rootTrail :: "SatEngine \<Rightarrow> SatLit list" where
  "rootTrail s = (if TrailLim s = [] then Trail s else take (TrailLim s ! 0) (Trail s))"

definition formula :: "SatEngine \<Rightarrow> assignment set" where
  "formula s = models_of (Arena s) (refs s) (rootTrail s)"

text \<open>
  The state of the analysis when the first \<open>n\<close> entries of the trail are still ahead: marks are on
  variables above the root, those of the current level are ahead and are counted, and the others are
  the literals collected.
\<close>

definition analysis_ok :: "SatEngine \<Rightarrow> nat \<Rightarrow> Analysis \<Rightarrow> bool" where
  "analysis_ok s n a \<longleftrightarrow>
     length (Seen s) = numVars s \<and> n \<le> length (Trail s) \<and>
     (\<forall>v < numVars s. Seen s ! v \<longrightarrow> v \<in> unat ` set (ToClear a) \<and>
        (\<exists>i < length (Trail s). unat (var (Trail s ! i)) = v \<and> 0 < levelAt (TrailLim s) i \<and>
           (levelAt (TrailLim s) i = decisionLevel s \<longrightarrow> i < n))) \<and>
     PathCount a = card {i. i < n \<and> levelAt (TrailLim s) i = decisionLevel s \<and> marked s i} \<and>
     (\<exists>Ls. LearntLits a = noLit # Ls \<and> distinct Ls \<and>
        set Ls = (\<lambda>i. negl (Trail s ! i)) ` {i. i < length (Trail s) \<and> levelAt (TrailLim s) i < decisionLevel s \<and> marked s i})"

text \<open>The marked literals cannot all be true in a model of the formula.\<close>

definition blocked :: "assignment set \<Rightarrow> SatEngine \<Rightarrow> bool" where
  "blocked F s \<longleftrightarrow> (\<forall>m \<in> F. \<exists>i < length (Trail s). marked s i \<and> \<not> lit_true m (Trail s ! i))"

lemma trail_var_inj:
  assumes "trail_ok Val T" "i < length T" "j < length T" "var (T ! i) = var (T ! j)"
  shows "i = j"
proof -
  have "distinct (map var T)" using assms(1) by (simp add: trail_ok_def)
  then show ?thesis using assms(2-4) by (metis length_map nth_eq_iff_index_eq nth_map)
qed

lemma analysis_ok_frame:
  assumes "core_frame s s'" "Seen s' = Seen s" "analysis_ok s n a"
  shows "analysis_ok s' n a"
  using assms(2,3) core_frame_derived [OF assms(1)] by (simp add: analysis_ok_def marked_def)

definition noteLit :: "SatEngine \<Rightarrow> SatLit \<Rightarrow> Analysis \<Rightarrow> Analysis" where
  "noteLit s Q a =
     (let a = a\<lparr>ToClear := ToClear a @ [var Q]\<rparr> in
      if Level s ! unat (var Q) \<ge> decisionLevel s then a\<lparr>PathCount := PathCount a + 1\<rparr>
      else a\<lparr>LearntLits := LearntLits a @ [Q]\<rparr>)"

lemma level_of_false:
  assumes "levels_ok s" "i < length (Trail s)" "Trail s ! i = negl Q"
  shows "Level s ! unat (var Q) = levelAt (TrailLim s) i"
proof -
  have "Level s ! unat (var (Trail s ! i)) = levelAt (TrailLim s) i" using assms(1,2) by (simp add: levels_ok_def)
  then show ?thesis by (simp add: assms(3))
qed

lemma mark_ok:
  assumes ok: "analysis_ok s n a" and lv: "levels_ok s" and t: "trail_ok (Value s) (Trail s)"
    and i: "i < n" "Trail s ! i = negl Q" and un: "\<not> Seen s ! unat (var Q)" "0 < Level s ! unat (var Q)"
  defines "s1 \<equiv> s\<lparr>Seen := (Seen s)[unat (var Q) := True]\<rparr>"
  shows "analysis_ok s1 n (noteLit s Q a)"
    "\<And>j. j < length (Trail s) \<Longrightarrow> marked s1 j \<longleftrightarrow> marked s j \<or> j = i"
proof -
  let ?d = "decisionLevel s" and ?TL = "TrailLim s"
  have len: "length (Seen s) = numVars s" and n: "n \<le> length (Trail s)" using ok by (simp_all add: analysis_ok_def)
  have iT: "i < length (Trail s)" using i n by simp
  have vi: "var (Trail s ! i) = var Q" by (simp add: i)
  have lvl: "Level s ! unat (var Q) = levelAt ?TL i" by (rule level_of_false [OF lv iT i(2)])
  have Qn: "unat (var Q) < numVars s"
    using t nth_mem [OF iT] vi by (auto simp: trail_ok_def numVars_def)
  show m: "marked s1 j \<longleftrightarrow> marked s j \<or> j = i" if "j < length (Trail s)" for j
  proof (cases "j = i")
    case True
    then show ?thesis using Qn len vi by (simp add: marked_def s1_def)
  next
    case False
    then have "var (Trail s ! j) \<noteq> var Q" using trail_var_inj [OF t that iT] vi by auto
    then show ?thesis using False by (simp add: marked_def s1_def)
  qed
  have mi: "\<not> marked s i" using un(1) vi by (simp add: marked_def)
  have ld: "levelAt ?TL i \<le> ?d" by (simp add: decisionLevel_def levelAt_le)
  have same: "Trail s1 = Trail s" "TrailLim s1 = TrailLim s" "decisionLevel s1 = decisionLevel s" "numVars s1 = numVars s"
    by (simp_all add: s1_def decisionLevel_def numVars_def)
  have clear: "ToClear (noteLit s Q a) = ToClear a @ [var Q]" by (simp add: noteLit_def Let_def)
  have seen: "v \<in> unat ` set (ToClear (noteLit s Q a)) \<and>
        (\<exists>j < length (Trail s). unat (var (Trail s ! j)) = v \<and> 0 < levelAt ?TL j \<and> (levelAt ?TL j = ?d \<longrightarrow> j < n))"
    if "v < numVars s" "Seen s1 ! v" for v
  proof (cases "v = unat (var Q)")
    case True
    then show ?thesis using iT i(1) vi un(2) lvl by (auto simp: clear)
  next
    case False
    then have "Seen s ! v" using that(2) by (simp add: s1_def)
    with ok that(1) show ?thesis by (auto simp: analysis_ok_def clear)
  qed
  have path: "{j. j < n \<and> levelAt ?TL j = ?d \<and> marked s1 j} =
      (if levelAt ?TL i = ?d then insert i {j. j < n \<and> levelAt ?TL j = ?d \<and> marked s j}
       else {j. j < n \<and> levelAt ?TL j = ?d \<and> marked s j})"
    using m n i(1) by (auto simp: less_le_trans)
  obtain Ls where Ls: "LearntLits a = noLit # Ls" "distinct Ls"
    "set Ls = (\<lambda>i. negl (Trail s ! i)) ` {i. i < length (Trail s) \<and> levelAt ?TL i < ?d \<and> marked s i}"
    using ok by (auto simp: analysis_ok_def)
  have low: "{j. j < length (Trail s) \<and> levelAt ?TL j < ?d \<and> marked s1 j} =
      (if levelAt ?TL i < ?d then insert i {j. j < length (Trail s) \<and> levelAt ?TL j < ?d \<and> marked s j}
       else {j. j < length (Trail s) \<and> levelAt ?TL j < ?d \<and> marked s j})"
    using m iT by auto
  have pc: "PathCount a = card {j. j < n \<and> levelAt ?TL j = ?d \<and> marked s j}" using ok by (simp add: analysis_ok_def)
  have new: "Q \<notin> set Ls"
  proof
    assume "Q \<in> set Ls"
    then obtain j where j: "j < length (Trail s)" "marked s j" "Q = negl (Trail s ! j)" by (auto simp: Ls(3))
    then have "j = i" using trail_var_inj [OF t j(1) iT] vi by simp
    with j mi show False by simp
  qed
  show "analysis_ok s1 n (noteLit s Q a)"
  proof (cases "levelAt ?TL i = ?d")
    case True
    then have a: "PathCount (noteLit s Q a) = Suc (PathCount a)" "LearntLits (noteLit s Q a) = LearntLits a"
      by (simp_all add: noteLit_def lvl Let_def)
    have "card {j. j < n \<and> levelAt ?TL j = ?d \<and> marked s1 j} = Suc (PathCount a)"
      unfolding path using True mi pc by simp
    then show ?thesis
      unfolding analysis_ok_def same low using True len n seen Ls by (auto simp: a s1_def)
  next
    case False
    then have lt: "levelAt ?TL i < ?d" using ld by simp
    then have a: "PathCount (noteLit s Q a) = PathCount a" "LearntLits (noteLit s Q a) = LearntLits a @ [Q]"
      by (simp_all add: noteLit_def lvl Let_def)
    have "\<exists>Ls. LearntLits (noteLit s Q a) = noLit # Ls \<and> distinct Ls \<and>
        set Ls = (\<lambda>i. negl (Trail s ! i)) ` {j. j < length (Trail s) \<and> levelAt ?TL j < ?d \<and> marked s1 j}"
      unfolding low using lt Ls new i(2) by (intro exI [of _ "Ls @ [Q]"]) (auto simp: a)
    then show ?thesis
      unfolding analysis_ok_def same path using False len n seen pc by (simp add: a s1_def)
  qed
qed

lemma levels_ok_frame: "core_frame s s' \<Longrightarrow> levels_ok s \<Longrightarrow> levels_ok s'"
  using core_frame_derived [of s s'] by (simp add: levels_ok_def)

lemma trail_ok_frame: "core_frame s s' \<Longrightarrow> trail_ok (Value s') (Trail s') \<longleftrightarrow> trail_ok (Value s) (Trail s)"
  by (simp add: core_frame_def)

lemma analyzeLits_ok:
  assumes "analysis_ok s n a" "levels_ok s" "trail_ok (Value s) (Trail s)"
    "\<forall>Q \<in> set Qs. \<exists>i < n. Trail s ! i = negl Q" "analyzeLits Qs a s = (a', s')"
  shows "analysis_ok s' n a' \<and> core_frame s s' \<and>
    (\<forall>i < length (Trail s). marked s' i \<longleftrightarrow> marked s i \<or> 0 < levelAt (TrailLim s) i \<and> (\<exists>Q \<in> set Qs. Trail s ! i = negl Q))"
  using assms
proof (induction Qs arbitrary: a s)
  case (Cons Q Qs)
  note ok = Cons.prems(1) and lv = Cons.prems(2) and t = Cons.prems(3)
  obtain i where i: "i < n" "Trail s ! i = negl Q" using Cons.prems(4) by auto
  have iT: "i < length (Trail s)" using i(1) ok by (simp add: analysis_ok_def)
  have vi: "var (Trail s ! i) = var Q" by (simp add: i)
  have lvl: "Level s ! unat (var Q) = levelAt (TrailLim s) i" by (rule level_of_false [OF lv iT i(2)])
  have uniq: "j = i" if "j < length (Trail s)" "Trail s ! j = negl Q" for j
    using trail_var_inj [OF t that(1) iT] that(2) vi by simp
  show ?case
  proof (cases "Seen s ! unat (var Q) \<or> Level s ! unat (var Q) = 0")
    case True
    then have "analyzeLits Qs a s = (a', s')" using Cons.prems(5) by (simp add: Let_def)
    from Cons.IH [OF ok lv t _ this] Cons.prems(4)
    have IH: "analysis_ok s' n a' \<and> core_frame s s' \<and>
      (\<forall>i < length (Trail s). marked s' i \<longleftrightarrow> marked s i \<or> 0 < levelAt (TrailLim s) i \<and> (\<exists>Q \<in> set Qs. Trail s ! i = negl Q))"
      by simp
    moreover have "marked s j" if "j < length (Trail s)" "Trail s ! j = negl Q" "0 < levelAt (TrailLim s) j" for j
      using uniq [OF that(1,2)] that True lvl vi by (simp add: marked_def)
    ultimately show ?thesis by auto
  next
    case False
    define s1 where "s1 = s\<lparr>Seen := (Seen s)[unat (var Q) := True]\<rparr>"
    define s2 where "s2 = bumpVarActivity (var Q) s1"
    have f1: "core_frame s s1" by (simp add: s1_def)
    have f2: "core_frame s1 s2" "Seen s2 = Seen s1" by (simp_all add: s2_def bumpVarActivity_frame)
    have f: "core_frame s s2" by (rule core_frame_trans [OF f1 f2(1)])
    note d = core_frame_derived [OF f]
    note mk = mark_ok [OF ok lv t i, folded s1_def]
    have un: "\<not> Seen s ! unat (var Q)" "0 < Level s ! unat (var Q)" using False by simp_all
    have ok2: "analysis_ok s2 n (noteLit s Q a)" by (rule analysis_ok_frame [OF f2 mk(1) [OF un]])
    have m2: "marked s2 j \<longleftrightarrow> marked s j \<or> j = i" if "j < length (Trail s)" for j
      using mk(2) [OF un that] f2 core_frame_derived(7) [OF f2(1)] by (simp add: marked_def)
    have note2: "analyzeLits Qs (noteLit s Q a) s2 = (a', s')"
      using Cons.prems(5) False d(3,9) by (simp add: Let_def noteLit_def s1_def [symmetric] s2_def [symmetric])
    have "trail_ok (Value s2) (Trail s2)" using t trail_ok_frame [OF f] by simp
    from Cons.IH [OF ok2 levels_ok_frame [OF f lv] this _ note2] Cons.prems(4) d(7)
    have IH: "analysis_ok s' n a' \<and> core_frame s2 s' \<and>
      (\<forall>i < length (Trail s). marked s' i \<longleftrightarrow> marked s2 i \<or> 0 < levelAt (TrailLim s) i \<and> (\<exists>Q \<in> set Qs. Trail s ! i = negl Q))"
      by (simp add: d)
    have "marked s' j \<longleftrightarrow> marked s j \<or> 0 < levelAt (TrailLim s) j \<and> (\<exists>Q \<in> set (Q # Qs). Trail s ! j = negl Q)"
      if "j < length (Trail s)" for j
      using IH m2 that uniq i(2) un(2) lvl by auto
    with IH core_frame_trans [OF f] show ?thesis by blast
  qed
qed simp

lemma levelAt_0:
  assumes "sorted TL"
  shows "levelAt TL i = 0 \<longleftrightarrow> (TL = [] \<or> i < TL ! 0)"
  using assms by (cases TL) (fastforce simp: levelAt_def filter_empty_conv)+

lemma root_level:
  assumes "levels_ok s" "i < length (Trail s)" "levelAt (TrailLim s) i = 0"
  shows "Trail s ! i \<in> set (rootTrail s)"
  using assms levelAt_0 [of "TrailLim s" i]
  by (auto simp: rootTrail_def levels_ok_def in_set_conv_nth)

lemma level_between:
  assumes "levelAt TL i = length TL" "i \<le> j"
  shows "levelAt TL j = length TL"
  using levelAt_mono [OF assms(2), of TL] levelAt_le [of TL j] assms(1) by simp

text \<open>A level has one start: an entry above another of its level is not the start.\<close>

lemma levelAt_start: "j \<in> set TL \<Longrightarrow> i < j \<Longrightarrow> levelAt TL i < levelAt TL j"
proof (induction TL)
  case (Cons b TL)
  have "levelAt TL i \<le> levelAt TL j" by (rule levelAt_mono) (use Cons.prems in simp)
  with Cons show ?case by (auto simp: levelAt_def)
qed simp

lemma not_start: "i < j \<Longrightarrow> levelAt TL i = levelAt TL j \<Longrightarrow> j \<notin> set TL"
  using levelAt_start [of j TL i] by auto

lemma unmark_ok:
  assumes ok: "analysis_ok s (Suc n) a" and t: "trail_ok (Value s) (Trail s)" and m: "marked s n"
    and d: "levelAt (TrailLim s) n = decisionLevel s"
  defines "s1 \<equiv> s\<lparr>Seen := (Seen s)[unat (var (Trail s ! n)) := False]\<rparr>"
  shows "analysis_ok s1 n (a\<lparr>PathCount := PathCount a - 1\<rparr>)"
    "\<And>j. j < length (Trail s) \<Longrightarrow> marked s1 j \<longleftrightarrow> marked s j \<and> j \<noteq> n"
proof -
  let ?d = "decisionLevel s" and ?TL = "TrailLim s" and ?V = "unat (var (Trail s ! n))"
  have len: "length (Seen s) = numVars s" and n: "n < length (Trail s)" using ok by (simp_all add: analysis_ok_def)
  have Vn: "?V < numVars s" using t nth_mem [OF n] by (auto simp: trail_ok_def numVars_def)
  show mm: "marked s1 j \<longleftrightarrow> marked s j \<and> j \<noteq> n" if "j < length (Trail s)" for j
  proof (cases "j = n")
    case True
    then show ?thesis using Vn len by (simp add: marked_def s1_def)
  next
    case False
    then have "unat (var (Trail s ! n)) \<noteq> unat (var (Trail s ! j))" using trail_var_inj [OF t that n] by auto
    with False show ?thesis by (simp add: marked_def s1_def)
  qed
  have same: "Trail s1 = Trail s" "TrailLim s1 = TrailLim s" "decisionLevel s1 = decisionLevel s" "numVars s1 = numVars s"
    by (simp_all add: s1_def decisionLevel_def numVars_def)
  have seen: "v \<in> unat ` set (ToClear a) \<and>
        (\<exists>j < length (Trail s). unat (var (Trail s ! j)) = v \<and> 0 < levelAt ?TL j \<and> (levelAt ?TL j = ?d \<longrightarrow> j < n))"
    if v: "v < numVars s" "Seen s1 ! v" for v
  proof -
    have ne: "?V \<noteq> v"
    proof
      assume "?V = v"
      then have "\<not> Seen s1 ! v" using Vn len by (auto simp: s1_def)
      with v(2) show False by simp
    qed
    have "Seen s ! v" using v(2) unfolding s1_def by (simp add: nth_list_update_neq [OF ne])
    then obtain j where j: "j < length (Trail s)" "unat (var (Trail s ! j)) = v" "0 < levelAt ?TL j"
        "levelAt ?TL j = ?d \<longrightarrow> j < Suc n" "v \<in> unat ` set (ToClear a)"
      using ok v(1) unfolding analysis_ok_def by blast
    moreover have "j \<noteq> n" using j(2) ne by auto
    ultimately show ?thesis by (auto simp: less_Suc_eq)
  qed
  have "{j. j < Suc n \<and> levelAt ?TL j = ?d \<and> marked s j} = insert n {j. j < n \<and> levelAt ?TL j = ?d \<and> marked s1 j}"
    using mm n m d by (auto simp: less_Suc_eq)
  moreover have "n \<notin> {j. j < n \<and> levelAt ?TL j = ?d \<and> marked s1 j}" by simp
  ultimately have pc: "PathCount a = Suc (card {j. j < n \<and> levelAt ?TL j = ?d \<and> marked s1 j})"
    using ok by (simp add: analysis_ok_def)
  have low: "{j. j < length (Trail s) \<and> levelAt ?TL j < ?d \<and> marked s1 j} = {j. j < length (Trail s) \<and> levelAt ?TL j < ?d \<and> marked s j}"
    using mm d by auto
  show "analysis_ok s1 n (a\<lparr>PathCount := PathCount a - 1\<rparr>)"
    unfolding analysis_ok_def same low
  proof (intro conjI)
    show "length (Seen s1) = numVars s" using len by (simp add: s1_def)
    show "PathCount (a\<lparr>PathCount := PathCount a - 1\<rparr>) = card {i. i < n \<and> levelAt ?TL i = ?d \<and> marked s1 i}" using pc by simp
  qed (use n seen ok in \<open>simp_all add: analysis_ok_def\<close>)
qed

lemma analysis_skip:
  assumes "analysis_ok s (Suc n) a" "\<not> marked s n" "trail_ok (Value s) (Trail s)"
  shows "analysis_ok s n a"
proof -
  have "{i. i < Suc n \<and> levelAt (TrailLim s) i = decisionLevel s \<and> marked s i} =
      {i. i < n \<and> levelAt (TrailLim s) i = decisionLevel s \<and> marked s i}" using assms(2) by (auto simp: less_Suc_eq)
  moreover have "i < n" if "i < Suc n" "Seen s ! unat (var (Trail s ! i))" for i
    using that assms(2) by (auto simp: marked_def less_Suc_eq)
  ultimately show ?thesis using assms(1) unfolding analysis_ok_def by (simp; metis)
qed

lemma analyzeClause_ok:
  assumes ok: "analysis_ok s n a" "levels_ok s" "trail_ok (Value s) (Trail s)"
    and r: "r \<in> dom (Arena s)" "set (Learnt s) \<subseteq> dom (Arena s)"
    and Q: "\<forall>Q \<in> set (drop k (clits (Arena s) r)). \<exists>i < n. Trail s ! i = negl Q"
    and e: "analyzeClause r k a s = (a', s')"
  shows "analysis_ok s' n a' \<and> core_frame s s' \<and>
    (\<forall>i < length (Trail s). marked s' i \<longleftrightarrow>
       marked s i \<or> 0 < levelAt (TrailLim s) i \<and> (\<exists>Q \<in> set (drop k (clits (Arena s) r)). Trail s ! i = negl Q))"
proof -
  define t where "t = (if CLearned (getClause s r) then bumpClauseActivity r s else s)"
  have f: "core_frame s t" "Seen t = Seen s" using bumpClauseActivity_frame [OF r] by (simp_all add: t_def)
  note d = core_frame_derived [OF f(1)]
  have "CLits (getClause t r) = CLits (getClause s r)" by (rule d(4))
  then have cl: "CLits (getClause t r) = clits (Arena s) r" by (simp only: getClause_def clits_def)
  have e': "analyzeLits (drop k (clits (Arena s) r)) a t = (a', s')"
    using e by (simp add: analyzeClause_def Let_def t_def [symmetric] cl)
  have tt: "trail_ok (Value t) (Trail t)" using ok(3) trail_ok_frame [OF f(1)] by simp
  have Q': "\<forall>Q \<in> set (drop k (clits (Arena s) r)). \<exists>i < n. Trail t ! i = negl Q" using Q d(7) by simp
  from analyzeLits_ok [OF analysis_ok_frame [OF f ok(1)] levels_ok_frame [OF f(1) ok(2)] tt Q' e'] f d core_frame_trans [OF f(1), of s']
  show ?thesis by (simp add: marked_def)
qed

text \<open>Replacing a pivot by its reason: what was blocked with the pivot marked is blocked without it.\<close>

lemma blocked_resolve:
  assumes b: "blocked F s" and F: "F \<subseteq> formula s" and lv: "levels_ok s" and n: "n < length (Trail s)"
    and r: "r \<in> refs s" "clits (Arena s) r ! 0 = Trail s ! n" "clits (Arena s) r \<noteq> []"
      "\<forall>L \<in> set (tl (clits (Arena s) r)). negl L \<in> set (Trail s)"
    and T: "Trail s' = Trail s"
    and m: "\<And>j. j < length (Trail s) \<Longrightarrow> marked s' j \<longleftrightarrow>
      marked s j \<and> j \<noteq> n \<or> 0 < levelAt (TrailLim s) j \<and> (\<exists>Q \<in> set (tl (clits (Arena s) r)). Trail s ! j = negl Q)"
  shows "blocked F s'"
  unfolding blocked_def T
proof (rule ballI, rule ccontr)
  fix m0 assume m0: "m0 \<in> F" and "\<not> (\<exists>i < length (Trail s). marked s' i \<and> \<not> lit_true m0 (Trail s ! i))"
  then have all: "lit_true m0 (Trail s ! i)" if "i < length (Trail s)" "marked s' i" for i using that by blast
  have fm: "m0 \<in> models_of (Arena s) (refs s) (rootTrail s)" using m0 F by (auto simp: formula_def)
  have "\<not> lit_true m0 L" if L: "L \<in> set (tl (clits (Arena s) r))" for L
  proof -
    have "negl L \<in> set (Trail s)" using r(4) L by blast
    then obtain j where j: "j < length (Trail s)" "Trail s ! j = negl L" by (auto simp: in_set_conv_nth)
    have "lit_true m0 (Trail s ! j)"
    proof (cases "levelAt (TrailLim s) j = 0")
      case True
      then show ?thesis using models_of_trail [OF fm] root_level [OF lv j(1)] by simp
    next
      case False
      then show ?thesis using all [OF j(1)] m [OF j(1)] j(2) L by blast
    qed
    then show ?thesis by (simp add: j(2))
  qed
  moreover have "clause_true m0 (clits (Arena s) r)" using fm r(1) by (simp add: models_of_def)
  ultimately have piv: "lit_true m0 (Trail s ! n)"
    using r(2,3) by (cases "clits (Arena s) r") (auto simp: clause_true_def)
  obtain i where i: "i < length (Trail s)" "marked s i" "\<not> lit_true m0 (Trail s ! i)"
    using b m0 by (auto simp: blocked_def)
  with piv have "i \<noteq> n" by auto
  with i m [OF i(1)] all [OF i(1)] show False by blast
qed

end
