(* ===== verification/Sat_Learning.thy ===== *)
theory Sat_Learning
  imports Sat_Marks
begin

text \<open>
  The learned clause.  The walk along the trail ends at an implication point, minimisation only drops
  literals the others cover, and the clause is implied by the formula and asserts its first literal
  at the level it names.
\<close>

section \<open>The walk to the implication point\<close>

definition analysis_base :: "SatEngine \<Rightarrow> bool" where
  "analysis_base s \<longleftrightarrow> deep_ok s \<and> trail_ok (Value s) (Trail s) \<and> arena_ok (Arena s) (refs s) (numVars s) \<and>
     0 < decisionLevel s"

lemma arena_ok_frame:
  assumes "core_frame s s'"
  shows "arena_ok (Arena s') R n \<longleftrightarrow> arena_ok (Arena s) R n"
  unfolding arena_ok_def core_frame_derived(11,12) [OF assms] ..

lemma deep_ok_frame:
  assumes "core_frame s s'" "deep_ok s"
  shows "deep_ok s'"
  using assms(2) levels_ok_frame [OF assms(1)]
  unfolding deep_ok_def reasons_ok_def core_frame_derived(1,2,7,8,10,11) [OF assms(1)] by simp

lemma analysis_base_frame:
  assumes "core_frame s s'" "analysis_base s"
  shows "analysis_base s'"
  using assms(2) deep_ok_frame [OF assms(1)] arena_ok_frame [OF assms(1)] trail_ok_frame [OF assms(1)]
    core_frame_derived(1-3) [OF assms(1)]
  by (simp add: analysis_base_def)

lemma formula_frame:
  assumes "core_frame s s'"
  shows "formula s' = formula s" "rootTrail s' = rootTrail s"
proof -
  show r: "rootTrail s' = rootTrail s" using core_frame_derived(7,8) [OF assms] by (simp add: rootTrail_def)
  show "formula s' = formula s"
    unfolding formula_def r models_of_def core_frame_derived(1,11) [OF assms] ..
qed

lemma analysis_baseD:
  assumes "analysis_base s"
  shows "levels_ok s" "reasons_ok s" "trail_ok (Value s) (Trail s)" "refs s \<subseteq> dom (Arena s)" "set (Learnt s) \<subseteq> dom (Arena s)"
    "\<And>r. r \<in> refs s \<Longrightarrow> 2 \<le> length (clits (Arena s) r)" "0 < decisionLevel s"
  using assms by (auto simp: analysis_base_def deep_ok_def arena_ok_def refs_def)

lemma reasonD:
  assumes "reasons_ok s" "i < length (Trail s)" "Reason s ! unat (var (Trail s ! i)) \<noteq> kNoClause"
  shows "Reason s ! unat (var (Trail s ! i)) \<in> refs s"
    "clits (Arena s) (Reason s ! unat (var (Trail s ! i))) ! 0 = Trail s ! i"
    "\<forall>L \<in> set (tl (clits (Arena s) (Reason s ! unat (var (Trail s ! i))))). negl L \<in> set (take i (Trail s))"
  using assms by (auto simp: reasons_ok_def Let_def)

lemma in_take_position: "x \<in> set (take n xs) \<Longrightarrow> \<exists>i < n. i < length xs \<and> xs ! i = x"
  by (auto simp: in_set_conv_nth)

lemma path_witness:
  assumes "analysis_ok s n a" "0 < PathCount a"
  shows "\<exists>i < n. levelAt (TrailLim s) i = decisionLevel s \<and> marked s i"
proof (rule ccontr)
  assume "\<not> (\<exists>i < n. levelAt (TrailLim s) i = decisionLevel s \<and> marked s i)"
  then have e: "{i. i < n \<and> levelAt (TrailLim s) i = decisionLevel s \<and> marked s i} = {}" by blast
  have "PathCount a = card {i. i < n \<and> levelAt (TrailLim s) i = decisionLevel s \<and> marked s i}"
    using assms(1) unfolding analysis_ok_def by blast
  also have "\<dots> = 0" unfolding e by (rule card.empty)
  finally show False using assms(2) by simp
qed

lemma path_positive:
  assumes "analysis_ok s n a" "i < n" "levelAt (TrailLim s) i = decisionLevel s" "marked s i"
  shows "0 < PathCount a"
proof -
  have "i \<in> {i. i < n \<and> levelAt (TrailLim s) i = decisionLevel s \<and> marked s i}" using assms(2-4) by simp
  then have "0 < card {i. i < n \<and> levelAt (TrailLim s) i = decisionLevel s \<and> marked s i}"
    by (auto simp: card_gt_0_iff)
  moreover have "PathCount a = card {i. i < n \<and> levelAt (TrailLim s) i = decisionLevel s \<and> marked s i}"
    using assms(1) unfolding analysis_ok_def by blast
  ultimately show ?thesis by simp
qed

lemma pivot_level:
  assumes "analysis_ok s (Suc n) a" "0 < PathCount a"
  shows "levelAt (TrailLim s) n = decisionLevel s"
  using path_witness [OF assms] level_between [of "TrailLim s" _ n] by (auto simp: decisionLevel_def less_Suc_eq_le)

definition implication_point :: "assignment set \<Rightarrow> SatEngine \<Rightarrow> SatLit \<Rightarrow> Analysis \<Rightarrow> SatEngine \<Rightarrow> bool" where
  "implication_point F s P a s' \<longleftrightarrow> core_frame s s' \<and> PathCount a = 0 \<and>
     (\<exists>i < length (Trail s). P = Trail s ! i \<and> levelAt (TrailLim s) i = decisionLevel s \<and> analysis_ok s' i a \<and> \<not> marked s' i) \<and>
     (\<forall>m \<in> F. lit_true m P \<longrightarrow> (\<exists>j < length (Trail s). marked s' j \<and> \<not> lit_true m (Trail s ! j)))"

lemma implication_point_frame:
  assumes "core_frame s t" "implication_point F t P a s'"
  shows "implication_point F s P a s'"
  using assms(2) core_frame_derived [OF assms(1)] core_frame_trans [OF assms(1), of s']
  unfolding implication_point_def by simp

lemma analyzeWalk_ok:
  assumes "analysis_ok s n a" "analysis_base s" "blocked F s" "F \<subseteq> formula s" "0 < PathCount a" "analyzeWalk n a s = (P, a', s')"
  shows "implication_point F s P a' s'"
  using assms
proof (induction n arbitrary: a s)
  case 0
  then show ?case by (simp add: analysis_ok_def)
next
  case (Suc n)
  note ok = Suc.prems(1) and b = analysis_baseD [OF Suc.prems(2)]
  have nT: "n < length (Trail s)" using ok by (simp add: analysis_ok_def)
  show ?case
  proof (cases "marked s n")
    case False
    then have "analyzeWalk n a s = (P, a', s')" using Suc.prems(6) by (simp add: marked_def Let_def)
    from Suc.IH [OF analysis_skip [OF ok False b(3)] Suc.prems(2-5) this] show ?thesis .
  next
    case True
    have d: "levelAt (TrailLim s) n = decisionLevel s" by (rule pivot_level [OF ok Suc.prems(5)])
    let ?V = "unat (var (Trail s ! n))"
    define s1 where "s1 = s\<lparr>Seen := (Seen s)[?V := False]\<rparr>"
    define a1 where "a1 = a\<lparr>PathCount := PathCount a - 1\<rparr>"
    note un = unmark_ok [OF ok b(3) True d, folded s1_def a1_def]
    have f1: "core_frame s s1" by (simp add: s1_def)
    note d1 = core_frame_derived [OF f1]
    have step: "analyzeWalk (Suc n) a s =
        (if 0 < PathCount a1 then case analyzeClause (Reason s ! ?V) 1 a1 s1 of (a, s) \<Rightarrow> analyzeWalk n a s
         else (Trail s ! n, a1, s1))"
      using True by (simp add: marked_def Let_def s1_def a1_def)
    show ?thesis
    proof (cases "0 < PathCount a1")
      case False
      then have r: "P = Trail s ! n" "a' = a1" "s' = s1" using Suc.prems(6) unfolding step by simp_all
      have "\<exists>j < length (Trail s). marked s1 j \<and> \<not> lit_true m (Trail s ! j)" if "m \<in> F" "lit_true m P" for m
      proof -
        obtain j where "j < length (Trail s)" "marked s j" "\<not> lit_true m (Trail s ! j)"
          using Suc.prems(3) \<open>m \<in> F\<close> by (auto simp: blocked_def)
        moreover from this have "j \<noteq> n" using that(2) r(1) by auto
        ultimately show ?thesis using un(2) by blast
      qed
      then show ?thesis
        using un nT d f1 False unfolding implication_point_def r by (auto intro!: exI [of _ n])
    next
      case pos: True
      let ?r = "Reason s ! ?V"
      obtain a2 s2 where c: "analyzeClause ?r 1 a1 s1 = (a2, s2)" by fastforce
      have rec: "analyzeWalk n a2 s2 = (P, a', s')"
        using Suc.prems(6) pos c unfolding step by simp
      obtain i where i: "i < n" "levelAt (TrailLim s) i = decisionLevel s" "marked s1 i"
        using path_witness [OF un(1) pos] by (auto simp: d1)
      then have "n \<notin> set (TrailLim s)" using not_start [of i n "TrailLim s"] d by simp
      then have rn: "?r \<noteq> kNoClause" using b(2,7) nT d by (auto simp: reasons_ok_def Let_def)
      note r = reasonD [OF b(2) nT rn]
      have l2: "2 \<le> length (clits (Arena s) ?r)" using b(6) r(1) by simp
      then have ne: "clits (Arena s) ?r \<noteq> []" by auto
      have dr: "drop 1 (clits (Arena s) ?r) = tl (clits (Arena s) ?r)" by (simp add: drop_Suc)
      have Q: "\<forall>Q \<in> set (drop 1 (clits (Arena s1) ?r)). \<exists>i < n. Trail s1 ! i = negl Q"
      proof
        fix Q assume "Q \<in> set (drop 1 (clits (Arena s1) ?r))"
        then have "negl Q \<in> set (take n (Trail s))" using r(3) dr d1(11) by simp
        then show "\<exists>i < n. Trail s1 ! i = negl Q" using in_take_position d1(7) by metis
      qed
      have dom1: "?r \<in> dom (Arena s1)" "set (Learnt s1) \<subseteq> dom (Arena s1)"
        using b(4,5) r(1) d1(12,13) by auto
      have t1: "trail_ok (Value s1) (Trail s1)" using b(3) trail_ok_frame [OF f1] by simp
      note ac = analyzeClause_ok [OF un(1) levels_ok_frame [OF f1 b(1)] t1 dom1 Q c]
      have f: "core_frame s s2" using core_frame_trans [OF f1] ac by blast
      note d2 = core_frame_derived [OF f]
      have m2: "marked s2 j \<longleftrightarrow> marked s j \<and> j \<noteq> n \<or>
          0 < levelAt (TrailLim s) j \<and> (\<exists>Q \<in> set (tl (clits (Arena s) ?r)). Trail s ! j = negl Q)" if "j < length (Trail s)" for j
        using ac un(2) that unfolding d1(7,8,11) dr by simp
      have tr: "\<forall>L \<in> set (tl (clits (Arena s) ?r)). negl L \<in> set (Trail s)" using r(3) by (auto dest: in_set_takeD)
      have bl: "blocked F s2"
        by (rule blocked_resolve [OF Suc.prems(3,4) b(1) nT r(1,2) ne tr d2(7) m2])
      have pos2: "0 < PathCount a2"
        by (rule path_positive [of s2 n a2 i]) (use ac i nT m2 [of i] un(2) [of i] in \<open>simp_all add: d2\<close>)
      have "F \<subseteq> formula s2" using Suc.prems(4) formula_frame(1) [OF f] by simp
      from Suc.IH [OF _ analysis_base_frame [OF f Suc.prems(2)] bl this pos2 rec] ac implication_point_frame [OF f]
      show ?thesis by blast
    qed
  qed
qed

section \<open>Dropping redundant literals\<close>

text \<open>
  Every marked variable is accounted for: its literal is among \<open>K\<close>, or its reason consists of
  marked variables and of variables assigned at the root.
\<close>

definition covered :: "SatEngine \<Rightarrow> bool list \<Rightarrow> SatLit set \<Rightarrow> bool" where
  "covered s M K \<longleftrightarrow>
     (\<forall>i < length (Trail s). M ! unat (var (Trail s ! i)) \<longrightarrow>
        negl (Trail s ! i) \<in> K \<or>
        Reason s ! unat (var (Trail s ! i)) \<noteq> kNoClause \<and>
        (\<forall>L \<in> set (tl (clits (Arena s) (Reason s ! unat (var (Trail s ! i))))).
           M ! unat (var L) \<or> Level s ! unat (var L) = 0))"

lemma coveredD:
  "covered s M K \<Longrightarrow> i < length (Trail s) \<Longrightarrow> M ! unat (var (Trail s ! i)) \<Longrightarrow>
     negl (Trail s ! i) \<in> K \<or> Reason s ! unat (var (Trail s ! i)) \<noteq> kNoClause \<and>
       (\<forall>L \<in> set (tl (clits (Arena s) (Reason s ! unat (var (Trail s ! i))))). M ! unat (var L) \<or> Level s ! unat (var L) = 0)"
  by (simp add: covered_def)

lemma covered_true:
  assumes c: "covered s M K" and b: "analysis_base s" and m: "m \<in> formula s" and K: "\<forall>L \<in> K. \<not> lit_true m L"
    and i: "i < length (Trail s)" "M ! unat (var (Trail s ! i))"
  shows "lit_true m (Trail s ! i)"
  using i
proof (induction i rule: less_induct)
  case (less i)
  note f = analysis_baseD [OF b]
  show ?case
  proof (cases "negl (Trail s ! i) \<in> K")
    case True
    then have "\<not> lit_true m (negl (Trail s ! i))" using K by blast
    then show ?thesis by simp
  next
    case False
    let ?r = "Reason s ! unat (var (Trail s ! i))"
    have r: "?r \<noteq> kNoClause" "\<forall>L \<in> set (tl (clits (Arena s) ?r)). M ! unat (var L) \<or> Level s ! unat (var L) = 0"
      using coveredD [OF c less.prems] False by simp_all
    note q = reasonD [OF f(2) less.prems(1) r(1)]
    have fm: "m \<in> models_of (Arena s) (refs s) (rootTrail s)" using m by (simp add: formula_def)
    have "\<not> lit_true m L" if L: "L \<in> set (tl (clits (Arena s) ?r))" for L
    proof -
      obtain j where j: "j < i" "j < length (Trail s)" "Trail s ! j = negl L" using q(3) L in_take_position by metis
      have "lit_true m (Trail s ! j)"
      proof (cases "Level s ! unat (var L) = 0")
        case True
        then have "levelAt (TrailLim s) j = 0" using level_of_false [OF f(1) j(2,3)] by simp
        then show ?thesis using models_of_trail [OF fm] root_level [OF f(1) j(2)] by simp
      next
        case False
        then have "M ! unat (var (Trail s ! j))" using r(2) L j(3) by auto
        then show ?thesis by (rule less.IH [OF j(1,2)])
      qed
      then show ?thesis by (simp add: j(3))
    qed
    moreover have "clause_true m (clits (Arena s) ?r)" using fm q(1) by (simp add: models_of_def)
    moreover have "2 \<le> length (clits (Arena s) ?r)" using f(6) q(1) by simp
    ultimately show ?thesis using q(2) by (cases "clits (Arena s) ?r") (auto simp: clause_true_def)
  qed
qed

text \<open>A literal that can stand on the stack: false, with a reason.\<close>

definition stacked :: "SatEngine \<Rightarrow> SatLit \<Rightarrow> bool" where
  "stacked s Q \<longleftrightarrow> negl Q \<in> set (Trail s) \<and> Reason s ! unat (var Q) \<noteq> kNoClause"

definition marks_in :: "bool list \<Rightarrow> SatVar list \<Rightarrow> bool" where
  "marks_in M Clear \<longleftrightarrow> (\<forall>v < length M. M ! v \<longrightarrow> v \<in> unat ` set Clear)"

lemma redundantLits_ok:
  assumes "redundantLits Mask Ms M C St s = Some (M', C', St')"
    "\<forall>L \<in> set Ms. negl L \<in> set (Trail s) \<and> unat (var L) < length M"
  shows "length M' = length M \<and> (\<forall>v. M ! v \<longrightarrow> M' ! v) \<and> (\<forall>L \<in> set Ms. M' ! unat (var L) \<or> Level s ! unat (var L) = 0) \<and>
    (marks_in M C \<longrightarrow> marks_in M' C') \<and>
    (\<exists>New. St' = St @ New \<and> set New \<subseteq> set Ms \<and> (\<forall>L \<in> set New. stacked s L \<and> M' ! unat (var L)) \<and>
       (\<forall>v. M' ! v \<longrightarrow> M ! v \<or> v \<in> (unat \<circ> var) ` set New)) \<and>
    length St' + count_list M' False = length St + count_list M False"
  using assms
proof (induction Ms arbitrary: M C St)
  case Nil
  then show ?case by simp
next
  case (Cons L Ms)
  let ?V = "unat (var L)"
  show ?case
  proof (cases "M ! ?V \<or> Level s ! ?V = 0")
    case True
    then have "redundantLits Mask Ms M C St s = Some (M', C', St')" using Cons.prems(1) by (simp add: Let_def)
    from Cons.IH [OF this] Cons.prems(2) True show ?thesis by auto
  next
    case False
    let ?M = "M[?V := True]"
    have rec: "redundantLits Mask Ms ?M (C @ [var L]) (St @ [L]) s = Some (M', C', St')"
      and r: "Reason s ! ?V \<noteq> kNoClause"
      using Cons.prems(1) False by (auto simp: Let_def split: if_splits)
    have Vn: "?V < length M" using Cons.prems(2) by simp
    have up: "M ! v \<longrightarrow> ?M ! v" for v using Vn by (cases "v = ?V") auto
    have down: "?M ! v \<longrightarrow> M ! v \<or> v = ?V" for v by (cases "v = ?V") auto
    have mi: "marks_in ?M (C @ [var L])" if "marks_in M C"
      unfolding marks_in_def
    proof (intro allI impI)
      fix v assume "v < length ?M" "?M ! v"
      then show "v \<in> unat ` set (C @ [var L])" using that down [of v] by (auto simp: marks_in_def)
    qed
    have cnt: "Suc (count_list ?M False) = count_list M False"
    proof -
      have "count_list M False = count_list (take ?V M @ M ! ?V # drop (Suc ?V) M) False" using Vn by (simp add: id_take_nth_drop [symmetric])
      moreover have "?M = take ?V M @ True # drop (Suc ?V) M" using Vn by (simp add: upd_conv_take_nth_drop)
      ultimately show ?thesis using False by simp
    qed
    from Cons.IH [OF rec] Cons.prems(2) obtain New where IH: "length M' = length M" "\<forall>v. ?M ! v \<longrightarrow> M' ! v"
      "\<forall>L \<in> set Ms. M' ! unat (var L) \<or> Level s ! unat (var L) = 0" "marks_in ?M (C @ [var L]) \<longrightarrow> marks_in M' C'"
      "St' = (St @ [L]) @ New" "set New \<subseteq> set Ms" "\<forall>L \<in> set New. stacked s L \<and> M' ! unat (var L)"
      "\<forall>v. M' ! v \<longrightarrow> ?M ! v \<or> v \<in> (unat \<circ> var) ` set New"
      "length St' + count_list M' False = length (St @ [L]) + count_list ?M False"
      by auto
    have "M' ! ?V" using IH(2) Vn by simp
    moreover have "stacked s L" using r Cons.prems(2) by (simp add: stacked_def)
    moreover have "M' ! v \<longrightarrow> M ! v \<or> v \<in> (unat \<circ> var) ` set (L # New)" for v using IH(8) down by fastforce
    ultimately show ?thesis using IH up mi cnt by (auto intro!: exI [of _ "L # New"])
  qed
qed

text \<open>The number of variables bounds the rounds: more fuel changes nothing.\<close>

lemma reason_lits:
  assumes b: "analysis_base s" and Q: "stacked s Q"
  shows "\<forall>L \<in> set (drop 1 (CLits (getClause s (Reason s ! unat (var Q))))). negl L \<in> set (Trail s) \<and> unat (var L) < numVars s"
proof
  fix L assume L: "L \<in> set (drop 1 (CLits (getClause s (Reason s ! unat (var Q)))))"
  note f = analysis_baseD [OF b]
  obtain i where i: "i < length (Trail s)" "Trail s ! i = negl Q" using Q by (auto simp: stacked_def in_set_conv_nth)
  then have "Reason s ! unat (var (Trail s ! i)) \<noteq> kNoClause" using Q by (simp add: stacked_def)
  from reasonD(3) [OF f(2) i(1) this] have "negl L \<in> set (take i (Trail s))"
    using L by (simp add: i(2) getClause_def clits_def drop_Suc)
  then have T: "negl L \<in> set (Trail s)" by (rule in_set_takeD)
  then have "unat (var (negl L)) < length (Value s)" using f(3) unfolding trail_ok_def by blast
  with T show "negl L \<in> set (Trail s) \<and> unat (var L) < numVars s" by (simp add: numVars_def)
qed

lemma redundantLoop_fuel:
  assumes "analysis_base s" "length M = numVars s" "\<forall>Q \<in> set St. stacked s Q"
    "length St + count_list M False \<le> Fuel"
  shows "redundantLoop (Suc Fuel) Mask M C St s = redundantLoop Fuel Mask M C St s"
  using assms
proof (induction Fuel arbitrary: M C St)
  case (Suc Fuel)
  show ?case
  proof (cases "St = []")
    case False
    let ?Ms = "drop 1 (CLits (getClause s (Reason s ! unat (var (last St)))))"
    have "stacked s (last St)" using Suc.prems(3) False by simp
    then have lits: "\<forall>L \<in> set ?Ms. negl L \<in> set (Trail s) \<and> unat (var L) < length M"
      using reason_lits [OF Suc.prems(1)] Suc.prems(2) by simp
    show ?thesis
    proof (cases "redundantLits Mask ?Ms M C (butlast St) s")
      case None
      with False show ?thesis by (simp add: Let_def)
    next
      case (Some R)
      then obtain M' C' St' where R: "redundantLits Mask ?Ms M C (butlast St) s = Some (M', C', St')" by (cases R) auto
      note o = redundantLits_ok [OF R lits]
      obtain New where "St' = butlast St @ New" "\<forall>L \<in> set New. stacked s L" using o by blast
      then have "\<forall>Q \<in> set St'. stacked s Q" using Suc.prems(3) in_set_butlastD [of _ St] by auto
      moreover have "length St' + count_list M' False \<le> Fuel" using o Suc.prems(4) False by (cases St rule: rev_cases) auto
      ultimately have "redundantLoop (Suc Fuel) Mask M' C' St' s = redundantLoop Fuel Mask M' C' St' s"
        using o Suc.prems by (intro Suc.IH) simp_all
      with R False show ?thesis
        by (simp only: redundantLoop.simps Let_def if_False option.case prod.case)
    qed
  qed simp
qed simp

lemma redundantLoop_ok:
  assumes "redundantLoop Fuel Mask M C St s = Some (M', C')" "analysis_base s" "length M = numVars s"
    "\<forall>Q \<in> set St. stacked s Q \<and> M ! unat (var Q)" "covered s M (K \<union> set St)" "marks_in M C"
  shows "length M' = length M \<and> (\<forall>v. M ! v \<longrightarrow> M' ! v) \<and> covered s M' K \<and> marks_in M' C'"
  using assms
proof (induction Fuel arbitrary: M C St)
  case 0
  then show ?case by (auto split: if_splits)
next
  case (Suc Fuel)
  show ?case
  proof (cases "St = []")
    case True
    with Suc.prems show ?thesis by auto
  next
    case False
    let ?Q = "last St"
    let ?r = "Reason s ! unat (var ?Q)"
    let ?Ms = "drop 1 (CLits (getClause s ?r))"
    note f = analysis_baseD [OF Suc.prems(2)]
    have Q: "stacked s ?Q" using Suc.prems(4) False by simp
    then have lits: "\<forall>L \<in> set ?Ms. negl L \<in> set (Trail s) \<and> unat (var L) < length M"
      using reason_lits [OF Suc.prems(2)] Suc.prems(3) by simp
    obtain M1 C1 S1 where R: "redundantLits Mask ?Ms M C (butlast St) s = Some (M1, C1, S1)"
      and rec: "redundantLoop Fuel Mask M1 C1 S1 s = Some (M', C')"
      using Suc.prems(1) False by (auto simp: Let_def split: option.splits)
    from redundantLits_ok [OF R lits] obtain New where o: "length M1 = length M" "\<forall>v. M ! v \<longrightarrow> M1 ! v"
      "\<forall>L \<in> set ?Ms. M1 ! unat (var L) \<or> Level s ! unat (var L) = 0" "marks_in M C \<longrightarrow> marks_in M1 C1"
      "S1 = butlast St @ New" "set New \<subseteq> set ?Ms" "\<forall>L \<in> set New. stacked s L \<and> M1 ! unat (var L)"
      "\<forall>v. M1 ! v \<longrightarrow> M ! v \<or> v \<in> (unat \<circ> var) ` set New" by blast
    have tlMs: "set (tl (clits (Arena s) ?r)) = set ?Ms" by (simp add: getClause_def clits_def drop_Suc)
    have St: "set St = insert ?Q (set (butlast St))" using False by (metis append_butlast_last_id list.set(1) list.set(2) set_append Un_insert_right sup_bot_right)
    have cov: "covered s M1 (K \<union> set S1)"
      unfolding covered_def
    proof (intro allI impI)
      fix i assume i: "i < length (Trail s)" "M1 ! unat (var (Trail s ! i))"
      let ?R = "Reason s ! unat (var (Trail s ! i))"
      show "negl (Trail s ! i) \<in> K \<union> set S1 \<or> ?R \<noteq> kNoClause \<and>
          (\<forall>L \<in> set (tl (clits (Arena s) ?R)). M1 ! unat (var L) \<or> Level s ! unat (var L) = 0)"
      proof (cases "M ! unat (var (Trail s ! i))")
        case True
        then have "negl (Trail s ! i) \<in> K \<union> set St \<or> ?R \<noteq> kNoClause \<and>
            (\<forall>L \<in> set (tl (clits (Arena s) ?R)). M ! unat (var L) \<or> Level s ! unat (var L) = 0)"
          by (rule coveredD [OF Suc.prems(5) i(1)])
        then consider "negl (Trail s ! i) \<in> K \<union> set (butlast St)" | "negl (Trail s ! i) = ?Q"
          | "?R \<noteq> kNoClause \<and> (\<forall>L \<in> set (tl (clits (Arena s) ?R)). M ! unat (var L) \<or> Level s ! unat (var L) = 0)"
          unfolding St by (auto simp del: Un_iff simp add: Un_iff)
        then show ?thesis
        proof cases
          case 2
          then have "var (Trail s ! i) = var ?Q" by (metis var_negl)
          then show ?thesis using Q o(3) tlMs by (simp add: stacked_def)
        qed (use o(2,5) in auto)
      next
        case False
        then obtain L where L: "L \<in> set New" "var (Trail s ! i) = var L" using o(8) i(2) by auto
        have "negl L \<in> set (Trail s)" using o(7) L(1) by (simp add: stacked_def)
        then obtain j where "j < length (Trail s)" "Trail s ! j = negl L" by (auto simp: in_set_conv_nth)
        moreover from this have "j = i" using trail_var_inj [OF f(3) _ i(1), of j] L(2) by simp
        ultimately have "negl (Trail s ! i) = L" by simp
        with L(1) o(5) show ?thesis by simp
      qed
    qed
    have st1: "\<forall>Q \<in> set S1. stacked s Q \<and> M1 ! unat (var Q)"
    proof
      fix P assume "P \<in> set S1"
      then consider "P \<in> set (butlast St)" | "P \<in> set New" using o(5) by auto
      then show "stacked s P \<and> M1 ! unat (var P)"
      proof cases
        case 1
        then have "P \<in> set St" by (rule in_set_butlastD)
        then show ?thesis using Suc.prems(4) o(2) by blast
      next
        case 2
        then show ?thesis using o(7) by blast
      qed
    qed
    from Suc.IH [OF rec Suc.prems(2) _ st1 cov] o Suc.prems(3,6) show ?thesis by simp
  qed
qed

lemma covered_frame:
  assumes "core_frame s s'"
  shows "covered s' M K \<longleftrightarrow> covered s M K"
  unfolding covered_def core_frame_derived(7,9,10,11) [OF assms] ..

lemma isRedundant_ok:
  assumes "isRedundant L Mask C s = (R, C', s')" "analysis_base s" "length (Seen s) = numVars s"
    "stacked s L" "Seen s ! unat (var L)" "covered s (Seen s) (insert L K)" "marks_in (Seen s) C"
  shows "core_frame s s' \<and> (\<forall>v. Seen s ! v \<longrightarrow> Seen s' ! v) \<and> covered s (Seen s') (if R then K else insert L K) \<and>
    marks_in (Seen s') C' \<and> length (Seen s') = numVars s"
proof (cases "redundantLoop (numVars s + 1) Mask (Seen s) C [L] s")
  case None
  with assms show ?thesis by (auto simp: isRedundant_def)
next
  case (Some X)
  then obtain M' C1 where X: "redundantLoop (numVars s + 1) Mask (Seen s) C [L] s = Some (M', C1)" by (cases X) auto
  have r: "R" "C' = C1" "s' = s\<lparr>Seen := M'\<rparr>" using assms(1) X by (auto simp: isRedundant_def)
  note o = redundantLoop_ok [OF X assms(2,3) _ _ assms(7), of K]
  from o assms(3-6) show ?thesis by (simp add: r)
qed

lemma minimizeLoop_ok:
  assumes "minimizeLoop Mask Kept Ls C s = (Kept', C', s')" "analysis_base s" "length (Seen s) = numVars s"
    "\<forall>L \<in> set Ls. negl L \<in> set (Trail s) \<and> Seen s ! unat (var L)"
    "covered s (Seen s) (set Kept \<union> set Ls)" "marks_in (Seen s) C"
  shows "core_frame s s' \<and> (\<forall>v. Seen s ! v \<longrightarrow> Seen s' ! v) \<and> covered s (Seen s') (set Kept') \<and> marks_in (Seen s') C' \<and>
    length (Seen s') = numVars s \<and> (\<exists>New. Kept' = Kept @ New \<and> set New \<subseteq> set Ls \<and> (distinct Ls \<longrightarrow> distinct New))"
  using assms
proof (induction Ls arbitrary: Kept C s)
  case (Cons L Ls)
  show ?case
  proof (cases "Reason s ! unat (var L) = kNoClause")
    case True
    then have rec: "minimizeLoop Mask (Kept @ [L]) Ls C s = (Kept', C', s')" using Cons.prems(1) by simp
    have "covered s (Seen s) (set (Kept @ [L]) \<union> set Ls)" using Cons.prems(5) by (simp add: Un_assoc)
    from Cons.IH [OF rec Cons.prems(2,3) _ this Cons.prems(6)] Cons.prems(4) obtain New where IH:
      "core_frame s s'" "\<forall>v. Seen s ! v \<longrightarrow> Seen s' ! v" "covered s (Seen s') (set Kept')" "marks_in (Seen s') C'"
      "length (Seen s') = numVars s" "Kept' = (Kept @ [L]) @ New" "set New \<subseteq> set Ls" "distinct Ls \<longrightarrow> distinct New" by auto
    then show ?thesis by (auto intro!: exI [of _ "L # New"])
  next
    case False
    obtain R C1 s1 where i: "isRedundant L Mask C s = (R, C1, s1)" by (cases "isRedundant L Mask C s") auto
    let ?K = "if R then Kept else Kept @ [L]"
    have rec: "minimizeLoop Mask ?K Ls C1 s1 = (Kept', C', s')" using Cons.prems(1) False i by simp
    have "stacked s L" "Seen s ! unat (var L)" using Cons.prems(4) False by (simp_all add: stacked_def)
    moreover have "covered s (Seen s) (insert L (set Kept \<union> set Ls))" using Cons.prems(5) by simp
    ultimately have o: "core_frame s s1" "\<forall>v. Seen s ! v \<longrightarrow> Seen s1 ! v"
      "covered s (Seen s1) (if R then set Kept \<union> set Ls else insert L (set Kept \<union> set Ls))"
      "marks_in (Seen s1) C1" "length (Seen s1) = numVars s"
      using isRedundant_ok [OF i Cons.prems(2,3)] Cons.prems(6) by blast+
    note d = core_frame_derived [OF o(1)]
    have "(if R then set Kept \<union> set Ls else insert L (set Kept \<union> set Ls)) = set ?K \<union> set Ls" by auto
    with o(3) have "covered s1 (Seen s1) (set ?K \<union> set Ls)" using covered_frame [OF o(1)] by simp
    moreover have "\<forall>L \<in> set Ls. negl L \<in> set (Trail s1) \<and> Seen s1 ! unat (var L)"
      using Cons.prems(4) o(2) by (simp add: d)
    ultimately obtain New where IH:
      "core_frame s1 s'" "\<forall>v. Seen s1 ! v \<longrightarrow> Seen s' ! v" "covered s1 (Seen s') (set Kept')" "marks_in (Seen s') C'"
      "length (Seen s') = numVars s1" "Kept' = ?K @ New" "set New \<subseteq> set Ls" "distinct Ls \<longrightarrow> distinct New"
      using Cons.IH [OF rec analysis_base_frame [OF o(1) Cons.prems(2)]] o(4,5) d(2) by auto
    have "\<exists>New. Kept' = Kept @ New \<and> set New \<subseteq> set (L # Ls) \<and> (distinct (L # Ls) \<longrightarrow> distinct New)"
      using IH(6-8) by (cases R) (auto intro: exI [of _ New] exI [of _ "L # New"])
    moreover have "covered s (Seen s') (set Kept')" using IH(3) covered_frame [OF o(1)] by simp
    ultimately show ?thesis using IH(1,2,4,5) o(2) core_frame_trans [OF o(1) IH(1)] by (simp add: d)
  qed
qed simp

lemma minimize_ok:
  assumes "minimize (P # Ls) C s = (Lits, C', s')" "analysis_base s" "length (Seen s) = numVars s"
    "\<forall>L \<in> set Ls. negl L \<in> set (Trail s) \<and> Seen s ! unat (var L)"
    "covered s (Seen s) (set Ls)" "marks_in (Seen s) C"
  shows "core_frame s s' \<and> (\<forall>v. Seen s ! v \<longrightarrow> Seen s' ! v) \<and> covered s (Seen s') (set Lits) \<and> marks_in (Seen s') C' \<and>
    length (Seen s') = numVars s \<and> (\<exists>New. Lits = P # New \<and> set New \<subseteq> set Ls \<and> (distinct Ls \<longrightarrow> distinct New))"
proof (cases "MinimizeLearned (Opts s) \<and> length (P # Ls) > 1")
  case False
  then have r: "Lits = P # Ls" "C' = C" "s' = s" using assms(1) by (auto simp: minimize_def)
  have "covered s (Seen s) (set (P # Ls))" using assms(5) by (auto simp: covered_def)
  then show ?thesis using assms by (simp add: r)
next
  case True
  define Mask where "Mask = fold (\<lambda>L Mask. Mask OR levelBit (Level s ! unat (var L))) Ls 0"
  obtain Kept C1 t where m: "minimizeLoop Mask [P] Ls C s = (Kept, C1, t)" by (cases "minimizeLoop Mask [P] Ls C s") auto
  have "minimize (P # Ls) C s = (Kept, C1, t\<lparr>Stats := (Stats t)\<lparr>MinimizedLiterals :=
      MinimizedLiterals (Stats t) + word_of_nat (length (P # Ls) - length Kept)\<rparr>\<rparr>)"
    using True m unfolding minimize_def Mask_def by simp
  then have e: "Lits = Kept" "C' = C1" "s' = t\<lparr>Stats := (Stats t)\<lparr>MinimizedLiterals :=
      MinimizedLiterals (Stats t) + word_of_nat (length (P # Ls) - length Kept)\<rparr>\<rparr>"
    using assms(1) by (simp_all del: length_Cons)
  have r: "Lits = Kept" "C' = C1" "core_frame t s'" "Seen s' = Seen t"
    unfolding e by (simp_all add: core_frame_def)
  have "covered s (Seen s) (set [P] \<union> set Ls)" using assms(5) by (auto simp: covered_def)
  from minimizeLoop_ok [OF m assms(2-4) this assms(6)] obtain New where
    "core_frame s t" "\<forall>v. Seen s ! v \<longrightarrow> Seen t ! v" "covered s (Seen t) (set Kept)" "marks_in (Seen t) C1"
    "length (Seen t) = numVars s" "Kept = [P] @ New" "set New \<subseteq> set Ls" "distinct Ls \<longrightarrow> distinct New" by blast
  then show ?thesis using r core_frame_trans [of s t s'] by simp
qed

section \<open>The clause to learn\<close>

lemma latestSlot_ok:
  assumes "Latest < I" "I + length Ls = length Lits" "drop I Lits = Ls"
    "\<forall>k. 0 < k \<and> k < I \<longrightarrow> Level s ! unat (var (Lits ! k)) \<le> Level s ! unat (var (Lits ! Latest))" "0 < Latest"
  shows "0 < latestSlot s Lits I Ls Latest \<and> latestSlot s Lits I Ls Latest < length Lits \<and>
    (\<forall>k. 0 < k \<and> k < length Lits \<longrightarrow> Level s ! unat (var (Lits ! k)) \<le> Level s ! unat (var (Lits ! latestSlot s Lits I Ls Latest)))"
  using assms
proof (induction Ls arbitrary: I Latest)
  case (Cons L Ls)
  have I: "I < length Lits" using Cons.prems(2) by simp
  then have L: "Lits ! I = L" "drop (Suc I) Lits = Ls"
    using Cons.prems(3) by (metis Cons_nth_drop_Suc list.inject)+
  let ?l = "if Level s ! unat (var L) > Level s ! unat (var (Lits ! Latest)) then I else Latest"
  have "0 < latestSlot s Lits (Suc I) Ls ?l \<and> latestSlot s Lits (Suc I) Ls ?l < length Lits \<and>
    (\<forall>k. 0 < k \<and> k < length Lits \<longrightarrow> Level s ! unat (var (Lits ! k)) \<le> Level s ! unat (var (Lits ! latestSlot s Lits (Suc I) Ls ?l)))"
  proof (rule Cons.IH)
    show "\<forall>k. 0 < k \<and> k < Suc I \<longrightarrow> Level s ! unat (var (Lits ! k)) \<le> Level s ! unat (var (Lits ! ?l))"
      using Cons.prems(4) L(1) by (auto simp: less_Suc_eq intro: le_trans)
  qed (use Cons.prems L I in auto)
  then show ?case by simp
qed simp

lemma placeLatest_ok:
  assumes "placeLatest s Lits = (Out, Bt)" "Lits \<noteq> []"
  shows "mset Out = mset Lits \<and> Out ! 0 = Lits ! 0 \<and>
    (if length Lits = 1 then Bt = 0
     else Level s ! unat (var (Out ! 1)) = Bt \<and> (\<forall>L \<in> set (tl Lits). Level s ! unat (var L) \<le> Bt))"
proof (cases "length Lits = 1")
  case True
  with assms(1) show ?thesis by (simp add: placeLatest_def)
next
  case False
  define j where "j = latestSlot s Lits 2 (drop 2 Lits) 1"
  have l2: "2 \<le> length Lits" using False assms(2) by (cases Lits; cases "tl Lits") auto
  have "0 < j \<and> j < length Lits \<and>
      (\<forall>k. 0 < k \<and> k < length Lits \<longrightarrow> Level s ! unat (var (Lits ! k)) \<le> Level s ! unat (var (Lits ! j)))"
    unfolding j_def by (rule latestSlot_ok) (use l2 in \<open>auto simp: less_2_cases_iff\<close>)
  then have j: "0 < j" "j < length Lits"
      "\<forall>k. 0 < k \<and> k < length Lits \<longrightarrow> Level s ! unat (var (Lits ! k)) \<le> Level s ! unat (var (Lits ! j))" by blast+
  have O: "Out = Lits[1 := Lits ! j, j := Lits ! 1]" "Bt = Level s ! unat (var (Out ! 1))"
    using assms(1) False by (auto simp: placeLatest_def j_def Let_def)
  have "mset Out = mset Lits" unfolding O(1) using l2 j by (intro mset_swap) auto
  moreover have "Out ! 0 = Lits ! 0" using j(1) by (simp add: O(1))
  moreover have "Out ! 1 = Lits ! j" using l2 j by (cases "j = 1") (simp_all add: O(1))
  moreover have "\<forall>L \<in> set (tl Lits). Level s ! unat (var L) \<le> Level s ! unat (var (Lits ! j))"
  proof
    fix L assume "L \<in> set (tl Lits)"
    then obtain k where "k < length Lits - 1" "L = Lits ! Suc k" by (auto simp: in_set_conv_nth nth_tl)
    then show "Level s ! unat (var L) \<le> Level s ! unat (var (Lits ! j))" using j(3) by simp
  qed
  ultimately show ?thesis using False O(2) by simp
qed

lemma clear_nth:
  "v < length M \<Longrightarrow> fold (\<lambda>V Marks. Marks[unat V := False]) Vs M ! v \<longleftrightarrow> M ! v \<and> v \<notin> unat ` set Vs"
proof (induction Vs arbitrary: M)
  case (Cons V Vs)
  have "fold (\<lambda>V Marks. Marks[unat V := False]) (V # Vs) M ! v \<longleftrightarrow> M[unat V := False] ! v \<and> v \<notin> unat ` set Vs"
    using Cons.IH [of "M[unat V := False]"] Cons.prems by simp
  also have "\<dots> \<longleftrightarrow> M ! v \<and> v \<notin> unat ` set (V # Vs)" using Cons.prems by (cases "v = unat V") auto
  finally show ?case .
qed simp

lemma length_clear [simp]: "length (fold (\<lambda>V Marks. Marks[unat V := False]) Vs M) = length M"
  by (induction Vs arbitrary: M) simp_all

lemma clearMarks_ok:
  assumes "marks_in (Seen s) C"
  shows "core_frame s (clearMarks C s)" "True \<notin> set (Seen (clearMarks C s))"
proof -
  show "core_frame s (clearMarks C s)" by (simp add: clearMarks_def core_frame_def)
  show "True \<notin> set (Seen (clearMarks C s))"
  proof
    assume "True \<in> set (Seen (clearMarks C s))"
    then obtain v where "v < length (Seen s)" "Seen (clearMarks C s) ! v"
      by (auto simp: clearMarks_def in_set_conv_nth)
    then show False using assms clear_nth [of v "Seen s" C] by (auto simp: clearMarks_def marks_in_def)
  qed
qed

text \<open>
  A clause the search can go on with: all its literals are false, the first alone was assigned at the
  current level, and the level to go back to is the highest of the others.
\<close>

definition asserting :: "SatEngine \<Rightarrow> SatLit list \<Rightarrow> nat \<Rightarrow> bool" where
  "asserting s Lits Bt \<longleftrightarrow> Lits \<noteq> [] \<and> distinct Lits \<and> (\<forall>L \<in> set Lits. negl L \<in> set (Trail s)) \<and>
     Level s ! unat (var (Lits ! 0)) = decisionLevel s \<and> Bt < decisionLevel s \<and>
     (\<forall>L \<in> set (tl Lits). Level s ! unat (var L) \<le> Bt) \<and>
     (if length Lits = 1 then Bt = 0 else Level s ! unat (var (Lits ! 1)) = Bt)"

lemma no_marks: "True \<notin> set M \<Longrightarrow> v < length M \<Longrightarrow> \<not> M ! v"
  by (metis (full_types) nth_mem)

lemma trail_var_range: "trail_ok (Value s) (Trail s) \<Longrightarrow> i < length (Trail s) \<Longrightarrow> unat (var (Trail s ! i)) < numVars s"
  by (simp add: trail_ok_def numVars_def)

lemma conflict_blocked:
  assumes b: "analysis_base s" and fc: "false_clause s c"
    and T: "Trail s1 = Trail s"
    and m: "\<And>i. i < length (Trail s) \<Longrightarrow> 0 < levelAt (TrailLim s) i \<Longrightarrow> negl (Trail s ! i) \<in> set (clits (Arena s) c) \<Longrightarrow> marked s1 i"
  shows "blocked (formula s) s1"
  unfolding blocked_def T
proof
  fix m0 assume m0: "m0 \<in> formula s"
  then have fm: "m0 \<in> models_of (Arena s) (refs s) (rootTrail s)" by (simp add: formula_def)
  then obtain L where L: "L \<in> set (clits (Arena s) c)" "lit_true m0 L"
    using fc by (auto simp: models_of_def false_clause_def clause_true_def)
  have "negl L \<in> set (Trail s)" using fc L(1) by (simp add: false_clause_def)
  then obtain i where i: "i < length (Trail s)" "Trail s ! i = negl L" by (metis in_set_conv_nth)
  have "levelAt (TrailLim s) i \<noteq> 0"
    using root_level [OF analysis_baseD(1) [OF b] i(1)] models_of_trail [OF fm, of "negl L"] i(2) L(2) by auto
  then show "\<exists>i < length (Trail s). marked s1 i \<and> \<not> lit_true m0 (Trail s ! i)"
    using m [OF i(1)] i L by auto
qed

lemma first_analysis:
  assumes b: "analysis_base s" and clean: "True \<notin> set (Seen s)" "length (Seen s) = numVars s"
    and fc: "false_clause s c" and top: "\<exists>L \<in> set (clits (Arena s) c). Level s ! unat (var L) = decisionLevel s"
    and e: "analyzeClause c 0 \<lparr>PathCount = 0, LearntLits = [noLit], ToClear = []\<rparr> s = (a, s1)"
  shows "analysis_ok s1 (length (Trail s)) a" "core_frame s s1" "blocked (formula s) s1" "0 < PathCount a"
proof -
  let ?a = "\<lparr>PathCount = 0, LearntLits = [noLit], ToClear = []\<rparr>"
  note f = analysis_baseD [OF b]
  have un: "\<not> marked s i" if "i < length (Trail s)" for i
    using no_marks [OF clean(1)] trail_var_range [OF f(3) that] clean(2) by (simp add: marked_def)
  then have e1: "{i. i < length (Trail s) \<and> levelAt (TrailLim s) i = decisionLevel s \<and> marked s i} = {}"
    and e2: "{i. i < length (Trail s) \<and> levelAt (TrailLim s) i < decisionLevel s \<and> marked s i} = {}" by blast+
  have ok0: "analysis_ok s (length (Trail s)) ?a"
    unfolding analysis_ok_def e1 e2 using clean no_marks [OF clean(1)] by simp
  have pos: "\<exists>i < length (Trail s). Trail s ! i = negl Q" if "Q \<in> set (clits (Arena s) c)" for Q
    using fc that by (auto simp: false_clause_def in_set_conv_nth)
  have cd: "c \<in> dom (Arena s)" using fc f(4) by (auto simp: false_clause_def)
  have Q: "\<forall>Q \<in> set (drop 0 (clits (Arena s) c)). \<exists>i < length (Trail s). Trail s ! i = negl Q" using pos by simp
  note ac = analyzeClause_ok [OF ok0 f(1,3) cd f(5) Q e]
  then show ok: "analysis_ok s1 (length (Trail s)) a" and fr: "core_frame s s1" by blast+
  have m: "marked s1 i" if "i < length (Trail s)" "0 < levelAt (TrailLim s) i" "negl (Trail s ! i) \<in> set (clits (Arena s) c)" for i
    using ac that by (auto intro!: bexI [of _ "negl (Trail s ! i)"])
  note d = core_frame_derived [OF fr]
  show "blocked (formula s) s1" by (rule conflict_blocked [OF b fc d(7) m])
  obtain L where L: "L \<in> set (clits (Arena s) c)" "Level s ! unat (var L) = decisionLevel s" using top by blast
  obtain i where i: "i < length (Trail s)" "Trail s ! i = negl L" using pos L(1) by blast
  have lv: "levelAt (TrailLim s) i = decisionLevel s" using level_of_false [OF f(1) i] L(2) by simp
  have "marked s1 i" using m [OF i(1)] lv f(7) i(2) L(1) by simp
  then show "0 < PathCount a"
    by (intro path_positive [OF ok i(1)]) (simp_all add: d lv)
qed

lemma analyze_ok:
  assumes b: "analysis_base s" and clean: "True \<notin> set (Seen s)" "length (Seen s) = numVars s"
    and fc: "false_clause s c" and top: "\<exists>L \<in> set (clits (Arena s) c). Level s ! unat (var L) = decisionLevel s"
    and an: "analyze c s = (Lits, Bt, Span, s')"
  shows "core_frame s s'" "True \<notin> set (Seen s')" "asserting s Lits Bt" "formula s \<subseteq> {m. clause_true m Lits}"
proof -
  let ?a = "\<lparr>PathCount = 0, LearntLits = [noLit], ToClear = []\<rparr>"
  obtain a1 s1 where e1: "analyzeClause c 0 ?a s = (a1, s1)" by fastforce
  obtain P a2 s2 where e2: "analyzeWalk (length (Trail s1)) a1 s1 = (P, a2, s2)" by (metis prod_cases3)
  obtain K C s3 where e3: "minimize ((LearntLits a2)[0 := negl P]) (ToClear a2) s2 = (K, C, s3)" by (metis prod_cases3)
  obtain Out Bt' where e4: "placeLatest s3 K = (Out, Bt')" by fastforce
  have r: "Lits = Out" "Bt = Bt'" "s' = clearMarks C s3"
    using an e1 e2 e3 e4 by (simp_all add: analyze_def)
  note fa = first_analysis [OF b clean fc top e1]
  note d1 = core_frame_derived [OF fa(2)]
  have b1: "analysis_base s1" by (rule analysis_base_frame [OF fa(2) b])
  have ip: "implication_point (formula s) s1 P a2 s2"
    by (rule analyzeWalk_ok [OF _ b1 fa(3) _ fa(4) e2])
      (use fa(1) in \<open>simp_all add: d1 formula_frame(1) [OF fa(2)]\<close>)
  have f12: "core_frame s1 s2" using ip by (simp add: implication_point_def)
  have f2: "core_frame s s2" by (rule core_frame_trans [OF fa(2) f12])
  note d2 = core_frame_derived [OF f2] and f = analysis_baseD [OF b]
  obtain p where p: "p < length (Trail s)" "P = Trail s ! p" "levelAt (TrailLim s) p = decisionLevel s"
      "analysis_ok s2 p a2" and pc: "PathCount a2 = 0"
    using ip by (auto simp: implication_point_def d1)
  have blk: "\<exists>j < length (Trail s). marked s2 j \<and> \<not> lit_true m (Trail s ! j)" if "m \<in> formula s" "lit_true m P" for m
    using ip that by (auto simp: implication_point_def d1)
  obtain Ls where Ls: "LearntLits a2 = noLit # Ls" "distinct Ls"
      "set Ls = (\<lambda>i. negl (Trail s ! i)) ` {i. i < length (Trail s) \<and> levelAt (TrailLim s) i < decisionLevel s \<and> marked s2 i}"
    using p(4) unfolding analysis_ok_def d2 by blast
  have mk: "v \<in> unat ` set (ToClear a2)" "\<exists>i < length (Trail s). unat (var (Trail s ! i)) = v \<and> 0 < levelAt (TrailLim s) i \<and>
       (levelAt (TrailLim s) i = decisionLevel s \<longrightarrow> i < p)" if "v < numVars s" "Seen s2 ! v" for v
    using p(4) that unfolding analysis_ok_def d2 by blast+
  have low: "levelAt (TrailLim s) i < decisionLevel s \<and> 0 < levelAt (TrailLim s) i" if i: "i < length (Trail s)" "marked s2 i" for i
  proof -
    have v: "unat (var (Trail s ! i)) < numVars s" by (rule trail_var_range [OF f(3) i(1)])
    have sv: "Seen s2 ! unat (var (Trail s ! i))" using i(2) by (simp add: marked_def d2)
    obtain j where j: "j < length (Trail s)" "unat (var (Trail s ! j)) = unat (var (Trail s ! i))" "0 < levelAt (TrailLim s) j"
        "levelAt (TrailLim s) j = decisionLevel s \<longrightarrow> j < p" using mk(2) [OF v sv] by blast
    then have "j = i" using trail_var_inj [OF f(3) j(1) i(1)] by simp
    moreover have "levelAt (TrailLim s) j \<noteq> decisionLevel s"
    proof
      assume l: "levelAt (TrailLim s) j = decisionLevel s"
      then have "0 < PathCount a2"
        using j(4) i(2) \<open>j = i\<close> by (intro path_positive [OF p(4), of j]) (simp_all add: d2)
      with pc show False by simp
    qed
    ultimately show ?thesis using levelAt_le [of "TrailLim s" i] j(3) by (simp add: decisionLevel_def)
  qed
  have e3': "minimize (negl P # Ls) (ToClear a2) s2 = (K, C, s3)" using e3 Ls(1) by simp
  have len2: "length (Seen s2) = numVars s2" using p(4) by (simp add: analysis_ok_def)
  have in2: "\<forall>L \<in> set Ls. negl L \<in> set (Trail s2) \<and> Seen s2 ! unat (var L)"
    using Ls(3) by (auto simp: d2 marked_def)
  have "negl (Trail s ! i) \<in> set Ls" if "i < length (Trail s)" "Seen s2 ! unat (var (Trail s ! i))" for i
    using low [OF that(1)] that by (auto simp: Ls(3) marked_def d2)
  then have cov: "covered s2 (Seen s2) (set Ls)" by (simp add: covered_def d2)
  have min: "marks_in (Seen s2) (ToClear a2)" using mk(1) len2 by (simp add: marks_in_def d2)
  from minimize_ok [OF e3' analysis_base_frame [OF f2 b] len2 in2 cov min] obtain New where
    o: "core_frame s2 s3" "\<forall>v. Seen s2 ! v \<longrightarrow> Seen s3 ! v" "covered s2 (Seen s3) (set K)" "marks_in (Seen s3) C"
      "K = negl P # New" "set New \<subseteq> set Ls" "distinct New" using Ls(2) by blast
  have f3: "core_frame s s3" by (rule core_frame_trans [OF f2 o(1)])
  note d3 = core_frame_derived [OF f3] and cl = clearMarks_ok [OF o(4)]
  show "core_frame s s'" unfolding r(3) by (rule core_frame_trans [OF f3 cl(1)])
  show "True \<notin> set (Seen s')" unfolding r(3) by (rule cl(2))
  note pl = placeLatest_ok [OF e4]
  have Out: "mset Out = mset K" "Out ! 0 = negl P" using pl by (simp_all add: o(5))
  have ne: "Out \<noteq> []" using Out(1) o(5) by auto
  obtain Os where Os: "Out = negl P # Os" using ne Out(2) by (cases Out) auto
  have mo: "mset Os = mset New" using Out(1) by (simp add: Os o(5))
  have so: "set Os = set New" by (rule mset_eq_setD [OF mo])
  have NewT: "\<exists>i < length (Trail s). L = negl (Trail s ! i) \<and> levelAt (TrailLim s) i < decisionLevel s" if "L \<in> set New" for L
    using that o(6) by (auto simp: Ls(3))
  have lvP: "Level s ! unat (var (negl P)) = decisionLevel s"
    using level_of_false [OF f(1) p(1), of "negl P"] p(2,3) by simp
  have lvN: "Level s ! unat (var L) < decisionLevel s" if L: "L \<in> set New" for L
  proof -
    obtain i where i: "i < length (Trail s)" "L = negl (Trail s ! i)" "levelAt (TrailLim s) i < decisionLevel s" using NewT [OF L] by blast
    then show ?thesis using level_of_false [OF f(1) i(1), of L] by simp
  qed
  have nP: "negl P \<notin> set New" using lvN [of "negl P"] lvP by auto
  have "distinct Os" using o(7) mo by (metis mset_eq_imp_distinct_iff)
  have bt: "if length Out = 1 then Bt = 0 else Level s ! unat (var (Out ! 1)) = Bt \<and> (\<forall>L \<in> set (tl Out). Level s ! unat (var L) \<le> Bt)"
    using pl so mset_eq_length [OF Out(1)] by (auto simp: o(5) Os r(2) d3)
  show "asserting s Lits Bt"
    unfolding asserting_def r(1)
  proof (intro conjI)
    show "Out \<noteq> []" by (rule ne)
    show "distinct Out" using \<open>distinct Os\<close> nP so by (simp add: Os)
    show "\<forall>L \<in> set Out. negl L \<in> set (Trail s)" using NewT so p(1,2) by (fastforce simp: Os)
    show "Level s ! unat (var (Out ! 0)) = decisionLevel s" using lvP by (simp add: Os)
    show "Bt < decisionLevel s"
    proof (cases Os)
      case Nil
      then show ?thesis using bt f(7) by (simp add: Os)
    next
      case (Cons L Os')
      then have "L \<in> set New" using so by auto
      then show ?thesis using bt lvN [of L] by (simp add: Os Cons)
    qed
    show "\<forall>L \<in> set (tl Out). Level s ! unat (var L) \<le> Bt" using bt by (cases Os) (auto simp: Os)
    show "if length Out = 1 then Bt = 0 else Level s ! unat (var (Out ! 1)) = Bt" using bt by (auto split: if_splits)
  qed
  show "formula s \<subseteq> {m. clause_true m Lits}"
  proof (rule subsetI, rule CollectI, rule ccontr)
    fix m assume m: "m \<in> formula s" and nt: "\<not> clause_true m Lits"
    have nK: "\<forall>L \<in> set K. \<not> lit_true m L" using nt so by (auto simp: r(1) Os o(5) clause_true_def)
    then have "lit_true m P" by (simp add: o(5))
    from blk [OF m this] obtain j where j: "j < length (Trail s)" "marked s2 j" "\<not> lit_true m (Trail s ! j)" by blast
    have "m \<in> formula s2" using m formula_frame(1) [OF f2] by simp
    from covered_true [OF o(3) analysis_base_frame [OF f2 b] this nK, of j] j o(2) show False
      by (simp add: marked_def d2)
  qed
qed

end
