(* ===== verification/Sat_Stack.thy ===== *)
theory Sat_Stack
  imports Sat_Learning
begin

text \<open>
  The invariant of the search, \<open>stack_inv\<close>, and the moves on the decision stack: propagation, going
  back, forcing a literal and opening a level keep it.
\<close>

section \<open>The state of a search\<close>

definition tables_ok :: "SatEngine \<Rightarrow> bool" where
  "tables_ok s \<longleftrightarrow>
     length (Seen s) = numVars s \<and> True \<notin> set (Seen s) \<and> length (Decidable s) = numVars s \<and>
     length (Activity s) = numVars s \<and> length (Phase s) = numVars s \<and> numVars s \<le> unat kMaxSatVar + 1 \<and>
     ArenaWords s \<le> kMaxArenaWords \<and> (\<forall>r \<in> dom (Arena s). r < ArenaWords s) \<and> distinct (Clauses s @ Learnt s) \<and>
     queue_ok (Order s) \<and> length (Position (Order s)) = numVars s"

definition queued :: "SatEngine \<Rightarrow> bool" where
  "queued s \<longleftrightarrow>
     (\<forall>V. unat V < numVars s \<longrightarrow> Decidable s ! unat V \<longrightarrow> Value s ! unat V = 0 \<longrightarrow> V \<in> members (Order s))"

definition layers :: "SatEngine \<Rightarrow> bool" where
  "layers s \<longleftrightarrow> (\<forall>b \<in> set (TrailLim s). prefix_settled (Arena s) (refs s) (take b (Trail s)))"

definition meaning :: "assignment set \<Rightarrow> SatEngine \<Rightarrow> bool" where
  "meaning F s \<longleftrightarrow> formula s = F \<and> models_of (Arena s) (set (Clauses s)) (rootTrail s) = F"

text \<open>The first levels are those of the assumptions: each is true there, and is the only choice made.\<close>

definition assumed :: "SatLit list \<Rightarrow> SatEngine \<Rightarrow> bool" where
  "assumed As s \<longleftrightarrow>
     (\<forall>i < length (Trail s). 0 < levelAt (TrailLim s) i \<longrightarrow> levelAt (TrailLim s) i \<le> length As \<longrightarrow>
        Reason s ! unat (var (Trail s ! i)) = kNoClause \<longrightarrow> Trail s ! i = As ! (levelAt (TrailLim s) i - 1)) \<and>
     (\<forall>d < decisionLevel s. d < length As \<longrightarrow>
        (\<exists>i < length (Trail s). Trail s ! i = As ! d \<and> levelAt (TrailLim s) i \<le> Suc d))"

lemma assumedD:
  assumes "assumed As s"
  shows "i < length (Trail s) \<Longrightarrow> 0 < levelAt (TrailLim s) i \<Longrightarrow> levelAt (TrailLim s) i \<le> length As \<Longrightarrow>
      Reason s ! unat (var (Trail s ! i)) = kNoClause \<Longrightarrow> Trail s ! i = As ! (levelAt (TrailLim s) i - 1)"
    "d < decisionLevel s \<Longrightarrow> d < length As \<Longrightarrow>
      \<exists>i. i < length (Trail s) \<and> Trail s ! i = As ! d \<and> levelAt (TrailLim s) i \<le> Suc d"
  using assms unfolding assumed_def by blast+

text \<open>A level past the assumptions holds at least its choice.\<close>

definition occupied :: "SatLit list \<Rightarrow> SatEngine \<Rightarrow> bool" where
  "occupied As s \<longleftrightarrow>
     (\<forall>d < decisionLevel s. length As \<le> d \<longrightarrow> (\<exists>i < length (Trail s). levelAt (TrailLim s) i = Suc d))"

definition stack_base :: "assignment set \<Rightarrow> SatEngine \<Rightarrow> bool" where
  "stack_base F s \<longleftrightarrow> watched s \<and> deep_ok s \<and> layers s \<and> tables_ok s \<and> queued s \<and> meaning F s"

definition stack_inv :: "SatLit list \<Rightarrow> assignment set \<Rightarrow> SatEngine \<Rightarrow> bool" where
  "stack_inv As F s \<longleftrightarrow> stack_base F s \<and> assumed As s \<and> occupied As s"

text \<open>Between the rounds of a search the queue is in order and the current level has been opened.\<close>

definition opened :: "SatEngine \<Rightarrow> bool" where
  "opened s \<longleftrightarrow> (\<forall>b \<in> set (TrailLim s). b < length (Trail s))"

definition search_ok :: "SatLit list \<Rightarrow> assignment set \<Rightarrow> SatEngine \<Rightarrow> bool" where
  "search_ok As F s \<longleftrightarrow> stack_inv As F s \<and> propagation_ok s"

lemma stack_invD:
  assumes "stack_inv As F s"
  shows "watched s" "deep_ok s" "layers s" "tables_ok s" "queued s" "meaning F s" "assumed As s" "occupied As s"
    "trail_ok (Value s) (Trail s)" "arena_ok (Arena s) (refs s) (numVars s)" "levels_ok s" "reasons_ok s"
    "kNoClause \<notin> refs s" "watch_ok (Arena s) (refs s) (numVars s) (Watches s)" "formula s = F"
  using assms by (simp_all add: stack_inv_def stack_base_def watched_def base_ok_def deep_ok_def meaning_def)

lemma rootTrail_extend:
  assumes "levels_ok s" "Trail s' = Trail s @ T" "TrailLim s' = TrailLim s" "TrailLim s \<noteq> []"
  shows "rootTrail s' = rootTrail s"
proof -
  have "TrailLim s ! 0 \<in> set (TrailLim s)" using assms(4) by simp
  then have "TrailLim s ! 0 \<le> length (Trail s)" using assms(1) unfolding levels_ok_def by blast
  with assms show ?thesis by (simp add: rootTrail_def)
qed

lemma models_of_cong:
  assumes "\<And>r. r \<in> R \<Longrightarrow> set (clits A' r) = set (clits A r)"
  shows "models_of A' R T = models_of A R T"
proof -
  have "clause_true m (clits A' r) = clause_true m (clits A r)" if "r \<in> R" for m r
    by (rule clause_true_set_cong [OF assms [OF that]])
  then show ?thesis by (simp add: models_of_def)
qed

lemma models_of_mono: "set T \<subseteq> set T' \<Longrightarrow> models_of A R T' \<subseteq> models_of A R T"
  by (auto simp: models_of_def)

text \<open>Propagation keeps what the formula means, also at the root, where it adds to the trail.\<close>

lemma meaning_propagated:
  assumes m: "meaning F s" and lv: "levels_ok s" and f: "deep_frame s s'" and p: "prop_frame s s'" and mo: "models s' = models s"
  shows "meaning F s'"
proof -
  obtain T where T: "Trail s' = Trail s @ T" using p by (auto simp: prop_frame_def)
  have same: "TrailLim s' = TrailLim s" "Clauses s' = Clauses s" using p by (simp_all add: prop_frame_def)
  have r: "refs s' = refs s" and c: "\<And>r. r \<in> refs s \<Longrightarrow> set (clits (Arena s') r) = set (clits (Arena s) r)"
    using f by (simp_all add: deep_frame_def)
  have c': "\<And>r. r \<in> set (Clauses s) \<Longrightarrow> set (clits (Arena s') r) = set (clits (Arena s) r)"
    using c by (simp add: refs_def)
  show ?thesis
  proof (cases "TrailLim s = []")
    case False
    with m rootTrail_extend [OF lv T same(1)] models_of_cong [OF c] models_of_cong [OF c'] show ?thesis
      by (simp add: meaning_def formula_def r same(2))
  next
    case True
    then have rt: "rootTrail s = Trail s" "rootTrail s' = Trail s @ T" using T same by (simp_all add: rootTrail_def)
    have F: "formula s' = F" using m mo by (simp add: meaning_def formula_def models_def rt T)
    have "models_of (Arena s') (set (Clauses s)) (Trail s @ T) \<subseteq> models_of (Arena s) (set (Clauses s)) (Trail s)"
      using models_of_cong [OF c'] models_of_mono [of "Trail s" "Trail s @ T"] by simp
    also have "\<dots> = F" using m by (simp add: meaning_def rt)
    finally have "models_of (Arena s') (set (Clauses s)) (Trail s @ T) \<subseteq> F" .
    moreover have "formula s' \<subseteq> models_of (Arena s') (set (Clauses s)) (Trail s @ T)"
      by (auto simp: formula_def models_of_def rt refs_def same)
    ultimately show ?thesis using F by (auto simp: meaning_def rt same)
  qed
qed

lemma value_kept:
  assumes t: "trail_ok (Value s) (Trail s)" and t': "trail_ok (Value s') (Trail s')" and sub: "set (Trail s) \<subseteq> set (Trail s')"
    and n: "numVars s' = numVars s" and v: "v < numVars s" "Value s' ! v = 0"
  shows "Value s ! v = 0"
proof (rule ccontr)
  assume "Value s ! v \<noteq> 0"
  then obtain L where L: "L \<in> set (Trail s)" "unat (var L) = v" using t v(1) by (auto simp: trail_ok_def numVars_def)
  then have "worth (Value s') L = 1" using t' sub by (auto simp: trail_ok_def)
  with L(2) v(2) show False by (auto simp: worth_def split: if_splits)
qed

lemma layers_extend:
  assumes la: "layers s" and lv: "levels_ok s" and d: "deep_step s s'" and T: "Trail s' = Trail s @ T" "TrailLim s' = TrailLim s"
  shows "layers s'"
  unfolding layers_def T(2)
proof
  fix b assume b: "b \<in> set (TrailLim s)"
  have "b \<le> length (Trail s)" using b lv unfolding levels_ok_def by blast
  then have e: "take b (Trail s') = take b (Trail s)" by (simp add: T(1))
  have "set (take b (Trail s)) \<subseteq> set (Trail s)" by (rule set_take_subset)
  with la b d show "prefix_settled (Arena s') (refs s') (take b (Trail s'))"
    unfolding e layers_def deep_step_def by blast
qed

text \<open>Entries propagation adds to an opened level have reasons, so they are no choices.\<close>

lemma assumed_extend:
  assumes a: "assumed As s" and re: "reasons_ok s'" and op: "opened s" and f: "deep_frame s s'"
    and T: "Trail s' = Trail s @ T" "TrailLim s' = TrailLim s"
  shows "assumed As s'"
  unfolding assumed_def T(2)
proof (intro conjI allI impI)
  fix i assume i: "i < length (Trail s')" and l: "0 < levelAt (TrailLim s) i" "levelAt (TrailLim s) i \<le> length As"
    and r: "Reason s' ! unat (var (Trail s' ! i)) = kNoClause"
  have "i \<in> set (TrailLim s)" using re i l(1) r T(2) by (auto simp: reasons_ok_def Let_def)
  then have i': "i < length (Trail s)" using op by (simp add: opened_def)
  then have e: "Trail s' ! i = Trail s ! i" by (simp add: T(1) nth_append)
  then have "Reason s ! unat (var (Trail s ! i)) = kNoClause" using r i' f by (simp add: deep_frame_def)
  then show "Trail s' ! i = As ! (levelAt (TrailLim s) i - 1)" using a i' l e by (simp add: assumed_def)
next
  fix d assume d: "d < decisionLevel s'" "d < length As"
  then have "\<exists>i < length (Trail s). Trail s ! i = As ! d \<and> levelAt (TrailLim s) i \<le> Suc d"
    using a T(2) by (simp add: assumed_def decisionLevel_def)
  then obtain i where "i < length (Trail s)" "Trail s ! i = As ! d" "levelAt (TrailLim s) i \<le> Suc d" by blast
  then show "\<exists>i < length (Trail s'). Trail s' ! i = As ! d \<and> levelAt (TrailLim s) i \<le> Suc d"
    by (intro exI [of _ i]) (simp add: T(1) nth_append)
qed

lemma occupied_extend: "occupied As s \<Longrightarrow> Trail s' = Trail s @ T \<Longrightarrow> TrailLim s' = TrailLim s \<Longrightarrow> occupied As s'"
  unfolding occupied_def decisionLevel_def by (metis length_append trans_less_add1)

lemma opened_extend: "opened s \<Longrightarrow> Trail s' = Trail s @ T \<Longrightarrow> TrailLim s' = TrailLim s \<Longrightarrow> opened s'"
  by (auto simp: opened_def)

lemma propagate_stack:
  assumes ok: "search_ok As F s" and op: "opened s" and p: "propagate s = (c, s')"
  shows "stack_inv As F s'" "opened s'" "c = kNoClause \<Longrightarrow> search_ok As F s'" "c \<noteq> kNoClause \<Longrightarrow> false_clause s' c"
    "c = kNoClause \<Longrightarrow> QueueHead s' = length (Trail s') \<or> outOfBudget s'"
proof -
  have st: "stack_inv As F s" and pr: "propagation_ok s" using ok by (simp_all add: search_ok_def)
  note f = stack_invD [OF st]
  note q = propagate_ok [OF pr p] and d = propagate_deep [OF pr p]
  have fr: "prop_frame s s'" and mo: "models s' = models s" using q by blast+
  have ds: "deep_step s s'" and df: "deep_frame s s'" using d by (auto simp: deep_step_def)
  obtain T where T: "Trail s' = Trail s @ T" using fr by (auto simp: prop_frame_def)
  have TL: "TrailLim s' = TrailLim s" and n: "numVars s' = numVars s" using fr by (simp_all add: prop_frame_def numVars_def)
  have w: "watched s'" using q by (auto simp: propagation_ok_def split: if_splits)
  have t': "trail_ok (Value s') (Trail s')" using w by (simp add: watched_def base_ok_def)
  have dk: "deep_ok s'" using ds f(2) by (simp add: deep_step_def)
  have "tables_ok s'"
    using f(4) df fr by (simp add: tables_ok_def deep_frame_def prop_frame_def n)
  moreover have "queued s'"
    using f(5) df value_kept [OF f(9) t' _ n] T by (auto simp: queued_def deep_frame_def n)
  moreover have "assumed As s'"
    by (rule assumed_extend [OF f(7) _ op df T TL]) (use dk in \<open>simp add: deep_ok_def\<close>)
  ultimately show st': "stack_inv As F s'"
    using w dk layers_extend [OF f(3,11) ds T TL] meaning_propagated [OF f(6,11) df fr mo] occupied_extend [OF f(8) T TL]
    by (simp add: stack_inv_def stack_base_def)
  show "opened s'" by (rule opened_extend [OF op T TL])
  show "c = kNoClause \<Longrightarrow> search_ok As F s'" using st' q by (simp add: search_ok_def)
  show "c \<noteq> kNoClause \<Longrightarrow> false_clause s' c" using d by blast
  show "c = kNoClause \<Longrightarrow> QueueHead s' = length (Trail s') \<or> outOfBudget s'" using q by (auto simp: outOfBudget_def)
qed

text \<open>A falsified clause has a literal of the current level: the levels below were settled.\<close>

lemma conflict_top:
  assumes st: "stack_inv As F s" and fc: "false_clause s c" and dl: "0 < decisionLevel s"
  shows "\<exists>L \<in> set (clits (Arena s) c). Level s ! unat (var L) = decisionLevel s"
proof (rule ccontr)
  assume no: "\<not> ?thesis"
  note f = stack_invD [OF st]
  let ?b = "last (TrailLim s)"
  have ne: "TrailLim s \<noteq> []" using dl by (auto simp: decisionLevel_def)
  have low: "negl L \<in> set (take ?b (Trail s))" if L: "L \<in> set (clits (Arena s) c)" for L
  proof -
    have "negl L \<in> set (Trail s)" using fc L by (simp add: false_clause_def)
    then obtain i where i: "i < length (Trail s)" "Trail s ! i = negl L" by (metis in_set_conv_nth)
    have "levelAt (TrailLim s) i \<noteq> decisionLevel s" using no L level_of_false [OF f(11) i] by auto
    then have "\<not> (\<forall>b \<in> set (TrailLim s). b \<le> i)" using levelAt_top [of "TrailLim s" i] by (auto simp: decisionLevel_def)
    then obtain b where b: "b \<in> set (TrailLim s)" "i < b" by (auto simp: not_le)
    have "b \<le> ?b" using f(11) b(1) unfolding levels_ok_def by (metis in_set_conv_nth last_conv_nth ne nth_mem sorted_nth_mono diff_less length_greater_0_conv less_Suc_eq_le less_numeral_extra(1) Suc_diff_1)
    then have "i < ?b" using b(2) by simp
    with i show ?thesis by (auto simp: in_set_conv_nth intro!: exI [of _ i])
  qed
  have c: "c \<in> refs s" using fc by (simp add: false_clause_def)
  then have l: "2 \<le> length (clits (Arena s) c)" using f(10) by (simp add: arena_ok_def)
  then have "clits (Arena s) c ! 0 \<in> set (clits (Arena s) c)" by (intro nth_mem) linarith
  from low [OF this] f(3) c ne obtain L where L: "L \<in> set (clits (Arena s) c)" "L \<in> set (take ?b (Trail s))"
    unfolding layers_def prefix_settled_def by (metis last_in_set pos2)
  have "L \<in> set (Trail s)" "negl L \<in> set (Trail s)" using L(2) low [OF L(1)] by (auto dest: in_set_takeD)
  then show False using negl_not_in_trail [OF f(9)] by blast
qed

section \<open>Going back\<close>

lemma fold_unassign_more:
  "Level (fold unassign Ls s) = Level s" "Phase (fold unassign Ls s) = Phase s" "Decidable (fold unassign Ls s) = Decidable s"
  "Seen (fold unassign Ls s) = Seen s" "Activity (fold unassign Ls s) = Activity s" "ArenaWords (fold unassign Ls s) = ArenaWords s"
  "Clauses (fold unassign Ls s) = Clauses s" "Learnt (fold unassign Ls s) = Learnt s" "Opts (fold unassign Ls s) = Opts s"
  "Stats (fold unassign Ls s) = Stats s" "Falsified (fold unassign Ls s) = Falsified s" "OutOfSpace (fold unassign Ls s) = OutOfSpace s"
  "ConflictBudgetAt (fold unassign Ls s) = ConflictBudgetAt s" "PropagationBudgetAt (fold unassign Ls s) = PropagationBudgetAt s"
  "WatchVisitBudgetAt (fold unassign Ls s) = WatchVisitBudgetAt s" "Model (fold unassign Ls s) = Model s"
  "FailedAssumptions (fold unassign Ls s) = FailedAssumptions s" "length (Reason (fold unassign Ls s)) = length (Reason s)"
  by (induction Ls arbitrary: s) (simp_all add: unassign_def Let_def)

lemma fold_unassign_Reason:
  "v < length (Reason s) \<Longrightarrow>
     Reason (fold unassign Ls s) ! v = (if v \<in> unat ` var ` set Ls then kNoClause else Reason s ! v)"
proof (induction Ls arbitrary: s)
  case (Cons L Ls)
  then show ?case by (auto simp: unassign_def Let_def nth_list_update)
qed simp

lemma fold_unassign_Order:
  assumes "queue_ok (Order s)" "\<forall>L \<in> set Ls. unat (var L) < length (Position (Order s))"
  shows "queue_ok (Order (fold unassign Ls s)) \<and> length (Position (Order (fold unassign Ls s))) = length (Position (Order s)) \<and>
    members (Order (fold unassign Ls s)) = members (Order s) \<union> {V \<in> var ` set Ls. Decidable s ! unat V}"
  using assms
proof (induction Ls arbitrary: s)
  case (Cons L Ls)
  let ?s = "unassign L s"
  note i = insertVar_ok [OF Cons.prems(1), of "Activity s" "var L"]
  have o: "queue_ok (Order ?s)" "length (Position (Order ?s)) = length (Position (Order s))"
    "members (Order ?s) = members (Order s) \<union> (if Decidable s ! unat (var L) then {var L} else {})"
    using Cons.prems i contains_members [OF Cons.prems(1), of "var L"] by (auto simp: unassign_def Let_def)
  have d: "Decidable ?s = Decidable s" by (simp add: unassign_def Let_def)
  from Cons.IH [OF o(1)] o Cons.prems(2) show ?case by (auto simp: d)
qed simp

lemma cancelUntil_fields:
  assumes "d < decisionLevel s"
  shows "Trail (cancelUntil d s) = take (TrailLim s ! d) (Trail s)" "TrailLim (cancelUntil d s) = take d (TrailLim s)"
    "QueueHead (cancelUntil d s) = length (take (TrailLim s ! d) (Trail s))"
    "Arena (cancelUntil d s) = Arena s" "refs (cancelUntil d s) = refs s" "numVars (cancelUntil d s) = numVars s"
    "Level (cancelUntil d s) = Level s" "Watches (cancelUntil d s) = Watches s" "length (Reason (cancelUntil d s)) = length (Reason s)"
  using assms
  by (simp_all add: cancelUntil_def Let_def fold_unassign_fields fold_unassign_more numVars_def refs_def)

lemma cancelUntil_same [simp]:
  "Phase (cancelUntil d s) = Phase s" "Decidable (cancelUntil d s) = Decidable s" "Seen (cancelUntil d s) = Seen s"
  "Activity (cancelUntil d s) = Activity s" "ArenaWords (cancelUntil d s) = ArenaWords s" "Clauses (cancelUntil d s) = Clauses s"
  "Learnt (cancelUntil d s) = Learnt s" "Opts (cancelUntil d s) = Opts s" "Stats (cancelUntil d s) = Stats s"
  "Falsified (cancelUntil d s) = Falsified s" "OutOfSpace (cancelUntil d s) = OutOfSpace s"
  "ConflictBudgetAt (cancelUntil d s) = ConflictBudgetAt s" "PropagationBudgetAt (cancelUntil d s) = PropagationBudgetAt s"
  "WatchVisitBudgetAt (cancelUntil d s) = WatchVisitBudgetAt s" "Model (cancelUntil d s) = Model s"
  "FailedAssumptions (cancelUntil d s) = FailedAssumptions s" "Arena (cancelUntil d s) = Arena s"
  by (simp_all add: cancelUntil_def Let_def fold_unassign_more fold_unassign_fields)

lemma cancelUntil_tables:
  assumes d: "d < decisionLevel s" and t: "trail_ok (Value s) (Trail s)"
  shows "v < numVars s \<Longrightarrow> Value (cancelUntil d s) ! v = (if v \<in> unat ` var ` set (drop (TrailLim s ! d) (Trail s)) then 0 else Value s ! v)"
    "v < length (Reason s) \<Longrightarrow> Reason (cancelUntil d s) ! v = (if v \<in> unat ` var ` set (drop (TrailLim s ! d) (Trail s)) then kNoClause else Reason s ! v)"
  using d by (simp_all add: cancelUntil_def Let_def fold_unassign_Value fold_unassign_Reason numVars_def)

lemma cancelUntil_order:
  assumes d: "d < decisionLevel s" and t: "trail_ok (Value s) (Trail s)" and q: "queue_ok (Order s)" "length (Position (Order s)) = numVars s"
  shows "queue_ok (Order (cancelUntil d s))" "length (Position (Order (cancelUntil d s))) = numVars s"
    "members (Order (cancelUntil d s)) = members (Order s) \<union> {V \<in> var ` set (drop (TrailLim s ! d) (Trail s)). Decidable s ! unat V}"
proof -
  let ?Ls = "rev (drop (TrailLim s ! d) (Trail s))"
  have "\<forall>L \<in> set ?Ls. unat (var L) < length (Position (Order s))"
    using t q(2) by (auto simp: trail_ok_def numVars_def dest: in_set_dropD)
  from fold_unassign_Order [OF q(1) this] d q(2) show "queue_ok (Order (cancelUntil d s))"
    "length (Position (Order (cancelUntil d s))) = numVars s"
    "members (Order (cancelUntil d s)) = members (Order s) \<union> {V \<in> var ` set (drop (TrailLim s ! d) (Trail s)). Decidable s ! unat V}"
    by (simp_all add: cancelUntil_def Let_def)
qed

text \<open>The levels of what is left are what they were.\<close>

lemma sorted_split:
  assumes "sorted TL" "d < length TL"
  shows "b \<in> set (take d TL) \<Longrightarrow> b \<le> TL ! d" "b \<in> set (drop d TL) \<Longrightarrow> TL ! d \<le> (b :: nat)"
proof -
  show "b \<in> set (take d TL) \<Longrightarrow> b \<le> TL ! d"
    using assms by (auto simp: in_set_conv_nth sorted_iff_nth_mono)
  show "b \<in> set (drop d TL) \<Longrightarrow> TL ! d \<le> b"
    using assms by (auto simp: in_set_conv_nth sorted_iff_nth_mono)
qed

lemma levelAt_split: "levelAt TL i = levelAt (take d TL) i + levelAt (drop d TL) i"
  unfolding levelAt_def by (metis append_take_drop_id filter_append length_append)

lemma levelAt_take:
  assumes "sorted TL" "d < length TL" "i < TL ! d"
  shows "levelAt (take d TL) i = levelAt TL i" "levelAt TL i \<le> d"
proof -
  have "filter (\<lambda>b. b \<le> i) (drop d TL) = []"
    using sorted_split(2) [OF assms(1,2)] assms(3) by (fastforce simp: filter_empty_conv)
  then show e: "levelAt (take d TL) i = levelAt TL i" using levelAt_split [of TL i d] by (simp add: levelAt_def)
  show "levelAt TL i \<le> d" using levelAt_le [of "take d TL" i] by (simp add: e)
qed

text \<open>An entry of a level up to \<open>d\<close> stands before the bound of the next level.\<close>

lemma levelAt_before:
  assumes "sorted TL" "d < length TL" "levelAt TL i \<le> d"
  shows "i < TL ! d"
proof (rule ccontr)
  assume "\<not> i < TL ! d"
  then have "\<forall>b \<in> set (take (Suc d) TL). b \<le> i"
    using sorted_split(1) [OF assms(1,2)] assms(2) by (fastforce simp: take_Suc_conv_app_nth)
  from levelAt_top [OF this] have "Suc d \<le> levelAt TL i" using assms(2) levelAt_split [of TL i "Suc d"] by simp
  with assms(3) show False by simp
qed

lemma rootTrail_cancel:
  assumes "sorted (TrailLim s)" "d < decisionLevel s"
  shows "rootTrail (cancelUntil d s) = rootTrail s"
proof (cases "d = 0")
  case True
  with assms show ?thesis by (auto simp: rootTrail_def cancelUntil_fields decisionLevel_def)
next
  case False
  with assms have "TrailLim s ! 0 \<le> TrailLim s ! d" by (simp add: decisionLevel_def sorted_nth_mono)
  with False assms show ?thesis by (auto simp: rootTrail_def cancelUntil_fields decisionLevel_def min_def)
qed

lemma cancelUntil_kept:
  assumes t: "trail_ok (Value s) (Trail s)" and d: "d < decisionLevel s" and L: "L \<in> set (take (TrailLim s ! d) (Trail s))"
  shows "unat (var L) \<notin> unat ` var ` set (drop (TrailLim s ! d) (Trail s))"
proof -
  have "distinct (map var (take (TrailLim s ! d) (Trail s)) @ map var (drop (TrailLim s ! d) (Trail s)))"
    using t by (simp add: trail_ok_def flip: map_append)
  with L show ?thesis by auto
qed

lemma cancelUntil_reasons:
  assumes lv: "levels_ok s" and re: "reasons_ok s" and t: "trail_ok (Value s) (Trail s)" and d: "d < decisionLevel s"
  shows "reasons_ok (cancelUntil d s)"
proof -
  let ?s = "cancelUntil d s" and ?b = "TrailLim s ! d"
  note f = cancelUntil_fields [OF d]
  have so: "sorted (TrailLim s)" and dl: "d < length (TrailLim s)" using lv d by (simp_all add: levels_ok_def decisionLevel_def)
  have lr: "length (Reason s) = numVars s" using re by (simp add: reasons_ok_def)
  have "if Reason ?s ! unat (var (Trail ?s ! i)) = kNoClause then levelAt (TrailLim ?s) i = 0 \<or> i \<in> set (TrailLim ?s)
        else Reason ?s ! unat (var (Trail ?s ! i)) \<in> refs ?s \<and> clits (Arena ?s) (Reason ?s ! unat (var (Trail ?s ! i))) ! 0 = Trail ?s ! i \<and>
          (\<forall>L \<in> set (tl (clits (Arena ?s) (Reason ?s ! unat (var (Trail ?s ! i))))). negl L \<in> set (take i (Trail ?s)))"
    if i: "i < length (Trail ?s)" for i
  proof -
    have ib: "i < ?b" "i < length (Trail s)" using i by (simp_all add: f)
    have e: "Trail ?s ! i = Trail s ! i" "take i (Trail ?s) = take i (Trail s)" using ib by (simp_all add: f)
    have m: "Trail s ! i \<in> set (take ?b (Trail s))" using ib by (auto simp: in_set_conv_nth)
    have "unat (var (Trail s ! i)) < numVars s" by (rule trail_var_range [OF t ib(2)])
    then have r: "Reason ?s ! unat (var (Trail s ! i)) = Reason s ! unat (var (Trail s ! i))"
      using cancelUntil_tables(2) [OF d t] cancelUntil_kept [OF t d m] lr by simp
    have old: "if Reason s ! unat (var (Trail s ! i)) = kNoClause then levelAt (TrailLim s) i = 0 \<or> i \<in> set (TrailLim s)
        else Reason s ! unat (var (Trail s ! i)) \<in> refs s \<and> clits (Arena s) (Reason s ! unat (var (Trail s ! i))) ! 0 = Trail s ! i \<and>
          (\<forall>L \<in> set (tl (clits (Arena s) (Reason s ! unat (var (Trail s ! i))))). negl L \<in> set (take i (Trail s)))"
      using re ib(2) by (simp add: reasons_ok_def Let_def)
    have "i \<in> set (take d (TrailLim s))" if "i \<in> set (TrailLim s)"
    proof -
      have "i \<in> set (take d (TrailLim s)) \<or> i \<in> set (drop d (TrailLim s))" using that by (metis Un_iff append_take_drop_id set_append)
      then show ?thesis using sorted_split(2) [OF so dl, of i] ib(1) by auto
    qed
    with old show ?thesis unfolding e r f(2,4,5) levelAt_take(1) [OF so dl ib(1)]
      by (cases "Reason s ! unat (var (Trail s ! i)) = kNoClause") auto
  qed
  moreover have "length (Reason ?s) = numVars ?s" using lr by (simp add: f)
  ultimately show ?thesis unfolding reasons_ok_def Let_def by blast
qed

lemma cancelUntil_levels:
  assumes lv: "levels_ok s" and d: "d < decisionLevel s"
  shows "levels_ok (cancelUntil d s)"
proof -
  note f = cancelUntil_fields [OF d]
  have so: "sorted (TrailLim s)" and dl: "d < length (TrailLim s)" using lv d by (simp_all add: levels_ok_def decisionLevel_def)
  have b: "TrailLim s ! d \<le> length (Trail s)" using lv dl by (simp add: levels_ok_def)
  have "x \<le> length (Trail (cancelUntil d s))" if "x \<in> set (take d (TrailLim s))" for x
    using sorted_split(1) [OF so dl that] b by (simp add: f)
  moreover have "Level s ! unat (var (Trail (cancelUntil d s) ! i)) = levelAt (take d (TrailLim s)) i"
    if "i < length (Trail (cancelUntil d s))" for i
    using that lv levelAt_take(1) [OF so dl, of i] by (simp add: f levels_ok_def)
  ultimately show ?thesis using lv so by (simp add: levels_ok_def f sorted_wrt_take)
qed

lemma cancelUntil_assumed:
  assumes a: "assumed As s" and oc: "occupied As s" and lv: "levels_ok s" and re: "length (Reason s) = numVars s"
    and t: "trail_ok (Value s) (Trail s)" and d: "d < decisionLevel s"
  shows "assumed As (cancelUntil d s)" "occupied As (cancelUntil d s)"
proof -
  let ?s = "cancelUntil d s" and ?b = "TrailLim s ! d"
  note f = cancelUntil_fields [OF d]
  have so: "sorted (TrailLim s)" and dl: "d < length (TrailLim s)" using lv d by (simp_all add: levels_ok_def decisionLevel_def)
  have lev: "levelAt (TrailLim ?s) i = levelAt (TrailLim s) i" "Trail ?s ! i = Trail s ! i" "i < length (Trail s)"
      "Reason ?s ! unat (var (Trail s ! i)) = Reason s ! unat (var (Trail s ! i))"
    if i: "i < length (Trail ?s)" for i
  proof -
    have ib: "i < ?b" "i < length (Trail s)" using i by (simp_all add: f)
    then show "levelAt (TrailLim ?s) i = levelAt (TrailLim s) i" "Trail ?s ! i = Trail s ! i" "i < length (Trail s)"
      using levelAt_take [OF so dl] by (simp_all add: f)
    have m: "Trail s ! i \<in> set (take ?b (Trail s))" using ib by (auto simp: in_set_conv_nth)
    have "unat (var (Trail s ! i)) < numVars s" by (rule trail_var_range [OF t ib(2)])
    then show "Reason ?s ! unat (var (Trail s ! i)) = Reason s ! unat (var (Trail s ! i))"
      using cancelUntil_tables(2) [OF d t] cancelUntil_kept [OF t d m] re by simp
  qed
  have keep: "i < length (Trail ?s)" if "i < length (Trail s)" "levelAt (TrailLim s) i \<le> d" for i
    using levelAt_before [OF so dl that(2)] that(1) by (simp add: f)
  have dl': "decisionLevel ?s = d" using d by (simp add: decisionLevel_def f)
  show "assumed As ?s"
    unfolding assumed_def dl'
  proof (intro conjI allI impI)
    fix i assume "i < length (Trail ?s)" "0 < levelAt (TrailLim ?s) i" "levelAt (TrailLim ?s) i \<le> length As"
      "Reason ?s ! unat (var (Trail ?s ! i)) = kNoClause"
    then show "Trail ?s ! i = As ! (levelAt (TrailLim ?s) i - 1)" using a lev [of i] by (simp add: assumed_def)
  next
    fix e assume e: "e < d" "e < length As"
    then obtain i where i: "i < length (Trail s)" "Trail s ! i = As ! e" "levelAt (TrailLim s) i \<le> Suc e"
      using assumedD(2) [OF a, of e] d by auto
    have "i < length (Trail ?s)" using keep [OF i(1)] i(3) e(1) by simp
    then show "\<exists>i < length (Trail ?s). Trail ?s ! i = As ! e \<and> levelAt (TrailLim ?s) i \<le> Suc e"
      using i lev [of i] by (intro exI [of _ i]) simp
  qed
  show "occupied As ?s"
    unfolding occupied_def dl'
  proof (intro allI impI)
    fix e assume e: "e < d" "length As \<le> e"
    then obtain i where i: "i < length (Trail s)" "levelAt (TrailLim s) i = Suc e" using oc d unfolding occupied_def by (meson less_trans)
    have "i < length (Trail ?s)" using keep [OF i(1)] i(2) e(1) by simp
    then show "\<exists>i < length (Trail ?s). levelAt (TrailLim ?s) i = Suc e" using i lev [of i] by (intro exI [of _ i]) simp
  qed
qed

lemma cancelUntil_stack:
  assumes st: "stack_inv As F s" and d: "d < decisionLevel s"
  shows "search_ok As F (cancelUntil d s)"
proof -
  let ?s = "cancelUntil d s" and ?b = "TrailLim s ! d"
  note g = stack_invD [OF st] and f = cancelUntil_fields [OF d]
  have so: "sorted (TrailLim s)" and dl: "d < length (TrailLim s)" using g(11) d by (simp_all add: levels_ok_def decisionLevel_def)
  have t': "trail_ok (Value ?s) (Trail ?s)" unfolding f by (rule cancelUntil_trail [OF g(9) d])
  have w: "watched ?s" using g t' by (simp add: watched_def base_ok_def f)
  have ps: "prefix_settled (Arena s) (refs s) (Trail ?s)" using g(3) dl by (simp add: layers_def f)
  have "settled (Arena ?s) (refs ?s) (Value ?s) (processed ?s) {}"
    unfolding settled_def
  proof (intro ballI allI impI)
    fix r k :: nat assume "r \<in> refs ?s" "k < 2" "negl (clits (Arena ?s) r ! k) \<in> processed ?s"
    then have "\<exists>L \<in> set (clits (Arena s) r). L \<in> set (Trail ?s)"
      using ps unfolding prefix_settled_def f processed_def f(3) by (metis length_take take_all_iff order_refl take_take min.idem)
    then show "\<exists>L \<in> set (clits (Arena ?s) r). worth (Value ?s) L = 1" using t' by (auto simp: trail_ok_def f)
  qed
  then have pr: "propagation_ok ?s" using w by (simp add: propagation_ok_def)
  have lay: "layers ?s"
    unfolding layers_def
  proof
    fix x assume x: "x \<in> set (TrailLim ?s)"
    then have x': "x \<in> set (take d (TrailLim s))" by (simp add: f)
    have "take x (Trail ?s) = take x (Trail s)" using sorted_split(1) [OF so dl x'] by (simp add: f min_def)
    then show "prefix_settled (Arena ?s) (refs ?s) (take x (Trail ?s))"
      using g(3) x' by (auto simp: layers_def f dest: in_set_takeD)
  qed
  have q: "queue_ok (Order s)" "length (Position (Order s)) = numVars s" using g(4) by (simp_all add: tables_ok_def)
  note o = cancelUntil_order [OF d g(9) q]
  have tab: "tables_ok ?s" using g(4) o(1,2) by (simp add: tables_ok_def f)
  have "V \<in> members (Order ?s)" if V: "unat V < numVars s" "Decidable s ! unat V" "Value ?s ! unat V = 0" for V
  proof (cases "V \<in> var ` set (drop ?b (Trail s))")
    case True
    with V(2) show ?thesis by (simp add: o(3))
  next
    case False
    then have "unat V \<notin> unat ` var ` set (drop ?b (Trail s))" by auto
    then have "Value s ! unat V = 0" using V cancelUntil_tables(1) [OF d g(9) V(1)] by simp
    with V g(5) show ?thesis by (simp add: o(3) queued_def)
  qed
  then have "queued ?s" by (simp add: queued_def f)
  moreover have "meaning F ?s" using g(6) rootTrail_cancel [OF so d] by (simp add: meaning_def formula_def f)
  moreover have "deep_ok ?s" using cancelUntil_reasons [OF g(11,12,9) d] cancelUntil_levels [OF g(11) d] by (simp add: deep_ok_def)
  moreover have "length (Reason s) = numVars s" using g(12) by (simp add: reasons_ok_def)
  ultimately show ?thesis
    using w lay tab pr cancelUntil_assumed [OF g(7,8,11) _ g(9) d] by (simp add: search_ok_def stack_inv_def stack_base_def)
qed

section \<open>Changes that keep the stack\<close>

lemma stack_baseD:
  assumes "stack_base F s"
  shows "watched s" "deep_ok s" "layers s" "tables_ok s" "queued s" "meaning F s"
    "trail_ok (Value s) (Trail s)" "arena_ok (Arena s) (refs s) (numVars s)" "levels_ok s" "reasons_ok s"
    "kNoClause \<notin> refs s" "watch_ok (Arena s) (refs s) (numVars s) (Watches s)" "QueueHead s \<le> length (Trail s)"
  using assms by (simp_all add: stack_base_def watched_def base_ok_def deep_ok_def)

lemma watched_frame:
  assumes "core_frame s s'"
  shows "watched s' \<longleftrightarrow> watched s" "propagation_ok s' \<longleftrightarrow> propagation_ok s"
proof -
  have c: "clits (Arena s') = clits (Arena s)" "dom (Arena s') = dom (Arena s)" by (rule core_frame_derived(11,12) [OF assms])+
  have w: "watch_ok (Arena s') R n ws = watch_ok (Arena s) R n ws" for R n ws by (simp add: watch_ok_def c)
  have g: "settled (Arena s') R Val Q X = settled (Arena s) R Val Q X" for R Val Q X by (simp add: settled_def c)
  have "Value s' = Value s" "Watches s' = Watches s" "QueueHead s' = QueueHead s" using assms by (simp_all add: core_frame_def)
  with w g arena_ok_frame [OF assms] core_frame_derived(1,2,6,7) [OF assms]
  show "watched s' \<longleftrightarrow> watched s" "propagation_ok s' \<longleftrightarrow> propagation_ok s"
    by (simp_all add: watched_def propagation_ok_def base_ok_def)
qed

lemma stack_base_frame:
  assumes f: "core_frame s s'" and c: "True \<notin> set (Seen s')" and st: "stack_base F s"
  shows "stack_base F s'"
proof -
  note d = core_frame_derived [OF f] and g = stack_baseD [OF st]
  have q: "queue_ok (Order s)" using g(4) by (simp add: tables_ok_def)
  have "tables_ok s'" using g(4) f c q by (simp add: tables_ok_def core_frame_def numVars_def)
  moreover have "queued s'" using g(5) f q by (simp add: queued_def core_frame_def numVars_def)
  moreover have "layers s'" using g(3) unfolding layers_def prefix_settled_def d by simp
  moreover have "meaning F s'"
    using g(6) formula_frame [OF f] f unfolding meaning_def models_of_def d(11) by (simp add: core_frame_def)
  ultimately show ?thesis
    using g(1,2) watched_frame [OF f] deep_ok_frame [OF f] by (simp add: stack_base_def)
qed

lemma stack_frame:
  assumes f: "core_frame s s'" and c: "True \<notin> set (Seen s')" and st: "stack_inv As F s"
  shows "stack_inv As F s'"
  using stack_base_frame [OF f c] st unfolding stack_inv_def assumed_def occupied_def core_frame_derived [OF f] by simp

lemma search_frame:
  assumes f: "core_frame s s'" and c: "True \<notin> set (Seen s')" and st: "search_ok As F s"
  shows "search_ok As F s'"
  using stack_frame [OF f c] watched_frame(2) [OF f] st by (simp add: search_ok_def)

lemma opened_frame: "core_frame s s' \<Longrightarrow> opened s' \<longleftrightarrow> opened s"
  by (simp add: opened_def core_frame_def)

section \<open>Assigning a literal\<close>

lemma enqueue_same [simp]:
  "Clauses (enqueue L r s) = Clauses s" "Learnt (enqueue L r s) = Learnt s" "ArenaWords (enqueue L r s) = ArenaWords s"
  "Opts (enqueue L r s) = Opts s" "OutOfSpace (enqueue L r s) = OutOfSpace s" "Falsified (enqueue L r s) = Falsified s"
  "ConflictBudgetAt (enqueue L r s) = ConflictBudgetAt s" "PropagationBudgetAt (enqueue L r s) = PropagationBudgetAt s"
  "WatchVisitBudgetAt (enqueue L r s) = WatchVisitBudgetAt s" "Model (enqueue L r s) = Model s"
  by (simp_all add: enqueue_def Let_def)

lemma enqueue_meaning:
  assumes m: "meaning F s" and lv: "levels_ok s" and root: "decisionLevel s = 0 \<Longrightarrow> \<forall>m \<in> F. lit_true m L"
  shows "meaning F (enqueue L r s)"
proof (cases "TrailLim s = []")
  case False
  then have "rootTrail (enqueue L r s) = rootTrail s" by (intro rootTrail_extend [OF lv]) simp_all
  with m show ?thesis by (simp add: meaning_def formula_def)
next
  case True
  then have e: "rootTrail (enqueue L r s) = rootTrail s @ [L]" by (simp add: rootTrail_def)
  from True root have "\<forall>m \<in> F. lit_true m L" by (simp add: decisionLevel_def)
  with m show ?thesis by (auto simp: meaning_def formula_def e models_of_snoc)
qed

lemma enqueue_shape:
  assumes st: "stack_base F s" and n: "unat (var L) < numVars s" and z: "worth (Value s) L = 0"
    and r: "if r = kNoClause then decisionLevel s = 0 \<or> length (Trail s) \<in> set (TrailLim s)
      else r \<in> refs s \<and> clits (Arena s) r ! 0 = L \<and> (\<forall>M \<in> set (tl (clits (Arena s) r)). negl M \<in> set (Trail s))"
    and m: "meaning G (enqueue L r s)"
  shows "stack_base G (enqueue L r s)"
proof -
  let ?s = "enqueue L r s"
  note g = stack_baseD [OF st]
  have n': "unat (var L) < length (Value s)" using n by (simp add: numVars_def)
  have t': "trail_ok (Value ?s) (Trail ?s)" using trail_ok_assign [OF g(7) n' z] by simp
  have "watched ?s" using g t' by (simp add: watched_def base_ok_def)
  moreover have "deep_ok ?s" by (rule enqueue_deep [OF g(2,7) n z r])
  moreover have "layers ?s"
    unfolding layers_def
  proof
    fix b assume b: "b \<in> set (TrailLim ?s)"
    then have "b \<le> length (Trail s)" using g(9) by (simp add: levels_ok_def)
    then show "prefix_settled (Arena ?s) (refs ?s) (take b (Trail ?s))" using g(3) b by (simp add: layers_def)
  qed
  moreover have "tables_ok ?s" using g(4) by (simp add: tables_ok_def)
  moreover have "queued ?s"
    using g(5) value_kept [OF g(7) t'] by (auto simp: queued_def)
  ultimately show ?thesis using m by (simp add: stack_base_def)
qed

lemma enqueue_base:
  assumes st: "stack_base F s" and n: "unat (var L) < numVars s" and z: "worth (Value s) L = 0"
    and r: "if r = kNoClause then decisionLevel s = 0 \<or> length (Trail s) \<in> set (TrailLim s)
      else r \<in> refs s \<and> clits (Arena s) r ! 0 = L \<and> (\<forall>M \<in> set (tl (clits (Arena s) r)). negl M \<in> set (Trail s))"
    and root: "decisionLevel s = 0 \<Longrightarrow> \<forall>m \<in> F. lit_true m L"
  shows "stack_base F (enqueue L r s)"
  by (rule enqueue_shape [OF st n z r enqueue_meaning [OF stack_baseD(6,9) [OF st] root]])

text \<open>A literal forced at the current level.\<close>

lemma enqueue_stack:
  assumes st: "stack_inv As F s" and n: "unat (var L) < numVars s" and z: "worth (Value s) L = 0"
    and r: "if r = kNoClause then decisionLevel s = 0
      else r \<in> refs s \<and> clits (Arena s) r ! 0 = L \<and> (\<forall>M \<in> set (tl (clits (Arena s) r)). negl M \<in> set (Trail s))"
    and root: "decisionLevel s = 0 \<Longrightarrow> \<forall>m \<in> F. lit_true m L"
  shows "stack_inv As F (enqueue L r s)"
proof -
  let ?s = "enqueue L r s"
  have sb: "stack_base F s" and a: "assumed As s" and oc: "occupied As s" using st by (simp_all add: stack_inv_def)
  note g = stack_baseD [OF sb]
  have top: "levelAt (TrailLim s) (length (Trail s)) = decisionLevel s"
    using g(9) by (simp add: levels_ok_def levelAt_top decisionLevel_def)
  have len: "length (Reason s) = numVars s" using g(10) by (simp add: reasons_ok_def)
  have new: "unat (var (Trail s ! i)) \<noteq> unat (var L)" if "i < length (Trail s)" for i
    using trail_ok_fresh_var [OF g(7) _ z that] n by (simp add: numVars_def)
  have "stack_base F ?s" by (rule enqueue_base [OF sb n z]) (use r root in auto)
  moreover have "assumed As ?s"
    unfolding assumed_def
  proof (intro conjI allI impI)
    fix i assume i: "i < length (Trail ?s)" and l: "0 < levelAt (TrailLim ?s) i" "levelAt (TrailLim ?s) i \<le> length As"
      and k: "Reason ?s ! unat (var (Trail ?s ! i)) = kNoClause"
    have i': "i < length (Trail s)"
    proof (rule ccontr)
      assume "\<not> i < length (Trail s)"
      with i have "i = length (Trail s)" by simp
      with k l(1) n len r top show False by (auto split: if_splits)
    qed
    then have "Trail ?s ! i = Trail s ! i" by (simp add: nth_append)
    with k new [OF i'] assumedD(1) [OF a i'] l show "Trail ?s ! i = As ! (levelAt (TrailLim ?s) i - 1)" by simp
  next
    fix d assume "d < decisionLevel ?s" "d < length As"
    then obtain i where "i < length (Trail s)" "Trail s ! i = As ! d" "levelAt (TrailLim s) i \<le> Suc d"
      using assumedD(2) [OF a, of d] by auto
    then show "\<exists>i < length (Trail ?s). Trail ?s ! i = As ! d \<and> levelAt (TrailLim ?s) i \<le> Suc d"
      by (intro exI [of _ i]) (simp add: nth_append)
  qed
  moreover have "occupied As ?s" by (rule occupied_extend [OF oc]) simp_all
  ultimately show ?thesis by (simp add: stack_inv_def)
qed

section \<open>A new level\<close>

lemma newDecisionLevel_fields [simp]:
  "TrailLim (newDecisionLevel s) = TrailLim s @ [length (Trail s)]" "Trail (newDecisionLevel s) = Trail s"
  "Arena (newDecisionLevel s) = Arena s" "refs (newDecisionLevel s) = refs s" "numVars (newDecisionLevel s) = numVars s"
  "Value (newDecisionLevel s) = Value s" "Level (newDecisionLevel s) = Level s" "Reason (newDecisionLevel s) = Reason s"
  "Watches (newDecisionLevel s) = Watches s" "QueueHead (newDecisionLevel s) = QueueHead s" "Order (newDecisionLevel s) = Order s"
  "Decidable (newDecisionLevel s) = Decidable s" "processed (newDecisionLevel s) = processed s"
  "decisionLevel (newDecisionLevel s) = Suc (decisionLevel s)" "Clauses (newDecisionLevel s) = Clauses s"
  by (simp_all add: newDecisionLevel_def refs_def numVars_def processed_def decisionLevel_def)

lemma all_settled:
  assumes pr: "propagation_ok s" and q: "QueueHead s = length (Trail s)"
  shows "prefix_settled (Arena s) (refs s) (Trail s)"
  unfolding prefix_settled_def
proof (intro ballI allI impI)
  fix r k :: nat assume r: "r \<in> refs s" "k < 2" "negl (clits (Arena s) r ! k) \<in> set (Trail s)"
  note f = propagation_okD [OF pr]
  obtain L where L: "L \<in> set (clits (Arena s) r)" "worth (Value s) L = 1"
    using f(6) r by (auto simp: settled_def processed_def q)
  have "unat (var L) < length (Value s)" using f(1) r(1) L(1) by (auto simp: arena_ok_def numVars_def)
  with trail_ok_worth_1 [OF f(2) _ L(2)] L(1) show "\<exists>L \<in> set (clits (Arena s) r). L \<in> set (Trail s)" by blast
qed

lemma levelAt_new: "i < length (Trail s) \<Longrightarrow> levelAt (TrailLim (newDecisionLevel s)) i = levelAt (TrailLim s) i"
  by (simp add: levelAt_append)

lemma newDecisionLevel_base:
  assumes st: "stack_base F s" and pr: "propagation_ok s" and q: "QueueHead s = length (Trail s)"
  shows "stack_base F (newDecisionLevel s)" "propagation_ok (newDecisionLevel s)"
proof -
  let ?s = "newDecisionLevel s"
  note g = stack_baseD [OF st]
  have "watched ?s" using g(1) by (simp add: watched_def base_ok_def)
  moreover have "levels_ok ?s" using g(9) levelAt_new [of _ s] by (auto simp: levels_ok_def sorted_append)
  moreover have "reasons_ok ?s"
    unfolding reasons_ok_def Let_def
  proof (intro conjI allI impI)
    show "length (Reason ?s) = numVars ?s" using g(10) by (simp add: reasons_ok_def)
    fix i assume "i < length (Trail ?s)"
    with g(10) levelAt_new [of i s]
    show "if Reason ?s ! unat (var (Trail ?s ! i)) = kNoClause then levelAt (TrailLim ?s) i = 0 \<or> i \<in> set (TrailLim ?s)
        else Reason ?s ! unat (var (Trail ?s ! i)) \<in> refs ?s \<and> clits (Arena ?s) (Reason ?s ! unat (var (Trail ?s ! i))) ! 0 = Trail ?s ! i \<and>
          (\<forall>L \<in> set (tl (clits (Arena ?s) (Reason ?s ! unat (var (Trail ?s ! i))))). negl L \<in> set (take i (Trail ?s)))"
      by (auto simp: reasons_ok_def Let_def)
  qed
  moreover have "layers ?s" using g(3) all_settled [OF pr q] by (auto simp: layers_def)
  moreover have "tables_ok ?s" using g(4) by (simp add: tables_ok_def newDecisionLevel_def numVars_def)
  moreover have "queued ?s" using g(5) by (simp add: queued_def)
  moreover have "rootTrail ?s = rootTrail s"
    by (cases "TrailLim s") (simp_all add: rootTrail_def)
  ultimately show "stack_base F ?s" using g(6) by (simp add: stack_base_def deep_ok_def meaning_def formula_def)
  show "propagation_ok ?s" using pr by (simp add: propagation_ok_def watched_def base_ok_def)
qed

text \<open>A choice opens a level and stands at its start.\<close>

lemma decide_stack:
  assumes ok: "search_ok As F s" and q: "QueueHead s = length (Trail s)" and n: "unat (var L) < numVars s"
    and z: "litValue s L = 0" and A: "decisionLevel s < length As \<Longrightarrow> L = As ! decisionLevel s"
  shows "search_ok As F (enqueue L kNoClause (newDecisionLevel s))" "opened (enqueue L kNoClause (newDecisionLevel s))"
proof -
  let ?u = "newDecisionLevel s" and ?s = "enqueue L kNoClause (newDecisionLevel s)"
  have st: "stack_base F s" and pr: "propagation_ok s" and a: "assumed As s" and oc: "occupied As s"
    using ok by (simp_all add: search_ok_def stack_inv_def)
  note b = newDecisionLevel_base [OF st pr q] and g = stack_baseD [OF st]
  have z': "worth (Value ?u) L = 0" using z by (simp add: litValue_worth)
  have "litValue ?u L \<noteq> 1" "litValue ?u L \<noteq> - 1" using z by (simp_all add: litValue_def)
  then have pr': "propagation_ok ?s" using n by (intro enqueue_propagation_ok [OF b(2)]) simp_all
  have sb: "stack_base F ?s" by (rule enqueue_base [OF b(1)]) (use n z' in simp_all)
  have top: "levelAt (TrailLim ?s) (length (Trail s)) = Suc (decisionLevel s)"
    using g(9) by (simp add: levels_ok_def levelAt_append levelAt_top decisionLevel_def)
  have old: "levelAt (TrailLim ?s) i = levelAt (TrailLim s) i" "Trail ?s ! i = Trail s ! i" if "i < length (Trail s)" for i
    using that by (simp_all add: levelAt_append nth_append)
  have new: "unat (var (Trail s ! i)) \<noteq> unat (var L)" if "i < length (Trail s)" for i
    using trail_ok_fresh_var [OF g(7) _ _ that] n z by (simp add: numVars_def litValue_worth)
  have "assumed As ?s"
    unfolding assumed_def
  proof (intro conjI allI impI)
    fix i assume i: "i < length (Trail ?s)" and l: "0 < levelAt (TrailLim ?s) i" "levelAt (TrailLim ?s) i \<le> length As"
      and k: "Reason ?s ! unat (var (Trail ?s ! i)) = kNoClause"
    show "Trail ?s ! i = As ! (levelAt (TrailLim ?s) i - 1)"
    proof (cases "i < length (Trail s)")
      case True
      with k l new [OF True] assumedD(1) [OF a True] old [OF True] show ?thesis by simp
    next
      case False
      with i have "i = length (Trail s)" by simp
      with A l top show ?thesis by simp
    qed
  next
    fix d assume d: "d < decisionLevel ?s" "d < length As"
    show "\<exists>i < length (Trail ?s). Trail ?s ! i = As ! d \<and> levelAt (TrailLim ?s) i \<le> Suc d"
    proof (cases "d < decisionLevel s")
      case True
      then obtain i where "i < length (Trail s)" "Trail s ! i = As ! d" "levelAt (TrailLim s) i \<le> Suc d"
        using assumedD(2) [OF a, of d] d by auto
      then show ?thesis using old [of i] by (intro exI [of _ i]) simp
    next
      case False
      with d have "d = decisionLevel s" by simp
      with A d top show ?thesis by (intro exI [of _ "length (Trail s)"]) simp
    qed
  qed
  moreover have "occupied As ?s"
    unfolding occupied_def
  proof (intro allI impI)
    fix d assume d: "d < decisionLevel ?s" "length As \<le> d"
    show "\<exists>i < length (Trail ?s). levelAt (TrailLim ?s) i = Suc d"
    proof (cases "d < decisionLevel s")
      case True
      then obtain i where "i < length (Trail s)" "levelAt (TrailLim s) i = Suc d"
        using oc d unfolding occupied_def by blast
      then show ?thesis using old [of i] by (intro exI [of _ i]) simp
    next
      case False
      with d have "d = decisionLevel s" by simp
      with top show ?thesis by (intro exI [of _ "length (Trail s)"]) simp
    qed
  qed
  ultimately show "search_ok As F ?s" using sb pr' by (simp add: search_ok_def stack_inv_def)
  show "opened ?s" using g(9) by (auto simp: opened_def levels_ok_def less_Suc_eq_le)
qed

end
