(* ===== verification/Sat_Store.thy ===== *)
theory Sat_Store
  imports Sat_Stack
begin

text \<open>
  Learning from a conflict keeps the invariant: the clause is stored, watched and asserted after going
  back.  \<open>weight\<close> measures progress: a step that adds an entry to a lower level outweighs everything
  that was undone.
\<close>

section \<open>Storing what was learned\<close>

lemma trail_index_unique: "trail_ok Val T \<Longrightarrow> i < length T \<Longrightarrow> j < length T \<Longrightarrow> T ! i = T ! j \<Longrightarrow> i = j"
  using trail_var_inj [of Val T i j] by simp

text \<open>Once the search is back, the first literal is free and the others are false.\<close>

lemma asserting_cancel:
  assumes st: "stack_inv As F s" and a: "asserting s Lits Bt"
  defines "s' \<equiv> cancelUntil Bt s"
  shows "worth (Value s') (Lits ! 0) = 0" "\<forall>L \<in> set (tl Lits). negl L \<in> set (Trail s')" "\<forall>L \<in> set Lits. unat (var L) < numVars s"
    "2 \<le> length Lits \<Longrightarrow> \<forall>x \<in> set (TrailLim s'). negl (Lits ! 1) \<notin> set (take x (Trail s'))"
proof -
  note g = stack_invD [OF st]
  have d: "Bt < decisionLevel s" using a by (simp add: asserting_def)
  note f = cancelUntil_fields [OF d]
  have so: "sorted (TrailLim s)" and dl: "Bt < length (TrailLim s)" using g(11) d by (simp_all add: levels_ok_def decisionLevel_def)
  let ?b = "TrailLim s ! Bt"
  have ix: "\<exists>i. i < length (Trail s) \<and> Trail s ! i = negl L \<and> levelAt (TrailLim s) i = Level s ! unat (var L)" if "L \<in> set Lits" for L
  proof -
    have "negl L \<in> set (Trail s)" using a that by (simp add: asserting_def)
    then obtain i where i: "i < length (Trail s)" "Trail s ! i = negl L" by (metis in_set_conv_nth)
    then show ?thesis using level_of_false [OF g(11) i] by auto
  qed
  show rng: "\<forall>L \<in> set Lits. unat (var L) < numVars s"
  proof
    fix L assume "L \<in> set Lits"
    then obtain i where "i < length (Trail s)" "Trail s ! i = negl L" using ix by blast
    then show "unat (var L) < numVars s" using trail_var_range [OF g(9), of i] by simp
  qed
  have ne: "Lits ! 0 \<in> set Lits" using a by (simp add: asserting_def)
  obtain i where i: "i < length (Trail s)" "Trail s ! i = negl (Lits ! 0)" "levelAt (TrailLim s) i = decisionLevel s"
    using ix [OF ne] a by (auto simp: asserting_def)
  have "\<not> i < ?b" using levelAt_take(2) [OF so dl, of i] i(3) d by auto
  then have "negl (Lits ! 0) \<in> set (drop ?b (Trail s))"
    using i(1,2) by (auto simp: in_set_conv_nth intro!: exI [of _ "i - ?b"])
  then have "unat (var (Lits ! 0)) \<in> unat ` var ` set (drop ?b (Trail s))" by (metis image_eqI var_negl)
  then have "Value s' ! unat (var (Lits ! 0)) = 0"
    using cancelUntil_tables(1) [OF d g(9)] rng ne by (simp add: s'_def)
  then show "worth (Value s') (Lits ! 0) = 0" by (simp add: worth_def)
  show "\<forall>L \<in> set (tl Lits). negl L \<in> set (Trail s')"
  proof
    fix L assume L: "L \<in> set (tl Lits)"
    then have "L \<in> set Lits" "Level s ! unat (var L) \<le> Bt" using a by (auto simp: asserting_def dest: list.set_sel(2))
    then obtain j where j: "j < length (Trail s)" "Trail s ! j = negl L" "levelAt (TrailLim s) j \<le> Bt" using ix by fastforce
    have "j < ?b" by (rule levelAt_before [OF so dl j(3)])
    then show "negl L \<in> set (Trail s')" using j(1,2) by (auto simp: s'_def f in_set_conv_nth intro!: exI [of _ j])
  qed
  assume l2: "2 \<le> length Lits"
  show "\<forall>x \<in> set (TrailLim s'). negl (Lits ! 1) \<notin> set (take x (Trail s'))"
  proof (intro ballI notI)
    fix x assume x: "x \<in> set (TrailLim s')" and m: "negl (Lits ! 1) \<in> set (take x (Trail s'))"
    have "Lits ! 1 \<in> set Lits" using l2 by simp
    moreover have "Level s ! unat (var (Lits ! 1)) = Bt" using a l2 by (simp add: asserting_def)
    ultimately obtain j where j: "j < length (Trail s)" "Trail s ! j = negl (Lits ! 1)" "levelAt (TrailLim s) j = Bt"
      using ix by fastforce
    obtain k where k: "k < x" "k < length (Trail s)" "Trail s ! k = negl (Lits ! 1)"
      using m by (auto simp: s'_def f in_set_conv_nth)
    have "k = j" by (rule trail_index_unique [OF g(9) k(2) j(1)]) (simp add: j k)
    obtain e where e: "e < Bt" "x = TrailLim s ! e" using x by (auto simp: s'_def f in_set_conv_nth)
    have "levelAt (TrailLim s) j \<le> e" using levelAt_take(2) [OF so, of e j] e k(1) \<open>k = j\<close> dl by simp
    with e j(3) show False by simp
  qed
qed

lemma attach_fields:
  assumes "CLits c = a # b # D"
  shows "attachClause r (s\<lparr>ArenaWords := w, Arena := (Arena s)(r \<mapsto> c), Learnt := Learnt s @ [r]\<rparr>) = s\<lparr>ArenaWords := w, Arena := (Arena s)(r \<mapsto> c), Learnt := Learnt s @ [r],
      Watches := (Watches s)[unat (index (negl a)) := wl (Watches s) (negl a) @ [\<lparr>WClause = r, Blocker = b\<rparr>],
        unat (index (negl b)) := wl ((Watches s)[unat (index (negl a)) := wl (Watches s) (negl a) @ [\<lparr>WClause = r, Blocker = b\<rparr>]]) (negl b)
          @ [\<lparr>WClause = r, Blocker = a\<rparr>]]\<rparr>"
  using assms by (simp add: attachClause_def pushWatch_def getClause_def lit_def wl_def Let_def)

text \<open>
  The state with the clause attached.  The clause is implied, its first literal is free and the
  second is false, though not below the current level.
\<close>

lemma attach_learnt:
  assumes st: "stack_inv As F s" and c: "CLits c = C" "C = a # b # D" "distinct C"
    and n: "\<forall>L \<in> set C. unat (var L) < numVars s" and F: "F \<subseteq> {m. clause_true m C}"
    and z: "worth (Value s) a = 0" and low: "\<forall>x \<in> set (TrailLim s). negl b \<notin> set (take x (Trail s))"
    and w: "ArenaWords s < w" "w \<le> kMaxArenaWords"
  defines "u \<equiv> attachClause (ArenaWords s) (s\<lparr>ArenaWords := w, Arena := (Arena s)(ArenaWords s \<mapsto> c), Learnt := Learnt s @ [ArenaWords s]\<rparr>)"
  shows "stack_inv As F u" "refs u = insert (ArenaWords s) (refs s)" "clits (Arena u) (ArenaWords s) = C"
    "\<And>x. x \<in> refs s \<Longrightarrow> clits (Arena u) x = clits (Arena s) x" "ArenaWords s \<notin> refs s"
proof -
  let ?r = "ArenaWords s"
  note g = stack_invD [OF st]
  have cl: "CLits c = a # b # D" using c by simp
  have ab: "negl a \<noteq> negl b" using c(2,3) by auto
  have len: "length (Watches s) = 2 * numVars s" by (rule watch_ok_length [OF g(14)])
  have vn: "unat (var a) < numVars s" "unat (var b) < numVars s" using n c(2) by simp_all
  have u: "u = s\<lparr>ArenaWords := w, Arena := (Arena s)(?r \<mapsto> c), Learnt := Learnt s @ [?r],
      Watches := (Watches s)[unat (index (negl a)) := wl (Watches s) (negl a) @ [\<lparr>WClause = ?r, Blocker = b\<rparr>],
        unat (index (negl b)) := wl (Watches s) (negl b) @ [\<lparr>WClause = ?r, Blocker = a\<rparr>]]\<rparr>"
    unfolding u_def attach_fields [OF cl] using wl_update [OF len, of "negl a"] vn ab by simp
  have fresh: "\<forall>r \<in> dom (Arena s). r < ?r" using g(4) by (simp add: tables_ok_def)
  show rR: "?r \<notin> refs s" using fresh g(10) by (auto simp: arena_ok_def)
  show R: "refs u = insert ?r (refs s)" by (auto simp: u refs_def)
  have cl2: "clits (Arena u) x = (if x = ?r then C else clits (Arena s) x)" for x by (simp add: u clits_upd c(1))
  show "clits (Arena u) ?r = C" by (simp add: cl2)
  show old: "\<And>x. x \<in> refs s \<Longrightarrow> clits (Arena u) x = clits (Arena s) x" using rR by (auto simp: cl2)
  have same: "numVars u = numVars s" "Value u = Value s" "Trail u = Trail s" "TrailLim u = TrailLim s" "QueueHead u = QueueHead s"
    "Level u = Level s" "Reason u = Reason s" "Order u = Order s" "decisionLevel u = decisionLevel s" "rootTrail u = rootTrail s"
    "Clauses u = Clauses s" "Decidable u = Decidable s"
    by (simp_all add: u numVars_def decisionLevel_def rootTrail_def)
  have "watch_ok (Arena u) (refs u) (numVars u) (Watches u)"
    unfolding R same using watch_ok_attach [OF g(14) rR cl _ vn] c(2,3) by (simp add: u)
  moreover have "arena_ok (Arena u) (refs u) (numVars u)"
    using g(10) n c(2,3) by (auto simp: arena_ok_def R cl2 same) (auto simp: u)
  moreover have "?r \<noteq> kNoClause" using w by (auto simp: kMaxArenaWords_def kNoClause_def)
  ultimately have wa: "watched u" using g(1) by (simp add: watched_def base_ok_def same R)
  have dk: "deep_ok u"
    using g(2) old unfolding deep_ok_def levels_ok_def reasons_ok_def same R Let_def by (auto split: if_splits)
  have "negl a \<notin> set (Trail s)"
    using z trail_ok_true [OF g(9), of "negl a"] by auto
  then have la: "negl a \<notin> set (take x (Trail s))" for x by (auto dest: in_set_takeD)
  have lay: "layers u"
    unfolding layers_def same
  proof
    fix x assume x: "x \<in> set (TrailLim s)"
    have p: "prefix_settled (Arena s) (refs s) (take x (Trail s))" using g(3) x by (simp add: layers_def)
    show "prefix_settled (Arena u) (refs u) (take x (Trail s))"
      unfolding prefix_settled_def R
    proof (intro ballI allI impI)
      fix y k :: nat assume y: "y \<in> insert ?r (refs s)" "k < 2" "negl (clits (Arena u) y ! k) \<in> set (take x (Trail s))"
      have "y \<noteq> ?r" using y(2,3) la low x by (auto simp: cl2 c(2) less_2_cases_iff)
      then have "y \<in> refs s" using y(1) by simp
      then show "\<exists>L \<in> set (clits (Arena u) y). L \<in> set (take x (Trail s))"
        using p y(2,3) old [of y] by (simp add: prefix_settled_def)
    qed
  qed
  have "?r \<notin> set (Clauses s) \<union> set (Learnt s)" using rR by (simp add: refs_def)
  moreover have "\<forall>r \<in> dom (Arena s). r < w" using fresh w(1) by (meson less_trans)
  ultimately have tab: "tables_ok u"
    using g(4) w by (auto simp: tables_ok_def u numVars_def)
  have q: "queued u" using g(5) by (simp add: queued_def same)
  have "formula u = {m \<in> formula s. clause_true m C}"
    using old by (auto simp: formula_def models_of_def R same cl2)
  moreover have "models_of (Arena u) (set (Clauses s)) (rootTrail s) = models_of (Arena s) (set (Clauses s)) (rootTrail s)"
    using old by (simp add: models_of_def refs_def)
  ultimately have me: "meaning F u" using g(6) F by (auto simp: meaning_def same)
  from wa dk lay tab q me g(7,8) show "stack_inv As F u"
    by (simp add: stack_inv_def stack_base_def assumed_def occupied_def same)
qed

text \<open>Asserting the first literal settles the clause.\<close>

lemma assert_learnt:
  assumes ok: "search_ok As F s" and u: "stack_inv As F u" and R: "refs u = insert r (refs s)" and C: "clits (Arena u) r = a # b # D"
    and old: "\<And>x. x \<in> refs s \<Longrightarrow> clits (Arena u) x = clits (Arena s) x" and rR: "r \<notin> refs s"
    and same: "Value u = Value s" "Trail u = Trail s" "TrailLim u = TrailLim s" "QueueHead u = QueueHead s"
    and n: "unat (var a) < numVars s" and z: "worth (Value s) a = 0" and f: "\<forall>L \<in> set (b # D). negl L \<in> set (Trail s)"
    and F: "F \<subseteq> {m. clause_true m (a # b # D)}"
  shows "search_ok As F (enqueue a r u)"
proof -
  let ?e = "enqueue a r u"
  note g = stack_invD [OF u]
  have pr: "propagation_ok s" using ok by (simp add: search_ok_def)
  note p = propagation_okD [OF pr]
  have nv: "numVars u = numVars s" "decisionLevel u = decisionLevel s" by (simp_all add: numVars_def decisionLevel_def same)
  have root: "\<forall>m \<in> F. lit_true m a" if z0: "decisionLevel u = 0"
  proof
    fix m assume m: "m \<in> F"
    have "rootTrail u = Trail s" using z0 by (simp add: rootTrail_def decisionLevel_def same)
    then have "lit_true m L" if "L \<in> set (Trail s)" for L using g(15) m that by (auto simp: formula_def models_of_def)
    then have "\<forall>L \<in> set (b # D). \<not> lit_true m L" using f by (metis lit_true_negl)
    then show "lit_true m a" using F m by (auto simp: clause_true_def)
  qed
  have rn: "r \<noteq> kNoClause" using g(13) R by auto
  have st: "stack_inv As F ?e"
    by (rule enqueue_stack [OF u]) (use n z nv same R C f rn root in auto)
  have a': "unat (var a) < length (Value s)" using n by (simp add: numVars_def)
  have proc: "processed ?e = processed s" using p(3) by (simp add: processed_def same)
  have up: "worth (assign a (Value s)) M = 1" if "worth (Value s) M = 1" for M
    using that z a' by (auto simp: worth_assign)
  have "settled (Arena ?e) (refs ?e) (Value ?e) (processed ?e) {}"
    unfolding settled_def proc
  proof (intro ballI allI impI)
    fix y k :: nat assume y: "y \<in> refs ?e" "k < 2" "negl (clits (Arena ?e) y ! k) \<in> processed s"
    show "\<exists>L \<in> set (clits (Arena ?e) y). worth (Value ?e) L = 1"
    proof (cases "y = r")
      case True
      then show ?thesis using C a' by (auto simp: same worth_assign)
    next
      case False
      then have "y \<in> refs s" using y(1) R by simp
      then obtain L where "L \<in> set (clits (Arena s) y)" "worth (Value s) L = 1"
        using p(6) y(2,3) old [of y] by (auto simp: settled_def)
      then show ?thesis using up old [OF \<open>y \<in> refs s\<close>] by (auto simp: same)
    qed
  qed
  then show ?thesis using st stack_invD(1) [OF st] by (simp add: search_ok_def propagation_ok_def)
qed

section \<open>Learning from a conflict\<close>

text \<open>What no step of a search changes.\<close>

definition question_frame :: "SatEngine \<Rightarrow> SatEngine \<Rightarrow> bool" where
  "question_frame s s' \<longleftrightarrow> Opts s' = Opts s \<and> ConflictBudgetAt s' = ConflictBudgetAt s \<and>
     PropagationBudgetAt s' = PropagationBudgetAt s \<and> WatchVisitBudgetAt s' = WatchVisitBudgetAt s \<and>
     Falsified s' = Falsified s \<and> numVars s' = numVars s \<and> Decidable s' = Decidable s \<and>
     FailedAssumptions s' = FailedAssumptions s"

lemma question_frame_refl [simp]: "question_frame s s"
  by (simp add: question_frame_def)

lemma question_frame_trans: "question_frame s t \<Longrightarrow> question_frame t u \<Longrightarrow> question_frame s u"
  by (simp add: question_frame_def)

lemma core_question: "core_frame s s' \<Longrightarrow> question_frame s s'"
  by (simp add: core_frame_def question_frame_def numVars_def)

lemma numVars_cancel [simp]: "numVars (cancelUntil d s) = numVars s"
  using cancelUntil_fields(6) [of d s] by (cases "d < decisionLevel s") (auto simp: cancelUntil_def)

lemma cancel_question: "question_frame s (cancelUntil d s)"
  by (simp add: question_frame_def)

lemma propagate_question:
  assumes "propagation_ok s" "propagate s = (c, s')"
  shows "question_frame s s'" "OutOfSpace s' = OutOfSpace s" "Conflicts (Stats s') = Conflicts (Stats s)"
proof -
  have "prop_frame s s'" "deep_frame s s'"
    using propagate_ok [OF assms] propagate_deep [OF assms] by (auto simp: deep_step_def)
  then show "question_frame s s'" "OutOfSpace s' = OutOfSpace s" "Conflicts (Stats s') = Conflicts (Stats s)"
    by (simp_all add: question_frame_def prop_frame_def deep_frame_def numVars_def)
qed

text \<open>The new clause, its place in the arena and the literal it asserts.\<close>

lemma store_learnt:
  fixes Span :: u32
  assumes ok: "search_ok As F s" and l2: "2 \<le> length Lits" and di: "distinct Lits"
    and n: "\<forall>L \<in> set Lits. unat (var L) < numVars s" and F: "F \<subseteq> {m. clause_true m Lits}"
    and z: "worth (Value s) (Lits ! 0) = 0" and f: "\<forall>L \<in> set (tl Lits). negl L \<in> set (Trail s)"
    and low: "\<forall>x \<in> set (TrailLim s). negl (Lits ! 1) \<notin> set (take x (Trail s))"
    and al: "allocClause Lits True s = (Ref, s1)" and Ref: "Ref \<noteq> kNoClause"
  defines "s2 \<equiv> attachClause Ref ((setClause Ref (setLevelSpan Span (getClause s1 Ref)) s1)\<lparr>Learnt := Learnt s1 @ [Ref]\<rparr>)"
  defines "s' \<equiv> enqueue (Lits ! 0) Ref (bumpClauseActivity Ref s2)"
  shows "search_ok As F s'" "Trail s' = Trail s @ [Lits ! 0]" "TrailLim s' = TrailLim s" "question_frame s s'"
    "OutOfSpace s' = OutOfSpace s" "Conflicts (Stats s') = Conflicts (Stats s)"
proof -
  obtain a b D where L: "Lits = a # b # D" using l2 by (cases Lits; cases "tl Lits") auto
  let ?r = "ArenaWords s" and ?w = "ArenaWords s + (kHeaderWords + length Lits)"
  let ?c = "setLevelSpan Span (initialize Lits True)"
  have w: "?w \<le> kMaxArenaWords" and R: "Ref = ?r" and s1: "s1 = s\<lparr>ArenaWords := ?w, Arena := (Arena s)(?r \<mapsto> initialize Lits True)\<rparr>"
    using al Ref by (auto simp: allocClause_def Let_def split: if_splits)
  have c: "CLits ?c = Lits" by (simp add: setLevelSpan_def initialize_def)
  have s2: "s2 = attachClause ?r (s\<lparr>ArenaWords := ?w, Arena := (Arena s)(?r \<mapsto> ?c), Learnt := Learnt s @ [?r]\<rparr>)"
    unfolding s2_def R by (simp add: s1 setClause_def getClause_def)
  have st: "stack_inv As F s" using ok by (simp add: search_ok_def)
  have w1: "?r < ?w" by (simp add: kHeaderWords_def)
  note at = attach_learnt [OF st c L di n F _ _ w1 w, folded s2]
  have u: "stack_inv As F s2" and Rf: "refs s2 = insert ?r (refs s)" and C: "clits (Arena s2) ?r = Lits"
    and old: "\<And>x. x \<in> refs s \<Longrightarrow> clits (Arena s2) x = clits (Arena s) x" and rR: "?r \<notin> refs s"
    using at z low by (simp_all add: L)
  have same2: "Value s2 = Value s" "Trail s2 = Trail s" "TrailLim s2 = TrailLim s" "QueueHead s2 = QueueHead s" "Seen s2 = Seen s"
    "OutOfSpace s2 = OutOfSpace s" "Stats s2 = Stats s"
    by (simp_all add: s2 attachClause_def pushWatch_def Let_def)
  have q2: "question_frame s s2" by (simp add: s2 attachClause_def pushWatch_def Let_def question_frame_def numVars_def)
  have sub: "refs s2 \<subseteq> dom (Arena s2)" using stack_invD(10) [OF u] by (auto simp: arena_ok_def)
  have "set (Learnt s2) \<subseteq> refs s2" by (simp add: refs_def)
  then have dom: "?r \<in> dom (Arena s2)" "set (Learnt s2) \<subseteq> dom (Arena s2)" using sub Rf by auto
  note bu = bumpClauseActivity_frame [OF dom]
  note d = core_frame_derived [OF bu(1)]
  let ?v = "bumpClauseActivity ?r s2"
  have u': "stack_inv As F ?v"
    by (rule stack_frame [OF bu(1) _ u]) (use stack_invD(4) [OF u] in \<open>simp add: bu(2) tables_ok_def\<close>)
  have v: "Value ?v = Value s" "Trail ?v = Trail s" "TrailLim ?v = TrailLim s" "QueueHead ?v = QueueHead s"
    using bu(1) same2 by (simp_all add: core_frame_def)
  show "search_ok As F s'"
    unfolding s'_def R
    by (rule assert_learnt [OF ok u', of _ _ b D]) (use Rf C old rR v n z f F in \<open>simp_all add: d L\<close>)
  show "Trail s' = Trail s @ [Lits ! 0]" "TrailLim s' = TrailLim s" using v by (simp_all add: s'_def R)
  show "question_frame s s'"
    using question_frame_trans [OF q2 core_question [OF bu(1)]] by (simp add: s'_def R question_frame_def)
  show "OutOfSpace s' = OutOfSpace s" "Conflicts (Stats s') = Conflicts (Stats s)"
    using bu(1) same2 by (simp_all add: s'_def R core_frame_def)
qed

definition learned :: "SatLit list \<Rightarrow> assignment set \<Rightarrow> SatEngine \<Rightarrow> bool \<Rightarrow> SatEngine \<Rightarrow> bool" where
  "learned As F s Stored s' \<longleftrightarrow> search_ok As F s' \<and> question_frame s s' \<and> Conflicts (Stats s') = Conflicts (Stats s) \<and>
     (if Stored
      then opened s' \<and> OutOfSpace s' = OutOfSpace s \<and>
        (\<exists>Bt < decisionLevel s. \<exists>L. TrailLim s' = take Bt (TrailLim s) \<and> Trail s' = take (TrailLim s ! Bt) (Trail s) @ [L])
      else OutOfSpace s')"

lemma search_ok_cong:
  assumes "Arena s' = Arena s" "ArenaWords s' = ArenaWords s" "Clauses s' = Clauses s" "Learnt s' = Learnt s" "Watches s' = Watches s"
    "Value s' = Value s" "Level s' = Level s" "Reason s' = Reason s" "Phase s' = Phase s" "Decidable s' = Decidable s" "Seen s' = Seen s"
    "Activity s' = Activity s" "Order s' = Order s" "Trail s' = Trail s" "TrailLim s' = TrailLim s" "QueueHead s' = QueueHead s"
  shows "search_ok As F s' \<longleftrightarrow> search_ok As F s" "stack_inv As F s' \<longleftrightarrow> stack_inv As F s"
proof -
  have d: "refs s' = refs s" "numVars s' = numVars s" "processed s' = processed s" "decisionLevel s' = decisionLevel s" "rootTrail s' = rootTrail s"
    using assms by (simp_all add: refs_def numVars_def processed_def decisionLevel_def rootTrail_def)
  have "watched s' = watched s" unfolding watched_def base_ok_def d assms ..
  moreover have "propagation_ok s' = propagation_ok s" unfolding propagation_ok_def watched_def base_ok_def d assms ..
  moreover have "deep_ok s' = deep_ok s" unfolding deep_ok_def levels_ok_def reasons_ok_def d assms ..
  moreover have "layers s' = layers s" unfolding layers_def d assms ..
  moreover have "tables_ok s' = tables_ok s" unfolding tables_ok_def d assms ..
  moreover have "queued s' = queued s" unfolding queued_def d assms ..
  moreover have "meaning F s' = meaning F s" unfolding meaning_def formula_def d assms ..
  moreover have "assumed As s' = assumed As s" unfolding assumed_def d assms ..
  moreover have "occupied As s' = occupied As s" unfolding occupied_def d assms ..
  ultimately show "search_ok As F s' \<longleftrightarrow> search_ok As F s" "stack_inv As F s' \<longleftrightarrow> stack_inv As F s"
    by (simp_all add: search_ok_def stack_inv_def stack_base_def)
qed

lemma opened_back:
  assumes "levels_ok s" "Bt < decisionLevel s" "TrailLim s' = take Bt (TrailLim s)" "Trail s' = take (TrailLim s ! Bt) (Trail s) @ [L]"
  shows "opened s'"
proof -
  have so: "sorted (TrailLim s)" and dl: "Bt < length (TrailLim s)" using assms(1,2) by (simp_all add: levels_ok_def decisionLevel_def)
  have "TrailLim s ! Bt \<le> length (Trail s)" using assms(1) dl by (simp add: levels_ok_def)
  with sorted_split(1) [OF so dl] show ?thesis by (auto simp: opened_def assms(3,4) less_Suc_eq_le)
qed

lemma learnFrom_ok:
  assumes st: "stack_inv As F s" and fc: "false_clause s c" and dl: "0 < decisionLevel s" and l: "learnFrom c s = (b, s')"
  shows "learned As F s b s'"
proof -
  note g = stack_invD [OF st]
  obtain Lits Bt Span s1 where an: "analyze c s = (Lits, Bt, Span, s1)" by (metis prod_cases4)
  have base: "analysis_base s" using g(2,9,10) dl by (simp add: analysis_base_def)
  have seen: "True \<notin> set (Seen s)" "length (Seen s) = numVars s" using g(4) by (simp_all add: tables_ok_def)
  note ao = analyze_ok [OF base seen fc conflict_top [OF st fc dl] an]
  note d1 = core_frame_derived [OF ao(1)]
  have st1: "stack_inv As F s1" by (rule stack_frame [OF ao(1,2) st])
  have as1: "asserting s1 Lits Bt" using ao(3) unfolding asserting_def d1 .
  have bt: "Bt < decisionLevel s1" using as1 by (simp add: asserting_def)
  let ?t = "cancelUntil Bt s1"
  have t: "search_ok As F ?t" by (rule cancelUntil_stack [OF st1 bt])
  note ac = asserting_cancel [OF st1 as1] and f = cancelUntil_fields [OF bt]
  have F: "F \<subseteq> {m. clause_true m Lits}" using ao(4) g(15) by simp
  have q: "question_frame s ?t" by (rule question_frame_trans [OF core_question [OF ao(1)] cancel_question])
  have k: "OutOfSpace ?t = OutOfSpace s" "Conflicts (Stats ?t) = Conflicts (Stats s)" using ao(1) by (simp_all add: core_frame_def)
  have bk: "TrailLim ?t = take Bt (TrailLim s)" "Trail ?t = take (TrailLim s ! Bt) (Trail s)" "Bt < decisionLevel s"
    using f bt d1 by simp_all
  have step: "learnFrom c s = (if length Lits = 1 then (True, enqueue (Lits ! 0) kNoClause ?t)
      else case allocClause Lits True ?t of (Ref, s) \<Rightarrow>
        if Ref = kNoClause then (False, s\<lparr>OutOfSpace := True\<rparr>)
        else
          let s = enqueue (Lits ! 0) Ref (bumpClauseActivity Ref (attachClause Ref
              ((setClause Ref (setLevelSpan Span (getClause s Ref)) s)\<lparr>Learnt := Learnt s @ [Ref]\<rparr>)))
          in (True, s\<lparr>Stats := (Stats s)\<lparr>LearnedClauses := LearnedClauses (Stats s) + 1\<rparr>\<rparr>))"
    unfolding learnFrom_def an by (cases "allocClause Lits True ?t") (simp add: Let_def setClause_def)
  show ?thesis
  proof (cases "length Lits = 1")
    case True
    then have r: "b" "s' = enqueue (Lits ! 0) kNoClause ?t" using l step by simp_all
    have one: "Lits = [Lits ! 0]" using True by (cases Lits) auto
    have "Bt = 0" using as1 True by (simp add: asserting_def)
    then have z: "decisionLevel ?t = 0" using bk by (simp add: decisionLevel_def)
    have mem: "Lits ! 0 \<in> set Lits" by (subst one) simp
    then have n: "unat (var (Lits ! 0)) < numVars ?t" using ac(3) by (simp add: f)
    have "\<forall>m \<in> F. lit_true m (Lits ! 0)" using F one by (metis (no_types, lifting) clause_true_def list.set_intros(1) mem_Collect_eq set_ConsD set_empty2 empty_iff list.set(1) subsetD)
    then have "stack_inv As F s'"
      unfolding r(2) by (intro enqueue_stack) (use t n ac(1) z in \<open>auto simp: search_ok_def\<close>)
    moreover have "propagation_ok s'"
      unfolding r(2) by (rule enqueue_propagation_ok) (use t n ac(1) in \<open>simp_all add: search_ok_def litValue_worth\<close>)
    moreover have "question_frame s s'" using q by (simp add: r question_frame_def)
    moreover have tr: "TrailLim s' = take Bt (TrailLim s)" "Trail s' = take (TrailLim s ! Bt) (Trail s) @ [Lits ! 0]"
      by (simp_all add: r bk)
    ultimately show ?thesis
      using k r(1) bk(3) opened_back [OF g(11) bk(3) tr] by (auto simp: learned_def search_ok_def r(2))
  next
    case False
    have l2: "2 \<le> length Lits" using as1 False by (cases Lits; cases "tl Lits") (auto simp: asserting_def)
    obtain Ref s2 where al: "allocClause Lits True ?t = (Ref, s2)" by fastforce
    show ?thesis
    proof (cases "Ref = kNoClause")
      case True
      then have "b = False" "s' = s2\<lparr>OutOfSpace := True\<rparr>" using l step False al by simp_all
      moreover have "s2 = ?t"
        using al True stack_invD(4) [of As F ?t] t
        by (auto simp: allocClause_def Let_def tables_ok_def search_ok_def kMaxArenaWords_def kNoClause_def kHeaderWords_def split: if_splits)
      ultimately show ?thesis
        using t q k(2) search_ok_cong(1) [of "?t\<lparr>OutOfSpace := True\<rparr>" ?t] by (simp add: learned_def question_frame_def numVars_def)
    next
      case ref: False
      define e where "e = enqueue (Lits ! 0) Ref (bumpClauseActivity Ref (attachClause Ref
              ((setClause Ref (setLevelSpan Span (getClause s2 Ref)) s2)\<lparr>Learnt := Learnt s2 @ [Ref]\<rparr>)))"
      have r: "b" "s' = e\<lparr>Stats := (Stats e)\<lparr>LearnedClauses := LearnedClauses (Stats e) + 1\<rparr>\<rparr>"
        using l step False al ref by (simp_all add: e_def Let_def)
      have di: "distinct Lits" using as1 by (simp add: asserting_def)
      have n: "\<forall>L \<in> set Lits. unat (var L) < numVars ?t" using ac(3) by simp
      note sl = store_learnt [OF t l2 di n F ac(1,2) ac(4) [OF l2] al ref, of Span, folded e_def]
      have tr: "TrailLim s' = take Bt (TrailLim s)" "Trail s' = take (TrailLim s ! Bt) (Trail s) @ [Lits ! 0]"
        by (simp_all add: r(2) sl bk)
      moreover have "question_frame s s'" using question_frame_trans [OF q sl(4)] by (simp add: r(2) question_frame_def numVars_def)
      ultimately show ?thesis
        using sl(1) search_ok_cong(1) [of s' e] sl(5,6) k r(1) bk(3) opened_back [OF g(11) bk(3) tr]
        by (auto simp: learned_def r(2))
    qed
  qed
qed

section \<open>Progress\<close>

text \<open>
  Every entry of the trail weighs more than everything that can follow it on higher levels, so a step
  that adds an entry to a lower level makes the trail heavier.
\<close>

definition weight :: "nat \<Rightarrow> nat \<Rightarrow> SatEngine \<Rightarrow> nat" where
  "weight N M s = (\<Sum>i < length (Trail s). (N + 1) ^ (M - levelAt (TrailLim s) i))"

lemma weight_bound: "length (Trail s) \<le> N \<Longrightarrow> weight N M s \<le> N * (N + 1) ^ M"
proof -
  assume l: "length (Trail s) \<le> N"
  have "weight N M s \<le> (\<Sum>i < length (Trail s). (N + 1) ^ M)"
    unfolding weight_def by (intro sum_mono power_increasing) simp_all
  also have "\<dots> \<le> N * (N + 1) ^ M" using l by simp
  finally show ?thesis .
qed

lemma sum_lessThan_split: "(b :: nat) \<le> n \<Longrightarrow> (\<Sum>i < n. f i) = (\<Sum>i < b. f i) + (\<Sum>i \<in> {b ..< n}. (f i :: nat))"
  using sum.atLeastLessThan_concat [of 0 b n f] by (simp add: lessThan_atLeast0)

lemma weight_extend:
  assumes "Trail s' = Trail s @ T" "\<And>i. i < length (Trail s) \<Longrightarrow> levelAt (TrailLim s') i = levelAt (TrailLim s) i"
  shows "weight N M s + length T \<le> weight N M s'"
proof -
  let ?f = "\<lambda>i. (N + 1) ^ (M - levelAt (TrailLim s') i)"
  have "weight N M s' = (\<Sum>i < length (Trail s). ?f i) + (\<Sum>i \<in> {length (Trail s) ..< length (Trail s) + length T}. ?f i)"
    using sum_lessThan_split [of "length (Trail s)" "length (Trail s')" ?f] by (simp add: weight_def assms(1))
  moreover have "(\<Sum>i < length (Trail s). ?f i) = weight N M s" unfolding weight_def by (rule sum.cong) (simp_all add: assms(2))
  moreover have "(\<Sum>i \<in> {length (Trail s) ..< length (Trail s) + length T}. 1) \<le> (\<Sum>i \<in> {length (Trail s) ..< length (Trail s) + length T}. ?f i)"
    by (rule sum_mono) simp
  ultimately show ?thesis by simp
qed

lemma weight_learned:
  assumes lv: "levels_ok s" and n: "length (Trail s) \<le> N" and m: "decisionLevel s \<le> M" and bt: "Bt < decisionLevel s"
    and t: "TrailLim s' = take Bt (TrailLim s)" "Trail s' = take (TrailLim s ! Bt) (Trail s) @ [L]"
  shows "weight N M s < weight N M s'"
proof -
  let ?b = "TrailLim s ! Bt" and ?f = "\<lambda>i. (N + 1) ^ (M - levelAt (TrailLim s) i)"
  have so: "sorted (TrailLim s)" and dl: "Bt < length (TrailLim s)" using lv bt by (simp_all add: levels_ok_def decisionLevel_def)
  have b: "?b \<le> length (Trail s)" using lv dl by (simp add: levels_ok_def)
  have hi: "Suc Bt \<le> levelAt (TrailLim s) i" if "?b \<le> i" for i
    using levelAt_before [OF so dl, of i] that by (meson leD not_less_eq_eq)
  have "weight N M s = (\<Sum>i < ?b. ?f i) + (\<Sum>i \<in> {?b ..< length (Trail s)}. ?f i)"
    unfolding weight_def by (rule sum_lessThan_split [OF b])
  also have "(\<Sum>i \<in> {?b ..< length (Trail s)}. ?f i) \<le> (\<Sum>i \<in> {?b ..< length (Trail s)}. (N + 1) ^ (M - Suc Bt))"
    by (intro sum_mono power_increasing diff_le_mono2) (use hi in auto)
  also have "\<dots> \<le> N * (N + 1) ^ (M - Suc Bt)" using n by simp
  also have "\<dots> < (N + 1) * (N + 1) ^ (M - Suc Bt)" by simp
  also have "\<dots> = (N + 1) ^ (M - Bt)" using bt m by (metis Suc_diff_Suc less_le_trans power_Suc)
  finally have lt: "weight N M s < (\<Sum>i < ?b. ?f i) + (N + 1) ^ (M - Bt)" by simp
  have top: "levelAt (TrailLim s') ?b = Bt"
    using sorted_split(1) [OF so dl] dl by (simp add: t levelAt_top)
  have "length (Trail s') = Suc ?b" using b by (simp add: t)
  then have "weight N M s' = (\<Sum>i < ?b. (N + 1) ^ (M - levelAt (TrailLim s') i)) + (N + 1) ^ (M - Bt)"
    by (simp add: weight_def top)
  also have "(\<Sum>i < ?b. (N + 1) ^ (M - levelAt (TrailLim s') i)) = (\<Sum>i < ?b. ?f i)"
    by (rule sum.cong) (simp_all add: t levelAt_take [OF so dl])
  finally show ?thesis using lt by simp
qed

text \<open>There are never more levels than variables and assumptions together.\<close>

lemma level_count:
  assumes st: "stack_inv As F s"
  shows "decisionLevel s \<le> numVars s + length As" "length (Trail s) \<le> numVars s"
proof -
  note g = stack_invD [OF st]
  show l: "length (Trail s) \<le> numVars s" using trail_ok_length [OF g(9)] by (simp add: numVars_def)
  have "Suc ` {length As ..< decisionLevel s} \<subseteq> levelAt (TrailLim s) ` {..< length (Trail s)}"
  proof
    fix x assume "x \<in> Suc ` {length As ..< decisionLevel s}"
    then obtain d where "x = Suc d" "length As \<le> d" "d < decisionLevel s" by (auto elim!: imageE simp del: image_Suc_atLeastLessThan)
    then show "x \<in> levelAt (TrailLim s) ` {..< length (Trail s)}" using g(8) unfolding occupied_def by (metis imageI lessThan_iff)
  qed
  then have "card (Suc ` {length As ..< decisionLevel s}) \<le> card (levelAt (TrailLim s) ` {..< length (Trail s)})"
    by (intro card_mono) simp_all
  also have "\<dots> \<le> length (Trail s)" using card_image_le [of "{..< length (Trail s)}" "levelAt (TrailLim s)"] by simp
  finally show "decisionLevel s \<le> numVars s + length As" using l by (simp add: card_image)
qed

end
