(* ===== verification/Sat_Reduce.thy ===== *)
theory Sat_Reduce
  imports Sat_Store
begin

text \<open>
  Forgetting learned clauses keeps the invariant and the meaning of the formula.
\<close>

section \<open>Reducing the database\<close>

lemma insertBy_mset [simp]: "mset (insertBy lt x xs) = add_mset x (mset xs)"
  by (induction xs) auto

lemma stableSort_mset [simp]: "mset (stableSort lt xs) = mset xs"
  by (induction xs) (simp_all add: stableSort_def)

lemma stableSort_set [simp]: "set (stableSort lt xs) = set xs"
  by (rule mset_eq_setD) simp

lemma stableSort_distinct [simp]: "distinct (stableSort lt xs) = distinct xs"
  by (rule mset_eq_imp_distinct_iff) simp

lemma removeWatch_set:
  assumes "distinct (map WClause Ws)"
  shows "set (removeWatch r Ws) = {W \<in> set Ws. WClause W \<noteq> r}" "distinct (map WClause (removeWatch r Ws))"
proof -
  have m: "mset (removeWatch r Ws) = (case List.find (\<lambda>W. WClause W = r) Ws of None \<Rightarrow> mset Ws | Some W \<Rightarrow> mset Ws - {#W#})"
    unfolding removeWatch_def by (rule removeWatch_at_mset [of _ "[]"]) simp_all
  have d: "distinct Ws" using assms by (simp add: distinct_map)
  have "set (removeWatch r Ws) = {W \<in> set Ws. WClause W \<noteq> r} \<and> distinct (map WClause (removeWatch r Ws))"
  proof (cases "List.find (\<lambda>W. WClause W = r) Ws")
    case None
    then have e: "mset (removeWatch r Ws) = mset Ws" using m by simp
    have "set (removeWatch r Ws) = set Ws" by (rule mset_eq_setD [OF e])
    moreover have "distinct (map WClause (removeWatch r Ws))"
      using assms mset_eq_imp_distinct_iff [of "map WClause (removeWatch r Ws)" "map WClause Ws"] e by simp
    ultimately show ?thesis using None by (auto simp: find_None_iff)
  next
    case (Some W)
    then have W: "W \<in> set Ws" "WClause W = r" by (auto simp: find_Some_iff)
    have e: "mset (removeWatch r Ws) = mset (remove1 W Ws)" using m Some by simp
    have "set (removeWatch r Ws) = set Ws - {W}" using mset_eq_setD [OF e] d by simp
    also have "\<dots> = {W \<in> set Ws. WClause W \<noteq> r}" using W assms by (auto simp: distinct_map inj_on_def)
    finally have s: "set (removeWatch r Ws) = {W \<in> set Ws. WClause W \<noteq> r}" .
    have "distinct (removeWatch r Ws)" using mset_eq_imp_distinct_iff [OF e] d by simp
    moreover have "inj_on WClause (set (removeWatch r Ws))" using assms s by (auto simp: distinct_map inj_on_def)
    ultimately show ?thesis using s by (simp add: distinct_map)
  qed
  then show "set (removeWatch r Ws) = {W \<in> set Ws. WClause W \<noteq> r}" "distinct (map WClause (removeWatch r Ws))" by blast+
qed

lemma watch_ok_detach:
  assumes w: "watch_ok A R n ws" and c: "clits A r ! 0 = a" "clits A r ! 1 = b"
    and n: "unat (var a) < n" "unat (var b) < n" and ab: "a \<noteq> b" and r: "r \<in> R"
  defines "ws1 \<equiv> ws[unat (index (negl a)) := removeWatch r (wl ws (negl a))]"
  defines "ws2 \<equiv> ws1[unat (index (negl b)) := removeWatch r (wl ws1 (negl b))]"
  shows "watch_ok A (R - {r}) n ws2"
proof -
  have len: "length ws = 2 * n" by (rule watch_ok_length [OF w])
  have new: "wl ws2 Q = (if Q = negl b then removeWatch r (wl ws (negl b))
      else if Q = negl a then removeWatch r (wl ws (negl a)) else wl ws Q)" for Q
    using len n ab by (simp add: ws1_def ws2_def wl_update [where n = n])
  have di: "distinct (map WClause (wl ws Q))" if "unat (var Q) < n" for Q by (rule watch_ok_distinct [OF w that])
  have st: "set (wl ws2 Q) = {W \<in> set (wl ws Q). WClause W \<noteq> r}" if Q: "unat (var Q) < n" for Q
  proof (cases "Q = negl a \<or> Q = negl b")
    case True
    then show ?thesis using removeWatch_set(1) [OF di [OF Q]] by (auto simp: new)
  next
    case False
    have "WClause W \<noteq> r" if "W \<in> set (wl ws Q)" for W
      using watch_okD(2) [OF w Q that] False c by (metis insert_iff negl_negl singletonD)
    then show ?thesis using False by (auto simp: new)
  qed
  show ?thesis
  proof (rule watch_okI)
    show "length ws2 = 2 * n" using len by (simp add: ws1_def ws2_def)
  next
    fix Q assume Q: "unat (var Q) < n"
    show "distinct (map WClause (wl ws2 Q))" using di [OF Q] removeWatch_set(2) [OF di [OF Q]] by (auto simp: new)
  next
    fix Q W assume Q: "unat (var Q) < n" and W: "W \<in> set (wl ws2 Q)"
    then have "W \<in> set (wl ws Q)" "WClause W \<noteq> r" using st [OF Q] by auto
    with watch_okD [OF w Q] show "WClause W \<in> R - {r} \<and> negl Q \<in> {clits A (WClause W) ! 0, clits A (WClause W) ! 1} \<and>
        Blocker W \<in> set (clits A (WClause W))" by blast
  next
    fix x k assume x: "x \<in> R - {r}" and k: "k < (2::nat)"
    have "x \<in> WClause ` set (wl ws (negl (clits A x ! k)))" using watch_ok_covers [OF w _ k] x by simp
    then obtain W where W: "W \<in> set (wl ws (negl (clits A x ! k)))" "WClause W = x" by auto
    have "W \<in> set (wl ws2 (negl (clits A x ! k)))"
    proof (cases "negl (clits A x ! k) = negl a \<or> negl (clits A x ! k) = negl b")
      case True
      then have "unat (var (negl (clits A x ! k))) < n" using n by auto
      then show ?thesis using st W x by auto
    next
      case False
      then show ?thesis using W by (simp add: new)
    qed
    with W(2) show "x \<in> WClause ` set (wl ws2 (negl (clits A x ! k)))" by blast
  qed
qed

text \<open>The state while clauses are being dropped: only the arena's marks and the watch lists change.\<close>

definition reducing :: "ClauseRef set \<Rightarrow> SatEngine \<Rightarrow> SatEngine \<Rightarrow> bool" where
  "reducing R s t \<longleftrightarrow>
     (\<exists>A ws x st. t = s\<lparr>Arena := A, Watches := ws, WastedWords := x, Stats := st\<rparr> \<and>
        clits A = clits (Arena s) \<and> dom A = dom (Arena s) \<and> watch_ok A R (numVars s) ws \<and> Conflicts st = Conflicts (Stats s))"

lemma watch_ok_clits: "clits A' = clits A \<Longrightarrow> watch_ok A' R n ws = watch_ok A R n ws"
  by (simp add: watch_ok_def)

lemma markDeleted_clits: "clits (A(r \<mapsto> markDeleted (the (A r)))) = clits A"
  by (auto simp: clits_def markDeleted_def)

lemma discardClause_ok:
  assumes red: "reducing R s t" and r: "r \<in> R" and ar: "arena_ok (Arena s) (refs s) (numVars s)" and sub: "R \<subseteq> refs s"
  shows "reducing (R - {r}) s (discardClause r t)"
proof -
  obtain A ws x st where t: "t = s\<lparr>Arena := A, Watches := ws, WastedWords := x, Stats := st\<rparr>"
    and c: "clits A = clits (Arena s)" "dom A = dom (Arena s)" and w: "watch_ok A R (numVars s) ws" and cf: "Conflicts st = Conflicts (Stats s)"
    using red by (auto simp: reducing_def)
  have f: "2 \<le> length (clits A r)" "distinct (clits A r)" "\<forall>L \<in> set (clits A r). unat (var L) < numVars s" "r \<in> dom A"
    using ar r sub c by (auto simp: arena_ok_def)
  let ?a = "clits A r ! 0" and ?b = "clits A r ! 1"
  have ab: "?a \<noteq> ?b" using f(1,2) by (cases "clits A r"; cases "tl (clits A r)") auto
  have n: "unat (var ?a) < numVars s" "unat (var ?b) < numVars s" using f(1,3) by (cases "clits A r"; cases "tl (clits A r)"; simp)+
  note wd = watch_ok_detach [OF w refl refl n ab r]
  let ?ws1 = "ws[unat (index (negl ?a)) := removeWatch r (wl ws (negl ?a))]"
  let ?ws2 = "?ws1[unat (index (negl ?b)) := removeWatch r (wl ?ws1 (negl ?b))]"
  let ?A = "A(r \<mapsto> markDeleted (the (A r)))"
  have e: "discardClause r t = s\<lparr>Arena := ?A, Watches := ?ws2, WastedWords := x + clauseWords (the (A r)),
      Stats := st\<lparr>DeletedClauses := DeletedClauses st + 1\<rparr>\<rparr>"
    unfolding discardClause_def detachClause_def dropWatch_def setClause_def getClause_def Let_def t lit_def
    by (simp add: wl_def clits_def)
  have "watch_ok ?A (R - {r}) (numVars s) ?ws2" using wd by (simp only: watch_ok_clits [OF markDeleted_clits])
  moreover have "dom ?A = dom (Arena s)" using f(4) c(2) by auto
  moreover have "clits ?A = clits (Arena s)" using markDeleted_clits c(1) by simp
  moreover have "Conflicts (st\<lparr>DeletedClauses := DeletedClauses st + 1\<rparr>) = Conflicts (Stats s)" using cf by simp
  ultimately show ?thesis unfolding reducing_def e by blast
qed

lemma isLocked_reason:
  assumes red: "reducing R s t" and t: "trail_ok (Value s) (Trail s)" and re: "reasons_ok s"
    and i: "i < length (Trail s)" "Reason s ! unat (var (Trail s ! i)) = r" "r \<noteq> kNoClause"
  shows "isLocked r t"
proof -
  obtain A where A: "Arena t = A" "clits A = clits (Arena s)" and v: "Value t = Value s" "Reason t = Reason s"
    using red by (auto simp: reducing_def)
  have "lit (getClause t r) 0 = Trail s ! i"
    using reasonD(2) [OF re i(1)] i(2,3) A by (metis clits_def getClause_def lit_def)
  moreover have "litValue t (Trail s ! i) = 1" using t i(1) v by (simp add: litValue_worth trail_ok_def)
  ultimately show ?thesis using i(2) v by (simp add: isLocked_def)
qed

lemma reduceLoop_ok:
  assumes "reduceLoop I Half Kept Refs t = (Kept', t')" "reducing (R \<union> set Kept \<union> set Refs) s t" "distinct (Kept @ Refs)"
    "R \<inter> (set Kept \<union> set Refs) = {}" "R \<union> set Kept \<union> set Refs \<subseteq> refs s"
    "arena_ok (Arena s) (refs s) (numVars s)" "trail_ok (Value s) (Trail s)" "reasons_ok s" "kNoClause \<notin> refs s"
    "\<forall>i < length (Trail s). Reason s ! unat (var (Trail s ! i)) = kNoClause \<or>
       Reason s ! unat (var (Trail s ! i)) \<in> R \<union> set Kept \<union> set Refs"
  shows "reducing (R \<union> set Kept') s t' \<and> distinct Kept' \<and> set Kept' \<subseteq> set Kept \<union> set Refs \<and>
    (\<forall>i < length (Trail s). Reason s ! unat (var (Trail s ! i)) = kNoClause \<or> Reason s ! unat (var (Trail s ! i)) \<in> R \<union> set Kept')"
  using assms
proof (induction Refs arbitrary: I Kept t)
  case (Cons r Refs)
  show ?case
  proof (cases "I < Half \<and> clauseSize (getClause t r) > 2 \<and> CSpan (getClause t r) > 2 \<and> \<not> isLocked r t")
    case False
    then have rec: "reduceLoop (Suc I) Half (Kept @ [r]) Refs t = (Kept', t')" using Cons.prems(1) by (auto simp: Let_def)
    have e: "R \<union> set (Kept @ [r]) \<union> set Refs = R \<union> set Kept \<union> set (r # Refs)" by auto
    have "reducing (R \<union> set Kept') s t' \<and> distinct Kept' \<and> set Kept' \<subseteq> set (Kept @ [r]) \<union> set Refs \<and>
      (\<forall>i < length (Trail s). Reason s ! unat (var (Trail s ! i)) = kNoClause \<or> Reason s ! unat (var (Trail s ! i)) \<in> R \<union> set Kept')"
      by (rule Cons.IH [OF rec]) (use Cons.prems(2-10) in \<open>simp_all only: e, auto\<close>)
    then show ?thesis by auto
  next
    case True
    then have rec: "reduceLoop (Suc I) Half Kept Refs (discardClause r t) = (Kept', t')" using Cons.prems(1) by (simp add: Let_def)
    have e: "R \<union> set Kept \<union> set (r # Refs) - {r} = R \<union> set Kept \<union> set Refs" using Cons.prems(3,4) by auto
    have red: "reducing (R \<union> set Kept \<union> set Refs) s (discardClause r t)"
      using discardClause_ok [OF Cons.prems(2) _ Cons.prems(6,5), of r] by (simp only: e) simp
    have rn: "r \<noteq> kNoClause" using Cons.prems(5,9) by auto
    have "Reason s ! unat (var (Trail s ! i)) \<noteq> r" if "i < length (Trail s)" for i
      using isLocked_reason [OF Cons.prems(2,7,8) that _ rn] True by blast
    then have re: "\<forall>i < length (Trail s). Reason s ! unat (var (Trail s ! i)) = kNoClause \<or>
       Reason s ! unat (var (Trail s ! i)) \<in> R \<union> set Kept \<union> set Refs" using Cons.prems(10) by auto
    have "reducing (R \<union> set Kept') s t' \<and> distinct Kept' \<and> set Kept' \<subseteq> set Kept \<union> set Refs \<and>
      (\<forall>i < length (Trail s). Reason s ! unat (var (Trail s ! i)) = kNoClause \<or> Reason s ! unat (var (Trail s ! i)) \<in> R \<union> set Kept')"
      by (rule Cons.IH [OF rec red _ _ _ Cons.prems(6-9) re]) (use Cons.prems(3-5) in auto)
    then show ?thesis by auto
  qed
qed simp

text \<open>What the reduction leaves: the same assignment, and a formula that means the same.\<close>

definition reduced :: "SatEngine \<Rightarrow> SatEngine \<Rightarrow> bool" where
  "reduced s s' \<longleftrightarrow> Trail s' = Trail s \<and> TrailLim s' = TrailLim s \<and> QueueHead s' = QueueHead s \<and> Value s' = Value s \<and>
     OutOfSpace s' = OutOfSpace s \<and> Conflicts (Stats s') = Conflicts (Stats s) \<and> Clauses s' = Clauses s \<and> question_frame s s'"

lemma reduce_stack:
  assumes ok: "search_ok As F s" and red: "reducing R s t" and R: "R = set (Clauses s) \<union> set Kept" "set Kept \<subseteq> set (Learnt s)" "distinct Kept"
    and re: "\<forall>i < length (Trail s). Reason s ! unat (var (Trail s ! i)) = kNoClause \<or> Reason s ! unat (var (Trail s ! i)) \<in> R"
  shows "search_ok As F (t\<lparr>Learnt := Kept\<rparr>)" "reduced s (t\<lparr>Learnt := Kept\<rparr>)"
proof -
  let ?t = "t\<lparr>Learnt := Kept\<rparr>"
  obtain A ws x st where t: "t = s\<lparr>Arena := A, Watches := ws, WastedWords := x, Stats := st\<rparr>"
    and c: "clits A = clits (Arena s)" "dom A = dom (Arena s)" and w: "watch_ok A R (numVars s) ws" and cf: "Conflicts st = Conflicts (Stats s)"
    using red by (auto simp: reducing_def)
  have st: "stack_inv As F s" and pr: "propagation_ok s" using ok by (simp_all add: search_ok_def)
  note g = stack_invD [OF st]
  have sub: "R \<subseteq> refs s" using R by (auto simp: refs_def)
  have rf: "refs ?t = R" by (simp add: refs_def t R)
  have same: "numVars ?t = numVars s" "Value ?t = Value s" "Trail ?t = Trail s" "TrailLim ?t = TrailLim s" "QueueHead ?t = QueueHead s"
    "Level ?t = Level s" "Reason ?t = Reason s" "Order ?t = Order s" "decisionLevel ?t = decisionLevel s" "rootTrail ?t = rootTrail s"
    "Clauses ?t = Clauses s" "Decidable ?t = Decidable s" "Arena ?t = A" "Watches ?t = ws" "processed ?t = processed s"
    by (simp_all add: t numVars_def decisionLevel_def rootTrail_def processed_def)
  have ar: "arena_ok A R (numVars s)" using g(10) sub unfolding arena_ok_def c by blast
  have wa: "watched ?t" using g(1,13) sub w ar by (auto simp: watched_def base_ok_def same rf)
  have "levels_ok ?t" using g(11) by (simp add: levels_ok_def same)
  moreover have "reasons_ok ?t"
    using g(12) re unfolding reasons_ok_def Let_def same rf c by (metis (no_types, lifting))
  ultimately have dk: "deep_ok ?t" by (simp add: deep_ok_def)
  have lay: "layers ?t" using g(3) sub unfolding layers_def prefix_settled_def same rf c by blast
  have tab: "tables_ok ?t" using g(4) R(2,3) c(2) by (auto simp: tables_ok_def t numVars_def)
  have q: "queued ?t" using g(5) by (simp add: queued_def same)
  have "models_of A (set (Clauses s)) (rootTrail s) = F" using g(6) by (simp add: meaning_def models_of_def c)
  moreover have "F \<subseteq> models_of A R (rootTrail s)" using g(15) sub by (auto simp: formula_def models_of_def c)
  moreover have "models_of A R (rootTrail s) \<subseteq> models_of A (set (Clauses s)) (rootTrail s)" using R(1) by (auto simp: models_of_def)
  ultimately have me: "meaning F ?t" by (simp add: meaning_def formula_def same rf)
  have "settled A R (Value s) (processed s) {}"
    using propagation_okD(6) [OF pr] sub unfolding settled_def c by blast
  with wa have "propagation_ok ?t" by (simp add: propagation_ok_def same rf)
  with wa dk lay tab q me g(7,8) show "search_ok As F ?t"
    by (simp add: search_ok_def stack_inv_def stack_base_def assumed_def occupied_def same)
  show "reduced s ?t" using cf by (simp add: reduced_def t question_frame_def numVars_def)
qed

lemma reduceDatabase_ok:
  assumes ok: "search_ok As F s"
  shows "search_ok As F (reduceDatabase s)" "reduced s (reduceDatabase s)"
proof -
  have st: "stack_inv As F s" using ok by (simp add: search_ok_def)
  note g = stack_invD [OF st]
  let ?L = "stableSort (worseClause s) (Learnt s)" and ?R = "set (Clauses s)"
  obtain Kept t where l: "reduceLoop 0 (length ?L div 2) [] ?L s = (Kept, t)" by fastforce
  have e: "reduceDatabase s = t\<lparr>Learnt := Kept\<rparr>" using l by (simp add: reduceDatabase_def)
  have d: "distinct (Clauses s @ Learnt s)" using g(4) by (simp add: tables_ok_def)
  have R: "?R \<union> set [] \<union> set ?L = refs s" by (simp add: refs_def)
  have red: "reducing (?R \<union> set [] \<union> set ?L) s s"
    unfolding R reducing_def using g(14)
    by (intro exI [of _ "Arena s"] exI [of _ "Watches s"] exI [of _ "WastedWords s"] exI [of _ "Stats s"]) simp
  have re: "\<forall>i < length (Trail s). Reason s ! unat (var (Trail s ! i)) = kNoClause \<or>
       Reason s ! unat (var (Trail s ! i)) \<in> ?R \<union> set [] \<union> set ?L"
    unfolding R using reasonD(1) [OF g(12)] by blast
  have "reducing (?R \<union> set Kept) s t \<and> distinct Kept \<and> set Kept \<subseteq> set [] \<union> set ?L \<and>
    (\<forall>i < length (Trail s). Reason s ! unat (var (Trail s ! i)) = kNoClause \<or> Reason s ! unat (var (Trail s ! i)) \<in> ?R \<union> set Kept)"
    by (rule reduceLoop_ok [OF l red _ _ _ g(10,9,12,13) re]) (use d in \<open>auto simp: refs_def\<close>)
  then have k: "reducing (?R \<union> set Kept) s t" "distinct Kept" "set Kept \<subseteq> set (Learnt s)"
    "\<forall>i < length (Trail s). Reason s ! unat (var (Trail s ! i)) = kNoClause \<or> Reason s ! unat (var (Trail s ! i)) \<in> ?R \<union> set Kept"
    by simp_all
  show "search_ok As F (reduceDatabase s)" "reduced s (reduceDatabase s)"
    unfolding e by (rule reduce_stack [OF ok k(1) refl k(3,2,4)])+
qed

lemma reduceIfFull_ok:
  assumes ok: "search_ok As F s"
  shows "search_ok As F (reduceIfFull s)" "reduced s (reduceIfFull s)"
  using ok reduceDatabase_ok [OF ok] by (simp_all add: reduceIfFull_def reduced_def)

end
