(* ===== verification/Sat_Choice.thy ===== *)
theory Sat_Choice
  imports Sat_Reduce
begin

text \<open>
  What comes next in a round without a conflict: the next assumption, a choice from the queue, or the
  set of assumptions behind one that failed.
\<close>

section \<open>Taking the assumptions\<close>

text \<open>An assumption that already holds gets a level of its own, with nothing on it.\<close>

lemma skip_stack:
  assumes ok: "search_ok As F s" and q: "QueueHead s = length (Trail s)" and l: "decisionLevel s < length As"
    and v: "As ! decisionLevel s \<in> set (Trail s)"
  shows "search_ok As F (newDecisionLevel s)"
proof -
  let ?s = "newDecisionLevel s"
  have st: "stack_base F s" and pr: "propagation_ok s" and a: "assumed As s" and oc: "occupied As s"
    using ok by (simp_all add: search_ok_def stack_inv_def)
  note b = newDecisionLevel_base [OF st pr q]
  have old: "levelAt (TrailLim ?s) i = levelAt (TrailLim s) i" if "i < length (Trail s)" for i by (rule levelAt_new [OF that])
  have "assumed As ?s"
    unfolding assumed_def
  proof (intro conjI allI impI)
    fix i assume "i < length (Trail ?s)" "0 < levelAt (TrailLim ?s) i" "levelAt (TrailLim ?s) i \<le> length As"
      "Reason ?s ! unat (var (Trail ?s ! i)) = kNoClause"
    then show "Trail ?s ! i = As ! (levelAt (TrailLim ?s) i - 1)" using assumedD(1) [OF a, of i] old [of i] by simp
  next
    fix d assume d: "d < decisionLevel ?s" "d < length As"
    show "\<exists>i < length (Trail ?s). Trail ?s ! i = As ! d \<and> levelAt (TrailLim ?s) i \<le> Suc d"
    proof (cases "d < decisionLevel s")
      case True
      then obtain i where "i < length (Trail s)" "Trail s ! i = As ! d" "levelAt (TrailLim s) i \<le> Suc d"
        using assumedD(2) [OF a, of d] d by auto
      then show ?thesis using old [of i] by (intro exI [of _ i]) simp
    next
      case False
      with d have e: "d = decisionLevel s" by simp
      obtain i where i: "i < length (Trail s)" "Trail s ! i = As ! decisionLevel s" using v by (metis in_set_conv_nth)
      then show ?thesis using old [of i] levelAt_le [of "TrailLim s" i] by (intro exI [of _ i]) (simp add: e decisionLevel_def)
    qed
  qed
  moreover have "occupied As ?s"
    unfolding occupied_def
  proof (intro allI impI)
    fix d assume d: "d < decisionLevel ?s" "length As \<le> d"
    then obtain i where "i < length (Trail s)" "levelAt (TrailLim s) i = Suc d" using oc l unfolding occupied_def by force
    then show "\<exists>i < length (Trail ?s). levelAt (TrailLim ?s) i = Suc d" using old [of i] by (intro exI [of _ i]) simp
  qed
  ultimately show ?thesis using b by (simp add: search_ok_def stack_inv_def)
qed

definition assumptions_ok :: "SatLit list \<Rightarrow> SatEngine \<Rightarrow> bool" where
  "assumptions_ok As s \<longleftrightarrow> (\<forall>A \<in> set As. isValid A \<and> unat (var A) < numVars s)"

definition next_assumption :: "SatLit list \<Rightarrow> assignment set \<Rightarrow> SatEngine \<Rightarrow> (SatLit + SatLit) \<Rightarrow> SatEngine \<Rightarrow> bool" where
  "next_assumption As F s N s' \<longleftrightarrow> search_ok As F s' \<and> question_frame s s' \<and> Trail s' = Trail s \<and> QueueHead s' = length (Trail s') \<and>
     Value s' = Value s \<and> OutOfSpace s' = OutOfSpace s \<and> Stats s' = Stats s \<and>
     (\<forall>i < length (Trail s). levelAt (TrailLim s') i = levelAt (TrailLim s) i) \<and>
     (case N of
        Inl A \<Rightarrow> decisionLevel s' < length As \<and> A = As ! decisionLevel s' \<and> litValue s' A = - 1
      | Inr L \<Rightarrow> if decisionLevel s' < length As then L = As ! decisionLevel s' \<and> litValue s' L = 0 else L = noLit)"

lemma assumeNext_ok:
  assumes "assumeNext As s = (N, s')" "search_ok As F s" "QueueHead s = length (Trail s)" "assumptions_ok As s"
  shows "next_assumption As F s N s'"
  using assms
proof (induction As s arbitrary: N s' rule: assumeNext.induct)
  case (1 As s)
  show ?case
  proof (cases "decisionLevel s < length As")
    case False
    then have "N = Inr noLit" "s' = s" using "1.prems"(1) by (simp_all add: assumeNext.simps [of As s])
    with False "1.prems" show ?thesis by (simp add: next_assumption_def)
  next
    case l: True
    let ?A = "As ! decisionLevel s"
    have rng: "unat (var ?A) < length (Value s)" using "1.prems"(4) l by (simp add: assumptions_ok_def numVars_def)
    have t: "trail_ok (Value s) (Trail s)" using "1.prems"(2) by (auto simp: search_ok_def dest: stack_invD(9))
    show ?thesis
    proof (cases "litValue s ?A = 1")
      case True
      then have rec: "assumeNext As (newDecisionLevel s) = (N, s')" using "1.prems"(1) l by (simp add: assumeNext.simps [of As s])
      have "?A \<in> set (Trail s)" using trail_ok_worth_1 [OF t rng] True by (simp add: litValue_worth)
      from skip_stack [OF "1.prems"(2,3) l this] have "next_assumption As F (newDecisionLevel s) N s'"
        by (intro "1.IH" [OF l refl refl True rec]) (use "1.prems"(3,4) in \<open>simp_all add: assumptions_ok_def\<close>)
      moreover have "question_frame s (newDecisionLevel s)" by (simp add: question_frame_def newDecisionLevel_def numVars_def)
      moreover have "Stats (newDecisionLevel s) = Stats s" "OutOfSpace (newDecisionLevel s) = OutOfSpace s"
        by (simp_all add: newDecisionLevel_def)
      ultimately show ?thesis
        using levelAt_new [of _ s] question_frame_trans unfolding next_assumption_def by auto
    next
      case False
      have "litValue s ?A = - 1 \<or> litValue s ?A = 0" using trail_ok_range [OF t rng] False by (auto simp: litValue_worth)
      then have "s' = s \<and> (N = Inl ?A \<and> litValue s ?A = - 1 \<or> N = Inr ?A \<and> litValue s ?A = 0)"
        using "1.prems"(1) l False by (auto simp: assumeNext.simps [of As s])
      with l "1.prems" show ?thesis by (auto simp: next_assumption_def)
    qed
  qed
qed

section \<open>Choosing\<close>

lemma noLit_invalid: "\<not> isValid noLit"
  by (simp add: isValid_def noLit_def)

lemma nothing_queued:
  assumes e: "queueEmpty (Order s)" and q: "queued s" and n: "numVars s \<le> unat kMaxSatVar + 1"
  shows "\<forall>v < numVars s. Decidable s ! v \<longrightarrow> Value s ! v \<noteq> 0"
proof (intro allI impI notI)
  fix v assume v: "v < numVars s" "Decidable s ! v" "Value s ! v = 0"
  have "v < 2 ^ 32" using v(1) n by (simp add: unat_kMaxSatVar)
  then have "unat (word_of_nat v :: u32) = v" by (simp add: unat_of_nat take_bit_nat_eq_self)
  then have "word_of_nat v \<in> members (Order s)" using v q by (simp add: queued_def)
  then show False using e by (simp add: members_def queueEmpty_def)
qed

text \<open>What \<open>pickBranchLit\<close> gives: a free variable, or none is left; the queue holds the others.\<close>

definition picked :: "SatEngine \<Rightarrow> SatLit \<Rightarrow> ActivityQueue \<Rightarrow> bool" where
  "picked s L q \<longleftrightarrow> queue_ok q \<and> length (Position q) = numVars s \<and>
    (if isValid L then unat (var L) < numVars s \<and> Value s ! unat (var L) = 0 \<and>
       (\<forall>V. unat V < numVars s \<longrightarrow> Decidable s ! unat V \<longrightarrow> Value s ! unat V = 0 \<longrightarrow> V = var L \<or> V \<in> members q)
     else \<forall>v < numVars s. Decidable s ! v \<longrightarrow> Value s ! v \<noteq> 0)"

lemma picked_order: "picked (s\<lparr>Order := q\<rparr>) L p \<longleftrightarrow> picked s L p"
  by (simp add: picked_def numVars_def)

lemma pickLoop_ok:
  assumes "pickLoop n s = (L, s')" "queueSize (Order s) \<le> n" "queue_ok (Order s)" "length (Position (Order s)) = numVars s"
    "queued s" "numVars s \<le> unat kMaxSatVar + 1"
  shows "\<exists>q. s' = s\<lparr>Order := q\<rparr> \<and> picked s L q"
  using assms
proof (induction n arbitrary: s)
  case 0
  then have "queueEmpty (Order s)" by (auto simp: queue_ok_def queueEmpty_def queueSize_def)
  from nothing_queued [OF this 0(5,6)] 0 noLit_invalid have "s' = s \<and> picked s L (Order s)" by (simp add: picked_def)
  then show ?case by (intro exI [of _ "Order s"]) simp
next
  case (Suc n)
  show ?case
  proof (cases "queueEmpty (Order s)")
    case True
    from nothing_queued [OF this Suc.prems(5,6)] Suc.prems(1,3,4) True noLit_invalid
    have "s' = s \<and> picked s L (Order s)" by (simp add: picked_def)
    then show ?thesis by (intro exI [of _ "Order s"]) simp
  next
    case False
    obtain V q where m: "removeMax (Activity s) (Order s) = (V, q)" by fastforce
    note rm = removeMax_ok [OF Suc.prems(3) False m]
    have Vn: "unat V < numVars s" using members_range [OF Suc.prems(3), of V] rm Suc.prems(4) by simp
    let ?s = "s\<lparr>Order := q\<rparr>"
    have nv: "numVars ?s = numVars s" by (simp add: numVars_def)
    have step: "pickLoop (Suc n) s = (if Value s ! unat V \<noteq> 0 \<or> \<not> Decidable s ! unat V then pickLoop n ?s
        else (mk V (\<not> (if PhaseSaving (Opts s) then Phase s ! unat V else DefaultPhase (Opts s))), ?s))"
      using False m by (simp add: Let_def)
    show ?thesis
    proof (cases "Value s ! unat V \<noteq> 0 \<or> \<not> Decidable s ! unat V")
      case True
      then have rec: "pickLoop n ?s = (L, s')" using Suc.prems(1) step by simp
      have "U \<in> members q" if "unat U < numVars s" "Decidable s ! unat U" "Value s ! unat U = 0" for U
        using Suc.prems(5) that rm True by (auto simp: queued_def)
      then have "queued ?s" by (simp add: queued_def nv)
      then have "\<exists>p. s' = ?s\<lparr>Order := p\<rparr> \<and> picked ?s L p"
        by (intro Suc.IH [OF rec]) (use rm Suc.prems(2,4,6) in \<open>simp_all add: nv\<close>)
      then show ?thesis by (auto simp: picked_order)
    next
      case found: False
      define b where "b = (\<not> (if PhaseSaving (Opts s) then Phase s ! unat V else DefaultPhase (Opts s)))"
      have r: "L = mk V b" "s' = ?s" using Suc.prems(1) found unfolding step b_def by simp_all
      have k: "unat V < 2 ^ 31" using Vn Suc.prems(6) by (simp add: unat_kMaxSatVar)
      have vL: "var L = V" using k by (simp add: r var_mk)
      have "isValid L" using isValid_if_small [of L] Vn Suc.prems(6) by (simp add: vL)
      moreover note vL
      moreover have "U = V \<or> U \<in> members q" if "unat U < numVars s" "Decidable s ! unat U" "Value s ! unat U = 0" for U
        using Suc.prems(5) that rm by (auto simp: queued_def)
      ultimately have "picked s L q" using rm Vn found Suc.prems(4) by (simp add: picked_def)
      then show ?thesis using r(2) by blast
    qed
  qed
qed

lemma order_change:
  assumes ok: "search_ok As F s" and q: "queue_ok q" "length (Position q) = numVars s" and u: "queued (s\<lparr>Order := q\<rparr>)"
  shows "search_ok As F (s\<lparr>Order := q\<rparr>)"
proof -
  let ?s = "s\<lparr>Order := q\<rparr>"
  have d: "refs ?s = refs s" "numVars ?s = numVars s" "processed ?s = processed s" "decisionLevel ?s = decisionLevel s" "rootTrail ?s = rootTrail s"
    by (simp_all add: refs_def numVars_def processed_def decisionLevel_def rootTrail_def)
  have st: "stack_inv As F s" using ok by (simp add: search_ok_def)
  have "watched ?s = watched s" by (simp add: watched_def base_ok_def d)
  moreover have "propagation_ok ?s = propagation_ok s" by (simp add: propagation_ok_def watched_def base_ok_def d)
  moreover have "deep_ok ?s = deep_ok s" by (simp add: deep_ok_def levels_ok_def reasons_ok_def d)
  moreover have "layers ?s = layers s" by (simp add: layers_def d)
  moreover have "tables_ok ?s" using stack_invD(4) [OF st] q by (simp add: tables_ok_def d)
  moreover have "meaning F ?s = meaning F s" by (simp add: meaning_def formula_def d)
  moreover have "assumed As ?s = assumed As s" by (simp add: assumed_def d)
  moreover have "occupied As ?s = occupied As s" by (simp add: occupied_def d)
  ultimately show ?thesis using ok u by (simp add: search_ok_def stack_inv_def stack_base_def)
qed

text \<open>A choice from the queue, and the level it opens.\<close>

lemma choose_ok:
  assumes ok: "search_ok As F s" and q: "QueueHead s = length (Trail s)" and l: "length As \<le> decisionLevel s"
    and p: "pickBranchLit s = (L, s')"
  shows "if isValid L
    then search_ok As F (enqueue L kNoClause (newDecisionLevel s')) \<and> opened (enqueue L kNoClause (newDecisionLevel s')) \<and>
      Trail s' = Trail s \<and> TrailLim s' = TrailLim s \<and> question_frame s s' \<and> OutOfSpace s' = OutOfSpace s \<and> Stats s' = Stats s
    else (\<forall>v < numVars s. Decidable s ! v \<longrightarrow> Value s ! v \<noteq> 0) \<and> search_ok As F s' \<and> Value s' = Value s \<and>
      Trail s' = Trail s \<and> TrailLim s' = TrailLim s \<and> question_frame s s' \<and> OutOfSpace s' = OutOfSpace s \<and> Stats s' = Stats s \<and>
      QueueHead s' = QueueHead s"
proof -
  have st: "stack_inv As F s" using ok by (simp add: search_ok_def)
  note g = stack_invD [OF st]
  have tb: "queue_ok (Order s)" "length (Position (Order s)) = numVars s" "numVars s \<le> unat kMaxSatVar + 1"
    using g(4) by (simp_all add: tables_ok_def)
  from pickLoop_ok [OF p [unfolded pickBranchLit_def] order_refl tb(1,2) g(5) tb(3)] obtain w where
    s': "s' = s\<lparr>Order := w\<rparr>" and c: "picked s L w" by blast
  have o: "queue_ok w" "length (Position w) = numVars s" using c by (simp_all add: picked_def)
  have same: "Trail s' = Trail s" "TrailLim s' = TrailLim s" "question_frame s s'" "OutOfSpace s' = OutOfSpace s" "Stats s' = Stats s"
    "Value s' = Value s" "QueueHead s' = QueueHead s"
    by (simp_all add: s' question_frame_def numVars_def)
  show ?thesis
  proof (cases "isValid L")
    case False
    then have all: "\<forall>v < numVars s. Decidable s ! v \<longrightarrow> Value s ! v \<noteq> 0" using c by (simp add: picked_def)
    then have "queued s'" by (simp add: queued_def s' numVars_def)
    then show ?thesis using False all same order_change [OF ok o] by (simp add: s')
  next
    case True
    then have L: "unat (var L) < numVars s" "Value s ! unat (var L) = 0"
      and rest: "\<And>V. unat V < numVars s \<Longrightarrow> Decidable s ! unat V \<Longrightarrow> Value s ! unat V = 0 \<Longrightarrow> V = var L \<or> V \<in> members w"
      using c by (simp_all add: picked_def)
    have z: "litValue s L = 0" using L(2) by (simp add: litValue_def)
    let ?e = "enqueue L kNoClause (newDecisionLevel s)"
    have d: "search_ok As F ?e" "opened ?e" by (rule decide_stack [OF ok q L(1) z]; use l in simp)+
    have e: "enqueue L kNoClause (newDecisionLevel s') = ?e\<lparr>Order := w\<rparr>"
      by (simp add: s' enqueue_def newDecisionLevel_def decisionLevel_def Let_def)
    have "queued (?e\<lparr>Order := w\<rparr>)"
      unfolding queued_def
    proof (intro allI impI)
      fix V :: SatVar assume V: "unat V < numVars (?e\<lparr>Order := w\<rparr>)" "Decidable (?e\<lparr>Order := w\<rparr>) ! unat V" "Value (?e\<lparr>Order := w\<rparr>) ! unat V = 0"
      have n: "unat V < numVars s" using V(1) by (simp add: numVars_def enqueue_def newDecisionLevel_def Let_def)
      have "V \<noteq> var L" using V(3) L(1) by (auto simp: enqueue_def Let_def numVars_def split: if_splits)
      then have "Value s ! unat V = 0" using V(3) by (simp add: enqueue_def newDecisionLevel_def Let_def split: if_splits)
      then show "V \<in> members (Order (?e\<lparr>Order := w\<rparr>))" using rest [OF n] V(2) \<open>V \<noteq> var L\<close> by simp
    qed
    from order_change [OF d(1) o(1) _ this] o(2) have "search_ok As F (?e\<lparr>Order := w\<rparr>)" by simp
    moreover have "opened (?e\<lparr>Order := w\<rparr>)" using d(2) by (simp add: opened_def)
    ultimately show ?thesis using True same by (simp add: e)
  qed
qed

section \<open>The assumptions behind a failure\<close>

text \<open>
  The walk with \<open>n\<close> entries ahead: marks stand on entries ahead above the root, besides the
  failed one, and a model in which everything collected holds falsifies a marked entry ahead.
\<close>

definition final_ok :: "SatLit list \<Rightarrow> assignment set \<Rightarrow> SatVar \<Rightarrow> nat \<Rightarrow> SatLit list \<Rightarrow> SatEngine \<Rightarrow> bool" where
  "final_ok As F f n Out s \<longleftrightarrow> length (Seen s) = numVars s \<and> n \<le> length (Trail s) \<and> set Out \<subseteq> set As \<and>
     (\<forall>v < numVars s. Seen s ! v \<longrightarrow> v = unat f \<or> (\<exists>i < n. TrailLim s ! 0 \<le> i \<and> unat (var (Trail s ! i)) = v)) \<and>
     (\<forall>m \<in> F. (\<forall>L \<in> set Out. lit_true m L) \<longrightarrow>
        (\<exists>i < n. (marked s i \<or> i < TrailLim s ! 0) \<and> \<not> lit_true m (Trail s ! i)))"

lemma final_okD:
  assumes "final_ok As F f n Out s"
  shows "length (Seen s) = numVars s" "n \<le> length (Trail s)" "set Out \<subseteq> set As"
    "\<And>v. v < numVars s \<Longrightarrow> Seen s ! v \<Longrightarrow> v = unat f \<or> (\<exists>i < n. TrailLim s ! 0 \<le> i \<and> unat (var (Trail s ! i)) = v)"
    "\<And>m. m \<in> F \<Longrightarrow> \<forall>L \<in> set Out. lit_true m L \<Longrightarrow>
       \<exists>i. i < n \<and> (marked s i \<or> i < TrailLim s ! 0) \<and> \<not> lit_true m (Trail s ! i)"
  using assms unfolding final_ok_def by blast+

lemma above_root:
  assumes "levels_ok s" "0 < decisionLevel s" "i < length (Trail s)"
  shows "0 < levelAt (TrailLim s) i \<longleftrightarrow> TrailLim s ! 0 \<le> i"
proof -
  have so: "sorted (TrailLim s)" and l: "0 < length (TrailLim s)" using assms by (simp_all add: levels_ok_def decisionLevel_def)
  show ?thesis using levelAt_take(2) [OF so l, of i] levelAt_before [OF so l, of i] by (metis bot_nat_0.extremum_uniqueI le_refl not_gr_zero not_le)
qed

text \<open>Entries passed over, and entries whose mark is replaced by those of what forced them.\<close>

lemma final_skip:
  assumes ok: "final_ok As F f (Suc n) Out s" and t: "trail_ok (Value s) (Trail s)" and nm: "\<not> marked s n" and b: "TrailLim s ! 0 \<le> n"
  shows "final_ok As F f n Out s"
proof -
  note g = final_okD [OF ok]
  have "v = unat f \<or> (\<exists>i < n. TrailLim s ! 0 \<le> i \<and> unat (var (Trail s ! i)) = v)" if "v < numVars s" "Seen s ! v" for v
    using g(4) [OF that] nm that(2) by (auto simp: less_Suc_eq marked_def)
  moreover have "\<exists>i < n. (marked s i \<or> i < TrailLim s ! 0) \<and> \<not> lit_true m (Trail s ! i)"
    if "m \<in> F" "\<forall>L \<in> set Out. lit_true m L" for m
    using g(5) [OF that] nm b by (auto simp: less_Suc_eq)
  ultimately show ?thesis using g(1-3) by (simp add: final_ok_def)
qed

definition finalMarks :: "SatEngine \<Rightarrow> SatLit list \<Rightarrow> bool list \<Rightarrow> bool list" where
  "finalMarks s Ls M = fold (\<lambda>L Marks. if Level s ! unat (var L) > 0 then Marks[unat (var L) := True] else Marks) Ls M"

lemma finalMarks_ok:
  "length (finalMarks s Ls M) = length M"
  "\<forall>L \<in> set Ls. unat (var L) < length M \<Longrightarrow>
     finalMarks s Ls M ! v \<longleftrightarrow> M ! v \<or> (\<exists>L \<in> set Ls. unat (var L) = v \<and> Level s ! v > 0)"
proof -
  show "length (finalMarks s Ls M) = length M"
    unfolding finalMarks_def by (induction Ls arbitrary: M) simp_all
  show "\<forall>L \<in> set Ls. unat (var L) < length M \<Longrightarrow>
     finalMarks s Ls M ! v \<longleftrightarrow> M ! v \<or> (\<exists>L \<in> set Ls. unat (var L) = v \<and> Level s ! v > 0)"
  proof (induction Ls arbitrary: M)
    case (Cons L Ls)
    let ?M = "if Level s ! unat (var L) > 0 then M[unat (var L) := True] else M"
    have e: "finalMarks s (L # Ls) M = finalMarks s Ls ?M" by (simp add: finalMarks_def)
    have "finalMarks s Ls ?M ! v \<longleftrightarrow> ?M ! v \<or> (\<exists>L \<in> set Ls. unat (var L) = v \<and> Level s ! v > 0)"
      by (rule Cons.IH) (use Cons.prems in auto)
    moreover have "?M ! v \<longleftrightarrow> M ! v \<or> unat (var L) = v \<and> Level s ! v > 0" using Cons.prems by (auto simp: nth_list_update)
    ultimately show ?case unfolding e by auto
  qed (simp add: finalMarks_def)
qed

lemma unmarked_nth:
  assumes t: "trail_ok (Value s) (Trail s)" and n: "n < length (Trail s)" "i < length (Trail s)" and l: "length (Seen s) = numVars s"
  shows "(Seen s)[unat (var (Trail s ! n)) := False] ! unat (var (Trail s ! i)) \<longleftrightarrow> marked s i \<and> i \<noteq> n"
proof (cases "i = n")
  case True
  then show ?thesis using trail_var_range [OF t n(1)] l by simp
next
  case False
  then have "unat (var (Trail s ! n)) \<noteq> unat (var (Trail s ! i))" using trail_var_inj [OF t n] by auto
  then show ?thesis using False by (simp add: marked_def)
qed

lemma final_choice:
  assumes ok: "final_ok As F f (Suc n) Out s" and t: "trail_ok (Value s) (Trail s)" and n: "n < length (Trail s)"
    and c: "Trail s ! n \<in> set As" and b: "TrailLim s ! 0 \<le> n"
  shows "final_ok As F f n (Out @ [Trail s ! n]) (s\<lparr>Seen := (Seen s)[unat (var (Trail s ! n)) := False]\<rparr>)"
proof -
  let ?V = "unat (var (Trail s ! n))"
  let ?s = "s\<lparr>Seen := (Seen s)[?V := False]\<rparr>"
  note g = final_okD [OF ok]
  have nv: "numVars ?s = numVars s" by (simp add: numVars_def)
  have mk: "marked ?s i \<longleftrightarrow> marked s i" if "i < n" for i
    using unmarked_nth [OF t n _ g(1), of i] that n by (simp add: marked_def)
  have "v = unat f \<or> (\<exists>i < n. TrailLim s ! 0 \<le> i \<and> unat (var (Trail s ! i)) = v)"
    if v: "v < numVars s" "(Seen s)[?V := False] ! v" for v
  proof -
    have ne: "v \<noteq> ?V" using v g(1) by auto
    then have "Seen s ! v" using v(2) by simp
    from g(4) [OF v(1) this] ne show ?thesis by (auto simp: less_Suc_eq)
  qed
  moreover have "\<exists>i < n. (marked ?s i \<or> i < TrailLim s ! 0) \<and> \<not> lit_true m (Trail s ! i)"
    if m: "m \<in> F" "\<forall>L \<in> set (Out @ [Trail s ! n]). lit_true m L" for m
  proof -
    have "\<forall>L \<in> set Out. lit_true m L" "lit_true m (Trail s ! n)" using m(2) by simp_all
    then obtain i where i: "i < Suc n" "marked s i \<or> i < TrailLim s ! 0" "\<not> lit_true m (Trail s ! i)" "i \<noteq> n"
      using g(5) [OF m(1)] by blast
    then show ?thesis using mk [of i] by (intro exI [of _ i]) auto
  qed
  ultimately show ?thesis using g(1-3) c n by (simp add: final_ok_def nv)
qed

lemma final_forced:
  assumes ok: "final_ok As F f (Suc n) Out s" and b0: "analysis_base s" and n: "n < length (Trail s)" and b: "TrailLim s ! 0 \<le> n"
    and F: "F \<subseteq> formula s" and r: "Reason s ! unat (var (Trail s ! n)) \<noteq> kNoClause"
  shows "final_ok As F f n Out (s\<lparr>Seen := finalMarks s (tl (clits (Arena s) (Reason s ! unat (var (Trail s ! n)))))
      ((Seen s)[unat (var (Trail s ! n)) := False])\<rparr>)"
proof -
  let ?V = "unat (var (Trail s ! n))"
  let ?r = "Reason s ! ?V"
  let ?T = "tl (clits (Arena s) ?r)"
  let ?M = "finalMarks s ?T ((Seen s)[?V := False])"
  let ?s = "s\<lparr>Seen := ?M\<rparr>"
  note g = final_okD [OF ok] and d = analysis_baseD [OF b0]
  note rd = reasonD [OF d(2) n r]
  have nv: "numVars ?s = numVars s" by (simp add: numVars_def)
  have pos: "\<exists>j < n. Trail s ! j = negl L" if "L \<in> set ?T" for L
  proof -
    have "negl L \<in> set (take n (Trail s))" using rd(3) that by blast
    then show ?thesis using in_take_position [of "negl L" n "Trail s"] by blast
  qed
  have rng: "\<forall>L \<in> set ?T. unat (var L) < length ((Seen s)[?V := False])"
  proof
    fix L assume "L \<in> set ?T"
    then obtain j where "j < n" "Trail s ! j = negl L" using pos by blast
    then show "unat (var L) < length ((Seen s)[?V := False])" using trail_var_range [OF d(3), of j] n g(1) by simp
  qed
  have fm: "?M ! v \<longleftrightarrow> (Seen s)[?V := False] ! v \<or> (\<exists>L \<in> set ?T. unat (var L) = v \<and> Level s ! v > 0)" for v
    by (rule finalMarks_ok(2) [OF rng])
  have lv: "Level s ! unat (var L) = levelAt (TrailLim s) j" if "j < n" "Trail s ! j = negl L" for j L
    using level_of_false [OF d(1) _ that(2)] that(1) n by simp
  have "v = unat f \<or> (\<exists>i < n. TrailLim s ! 0 \<le> i \<and> unat (var (Trail s ! i)) = v)" if v: "v < numVars s" "?M ! v" for v
  proof (cases "(Seen s)[?V := False] ! v")
    case True
    have ne: "v \<noteq> ?V" using v(1) True g(1) by auto
    then have "Seen s ! v" using True by simp
    from g(4) [OF v(1) this] ne show ?thesis by (auto simp: less_Suc_eq)
  next
    case False
    then obtain L where L: "L \<in> set ?T" "unat (var L) = v" "Level s ! v > 0" using v(2) fm by blast
    obtain j where j: "j < n" "Trail s ! j = negl L" using pos [OF L(1)] by blast
    then have "TrailLim s ! 0 \<le> j" using above_root [OF d(1,7), of j] lv [OF j] L(2,3) n by auto
    then show ?thesis using j L(2) by (intro disjI2 exI [of _ j]) simp
  qed
  moreover have "\<exists>i < n. (marked ?s i \<or> i < TrailLim s ! 0) \<and> \<not> lit_true m (Trail s ! i)"
    if m: "m \<in> F" "\<forall>L \<in> set Out. lit_true m L" for m
  proof -
    obtain i where i: "i < Suc n" "marked s i \<or> i < TrailLim s ! 0" "\<not> lit_true m (Trail s ! i)" using g(5) [OF m] by blast
    show ?thesis
    proof (cases "i = n")
      case False
      then have "marked ?s i \<or> i < TrailLim s ! 0"
        using i(1,2) unmarked_nth [OF d(3) n _ g(1), of i] n fm [where v = "unat (var (Trail s ! i))"] by (auto simp: marked_def)
      then show ?thesis using i False by (intro exI [of _ i]) simp
    next
      case True
      have fm': "m \<in> models_of (Arena s) (refs s) (rootTrail s)" using m(1) F by (auto simp: formula_def)
      then have "clause_true m (clits (Arena s) ?r)" using rd(1) by (simp add: models_of_def)
      moreover have "clits (Arena s) ?r = Trail s ! n # ?T" using d(6) [OF rd(1)] rd(2) by (cases "clits (Arena s) ?r") auto
      ultimately have "clause_true m (Trail s ! n # ?T)" by metis
      then obtain L where L: "L \<in> set ?T" "lit_true m L" using i(3) True by (auto simp: clause_true_def)
      obtain j where j: "j < n" "Trail s ! j = negl L" using pos [OF L(1)] by blast
      have "levelAt (TrailLim s) j \<noteq> 0"
        using root_level [OF d(1), of j] models_of_trail [OF fm', of "negl L"] j L(2) n by auto
      then have "Level s ! unat (var L) > 0" using lv [OF j] by simp
      then have "marked ?s j" using fm [where v = "unat (var L)"] L(1) j(2) by (auto simp: marked_def)
      then show ?thesis using j L(2) by (intro exI [of _ j]) simp
    qed
  qed
  ultimately show ?thesis using g(1-3) n by (simp add: final_ok_def nv finalMarks_ok(1))
qed

lemma finalWalk_ok:
  assumes "finalWalk (TrailLim s ! 0) n Out s = (Out', s')" "final_ok As F f n Out s" "analysis_base s" "F \<subseteq> formula s"
    "assumed As s" "decisionLevel s \<le> length As"
  shows "core_frame s s' \<and> length (Seen s') = numVars s \<and> set Out' \<subseteq> set As \<and>
    (\<forall>v < numVars s. Seen s' ! v \<longrightarrow> v = unat f) \<and> (\<forall>m \<in> F. \<exists>L \<in> set Out'. \<not> lit_true m L) \<and> (\<exists>E. Out' = Out @ E)"
  using assms
proof (induction n arbitrary: Out s)
  case 0
  have "\<exists>L \<in> set Out. \<not> lit_true m L" if "m \<in> F" for m using final_okD(5) [OF 0(2) that] by blast
  with 0 final_okD [OF 0(2)] show ?case by auto
next
  case (Suc n)
  note g = final_okD [OF Suc.prems(2)] and d = analysis_baseD [OF Suc.prems(3)]
  have n: "n < length (Trail s)" using g(2) by simp
  let ?V = "unat (var (Trail s ! n))"
  show ?case
  proof (cases "n < TrailLim s ! 0")
    case True
    then have r: "Out' = Out" "s' = s" using Suc.prems(1) by simp_all
    have "\<exists>L \<in> set Out. \<not> lit_true m L" if m: "m \<in> F" for m
    proof (rule ccontr)
      assume "\<not> ?thesis"
      then obtain i where i: "i < Suc n" "\<not> lit_true m (Trail s ! i)" using g(5) [OF m] by blast
      have "levelAt (TrailLim s) i = 0" using above_root [OF d(1,7), of i] i(1) True n by auto
      then have "Trail s ! i \<in> set (rootTrail s)" using root_level [OF d(1)] i(1) n by simp
      then show False using m Suc.prems(4) i(2) by (auto simp: formula_def dest: models_of_trail)
    qed
    moreover have "v = unat f" if "v < numVars s" "Seen s ! v" for v using g(4) [OF that] True by auto
    ultimately show ?thesis using g(1,3) by (simp add: r)
  next
    case False
    then have b: "TrailLim s ! 0 \<le> n" by simp
    show ?thesis
    proof (cases "marked s n")
      case nm: False
      then have rec: "finalWalk (TrailLim s ! 0) n Out s = (Out', s')" using Suc.prems(1) False by (simp add: marked_def Let_def)
      show ?thesis by (rule Suc.IH [OF rec final_skip [OF Suc.prems(2) d(3) nm b] Suc.prems(3-6)])
    next
      case mk: True
      define s1 where "s1 = s\<lparr>Seen := (Seen s)[?V := False]\<rparr>"
      have lvl: "0 < levelAt (TrailLim s) n" using above_root [OF d(1,7) n] b by simp
      have Lv: "Level s ! ?V = levelAt (TrailLim s) n" using d(1) n by (simp add: levels_ok_def)
      have goal: ?thesis if f1: "core_frame s t" and rec: "finalWalk (TrailLim s ! 0) n O1 t = (Out', s')" and fo: "final_ok As F f n O1 t"
          and ex: "\<exists>E. O1 = Out @ E" for t O1
      proof -
        note d1 = core_frame_derived [OF f1]
        have "core_frame t s' \<and> length (Seen s') = numVars t \<and> set Out' \<subseteq> set As \<and>
          (\<forall>v < numVars t. Seen s' ! v \<longrightarrow> v = unat f) \<and> (\<forall>m \<in> F. \<exists>L \<in> set Out'. \<not> lit_true m L) \<and> (\<exists>E. Out' = O1 @ E)"
          by (rule Suc.IH [OF _ fo analysis_base_frame [OF f1 Suc.prems(3)]])
            (use rec Suc.prems(4-6) formula_frame(1) [OF f1] in \<open>simp_all add: d1 assumed_def\<close>)
        then show ?thesis using core_frame_trans [OF f1] ex by (auto simp: d1)
      qed
      show ?thesis
      proof (cases "Reason s ! ?V = kNoClause")
        case True
        have "levelAt (TrailLim s) n \<le> length As" using levelAt_le [of "TrailLim s" n] Suc.prems(6) by (simp add: decisionLevel_def)
        then have "Trail s ! n = As ! (levelAt (TrailLim s) n - 1)" "levelAt (TrailLim s) n - 1 < length As"
          using assumedD(1) [OF Suc.prems(5) n lvl _ True] lvl by simp_all
        then have c: "Trail s ! n \<in> set As" by simp
        have rec: "finalWalk (TrailLim s ! 0) n (Out @ [Trail s ! n]) s1 = (Out', s')"
          using Suc.prems(1) False mk True lvl Lv by (simp add: marked_def Let_def s1_def)
        show ?thesis
          by (rule goal [OF _ rec]) (use final_choice [OF Suc.prems(2) d(3) n c b] in \<open>simp_all add: s1_def\<close>)
      next
        case rn: False
        let ?t = "s\<lparr>Seen := finalMarks s (tl (clits (Arena s) (Reason s ! ?V))) ((Seen s)[?V := False])\<rparr>"
        have "CLits (getClause s (Reason s ! ?V)) = clits (Arena s) (Reason s ! ?V)" by (simp add: getClause_def clits_def)
        then have "finalWalk (TrailLim s ! 0) (Suc n) Out s = finalWalk (TrailLim s ! 0) n Out ?t"
          using False mk rn by (simp add: marked_def Let_def finalMarks_def drop_Suc getClause_def)
        then have rec: "finalWalk (TrailLim s ! 0) n Out ?t = (Out', s')" using Suc.prems(1) by simp
        show ?thesis
          by (rule goal [OF _ rec final_forced [OF Suc.prems(2,3) n b Suc.prems(4) rn]]) (simp_all add: finalMarks_ok(1))
      qed
    qed
  qed
qed

lemma analyzeFinal_ok:
  assumes ok: "search_ok As F s" and A: "A \<in> set As" "litValue s A = - 1" "unat (var A) < numVars s" and l: "decisionLevel s < length As"
    and a: "analyzeFinal A s = (Out, s')"
  shows "search_ok As F s'" "core_frame s s'" "set Out \<subseteq> set As" "\<forall>m \<in> F. \<exists>L \<in> set Out. \<not> lit_true m L"
proof -
  have st: "stack_inv As F s" using ok by (simp add: search_ok_def)
  note g = stack_invD [OF st]
  have neg: "negl A \<in> set (Trail s)"
    using trail_ok_worth_minus [OF g(9)] A(2,3) by (simp add: litValue_worth numVars_def)
  have "search_ok As F s' \<and> core_frame s s' \<and> set Out \<subseteq> set As \<and> (\<forall>m \<in> F. \<exists>L \<in> set Out. \<not> lit_true m L)"
  proof (cases "decisionLevel s = 0")
    case True
    then have r: "Out = [A]" "s' = s" using a by (simp_all add: analyzeFinal_def)
    have "rootTrail s = Trail s" using True by (simp add: rootTrail_def decisionLevel_def)
    then have "\<not> lit_true m A" if "m \<in> F" for m
      using that g(15) models_of_trail [of m "Arena s" "refs s" "Trail s" "negl A"] neg by (auto simp: formula_def)
    then show ?thesis using r ok A(1) by simp
  next
    case False
    let ?u = "s\<lparr>Seen := (Seen s)[unat (var A) := True]\<rparr>"
    have tb: "length (Seen s) = numVars s" "True \<notin> set (Seen s)" using g(4) by (simp_all add: tables_ok_def)
    have fu: "core_frame s ?u" by simp
    note du = core_frame_derived [OF fu]
    obtain t where w: "finalWalk (TrailLim ?u ! 0) (length (Trail s)) [A] ?u = (Out, t)" and s': "s' = t\<lparr>Seen := (Seen t)[unat (var A) := False]\<rparr>"
      using a False by (auto simp: analyzeFinal_def Let_def split: prod.splits)
    have base: "analysis_base s" using g(2,9,10) False by (simp add: analysis_base_def)
    obtain i where i: "i < length (Trail s)" "Trail s ! i = negl A" using neg by (metis in_set_conv_nth)
    have m: "marked ?u i" using i A(3) tb by (simp add: marked_def)
    have sn: "v = unat (var A)" if "v < numVars s" "(Seen s)[unat (var A) := True] ! v" for v
      using that no_marks [OF tb(2), of v] tb(1) by (cases "v = unat (var A)") auto
    have "final_ok As F (var A) (length (Trail s)) [A] ?u"
      unfolding final_ok_def du using tb A(1,3) sn i m by (auto intro!: exI [of _ i])
    from finalWalk_ok [OF w this analysis_base_frame [OF fu base]] g(7,15) l formula_frame(1) [OF fu]
    have o: "core_frame ?u t" "length (Seen t) = numVars s" "set Out \<subseteq> set As" "\<forall>v < numVars s. Seen t ! v \<longrightarrow> v = unat (var A)"
      "\<forall>m \<in> F. \<exists>L \<in> set Out. \<not> lit_true m L" by (simp_all add: du assumed_def)
    have f: "core_frame s s'" unfolding s' by (rule core_frame_trans [OF core_frame_trans [OF fu o(1)]]) simp
    have "True \<notin> set (Seen s')"
    proof
      assume "True \<in> set (Seen s')"
      then obtain v where "v < numVars s" "(Seen t)[unat (var A) := False] ! v" using o(2) by (auto simp: s' in_set_conv_nth)
      then show False using o(2,4) A(3) by (cases "v = unat (var A)") auto
    qed
    then show ?thesis using search_frame [OF f _ ok] f o(3,5) by simp
  qed
  then show "search_ok As F s'" "core_frame s s'" "set Out \<subseteq> set As" "\<forall>m \<in> F. \<exists>L \<in> set Out. \<not> lit_true m L" by blast+
qed

end
