(* ===== verification/Sat_Rounds.thy ===== *)
theory Sat_Rounds
  imports Sat_Choice
begin

text \<open>
  The rounds of a search and its restarts.  Every round gives a right answer or makes the trail heavier,
  so a search ends; the answer of the restart loop is the answer of its last search.
\<close>

section \<open>One round of the search\<close>

text \<open>What an answer promises about the state it comes with, for the models \<open>F\<close> of the formula.\<close>

definition answered :: "SatLit list \<Rightarrow> assignment set \<Rightarrow> SatResult \<Rightarrow> SatEngine \<Rightarrow> bool" where
  "answered As F R s \<longleftrightarrow> stack_inv As F s \<and>
     (case R of
        Sat \<Rightarrow> \<not> Falsified s \<and> propagation_ok s \<and> QueueHead s = length (Trail s) \<and> Model s = Value s \<and>
          length As \<le> decisionLevel s \<and> (\<forall>v < numVars s. Decidable s ! v \<longrightarrow> Value s ! v \<noteq> 0)
      | Unsat \<Rightarrow> (if Falsified s then F = {} \<and> decisionLevel s = 0 else propagation_ok s \<and> QueueHead s = length (Trail s)) \<and>
          set (FailedAssumptions s) \<subseteq> set As \<and> (\<forall>m \<in> F. \<exists>L \<in> set (FailedAssumptions s). \<not> lit_true m L)
      | Unknown \<Rightarrow> \<not> Falsified s \<and> propagation_ok s
      | Invalid \<Rightarrow> False)"

text \<open>What every state of one call of \<open>solve\<close> shares.\<close>

definition same_call :: "SatEngine \<Rightarrow> SatEngine \<Rightarrow> bool" where
  "same_call s s' \<longleftrightarrow> Opts s' = Opts s \<and> ConflictBudgetAt s' = ConflictBudgetAt s \<and>
     PropagationBudgetAt s' = PropagationBudgetAt s \<and> WatchVisitBudgetAt s' = WatchVisitBudgetAt s \<and>
     numVars s' = numVars s \<and> Decidable s' = Decidable s"

lemma question_call: "question_frame s s' \<Longrightarrow> same_call s s'"
  by (simp add: question_frame_def same_call_def)

lemma same_call_trans: "same_call s t \<Longrightarrow> same_call t u \<Longrightarrow> same_call s u"
  by (simp add: same_call_def)

text \<open>A search that has not been answered is going on: the trail is heavier than it was.\<close>

definition going_on :: "SatLit list \<Rightarrow> assignment set \<Rightarrow> SatEngine \<Rightarrow> SatEngine \<Rightarrow> bool" where
  "going_on As F s s' \<longleftrightarrow> search_ok As F s' \<and> opened s' \<and> question_frame s s' \<and>
     weight (numVars s) (numVars s + length As) s < weight (numVars s) (numVars s + length As) s'"

definition round_ok :: "u64 \<Rightarrow> SatLit list \<Rightarrow> assignment set \<Rightarrow> SatEngine \<Rightarrow> (SatResult \<times> SatEngine) + (u64 \<times> SatEngine) \<Rightarrow> bool" where
  "round_ok ConflictBudget As F s X \<longleftrightarrow>
     (case X of
        Inl (R, s') \<Rightarrow> answered As F R s' \<and> same_call s s' \<and>
          (R = Unknown \<longrightarrow> FailedAssumptions s' = FailedAssumptions s \<and>
             (outOfBudget s' \<or> OutOfSpace s' \<or> ConflictBudget \<noteq> 0 \<and> TrailLim s' = []))
      | Inr (c, s') \<Rightarrow> going_on As F s s')"

lemma weight_levels:
  "Trail s' = Trail s \<Longrightarrow> (\<And>i. i < length (Trail s) \<Longrightarrow> levelAt (TrailLim s') i = levelAt (TrailLim s) i) \<Longrightarrow> weight N M s' = weight N M s"
  by (simp add: weight_def)

lemma outOfBudget_cong:
  "ConflictBudgetAt s' = ConflictBudgetAt s \<Longrightarrow> PropagationBudgetAt s' = PropagationBudgetAt s \<Longrightarrow>
   WatchVisitBudgetAt s' = WatchVisitBudgetAt s \<Longrightarrow> Stats s' = Stats s \<Longrightarrow> outOfBudget s' = outOfBudget s"
  by (simp add: outOfBudget_def outOfPropagationBudget_def outOfWatchVisitBudget_def)

lemma weight_decide: "weight N M s < weight N M (enqueue L r (newDecisionLevel s))"
proof -
  have "weight N M s + length [L] \<le> weight N M (enqueue L r (newDecisionLevel s))"
    by (rule weight_extend) (simp_all add: levelAt_append)
  then show ?thesis by simp
qed

text \<open>A conflict at the root leaves no model; above the root it is learned from.\<close>

lemma root_conflict:
  assumes ok: "search_ok As F s" and op: "opened s" and p: "propagate s = (c, t)" and c: "c \<noteq> kNoClause" and d: "decisionLevel t = 0"
  shows "F = {}"
proof -
  have pr: "propagation_ok s" using ok by (simp add: search_ok_def)
  have st: "stack_inv As F t" by (rule propagate_stack(1) [OF ok op p])
  have "models t = {}" using propagate_ok [OF pr p] c by simp
  moreover have "rootTrail t = Trail t" using d by (simp add: rootTrail_def decisionLevel_def)
  ultimately show ?thesis using stack_invD(15) [OF st] by (simp add: formula_def models_def)
qed

lemma decay_core: "core_frame s (decayClauseActivity (decayVarActivity s))" "Seen (decayClauseActivity (decayVarActivity s)) = Seen s"
  by (simp_all add: decayClauseActivity_def decayVarActivity_def core_frame_def)

lemma conflict_round:
  assumes ok: "search_ok As F s" and op: "opened s" and p: "propagate s = (c, t)" and c: "c \<noteq> kNoClause"
    and d: "0 < decisionLevel t" and w: "weight N M s \<le> weight N M t"
    and N: "N = numVars s" "M = numVars s + length As" and nf: "\<not> Falsified s"
    and u: "u = t\<lparr>Stats := st\<rparr>" and l: "learnFrom c u = (Stored, s')"
  shows "round_ok B As F s (if \<not> Stored then Inl (Unknown, s') else Inr (k, decayClauseActivity (decayVarActivity s')))"
proof -
  note ps = propagate_stack [OF ok op p]
  have pr: "propagation_ok s" using ok by (simp add: search_ok_def)
  note pq = propagate_question [OF pr p]
  have stu: "stack_inv As F u" using ps(1) search_ok_cong(2) [of u t] by (simp add: u)
  have same: "Trail u = Trail t" "TrailLim u = TrailLim t" "decisionLevel u = decisionLevel t" "Arena u = Arena t" "refs u = refs t" "numVars u = numVars t"
    by (simp_all add: u decisionLevel_def refs_def numVars_def)
  have fu: "false_clause u c" using ps(4) c by (simp add: false_clause_def same)
  have le: "learned As F u Stored s'" by (rule learnFrom_ok [OF stu fu _ l]) (use d same in simp)
  have qu: "question_frame s u" using pq(1) by (simp add: u question_frame_def numVars_def)
  have q': "question_frame s s'" using le question_frame_trans [OF qu] by (simp add: learned_def)
  show ?thesis
  proof (cases Stored)
    case False
    then have "search_ok As F s'" "OutOfSpace s'" using le by (simp_all add: learned_def)
    then show ?thesis
      using False q' nf question_call [OF q'] by (simp add: round_ok_def answered_def search_ok_def question_frame_def)
  next
    case True
    then obtain Bt L where b: "search_ok As F s'" "opened s'" "Bt < decisionLevel u" "TrailLim s' = take Bt (TrailLim u)"
        "Trail s' = take (TrailLim u ! Bt) (Trail u) @ [L]" using le by (auto simp: learned_def)
    note lc = level_count [OF stu] and lv = stack_invD(11) [OF stu]
    have nv: "numVars u = numVars s" using qu by (simp add: question_frame_def)
    have "weight N M u < weight N M s'" by (rule weight_learned [OF lv _ _ b(3,4,5)]) (use lc in \<open>simp_all add: N nv\<close>)
    moreover have "weight N M u = weight N M t" by (simp add: weight_def same)
    ultimately have wt: "weight N M s < weight N M s'" using w by simp
    let ?e = "decayClauseActivity (decayVarActivity s')"
    have dc: "core_frame s' ?e" "Seen ?e = Seen s'" by (rule decay_core)+
    have "tables_ok s'" using b(1) by (auto simp: search_ok_def dest: stack_invD(4))
    then have e: "search_ok As F ?e" using search_frame [OF dc(1) _ b(1)] dc(2) by (simp add: tables_ok_def)
    have "weight N M ?e = weight N M s'" by (simp add: weight_def core_frame_derived [OF dc(1)])
    then show ?thesis
      using True e wt b(2) opened_frame [OF dc(1)] question_frame_trans [OF q' core_question [OF dc(1)]]
      by (simp add: round_ok_def going_on_def N)
  qed
qed

text \<open>A round without a conflict takes the next assumption or chooses.\<close>

lemma quiet_round:
  fixes k :: u64
  assumes ok: "search_ok As F t" and q: "QueueHead t = length (Trail t)" and as: "assumptions_ok As t" and nf: "\<not> Falsified t"
    and N: "N = numVars t" "M = numVars t + length As" and W: "W \<le> weight N M t"
  defines "X \<equiv> (case assumeNext As (reduceIfFull t) of
            (Inl A, s) \<Rightarrow>
              (case analyzeFinal A s of (Out, s) \<Rightarrow> Inl (Unsat, s\<lparr>FailedAssumptions := Out\<rparr>))
          | (Inr Next, s) \<Rightarrow>
              if isValid Next
              then Inr (k, enqueue Next kNoClause (newDecisionLevel s))
              else
                case pickBranchLit s of (Next, s) \<Rightarrow>
                  if \<not> isValid Next then Inl (Sat, captureModel s)
                  else
                    let s = s\<lparr>Stats := (Stats s)\<lparr>Decisions := Decisions (Stats s) + 1\<rparr>\<rparr>
                    in Inr (k, enqueue Next kNoClause (newDecisionLevel s)))"
  shows "case X of
      Inl (R, s') \<Rightarrow> R \<noteq> Unknown \<and> answered As F R s' \<and> same_call t s'
    | Inr (c, s') \<Rightarrow> search_ok As F s' \<and> opened s' \<and> question_frame t s' \<and> W < weight N M s'"
proof -
  note rd = reduceIfFull_ok [OF ok]
  let ?r = "reduceIfFull t"
  have qr: "QueueHead ?r = length (Trail ?r)" "question_frame t ?r" "Trail ?r = Trail t" "TrailLim ?r = TrailLim t"
    using rd(2) q by (simp_all add: reduced_def)
  have asr: "assumptions_ok As ?r" using as qr(2) by (simp add: assumptions_ok_def question_frame_def)
  obtain n u where an: "assumeNext As ?r = (n, u)" by fastforce
  have na: "next_assumption As F ?r n u" by (rule assumeNext_ok [OF an rd(1) qr(1) asr])
  have u: "search_ok As F u" "question_frame t u" "QueueHead u = length (Trail u)" "Trail u = Trail t"
    "\<And>i. i < length (Trail t) \<Longrightarrow> levelAt (TrailLim u) i = levelAt (TrailLim t) i"
    using na question_frame_trans [OF qr(2)] qr(3,4) by (simp_all add: next_assumption_def)
  have wu: "W \<le> weight N M u" using W weight_levels [OF u(4,5)] by simp
  have lv: "levels_ok u" using u(1) by (auto simp: search_ok_def dest: stack_invD(11))
  have asu: "\<forall>A \<in> set As. isValid A \<and> unat (var A) < numVars u"
    using as u(2) by (simp add: assumptions_ok_def question_frame_def)
  have nfu: "\<not> Falsified u" using nf u(2) by (simp add: question_frame_def)
  show ?thesis
  proof (cases n)
    case (Inl A)
    then have A: "decisionLevel u < length As" "A = As ! decisionLevel u" "litValue u A = - 1"
      using na unfolding next_assumption_def Inl by auto
    then have Am: "A \<in> set As" by simp
    obtain Out v where af: "analyzeFinal A u = (Out, v)" by fastforce
    note fo = analyzeFinal_ok [OF u(1) Am A(3) _ A(1) af]
    have v: "search_ok As F v" "core_frame u v" "set Out \<subseteq> set As" "\<forall>m \<in> F. \<exists>L \<in> set Out. \<not> lit_true m L"
      using fo asu Am by simp_all
    let ?v = "v\<lparr>FailedAssumptions := Out\<rparr>"
    have X: "X = Inl (Unsat, ?v)" using an Inl af by (simp add: X_def)
    have s: "search_ok As F ?v" using v(1) search_ok_cong(1) [of ?v v] by simp
    have "QueueHead v = length (Trail v)" "Falsified v = Falsified u" using v(2) u(3) by (simp_all add: core_frame_def)
    then have "answered As F Unsat ?v" using s v(3,4) nfu by (simp add: answered_def search_ok_def)
    moreover have "same_call t ?v"
      using same_call_trans [OF question_call [OF u(2)] question_call [OF core_question [OF v(2)]]] by (simp add: same_call_def numVars_def)
    ultimately show ?thesis by (simp add: X)
  next
    case (Inr L)
    show ?thesis
    proof (cases "isValid L")
      case True
      then have l: "decisionLevel u < length As" "L = As ! decisionLevel u" "litValue u L = 0"
        using na Inr noLit_invalid by (auto simp: next_assumption_def split: if_splits)
      have X: "X = Inr (k, enqueue L kNoClause (newDecisionLevel u))" using an Inr True by (simp add: X_def)
      have "unat (var L) < numVars u" using asu l by simp
      note ds = decide_stack [OF u(1,3) this l(3) l(2)]
      have "question_frame t (enqueue L kNoClause (newDecisionLevel u))"
        using u(2) by (simp add: question_frame_def newDecisionLevel_def numVars_def enqueue_def Let_def)
      moreover have "numVars (newDecisionLevel u) = numVars u" by simp
      ultimately show ?thesis using ds weight_decide [of N M u L kNoClause] wu unfolding X by (simp add: question_frame_def)
    next
      case False
      then have l: "length As \<le> decisionLevel u" using na Inr asu by (auto simp: next_assumption_def split: if_splits)
      obtain C v where pb: "pickBranchLit u = (C, v)" by fastforce
      note ch = choose_ok [OF u(1,3) l pb]
      show ?thesis
      proof (cases "isValid C")
        case False
        then have v: "\<forall>x < numVars u. Decidable u ! x \<longrightarrow> Value u ! x \<noteq> 0" "search_ok As F v" "Value v = Value u"
          "Trail v = Trail u" "TrailLim v = TrailLim u" "question_frame u v" "QueueHead v = QueueHead u" using ch by simp_all
        have X: "X = Inl (Sat, captureModel v)" using an Inr \<open>\<not> isValid L\<close> pb False by (simp add: X_def)
        let ?v = "captureModel v"
        have "search_ok As F ?v" using v(2) search_ok_cong(1) [of ?v v] by (simp add: captureModel_def)
        moreover have "decisionLevel ?v = decisionLevel u" using v(5) by (simp add: captureModel_def decisionLevel_def)
        moreover have "Falsified ?v = Falsified u" "numVars ?v = numVars u" "Decidable ?v = Decidable u" "Value ?v = Value u" "Model ?v = Value ?v"
            "QueueHead ?v = length (Trail ?v)"
          using v u(3) by (simp_all add: captureModel_def question_frame_def numVars_def)
        ultimately have "answered As F Sat ?v" using v(1) l nfu by (simp add: answered_def search_ok_def)
        moreover have "same_call t ?v"
          using question_call [OF question_frame_trans [OF u(2) v(6)]] by (simp add: captureModel_def same_call_def numVars_def)
        ultimately show ?thesis by (simp add: X)
      next
        case True
        let ?e = "enqueue C kNoClause (newDecisionLevel v)"
        have v: "search_ok As F ?e" "opened ?e" "Trail v = Trail u" "TrailLim v = TrailLim u" "question_frame u v" using ch True by simp_all
        let ?st = "(Stats v)\<lparr>Decisions := Decisions (Stats v) + 1\<rparr>"
        have X: "X = Inr (k, enqueue C kNoClause (newDecisionLevel (v\<lparr>Stats := ?st\<rparr>)))"
          using an Inr \<open>\<not> isValid L\<close> pb True by (simp add: X_def Let_def)
        have e: "enqueue C kNoClause (newDecisionLevel (v\<lparr>Stats := ?st\<rparr>)) = ?e\<lparr>Stats := ?st\<rparr>"
          by (simp add: enqueue_def newDecisionLevel_def decisionLevel_def Let_def)
        have s: "search_ok As F (?e\<lparr>Stats := ?st\<rparr>)" using v(1) search_ok_cong(1) [of "?e\<lparr>Stats := ?st\<rparr>" ?e] by simp
        have "weight N M v = weight N M u" using v(3,4) by (simp add: weight_def)
        then have "W < weight N M ?e" using weight_decide [of N M v C kNoClause] wu by simp
        moreover have "weight N M (?e\<lparr>Stats := ?st\<rparr>) = weight N M ?e" by (simp add: weight_def)
        moreover have "question_frame t (?e\<lparr>Stats := ?st\<rparr>)"
          using question_frame_trans [OF u(2) v(5)] by (simp add: question_frame_def newDecisionLevel_def numVars_def enqueue_def Let_def)
        moreover have "opened (?e\<lparr>Stats := ?st\<rparr>)" using v(2) by (simp add: opened_def)
        ultimately show ?thesis using s by (simp add: X e)
      qed
    qed
  qed
qed

lemma searchStep_ok:
  assumes ok: "search_ok As F s" and op: "opened s" and as: "assumptions_ok As s" and nf: "\<not> Falsified s" and fa: "FailedAssumptions s = []"
  shows "round_ok B As F s (searchStep B As k s)"
proof -
  let ?N = "numVars s" and ?M = "numVars s + length As"
  obtain c t where p: "propagate s = (c, t)" by fastforce
  note ps = propagate_stack [OF ok op p]
  have pr: "propagation_ok s" using ok by (simp add: search_ok_def)
  note pq = propagate_question [OF pr p]
  have nv: "numVars t = numVars s" "Falsified t = Falsified s" "FailedAssumptions t = FailedAssumptions s" using pq(1) by (simp_all add: question_frame_def)
  obtain T where T: "Trail t = Trail s @ T" "TrailLim t = TrailLim s" using propagate_ok [OF pr p] by (auto simp: prop_frame_def)
  have w: "weight ?N ?M s \<le> weight ?N ?M t" using weight_extend [OF T(1), of ?N ?M] T(2) by simp
  show ?thesis
  proof (cases "c = kNoClause")
    case False
    define u where "u = t\<lparr>Stats := (Stats t)\<lparr>Conflicts := Conflicts (Stats t) + 1\<rparr>\<rparr>"
    have dl: "decisionLevel u = decisionLevel t" by (simp add: u_def decisionLevel_def)
    show ?thesis
    proof (cases "decisionLevel t = 0")
      case True
      let ?u = "u\<lparr>Falsified := True\<rparr>"
      have X: "searchStep B As k s = Inl (Unsat, ?u)" using p False True dl by (simp add: searchStep_def u_def)
      have "stack_inv As F ?u" using ps(1) search_ok_cong(2) [of ?u t] by (simp add: u_def)
      moreover have "F = {}" by (rule root_conflict [OF ok op p False True])
      moreover have "decisionLevel ?u = 0" using True by (simp add: u_def decisionLevel_def)
      moreover have "FailedAssumptions ?u = []" using fa nv by (simp add: u_def)
      ultimately have "answered As F Unsat ?u" by (simp add: answered_def)
      moreover have "same_call s ?u" using question_call [OF pq(1)] by (simp add: same_call_def u_def numVars_def)
      ultimately show ?thesis by (simp add: X round_ok_def)
    next
      case d: False
      obtain St s' where l: "learnFrom c u = (St, s')" by fastforce
      have X: "searchStep B As k s = (if \<not> St then Inl (Unknown, s') else Inr (k + 1, decayClauseActivity (decayVarActivity s')))"
        using p False d dl l by (simp add: searchStep_def u_def)
      show ?thesis unfolding X by (rule conflict_round [OF ok op p False _ w refl refl nf u_def l]) (use d in simp)
    qed
  next
    case c: True
    have t: "search_ok As F t" using ps(3) c by simp
    have ans: "answered As F Unknown t" using t nf nv by (simp add: answered_def search_ok_def)
    show ?thesis
    proof (cases "outOfBudget t")
      case True
      then have X: "searchStep B As k s = Inl (Unknown, t)" using p c by (simp add: searchStep_def)
      show ?thesis using ans True question_call [OF pq(1)] nv(3) by (simp add: X round_ok_def)
    next
      case ob: False
      show ?thesis
      proof (cases "B \<noteq> 0 \<and> k \<ge> B")
        case True
        then have X: "searchStep B As k s = Inl (Unknown, cancelUntil 0 t)" using p c ob by (simp add: searchStep_def)
        have st: "stack_inv As F t" using t by (simp add: search_ok_def)
        have "search_ok As F (cancelUntil 0 t)"
          using t cancelUntil_stack [OF st, of 0] by (cases "0 < decisionLevel t") (simp_all add: cancelUntil_def)
        moreover have "TrailLim (cancelUntil 0 t) = []"
          using cancelUntil_fields(2) [of 0 t] by (cases "0 < decisionLevel t") (simp_all add: cancelUntil_def decisionLevel_def)
        ultimately show ?thesis
          using True nf nv question_call [OF question_frame_trans [OF pq(1) cancel_question]] by (simp add: X round_ok_def answered_def search_ok_def)
      next
        case False
        have as': "assumptions_ok As t" using as nv by (simp add: assumptions_ok_def)
        have q: "QueueHead t = length (Trail t)" using ps(5) c ob by simp
        have nft: "\<not> Falsified t" and n1: "?N = numVars t" and n2: "?M = numVars t + length As" using nf nv by simp_all
        have X: "searchStep B As k s = (case assumeNext As (reduceIfFull t) of
            (Inl A, s) \<Rightarrow>
              (case analyzeFinal A s of (Out, s) \<Rightarrow> Inl (Unsat, s\<lparr>FailedAssumptions := Out\<rparr>))
          | (Inr Next, s) \<Rightarrow>
              if isValid Next
              then Inr (k, enqueue Next kNoClause (newDecisionLevel s))
              else
                case pickBranchLit s of (Next, s) \<Rightarrow>
                  if \<not> isValid Next then Inl (Sat, captureModel s)
                  else
                    let s = s\<lparr>Stats := (Stats s)\<lparr>Decisions := Decisions (Stats s) + 1\<rparr>\<rparr>
                    in Inr (k, enqueue Next kNoClause (newDecisionLevel s)))"
          unfolding searchStep_def p using c ob False by (auto simp only: prod.case refl if_False not_True_eq_False)
        have "case searchStep B As k s of
            Inl (R, s') \<Rightarrow> R \<noteq> Unknown \<and> answered As F R s' \<and> same_call t s'
          | Inr (c, s') \<Rightarrow> search_ok As F s' \<and> opened s' \<and> question_frame t s' \<and> weight ?N ?M s < weight ?N ?M s'"
          unfolding X by (rule quiet_round [OF t q as' nft n1 n2 w])
        then show ?thesis
          using same_call_trans [OF question_call [OF pq(1)]] question_frame_trans [OF pq(1)]
          by (auto simp: round_ok_def going_on_def split: sum.splits)
      qed
    qed
  qed
qed

section \<open>The search ends\<close>

text \<open>
  The weight of the trail is bounded and grows with every round that gives no answer, so a search
  always ends with an answer, whatever its budget of conflicts is.
\<close>

lemma searchLoop_ok:
  assumes "search_ok As F s" "opened s" "assumptions_ok As s" "\<not> Falsified s" "FailedAssumptions s = []"
  shows "\<exists>R s'. searchLoop B As k s = Some (R, s') \<and> answered As F R s' \<and> same_call s s' \<and>
    (R = Unknown \<longrightarrow> FailedAssumptions s' = [] \<and> (outOfBudget s' \<or> OutOfSpace s' \<or> B \<noteq> 0 \<and> TrailLim s' = []))"
  using assms
proof (induction "numVars s * (numVars s + 1) ^ (numVars s + length As) - weight (numVars s) (numVars s + length As) s"
    arbitrary: s k rule: less_induct)
  case less
  let ?N = "numVars s" and ?M = "numVars s + length As"
  note st = searchStep_ok [OF less.prems, of B k]
  show ?case
  proof (cases "searchStep B As k s")
    case (Inl X)
    obtain R s' where X: "X = (R, s')" by fastforce
    have "searchLoop B As k s = Some (R, s')" by (subst searchLoop.simps) (simp add: Inl X)
    moreover have "answered As F R s' \<and> same_call s s' \<and> (R = Unknown \<longrightarrow> FailedAssumptions s' = [] \<and>
        (outOfBudget s' \<or> OutOfSpace s' \<or> B \<noteq> 0 \<and> TrailLim s' = []))"
      using st less.prems(5) by (simp add: round_ok_def Inl X)
    ultimately show ?thesis by blast
  next
    case (Inr X)
    obtain c t where X: "X = (c, t)" by fastforce
    have e: "searchLoop B As k s = searchLoop B As c t" by (subst searchLoop.simps) (simp add: Inr X)
    have g: "search_ok As F t" "opened t" "question_frame s t" "weight ?N ?M s < weight ?N ?M t"
      using st by (simp_all add: round_ok_def Inr X going_on_def)
    have n: "numVars t = numVars s" "\<not> Falsified t" "FailedAssumptions t = []" using g(3) less.prems(4,5) by (simp_all add: question_frame_def)
    have "length (Trail t) \<le> ?N" using level_count(2) [of As F t] g(1) n(1) by (simp add: search_ok_def)
    then have "weight ?N ?M t \<le> ?N * (?N + 1) ^ ?M" by (rule weight_bound)
    then have dec: "numVars t * (numVars t + 1) ^ (numVars t + length As) - weight (numVars t) (numVars t + length As) t
        < ?N * (?N + 1) ^ ?M - weight ?N ?M s"
      using g(4) n(1) by simp
    have "assumptions_ok As t" using less.prems(3) n(1) by (simp add: assumptions_ok_def)
    from less.hyps [OF dec g(1,2) this n(2,3), of c] same_call_trans [OF question_call [OF g(3)]]
    show ?thesis unfolding e by blast
  qed
qed

lemma search_total:
  assumes "search_ok As F s" "opened s" "assumptions_ok As s" "\<not> Falsified s" "FailedAssumptions s = []"
  obtains R s' where "search B As s = Some (R, s')" "answered As F R s'" "same_call s s'"
    "R = Unknown \<Longrightarrow> FailedAssumptions s' = [] \<and> (outOfBudget s' \<or> OutOfSpace s' \<or> B \<noteq> 0 \<and> TrailLim s' = [])"
  using searchLoop_ok [OF assms, of B 0] unfolding search_def by blast

section \<open>Restarts\<close>

text \<open>A search can start: the invariant holds and nothing has been answered.\<close>

definition startable :: "SatLit list \<Rightarrow> assignment set \<Rightarrow> SatEngine \<Rightarrow> bool" where
  "startable As F s \<longleftrightarrow> search_ok As F s \<and> opened s \<and> assumptions_ok As s \<and> \<not> Falsified s \<and> FailedAssumptions s = []"

lemma search_answers:
  assumes "startable As F s"
  shows "\<exists>R s'. search B As s = Some (R, s') \<and> answered As F R s' \<and> same_call s s' \<and>
    (R = Unknown \<longrightarrow> FailedAssumptions s' = [] \<and> (outOfBudget s' \<or> OutOfSpace s' \<or> B \<noteq> 0 \<and> TrailLim s' = []))"
  using assms searchLoop_ok [of As F s B 0] by (simp add: startable_def search_def)

definition restarted :: "SatEngine \<Rightarrow> SatEngine" where
  "restarted s = s\<lparr>Stats := (Stats s)\<lparr>Restarts := Restarts (Stats s) + 1\<rparr>,
     MaxLearnt := toDouble (MaxLearnt s * max (LearnedGrowth (Opts s)) 1)\<rparr>"

lemma restartLoop_step:
  "restartLoop As k s =
     (if outOfBudget s \<or> OutOfSpace s then Some (Unknown, s)
      else
        Option.bind
          (search (if RestartInterval (Opts s) = 0 then 0 else RestartInterval (Opts s) * restartTerm k) As s)
          (\<lambda>Found. if fst Found = Unknown then restartLoop As (k + 1) (restarted (snd Found)) else Some Found))"
  unfolding restarted_def by (rule restartLoop.simps)

lemma restarted_fields [simp]:
  "outOfBudget (restarted s) = outOfBudget s" "OutOfSpace (restarted s) = OutOfSpace s" "Opts (restarted s) = Opts s"
  "TrailLim (restarted s) = TrailLim s" "Falsified (restarted s) = Falsified s" "numVars (restarted s) = numVars s"
  "FailedAssumptions (restarted s) = FailedAssumptions s" "Decidable (restarted s) = Decidable s"
  by (simp_all add: restarted_def outOfBudget_def outOfPropagationBudget_def outOfWatchVisitBudget_def numVars_def)

lemma restarted_answered: "answered As F Unknown s \<Longrightarrow> answered As F Unknown (restarted s)"
  using search_ok_cong [of "restarted s" s As F] by (simp add: answered_def search_ok_def restarted_def)

lemma restarted_startable:
  assumes "answered As F Unknown s" "assumptions_ok As s" "FailedAssumptions s = []" "TrailLim s = []"
  shows "startable As F (restarted s)"
proof -
  have "search_ok As F s" "\<not> Falsified s" using assms(1) by (simp_all add: answered_def search_ok_def)
  moreover from this have "search_ok As F (restarted s)" using search_ok_cong(1) [of "restarted s" s As F] by (simp add: restarted_def)
  ultimately show ?thesis using assms by (simp add: startable_def assumptions_ok_def opened_def)
qed

text \<open>An answer of the restart loop is an answer of the last search, or a budget has run out.\<close>

definition resumable :: "SatLit list \<Rightarrow> assignment set \<Rightarrow> SatEngine \<Rightarrow> bool" where
  "resumable As F s \<longleftrightarrow> startable As F s \<or> answered As F Unknown s \<and> (outOfBudget s \<or> OutOfSpace s)"

definition returned :: "SatLit list \<Rightarrow> assignment set \<Rightarrow> SatEngine \<Rightarrow> SatResult \<times> SatEngine \<Rightarrow> bool" where
  "returned As F s X \<longleftrightarrow> answered As F (fst X) (snd X) \<and> same_call s (snd X) \<and>
     (fst X = Unknown \<longrightarrow> outOfBudget (snd X) \<or> OutOfSpace (snd X))"

lemma startable_answered: "startable As F s \<Longrightarrow> answered As F Unknown s"
  by (simp add: startable_def answered_def search_ok_def)

lemma same_call_refl: "same_call s s"
  by (simp add: same_call_def)

lemma restart_case:
  assumes s: "startable As F s" and nb: "\<not> (outOfBudget s \<or> OutOfSpace s)"
  obtains R t where "search B As s = Some (R, t)" "answered As F R t" "same_call s t"
    "R = Unknown \<Longrightarrow> resumable As F (restarted t)" "R = Unknown \<Longrightarrow> B = 0 \<Longrightarrow> outOfBudget t \<or> OutOfSpace t"
proof -
  obtain R t where t: "search B As s = Some (R, t)" "answered As F R t" "same_call s t"
    "R = Unknown \<longrightarrow> FailedAssumptions t = [] \<and> (outOfBudget t \<or> OutOfSpace t \<or> B \<noteq> 0 \<and> TrailLim t = [])"
    using search_answers [OF s, of B] by blast
  have as: "assumptions_ok As t" using s t(3) by (simp add: startable_def assumptions_ok_def same_call_def)
  have "resumable As F (restarted t)" if u: "R = Unknown"
  proof -
    have a: "answered As F Unknown t" using t(2) u by simp
    show ?thesis using t(4) u restarted_answered [OF a] restarted_startable [OF a as] by (auto simp: resumable_def)
  qed
  then show ?thesis using t that by blast
qed

lemma restartLoop_ok:
  "restartLoop As k s = Some X \<Longrightarrow> resumable As F s \<longrightarrow> returned As F s X"
proof (rule restartLoop.raw_induct [of "\<lambda>As k s X. resumable As F s \<longrightarrow> returned As F s X"])
  fix loop As k s X
  assume IH: "\<And>As k s X. loop As k s = Some X \<Longrightarrow> resumable As F s \<longrightarrow> returned As F s X"
    and b: "(if outOfBudget s \<or> OutOfSpace s then Some (Unknown, s)
      else
        Option.bind
          (search (if RestartInterval (Opts s) = 0 then 0 else RestartInterval (Opts s) * restartTerm k) As s)
          (\<lambda>Found.
             if fst Found = Unknown
             then loop As (k + 1)
                    ((snd Found)\<lparr>Stats := (Stats (snd Found))\<lparr>Restarts := Restarts (Stats (snd Found)) + 1\<rparr>,
                       MaxLearnt := toDouble (MaxLearnt (snd Found) * max (LearnedGrowth (Opts (snd Found))) 1)\<rparr>)
             else Some Found)) = Some X"
  note b = b [folded restarted_def]
  show "resumable As F s \<longrightarrow> returned As F s X"
  proof
    assume re: "resumable As F s"
    show "returned As F s X"
    proof (cases "outOfBudget s \<or> OutOfSpace s")
      case True
      then have X: "X = (Unknown, s)" using b by simp
      have "answered As F Unknown s" using re startable_answered by (auto simp: resumable_def)
      with True show ?thesis by (simp add: X returned_def same_call_refl)
    next
      case False
      then have st: "startable As F s" using re by (auto simp: resumable_def)
      define B where "B = (if RestartInterval (Opts s) = 0 then 0 else RestartInterval (Opts s) * restartTerm k)"
      obtain R t where t: "search B As s = Some (R, t)" "answered As F R t" "same_call s t"
        "R = Unknown \<Longrightarrow> resumable As F (restarted t)" using restart_case [OF st False, of B] by metis
      have e: "(if R = Unknown then loop As (k + 1) (restarted t) else Some (R, t)) = Some X"
        using b False t(1) unfolding B_def [symmetric] by (cases "R = Unknown") simp_all
      show ?thesis
      proof (cases "R = Unknown")
        case R: False
        then have "X = (R, t)" using e by simp
        with R t show ?thesis by (simp add: returned_def)
      next
        case R: True
        then have "loop As (k + 1) (restarted t) = Some X" using e by simp
        from IH [OF this] t(4) [OF R] have "returned As F (restarted t) X" by blast
        moreover have "same_call s (restarted t)" using t(3) by (simp add: same_call_def restarted_def numVars_def)
        ultimately show ?thesis using same_call_trans [of s "restarted t"] by (simp add: returned_def)
      qed
    qed
  qed
qed

text \<open>Without restarts the loop runs at most one search.\<close>

lemma restartLoop_returns:
  assumes st: "startable As F s" and r: "RestartInterval (Opts s) = 0"
  shows "\<exists>X. restartLoop As k s = Some X"
proof (cases "outOfBudget s \<or> OutOfSpace s")
  case True
  then show ?thesis by (subst restartLoop_step) simp
next
  case False
  obtain R t where t: "search 0 As s = Some (R, t)" "R = Unknown \<Longrightarrow> outOfBudget t \<or> OutOfSpace t"
    using restart_case [OF st False, of 0] by metis
  have "restartLoop As k s = (if R = Unknown then restartLoop As (k + 1) (restarted t) else Some (R, t))"
    using False r t(1) by (subst restartLoop_step) simp
  moreover have "R = Unknown \<Longrightarrow> restartLoop As (k + 1) (restarted t) = Some (Unknown, restarted t)"
    using t(2) by (subst restartLoop_step) simp
  ultimately show ?thesis by (cases "R = Unknown") simp_all
qed

end
