(* ===== verification/Sat_Solve.thy ===== *)
theory Sat_Solve
  imports Sat_Rounds
begin

text \<open>
  A call of the solver.  \<open>solver_ok\<close> is its invariant between calls; adding variables and clauses and
  answering questions keep it, and the answers mean what they say.  The solver is interpreted as the
  clause store of \<open>clause_backend\<close>.
\<close>

section \<open>A call of the solver\<close>

text \<open>Between questions: the tables a search needs are in order as long as the formula is open.\<close>

definition solver_ok :: "SatEngine \<Rightarrow> bool" where
  "solver_ok s \<longleftrightarrow> engine_ok s \<and> (\<not> Falsified s \<longrightarrow> stack_base (root_models s) s)"

definition modelOf :: "SatEngine \<Rightarrow> assignment" where
  "modelOf s V \<longleftrightarrow> modelVarValue s V = VTrue"

lemma modelOf_lit:
  assumes "Model s = Val" "trail_ok Val T" "unat (var L) < length Val"
  shows "worth Val L = 1 \<Longrightarrow> lit_true (modelOf s) L" "worth Val L = - 1 \<Longrightarrow> \<not> lit_true (modelOf s) L"
proof -
  have "Val ! unat (var L) \<in> {- 1, 0, 1}" using assms(2,3) by (simp add: trail_ok_def)
  then show "worth Val L = 1 \<Longrightarrow> lit_true (modelOf s) L" "worth Val L = - 1 \<Longrightarrow> \<not> lit_true (modelOf s) L"
    using assms(1,3) by (auto simp: lit_true_def modelOf_def modelVarValue_def worth_def Let_def split: if_splits)
qed

text \<open>The model read after the answer \<open>Sat\<close>.\<close>

lemma sat_model:
  assumes a: "answered As F Sat s" and d: "\<forall>v < numVars s. v \<noteq> k \<longrightarrow> Decidable s ! v" and as: "assumptions_ok As s"
  shows "modelOf s \<in> F" "A \<in> set As \<Longrightarrow> lit_true (modelOf s) A"
proof -
  have st: "stack_inv As F s" and pr: "propagation_ok s" and q: "QueueHead s = length (Trail s)" and m: "Model s = Value s"
    and l: "length As \<le> decisionLevel s" and all: "\<And>v. v < numVars s \<Longrightarrow> v \<noteq> k \<Longrightarrow> Value s ! v \<noteq> 0"
    using a d by (auto simp: answered_def)
  note g = stack_invD [OF st]
  have T: "lit_true (modelOf s) L" if "L \<in> set (Trail s)" for L
    using modelOf_lit(1) [OF m g(9)] g(9) that by (simp add: trail_ok_def)
  have V: "lit_true (modelOf s) L" if "unat (var L) < numVars s" "litValue s L = 1" for L
    using modelOf_lit(1) [OF m g(9), of L] that by (simp add: litValue_worth numVars_def)
  have W: "lit_true (modelOf s) L" if "unat (var L) < numVars s" "litValue s L \<noteq> - 1" "unat (var L) \<noteq> k" for L
  proof (rule V [OF that(1)])
    have "worth (Value s) L \<in> {- 1, 0, 1}" using trail_ok_range [OF g(9), of L] that(1) by (simp add: numVars_def)
    moreover have "worth (Value s) L \<noteq> 0" using all [OF that(1,3)] by (simp add: worth_def)
    ultimately show "litValue s L = 1" using that(2) by (auto simp: litValue_worth)
  qed
  have "clause_true (modelOf s) (clits (Arena s) r)" if r: "r \<in> refs s" for r
  proof -
    let ?c = "clits (Arena s) r"
    have c: "2 \<le> length ?c" "distinct ?c" "\<And>L. L \<in> set ?c \<Longrightarrow> unat (var L) < numVars s"
      using g(10) r by (auto simp: arena_ok_def)
    have mem: "?c ! 0 \<in> set ?c" "?c ! 1 \<in> set ?c" using c(1) by (auto intro!: nth_mem)
    have ne: "?c ! 0 \<noteq> ?c ! 1" using nth_eq_iff_index_eq [OF c(2), of 0 1] c(1) by force
    from settled_quiet [OF pr q r] consider L where "L \<in> set ?c" "litValue s L = 1"
      | "litValue s (?c ! 0) \<noteq> - 1" "litValue s (?c ! 1) \<noteq> - 1" by (auto simp: quiet_def)
    then show ?thesis
    proof cases
      case (1 L)
      then show ?thesis using V [of L] c(3) by (auto simp: clause_true_def)
    next
      case 2
      show ?thesis
      proof (cases "unat (var (?c ! 0)) = k \<and> unat (var (?c ! 1)) = k")
        case True
        then have "unat (var (?c ! 0)) = unat (var (?c ! 1))" by simp
        then have "?c ! 0 = negl (?c ! 1)" using ne same_var_cases [of "?c ! 0" "?c ! 1"] by (simp only: unsigned_word_eqI) blast
        then have "lit_true (modelOf s) (?c ! 0) \<or> lit_true (modelOf s) (?c ! 1)" by simp
        then show ?thesis using mem by (auto simp: clause_true_def)
      next
        case False
        then show ?thesis using W [OF c(3)] 2 mem by (auto simp: clause_true_def)
      qed
    qed
  qed
  moreover have "set (rootTrail s) \<subseteq> set (Trail s)" by (auto simp: rootTrail_def dest: in_set_takeD)
  ultimately have "modelOf s \<in> formula s" using T by (auto simp: formula_def models_of_def)
  then show "modelOf s \<in> F" by (simp add: g(15))
  assume "A \<in> set As"
  then obtain e where e: "e < length As" "A = As ! e" by (metis in_set_conv_nth)
  then obtain i where "i < length (Trail s)" "Trail s ! i = A" using assumedD(2) [OF g(7), of e] l by auto
  then show "lit_true (modelOf s) A" using T nth_mem by metis
qed

lemma root_stack:
  assumes "stack_base F s" "TrailLim s = []"
  shows "stack_inv As F s" "opened s" "models s = F"
  using assms
  by (simp_all add: stack_inv_def assumed_def occupied_def opened_def decisionLevel_def levelAt_def stack_base_def meaning_def
      formula_def rootTrail_def models_def)

lemma startSolve_startable:
  assumes ok: "solver_ok s" and nf: "\<not> Falsified s" and as: "assumptions_ok As s"
  defines "u \<equiv> s\<lparr>SearchAttempted := True, Model := [], FailedAssumptions := []\<rparr>"
  shows "startable As (root_models s) (startSolve u)" "numVars (startSolve u) = numVars s" "Decidable (startSolve u) = Decidable s"
    "Opts (startSolve u) = Opts s"
proof -
  have e: "engine_ok s" and sb: "stack_base (root_models s) s" using ok nf by (simp_all add: solver_ok_def)
  note d = engine_okD [OF e nf]
  have TL: "TrailLim s = []" using d(3) by (simp add: engine_shape_def)
  have cu: "cancelUntil 0 u = u" using TL by (intro cancelUntil_root) (simp add: u_def)
  let ?w = "startSolve u"
  have w: "?w = u\<lparr>ConflictBudgetAt := budgetEndpoint (Conflicts (Stats u)) (MaxConflicts (Opts u)),
        PropagationBudgetAt := budgetEndpoint (Propagations (Stats u)) (MaxPropagations (Opts u)),
        WatchVisitBudgetAt := budgetEndpoint (WatchVisits (Stats u)) (MaxWatchVisits (Opts u)),
        MaxLearnt := max (toDouble (toDouble (of_nat (length (Clauses u))) * max (LearnedFraction (Opts u)) 0))
          kSatSolverSatEngineSolveMaxLearntMaxArgument2\<rparr>"
    unfolding startSolve_def cu Let_def ..
  note r = root_stack [OF sb TL]
  have "search_ok As (root_models s) s" using r(1) d(1) by (simp add: search_ok_def)
  then have so: "search_ok As (root_models s) ?w"
    using search_ok_cong(1) [of ?w s As "root_models s"] unfolding w by (simp add: u_def)
  show nv: "numVars ?w = numVars s" "Decidable ?w = Decidable s" "Opts ?w = Opts s"
    unfolding w by (simp_all add: u_def numVars_def)
  have "TrailLim ?w = []" "Falsified ?w = Falsified s" "FailedAssumptions ?w = []"
    using TL unfolding w by (simp_all add: u_def)
  then show "startable As (root_models s) ?w" using so as nf nv by (simp add: startable_def assumptions_ok_def opened_def)
qed

text \<open>Back at the root, the solver is as it was: the formula means the same.\<close>

lemma endSolve_fields [simp]:
  "Model (endSolve s) = Model s" "FailedAssumptions (endSolve s) = FailedAssumptions s" "numVars (endSolve s) = numVars s"
  "Decidable (endSolve s) = Decidable s" "Falsified (endSolve s) = Falsified s" "Opts (endSolve s) = Opts s"
  using numVars_cancel [of 0 s] by (simp_all add: endSolve_def numVars_def)

lemma engine_shape_root:
  assumes "stack_base F s" "TrailLim s = []" "PropagationBudgetAt s = 0" "WatchVisitBudgetAt s = 0"
  shows "engine_shape s"
  using assms by (simp add: engine_shape_def stack_base_def tables_ok_def deep_ok_def levels_ok_def reasons_ok_def)

lemma endSolve_ok:
  assumes a: "answered As F R s" and R: "R \<noteq> Unknown"
  shows "solver_ok (endSolve s)" "root_models (endSolve s) = F"
proof -
  have st: "stack_inv As F s" using a by (simp add: answered_def)
  let ?c = "cancelUntil 0 s" and ?e = "endSolve s"
  have c: "stack_inv As F ?c" "TrailLim ?c = []" if "Falsified s \<Longrightarrow> decisionLevel s = 0"
  proof -
    show "stack_inv As F ?c" using st cancelUntil_stack [OF st, of 0]
      by (cases "0 < decisionLevel s") (simp_all add: search_ok_def cancelUntil_def)
    show "TrailLim ?c = []" using cancelUntil_fields(2) [of 0 s] by (cases "0 < decisionLevel s") (simp_all add: cancelUntil_def decisionLevel_def)
  qed
  have fl: "Falsified s \<Longrightarrow> decisionLevel s = 0 \<and> F = {}" using a R by (cases R) (auto simp: answered_def)
  note c = c [OF conjunct1 [OF fl]]
  have se: "stack_inv As F ?e" using c(1) search_ok_cong(2) [of ?e ?c As F] by (simp add: endSolve_def)
  then have sb: "stack_base F ?e" by (simp add: stack_inv_def)
  have TL: "TrailLim ?e = []" using c(2) by (simp add: endSolve_def)
  have sh: "engine_shape ?e" by (rule engine_shape_root [OF sb TL]) (simp_all add: endSolve_def)
  have op: "propagation_ok ?e \<and> QueueHead ?e = length (Trail ?e)" if nf: "\<not> Falsified s"
  proof -
    have p: "propagation_ok s" "QueueHead s = length (Trail s)" using a R nf by (cases R; simp add: answered_def)+
    have "propagation_ok ?c \<and> QueueHead ?c = length (Trail ?c)"
      using p cancelUntil_stack [OF st, of 0] cancelUntil_fields(1,3) [of 0 s]
      by (cases "0 < decisionLevel s") (simp_all add: search_ok_def cancelUntil_def)
    moreover have "propagation_ok ?e = propagation_ok ?c"
      by (simp add: endSolve_def propagation_ok_def watched_def base_ok_def refs_def numVars_def processed_def)
    moreover have "QueueHead ?e = QueueHead ?c" "Trail ?e = Trail ?c" by (simp_all add: endSolve_def)
    ultimately show ?thesis by simp
  qed
  show rm: "root_models ?e = F" using fl root_stack(3) [OF sb TL] by (auto simp: root_models_def)
  show "solver_ok ?e" using sh op sb rm by (simp add: solver_ok_def engine_ok_def)
qed

lemma foreign_assumption:
  "(\<exists>A \<in> set As. \<not> isValid A \<or> unat (var A) \<ge> numVars s) \<longleftrightarrow> \<not> assumptions_ok As s"
  unfolding assumptions_ok_def by (meson not_le)

text \<open>What the answer of a call means for the formula the solver holds.\<close>

definition verdict_ok :: "SatLit list \<Rightarrow> SatEngine \<Rightarrow> SatResult \<Rightarrow> SatEngine \<Rightarrow> bool" where
  "verdict_ok As s R s' \<longleftrightarrow>
     (case R of
        Sat \<Rightarrow> (\<forall>v < numVars s. 0 < v \<longrightarrow> Decidable s ! v) \<longrightarrow> modelOf s' \<in> root_models s \<and> (\<forall>A \<in> set As. lit_true (modelOf s') A)
      | Unsat \<Rightarrow> set (FailedAssumptions s') \<subseteq> set As \<and>
          (\<forall>m \<in> root_models s. \<exists>A \<in> set (FailedAssumptions s'). \<not> lit_true m A)
      | Unknown \<Rightarrow> assumptions_ok As s
      | Invalid \<Rightarrow> \<not> assumptions_ok As s)"

lemma solver_ok_cong:
  "solver_ok (s\<lparr>SearchAttempted := b, Model := [], FailedAssumptions := []\<rparr>) \<longleftrightarrow> solver_ok s"
  "root_models (s\<lparr>SearchAttempted := b, Model := [], FailedAssumptions := []\<rparr>) = root_models s"
proof -
  let ?u = "s\<lparr>SearchAttempted := b, Model := [], FailedAssumptions := []\<rparr>"
  show rm: "root_models ?u = root_models s" by (simp add: root_models_def models_def refs_def)
  have "engine_shape ?u = engine_shape s" by (simp add: engine_shape_def numVars_def)
  moreover have "propagation_ok ?u = propagation_ok s"
    by (simp add: propagation_ok_def watched_def base_ok_def refs_def numVars_def processed_def)
  moreover have "stack_base F ?u = stack_base F s" if "TrailLim s = []" for F
    using search_ok_cong(2) [of ?u s "[]" F] root_stack(1) [of F s "[]"] root_stack(1) [of F ?u "[]"] that by (auto simp: stack_inv_def)
  ultimately show "solver_ok ?u \<longleftrightarrow> solver_ok s"
    by (auto simp: solver_ok_def engine_ok_def rm engine_shape_def)
qed

definition asked :: "SatEngine \<Rightarrow> SatEngine" where
  "asked s = s\<lparr>SearchAttempted := True, Model := [], FailedAssumptions := []\<rparr>"

lemma solve_cases:
  "solve As s = (if \<not> assumptions_ok As s then Some (Invalid, asked s)
      else if Falsified s then Some (Unsat, asked s)
      else if OutOfSpace s then Some (Unknown, asked s)
      else map_option (\<lambda>(R, s). (R, endSolve s)) (restartLoop As 0 (startSolve (asked s))))"
proof -
  have "numVars (asked s) = numVars s" by (simp add: asked_def numVars_def)
  then show ?thesis
    unfolding solve_def Let_def asked_def [symmetric] using foreign_assumption [of As s] by (simp add: asked_def)
qed

lemma solve_ok:
  assumes ok: "solver_ok s" and s: "solve As s = Some (R, s')"
  shows "verdict_ok As s R s'" "R \<noteq> Unknown \<Longrightarrow> solver_ok s' \<and> root_models s' = root_models s"
proof -
  let ?u = "asked s"
  note e = solve_cases [of As s]
  consider (foreign) "\<not> assumptions_ok As s" | (closed) "assumptions_ok As s" "Falsified s"
    | (full) "assumptions_ok As s" "\<not> Falsified s" "OutOfSpace s"
    | (run) "assumptions_ok As s" "\<not> Falsified s" "\<not> OutOfSpace s" by blast
  then have "verdict_ok As s R s' \<and> (R \<noteq> Unknown \<longrightarrow> solver_ok s' \<and> root_models s' = root_models s)"
  proof cases
    case foreign
    then have "R = Invalid" "s' = ?u" using s e by simp_all
    with foreign show ?thesis using ok by (simp add: verdict_ok_def solver_ok_cong asked_def)
  next
    case closed
    then have "R = Unsat" "s' = ?u" using s e by simp_all
    with closed show ?thesis using ok by (simp add: verdict_ok_def solver_ok_cong asked_def root_models_def [of s])
  next
    case full
    then have "R = Unknown" using s e by simp
    with full show ?thesis by (simp add: verdict_ok_def)
  next
    case run
    obtain t where t: "restartLoop As 0 (startSolve ?u) = Some (R, t)" "s' = endSolve t" using s e run by auto
    note ss = startSolve_startable [OF ok run(2,1), folded asked_def]
    have re: "returned As (root_models s) (startSolve ?u) (R, t)"
      using restartLoop_ok [OF t(1)] ss(1) by (simp add: resumable_def)
    then have an: "answered As (root_models s) R t" and fr: "numVars t = numVars s" "Decidable t = Decidable s"
      using ss(2,3) by (simp_all add: returned_def same_call_def)
    have mo: "modelOf s' = modelOf t" by (rule ext) (simp add: modelOf_def modelVarValue_def t(2))
    have "verdict_ok As s R s'"
    proof (cases R)
      case Sat
      have "assumptions_ok As t" using run(1) fr by (simp add: assumptions_ok_def)
      then show ?thesis using sat_model [OF an [unfolded Sat], of 0] fr by (auto simp: verdict_ok_def Sat mo)
    next
      case Unsat
      then show ?thesis using an by (simp add: verdict_ok_def answered_def t(2))
    next
      case Unknown
      then show ?thesis using run(1) by (simp add: verdict_ok_def)
    next
      case Invalid
      then show ?thesis using an by (simp add: answered_def)
    qed
    then show ?thesis using endSolve_ok [OF an] by (simp add: t(2))
  qed
  then show "verdict_ok As s R s'" "R \<noteq> Unknown \<Longrightarrow> solver_ok s' \<and> root_models s' = root_models s" by blast+
qed

lemma solve_total:
  assumes ok: "solver_ok s" and r: "RestartInterval (Opts s) = 0"
  shows "\<exists>R s'. solve As s = Some (R, s')"
proof (cases "assumptions_ok As s \<and> \<not> Falsified s \<and> \<not> OutOfSpace s")
  case False
  then show ?thesis unfolding solve_cases by auto
next
  case True
  note ss = startSolve_startable [OF ok, of As, folded asked_def]
  obtain X where "restartLoop As 0 (startSolve (asked s)) = Some X"
    using restartLoop_returns [OF ss(1), of 0] ss(4) True r by auto
  then show ?thesis using True unfolding solve_cases by (cases X) auto
qed

section \<open>Building keeps the solver ready\<close>

lemma solver_okD:
  assumes "solver_ok s" "\<not> Falsified s"
  shows "engine_ok s" "stack_base (models s) s" "TrailLim s = []" "propagation_ok s" "search_ok [] (models s) s" "opened s"
    "litValue s L = 0 \<or> litValue s L = 1 \<or> litValue s L = - 1 \<or> numVars s \<le> unat (var L)"
proof -
  show e: "engine_ok s" using assms by (simp add: solver_ok_def)
  show sb: "stack_base (models s) s" using assms by (simp add: solver_ok_def root_models_def)
  show TL: "TrailLim s = []" and pr: "propagation_ok s" using e assms(2) by (simp_all add: engine_ok_def engine_shape_def)
  show "search_ok [] (models s) s" "opened s" using root_stack [OF sb TL] pr by (simp_all add: search_ok_def)
  show "litValue s L = 0 \<or> litValue s L = 1 \<or> litValue s L = - 1 \<or> numVars s \<le> unat (var L)"
    using trail_ok_range [OF propagation_okD(2) [OF pr], of L] by (auto simp: litValue_worth numVars_def not_le)
qed

lemma solver_okI:
  assumes "engine_ok s" "\<not> Falsified s \<Longrightarrow> stack_base (models s) s"
  shows "solver_ok s"
  using assms by (simp add: solver_ok_def root_models_def)

lemma newEngine_solver: "solver_ok (newEngine Options)"
proof (rule solver_okI [OF newEngine_ok(1)])
  have "queue_ok emptyQueue" by (simp add: queue_ok_def slots_ok_def emptyQueue_def)
  moreover have "propagation_ok (newEngine Options)"
    using engine_okD(1) [OF newEngine_ok(1)] by (simp add: newEngine_def)
  ultimately show "stack_base (models (newEngine Options)) (newEngine Options)"
    by (simp add: stack_base_def propagation_ok_def deep_ok_def levels_ok_def reasons_ok_def layers_def tables_ok_def queued_def meaning_def
        formula_def rootTrail_def models_def refs_def numVars_def newEngine_def emptyQueue_def kMaxArenaWords_def kNoClause_def)
qed

lemma newVar_stack:
  assumes ok: "solver_ok s" and nf: "\<not> Falsified s" and nv: "newVar d s = (v, s')" and room: "numVars s \<le> unat kMaxSatVar"
    and e': "engine_ok s'"
  shows "stack_base (models s') s'"
proof -
  note g0 = solver_okD [OF ok nf]
  note g = stack_baseD [OF g0(2)]
  let ?t = "s\<lparr>Value := Value s @ [0], Level := Level s @ [0], Reason := Reason s @ [kNoClause],
                  Phase := Phase s @ [DefaultPhase (Opts s)], Decidable := Decidable s @ [d], Seen := Seen s @ [False],
                  Activity := Activity s @ [0], Watches := Watches s @ [[], []]\<rparr>"
  let ?q = "grow (Suc (numVars s)) (Order s)"
  have e: "v = word_of_nat (numVars s)" "s' = ?t\<lparr>Order := if d then insertVar (Activity s @ [0]) v ?q else ?q\<rparr>"
    using nv room by (cases d; simp add: newVar_def numVars_def Let_def)+
  have v: "v = word_of_nat (numVars s)" and
    fields: "Value s' = Value s @ [0]" "Level s' = Level s @ [0]" "Reason s' = Reason s @ [kNoClause]"
      "Arena s' = Arena s" "ArenaWords s' = ArenaWords s" "refs s' = refs s" "Trail s' = Trail s" "QueueHead s' = QueueHead s"
      "TrailLim s' = TrailLim s" "Clauses s' = Clauses s" "Learnt s' = Learnt s" "Decidable s' = Decidable s @ [d]"
      "Seen s' = Seen s @ [False]" "length (Phase s') = Suc (length (Phase s))" "length (Activity s') = Suc (length (Activity s))"
      "Falsified s' = Falsified s"
    and ord: "Order s' = (if d then insertVar (Activity s @ [0]) v ?q else ?q)"
    by (simp_all add: e refs_def)
  have n: "numVars s' = Suc (numVars s)" by (simp add: numVars_def fields)
  have "numVars s < 2 ^ 32" using room by (simp add: unat_kMaxSatVar)
  then have uv: "unat v = numVars s" by (simp add: v unat_of_nat take_bit_nat_eq_self)
  have q: "queue_ok (Order s)" "length (Position (Order s)) = numVars s" using g(4) by (simp_all add: tables_ok_def)
  note gr = grow_queue [OF q(1), of "Suc (numVars s)"]
  have o: "queue_ok (Order s')" "length (Position (Order s')) = Suc (numVars s)" "members (Order s) \<subseteq> members (Order s')"
      "d \<Longrightarrow> v \<in> members (Order s')"
    using gr insertVar_ok [of "grow (Suc (numVars s)) (Order s)" "Activity s @ [0]" v] q(2) uv by (auto simp: ord)
  have "tables_ok s'" using g(4) o(1,2) room by (simp add: tables_ok_def fields n)
  moreover have "queued s'"
    unfolding queued_def
  proof (intro allI impI)
    fix V :: SatVar assume V: "unat V < numVars s'" "Decidable s' ! unat V" "Value s' ! unat V = 0"
    show "V \<in> members (Order s')"
    proof (cases "unat V < numVars s")
      case True
      have "length (Decidable s) = numVars s" using g(4) by (simp add: tables_ok_def)
      then have "V \<in> members (Order s)" using True V g(5) by (simp add: queued_def fields nth_append numVars_def)
      then show ?thesis using o(3) by blast
    next
      case False
      have "unat V = unat v" using False V(1) n uv by simp
      then have "V = v" by (simp only: word_unat_eq_iff)
      moreover have "d" using V(2) False g(4) V(1) n by (simp add: fields tables_ok_def nth_append)
      ultimately show ?thesis using o(4) by blast
    qed
  qed
  moreover have "watched s'" using e' nf fields(16) by (simp add: engine_ok_def propagation_ok_def)
  moreover have "levels_ok s'"
    using g(9) trail_var_range [OF g(7)] by (simp add: levels_ok_def fields n nth_append)
  moreover have "reasons_ok s'"
    using g(10) trail_var_range [OF g(7)] by (simp add: reasons_ok_def fields n nth_append Let_def)
  moreover have "layers s'" using g(3) by (simp add: layers_def fields)
  moreover have "meaning (models s') s'"
    using g(6) g0(3) by (simp add: meaning_def formula_def models_def rootTrail_def fields)
  ultimately show ?thesis by (simp add: stack_base_def deep_ok_def)
qed

lemma newVar_solver:
  assumes ok: "solver_ok s" and nv: "newVar d s = (v, s')"
  shows "solver_ok s'"
proof (cases "numVars s \<le> unat kMaxSatVar")
  case False
  then have "s' = s" using nv by (simp add: newVar_def)
  then show ?thesis using ok by simp
next
  case True
  have e: "engine_ok s'" by (rule newVar_ok(1) [OF _ nv]) (use ok in \<open>simp add: solver_ok_def\<close>)
  have "Falsified s' = Falsified s" using nv True by (auto simp: newVar_def Let_def split: if_splits)
  then show ?thesis using solver_okI [OF e] newVar_stack [OF ok _ nv True e] by simp
qed

text \<open>The unit clause: its literal joins the root and is propagated.\<close>

lemma unit_solver:
  assumes ok: "solver_ok s" and nf: "\<not> Falsified s" and L: "unat (var L) < numVars s" "litValue s L = 0"
    and p: "propagate (enqueue L kNoClause s) = (c, t)" and c: "c = kNoClause"
  shows "stack_base (models t) t"
proof -
  note g = solver_okD [OF ok nf]
  let ?e = "enqueue L kNoClause s" and ?F = "{m \<in> models s. lit_true m L}"
  have d0: "decisionLevel s = 0" using g(3) by (simp add: decisionLevel_def)
  have z: "worth (Value s) L = 0" using L(2) by (simp add: litValue_worth)
  have q: "propagation_ok ?e" "models ?e = ?F" using enqueue_propagation_ok [OF g(4) L(1), of kNoClause] L(2) by simp_all
  have rt: "rootTrail ?e = rootTrail s @ [L]" using g(3) by (simp add: rootTrail_def)
  have "meaning (models s) s" by (rule stack_baseD(6) [OF g(2)])
  then have "meaning ?F ?e" by (auto simp: meaning_def formula_def rt models_of_snoc)
  then have sb: "stack_base ?F ?e" by (intro enqueue_shape [OF g(2) L(1) z]) (use d0 in simp_all)
  have TL: "TrailLim ?e = []" using g(3) by simp
  note r = root_stack [OF sb TL]
  have "stack_inv [] ?F t" using propagate_stack(1) [OF _ r(2) p] r(1) q(1) by (simp add: search_ok_def)
  moreover have "models t = ?F" using propagate_ok [OF q(1) p] q(2) by simp
  ultimately show ?thesis by (simp add: stack_inv_def)
qed

text \<open>The stored clause: all its literals are free.\<close>

lemma stored_solver:
  fixes w :: nat
  assumes ok: "solver_ok s" and nf: "\<not> Falsified s" and C: "C = a # b # D" "distinct C" "\<forall>L \<in> set C. unat (var L) < numVars s"
      "\<forall>L \<in> set C. litValue s L \<noteq> 1 \<and> litValue s L \<noteq> - 1"
    and w: "ArenaWords s < w" "w \<le> kMaxArenaWords"
  defines "u \<equiv> s\<lparr>ArenaWords := w, Arena := (Arena s)(ArenaWords s \<mapsto> initialize C False)\<rparr>"
  defines "s' \<equiv> attachClause (ArenaWords s) (u\<lparr>Clauses := Clauses u @ [ArenaWords s]\<rparr>)"
  shows "stack_base (models s') s'"
proof -
  let ?r = "ArenaWords s"
  note g0 = solver_okD [OF ok nf]
  note g = stack_baseD [OF g0(2)]
  have fresh: "\<forall>r \<in> dom (Arena s). r < ?r" using g(4) by (simp add: tables_ok_def)
  have rn: "?r \<noteq> kNoClause" using w by (auto simp: kMaxArenaWords_def kNoClause_def)
  note at = attach_propagation_ok [OF g0(4) fresh rn C, of w, folded u_def, folded s'_def]
  have rR: "?r \<notin> refs s" using fresh g(8) by (auto simp: arena_ok_def)
  have same: "numVars s' = numVars s" "Value s' = Value s" "Trail s' = Trail s" "TrailLim s' = TrailLim s" "Level s' = Level s"
    "Reason s' = Reason s" "Order s' = Order s" "Clauses s' = Clauses s @ [?r]" "Learnt s' = Learnt s" "Decidable s' = Decidable s"
    "Seen s' = Seen s" "Activity s' = Activity s" "Phase s' = Phase s" "ArenaWords s' = w"
    "Arena s' = (Arena s)(?r \<mapsto> initialize C False)"
    by (simp_all add: s'_def u_def attachClause_def pushWatch_def numVars_def Let_def)
  have R: "refs s' = insert ?r (refs s)" by (auto simp: refs_def same)
  have cl: "clits (Arena s') x = (if x = ?r then C else clits (Arena s) x)" for x by (simp add: same clits_upd initialize_def)
  have old: "clits (Arena s') x = clits (Arena s) x" if "x \<in> refs s" for x using that rR by (auto simp: cl)
  have "?r \<notin> set (Clauses s) \<union> set (Learnt s)" using rR by (simp add: refs_def)
  moreover have "\<forall>r \<in> dom (Arena s). r < w" using fresh w(1) by (meson less_trans)
  ultimately have "tables_ok s'" using g(4) w by (auto simp: tables_ok_def same)
  moreover have "deep_ok s'"
    using g(2) old unfolding deep_ok_def levels_ok_def reasons_ok_def same R Let_def by (auto split: if_splits)
  moreover have "queued s'" using g(5) by (simp add: queued_def same)
  moreover have "layers s'" using g0(3) by (simp add: layers_def same)
  moreover have "watched s'" using at(1) by (simp add: propagation_ok_def)
  moreover have "meaning (models s') s'"
  proof -
    have rt: "rootTrail s' = Trail s" "rootTrail s = Trail s" using g0(3) by (simp_all add: rootTrail_def same)
    have "models_of (Arena s') (set (Clauses s')) (Trail s) = {m \<in> models_of (Arena s) (set (Clauses s)) (Trail s). clause_true m C}"
    proof -
      have "clits (Arena s') x = clits (Arena s) x" if "x \<in> set (Clauses s)" for x using old that by (simp add: refs_def)
      moreover have "clits (Arena s') ?r = C" by (simp add: cl)
      ultimately show ?thesis unfolding models_of_def same(8) by auto
    qed
    moreover have "models_of (Arena s) (set (Clauses s)) (Trail s) = models s" using g(6) rt(2) by (simp add: meaning_def)
    ultimately show ?thesis using at(2) by (simp add: meaning_def formula_def rt models_def same R)
  qed
  ultimately show ?thesis by (simp add: stack_base_def)
qed

lemma addClause_solver:
  assumes ok: "solver_ok s" and a: "addClause Lits s = (b, s')"
  shows "solver_ok s'"
proof -
  have e: "engine_ok s" using ok by (simp add: solver_ok_def)
  have e': "engine_ok s'" using addClause_ok [OF e a] by (simp add: adds_clause_def)
  show ?thesis
  proof (cases "Falsified s \<or> OutOfSpace s")
    case True
    then have "s' = s" using a by (simp add: addClause_def)
    then show ?thesis using ok by simp
  next
    case op: False
    then have nf: "\<not> Falsified s" by simp
    note g = solver_okD [OF ok nf]
    have root: "cancelUntil 0 s = s" by (rule cancelUntil_root [OF g(3)])
    show ?thesis
    proof (cases "\<exists>L \<in> set Lits. \<not> isValid L \<or> unat (var L) \<ge> numVars s")
      case True
      then have "s' = s" using a op root by (auto simp: addClause_def Let_def)
      then show ?thesis using ok by simp
    next
      case False
      have n: "\<forall>L \<in> set Lits. unat (var L) < numVars s" using False by (auto simp: not_le)
      note si = simplified_clause [OF e nf n]
      have X: "addClause Lits s = (case simplifyClause s noLit (sort Lits) of
            None \<Rightarrow> (True, s)
          | Some [] \<Rightarrow> (False, s\<lparr>Falsified := True\<rparr>)
          | Some [L] \<Rightarrow>
              (case propagate (enqueue L kNoClause s) of (Conflict, s) \<Rightarrow>
                 if Conflict \<noteq> kNoClause then (False, s\<lparr>Falsified := True\<rparr>) else (True, s))
          | Some C \<Rightarrow>
              (case allocClause C False s of (Ref, s) \<Rightarrow>
                 if Ref = kNoClause then (False, s\<lparr>OutOfSpace := True\<rparr>)
                 else (True, attachClause Ref (s\<lparr>Clauses := Clauses s @ [Ref]\<rparr>))))"
        unfolding addClause_def Let_def root using op False by auto
      show ?thesis
      proof (cases "simplifyClause s noLit (sort Lits)")
        case None
        then have "s' = s" using a X by simp
        then show ?thesis using ok by simp
      next
        case (Some C)
        note C = si [unfolded Some option.case]
        consider "C = []" | L where "C = [L]" | x y D where "C = x # y # D" by (cases C; cases "tl C") auto
        then show ?thesis
        proof cases
          case 1
          then have "Falsified s'" using a X Some by auto
          then show ?thesis using e' by (simp add: solver_ok_def)
        next
          case (2 L)
          obtain c t where p: "propagate (enqueue L kNoClause s) = (c, t)" by fastforce
          have L: "unat (var L) < numVars s" "litValue s L = 0" using C 2 g(7) [of L] by auto
          show ?thesis
          proof (cases "c = kNoClause")
            case True
            then have "s' = t" using a X Some 2 p by simp
            then show ?thesis using solver_okI [OF e'] unit_solver [OF ok nf L p True] by simp
          next
            case False
            then have "Falsified s'" using a X Some 2 p by auto
            then show ?thesis using e' by (simp add: solver_ok_def)
          qed
        next
          case (3 x y D)
          let ?w = "ArenaWords s + (kHeaderWords + length C)"
          show ?thesis
          proof (cases "?w > kMaxArenaWords")
            case True
            then have "s' = s\<lparr>OutOfSpace := True\<rparr>" using a X Some 3 by (auto simp: allocClause_def)
            moreover have "stack_inv [] F (s\<lparr>OutOfSpace := True\<rparr>) = stack_inv [] F s" for F by (rule search_ok_cong) simp_all
            moreover have "models (s\<lparr>OutOfSpace := True\<rparr>) = models s" by (simp add: models_def refs_def)
            moreover have "stack_inv [] (models s) s" by (rule root_stack(1) [OF g(2,3)])
            ultimately have "stack_inv [] (models s') s'" by simp
            then show ?thesis using solver_okI [OF e'] by (simp add: stack_inv_def)
          next
            case False
            have al: "allocClause C False s = (ArenaWords s, s\<lparr>ArenaWords := ?w, Arena := (Arena s)(ArenaWords s \<mapsto> initialize C False)\<rparr>)"
              using False by (simp add: allocClause_def Let_def)
            have rn: "ArenaWords s \<noteq> kNoClause" using False by (auto simp: kMaxArenaWords_def kNoClause_def kHeaderWords_def)
            have s': "s' = attachClause (ArenaWords s) (s\<lparr>ArenaWords := ?w, Arena := (Arena s)(ArenaWords s \<mapsto> initialize C False),
                Clauses := Clauses s @ [ArenaWords s]\<rparr>)"
              using a X Some al rn 3 by simp
            have "stack_base (models s') s'"
              using stored_solver [OF ok nf 3, of ?w] C False by (simp add: s' kHeaderWords_def not_less)
            then show ?thesis using solver_okI [OF e'] by simp
          qed
        qed
      qed
    qed
  qed
qed

section \<open>The solver as a clause store\<close>

interpretation solver: clause_backend solver_ok exhausted numVars root_models newVar addClause
proof
  fix s m m'
  assume ok: "solver_ok s"
  then have e: "engine_ok s" by (simp add: solver_ok_def)
  then show "numVars s < 2 ^ 31" by (rule engine.size_bound)
  assume "m \<in> root_models s" "agree (numVars s) m m'"
  with e show "m' \<in> root_models s" by (rule engine.mods_agree)
next
  fix s d v s'
  assume ok: "solver_ok s" and n: "newVar d s = (v, s')"
  then have e: "engine_ok s" by (simp add: solver_ok_def)
  from newVar_solver [OF ok n] engine.fresh_ok [OF e n]
  show "solver_ok s' \<and> (exhausted s \<longrightarrow> exhausted s') \<and> numVars s \<le> numVars s' \<and>
      (\<not> exhausted s' \<longrightarrow> unat v = numVars s \<and> numVars s' = Suc (numVars s) \<and> root_models s' = root_models s)" by blast
next
  fix s C b s'
  assume ok: "solver_ok s" and a: "addClause C s = (b, s')"
  then have e: "engine_ok s" by (simp add: solver_ok_def)
  from addClause_solver [OF ok a] engine.add_ok [OF e a]
  show "solver_ok s' \<and> (exhausted s \<longrightarrow> exhausted s') \<and> numVars s' = numVars s \<and>
      (\<not> exhausted s' \<longrightarrow> (\<forall>L \<in> set C. unat (var L) < numVars s) \<longrightarrow>
         root_models s' = {m \<in> root_models s. clause_true m C})" by blast
qed

text \<open>A formula as a client writes it: variables to decide, then clauses over them.\<close>

definition newVars :: "nat \<Rightarrow> SatEngine \<Rightarrow> SatEngine" where
  "newVars n s = ((\<lambda>s. snd (newVar True s)) ^^ n) s"

definition problem :: "SatOptions \<Rightarrow> nat \<Rightarrow> SatLit list list \<Rightarrow> SatEngine" where
  "problem Options n Cs = addAll Cs (newVars n (newEngine Options))"

text \<open>Every variable but the first may be decided; the first is the constant of an encoder.\<close>

definition decides_rest :: "SatEngine \<Rightarrow> bool" where
  "decides_rest s \<longleftrightarrow> length (Decidable s) = numVars s \<and> (\<forall>v < numVars s. 0 < v \<longrightarrow> Decidable s ! v)"

lemma newVar_decides: "decides_rest s \<Longrightarrow> decides_rest (snd (newVar True s))"
  by (auto simp: decides_rest_def newVar_def numVars_def Let_def nth_append less_Suc_eq)

lemma Opts_newVar [simp]: "Opts (snd (newVar d s)) = Opts s"
  by (simp add: newVar_def Let_def)

lemma newVars_ok:
  "solver_ok (newVars n (newEngine Options)) \<and> decides_rest (newVars n (newEngine Options)) \<and>
   (\<not> exhausted (newVars n (newEngine Options)) \<longrightarrow>
      numVars (newVars n (newEngine Options)) = n \<and> root_models (newVars n (newEngine Options)) = UNIV)"
proof (induction n)
  case 0
  have "decides_rest (newEngine Options)" by (simp add: decides_rest_def newEngine_def numVars_def)
  then show ?case using newEngine_solver newEngine_ok(2) by (simp add: newVars_def newEngine_def numVars_def)
next
  case (Suc n)
  let ?s = "newVars n (newEngine Options)"
  obtain v t where t: "newVar True ?s = (v, t)" by fastforce
  have e: "newVars (Suc n) (newEngine Options) = t" using t by (simp add: newVars_def)
  have ok: "solver_ok ?s" using Suc by blast
  show ?case using solver.fresh_ok [OF ok t] Suc newVar_decides [of ?s] t unfolding e by auto
qed

lemma addClause_choices:
  assumes "solver_ok s"
  shows "Decidable (snd (addClause C s)) = Decidable s \<and> Opts (snd (addClause C s)) = Opts s"
proof -
  obtain b t where a: "addClause C s = (b, t)" by fastforce
  have "Decidable t = Decidable s \<and> Opts t = Opts s"
  proof (cases "Falsified s \<or> OutOfSpace s")
    case True
    then show ?thesis using a by (auto simp: addClause_def)
  next
    case False
    then have nf: "\<not> Falsified s" by simp
    note g = solver_okD [OF assms nf]
    have root: "cancelUntil 0 s = s" by (rule cancelUntil_root [OF g(3)])
    have pq: "Decidable u = Decidable s \<and> Opts u = Opts s"
      if "unat (var L) < numVars s" "litValue s L \<noteq> 1" "litValue s L \<noteq> - 1" "propagate (enqueue L kNoClause s) = (c, u)" for L c u
      using propagate_question(1) [OF enqueue_propagation_ok(1) [OF g(4) that(1-3)] that(4)] by (simp add: question_frame_def)
    show ?thesis
    proof (cases "\<exists>L \<in> set C. \<not> isValid L \<or> unat (var L) \<ge> numVars s")
      case True
      then show ?thesis using a False root by (auto simp: addClause_def Let_def)
    next
      case r: False
      have "engine_ok s" "\<forall>L \<in> set C. unat (var L) < numVars s" using g(1) r by (auto simp: not_le)
      note si = simplified_clause [OF this(1) nf this(2)]
      show ?thesis
      proof (cases "simplifyClause s noLit (sort C)")
        case None
        then show ?thesis using a False root r by (auto simp: addClause_def Let_def)
      next
        case (Some D)
        note D = si [unfolded Some option.case]
        consider "D = []" | L where "D = [L]" | x y E where "D = x # y # E" by (cases D; cases "tl D") auto
        then show ?thesis
        proof cases
          case 1
          then show ?thesis using a False root r Some by (auto simp: addClause_def Let_def)
        next
          case (2 L)
          obtain c u where p: "propagate (enqueue L kNoClause s) = (c, u)" by fastforce
          have "Decidable u = Decidable s \<and> Opts u = Opts s" by (rule pq [OF _ _ _ p]) (use D 2 in auto)
          moreover have "Decidable t = Decidable u \<and> Opts t = Opts u" using a False root r Some 2 p by (auto simp: addClause_def Let_def split: if_splits)
          ultimately show ?thesis by simp
        next
          case 3
          then show ?thesis using a False root r Some
            by (auto simp: addClause_def Let_def allocClause_def attachClause_def pushWatch_def split: if_splits)
        qed
      qed
    qed
  qed
  then show ?thesis by (simp add: a)
qed

lemma addClause_decides:
  assumes "solver_ok s" "decides_rest s"
  shows "decides_rest (snd (addClause C s))"
  using assms solver.add_ok [OF assms(1) prod.collapse [symmetric], of C] addClause_choices [OF assms(1), of C]
  by (simp add: decides_rest_def)

lemma addAll_decides: "solver_ok s \<Longrightarrow> decides_rest s \<Longrightarrow> decides_rest (addAll Cs s)"
proof (induction Cs arbitrary: s)
  case (Cons C Cs)
  obtain b t where a: "addClause C s = (b, t)" by fastforce
  have "solver_ok t" using solver.add_ok [OF Cons.prems(1) a] by blast
  with Cons.IH [of t] addClause_decides [OF Cons.prems, of C] a show ?case by (simp add: addAll_def)
qed (simp add: addAll_def)

lemma problem_ok:
  assumes nf: "\<not> exhausted (problem Options n Cs)" and r: "\<forall>C \<in> set Cs. \<forall>L \<in> set C. unat (var L) < n"
  shows "solver_ok (problem Options n Cs)" "decides_rest (problem Options n Cs)" "numVars (problem Options n Cs) = n"
    "root_models (problem Options n Cs) = {m. \<forall>C \<in> set Cs. clause_true m C}"
proof -
  let ?s = "newVars n (newEngine Options)"
  note nv = newVars_ok [of n Options]
  have ok: "solver_ok ?s" using nv by blast
  note ad = solver.add_sequence [OF ok, of "problem Options n Cs" Cs, folded addAll_def]
  have a: "solver_ok (problem Options n Cs)" "exhausted ?s \<longrightarrow> exhausted (problem Options n Cs)" "numVars (problem Options n Cs) = numVars ?s"
    using ad by (simp_all add: problem_def)
  have ne: "\<not> exhausted ?s" using a(2) nf by blast
  then have n: "numVars ?s = n" "root_models ?s = UNIV" using nv by blast+
  show "solver_ok (problem Options n Cs)" "numVars (problem Options n Cs) = n" using a n by simp_all
  show "decides_rest (problem Options n Cs)" unfolding problem_def by (rule addAll_decides [OF ok]) (use nv in blast)
  show "root_models (problem Options n Cs) = {m. \<forall>C \<in> set Cs. clause_true m C}" using ad nf r n by (simp add: problem_def)
qed

end
