(* ===== verification/Sat_Promises.thy ===== *)
theory Sat_Promises
  imports Sat_Solve
begin

text \<open>
  What the solver promises its clients, with the small formulas that show the promises are not empty.
\<close>

section \<open>What the solver promises\<close>

definition decided :: "SatLit list list \<Rightarrow> SatLit list \<Rightarrow> SatResult \<Rightarrow> SatEngine \<Rightarrow> bool" where
  "decided Cs As R s \<longleftrightarrow>
     (case R of
        Sat \<Rightarrow> (\<forall>C \<in> set Cs. clause_true (modelOf s) C) \<and> (\<forall>A \<in> set As. lit_true (modelOf s) A)
      | Unsat \<Rightarrow> set (FailedAssumptions s) \<subseteq> set As \<and>
          \<not> (\<exists>m. (\<forall>C \<in> set Cs. clause_true m C) \<and> (\<forall>A \<in> set (FailedAssumptions s). lit_true m A))
      | Unknown \<Rightarrow> True
      | Invalid \<Rightarrow> \<exists>A \<in> set As. \<not> isValid A \<or> numVars s \<le> unat (var A))"

text \<open>
  C4.  The solver decides.  On a formula built from any clauses over its variables, the answer Sat comes
  with a model of all clauses and assumptions, the answer Unsat with a subset of the assumptions that no
  model of the clauses satisfies, and the answer Invalid only for an assumption that is no literal of
  the formula.\<close>

theorem solver_decides:
  assumes "\<forall>C \<in> set Cs. \<forall>L \<in> set C. unat (var L) < n" "\<not> exhausted (problem Options n Cs)"
    "solve As (problem Options n Cs) = Some (R, s')"
  shows "decided Cs As R s'"
proof -
  note p = problem_ok [OF assms(2,1)]
  have v: "verdict_ok As (problem Options n Cs) R s'" by (rule solve_ok(1) [OF p(1) assms(3)])
  have i: "numVars s' = n" if "R = Invalid"
  proof -
    have "s' = asked (problem Options n Cs)"
      using assms(3) that v unfolding solve_cases by (auto simp: verdict_ok_def split: if_splits)
    then show ?thesis using p(3) by (simp add: asked_def numVars_def)
  qed
  show ?thesis
  proof (cases R)
    case Invalid
    then show ?thesis using v i p(3) by (auto simp: verdict_ok_def decided_def assumptions_ok_def not_less)
  qed (use v p in \<open>auto simp: verdict_ok_def decided_def decides_rest_def\<close>)
qed

lemma toDouble_small: "toDouble 0 = 0" "toDouble 1 = 1" "toDouble (- 1) = - 1"
  by code_simp+

definition one_var :: SatEngine where
  "one_var = newVars 1 (newEngine defaultOptions)"

lemma one_var_fields:
  "Value one_var = [0]" "Falsified one_var = False" "OutOfSpace one_var = False" "numVars one_var = 1" "TrailLim one_var = []"
  "Trail one_var = []" "Watches one_var = [[], []]" "QueueHead one_var = 0" "Learnt one_var = []" "Clauses one_var = []"
  "PropagationBudgetAt one_var = 0" "WatchVisitBudgetAt one_var = 0" "Opts one_var = defaultOptions" "Stats one_var = noStats"
  by (simp_all add: one_var_def newVars_def newVar_def newEngine_def numVars_def Let_def unat_kMaxSatVar)

definition one_unit :: SatEngine where
  "one_unit = problem defaultOptions 1 [[positive 0]]"

lemma index_positive_0: "unat (index (positive 0)) = 0"
  by (simp add: positive_def index_def mk_def)

lemma propagate_one:
  "propagate (enqueue (positive 0) kNoClause one_var) = (kNoClause, (enqueue (positive 0) kNoClause one_var)\<lparr>QueueHead := 1,
     Stats := noStats\<lparr>Propagations := 1\<rparr>\<rparr>)"
  by (simp add: propagate_def numeral_3_eq_3 one_var_fields propagateNext_def index_positive_0 outOfPropagationBudget_def
      outOfWatchVisitBudget_def noStats_def)

lemma one_unit_eq: "one_unit = (enqueue (positive 0) kNoClause one_var)\<lparr>QueueHead := 1, Stats := noStats\<lparr>Propagations := 1\<rparr>\<rparr>"
proof -
  have "isValid (positive 0)" by (rule isValid_if_small) simp
  moreover have "simplifyClause one_var noLit [positive 0] = Some [positive 0]"
    by (simp add: litValue_def one_var_fields noLit_invalid Let_def)
  ultimately have "addClause [positive 0] one_var = (True, (enqueue (positive 0) kNoClause one_var)\<lparr>QueueHead := 1,
     Stats := noStats\<lparr>Propagations := 1\<rparr>\<rparr>)"
    by (simp add: addClause_def cancelUntil_root one_var_fields Let_def propagate_one)
  then show ?thesis unfolding one_unit_def problem_def one_var_def [symmetric] by (simp add: addAll_def)
qed

lemma one_unit_step:
  assumes "Trail s = [positive 0]" "TrailLim s = []" "Value s = [1]" "QueueHead s = 1" "Learnt s = []" "64 \<le> MaxLearnt s"
    "ConflictBudgetAt s = 0" "PropagationBudgetAt s = 0" "WatchVisitBudgetAt s = 0"
  shows "searchStep B [negl (positive 0)] 0 s = Inl (Unsat, s\<lparr>FailedAssumptions := [negl (positive 0)]\<rparr>)"
proof -
  have p: "propagate s = (kNoClause, s)" using assms by (simp add: propagate_def)
  have ob: "\<not> outOfBudget s" using assms by (simp add: outOfBudget_def outOfPropagationBudget_def outOfWatchVisitBudget_def)
  have r: "reduceIfFull s = s" using assms by (simp add: reduceIfFull_def toDouble_small)
  have l: "litValue s (negl (positive 0)) = - 1" using assms by (simp add: litValue_def)
  have a: "assumeNext [negl (positive 0)] s = (Inl (negl (positive 0)), s)"
    using assms(2) l by (subst assumeNext.simps) (simp add: decisionLevel_def)
  have f: "analyzeFinal (negl (positive 0)) s = ([negl (positive 0)], s)" using assms(2) by (simp add: analyzeFinal_def decisionLevel_def)
  have b: "\<not> (B \<noteq> 0 \<and> B \<le> 0)" by simp
  show ?thesis unfolding searchStep_def p using ob b by (simp add: r a f)
qed

lemma one_unit_solved:
  "\<exists>s'. solve [negl (positive 0)] one_unit = Some (Unsat, s') \<and> FailedAssumptions s' = [negl (positive 0)]"
proof -
  let ?A = "[negl (positive 0)]" and ?u = "startSolve (asked one_unit)"
  have n: "numVars one_unit = 1" by (simp add: one_unit_eq numVars_def one_var_fields(1))
  have "isValid (negl (positive 0))" by (rule isValid_if_small) simp
  then have ok: "assumptions_ok ?A one_unit" by (simp add: assumptions_ok_def n)
  have cu: "cancelUntil 0 (asked one_unit) = asked one_unit"
    by (rule cancelUntil_root) (simp add: asked_def one_unit_eq one_var_fields)
  have b: "budgetEndpoint k 0 = 0" for k by (simp add: budgetEndpoint_def)
  have f: "Trail ?u = [positive 0]" "TrailLim ?u = []" "Value ?u = [1]" "QueueHead ?u = 1" "Learnt ?u = []" "64 \<le> MaxLearnt ?u"
    "ConflictBudgetAt ?u = 0" "PropagationBudgetAt ?u = 0" "WatchVisitBudgetAt ?u = 0" "OutOfSpace ?u = False"
    unfolding startSolve_def cu Let_def by (simp_all add: asked_def one_unit_eq one_var_fields defaultOptions_def b assign_def
        kSatSolverSatEngineSolveMaxLearntMaxArgument2_def)
  have s: "search B ?A ?u = Some (Unsat, ?u\<lparr>FailedAssumptions := ?A\<rparr>)" for B
    unfolding search_def by (subst searchLoop.simps) (simp add: one_unit_step [OF f(1-9)])
  have "\<not> outOfBudget ?u" using f(7-9) by (simp add: outOfBudget_def outOfPropagationBudget_def outOfWatchVisitBudget_def)
  then have "restartLoop ?A 0 ?u = Some (Unsat, ?u\<lparr>FailedAssumptions := ?A\<rparr>)"
    using f(10) by (subst restartLoop_step) (simp add: s)
  moreover have "Falsified one_unit = False" "OutOfSpace one_unit = False" by (simp_all add: one_unit_eq one_var_fields)
  ultimately show ?thesis unfolding solve_cases using ok by simp
qed

theorem solver_decides_witness:
  "\<exists>s'. solve [negl (positive 0)] (problem defaultOptions 1 [[positive 0]]) = Some (Unsat, s') \<and>
     FailedAssumptions s' = [negl (positive 0)] \<and> decided [[positive 0]] [negl (positive 0)] Unsat s'"
proof -
  obtain s' where s: "solve [negl (positive 0)] (problem defaultOptions 1 [[positive 0]]) = Some (Unsat, s')"
    "FailedAssumptions s' = [negl (positive 0)]" using one_unit_solved unfolding one_unit_def by blast
  have "\<not> exhausted (problem defaultOptions 1 [[positive 0]])"
    unfolding one_unit_def [symmetric] by (simp add: one_unit_eq exhausted_def numVars_def one_var_fields unat_kMaxSatVar)
  with solver_decides [OF _ _ s(1)] s show ?thesis by simp
qed

definition clash :: SatEngine where
  "clash = addAll [[positive 0, positive 1], [positive 0, negl (positive 1)]] two_vars"

lemma two_vars_more:
  "Watches two_vars = [[], [], [], []]" "QueueHead two_vars = 0" "Clauses two_vars = []" "Learnt two_vars = []" "Arena two_vars = Map.empty"
  "PropagationBudgetAt two_vars = 0" "WatchVisitBudgetAt two_vars = 0" "Stats two_vars = noStats"
  by (simp_all add: two_vars_def newVar_def newEngine_def numVars_def Let_def unat_kMaxSatVar)

lemma index_01: "unat (index (positive 0)) = 0" "unat (index (negl (positive 0))) = 1" "unat (index (positive 1)) = 2"
  "unat (index (negl (positive 1))) = 3"
  by (simp_all add: index_def negl_def positive_def mk_def)

lemma store_pair:
  assumes "TrailLim s = []" "\<not> Falsified s" "\<not> OutOfSpace s" "numVars s = 2" "Value s = [0, 0]" "sort [a, b] = [a, b]"
    "isValid a" "isValid b" "unat (var a) < 2" "unat (var b) < 2" "b \<noteq> a" "b \<noteq> negl a" "ArenaWords s \<le> 100"
  shows "addClause [a, b] s = (True, attachClause (ArenaWords s) (s\<lparr>ArenaWords := ArenaWords s + 5,
    Arena := (Arena s)(ArenaWords s \<mapsto> initialize [a, b] False), Clauses := Clauses s @ [ArenaWords s]\<rparr>))"
proof -
  have l: "litValue s a = 0" "litValue s b = 0" using assms(5,9,10) by (auto simp: litValue_def Let_def less_2_cases_iff)
  have "simplifyClause s noLit [a, b] = Some [a, b]" using assms(7,11,12) l by (simp add: noLit_invalid)
  moreover have "allocClause [a, b] False s = (ArenaWords s, s\<lparr>ArenaWords := ArenaWords s + 5,
      Arena := (Arena s)(ArenaWords s \<mapsto> initialize [a, b] False)\<rparr>)" "ArenaWords s \<noteq> kNoClause"
    using assms(13) by (auto simp: allocClause_def kHeaderWords_def kMaxArenaWords_def kNoClause_def Let_def)
  ultimately show ?thesis
    using assms(1-4,6-10) by (simp add: addClause_def cancelUntil_root Let_def)
qed

lemma clash_literals:
  "sort [positive 0, positive 1] = [positive 0, positive 1]" "sort [positive 0, negl (positive 1)] = [positive 0, negl (positive 1)]"
  "isValid (positive 0)" "isValid (positive 1)" "isValid (negl (positive 1))" "isValid (negl (positive 0))"
  "positive 1 \<noteq> positive 0" "positive 1 \<noteq> negl (positive 0)" "negl (positive 1) \<noteq> positive 0" "negl (positive 1) \<noteq> negl (positive 0)"
proof -
  show "sort [positive 0, positive 1] = [positive 0, positive 1]" "sort [positive 0, negl (positive 1)] = [positive 0, negl (positive 1)]"
    by (simp_all add: less_eq_SatLit_def negl_def positive_def mk_def)
  show "isValid (positive 0)" "isValid (positive 1)" "isValid (negl (positive 1))" "isValid (negl (positive 0))"
    by (simp_all add: isValid_def kInvalidCode_def negl_def positive_def mk_def)
  show "positive 1 \<noteq> positive 0" "positive 1 \<noteq> negl (positive 0)" "negl (positive 1) \<noteq> positive 0" "negl (positive 1) \<noteq> negl (positive 0)"
    by (simp_all add: SatLit_eq_iff)
qed

lemma clash_fields:
  "Clauses clash = [0, 5]" "Learnt clash = []" "clits (Arena clash) 0 = [positive 0, positive 1]"
  "clits (Arena clash) 5 = [positive 0, negl (positive 1)]" "Trail clash = []" "TrailLim clash = []" "QueueHead clash = 0"
  "numVars clash = 2" "Falsified clash = False" "PropagationBudgetAt clash = 0" "WatchVisitBudgetAt clash = 0" "ConflictBudgetAt clash = 0"
  "Value clash = [0, 0]" "OutOfSpace clash = False"
proof -
  define s1 where "s1 = attachClause 0 (two_vars\<lparr>ArenaWords := 5, Arena := [0 \<mapsto> initialize [positive 0, positive 1] False], Clauses := [0]\<rparr>)"
  have b: "ConflictBudgetAt two_vars = 0" by (simp add: two_vars_def newVar_def newEngine_def numVars_def Let_def unat_kMaxSatVar)
  have 1: "addClause [positive 0, positive 1] two_vars = (True, s1)"
    unfolding s1_def using store_pair [of two_vars "positive 0" "positive 1"]
    by (simp add: two_vars_fields two_vars_more clash_literals del: sort_key_simps)
  have f1: "TrailLim s1 = []" "\<not> Falsified s1" "\<not> OutOfSpace s1" "numVars s1 = 2" "Value s1 = [0, 0]" "ArenaWords s1 = 5" "Clauses s1 = [0]"
    "Learnt s1 = []" "Trail s1 = []" "QueueHead s1 = 0" "PropagationBudgetAt s1 = 0" "WatchVisitBudgetAt s1 = 0" "ConflictBudgetAt s1 = 0"
    "Arena s1 = [0 \<mapsto> initialize [positive 0, positive 1] False]"
    by (simp_all add: s1_def attachClause_def pushWatch_def Let_def two_vars_fields two_vars_more b numVars_def)
  have e: "clash = attachClause 5 (s1\<lparr>ArenaWords := 10, Arena := (Arena s1)(5 \<mapsto> initialize [positive 0, negl (positive 1)] False), Clauses := [0, 5]\<rparr>)"
    using store_pair [of s1 "positive 0" "negl (positive 1)"] 1
    by (simp add: clash_def addAll_def f1 clash_literals del: sort_key_simps)
  show "Clauses clash = [0, 5]" "Learnt clash = []" "clits (Arena clash) 0 = [positive 0, positive 1]"
    "clits (Arena clash) 5 = [positive 0, negl (positive 1)]" "Trail clash = []" "TrailLim clash = []" "QueueHead clash = 0"
    "numVars clash = 2" "Falsified clash = False" "PropagationBudgetAt clash = 0" "WatchVisitBudgetAt clash = 0" "ConflictBudgetAt clash = 0"
    "Value clash = [0, 0]" "OutOfSpace clash = False"
    unfolding e using f1 by (simp_all add: attachClause_def pushWatch_def Let_def numVars_def clits_def initialize_def)
qed

lemma two_vars_solver: "solver_ok two_vars"
  unfolding two_vars_def using newEngine_solver newVar_solver [OF _ prod.collapse [symmetric]] by blast

lemma clash_solver: "solver_ok clash"
  unfolding clash_def addAll_def using solver.add_sequence [OF two_vars_solver refl] by blast

text \<open>Choosing the first variable false makes both clauses unit, with opposite literals.\<close>

definition clashing :: SatEngine where
  "clashing = enqueue (negl (positive 0)) kNoClause (newDecisionLevel clash)"

lemma clashing_ok: "search_ok [] (models clash) clashing" "opened clashing"
proof -
  note g = solver_okD [OF clash_solver]
  have so: "search_ok [] (models clash) clash" by (rule g(5)) (simp add: clash_fields)
  show "search_ok [] (models clash) clashing" "opened clashing"
    unfolding clashing_def by (rule decide_stack [OF so]; simp add: clash_fields litValue_def)+
qed

lemma clashing_conflict: "fst (propagate clashing) \<noteq> kNoClause"
proof
  assume c0: "fst (propagate clashing) = kNoClause"
  obtain t where p: "propagate clashing = (kNoClause, t)" using c0 by (metis prod.collapse)
  have pr: "propagation_ok clashing" using clashing_ok(1) by (simp add: search_ok_def)
  note ps = propagate_stack [OF clashing_ok p]
  have ds: "deep_frame clashing t" using propagate_deep [OF pr p] by (simp add: deep_step_def)
  have pf: "prop_frame clashing t" using propagate_ok [OF pr p] by blast
  have "\<not> outOfBudget t"
    using pf by (simp add: prop_frame_def clashing_def newDecisionLevel_def clash_fields outOfBudget_def outOfPropagationBudget_def outOfWatchVisitBudget_def)
  then have se: "prefix_settled (Arena t) (refs t) (Trail t)"
    using ps(3,5) by (intro all_settled) (simp_all add: search_ok_def)
  have tr: "trail_ok (Value t) (Trail t)" by (rule stack_invD(9) [OF ps(1)])
  have n0: "negl (positive 0) \<in> set (Trail t)" using ds by (auto simp: deep_frame_def clashing_def)
  have rc: "refs clash = {0, 5}" by (simp add: refs_def clash_fields)
  have R: "refs t = {0, 5}" using ds by (simp add: deep_frame_def clashing_def rc)
  have cl: "set (clits (Arena t) r) = set (clits (Arena clash) r)" if "r \<in> {0, 5}" for r
    using ds that by (auto simp: deep_frame_def clashing_def rc)
  have other: "b \<in> set (Trail t)" if r: "r \<in> refs t" and s: "set (clits (Arena t) r) = {positive 0, b}" for r b
  proof -
    have l: "2 \<le> length (clits (Arena t) r)" "distinct (clits (Arena t) r)" using stack_invD(10) [OF ps(1)] r by (auto simp: arena_ok_def)
    have "card {positive 0, b} \<le> 2" by (simp add: card_insert_if)
    then have "length (clits (Arena t) r) = 2" using l distinct_card [OF l(2)] s by simp
    moreover have "positive 0 \<in> set (clits (Arena t) r)" by (simp add: s)
    ultimately obtain k where "k < 2" "clits (Arena t) r ! k = positive 0" by (metis in_set_conv_nth)
    with se r n0 obtain L where "L \<in> set (clits (Arena t) r)" "L \<in> set (Trail t)" unfolding prefix_settled_def by metis
    moreover have "positive 0 \<notin> set (Trail t)" using negl_not_in_trail [OF tr n0] by simp
    ultimately show ?thesis using s by auto
  qed
  have "positive 1 \<in> set (Trail t)" by (rule other [of 0]) (simp_all add: R cl clash_fields)
  moreover have "negl (positive 1) \<in> set (Trail t)"
    by (rule other [of 5]) (simp_all add: R cl clash_fields)
  ultimately show False using negl_not_in_trail [OF tr] by blast
qed

text \<open>
  C5.  A clause learned from a conflict is implied by the formula, asserts its first literal one level
  back or more, and analysing the conflict changes neither the assignment nor the clauses.\<close>

theorem learned_clause_correct:
  assumes "stack_inv As F s" "false_clause s c" "0 < decisionLevel s" "analyze c s = (Lits, Bt, Span, s')"
  shows "F \<subseteq> {m. clause_true m Lits} \<and> asserting s Lits Bt \<and> stack_inv As F s' \<and> Trail s' = Trail s \<and> TrailLim s' = TrailLim s \<and>
    Value s' = Value s \<and> refs s' = refs s"
proof -
  note g = stack_invD [OF assms(1)]
  have base: "analysis_base s" using g(2,9,10) assms(3) by (simp add: analysis_base_def)
  have seen: "True \<notin> set (Seen s)" "length (Seen s) = numVars s" using g(4) by (simp_all add: tables_ok_def)
  note ao = analyze_ok [OF base seen assms(2) conflict_top [OF assms(1-3)] assms(4)]
  have "Value s' = Value s" using ao(1) by (simp add: core_frame_def)
  then show ?thesis using ao g(15) stack_frame [OF ao(1,2) assms(1)] by (simp add: core_frame_derived [OF ao(1)])
qed

theorem learned_clause_correct_witness:
  "\<exists>c t Lits Bt Span s'. propagate clashing = (c, t) \<and> analyze c t = (Lits, Bt, Span, s') \<and> asserting t Lits Bt \<and>
     models clash \<subseteq> {m. clause_true m Lits}"
proof -
  obtain c t where p: "propagate clashing = (c, t)" by fastforce
  obtain Lits Bt Span s' where a: "analyze c t = (Lits, Bt, Span, s')" by (metis prod_cases4)
  note ps = propagate_stack [OF clashing_ok p]
  have "propagation_ok clashing" using clashing_ok(1) by (simp add: search_ok_def)
  then have "TrailLim t = TrailLim clashing" using propagate_ok [OF _ p] by (simp add: prop_frame_def)
  then have "0 < decisionLevel t" by (simp add: decisionLevel_def clashing_def)
  with learned_clause_correct [OF ps(1) _ _ a] ps(4) clashing_conflict p a show ?thesis by auto
qed

text \<open>
  C6.  A search always ends, whatever budget of conflicts it has, and what it answers is right: every
  round that gives no answer makes the trail heavier.\<close>

theorem search_always_ends:
  assumes "startable As F s"
  shows "\<exists>R s'. search ConflictBudget As s = Some (R, s') \<and> answered As F R s'"
  using search_answers [OF assms, of ConflictBudget] by blast

theorem search_always_ends_witness:
  "\<exists>R s'. search 0 [positive 1] (startSolve (asked clash)) = Some (R, s') \<and> answered [positive 1] (root_models clash) R s'"
proof -
  have "assumptions_ok [positive 1] clash" by (simp add: assumptions_ok_def clash_literals clash_fields)
  then have "startable [positive 1] (root_models clash) (startSolve (asked clash))"
    using startSolve_startable(1) [OF clash_solver, of "[positive 1]"] by (simp add: clash_fields asked_def)
  then show ?thesis by (rule search_always_ends)
qed

text \<open>
  A solver that never restarts always answers, with any assumptions and any other budgets.\<close>

lemma solve_returns:
  assumes "solver_ok s" "RestartInterval (Opts s) = 0"
  shows "\<exists>R s'. solve As s = Some (R, s') \<and> verdict_ok As s R s'"
  using solve_total [OF assms, of As] solve_ok(1) [OF assms(1)] by blast

text \<open>
  C12.  The solver stays ready: adding variables and clauses and answering questions keep its
  invariant, and a question that is answered does not change what the formula means.\<close>

theorem solver_stays_ready:
  assumes "solver_ok s"
  shows "solver_ok (snd (newVar d s)) \<and> solver_ok (snd (addClause C s)) \<and>
    (\<forall>R s'. solve As s = Some (R, s') \<longrightarrow> R \<noteq> Unknown \<longrightarrow> solver_ok s' \<and> root_models s' = root_models s)"
  using newVar_solver [OF assms prod.collapse [symmetric]] addClause_solver [OF assms prod.collapse [symmetric]] solve_ok(2) [OF assms]
  by blast

theorem solver_stays_ready_witness:
  "solver_ok (snd (newVar True one_unit)) \<and>
   (\<exists>s'. solve [negl (positive 0)] one_unit = Some (Unsat, s') \<and> solver_ok s' \<and> root_models s' = root_models one_unit)"
proof -
  have "\<not> exhausted one_unit" by (simp add: one_unit_eq exhausted_def numVars_def one_var_fields unat_kMaxSatVar)
  then have "solver_ok one_unit" unfolding one_unit_def by (intro problem_ok(1)) simp_all
  from solver_stays_ready [OF this] one_unit_solved show ?thesis by blast
qed

text \<open>
  C13.  Dropping learned clauses does not change what the formula means: what is dropped is implied
  by the clauses that are kept, no reason of the assignment is lost, and the watch lists stay in order.\<close>

theorem reduceDatabase_keeps_meaning:
  assumes "search_ok As F s"
  shows "search_ok As F (reduceDatabase s) \<and> formula (reduceDatabase s) = formula s \<and> Clauses (reduceDatabase s) = Clauses s \<and>
    Trail (reduceDatabase s) = Trail s \<and> Value (reduceDatabase s) = Value s"
proof -
  note r = reduceDatabase_ok [OF assms]
  have "formula (reduceDatabase s) = F" "formula s = F"
    using r(1) assms by (auto simp: search_ok_def dest: stack_invD(15))
  then show ?thesis using r by (simp add: reduced_def)
qed

theorem reduceDatabase_keeps_meaning_witness: "formula (reduceDatabase clashing) = formula clashing"
  using reduceDatabase_keeps_meaning [OF clashing_ok(1)] by blast

end
