(* ===== verification/Bv_Model.thy ===== *)
theory Bv_Model
  imports Bit_Blaster Sat_Promises
begin

text \<open>
  The solver for bit-vector predicates: its models, the conjuncts it takes out of a permanent fact, the
  literal of a predicate, assertions, and questions with assumptions.  The clause store lies under the
  encoder, which lies under the blaster, as the references of the code say.
\<close>

section \<open>Models\<close>

text \<open>The first place of a sorted list whose entry is not below a value.\<close>

definition lowerBound :: "u32 list \<Rightarrow> u32 \<Rightarrow> nat" where
  "lowerBound xs v = length (takeWhile (\<lambda>x. x < v) xs)"

record BitVectorModel =
  VarIds :: "u32 list"
  MValues :: "nat list"

definition clearModel :: BitVectorModel where
  "clearModel = \<lparr>VarIds = [], MValues = []\<rparr>"

definition modelIndexOf :: "u32 \<Rightarrow> BitVectorModel \<Rightarrow> nat" where
  "modelIndexOf VarId M =
     (let It = lowerBound (VarIds M) VarId in
      if It = length (VarIds M) \<or> VarIds M ! It \<noteq> VarId then length (VarIds M) else It)"

definition modelContains :: "u32 \<Rightarrow> BitVectorModel \<Rightarrow> bool" where
  "modelContains VarId M \<longleftrightarrow> modelIndexOf VarId M < length (VarIds M)"

definition varValueIn :: "u32 \<Rightarrow> BitVectorModel \<Rightarrow> nat option" where
  "varValueIn VarId M =
     (let I = modelIndexOf VarId M in
      if I \<ge> length (VarIds M) then None else Some (MValues M ! I))"

definition nodeValueIn :: "SymContext \<Rightarrow> SymRef \<Rightarrow> BitVectorModel \<Rightarrow> nat option" where
  "nodeValueIn c Var M =
     (if \<not> isValidRef Var \<or> NOp (node c Var) \<noteq> SVar then None else varValueIn (varId c Var) M)"

definition setModel :: "u32 \<Rightarrow> nat \<Rightarrow> BitVectorModel \<Rightarrow> BitVectorModel" where
  "setModel VarId Val M =
     (let Index = lowerBound (VarIds M) VarId in
      if Index \<noteq> length (VarIds M) \<and> VarIds M ! Index = VarId
      then M\<lparr>MValues := (MValues M)[Index := Val]\<rparr>
      else M\<lparr>VarIds := take Index (VarIds M) @ VarId # drop Index (VarIds M),
             MValues := take Index (MValues M) @ Val # drop Index (MValues M)\<rparr>)"

section \<open>Conjuncts of a permanent fact\<close>

definition kPermanentConjunctsMaxPermanentConjunctWork :: nat where
  "kPermanentConjunctsMaxPermanentConjunctWork = 2 ^ 18"

definition validBoolean :: "SymContext \<Rightarrow> SymRef \<Rightarrow> bool" where
  "validBoolean c Ref \<longleftrightarrow> isValidRef Ref \<and> unat Ref < numNodes c \<and> symWidth c Ref = 1"

text \<open>
  One side of an equation read as a number, the other as a widened bit: no value refuses, and
  otherwise what is left of the allowance comes with the bit to go on with, if there is one.
\<close>

definition expandEq :: "SymContext \<Rightarrow> bool \<Rightarrow> SymRef \<Rightarrow> SymRef \<Rightarrow> nat \<Rightarrow> (nat \<times> (SymRef \<times> bool) option) option" where
  "expandEq c Pos Number Other Remaining =
     (if NOp (node c Number) \<noteq> SConst \<or> NOp (node c Other) \<noteq> SZExt \<or> NNumOperands (node c Other) \<noteq> 1 \<or>
         symWidth c Other \<le> 1 \<or> symWidth c Other \<noteq> symWidth c Number
      then Some (Remaining, None)
      else if 1 > Remaining then None
      else
        let Remaining = Remaining - 1; Bit = operands c Other ! 0 in
        if \<not> validBoolean c Bit then Some (Remaining, None)
        else
          let Words = 3 * ((unat (symWidth c Number) - 1) div 64 + 1) in
          if Words > Remaining then None
          else
            let Remaining = Remaining - Words; Val = constValue c Number in
            if Val \<noteq> 0 \<and> Val \<noteq> 1 then Some (Remaining, None)
            else Some (Remaining, Some (Bit, Pos = (Val = 1))))"

definition expandSides :: "SymContext \<Rightarrow> bool \<Rightarrow> SymRef list \<Rightarrow> nat \<Rightarrow> (nat \<times> (SymRef \<times> bool) option) option" where
  "expandSides c Pos Args Remaining =
     (case expandEq c Pos (Args ! 0) (Args ! 1) Remaining of
        None \<Rightarrow> None
      | Some (Remaining, Some Item) \<Rightarrow> Some (Remaining, Some Item)
      | Some (Remaining, None) \<Rightarrow> expandEq c Pos (Args ! 1) (Args ! 0) Remaining)"

lemma expandEq_le: "expandEq c Pos A B n = Some (k, x) \<Longrightarrow> k \<le> n"
  by (auto simp: expandEq_def Let_def split: if_splits)

lemma expandSides_le: "expandSides c Pos Args n = Some (k, x) \<Longrightarrow> k \<le> n"
  by (auto simp: expandSides_def split: option.splits prod.splits dest!: expandEq_le)

text \<open>Every round is paid for from the allowance, so the loop ends.\<close>

function conjunctLoop ::
    "SymContext \<Rightarrow> nat \<Rightarrow> (SymRef \<times> bool) list \<Rightarrow> u64 set \<Rightarrow> (SymRef \<times> bool) list \<Rightarrow> (SymRef \<times> bool) list option" where
  "conjunctLoop c Remaining Work Known Leaves =
     (if Work = [] then Some Leaves
      else if 1 > Remaining then None
      else
        let Remaining = Remaining - 1; At = fst (last Work); Pos = snd (last Work); Work = butlast Work;
            Key = push_bit 1 (ucast At :: u64) OR of_bool Pos in
        if \<not> validBoolean c At then None
        else if Key \<in> Known then conjunctLoop c Remaining Work Known Leaves
        else
          let Known = insert Key Known; Op = NOp (node c At); Args = operands c At in
          if Op = SAnd \<and> Pos \<or> Op = SOr \<and> \<not> Pos then
            if Args = [] \<or> length Args > Remaining \<or> (\<exists>A \<in> set Args. \<not> validBoolean c A) then None
            else conjunctLoop c (Remaining - length Args) (Work @ map (\<lambda>A. (A, Pos)) Args) Known Leaves
          else if Op = SNot then
            if length Args \<noteq> 1 \<or> 1 > Remaining \<or> \<not> validBoolean c (Args ! 0) then None
            else conjunctLoop c (Remaining - 1) (Work @ [(Args ! 0, \<not> Pos)]) Known Leaves
          else if Op = SEq then
            if length Args \<noteq> 2 \<or> 2 > Remaining \<or> (\<exists>A \<in> set Args. \<not> isValidRef A \<or> unat A \<ge> numNodes c) then None
            else
              case expandSides c Pos Args (Remaining - 2) of
                None \<Rightarrow> None
              | Some (Remaining, Some Item) \<Rightarrow> conjunctLoop c Remaining (Work @ [Item]) Known Leaves
              | Some (Remaining, None) \<Rightarrow> conjunctLoop c Remaining Work Known (Leaves @ [(At, Pos)])
          else conjunctLoop c Remaining Work Known (Leaves @ [(At, Pos)]))"
  by pat_completeness auto

termination
  by (relation "measure (\<lambda>(_, Remaining, _). Remaining)") (auto dest!: expandSides_le)

declare conjunctLoop.simps [simp del]

definition conjunctBefore :: "SymRef \<times> bool \<Rightarrow> SymRef \<times> bool \<Rightarrow> bool" where
  "conjunctBefore A B \<longleftrightarrow> (if fst A \<noteq> fst B then fst A < fst B else \<not> snd A \<and> snd B)"

definition collectPermanentConjuncts :: "SymContext \<Rightarrow> SymRef \<Rightarrow> nat \<Rightarrow> (SymRef \<times> bool) list option" where
  "collectPermanentConjuncts c Pred MaxWork =
     (let Remaining = min MaxWork kPermanentConjunctsMaxPermanentConjunctWork in
      if Remaining = 0 \<or> \<not> validBoolean c Pred then None
      else map_option (stableSort conjunctBefore) (conjunctLoop c Remaining [(Pred, True)] {} []))"

section \<open>The solver\<close>

definition defaultLimits :: BlastLimits where
  "defaultLimits = \<lparr>MaxWidth = 256, MaxGates = 2 ^ 22\<rparr>"

record SolverOptions =
  OSat :: SatOptions
  OBlast :: BlastLimits
  BuildModel :: bool

definition defaultSolverOptions :: SolverOptions where
  "defaultSolverOptions = \<lparr>OSat = defaultOptions, OBlast = defaultLimits, BuildModel = True\<rparr>"

definition sourceView :: SolverOptions where
  "sourceView = defaultSolverOptions
     \<lparr>OSat := defaultOptions\<lparr>MaxConflicts := 20000, MaxPropagations := 2 ^ 22, MaxWatchVisits := 2 ^ 24\<rparr>,
      OBlast := defaultLimits\<lparr>MaxGates := 2 ^ 18\<rparr>\<rparr>"

definition unlimitedOptions :: SolverOptions where
  "unlimitedOptions = defaultSolverOptions
     \<lparr>OSat := defaultOptions\<lparr>MaxConflicts := 0, MaxPropagations := 0, MaxWatchVisits := 0\<rparr>,
      OBlast := unlimitedLimits\<rparr>"

record BitVectorSolver =
  SOptions :: SolverOptions
  Blaster :: BitBlaster
  SError :: BlastError
  SModel :: BitVectorModel
  SFailed :: "SymRef list"

abbreviation satOf :: "BitVectorSolver \<Rightarrow> SatEngine" where
  "satOf s \<equiv> Solver (Enc (Blaster s))"

abbreviation encOf :: "BitVectorSolver \<Rightarrow> CnfEncoder" where
  "encOf s \<equiv> Enc (Blaster s)"

definition setEnc :: "CnfEncoder \<Rightarrow> BitVectorSolver \<Rightarrow> BitVectorSolver" where
  "setEnc e s = s\<lparr>Blaster := (Blaster s)\<lparr>Enc := e\<rparr>\<rparr>"

definition newSolver :: "SolverOptions \<Rightarrow> BitVectorSolver" where
  "newSolver Options =
     \<lparr>SOptions = Options, Blaster = newBlaster (newEncoder (newEngine (OSat Options))) (OBlast Options),
      SError = NoError, SModel = clearModel, SFailed = []\<rparr>"

definition solverOk :: "BitVectorSolver \<Rightarrow> bool" where
  "solverOk s \<longleftrightarrow> SError s = NoError"

definition cloneEncoding :: "BitVectorSolver \<Rightarrow> BitVectorSolver option" where
  "cloneEncoding s =
     (if \<not> solverOk s \<or> \<not> blasterOk (Blaster s) \<or> \<not> canCloneEncoding (satOf s) then None
      else Some \<lparr>SOptions = SOptions s,
        Blaster = cloneBlaster ((encOf s)\<lparr>Solver := cloneEngine (satOf s)\<rparr>) (Blaster s),
        SError = SError s, SModel = clearModel, SFailed = []\<rparr>)"

definition refInContext :: "SymContext \<Rightarrow> SymRef \<Rightarrow> bool" where
  "refInContext c R \<longleftrightarrow> isValidRef R \<and> unat R < numNodes c"

fun resultForEncodingFailure :: "BlastError \<Rightarrow> SatResult" where
  "resultForEncodingFailure WidthTooLarge = Unknown"
| "resultForEncodingFailure TooManyGates = Unknown"
| "resultForEncodingFailure MalformedExpr = Invalid"
| "resultForEncodingFailure NoError = Invalid"

definition literalFor :: "SymContext \<Rightarrow> SymRef \<Rightarrow> BitVectorSolver \<Rightarrow> SatLit option \<times> BitVectorSolver" where
  "literalFor c Pred s =
     (if \<not> solverOk s then (None, s)
      else if \<not> refInContext c Pred then (None, s\<lparr>SError := MalformedExpr\<rparr>)
      else if symWidth c Pred = 1 then
        case blastPredicate c Pred noLit (Blaster s) of ((Done, L), b) \<Rightarrow>
          let s = s\<lparr>Blaster := b\<rparr> in
          if \<not> Done then (None, s\<lparr>SError := BError b\<rparr>) else (Some L, s)
      else
        case blast c Pred (Blaster s) of ((Done, Bits), b) \<Rightarrow>
          let s = s\<lparr>Blaster := b\<rparr> in
          if \<not> Done then (None, s\<lparr>SError := BError b\<rparr>)
          else case mkOr Bits Both (Enc b) of (L, e) \<Rightarrow> (Some L, setEnc e s))"

text \<open>The conjuncts are asserted in turn; the first that cannot be encoded ends it.\<close>

fun assertLeaves :: "SymContext \<Rightarrow> (SymRef \<times> bool) list \<Rightarrow> BitVectorSolver \<Rightarrow> bool \<times> BitVectorSolver" where
  "assertLeaves c [] s = (True, s)"
| "assertLeaves c ((Leaf, Pos) # Leaves) s =
     (case literalFor c Leaf s of
        (None, s) \<Rightarrow> (False, s)
      | (Some L, s) \<Rightarrow>
          assertLeaves c Leaves (setEnc (snd (assertTrue (if Pos then L else negl L) (encOf s))) s))"

definition assertTrueRef :: "SymContext \<Rightarrow> SymRef \<Rightarrow> BitVectorSolver \<Rightarrow> bool \<times> BitVectorSolver" where
  "assertTrueRef c Pred s =
     (case (if solverOk s \<and> refInContext c Pred \<and> symWidth c Pred = 1 \<and> \<not> isEncoded (Blaster s) Pred
            then case collectPermanentConjuncts c Pred kPermanentConjunctsMaxPermanentConjunctWork of
                   None \<Rightarrow> (True, s) | Some Leaves \<Rightarrow> assertLeaves c Leaves s
            else (True, s)) of
        (False, s) \<Rightarrow> (False, s)
      | (True, s) \<Rightarrow>
          (case literalFor c Pred s of
             (None, s) \<Rightarrow> (False, s)
           | (Some L, s) \<Rightarrow> (True, setEnc (snd (assertTrue L (encOf s))) s)))"

definition assertFalseRef :: "SymContext \<Rightarrow> SymRef \<Rightarrow> BitVectorSolver \<Rightarrow> bool \<times> BitVectorSolver" where
  "assertFalseRef c Pred s =
     (case literalFor c Pred s of
        (None, s) \<Rightarrow> (False, s)
      | (Some L, s) \<Rightarrow> (True, setEnc (snd (assertFalse L (encOf s))) s))"

section \<open>Questions\<close>

definition extractValue :: "SatEngine \<Rightarrow> LitVec \<Rightarrow> nat" where
  "extractValue t Bits = horner_sum of_bool 2 (map (\<lambda>L. modelValue t L = VTrue) Bits)"

definition extractModel :: "BitVectorSolver \<Rightarrow> BitVectorSolver" where
  "extractModel s =
     s\<lparr>SModel := fold (\<lambda>Id M. let Bits = variableBits (Blaster s) Id in
                          if Bits = [] then M else setModel Id (extractValue (satOf s) Bits) M)
                   (EncodedVars (Blaster s)) clearModel\<rparr>"

definition failedRefs :: "SatLit list \<Rightarrow> SymRef list \<Rightarrow> SatLit list \<Rightarrow> SymRef list" where
  "failedRefs Lits Assumptions Fs =
     List.map_filter (\<lambda>F. map_option snd (List.find (\<lambda>(L, A). L = F) (zip Lits Assumptions))) Fs"

definition finish :: "SatResult \<Rightarrow> SymRef list \<Rightarrow> SatLit list \<Rightarrow> BitVectorSolver \<Rightarrow> SatResult \<times> BitVectorSolver" where
  "finish R Assumptions Lits s =
     (let s = (if R = Sat \<and> BuildModel (SOptions s) then extractModel s else s);
          s = (if R = Unsat
               then s\<lparr>SFailed := SFailed s @ failedRefs Lits Assumptions (FailedAssumptions (satOf s))\<rparr> else s)
      in (R, s))"

fun literalsFor :: "SymContext \<Rightarrow> SymRef list \<Rightarrow> BitVectorSolver \<Rightarrow> SatLit list option \<times> BitVectorSolver" where
  "literalsFor c [] s = (Some [], s)"
| "literalsFor c (A # As) s =
     (case literalFor c A s of
        (None, s) \<Rightarrow> (None, s)
      | (Some L, s) \<Rightarrow> (case literalsFor c As s of (Ls, s) \<Rightarrow> (map_option (\<lambda>Ls. L # Ls) Ls, s)))"

definition check :: "SymContext \<Rightarrow> SymRef list \<Rightarrow> BitVectorSolver \<Rightarrow> (SatResult \<times> BitVectorSolver) option" where
  "check c Assumptions s =
     (let s = s\<lparr>SModel := clearModel, SFailed := []\<rparr> in
      if \<not> solverOk s then Some (resultForEncodingFailure (SError s), s)
      else
        case literalsFor c Assumptions s of
          (None, s) \<Rightarrow> Some (resultForEncodingFailure (SError s), s)
        | (Some Lits, s) \<Rightarrow>
            map_option (\<lambda>(R, t). finish R Assumptions Lits (setEnc ((encOf s)\<lparr>Solver := t\<rparr>) s))
              (solve Lits (satOf s)))"

definition checkSat :: "SymContext \<Rightarrow> SymRef \<Rightarrow> SolverOptions \<Rightarrow> (SatResult \<times> BitVectorModel option) option" where
  "checkSat c Pred Options =
     (case assertTrueRef c Pred (newSolver Options) of
        (False, s) \<Rightarrow> map_option (\<lambda>(R, s). (R, None)) (check c [] s)
      | (True, s) \<Rightarrow> map_option (\<lambda>(R, s). (R, if R = Sat then Some (SModel s) else None)) (check c [] s))"

end
