(* ===== verification/Bv_Conjuncts.thy ===== *)
theory Bv_Conjuncts
  imports Bv_Model
begin

text \<open>
  Models are sorted tables with the lookups of one, values fit their widths, and the conjuncts taken out
  of a fact follow from it.
\<close>

section \<open>Models are sorted tables\<close>

definition model_ok :: "BitVectorModel \<Rightarrow> bool" where
  "model_ok M \<longleftrightarrow> sorted_wrt (<) (VarIds M) \<and> length (MValues M) = length (VarIds M)"

text \<open>The place of a number splits a sorted list into what is below it and what is not.\<close>

lemma lowerBound_split:
  assumes "sorted_wrt (<) xs"
  obtains below above where "xs = below @ above" "lowerBound xs v = length below" "\<forall>x \<in> set below. x < v"
    "\<forall>x \<in> set above. v \<le> x" "v \<in> set xs \<longleftrightarrow> (\<exists>rest. above = v # rest)"
proof -
  let ?b = "takeWhile (\<lambda>x. x < v) xs" and ?a = "dropWhile (\<lambda>x. x < v) xs"
  have b: "\<forall>x \<in> set ?b. x < v" by (auto dest: set_takeWhileD)
  have sa: "sorted_wrt (<) ?a" using assms by (metis sorted_wrt_append takeWhile_dropWhile_id)
  have a: "\<forall>x \<in> set ?a. v \<le> x"
  proof (cases ?a)
    case Nil
    then show ?thesis by (simp only: list.set ball_empty)
  next
    case (Cons y ys)
    then have "\<not> y < v" using hd_dropWhile [of "\<lambda>x. x < v" xs] by simp
    with Cons sa show ?thesis by (auto intro: order_trans less_imp_le)
  qed
  have "v \<in> set xs \<longleftrightarrow> v \<in> set ?a" using b takeWhile_dropWhile_id [of "\<lambda>x. x < v" xs] by (metis Un_iff less_irrefl set_append)
  also have "\<dots> \<longleftrightarrow> (\<exists>rest. ?a = v # rest)"
  proof (cases ?a)
    case Nil
    then show ?thesis by (simp only: list.set empty_iff list.distinct simp_thms)
  next
    case (Cons y ys)
    then have "y = v" if "v \<in> set ?a" using a sa that by (auto simp: not_less [symmetric])
    then show ?thesis using Cons by auto
  qed
  finally show ?thesis using that [of ?b ?a] a b by (simp add: lowerBound_def)
qed

text \<open>A lookup is the one of the table of pairs.\<close>

lemma varValueIn_map_of:
  assumes "model_ok M"
  shows "varValueIn VarNo M = map_of (zip (VarIds M) (MValues M)) VarNo"
proof -
  have s: "sorted_wrt (<) (VarIds M)" and l: "length (MValues M) = length (VarIds M)" using assms by (simp_all add: model_ok_def)
  obtain below above where sp: "VarIds M = below @ above" "lowerBound (VarIds M) VarNo = length below" "\<forall>x \<in> set below. x < VarNo"
    "VarNo \<in> set (VarIds M) \<longleftrightarrow> (\<exists>rest. above = VarNo # rest)" using lowerBound_split [OF s] by metis
  show ?thesis
  proof (cases "VarNo \<in> set (VarIds M)")
    case True
    then obtain rest where a: "above = VarNo # rest" using sp(4) by blast
    have i: "modelIndexOf VarNo M = length below" using sp(1,2) a by (simp add: modelIndexOf_def Let_def)
    have "distinct (VarIds M)" using s by (simp add: strict_sorted_iff)
    then have "map_of (zip (VarIds M) (MValues M)) (VarIds M ! length below) = Some (MValues M ! length below)"
      using l sp(1) a by (intro map_of_zip_nth) auto
    then show ?thesis using i sp(1) a by (simp add: varValueIn_def Let_def)
  next
    case False
    have "modelIndexOf VarNo M = length (VarIds M)"
      using False sp(1,2,4) by (cases above) (auto simp: modelIndexOf_def Let_def)
    moreover have "map_of (zip (VarIds M) (MValues M)) VarNo = None" using False l by (simp add: map_of_zip_is_None)
    ultimately show ?thesis by (simp add: varValueIn_def Let_def)
  qed
qed

lemma setModel_ok:
  assumes "model_ok M"
  shows "model_ok (setModel VarNo Val M)"
    "varValueIn X (setModel VarNo Val M) = (if X = VarNo then Some Val else varValueIn X M)"
proof -
  let ?M = "setModel VarNo Val M"
  have s: "sorted_wrt (<) (VarIds M)" and l: "length (MValues M) = length (VarIds M)" using assms by (simp_all add: model_ok_def)
  obtain below above where sp: "VarIds M = below @ above" "lowerBound (VarIds M) VarNo = length below" "\<forall>x \<in> set below. x < VarNo"
    "\<forall>x \<in> set above. VarNo \<le> x" "VarNo \<in> set (VarIds M) \<longleftrightarrow> (\<exists>rest. above = VarNo # rest)" using lowerBound_split [OF s] by metis
  define us ws where "us = take (length below) (MValues M)" and "ws = drop (length below) (MValues M)"
  have v: "MValues M = us @ ws" "length us = length below" "length ws = length above"
    using l sp(1) by (simp_all add: us_def ws_def)
  have "model_ok ?M \<and> varValueIn X ?M = (if X = VarNo then Some Val else varValueIn X M)"
  proof (cases "\<exists>rest. above = VarNo # rest")
    case True
    then obtain rest w ws' where a: "above = VarNo # rest" "ws = w # ws'" using v(3) by (cases ws) auto
    have e: "?M = M\<lparr>MValues := us @ Val # ws'\<rparr>"
      using sp(1,2) a v(1,2) by (simp add: setModel_def Let_def list_update_append)
    have ok: "model_ok ?M" using assms v a by (simp add: e model_ok_def)
    have nb: "map_of (zip below us) VarNo = None" using sp(3) v(2) by (auto simp: map_of_zip_is_None)
    show ?thesis unfolding varValueIn_map_of [OF assms] varValueIn_map_of [OF ok]
      using ok v sp(1) a nb by (auto simp: e map_add_def simp del: map_of_zip_is_None split: option.splits)
  next
    case False
    have e: "?M = M\<lparr>VarIds := below @ VarNo # above, MValues := us @ Val # ws\<rparr>"
      using sp(1,2) False v(1,2) by (cases above) (auto simp: setModel_def Let_def)
    have "\<forall>x \<in> set above. VarNo < x" using sp(1,4,5) False by (metis Un_iff le_less set_append)
    then have ok: "model_ok ?M" using assms v sp(1,3) by (auto simp: e model_ok_def sorted_wrt_append)
    have nb: "map_of (zip below us) VarNo = None" using sp(3) v(2) by (auto simp: map_of_zip_is_None)
    show ?thesis unfolding varValueIn_map_of [OF assms] varValueIn_map_of [OF ok]
      using ok v sp(1) nb by (auto simp: e map_add_def simp del: map_of_zip_is_None split: option.splits)
  qed
  then show "model_ok ?M" "varValueIn X ?M = (if X = VarNo then Some Val else varValueIn X M)" by blast+
qed

lemma clearModel_ok [simp]: "model_ok clearModel" "varValueIn X clearModel = None"
  by (simp_all add: model_ok_def clearModel_def varValueIn_def modelIndexOf_def lowerBound_def)

text \<open>
  C18.  Recording values in a model, in any order and with repetitions, makes each lookup return the last
  value recorded, and nothing for a variable that has none; the numbers stay in ascending order.\<close>

theorem recorded_values_found:
  "sorted_wrt (<) (VarIds (fold (\<lambda>(V, x). setModel V x) Ps clearModel)) \<and>
   varValueIn X (fold (\<lambda>(V, x). setModel V x) Ps clearModel) = map_of (rev Ps) X"
proof -
  have "model_ok (fold (\<lambda>(V, x). setModel V x) Ps M) \<and>
      varValueIn X (fold (\<lambda>(V, x). setModel V x) Ps M) = (case map_of (rev Ps) X of None \<Rightarrow> varValueIn X M | Some v \<Rightarrow> Some v)"
    if "model_ok M" for M
    using that
  proof (induction Ps arbitrary: M)
    case (Cons P Ps)
    obtain V x where P: "P = (V, x)" by fastforce
    show ?case using Cons.IH [OF setModel_ok(1) [OF Cons.prems]] setModel_ok(2) [OF Cons.prems]
      by (auto simp: P map_add_def split: option.splits)
  qed simp
  from this [OF clearModel_ok(1)] show ?thesis unfolding model_ok_def by (simp split: option.splits)
qed

section \<open>Values fit their widths\<close>

lemma nat_bits_less: "a < 2 ^ n \<Longrightarrow> b < 2 ^ n \<Longrightarrow> a AND b < 2 ^ n" "a < 2 ^ n \<Longrightarrow> b < 2 ^ n \<Longrightarrow> a OR b < 2 ^ n"
  "a < 2 ^ n \<Longrightarrow> b < 2 ^ n \<Longrightarrow> a XOR b < 2 ^ n" for a b :: nat
  by (simp_all add: take_bit_nat_eq_self_iff [symmetric])

lemma foldl_less:
  assumes "\<And>a b. a < (m :: nat) \<Longrightarrow> b < m \<Longrightarrow> f a b < m" "x < m" "\<forall>y \<in> set ys. y < m"
  shows "foldl f x ys < m"
  using assms(2,3) by (induction ys arbitrary: x) (auto intro: assms(1))

lemma rotatedRight_less:
  assumes "a < 2 ^ W" "k \<le> W"
  shows "rotatedRight W a k < 2 ^ W"
proof -
  have w: "(2 :: nat) ^ W = 2 ^ (W - k) * 2 ^ k" using assms(2) by (simp add: power_add [symmetric])
  have "a div 2 ^ k < 2 ^ (W - k)" using assms(1) w by (simp add: less_mult_imp_div_less)
  moreover have "2 ^ (W - k) * (a mod 2 ^ k) \<le> 2 ^ (W - k) * (2 ^ k - 1)"
    by (intro mult_le_mono2) (simp add: less_Suc_eq_le [symmetric])
  ultimately have "rotatedRight W a k < 2 ^ (W - k) + 2 ^ (W - k) * (2 ^ k - 1)"
    unfolding rotatedRight_def by (rule add_less_le_mono)
  also have "\<dots> = 2 ^ W" by (simp add: w algebra_simps)
  finally show ?thesis .
qed

lemma concat_less:
  assumes "\<forall>(w, v) \<in> set Args. v < 2 ^ w" "acc < 2 ^ n"
  shows "foldl (\<lambda>acc (w, v). acc * 2 ^ w + v) acc Args < (2 :: nat) ^ (n + sum_list (map fst Args))"
  using assms
proof (induction Args arbitrary: acc n)
  case (Cons A Args)
  obtain w v where A: "A = (w, v)" by fastforce
  have "acc * 2 ^ w + v < (acc + 1) * 2 ^ w" using Cons.prems(1) A by simp
  also have "\<dots> \<le> 2 ^ n * 2 ^ w" using Cons.prems(2) by (intro mult_le_mono1) simp
  finally have "acc * 2 ^ w + v < 2 ^ (n + w)" by (simp add: power_add)
  from Cons.IH [OF _ this] Cons.prems(1) show ?case by (simp add: A add.assoc)
qed simp

lemma nat_mod_power_less: "nat (x mod 2 ^ W) < 2 ^ W" for x :: int
proof -
  have "x mod 2 ^ W < 2 ^ W" "0 \<le> x mod 2 ^ W" by simp_all
  then show ?thesis by (simp add: nat_less_iff)
qed

lemma opValue_less:
  assumes "shape_ok Op W Low (map fst Args)" "\<forall>(w, v) \<in> set Args. v < 2 ^ w" "0 < W" "Op \<noteq> SConst" "Op \<noteq> SVar"
  shows "opValue Op W Low Args < 2 ^ W"
proof -
  have same: "\<forall>v \<in> set (map snd Args). v < 2 ^ W" if "list_all (\<lambda>w. w = W) (map fst Args)"
    using assms(2) that by (fastforce simp: list_all_iff)
  have nary: "snd (hd Args) < 2 ^ W" "\<forall>v \<in> set (map snd (tl Args)). v < 2 ^ W" if "list_all (\<lambda>w. w = W) (map fst Args)" "Args \<noteq> []"
    using same [OF that(1)] that(2) by (cases Args; simp)+
  have rot: "rotatedRight W a (W - b mod W) < 2 ^ W" "rotatedRight W a (b mod W) < 2 ^ W" if "a < 2 ^ W" for a b
    using rotatedRight_less [OF that] mod_less_divisor [OF assms(3), of b] by (simp_all add: less_imp_le)
  show ?thesis
  proof (cases Op)
    case SAnd
    then show ?thesis using assms(1) nary nat_bits_less(1) by (auto intro!: foldl_less)
  next
    case SOr
    then show ?thesis using assms(1) nary nat_bits_less(2) by (auto intro!: foldl_less)
  next
    case SXor
    then show ?thesis using assms(1) nary nat_bits_less(3) by (auto intro!: foldl_less)
  next
    case SConcat
    then show ?thesis using assms(1) concat_less [OF assms(2), of 0 0] by simp
  qed (use assms rot in \<open>auto simp: nat_mod_power_less [unfolded numeral_2_eq_2] length_Suc_conv numeral_2_eq_2 le_less_trans [OF div_le_dividend]
      le_less_trans [OF mod_less_eq_dividend]
      intro: less_le_trans [OF _ power_increasing] split: if_splits\<close>)
qed

lemma symValue_less:
  assumes "ctx_ok c" "unat R < numNodes c"
  shows "symValue c \<rho> R < 2 ^ widthOf c R"
  using assms(2)
proof (induction "unat R" arbitrary: R rule: less_induct)
  case less
  note ok = ctx_okD(1) [OF assms(1) less.prems]
  have ops: "symValue c \<rho> x < 2 ^ widthOf c x" if "x \<in> set (operands c R)" for x
    by (rule less.hyps) (use ctx_okD(2) [OF assms(1) less.prems that] less.prems in auto)
  have W: "0 < widthOf c R" using ok by (simp add: node_ok_def unat_gt_0)
  let ?A = "map (\<lambda>x. (widthOf c x, symValue c \<rho> x)) (operands c R)"
  have "shape_ok (NOp (node c R)) (widthOf c R) (unat (ucast (NAux (node c R)) :: u32)) (map fst ?A)"
    using ok by (simp add: node_ok_def comp_def)
  moreover have "\<forall>(w, v) \<in> set ?A. v < 2 ^ w" using ops by auto
  ultimately have "NOp (node c R) \<noteq> SConst \<Longrightarrow> NOp (node c R) \<noteq> SVar \<Longrightarrow>
      opValue (NOp (node c R)) (widthOf c R) (unat (ucast (NAux (node c R)) :: u32)) ?A < 2 ^ widthOf c R"
    using opValue_less W by blast
  then show ?case using ok unfolding symValue_eq [OF assms(1) less.prems] nodeValue_def
    by (auto simp: Let_def symWidth_def node_ok_def)
qed

section \<open>Conjuncts follow from the fact\<close>

text \<open>A reference with a sign holds under a valuation when it is nonzero exactly for a positive sign.\<close>

definition signed_holds :: "SymContext \<Rightarrow> (u32 \<Rightarrow> nat) \<Rightarrow> SymRef \<times> bool \<Rightarrow> bool" where
  "signed_holds c \<rho> X \<longleftrightarrow> (symValue c \<rho> (fst X) \<noteq> 0) = snd X"

lemma foldl_and_nonzero: "foldl (AND) a bs \<noteq> 0 \<Longrightarrow> a \<noteq> 0 \<and> (\<forall>b \<in> set bs. b \<noteq> 0)" for a :: nat
proof (induction bs arbitrary: a)
  case (Cons b bs)
  have "a AND b \<noteq> 0 \<and> (\<forall>x \<in> set bs. x \<noteq> 0)" by (rule Cons.IH) (use Cons.prems in simp)
  then show ?case by (cases "a = 0"; cases "b = 0") simp_all
qed simp

lemma foldl_or_zero: "foldl (OR) a bs = 0 \<Longrightarrow> a = 0 \<and> (\<forall>b \<in> set bs. b = 0)" for a :: nat
proof (induction bs arbitrary: a)
  case (Cons b bs)
  have "a OR b = 0 \<and> (\<forall>x \<in> set bs. x = 0)" by (rule Cons.IH) (use Cons.prems in simp)
  then show ?case by (simp add: or_eq_0_iff)
qed simp

lemma operand_conjuncts:
  assumes "ctx_ok c" "unat R < numNodes c" "signed_holds c \<rho> (R, Pos)"
    "NOp (node c R) = SAnd \<and> Pos \<or> NOp (node c R) = SOr \<and> \<not> Pos" "A \<in> set (operands c R)"
  shows "signed_holds c \<rho> (A, Pos)"
proof -
  let ?v = "map (symValue c \<rho>) (operands c R)"
  have v: "symValue c \<rho> A \<in> insert (hd ?v) (set (tl ?v))" using assms(5) by (cases "operands c R") auto
  have hd: "hd ?v = snd (hd (map (\<lambda>x. (widthOf c x, symValue c \<rho> x)) (operands c R)))" using assms(5) by (cases "operands c R") auto
  have tl: "tl ?v = map snd (tl (map (\<lambda>x. (widthOf c x, symValue c \<rho> x)) (operands c R)))" by (cases "operands c R") auto
  note e = symValue_eq [OF assms(1,2), of \<rho>]
  show ?thesis
  proof (cases Pos)
    case True
    then have "foldl (AND) (hd ?v) (tl ?v) \<noteq> 0" using assms(3,4) e by (simp add: signed_holds_def nodeValue_def Let_def hd tl)
    from foldl_and_nonzero [OF this] v show ?thesis using True by (auto simp: signed_holds_def)
  next
    case False
    then have "foldl (OR) (hd ?v) (tl ?v) = 0" using assms(3,4) e by (simp add: signed_holds_def nodeValue_def Let_def hd tl)
    from foldl_or_zero [OF this] v show ?thesis using False by (auto simp: signed_holds_def)
  qed
qed

lemma negated_conjunct:
  assumes "ctx_ok c" "unat R < numNodes c" "signed_holds c \<rho> (R, Pos)" "NOp (node c R) = SNot" "symWidth c R = 1"
  shows "signed_holds c \<rho> (operands c R ! 0, \<not> Pos)"
proof -
  have "shape_ok (NOp (node c R)) (widthOf c R) (unat (ucast (NAux (node c R)) :: u32)) (map (widthOf c) (operands c R))"
    using ctx_okD(1) [OF assms(1,2)] by (simp add: node_ok_def)
  then obtain A where A: "operands c R = [A]" using assms(4) by auto
  have "symValue c \<rho> R = 1 - symValue c \<rho> A"
    using assms(4,5) by (simp add: symValue_eq [OF assms(1,2)] nodeValue_def Let_def A symWidth_def)
  then show ?thesis using assms(3) by (auto simp: signed_holds_def A)
qed

text \<open>An equation between zero or one and a widened bit is a fact about the bit.\<close>

lemma expandEq_conjunct:
  assumes ctx: "ctx_ok c" and r: "unat Number < numNodes c" "unat Other < numNodes c"
    and e: "expandEq c Pos Number Other n = Some (k, Some Item)"
    and h: "(symValue c \<rho> Number = symValue c \<rho> Other) = Pos"
  shows "signed_holds c \<rho> Item \<and> validBoolean c (fst Item)"
proof -
  let ?B = "operands c Other ! 0"
  have g: "NOp (node c Number) = SConst" "NOp (node c Other) = SZExt" "validBoolean c ?B"
    "constValue c Number = 0 \<or> constValue c Number = 1" "Item = (?B, Pos = (constValue c Number = 1))"
    using e by (auto simp: expandEq_def Let_def split: if_splits)
  have "shape_ok (NOp (node c Other)) (widthOf c Other) (unat (ucast (NAux (node c Other)) :: u32)) (map (widthOf c) (operands c Other))"
    using ctx_okD(1) [OF ctx r(2)] by (simp add: node_ok_def)
  then obtain A where A: "operands c Other = [A]" using g(2) by (auto simp: length_Suc_conv)
  have n: "symValue c \<rho> Number = constValue c Number"
    using g(1) by (simp add: symValue_eq [OF ctx r(1)] nodeValue_def Let_def)
  have o: "symValue c \<rho> Other = symValue c \<rho> A"
    using g(2) by (simp add: symValue_eq [OF ctx r(2)] nodeValue_def Let_def A)
  have b: "symValue c \<rho> A < 2"
    using symValue_less [OF ctx, of A \<rho>] g(3) by (simp add: validBoolean_def A)
  have "(symValue c \<rho> A \<noteq> 0) = (Pos = (constValue c Number = 1))" using h n o b g(4) by auto
  then show ?thesis using g(3,5) by (simp add: signed_holds_def A)
qed

lemma equation_conjunct:
  assumes ctx: "ctx_ok c" and R: "unat R < numNodes c" and h: "signed_holds c \<rho> (R, Pos)" and op: "NOp (node c R) = SEq"
    and e: "expandSides c Pos (operands c R) n = Some (k, Some Item)"
  shows "signed_holds c \<rho> Item \<and> validBoolean c (fst Item)"
proof -
  have "shape_ok (NOp (node c R)) (widthOf c R) (unat (ucast (NAux (node c R)) :: u32)) (map (widthOf c) (operands c R))"
    using ctx_okD(1) [OF ctx R] by (simp add: node_ok_def)
  then obtain A B where AB: "operands c R = [A, B]" using op by (auto simp: length_Suc_conv numeral_2_eq_2)
  have v: "(symValue c \<rho> A = symValue c \<rho> B) = Pos"
    using h op by (simp add: signed_holds_def symValue_eq [OF ctx R] nodeValue_def Let_def AB)
  then have v': "(symValue c \<rho> B = symValue c \<rho> A) = Pos" by (simp add: eq_commute)
  have r: "unat A < numNodes c" "unat B < numNodes c"
    using ctx_okD(2) [OF ctx R, of A] ctx_okD(2) [OF ctx R, of B] R by (simp_all add: AB)
  from e consider "expandEq c Pos A B n = Some (k, Some Item)" | j where "expandEq c Pos B A j = Some (k, Some Item)"
    by (auto simp: expandSides_def AB split: option.splits)
  then show ?thesis
    using expandEq_conjunct [OF ctx r _ v] expandEq_conjunct [OF ctx r(2,1) _ v'] by cases blast+
qed

text \<open>A round goes on with references that hold whenever those before it did.\<close>

lemma conjunctLoop_round:
  assumes ctx: "ctx_ok c" and W: "Work \<noteq> []" and l: "conjunctLoop c n Work Known Leaves = Some Out"
  shows "\<exists>n' Work' Known' Leaves'. n' < n \<and> conjunctLoop c n' Work' Known' Leaves' = Some Out \<and>
    ((\<forall>X \<in> set Work \<union> set Leaves. signed_holds c \<rho> X) \<longrightarrow> (\<forall>X \<in> set Work' \<union> set Leaves'. signed_holds c \<rho> X)) \<and>
    (\<forall>X \<in> set Leaves'. X \<in> set Leaves \<or> validBoolean c (fst X))"
proof -
  define At Pos where "At = fst (last Work)" and "Pos = snd (last Work)"
  define Key where "Key = push_bit 1 (ucast At :: u64) OR of_bool Pos"
  let ?Op = "NOp (node c At)" and ?A = "operands c At" and ?W = "butlast Work"
  let ?h = "\<forall>X \<in> set Work \<union> set Leaves. signed_holds c \<rho> X"
  have at: "?h \<Longrightarrow> signed_holds c \<rho> (At, Pos)" using W by (simp add: At_def Pos_def)
  have rest: "?h \<Longrightarrow> \<forall>X \<in> set ?W. signed_holds c \<rho> X" by (auto dest: in_set_butlastD)
  note e = l [unfolded conjunctLoop.simps [of c n], folded At_def Pos_def, unfolded Let_def, folded Key_def]
  have n: "0 < n" and v: "validBoolean c At" using e W by (auto split: if_splits)
  have R: "unat At < numNodes c" "symWidth c At = 1" using v by (simp_all add: validBoolean_def)
  note e = e [simplified W n v not_less One_nat_def simp_thms if_False if_True]
  consider (known) "Key \<in> Known" | (nary) "Key \<notin> Known" "?Op = SAnd \<and> Pos \<or> ?Op = SOr \<and> \<not> Pos"
    | (neg) "Key \<notin> Known" "?Op = SNot" | (eq) "Key \<notin> Known" "?Op = SEq"
    | (leaf) "Key \<notin> Known" "\<not> (?Op = SAnd \<and> Pos \<or> ?Op = SOr \<and> \<not> Pos)" "?Op \<noteq> SNot" "?Op \<noteq> SEq" by blast
  moreover have go_on: ?thesis if "conjunctLoop c n' W' K' L' = Some Out" "n' < n" "?h \<Longrightarrow> \<forall>X \<in> set W' \<union> set L'. signed_holds c \<rho> X"
      "\<forall>X \<in> set L'. X \<in> set Leaves \<or> X = (At, Pos)" for n' W' K' L'
    using that v by (intro exI [of _ n'] exI [of _ W'] exI [of _ K'] exI [of _ L']) auto
  ultimately show ?thesis
  proof cases
    case known
    then have "conjunctLoop c (n - 1) ?W Known Leaves = Some Out" using e n v W by simp
    then show ?thesis by (rule go_on) (use n rest in auto)
  next
    case nary
    then have "conjunctLoop c (n - 1 - length ?A) (?W @ map (\<lambda>A. (A, Pos)) ?A) (insert Key Known) Leaves = Some Out"
      using e n v W by (simp split: if_splits)
    then show ?thesis by (rule go_on) (use n rest operand_conjuncts [OF ctx R(1) at nary(2)] in auto)
  next
    case neg
    then have "conjunctLoop c (n - 1 - 1) (?W @ [(?A ! 0, \<not> Pos)]) (insert Key Known) Leaves = Some Out"
      using e n v W by (simp split: if_splits)
    then show ?thesis by (rule go_on) (use n rest negated_conjunct [OF ctx R(1) at neg(2) R(2)] in auto)
  next
    case leaf
    then have "conjunctLoop c (n - 1) ?W (insert Key Known) (Leaves @ [(At, Pos)]) = Some Out"
      using e n v W by (auto split: if_splits)
    then show ?thesis by (rule go_on) (use n rest at in auto)
  next
    case eq
    then obtain k x where x: "expandSides c Pos ?A (n - 1 - 2) = Some (k, x)"
      "conjunctLoop c k (case x of None \<Rightarrow> ?W | Some Item \<Rightarrow> ?W @ [Item]) (insert Key Known)
        (case x of None \<Rightarrow> Leaves @ [(At, Pos)] | Some Item \<Rightarrow> Leaves) = Some Out"
      using e n v W by (auto split: if_splits option.splits)
    have k: "k < n" using expandSides_le [OF x(1)] n by simp
    show ?thesis
    proof (cases x)
      case None
      show ?thesis by (rule go_on [OF x(2) k]) (use None rest at in auto)
    next
      case (Some Item)
      then have "?h \<Longrightarrow> signed_holds c \<rho> Item" using equation_conjunct [OF ctx R(1) at eq(2)] x(1) by blast
      then show ?thesis by (intro go_on [OF x(2) k]) (use Some rest in auto)
    qed
  qed
qed

lemma conjunctLoop_entailed:
  assumes "ctx_ok c" "conjunctLoop c n Work Known Leaves = Some Out"
  shows "(\<forall>X \<in> set Work \<union> set Leaves. signed_holds c \<rho> X) \<longrightarrow> (\<forall>X \<in> set Out. signed_holds c \<rho> X)"
    "\<forall>X \<in> set Leaves. validBoolean c (fst X) \<Longrightarrow> \<forall>X \<in> set Out. validBoolean c (fst X)"
proof -
  have "((\<forall>X \<in> set Work \<union> set Leaves. signed_holds c \<rho> X) \<longrightarrow> (\<forall>X \<in> set Out. signed_holds c \<rho> X)) \<and>
    ((\<forall>X \<in> set Leaves. validBoolean c (fst X)) \<longrightarrow> (\<forall>X \<in> set Out. validBoolean c (fst X)))"
    using assms(2)
  proof (induction n arbitrary: Work Known Leaves rule: less_induct)
    case (less n)
    show ?case
    proof (cases "Work = []")
      case True
      then show ?thesis using less.prems by (simp add: conjunctLoop.simps)
    next
      case False
      from conjunctLoop_round [OF assms(1) False less.prems, of \<rho>] obtain n' Work' Known' Leaves' where
        r: "n' < n" "conjunctLoop c n' Work' Known' Leaves' = Some Out"
        "(\<forall>X \<in> set Work \<union> set Leaves. signed_holds c \<rho> X) \<longrightarrow> (\<forall>X \<in> set Work' \<union> set Leaves'. signed_holds c \<rho> X)"
        "\<forall>X \<in> set Leaves'. X \<in> set Leaves \<or> validBoolean c (fst X)" by blast
      from less.IH [OF r(1,2)] r(3,4) show ?thesis by blast
    qed
  qed
  then show "(\<forall>X \<in> set Work \<union> set Leaves. signed_holds c \<rho> X) \<longrightarrow> (\<forall>X \<in> set Out. signed_holds c \<rho> X)"
    "\<forall>X \<in> set Leaves. validBoolean c (fst X) \<Longrightarrow> \<forall>X \<in> set Out. validBoolean c (fst X)" by blast+
qed

lemma set_stableSort [simp]: "set (stableSort lt xs) = set xs"
proof -
  have "set (insertBy lt x ys) = insert x (set ys)" for x ys by (induction ys) auto
  then show ?thesis by (induction xs) (simp_all add: stableSort_def)
qed

lemma conjuncts_entailed:
  assumes "ctx_ok c" "collectPermanentConjuncts c Pred MaxWork = Some Leaves" "X \<in> set Leaves"
  shows "symValue c \<rho> Pred \<noteq> 0 \<Longrightarrow> signed_holds c \<rho> X" "validBoolean c (fst X)"
proof -
  obtain Out n where o: "conjunctLoop c n [(Pred, True)] {} [] = Some Out" "set Leaves = set Out"
    using assms(2) by (auto simp: collectPermanentConjuncts_def Let_def split: if_splits)
  show "validBoolean c (fst X)" using conjunctLoop_entailed(2) [OF assms(1) o(1)] assms(3) o(2) by simp
  assume "symValue c \<rho> Pred \<noteq> 0"
  then show "signed_holds c \<rho> X"
    using conjunctLoop_entailed(1) [OF assms(1) o(1), of \<rho>] assms(3) o(2) by (simp add: signed_holds_def)
qed

end
