(* ===== verification/Bv_Invariant.thy ===== *)
theory Bv_Invariant
  imports Bv_Conjuncts
begin

text \<open>
  The invariant of the solver.  \<open>means\<close> says of a blaster that its clauses stand for a set of
  valuations: every model spells one of them and each is spelled by a model.  The literal of a predicate
  keeps the set, an assertion cuts it down to the valuations that satisfy the predicate.
\<close>

section \<open>The clause store under an encoder\<close>

definition ready :: "SatEngine \<Rightarrow> bool" where
  "ready s \<longleftrightarrow> solver_ok s \<and> decides_rest s"

lemma ready_engine: "ready s \<Longrightarrow> engine_ok s"
  by (simp add: ready_def solver_ok_def)

lemma grown_ready: "grown s t \<Longrightarrow> ready s \<Longrightarrow> ready t \<and> Opts t = Opts s"
proof (induction rule: grown.induct)
  case (grown_var s t)
  then show ?case using newVar_solver [OF _ prod.collapse [symmetric], of t True] newVar_decides [of t] by (simp add: ready_def)
next
  case (grown_clause s t C)
  then show ?case
    using addClause_solver [OF _ prod.collapse [symmetric], of t C] addClause_decides [of t C] addClause_choices [of t C]
    by (simp add: ready_def)
qed simp

lemma enc_mono_ready: "enc_mono e e' \<Longrightarrow> ready (Solver e) \<Longrightarrow> ready (Solver e') \<and> Opts (Solver e') = Opts (Solver e)"
  by (rule grown_ready) (simp_all add: enc_mono_def)

lemma newEncoder_ready: "ready (Solver (newEncoder (newEngine Options)))"
proof -
  obtain v t where t: "newVar False (newEngine Options) = (v, t)" by fastforce
  have "solver_ok t" by (rule newVar_solver [OF newEngine_solver t])
  moreover have "decides_rest t" using t by (auto simp: decides_rest_def newVar_def newEngine_def numVars_def Let_def split: if_splits)
  ultimately have "ready t" by (simp add: ready_def)
  moreover have "grown t (snd (addClause C t))" for C by (rule grown_clause) simp
  ultimately have "ready (snd (addClause C t))" for C using grown_ready by blast
  then show ?thesis by (simp add: newEncoder_def t Let_def case_prod_beta)
qed

section \<open>Asserting a literal\<close>

lemma enc_mono_assertTrue: "enc_mono e (snd (assertTrue L e))"
  using engine.add_ok [of "Solver e" "[L]", OF _ prod.collapse [symmetric]] grown_clause [OF grown_refl, of "Solver e" "[L]"]
  by (auto simp: enc_mono_def assertTrue_def enc_full_def split: prod.splits)

lemma assertTrue_ok:
  assumes ok: "enc_ok e" and L: "unat (var L) < nv e" and nf: "\<not> enc_full (snd (assertTrue L e))"
  shows "enc_ok (snd (assertTrue L e))" "mods (snd (assertTrue L e)) = {m \<in> mods e. lit_true m L}"
    "nv (snd (assertTrue L e)) = nv e" "enc_total (snd (assertTrue L e)) = enc_total e"
proof -
  obtain b t where a: "addClause [L] (Solver e) = (b, t)" by fastforce
  have e: "snd (assertTrue L e) = e\<lparr>Solver := t\<rparr>" by (simp add: assertTrue_def a)
  note k = engine.add_ok [OF enc_okD(1) [OF ok] a]
  have ne: "\<not> exhausted t" using nf by (auto simp: e enc_full_def)
  have rm: "root_models t = {m \<in> mods e. lit_true m L}" using k ne L by (auto simp: mods_def nv_def clause_true_def)
  have n: "numVars t = nv e" using k by (simp add: nv_def)
  show "enc_ok (snd (assertTrue L e))" unfolding e by (rule enc_ok_engine [OF ok]) (use k rm n in auto)
  show "mods (snd (assertTrue L e)) = {m \<in> mods e. lit_true m L}" "nv (snd (assertTrue L e)) = nv e"
    using rm n by (simp_all add: e mods_def nv_def)
  show "enc_total (snd (assertTrue L e)) = enc_total e" by (simp add: e enc_total_def)
qed

section \<open>The blaster under the solver\<close>

text \<open>Every encoded variable is listed, and its bits are literals of their own.\<close>

definition vars_listed :: "BitBlaster \<Rightarrow> bool" where
  "vars_listed b \<longleftrightarrow> (\<forall>Id S. VarSlices b Id = Some S \<longrightarrow>
     Id \<in> set (EncodedVars b) \<and> SFirst S + unat (SWidth S) \<le> length (BitPool b) \<and> (\<forall>L \<in> set (sliceBits b S). \<not> isNegated L))"

lemma isNegated_positive [simp]: "\<not> isNegated (positive V)"
  by (simp add: positive_def)

lemma freshBits_positive: "L \<in> set (fst (freshBits n e)) \<Longrightarrow> \<not> isNegated L"
  by (induction n arbitrary: e) (auto simp: freshLit_def case_prod_beta)

lemma sliceBits_append: "SFirst S + unat (SWidth S) \<le> length (BitPool b) \<Longrightarrow> sliceBits (storeBits R Bits b) S = sliceBits b S"
  by (simp add: sliceBits_def storeBits_def)

lemma storeBits_new: "unat (word_of_nat (length Bits) :: u32) = length Bits \<Longrightarrow> Encoded (storeBits R Bits b) R = Some S \<Longrightarrow> sliceBits (storeBits R Bits b) S = Bits"
  by (auto simp: sliceBits_def storeBits_def)

lemma sliceBits_fields [simp]: "sliceBits (b\<lparr>VarSlices := V\<rparr>) = sliceBits b" "sliceBits (b\<lparr>EncodedVars := Ids\<rparr>) = sliceBits b"
  "sliceBits (b\<lparr>Enc := e\<rparr>) = sliceBits b"
  by (simp_all add: fun_eq_iff sliceBits_def)

lemma vars_listed_fields [simp]: "vars_listed (b\<lparr>Enc := e\<rparr>) = vars_listed b" "vars_listed (b\<lparr>BError := E\<rparr>) = vars_listed b"
  by (simp_all add: vars_listed_def sliceBits_def)

lemma encodeNode_listed:
  assumes "vars_listed b" "encodeNode c R b = (Done, b')"
  shows "vars_listed b'"
proof -
  have st: "vars_listed (storeBits R Bits b)" for R Bits
    using assms(1) by (auto simp: vars_listed_def sliceBits_append intro: trans_le_add1)
  have var: "vars_listed ((storeBits R Bits b)\<lparr>Enc := e, VarSlices := (VarSlices b)(Id := Encoded (storeBits R Bits b) R), EncodedVars := EncodedVars b @ [Id]\<rparr>)"
    if Bits: "unat (word_of_nat (length Bits) :: u32) = length Bits" "\<forall>L \<in> set Bits. \<not> isNegated L" for Bits Id e
  proof -
    let ?u = "storeBits R Bits b"
    obtain S where S: "Encoded ?u R = Some S" by (simp add: storeBits_def)
    have "sliceBits ?u S = Bits" "SFirst S + unat (SWidth S) \<le> length (BitPool ?u)"
      using storeBits_new [OF Bits(1) S] S Bits(1) by (simp_all add: storeBits_def, auto)
    then show ?thesis using Bits(2) S st [of R Bits] by (auto simp: vars_listed_def)
  qed
  show ?thesis
  proof (cases "nodeCircuit c R (map (bitsOf b) (operands c R)) (Enc b)")
    case None
    then show ?thesis using assms by (auto simp: encodeNode_def Let_def blastFail_def split: if_splits)
  next
    case (Some X)
    obtain Result e where X: "X = (Result, e)" by fastforce
    show ?thesis
    proof (cases "NOp (node c R) = SVar")
      case True
      then have "Result = fst (freshBits (unat (NWidth (node c R))) (Enc b))" using Some X by (simp add: nodeCircuit_def Let_def)
      then have "\<forall>L \<in> set Result. \<not> isNegated L" "length Result = unat (NWidth (node c R))"
        using freshBits_positive by auto
      with var [of Result] show ?thesis using assms True Some X
        by (auto simp: encodeNode_def Let_def blastFail_def storeBits_Enc split: if_splits)
    next
      case False
      then show ?thesis using assms st Some X
        by (auto simp: encodeNode_def Let_def blastFail_def storeBits_Enc split: if_splits)
    qed
  qed
qed

lemma encodeAll_listed: "vars_listed b \<Longrightarrow> encodeAll c Ord b = (Done, b') \<Longrightarrow> vars_listed b'"
proof (induction Ord arbitrary: b)
  case (Cons R Ord)
  obtain D u where u: "encodeNode c R b = (D, u)" by fastforce
  have "vars_listed u" by (rule encodeNode_listed [OF Cons.prems(1) u])
  then show ?case using Cons.IH [of u] Cons.prems(2) u by (auto simp: blastFail_def split: if_splits)
qed simp

lemma encodeReachable_listed: "vars_listed b \<Longrightarrow> encodeReachable c R b = (Done, b') \<Longrightarrow> vars_listed b'"
  using encodeAll_listed by (auto simp: encodeReachable_def Let_def blastFail_def split: if_splits)

lemma encodeReachable_mono: "enc_mono (Enc b) (Enc (snd (encodeReachable c R b)))"
  by (auto simp: encodeReachable_def Let_def blastFail_def intro: encodeAll_mono)

section \<open>What the asserted facts mean\<close>

text \<open>The clauses mean the valuations \<open>S\<close>: a model spells one of them, and each of them is spelled by a model.\<close>

definition means :: "SymContext \<Rightarrow> BitBlaster \<Rightarrow> (u32 \<Rightarrow> nat) set \<Rightarrow> bool" where
  "means c b S \<longleftrightarrow>
     (\<forall>m \<rho>. m \<in> mods (Enc b) \<longrightarrow> env_agrees c b m \<rho> \<longrightarrow> \<rho> \<in> S) \<and>
     (\<forall>\<rho> \<in> S. \<exists>m \<in> mods (Enc b). env_agrees c b m \<rho>)"

definition extends :: "BitBlaster \<Rightarrow> BitBlaster \<Rightarrow> bool" where
  "extends b b' \<longleftrightarrow> nv (Enc b) \<le> nv (Enc b') \<and> mods (Enc b') \<subseteq> mods (Enc b) \<and>
     (\<forall>Q. isEncoded b Q \<longrightarrow> isEncoded b' Q \<and> bitsOf b' Q = bitsOf b Q)"

definition lit_means :: "SymContext \<Rightarrow> BitBlaster \<Rightarrow> SatLit \<Rightarrow> SymRef \<Rightarrow> bool" where
  "lit_means c b L R \<longleftrightarrow> unat (var L) < nv (Enc b) \<and>
     (\<forall>m \<rho>. m \<in> mods (Enc b) \<longrightarrow> env_agrees c b m \<rho> \<longrightarrow> (lit_true m L \<longleftrightarrow> symValue c \<rho> R \<noteq> 0))"

lemma extends_refl [simp]: "extends b b"
  by (simp add: extends_def)

lemma extends_trans: "extends b b' \<Longrightarrow> extends b' b'' \<Longrightarrow> extends b b''"
  by (auto simp: extends_def)

lemma extends_agrees: "extends b b' \<Longrightarrow> env_agrees c b' m \<rho> \<Longrightarrow> env_agrees c b m \<rho>"
  by (auto simp: extends_def env_agrees_def)

lemma lit_means_extends:
  assumes "lit_means c b L R" "extends b b'"
  shows "lit_means c b' L R"
  unfolding lit_means_def
proof (intro conjI allI impI)
  show "unat (var L) < nv (Enc b')" using assms by (simp add: lit_means_def extends_def)
  fix m \<rho> assume "m \<in> mods (Enc b')" "env_agrees c b' m \<rho>"
  then have "m \<in> mods (Enc b)" "env_agrees c b m \<rho>" using assms(2) extends_agrees [OF assms(2)] by (auto simp: extends_def)
  then show "lit_true m L \<longleftrightarrow> symValue c \<rho> R \<noteq> 0" using assms(1) unfolding lit_means_def by blast
qed

lemma step_extends: "blast_step c b b' \<Longrightarrow> extends b b'"
  by (auto simp: blast_step_def extends_def good_def)

lemma step_means:
  assumes "blast_step c b b'" "enc_total (Enc b)" "means c b S"
  shows "means c b' S" "enc_total (Enc b')" "blaster_inv c b'"
proof -
  note x = step_extends [OF assms(1)]
  show "blaster_inv c b'" "enc_total (Enc b')" using assms(1,2) by (simp_all add: blast_step_def good_def)
  show "means c b' S"
    unfolding means_def
  proof (intro conjI allI impI ballI)
    fix m \<rho> assume "m \<in> mods (Enc b')" "env_agrees c b' m \<rho>"
    then show "\<rho> \<in> S" using extends_agrees [OF x] x assms(3) unfolding means_def extends_def by blast
  next
    fix \<rho> assume "\<rho> \<in> S"
    then obtain m where "m \<in> mods (Enc b)" "env_agrees c b m \<rho>" using assms(3) by (auto simp: means_def)
    then show "\<exists>m \<in> mods (Enc b'). env_agrees c b' m \<rho>" using assms(1,2) unfolding blast_step_def by blast
  qed
qed

text \<open>Gates on top of the bits are a step of the blaster as well.\<close>

lemma gate_step:
  assumes inv: "blaster_inv c b" and g: "good (Enc b) e"
  shows "blast_step c b (b\<lparr>Enc := e\<rparr>)"
proof -
  note i = blaster_invD [OF inv]
  have "blaster_inv c (b\<lparr>Enc := e\<rparr>)"
    using i goodD(1) [OF g] goodD(2) [OF g] goodD(3) [OF g] by (auto simp: blaster_inv_def intro: inr_mono)
  moreover have "\<exists>m' \<in> mods e. agree (nv (Enc b)) m m' \<and> env_agrees c b m' \<rho>"
    if "enc_total (Enc b)" "m \<in> mods (Enc b)" "env_agrees c b m \<rho>" for m \<rho>
    using g that env_agrees_agree [OF inv] unfolding good_def conservative_def by blast
  ultimately show ?thesis using g by (simp add: blast_step_def)
qed

section \<open>The invariant of the solver\<close>

definition front_ok :: "SymContext \<Rightarrow> (u32 \<Rightarrow> nat) set \<Rightarrow> BitVectorSolver \<Rightarrow> bool" where
  "front_ok c S s \<longleftrightarrow> blaster_inv c (Blaster s) \<and> vars_listed (Blaster s) \<and> enc_total (encOf s) \<and> ready (satOf s) \<and>
     means c (Blaster s) S \<and> (solverOk s \<longrightarrow> blasterOk (Blaster s))"

lemma newSolver_ok:
  assumes "\<not> enc_full (encOf (newSolver Options))"
  shows "front_ok c UNIV (newSolver Options)"
proof -
  let ?e = "newEncoder (newEngine (OSat Options))"
  have "\<not> exhausted (Solver ?e)" using assms by (simp add: newSolver_def newBlaster_def enc_full_def)
  note e = newEncoder_ok [OF newEngine_ok(1) this]
  have r: "ready (Solver ?e)" by (rule newEncoder_ready)
  have "\<exists>m. m \<in> mods ?e"
    using e newEngine_ok(2) by (auto simp: lit_true_def intro!: exI [of _ "\<lambda>_. \<not> isNegated (TrueLit ?e)"])
  then show ?thesis using e r newBlaster_inv [of ?e c "OBlast Options"]
    by (auto simp: front_ok_def newSolver_def vars_listed_def means_def env_agrees_def newBlaster_def isEncoded_def blasterOk_def)
qed

lemma blastPredicate_reach:
  "refInContext c R \<Longrightarrow> symWidth c R = 1 \<Longrightarrow> blasterOk b \<Longrightarrow>
   blastPredicate c R L b = (case encodeReachable c R b of (Done, b) \<Rightarrow> ((Done, if Done then bitsOf b R ! 0 else L), b))"
  by (auto simp: blastPredicate_def refInContext_def split: prod.splits)

lemma blast_reach:
  "blasterOk b \<Longrightarrow> blast c R b = (case encodeReachable c R b of (Done, b) \<Rightarrow> ((Done, if Done then bitsOf b R else []), b))"
  by (auto simp: blast_def split: prod.splits)

lemma one_bit_value: "length Bits = 1 \<Longrightarrow> lit_true m (Bits ! 0) \<longleftrightarrow> bitsVal m Bits \<noteq> 0"
  by (cases Bits) auto

lemma bitsVal_nonzero: "bitsVal m Bits \<noteq> 0 \<longleftrightarrow> (\<exists>L \<in> set Bits. lit_true m L)"
  by (induction Bits) auto

section \<open>The literal of a predicate\<close>

lemma encOf_setEnc [simp]: "encOf (setEnc e s) = e" "Blaster (setEnc e s) = (Blaster s)\<lparr>Enc := e\<rparr>" "SError (setEnc e s) = SError s"
  "SOptions (setEnc e s) = SOptions s" "SModel (setEnc e s) = SModel s" "SFailed (setEnc e s) = SFailed s"
  by (simp_all add: setEnc_def)

lemma literalFor_mono: "enc_mono (encOf s) (encOf (snd (literalFor c R s)))"
proof -
  have "enc_mono (encOf s) (Enc (snd (encodeReachable c R (Blaster s))))" by (rule encodeReachable_mono)
  then show ?thesis
    by (auto simp: literalFor_def blastPredicate_def blast_def blastFail_def Let_def case_prod_beta intro: enc_mono_trans enc_mono_mkOr)
qed

lemma front_ok_change:
  assumes f: "front_ok c S s" and st: "blast_step c (Blaster s) b" and m: "enc_mono (encOf s) (Enc b)" and v: "vars_listed b"
    and e: "SError s' = NoError \<Longrightarrow> blasterOk b" and b: "Blaster s' = b"
  shows "front_ok c S s'" "extends (Blaster s) (Blaster s')"
proof -
  have "means c b S" "enc_total (Enc b)" "blaster_inv c b" using step_means [OF st, of S] f by (auto simp: front_ok_def)
  moreover have "ready (Solver (Enc b))" using enc_mono_ready [OF m] f by (simp add: front_ok_def)
  ultimately show "front_ok c S s'" using v e by (simp add: front_ok_def b solverOk_def)
  show "extends (Blaster s) (Blaster s')" using step_extends [OF st] by (simp add: b)
qed

lemma literalFor_fields:
  "SOptions (snd (literalFor c R s)) = SOptions s" "SModel (snd (literalFor c R s)) = SModel s" "SFailed (snd (literalFor c R s)) = SFailed s"
  by (auto simp: literalFor_def Let_def setEnc_def split: prod.splits)

text \<open>How a refusal is recorded: a foreign reference as malformed, a well-formed expression for its size.\<close>

definition refused :: "SymContext \<Rightarrow> SymRef \<Rightarrow> BitVectorSolver \<Rightarrow> bool" where
  "refused c R s \<longleftrightarrow> (if refInContext c R then SError s \<in> {WidthTooLarge, TooManyGates} else SError s = MalformedExpr)"

lemma one_bit_literal:
  assumes "blaster_inv c b" "isEncoded b R" "symWidth c R = 1"
  shows "lit_means c b (bitsOf b R ! 0) R"
proof -
  have l: "length (bitsOf b R) = 1" using bitsOf_ok(1) [OF assms(1,2)] assms(3) by simp
  then have "bitsOf b R ! 0 \<in> set (bitsOf b R)" by (intro nth_mem) simp
  then have "unat (var (bitsOf b R ! 0)) < nv (Enc b)" using bitsOf_ok(2) [OF assms(1,2)] by (simp add: inr_def)
  then show ?thesis using blaster_invD(5) [OF assms(1) _ _ assms(2)] one_bit_value [OF l] by (simp add: lit_means_def)
qed

lemma any_bit_literal:
  assumes inv: "blaster_inv c b" and enc: "isEncoded b R" and u: "mkOr (bitsOf b R) Both (Enc b) = (L, u)" and nu: "\<not> enc_full u"
  shows "blast_step c b (b\<lparr>Enc := u\<rparr>)" "lit_means c (b\<lparr>Enc := u\<rparr>) L R"
proof -
  have "\<forall>L \<in> set (bitsOf b R). unat (var L) < nv (Enc b)" using bitsOf_ok(2) [OF inv enc] by (simp add: inr_def)
  from mkOr_defines [OF blaster_invD(1) [OF inv] this, of Both]
  have "defines_lit Both (Enc b) (L, u) (\<lambda>m. \<exists>L \<in> set (bitsOf b R). lit_true m L)" by (simp add: u)
  from defines_computes [OF this nu]
  have cm: "good (Enc b) u" "unat (var L) < nv u" "\<forall>m \<in> mods u. lit_true m L = (bitsVal m (bitsOf b R) \<noteq> 0)"
    unfolding bitsVal_nonzero by (simp_all add: computes_def)
  show "blast_step c b (b\<lparr>Enc := u\<rparr>)" by (rule gate_step [OF inv cm(1)])
  show "lit_means c (b\<lparr>Enc := u\<rparr>) L R"
    using cm blaster_invD(5) [OF inv _ _ enc] goodD(3) [OF cm(1)] by (simp add: lit_means_def)
qed

lemma literalFor_ok:
  assumes f: "front_ok c S s" and ctx: "ctx_ok c" and ok: "solverOk s" and l: "literalFor c R s = (X, s')" and nf: "\<not> enc_full (encOf s')"
  shows "front_ok c S s'" "extends (Blaster s) (Blaster s')"
    "case X of None \<Rightarrow> refused c R s' \<and> BLimits (Blaster s) \<noteq> unlimitedLimits \<or> \<not> refInContext c R \<and> SError s' = MalformedExpr
     | Some L \<Rightarrow> refInContext c R \<and> solverOk s' \<and> lit_means c (Blaster s') L R"
    "BLimits (Blaster s') = BLimits (Blaster s)"
proof -
  note fr = f [unfolded front_ok_def]
  have bo: "blasterOk (Blaster s)" using fr ok by simp
  have "front_ok c S s' \<and> extends (Blaster s) (Blaster s') \<and> (case X of
      None \<Rightarrow> refused c R s' \<and> BLimits (Blaster s) \<noteq> unlimitedLimits \<or> \<not> refInContext c R \<and> SError s' = MalformedExpr
    | Some L \<Rightarrow> refInContext c R \<and> solverOk s' \<and> lit_means c (Blaster s') L R) \<and> BLimits (Blaster s') = BLimits (Blaster s)"
  proof (cases "refInContext c R")
    case False
    then have "X = None" "s' = s\<lparr>SError := MalformedExpr\<rparr>" using l ok by (auto simp: literalFor_def)
    then show ?thesis using f False by (simp add: front_ok_def solverOk_def)
  next
    case True
    obtain Done b where e: "encodeReachable c R (Blaster s) = (Done, b)" by fastforce
    have mb: "enc_mono (encOf s) (Enc b)" using encodeReachable_mono [of "Blaster s" c R] e by simp
    have vb: "vars_listed b" using encodeReachable_listed [OF _ e] fr by simp
    have eng: "engine_ok (Solver (Enc b))" using enc_mono_ready [OF mb] fr ready_engine by simp
    have nb: "\<not> enc_full (Enc b)"
    proof (cases "Done \<and> symWidth c R \<noteq> 1")
      case True
      then have "s' = setEnc (snd (mkOr (bitsOf b R) Both (Enc b))) (s\<lparr>Blaster := b\<rparr>)"
        using l ok \<open>refInContext c R\<close> e by (auto simp: literalFor_def blast_reach [OF bo] Let_def split: prod.splits)
      then have "\<not> enc_full (snd (mkOr (bitsOf b R) Both (Enc b)))" using nf by simp
      then show ?thesis using enc_mono_not_full [OF enc_mono_mkOr eng] by blast
    next
      case False
      then have "Blaster s' = b"
        using l ok \<open>refInContext c R\<close> e
        by (auto simp: literalFor_def blast_reach [OF bo] blastPredicate_reach [OF _ _ bo] Let_def split: if_splits prod.splits)
      then show ?thesis using nf by simp
    qed
    have inv: "blaster_inv c (Blaster s)" using fr by simp
    note st = encodeReachable_step [OF inv ctx e nb]
    have ref: "refusal (Blaster s) Done b" using st(3) True by (simp add: refInContext_def)
    show ?thesis
    proof (cases Done)
      case False
      then have X: "X = None" "Blaster s' = b" "SError s' = BError b"
        using l ok True e
        by (auto simp: literalFor_def blast_reach [OF bo] blastPredicate_reach [OF _ _ bo] Let_def split: if_splits prod.splits)
      have er: "BError b \<in> {WidthTooLarge, TooManyGates}" using ref bo False by (simp add: refusal_def blasterOk_def)
      have "BLimits (Blaster s) \<noteq> unlimitedLimits" using ref False by (simp add: refusal_def)
      then show ?thesis using front_ok_change [OF f st(1) mb vb _ X(2)] er X True ref
        by (auto simp: refused_def refusal_def)
    next
      case D: True
      have enc: "isEncoded b R" by (rule st(2) [OF D])
      have bOk: "blasterOk b" using ref D bo by (simp add: refusal_def blasterOk_def)
      have binv: "blaster_inv c b" using st(1) by (simp add: blast_step_def)
      have lim: "BLimits b = BLimits (Blaster s)" using ref by (simp add: refusal_def)
      show ?thesis
      proof (cases "symWidth c R = 1")
        case W: True
        then have X: "X = Some (bitsOf b R ! 0)" "s' = s\<lparr>Blaster := b\<rparr>"
          using l ok True e D by (auto simp: literalFor_def blastPredicate_reach [OF _ _ bo] Let_def)
        have "lit_means c b (bitsOf b R ! 0) R" by (rule one_bit_literal [OF binv enc W])
        then show ?thesis using front_ok_change [OF f st(1) mb vb, of s'] X bOk True ok lim by (simp add: solverOk_def)
      next
        case W: False
        obtain L u where u: "mkOr (bitsOf b R) Both (Enc b) = (L, u)" by fastforce
        have X: "X = Some L" "s' = setEnc u (s\<lparr>Blaster := b\<rparr>)"
          using l ok True e D W u by (auto simp: literalFor_def blast_reach [OF bo] Let_def)
        have nu: "\<not> enc_full u" using nf X by simp
        note g = any_bit_literal [OF binv enc u nu]
        have st2: "blast_step c (Blaster s) (b\<lparr>Enc := u\<rparr>)" by (rule blast_step_trans [OF st(1) g(1)])
        have mu: "enc_mono (encOf s) u" using enc_mono_trans [OF mb] enc_mono_mkOr [of "Enc b" "bitsOf b R" Both] u by simp
        show ?thesis using g(2) front_ok_change [OF f st2 _ _ _, of s'] mu vb X bOk True ok lim
          by (simp add: solverOk_def blasterOk_def)
      qed
    qed
  qed
  then show "front_ok c S s'" "extends (Blaster s) (Blaster s')"
    "case X of None \<Rightarrow> refused c R s' \<and> BLimits (Blaster s) \<noteq> unlimitedLimits \<or> \<not> refInContext c R \<and> SError s' = MalformedExpr
     | Some L \<Rightarrow> refInContext c R \<and> solverOk s' \<and> lit_means c (Blaster s') L R"
    "BLimits (Blaster s') = BLimits (Blaster s)" by blast+
qed

section \<open>Asserting a predicate\<close>

lemma front_engine: "front_ok c S s \<Longrightarrow> engine_ok (satOf s)"
  by (simp add: front_ok_def ready_engine)

lemma assert_literal:
  assumes f: "front_ok c S s" and L: "lit_means c (Blaster s) L R"
    and nf: "\<not> enc_full (snd (assertTrue (if Pos then L else negl L) (encOf s)))"
  shows "front_ok c (S \<inter> {\<rho>. signed_holds c \<rho> (R, Pos)}) (setEnc (snd (assertTrue (if Pos then L else negl L) (encOf s))) s)"
    "extends (Blaster s) (Blaster (setEnc (snd (assertTrue (if Pos then L else negl L) (encOf s))) s))"
proof -
  define b where "b = Blaster s"
  define e where "e = snd (assertTrue (if Pos then L else negl L) (Enc b))"
  note fr = f [unfolded front_ok_def, folded b_def]
  have inv: "blaster_inv c b" using fr by simp
  have v: "unat (var (if Pos then L else negl L)) < nv (Enc b)" using L by (simp add: lit_means_def b_def)
  note a = assertTrue_ok [OF blaster_invD(1) [OF inv] v nf [folded b_def], folded e_def]
  have lt: "lit_true m (if Pos then L else negl L) \<longleftrightarrow> signed_holds c \<rho> (R, Pos)" if "m \<in> mods (Enc b)" "env_agrees c b m \<rho>" for m \<rho>
    using L that by (auto simp: lit_means_def signed_holds_def b_def)
  have "blaster_inv c (b\<lparr>Enc := e\<rparr>)"
    using inv a by (auto simp: blaster_inv_def inr_def)
  moreover have "means c (b\<lparr>Enc := e\<rparr>) (S \<inter> {\<rho>. signed_holds c \<rho> (R, Pos)})"
  proof -
    have m: "means c b S" using fr by simp
    show ?thesis unfolding means_def
    proof (intro conjI allI impI ballI)
      fix m \<rho> assume "m \<in> mods (Enc (b\<lparr>Enc := e\<rparr>))" "env_agrees c (b\<lparr>Enc := e\<rparr>) m \<rho>"
      then have "m \<in> mods (Enc b)" "lit_true m (if Pos then L else negl L)" "env_agrees c b m \<rho>" by (simp_all add: a(2) split: if_splits)
      then show "\<rho> \<in> S \<inter> {\<rho>. signed_holds c \<rho> (R, Pos)}" using lt m unfolding means_def by blast
    next
      fix \<rho> assume \<rho>: "\<rho> \<in> S \<inter> {\<rho>. signed_holds c \<rho> (R, Pos)}"
      then obtain m' where m': "m' \<in> mods (Enc b)" "env_agrees c b m' \<rho>" using m unfolding means_def by blast
      then have "m' \<in> mods e" using lt [OF m'] \<rho> by (simp add: a(2) split: if_splits)
      with m' show "\<exists>m \<in> mods (Enc (b\<lparr>Enc := e\<rparr>)). env_agrees c (b\<lparr>Enc := e\<rparr>) m \<rho>" by auto
    qed
  qed
  moreover have "ready (Solver e)"
    using enc_mono_ready [OF enc_mono_assertTrue [of "Enc b" "if Pos then L else negl L", folded e_def]] fr by (simp add: b_def)
  ultimately show "front_ok c (S \<inter> {\<rho>. signed_holds c \<rho> (R, Pos)}) (setEnc (snd (assertTrue (if Pos then L else negl L) (encOf s))) s)"
    using fr a(4) unfolding b_def [symmetric] e_def [symmetric] by (simp add: front_ok_def b_def solverOk_def blasterOk_def)
  show "extends (Blaster s) (Blaster (setEnc (snd (assertTrue (if Pos then L else negl L) (encOf s))) s))"
    unfolding b_def [symmetric] e_def [symmetric] using a by (auto simp: extends_def b_def)
qed

lemma assertLeaves_mono: "enc_mono (encOf s) (encOf (snd (assertLeaves c Ls s)))"
proof (induction Ls arbitrary: s)
  case (Cons X Ls)
  obtain R Pos where X: "X = (R, Pos)" by fastforce
  obtain l t where t: "literalFor c R s = (l, t)" by fastforce
  have m: "enc_mono (encOf s) (encOf t)" using literalFor_mono [of s c R] t by simp
  show ?case
  proof (cases l)
    case (Some L)
    let ?u = "setEnc (snd (assertTrue (if Pos then L else negl L) (encOf t))) t"
    have "enc_mono (encOf t) (encOf ?u)" using enc_mono_assertTrue by simp
    then show ?thesis using Cons.IH [of ?u] enc_mono_trans [OF m enc_mono_trans] by (simp only: assertLeaves.simps X t Some prod.case option.case)
  qed (use m in \<open>simp add: X t\<close>)
qed simp

lemma assertLeaves_ok:
  assumes "front_ok c S s" "ctx_ok c" "solverOk s" "assertLeaves c Ls s = (Done, s')" "\<not> enc_full (encOf s')"
    "\<forall>X \<in> set Ls. validBoolean c (fst X)"
  shows "if Done then front_ok c (S \<inter> {\<rho>. \<forall>X \<in> set Ls. signed_holds c \<rho> X}) s' \<and> solverOk s' \<and> BLimits (Blaster s') = BLimits (Blaster s)
    else SError s' \<in> {WidthTooLarge, TooManyGates} \<and> BLimits (Blaster s) \<noteq> unlimitedLimits"
  using assms(1,3-)
proof (induction Ls arbitrary: S s)
  case Nil
  then show ?case by simp
next
  case (Cons X Ls)
  obtain R Pos where X: "X = (R, Pos)" by fastforce
  obtain l t where t: "literalFor c R s = (l, t)" by fastforce
  have R: "refInContext c R" using Cons.prems(5) by (simp add: X validBoolean_def refInContext_def)
  have et: "engine_ok (satOf t)" using enc_mono_ready [OF literalFor_mono [of s c R]] Cons.prems(1) t ready_engine by (simp add: front_ok_def)
  show ?case
  proof (cases l)
    case None
    then have s': "s' = t" "\<not> Done" using Cons.prems(3) t X by auto
    from literalFor_ok(3) [OF Cons.prems(1) assms(2) Cons.prems(2) t] Cons.prems(4) s' None R show ?thesis by (simp add: refused_def)
  next
    case (Some L)
    let ?u = "setEnc (snd (assertTrue (if Pos then L else negl L) (encOf t))) t"
    have r: "assertLeaves c Ls ?u = (Done, s')" using Cons.prems(3) t X Some by simp
    have "enc_mono (encOf ?u) (encOf s')" using assertLeaves_mono [of ?u c Ls] r by simp
    moreover have mu: "enc_mono (encOf t) (encOf ?u)" using enc_mono_assertTrue by simp
    ultimately have nu: "\<not> enc_full (encOf ?u)" and nt: "\<not> enc_full (encOf t)"
      using enc_mono_not_full [OF _ _ Cons.prems(4)] enc_mono_trans et by (metis enc_mono_def)+
    note k = literalFor_ok [OF Cons.prems(1) assms(2) Cons.prems(2) t nt]
    have L: "lit_means c (Blaster t) L R" "solverOk t" using k(3) Some by simp_all
    note a = assert_literal [OF k(1) L(1) nu [simplified]]
    have "solverOk ?u" using L(2) by (simp add: solverOk_def)
    from Cons.IH [OF a(1) this r Cons.prems(4)] Cons.prems(5)
    show ?thesis using k(4) by (simp add: X Int_assoc Collect_conj_eq split: if_splits)
  qed
qed

lemma prepared_mono:
  "enc_mono (encOf s) (encOf (snd (if P then case collectPermanentConjuncts c R n of None \<Rightarrow> (True, s) | Some Leaves \<Rightarrow> assertLeaves c Leaves s
     else (True, s))))"
  by (simp add: assertLeaves_mono split: option.split)

lemma assertTrueRef_ok:
  assumes f: "front_ok c S s" and ctx: "ctx_ok c" and ok: "solverOk s" and a: "assertTrueRef c R s = (Done, s')" and nf: "\<not> enc_full (encOf s')"
  shows "if Done then front_ok c (S \<inter> {\<rho>. symValue c \<rho> R \<noteq> 0}) s' \<and> solverOk s' \<and> refInContext c R
    else refused c R s' \<and> (refInContext c R \<longrightarrow> BLimits (Blaster s) \<noteq> unlimitedLimits)"
proof -
  let ?P = "solverOk s \<and> refInContext c R \<and> symWidth c R = 1 \<and> \<not> isEncoded (Blaster s) R"
  let ?C = "collectPermanentConjuncts c R kPermanentConjunctsMaxPermanentConjunctWork"
  obtain D t where p: "(if ?P then case ?C of None \<Rightarrow> (True, s) | Some Leaves \<Rightarrow> assertLeaves c Leaves s else (True, s)) = (D, t)" by fastforce
  have mt: "enc_mono (encOf s) (encOf t)"
    using prepared_mono [of s ?P c R kPermanentConjunctsMaxPermanentConjunctWork] unfolding p by simp
  have et: "engine_ok (satOf t)" using enc_mono_ready [OF mt] f ready_engine by (simp add: front_ok_def)
  obtain l u where u: "literalFor c R t = (l, u)" by fastforce
  have mu: "enc_mono (encOf t) (encOf u)" using literalFor_mono [of t c R] u by simp
  have eu: "engine_ok (satOf u)" using mu et by (simp add: enc_mono_def)
  have s': "(Done, s') = (if \<not> D then (False, t) else case l of None \<Rightarrow> (False, u) | Some L \<Rightarrow> (True, setEnc (snd (assertTrue L (encOf u))) u))"
    using a unfolding assertTrueRef_def p by (auto simp: u split: bool.splits option.splits)
  have nu: "\<not> enc_full (encOf u)" if D
    using s' that nf enc_mono_not_full [OF enc_mono_assertTrue eu] by (auto split: option.splits)
  have nt: "\<not> enc_full (encOf t)"
    using enc_mono_not_full [OF mu et] nu s' nf by (cases D) auto
  have prep: "if D then \<exists>T. {\<rho>. symValue c \<rho> R \<noteq> 0} \<subseteq> T \<and> front_ok c (S \<inter> T) t \<and> solverOk t \<and> BLimits (Blaster t) = BLimits (Blaster s)
    else SError t \<in> {WidthTooLarge, TooManyGates} \<and> refInContext c R \<and> BLimits (Blaster s) \<noteq> unlimitedLimits"
  proof (cases "?P \<and> ?C \<noteq> None")
    case False
    then have "D" "t = s" using p by (auto split: if_splits)
    then show ?thesis using f ok by (auto intro!: exI [of _ UNIV])
  next
    case True
    then obtain Ls where Ls: "?C = Some Ls" by blast
    note e = conjuncts_entailed [OF ctx Ls]
    have as: "assertLeaves c Ls s = (D, t)" using p True Ls by simp
    have "\<forall>X \<in> set Ls. validBoolean c (fst X)" using e(2) by blast
    note l = assertLeaves_ok [OF f ctx ok as nt this]
    have "{\<rho>. symValue c \<rho> R \<noteq> 0} \<subseteq> {\<rho>. \<forall>X \<in> set Ls. signed_holds c \<rho> X}" using e(1) by blast
    with l True show ?thesis by (auto split: if_splits)
  qed
  show ?thesis
  proof (cases D)
    case False
    then show ?thesis using prep s' by (auto simp: refused_def)
  next
    case True
    then obtain T where T: "{\<rho>. symValue c \<rho> R \<noteq> 0} \<subseteq> T" "front_ok c (S \<inter> T) t" "solverOk t" "BLimits (Blaster t) = BLimits (Blaster s)"
      using prep by auto
    note k = literalFor_ok [OF T(2) ctx T(3) u nu [OF True]]
    show ?thesis
    proof (cases l)
      case None
      then show ?thesis using k(3) s' True T(4) by (auto simp: refused_def)
    next
      case (Some L)
      then have s2: "Done" "s' = setEnc (snd (assertTrue L (encOf u))) u" using s' True by auto
      have L: "lit_means c (Blaster u) L R" "solverOk u" "refInContext c R" using k(3) Some by simp_all
      have "front_ok c (S \<inter> T \<inter> {\<rho>. signed_holds c \<rho> (R, True)}) s'"
        using assert_literal(1) [OF k(1) L(1), of True] nf s2 by simp
      moreover have "S \<inter> T \<inter> {\<rho>. signed_holds c \<rho> (R, True)} = S \<inter> {\<rho>. symValue c \<rho> R \<noteq> 0}" using T(1) by (auto simp: signed_holds_def)
      ultimately show ?thesis using s2 L by (simp add: solverOk_def)
    qed
  qed
qed

lemma assertFalseRef_ok:
  assumes f: "front_ok c S s" and ctx: "ctx_ok c" and ok: "solverOk s" and a: "assertFalseRef c R s = (Done, s')" and nf: "\<not> enc_full (encOf s')"
  shows "if Done then front_ok c (S \<inter> {\<rho>. symValue c \<rho> R = 0}) s' \<and> solverOk s' \<and> refInContext c R
    else refused c R s' \<and> (refInContext c R \<longrightarrow> BLimits (Blaster s) \<noteq> unlimitedLimits)"
proof -
  obtain l u where u: "literalFor c R s = (l, u)" by fastforce
  have eu: "engine_ok (satOf u)" using enc_mono_ready [OF literalFor_mono [of s c R]] u f ready_engine by (simp add: front_ok_def)
  have nu: "\<not> enc_full (encOf u)"
    using a nf enc_mono_not_full [OF enc_mono_assertTrue eu] by (auto simp: assertFalseRef_def u assertFalse_def split: option.splits)
  note k = literalFor_ok [OF f ctx ok u nu]
  show ?thesis
  proof (cases l)
    case None
    then show ?thesis using a k(3) by (auto simp: assertFalseRef_def u refused_def)
  next
    case (Some L)
    then have s: "Done" "s' = setEnc (snd (assertTrue (negl L) (encOf u))) u" using a by (auto simp: assertFalseRef_def u assertFalse_def)
    have L: "lit_means c (Blaster u) L R" "solverOk u" "refInContext c R" using k(3) Some by simp_all
    have "front_ok c (S \<inter> {\<rho>. signed_holds c \<rho> (R, False)}) s'"
      using assert_literal(1) [OF k(1) L(1), of False] nf s by simp
    then show ?thesis using s L by (simp add: solverOk_def signed_holds_def)
  qed
qed

lemma literalsFor_mono: "enc_mono (encOf s) (encOf (snd (literalsFor c As s)))"
proof (induction As arbitrary: s)
  case (Cons A As)
  obtain l t where t: "literalFor c A s = (l, t)" by fastforce
  have "enc_mono (encOf s) (encOf t)" using literalFor_mono [of s c A] t by simp
  then show ?case using Cons.IH [of t] by (auto simp: t split: option.splits prod.splits intro: enc_mono_trans)
qed simp

lemma literalsFor_fields:
  "SOptions (snd (literalsFor c As s)) = SOptions s \<and> SModel (snd (literalsFor c As s)) = SModel s \<and> SFailed (snd (literalsFor c As s)) = SFailed s"
proof (induction As arbitrary: s)
  case (Cons A As)
  obtain l t where t: "literalFor c A s = (l, t)" by fastforce
  show ?case using literalFor_fields [of c A s] Cons.IH [of t] by (simp add: t case_prod_beta split: option.split)
qed simp

lemma literalsFor_ok:
  assumes "front_ok c S s" "ctx_ok c" "solverOk s" "literalsFor c As s = (X, s')" "\<not> enc_full (encOf s')"
  shows "front_ok c S s' \<and> extends (Blaster s) (Blaster s') \<and>
    (case X of None \<Rightarrow> \<exists>A \<in> set As. refused c A s'
     | Some Ls \<Rightarrow> solverOk s' \<and> (\<forall>A \<in> set As. refInContext c A) \<and> list_all2 (lit_means c (Blaster s')) Ls As)"
  using assms(1,3-)
proof (induction As arbitrary: s X s')
  case Nil
  then show ?case by auto
next
  case (Cons A As)
  obtain l t where t: "literalFor c A s = (l, t)" by fastforce
  obtain Y u where u: "literalsFor c As t = (Y, u)" by fastforce
  have et: "engine_ok (satOf t)" using enc_mono_ready [OF literalFor_mono [of s c A]] Cons.prems(1) t ready_engine by (simp add: front_ok_def)
  have mu: "enc_mono (encOf t) (encOf u)" using literalsFor_mono [of t c As] u by simp
  have nt: "\<not> enc_full (encOf t)"
    using Cons.prems(3,4) enc_mono_not_full [OF mu et] by (auto simp: t u split: option.splits)
  note k = literalFor_ok [OF Cons.prems(1) assms(2) Cons.prems(2) t nt]
  show ?case
  proof (cases l)
    case None
    then show ?thesis using k Cons.prems(3) by (auto simp: t refused_def)
  next
    case (Some L)
    then have s': "s' = u" "X = map_option (\<lambda>Ls. L # Ls) Y" using Cons.prems(3) by (auto simp: t u)
    have L: "lit_means c (Blaster t) L A" "solverOk t" "refInContext c A" using k(3) Some by simp_all
    from Cons.IH [OF k(1) L(2) u] Cons.prems(4) s'
    have IH: "front_ok c S u \<and> extends (Blaster t) (Blaster u) \<and> (case Y of None \<Rightarrow> \<exists>A \<in> set As. refused c A u
       | Some Ls \<Rightarrow> solverOk u \<and> (\<forall>A \<in> set As. refInContext c A) \<and> list_all2 (lit_means c (Blaster u)) Ls As)" by simp
    then show ?thesis using s' L(3) lit_means_extends [OF L(1)] extends_trans [OF k(2)] by (cases Y) auto
  qed
qed

end
