(* ===== verification/Bv_Solver.thy ===== *)
theory Bv_Solver
  imports Bv_Invariant
begin

text \<open>
  What the solver promises: answers in terms of the expressions that were asked about, from the expression
  down to the clauses and back.
\<close>

section \<open>Reading the model back\<close>

text \<open>The valuation a model spells, zero where it says nothing.\<close>

definition modelValuation :: "BitVectorModel \<Rightarrow> u32 \<Rightarrow> nat" where
  "modelValuation M VarNo = (case varValueIn VarNo M of None \<Rightarrow> 0 | Some v \<Rightarrow> v)"

lemma extractModel_value:
  "varValueIn X (SModel (extractModel s)) =
     (if X \<in> set (EncodedVars (Blaster s)) \<and> variableBits (Blaster s) X \<noteq> []
      then Some (extractValue (satOf s) (variableBits (Blaster s) X)) else None)"
proof -
  let ?f = "\<lambda>Id M. let Bits = variableBits (Blaster s) Id in if Bits = [] then M else setModel Id (extractValue (satOf s) Bits) M"
  have "model_ok (fold ?f Ids M) \<and> varValueIn X (fold ?f Ids M) =
      (if X \<in> set Ids \<and> variableBits (Blaster s) X \<noteq> [] then Some (extractValue (satOf s) (variableBits (Blaster s) X))
       else varValueIn X M)" if "model_ok M" for Ids M
    using that
  proof (induction Ids arbitrary: M)
    case (Cons Id Ids)
    have "model_ok (?f Id M)" using Cons.prems setModel_ok(1) by (simp add: Let_def)
    from Cons.IH [OF this] show ?case using setModel_ok(2) [OF Cons.prems] by (auto simp: Let_def)
  qed simp
  from this [OF clearModel_ok(1), of "EncodedVars (Blaster s)"] show ?thesis by (simp add: extractModel_def)
qed

lemma extractModel_fields [simp]: "Blaster (extractModel s) = Blaster s" "SError (extractModel s) = SError s" "SFailed (extractModel s) = SFailed s"
  by (simp_all add: extractModel_def)

lemma extractValue_bits:
  assumes "\<forall>L \<in> set Bits. \<not> isNegated L"
  shows "extractValue t Bits = bitsVal (modelOf t) Bits"
proof -
  have "map (\<lambda>L. modelValue t L = VTrue) Bits = map (lit_true (modelOf t)) Bits"
    using assms by (auto simp: modelValue_def Let_def lit_true_def modelOf_def)
  then show ?thesis unfolding extractValue_def bitsVal_def by (rule arg_cong)
qed

lemma extracted_valuation:
  assumes "vars_listed (Blaster s)"
  shows "modelValuation (SModel (extractModel s)) = modelEnv (Blaster s) (modelOf (satOf s))"
proof
  fix X
  let ?b = "Blaster s"
  show "modelValuation (SModel (extractModel s)) X = modelEnv ?b (modelOf (satOf s)) X"
  proof (cases "VarSlices ?b X")
    case None
    then show ?thesis by (simp add: modelValuation_def extractModel_value modelEnv_def variableBits_def)
  next
    case (Some S)
    then have v: "X \<in> set (EncodedVars ?b)" "\<forall>L \<in> set (variableBits ?b X). \<not> isNegated L"
      using assms by (auto simp: vars_listed_def variableBits_def)
    show ?thesis using v extractValue_bits [OF v(2)] by (simp add: modelValuation_def extractModel_value modelEnv_def)
  qed
qed

section \<open>Failed assumptions in the caller's terms\<close>

lemma failedRefs_subset: "set (failedRefs Lits As Fs) \<subseteq> set As"
proof -
  have "snd X \<in> set As" if "List.find P (zip Lits As) = Some X" for P X
  proof -
    have "X \<in> set (zip Lits As)" using that by (auto simp: find_Some_iff intro: nth_mem)
    then show ?thesis using set_zip_rightD [of "fst X" "snd X" Lits As] by simp
  qed
  then show ?thesis by (induction Fs) (auto simp: failedRefs_def List.map_filter_simps split: option.splits)
qed

lemma failedRefs_found:
  assumes "list_all2 P Lits As" "F \<in> set Fs" "F \<in> set Lits"
  shows "\<exists>A \<in> set (failedRefs Lits As Fs). P F A"
proof -
  obtain i where i: "i < length Lits" "Lits ! i = F" using assms(3) by (auto simp: in_set_conv_nth)
  have l: "length As = length Lits" using assms(1) by (simp add: list_all2_lengthD)
  have "(F, As ! i) \<in> set (zip Lits As)" using i l by (auto simp: set_zip)
  then obtain X where X: "List.find (\<lambda>(L, A). L = F) (zip Lits As) = Some X" by (cases "List.find (\<lambda>(L, A). L = F) (zip Lits As)") (auto simp: find_None_iff)
  then have x: "X \<in> set (zip Lits As)" "fst X = F" by (auto simp: find_Some_iff intro: nth_mem)
  then have "P (fst X) (snd X)" using assms(1) by (cases X) (auto simp: list_all2_iff)
  moreover have "snd X \<in> set (failedRefs Lits As Fs)" using X assms(2) by (force simp: failedRefs_def List.map_filter_def)
  ultimately show ?thesis using x(2) by auto
qed

section \<open>What a question leaves alone\<close>

lemma solve_frame:
  assumes ok: "solver_ok s" and s: "solve As s = Some (R, s')"
  shows "numVars s' = numVars s" "Decidable s' = Decidable s" "Opts s' = Opts s" "OutOfSpace s \<Longrightarrow> OutOfSpace s'"
proof -
  have "numVars s' = numVars s \<and> Decidable s' = Decidable s \<and> Opts s' = Opts s \<and> (OutOfSpace s \<longrightarrow> OutOfSpace s')"
  proof (cases "assumptions_ok As s \<and> \<not> Falsified s \<and> \<not> OutOfSpace s")
    case False
    then have "s' = asked s" using s unfolding solve_cases by (auto split: if_splits)
    then show ?thesis by (simp add: asked_def numVars_def)
  next
    case True
    then obtain t where t: "restartLoop As 0 (startSolve (asked s)) = Some (R, t)" "s' = endSolve t" using s unfolding solve_cases by auto
    note ss = startSolve_startable [OF ok _ _ , of As, folded asked_def]
    have "returned As (root_models s) (startSolve (asked s)) (R, t)" using restartLoop_ok [OF t(1)] ss(1) True by (simp add: resumable_def)
    then show ?thesis using ss(2-4) True by (simp add: returned_def same_call_def t(2))
  qed
  then show "numVars s' = numVars s" "Decidable s' = Decidable s" "Opts s' = Opts s" "OutOfSpace s \<Longrightarrow> OutOfSpace s'" by blast+
qed

text \<open>What a check promises, for the valuations \<open>S\<close> that satisfy the asserted facts.\<close>

definition check_verdict :: "SymContext \<Rightarrow> (u32 \<Rightarrow> nat) set \<Rightarrow> SymRef list \<Rightarrow> bool \<Rightarrow> SatResult \<Rightarrow> BitVectorSolver \<Rightarrow> bool" where
  "check_verdict c S As Build R s \<longleftrightarrow>
     (case R of
        Sat \<Rightarrow> (\<exists>\<rho> \<in> S. \<forall>A \<in> set As. symValue c \<rho> A \<noteq> 0) \<and>
          (Build \<longrightarrow> modelValuation (SModel s) \<in> S \<and> (\<forall>A \<in> set As. symValue c (modelValuation (SModel s)) A \<noteq> 0))
      | Unsat \<Rightarrow> set (SFailed s) \<subseteq> set As \<and> (\<forall>\<rho> \<in> S. \<exists>A \<in> set (SFailed s). symValue c \<rho> A = 0)
      | Unknown \<Rightarrow> True
      | Invalid \<Rightarrow> \<exists>A \<in> set As. \<not> refInContext c A)"

lemma front_ok_fields [simp]: "front_ok c S (s\<lparr>SModel := M, SFailed := Fs\<rparr>) = front_ok c S s"
  by (simp add: front_ok_def solverOk_def)

lemma refused_result:
  "refused c A s \<Longrightarrow> resultForEncodingFailure (SError s) = (if refInContext c A then Unknown else Invalid)"
  by (auto simp: refused_def)

lemma solved_front:
  assumes f: "front_ok c S s" and k: "solver_ok u" "root_models u = root_models (satOf s)" "numVars u = numVars (satOf s)"
    "Decidable u = Decidable (satOf s)"
  shows "front_ok c S (setEnc ((encOf s)\<lparr>Solver := u\<rparr>) s)"
proof -
  let ?e = "(encOf s)\<lparr>Solver := u\<rparr>"
  note fr = f [unfolded front_ok_def]
  have inv: "blaster_inv c (Blaster s)" using fr by simp
  have m: "mods ?e = mods (encOf s)" "nv ?e = nv (encOf s)" using k by (simp_all add: mods_def nv_def)
  have "enc_ok ?e"
    by (rule enc_ok_engine [OF blaster_invD(1) [OF inv]]) (use k in \<open>simp_all add: mods_def nv_def solver_ok_def\<close>)
  then have "blaster_inv c ((Blaster s)\<lparr>Enc := ?e\<rparr>)" using inv m by (simp add: blaster_inv_def inr_def)
  moreover have "means c ((Blaster s)\<lparr>Enc := ?e\<rparr>) S" using fr m by (simp add: means_def)
  moreover have "ready u" using fr k by (simp add: ready_def decides_rest_def)
  ultimately show ?thesis using fr by (simp add: front_ok_def enc_total_def solverOk_def blasterOk_def)
qed

lemma solved_verdict:
  assumes f: "front_ok c S s" and nf: "\<not> enc_full (encOf s)" and l: "list_all2 (lit_means c (Blaster s)) Lits As"
    and v: "verdict_ok Lits (satOf s) R u" and k: "numVars u = numVars (satOf s)" "Decidable u = Decidable (satOf s)"
    and F: "finish R As Lits (setEnc ((encOf s)\<lparr>Solver := u\<rparr>) s) = (R, s')" and init: "SFailed s = []"
  shows "check_verdict c S As (BuildModel (SOptions s)) R s'"
proof -
  let ?t = "setEnc ((encOf s)\<lparr>Solver := u\<rparr>) s"
  note fr = f [unfolded front_ok_def]
  have inv: "blaster_inv c (Blaster s)" and mean: "means c (Blaster s) S" using fr by simp_all
  have lv: "unat (var L) < numVars (satOf s)" if "L \<in> set Lits" for L
    using l that by (auto simp: list_all2_conv_all_nth in_set_conv_nth lit_means_def nv_def)
  have as: "assumptions_ok Lits (satOf s)"
    using lv nf isValid_if_small by (auto simp: assumptions_ok_def enc_full_def exhausted_def not_less dest: lv less_le_trans less_imp_le)
  show ?thesis
  proof (cases R)
    case Sat
    let ?\<rho> = "modelEnv (Blaster s) (modelOf u)"
    have m: "modelOf u \<in> mods (encOf s)" "\<forall>L \<in> set Lits. lit_true (modelOf u) L"
      using v fr by (simp_all add: Sat verdict_ok_def mods_def ready_def decides_rest_def)
    have a: "env_agrees c (Blaster s) (modelOf u) ?\<rho>" by (rule modelEnv_agrees [OF inv])
    have S: "?\<rho> \<in> S" using mean m(1) a unfolding means_def by blast
    have A: "symValue c ?\<rho> A \<noteq> 0" if A: "A \<in> set As" for A
    proof -
      obtain L where "L \<in> set Lits" "lit_means c (Blaster s) L A" using l A by (metis in_set_conv_nth list_all2_conv_all_nth)
      then show ?thesis using m a unfolding lit_means_def by blast
    qed
    have "modelValuation (SModel s') = ?\<rho>" if "BuildModel (SOptions s)"
    proof -
      have "s' = extractModel ?t" using F that by (simp add: finish_def Sat Let_def)
      moreover have "variableBits ((Blaster s)\<lparr>Enc := e\<rparr>) = variableBits (Blaster s)" for e by (simp add: fun_eq_iff variableBits_def split: option.split)
      ultimately show ?thesis using extracted_valuation [of ?t] fr by (simp add: modelEnv_def fun_eq_iff)
    qed
    then show ?thesis using S A by (auto simp: check_verdict_def Sat)
  next
    case Unsat
    have u: "set (FailedAssumptions u) \<subseteq> set Lits" "\<forall>m \<in> mods (encOf s). \<exists>L \<in> set (FailedAssumptions u). \<not> lit_true m L"
      using v by (simp_all add: Unsat verdict_ok_def mods_def)
    have sf: "SFailed s' = failedRefs Lits As (FailedAssumptions u)" using F init by (auto simp: finish_def Unsat Let_def)
    have "\<exists>A \<in> set (SFailed s'). symValue c \<rho> A = 0" if \<rho>: "\<rho> \<in> S" for \<rho>
    proof -
      obtain m where m: "m \<in> mods (encOf s)" "env_agrees c (Blaster s) m \<rho>" using mean \<rho> by (auto simp: means_def)
      then obtain L where L: "L \<in> set (FailedAssumptions u)" "\<not> lit_true m L" using u(2) by blast
      then obtain A where "A \<in> set (SFailed s')" "lit_means c (Blaster s) L A" using failedRefs_found [OF l L(1)] u(1) sf by auto
      then show ?thesis using m L(2) by (auto simp: lit_means_def)
    qed
    then show ?thesis using failedRefs_subset [of Lits As] sf by (simp add: check_verdict_def Unsat)
  next
    case Unknown
    then show ?thesis by (simp add: check_verdict_def)
  next
    case Invalid
    then show ?thesis using v as by (simp add: verdict_ok_def)
  qed
qed

section \<open>Questions to the solver\<close>

lemma finish_result: "fst (finish R As Lits s) = R"
  by (simp add: finish_def Let_def)

lemma finish_front: "front_ok c S (snd (finish R As Lits s)) = front_ok c S s" "solverOk (snd (finish R As Lits s)) = solverOk s"
  "encOf (snd (finish R As Lits s)) = encOf s"
  by (simp_all add: finish_def Let_def front_ok_def solverOk_def)

text \<open>The state in which the question is put, with a literal for every assumption.\<close>

definition assuming :: "SymContext \<Rightarrow> SymRef list \<Rightarrow> BitVectorSolver \<Rightarrow> BitVectorSolver" where
  "assuming c As s = snd (literalsFor c As (s\<lparr>SModel := clearModel, SFailed := []\<rparr>))"

lemma assuming_ready: "front_ok c S s \<Longrightarrow> ready (satOf (assuming c As s))"
  using enc_mono_ready [OF literalsFor_mono [of "s\<lparr>SModel := clearModel, SFailed := []\<rparr>" c As]] by (simp add: front_ok_def assuming_def)

lemma check_ok:
  assumes f: "front_ok c S s" and ctx: "ctx_ok c" and ok: "solverOk s" and k: "check c As s = Some (R, s')"
    and nf: "\<not> enc_full (encOf (assuming c As s))"
  shows "check_verdict c S As (BuildModel (SOptions s)) R s'"
    "R \<in> {Sat, Unsat} \<Longrightarrow> front_ok c S s' \<and> solverOk s'"
    "\<forall>A \<in> set As. refInContext c A \<Longrightarrow> R \<noteq> Invalid"
proof -
  let ?s = "s\<lparr>SModel := clearModel, SFailed := []\<rparr>"
  have f0: "front_ok c S ?s" "solverOk ?s" using f ok by (simp_all add: solverOk_def)
  obtain X t where t: "literalsFor c As ?s = (X, t)" by fastforce
  have fields: "SOptions t = SOptions s" "SFailed t = []" using literalsFor_fields [of c As ?s] t by simp_all
  have rt: "ready (satOf t)" and nt: "\<not> enc_full (encOf t)" using assuming_ready [OF f, of As] nf t by (simp_all add: assuming_def)
  have "check_verdict c S As (BuildModel (SOptions s)) R s' \<and> (R \<in> {Sat, Unsat} \<longrightarrow> front_ok c S s' \<and> solverOk s') \<and>
    ((\<forall>A \<in> set As. refInContext c A) \<longrightarrow> R \<noteq> Invalid)"
  proof (cases X)
    case None
    then have s': "s' = t" "R = resultForEncodingFailure (SError t)" using k ok t by (auto simp: check_def Let_def solverOk_def)
    then obtain A where A: "A \<in> set As" "refused c A t" using literalsFor_ok [OF f0(1) ctx f0(2) t nt] None by auto
    have "R = (if refInContext c A then Unknown else Invalid)" using refused_result [OF A(2)] s'(2) by simp
    then show ?thesis using A(1) by (auto simp: check_verdict_def split: if_splits)
  next
    case (Some Lits)
    then obtain u where u: "solve Lits (satOf t) = Some (R, u)" "finish R As Lits (setEnc ((encOf t)\<lparr>Solver := u\<rparr>) t) = (R, s')"
      using k ok t finish_result by (auto simp: check_def Let_def solverOk_def) (metis fst_conv)+
    have so: "solver_ok (satOf t)" using rt by (simp add: ready_def)
    note fr = solve_frame [OF so u(1)]
    from literalsFor_ok [OF f0(1) ctx f0(2) t nt] Some
    have lt: "front_ok c S t" "solverOk t" "\<forall>A \<in> set As. refInContext c A" "list_all2 (lit_means c (Blaster t)) Lits As" by simp_all
    have v: "verdict_ok Lits (satOf t) R u" by (rule solve_ok(1) [OF so u(1)])
    have cv: "check_verdict c S As (BuildModel (SOptions s)) R s'"
      using solved_verdict [OF lt(1) nt lt(4) v fr(1,2) u(2) fields(2)] fields(1) by simp
    moreover have "front_ok c S s' \<and> solverOk s'" if "R \<in> {Sat, Unsat}"
    proof -
      have so': "solver_ok u" "root_models u = root_models (satOf t)" using solve_ok(2) [OF so u(1)] that by auto
      have "front_ok c S (setEnc ((encOf t)\<lparr>Solver := u\<rparr>) t)" by (rule solved_front [OF lt(1) so' fr(1,2)])
      moreover have "s' = snd (finish R As Lits (setEnc ((encOf t)\<lparr>Solver := u\<rparr>) t))" using u(2) by simp
      ultimately show ?thesis using lt(2) by (simp add: finish_front) (simp add: solverOk_def)
    qed
    moreover have "R \<noteq> Invalid" using cv lt(3) by (auto simp: check_verdict_def)
    ultimately show ?thesis by blast
  qed
  then show "check_verdict c S As (BuildModel (SOptions s)) R s'" "R \<in> {Sat, Unsat} \<Longrightarrow> front_ok c S s' \<and> solverOk s'"
    "\<forall>A \<in> set As. refInContext c A \<Longrightarrow> R \<noteq> Invalid" by blast+
qed

text \<open>A solver that could not encode an assertion says so at every check.\<close>

lemma check_refused:
  "\<not> solverOk s \<Longrightarrow> \<exists>s'. check c As s = Some (resultForEncodingFailure (SError s), s')"
  by (simp add: check_def Let_def solverOk_def)

lemma check_room:
  assumes f: "front_ok c S s" and ok: "solverOk s" and k: "check c As s = Some (R, s')" and nf: "\<not> enc_full (encOf s')"
  shows "\<not> enc_full (encOf (assuming c As s))"
proof -
  let ?s = "s\<lparr>SModel := clearModel, SFailed := []\<rparr>"
  obtain X t where t: "literalsFor c As ?s = (X, t)" by fastforce
  have a: "assuming c As s = t" by (simp add: assuming_def t)
  show ?thesis
  proof (cases X)
    case None
    then have "s' = t" using k ok t by (auto simp: check_def Let_def solverOk_def)
    then show ?thesis using nf a by simp
  next
    case (Some Lits)
    then obtain u where u: "solve Lits (satOf t) = Some (R, u)" "(R, s') = finish R As Lits (setEnc ((encOf t)\<lparr>Solver := u\<rparr>) t)"
      using k ok t by (auto simp: check_def Let_def solverOk_def) (metis finish_result fst_conv)
    have "solver_ok (satOf t)" using assuming_ready [OF f, of As] a by (simp add: ready_def)
    note fr = solve_frame [OF this u(1)]
    have "encOf s' = (encOf t)\<lparr>Solver := u\<rparr>"
      using finish_front(3) [of R As Lits "setEnc ((encOf t)\<lparr>Solver := u\<rparr>) t"] u(2) [symmetric] by simp
    then show ?thesis using nf fr(1,4) a by (auto simp: enc_full_def exhausted_def)
  qed
qed

lemma assertLeaves_options: "SOptions (snd (assertLeaves c Ls s)) = SOptions s"
proof (induction Ls arbitrary: s)
  case (Cons X Ls)
  obtain R Pos where X: "X = (R, Pos)" by fastforce
  obtain l t where t: "literalFor c R s = (l, t)" by fastforce
  show ?case using Cons.IH literalFor_fields(1) [of c R s] by (simp add: X t split: option.split)
qed simp

lemma assertTrueRef_keeps:
  "SOptions (snd (assertTrueRef c R s)) = SOptions s" "enc_mono (encOf s) (encOf (snd (assertTrueRef c R s)))"
proof -
  obtain D t where p: "(if solverOk s \<and> refInContext c R \<and> symWidth c R = 1 \<and> \<not> isEncoded (Blaster s) R
      then case collectPermanentConjuncts c R kPermanentConjunctsMaxPermanentConjunctWork of
             None \<Rightarrow> (True, s) | Some Leaves \<Rightarrow> assertLeaves c Leaves s
      else (True, s)) = (D, t)" by fastforce
  have t: "SOptions t = SOptions s" "enc_mono (encOf s) (encOf t)"
    using p assertLeaves_options [of c _ s] assertLeaves_mono [of s c]
    by (auto split: if_splits option.splits) (metis snd_conv)+
  obtain l u where u: "literalFor c R t = (l, u)" by fastforce
  have m: "enc_mono (encOf s) (encOf u)" using enc_mono_trans [OF t(2) literalFor_mono [of t c R]] u by simp
  have o: "SOptions u = SOptions s" using literalFor_fields(1) [of c R t] u t(1) by simp
  show "SOptions (snd (assertTrueRef c R s)) = SOptions s" "enc_mono (encOf s) (encOf (snd (assertTrueRef c R s)))"
    unfolding assertTrueRef_def p using t m o enc_mono_trans [OF m enc_mono_assertTrue]
    by (simp_all add: u split: bool.split option.split)
qed

section \<open>What the solver promises\<close>

text \<open>
  C3.  A one-shot question is answered correctly, from the expression down to the clauses and back.  The
  answer Sat comes with values of the variables that make the predicate nonzero; Unsat means that
  no values do; Invalid is the answer for a reference that is not in the context and for nothing else.\<close>

theorem checkSat_correct:
  assumes "ctx_ok c" "checkSat c Pred Options = Some (R, Found)"
    "\<not> enc_full (encOf (snd (assertTrueRef c Pred (newSolver Options))))"
  shows "case R of
      Sat \<Rightarrow> \<exists>M. Found = Some M \<and> (BuildModel Options \<longrightarrow> symValue c (modelValuation M) Pred \<noteq> 0) \<and> (\<exists>\<rho>. symValue c \<rho> Pred \<noteq> 0)
    | Unsat \<Rightarrow> Found = None \<and> (\<forall>\<rho>. symValue c \<rho> Pred = 0)
    | Unknown \<Rightarrow> Found = None \<and> refInContext c Pred
    | Invalid \<Rightarrow> Found = None \<and> \<not> refInContext c Pred"
proof -
  obtain Done s where a: "assertTrueRef c Pred (newSolver Options) = (Done, s)" by fastforce
  have nf: "\<not> enc_full (encOf s)" using assms(3) a by simp
  have "engine_ok (satOf (newSolver Options))" by (simp add: newSolver_def newBlaster_def ready_engine newEncoder_ready)
  then have n0: "\<not> enc_full (encOf (newSolver Options))"
    using enc_mono_not_full [OF assertTrueRef_keeps(2) _ assms(3)] by blast
  note f = newSolver_ok [OF n0, of c]
  have ok: "solverOk (newSolver Options)" by (simp add: newSolver_def solverOk_def)
  note as = assertTrueRef_ok [OF f assms(1) ok a nf]
  show ?thesis
  proof (cases Done)
    case False
    then have r: "refused c Pred s" using as by simp
    then have "\<not> solverOk s" by (auto simp: refused_def solverOk_def split: if_splits)
    then have "R = resultForEncodingFailure (SError s)" "Found = None" using assms(2) a False by (auto simp: checkSat_def check_def Let_def solverOk_def)
    then show ?thesis using refused_result [OF r] by simp
  next
    case True
    then have fs: "front_ok c (UNIV \<inter> {\<rho>. symValue c \<rho> Pred \<noteq> 0}) s" "solverOk s" "refInContext c Pred" using as by simp_all
    obtain s' where k: "check c [] s = Some (R, s')" "Found = (if R = Sat then Some (SModel s') else None)"
      using assms(2) a True by (auto simp: checkSat_def)
    have "encOf (assuming c [] s) = encOf s" by (simp add: assuming_def)
    with nf have na: "\<not> enc_full (encOf (assuming c [] s))" by simp
    note ck = check_ok [OF fs(1) assms(1) fs(2) k(1) na]
    have "SOptions s = Options" using assertTrueRef_keeps(1) [of c Pred "newSolver Options"] a by (simp add: newSolver_def)
    with ck k(2) fs(3) show ?thesis by (cases R) (auto simp: check_verdict_def)
  qed
qed

section \<open>A predicate that cannot hold\<close>

text \<open>The context of one constant, the bit zero.\<close>

definition zero_context :: SymContext where
  "zero_context = \<lparr>Nodes = [\<lparr>NOp = SConst, NWidth = 1, NFirstOperand = 0, NNumOperands = 0, NAux = 0\<rparr>], NodeOperands = [], WideConsts = []\<rparr>"

lemma zero_nodes: "numNodes zero_context = 1" "NOp (node zero_context 0) = SConst" "NWidth (node zero_context 0) = 1"
  "operands zero_context 0 = []" "constValue zero_context 0 = 0" "symWidth zero_context 0 = 1"
  by (simp_all add: zero_context_def numNodes_def node_def operands_def constValue_def symWidth_def)

lemma zero_ctx_ok: "ctx_ok zero_context"
proof -
  have "node_ok zero_context 0" by (simp add: node_ok_def zero_nodes)
  moreover have "R = 0" if "unat R < 1" for R :: u32 using that by (simp add: unat_eq_0)
  ultimately show ?thesis by (auto simp: ctx_ok_def zero_nodes)
qed

definition constant_true :: SatEngine where
  "constant_true = Solver (newEncoder (newEngine defaultOptions))"

lemma constant_true_fields:
  "Value constant_true = [1]" "Falsified constant_true = False" "OutOfSpace constant_true = False" "TrailLim constant_true = []"
  "numVars constant_true = 1"
proof -
  define s where "s = snd (newVar False (newEngine defaultOptions))"
  have v: "newVar False (newEngine defaultOptions) = (0, s)" by (simp add: s_def newVar_def newEngine_def numVars_def Let_def)
  have f: "Value s = [0]" "Falsified s = False" "OutOfSpace s = False" "TrailLim s = []" "Trail s = []" "Watches s = [[], []]"
    "QueueHead s = 0" "PropagationBudgetAt s = 0" "WatchVisitBudgetAt s = 0" "numVars s = 1" "Stats s = noStats"
    by (simp_all add: s_def newVar_def newEngine_def numVars_def Let_def)
  have p: "propagate (enqueue (positive 0) kNoClause s) = (kNoClause, (enqueue (positive 0) kNoClause s)\<lparr>QueueHead := 1,
      Stats := noStats\<lparr>Propagations := 1\<rparr>\<rparr>)"
    by (simp add: propagate_def numeral_3_eq_3 f propagateNext_def index_positive_0 outOfPropagationBudget_def
        outOfWatchVisitBudget_def noStats_def)
  have "isValid (positive 0)" by (rule isValid_if_small) simp
  moreover have "simplifyClause s noLit [positive 0] = Some [positive 0]" by (simp add: litValue_def f noLit_invalid Let_def)
  ultimately have e: "constant_true = (enqueue (positive 0) kNoClause s)\<lparr>QueueHead := 1, Stats := noStats\<lparr>Propagations := 1\<rparr>\<rparr>"
    unfolding constant_true_def newEncoder_def v by (simp add: addClause_def cancelUntil_root f Let_def p)
  show "Value constant_true = [1]" "Falsified constant_true = False" "OutOfSpace constant_true = False" "TrailLim constant_true = []"
    "numVars constant_true = 1"
    unfolding e using f by (simp_all add: assign_def numVars_def)
qed

text \<open>The run of the solver on it.\<close>

definition zero_encoder :: CnfEncoder where
  "zero_encoder = newEncoder (newEngine defaultOptions)"

definition zero_blaster :: "CnfEncoder \<Rightarrow> BitBlaster" where
  "zero_blaster e = (newBlaster zero_encoder defaultLimits)\<lparr>Enc := e, BitPool := [falseLit zero_encoder],
     Encoded := [0 \<mapsto> \<lparr>SFirst = 0, SWidth = 1\<rparr>]\<rparr>"

lemma zero_first: "encodeReachable zero_context 0 (newBlaster zero_encoder defaultLimits) = (True, zero_blaster zero_encoder)"
proof -
  let ?b = "newBlaster zero_encoder defaultLimits"
  have r: "reachLoop zero_context ?b [0] {} [] = [0]" by (simp add: reachLoop.simps zero_nodes isEncoded_def newBlaster_def Let_def)
  have "encodeNode zero_context 0 ?b = (True, zero_blaster zero_encoder)"
    by (simp add: encodeNode_def Let_def zero_nodes nodeCircuit_def newBlaster_def defaultLimits_def storeBits_def zero_blaster_def)
  moreover have "withinGateBudget (zero_blaster zero_encoder)"
    by (simp add: withinGateBudget_def zero_blaster_def newBlaster_def)
  ultimately show ?thesis
    by (simp add: encodeReachable_def isValidRef_def zero_nodes Let_def r kBitBlasterEncodeReachableOrderSizeLimit_def)
qed

lemma zero_again: "encodeReachable zero_context 0 (zero_blaster e) = (True, zero_blaster e)"
proof -
  have "reachLoop zero_context (zero_blaster e) [0] {} [] = []"
    by (simp add: reachLoop.simps zero_nodes isEncoded_def zero_blaster_def Let_def)
  then show ?thesis by (simp add: encodeReachable_def isValidRef_def zero_nodes Let_def kBitBlasterEncodeReachableOrderSizeLimit_def)
qed

lemma zero_bits: "bitsOf (zero_blaster e) 0 = [falseLit zero_encoder]" "blasterOk (zero_blaster e)" "Enc (zero_blaster e) = e"
  "(zero_blaster e)\<lparr>Enc := u\<rparr> = zero_blaster u"
  by (simp_all add: bitsOf_def sliceBits_def zero_blaster_def blasterOk_def newBlaster_def)

lemma zero_ref: "refInContext zero_context 0" "validBoolean zero_context 0"
  by (simp_all add: refInContext_def validBoolean_def zero_nodes isValidRef_def)

definition zero_state :: "CnfEncoder \<Rightarrow> BitVectorSolver" where
  "zero_state e = (newSolver defaultSolverOptions)\<lparr>Blaster := zero_blaster e\<rparr>"

lemma zero_start: "Blaster (newSolver defaultSolverOptions) = newBlaster zero_encoder defaultLimits" "solverOk (newSolver defaultSolverOptions)"
  "solverOk (zero_state e)" "Blaster (zero_state e) = zero_blaster e" "setEnc u (zero_state e) = zero_state u"
  by (simp_all add: newSolver_def zero_encoder_def defaultSolverOptions_def solverOk_def zero_state_def setEnc_def zero_bits)

lemma zero_literal:
  "literalFor zero_context 0 (newSolver defaultSolverOptions) = (Some (falseLit zero_encoder), zero_state zero_encoder)"
  "literalFor zero_context 0 (zero_state e) = (Some (falseLit zero_encoder), zero_state e)"
proof -
  have "blasterOk (newBlaster zero_encoder defaultLimits)" by (simp add: blasterOk_def newBlaster_def)
  then show "literalFor zero_context 0 (newSolver defaultSolverOptions) = (Some (falseLit zero_encoder), zero_state zero_encoder)"
    by (simp add: literalFor_def zero_start zero_ref zero_nodes blastPredicate_reach zero_first zero_bits Let_def zero_state_def)
  show "literalFor zero_context 0 (zero_state e) = (Some (falseLit zero_encoder), zero_state e)"
    by (simp add: literalFor_def zero_start zero_ref zero_nodes blastPredicate_reach zero_again zero_bits Let_def)
qed

definition zero_false :: CnfEncoder where
  "zero_false = zero_encoder\<lparr>Solver := constant_true\<lparr>Falsified := True\<rparr>\<rparr>"

lemma zero_assert: "assertTrue (falseLit zero_encoder) zero_encoder = (False, zero_false)"
  "assertTrue (falseLit zero_encoder) zero_false = (False, zero_false)"
proof -
  have t: "TrueLit zero_encoder = positive 0" "Solver zero_encoder = constant_true"
    by (simp_all add: zero_encoder_def newEncoder_def newVar_def newEngine_def numVars_def Let_def constant_true_def)
  have "isValid (negl (positive 0))" by (rule isValid_if_small) simp
  moreover have "simplifyClause constant_true noLit [negl (positive 0)] = Some []"
    by (simp add: litValue_def constant_true_fields noLit_invalid Let_def)
  ultimately show "assertTrue (falseLit zero_encoder) zero_encoder = (False, zero_false)"
    by (simp add: assertTrue_def falseLit_def t addClause_def cancelUntil_root constant_true_fields Let_def zero_false_def)
  show "assertTrue (falseLit zero_encoder) zero_false = (False, zero_false)"
    by (simp add: assertTrue_def addClause_def zero_false_def)
qed

lemma zero_conjuncts: "collectPermanentConjuncts zero_context 0 kPermanentConjunctsMaxPermanentConjunctWork = Some [(0, True)]"
  by (simp add: collectPermanentConjuncts_def kPermanentConjunctsMaxPermanentConjunctWork_def zero_ref conjunctLoop.simps zero_nodes
      stableSort_def Let_def)

lemma zero_asserted: "assertTrueRef zero_context 0 (newSolver defaultSolverOptions) = (True, zero_state zero_false)"
proof -
  have "\<not> isEncoded (newBlaster zero_encoder defaultLimits) 0" by (simp add: isEncoded_def newBlaster_def)
  then show ?thesis
    by (simp add: assertTrueRef_def zero_start zero_ref zero_nodes zero_conjuncts zero_literal zero_bits zero_assert)
qed

lemma zero_room: "\<not> enc_full (encOf (zero_state zero_false))"
  by (simp add: zero_start zero_bits enc_full_def exhausted_def zero_false_def constant_true_fields numVars_def unat_kMaxSatVar
      zero_encoder_def newEncoder_def case_prod_beta)

lemma zero_checked: "\<exists>s'. check zero_context [] (zero_state zero_false) = Some (Unsat, s') \<and> SFailed s' = []"
proof -
  have "solve [] (constant_true\<lparr>Falsified := True\<rparr>) = Some (Unsat, asked (constant_true\<lparr>Falsified := True\<rparr>))"
    by (simp add: solve_cases assumptions_ok_def)
  then show ?thesis
    by (simp add: check_def Let_def zero_start solverOk_def zero_bits)
      (simp add: zero_state_def newSolver_def zero_bits zero_false_def finish_def failedRefs_def List.map_filter_simps setEnc_def asked_def)
qed

section \<open>The promises on that predicate\<close>

theorem checkSat_correct_witness:
  "checkSat zero_context 0 defaultSolverOptions = Some (Unsat, None) \<and> (\<forall>\<rho>. symValue zero_context \<rho> 0 = 0)"
proof -
  have k: "checkSat zero_context 0 defaultSolverOptions = Some (Unsat, None)"
    using zero_checked by (auto simp: checkSat_def zero_asserted)
  have "\<not> enc_full (encOf (snd (assertTrueRef zero_context 0 (newSolver defaultSolverOptions))))" using zero_room by (simp add: zero_asserted)
  from checkSat_correct [OF zero_ctx_ok k this] k show ?thesis by simp
qed

text \<open>
  C15.  Asserting a predicate means asserting it.  Whatever conjuncts are asserted ahead of it, the valuations
  the clauses stand for are afterwards those that also make the predicate nonzero; a refusal is
  recorded, is for the size of the expression unless the reference is foreign, and does not happen without limits.\<close>

theorem assertion_meaning:
  assumes "front_ok c S s" "ctx_ok c" "solverOk s" "assertTrueRef c P s = (Done, s')" "\<not> enc_full (encOf s')"
  shows "if Done then front_ok c (S \<inter> {\<rho>. symValue c \<rho> P \<noteq> 0}) s' \<and> solverOk s'
    else refused c P s' \<and> (refInContext c P \<longrightarrow> BLimits (Blaster s) \<noteq> unlimitedLimits)"
  using assertTrueRef_ok [OF assms] by (auto split: if_splits)

lemma zero_front: "front_ok zero_context UNIV (newSolver defaultSolverOptions)"
proof (rule newSolver_ok)
  have "engine_ok (satOf (newSolver defaultSolverOptions))" by (simp add: newSolver_def newBlaster_def ready_engine newEncoder_ready)
  moreover have "\<not> enc_full (encOf (snd (assertTrueRef zero_context 0 (newSolver defaultSolverOptions))))" using zero_room by (simp add: zero_asserted)
  ultimately show "\<not> enc_full (encOf (newSolver defaultSolverOptions))" using enc_mono_not_full [OF assertTrueRef_keeps(2)] by blast
qed

theorem assertion_meaning_witness:
  "fst (assertTrueRef zero_context 0 (newSolver defaultSolverOptions)) \<and>
   front_ok zero_context (UNIV \<inter> {\<rho>. symValue zero_context \<rho> 0 \<noteq> 0}) (snd (assertTrueRef zero_context 0 (newSolver defaultSolverOptions)))"
  using assertion_meaning [OF zero_front zero_ctx_ok zero_start(2) zero_asserted zero_room] by (simp add: zero_asserted)

text \<open>
  C7.  Incremental questions are answered correctly.  Among the valuations of the asserted facts, Sat comes
  with one that satisfies every assumption, read back as a model when models are built, Unsat with
  assumptions of the caller's that none of them satisfies together, and Invalid only with a foreign
  assumption; after an answer the solver stands for the same facts.\<close>

theorem check_correct:
  assumes "front_ok c S s" "ctx_ok c" "solverOk s" "check c As s = Some (R, s')" "\<not> enc_full (encOf s')"
  shows "check_verdict c S As (BuildModel (SOptions s)) R s' \<and> (R \<in> {Sat, Unsat} \<longrightarrow> front_ok c S s' \<and> solverOk s')"
  using check_ok(1,2) [OF assms(1-4) check_room [OF assms(1,3-5)]] by blast

theorem check_correct_witness:
  "\<exists>s'. check zero_context [] (zero_state zero_false) = Some (Unsat, s') \<and>
     check_verdict zero_context (UNIV \<inter> {\<rho>. symValue zero_context \<rho> 0 \<noteq> 0}) [] True Unsat s'"
proof -
  have f: "front_ok zero_context (UNIV \<inter> {\<rho>. symValue zero_context \<rho> 0 \<noteq> 0}) (zero_state zero_false)"
    using assertTrueRef_ok [OF zero_front zero_ctx_ok zero_start(2) zero_asserted zero_room] by simp
  obtain s' where k: "check zero_context [] (zero_state zero_false) = Some (Unsat, s')" using zero_checked by blast
  have "encOf s' = zero_false\<lparr>Solver := asked (Solver zero_false)\<rparr>"
    using k by (auto simp: check_def Let_def zero_start(3) zero_false_def solve_cases assumptions_ok_def finish_def zero_state_def setEnc_def zero_bits
        solverOk_def newSolver_def)
  then have "\<not> enc_full (encOf s')"
    using zero_room by (simp add: zero_start zero_bits enc_full_def exhausted_def asked_def numVars_def)
  moreover have "BuildModel (SOptions (zero_state zero_false))" by (simp add: zero_state_def newSolver_def defaultSolverOptions_def)
  ultimately show ?thesis using check_correct [OF f zero_ctx_ok zero_start(3) k] k by auto
qed

section \<open>Conjuncts\<close>

text \<open>
  C16.  What is prepared ahead of an assertion follows from it: each conjunct is a bit of the context, and
  under every valuation that makes the predicate nonzero it is nonzero exactly for a positive sign.\<close>

theorem conjuncts_follow:
  assumes "ctx_ok c" "collectPermanentConjuncts c Pred MaxWork = Some Leaves" "(R, Pos) \<in> set Leaves"
  shows "validBoolean c R \<and> (\<forall>\<rho>. symValue c \<rho> Pred \<noteq> 0 \<longrightarrow> (symValue c \<rho> R \<noteq> 0) = Pos)"
  using conjuncts_entailed [OF assms] by (simp add: signed_holds_def)

text \<open>A conjunction of a bit and a negated bit.\<close>

definition and_context :: SymContext where
  "and_context =
     \<lparr>Nodes = [\<lparr>NOp = SVar, NWidth = 1, NFirstOperand = 0, NNumOperands = 0, NAux = 0\<rparr>,
               \<lparr>NOp = SVar, NWidth = 1, NFirstOperand = 0, NNumOperands = 0, NAux = 1\<rparr>,
               \<lparr>NOp = SNot, NWidth = 1, NFirstOperand = 0, NNumOperands = 1, NAux = 0\<rparr>,
               \<lparr>NOp = SAnd, NWidth = 1, NFirstOperand = 1, NNumOperands = 2, NAux = 0\<rparr>],
      NodeOperands = [1, 0, 2], WideConsts = []\<rparr>"

lemma and_nodes:
  "numNodes and_context = 4" "NOp (node and_context 0) = SVar" "NOp (node and_context 1) = SVar"
  "NOp (node and_context 2) = SNot" "NOp (node and_context 3) = SAnd"
  "NWidth (node and_context 0) = 1" "NWidth (node and_context 1) = 1" "NWidth (node and_context 2) = 1" "NWidth (node and_context 3) = 1"
  "operands and_context 0 = []" "operands and_context 1 = []" "operands and_context 2 = [1]" "operands and_context 3 = [0, 2]"
  "varId and_context 0 = 0" "varId and_context 1 = 1"
  by (simp_all add: and_context_def numNodes_def node_def operands_def varId_def)

lemma small_ref: "unat R < 4 \<Longrightarrow> R \<in> {0, 1, 2, 3}" for R :: u32
proof -
  assume "unat R < 4"
  then have "unat R = 0 \<or> unat R = 1 \<or> unat R = 2 \<or> unat R = 3" by linarith
  moreover have "R = word_of_nat (unat R)" by simp
  ultimately have "R = word_of_nat 0 \<or> R = word_of_nat 1 \<or> R = word_of_nat 2 \<or> R = word_of_nat 3" by metis
  then show ?thesis by auto
qed

lemma and_ctx_ok: "ctx_ok and_context"
proof -
  have node: "node_ok and_context R" if "R \<in> {0, 1, 2, 3}" for R
    using that by (auto simp: node_ok_def symWidth_def and_nodes)
  have "node_ok and_context (word_of_nat n)" if "n < 4" for n
    using node small_ref [of "word_of_nat n"] that by (simp add: unat_of_nat take_bit_nat_eq_self)
  moreover have "R = R'" if "unat R < 4" "unat R' < 4" "NOp (node and_context R) = SVar" "NOp (node and_context R') = SVar"
      "varId and_context R = varId and_context R'" for R R'
    using small_ref [OF that(1)] small_ref [OF that(2)] that(3-) by (auto simp: and_nodes)
  ultimately show ?thesis by (auto simp: ctx_ok_def and_nodes)
qed

lemma and_conjuncts: "collectPermanentConjuncts and_context 3 100 = Some [(0, True), (1, False)]"
  by (simp add: collectPermanentConjuncts_def kPermanentConjunctsMaxPermanentConjunctWork_def validBoolean_def isValidRef_def and_nodes symWidth_def
      conjunctLoop.simps stableSort_def conjunctBefore_def Let_def)

definition and_values :: "u32 \<Rightarrow> nat" where
  "and_values i = (if i = 0 then 1 else 0)"

lemma and_predicate: "symValue and_context and_values 3 = 1"
proof -
  note eq = symValue_eq [OF and_ctx_ok, of _ and_values]
  have "symValue and_context and_values 0 = 1" "symValue and_context and_values 1 = 0"
    by (simp_all add: eq and_nodes nodeValue_def symWidth_def and_values_def take_bit_Suc)
  moreover from this have "symValue and_context and_values 2 = 1"
    by (simp add: eq and_nodes nodeValue_def symWidth_def)
  ultimately show ?thesis by (simp add: eq and_nodes nodeValue_def symWidth_def)
qed

theorem conjuncts_follow_witness:
  "validBoolean and_context 1 \<and> symValue and_context and_values 3 = 1 \<and> symValue and_context and_values 1 = 0"
  using conjuncts_follow [OF and_ctx_ok and_conjuncts, of 1 False] and_predicate by simp

section \<open>Answers come\<close>

lemma check_total:
  assumes "ready (satOf s)" "RestartInterval (Opts (satOf s)) = 0"
  shows "\<exists>X. check c As s = Some X"
proof -
  let ?s = "s\<lparr>SModel := clearModel, SFailed := []\<rparr>"
  obtain X t where t: "literalsFor c As ?s = (X, t)" by fastforce
  have "ready (satOf t) \<and> Opts (satOf t) = Opts (satOf ?s)" using enc_mono_ready [OF literalsFor_mono [of ?s c As]] assms(1) t by simp
  then have r: "\<exists>R u. solve Ls (satOf t) = Some (R, u)" for Ls using solve_total assms(2) by (simp add: ready_def)
  show ?thesis
  proof (cases X)
    case (Some Ls)
    obtain R u where "solve Ls (satOf t) = Some (R, u)" using r by blast
    then show ?thesis by (simp add: check_def Let_def t Some)
  qed (simp add: check_def Let_def t)
qed

lemma newEncoder_options: "Opts (Solver (newEncoder (newEngine Options))) = Options"
proof -
  obtain v s where v: "newVar False (newEngine Options) = (v, s)" by fastforce
  have "solver_ok s" by (rule newVar_solver [OF newEngine_solver v])
  from addClause_choices [OF this] have "Opts (snd (addClause C s)) = Opts s" for C by blast
  moreover have "Opts (newEngine Options) = Options" by (simp add: newEngine_def)
  moreover have "Opts s = Opts (newEngine Options)" using Opts_newVar [of False "newEngine Options"] by (simp only: v snd_conv)
  ultimately show ?thesis by (simp add: newEncoder_def v)
qed

text \<open>
  C17.  A one-shot question always gets an answer when restarts are off, whatever the context, the
  predicate and the limits.  On a context that is not well formed the code stops at an assertion where the
  model goes on, so there the statement is about the model.\<close>

theorem checkSat_returns:
  assumes "RestartInterval (OSat Options) = 0"
  shows "\<exists>R Found. checkSat c Pred Options = Some (R, Found)"
proof -
  obtain Done s where a: "assertTrueRef c Pred (newSolver Options) = (Done, s)" by fastforce
  have n: "ready (satOf (newSolver Options))" "Opts (satOf (newSolver Options)) = OSat Options"
    by (simp_all add: newSolver_def newBlaster_def newEncoder_ready newEncoder_options)
  have "ready (satOf s)" "Opts (satOf s) = OSat Options"
    using enc_mono_ready [OF assertTrueRef_keeps(2) [of "newSolver Options" c Pred]] n a by simp_all
  then obtain X where "check c [] s = Some X" using check_total assms by metis
  then show ?thesis by (cases X; cases Done) (simp_all add: checkSat_def a)
qed

theorem checkSat_returns_witness:
  "\<exists>R Found. checkSat and_context 3 (defaultSolverOptions\<lparr>OSat := defaultOptions\<lparr>RestartInterval := 0\<rparr>\<rparr>) = Some (R, Found)"
  by (rule checkSat_returns) simp

end
