(* ===== verification/SBF_Version.thy ===== *)
theory SBF_Version
  imports Prelude
begin

text \<open>
  Protocol constants, SBF versions, version features and the VM configuration
  (\<open>include/neverd/sbf/SBFConstants.h\<close>, \<open>image/SBFVersion.h\<close>, \<open>image/SBFVersions.def\<close>,
  \<open>runtime/SBFVMConfig.h\<close>, \<open>lib/sbf/runtime/SBFVMConfig.cpp\<close>).  Feature sets and
  version masks are the bit sets of the source, at their width.
\<close>

section \<open>Protocol constants\<close>

definition kInstructionSize :: nat where "kInstructionSize = 8"
definition kOpcodeOffset :: nat where "kOpcodeOffset = 0"
definition kRegisterByteOffset :: nat where "kRegisterByteOffset = 1"
definition kBranchOffsetOffset :: nat where "kBranchOffsetOffset = 2"
definition kImmediateOffset :: nat where "kImmediateOffset = 4"
definition kMaxProgramAccountDataSize :: nat where "kMaxProgramAccountDataSize = 10485760"
definition kMaxInstructions :: nat where
  "kMaxInstructions = kMaxProgramAccountDataSize div kInstructionSize"
definition kLDDWSlotCount :: nat where "kLDDWSlotCount = 2"
definition kBitsPerByte :: nat where "kBitsPerByte = 8"
definition kHalfWordBitWidth :: nat where "kHalfWordBitWidth = 16"
definition kWordBitWidth :: nat where "kWordBitWidth = 32"
definition kDoubleWordBitWidth :: nat where "kDoubleWordBitWidth = 64"
definition kRegisterEncodingBits :: nat where "kRegisterEncodingBits = 4"
definition kRegisterEncodingMask :: u8 where
  "kRegisterEncodingMask = push_bit kRegisterEncodingBits 1 - 1"

definition kRegisterCount :: nat where "kRegisterCount = 11"
definition kReturnRegister :: nat where "kReturnRegister = 0"
definition kFirstArgumentRegister :: nat where "kFirstArgumentRegister = 1"
definition kInstructionDataRegister :: nat where
  "kInstructionDataRegister = kFirstArgumentRegister + 1"
definition kArgumentRegisterCount :: nat where "kArgumentRegisterCount = 5"
definition kFramePointerRegister :: nat where "kFramePointerRegister = kRegisterCount - 1"
definition kFirstCalleeSavedRegister :: nat where
  "kFirstCalleeSavedRegister = kFirstArgumentRegister + kArgumentRegisterCount"
definition kCalleeSavedRegisterCount :: nat where
  "kCalleeSavedRegisterCount = kFramePointerRegister - kFirstCalleeSavedRegister"

definition kDefaultStackFrameSize :: nat where "kDefaultStackFrameSize = 4096"
definition kDefaultMaxCallDepth :: nat where "kDefaultMaxCallDepth = 64"
definition kStackFrameGapMultiplier :: nat where "kStackFrameGapMultiplier = 2"
definition kDynamicStackFrameAlignment :: int where "kDynamicStackFrameAlignment = 64"
definition kVirtualAddressBits :: nat where "kVirtualAddressBits = 32"
definition kMemoryRegionSize :: nat where "kMemoryRegionSize = 2 ^ kVirtualAddressBits"
definition kStackStart :: u64 where "kStackStart = word_of_nat (kMemoryRegionSize * 2)"
definition kInputStart :: u64 where "kInputStart = word_of_nat (kMemoryRegionSize * 4)"
definition kLegacyUnresolvedCallImmediate :: int where "kLegacyUnresolvedCallImmediate = - 1"

lemmas sbf_constants [sbf_defs] =
  kInstructionSize_def kOpcodeOffset_def kRegisterByteOffset_def kBranchOffsetOffset_def
  kImmediateOffset_def kMaxProgramAccountDataSize_def kMaxInstructions_def kLDDWSlotCount_def
  kBitsPerByte_def kHalfWordBitWidth_def kWordBitWidth_def kDoubleWordBitWidth_def
  kRegisterEncodingBits_def kRegisterEncodingMask_def kRegisterCount_def kReturnRegister_def
  kFirstArgumentRegister_def kInstructionDataRegister_def kArgumentRegisterCount_def
  kFramePointerRegister_def kFirstCalleeSavedRegister_def kCalleeSavedRegisterCount_def
  kDefaultStackFrameSize_def kDefaultMaxCallDepth_def kStackFrameGapMultiplier_def
  kDynamicStackFrameAlignment_def kVirtualAddressBits_def kMemoryRegionSize_def
  kStackStart_def kInputStart_def kLegacyUnresolvedCallImmediate_def

section \<open>Fault codes\<close>

datatype fault_code =
  Fault_None | Fault_InvalidInstruction | Fault_InvalidRegister | Fault_InvalidBranch
| Fault_DivideByZero | Fault_DivideOverflow | Fault_MemoryAccess | Fault_CallDepth
| Fault_UnknownSyscall | Fault_UnknownIndirectCall | Fault_ExecutionOverrun

section \<open>Versions and their features\<close>

datatype version = Auto | V0 | V1 | V2 | V3 | V4 | Reserved

fun version_value :: "version \<Rightarrow> nat" where
  "version_value Auto = 255"
| "version_value V0 = 0"
| "version_value V1 = 1"
| "version_value V2 = 2"
| "version_value V3 = 3"
| "version_value V4 = 4"
| "version_value Reserved = 254"

datatype version_feature =
  StackFrameGaps | ManualStackFrames | PQR | ExplicitSignExtension | SwapSubImmediate
| DisableNeg | CallXSource | DisableLDDW | DisableLE | MovedMemory | StaticSyscalls
| StrictELF | LowerRodata | JMP32 | CallXDestination | AlignedMemoryMapping_Feature

text \<open>The record order of \<open>SBFVersionFeatures.def\<close> assigns the bits.\<close>

fun version_feature_bit :: "version_feature \<Rightarrow> nat" where
  "version_feature_bit StackFrameGaps = 0"
| "version_feature_bit ManualStackFrames = 1"
| "version_feature_bit PQR = 2"
| "version_feature_bit ExplicitSignExtension = 3"
| "version_feature_bit SwapSubImmediate = 4"
| "version_feature_bit DisableNeg = 5"
| "version_feature_bit CallXSource = 6"
| "version_feature_bit DisableLDDW = 7"
| "version_feature_bit DisableLE = 8"
| "version_feature_bit MovedMemory = 9"
| "version_feature_bit StaticSyscalls = 10"
| "version_feature_bit StrictELF = 11"
| "version_feature_bit LowerRodata = 12"
| "version_feature_bit JMP32 = 13"
| "version_feature_bit CallXDestination = 14"
| "version_feature_bit AlignedMemoryMapping_Feature = 15"

definition feature_mask :: "version_feature \<Rightarrow> u32" where
  "feature_mask f = push_bit (version_feature_bit f) 1"

definition feature_union :: "version_feature list \<Rightarrow> u32" where
  "feature_union fs = foldr (\<lambda>f acc. feature_mask f OR acc) fs 0"

definition hasFeature :: "u32 \<Rightarrow> u32 \<Rightarrow> bool" where
  "hasFeature S Feature \<longleftrightarrow> S AND Feature \<noteq> 0"

fun versionFeatures :: "version \<Rightarrow> u32" where
  "versionFeatures V0 = feature_union [StackFrameGaps]"
| "versionFeatures V1 = feature_union [ManualStackFrames]"
| "versionFeatures V2 = feature_union [ManualStackFrames, PQR, ExplicitSignExtension,
     SwapSubImmediate, DisableNeg, CallXSource, DisableLDDW, DisableLE, MovedMemory]"
| "versionFeatures V3 = feature_union [StaticSyscalls, StrictELF, LowerRodata, JMP32,
     CallXDestination]"
| "versionFeatures V4 = feature_union [StaticSyscalls, StrictELF, LowerRodata, JMP32,
     CallXDestination, AlignedMemoryMapping_Feature]"
| "versionFeatures _ = 0"

definition versionHasFeature :: "version \<Rightarrow> version_feature \<Rightarrow> bool" where
  "versionHasFeature v f = hasFeature (versionFeatures v) (feature_mask f)"

fun isConcreteVersion :: "version \<Rightarrow> bool" where
  "isConcreteVersion Auto = False"
| "isConcreteVersion Reserved = False"
| "isConcreteVersion _ = True"

definition versionFromELFFlags :: "u32 \<Rightarrow> version" where
  "versionFromELFFlags Flags =
     (if Flags = 0 then V0 else if Flags = 1 then V1 else if Flags = 2 then V2
      else if Flags = 3 then V3 else if Flags = 4 then V4 else Reserved)"

text \<open>Version masks: bit \<open>n\<close> stands for the version whose ELF flag is \<open>n\<close>.\<close>

definition Mask_All :: u64 where
  "Mask_All = 1 OR push_bit 1 1 OR push_bit 2 1 OR push_bit 3 1 OR push_bit 4 1"
definition Mask_NotV2 :: u64 where
  "Mask_NotV2 = Mask_All AND NOT (push_bit (version_value V2) 1)"
definition Mask_V2Only :: u64 where
  "Mask_V2Only = push_bit (version_value V2) 1"
definition Mask_V3Plus :: u64 where
  "Mask_V3Plus = Mask_All AND NOT (push_bit (version_value V3) 1 - 1)"

definition versionInMask :: "version \<Rightarrow> u64 \<Rightarrow> bool" where
  "versionInMask v Mask =
     (if \<not> isConcreteVersion v then False
      else Mask AND push_bit (version_value v) 1 \<noteq> 0)"

section \<open>VM configuration\<close>

record vm_config =
  StackFrameSize :: nat
  MaxCallDepth :: nat
  EnableStackFrameGaps :: bool
  OptimizeRodata :: bool
  AlignedMemoryMapping :: bool
  RejectBrokenELFs :: bool

definition default_vm_config :: vm_config where
  "default_vm_config = \<lparr>StackFrameSize = kDefaultStackFrameSize,
     MaxCallDepth = kDefaultMaxCallDepth, EnableStackFrameGaps = True, OptimizeRodata = True,
     AlignedMemoryMapping = False, RejectBrokenELFs = False\<rparr>"

definition kMaximumHostCallDepth :: nat where
  "kMaximumHostCallDepth = kDefaultMaxCallDepth"
definition kMaximumHostStackByteCount :: nat where
  "kMaximumHostStackByteCount = kDefaultStackFrameSize * kDefaultMaxCallDepth"

datatype vm_config_error =
  ZeroStackFrameSize | ZeroCallDepth | CallDepthExceedsHost | StackSizeOverflows
| StackExceedsVMRegion | StackExceedsHostLimit

definition validateVMConfig :: "vm_config \<Rightarrow> vm_config_error option" where
  "validateVMConfig Config =
     (if StackFrameSize Config = 0 then Some ZeroStackFrameSize
      else if MaxCallDepth Config = 0 then Some ZeroCallDepth
      else if MaxCallDepth Config > kMaximumHostCallDepth then Some CallDepthExceedsHost
      else if MaxCallDepth Config > (2 ^ 64 - 1) div StackFrameSize Config
        then Some StackSizeOverflows
      else let StackSize = StackFrameSize Config * MaxCallDepth Config in
        if StackSize \<ge> kMemoryRegionSize then Some StackExceedsVMRegion
        else if StackSize > kMaximumHostStackByteCount then Some StackExceedsHostLimit
        else None)"

definition stackSize :: "vm_config \<Rightarrow> nat" where
  "stackSize Config = StackFrameSize Config * MaxCallDepth Config"

definition usesStackFrameGaps :: "version \<Rightarrow> vm_config \<Rightarrow> bool" where
  "usesStackFrameGaps v Config =
     (EnableStackFrameGaps Config \<and> versionHasFeature v StackFrameGaps)"

definition initialFramePointer :: "version \<Rightarrow> vm_config \<Rightarrow> u64" where
  "initialFramePointer v Config =
     kStackStart + word_of_nat (if versionHasFeature v ManualStackFrames
                                then stackSize Config else StackFrameSize Config)"

definition automaticFrameStride :: "version \<Rightarrow> vm_config \<Rightarrow> u64" where
  "automaticFrameStride v Config =
     word_of_nat (StackFrameSize Config *
       (if usesStackFrameGaps v Config then kStackFrameGapMultiplier else 1))"

definition frameTranslationLimit :: "version \<Rightarrow> vm_config \<Rightarrow> u64 option" where
  "frameTranslationLimit v Config =
     (if versionHasFeature v ManualStackFrames then None
      else Some (automaticFrameStride v Config * word_of_nat (MaxCallDepth Config - 1)))"

section \<open>Lemmas\<close>

lemma versionHasFeature_iff [simp]:
  "versionHasFeature v f \<longleftrightarrow>
     f \<in> set (case v of V0 \<Rightarrow> [StackFrameGaps] | V1 \<Rightarrow> [ManualStackFrames]
       | V2 \<Rightarrow> [ManualStackFrames, PQR, ExplicitSignExtension, SwapSubImmediate, DisableNeg,
           CallXSource, DisableLDDW, DisableLE, MovedMemory]
       | V3 \<Rightarrow> [StaticSyscalls, StrictELF, LowerRodata, JMP32, CallXDestination]
       | V4 \<Rightarrow> [StaticSyscalls, StrictELF, LowerRodata, JMP32, CallXDestination,
           AlignedMemoryMapping_Feature]
       | _ \<Rightarrow> [])"
  by (cases v; cases f;
      simp add: versionHasFeature_def hasFeature_def feature_union_def feature_mask_def)

lemma validateVMConfig_None:
  assumes "validateVMConfig Config = None"
  shows "0 < StackFrameSize Config" "0 < MaxCallDepth Config" "MaxCallDepth Config \<le> 64"
    "stackSize Config \<le> 262144"
  using assms by (auto simp: validateVMConfig_def stackSize_def Let_def
      kMaximumHostCallDepth_def kMaximumHostStackByteCount_def sbf_constants split: if_splits)

lemma versionInMask_simps [simp]:
  "versionInMask v Mask_All \<longleftrightarrow> isConcreteVersion v"
  "versionInMask v Mask_NotV2 \<longleftrightarrow> isConcreteVersion v \<and> v \<noteq> V2"
  "versionInMask v Mask_V2Only \<longleftrightarrow> v = V2"
  "versionInMask v Mask_V3Plus \<longleftrightarrow> v = V3 \<or> v = V4"
  by (cases v; simp add: versionInMask_def Mask_All_def Mask_NotV2_def Mask_V2Only_def
      Mask_V3Plus_def)+

end
