(* ===== verification/SBF_Opcodes.thy ===== *)
theory SBF_Opcodes
  imports SBF_Version
begin

text \<open>
  The versioned SBF instruction table (\<open>include/neverd/sbf/runtime/SBFOpcodes.def\<close>,
  \<open>SBFOpcodes.h\<close>, \<open>lib/sbf/runtime/SBFOpcodes.cpp\<close>).  \<open>enum class Opcode\<close> numbers the rows
  of the table in declaration order; \<open>Opcode n\<close> is the enumerator with value \<open>n\<close>, and the
  abbreviations name the enumerators other components mention.
\<close>

section \<open>Enumerations\<close>

datatype opcode = Opcode nat

abbreviation LDDW :: opcode where "LDDW \<equiv> Opcode 0"
abbreviation ADD64_IMM :: opcode where "ADD64_IMM \<equiv> Opcode 52"
abbreviation MOV32_REG :: opcode where "MOV32_REG \<equiv> Opcode 47"
abbreviation CALL_IMM :: opcode where "CALL_IMM \<equiv> Opcode 147"
abbreviation CALL_REG :: opcode where "CALL_REG \<equiv> Opcode 148"
abbreviation Opcode_Unknown :: opcode where "Opcode_Unknown \<equiv> Opcode 150"

datatype operation =
  Op_LoadImm | Op_Load | Op_Store | Op_Add | Op_Sub | Op_Mul | Op_UHighMul | Op_SHighMul
  | Op_UDiv | Op_URem | Op_SDiv | Op_SRem | Op_Or | Op_And | Op_Xor | Op_LSh | Op_RSh
  | Op_ARSh | Op_Neg | Op_Mov | Op_EndianLE | Op_EndianBE | Op_HighOr | Op_Jump | Op_Eq
  | Op_Ne | Op_UGt | Op_UGe | Op_ULt | Op_ULe | Op_SGt | Op_SGe | Op_SLt | Op_SLe | Op_Set
  | Op_Call | Op_CallX | Op_Exit | Op_Invalid

datatype operand_form =
  Form_None | Form_Dst | Form_DstImm | Form_DstSrc | Form_LDDW | Form_Load | Form_StoreImm
  | Form_StoreReg | Form_Endian | Form_Branch | Form_BranchImm | Form_BranchReg
  | Form_CallImm | Form_CallReg

text \<open>\<open>enum class OpcodeEffect : uint8_t\<close>: a bit set.\<close>

type_synonym opcode_effect = u8

definition Effect_Pure :: opcode_effect where "Effect_Pure = 0"
definition Effect_MayFault :: opcode_effect where "Effect_MayFault = push_bit 0 1"
definition Effect_ReadsMemory :: opcode_effect where "Effect_ReadsMemory = push_bit 1 1"
definition Effect_WritesMemory :: opcode_effect where "Effect_WritesMemory = push_bit 2 1"
definition Effect_Branches :: opcode_effect where "Effect_Branches = push_bit 3 1"
definition Effect_Terminates :: opcode_effect where "Effect_Terminates = push_bit 4 1"
definition Effect_Calls :: opcode_effect where "Effect_Calls = push_bit 5 1"
definition Effect_Returns :: opcode_effect where "Effect_Returns = push_bit 6 1"
definition Effect_MemoryRead :: opcode_effect where
  "Effect_MemoryRead = push_bit 0 1 OR push_bit 1 1"
definition Effect_MemoryWrite :: opcode_effect where
  "Effect_MemoryWrite = push_bit 0 1 OR push_bit 2 1"
definition Effect_Branch :: opcode_effect where "Effect_Branch = push_bit 3 1"
definition Effect_Terminator :: opcode_effect where "Effect_Terminator = push_bit 4 1"
definition Effect_Call :: opcode_effect where "Effect_Call = push_bit 0 1 OR push_bit 5 1"
definition Effect_Return :: opcode_effect where "Effect_Return = push_bit 6 1"

lemmas effect_defs [sbf_defs] =
  Effect_Pure_def Effect_MayFault_def Effect_ReadsMemory_def Effect_WritesMemory_def
  Effect_Branches_def Effect_Terminates_def Effect_Calls_def Effect_Returns_def
  Effect_MemoryRead_def Effect_MemoryWrite_def Effect_Branch_def Effect_Terminator_def
  Effect_Call_def Effect_Return_def

definition hasEffect :: "opcode_effect \<Rightarrow> opcode_effect \<Rightarrow> bool" where
  "hasEffect S E \<longleftrightarrow> S AND E \<noteq> 0"

section \<open>Opcode descriptors\<close>

record opcode_info =
  ID :: opcode
  Encoding :: u8
  Mnemonic :: string
  Op :: operation
  Form :: operand_form
  Width :: nat
  Versions :: u64
  Effect :: opcode_effect

definition isAvailableIn :: "opcode_info \<Rightarrow> version \<Rightarrow> bool" where
  "isAvailableIn Info v = versionInMask v (Versions Info)"
definition isBranch :: "opcode_info \<Rightarrow> bool" where
  "isBranch Info = (hasEffect (Effect Info) Effect_Branches \<or>
     hasEffect (Effect Info) Effect_Terminates)"
definition isConditionalBranch :: "opcode_info \<Rightarrow> bool" where
  "isConditionalBranch Info = hasEffect (Effect Info) Effect_Branches"
definition isCall :: "opcode_info \<Rightarrow> bool" where
  "isCall Info = hasEffect (Effect Info) Effect_Calls"
definition isExit :: "opcode_info \<Rightarrow> bool" where
  "isExit Info = hasEffect (Effect Info) Effect_Returns"
definition mayFault :: "opcode_info \<Rightarrow> bool" where
  "mayFault Info = hasEffect (Effect Info) Effect_MayFault"
definition readsMemory :: "opcode_info \<Rightarrow> bool" where
  "readsMemory Info = hasEffect (Effect Info) Effect_ReadsMemory"
definition writesMemory :: "opcode_info \<Rightarrow> bool" where
  "writesMemory Info = hasEffect (Effect Info) Effect_WritesMemory"
definition writesDestinationRegister :: "opcode_info \<Rightarrow> bool" where
  "writesDestinationRegister Info = (Form Info = Form_Dst \<or> Form Info = Form_DstImm \<or>
     Form Info = Form_DstSrc \<or> Form Info = Form_LDDW \<or> Form Info = Form_Load \<or>
     Form Info = Form_Endian)"
definition usesImmediate :: "opcode_info \<Rightarrow> bool" where
  "usesImmediate Info = (Form Info = Form_DstImm \<or> Form Info = Form_StoreImm \<or>
     Form Info = Form_BranchImm \<or> Form Info = Form_CallImm \<or> Form Info = Form_Endian \<or>
     Form Info = Form_LDDW)"
definition usesSourceRegister :: "opcode_info \<Rightarrow> bool" where
  "usesSourceRegister Info = (Form Info = Form_DstSrc \<or> Form Info = Form_Load \<or>
     Form Info = Form_StoreReg \<or> Form Info = Form_BranchReg)"

text \<open>One row of the table; the row number is the enumerator of \<open>Opcode\<close>.\<close>

definition opcode_row :: "nat \<Rightarrow> u8 \<Rightarrow> string \<Rightarrow> operation \<Rightarrow> operand_form \<Rightarrow> nat \<Rightarrow> u64 \<Rightarrow>
    opcode_effect \<Rightarrow> opcode_info" where
  "opcode_row n e m operation form w vs eff = \<lparr>ID = Opcode n, Encoding = e, Mnemonic = m,
     Op = operation, Form = form, Width = w, Versions = vs, Effect = eff\<rparr>"

definition OpcodeTable :: "opcode_info list" where
  "OpcodeTable = [
    opcode_row 0 24 ''lddw'' Op_LoadImm Form_LDDW 64 Mask_NotV2 Effect_Pure,
    opcode_row 1 113 ''ldxb'' Op_Load Form_Load 8 Mask_NotV2 Effect_MemoryRead,
    opcode_row 2 105 ''ldxh'' Op_Load Form_Load 16 Mask_NotV2 Effect_MemoryRead,
    opcode_row 3 97 ''ldxw'' Op_Load Form_Load 32 Mask_NotV2 Effect_MemoryRead,
    opcode_row 4 121 ''ldxdw'' Op_Load Form_Load 64 Mask_NotV2 Effect_MemoryRead,
    opcode_row 5 114 ''stb'' Op_Store Form_StoreImm 8 Mask_NotV2 Effect_MemoryWrite,
    opcode_row 6 106 ''sth'' Op_Store Form_StoreImm 16 Mask_NotV2 Effect_MemoryWrite,
    opcode_row 7 98 ''stw'' Op_Store Form_StoreImm 32 Mask_NotV2 Effect_MemoryWrite,
    opcode_row 8 122 ''stdw'' Op_Store Form_StoreImm 64 Mask_NotV2 Effect_MemoryWrite,
    opcode_row 9 115 ''stxb'' Op_Store Form_StoreReg 8 Mask_NotV2 Effect_MemoryWrite,
    opcode_row 10 107 ''stxh'' Op_Store Form_StoreReg 16 Mask_NotV2 Effect_MemoryWrite,
    opcode_row 11 99 ''stxw'' Op_Store Form_StoreReg 32 Mask_NotV2 Effect_MemoryWrite,
    opcode_row 12 123 ''stxdw'' Op_Store Form_StoreReg 64 Mask_NotV2 Effect_MemoryWrite,
    opcode_row 13 44 ''ldxb'' Op_Load Form_Load 8 Mask_V2Only Effect_MemoryRead,
    opcode_row 14 60 ''ldxh'' Op_Load Form_Load 16 Mask_V2Only Effect_MemoryRead,
    opcode_row 15 140 ''ldxw'' Op_Load Form_Load 32 Mask_V2Only Effect_MemoryRead,
    opcode_row 16 156 ''ldxdw'' Op_Load Form_Load 64 Mask_V2Only Effect_MemoryRead,
    opcode_row 17 39 ''stb'' Op_Store Form_StoreImm 8 Mask_V2Only Effect_MemoryWrite,
    opcode_row 18 55 ''sth'' Op_Store Form_StoreImm 16 Mask_V2Only Effect_MemoryWrite,
    opcode_row 19 135 ''stw'' Op_Store Form_StoreImm 32 Mask_V2Only Effect_MemoryWrite,
    opcode_row 20 151 ''stdw'' Op_Store Form_StoreImm 64 Mask_V2Only Effect_MemoryWrite,
    opcode_row 21 47 ''stxb'' Op_Store Form_StoreReg 8 Mask_V2Only Effect_MemoryWrite,
    opcode_row 22 63 ''stxh'' Op_Store Form_StoreReg 16 Mask_V2Only Effect_MemoryWrite,
    opcode_row 23 143 ''stxw'' Op_Store Form_StoreReg 32 Mask_V2Only Effect_MemoryWrite,
    opcode_row 24 159 ''stxdw'' Op_Store Form_StoreReg 64 Mask_V2Only Effect_MemoryWrite,
    opcode_row 25 4 ''add32'' Op_Add Form_DstImm 32 Mask_All Effect_Pure,
    opcode_row 26 12 ''add32'' Op_Add Form_DstSrc 32 Mask_All Effect_Pure,
    opcode_row 27 20 ''sub32'' Op_Sub Form_DstImm 32 Mask_All Effect_Pure,
    opcode_row 28 28 ''sub32'' Op_Sub Form_DstSrc 32 Mask_All Effect_Pure,
    opcode_row 29 36 ''mul32'' Op_Mul Form_DstImm 32 Mask_NotV2 Effect_Pure,
    opcode_row 30 44 ''mul32'' Op_Mul Form_DstSrc 32 Mask_NotV2 Effect_Pure,
    opcode_row 31 52 ''div32'' Op_UDiv Form_DstImm 32 Mask_NotV2 Effect_MayFault,
    opcode_row 32 60 ''div32'' Op_UDiv Form_DstSrc 32 Mask_NotV2 Effect_MayFault,
    opcode_row 33 68 ''or32'' Op_Or Form_DstImm 32 Mask_All Effect_Pure,
    opcode_row 34 76 ''or32'' Op_Or Form_DstSrc 32 Mask_All Effect_Pure,
    opcode_row 35 84 ''and32'' Op_And Form_DstImm 32 Mask_All Effect_Pure,
    opcode_row 36 92 ''and32'' Op_And Form_DstSrc 32 Mask_All Effect_Pure,
    opcode_row 37 100 ''lsh32'' Op_LSh Form_DstImm 32 Mask_All Effect_MayFault,
    opcode_row 38 108 ''lsh32'' Op_LSh Form_DstSrc 32 Mask_All Effect_Pure,
    opcode_row 39 116 ''rsh32'' Op_RSh Form_DstImm 32 Mask_All Effect_MayFault,
    opcode_row 40 124 ''rsh32'' Op_RSh Form_DstSrc 32 Mask_All Effect_Pure,
    opcode_row 41 132 ''neg32'' Op_Neg Form_Dst 32 Mask_NotV2 Effect_Pure,
    opcode_row 42 148 ''mod32'' Op_URem Form_DstImm 32 Mask_NotV2 Effect_MayFault,
    opcode_row 43 156 ''mod32'' Op_URem Form_DstSrc 32 Mask_NotV2 Effect_MayFault,
    opcode_row 44 164 ''xor32'' Op_Xor Form_DstImm 32 Mask_All Effect_Pure,
    opcode_row 45 172 ''xor32'' Op_Xor Form_DstSrc 32 Mask_All Effect_Pure,
    opcode_row 46 180 ''mov32'' Op_Mov Form_DstImm 32 Mask_All Effect_Pure,
    opcode_row 47 188 ''mov32'' Op_Mov Form_DstSrc 32 Mask_All Effect_Pure,
    opcode_row 48 196 ''arsh32'' Op_ARSh Form_DstImm 32 Mask_All Effect_MayFault,
    opcode_row 49 204 ''arsh32'' Op_ARSh Form_DstSrc 32 Mask_All Effect_Pure,
    opcode_row 50 212 ''le'' Op_EndianLE Form_Endian 0 Mask_NotV2 Effect_Pure,
    opcode_row 51 220 ''be'' Op_EndianBE Form_Endian 0 Mask_All Effect_Pure,
    opcode_row 52 7 ''add64'' Op_Add Form_DstImm 64 Mask_All Effect_Pure,
    opcode_row 53 15 ''add64'' Op_Add Form_DstSrc 64 Mask_All Effect_Pure,
    opcode_row 54 23 ''sub64'' Op_Sub Form_DstImm 64 Mask_All Effect_Pure,
    opcode_row 55 31 ''sub64'' Op_Sub Form_DstSrc 64 Mask_All Effect_Pure,
    opcode_row 56 39 ''mul64'' Op_Mul Form_DstImm 64 Mask_NotV2 Effect_Pure,
    opcode_row 57 47 ''mul64'' Op_Mul Form_DstSrc 64 Mask_NotV2 Effect_Pure,
    opcode_row 58 55 ''div64'' Op_UDiv Form_DstImm 64 Mask_NotV2 Effect_MayFault,
    opcode_row 59 63 ''div64'' Op_UDiv Form_DstSrc 64 Mask_NotV2 Effect_MayFault,
    opcode_row 60 71 ''or64'' Op_Or Form_DstImm 64 Mask_All Effect_Pure,
    opcode_row 61 79 ''or64'' Op_Or Form_DstSrc 64 Mask_All Effect_Pure,
    opcode_row 62 87 ''and64'' Op_And Form_DstImm 64 Mask_All Effect_Pure,
    opcode_row 63 95 ''and64'' Op_And Form_DstSrc 64 Mask_All Effect_Pure,
    opcode_row 64 103 ''lsh64'' Op_LSh Form_DstImm 64 Mask_All Effect_MayFault,
    opcode_row 65 111 ''lsh64'' Op_LSh Form_DstSrc 64 Mask_All Effect_Pure,
    opcode_row 66 119 ''rsh64'' Op_RSh Form_DstImm 64 Mask_All Effect_MayFault,
    opcode_row 67 127 ''rsh64'' Op_RSh Form_DstSrc 64 Mask_All Effect_Pure,
    opcode_row 68 135 ''neg64'' Op_Neg Form_Dst 64 Mask_NotV2 Effect_Pure,
    opcode_row 69 151 ''mod64'' Op_URem Form_DstImm 64 Mask_NotV2 Effect_MayFault,
    opcode_row 70 159 ''mod64'' Op_URem Form_DstSrc 64 Mask_NotV2 Effect_MayFault,
    opcode_row 71 167 ''xor64'' Op_Xor Form_DstImm 64 Mask_All Effect_Pure,
    opcode_row 72 175 ''xor64'' Op_Xor Form_DstSrc 64 Mask_All Effect_Pure,
    opcode_row 73 183 ''mov64'' Op_Mov Form_DstImm 64 Mask_All Effect_Pure,
    opcode_row 74 191 ''mov64'' Op_Mov Form_DstSrc 64 Mask_All Effect_Pure,
    opcode_row 75 199 ''arsh64'' Op_ARSh Form_DstImm 64 Mask_All Effect_MayFault,
    opcode_row 76 207 ''arsh64'' Op_ARSh Form_DstSrc 64 Mask_All Effect_Pure,
    opcode_row 77 247 ''hor64'' Op_HighOr Form_DstImm 64 Mask_V2Only Effect_Pure,
    opcode_row 78 134 ''lmul32'' Op_Mul Form_DstImm 32 Mask_V2Only Effect_Pure,
    opcode_row 79 142 ''lmul32'' Op_Mul Form_DstSrc 32 Mask_V2Only Effect_Pure,
    opcode_row 80 150 ''lmul64'' Op_Mul Form_DstImm 64 Mask_V2Only Effect_Pure,
    opcode_row 81 158 ''lmul64'' Op_Mul Form_DstSrc 64 Mask_V2Only Effect_Pure,
    opcode_row 82 54 ''uhmul64'' Op_UHighMul Form_DstImm 64 Mask_V2Only Effect_Pure,
    opcode_row 83 62 ''uhmul64'' Op_UHighMul Form_DstSrc 64 Mask_V2Only Effect_Pure,
    opcode_row 84 182 ''shmul64'' Op_SHighMul Form_DstImm 64 Mask_V2Only Effect_Pure,
    opcode_row 85 190 ''shmul64'' Op_SHighMul Form_DstSrc 64 Mask_V2Only Effect_Pure,
    opcode_row 86 70 ''udiv32'' Op_UDiv Form_DstImm 32 Mask_V2Only Effect_MayFault,
    opcode_row 87 78 ''udiv32'' Op_UDiv Form_DstSrc 32 Mask_V2Only Effect_MayFault,
    opcode_row 88 86 ''udiv64'' Op_UDiv Form_DstImm 64 Mask_V2Only Effect_MayFault,
    opcode_row 89 94 ''udiv64'' Op_UDiv Form_DstSrc 64 Mask_V2Only Effect_MayFault,
    opcode_row 90 102 ''urem32'' Op_URem Form_DstImm 32 Mask_V2Only Effect_MayFault,
    opcode_row 91 110 ''urem32'' Op_URem Form_DstSrc 32 Mask_V2Only Effect_MayFault,
    opcode_row 92 118 ''urem64'' Op_URem Form_DstImm 64 Mask_V2Only Effect_MayFault,
    opcode_row 93 126 ''urem64'' Op_URem Form_DstSrc 64 Mask_V2Only Effect_MayFault,
    opcode_row 94 198 ''sdiv32'' Op_SDiv Form_DstImm 32 Mask_V2Only Effect_MayFault,
    opcode_row 95 206 ''sdiv32'' Op_SDiv Form_DstSrc 32 Mask_V2Only Effect_MayFault,
    opcode_row 96 214 ''sdiv64'' Op_SDiv Form_DstImm 64 Mask_V2Only Effect_MayFault,
    opcode_row 97 222 ''sdiv64'' Op_SDiv Form_DstSrc 64 Mask_V2Only Effect_MayFault,
    opcode_row 98 230 ''srem32'' Op_SRem Form_DstImm 32 Mask_V2Only Effect_MayFault,
    opcode_row 99 238 ''srem32'' Op_SRem Form_DstSrc 32 Mask_V2Only Effect_MayFault,
    opcode_row 100 246 ''srem64'' Op_SRem Form_DstImm 64 Mask_V2Only Effect_MayFault,
    opcode_row 101 254 ''srem64'' Op_SRem Form_DstSrc 64 Mask_V2Only Effect_MayFault,
    opcode_row 102 22 ''jeq32'' Op_Eq Form_BranchImm 32 Mask_V3Plus Effect_Branch,
    opcode_row 103 30 ''jeq32'' Op_Eq Form_BranchReg 32 Mask_V3Plus Effect_Branch,
    opcode_row 104 38 ''jgt32'' Op_UGt Form_BranchImm 32 Mask_V3Plus Effect_Branch,
    opcode_row 105 46 ''jgt32'' Op_UGt Form_BranchReg 32 Mask_V3Plus Effect_Branch,
    opcode_row 106 54 ''jge32'' Op_UGe Form_BranchImm 32 Mask_V3Plus Effect_Branch,
    opcode_row 107 62 ''jge32'' Op_UGe Form_BranchReg 32 Mask_V3Plus Effect_Branch,
    opcode_row 108 70 ''jset32'' Op_Set Form_BranchImm 32 Mask_V3Plus Effect_Branch,
    opcode_row 109 78 ''jset32'' Op_Set Form_BranchReg 32 Mask_V3Plus Effect_Branch,
    opcode_row 110 86 ''jne32'' Op_Ne Form_BranchImm 32 Mask_V3Plus Effect_Branch,
    opcode_row 111 94 ''jne32'' Op_Ne Form_BranchReg 32 Mask_V3Plus Effect_Branch,
    opcode_row 112 102 ''jsgt32'' Op_SGt Form_BranchImm 32 Mask_V3Plus Effect_Branch,
    opcode_row 113 110 ''jsgt32'' Op_SGt Form_BranchReg 32 Mask_V3Plus Effect_Branch,
    opcode_row 114 118 ''jsge32'' Op_SGe Form_BranchImm 32 Mask_V3Plus Effect_Branch,
    opcode_row 115 126 ''jsge32'' Op_SGe Form_BranchReg 32 Mask_V3Plus Effect_Branch,
    opcode_row 116 166 ''jlt32'' Op_ULt Form_BranchImm 32 Mask_V3Plus Effect_Branch,
    opcode_row 117 174 ''jlt32'' Op_ULt Form_BranchReg 32 Mask_V3Plus Effect_Branch,
    opcode_row 118 182 ''jle32'' Op_ULe Form_BranchImm 32 Mask_V3Plus Effect_Branch,
    opcode_row 119 190 ''jle32'' Op_ULe Form_BranchReg 32 Mask_V3Plus Effect_Branch,
    opcode_row 120 198 ''jslt32'' Op_SLt Form_BranchImm 32 Mask_V3Plus Effect_Branch,
    opcode_row 121 206 ''jslt32'' Op_SLt Form_BranchReg 32 Mask_V3Plus Effect_Branch,
    opcode_row 122 214 ''jsle32'' Op_SLe Form_BranchImm 32 Mask_V3Plus Effect_Branch,
    opcode_row 123 222 ''jsle32'' Op_SLe Form_BranchReg 32 Mask_V3Plus Effect_Branch,
    opcode_row 124 5 ''ja'' Op_Jump Form_Branch 64 Mask_All Effect_Terminator,
    opcode_row 125 21 ''jeq'' Op_Eq Form_BranchImm 64 Mask_All Effect_Branch,
    opcode_row 126 29 ''jeq'' Op_Eq Form_BranchReg 64 Mask_All Effect_Branch,
    opcode_row 127 37 ''jgt'' Op_UGt Form_BranchImm 64 Mask_All Effect_Branch,
    opcode_row 128 45 ''jgt'' Op_UGt Form_BranchReg 64 Mask_All Effect_Branch,
    opcode_row 129 53 ''jge'' Op_UGe Form_BranchImm 64 Mask_All Effect_Branch,
    opcode_row 130 61 ''jge'' Op_UGe Form_BranchReg 64 Mask_All Effect_Branch,
    opcode_row 131 69 ''jset'' Op_Set Form_BranchImm 64 Mask_All Effect_Branch,
    opcode_row 132 77 ''jset'' Op_Set Form_BranchReg 64 Mask_All Effect_Branch,
    opcode_row 133 85 ''jne'' Op_Ne Form_BranchImm 64 Mask_All Effect_Branch,
    opcode_row 134 93 ''jne'' Op_Ne Form_BranchReg 64 Mask_All Effect_Branch,
    opcode_row 135 101 ''jsgt'' Op_SGt Form_BranchImm 64 Mask_All Effect_Branch,
    opcode_row 136 109 ''jsgt'' Op_SGt Form_BranchReg 64 Mask_All Effect_Branch,
    opcode_row 137 117 ''jsge'' Op_SGe Form_BranchImm 64 Mask_All Effect_Branch,
    opcode_row 138 125 ''jsge'' Op_SGe Form_BranchReg 64 Mask_All Effect_Branch,
    opcode_row 139 165 ''jlt'' Op_ULt Form_BranchImm 64 Mask_All Effect_Branch,
    opcode_row 140 173 ''jlt'' Op_ULt Form_BranchReg 64 Mask_All Effect_Branch,
    opcode_row 141 181 ''jle'' Op_ULe Form_BranchImm 64 Mask_All Effect_Branch,
    opcode_row 142 189 ''jle'' Op_ULe Form_BranchReg 64 Mask_All Effect_Branch,
    opcode_row 143 197 ''jslt'' Op_SLt Form_BranchImm 64 Mask_All Effect_Branch,
    opcode_row 144 205 ''jslt'' Op_SLt Form_BranchReg 64 Mask_All Effect_Branch,
    opcode_row 145 213 ''jsle'' Op_SLe Form_BranchImm 64 Mask_All Effect_Branch,
    opcode_row 146 221 ''jsle'' Op_SLe Form_BranchReg 64 Mask_All Effect_Branch,
    opcode_row 147 133 ''call'' Op_Call Form_CallImm 64 Mask_All Effect_Call,
    opcode_row 148 141 ''callx'' Op_CallX Form_CallReg 64 Mask_All Effect_Call,
    opcode_row 149 149 ''exit'' Op_Exit Form_None 64 Mask_All Effect_Return]"

definition getOpcodeInfo :: "u8 \<Rightarrow> version \<Rightarrow> opcode_info option" where
  "getOpcodeInfo e v = List.find (\<lambda>Info. Encoding Info = e \<and> isAvailableIn Info v) OpcodeTable"

definition getOpcodeInfo_by_ID :: "opcode \<Rightarrow> opcode_info option" where
  "getOpcodeInfo_by_ID i = List.find (\<lambda>Info. ID Info = i) OpcodeTable"

definition opcodeName :: "opcode \<Rightarrow> string" where
  "opcodeName i = (case getOpcodeInfo_by_ID i of Some Info \<Rightarrow> Mnemonic Info
     | None \<Rightarrow> ''unknown'')"

definition ConcreteVersions :: "version list" where
  "ConcreteVersions = [V0, V1, V2, V3, V4]"

text \<open>The per-row half and the pairwise half of \<open>validateOpcodeTable\<close>.\<close>

definition validateOpcodeRow :: "opcode_info \<Rightarrow> bool" where
  "validateOpcodeRow Info =
     (if Mnemonic Info = [] \<or> Versions Info = 0 \<or>
         (Width Info \<noteq> 0 \<and> Width Info \<noteq> kBitsPerByte \<and> Width Info \<noteq> kHalfWordBitWidth \<and>
          Width Info \<noteq> kWordBitWidth \<and> Width Info \<noteq> kDoubleWordBitWidth) then False
      else if (Form Info = Form_Endian) \<noteq> (Width Info = 0) then False
      else if (Op Info = Op_Load) \<noteq> readsMemory Info \<or> (Op Info = Op_Store) \<noteq> writesMemory Info
        then False
      else if (Op Info = Op_Call \<or> Op Info = Op_CallX) \<noteq> isCall Info then False
      else if (Op Info = Op_Exit) \<noteq> isExit Info then False
      else True)"

definition opcodePairDistinct :: "opcode_info \<Rightarrow> opcode_info \<Rightarrow> bool" where
  "opcodePairDistinct Info Candidate =
     (ID Info \<noteq> ID Candidate \<and>
      list_all (\<lambda>v. \<not> (Encoding Info = Encoding Candidate \<and> isAvailableIn Info v \<and>
                       isAvailableIn Candidate v)) ConcreteVersions)"

fun validateOpcodeTable :: "opcode_info list \<Rightarrow> bool" where
  "validateOpcodeTable [] = True"
| "validateOpcodeTable (Info # Rest) =
     (validateOpcodeRow Info \<and> list_all (opcodePairDistinct Info) Rest \<and>
      validateOpcodeTable Rest)"

section \<open>The table is valid and decoding is deterministic\<close>

lemmas row_predicates = opcode_row_def hasEffect_def readsMemory_def writesMemory_def isCall_def
  isExit_def isBranch_def isConditionalBranch_def

lemma table_rows_valid: "list_all validateOpcodeRow OpcodeTable"
  by (simp add: OpcodeTable_def validateOpcodeRow_def row_predicates effect_defs sbf_constants
      Mask_NotV2_def Mask_V2Only_def Mask_V3Plus_def Mask_All_def)

text \<open>What the interpreter and the analyzer use of a row.\<close>

definition row_shape :: "opcode_info \<Rightarrow> bool" where
  "row_shape info =
    ((Op info = Op_CallX \<longleftrightarrow> ID info = CALL_REG) \<and> (Op info = Op_Call \<longleftrightarrow> ID info = CALL_IMM) \<and>
     (ID info = LDDW \<longleftrightarrow> Op info = Op_LoadImm) \<and>
     (ID info = ADD64_IMM \<longrightarrow> Op info = Op_Add) \<and>
     (Op info = Op_Jump \<longrightarrow> isBranch info \<and> \<not> isConditionalBranch info) \<and>
     (isConditionalBranch info \<longrightarrow> (Width info = 32 \<or> Width info = 64) \<and>
        Op info \<in> {Op_Eq, Op_Ne, Op_UGt, Op_UGe, Op_ULt, Op_ULe, Op_SGt, Op_SGe, Op_SLt, Op_SLe,
                   Op_Set}) \<and>
     (Op info = Op_Load \<or> Op info = Op_Store \<longrightarrow>
        Width info = 8 \<or> Width info = 16 \<or> Width info = 32 \<or> Width info = 64) \<and>
     Op info \<noteq> Op_Invalid \<and> Encoding info \<noteq> 0)"

lemma table_row_shapes: "list_all row_shape OpcodeTable"
  by (simp add: OpcodeTable_def row_shape_def row_predicates effect_defs)

fun encodings_separate :: "int \<times> u64 \<Rightarrow> (int \<times> u64) list \<Rightarrow> bool" where
  "encodings_separate e [] = True"
| "encodings_separate e (d # ds) =
    (if fst e = fst d then (if snd e AND snd d = 0 then encodings_separate e ds else False)
     else encodings_separate e ds)"

fun all_separate :: "(int \<times> u64) list \<Rightarrow> bool" where
  "all_separate [] = True"
| "all_separate (e # es) = (if encodings_separate e es then all_separate es else False)"

abbreviation encoding_key :: "opcode_info \<Rightarrow> int \<times> u64" where
  "encoding_key info \<equiv> (uint (Encoding info), Versions info)"

lemma masks_disjoint: "V AND W = 0 \<Longrightarrow> \<not> (versionInMask v V \<and> versionInMask v W)"
proof
  assume d: "V AND W = 0" and b: "versionInMask v V \<and> versionInMask v W"
  have s: "versionInMask v X \<Longrightarrow> bit X (version_value v)" for X
    by (auto simp: versionInMask_def and_exp_eq_0_iff_not_bit push_bit_eq_mult split: if_splits)
  have "bit (V AND W) (version_value v)" using s b by (simp add: bit_and_iff)
  with d show False by simp
qed

lemma encodings_separate_pair:
  "encodings_separate (encoding_key i) (map encoding_key ds) \<Longrightarrow> d \<in> set ds \<Longrightarrow>
     Encoding i = Encoding d \<Longrightarrow> \<not> (isAvailableIn i v \<and> isAvailableIn d v)"
  by (induction ds) (auto simp: isAvailableIn_def dest: masks_disjoint [of _ _ v] split: if_splits)

lemma all_separate_valid:
  "all_separate (map encoding_key rows) \<Longrightarrow> distinct (map ID rows) \<Longrightarrow>
   list_all validateOpcodeRow rows \<Longrightarrow> validateOpcodeTable rows"
proof (induction rows)
  case Nil
  then show ?case by simp
next
  case (Cons i rows)
  then have "encodings_separate (encoding_key i) (map encoding_key rows)"
    by (simp split: if_splits)
  then have "opcodePairDistinct i d" if "d \<in> set rows" for d
    using encodings_separate_pair [of i rows d] Cons.prems(2) that
    by (auto simp: opcodePairDistinct_def list_all_iff image_iff) 
  with Cons show ?case by (simp add: list_all_iff split: if_splits)
qed

lemma table_ids: "map ID OpcodeTable = map Opcode [0..<150]"
  by (simp add: OpcodeTable_def opcode_row_def upt_rec)

lemma table_encodings_separate: "all_separate (map encoding_key OpcodeTable)"
  by code_simp

lemma OpcodeTable_valid: "validateOpcodeTable OpcodeTable"
proof (rule all_separate_valid [OF table_encodings_separate _ table_rows_valid])
  show "distinct (map ID OpcodeTable)" unfolding table_ids by (simp add: distinct_map inj_on_def)
qed

lemma validateOpcodeTable_unique:
  assumes "validateOpcodeTable rows" "i \<in> set rows" "d \<in> set rows"
    "Encoding i = Encoding d" "isAvailableIn i v" "isAvailableIn d v"
  shows "i = d"
  using assms
proof (induction rows)
  case (Cons r rows)
  have "v \<in> set ConcreteVersions"
    using Cons.prems by (cases v) (auto simp: ConcreteVersions_def isAvailableIn_def versionInMask_def)
  with Cons show ?case by (auto simp: opcodePairDistinct_def list_all_iff)
qed simp

lemma getOpcodeInfo_SomeD:
  "getOpcodeInfo e v = Some info \<Longrightarrow>
     info \<in> set OpcodeTable \<and> Encoding info = e \<and> isAvailableIn info v"
  unfolding getOpcodeInfo_def by (drule find_Some_iff_set) simp

lemma getOpcodeInfo_Some_iff:
  "getOpcodeInfo e v = Some info \<longleftrightarrow>
     info \<in> set OpcodeTable \<and> Encoding info = e \<and> isAvailableIn info v"
proof
  assume r: "info \<in> set OpcodeTable \<and> Encoding info = e \<and> isAvailableIn info v"
  then obtain i where i: "getOpcodeInfo e v = Some i"
    unfolding getOpcodeInfo_def by (cases "List.find (\<lambda>Info. Encoding Info = e \<and> isAvailableIn Info v) OpcodeTable")
      (auto simp: find_None_iff)
  with r show "getOpcodeInfo e v = Some info"
    using validateOpcodeTable_unique [OF OpcodeTable_valid] getOpcodeInfo_SomeD [OF i] by metis
qed (rule getOpcodeInfo_SomeD)

lemmas opcode_row_valid = list_all_set [OF table_rows_valid, unfolded validateOpcodeRow_def]
lemmas opcode_row_shape = list_all_set [OF table_row_shapes, unfolded row_shape_def]

section \<open>Properties\<close>

text \<open>
  The instruction table passes its own consistency check: every row is well formed and no two
  rows share an identifier, or an encoding in a version where both are active.
\<close>

lemma opcode_table_consistent: "validateOpcodeTable OpcodeTable"
  by (rule OpcodeTable_valid)

text \<open>
  C35.  Opcode lookup is exact: \<open>getOpcodeInfo\<close> returns a descriptor if and only if it is the table
  row with that encoding that is active in that version, so the linear search is a function of
  encoding and version and misses nothing.
\<close>

theorem getOpcodeInfo_exact:
  "getOpcodeInfo e v = Some info \<longleftrightarrow>
     info \<in> set OpcodeTable \<and> Encoding info = e \<and> isAvailableIn info v"
  by (rule getOpcodeInfo_Some_iff)

end
