(* ===== verification/SBF_Semantics.thy ===== *)
theory SBF_Semantics
  imports SBF_Opcodes
begin

text \<open>
  Version-normalised instruction traits and the scalar semantics every SBF consumer shares
  (\<open>include/neverd/sbf/runtime/SBFSemantics.h\<close>, \<open>lib/sbf/runtime/SBFSemantics.cpp\<close>), and the
  wide multiplication and division helpers of \<open>SBFInterpreterSupport.cpp\<close>.
\<close>

section \<open>Traits\<close>

datatype result_extension = Result_None | Result_Zero32 | Result_Sign32
datatype immediate_extension = Imm_Sign32 | Imm_Zero32 | Imm_Full64
datatype operand_source_kind =
  Source_None | Source_Immediate | Source_SourceRegister | Source_VersionedCallRegister
datatype terminator_kind =
  Term_None | Term_Jump | Term_ConditionalJump | Term_Call | Term_Return

type_synonym fault_policy = u8

definition Policy_None :: fault_policy where "Policy_None = 0"
definition Policy_DivideByZero :: fault_policy where "Policy_DivideByZero = push_bit 0 1"
definition Policy_DivideOverflow :: fault_policy where "Policy_DivideOverflow = push_bit 1 1"
definition Policy_MemoryAccess :: fault_policy where "Policy_MemoryAccess = push_bit 2 1"
definition Policy_Call :: fault_policy where "Policy_Call = push_bit 3 1"

lemmas policy_defs [sbf_defs] =
  Policy_None_def Policy_DivideByZero_def Policy_DivideOverflow_def Policy_MemoryAccess_def
  Policy_Call_def

definition hasFaultPolicy :: "fault_policy \<Rightarrow> fault_policy \<Rightarrow> bool" where
  "hasFaultPolicy S Policy \<longleftrightarrow> S AND Policy \<noteq> 0"

record semantic_traits =
  Trait_Immediate :: immediate_extension
  Trait_Result :: result_extension
  Trait_Source :: operand_source_kind
  Trait_Faults :: fault_policy
  Trait_Terminator :: terminator_kind
  Trait_MemoryWidth :: nat
  Trait_WritesDestination :: bool
  Trait_SwapOperands :: bool

definition semanticTraits :: "opcode_info \<Rightarrow> version \<Rightarrow> semantic_traits" where
  "semanticTraits Info v =
    (let writes = writesDestinationRegister Info;
         explicitSign = versionHasFeature v ExplicitSignExtension in
     \<lparr>Trait_Immediate =
        (if ID Info = LDDW then Imm_Full64
         else if versionHasFeature v PQR \<and>
                 (Op Info = Op_UHighMul \<or> Op Info = Op_UDiv \<or> Op Info = Op_URem \<or>
                  Op Info = Op_HighOr) then Imm_Zero32
         else Imm_Sign32),
      Trait_Result =
        (if Width Info = kWordBitWidth \<and> writes then
           (if (ID Info = MOV32_REG \<and> explicitSign) \<or>
               ((Op Info = Op_Add \<or> Op Info = Op_Sub \<or> Op Info = Op_Mul) \<and> \<not> explicitSign)
            then Result_Sign32 else Result_Zero32)
         else Result_None),
      Trait_Source =
        (case Form Info of
           Form_DstSrc \<Rightarrow> Source_SourceRegister
         | Form_Load \<Rightarrow> Source_SourceRegister
         | Form_BranchReg \<Rightarrow> Source_SourceRegister
         | Form_StoreReg \<Rightarrow> Source_SourceRegister
         | Form_CallReg \<Rightarrow> Source_VersionedCallRegister
         | Form_None \<Rightarrow> Source_None
         | Form_Dst \<Rightarrow> Source_None
         | Form_Branch \<Rightarrow> Source_None
         | _ \<Rightarrow> Source_Immediate),
      Trait_Faults =
        (if Op Info = Op_UDiv \<or> Op Info = Op_URem then Policy_DivideByZero
         else if Op Info = Op_SDiv \<or> Op Info = Op_SRem
           then Policy_DivideByZero OR Policy_DivideOverflow
         else if Op Info = Op_Load \<or> Op Info = Op_Store then Policy_MemoryAccess
         else if isCall Info then Policy_Call
         else Policy_None),
      Trait_Terminator =
        (if Op Info = Op_Jump then Term_Jump
         else if isConditionalBranch Info then Term_ConditionalJump
         else if isCall Info then Term_Call
         else if isExit Info then Term_Return
         else Term_None),
      Trait_MemoryWidth =
        (if Op Info = Op_Load \<or> Op Info = Op_Store then Width Info else 0),
      Trait_WritesDestination = writes,
      Trait_SwapOperands =
        (Op Info = Op_Sub \<and> Form Info = Form_DstImm \<and> versionHasFeature v SwapSubImmediate)\<rparr>)"

section \<open>Scalar semantics\<close>

text \<open>\<open>evaluateScalarALUImpl<UInt>\<close>: the template's \<open>UInt\<close> is the word type, \<open>Width\<close> its length.\<close>

definition shift_amount :: "'a::len word \<Rightarrow> nat" where
  "shift_amount rhs = unat (rhs AND word_of_nat (LENGTH('a) - 1))"

fun evaluateScalarALUImpl :: "operation \<Rightarrow> 'a::len word \<Rightarrow> 'a word \<Rightarrow> bool \<Rightarrow> 'a word option" where
  "evaluateScalarALUImpl Op_Add lhs rhs Swap = Some (lhs + rhs)"
| "evaluateScalarALUImpl Op_Sub lhs rhs Swap =
     Some (if Swap then rhs - lhs else lhs - rhs)"
| "evaluateScalarALUImpl Op_Mul lhs rhs Swap = Some (lhs * rhs)"
| "evaluateScalarALUImpl Op_Or lhs rhs Swap = Some (lhs OR rhs)"
| "evaluateScalarALUImpl Op_And lhs rhs Swap = Some (lhs AND rhs)"
| "evaluateScalarALUImpl Op_Xor lhs rhs Swap = Some (lhs XOR rhs)"
| "evaluateScalarALUImpl Op_LSh lhs rhs Swap = Some (push_bit (shift_amount rhs) lhs)"
| "evaluateScalarALUImpl Op_RSh lhs rhs Swap = Some (drop_bit (shift_amount rhs) lhs)"
| "evaluateScalarALUImpl Op_ARSh lhs rhs Swap =
     Some (signed_drop_bit (shift_amount rhs) lhs)"
| "evaluateScalarALUImpl Op_Neg lhs rhs Swap = Some (0 - lhs)"
| "evaluateScalarALUImpl _ lhs rhs Swap = None"

text \<open>\<open>None\<close> stands for the \<open>llvm_unreachable\<close> default branch.\<close>

fun evaluateBranchConditionImpl :: "operation \<Rightarrow> 'a::len word \<Rightarrow> 'a word \<Rightarrow> bool option" where
  "evaluateBranchConditionImpl Op_Eq lhs rhs = Some (lhs = rhs)"
| "evaluateBranchConditionImpl Op_Ne lhs rhs = Some (lhs \<noteq> rhs)"
| "evaluateBranchConditionImpl Op_UGt lhs rhs = Some (lhs > rhs)"
| "evaluateBranchConditionImpl Op_UGe lhs rhs = Some (lhs \<ge> rhs)"
| "evaluateBranchConditionImpl Op_ULt lhs rhs = Some (lhs < rhs)"
| "evaluateBranchConditionImpl Op_ULe lhs rhs = Some (lhs \<le> rhs)"
| "evaluateBranchConditionImpl Op_SGt lhs rhs = Some (sint lhs > sint rhs)"
| "evaluateBranchConditionImpl Op_SGe lhs rhs = Some (sint lhs \<ge> sint rhs)"
| "evaluateBranchConditionImpl Op_SLt lhs rhs = Some (sint lhs < sint rhs)"
| "evaluateBranchConditionImpl Op_SLe lhs rhs = Some (sint lhs \<le> sint rhs)"
| "evaluateBranchConditionImpl Op_Set lhs rhs = Some (lhs AND rhs \<noteq> 0)"
| "evaluateBranchConditionImpl _ lhs rhs = None"

fun normalizeImmediate :: "u64 \<Rightarrow> immediate_extension \<Rightarrow> u64" where
  "normalizeImmediate Immediate Imm_Zero32 = ucast (ucast Immediate :: u32)"
| "normalizeImmediate Immediate Imm_Full64 = Immediate"
| "normalizeImmediate Immediate Imm_Sign32 = scast (ucast Immediate :: u32)"

definition extendALU32Result :: "u32 \<Rightarrow> result_extension \<Rightarrow> u64" where
  "extendALU32Result v Extension =
     (if Extension = Result_Sign32 then scast v else ucast v)"

definition evaluateScalarALU :: "operation \<Rightarrow> nat \<Rightarrow> u64 \<Rightarrow> u64 \<Rightarrow> bool \<Rightarrow> u64 option" where
  "evaluateScalarALU operation w lhs rhs Swap =
     (if w = kWordBitWidth then
        map_option ucast (evaluateScalarALUImpl operation (ucast lhs :: u32) (ucast rhs) Swap)
      else if w = kDoubleWordBitWidth then evaluateScalarALUImpl operation lhs rhs Swap
      else None)"

definition evaluateBranchCondition :: "operation \<Rightarrow> nat \<Rightarrow> u64 \<Rightarrow> u64 \<Rightarrow> bool option" where
  "evaluateBranchCondition operation w lhs rhs =
     (if w = kWordBitWidth then
        evaluateBranchConditionImpl operation (ucast lhs :: u32) (ucast rhs)
      else if w = kDoubleWordBitWidth then evaluateBranchConditionImpl operation lhs rhs
      else None)"

definition callxRegisterIndex :: "version \<Rightarrow> nat \<Rightarrow> nat \<Rightarrow> int \<Rightarrow> int" where
  "callxRegisterIndex v Dst Src Immediate =
     (if versionHasFeature v CallXSource then int Src
      else if versionHasFeature v CallXDestination then int Dst
      else Immediate)"

section \<open>Wide multiplication\<close>

definition unsignedHighMultiply64 :: "u64 \<Rightarrow> u64 \<Rightarrow> u64" where
  "unsignedHighMultiply64 lhs rhs =
    (let lhsLow = ucast (ucast lhs :: u32) :: u64;
         lhsHigh = drop_bit kWordBitWidth lhs;
         rhsLow = ucast (ucast rhs :: u32) :: u64;
         rhsHigh = drop_bit kWordBitWidth rhs;
         LowProduct = lhsLow * rhsLow;
         CrossProduct = lhsHigh * rhsLow + drop_bit kWordBitWidth LowProduct;
         Middle = ucast (ucast CrossProduct :: u32) :: u64;
         Carry = drop_bit kWordBitWidth CrossProduct;
         Middle = Middle + lhsLow * rhsHigh in
     lhsHigh * rhsHigh + Carry + drop_bit kWordBitWidth Middle)"

definition signedHighMultiply64 :: "u64 \<Rightarrow> u64 \<Rightarrow> u64" where
  "signedHighMultiply64 lhs rhs =
     unsignedHighMultiply64 lhs rhs
     - (if drop_bit (kDoubleWordBitWidth - 1) lhs \<noteq> 0 then rhs else 0)
     - (if drop_bit (kDoubleWordBitWidth - 1) rhs \<noteq> 0 then lhs else 0)"

section \<open>Division\<close>

definition is_division :: "operation \<Rightarrow> bool" where
  "is_division operation = (operation = Op_UDiv \<or> operation = Op_URem \<or> operation = Op_SDiv \<or>
     operation = Op_SRem)"

text \<open>
  The two width branches of the interpreter's division case are the same code over \<open>uint32_t\<close>
  and \<open>uint64_t\<close>: a zero divisor and the overflowing signed quotient fault, everything else
  truncates towards zero.
\<close>

definition divideImpl :: "operation \<Rightarrow> 'a::len word \<Rightarrow> 'a word \<Rightarrow> fault_code + 'a word" where
  "divideImpl operation lhs rhs =
     (if rhs = 0 then Inl Fault_DivideByZero
      else if operation = Op_SDiv \<or> operation = Op_SRem then
        (if sint lhs = - (2 ^ (LENGTH('a) - 1)) \<and> sint rhs = - 1
         then Inl Fault_DivideOverflow
         else Inr (word_of_int (if operation = Op_SDiv then sint lhs sdiv sint rhs
                                else sint lhs smod sint rhs)))
      else Inr (if operation = Op_UDiv then lhs div rhs else lhs mod rhs))"

definition divide :: "operation \<Rightarrow> nat \<Rightarrow> u64 \<Rightarrow> u64 \<Rightarrow> fault_code + u64" where
  "divide operation w lhs rhs =
     (if w = kWordBitWidth then
        (case divideImpl operation (ucast lhs :: u32) (ucast rhs) of
           Inl f \<Rightarrow> Inl f | Inr q \<Rightarrow> Inr (ucast q))
      else divideImpl operation lhs rhs)"

section \<open>Byte swaps\<close>

definition byteswap :: "nat \<Rightarrow> 'a::len word \<Rightarrow> 'a word" where
  "byteswap n v = word_of_nat (bytes_le (rev (le_bytes n (unat v))))"

text \<open>
  The \<open>EndianLE\<close>/\<open>EndianBE\<close> case; \<open>native_little\<close> is the endianness of the host
  (\<open>llvm::endianness::native\<close>).  \<open>None\<close> is the invalid-width fault.
\<close>

definition convertEndian :: "bool \<Rightarrow> operation \<Rightarrow> int \<Rightarrow> u64 \<Rightarrow> u64 option" where
  "convertEndian native_little operation Immediate v =
     (let Swap = (operation = Op_EndianBE \<and> native_little \<or>
                  operation = Op_EndianLE \<and> \<not> native_little) in
      if Immediate = int kHalfWordBitWidth then
        (let Narrow = ucast v :: u16 in
         Some (ucast (if Swap then byteswap 2 Narrow else Narrow)))
      else if Immediate = int kWordBitWidth then
        (let Narrow = ucast v :: u32 in
         Some (ucast (if Swap then byteswap 4 Narrow else Narrow)))
      else if Immediate = int kDoubleWordBitWidth then
        Some (if Swap then byteswap 8 v else v)
      else None)"

section \<open>Lemmas\<close>

lemma unat_low32: "unat (ucast (ucast (x::u64) :: u32) :: u64) = unat x mod 2 ^ 32"
  by (simp add: unsigned_ucast_eq take_bit_eq_mod unat_mod_distrib)

lemma unat_high32: "unat (drop_bit 32 (x::u64)) = unat x div 2 ^ 32"
  by (simp add: drop_bit_eq_div unat_div_distrib)

lemma split_product_high:
  fixes a b c d N :: nat
  assumes N: "0 < N"
  defines "cross \<equiv> a * d + (b * d) div N"
  shows "((a * N + b) * (c * N + d)) div (N * N) =
    a * c + cross div N + (cross mod N + b * c) div N"
proof -
  let ?m = "cross mod N + b * c" and ?r = "b * d mod N"
  have e1: "b * d = b * d div N * N + ?r" by simp
  have e2: "cross * N = cross div N * (N * N) + cross mod N * N"
    by (metis add_mult_distrib div_mult_mod_eq mult.assoc)
  have e3: "?m * N = ?m div N * (N * N) + ?m mod N * N"
    by (metis add_mult_distrib div_mult_mod_eq mult.assoc)
  have "(a * N + b) * (c * N + d) = a * c * (N * N) + (a * d + b * c) * N + b * d"
    by (simp add: algebra_simps)
  also have "\<dots> = a * c * (N * N) + (cross + b * c) * N + ?r"
    by (subst e1) (simp add: cross_def algebra_simps)
  also have "\<dots> = (a * c + cross div N) * (N * N) + ?m * N + ?r"
    using e2 by (simp only: add_mult_distrib)
  also have "\<dots> = (a * c + cross div N + ?m div N) * (N * N) + (?m mod N * N + ?r)"
    using e3 by (simp only: add_mult_distrib)
  finally have eq: "(a * N + b) * (c * N + d) =
    (a * c + cross div N + ?m div N) * (N * N) + (?m mod N * N + ?r)" .
  have "?m mod N * N + ?r < N * N"
  proof -
    have r: "?m mod N < N" "?r < N" using N by simp_all
    then have "(?m mod N + 1) * N \<le> N * N" by (intro mult_le_mono1) linarith
    with r(2) show ?thesis by simp
  qed
  with eq show ?thesis using N by simp
qed

lemma unat_mult_small:
  assumes "unat x < 2 ^ 32" "unat (y::u64) < 2 ^ 32"
  shows "unat (x * y) = unat x * unat y" "unat x * unat y \<le> 18446744065119617025"
proof -
  have "unat x * unat y \<le> (2 ^ 32 - 1) * (2 ^ 32 - 1)"
    by (rule mult_le_mono) (use assms in auto)
  then show "unat (x * y) = unat x * unat y" "unat x * unat y \<le> 18446744065119617025"
    by (simp_all add: unat_word_ariths)
qed

lemma unat_add_small: "unat (x::u64) + unat y < 2 ^ 64 \<Longrightarrow> unat (x + y) = unat x + unat y"
  by (simp add: unat_word_ariths)

lemma unat_unsignedHighMultiply64:
  "unat (unsignedHighMultiply64 a b) = unat a * unat b div 2 ^ 64"
proof -
  define al ah bl bh where "al = (ucast (ucast a :: u32) :: u64)" and "ah = drop_bit 32 a"
    and "bl = (ucast (ucast b :: u32) :: u64)" and "bh = drop_bit 32 b"
  have val: "unat al = unat a mod 2 ^ 32" "unat bl = unat b mod 2 ^ 32"
    "unat ah = unat a div 2 ^ 32" "unat bh = unat b div 2 ^ 32"
    unfolding al_def ah_def bl_def bh_def by (simp_all only: unat_low32 unat_high32)
  have "unat a < 2 ^ 64" "unat b < 2 ^ 64" using unsigned_less [of a] unsigned_less [of b] by simp_all
  then have bnd: "unat al < 2 ^ 32" "unat bl < 2 ^ 32" "unat ah < 2 ^ 32" "unat bh < 2 ^ 32"
    unfolding val by auto
  note small = unat_mult_small
  define cross where "cross = ah * bl + drop_bit 32 (al * bl)"
  have ll: "unat (drop_bit 32 (al * bl)) = unat al * unat bl div 2 ^ 32"
    by (simp only: unat_high32 small [OF bnd(1,2)])
  have cr: "unat cross = unat ah * unat bl + unat al * unat bl div 2 ^ 32"
    unfolding cross_def using small [OF bnd(3,2)] small [OF bnd(1,2)] ll
    by (subst unat_add_small) auto
  define mid where "mid = (ucast (ucast cross :: u32) :: u64) + al * bh"
  have md: "unat mid = unat cross mod 2 ^ 32 + unat al * unat bh"
    unfolding mid_def using small [OF bnd(1,4)] unat_low32 [of cross]
    by (subst unat_add_small) auto
  have "unat a * unat b = (unat ah * 2 ^ 32 + unat al) * (unat bh * 2 ^ 32 + unat bl)"
    unfolding val by simp
  then have hi: "unat a * unat b div 2 ^ 64 =
    unat ah * unat bh + unat cross div 2 ^ 32 + unat mid div 2 ^ 32"
    using split_product_high [of "2 ^ 32" "unat ah" "unat al" "unat bh" "unat bl"] cr md by simp
  have lt: "unat a * unat b div 2 ^ 64 < 2 ^ 64"
  proof -
    have "unat a * unat b \<le> (2 ^ 64 - 1) * (2 ^ 64 - 1)"
      by (rule mult_le_mono) (use \<open>unat a < 2 ^ 64\<close> \<open>unat b < 2 ^ 64\<close> in auto)
    then show ?thesis by simp
  qed
  have "unsignedHighMultiply64 a b = ah * bh + drop_bit 32 cross + drop_bit 32 mid"
    by (simp add: unsignedHighMultiply64_def Let_def kWordBitWidth_def al_def ah_def bl_def bh_def
        cross_def mid_def)
  moreover have "unat (ah * bh + drop_bit 32 cross + drop_bit 32 mid) =
    unat ah * unat bh + unat cross div 2 ^ 32 + unat mid div 2 ^ 32"
    using lt hi small [OF bnd(3,4)] unat_high32 [of cross] unat_high32 [of mid]
    by (subst unat_add_small, subst unat_add_small) (auto simp: unat_add_small)
  ultimately show ?thesis using hi by simp
qed

lemma sint_uint_u64: "sint (a::u64) = uint a - (if drop_bit 63 a \<noteq> 0 then 2 ^ 64 else 0)"
proof -
  have "(drop_bit 63 a \<noteq> 0) = (\<not> uint a < 2 ^ 63)"
  proof -
    have "drop_bit 63 a = 0 \<longleftrightarrow> uint (drop_bit 63 a) = 0"
      by (metis uint_0_iff unsigned_0)
    also have "\<dots> \<longleftrightarrow> uint a div 2 ^ 63 = 0"
      by (simp add: drop_bit_eq_div uint_div_distrib)
    also have "\<dots> \<longleftrightarrow> uint a < 2 ^ 63"
      by (auto simp: zdiv_eq_0_iff)
    finally show ?thesis by blast
  qed
  note top = this
  have s: "sint a = (uint a + 9223372036854775808) mod 18446744073709551616 - 9223372036854775808"
    using int_word_sint [where 'a = 64, of "uint a"] by simp
  have b: "0 \<le> uint a" "uint a < 18446744073709551616"
    using uint_range_size [of a] by (simp_all add: word_size)
  show ?thesis
  proof (cases "uint a < 2 ^ 63")
    case True
    with s b top show ?thesis by simp
  next
    case False
    then have "(uint a + 9223372036854775808) mod 18446744073709551616 = uint a - 9223372036854775808"
      using b by (simp add: mod_pos_geq)
    with s top False show ?thesis by simp
  qed
qed

lemma sint_word_of_int_self:
  "- (2 ^ (LENGTH('a) - 1)) \<le> k \<Longrightarrow> k < 2 ^ (LENGTH('a) - 1) \<Longrightarrow>
     sint (word_of_int k :: 'a::len word) = k"
  by (simp add: signed_of_int signed_take_bit_int_eq_self)

lemma sint_range_u64: "- (2 ^ 63) \<le> sint (a::u64)" "sint a < 2 ^ 63"
  using sint_ge [of a] sint_lt [of a] by simp_all

lemma sint_signedHighMultiply64:
  "sint (signedHighMultiply64 a b) = sint a * sint b div 2 ^ 64"
proof -
  define sa sb where "sa = (if drop_bit 63 a \<noteq> 0 then 1 else 0 :: int)"
    and "sb = (if drop_bit 63 b \<noteq> 0 then 1 else 0 :: int)"
  have sv: "sint a = uint a - sa * 2 ^ 64" "sint b = uint b - sb * 2 ^ 64"
    by (simp_all add: sint_uint_u64 sa_def sb_def)
  have "sint a * sint b =
    uint a * uint b + (sa * sb * 2 ^ 64 - sa * uint b - sb * uint a) * 2 ^ 64"
    unfolding sv by (simp add: algebra_simps)
  then have hi: "sint a * sint b div 2 ^ 64 =
    uint a * uint b div 2 ^ 64 + (sa * sb * 2 ^ 64 - sa * uint b - sb * uint a)"
    by simp
  have "uint (unsignedHighMultiply64 a b) = uint a * uint b div 2 ^ 64"
    using arg_cong [OF unat_unsignedHighMultiply64 [of a b], of int]
    by (simp add: zdiv_int)
  then have u: "unsignedHighMultiply64 a b = word_of_int (uint a * uint b div 2 ^ 64)"
    by (metis word_of_int_uint)
  have "signedHighMultiply64 a b = word_of_int (sint a * sint b div 2 ^ 64)"
    unfolding hi signedHighMultiply64_def u kDoubleWordBitWidth_def
    by (simp add: sa_def sb_def)
  moreover have "\<bar>sint a * sint b\<bar> \<le> 2 ^ 63 * 2 ^ 63"
    unfolding abs_mult by (rule mult_mono) (use sint_range_u64 [of a] sint_range_u64 [of b] in auto)
  ultimately show ?thesis
    by (subst \<open>signedHighMultiply64 a b = _\<close>, subst sint_word_of_int_self) auto
qed

lemma sdiv_in_range:
  fixes l r :: int
  assumes l: "- (2 ^ n) \<le> l" "l < 2 ^ n" and r: "r \<noteq> 0" and no: "\<not> (l = - (2 ^ n) \<and> r = - 1)"
  shows "- (2 ^ n) \<le> l sdiv r" "l sdiv r < 2 ^ n"
proof -
  have "- (2 ^ n) \<le> l sdiv r \<and> l sdiv r < 2 ^ n"
  proof (cases "r = - 1 \<or> r = 1")
    case True
    with l no show ?thesis by auto
  next
    case False
    with r have "2 \<le> \<bar>r\<bar>" by auto
    have "\<bar>l\<bar> \<le> 2 ^ n" using l by auto
    have "2 * (\<bar>l\<bar> div \<bar>r\<bar>) \<le> \<bar>r\<bar> * (\<bar>l\<bar> div \<bar>r\<bar>)"
      using \<open>2 \<le> \<bar>r\<bar>\<close> by (intro mult_right_mono) (auto simp: pos_imp_zdiv_nonneg_iff)
    also have "\<dots> \<le> \<bar>l\<bar>" using minus_mod_eq_mult_div [of "\<bar>l\<bar>" "\<bar>r\<bar>"]
      pos_mod_sign [of "\<bar>r\<bar>" "\<bar>l\<bar>"] \<open>2 \<le> \<bar>r\<bar>\<close> by linarith
    finally have q: "2 * (\<bar>l\<bar> div \<bar>r\<bar>) \<le> 2 ^ n" using \<open>\<bar>l\<bar> \<le> 2 ^ n\<close> by linarith
    have "0 \<le> \<bar>l\<bar> div \<bar>r\<bar>" using \<open>2 \<le> \<bar>r\<bar>\<close> by (simp add: pos_imp_zdiv_nonneg_iff)
    then have "\<bar>l sdiv r\<bar> \<le> \<bar>l\<bar> div \<bar>r\<bar>"
      by (simp add: signed_divide_int_def abs_mult sgn_if)
    moreover have "(0::int) < 2 ^ n" by simp
    ultimately show ?thesis using q by linarith
  qed
  then show "- (2 ^ n) \<le> l sdiv r" "l sdiv r < 2 ^ n" by simp_all
qed

lemma smod_in_range:
  fixes l r :: int
  assumes "- (2 ^ n) \<le> l" "l < 2 ^ n"
  shows "- (2 ^ n) \<le> l smod r" "l smod r < 2 ^ n"
proof -
  have "\<bar>l\<bar> mod \<bar>r\<bar> \<le> \<bar>l\<bar>" "0 \<le> \<bar>l\<bar> mod \<bar>r\<bar>"
    by (auto intro: zmod_le_nonneg_dividend simp: zmod_le_nonneg_dividend) (cases "r = 0"; simp)
  then show "- (2 ^ n) \<le> l smod r" "l smod r < 2 ^ n"
    using assms by (auto simp: signed_modulo_int_def sgn_if)
qed

lemma divideImpl_spec:
  fixes l r :: "'a::len word"
  shows "r = 0 \<Longrightarrow> divideImpl d l r = Inl Fault_DivideByZero"
    and "divideImpl d l r = Inr q \<Longrightarrow> d = Op_SDiv \<Longrightarrow> sint q = sint l sdiv sint r"
    and "divideImpl d l r = Inr q \<Longrightarrow> d = Op_SRem \<Longrightarrow> sint q = sint l smod sint r"
    and "divideImpl d l r = Inr q \<Longrightarrow> d = Op_UDiv \<Longrightarrow> unat q = unat l div unat r"
    and "divideImpl d l r = Inr q \<Longrightarrow> d = Op_URem \<Longrightarrow> unat q = unat l mod unat r"
proof -
  have rng: "- (2 ^ (LENGTH('a) - 1)) \<le> sint l" "sint l < 2 ^ (LENGTH('a) - 1)"
    using sint_ge [of l] sint_lt [of l] by simp_all
  show "r = 0 \<Longrightarrow> divideImpl d l r = Inl Fault_DivideByZero" by (simp add: divideImpl_def)
  show "sint q = sint l sdiv sint r" if "divideImpl d l r = Inr q" "d = Op_SDiv"
  proof -
    from that have "r \<noteq> 0" and no: "\<not> (sint l = - (2 ^ (LENGTH('a) - 1)) \<and> sint r = - 1)"
      and q: "q = word_of_int (sint l sdiv sint r)"
      by (auto simp: divideImpl_def split: if_splits)
    from \<open>r \<noteq> 0\<close> have "sint r \<noteq> 0" by (metis signed_0 signed_word_eqI)
    from sdiv_in_range [OF rng this no] show ?thesis
      unfolding q by (intro sint_word_of_int_self)
  qed
  show "sint q = sint l smod sint r" if "divideImpl d l r = Inr q" "d = Op_SRem"
  proof -
    from that have q: "q = word_of_int (sint l smod sint r)"
      by (auto simp: divideImpl_def split: if_splits)
    show ?thesis unfolding q
      by (intro sint_word_of_int_self smod_in_range rng)
  qed
  show "divideImpl d l r = Inr q \<Longrightarrow> d = Op_UDiv \<Longrightarrow> unat q = unat l div unat r"
    by (auto simp: divideImpl_def unat_div_distrib split: if_splits)
  show "divideImpl d l r = Inr q \<Longrightarrow> d = Op_URem \<Longrightarrow> unat q = unat l mod unat r"
    by (auto simp: divideImpl_def unat_mod_distrib split: if_splits)
qed

lemma shift_amount_less:
  assumes "LENGTH('a) = 32 \<or> LENGTH('a) = 64"
  shows "shift_amount (r :: 'a::len word) < LENGTH('a)"
proof -
  have "r AND word_of_nat (LENGTH('a) - 1) \<le> word_of_nat (LENGTH('a) - 1)"
    by (rule word_and_le1)
  then have "unat (r AND word_of_nat (LENGTH('a) - 1)) \<le> unat (word_of_nat (LENGTH('a) - 1) :: 'a word)"
    by (simp add: word_le_nat_alt)
  also have "\<dots> \<le> LENGTH('a) - 1" by (simp add: unat_of_nat take_bit_eq_mod)
  finally show ?thesis unfolding shift_amount_def using assms by linarith
qed

lemma shift_amount_mod: 
  "shift_amount (r::u64) = unat r mod 64" "shift_amount (q::u32) = unat q mod 32"
proof -
  have "r AND 63 = r mod 64" using take_bit_eq_mask [of 6 r]
     by (simp add: take_bit_eq_mod mask_eq_exp_minus_1)
  then show "shift_amount (r::u64) = unat r mod 64" by (simp add: shift_amount_def unat_mod_distrib)
  have "q AND 31 = q mod 32"
    using take_bit_eq_mask [of 5 q] by (simp add: take_bit_eq_mod mask_eq_exp_minus_1)
  then show "shift_amount (q::u32) = unat q mod 32" by (simp add: shift_amount_def unat_mod_distrib)
qed

lemma byteswap_byteswap:
  assumes "LENGTH('a::len) = 8 * n" shows "byteswap n (byteswap n (v :: 'a word)) = v"
proof -
  have pw: "(256::nat) ^ n = 2 ^ LENGTH('a)" using assms by (simp add: power_mult)
  have rt: "unat (word_of_nat (bytes_le (rev (le_bytes n (unat v)))) :: 'a word) = bytes_le (rev (le_bytes n (unat v)))"
    using bytes_le_bound [of "rev (le_bytes n (unat v))"] pw by (simp add: unat_of_nat take_bit_eq_mod)
  have "le_bytes n (bytes_le (rev (le_bytes n (unat v)))) = rev (le_bytes n (unat v))"
    using le_bytes_bytes_le [of "rev (le_bytes n (unat v))"] by simp
  then have "byteswap n (byteswap n v) = word_of_nat (bytes_le (le_bytes n (unat v)))"
    unfolding byteswap_def rt by simp
  also have "\<dots> = v" using unsigned_less [of v] pw by (simp add: bytes_le_le_bytes)
  finally show ?thesis .
qed

lemma divideImpl_law:
  fixes l r :: "'a::len word"
  assumes "divideImpl Op_SDiv l r = Inr q" "divideImpl Op_SRem l r = Inr m"
    and "divideImpl Op_UDiv l r = Inr q'" "divideImpl Op_URem l r = Inr m'"
  shows "sint l = sint q * sint r + sint m \<and> \<bar>sint m\<bar> < \<bar>sint r\<bar> \<and>
     unat l = unat q' * unat r + unat m' \<and> unat m' < unat r"
proof -
  have r: "r \<noteq> 0" using assms(1) by (auto simp: divideImpl_def)
  have s: "sint q = sint l sdiv sint r" "sint m = sint l smod sint r"
    using divideImpl_spec(2,3) assms by metis+
  have "sint r \<noteq> 0" using r by (metis signed_0 signed_word_eqI)
  then have "\<bar>sint m\<bar> < \<bar>sint r\<bar>" unfolding s signed_modulo_int_def
    by (auto simp: abs_mult sgn_if)
  moreover have "sint l = sint q * sint r + sint m"
    unfolding s by (metis sdiv_mult_smod_eq) 
  moreover have "unat q' = unat l div unat r" "unat m' = unat l mod unat r"
    using divideImpl_spec(4,5) assms by metis+
  moreover have "0 < unat r" using r by (simp add: unat_gt_0)
  ultimately show ?thesis by simp
qed

lemma ucast_narrow_wide [simp]:
  "ucast (ucast (x::u16) :: u64) = x" "ucast (ucast (y::u32) :: u64) = y"
  by (rule bit_word_eqI; auto simp: bit_ucast_iff)+

lemma ucast_wide_narrow:
  "ucast (ucast (v::u64) :: u16) = take_bit 16 v" "ucast (ucast (v::u64) :: u32) = take_bit 32 v"
  by (rule bit_word_eqI; auto simp: bit_ucast_iff bit_take_bit_iff)+

lemma convertEndian_twice:
  assumes "convertEndian nl d w v = Some u"
  shows "convertEndian nl d w u = Some (take_bit (nat w) v)"
  using assms
  by (auto simp: convertEndian_def Let_def sbf_constants byteswap_byteswap ucast_wide_narrow
      take_bit_word_eq_self split: if_splits)

lemma table_branch_conditions:
  "list_all (\<lambda>info. isConditionalBranch info \<longrightarrow>
     evaluateBranchCondition (Op info) (Width info) l r \<noteq> None) OpcodeTable"
  by (simp add: OpcodeTable_def row_predicates effect_defs evaluateBranchCondition_def sbf_constants)

lemmas branch_condition_defined = list_all_set [OF table_branch_conditions]

text \<open>The unsigned and the signed number in the low \<open>w\<close> bits of a register.\<close>

definition lowUnsigned :: "nat \<Rightarrow> u64 \<Rightarrow> nat" where
  "lowUnsigned w x = unat x mod 2 ^ w"

definition lowSigned :: "nat \<Rightarrow> u64 \<Rightarrow> int" where
  "lowSigned w x = signed_take_bit (w - 1) (uint x)"

lemma low_word:
  "lowUnsigned 32 x = unat (ucast x :: u32)" "lowSigned 32 x = sint (ucast x :: u32)"
  "lowUnsigned 64 x = unat x" "lowSigned 64 x = sint x"
proof -
  have "uint (ucast x :: u32) = take_bit 32 (uint x)" by (simp add: unsigned_ucast_eq)
  then show "lowUnsigned 32 x = unat (ucast x :: u32)"
    unfolding lowUnsigned_def by (metis nat_take_bit_eq take_bit_eq_mod unat_eq_nat_uint unsigned_greater_eq)
  have "signed_take_bit 31 (uint x) = signed_take_bit 31 (uint (ucast x :: u32))"
    by (rule bit_eqI) (simp add: bit_signed_take_bit_iff unsigned_ucast_eq bit_take_bit_iff min_less_iff_disj)
  then show "lowSigned 32 x = sint (ucast x :: u32)" by (simp add: lowSigned_def sint_uint)
  show "lowUnsigned 64 x = unat x" "lowSigned 64 x = sint x"
    using unsigned_less [of x, where ?'a = nat] by (simp_all add: lowUnsigned_def lowSigned_def sint_uint)
qed

text \<open>The division law: quotient and remainder recombine, and the remainder is small and has the dividend's sign.\<close>

lemma divideImpl_exact:
  fixes l r :: "'a::len word"
  shows "r \<noteq> 0 \<Longrightarrow> \<exists>q m. divideImpl Op_UDiv l r = Inr q \<and> divideImpl Op_URem l r = Inr m \<and>
      unat l = unat q * unat r + unat m \<and> unat m < unat r"
    and "r \<noteq> 0 \<Longrightarrow> \<not> (sint l = - (2 ^ (LENGTH('a) - 1)) \<and> sint r = - 1) \<Longrightarrow>
      \<exists>q m. divideImpl Op_SDiv l r = Inr q \<and> divideImpl Op_SRem l r = Inr m \<and>
      sint l = sint q * sint r + sint m \<and> \<bar>sint m\<bar> < \<bar>sint r\<bar> \<and> (sint m = 0 \<or> sgn (sint m) = sgn (sint l))"
proof -
  assume r: "r \<noteq> 0"
  then obtain q m where u: "divideImpl Op_UDiv l r = Inr q" "divideImpl Op_URem l r = Inr m"
    by (simp add: divideImpl_def)
  have "0 < unat r" using r by (simp add: unat_gt_0)
  with divideImpl_spec(4) [OF u(1)] divideImpl_spec(5) [OF u(2)] u
  show "\<exists>q m. divideImpl Op_UDiv l r = Inr q \<and> divideImpl Op_URem l r = Inr m \<and>
      unat l = unat q * unat r + unat m \<and> unat m < unat r" by simp
  assume "\<not> (sint l = - (2 ^ (LENGTH('a) - 1)) \<and> sint r = - 1)"
  with r obtain q m where s: "divideImpl Op_SDiv l r = Inr q" "divideImpl Op_SRem l r = Inr m"
    by (auto simp: divideImpl_def)
  have "sint m = sgn (sint l) * (\<bar>sint l\<bar> mod \<bar>sint r\<bar>)"
    using divideImpl_spec(3) [OF s(2)] by (simp add: signed_modulo_int_def)
  moreover have "0 \<le> \<bar>sint l\<bar> mod \<bar>sint r\<bar>" by (cases "sint r = 0") simp_all
  ultimately have "sint m = 0 \<or> sgn (sint m) = sgn (sint l)" by (auto simp: sgn_mult sgn_if)
  moreover obtain q' m' where "divideImpl Op_UDiv l r = Inr q'" "divideImpl Op_URem l r = Inr m'" using u by blast
  ultimately show "\<exists>q m. divideImpl Op_SDiv l r = Inr q \<and> divideImpl Op_SRem l r = Inr m \<and>
      sint l = sint q * sint r + sint m \<and> \<bar>sint m\<bar> < \<bar>sint r\<bar> \<and> (sint m = 0 \<or> sgn (sint m) = sgn (sint l))"
    using divideImpl_law [OF s] s by blast
qed

lemma divide_width: "divide d 32 l r = map_sum id ucast (divideImpl d (ucast l :: u32) (ucast r))" "divide d 64 l r = divideImpl d l r"
  by (simp_all add: divide_def sbf_constants split: sum.split)

lemma low_result:
  "ucast (ucast (q::u32) :: u64) = q" "unat (ucast (q::u32) :: u64) < 2 ^ 32" "unat (v::u64) < 2 ^ 64"
proof -
  show "ucast (ucast (q::u32) :: u64) = q" by (rule ucast_narrow_wide)
  have "unat (ucast q :: u64) = unat q" using unsigned_less [of q, where ?'a = nat] by (simp add: unsigned_ucast_eq take_bit_nat_eq_self)
  then show "unat (ucast q :: u64) < 2 ^ 32" using unsigned_less [of q, where ?'a = nat] by simp
  show "unat v < 2 ^ 64" using unsigned_less [of v, where ?'a = nat] by simp
qed

lemma divide_faults:
  assumes "w = 32 \<or> w = 64"
  shows "lowUnsigned w r = 0 \<Longrightarrow> divide d w l r = Inl Fault_DivideByZero"
    and "lowUnsigned w r \<noteq> 0 \<Longrightarrow> d \<in> {Op_SDiv, Op_SRem} \<Longrightarrow> lowSigned w l = - (2 ^ (w - 1)) \<Longrightarrow> lowSigned w r = - 1 \<Longrightarrow>
      divide d w l r = Inl Fault_DivideOverflow"
  using assms by (auto simp: low_word divide_width divideImpl_def unat_eq_0)

lemma divide_unsigned:
  assumes "w = 32 \<or> w = 64" "lowUnsigned w r \<noteq> 0"
  shows "\<exists>q m. divide Op_UDiv w l r = Inr q \<and> divide Op_URem w l r = Inr m \<and> unat q < 2 ^ w \<and> unat m < 2 ^ w \<and>
    lowUnsigned w l = lowUnsigned w q * lowUnsigned w r + lowUnsigned w m \<and> lowUnsigned w m < lowUnsigned w r"
  using assms(1)
proof
  assume w: "w = 32"
  with assms(2) have "(ucast r :: u32) \<noteq> 0" by (auto simp: low_word)
  then obtain q m :: u32 where "divideImpl Op_UDiv (ucast l) (ucast r :: u32) = Inr q" "divideImpl Op_URem (ucast l) (ucast r) = Inr m"
    "unat (ucast l :: u32) = unat q * unat (ucast r :: u32) + unat m" "unat m < unat (ucast r :: u32)"
    using divideImpl_exact(1) by blast
  then show ?thesis unfolding w low_word divide_width by (intro exI [of _ "ucast q"] exI [of _ "ucast m"]) (simp add: low_result low_result(2) [simplified])
next
  assume w: "w = 64"
  with assms(2) have "r \<noteq> 0" by (auto simp: low_word)
  from divideImpl_exact(1) [OF this, of l] show ?thesis unfolding w low_word divide_width by (metis low_result(3))
qed

lemma divide_signed:
  assumes "w = 32 \<or> w = 64" "lowUnsigned w r \<noteq> 0" "\<not> (lowSigned w l = - (2 ^ (w - 1)) \<and> lowSigned w r = - 1)"
  shows "\<exists>q m. divide Op_SDiv w l r = Inr q \<and> divide Op_SRem w l r = Inr m \<and> unat q < 2 ^ w \<and> unat m < 2 ^ w \<and>
    lowSigned w l = lowSigned w q * lowSigned w r + lowSigned w m \<and> \<bar>lowSigned w m\<bar> < \<bar>lowSigned w r\<bar> \<and>
    (lowSigned w m = 0 \<or> sgn (lowSigned w m) = sgn (lowSigned w l))"
  using assms(1)
proof
  assume w: "w = 32"
  with assms(2,3) have "(ucast r :: u32) \<noteq> 0" "\<not> (sint (ucast l :: u32) = - (2 ^ (LENGTH(32) - 1)) \<and> sint (ucast r :: u32) = - 1)"
    by (auto simp: low_word)
  from divideImpl_exact(2) [OF this] obtain q m :: u32 where
    "divideImpl Op_SDiv (ucast l) (ucast r :: u32) = Inr q" "divideImpl Op_SRem (ucast l) (ucast r) = Inr m"
    "sint (ucast l :: u32) = sint q * sint (ucast r :: u32) + sint m" "\<bar>sint m\<bar> < \<bar>sint (ucast r :: u32)\<bar>"
    "sint m = 0 \<or> sgn (sint m) = sgn (sint (ucast l :: u32))" by blast
  then show ?thesis unfolding w low_word divide_width by (intro exI [of _ "ucast q"] exI [of _ "ucast m"]) (simp add: low_result low_result(2) [simplified])
next
  assume w: "w = 64"
  with assms(2,3) have "r \<noteq> 0" "\<not> (sint l = - (2 ^ (LENGTH(64) - 1)) \<and> sint r = - 1)" by (auto simp: low_word)
  from divideImpl_exact(2) [OF this] show ?thesis unfolding w low_word divide_width by (metis low_result(3))
qed


section \<open>Properties\<close>

text \<open>
  C40.  The wide multiplications are exact: \<open>unsignedHighMultiply64\<close>, computed from four 32-bit partial
  products, is the upper half of the 128-bit product of its operands, and \<open>signedHighMultiply64\<close>, the
  unsigned result with two sign corrections, the upper half of the signed product.
\<close>

theorem high_multiply_exact:
  "unat (unsignedHighMultiply64 lhs rhs) = unat lhs * unat rhs div 2 ^ 64 \<and>
   sint (signedHighMultiply64 lhs rhs) = sint lhs * sint rhs div 2 ^ 64"
  by (simp add: unat_unsignedHighMultiply64 sint_signedHighMultiply64)

text \<open>
  C36.  Division is exact at both widths.  With a zero divisor every division faults.  Otherwise the
  unsigned quotient and remainder of the low bits recombine to the dividend with a remainder below the
  divisor; the signed ones do so with a remainder smaller in magnitude than the divisor and of the
  dividend's sign, except that the one quotient that does not fit faults.  The results fill the low bits only.
\<close>

theorem division_exact:
  assumes "w = 32 \<or> w = 64"
  shows "if lowUnsigned w r = 0 then \<forall>d. divide d w l r = Inl Fault_DivideByZero
    else (\<exists>q m. divide Op_UDiv w l r = Inr q \<and> divide Op_URem w l r = Inr m \<and> unat q < 2 ^ w \<and> unat m < 2 ^ w \<and>
        lowUnsigned w l = lowUnsigned w q * lowUnsigned w r + lowUnsigned w m \<and> lowUnsigned w m < lowUnsigned w r) \<and>
      (if lowSigned w l = - (2 ^ (w - 1)) \<and> lowSigned w r = - 1
       then divide Op_SDiv w l r = Inl Fault_DivideOverflow \<and> divide Op_SRem w l r = Inl Fault_DivideOverflow
       else \<exists>q m. divide Op_SDiv w l r = Inr q \<and> divide Op_SRem w l r = Inr m \<and> unat q < 2 ^ w \<and> unat m < 2 ^ w \<and>
         lowSigned w l = lowSigned w q * lowSigned w r + lowSigned w m \<and> \<bar>lowSigned w m\<bar> < \<bar>lowSigned w r\<bar> \<and>
         (lowSigned w m = 0 \<or> sgn (lowSigned w m) = sgn (lowSigned w l)))"
  using divide_faults [OF assms] divide_unsigned [OF assms] divide_signed [OF assms] by simp

lemma low_examples:
  "lowUnsigned 32 0xfffffffe = 0xfffffffe" "lowSigned 32 7 = 7" "lowSigned 32 0xfffffffe = - 2"
  by (simp_all add: lowUnsigned_def lowSigned_def signed_take_bit_eq_take_bit_minus take_bit_eq_mod bit_iff_odd)

theorem division_exact_witness:
  "\<exists>q m. divide Op_SDiv 32 7 0xfffffffe = Inr q \<and> divide Op_SRem 32 7 0xfffffffe = Inr m \<and>
     7 = lowSigned 32 q * - 2 + lowSigned 32 m \<and> \<bar>lowSigned 32 m\<bar> < 2"
proof -
  have "lowUnsigned 32 0xfffffffe \<noteq> 0" "lowSigned 32 0xfffffffe \<noteq> - 1" by (simp_all add: low_examples)
  with division_exact [of 32 "0xfffffffe" 7] obtain q m where
    "divide Op_SDiv 32 7 0xfffffffe = Inr q" "divide Op_SRem 32 7 0xfffffffe = Inr m"
    "lowSigned 32 7 = lowSigned 32 q * lowSigned 32 0xfffffffe + lowSigned 32 m" "\<bar>lowSigned 32 m\<bar> < \<bar>lowSigned 32 0xfffffffe\<bar>"
    by metis
  then show ?thesis unfolding low_examples by auto
qed

text \<open>
  Endian conversion is an involution up to truncation: converting twice at a width yields the
  low bits of the operand, on either host byte order.
\<close>

lemma endian_involution:
  assumes "convertEndian native_little d w v = Some u"
  shows "convertEndian native_little d w u = Some (take_bit (nat w) v)"
  using assms by (rule convertEndian_twice)

end
