(* ===== verification/SBF_Validation.thy ===== *)
theory SBF_Validation
  imports SBF_Semantics
begin

text \<open>
  Raw instruction decoding and the requisite instruction rules that staged analysis and raw
  execution share (\<open>lib/sbf/analysis/SBFInstructionValidation.{h,cpp}\<close>,
  \<open>SBFInterpreterSupport.cpp\<close> \<open>decodeRaw\<close>, \<open>SBFIR.h\<close> \<open>ValidationRule\<close>).
\<close>

section \<open>Validation rules\<close>

datatype validation_rule =
  Rule_None | Rule_UnknownOpcode | Rule_MissingLDDWContinuation | Rule_NonZeroLDDWContinuation
| Rule_ImmediateDivisionByZero | Rule_ImmediateShiftOutOfRange | Rule_InvalidEndianImmediate
| Rule_MisalignedFrameAdjustment | Rule_BranchOutOfRange | Rule_BranchToLDDWContinuation
| Rule_InvalidCallXRegister | Rule_InvalidSourceRegister | Rule_FramePointerWrite
| Rule_InvalidDestinationRegister

text \<open>The \<open>FAULT_CODE\<close> column of \<open>SBFValidationRules.def\<close>.\<close>

fun validationRuleFault :: "validation_rule \<Rightarrow> fault_code" where
  "validationRuleFault Rule_None = Fault_None"
| "validationRuleFault Rule_UnknownOpcode = Fault_InvalidInstruction"
| "validationRuleFault Rule_MissingLDDWContinuation = Fault_InvalidInstruction"
| "validationRuleFault Rule_NonZeroLDDWContinuation = Fault_InvalidInstruction"
| "validationRuleFault Rule_ImmediateDivisionByZero = Fault_DivideByZero"
| "validationRuleFault Rule_ImmediateShiftOutOfRange = Fault_InvalidInstruction"
| "validationRuleFault Rule_InvalidEndianImmediate = Fault_InvalidInstruction"
| "validationRuleFault Rule_MisalignedFrameAdjustment = Fault_InvalidInstruction"
| "validationRuleFault Rule_BranchOutOfRange = Fault_InvalidBranch"
| "validationRuleFault Rule_BranchToLDDWContinuation = Fault_InvalidBranch"
| "validationRuleFault Rule_InvalidCallXRegister = Fault_InvalidRegister"
| "validationRuleFault Rule_InvalidSourceRegister = Fault_InvalidRegister"
| "validationRuleFault Rule_FramePointerWrite = Fault_InvalidRegister"
| "validationRuleFault Rule_InvalidDestinationRegister = Fault_InvalidRegister"

definition executionFaultForValidationRule :: "validation_rule \<Rightarrow> fault_code" where
  "executionFaultForValidationRule Rule =
     (let Fault = validationRuleFault Rule in
      if Fault = Fault_None then Fault_InvalidInstruction else Fault)"

text \<open>The \<open>MESSAGE\<close> column of the same table.\<close>

fun validationRuleMessage :: "validation_rule \<Rightarrow> string" where
  "validationRuleMessage Rule_None = ''valid instruction''"
| "validationRuleMessage Rule_UnknownOpcode = ''unknown or version-inactive opcode''"
| "validationRuleMessage Rule_MissingLDDWContinuation = ''LDDW is missing its continuation slot''"
| "validationRuleMessage Rule_NonZeroLDDWContinuation = ''LDDW continuation has a non-zero opcode''"
| "validationRuleMessage Rule_ImmediateDivisionByZero = ''immediate division or remainder by zero''"
| "validationRuleMessage Rule_ImmediateShiftOutOfRange = ''immediate shift exceeds operand width''"
| "validationRuleMessage Rule_InvalidEndianImmediate = ''endianness conversion width is invalid''"
| "validationRuleMessage Rule_MisalignedFrameAdjustment = ''dynamic stack-frame adjustment is misaligned''"
| "validationRuleMessage Rule_BranchOutOfRange = ''branch target is outside program text''"
| "validationRuleMessage Rule_BranchToLDDWContinuation = ''branch targets an LDDW continuation''"
| "validationRuleMessage Rule_InvalidCallXRegister = ''CALLX register is outside the callable register range''"
| "validationRuleMessage Rule_InvalidSourceRegister = ''source register is outside the SBF register file''"
| "validationRuleMessage Rule_FramePointerWrite = ''instruction cannot write the frame pointer''"
| "validationRuleMessage Rule_InvalidDestinationRegister = ''destination register is outside the SBF register file''"

section \<open>Raw instructions\<close>

text \<open>
  \<open>RawInstruction\<close> of the interpreter and \<open>InstructionView\<close> of the validator have the same
  fields; \<open>Info = None\<close> is the null descriptor pointer.  \<open>Offset\<close> and \<open>Immediate\<close> hold the
  values of the \<open>int16_t\<close> and \<open>int32_t\<close> fields.
\<close>

record raw_instruction =
  Slot :: nat
  RawOpcode :: u8
  Dst :: nat
  Src :: nat
  Offset :: int
  Immediate :: int
  Info :: "opcode_info option"

definition decodeRaw :: "u8 list \<Rightarrow> version \<Rightarrow> nat \<Rightarrow> raw_instruction" where
  "decodeRaw text v slot =
    (let base = slot * kInstructionSize;
         opc = text ! (base + kOpcodeOffset);
         regs = text ! (base + kRegisterByteOffset) in
     \<lparr>Slot = slot,
      RawOpcode = opc,
      Dst = unat (regs AND kRegisterEncodingMask),
      Src = unat (drop_bit kRegisterEncodingBits regs),
      Offset = sint (read16le text (base + kBranchOffsetOffset)),
      Immediate = sint (read32le text (base + kImmediateOffset)),
      Info = getOpcodeInfo opc v\<rparr>)"

section \<open>The requisite rules\<close>

record instruction_validation =
  Rule :: validation_rule
  DiagnosticSlot :: nat
  HasLDDWContinuation :: bool
  BranchTarget :: "nat option"
  CallXRegister :: "nat option"

definition valid :: "instruction_validation \<Rightarrow> bool" where
  "valid r = (Rule r = Rule_None)"

definition initial_validation :: "nat \<Rightarrow> instruction_validation" where
  "initial_validation slot = \<lparr>Rule = Rule_None, DiagnosticSlot = slot,
     HasLDDWContinuation = False, BranchTarget = None, CallXRegister = None\<rparr>"

text \<open>The rules of \<open>validateInstruction\<close>, in its order; each early return is an \<open>if\<close> branch.\<close>

definition validateRegisters ::
    "version \<Rightarrow> raw_instruction \<Rightarrow> opcode_info \<Rightarrow> instruction_validation \<Rightarrow>
     instruction_validation" where
  "validateRegisters v I info r =
    (let Store = writesMemory info;
         ManualFrameBump = (ID info = ADD64_IMM \<and> versionHasFeature v ManualStackFrames);
         r = (if ID info = LDDW then r\<lparr>DiagnosticSlot := Slot I + 1\<rparr> else r) in
     if Src I \<ge> kRegisterCount then r\<lparr>Rule := Rule_InvalidSourceRegister\<rparr>
     else if Dst I \<ge> kRegisterCount then r\<lparr>Rule := Rule_InvalidDestinationRegister\<rparr>
     else if Dst I = kFramePointerRegister \<and> \<not> Store \<and> \<not> ManualFrameBump
       then r\<lparr>Rule := Rule_FramePointerWrite\<rparr>
     else r)"

definition validateCallX ::
    "version \<Rightarrow> raw_instruction \<Rightarrow> opcode_info \<Rightarrow> instruction_validation \<Rightarrow>
     instruction_validation" where
  "validateCallX v I info r =
    (if ID info = CALL_REG then
       (let Register = callxRegisterIndex v (Dst I) (Src I) (Immediate I) in
        if Register < 0 \<or> Register \<ge> int kFramePointerRegister
        then r\<lparr>Rule := Rule_InvalidCallXRegister\<rparr>
        else validateRegisters v I info (r\<lparr>CallXRegister := Some (nat Register)\<rparr>))
     else validateRegisters v I info r)"

definition validateBranch ::
    "u8 list \<Rightarrow> version \<Rightarrow> raw_instruction \<Rightarrow> opcode_info \<Rightarrow> instruction_validation \<Rightarrow>
     instruction_validation" where
  "validateBranch text v I info r =
    (let InstructionCount = length text div kInstructionSize in
     if isBranch info then
       (let Target = int (Slot I) + 1 + Offset I in
        if Target < 0 \<or> Target \<ge> int InstructionCount
        then r\<lparr>Rule := Rule_BranchOutOfRange\<rparr>
        else if text ! (nat Target * kInstructionSize + kOpcodeOffset) = 0
        then r\<lparr>Rule := Rule_BranchToLDDWContinuation\<rparr>
        else validateCallX v I info (r\<lparr>BranchTarget := Some (nat Target)\<rparr>))
     else validateCallX v I info r)"

definition validateImmediates ::
    "u8 list \<Rightarrow> version \<Rightarrow> raw_instruction \<Rightarrow> opcode_info \<Rightarrow> instruction_validation \<Rightarrow>
     instruction_validation" where
  "validateImmediates text v I info r =
    (let Traits = semanticTraits info v;
         ManualFrameBump = (ID info = ADD64_IMM \<and> versionHasFeature v ManualStackFrames) in
     if Form info = Form_DstImm \<and> hasFaultPolicy (Trait_Faults Traits) Policy_DivideByZero \<and>
        Immediate I = 0
     then r\<lparr>Rule := Rule_ImmediateDivisionByZero\<rparr>
     else if (Op info = Op_LSh \<or> Op info = Op_RSh \<or> Op info = Op_ARSh) \<and>
        Form info = Form_DstImm \<and> (Immediate I < 0 \<or> Immediate I \<ge> int (Width info))
     then r\<lparr>Rule := Rule_ImmediateShiftOutOfRange\<rparr>
     else if (Op info = Op_EndianLE \<or> Op info = Op_EndianBE) \<and>
        Immediate I \<noteq> int kHalfWordBitWidth \<and> Immediate I \<noteq> int kWordBitWidth \<and>
        Immediate I \<noteq> int kDoubleWordBitWidth
     then r\<lparr>Rule := Rule_InvalidEndianImmediate\<rparr>
     else if ManualFrameBump \<and> Dst I = kFramePointerRegister \<and>
        Immediate I smod kDynamicStackFrameAlignment \<noteq> 0
     then r\<lparr>Rule := Rule_MisalignedFrameAdjustment\<rparr>
     else validateBranch text v I info r)"

definition validateInstruction ::
    "u8 list \<Rightarrow> version \<Rightarrow> raw_instruction \<Rightarrow> instruction_validation" where
  "validateInstruction text v I =
    (let r = initial_validation (Slot I) in
     case Info I of
       None \<Rightarrow> r\<lparr>Rule := Rule_UnknownOpcode\<rparr>
     | Some info \<Rightarrow>
        (let InstructionCount = length text div kInstructionSize in
         if ID info = LDDW then
           (if Slot I + 1 \<ge> InstructionCount
            then r\<lparr>Rule := Rule_MissingLDDWContinuation\<rparr>
            else if text ! ((Slot I + 1) * kInstructionSize + kOpcodeOffset) \<noteq> 0
            then r\<lparr>Rule := Rule_NonZeroLDDWContinuation\<rparr>
            else validateImmediates text v I info (r\<lparr>HasLDDWContinuation := True\<rparr>))
         else validateImmediates text v I info r))"

section \<open>The rules as one requirement\<close>

text \<open>
  \<open>requisite\<close> states what an admissible instruction is, with no order between the rules;
  \<open>validateInstruction\<close> accepts exactly the instructions that satisfy it.
\<close>

definition branchTargetOf :: "raw_instruction \<Rightarrow> int" where
  "branchTargetOf I = int (Slot I) + 1 + Offset I"

definition manualFrameBump :: "version \<Rightarrow> opcode_info \<Rightarrow> bool" where
  "manualFrameBump v info = (ID info = ADD64_IMM \<and> versionHasFeature v ManualStackFrames)"

definition requisite :: "u8 list \<Rightarrow> version \<Rightarrow> raw_instruction \<Rightarrow> opcode_info \<Rightarrow> bool" where
  "requisite text v I info =
    (let n = length text div 8 in
     (ID info = LDDW \<longrightarrow> Slot I + 1 < n \<and> text ! ((Slot I + 1) * 8) = 0) \<and>
     (Form info = Form_DstImm \<and> is_division (Op info) \<longrightarrow> Immediate I \<noteq> 0) \<and>
     (Form info = Form_DstImm \<and> Op info \<in> {Op_LSh, Op_RSh, Op_ARSh} \<longrightarrow>
        0 \<le> Immediate I \<and> Immediate I < int (Width info)) \<and>
     (Op info \<in> {Op_EndianLE, Op_EndianBE} \<longrightarrow> Immediate I \<in> {16, 32, 64}) \<and>
     (manualFrameBump v info \<and> Dst I = 10 \<longrightarrow> 64 dvd Immediate I) \<and>
     (isBranch info \<longrightarrow> 0 \<le> branchTargetOf I \<and> branchTargetOf I < int n \<and>
        text ! (nat (branchTargetOf I) * 8) \<noteq> 0) \<and>
     (ID info = CALL_REG \<longrightarrow> callxRegisterIndex v (Dst I) (Src I) (Immediate I) \<in> {0..<10}) \<and>
     Src I < 11 \<and> Dst I < 11 \<and> (Dst I = 10 \<longrightarrow> writesMemory info \<or> manualFrameBump v info))"

lemma requisiteD:
  assumes "requisite text v I info"
  shows "isBranch info \<Longrightarrow> 0 \<le> branchTargetOf I"
    "isBranch info \<Longrightarrow> branchTargetOf I < int (length text div 8)"
    "isBranch info \<Longrightarrow> text ! (nat (branchTargetOf I) * 8) \<noteq> 0"
    "ID info = CALL_REG \<Longrightarrow> 0 \<le> callxRegisterIndex v (Dst I) (Src I) (Immediate I)"
    "ID info = CALL_REG \<Longrightarrow> callxRegisterIndex v (Dst I) (Src I) (Immediate I) < 10"
    "ID info = LDDW \<Longrightarrow> Slot I + 1 < length text div 8"
    "ID info = LDDW \<Longrightarrow> text ! ((Slot I + 1) * 8) = 0"
    "Src I < 11" "Dst I < 11" "Dst I = 10 \<Longrightarrow> writesMemory info \<or> manualFrameBump v info"
  using assms unfolding requisite_def Let_def by simp_all

lemma smod_64_dvd: "(x::int) smod 64 = 0 \<longleftrightarrow> 64 dvd x"
proof -
  have "\<bar>x\<bar> mod 64 = 0 \<longleftrightarrow> 64 dvd x" by (simp flip: dvd_eq_mod_eq_0)
  then show ?thesis by (auto simp: signed_modulo_int_def sgn_0_0)
qed

lemma valid_if: "X \<noteq> Rule_None \<Longrightarrow> valid (if c then r\<lparr>Rule := X\<rparr> else y) \<longleftrightarrow> \<not> c \<and> valid y"
  by (simp add: valid_def)

lemma division_fault_policy:
  "hasFaultPolicy (Trait_Faults (semanticTraits info v)) Policy_DivideByZero \<longleftrightarrow> is_division (Op info)"
  by (auto simp: semanticTraits_def is_division_def hasFaultPolicy_def policy_defs Let_def)

lemma validateRegisters_valid:
  "valid (validateRegisters v I info r) \<longleftrightarrow>
     valid r \<and> Src I < 11 \<and> Dst I < 11 \<and> (Dst I = 10 \<longrightarrow> writesMemory info \<or> manualFrameBump v info)"
  by (auto simp: validateRegisters_def valid_def Let_def sbf_constants manualFrameBump_def
      simp del: versionHasFeature_iff)

lemma validateCallX_valid:
  "valid (validateCallX v I info r) \<longleftrightarrow>
     (ID info = CALL_REG \<longrightarrow> callxRegisterIndex v (Dst I) (Src I) (Immediate I) \<in> {0..<10}) \<and>
     valid (validateRegisters v I info r)"
  by (auto simp: validateCallX_def Let_def sbf_constants validateRegisters_valid) (auto simp: valid_def)

lemma validateBranch_valid:
  "valid (validateBranch text v I info r) \<longleftrightarrow>
     (isBranch info \<longrightarrow> 0 \<le> branchTargetOf I \<and> branchTargetOf I < int (length text div 8) \<and>
        text ! (nat (branchTargetOf I) * 8) \<noteq> 0) \<and> valid (validateCallX v I info r)"
  by (auto simp: validateBranch_def Let_def sbf_constants validateCallX_valid
      validateRegisters_valid branchTargetOf_def) (auto simp: valid_def)

lemma validateImmediates_valid:
  "valid (validateImmediates text v I info r) \<longleftrightarrow>
     (Form info = Form_DstImm \<and> is_division (Op info) \<longrightarrow> Immediate I \<noteq> 0) \<and>
     (Form info = Form_DstImm \<and> Op info \<in> {Op_LSh, Op_RSh, Op_ARSh} \<longrightarrow>
        0 \<le> Immediate I \<and> Immediate I < int (Width info)) \<and>
     (Op info \<in> {Op_EndianLE, Op_EndianBE} \<longrightarrow> Immediate I \<in> {16, 32, 64}) \<and>
     (manualFrameBump v info \<and> Dst I = 10 \<longrightarrow> 64 dvd Immediate I) \<and>
     valid (validateBranch text v I info r)"
  unfolding validateImmediates_def Let_def division_fault_policy manualFrameBump_def [symmetric]
    smod_64_dvd sbf_constants
  by (simp add: valid_if not_less not_le) blast

lemma valid_initial: "valid (initial_validation k)" "valid ((initial_validation k)\<lparr>HasLDDWContinuation := True\<rparr>)"
  by (simp_all add: valid_def initial_validation_def)

lemma validateInstruction_valid:
  "valid (validateInstruction text v I) \<longleftrightarrow> (\<exists>info. Info I = Some info \<and> requisite text v I info)"
proof (cases "Info I")
  case None
  then show ?thesis by (simp add: validateInstruction_def valid_def)
next
  case (Some info)
  note rules = validateImmediates_valid validateBranch_valid validateCallX_valid
    validateRegisters_valid valid_initial
  show ?thesis
    unfolding validateInstruction_def Let_def requisite_def sbf_constants
    using Some by (simp add: valid_if rules not_le del: One_nat_def)
qed

text \<open>What an accepted instruction carries to the executor.\<close>

lemma validateRegisters_outputs [simp]:
  "BranchTarget (validateRegisters v I info r) = BranchTarget r"
  "CallXRegister (validateRegisters v I info r) = CallXRegister r"
  by (simp_all add: validateRegisters_def Let_def)

lemma validateInstruction_outputs:
  assumes "Info I = Some info" "requisite text v I info"
  shows "isBranch info \<Longrightarrow>
           BranchTarget (validateInstruction text v I) = Some (nat (branchTargetOf I))"
    and "ID info = CALL_REG \<Longrightarrow> CallXRegister (validateInstruction text v I) =
           Some (nat (callxRegisterIndex v (Dst I) (Src I) (Immediate I)))"
proof -
  from assms(2) have im: "valid (validateImmediates text v I info r) = valid r" for r
    by (auto simp: requisite_def Let_def validateImmediates_valid validateBranch_valid
        validateCallX_valid validateRegisters_valid)
  have t: "validateImmediates text v I info r = validateBranch text v I info r" if "valid r" for r
    using im [of r] that unfolding validateImmediates_def Let_def by (simp only: valid_if validation_rule.simps not_False_eq_True if_False simp_thms)
  have b: "validateBranch text v I info r = validateCallX v I info
     (if isBranch info then r\<lparr>BranchTarget := Some (nat (branchTargetOf I))\<rparr> else r)" for r
    using requisiteD(1-3) [OF assms(2)]
    by (cases "isBranch info") (auto simp: validateBranch_def Let_def sbf_constants branchTargetOf_def not_less not_le)
  have c: "validateCallX v I info r = validateRegisters v I info
     (if ID info = CALL_REG then r\<lparr>CallXRegister := Some (nat (callxRegisterIndex v (Dst I) (Src I) (Immediate I)))\<rparr>
      else r)" for r
    using requisiteD(4,5) [OF assms(2)]
    by (cases "ID info = CALL_REG") (auto simp: validateCallX_def Let_def sbf_constants not_less not_le)
  have "\<exists>r. valid r \<and> validateInstruction text v I = validateImmediates text v I info r"
    using requisiteD(6,7) [OF assms(2)] valid_initial
    by (auto simp: validateInstruction_def assms(1) Let_def sbf_constants)
  then obtain r where r: "validateInstruction text v I = validateBranch text v I info r"
    using t by metis
  show "isBranch info \<Longrightarrow>
           BranchTarget (validateInstruction text v I) = Some (nat (branchTargetOf I))"
    "ID info = CALL_REG \<Longrightarrow> CallXRegister (validateInstruction text v I) =
           Some (nat (callxRegisterIndex v (Dst I) (Src I) (Immediate I)))"
    by (simp_all add: r b c)
qed
section \<open>Properties\<close>

text \<open>
  C22.  The ordered rule chain of \<open>validateInstruction\<close>, with its early returns, accepts an
  instruction exactly when its opcode is known and all requirements hold together: continuation
  slot, immediate ranges, frame alignment, branch target, \<open>CALLX\<close> register, register file and
  frame-pointer protection.
\<close>

theorem validation_is_requisite:
  "valid (validateInstruction text v I) \<longleftrightarrow> (\<exists>info. Info I = Some info \<and> requisite text v I info)"
  by (rule validateInstruction_valid)

text \<open>
  C38.  An accepted branch carries a target slot inside the text that is not an \<open>LDDW\<close> continuation
  and is the one its offset denotes; an accepted \<open>CALLX\<close> carries a register below the frame pointer.
\<close>

theorem validated_transfer_targets:
  assumes "valid (validateInstruction text v I)" "Info I = Some info"
  shows "(isBranch info \<longrightarrow> (\<exists>t. BranchTarget (validateInstruction text v I) = Some t \<and>
            t < length text div 8 \<and> text ! (t * 8) \<noteq> 0 \<and> int t = int (Slot I) + 1 + Offset I)) \<and>
         (ID info = CALL_REG \<longrightarrow> (\<exists>r. CallXRegister (validateInstruction text v I) = Some r \<and> r < 10))"
proof -
  have q: "requisite text v I info" using assms by (simp add: validateInstruction_valid)
  note out = validateInstruction_outputs [OF assms(2) q]
  have "int (nat (branchTargetOf I)) = branchTargetOf I" if "isBranch info"
    using requisiteD(1) [OF q that] by simp
  then show ?thesis using out requisiteD(1-5) [OF q]
    by (auto simp: nat_less_iff branchTargetOf_def)
qed

theorem validated_transfer_targets_witness:
  "\<exists>t. BranchTarget (validateInstruction [5,0,0,0,0,0,0,0,149,0,0,0,0,0,0,0] V0
        (decodeRaw [5,0,0,0,0,0,0,0,149,0,0,0,0,0,0,0] V0 0)) = Some t \<and> t < 2"
proof -
  let ?t = "[5,0,0,0,0,0,0,0,149,0,0,0,0,0,0,0] :: u8 list"
  let ?I = "decodeRaw ?t V0 0"
  have v: "valid (validateInstruction ?t V0 ?I)" by code_simp
  have "case Info ?I of None \<Rightarrow> False | Some info \<Rightarrow> isBranch info" by code_simp
  then obtain info where i: "Info ?I = Some info" "isBranch info" by (cases "Info ?I") auto
  from validated_transfer_targets [OF v i(1)] i(2) show ?thesis by auto
qed

end
