(* ===== verification/SBF_Image.thy ===== *)
theory SBF_Image
  imports SBF_Validation
begin

text \<open>
  The canonical VM image of an SBF program (\<open>include/neverd/sbf/image/SBFProgramImage.h\<close>,
  \<open>lib/sbf/image/SBFProgramImage.cpp\<close>): its regions, its text view and its function registry.
  Strings that only end up in diagnostics are kept; section names carry no meaning here.
\<close>

section \<open>State\<close>

datatype program_region_kind = Kind_Bytecode | Kind_ReadOnly | Kind_LegacyReadOnly

record section_span =
  Span_Name :: string
  Span_Offset :: nat
  Span_Size :: nat
  Span_Executable :: bool

record program_region =
  PR_Address :: u64
  PR_Bytes :: "u8 list"
  PR_Kind :: program_region_kind
  PR_DataVisible :: bool
  PR_Name :: string
  PR_Sections :: "section_span list"

record function_entry =
  Key :: u32
  TargetSlot :: nat
  Function_Name :: string

text \<open>\<open>TextRegion = None\<close> is \<open>NoRegion\<close>; \<open>PendingFunctions\<close> is the map under construction.\<close>

record program_image =
  Regions :: "program_region list"
  Functions :: "function_entry list"
  PendingFunctions :: "(u32 \<times> function_entry) list"
  TextRegion :: "nat option"
  TextOffset :: nat
  TextSize :: nat
  TextVirtualSize :: nat
  TextAddress :: u64
  TheVersion :: version
  EntrySlot :: nat

definition empty_image :: program_image where
  "empty_image = \<lparr>Regions = [], Functions = [], PendingFunctions = [], TextRegion = None,
     TextOffset = 0, TextSize = 0, TextVirtualSize = 0, TextAddress = 0,
     TheVersion = Reserved, EntrySlot = 0\<rparr>"

datatype image_error =
  TextRangeOverflows | RuntimeRegionEmpty | RuntimeRegionOverflows | RuntimeRegionsOverlap
| SectionSpanOutside | SectionSpansOverlap | ExecutableDisagrees | MultipleTextSections
| TextAbsent | FunctionTargetOutside | FunctionKeyCollides | FunctionKeyReserved | FunctionKeyIsSyscall
| SyntheticTextEmpty | SyntheticTextOverflows | SyntheticRodataOverflows
| SyntheticOverlap | SyntheticEntryOutside | SyntheticFunctionOutside
| RelativeCallOutside | CallOpcodeAbsent

section \<open>Queries\<close>

definition checkedAdd :: "u64 \<Rightarrow> u64 \<Rightarrow> u64 option" where
  "checkedAdd lhs rhs = (if rhs > - 1 - lhs then None else Some (lhs + rhs))"

definition region_contains :: "program_region \<Rightarrow> u64 \<Rightarrow> nat \<Rightarrow> bool" where
  "region_contains R Start n =
     (if Start < PR_Address R then False
      else let off = unat (Start - PR_Address R) in
        off \<le> length (PR_Bytes R) \<and> n \<le> length (PR_Bytes R) - off)"

definition image_text :: "program_image \<Rightarrow> u8 list" where
  "image_text P =
     (case TextRegion P of None \<Rightarrow> []
      | Some r \<Rightarrow>
         (if r \<ge> length (Regions P) \<or> TextOffset P > length (PR_Bytes (Regions P ! r)) \<or>
             TextSize P > length (PR_Bytes (Regions P ! r)) - TextOffset P
          then [] else byte_slice (TextOffset P) (TextSize P) (PR_Bytes (Regions P ! r))))"

definition findRegion :: "program_image \<Rightarrow> u64 \<Rightarrow> nat \<Rightarrow> bool \<Rightarrow> program_region option" where
  "findRegion P Address n DataAccess =
     List.find (\<lambda>R. (\<not> DataAccess \<or> PR_DataVisible R) \<and> region_contains R Address n) (Regions P)"

definition image_slice :: "program_image \<Rightarrow> u64 \<Rightarrow> nat \<Rightarrow> bool \<Rightarrow> u8 list option" where
  "image_slice P Address n DataAccess =
     (case findRegion P Address n DataAccess of None \<Rightarrow> None
      | Some R \<Rightarrow> Some (byte_slice (unat (Address - PR_Address R)) n (PR_Bytes R)))"

text \<open>\<open>std::lower_bound\<close> on the sorted registry: the first entry whose key is not below.\<close>

definition findFunction :: "program_image \<Rightarrow> u32 \<Rightarrow> function_entry option" where
  "findFunction P k =
     (case dropWhile (\<lambda>e. Key e < k) (Functions P) of
        [] \<Rightarrow> None
      | e # _ \<Rightarrow> if Key e = k then Some e else None)"

section \<open>The function registry\<close>

text \<open>
  The map under construction is a \<open>DenseMap\<close>, a container of LLVM that keeps some key values for
  its own marks; \<open>KeyReserved\<close> says which.  Looking one of them up breaks the container's contract, and
  its check that they are not used is the error \<open>FunctionKeyReserved\<close>; what a build without that
  check does there is undefined, and nothing is said of it.
\<close>

definition registerFunction ::
    "(u32 \<Rightarrow> bool) \<Rightarrow> program_image \<Rightarrow> u32 \<Rightarrow> nat \<Rightarrow> string \<Rightarrow> image_error + program_image" where
  "registerFunction KeyReserved P k slot name =
     (if TextVirtualSize P = 0 \<or> slot > (TextVirtualSize P - 1) div kInstructionSize
      then Inl FunctionTargetOutside
      else if KeyReserved k then Inl FunctionKeyReserved
      else case map_of (PendingFunctions P) k of
        Some e \<Rightarrow> if TargetSlot e \<noteq> slot then Inl FunctionKeyCollides else Inr P
      | None \<Rightarrow> Inr (P\<lparr>PendingFunctions :=
          (k, \<lparr>Key = k, TargetSlot = slot, Function_Name = name\<rparr>) # PendingFunctions P\<rparr>))"

text \<open>\<open>std::binary_search\<close> on the caller's sorted syscall hashes is membership.\<close>

definition registerLoaderFunction ::
    "(u32 \<Rightarrow> bool) \<Rightarrow> program_image \<Rightarrow> u32 \<Rightarrow> nat \<Rightarrow> string \<Rightarrow> u32 list \<Rightarrow> image_error + program_image" where
  "registerLoaderFunction KeyReserved P k slot name RegisteredSyscalls =
     (if k \<in> set RegisteredSyscalls then Inl FunctionKeyIsSyscall
      else registerFunction KeyReserved P k slot name)"

text \<open>
  \<open>hashSymbolName\<close>, the MurmurHash3 key of \<open>lib/sbf/runtime/SBFSyscalls.cpp\<close>, and
  \<open>legacyFunctionKey\<close> of \<open>lib/sbf/image/SBFRelocations.cpp\<close>.
\<close>

definition murmur_rotateLeft :: "u32 \<Rightarrow> nat \<Rightarrow> u32" where
  "murmur_rotateLeft v n = push_bit n v OR drop_bit (32 - n) v"

definition murmur_mix :: "u32 \<Rightarrow> u32" where
  "murmur_mix Block = murmur_rotateLeft (Block * 0xcc9e2d51) 15 * 0x1b873593"

fun murmur_blocks :: "u32 \<Rightarrow> u8 list \<Rightarrow> u32 \<times> u8 list" where
  "murmur_blocks Hash (b0 # b1 # b2 # b3 # rest) =
     murmur_blocks
       (murmur_rotateLeft (Hash XOR murmur_mix (word_of_nat (bytes_le [b0, b1, b2, b3]))) 13
        * 5 + 0xe6546b64) rest"
| "murmur_blocks Hash tail = (Hash, tail)"

definition murmur_fmix :: "u32 \<Rightarrow> u32" where
  "murmur_fmix v =
    (let v = v XOR drop_bit 16 v; v = v * 0x85ebca6b; v = v XOR drop_bit 13 v;
         v = v * 0xc2b2ae35 in v XOR drop_bit 16 v)"

definition murmur_tail :: "u32 \<Rightarrow> u8 list \<Rightarrow> u32" where
  "murmur_tail Hash tail =
     (case tail of
        [b0] \<Rightarrow> Hash XOR murmur_mix (ucast b0)
      | [b0, b1] \<Rightarrow> Hash XOR murmur_mix (push_bit 8 (ucast b1) XOR ucast b0)
      | [b0, b1, b2] \<Rightarrow>
          Hash XOR murmur_mix (push_bit 16 (ucast b2) XOR push_bit 8 (ucast b1) XOR ucast b0)
      | _ \<Rightarrow> Hash)"

definition hashSymbolName :: "u8 list \<Rightarrow> u32" where
  "hashSymbolName Name =
    (let (Hash, tail) = murmur_blocks 0 Name in
     murmur_fmix (murmur_tail Hash tail XOR word_of_nat (length Name)))"

definition legacyFunctionKey :: "nat \<Rightarrow> string \<Rightarrow> u32" where
  "legacyFunctionKey slot name =
     (if name = ''entrypoint'' then hashSymbolName (map of_char name)
      else hashSymbolName (le_bytes 8 slot))"

definition registerEntrypoint ::
    "(u32 \<Rightarrow> bool) \<Rightarrow> program_image \<Rightarrow> u32 list \<Rightarrow> image_error + program_image" where
  "registerEntrypoint KeyReserved P RegisteredSyscalls =
    (let k = legacyFunctionKey (EntrySlot P) ''entrypoint'' in
     registerLoaderFunction KeyReserved
       (P\<lparr>PendingFunctions := filter (\<lambda>e. fst e \<noteq> k) (PendingFunctions P)\<rparr>)
       k (EntrySlot P) ''entrypoint'' RegisteredSyscalls)"

text \<open>
  \<open>relocateLegacyRelativeCalls\<close>: every relative \<open>CALL_IMM\<close> of the text is registered and its
  immediate overwritten by the function key.  The loop runs over the remaining slots.
\<close>

fun relocate_calls ::
    "(u32 \<Rightarrow> bool) \<Rightarrow> u8 \<Rightarrow> nat \<Rightarrow> u32 list \<Rightarrow> nat list \<Rightarrow> u8 list \<Rightarrow> program_image \<Rightarrow>
     image_error + (u8 list \<times> program_image)" where
  "relocate_calls KeyReserved callEncoding InstructionCount RegisteredSyscalls [] text P = Inr (text, P)"
| "relocate_calls KeyReserved callEncoding InstructionCount RegisteredSyscalls (slot # slots) text P =
     (let base = slot * kInstructionSize in
      if text ! (base + kOpcodeOffset) \<noteq> callEncoding
      then relocate_calls KeyReserved callEncoding InstructionCount RegisteredSyscalls slots text P
      else let imm = sint (read32le text (base + kImmediateOffset)) in
        if imm = kLegacyUnresolvedCallImmediate
        then relocate_calls KeyReserved callEncoding InstructionCount RegisteredSyscalls slots text P
        else let Target = int slot + 1 + imm in
          if Target < 0 \<or> Target \<ge> int InstructionCount then Inl RelativeCallOutside
          else let k = legacyFunctionKey (nat Target) [] in
            case registerLoaderFunction KeyReserved P k (nat Target) [] RegisteredSyscalls of
              Inl e \<Rightarrow> Inl e
            | Inr P' \<Rightarrow> relocate_calls KeyReserved callEncoding InstructionCount RegisteredSyscalls slots
                (overwrite (base + kImmediateOffset) (le_bytes 4 (unat k)) text) P')"

definition relocateLegacyRelativeCalls ::
    "(u32 \<Rightarrow> bool) \<Rightarrow> u8 list \<Rightarrow> program_image \<Rightarrow> u32 list \<Rightarrow> image_error + (u8 list \<times> program_image)" where
  "relocateLegacyRelativeCalls KeyReserved text P RegisteredSyscalls =
     (case getOpcodeInfo_by_ID CALL_IMM of
        None \<Rightarrow> Inl CallOpcodeAbsent
      | Some Call \<Rightarrow>
         (let n = length text div kInstructionSize in
          relocate_calls KeyReserved (Encoding Call) n RegisteredSyscalls [0..<n] text P))"

definition finalizeFunctions :: "program_image \<Rightarrow> program_image" where
  "finalizeFunctions P =
     P\<lparr>Functions := sort_key Key (Functions P @ map snd (PendingFunctions P)),
       PendingFunctions := []\<rparr>"

section \<open>Finalisation\<close>

fun finalize_sections ::
    "u64 \<Rightarrow> nat \<Rightarrow> nat \<Rightarrow> program_region \<Rightarrow> nat \<Rightarrow> section_span list \<Rightarrow> program_image \<Rightarrow>
     image_error + program_image" where
  "finalize_sections Address n Index R PreviousEnd [] P = Inr P"
| "finalize_sections Address n Index R PreviousEnd (S # Ss) P =
     (if (\<not> Span_Executable S \<and> Span_Size S = 0) \<or>
         \<not> (Span_Offset S \<le> length (PR_Bytes R) \<and> Span_Size S \<le> length (PR_Bytes R) - Span_Offset S)
      then Inl SectionSpanOutside
      else if Span_Offset S < PreviousEnd \<and> PR_Kind R \<noteq> Kind_LegacyReadOnly
      then Inl SectionSpansOverlap
      else let PreviousEnd = max PreviousEnd (Span_Offset S + Span_Size S) in
        if \<not> Span_Executable S then finalize_sections Address n Index R PreviousEnd Ss P
        else if PR_Address R + word_of_nat (Span_Offset S) \<noteq> Address \<or> Span_Size S \<noteq> n
        then Inl ExecutableDisagrees
        else if TextRegion P \<noteq> None then Inl MultipleTextSections
        else finalize_sections Address n Index R PreviousEnd Ss
          (P\<lparr>TextRegion := Some Index, TextOffset := Span_Offset S, TextSize := Span_Size S,
             TextAddress := Address\<rparr>))"

fun finalize_regions ::
    "u64 \<Rightarrow> nat \<Rightarrow> nat \<Rightarrow> u64 option \<Rightarrow> program_region list \<Rightarrow> program_image \<Rightarrow>
     image_error + program_image" where
  "finalize_regions Address n Index Previous [] P = Inr P"
| "finalize_regions Address n Index Previous (R # Rs) P =
     (if PR_Bytes R = [] \<and> n \<noteq> 0 then Inl RuntimeRegionEmpty
      else case checkedAdd (PR_Address R) (word_of_nat (length (PR_Bytes R))) of
        None \<Rightarrow> Inl RuntimeRegionOverflows
      | Some RegionEnd \<Rightarrow>
         (if (case Previous of None \<Rightarrow> False | Some e \<Rightarrow> PR_Address R < e)
          then Inl RuntimeRegionsOverlap
          else let sections = sort_key Span_Offset (PR_Sections R);
                   R' = R\<lparr>PR_Sections := sections\<rparr>;
                   P' = P\<lparr>Regions := (Regions P)[Index := R']\<rparr> in
            case finalize_sections Address n Index R' 0 sections P' of
              Inl e \<Rightarrow> Inl e
            | Inr P'' \<Rightarrow> finalize_regions Address n (Suc Index) (Some RegionEnd) Rs P''))"

definition finalize_image ::
    "program_image \<Rightarrow> u64 \<Rightarrow> nat \<Rightarrow> image_error + program_image" where
  "finalize_image P Address n =
     (case checkedAdd Address (word_of_nat n) of
        None \<Rightarrow> Inl TextRangeOverflows
      | Some _ \<Rightarrow>
         (let sorted = sort_key PR_Address (Regions P) in
          case finalize_regions Address n 0 None sorted (P\<lparr>Regions := sorted\<rparr>) of
            Inl e \<Rightarrow> Inl e
          | Inr P' \<Rightarrow> if TextRegion P' = None then Inl TextAbsent else Inr P'))"

fun register_all ::
    "(u32 \<Rightarrow> bool) \<Rightarrow> nat \<Rightarrow> function_entry list \<Rightarrow> program_image \<Rightarrow> image_error + program_image" where
  "register_all KeyReserved InstructionCount [] P = Inr P"
| "register_all KeyReserved InstructionCount (F # Fs) P =
     (if TargetSlot F \<ge> InstructionCount then Inl SyntheticFunctionOutside
      else case registerFunction KeyReserved P (Key F) (TargetSlot F) (Function_Name F) of
        Inl e \<Rightarrow> Inl e | Inr P' \<Rightarrow> register_all KeyReserved InstructionCount Fs P')"

definition createProgramImage ::
    "(u32 \<Rightarrow> bool) \<Rightarrow> u8 list \<Rightarrow> u64 \<Rightarrow> u8 list \<Rightarrow> u64 \<Rightarrow> bool \<Rightarrow> version \<Rightarrow> nat \<Rightarrow> function_entry list \<Rightarrow>
     image_error + program_image" where
  "createProgramImage KeyReserved Text TextAddr Rodata RodataAddr LegacyTextIsDataVisible v Entry Funs =
    (if Text = [] then Inl SyntheticTextEmpty
     else case checkedAdd TextAddr (word_of_nat (length Text)) of
       None \<Rightarrow> Inl SyntheticTextOverflows
     | Some TextEnd \<Rightarrow>
      (let P = empty_image\<lparr>TheVersion := v, EntrySlot := Entry, TextVirtualSize := length Text\<rparr>;
           TR = \<lparr>PR_Address = TextAddr, PR_Bytes = Text,
                 PR_Kind = (if LegacyTextIsDataVisible then Kind_LegacyReadOnly else Kind_Bytecode),
                 PR_DataVisible = LegacyTextIsDataVisible, PR_Name = ''SBF_TEXT'',
                 PR_Sections = [\<lparr>Span_Name = ''.text'', Span_Offset = 0,
                                 Span_Size = length Text, Span_Executable = True\<rparr>]\<rparr>;
           withRodata =
             (if Rodata = [] then Inr [TR]
              else case checkedAdd RodataAddr (word_of_nat (length Rodata)) of
                None \<Rightarrow> Inl SyntheticRodataOverflows
              | Some RodataEnd \<Rightarrow>
                 (if RodataAddr < TextEnd \<and> TextAddr < RodataEnd then Inl SyntheticOverlap
                  else Inr [TR, \<lparr>PR_Address = RodataAddr, PR_Bytes = Rodata,
                    PR_Kind = Kind_ReadOnly, PR_DataVisible = True, PR_Name = ''SBF_RODATA'',
                    PR_Sections = [\<lparr>Span_Name = ''.rodata'', Span_Offset = 0,
                      Span_Size = length Rodata, Span_Executable = False\<rparr>]\<rparr>])) in
       case withRodata of Inl e \<Rightarrow> Inl e
       | Inr regions \<Rightarrow>
        (case finalize_image (P\<lparr>Regions := regions\<rparr>) TextAddr (length Text) of
           Inl e \<Rightarrow> Inl e
         | Inr P' \<Rightarrow>
            (let InstructionCount = length Text div kInstructionSize in
             if Entry \<ge> InstructionCount then Inl SyntheticEntryOutside
             else case register_all KeyReserved InstructionCount Funs P' of
               Inl e \<Rightarrow> Inl e | Inr P'' \<Rightarrow> Inr (finalizeFunctions P'')))))"

section \<open>Lemmas\<close>

definition registry_ok :: "(u32 \<times> function_entry) list \<Rightarrow> bool" where
  "registry_ok xs = (distinct (map fst xs) \<and> (\<forall>(k, e) \<in> set xs. Key e = k))"

lemma registerFunction_ok:
  assumes "registerFunction Rv P k slot name = Inr P'" "registry_ok (PendingFunctions P)"
  shows "registry_ok (PendingFunctions P')" "Functions P' = Functions P"
    "\<exists>e. map_of (PendingFunctions P') k = Some e \<and> TargetSlot e = slot"
    "map_of (PendingFunctions P) j = Some e \<Longrightarrow> map_of (PendingFunctions P') j = Some e"
    "map_of (PendingFunctions P') j = Some e \<Longrightarrow>
       map_of (PendingFunctions P) j = Some e \<or> j = k \<and> TargetSlot e = slot"
  using assms
  by (auto simp: registerFunction_def registry_ok_def map_of_eq_None_iff rev_image_eqI
      split: if_splits option.splits dest: map_of_SomeD)

lemma dropWhile_sorted_key:
  assumes "sorted (map Key xs)" "distinct (map Key xs)"
  shows "(case dropWhile (\<lambda>e. Key e < k) xs of [] \<Rightarrow> None | e # _ \<Rightarrow> if Key e = k then Some e else None)
     = List.find (\<lambda>e. Key e = k) xs"
  using assms
proof (induction xs)
  case (Cons x xs)
  have "List.find (\<lambda>e. Key e = k) xs = None" if "k < Key x"
    using Cons.prems that by (auto simp: find_None_iff)
  with Cons show ?case by auto
qed simp

lemma find_unique:
  assumes "distinct (map Key xs)" "e \<in> set xs"
  shows "List.find (\<lambda>x. Key x = Key e) xs = Some e"
  using assms by (induction xs) auto

lemma findFunction_finalize:
  assumes "registry_ok (PendingFunctions P)" "Functions P = []"
  shows "findFunction (finalizeFunctions P) k = map_of (PendingFunctions P) k"
proof -
  let ?xs = "sort_key Key (map snd (PendingFunctions P))"
  have keys: "map Key (map snd (PendingFunctions P)) = map fst (PendingFunctions P)"
    using assms(1) by (auto simp: registry_ok_def)
  then have d: "distinct (map Key (map snd (PendingFunctions P)))"
    using assms(1) by (simp only: registry_ok_def)
  have "distinct (map Key ?xs)" using d unfolding distinct_map by (simp add: distinct_map)
  moreover have "sorted (map Key ?xs)" by simp
  ultimately have f: "findFunction (finalizeFunctions P) k = List.find (\<lambda>e. Key e = k) ?xs"
    using dropWhile_sorted_key [of ?xs k] assms(2)
    by (simp add: findFunction_def finalizeFunctions_def)
  show ?thesis
  proof (cases "map_of (PendingFunctions P) k")
    case None
    then have "\<forall>e \<in> set ?xs. Key e \<noteq> k"
      using assms(1) by (force simp: registry_ok_def map_of_eq_None_iff)
    with None f show ?thesis by (simp add: find_None_iff)
  next
    case (Some e)
    then have "(k, e) \<in> set (PendingFunctions P)" by (rule map_of_SomeD)
    then have "e \<in> set ?xs" "Key e = k" using assms(1) by (force simp: registry_ok_def)+
    with find_unique [of ?xs e] \<open>distinct (map Key ?xs)\<close> f Some show ?thesis by auto
  qed
qed










text \<open>The text view designates bytes of one region at the text address.\<close>

definition text_view :: "u64 \<Rightarrow> nat \<Rightarrow> program_image \<Rightarrow> bool" where
  "text_view A n P =
    (case TextRegion P of None \<Rightarrow> True
     | Some r \<Rightarrow> r < length (Regions P) \<and> TextSize P = n \<and> TextAddress P = A \<and>
         TextOffset P + n \<le> length (PR_Bytes (Regions P ! r)) \<and>
         PR_Address (Regions P ! r) + word_of_nat (TextOffset P) = A)"

lemma finalize_sections_text:
  "finalize_sections A n i R e Ss P = Inr P' \<Longrightarrow> i < length (Regions P) \<Longrightarrow> Regions P ! i = R \<Longrightarrow>
     text_view A n P \<Longrightarrow> text_view A n P' \<and> Regions P' = Regions P"
proof (induction Ss arbitrary: e P)
  case (Cons S Ss)
  show ?case
  proof (cases "Span_Executable S")
    case True
    with Cons.prems have "TextRegion P = None" "Span_Offset S + n \<le> length (PR_Bytes R)"
      "PR_Address R + word_of_nat (Span_Offset S) = A" "Span_Size S = n"
      by (auto simp: Let_def split: if_splits)
    with Cons True show ?thesis
      by (auto simp: Let_def text_view_def split: if_splits)
  next
    case False
    with Cons show ?thesis by (auto simp: Let_def split: if_splits)
  qed
qed simp

lemma text_view_update:
  assumes "text_view A n P" "Regions P ! i = R"
  shows "text_view A n (P\<lparr>Regions := (Regions P)[i := R\<lparr>PR_Sections := ss\<rparr>]\<rparr>)"
proof (cases "TextRegion P")
  case (Some r)
  then show ?thesis using assms by (cases "r = i") (simp_all add: text_view_def nth_list_update)
qed (simp add: text_view_def)

lemma finalize_regions_text:
  "finalize_regions A n i p Rs P = Inr P' \<Longrightarrow> drop i (Regions P) = Rs \<Longrightarrow>
     text_view A n P \<Longrightarrow> text_view A n P'"
proof (induction Rs arbitrary: i p P)
  case (Cons R Rs)
  let ?R = "R\<lparr>PR_Sections := sort_key Span_Offset (PR_Sections R)\<rparr>"
  let ?P = "P\<lparr>Regions := (Regions P)[i := ?R]\<rparr>"
  have i: "i < length (Regions P)" "Regions P ! i = R" "drop (Suc i) (Regions P) = Rs"
    using Cons.prems(2) by (metis drop_all list.distinct(1) not_le)
      (metis Cons.prems(2) nth_via_drop, metis Cons.prems(2) drop_Suc list.sel(3) tl_drop)
  from Cons.prems(1) obtain q e Q where
    Q: "finalize_sections A n i ?R 0 (sort_key Span_Offset (PR_Sections R)) ?P = Inr Q"
      "finalize_regions A n (Suc i) (Some e) Rs Q = Inr P'"
    by (auto simp: Let_def split: if_splits option.splits sum.splits)
  have "text_view A n Q \<and> Regions Q = Regions ?P"
    using finalize_sections_text [OF Q(1)] text_view_update [OF Cons.prems(3) i(2)] i by simp
  with Cons.IH [OF Q(2)] i show ?case by (simp add: drop_update_cancel)
qed simp

lemma finalize_image_text:
  assumes "finalize_image P A n = Inr P'" "TextRegion P = None"
  shows "text_view A n P' \<and> TextRegion P' \<noteq> None"
  using assms finalize_regions_text [of A n 0 None "sort_key PR_Address (Regions P)"
      "P\<lparr>Regions := sort_key PR_Address (Regions P)\<rparr>" P']
  by (auto simp: finalize_image_def Let_def text_view_def split: option.splits sum.splits if_splits)

lemma text_view_image_text:
  assumes "text_view A n P" "TextRegion P \<noteq> None"
  shows "\<exists>R \<in> set (Regions P). \<exists>off. off + n \<le> length (PR_Bytes R) \<and>
    PR_Address R + word_of_nat off = A \<and> image_text P = byte_slice off n (PR_Bytes R)"
  using assms by (auto simp: text_view_def image_text_def intro!: bexI [OF _ nth_mem] exI [of _ "TextOffset P"])

abbreviation region_data :: "program_region \<Rightarrow> u64 \<times> u8 list" where
  "region_data R \<equiv> (PR_Address R, PR_Bytes R)"

lemma finalize_sections_regions:
  "finalize_sections A n i R e Ss P = Inr P' \<Longrightarrow> Regions P' = Regions P"
  by (induction Ss arbitrary: e P) (fastforce simp: Let_def split: if_splits)+

lemma finalize_regions_data:
  "finalize_regions A n i p Rs P = Inr P' \<Longrightarrow> drop i (Regions P) = Rs \<Longrightarrow>
     map region_data (Regions P') = map region_data (Regions P)"
proof (induction Rs arbitrary: i p P)
  case (Cons R Rs)
  let ?R = "R\<lparr>PR_Sections := sort_key Span_Offset (PR_Sections R)\<rparr>"
  have i: "Regions P ! i = R" "drop (Suc i) (Regions P) = Rs"
    using Cons.prems(2) by (metis nth_via_drop, metis drop_Suc list.sel(3) tl_drop)
  from Cons.prems(1) obtain e Q where
    Q: "finalize_sections A n i ?R 0 (sort_key Span_Offset (PR_Sections R))
          (P\<lparr>Regions := (Regions P)[i := ?R]\<rparr>) = Inr Q"
      "finalize_regions A n (Suc i) (Some e) Rs Q = Inr P'"
    by (auto simp: Let_def split: if_splits option.splits sum.splits)
  have r: "Regions Q = (Regions P)[i := ?R]" using finalize_sections_regions [OF Q(1)] by simp
  have "map region_data (Regions P') = map region_data (Regions Q)"
    using Cons.IH [OF Q(2)] i r by (simp add: drop_update_cancel)
  also have "\<dots> = map region_data (Regions P)"
    unfolding r map_update using i(1) by (metis (no_types, lifting) list_update_id map_update
        program_region.select_convs(1,2) program_region.surjective program_region.update_convs(6))
  finally show ?case .
qed simp

lemma finalize_image_data:
  assumes "finalize_image P A n = Inr P'"
  shows "region_data ` set (Regions P') = region_data ` set (Regions P)"
proof -
  let ?s = "sort_key PR_Address (Regions P)"
  from assms have "\<exists>Q. finalize_regions A n 0 None ?s (P\<lparr>Regions := ?s\<rparr>) = Inr P'"
    by (auto simp: finalize_image_def Let_def split: option.splits sum.splits if_splits)
  then have "map region_data (Regions P') = map region_data ?s"
    using finalize_regions_data by fastforce
  then have "set (map region_data (Regions P')) = set (map region_data ?s)" by (rule arg_cong)
  then show ?thesis by simp
qed

lemma checkedAdd_Some:
  "checkedAdd a b = Some c \<longleftrightarrow> c = a + b \<and> unat a + unat b < 2 ^ 64"
proof -
  have "unat (- 1 - a) = 2 ^ 64 - 1 - unat a"
    using unat_sub [of a "- 1"] by (simp add: unsigned_minus_1_eq_mask mask_eq_exp_minus_1)
  then have "\<not> - 1 - a < b \<longleftrightarrow> unat a + unat b < 2 ^ 64"
    using unsigned_less [of a, where 'a = nat] by (simp add: word_less_nat_alt) linarith
  then show ?thesis by (auto simp: checkedAdd_def)
qed

lemma register_all_image:
  "register_all Rv n Fs P = Inr P' \<Longrightarrow> image_text P' = image_text P"
proof (induction Fs arbitrary: P)
  case (Cons F Fs)
  have r: "image_text Q = image_text P" if "registerFunction Rv P k s m = Inr Q" for k s m Q
    using that by (auto simp: registerFunction_def image_text_def split: if_splits option.splits)
  from Cons show ?case by (auto dest: r split: if_splits sum.splits)
qed simp

lemma finalizeFunctions_text: "image_text (finalizeFunctions P) = image_text P"
  by (simp add: finalizeFunctions_def image_text_def split: option.split)

lemma createProgramImage_regions:
  assumes "createProgramImage Rv Text TA Ro RA legacy v Entry Funs = Inr P"
  obtains P' P'' regions where
    "finalize_image (empty_image\<lparr>TheVersion := v, EntrySlot := Entry,
       TextVirtualSize := length Text, Regions := regions\<rparr>) TA (length Text) = Inr P'"
    "register_all Rv (length Text div 8) Funs P' = Inr P''" "P = finalizeFunctions P''"
    "Text \<noteq> []" "checkedAdd TA (word_of_nat (length Text)) \<noteq> None"
    "map region_data regions = [(TA, Text)] \<or>
     map region_data regions = [(TA, Text), (RA, Ro)] \<and>
       checkedAdd RA (word_of_nat (length Ro)) \<noteq> None \<and>
       \<not> (RA < TA + word_of_nat (length Text) \<and> TA < RA + word_of_nat (length Ro))"
  using assms
  by (auto simp: createProgramImage_def Let_def kInstructionSize_def checkedAdd_Some
      split: if_splits option.splits sum.splits)

lemma unat_length: "n < 2 ^ 64 \<Longrightarrow> unat (word_of_nat n :: u64) = n"
  by (simp add: unat_of_nat take_bit_eq_mod)

lemma checkedAdd_length:
  assumes "checkedAdd a (word_of_nat n) \<noteq> None" "n < 2 ^ 64"
  shows "unat a + n < 2 ^ 64" "unat (a + word_of_nat n) = unat a + n"
  using assms unat_length [OF assms(2)] by (auto simp: checkedAdd_Some unat_add_small)

lemma createProgramImage_text:
  assumes c: "createProgramImage Rv Text TA Ro RA legacy v Entry Funs = Inr P"
    and len: "length Text < 2 ^ 64" "length Ro < 2 ^ 64"
  shows "image_text P = Text"
proof -
  from c obtain P' P'' regions where
    fin: "finalize_image (empty_image\<lparr>TheVersion := v, EntrySlot := Entry,
       TextVirtualSize := length Text, Regions := regions\<rparr>) TA (length Text) = Inr P'"
    and reg: "register_all Rv (length Text div 8) Funs P' = Inr P''" and P: "P = finalizeFunctions P''"
    and tx: "Text \<noteq> []" "checkedAdd TA (word_of_nat (length Text)) \<noteq> None"
    and data: "map region_data regions = [(TA, Text)] \<or>
     map region_data regions = [(TA, Text), (RA, Ro)] \<and>
       checkedAdd RA (word_of_nat (length Ro)) \<noteq> None \<and>
       \<not> (RA < TA + word_of_nat (length Text) \<and> TA < RA + word_of_nat (length Ro))"
    by (rule createProgramImage_regions)
  from finalize_image_text [OF fin] have "text_view TA (length Text) P'" "TextRegion P' \<noteq> None"
    by (simp_all add: empty_image_def)
  then obtain R off where R: "R \<in> set (Regions P')" "off + length Text \<le> length (PR_Bytes R)"
    "PR_Address R + word_of_nat off = TA" "image_text P' = byte_slice off (length Text) (PR_Bytes R)"
    using text_view_image_text by blast
  have "region_data R \<in> set (map region_data regions)"
    using R(1) finalize_image_data [OF fin] by auto
  then consider "region_data R = (TA, Text)"
    | "region_data R = (RA, Ro)" "checkedAdd RA (word_of_nat (length Ro)) \<noteq> None"
      "\<not> (RA < TA + word_of_nat (length Text) \<and> TA < RA + word_of_nat (length Ro))"
    using data by auto
  then have "image_text P' = Text"
  proof cases
    case 1
    with R show ?thesis by (simp add: byte_slice_def)
  next
    case 2
    have "off < 2 ^ 64" using R(2) 2(1) len by simp
    then have "unat TA = unat RA + off"
      using R(2,3) 2(1) checkedAdd_length(1) [OF 2(2) len(2)] unat_length [of off]
        unat_add_small [of RA "word_of_nat off"] by auto
    then show ?thesis
      using 2 R(2) tx checkedAdd_length(2) [OF tx(2) len(1)] checkedAdd_length(2) [OF 2(2) len(2)]
      by (cases Text) (auto simp: word_less_nat_alt)
  qed
  then show ?thesis
    using register_all_image [OF reg] by (simp add: P finalizeFunctions_text)
qed

text \<open>
  Relocation of relative calls.  A slot is decoded from its eight bytes, so overwriting the
  immediate of one slot leaves the decoding of every other slot alone.
\<close>

lemma byte_slice_part:
  "i + m \<le> n \<Longrightarrow> byte_slice off n a = byte_slice off n b \<Longrightarrow> byte_slice (off + i) m a = byte_slice (off + i) m b"
proof -
  assume "i + m \<le> n"
  then have "byte_slice (off + i) m x = byte_slice i m (byte_slice off n x)" for x :: "'a list"
    by (simp add: byte_slice_def drop_take min_def add.commute)
  moreover assume "byte_slice off n a = byte_slice off n b"
  ultimately show ?thesis by simp
qed

lemma byte_slice_nth: "off + 1 \<le> length xs \<Longrightarrow> byte_slice off 1 xs = [xs ! off]"
  by (simp add: byte_slice_def take_Suc_conv_app_nth)

lemma decodeRaw_slice:
  assumes "k * 8 + 8 \<le> length a" "length b = length a" "byte_slice (k * 8) 8 a = byte_slice (k * 8) 8 b"
  shows "decodeRaw a v k = decodeRaw b v k"
proof -
  note part = byte_slice_part [OF _ assms(3)]
  have "[a ! (k * 8)] = [b ! (k * 8)]" "[a ! (k * 8 + 1)] = [b ! (k * 8 + 1)]"
    using part [of 0 1] part [of 1 1] assms(1,2) by (simp_all add: byte_slice_nth [simplified])
  moreover have "read16le a (k * 8 + 2) = read16le b (k * 8 + 2)" "read32le a (k * 8 + 4) = read32le b (k * 8 + 4)"
    using part [of 2 2] part [of 4 4] by (simp_all add: read16le_def read32le_def)
  ultimately show ?thesis by (simp add: decodeRaw_def Let_def sbf_constants)
qed

lemma decodeRaw_write_immediate:
  fixes w :: u32
  assumes "k * 8 + 8 \<le> length a"
  defines "b \<equiv> overwrite (k * 8 + 4) (le_bytes 4 (unat w)) a"
  shows "decodeRaw b v k = (decodeRaw a v k)\<lparr>Immediate := sint w\<rparr>" "length b = length a"
    "j \<noteq> k \<Longrightarrow> j * 8 + 8 \<le> length a \<Longrightarrow> byte_slice (j * 8) 8 b = byte_slice (j * 8) 8 a"
proof -
  show len: "length b = length a" using assms(1) by (simp add: b_def)
  have out: "b ! i = a ! i" if "i < k * 8 + 4" for i
    unfolding b_def by (rule nth_overwrite_outside) (use assms(1) that in simp_all)
  have "read16le b (k * 8 + 2) = read16le a (k * 8 + 2)"
    unfolding read16le_def b_def using assms(1) by (subst byte_slice_overwrite_disjoint) simp_all
  moreover have "read32le b (k * 8 + 4) = w"
  proof -
    have "byte_slice (k * 8 + 4) 4 b = le_bytes 4 (unat w)"
      using byte_slice_overwrite_same [of "k * 8 + 4" "le_bytes 4 (unat w)" a] assms(1) by (simp add: b_def)
    moreover have "unat w < 256 ^ 4" using unsigned_less [of w, where ?'a = nat] by simp
    ultimately show ?thesis by (simp add: read32le_def bytes_le_le_bytes)
  qed
  moreover have "b ! (k * 8) = a ! (k * 8)" "b ! (k * 8 + 1) = a ! (k * 8 + 1)" by (simp_all add: out)
  ultimately show "decodeRaw b v k = (decodeRaw a v k)\<lparr>Immediate := sint w\<rparr>"
    by (simp add: decodeRaw_def Let_def sbf_constants)
  assume "j \<noteq> k" "j * 8 + 8 \<le> length a"
  then show "byte_slice (j * 8) 8 b = byte_slice (j * 8) 8 a"
    unfolding b_def using assms(1) by (intro byte_slice_overwrite_disjoint) auto
qed

text \<open>
  What relocation does to a slot: a relative call is given a key under which its target is
  registered, and nothing else of the slot changes.
\<close>

definition slot_relocated ::
    "version \<Rightarrow> u8 \<Rightarrow> nat \<Rightarrow> (u32 \<times> function_entry) list \<Rightarrow> u8 list \<Rightarrow> u8 list \<Rightarrow> nat \<Rightarrow> bool" where
  "slot_relocated v c n registry a b k =
    (let I = decodeRaw a v k; J = decodeRaw b v k in
     if RawOpcode I = c \<and> Immediate I \<noteq> - 1
     then J = I\<lparr>Immediate := Immediate J\<rparr> \<and>
       (\<exists>e. map_of registry (word_of_int (Immediate J)) = Some e \<and> TargetSlot e < n \<and>
          int (TargetSlot e) = int k + 1 + Immediate I)
     else J = I)"

lemma slot_relocated_cong:
  "decodeRaw a v k = decodeRaw a' v k \<Longrightarrow> slot_relocated v c n m a' b k \<Longrightarrow> slot_relocated v c n m a b k"
  by (simp add: slot_relocated_def)

lemma registerLoaderFunction_Inr:
  "registerLoaderFunction Rv P k t nm Sys = Inr P' \<Longrightarrow> registerFunction Rv P k t nm = Inr P'"
  by (simp add: registerLoaderFunction_def split: if_splits)

definition relocates ::
    "version \<Rightarrow> u8 \<Rightarrow> nat \<Rightarrow> nat list \<Rightarrow> u8 list \<Rightarrow> program_image \<Rightarrow> u8 list \<Rightarrow> program_image \<Rightarrow> bool" where
  "relocates v c n ks a P b P' =
    (length b = length a \<and> registry_ok (PendingFunctions P') \<and> Functions P' = Functions P \<and>
     map_of (PendingFunctions P) \<subseteq>\<^sub>m map_of (PendingFunctions P') \<and>
     (\<forall>k. k \<notin> set ks \<longrightarrow> k * 8 + 8 \<le> length a \<longrightarrow> byte_slice (k * 8) 8 b = byte_slice (k * 8) 8 a) \<and>
     (\<forall>k \<in> set ks. slot_relocated v c n (PendingFunctions P') a b k))"

lemma relocates_step:
  fixes a :: "u8 list" and P :: program_image
  assumes k: "k * 8 + 8 \<le> length a" "k \<notin> set ks" "n = length a div 8"
    and ks: "\<forall>j \<in> set ks. j * 8 + 8 \<le> length a"
    and rel: "RawOpcode (decodeRaw a v k) = c" "Immediate (decodeRaw a v k) \<noteq> - 1"
    and target: "int t = int k + 1 + Immediate (decodeRaw a v k)" "t < n"
    and reg: "registerFunction Rv P w t nm = Inr Q" "registry_ok (PendingFunctions P)"
    and rest: "relocates v c n ks (overwrite (k * 8 + 4) (le_bytes 4 (unat w)) a) Q b P'"
  shows "relocates v c n (k # ks) a P b P'"
proof -
  let ?a = "overwrite (k * 8 + 4) (le_bytes 4 (unat w)) a"
  note wr = decodeRaw_write_immediate [OF k(1), where w = w]
  note r = registerFunction_ok [OF reg]
  note R = rest [unfolded relocates_def]
  have len: "length b = length a" using R wr(2) by simp
  have same: "decodeRaw a v j = decodeRaw ?a v j" if "j \<noteq> k" "j * 8 + 8 \<le> length a" for j
    by (rule decodeRaw_slice) (use wr(2,3) that in simp_all)
  have mono: "map_of (PendingFunctions P) \<subseteq>\<^sub>m map_of (PendingFunctions P')"
    using R r(4) by (auto simp: map_le_def dom_def)
  have "decodeRaw b v k = decodeRaw ?a v k"
    by (rule decodeRaw_slice) (use R k wr(2) len in auto)
  then have "decodeRaw b v k = (decodeRaw a v k)\<lparr>Immediate := sint w\<rparr>" using wr(1) by simp
  moreover obtain e where "map_of (PendingFunctions Q) w = Some e" "TargetSlot e = t" using r(3) by blast
  moreover from this R have "map_of (PendingFunctions P') w = Some e" by (auto simp: map_le_def dom_def)
  ultimately have "slot_relocated v c n (PendingFunctions P') a b k"
    using rel target by (simp add: slot_relocated_def Let_def)
  moreover have "slot_relocated v c n (PendingFunctions P') a b j" if "j \<in> set ks" for j
    using slot_relocated_cong [OF same] R ks k(2) that by metis
  ultimately show ?thesis using R len mono wr(3) r(2) by (simp add: relocates_def)
qed


lemma relocate_calls_relocates:
  assumes "relocate_calls Rv c n Sys ks a P = Inr (b, P')" "registry_ok (PendingFunctions P)"
    "distinct ks" "\<forall>k \<in> set ks. k * 8 + 8 \<le> length a" "n = length a div 8"
  shows "relocates v c n ks a P b P'"
  using assms
proof (induction ks arbitrary: a P)
  case Nil
  then show ?case by (simp add: relocates_def)
next
  case (Cons k ks)
  let ?I = "decodeRaw a v k"
  have step: "relocate_calls Rv c n Sys (k # ks) a P =
      (if RawOpcode ?I \<noteq> c \<or> Immediate ?I = - 1 then relocate_calls Rv c n Sys ks a P
       else let t = int k + 1 + Immediate ?I; w = legacyFunctionKey (nat t) [] in
         if t < 0 \<or> t \<ge> int n then Inl RelativeCallOutside
         else case registerLoaderFunction Rv P w (nat t) [] Sys of Inl e \<Rightarrow> Inl e
           | Inr Q \<Rightarrow> relocate_calls Rv c n Sys ks (overwrite (k * 8 + 4) (le_bytes 4 (unat w)) a) Q)"
    by (simp add: decodeRaw_def Let_def sbf_constants split: sum.split)
  show ?case
  proof (cases "RawOpcode ?I = c \<and> Immediate ?I \<noteq> - 1")
    case False
    then have "relocate_calls Rv c n Sys ks a P = Inr (b, P')"
      using Cons.prems(1) unfolding step by (simp split: if_splits)
    then have R: "relocates v c n ks a P b P'" using Cons.IH Cons.prems by simp
    then have "decodeRaw b v k = ?I"
      using Cons.prems(3,4) by (intro decodeRaw_slice) (auto simp: relocates_def)
    with False R show ?thesis by (auto simp: relocates_def slot_relocated_def Let_def)
  next
    case True
    then obtain w Q where t: "0 \<le> int k + 1 + Immediate ?I" "int k + 1 + Immediate ?I < int n"
      and Q: "registerLoaderFunction Rv P w (nat (int k + 1 + Immediate ?I)) [] Sys = Inr Q"
        "relocate_calls Rv c n Sys ks (overwrite (k * 8 + 4) (le_bytes 4 (unat w)) a) Q = Inr (b, P')"
      using Cons.prems(1) unfolding step by (auto simp: Let_def split: if_splits sum.splits)
    note reg = registerLoaderFunction_Inr [OF Q(1)]
    have len: "length (overwrite (k * 8 + 4) (le_bytes 4 (unat w)) a) = length a" using Cons.prems(4) by simp
    have "relocates v c n ks (overwrite (k * 8 + 4) (le_bytes 4 (unat w)) a) Q b P'"
      by (rule Cons.IH [OF Q(2) registerFunction_ok(1) [OF reg Cons.prems(2)]]) (use Cons.prems len in auto)
    with relocates_step [OF _ _ Cons.prems(5) _ _ _ _ _ reg Cons.prems(2) this] True t Cons.prems(3,4)
    show ?thesis by simp
  qed
qed


lemma call_encoding: "\<exists>Call. getOpcodeInfo_by_ID CALL_IMM = Some Call \<and> Encoding Call = 0x85"
  by (simp add: getOpcodeInfo_by_ID_def OpcodeTable_def opcode_row_def)

lemma relocateLegacyRelativeCalls_relocates:
  assumes "relocateLegacyRelativeCalls Rv a P Sys = Inr (b, P')" "registry_ok (PendingFunctions P)"
  shows "relocates v 0x85 (length a div 8) [0..<length a div 8] a P b P'"
proof -
  have "relocate_calls Rv 0x85 (length a div 8) Sys [0..<length a div 8] a P = Inr (b, P')"
    using assms(1) call_encoding by (auto simp: relocateLegacyRelativeCalls_def Let_def sbf_constants)
  then show ?thesis using assms(2) by (rule relocate_calls_relocates) auto
qed

section \<open>Properties\<close>

text \<open>
  The text view of a synthetic image is the text it was built from: whatever read-only data is
  placed beside it, \<open>ProgramImage::text\<close> after \<open>create\<close> returns exactly the given bytes.
\<close>

lemma created_image_text:
  assumes "createProgramImage Rv Text TA Ro RA legacy v Entry Funs = Inr P"
    and "length Text < 2 ^ 64" "length Ro < 2 ^ 64"
  shows "image_text P = Text"
  using assms by (rule createProgramImage_text)



text \<open>
  C33.  Relocated calls reach their targets.  Take a text whose relative calls were relocated and the
  image with its registry finished.  At every slot that held a relative call, the immediate is now a
  key under which the registry finds the slot the call named relative to itself, which is inside
  the text; nothing else of the slot has changed, and every other slot decodes as before.
\<close>

theorem relocated_calls_resolve:
  assumes "relocateLegacyRelativeCalls KeyReserved Text P Syscalls = Inr (Text', P')"
    "PendingFunctions P = []" "Functions P = []" "slot < length Text div 8"
  shows "let I = decodeRaw Text v slot; J = decodeRaw Text' v slot in
    length Text' = length Text \<and>
    (if RawOpcode I = 0x85 \<and> Immediate I \<noteq> - 1
     then J = I\<lparr>Immediate := Immediate J\<rparr> \<and>
       (\<exists>e. findFunction (finalizeFunctions P') (word_of_int (Immediate J)) = Some e \<and>
          TargetSlot e < length Text div 8 \<and> int (TargetSlot e) = int slot + 1 + Immediate I)
     else J = I)"
proof -
  have R: "relocates v 0x85 (length Text div 8) [0..<length Text div 8] Text P Text' P'"
    by (rule relocateLegacyRelativeCalls_relocates [OF assms(1)]) (simp add: assms(2) registry_ok_def)
  then have "slot_relocated v 0x85 (length Text div 8) (PendingFunctions P') Text Text' slot"
    "findFunction (finalizeFunctions P') k = map_of (PendingFunctions P') k" for k
    using assms(3,4) by (simp_all add: relocates_def findFunction_finalize)
  with R show ?thesis by (simp add: relocates_def slot_relocated_def Let_def)
qed

text \<open>A call to the next slot but one.\<close>

definition call_text :: "u8 list" where
  "call_text = [0x85,0,0,0,1,0,0,0,  0x95,0,0,0,0,0,0,0,  0x95,0,0,0,0,0,0,0]"

lemma call_key: "legacyFunctionKey 2 [] \<notin> {- 1, - 2}"
  by code_simp

lemma call_relocated:
  "\<exists>b P'. relocateLegacyRelativeCalls (\<lambda>k. k \<in> {- 1, - 2}) call_text (empty_image\<lparr>TextVirtualSize := 24\<rparr>) [] = Inr (b, P')"
proof -
  let ?a = "overwrite 4 (le_bytes 4 (unat (legacyFunctionKey 2 []))) call_text"
  have "sint (read32le call_text 4) = 1" by (simp add: read32le_def byte_slice_def call_text_def)
  moreover have "?a ! 8 = 0x95" "?a ! 16 = 0x95" by (simp_all add: overwrite_def call_text_def nth_append)
  moreover have "call_text ! 0 = 0x85" "length call_text = 24" by (simp_all add: call_text_def)
  moreover have "[0..<24 div 8] = [0, 1, 2::nat]" by (simp add: upt_rec)
  ultimately show ?thesis
    using call_encoding call_key
    by (auto simp: relocateLegacyRelativeCalls_def Let_def sbf_constants registerLoaderFunction_def registerFunction_def
        empty_image_def)
qed

theorem relocated_calls_resolve_witness:
  "\<exists>Text' P' e. relocateLegacyRelativeCalls (\<lambda>k. k \<in> {- 1, - 2}) call_text (empty_image\<lparr>TextVirtualSize := 24\<rparr>) [] = Inr (Text', P') \<and>
     findFunction (finalizeFunctions P') (word_of_int (Immediate (decodeRaw Text' V0 0))) = Some e \<and> TargetSlot e = 2"
proof -
  obtain b P' where r: "relocateLegacyRelativeCalls (\<lambda>k. k \<in> {- 1, - 2}) call_text (empty_image\<lparr>TextVirtualSize := 24\<rparr>) [] = Inr (b, P')"
    using call_relocated by blast
  have "RawOpcode (decodeRaw call_text V0 0) = 0x85" "Immediate (decodeRaw call_text V0 0) = 1" "length call_text = 24"
    by (simp_all add: decodeRaw_def Let_def sbf_constants read32le_def byte_slice_def call_text_def)
  with relocated_calls_resolve [OF r, of 0 V0] r show ?thesis by (auto simp: empty_image_def Let_def)
qed

end
