(* ===== verification/SBF_Memory.thy ===== *)
theory SBF_Memory
  imports SBF_Image
begin

text \<open>
  The VM memory of the raw interpreter: \<open>MemoryRegion\<close> of \<open>SBFInterpreter.h\<close>, the range and
  layout checks of \<open>SBFInterpreterSupport.cpp\<close>, and the \<open>Load\<close>/\<open>Store\<close> closures of
  \<open>SBFInterpreter.cpp\<close>.  Sizes are natural numbers; every place where the source guards against
  \<open>uint64_t\<close> overflow keeps its guard.
\<close>

section \<open>Regions\<close>

record memory_region =
  Address :: u64
  Bytes :: "u8 list"
  Writable :: bool
  Name :: string
  VMGapSize :: nat

definition uint64_max :: nat where "uint64_max = 2 ^ 64 - 1"

definition virtualSpan :: "memory_region \<Rightarrow> nat option" where
  "virtualSpan Region =
    (let BackingSize = length (Bytes Region) in
     if VMGapSize Region = 0 then Some BackingSize
     else if BackingSize mod VMGapSize Region \<noteq> 0 \<or>
             BackingSize > uint64_max div kStackFrameGapMultiplier then None
     else Some (BackingSize * kStackFrameGapMultiplier))"

definition rangesOverlap :: "memory_region \<Rightarrow> memory_region \<Rightarrow> bool" where
  "rangesOverlap L R =
    (if Bytes L = [] \<or> Bytes R = [] then False
     else case (virtualSpan L, virtualSpan R) of
       (Some LeftSize, Some RightSize) \<Rightarrow>
         (if LeftSize > uint64_max - unat (Address L) \<or>
             RightSize > uint64_max - unat (Address R) then True
          else unat (Address L) < unat (Address R) + RightSize \<and>
               unat (Address R) < unat (Address L) + LeftSize)
     | _ \<Rightarrow> True)"

definition rangeContains :: "memory_region \<Rightarrow> u64 \<Rightarrow> nat \<Rightarrow> nat option" where
  "rangeContains Region addr n =
    (if addr < Address Region then None
     else let Delta = unat (addr - Address Region); size = length (Bytes Region) in
       if VMGapSize Region = 0 then
         (if Delta > size \<or> n > size - Delta then None else Some Delta)
       else case virtualSpan Region of
         None \<Rightarrow> None
       | Some Span \<Rightarrow>
          (if Delta \<ge> Span then None
           else let GapSize = VMGapSize Region;
                    Period = GapSize * kStackFrameGapMultiplier;
                    PeriodOffset = Delta mod Period in
             if PeriodOffset \<ge> GapSize \<or> n > GapSize - PeriodOffset then None
             else let Frame = Delta div Period;
                      BackingOffset = Frame * GapSize + PeriodOffset in
               if BackingOffset > size \<or> n > size - BackingOffset then None
               else Some BackingOffset))"

section \<open>Layout validation\<close>

datatype memory_error =
  GapNotPowerOfTwo | InvalidBackingSize | AddressRangeOverflows | CrossesAlignedBoundary
| DuplicateAlignedIndex | RegionsOverlap

fun popcount :: "nat \<Rightarrow> nat" where
  "popcount n = (if n = 0 then 0 else n mod 2 + popcount (n div 2))"

declare popcount.simps [simp del]

definition has_single_bit :: "nat \<Rightarrow> bool" where
  "has_single_bit n = (popcount n = 1)"

text \<open>
  The loop of \<open>validateMemory\<close>; \<open>Indices\<close> is \<open>AlignedRegionIndices\<close>, and the tail of the list is
  the range of the inner loop.
\<close>

fun validateMemory_loop ::
    "bool \<Rightarrow> nat list \<Rightarrow> memory_region list \<Rightarrow> memory_error option" where
  "validateMemory_loop RequiresAligned Indices [] = None"
| "validateMemory_loop RequiresAligned Indices (M # Ms) =
     (if VMGapSize M \<noteq> 0 \<and> \<not> has_single_bit (VMGapSize M) then Some GapNotPowerOfTwo
      else case virtualSpan M of
        None \<Rightarrow> Some InvalidBackingSize
      | Some Span \<Rightarrow>
         (let base = unat (Address M); RegionIndex = base div 2 ^ kVirtualAddressBits;
              LastAddress = (if Span = 0 then base else base + Span - 1) in
          if Span > uint64_max - base then Some AddressRangeOverflows
          else if RequiresAligned \<and> LastAddress div 2 ^ kVirtualAddressBits \<noteq> RegionIndex
          then Some CrossesAlignedBoundary
          else if RequiresAligned \<and> RegionIndex \<in> set Indices then Some DuplicateAlignedIndex
          else if list_ex (rangesOverlap M) Ms then Some RegionsOverlap
          else validateMemory_loop RequiresAligned
                 (if RequiresAligned then RegionIndex # Indices else Indices) Ms))"

definition requiresAlignedMapping :: "version \<Rightarrow> vm_config \<Rightarrow> bool" where
  "requiresAlignedMapping v Config =
     (versionHasFeature v AlignedMemoryMapping_Feature \<or> AlignedMemoryMapping Config)"

definition validateMemory ::
    "memory_region list \<Rightarrow> version \<Rightarrow> vm_config \<Rightarrow> memory_error option" where
  "validateMemory Memory v Config =
     validateMemory_loop (requiresAlignedMapping v Config) [] Memory"

section \<open>Program memory\<close>

fun nat_to_string :: "nat \<Rightarrow> string" where
  "nat_to_string n =
     (if n < 10 then [char_of (48 + n)]
      else nat_to_string (n div 10) @ [char_of (48 + n mod 10)])"

declare nat_to_string.simps [simp del]

definition program_data_regions :: "program_image \<Rightarrow> memory_region list" where
  "program_data_regions P =
     map (\<lambda>R. \<lparr>Address = PR_Address R, Bytes = PR_Bytes R, Writable = False,
               Name = PR_Name R, VMGapSize = 0\<rparr>)
       (filter (\<lambda>R. PR_DataVisible R \<and> PR_Bytes R \<noteq> []) (Regions P))"

definition stack_regions :: "version \<Rightarrow> vm_config \<Rightarrow> memory_region list" where
  "stack_regions v Config =
    (let HasStackFrameGaps = usesStackFrameGaps v Config in
     if HasStackFrameGaps \<and> requiresAlignedMapping v Config then
       [\<lparr>Address = kStackStart, Bytes = replicate (stackSize Config) 0, Writable = True,
         Name = ''stack'', VMGapSize = StackFrameSize Config\<rparr>]
     else if HasStackFrameGaps then
       map (\<lambda>Frame. \<lparr>Address = kStackStart + word_of_nat (Frame * StackFrameSize Config *
                                kStackFrameGapMultiplier),
                    Bytes = replicate (StackFrameSize Config) 0, Writable = True,
                    Name = ''stack.'' @ nat_to_string Frame, VMGapSize = 0\<rparr>)
         [0..<MaxCallDepth Config]
     else
       [\<lparr>Address = kStackStart, Bytes = replicate (stackSize Config) 0, Writable = True,
         Name = ''stack'', VMGapSize = 0\<rparr>])"

definition appendProgramMemory ::
    "program_image \<Rightarrow> vm_config \<Rightarrow> memory_region list \<Rightarrow> memory_region list" where
  "appendProgramMemory P Config Memory =
     Memory @ program_data_regions P @ stack_regions (TheVersion P) Config"

section \<open>Loads and stores\<close>

definition load_value :: "u8 list \<Rightarrow> nat \<Rightarrow> nat \<Rightarrow> u64" where
  "load_value bs off n =
     fold (\<lambda>I v. v OR push_bit (I * kBitsPerByte) (ucast (bs ! (off + I)))) [0..<n] 0"

definition store_value :: "u8 list \<Rightarrow> nat \<Rightarrow> nat \<Rightarrow> u64 \<Rightarrow> u8 list" where
  "store_value bs off n v =
     fold (\<lambda>I bs. bs[off + I := ucast (drop_bit (I * kBitsPerByte) v)]) [0..<n] bs"

text \<open>\<open>Load\<close>: \<open>None\<close> is the memory-access fault.\<close>

fun load_memory :: "memory_region list \<Rightarrow> u64 \<Rightarrow> nat \<Rightarrow> u64 option" where
  "load_memory [] addr w = None"
| "load_memory (M # Ms) addr w =
     (let n = w div kBitsPerByte in
      case rangeContains M addr n of
        None \<Rightarrow> load_memory Ms addr w
      | Some off \<Rightarrow> Some (load_value (Bytes M) off n))"

text \<open>\<open>Store\<close>: \<open>Inl\<close> carries the message of the memory-access fault.\<close>

fun store_memory ::
    "memory_region list \<Rightarrow> u64 \<Rightarrow> nat \<Rightarrow> u64 \<Rightarrow> string + memory_region list" where
  "store_memory [] addr w v = Inl ''memory store is outside mapped VM regions''"
| "store_memory (M # Ms) addr w v =
     (let n = w div kBitsPerByte in
      case rangeContains M addr n of
        None \<Rightarrow> (case store_memory Ms addr w v of Inl e \<Rightarrow> Inl e | Inr Ms' \<Rightarrow> Inr (M # Ms'))
      | Some off \<Rightarrow>
         (if \<not> Writable M then Inl ''memory store targets a read-only VM region''
          else Inr (M\<lparr>Bytes := store_value (Bytes M) off n v\<rparr> # Ms)))"

section \<open>Lemmas\<close>

lemma rangeContains_bounds: "rangeContains M a n = Some off \<Longrightarrow> off + n \<le> length (Bytes M)"
  by (auto simp: rangeContains_def Let_def split: if_splits option.splits)

lemma load_value_bytes:
  "off + n \<le> length bs \<Longrightarrow> load_value bs off n = word_of_nat (bytes_le (byte_slice off n bs))"
proof (induction n)
  case 0
  then show ?case by (simp add: load_value_def byte_slice_def)
next
  case (Suc n)
  let ?v = "word_of_nat (bytes_le (byte_slice off n bs)) :: u64"
  let ?b = "push_bit (n * 8) (ucast (bs ! (off + n)) :: u64)"
  have len: "length (byte_slice off n bs) = n" using Suc.prems by simp
  have low: "bytes_le (byte_slice off n bs) < 2 ^ (n * 8)"
    using bytes_le_bound [of "byte_slice off n bs"] len by (simp add: power_256)
  have "\<not> bit ?v k \<or> \<not> bit ?b k" for k
  proof (cases "k < n * 8")
    case True
    then show ?thesis by (simp add: bit_push_bit_iff)
  next
    case False
    then have "bytes_le (byte_slice off n bs) < 2 ^ k"
      using low by (meson le_less_trans less_le_trans not_less one_le_numeral power_increasing)
    then have "\<not> bit (bytes_le (byte_slice off n bs)) k" by (simp add: bit_iff_odd)
    then show ?thesis by (simp add: bit_of_nat_iff)
  qed
  then have "?v OR ?b = ?v + ?b" by (simp add: disjunctive_add)
  moreover have "?b = word_of_nat (256 ^ n * unat (bs ! (off + n)))"
    by (simp add: push_bit_eq_mult power_256 mult.commute)
  ultimately show ?case using Suc
    by (simp add: load_value_def kBitsPerByte_def byte_slice_Suc bytes_le_append len)
qed

lemma store_value_overwrite:
  "off + n \<le> length bs \<Longrightarrow> store_value bs off n v = overwrite off (le_bytes n (unat v)) bs"
proof (induction n)
  case 0
  then show ?case by (simp add: store_value_def overwrite_def)
next
  case (Suc n)
  have "ucast (drop_bit (n * 8) v) = (word_of_nat (unat v div 256 ^ n mod 256) :: u8)"
  proof (rule iffD2 [OF word_unat_eq_iff])
    have "unat (drop_bit (n * 8) v) = unat v div 2 ^ (n * 8)"
      by (metis unat_drop_bit_eq drop_bit_eq_div)
    then show "unat (ucast (drop_bit (n * 8) v) :: u8) =
        unat (word_of_nat (unat v div 256 ^ n mod 256) :: u8)"
      by (simp add: unat_of_nat power_256 unsigned_ucast_eq take_bit_eq_mod)
  qed
  moreover have "(overwrite off (le_bytes n (unat v)) bs)[off + n := b] =
      overwrite off (le_bytes n (unat v) @ [b]) bs" for b
    using Suc.prems by (simp add: overwrite_def list_update_append min_def Cons_nth_drop_Suc [symmetric]
        flip: Cons_nth_drop_Suc)
  ultimately show ?case using Suc
    by (simp add: store_value_def kBitsPerByte_def le_bytes_Suc_snoc del: le_bytes.simps)
qed

definition region_layout :: "memory_region \<Rightarrow> u64 \<times> nat \<times> bool \<times> string \<times> nat" where
  "region_layout M = (Address M, length (Bytes M), Writable M, Name M, VMGapSize M)"

definition memory_layout :: "memory_region list \<Rightarrow> (u64 \<times> nat \<times> bool \<times> string \<times> nat) list" where
  "memory_layout Ms = map region_layout Ms"

lemma rangeContains_layout:
  "region_layout M = region_layout N \<Longrightarrow> rangeContains M a n = rangeContains N a n"
  by (simp add: region_layout_def rangeContains_def virtualSpan_def Let_def)

lemma rangeContains_Some:
  assumes "rangeContains M a n = Some off"
  obtains "VMGapSize M = 0" "off = unat a - unat (Address M)" "unat (Address M) \<le> unat a"
  | q r where "0 < VMGapSize M" "unat a = unat (Address M) + (q * (2 * VMGapSize M) + r)"
      "r + n \<le> VMGapSize M" "off = q * VMGapSize M + r" "r < VMGapSize M"
proof -
  have le: "Address M \<le> a" using assms by (auto simp: rangeContains_def split: if_splits)
  then have d: "unat (a - Address M) = unat a - unat (Address M)" "unat (Address M) \<le> unat a"
    by (simp_all add: unat_sub word_le_nat_alt)
  show ?thesis
  proof (cases "VMGapSize M = 0")
    case True
    with assms d that(1) show ?thesis by (auto simp: rangeContains_def Let_def split: if_splits)
  next
    case False
    let ?G = "VMGapSize M" and ?D = "unat a - unat (Address M)"
    from False assms d have r: "?D mod (2 * ?G) < ?G" "?D mod (2 * ?G) + n \<le> ?G"
      "off = ?D div (2 * ?G) * ?G + ?D mod (2 * ?G)"
      by (auto simp: rangeContains_def Let_def kStackFrameGapMultiplier_def mult.commute
          split: if_splits option.splits)
    have "unat a = unat (Address M) + (?D div (2 * ?G) * (2 * ?G) + ?D mod (2 * ?G))"
      using d by (simp only: div_mult_mod_eq)
    with r False that(2) show ?thesis by blast
  qed
qed

lemma rangeContains_disjoint:
  assumes a: "rangeContains M a n = Some off" and b: "rangeContains M b m = Some off'"
    and le: "unat a + n \<le> unat b" and n: "0 < n"
  shows "off + n \<le> off'"
  using a
proof (cases rule: rangeContains_Some)
  case 1
  with b le show ?thesis by (cases rule: rangeContains_Some) auto
next
  case (2 q r)
  from b 2(1) show ?thesis
  proof (cases rule: rangeContains_Some)
    case (2 q' r')
    note A = \<open>unat a = _\<close> and B = \<open>unat b = _\<close>
    let ?G = "VMGapSize M"
    from le A B have ord: "q * (2 * ?G) + r + n \<le> q' * (2 * ?G) + r'" by simp
    consider "q = q'" | "Suc q \<le> q'" | "Suc q' \<le> q" by linarith
    then show ?thesis
    proof cases
      case 1
      with ord show ?thesis by (simp add: \<open>off = _\<close> \<open>off' = _\<close>)
    next
      case 2
      then have "Suc q * ?G \<le> q' * ?G" by (rule mult_le_mono1)
      with \<open>r + n \<le> ?G\<close> show ?thesis by (simp add: \<open>off = _\<close> \<open>off' = _\<close>)
    next
      case 3
      then have "Suc q' * (2 * ?G) \<le> q * (2 * ?G)" by (rule mult_le_mono1)
      with ord \<open>r' < ?G\<close> n show ?thesis by simp
    qed
  qed simp
qed

lemma store_value_layout:
  "rangeContains M a n = Some off \<Longrightarrow>
   region_layout (M\<lparr>Bytes := store_value (Bytes M) off n v\<rparr>) = region_layout M"
  using rangeContains_bounds [of M a n off]
  by (simp add: region_layout_def store_value_overwrite)

lemma store_memory_layout:
  "store_memory Ms a w v = Inr Ms' \<Longrightarrow> memory_layout Ms' = memory_layout Ms"
  by (induction Ms arbitrary: Ms')
    (auto simp: memory_layout_def Let_def store_value_layout split: option.splits if_splits sum.splits)

text \<open>A store changes writable regions only.\<close>

lemma store_memory_readonly:
  "store_memory Ms a w v = Inr Ms' \<Longrightarrow> i < length Ms \<Longrightarrow> \<not> Writable (Ms ! i) \<Longrightarrow> Ms' ! i = Ms ! i"
proof (induction Ms arbitrary: Ms' i)
  case (Cons M Ms)
  then show ?case
    by (cases i) (auto simp: Let_def split: option.splits if_splits sum.splits)
qed simp

lemma load_memory_defined_layout:
  "memory_layout Ms = memory_layout Ns \<Longrightarrow> (load_memory Ms a w = None) = (load_memory Ns a w = None)"
proof (induction Ms arbitrary: Ns)
  case (Cons M Ms)
  then obtain N Ns' where "Ns = N # Ns'" "region_layout M = region_layout N"
    "memory_layout Ms = memory_layout Ns'" by (auto simp: memory_layout_def)
  with Cons.IH [of Ns'] show ?case
    by (simp add: Let_def rangeContains_layout [of M N] split: option.split)
qed (simp add: memory_layout_def)

definition access_width :: "nat \<Rightarrow> bool" where
  "access_width w = (w = 8 \<or> w = 16 \<or> w = 32 \<or> w = 64)"

lemma take_bit_word_of_nat_mod:
  assumes "access_width w"
  shows "word_of_nat (unat (v::u64) mod 256 ^ (w div 8)) = take_bit w v"
proof -
  have "(256::nat) ^ (w div 8) = 2 ^ w" using assms by (auto simp: access_width_def)
  then have "unat v mod 256 ^ (w div 8) = unat (take_bit w v)"
    by (metis unsigned_take_bit_eq take_bit_eq_mod)
  then show ?thesis by simp
qed

lemma load_store_value:
  assumes "off + w div 8 \<le> length bs" "access_width w"
  shows "load_value (store_value bs off (w div 8) v) off (w div 8) = take_bit w v"
  using assms byte_slice_overwrite_same [of off "le_bytes (w div 8) (unat v)" bs]
  by (simp add: store_value_overwrite load_value_bytes bytes_le_le_bytes take_bit_word_of_nat_mod)

lemma load_store_same:
  "store_memory Ms a w v = Inr Ms' \<Longrightarrow> access_width w \<Longrightarrow> load_memory Ms' a w = Some (take_bit w v)"
proof (induction Ms arbitrary: Ms')
  case (Cons M Ms)
  show ?case
  proof (cases "rangeContains M a (w div 8)")
    case None
    with Cons show ?thesis by (auto simp: Let_def kBitsPerByte_def split: sum.splits)
  next
    case (Some off)
    let ?M = "M\<lparr>Bytes := store_value (Bytes M) off (w div 8) v\<rparr>"
    from Some Cons.prems(1) have "Ms' = ?M # Ms"
      by (auto simp: Let_def kBitsPerByte_def split: if_splits)
    moreover have "rangeContains ?M a (w div 8) = Some off"
      using rangeContains_layout [OF store_value_layout [OF Some]] Some by simp
    ultimately show ?thesis using rangeContains_bounds [OF Some] Cons.prems(2)
      by (simp add: Let_def kBitsPerByte_def load_store_value)
  qed
qed simp

lemma load_store_disjoint:
  "store_memory Ms a w v = Inr Ms' \<Longrightarrow> access_width w \<Longrightarrow> access_width w' \<Longrightarrow>
   unat a + w div 8 \<le> unat b \<or> unat b + w' div 8 \<le> unat a \<Longrightarrow>
   load_memory Ms' b w' = load_memory Ms b w'"
proof (induction Ms arbitrary: Ms')
  case (Cons M Ms)
  let ?n = "w div 8" and ?m = "w' div 8"
  have pos: "0 < ?n" "0 < ?m" using Cons.prems by (auto simp: access_width_def)
  show ?case
  proof (cases "rangeContains M a ?n")
    case None
    with Cons show ?thesis
      by (auto simp: Let_def kBitsPerByte_def split: option.splits sum.splits)
  next
    case (Some off)
    let ?M = "M\<lparr>Bytes := store_value (Bytes M) off ?n v\<rparr>"
    from Some Cons.prems(1) have Ms': "Ms' = ?M # Ms"
      by (auto simp: Let_def kBitsPerByte_def split: if_splits)
    have eq: "rangeContains ?M b ?m = rangeContains M b ?m"
      by (rule rangeContains_layout) (rule store_value_layout [OF Some])
    have "load_value (Bytes ?M) off' ?m = load_value (Bytes M) off' ?m"
      if "rangeContains M b ?m = Some off'" for off'
    proof -
      have "off + ?n \<le> off' \<or> off' + ?m \<le> off"
        using Cons.prems(4) rangeContains_disjoint [OF Some that _ pos(1)]
          rangeContains_disjoint [OF that Some _ pos(2)] by blast
      with rangeContains_bounds [OF Some] rangeContains_bounds [OF that] show ?thesis
        using byte_slice_overwrite_disjoint [of off "le_bytes ?n (unat v)" "Bytes M" off' ?m]
        by (auto simp: store_value_overwrite load_value_bytes)
    qed
    with eq show ?thesis by (simp add: Ms' Let_def kBitsPerByte_def split: option.splits)
  qed
qed simp

lemma rangeContains_span:
  assumes "rangeContains M a n = Some off" "0 < n"
  shows "\<exists>S. virtualSpan M = Some S \<and> unat (Address M) \<le> unat a \<and> unat a < unat (Address M) + S"
proof -
  have le: "Address M \<le> a" using assms by (auto simp: rangeContains_def split: if_splits)
  then have d: "unat (a - Address M) = unat a - unat (Address M)" "unat (Address M) \<le> unat a"
    by (simp_all add: unat_sub word_le_nat_alt)
  with assms show ?thesis
    by (auto simp: rangeContains_def virtualSpan_def Let_def split: if_splits option.splits)
qed

lemma rangesOverlap_common:
  assumes "rangeContains L a n = Some off" "rangeContains R a m = Some off'" "0 < n" "0 < m"
  shows "rangesOverlap L R"
proof -
  have "Bytes L \<noteq> []" "Bytes R \<noteq> []"
    using rangeContains_bounds [OF assms(1)] rangeContains_bounds [OF assms(2)] assms(3,4) by auto
  with rangeContains_span [OF assms(1,3)] rangeContains_span [OF assms(2,4)] show ?thesis
    by (auto simp: rangesOverlap_def)
qed

lemma validateMemory_loop_pairs:
  "validateMemory_loop al idx Ms = None \<Longrightarrow> i < j \<Longrightarrow> j < length Ms \<Longrightarrow>
   \<not> rangesOverlap (Ms ! i) (Ms ! j)"
proof (induction Ms arbitrary: idx i j)
  case (Cons M Ms)
  from Cons.prems(1) have "\<not> list_ex (rangesOverlap M) Ms"
    and rest: "\<exists>idx'. validateMemory_loop al idx' Ms = None"
    by (auto simp: Let_def split: if_splits option.splits)
  then show ?case using Cons.prems(2,3) Cons.IH
    by (cases i; cases j) (auto simp: list_ex_iff)
qed simp

lemma validateMemory_unique:
  assumes "validateMemory Ms v cfg = None" "i < length Ms" "j < length Ms"
    "rangeContains (Ms ! i) a n = Some off" "rangeContains (Ms ! j) a m = Some off'" "0 < n" "0 < m"
  shows "i = j"
proof (rule ccontr)
  assume "i \<noteq> j"
  then have "\<not> rangesOverlap (Ms ! min i j) (Ms ! max i j)"
    using assms(1-3) validateMemory_loop_pairs [of _ "[]" Ms "min i j" "max i j"]
    unfolding validateMemory_def by (auto simp: min_def max_def)
  moreover have "rangesOverlap (Ms ! min i j) (Ms ! max i j)"
    using rangesOverlap_common [OF assms(4,5,6,7)] rangesOverlap_common [OF assms(5,4,7,6)]
    by (simp add: min_def max_def)
  ultimately show False by blast
qed

lemma validateMemory_loop_layout:
  "memory_layout Ms = memory_layout Ns \<Longrightarrow>
     validateMemory_loop al idx Ms = validateMemory_loop al idx Ns"
proof (induction Ms arbitrary: Ns idx)
  case (Cons M Ms)
  then obtain N Ns' where N: "Ns = N # Ns'" "region_layout M = region_layout N"
    "memory_layout Ms = memory_layout Ns'" by (auto simp: memory_layout_def)
  have ov: "rangesOverlap A B = rangesOverlap C D"
    if "region_layout A = region_layout C" "region_layout B = region_layout D" for A B C D
  proof -
    have "Bytes A = [] \<longleftrightarrow> Bytes C = []" "Bytes B = [] \<longleftrightarrow> Bytes D = []"
      "virtualSpan A = virtualSpan C" "virtualSpan B = virtualSpan D"
      "Address A = Address C" "Address B = Address D"
      using that by (simp_all add: region_layout_def virtualSpan_def Let_def flip: length_0_conv)
    then show ?thesis by (simp add: rangesOverlap_def split: option.split)
  qed
  have len: "length Ms = length Ns'"
    using N(3) unfolding memory_layout_def by (rule map_eq_imp_length_eq)
  have "rangesOverlap M (Ms ! i) = rangesOverlap N (Ns' ! i)" if "i < length Ms" for i
    using N(3) len that by (intro ov [OF N(2)]) (metis memory_layout_def nth_map)
  then have "list_ex (rangesOverlap M) Ms = list_ex (rangesOverlap N) Ns'"
    using len by (auto simp: list_ex_length)
  moreover have "VMGapSize M = VMGapSize N" "virtualSpan M = virtualSpan N" "Address M = Address N"
    using N(2) by (simp_all add: region_layout_def virtualSpan_def Let_def)
  ultimately show ?case using Cons.IH [OF N(3)] unfolding N(1)
    by (cases al) (simp_all add: Let_def split: option.split)
qed (simp add: memory_layout_def)

lemma validateMemory_layout:
  "memory_layout Ms = memory_layout Ns \<Longrightarrow> validateMemory Ms v cfg = validateMemory Ns v cfg"
  unfolding validateMemory_def by (rule validateMemory_loop_layout)

lemma store_memory_at:
  "i < length Ms \<Longrightarrow> rangeContains (Ms ! i) a (w div 8) \<noteq> None \<Longrightarrow> Writable (Ms ! i) \<Longrightarrow>
   (\<And>j. j < length Ms \<Longrightarrow> rangeContains (Ms ! j) a (w div 8) \<noteq> None \<Longrightarrow> j = i) \<Longrightarrow>
   \<exists>Ms'. store_memory Ms a w v = Inr Ms'"
proof (induction Ms arbitrary: i)
  case Nil
  from Nil.prems(1) show ?case by simp
next
  case (Cons M Ms)
  show ?case
  proof (cases i)
    case 0
    with Cons.prems(2,3) show ?thesis by (auto simp: Let_def kBitsPerByte_def)
  next
    case (Suc k)
    have none: "rangeContains M a (w div 8) = None" using Cons.prems(4) [of 0] Suc by fastforce
    have u: "j = k" if "j < length Ms" "rangeContains (Ms ! j) a (w div 8) \<noteq> None" for j
      using Cons.prems(4) [of "Suc j"] that Suc by simp
    have k: "k < length Ms" "rangeContains (Ms ! k) a (w div 8) \<noteq> None" "Writable (Ms ! k)"
      using Cons.prems(1-3) Suc by simp_all
    have "\<exists>Ms'. store_memory Ms a w v = Inr Ms'"
      by (rule Cons.IH [OF k u])
    with none show ?thesis by (auto simp: Let_def kBitsPerByte_def)
  qed
qed

lemma store_memory_unique_region:
  assumes "validateMemory Ms vs cfg = None" "M \<in> set Ms" "Writable M"
    "rangeContains M a (w div 8) \<noteq> None" "access_width w"
  shows "\<exists>Ms'. store_memory Ms a w v = Inr Ms'"
proof -
  have pos: "0 < w div 8" using assms(5) by (auto simp: access_width_def)
  from assms(2) obtain i where i: "i < length Ms" "Ms ! i = M" by (auto simp: in_set_conv_nth)
  show ?thesis
  proof (rule store_memory_at [OF i(1)])
    fix j assume "j < length Ms" "rangeContains (Ms ! j) a (w div 8) \<noteq> None"
    with assms(1,4) i pos show "j = i" by (auto intro: validateMemory_unique)
  qed (use assms i in auto)
qed

lemma layout_region:
  assumes "memory_layout Ms = memory_layout Ns" "N \<in> set Ns"
  shows "\<exists>M \<in> set Ms. region_layout M = region_layout N"
proof -
  have "region_layout N \<in> set (map region_layout Ms)"
    using assms unfolding memory_layout_def by simp
  then show ?thesis by (auto simp: image_iff)
qed

section \<open>The memory interface\<close>

text \<open>
  What the interpreter relies on: a store keeps the layout and is read back by a load of the same
  access, loads outside the written range are unaffected, and whether an access is mapped depends
  on the layout only.
\<close>

definition disjoint_access :: "u64 \<Rightarrow> nat \<Rightarrow> u64 \<Rightarrow> nat \<Rightarrow> bool" where
  "disjoint_access a w b w' = (unat a + w div 8 \<le> unat b \<or> unat b + w' div 8 \<le> unat a)"

text \<open>A sequence of stores, stopping at the first fault.\<close>

fun run_stores ::
    "('m \<Rightarrow> u64 \<Rightarrow> nat \<Rightarrow> u64 \<Rightarrow> 'e + 'm) \<Rightarrow> 'm \<Rightarrow> (u64 \<times> nat \<times> u64) list \<Rightarrow> 'e + 'm" where
  "run_stores st m [] = Inr m"
| "run_stores st m ((a, w, v) # xs) =
     (case st m a w v of Inl e \<Rightarrow> Inl e | Inr m' \<Rightarrow> run_stores st m' xs)"

locale vm_memory =
  fixes load :: "'m \<Rightarrow> u64 \<Rightarrow> nat \<Rightarrow> u64 option"
    and store :: "'m \<Rightarrow> u64 \<Rightarrow> nat \<Rightarrow> u64 \<Rightarrow> 'e + 'm"
    and layout :: "'m \<Rightarrow> 'l"
  assumes store_layout: "store m a w v = Inr m' \<Longrightarrow> layout m' = layout m"
    and load_mapped: "layout m = layout m' \<Longrightarrow> (load m a w = None) = (load m' a w = None)"
    and load_store: "store m a w v = Inr m' \<Longrightarrow> access_width w \<Longrightarrow>
      load m' a w = Some (take_bit w v)"
    and load_other: "store m a w v = Inr m' \<Longrightarrow> access_width w \<Longrightarrow> access_width w' \<Longrightarrow>
      disjoint_access a w b w' \<Longrightarrow> load m' b w' = load m b w'"
begin

lemma stores_layout: "run_stores store m xs = Inr m' \<Longrightarrow> layout m' = layout m"
  by (induction xs arbitrary: m) (auto dest: store_layout split: sum.splits)

lemma stores_other:
  "run_stores store m xs = Inr m' \<Longrightarrow> access_width w' \<Longrightarrow>
   (\<forall>(a, w, v) \<in> set xs. access_width w \<and> disjoint_access a w b w') \<Longrightarrow>
   load m' b w' = load m b w'"
  by (induction xs arbitrary: m) (auto simp: load_other split: sum.splits)

text \<open>The last of several stores to an address is the one a load observes.\<close>

lemma stores_last_wins:
  assumes "run_stores store m ((a, w, v) # xs) = Inr m'" "access_width w"
    "\<forall>(b, w', u) \<in> set xs. access_width w' \<and> disjoint_access b w' a w"
  shows "load m' a w = Some (take_bit w v)"
  using assms stores_other [of _ xs m' w a]
  by (auto simp: load_store split: sum.splits)

end

interpretation interp_memory: vm_memory load_memory store_memory memory_layout
  by unfold_locales
    (auto simp: disjoint_access_def store_memory_layout load_store_same load_store_disjoint
      dest: load_memory_defined_layout)

section \<open>Properties\<close>

text \<open>A two-region layout for the concrete instances below.\<close>

definition demo_regions :: "memory_region list" where
  "demo_regions =
    [\<lparr>Address = 0x100, Bytes = replicate 4 0, Writable = True, Name = [], VMGapSize = 0\<rparr>,
     \<lparr>Address = 0x104, Bytes = replicate 4 1, Writable = False, Name = [], VMGapSize = 0\<rparr>]"

text \<open>
  C39.  Every access the range check admits, in a plain or a gapped region, stays inside the backing
  bytes of the region.
\<close>

theorem mapped_access_in_bounds:
  assumes "rangeContains M a n = Some off"
  shows "off + n \<le> length (Bytes M)"
  using assms by (rule rangeContains_bounds)

theorem mapped_access_in_bounds_witness:
  "rangeContains \<lparr>Address = 0x100, Bytes = replicate 8 0, Writable = True, Name = [], VMGapSize = 4\<rparr>
     0x109 2 = Some 5 \<and> 5 + 2 \<le> length (replicate 8 (0::u8))"
proof -
  have c: "rangeContains \<lparr>Address = 0x100, Bytes = replicate 8 0, Writable = True, Name = [], VMGapSize = 4\<rparr>
     0x109 2 = Some 5"
    by (simp add: rangeContains_def virtualSpan_def Let_def uint64_max_def sbf_constants)
  from mapped_access_in_bounds [OF c] c show ?thesis by simp
qed

text \<open>
  C32.  A layout \<open>validateMemory\<close> accepts maps every byte at most once, so the first-match search of
  \<open>Load\<close> and \<open>Store\<close> does not depend on the order of the regions.
\<close>

theorem mapping_unambiguous:
  assumes "validateMemory Ms v cfg = None" "i < length Ms" "j < length Ms"
    "rangeContains (Ms ! i) a n = Some off" "rangeContains (Ms ! j) a m = Some off'" "0 < n" "0 < m"
  shows "i = j"
  using assms by (rule validateMemory_unique)

theorem mapping_unambiguous_witness:
  "validateMemory demo_regions V0 default_vm_config = None \<and>
   rangeContains (demo_regions ! 1) 0x105 1 = Some 1 \<and> (1::nat) = 1"
proof -
  have v: "validateMemory demo_regions V0 default_vm_config = None"
    by (simp add: validateMemory_def demo_regions_def rangesOverlap_def virtualSpan_def Let_def
        uint64_max_def sbf_constants requiresAlignedMapping_def default_vm_config_def)
  have c: "rangeContains (demo_regions ! 1) 0x105 1 = Some 1" by code_simp
  show ?thesis using mapping_unambiguous [OF v _ _ c c] v c by (simp add: demo_regions_def)
qed

text \<open>
  C23.  Loads observe the last store: after a store and any sequence of stores outside its range, a
  load of the same access returns the stored value truncated to its width, and no store changes
  the memory layout.
\<close>

theorem last_store_observed:
  assumes "run_stores store_memory Ms ((a, w, v) # later) = Inr Ms'" "access_width w"
    and "\<forall>(b, w', u) \<in> set later. access_width w' \<and> disjoint_access b w' a w"
  shows "load_memory Ms' a w = Some (take_bit w v) \<and> memory_layout Ms' = memory_layout Ms"
  using interp_memory.stores_last_wins [OF assms] interp_memory.stores_layout [OF assms(1)] by blast

theorem last_store_observed_witness:
  "\<exists>Ms'. run_stores store_memory demo_regions [(0x100, 16, 0xABCD), (0x102, 8, 0xFF)] = Inr Ms' \<and>
     load_memory Ms' 0x100 16 = Some 0xABCD"
proof -
  let ?c = "run_stores store_memory demo_regions [(0x100, 16, 0xABCD), (0x102, 8, 0xFF)]"
  have "\<not> isl ?c" by code_simp
  then obtain Ms' where c: "?c = Inr Ms'" by (cases ?c) auto
  from last_store_observed [OF c] c show ?thesis
    by (simp add: access_width_def disjoint_access_def take_bit_eq_mod)
qed

end
