(* ===== verification/SBF_Interpreter.thy ===== *)
theory SBF_Interpreter
  imports SBF_Memory
begin

text \<open>
  The raw SBF interpreter (\<open>include/neverd/sbf/runtime/SBFInterpreter.h\<close>,
  \<open>lib/sbf/runtime/SBFInterpreter.cpp\<close>, \<open>SBFInterpreterDetail.h\<close>,
  \<open>SBFInterpreterSupport.cpp\<close>): execution state, the closures of \<open>executeRaw\<close>, one
  definition per instruction class, the fetch/meter/validate/execute step and the metered loop.
  A host callback is a function on an abstract host state \<open>'h\<close>; the endianness of the machine
  that runs the interpreter is the parameter \<open>native_little\<close>.
\<close>

section \<open>Host interface\<close>

record syscall_invocation =
  Inv_Hash :: u32
  Inv_Arguments :: "u64 list"
  Inv_RuntimeFeatures :: u64

datatype syscall_outcome =
  Unregistered | Returned_Value u64 | Host_Fault fault_code

text \<open>The fault code a numeric value names (\<open>SBFFaultCodes.def\<close>).\<close>

fun fault_code_value :: "fault_code \<Rightarrow> nat" where
  "fault_code_value Fault_None = 0"
| "fault_code_value Fault_InvalidInstruction = 1"
| "fault_code_value Fault_InvalidRegister = 2"
| "fault_code_value Fault_InvalidBranch = 3"
| "fault_code_value Fault_DivideByZero = 4"
| "fault_code_value Fault_DivideOverflow = 5"
| "fault_code_value Fault_MemoryAccess = 6"
| "fault_code_value Fault_CallDepth = 7"
| "fault_code_value Fault_UnknownSyscall = 8"
| "fault_code_value Fault_UnknownIndirectCall = 9"
| "fault_code_value Fault_ExecutionOverrun = 10"

definition all_fault_codes :: "fault_code list" where
  "all_fault_codes =
     [Fault_None, Fault_InvalidInstruction, Fault_InvalidRegister, Fault_InvalidBranch,
      Fault_DivideByZero, Fault_DivideOverflow, Fault_MemoryAccess, Fault_CallDepth,
      Fault_UnknownSyscall, Fault_UnknownIndirectCall, Fault_ExecutionOverrun]"

definition fault_of_value :: "u32 \<Rightarrow> fault_code option" where
  "fault_of_value n = List.find (\<lambda>c. fault_code_value c = unat n) all_fault_codes"

definition isKnownFaultCodeValue :: "u32 \<Rightarrow> bool" where
  "isKnownFaultCodeValue n = (fault_of_value n \<noteq> None)"

text \<open>
  \<open>SyscallOutcome::fault\<close>: success and unknown numeric values become \<open>InvalidInstruction\<close>.
\<close>

definition outcome_fault :: "u32 \<Rightarrow> syscall_outcome" where
  "outcome_fault Code =
     (case fault_of_value Code of
        None \<Rightarrow> Host_Fault Fault_InvalidInstruction
      | Some c \<Rightarrow> if c = Fault_None then Host_Fault Fault_InvalidInstruction else Host_Fault c)"

fun representsUnregisteredSyscall :: "syscall_outcome \<Rightarrow> bool" where
  "representsUnregisteredSyscall Unregistered = True"
| "representsUnregisteredSyscall (Host_Fault c) = (c = Fault_UnknownSyscall)"
| "representsUnregisteredSyscall (Returned_Value v) = False"

fun abiStatus :: "syscall_outcome \<Rightarrow> fault_code" where
  "abiStatus (Returned_Value v) = Fault_None"
| "abiStatus Unregistered = Fault_UnknownSyscall"
| "abiStatus (Host_Fault c) = c"

text \<open>
  \<open>SyscallOutcome\<close> has a private constructor, so a callback builds its result with one of three
  factories; \<open>host_reply\<close> says which one it calls and \<open>makeOutcome\<close> calls it.
\<close>

datatype host_reply = Reply_Unregistered | Reply_Returned u64 | Reply_Fault u32

fun makeOutcome :: "host_reply \<Rightarrow> syscall_outcome" where
  "makeOutcome Reply_Unregistered = Unregistered"
| "makeOutcome (Reply_Returned v) = Returned_Value v"
| "makeOutcome (Reply_Fault c) = outcome_fault c"

record 'h environment =
  Input :: u64
  InstructionData :: u64
  Env_Memory :: "memory_region list"
  Syscall :: "('h \<Rightarrow> u32 \<Rightarrow> u64 list \<Rightarrow> u64 option \<times> 'h) option"
  HostSyscall :: "('h \<Rightarrow> u32 \<Rightarrow> u64 list \<Rightarrow> host_reply \<times> 'h) option"
  RuntimeFeatures :: "u64 option"
  FeatureAwareSyscall :: "('h \<Rightarrow> syscall_invocation \<Rightarrow> host_reply \<times> 'h) option"

record interpreter_options =
  MaxSteps :: nat
  Opt_MaxCallDepth :: "nat option"
  RecordTrace :: bool

text \<open>The fields of \<open>SBFProgram\<close> that raw execution and the local verifier read.\<close>

record sbf_program =
  Config :: vm_config
  ActiveRuntimeFeatures :: u64
  RegisteredSyscallHashes :: "u32 list"
  ExecutableImage :: program_image

definition program_text :: "sbf_program \<Rightarrow> u8 list" where
  "program_text Program = image_text (ExecutableImage Program)"

definition program_version :: "sbf_program \<Rightarrow> version" where
  "program_version Program = TheVersion (ExecutableImage Program)"

section \<open>Execution state\<close>

datatype execution_status = Running | Returned | Faulted | StepLimit

record call_frame =
  SavedRegisters :: "u64 list"
  FramePointer :: u64
  ReturnSlot :: nat

record trace_entry =
  Trace_Slot :: nat
  Trace_Address :: u64
  Trace_RawOpcode :: u8
  Trace_Op :: opcode
  Trace_CallDepth :: nat

record syscall_entry =
  Sys_Slot :: nat
  Sys_Hash :: u32
  Sys_Arguments :: "u64 list"
  Sys_Result :: u64

text \<open>
  The locals of \<open>executeRaw\<close> and the fields of its \<open>Result\<close>.  \<open>Frames\<close> is a stack with the
  innermost frame first; \<open>Depth\<close> is \<open>Result.MaxCallDepth\<close>, and \<open>Host\<close> the state of the
  callbacks.
\<close>

record 'h exec_state =
  Registers :: "u64 list"
  Frames :: "call_frame list"
  PC :: nat
  Memory :: "memory_region list"
  Status :: execution_status
  Fault :: fault_code
  Error :: string
  FinalSlot :: nat
  Steps :: nat
  Depth :: nat
  Trace :: "trace_entry list"
  Syscalls :: "syscall_entry list"
  Host :: 'h

record 'h execution_result =
  Res_Status :: execution_status
  Res_Fault :: fault_code
  Res_Error :: string
  Res_FinalSlot :: nat
  Res_Steps :: nat
  Res_MaxCallDepth :: nat
  Res_ReturnValue :: u64
  Res_Registers :: "u64 list"
  Res_Memory :: "memory_region list"
  Res_Trace :: "trace_entry list"
  Res_Syscalls :: "syscall_entry list"
  Res_Host :: 'h

section \<open>Admission\<close>

datatype program_error =
  BadConfig vm_config_error | NotConcreteVersion | TextNotAligned | TooManyInstructions
| EntryOutsideText | ZeroDepthLimit | DepthLimitExceedsConfig | BadMemory memory_error

definition validateProgram ::
    "sbf_program \<Rightarrow> interpreter_options \<Rightarrow> program_error option" where
  "validateProgram Program Options =
    (case validateVMConfig (Config Program) of
       Some e \<Rightarrow> Some (BadConfig e)
     | None \<Rightarrow>
        (let n = length (program_text Program) in
         if \<not> isConcreteVersion (program_version Program) then Some NotConcreteVersion
         else if n = 0 \<or> n mod kInstructionSize \<noteq> 0 then Some TextNotAligned
         else if n div kInstructionSize > kMaxInstructions then Some TooManyInstructions
         else if EntrySlot (ExecutableImage Program) \<ge> n div kInstructionSize
           then Some EntryOutsideText
         else case Opt_MaxCallDepth Options of
           None \<Rightarrow> None
         | Some d \<Rightarrow> if d = 0 then Some ZeroDepthLimit
                    else if d > MaxCallDepth (Config Program) then Some DepthLimitExceedsConfig
                    else None))"

section \<open>The closures of executeRaw\<close>

definition fail :: "fault_code \<Rightarrow> string \<Rightarrow> 'h exec_state \<Rightarrow> 'h exec_state" where
  "fail Code Message s =
     (if Status s = Running
      then s\<lparr>Status := Faulted, Fault := Code, Error := Message, FinalSlot := PC s\<rparr> else s)"

definition setReg :: "nat \<Rightarrow> u64 \<Rightarrow> 'h exec_state \<Rightarrow> 'h exec_state" where
  "setReg r v s = s\<lparr>Registers := (Registers s)[r := v]\<rparr>"

definition callDepthLimit :: "sbf_program \<Rightarrow> interpreter_options \<Rightarrow> nat" where
  "callDepthLimit Program Options =
     (case Opt_MaxCallDepth Options of Some d \<Rightarrow> d | None \<Rightarrow> MaxCallDepth (Config Program))"

definition makeFrame :: "nat \<Rightarrow> 'h exec_state \<Rightarrow> call_frame" where
  "makeFrame slot s =
     \<lparr>SavedRegisters = map (\<lambda>I. Registers s ! (kFirstCalleeSavedRegister + I))
                          [0..<kCalleeSavedRegisterCount],
      FramePointer = Registers s ! kFramePointerRegister,
      ReturnSlot = slot\<rparr>"

text \<open>\<open>PushFrame\<close>; the Boolean is its return value.\<close>

definition pushFrame ::
    "sbf_program \<Rightarrow> interpreter_options \<Rightarrow> nat \<Rightarrow> 'h exec_state \<Rightarrow> bool \<times> 'h exec_state" where
  "pushFrame Program Options slot s =
    (if length (Frames s) + 1 \<ge> callDepthLimit Program Options
     then (False, fail Fault_CallDepth ''maximum SBF call depth exceeded'' s)
     else let s1 = s\<lparr>Frames := makeFrame slot s # Frames s\<rparr>;
              s2 = s1\<lparr>Depth := max (Depth s1) (length (Frames s1))\<rparr> in
       (True,
        if \<not> versionHasFeature (program_version Program) ManualStackFrames
        then setReg kFramePointerRegister
               (Registers s2 ! kFramePointerRegister +
                automaticFrameStride (program_version Program) (Config Program)) s2
        else s2))"

definition syscallArguments :: "'h exec_state \<Rightarrow> u64 list" where
  "syscallArguments s =
     map (\<lambda>I. Registers s ! (kFirstArgumentRegister + I)) [0..<kArgumentRegisterCount]"

text \<open>The callback precedence of \<open>DispatchSyscall\<close>.\<close>

definition invokeHost ::
    "'h environment \<Rightarrow> u64 \<Rightarrow> u32 \<Rightarrow> u64 list \<Rightarrow> 'h \<Rightarrow> syscall_outcome \<times> 'h" where
  "invokeHost E features Hash Arguments h =
    (case FeatureAwareSyscall E of
       Some f \<Rightarrow>
         (let (r, h') = f h \<lparr>Inv_Hash = Hash, Inv_Arguments = Arguments,
                             Inv_RuntimeFeatures = features\<rparr> in (makeOutcome r, h'))
     | None \<Rightarrow>
        (case HostSyscall E of
           Some f \<Rightarrow> (let (r, h') = f h Hash Arguments in (makeOutcome r, h'))
         | None \<Rightarrow>
            (case Syscall E of
               Some f \<Rightarrow>
                 (let (r, h') = f h Hash Arguments in
                  (case r of Some v \<Rightarrow> Returned_Value v | None \<Rightarrow> Unregistered, h'))
             | None \<Rightarrow> (Unregistered, h))))"

definition dispatchSyscall ::
    "'h environment \<Rightarrow> u64 \<Rightarrow> u32 \<Rightarrow> 'h exec_state \<Rightarrow> syscall_outcome \<times> 'h exec_state" where
  "dispatchSyscall E features Hash s =
    (let Arguments = syscallArguments s;
         (Outcome, h) = invokeHost E features Hash Arguments (Host s);
         s1 = s\<lparr>Host := h\<rparr> in
     case Outcome of
       Returned_Value v \<Rightarrow>
         (Outcome, (setReg kReturnRegister v s1)\<lparr>Syscalls := Syscalls s1 @
            [\<lparr>Sys_Slot = PC s1, Sys_Hash = Hash, Sys_Arguments = Arguments, Sys_Result = v\<rparr>]\<rparr>)
     | _ \<Rightarrow> (Outcome, s1))"

section \<open>Instruction classes\<close>

text \<open>
  One definition per branch of the dispatch of \<open>executeRaw\<close>.  \<open>I\<close> is the decoded instruction,
  \<open>src\<close> the normalised source operand; a branch that transfers control returns the next slot
  together with the state.
\<close>

definition execute_LDDW :: "u8 list \<Rightarrow> raw_instruction \<Rightarrow> 'h exec_state \<Rightarrow> 'h exec_state" where
  "execute_LDDW text I s =
    (let High = ucast (read32le text ((PC s + 1) * kInstructionSize + kImmediateOffset)) :: u64 in
     setReg (Dst I)
       (ucast (word_of_int (Immediate I) :: u32) OR push_bit kWordBitWidth High) s)"

definition effectiveAddress :: "u64 \<Rightarrow> raw_instruction \<Rightarrow> u64" where
  "effectiveAddress base I = base + word_of_int (Offset I)"

definition execute_Load ::
    "opcode_info \<Rightarrow> raw_instruction \<Rightarrow> 'h exec_state \<Rightarrow> 'h exec_state" where
  "execute_Load info I s =
    (case load_memory (Memory s) (effectiveAddress (Registers s ! Src I) I) (Width info) of
       None \<Rightarrow> fail Fault_MemoryAccess ''memory load is outside mapped VM regions'' s
     | Some v \<Rightarrow> setReg (Dst I) v s)"

definition execute_Store ::
    "opcode_info \<Rightarrow> raw_instruction \<Rightarrow> u64 \<Rightarrow> 'h exec_state \<Rightarrow> 'h exec_state" where
  "execute_Store info I src s =
    (case store_memory (Memory s) (effectiveAddress (Registers s ! Dst I) I) (Width info) src of
       Inl Message \<Rightarrow> fail Fault_MemoryAccess Message s
     | Inr Memory' \<Rightarrow> s\<lparr>Memory := Memory'\<rparr>)"

definition execute_Mov ::
    "opcode_info \<Rightarrow> semantic_traits \<Rightarrow> raw_instruction \<Rightarrow> u64 \<Rightarrow> 'h exec_state \<Rightarrow> 'h exec_state" where
  "execute_Mov info Traits I src s =
     setReg (Dst I)
       (if Width info = kWordBitWidth
        then extendALU32Result (ucast src) (Trait_Result Traits) else src) s"

definition execute_ALU ::
    "opcode_info \<Rightarrow> semantic_traits \<Rightarrow> raw_instruction \<Rightarrow> u64 \<Rightarrow> 'h exec_state \<Rightarrow> 'h exec_state" where
  "execute_ALU info Traits I v s =
     setReg (Dst I)
       (if Width info = kWordBitWidth
        then extendALU32Result (ucast v) (Trait_Result Traits) else v) s"

definition execute_Division ::
    "opcode_info \<Rightarrow> raw_instruction \<Rightarrow> u64 \<Rightarrow> 'h exec_state \<Rightarrow> 'h exec_state" where
  "execute_Division info I src s =
    (case divide (Op info) (Width info) (Registers s ! Dst I) src of
       Inl f \<Rightarrow> fail f (if f = Fault_DivideByZero then ''SBF division by zero''
                       else ''SBF signed division overflow'') s
     | Inr q \<Rightarrow> setReg (Dst I) q s)"

definition execute_Endian ::
    "bool \<Rightarrow> opcode_info \<Rightarrow> raw_instruction \<Rightarrow> 'h exec_state \<Rightarrow> 'h exec_state" where
  "execute_Endian native_little info I s =
    (case convertEndian native_little (Op info) (Immediate I) (Registers s ! Dst I) of
       None \<Rightarrow> fail Fault_InvalidInstruction ''invalid SBF endian-conversion width'' s
     | Some v \<Rightarrow> setReg (Dst I) v s)"

definition execute_HighOr :: "raw_instruction \<Rightarrow> 'h exec_state \<Rightarrow> 'h exec_state" where
  "execute_HighOr I s =
     setReg (Dst I)
       (Registers s ! Dst I OR
        push_bit kWordBitWidth (ucast (word_of_int (Immediate I) :: u32))) s"

definition host_fault_message :: string where
  "host_fault_message = ''SBF host syscall callback reported an execution fault''"

definition execute_static_syscall ::
    "'h environment \<Rightarrow> u64 \<Rightarrow> u32 \<Rightarrow> 'h exec_state \<Rightarrow> 'h exec_state" where
  "execute_static_syscall E features Hash s =
    (let (Outcome, s1) = dispatchSyscall E features Hash s in
     case Outcome of
       Unregistered \<Rightarrow>
         fail Fault_UnknownSyscall ''SBF syscall is not registered in the test environment'' s1
     | Host_Fault c \<Rightarrow> fail c host_fault_message s1
     | Returned_Value v \<Rightarrow> s1)"

definition execute_static_call ::
    "sbf_program \<Rightarrow> interpreter_options \<Rightarrow> raw_instruction \<Rightarrow> nat \<Rightarrow> 'h exec_state \<Rightarrow>
     nat \<times> 'h exec_state" where
  "execute_static_call Program Options I NextPC s =
    (let Target = int (PC s) + 1 + Immediate I in
     if Target < 0 \<or> Target \<ge> int (length (program_text Program) div kInstructionSize)
     then (NextPC, fail Fault_InvalidInstruction ''unsupported static SBF immediate call'' s)
     else let (pushed, s1) = pushFrame Program Options NextPC s in
       (if pushed then nat Target else NextPC, s1))"

definition execute_legacy_call ::
    "'h environment \<Rightarrow> sbf_program \<Rightarrow> interpreter_options \<Rightarrow> u64 \<Rightarrow> u32 \<Rightarrow> nat \<Rightarrow>
     'h exec_state \<Rightarrow> nat \<times> 'h exec_state" where
  "execute_legacy_call E Program Options features Hash NextPC s =
    (let (Outcome, s1) = dispatchSyscall E features Hash s;
         lookup =
           (case findFunction (ExecutableImage Program) Hash of
              Some Function \<Rightarrow>
                (let (pushed, s2) = pushFrame Program Options NextPC s1 in
                 (if pushed then TargetSlot Function else NextPC, s2))
            | None \<Rightarrow>
                (NextPC,
                 case Outcome of Returned_Value v \<Rightarrow> s1
                 | _ \<Rightarrow> fail Fault_UnknownSyscall
                         ''SBF immediate call target cannot be resolved'' s1)) in
     case Outcome of
       Host_Fault c \<Rightarrow>
         if \<not> representsUnregisteredSyscall Outcome
         then (NextPC, fail c host_fault_message s1) else lookup
     | _ \<Rightarrow> lookup)"

definition execute_Call ::
    "'h environment \<Rightarrow> sbf_program \<Rightarrow> interpreter_options \<Rightarrow> u64 \<Rightarrow> raw_instruction \<Rightarrow> nat \<Rightarrow>
     'h exec_state \<Rightarrow> nat \<times> 'h exec_state" where
  "execute_Call E Program Options features I NextPC s =
    (let Hash = word_of_int (Immediate I) :: u32;
         StaticCalls = versionHasFeature (program_version Program) StaticSyscalls in
     if StaticCalls \<and> Src I = 0 then (NextPC, execute_static_syscall E features Hash s)
     else if StaticCalls \<and> Src I = 1 then execute_static_call Program Options I NextPC s
     else if StaticCalls then
       (NextPC, fail Fault_InvalidInstruction ''unsupported static SBF immediate call'' s)
     else execute_legacy_call E Program Options features Hash NextPC s)"

definition execute_CallX ::
    "sbf_program \<Rightarrow> interpreter_options \<Rightarrow> nat \<Rightarrow> nat \<Rightarrow> 'h exec_state \<Rightarrow>
     nat \<times> 'h exec_state" where
  "execute_CallX Program Options Register NextPC s =
    (let TargetAddress = Registers s ! Register;
         TargetSlot =
           unat (TargetAddress - TextAddress (ExecutableImage Program)) div kInstructionSize;
         (pushed, s1) = pushFrame Program Options NextPC s in
     if pushed then
       (if TargetSlot \<ge> length (program_text Program) div kInstructionSize
        then (NextPC, fail Fault_UnknownIndirectCall
                        ''SBF indirect call target is outside program text'' s1)
        else (TargetSlot, s1))
     else (NextPC, s1))"

definition restoreFrame :: "call_frame \<Rightarrow> u64 list \<Rightarrow> u64 list" where
  "restoreFrame Frame regs =
     fold (\<lambda>I rs. rs[kFirstCalleeSavedRegister + I := SavedRegisters Frame ! I])
       [0..<kCalleeSavedRegisterCount]
       (regs[kFramePointerRegister := FramePointer Frame])"

definition execute_Exit :: "nat \<Rightarrow> 'h exec_state \<Rightarrow> nat \<times> 'h exec_state" where
  "execute_Exit NextPC s =
    (case Frames s of
       [] \<Rightarrow> (NextPC, s\<lparr>Status := Returned, FinalSlot := PC s\<rparr>)
     | Frame # Rest \<Rightarrow>
        (ReturnSlot Frame,
         s\<lparr>Frames := Rest, Registers := restoreFrame Frame (Registers s)\<rparr>))"

section \<open>Dispatch, step and loop\<close>

text \<open>
  Control transfers: the tail of the dispatch chain.  A validated branch has its target and a
  validated \<open>CALLX\<close> its register, so the \<open>the\<close> of the source's \<open>*Validation.BranchTarget\<close>
  is defined; an operation outside the condition table (\<open>llvm_unreachable\<close>) does not branch.
\<close>

definition execute_control ::
    "'h environment \<Rightarrow> sbf_program \<Rightarrow> interpreter_options \<Rightarrow> u64 \<Rightarrow> opcode_info \<Rightarrow>
     raw_instruction \<Rightarrow> instruction_validation \<Rightarrow> u64 \<Rightarrow> nat \<Rightarrow> 'h exec_state \<Rightarrow>
     nat \<times> 'h exec_state" where
  "execute_control E Program Options features info I V src NextPC s =
    (if Op info = Op_Jump then (the (BranchTarget V), s)
     else if isConditionalBranch info then
       (if evaluateBranchCondition (Op info) (Width info) (Registers s ! Dst I) src = Some True
        then (the (BranchTarget V), s) else (NextPC, s))
     else if Op info = Op_Call then execute_Call E Program Options features I NextPC s
     else if Op info = Op_CallX then
       execute_CallX Program Options (the (CallXRegister V)) NextPC s
     else if Op info = Op_Exit then execute_Exit NextPC s
     else (NextPC, fail Fault_InvalidInstruction
                     ''unsupported operation in the raw SBF interpreter'' s))"

definition sourceOperand ::
    "semantic_traits \<Rightarrow> raw_instruction \<Rightarrow> 'h exec_state \<Rightarrow> u64" where
  "sourceOperand Traits I s =
     (if Trait_Source Traits = Source_SourceRegister then Registers s ! Src I
      else normalizeImmediate (ucast (word_of_int (Immediate I) :: u32)) (Trait_Immediate Traits))"

definition execute_instruction ::
    "bool \<Rightarrow> 'h environment \<Rightarrow> sbf_program \<Rightarrow> interpreter_options \<Rightarrow> u64 \<Rightarrow> opcode_info \<Rightarrow>
     raw_instruction \<Rightarrow> instruction_validation \<Rightarrow> 'h exec_state \<Rightarrow> nat \<times> 'h exec_state" where
  "execute_instruction native_little E Program Options features info I V s =
    (let NextPC = PC s + 1;
         Traits = semanticTraits info (program_version Program);
         src = sourceOperand Traits I s;
         dst = Registers s ! Dst I;
         alu = evaluateScalarALU (Op info) (Width info) dst src (Trait_SwapOperands Traits) in
     if ID info = LDDW then (PC s + kLDDWSlotCount, execute_LDDW (program_text Program) I s)
     else if Op info = Op_Load then (NextPC, execute_Load info I s)
     else if Op info = Op_Store then (NextPC, execute_Store info I src s)
     else if Op info = Op_Mov then (NextPC, execute_Mov info Traits I src s)
     else if alu \<noteq> None then (NextPC, execute_ALU info Traits I (the alu) s)
     else if Op info = Op_UHighMul then
       (NextPC, setReg (Dst I) (unsignedHighMultiply64 dst src) s)
     else if Op info = Op_SHighMul then
       (NextPC, setReg (Dst I) (signedHighMultiply64 dst src) s)
     else if is_division (Op info) then (NextPC, execute_Division info I src s)
     else if Op info = Op_EndianLE \<or> Op info = Op_EndianBE then
       (NextPC, execute_Endian native_little info I s)
     else if Op info = Op_HighOr then (NextPC, execute_HighOr I s)
     else execute_control E Program Options features info I V src NextPC s)"

text \<open>The fetch: trace entry, meter and \<open>FinalSlot\<close>, before the dynamic instruction check.\<close>

definition fetch ::
    "sbf_program \<Rightarrow> interpreter_options \<Rightarrow> raw_instruction \<Rightarrow> 'h exec_state \<Rightarrow> 'h exec_state" where
  "fetch Program Options I s =
    (let s1 = (if RecordTrace Options then
                 s\<lparr>Trace := Trace s @
                    [\<lparr>Trace_Slot = PC s,
                      Trace_Address = TextAddress (ExecutableImage Program) +
                        word_of_nat (PC s * kInstructionSize),
                      Trace_RawOpcode = RawOpcode I,
                      Trace_Op = (case Info I of Some info \<Rightarrow> ID info | None \<Rightarrow> Opcode_Unknown),
                      Trace_CallDepth = length (Frames s)\<rparr>]\<rparr>
               else s) in
     s1\<lparr>Steps := Steps s1 + 1, FinalSlot := PC s1\<rparr>)"

definition step ::
    "bool \<Rightarrow> 'h environment \<Rightarrow> sbf_program \<Rightarrow> interpreter_options \<Rightarrow> u64 \<Rightarrow> 'h exec_state \<Rightarrow>
     'h exec_state" where
  "step native_little E Program Options features s =
    (let I = decodeRaw (program_text Program) (program_version Program) (PC s);
         s1 = fetch Program Options I s;
         V = validateInstruction (program_text Program) (program_version Program) I in
     case Info I of
       Some info \<Rightarrow>
         (if valid V then
            (let (NextPC, s2) =
               execute_instruction native_little E Program Options features info I V s1 in
             if Status s2 = Running then s2\<lparr>PC := NextPC\<rparr> else s2)
          else fail (executionFaultForValidationRule (Rule V)) (validationRuleMessage (Rule V)) s1)
     | None \<Rightarrow>
         fail (executionFaultForValidationRule (Rule V)) (validationRuleMessage (Rule V)) s1)"

end
