(* ===== verification/SBF_Execution.thy ===== *)
theory SBF_Execution
  imports SBF_Interpreter
begin

text \<open>
  The metered loop of \<open>executeRaw\<close> and what holds of a whole execution: every instruction body
  respects a frame condition, the call stack obeys its discipline, the loop stops within its
  meter, and the stack of an automatic-frame program stays mapped.
\<close>

declare versionHasFeature_iff [simp del]

section \<open>Frame conditions of the instruction bodies\<close>

text \<open>
  \<open>exec_frame s s'\<close>: what every instruction body leaves alone or changes in a controlled way,
  from a running state \<open>s\<close>.
\<close>

definition readonly_same :: "memory_region list \<Rightarrow> memory_region list \<Rightarrow> bool" where
  "readonly_same Ms Ns = (\<forall>i < length Ms. \<not> Writable (Ms ! i) \<longrightarrow> Ns ! i = Ms ! i)"

definition exec_frame :: "'h exec_state \<Rightarrow> 'h exec_state \<Rightarrow> bool" where
  "exec_frame s s' =
    (Steps s' = Steps s \<and> Trace s' = Trace s \<and> PC s' = PC s \<and>
     length (Registers s') = length (Registers s) \<and>
     memory_layout (Memory s') = memory_layout (Memory s) \<and>
     readonly_same (Memory s) (Memory s') \<and>
     (Status s' = Running \<and> Fault s' = Fault s \<or> Status s' = Faulted \<and> Fault s' \<noteq> Fault_None \<or>
      Status s' = Returned \<and> Fault s' = Fault s))"

lemma exec_frame_refl [simp]: "Status s = Running \<Longrightarrow> exec_frame s s"
  by (simp add: exec_frame_def readonly_same_def)

lemma exec_frame_fail: "Status s = Running \<Longrightarrow> c \<noteq> Fault_None \<Longrightarrow> exec_frame s (fail c m s)"
  by (simp add: exec_frame_def readonly_same_def fail_def)

lemma exec_frame_setReg: "Status s = Running \<Longrightarrow> exec_frame s (setReg r v s)"
  by (simp add: exec_frame_def readonly_same_def setReg_def)

lemma readonly_same_trans:
  assumes "readonly_same A B" "readonly_same B C" "memory_layout B = memory_layout A"
  shows "readonly_same A C"
  unfolding readonly_same_def
proof (intro allI impI)
  fix i assume i: "i < length A" "\<not> Writable (A ! i)"
  have l: "length B = length A" using assms(3) unfolding memory_layout_def by (rule map_eq_imp_length_eq)
  have "B ! i = A ! i" using assms(1) i by (simp add: readonly_same_def)
  moreover have "C ! i = B ! i" using assms(2) i l calculation by (simp add: readonly_same_def)
  ultimately show "C ! i = A ! i" by simp
qed

lemma exec_frame_trans:
  "exec_frame a b \<Longrightarrow> Status b = Running \<Longrightarrow> exec_frame b c \<Longrightarrow> exec_frame a c"
  unfolding exec_frame_def using readonly_same_trans [of "Memory a" "Memory b" "Memory c"] by auto

lemma pushFrame_frame:
  "Status s = Running \<Longrightarrow> exec_frame s (snd (pushFrame P Opts k s))"
  by (auto simp: pushFrame_def Let_def exec_frame_fail)
     (auto simp: exec_frame_def readonly_same_def setReg_def)

lemma makeOutcome_fault: "makeOutcome r = Host_Fault c \<Longrightarrow> c \<noteq> Fault_None"
  by (cases r) (auto simp: outcome_fault_def split: option.splits if_splits)

lemma invokeHost_fault: "fst (invokeHost E f H A h) = Host_Fault c \<Longrightarrow> c \<noteq> Fault_None"
  by (auto simp: invokeHost_def Let_def makeOutcome_fault split: option.splits prod.splits)

lemma dispatchSyscall_frame:
  assumes "Status s = Running"
  shows "exec_frame s (snd (dispatchSyscall E f H s))" "Status (snd (dispatchSyscall E f H s)) = Running"
    "fst (dispatchSyscall E f H s) = Host_Fault c \<Longrightarrow> c \<noteq> Fault_None"
  using assms invokeHost_fault [of E f H "syscallArguments s" "Host s"]
  by (auto simp: dispatchSyscall_def Let_def exec_frame_def readonly_same_def setReg_def
      split: prod.splits syscall_outcome.splits)

lemma divide_fault: "divide opn w l r = Inl f \<Longrightarrow> f \<noteq> Fault_None"
  by (auto simp: divide_def divideImpl_def split: if_splits sum.splits)

lemma execute_Store_frame: "Status s = Running \<Longrightarrow> exec_frame s (execute_Store info I src s)"
  using store_memory_readonly [of "Memory s" "effectiveAddress (Registers s ! Dst I) I" "Width info" src]
    store_memory_layout [of "Memory s" "effectiveAddress (Registers s ! Dst I) I" "Width info" src]
  by (auto simp: execute_Store_def exec_frame_fail split: sum.split)
     (auto simp: exec_frame_def readonly_same_def)

lemma execute_simple_frames:
  assumes "Status s = Running"
  shows "exec_frame s (execute_LDDW text I s)" "exec_frame s (execute_Load info I s)"
    "exec_frame s (execute_Mov info T I src s)" "exec_frame s (execute_ALU info T I v s)"
    "exec_frame s (execute_Division info I src s)" "exec_frame s (execute_Endian nl info I s)"
    "exec_frame s (execute_HighOr I s)"
  using assms divide_fault
  by (auto simp: execute_LDDW_def execute_Load_def execute_Mov_def execute_ALU_def
      execute_Division_def execute_Endian_def execute_HighOr_def Let_def exec_frame_setReg
      exec_frame_fail split: option.split sum.split)

lemma exec_frame_then_fail:
  "exec_frame s t \<Longrightarrow> Status t = Running \<Longrightarrow> c \<noteq> Fault_None \<Longrightarrow> exec_frame s (fail c m t)"
  by (rule exec_frame_trans [OF _ _ exec_frame_fail])

lemma execute_static_syscall_frame:
  "Status s = Running \<Longrightarrow> exec_frame s (execute_static_syscall E f H s)"
  using dispatchSyscall_frame [of s E f H]
  by (auto simp: execute_static_syscall_def Let_def exec_frame_then_fail
      split: prod.splits syscall_outcome.splits)

lemma execute_static_call_frame:
  "Status s = Running \<Longrightarrow> exec_frame s (snd (execute_static_call P Opts I k s))"
  using pushFrame_frame [of s P Opts k]
  by (auto simp: execute_static_call_def Let_def exec_frame_fail split: prod.splits)

lemma execute_legacy_call_frame:
  assumes "Status s = Running"
  shows "exec_frame s (snd (execute_legacy_call E P Opts f H k s))"
proof -
  obtain oc t where d: "dispatchSyscall E f H s = (oc, t)" by fastforce
  then have t: "exec_frame s t" "Status t = Running" "\<And>c. oc = Host_Fault c \<Longrightarrow> c \<noteq> Fault_None"
    using dispatchSyscall_frame [OF assms, of E f H] by auto
  have "exec_frame s (snd (pushFrame P Opts k t))"
    by (rule exec_frame_trans [OF t(1,2) pushFrame_frame [OF t(2)]])
  with t d show ?thesis
    by (auto simp: execute_legacy_call_def Let_def exec_frame_then_fail
        split: prod.splits syscall_outcome.splits option.splits)
qed

lemma execute_Call_frame:
  "Status s = Running \<Longrightarrow> exec_frame s (snd (execute_Call E P Opts f I k s))"
  by (simp add: execute_Call_def Let_def execute_static_syscall_frame execute_static_call_frame
      execute_legacy_call_frame exec_frame_fail)

lemma pushFrame_running:
  "Status s = Running \<Longrightarrow> fst (pushFrame P Opts k s) \<Longrightarrow> Status (snd (pushFrame P Opts k s)) = Running"
  by (auto simp: pushFrame_def Let_def setReg_def split: if_splits)

lemma execute_CallX_frame:
  "Status s = Running \<Longrightarrow> exec_frame s (snd (execute_CallX P Opts r k s))"
  using pushFrame_frame [of s P Opts k] pushFrame_running [of s P Opts k]
  by (auto simp: execute_CallX_def Let_def exec_frame_then_fail split: prod.splits)

lemma length_restoreFrame [simp]: "length (restoreFrame F regs) = length regs"
proof -
  have "length (fold (\<lambda>I rs. rs[a + I := g I]) xs ys) = length ys" for a and g :: "nat \<Rightarrow> u64" and xs ys
    by (induction xs arbitrary: ys) auto
  then show ?thesis by (simp add: restoreFrame_def)
qed

lemma execute_Exit_frame: "Status s = Running \<Longrightarrow> exec_frame s (snd (execute_Exit k s))"
  by (auto simp: execute_Exit_def exec_frame_def readonly_same_def split: list.split)

lemma execute_control_frame:
  "Status s = Running \<Longrightarrow> exec_frame s (snd (execute_control E P Opts f info I V src k s))"
  by (simp add: execute_control_def execute_Call_frame execute_CallX_frame execute_Exit_frame
      exec_frame_fail)

lemma execute_instruction_frame:
  "Status s = Running \<Longrightarrow> exec_frame s (snd (execute_instruction nl E P Opts f info I V s))"
  by (simp add: execute_instruction_def Let_def execute_simple_frames execute_Store_frame
      exec_frame_setReg execute_control_frame)

lemma fetch_fields [simp]:
  "Steps (fetch P Opts I s) = Suc (Steps s)" "Registers (fetch P Opts I s) = Registers s"
  "Frames (fetch P Opts I s) = Frames s" "PC (fetch P Opts I s) = PC s"
  "Memory (fetch P Opts I s) = Memory s" "Status (fetch P Opts I s) = Status s"
  "Fault (fetch P Opts I s) = Fault s" "Depth (fetch P Opts I s) = Depth s"
  "Syscalls (fetch P Opts I s) = Syscalls s" "Host (fetch P Opts I s) = Host s"
  "FinalSlot (fetch P Opts I s) = PC s"
  "length (Trace (fetch P Opts I s)) = (if RecordTrace Opts then Suc (length (Trace s)) else length (Trace s))"
  by (simp_all add: fetch_def Let_def)

lemma fail_fields [simp]:
  "Steps (fail c m s) = Steps s" "Registers (fail c m s) = Registers s"
  "Frames (fail c m s) = Frames s" "PC (fail c m s) = PC s"
  "Memory (fail c m s) = Memory s" "Depth (fail c m s) = Depth s"
  "Syscalls (fail c m s) = Syscalls s" "Host (fail c m s) = Host s" "Trace (fail c m s) = Trace s"
  by (simp_all add: fail_def)

definition currentInstruction :: "sbf_program \<Rightarrow> 'h exec_state \<Rightarrow> raw_instruction" where
  "currentInstruction P s = decodeRaw (program_text P) (program_version P) (PC s)"

text \<open>The two outcomes of a step: a rejected instruction, or an executed one.\<close>

lemma step_cases:
  fixes P :: sbf_program
  defines "T \<equiv> program_text P" and "v \<equiv> program_version P"
  obtains (rejected) "\<not> valid (validateInstruction T v (currentInstruction P s))"
      "step nl E P Opts f s =
         fail (executionFaultForValidationRule (Rule (validateInstruction T v (currentInstruction P s))))
           (validationRuleMessage (Rule (validateInstruction T v (currentInstruction P s))))
           (fetch P Opts (currentInstruction P s) s)"
  | (executed) info k t where "Info (currentInstruction P s) = Some info"
      "requisite T v (currentInstruction P s) info"
      "execute_instruction nl E P Opts f info (currentInstruction P s)
         (validateInstruction T v (currentInstruction P s))
         (fetch P Opts (currentInstruction P s) s) = (k, t)"
      "step nl E P Opts f s = (if Status t = Running then t\<lparr>PC := k\<rparr> else t)"
proof (cases "Info (currentInstruction P s)")
  case None
  then have "\<not> valid (validateInstruction T v (currentInstruction P s))"
    by (simp add: validateInstruction_valid)
  with None rejected show ?thesis
    by (simp add: step_def Let_def T_def v_def currentInstruction_def)
next
  case (Some info)
  show ?thesis
  proof (cases "valid (validateInstruction T v (currentInstruction P s))")
    case True
    then have "requisite T v (currentInstruction P s) info"
      using Some by (simp add: validateInstruction_valid)
    moreover obtain k t where "execute_instruction nl E P Opts f info (currentInstruction P s)
         (validateInstruction T v (currentInstruction P s))
         (fetch P Opts (currentInstruction P s) s) = (k, t)" by fastforce
    ultimately show ?thesis using executed Some True
      by (simp add: step_def Let_def T_def v_def currentInstruction_def)
  next
    case False
    with rejected Some show ?thesis
      by (simp add: step_def Let_def T_def v_def currentInstruction_def)
  qed
qed

lemma executionFault_not_None: "executionFaultForValidationRule r \<noteq> Fault_None"
  by (simp add: executionFaultForValidationRule_def Let_def)

lemma step_frame:
  assumes "Status s = Running"
  shows "exec_frame (fetch P Opts (currentInstruction P s) s) (step nl E P Opts f s\<lparr>PC := PC s\<rparr>) \<and>
     (Status (step nl E P Opts f s) \<noteq> Running \<longrightarrow> PC (step nl E P Opts f s) = PC s)"
proof (cases rule: step_cases [where s = s and P = P and nl = nl and E = E and Opts = Opts and f = f])
  case rejected
  then show ?thesis using assms executionFault_not_None
    by (simp add: exec_frame_def readonly_same_def fail_def)
next
  case (executed info k t)
  have "exec_frame (fetch P Opts (currentInstruction P s) s) t"
    using executed(3) assms execute_instruction_frame
    by (metis fetch_fields(6) snd_conv)
  with executed(4) show ?thesis by (auto simp: exec_frame_def)
qed

lemma Steps_step: "Status s = Running \<Longrightarrow> Steps (step nl E P Opts f s) = Suc (Steps s)"
  using step_frame [of s P Opts nl E f] by (auto simp: exec_frame_def)

function run ::
    "bool \<Rightarrow> 'h environment \<Rightarrow> sbf_program \<Rightarrow> interpreter_options \<Rightarrow> u64 \<Rightarrow> 'h exec_state \<Rightarrow>
     'h exec_state" where
  "run nl E Program Options features s =
    (if Status s \<noteq> Running then s
     else if Steps s \<ge> MaxSteps Options then
       s\<lparr>Status := StepLimit, Fault := Fault_ExecutionOverrun,
         Error := ''SBF execution step limit exceeded'', FinalSlot := PC s\<rparr>
     else if PC s \<ge> length (program_text Program) div kInstructionSize then
       fail Fault_ExecutionOverrun ''program counter is outside SBF text'' s
     else run nl E Program Options features (step nl E Program Options features s))"
  by pat_completeness auto
termination
  by (relation "measure (\<lambda>(nl, E, P, Opts, f, s). MaxSteps Opts - Steps s)")
    (auto simp: Steps_step)

declare run.simps [simp del]

section \<open>The call-stack invariant\<close>

text \<open>
  Every saved frame pointer lies one automatic stride below the next; \<open>fp\<close> is the pointer of
  the active frame.
\<close>

fun fp_chain :: "u64 \<Rightarrow> u64 \<Rightarrow> u64 \<Rightarrow> u64 list \<Rightarrow> bool" where
  "fp_chain init stride fp [] = (fp = init)"
| "fp_chain init stride fp (f # fs) = (fp = f + stride \<and> fp_chain init stride f fs)"

lemma fp_chain_eq: "fp_chain init stride fp fs \<Longrightarrow> fp = init + stride * word_of_nat (length fs)"
  by (induction fs arbitrary: fp) (auto simp: algebra_simps)

definition manualFrames :: "sbf_program \<Rightarrow> bool" where
  "manualFrames P = versionHasFeature (program_version P) ManualStackFrames"

definition stack_ok :: "sbf_program \<Rightarrow> interpreter_options \<Rightarrow> 'h exec_state \<Rightarrow> bool" where
  "stack_ok P Opts s =
    (length (Registers s) = 11 \<and> length (Frames s) \<le> Depth s \<and> Depth s < callDepthLimit P Opts \<and>
     (\<forall>F \<in> set (Frames s). length (SavedRegisters F) = 4) \<and>
     (manualFrames P \<or>
      fp_chain (initialFramePointer (program_version P) (Config P))
        (automaticFrameStride (program_version P) (Config P))
        (Registers s ! 10) (map FramePointer (Frames s))))"

definition keeps_frames :: "sbf_program \<Rightarrow> 'h exec_state \<Rightarrow> 'h exec_state \<Rightarrow> bool" where
  "keeps_frames P s t =
    (Frames t = Frames s \<and> Depth t = Depth s \<and> length (Registers t) = length (Registers s) \<and>
     (manualFrames P \<or> Registers t ! 10 = Registers s ! 10))"

lemma stack_ok_keeps: "stack_ok P Opts s \<Longrightarrow> keeps_frames P s t \<Longrightarrow> stack_ok P Opts t"
  by (auto simp: stack_ok_def keeps_frames_def)

lemma keeps_frames_basic [simp]:
  "keeps_frames P s s" "keeps_frames P s (fail c m t) = keeps_frames P s t"
  "keeps_frames P s (t\<lparr>Memory := M\<rparr>) = keeps_frames P s t"
  "keeps_frames P s (t\<lparr>Status := x\<rparr>) = keeps_frames P s t"
  "keeps_frames P s (t\<lparr>FinalSlot := n\<rparr>) = keeps_frames P s t"
  "keeps_frames P s (t\<lparr>PC := n\<rparr>) = keeps_frames P s t"
  "keeps_frames P s (t\<lparr>Host := h\<rparr>) = keeps_frames P s t"
  "keeps_frames P s (t\<lparr>Syscalls := ys\<rparr>) = keeps_frames P s t"
  "keeps_frames P s (fetch P' Opts I s)"
  by (simp_all add: keeps_frames_def)

lemma keeps_frames_setReg: "r \<noteq> 10 \<or> manualFrames P \<Longrightarrow> keeps_frames P s (setReg r v s)"
  by (auto simp: keeps_frames_def setReg_def)

lemma pushFrame_stack_ok:
  "stack_ok P Opts s \<Longrightarrow> stack_ok P Opts (snd (pushFrame P Opts k s))"
  by (auto simp: pushFrame_def Let_def stack_ok_keeps [of P Opts s] stack_ok_def setReg_def
      makeFrame_def sbf_constants manualFrames_def)

lemma dispatchSyscall_keeps: "keeps_frames P s (snd (dispatchSyscall E f H s))"
proof -
  have "keeps_frames P s (setReg kReturnRegister v (s\<lparr>Host := h\<rparr>))" for v h
    by (simp add: keeps_frames_def setReg_def kReturnRegister_def)
  then show ?thesis
    by (auto simp: dispatchSyscall_def Let_def split: prod.splits syscall_outcome.splits)
qed

lemma restoreFrame_pointer:
  assumes "length regs = 11"
  shows "restoreFrame F regs ! 10 = FramePointer F"
  using assms by (simp add: restoreFrame_def sbf_constants upt_rec)

lemma execute_Exit_stack_ok:
  "stack_ok P Opts s \<Longrightarrow> stack_ok P Opts (snd (execute_Exit k s))"
  by (cases "Frames s") (auto simp: execute_Exit_def stack_ok_def restoreFrame_pointer)

lemma execute_Call_stack_ok:
  assumes "stack_ok P Opts s"
  shows "stack_ok P Opts (snd (execute_Call E P Opts f I k s))"
proof -
  have d: "stack_ok P Opts t" if "dispatchSyscall E f H s = (oc, t)" for H oc t
    using stack_ok_keeps [OF assms dispatchSyscall_keeps] that by (metis snd_conv)
  have fl: "stack_ok P Opts (fail c m t)" if "stack_ok P Opts t" for c m and t :: "'a exec_state"
    using that by (rule stack_ok_keeps) simp
  have p: "stack_ok P Opts t'" if "pushFrame P Opts k t = (b, t')" "stack_ok P Opts t"
    for b and t t' :: "'a exec_state"
    using pushFrame_stack_ok [OF that(2), of k] that(1) by simp
  show ?thesis
    using assms
    by (auto simp: execute_Call_def execute_static_syscall_def execute_static_call_def
        execute_legacy_call_def Let_def fl
        split: prod.splits syscall_outcome.splits option.splits intro: d p fl)
qed

lemma execute_CallX_stack_ok:
  "stack_ok P Opts s \<Longrightarrow> stack_ok P Opts (snd (execute_CallX P Opts r k s))"
  using pushFrame_stack_ok [of P Opts s k] stack_ok_keeps
  by (auto simp: execute_CallX_def Let_def split: prod.splits intro: stack_ok_keeps)

lemma execute_simple_keeps:
  assumes "Dst I \<noteq> 10 \<or> manualFrames P"
  shows "keeps_frames P s (execute_LDDW text I s)" "keeps_frames P s (execute_Load info I s)"
    "keeps_frames P s (execute_Mov info T I src s)" "keeps_frames P s (execute_ALU info T I v s)"
    "keeps_frames P s (execute_Division info I src s)" "keeps_frames P s (execute_Endian nl info I s)"
    "keeps_frames P s (execute_HighOr I s)" "keeps_frames P s (setReg (Dst I) v s)"
  using assms
  by (auto simp: execute_LDDW_def execute_Load_def execute_Mov_def execute_ALU_def
      execute_Division_def execute_Endian_def execute_HighOr_def Let_def keeps_frames_setReg
      split: option.split sum.split)

lemma execute_Store_keeps: "keeps_frames P s (execute_Store info I src s)"
  by (auto simp: execute_Store_def split: sum.split)

lemma execute_control_stack_ok:
  "stack_ok P Opts s \<Longrightarrow> stack_ok P Opts (snd (execute_control E P Opts f info I V src k s))"
  by (auto simp: execute_control_def execute_Call_stack_ok execute_CallX_stack_ok
      execute_Exit_stack_ok intro: stack_ok_keeps)

lemma execute_instruction_stack_ok:
  assumes ok: "stack_ok P Opts s" and dst: "Dst I = 10 \<Longrightarrow> Op info = Op_Store \<and> ID info \<noteq> LDDW \<or> manualFrames P"
  shows "stack_ok P Opts (snd (execute_instruction nl E P Opts f info I V s))"
proof (cases "Op info = Op_Store \<and> ID info \<noteq> LDDW")
  case True
  then show ?thesis
    by (simp add: execute_instruction_def Let_def stack_ok_keeps [OF ok execute_Store_keeps])
next
  case False
  with dst have "Dst I \<noteq> 10 \<or> manualFrames P" by blast
  then show ?thesis
    by (simp add: execute_instruction_def Let_def stack_ok_keeps [OF ok execute_simple_keeps(1)]
       stack_ok_keeps [OF ok execute_simple_keeps(2)] stack_ok_keeps [OF ok execute_simple_keeps(3)]
       stack_ok_keeps [OF ok execute_simple_keeps(4)] stack_ok_keeps [OF ok execute_simple_keeps(5)]
       stack_ok_keeps [OF ok execute_simple_keeps(6)] stack_ok_keeps [OF ok execute_simple_keeps(7)]
       stack_ok_keeps [OF ok execute_simple_keeps(8)] stack_ok_keeps [OF ok execute_Store_keeps]
       execute_control_stack_ok [OF ok])
qed

lemma currentInstruction_table:
  "Info (currentInstruction P s) = Some info \<Longrightarrow> info \<in> set OpcodeTable"
  using getOpcodeInfo_SomeD by (auto simp: currentInstruction_def decodeRaw_def Let_def)

lemma store_row: "info \<in> set OpcodeTable \<Longrightarrow> writesMemory info \<Longrightarrow> Op info = Op_Store \<and> ID info \<noteq> LDDW"
  using opcode_row_valid [of info] opcode_row_shape [of info] by (auto split: if_splits)

lemma frame_pointer_writers:
  assumes "Info (currentInstruction P s) = Some info"
    "requisite T (program_version P) (currentInstruction P s) info"
    "Dst (currentInstruction P s) = 10"
  shows "Op info = Op_Store \<and> ID info \<noteq> LDDW \<or> manualFrames P"
  using requisiteD(10) [OF assms(2,3)] store_row [OF currentInstruction_table [OF assms(1)]]
  by (auto simp: manualFrames_def manualFrameBump_def)

lemma step_stack_ok:
  assumes "stack_ok P Opts s" shows "stack_ok P Opts (step nl E P Opts f s)"
proof -
  have fetched: "stack_ok P Opts (fetch P Opts (currentInstruction P s) s)"
    using assms by (rule stack_ok_keeps) simp
  show ?thesis
  proof (cases rule: step_cases [where s = s and P = P and nl = nl and E = E and Opts = Opts and f = f])
    case rejected
    then show ?thesis using stack_ok_keeps [OF fetched] by simp
  next
    case (executed info k t)
    have "stack_ok P Opts t"
      using execute_instruction_stack_ok [OF fetched frame_pointer_writers [OF executed(1,2)]] executed(3)
      by (metis snd_conv)
    then show ?thesis using stack_ok_keeps [of P Opts t] executed(4) by simp
  qed
qed

section \<open>The whole execution\<close>

definition runtimeFeatures :: "'h environment \<Rightarrow> sbf_program \<Rightarrow> u64" where
  "runtimeFeatures E Program =
     (case RuntimeFeatures E of Some f \<Rightarrow> f | None \<Rightarrow> ActiveRuntimeFeatures Program)"

definition initial_state ::
    "'h environment \<Rightarrow> sbf_program \<Rightarrow> memory_region list \<Rightarrow> 'h \<Rightarrow> 'h exec_state" where
  "initial_state E Program Mem h =
     \<lparr>Registers = ((replicate kRegisterCount 0)
        [kFirstArgumentRegister := Input E, kInstructionDataRegister := InstructionData E,
         kFramePointerRegister :=
           initialFramePointer (program_version Program) (Config Program)]),
      Frames = [], PC = EntrySlot (ExecutableImage Program), Memory = Mem, Status = Running,
      Fault = Fault_None, Error = [], FinalSlot = 0, Steps = 0, Depth = 0, Trace = [],
      Syscalls = [], Host = h\<rparr>"

definition finishExecution :: "'h exec_state \<Rightarrow> 'h execution_result" where
  "finishExecution s =
     \<lparr>Res_Status = Status s, Res_Fault = Fault s, Res_Error = Error s,
      Res_FinalSlot = FinalSlot s, Res_Steps = Steps s, Res_MaxCallDepth = Depth s,
      Res_ReturnValue = Registers s ! kReturnRegister, Res_Registers = Registers s,
      Res_Memory = Memory s, Res_Trace = Trace s, Res_Syscalls = Syscalls s, Res_Host = Host s\<rparr>"

definition executeRaw ::
    "bool \<Rightarrow> sbf_program \<Rightarrow> 'h environment \<Rightarrow> interpreter_options \<Rightarrow> 'h \<Rightarrow>
     program_error + 'h execution_result" where
  "executeRaw native_little Program E Options h =
    (case validateProgram Program Options of
       Some e \<Rightarrow> Inl e
     | None \<Rightarrow>
        (let Mem = appendProgramMemory (ExecutableImage Program) (Config Program) (Env_Memory E) in
         case validateMemory Mem (program_version Program) (Config Program) of
           Some e \<Rightarrow> Inl (BadMemory e)
         | None \<Rightarrow>
            Inr (finishExecution
              (run native_little E Program Options (runtimeFeatures E Program)
                 (initial_state E Program Mem h)))))"

definition run_stops :: "sbf_program \<Rightarrow> interpreter_options \<Rightarrow> 'h exec_state \<Rightarrow> bool" where
  "run_stops P Opts s =
     (Status s \<noteq> Running \<or> Steps s \<ge> MaxSteps Opts \<or>
      PC s \<ge> length (program_text P) div kInstructionSize)"

definition run_finish :: "interpreter_options \<Rightarrow> 'h exec_state \<Rightarrow> 'h exec_state" where
  "run_finish Opts s =
     (if Status s \<noteq> Running then s
      else if Steps s \<ge> MaxSteps Opts then
        s\<lparr>Status := StepLimit, Fault := Fault_ExecutionOverrun,
          Error := ''SBF execution step limit exceeded'', FinalSlot := PC s\<rparr>
      else fail Fault_ExecutionOverrun ''program counter is outside SBF text'' s)"

interpretation interp_run: metered_loop "run nl E P Opts f" "run_stops P Opts" "run_finish Opts"
  "step nl E P Opts f" "\<lambda>s. MaxSteps Opts - Steps s"
  for nl E P Opts f
proof
  show "run nl E P Opts f s =
      (if run_stops P Opts s then run_finish Opts s else run nl E P Opts f (step nl E P Opts f s))" for s
    by (subst run.simps) (auto simp: run_stops_def run_finish_def)
  show "\<not> run_stops P Opts s \<Longrightarrow>
      MaxSteps Opts - Steps (step nl E P Opts f s) < MaxSteps Opts - Steps s" for s
    by (auto simp: run_stops_def Steps_step)
qed

text \<open>The invariant of a metered execution started on memory \<open>Mem\<close>.\<close>

definition exec_inv ::
    "sbf_program \<Rightarrow> interpreter_options \<Rightarrow> memory_region list \<Rightarrow> 'h exec_state \<Rightarrow> bool" where
  "exec_inv P Opts Mem s =
    (stack_ok P Opts s \<and> Steps s \<le> MaxSteps Opts \<and>
     memory_layout (Memory s) = memory_layout Mem \<and> readonly_same Mem (Memory s) \<and>
     (RecordTrace Opts \<longrightarrow> length (Trace s) = Steps s) \<and>
     (Status s = Running \<and> Fault s = Fault_None \<or> Status s = Faulted \<and> Fault s \<noteq> Fault_None \<or>
      Status s = Returned \<and> Fault s = Fault_None))"

lemma step_exec_inv:
  assumes J: "exec_inv P Opts Mem s" and go: "\<not> run_stops P Opts s"
  shows "exec_inv P Opts Mem (step nl E P Opts f s)"
proof -
  from go have run: "Status s = Running" "Steps s < MaxSteps Opts" by (auto simp: run_stops_def)
  let ?t = "step nl E P Opts f s"
  have fr: "exec_frame (fetch P Opts (currentInstruction P s) s) (?t\<lparr>PC := PC s\<rparr>)"
    using step_frame [OF run(1)] by blast
  then have ro: "readonly_same Mem (Memory ?t)"
    using J readonly_same_trans [of Mem "Memory s" "Memory ?t"]
    by (simp add: exec_frame_def exec_inv_def)
  show ?thesis
    using J fr ro run step_stack_ok [of P Opts s nl E f]
    by (auto simp: exec_inv_def exec_frame_def split: if_splits)
qed

lemma validateProgram_None:
  assumes "validateProgram P Opts = None"
  shows "validateVMConfig (Config P) = None" "isConcreteVersion (program_version P)"
    "length (program_text P) mod 8 = 0" "0 < length (program_text P)"
    "EntrySlot (ExecutableImage P) < length (program_text P) div 8"
    "0 < callDepthLimit P Opts" "callDepthLimit P Opts \<le> MaxCallDepth (Config P)"
  using assms validateVMConfig_None [of "Config P"]
  by (auto simp: validateProgram_def Let_def callDepthLimit_def sbf_constants
      split: option.splits if_splits)

lemma initial_exec_inv:
  "validateProgram P Opts = None \<Longrightarrow> exec_inv P Opts Mem (initial_state E P Mem h)"
  using validateProgram_None(6) [of P Opts]
  by (simp add: exec_inv_def stack_ok_def initial_state_def readonly_same_def sbf_constants)

lemma executeRaw_InrD:
  assumes "executeRaw nl P E Opts h = Inr r"
  obtains Mem where "Mem = appendProgramMemory (ExecutableImage P) (Config P) (Env_Memory E)"
    "validateProgram P Opts = None" "validateMemory Mem (program_version P) (Config P) = None"
    "r = finishExecution (run nl E P Opts (runtimeFeatures E P) (initial_state E P Mem h))"
  using assms by (auto simp: executeRaw_def Let_def split: option.splits)

definition exec_post ::
    "sbf_program \<Rightarrow> interpreter_options \<Rightarrow> memory_region list \<Rightarrow> 'h execution_result \<Rightarrow> bool" where
  "exec_post P Opts Mem r =
    (Res_Status r \<noteq> Running \<and> (Res_Status r = Returned \<longleftrightarrow> Res_Fault r = Fault_None) \<and>
     Res_Steps r \<le> MaxSteps Opts \<and> Res_MaxCallDepth r < callDepthLimit P Opts \<and>
     length (Res_Registers r) = 11 \<and> Res_ReturnValue r = Res_Registers r ! 0 \<and>
     memory_layout (Res_Memory r) = memory_layout Mem \<and> readonly_same Mem (Res_Memory r) \<and>
     (RecordTrace Opts \<longrightarrow> length (Res_Trace r) = Res_Steps r))"

lemma run_post:
  assumes "exec_inv P Opts Mem s"
  shows "exec_post P Opts Mem (finishExecution (run nl E P Opts f s))"
  using step_exec_inv _ assms
proof (rule interp_run.loop_invariant)
  fix t :: "'a exec_state"
  assume J: "exec_inv P Opts Mem t" and "run_stops P Opts t"
  then show "exec_post P Opts Mem (finishExecution (run_finish Opts t))"
    by (auto simp: exec_inv_def exec_post_def finishExecution_def run_finish_def run_stops_def
        stack_ok_def fail_def kReturnRegister_def)
qed

text \<open>How one step changes the call stack.\<close>

definition frame_change :: "'h exec_state \<Rightarrow> nat \<Rightarrow> 'h exec_state \<Rightarrow> bool" where
  "frame_change s k t =
    (Frames t = Frames s \<or> (\<exists>slot. Frames t = makeFrame slot s # Frames s) \<or>
     (\<exists>F. Frames s = F # Frames t \<and> Registers t = restoreFrame F (Registers s) \<and>
          k = ReturnSlot F))"

lemma frame_change_same: "Frames t = Frames s \<Longrightarrow> frame_change s k t"
  by (simp add: frame_change_def)

lemma pushFrame_frames:
  "pushFrame P Opts k s = (b, t) \<Longrightarrow>
     Frames t = (if b then makeFrame k s # Frames s else Frames s)"
  by (auto simp: pushFrame_def Let_def setReg_def split: if_splits)

lemma dispatchSyscall_frames:
  "dispatchSyscall E f H s = (oc, t) \<Longrightarrow> Frames t = Frames s \<and>
     (length (Registers s) = 11 \<longrightarrow> makeFrame k t = makeFrame k s)"
  by (auto simp: dispatchSyscall_def Let_def setReg_def makeFrame_def sbf_constants
      split: prod.splits syscall_outcome.splits)

lemma frame_change_push:
  "makeFrame slot u = makeFrame slot s \<Longrightarrow> Frames u = Frames s \<Longrightarrow>
   pushFrame P Opts slot u = (b, t) \<Longrightarrow> frame_change s k t"
  using pushFrame_frames [of P Opts slot u b t] by (auto simp: frame_change_def)

lemma execute_static_syscall_frames:
  "Frames (execute_static_syscall E f H s) = Frames s"
  using dispatchSyscall_frames [of E f H s]
  by (auto simp: execute_static_syscall_def Let_def split: prod.splits syscall_outcome.splits)

lemma execute_static_call_frames:
  "execute_static_call P Opts I k s = (k', t) \<Longrightarrow> frame_change s k' t"
  by (auto simp: execute_static_call_def Let_def frame_change_same split: prod.splits if_splits
      intro: frame_change_push [of _ s])

lemma execute_legacy_call_frames:
  assumes "length (Registers s) = 11" "execute_legacy_call E P Opts f H k s = (k', t)"
  shows "frame_change s k' t"
proof -
  obtain oc u where d: "dispatchSyscall E f H s = (oc, u)" by fastforce
  note u = dispatchSyscall_frames [OF d, of k]
  obtain b w where p: "pushFrame P Opts k u = (b, w)" by fastforce
  have "frame_change s k' w" using frame_change_push [OF _ _ p] u assms(1) by blast
  moreover have "t = w \<or> Frames t = Frames s"
    using assms(2) d p u
    by (auto simp: execute_legacy_call_def Let_def split: syscall_outcome.splits option.splits if_splits)
  ultimately show ?thesis using frame_change_same by blast
qed

lemma execute_Call_frames:
  assumes "length (Registers s) = 11" "execute_Call E P Opts f I k s = (k', t)"
  shows "frame_change s k' t"
  using assms(2)
  by (auto simp: execute_Call_def Let_def execute_static_syscall_frames
      split: if_splits intro: frame_change_same execute_static_call_frames
      execute_legacy_call_frames [OF assms(1)])

lemma execute_CallX_frames:
  "execute_CallX P Opts r k s = (k', t) \<Longrightarrow> frame_change s k' t"
  by (auto simp: execute_CallX_def Let_def frame_change_def pushFrame_frames
      split: prod.splits if_splits dest!: pushFrame_frames)

lemma execute_Exit_frames: "execute_Exit k s = (k', t) \<Longrightarrow> frame_change s k' t"
  by (auto simp: execute_Exit_def frame_change_def split: list.splits)

lemma execute_simple_Frames:
  "Frames (execute_LDDW text I s) = Frames s" "Frames (execute_Load info I s) = Frames s"
  "Frames (execute_Mov info T I src s) = Frames s" "Frames (execute_ALU info T I v s) = Frames s"
  "Frames (execute_Division info I src s) = Frames s" "Frames (execute_Endian nl info I s) = Frames s"
  "Frames (execute_HighOr I s) = Frames s" "Frames (setReg r v s) = Frames s"
  "Frames (execute_Store info I src s) = Frames s"
  by (auto simp: execute_LDDW_def execute_Load_def execute_Mov_def execute_ALU_def
      execute_Division_def execute_Endian_def execute_HighOr_def execute_Store_def Let_def setReg_def
      split: option.split sum.split)

lemma execute_instruction_frames:
  assumes "length (Registers s) = 11"
    "execute_instruction nl E P Opts f info I V s = (k, t)"
  shows "frame_change s k t"
proof -
  let ?T = "semanticTraits info (program_version P)"
  have "Frames t = Frames s \<or>
      (k, t) = execute_control E P Opts f info I V (sourceOperand ?T I s) (PC s + 1) s"
    using assms(2) execute_simple_Frames
    by (auto simp: execute_instruction_def Let_def split: if_splits)
  then show ?thesis
  proof
    assume "(k, t) = execute_control E P Opts f info I V (sourceOperand ?T I s) (PC s + 1) s"
    from this [symmetric] show ?thesis
      by (auto simp: execute_control_def split: if_splits intro: frame_change_same
          execute_Call_frames [OF assms(1)] execute_CallX_frames execute_Exit_frames)
  qed (rule frame_change_same)
qed

lemma makeFrame_fetch [simp]: "makeFrame k (fetch P Opts I s) = makeFrame k s"
  by (simp add: makeFrame_def)

lemma step_frames:
  assumes "length (Registers s) = 11" "Status (step nl E P Opts f s) = Running"
  shows "frame_change s (PC (step nl E P Opts f s)) (step nl E P Opts f s)"
proof (cases rule: step_cases [where s = s and P = P and nl = nl and E = E and Opts = Opts and f = f])
  case rejected
  then show ?thesis by (simp add: frame_change_same)
next
  case (executed info k t)
  from executed(4) assms(2) have "step nl E P Opts f s = t\<lparr>PC := k\<rparr>" by (auto split: if_splits)
  with execute_instruction_frames [OF _ executed(3)] assms(1) show ?thesis
    by (auto simp: frame_change_def)
qed

text \<open>
  Stack discipline: while the frame \<open>F\<close> pushed by a call is on the stack it is not touched, and
  when it is popped the caller's callee-saved registers, frame pointer and return slot are back.
\<close>

lemma frames_above:
  assumes "\<And>j. j \<le> n \<Longrightarrow> length (Registers ((step nl E P Opts f ^^ j) s)) = 11"
    "\<And>j. j \<le> n \<Longrightarrow> Status ((step nl E P Opts f ^^ j) s) = Running"
    "\<And>j. j \<le> n \<Longrightarrow> length fs < length (Frames ((step nl E P Opts f ^^ j) s))"
    "Frames s = F # fs"
  shows "\<exists>pre. Frames ((step nl E P Opts f ^^ n) s) = pre @ F # fs"
  using assms
proof (induction n)
  case 0
  then show ?case by auto
next
  case (Suc n)
  let ?u = "(step nl E P Opts f ^^ n) s"
  from Suc.IH Suc.prems obtain pre where pre: "Frames ?u = pre @ F # fs" by (meson le_SucI)
  have "frame_change ?u (PC (step nl E P Opts f ?u)) (step nl E P Opts f ?u)"
    using Suc.prems(1) [of n] Suc.prems(2) [of "Suc n"] by (intro step_frames) auto
  then consider "Frames (step nl E P Opts f ?u) = Frames ?u"
    | x where "Frames (step nl E P Opts f ?u) = x # Frames ?u"
    | x where "Frames ?u = x # Frames (step nl E P Opts f ?u)"
    by (auto simp: frame_change_def)
  then show ?case
  proof cases
    case 1
    with pre show ?thesis by simp
  next
    case 2
    with pre show ?thesis by (metis append_Cons comp_apply funpow.simps(2))
  next
    case 3
    with pre Suc.prems(3) [of "Suc n"] show ?thesis by (cases pre) auto
  qed
qed

lemma restoreFrame_makeFrame:
  assumes "length regs = 11" "6 \<le> i" "i < 11"
  shows "restoreFrame (makeFrame k s) regs ! i = Registers s ! i"
proof -
  have "i = 6 \<or> i = 7 \<or> i = 8 \<or> i = 9 \<or> i = 10" using assms by auto
  then show ?thesis using assms(1)
    by (auto simp: restoreFrame_def makeFrame_def sbf_constants upt_rec)
qed

lemma stack_ok_iterate: "stack_ok P Opts s \<Longrightarrow> stack_ok P Opts ((step nl E P Opts f ^^ n) s)"
  by (induction n) (auto intro: step_stack_ok)

lemma call_return_restores:
  assumes ok: "stack_ok P Opts s"
    and call: "Frames (step nl E P Opts f s) = makeFrame slot s # Frames s"
    and run: "\<And>j. j \<le> Suc n \<Longrightarrow> Status ((step nl E P Opts f ^^ j) (step nl E P Opts f s)) = Running"
    and inside: "\<And>j. j \<le> n \<Longrightarrow>
      length (Frames s) < length (Frames ((step nl E P Opts f ^^ j) (step nl E P Opts f s)))"
    and popped: "length (Frames ((step nl E P Opts f ^^ Suc n) (step nl E P Opts f s))) = length (Frames s)"
  shows "PC ((step nl E P Opts f ^^ Suc n) (step nl E P Opts f s)) = slot"
    and "Frames ((step nl E P Opts f ^^ Suc n) (step nl E P Opts f s)) = Frames s"
    and "6 \<le> i \<Longrightarrow> i < 11 \<Longrightarrow>
      Registers ((step nl E P Opts f ^^ Suc n) (step nl E P Opts f s)) ! i = Registers s ! i"
proof -
  let ?st = "step nl E P Opts f"
  let ?u = "(?st ^^ n) (?st s)"
  have regs: "length (Registers ((?st ^^ j) (?st s))) = 11" for j
    using stack_ok_iterate [OF step_stack_ok [OF ok]] by (auto simp: stack_ok_def)
  have "\<exists>pre. Frames ?u = pre @ makeFrame slot s # Frames s"
    using regs run inside call by (intro frames_above) auto
  then obtain pre where pre: "Frames ?u = pre @ makeFrame slot s # Frames s" by blast
  have "frame_change ?u (PC (?st ?u)) (?st ?u)"
    using regs [of n] run [of "Suc n"] by (intro step_frames) auto
  moreover have len: "length (Frames (?st ?u)) = length (Frames s)" using popped by simp
  ultimately obtain F where F: "Frames ?u = F # Frames (?st ?u)"
    "Registers (?st ?u) = restoreFrame F (Registers ?u)" "PC (?st ?u) = ReturnSlot F"
    using arg_cong [OF pre, of length] by (auto simp: frame_change_def)
  have "pre = []" using pre len arg_cong [OF F(1), of length] by simp
  with pre F have "F = makeFrame slot s" "Frames (?st ?u) = Frames s" by simp_all
  then have fin: "Frames (?st ?u) = Frames s"
    "Registers (?st ?u) = restoreFrame (makeFrame slot s) (Registers ?u)" "PC (?st ?u) = slot"
    using F by (simp_all add: makeFrame_def)
  then show "PC ((?st ^^ Suc n) (?st s)) = slot" "Frames ((?st ^^ Suc n) (?st s)) = Frames s"
    "6 \<le> i \<Longrightarrow> i < 11 \<Longrightarrow> Registers ((?st ^^ Suc n) (?st s)) ! i = Registers s ! i"
    using restoreFrame_makeFrame [OF regs [of n]] by simp_all
qed

section \<open>The stack of an automatic-frame program\<close>

lemma unat_stack_address:
  assumes "n \<le> 2 ^ 20"
  shows "unat (kStackStart + word_of_nat n) = 8589934592 + n"
proof -
  have "unat (word_of_nat n :: u64) = n" using assms by (simp add: unat_of_nat take_bit_eq_mod)
  then show ?thesis using assms
    by (simp add: sbf_constants unat_word_ariths)
qed

lemma rangeContains_plain:
  assumes "VMGapSize M = 0" "unat (Address M) = b" "unat a = b + d" "d + n \<le> length (Bytes M)"
  shows "rangeContains M a n = Some d"
proof -
  have "Address M \<le> a" using assms by (simp add: word_le_nat_alt)
  moreover from this have "unat (a - Address M) = d" using assms by (simp add: unat_sub)
  ultimately show ?thesis using assms by (auto simp: rangeContains_def Let_def not_less)
qed

lemma rangeContains_gapped:
  assumes "0 < VMGapSize M" "unat (Address M) = b" "unat a = b + (q * (2 * VMGapSize M) + r)"
    "r + n \<le> VMGapSize M" "0 < n" "q < k" "length (Bytes M) = VMGapSize M * k" "VMGapSize M * k \<le> 262144"
  shows "rangeContains M a n = Some (q * VMGapSize M + r)"
proof -
  let ?G = "VMGapSize M"
  have "Address M \<le> a" using assms by (simp add: word_le_nat_alt)
  moreover from this have d: "unat (a - Address M) = q * (2 * ?G) + r"
    using assms by (simp add: unat_sub)
  moreover have "virtualSpan M = Some (?G * k * 2)"
    using assms by (simp add: virtualSpan_def Let_def kStackFrameGapMultiplier_def uint64_max_def)
  moreover have qk: "Suc q * ?G \<le> ?G * k" using assms(6) by (simp add: mult.commute del: mult_Suc)
  moreover have "q * (2 * ?G) + r < ?G * k * 2" using qk assms by simp
  moreover have "(q * (2 * ?G) + r) mod (2 * ?G) = r" "(q * (2 * ?G) + r) div (2 * ?G) = q"
    using assms by auto
  ultimately show ?thesis using assms
    by (auto simp: rangeContains_def Let_def kStackFrameGapMultiplier_def mult.commute not_less)
qed

text \<open>Every access inside the frame at call depth \<open>d\<close> falls into a writable stack region.\<close>

lemma stack_frame_mapped:
  assumes cfg: "validateVMConfig cfg = None" and d: "d < MaxCallDepth cfg"
    and x: "x + n \<le> StackFrameSize cfg" "0 < n"
  shows "\<exists>M \<in> set (stack_regions v cfg). Writable M \<and>
    rangeContains M (kStackStart + automaticFrameStride v cfg * word_of_nat d + word_of_nat x) n \<noteq> None"
proof -
  let ?F = "StackFrameSize cfg" and ?D = "MaxCallDepth cfg"
  note c = validateVMConfig_None [OF cfg]
  have size: "?F * ?D \<le> 262144" using c(4) by (simp add: stackSize_def)
  have "Suc d * ?F \<le> ?D * ?F" using d by (intro mult_le_mono1) simp
  then have fd: "d * ?F + ?F \<le> ?F * ?D" by (simp add: mult.commute)
  show ?thesis
  proof (cases "usesStackFrameGaps v cfg")
    case True
    then have a: "kStackStart + automaticFrameStride v cfg * word_of_nat d + word_of_nat x =
        kStackStart + word_of_nat (d * (2 * ?F) + x)"
      by (simp add: automaticFrameStride_def kStackFrameGapMultiplier_def algebra_simps)
    have u: "unat (kStackStart + word_of_nat (d * (2 * ?F) + x) :: u64) = 8589934592 + (d * (2 * ?F) + x)"
      using fd x size by (intro unat_stack_address) simp
    have base: "unat (kStackStart + word_of_nat (d * (2 * ?F)) :: u64) = 8589934592 + d * (2 * ?F)"
      using fd size by (intro unat_stack_address) simp
    show ?thesis
    proof (cases "requiresAlignedMapping v cfg")
      case False
      let ?M = "\<lparr>Address = kStackStart + word_of_nat (d * ?F * kStackFrameGapMultiplier),
          Bytes = replicate ?F 0, Writable = True, Name = ''stack.'' @ nat_to_string d, VMGapSize = 0\<rparr>"
      have "?M \<in> set (stack_regions v cfg)"
        using True False d by (auto simp: stack_regions_def Let_def intro!: image_eqI [where x = d])
      moreover have "rangeContains ?M (kStackStart + word_of_nat (d * (2 * ?F) + x)) n = Some x"
        using u base x by (intro rangeContains_plain [where b = "8589934592 + d * (2 * ?F)"])
          (simp_all add: kStackFrameGapMultiplier_def mult.commute mult.left_commute)
      ultimately show ?thesis unfolding a by force
    next
      case al: True
      let ?M = "\<lparr>Address = kStackStart, Bytes = replicate (stackSize cfg) 0, Writable = True,
          Name = ''stack'', VMGapSize = ?F\<rparr>"
      have "rangeContains ?M (kStackStart + word_of_nat (d * (2 * ?F) + x)) n = Some (d * ?F + x)"
        using rangeContains_gapped [of ?M 8589934592 _ d x n ?D] u c(1) x d size
        by (simp add: stackSize_def sbf_constants)
      moreover have "?M \<in> set (stack_regions v cfg)" using True al by (simp add: stack_regions_def)
      ultimately show ?thesis unfolding a by force
    qed
  next
    case False
    then have a: "kStackStart + automaticFrameStride v cfg * word_of_nat d + word_of_nat x =
        kStackStart + word_of_nat (d * ?F + x)"
      by (simp add: automaticFrameStride_def algebra_simps)
    let ?M = "\<lparr>Address = kStackStart, Bytes = replicate (stackSize cfg) 0, Writable = True,
        Name = ''stack'', VMGapSize = 0\<rparr>"
    have "rangeContains ?M (kStackStart + word_of_nat (d * ?F + x)) n = Some (d * ?F + x)"
      using unat_stack_address [of "d * ?F + x"] fd x size
      by (intro rangeContains_plain [where b = 8589934592]) (simp_all add: sbf_constants stackSize_def)
    moreover have "?M \<in> set (stack_regions v cfg)" using False by (simp add: stack_regions_def)
    ultimately show ?thesis unfolding a by force
  qed
qed

text \<open>The states the loop of an admitted execution goes through.\<close>

inductive reachable ::
    "bool \<Rightarrow> 'h environment \<Rightarrow> sbf_program \<Rightarrow> interpreter_options \<Rightarrow> 'h \<Rightarrow> 'h exec_state \<Rightarrow> bool"
  for nl E P Opts h where
  start: "validateProgram P Opts = None \<Longrightarrow>
    validateMemory (appendProgramMemory (ExecutableImage P) (Config P) (Env_Memory E))
      (program_version P) (Config P) = None \<Longrightarrow>
    reachable nl E P Opts h
      (initial_state E P (appendProgramMemory (ExecutableImage P) (Config P) (Env_Memory E)) h)"
| advance: "reachable nl E P Opts h s \<Longrightarrow> \<not> run_stops P Opts s \<Longrightarrow>
    reachable nl E P Opts h (step nl E P Opts (runtimeFeatures E P) s)"

inductive_cases reachableE: "reachable nl E P Opts h s"

lemma reachable_inv:
  assumes "reachable nl E P Opts h s"
  shows "validateProgram P Opts = None"
    "validateMemory (appendProgramMemory (ExecutableImage P) (Config P) (Env_Memory E))
       (program_version P) (Config P) = None"
    "exec_inv P Opts (appendProgramMemory (ExecutableImage P) (Config P) (Env_Memory E)) s"
  using assms by (induction) (auto intro: initial_exec_inv step_exec_inv)

lemma executeRaw_reachable:
  assumes "executeRaw nl P E Opts h = Inr r"
  shows "\<exists>s. reachable nl E P Opts h s \<and> run_stops P Opts s \<and> r = finishExecution (run_finish Opts s)"
proof -
  from assms obtain Mem where Mem: "Mem = appendProgramMemory (ExecutableImage P) (Config P) (Env_Memory E)"
    and ok: "validateProgram P Opts = None" "validateMemory Mem (program_version P) (Config P) = None"
    and r: "r = finishExecution (run nl E P Opts (runtimeFeatures E P) (initial_state E P Mem h))"
    by (rule executeRaw_InrD)
  have "\<exists>s. reachable nl E P Opts h s \<and> run_stops P Opts s \<and>
      finishExecution (run nl E P Opts (runtimeFeatures E P) (initial_state E P Mem h)) =
      finishExecution (run_finish Opts s)"
    using ok Mem
    by (intro interp_run.loop_invariant [where J = "reachable nl E P Opts h" and
         post = "\<lambda>u. \<exists>s. reachable nl E P Opts h s \<and> run_stops P Opts s \<and>
           finishExecution u = finishExecution (run_finish Opts s)"])
      (auto intro: reachable.intros)
  with r show ?thesis by simp
qed

text \<open>In an automatic-frame program the whole active stack frame is writable at every step.\<close>

lemma active_frame_writable:
  assumes "reachable nl E P Opts h s" "\<not> manualFrames P" "access_width w"
    "x + w div 8 \<le> StackFrameSize (Config P)"
  shows "\<exists>Ms'. store_memory (Memory s)
     (Registers s ! 10 - word_of_nat (StackFrameSize (Config P)) + word_of_nat x) w v = Inr Ms'"
proof -
  let ?Mem = "appendProgramMemory (ExecutableImage P) (Config P) (Env_Memory E)"
  let ?v = "program_version P"
  note inv = reachable_inv [OF assms(1)]
  note prog = validateProgram_None [OF inv(1)]
  have pos: "0 < w div 8" using assms(3) by (auto simp: access_width_def)
  from inv(3) have ok: "stack_ok P Opts s" and lay: "memory_layout (Memory s) = memory_layout ?Mem"
    by (simp_all add: exec_inv_def)
  have d: "length (Frames s) < MaxCallDepth (Config P)" using ok prog by (auto simp: stack_ok_def)
  have "Registers s ! 10 = initialFramePointer ?v (Config P) +
      automaticFrameStride ?v (Config P) * word_of_nat (length (Frames s))"
    using ok assms(2) fp_chain_eq by (fastforce simp: stack_ok_def)
  then have a: "Registers s ! 10 - word_of_nat (StackFrameSize (Config P)) + word_of_nat x =
      kStackStart + automaticFrameStride ?v (Config P) * word_of_nat (length (Frames s)) + word_of_nat x"
    using assms(2) by (simp add: initialFramePointer_def manualFrames_def)
  obtain N where N: "N \<in> set (stack_regions ?v (Config P))" "Writable N"
    "rangeContains N (kStackStart + automaticFrameStride ?v (Config P) *
       word_of_nat (length (Frames s)) + word_of_nat x) (w div 8) \<noteq> None"
    using stack_frame_mapped [OF prog(1) d assms(4) pos, where v = ?v] by blast
  have "N \<in> set ?Mem" using N(1) by (simp add: appendProgramMemory_def program_version_def)
  then obtain M where M: "M \<in> set (Memory s)" "region_layout M = region_layout N"
    using layout_region [OF lay] by blast
  have wr: "Writable M" using M(2) N(2) by (simp add: region_layout_def)
  have vm: "validateMemory (Memory s) ?v (Config P) = None"
    using validateMemory_layout [OF lay] inv(2) by simp
  show ?thesis unfolding a
    by (rule store_memory_unique_region [OF vm M(1) wr _ assms(3)])
      (simp add: rangeContains_layout [OF M(2)] N(3))
qed

end
