(* ===== verification/SBF_Demo.thy ===== *)
theory SBF_Demo
  imports SBF_Execution
begin

text \<open>
  A four-slot program evaluated step by step: slot 0 calls slot 2, which sets \<open>r0\<close> and returns to
  slot 1, which exits.  It is the concrete input of the witnesses about whole executions.
\<close>

definition demo_text :: "u8 list" where
  "demo_text = [0x85,0x10,0,0,1,0,0,0,  0x95,0,0,0,0,0,0,0,
                0xb7,0,0,0,7,0,0,0,  0x95,0,0,0,0,0,0,0]"

definition demo_program :: sbf_program where
  "demo_program =
    \<lparr>Config = \<lparr>StackFrameSize = 16, MaxCallDepth = 3, EnableStackFrameGaps = True,
       OptimizeRodata = True, AlignedMemoryMapping = False, RejectBrokenELFs = False\<rparr>,
     ActiveRuntimeFeatures = 0, RegisteredSyscallHashes = [],
     ExecutableImage = empty_image\<lparr>Regions := [\<lparr>PR_Address = 0x100000000, PR_Bytes = demo_text,
         PR_Kind = Kind_Bytecode, PR_DataVisible = False, PR_Name = [], PR_Sections = []\<rparr>],
       TextRegion := Some 0, TextOffset := 0, TextSize := 32, TextVirtualSize := 32,
       TextAddress := 0x100000000, TheVersion := V3, EntrySlot := 0\<rparr>\<rparr>"

definition demo_env :: "unit environment" where
  "demo_env = \<lparr>Input = kInputStart, InstructionData = 0, Env_Memory = [], Syscall = None,
     HostSyscall = None, RuntimeFeatures = None, FeatureAwareSyscall = None\<rparr>"

definition demo_options :: interpreter_options where
  "demo_options = \<lparr>MaxSteps = 10, Opt_MaxCallDepth = None, RecordTrace = False\<rparr>"

lemma demo_opcodes:
  "getOpcodeInfo 0x85 V3 = Some (opcode_row 147 133 ''call'' Op_Call Form_CallImm 64 Mask_All Effect_Call)"
  "getOpcodeInfo 0x95 V3 = Some (opcode_row 149 149 ''exit'' Op_Exit Form_None 64 Mask_All Effect_Return)"
  "getOpcodeInfo 0xb7 V3 = Some (opcode_row 73 183 ''mov64'' Op_Mov Form_DstImm 64 Mask_All Effect_Pure)"
  unfolding getOpcodeInfo_Some_iff by (simp_all add: OpcodeTable_def opcode_row_def isAvailableIn_def)

lemma demo_config: "validateVMConfig (Config demo_program) = None"
  by (simp add: demo_program_def validateVMConfig_def sbf_constants kMaximumHostCallDepth_def kMaximumHostStackByteCount_def Let_def)

lemma demo_version: "program_version demo_program = V3" "program_text demo_program = demo_text" "length demo_text = 32"
  by (simp_all add: program_version_def demo_program_def program_text_def image_text_def demo_text_def byte_slice_def)

lemma demo_admitted: "validateProgram demo_program demo_options = None"
  by (simp add: validateProgram_def demo_config demo_version demo_options_def sbf_constants) (simp add: demo_program_def)

definition demo_memory :: "memory_region list" where
  "demo_memory =
     appendProgramMemory (ExecutableImage demo_program) (Config demo_program) (Env_Memory demo_env)"
lemma demo_memory_eq: "demo_memory = [\<lparr>Address = 8589934592, Bytes = replicate 48 0, Writable = True, Name = ''stack'', VMGapSize = 0\<rparr>]"
  by (simp add: demo_memory_def appendProgramMemory_def program_data_regions_def demo_program_def demo_env_def
   stack_regions_def usesStackFrameGaps_def versionHasFeature_iff stackSize_def sbf_constants)
lemma demo_mapped: "validateMemory demo_memory V3 (Config demo_program) = None"
  by (simp add: demo_memory_eq validateMemory_def virtualSpan_def Let_def uint64_max_def sbf_constants requiresAlignedMapping_def
    demo_program_def versionHasFeature_iff)

definition demo_start :: "unit exec_state" where
  "demo_start = initial_state demo_env demo_program demo_memory ()"
abbreviation demo_step :: "unit exec_state \<Rightarrow> unit exec_state" where
  "demo_step \<equiv> step True demo_env demo_program demo_options 0"

lemma demo_decode:
  "decodeRaw demo_text V3 0 = \<lparr>Slot = 0, RawOpcode = 0x85, Dst = 0, Src = 1, Offset = 0, Immediate = 1,
     Info = getOpcodeInfo 0x85 V3\<rparr>"
  "decodeRaw demo_text V3 1 = \<lparr>Slot = 1, RawOpcode = 0x95, Dst = 0, Src = 0, Offset = 0, Immediate = 0,
     Info = getOpcodeInfo 0x95 V3\<rparr>"
  "decodeRaw demo_text V3 2 = \<lparr>Slot = 2, RawOpcode = 0xb7, Dst = 0, Src = 0, Offset = 0, Immediate = 7,
     Info = getOpcodeInfo 0xb7 V3\<rparr>"
  "decodeRaw demo_text V3 3 = \<lparr>Slot = 3, RawOpcode = 0x95, Dst = 0, Src = 0, Offset = 0, Immediate = 0,
     Info = getOpcodeInfo 0x95 V3\<rparr>"
  by (simp_all add: decodeRaw_def demo_text_def Let_def sbf_constants read16le_def read32le_def byte_slice_def)

lemma replicate_11: "replicate 11 x = [x, x, x, x, x, x, x, x, x, x, x]"
  by (simp add: eval_nat_numeral)

lemma demo_fields:
  "Config demo_program = \<lparr>StackFrameSize = 16, MaxCallDepth = 3, EnableStackFrameGaps = True,
       OptimizeRodata = True, AlignedMemoryMapping = False, RejectBrokenELFs = False\<rparr>"
  "TextAddress (ExecutableImage demo_program) = 0x100000000"
  "EntrySlot (ExecutableImage demo_program) = 0"
  by (simp_all add: demo_program_def)

lemma demo_initial:
  "demo_start = \<lparr>Registers = [0, 0x400000000, 0, 0, 0, 0, 0, 0, 0, 0, 0x200000010], Frames = [], PC = 0,
     Memory = demo_memory, Status = Running, Fault = Fault_None, Error = [], FinalSlot = 0,
     Steps = 0, Depth = 0, Trace = [], Syscalls = [], Host = ()\<rparr>"
  by (simp add: demo_start_def initial_state_def demo_env_def demo_fields demo_version
      initialFramePointer_def versionHasFeature_iff sbf_constants replicate_11)

lemmas demo_eval = demo_decode demo_opcodes demo_version demo_fields Let_def validateInstruction_valid
  requisite_def
  opcode_row_def hasEffect_def isBranch_def isConditionalBranch_def effect_defs versionHasFeature_iff
  execute_instruction_def semanticTraits_def evaluateScalarALU_def execute_control_def execute_Call_def
  execute_static_call_def pushFrame_def makeFrame_def callDepthLimit_def setReg_def execute_Mov_def
  execute_Exit_def restoreFrame_def sourceOperand_def sbf_constants demo_options_def is_division_def
  manualFrameBump_def automaticFrameStride_def usesStackFrameGaps_def fetch_def upt_rec

definition demo_state ::
    "u64 \<Rightarrow> u64 \<Rightarrow> call_frame list \<Rightarrow> nat \<Rightarrow> execution_status \<Rightarrow> nat \<Rightarrow> nat \<Rightarrow> nat \<Rightarrow> unit exec_state" where
  "demo_state r0 fp frames pc st slot steps depth =
    \<lparr>Registers = [r0, 0x400000000, 0, 0, 0, 0, 0, 0, 0, 0, fp], Frames = frames, PC = pc,
     Memory = demo_memory, Status = st, Fault = Fault_None, Error = [], FinalSlot = slot,
     Steps = steps, Depth = depth, Trace = [], Syscalls = [], Host = ()\<rparr>"

definition demo_frame :: call_frame where
  "demo_frame = \<lparr>SavedRegisters = [0, 0, 0, 0], FramePointer = 0x200000010, ReturnSlot = 1\<rparr>"

lemma demo_state_sel:
  "Frames (demo_state r0 fp fs pc st sl n d) = fs" "Status (demo_state r0 fp fs pc st sl n d) = st"
  "Registers (demo_state r0 fp fs pc st sl n d) =
     [r0, 0x400000000, 0, 0, 0, 0, 0, 0, 0, 0, fp]"
  by (simp_all add: demo_state_def)

lemma demo_steps:
  "demo_start = demo_state 0 0x200000010 [] 0 Running 0 0 0"
  "demo_step (demo_state 0 0x200000010 [] 0 Running 0 0 0) =
     demo_state 0 0x200000020 [demo_frame] 2 Running 0 1 1"
  "demo_step (demo_state 0 0x200000020 [demo_frame] 2 Running 0 1 1) =
     demo_state 7 0x200000020 [demo_frame] 3 Running 2 2 1"
  "demo_step (demo_state 7 0x200000020 [demo_frame] 3 Running 2 2 1) =
     demo_state 7 0x200000010 [] 1 Running 3 3 1"
  "demo_step (demo_state 7 0x200000010 [] 1 Running 3 3 1) =
     demo_state 7 0x200000010 [] 1 Returned 1 4 1"
  by (simp_all add: step_def demo_initial demo_state_def demo_frame_def demo_eval
      demo_decode(2) [unfolded One_nat_def])

lemma demo_stops:
  "run_stops demo_program demo_options (demo_state r0 fp fs pc st sl n d) =
     (st \<noteq> Running \<or> n \<ge> 10 \<or> pc \<ge> 4)"
  "run_finish demo_options (demo_state r0 fp fs pc Returned sl n d) =
     demo_state r0 fp fs pc Returned sl n d"
  by (simp_all add: run_stops_def run_finish_def demo_state_def demo_version demo_options_def
      kInstructionSize_def)

lemma demo_run:
  "executeRaw True demo_program demo_env demo_options () =
     Inr (finishExecution (demo_state 7 0x200000010 [] 1 Returned 1 4 1))"
proof -
  have f: "runtimeFeatures demo_env demo_program = 0"
    by (simp add: runtimeFeatures_def demo_env_def demo_program_def)
  have r: "run True demo_env demo_program demo_options 0 s =
     (if run_stops demo_program demo_options s then run_finish demo_options s
      else run True demo_env demo_program demo_options 0 (demo_step s))" for s
    by (rule interp_run.loop_unfold)
  have "run True demo_env demo_program demo_options 0 demo_start = demo_state 7 0x200000010 [] 1 Returned 1 4 1"
    unfolding demo_steps(1)
    by (subst r, simp add: demo_stops demo_steps [unfolded One_nat_def])+
  then show ?thesis using demo_admitted demo_mapped by (simp add: executeRaw_def f demo_version flip: demo_memory_def demo_start_def)
qed

lemmas demo_evolution = demo_steps [unfolded One_nat_def]

lemma demo_reachable: "reachable True demo_env demo_program demo_options () demo_start"
  using reachable.start [of demo_program demo_options demo_env True "()"] demo_admitted demo_mapped
  by (simp add: demo_version flip: demo_memory_def demo_start_def)

lemma demo_stack_ok: "stack_ok demo_program demo_options demo_start"
  using reachable_inv(3) [OF demo_reachable] by (simp add: exec_inv_def)

lemma demo_manual: "\<not> manualFrames demo_program"
  by (simp add: manualFrames_def demo_version versionHasFeature_iff)

end
