(* ===== verification/SBF_Outcomes.thy ===== *)
theory SBF_Outcomes
  imports SBF_Execution
begin

text \<open>
  What a single step can do, instruction by instruction: where control can go, which faults can be
  raised, and that only the outermost exit returns.
\<close>

section \<open>The specification\<close>

text \<open>Where control can be after an instruction at a running state.\<close>

definition successors :: "sbf_program \<Rightarrow> opcode_info \<Rightarrow> raw_instruction \<Rightarrow> 'h exec_state \<Rightarrow> nat set" where
  "successors P info I s =
    (if ID info = LDDW then {PC s + 2}
     else if Op info = Op_Jump then {nat (branchTargetOf I)}
     else if isConditionalBranch info then {PC s + 1, nat (branchTargetOf I)}
     else if Op info = Op_Call then
       (if versionHasFeature (program_version P) StaticSyscalls
        then {PC s + 1, nat (int (PC s) + 1 + Immediate I)}
        else {PC s + 1} \<union> {TargetSlot F |F. findFunction (ExecutableImage P) (word_of_int (Immediate I)) = Some F})
     else if Op info = Op_CallX then {..<length (program_text P) div 8}
     else if Op info = Op_Exit then set (map ReturnSlot (take 1 (Frames s)))
     else {PC s + 1})"

text \<open>The faults an instruction can raise; a host callback with an outcome of its own can report any.\<close>

definition possible_faults :: "'h environment \<Rightarrow> sbf_program \<Rightarrow> opcode_info \<Rightarrow> fault_code set" where
  "possible_faults E P info =
    (if Op info \<in> {Op_Load, Op_Store} then {Fault_MemoryAccess}
     else if Op info \<in> {Op_UDiv, Op_URem} then {Fault_DivideByZero}
     else if Op info \<in> {Op_SDiv, Op_SRem} then {Fault_DivideByZero, Fault_DivideOverflow}
     else if Op info = Op_Call then
       {Fault_CallDepth, Fault_UnknownSyscall} \<union>
       (if versionHasFeature (program_version P) StaticSyscalls then {Fault_InvalidInstruction} else {}) \<union>
       (if HostSyscall E = None \<and> FeatureAwareSyscall E = None then {} else - {Fault_None})
     else if Op info = Op_CallX then {Fault_CallDepth, Fault_UnknownIndirectCall}
     else {})"

definition outcome :: "nat set \<Rightarrow> fault_code set \<Rightarrow> nat \<times> 'h exec_state \<Rightarrow> bool" where
  "outcome S F r =
    (case r of (k, t) \<Rightarrow> Status t = Running \<and> k \<in> S \<or> Status t = Faulted \<and> Fault t \<in> F)"

lemma outcome_intros [simp]:
  "Status s = Running \<Longrightarrow> outcome S F (k, s) \<longleftrightarrow> k \<in> S"
  "Status s = Running \<Longrightarrow> outcome S F (k, setReg r v s) \<longleftrightarrow> k \<in> S"
  "Status s = Running \<Longrightarrow> outcome S F (k, s\<lparr>Memory := M\<rparr>) \<longleftrightarrow> k \<in> S"
  "Status s = Running \<Longrightarrow> outcome S F (k, fail c m s) \<longleftrightarrow> c \<in> F"
  by (simp_all add: outcome_def setReg_def fail_def)

lemma outcome_mono: "outcome S F r \<Longrightarrow> F \<subseteq> F' \<Longrightarrow> outcome S F' r"
  by (auto simp: outcome_def)

section \<open>The table\<close>

text \<open>The classes the dispatch distinguishes do not overlap and leave nothing out.\<close>

lemma table_classes:
  "list_all (\<lambda>info.
     (evaluateScalarALU (Op info) (Width info) l r sw \<noteq> None \<longrightarrow>
        Op info \<notin> {Op_Load, Op_Store, Op_Jump, Op_Call, Op_CallX, Op_Exit} \<and> \<not> is_division (Op info) \<and>
        \<not> isConditionalBranch info \<and> ID info \<noteq> LDDW) \<and>
     (isConditionalBranch info \<longrightarrow> isBranch info \<and> ID info \<noteq> LDDW \<and> \<not> is_division (Op info) \<and>
        Op info \<notin> {Op_Load, Op_Store, Op_Mov, Op_UHighMul, Op_SHighMul, Op_EndianLE, Op_EndianBE, Op_HighOr,
          Op_Jump, Op_Call, Op_CallX, Op_Exit}) \<and>
     (Op info = Op_Jump \<longrightarrow> isBranch info) \<and> (Op info = Op_CallX \<longrightarrow> ID info = CALL_REG) \<and>
     (ID info = LDDW \<longleftrightarrow> Op info = Op_LoadImm) \<and>
     (ID info = LDDW \<or> Op info \<in> {Op_Load, Op_Store, Op_Mov, Op_UHighMul, Op_SHighMul, Op_EndianLE,
        Op_EndianBE, Op_HighOr, Op_Jump, Op_Call, Op_CallX, Op_Exit} \<or> is_division (Op info) \<or>
      isConditionalBranch info \<or> evaluateScalarALU (Op info) (Width info) l r sw \<noteq> None)) OpcodeTable"
  by (simp add: OpcodeTable_def row_predicates effect_defs evaluateScalarALU_def sbf_constants is_division_def)

lemmas instruction_classes = list_all_set [OF table_classes]

section \<open>Calls\<close>

lemma pushFrame_outcome:
  assumes "Status s = Running"
  shows "case pushFrame P Opts n s of (pushed, t) \<Rightarrow>
    if pushed then Status t = Running else Status t = Faulted \<and> Fault t = Fault_CallDepth"
  using assms by (simp add: pushFrame_def Let_def fail_def setReg_def)

lemma invokeHost_outcome:
  "HostSyscall E = None \<and> FeatureAwareSyscall E = None \<Longrightarrow> fst (invokeHost E f H A h) \<noteq> Host_Fault c"
  by (auto simp: invokeHost_def Let_def split: option.splits prod.splits)

lemma dispatchSyscall_outcome:
  assumes "Status s = Running" "dispatchSyscall E f H s = (oc, t)"
  shows "Status t = Running"
    "oc = Host_Fault c \<Longrightarrow> c \<in> (if HostSyscall E = None \<and> FeatureAwareSyscall E = None then {} else - {Fault_None})"
proof -
  show "Status t = Running" using dispatchSyscall_frame(2) [OF assms(1), of E f H] assms(2) by simp
  assume "oc = Host_Fault c"
  moreover from this have "c \<noteq> Fault_None" using dispatchSyscall_frame(3) [OF assms(1), of E f H c] assms(2) by simp
  moreover have "fst (invokeHost E f H (syscallArguments s) (Host s)) = oc"
    using assms(2) by (auto simp: dispatchSyscall_def Let_def split: prod.splits syscall_outcome.splits)
  ultimately show "c \<in> (if HostSyscall E = None \<and> FeatureAwareSyscall E = None then {} else - {Fault_None})"
    using invokeHost_outcome [of E f H "syscallArguments s" "Host s" c] by (cases "HostSyscall E") auto
qed

lemma execute_static_call_outcome:
  assumes "Status s = Running" "k \<in> S" "nat (int (PC s) + 1 + Immediate I) \<in> S" "{Fault_InvalidInstruction, Fault_CallDepth} \<subseteq> F"
  shows "outcome S F (execute_static_call P Opts I k s)"
  using pushFrame_outcome [OF assms(1), of P Opts k] assms
  by (auto simp: execute_static_call_def Let_def outcome_def fail_def split: prod.splits)

lemma execute_static_syscall_outcome:
  assumes "Status s = Running" "k \<in> S" "Fault_UnknownSyscall \<in> F"
    "(if HostSyscall E = None \<and> FeatureAwareSyscall E = None then {} else - {Fault_None}) \<subseteq> F"
  shows "outcome S F (k, execute_static_syscall E f H s)"
proof -
  obtain oc t where d: "dispatchSyscall E f H s = (oc, t)" by fastforce
  note t = dispatchSyscall_outcome [OF assms(1) d]
  show ?thesis
    by (cases oc) (use t assms(2-4) in \<open>auto simp: execute_static_syscall_def d split: if_splits\<close>)
qed

lemma execute_legacy_call_outcome:
  assumes "Status s = Running" "k \<in> S" "{Fault_UnknownSyscall, Fault_CallDepth} \<subseteq> F"
    "(if HostSyscall E = None \<and> FeatureAwareSyscall E = None then {} else - {Fault_None}) \<subseteq> F"
    "\<And>R. findFunction (ExecutableImage P) H = Some R \<Longrightarrow> TargetSlot R \<in> S"
  shows "outcome S F (execute_legacy_call E P Opts f H k s)"
proof -
  obtain oc t where d: "dispatchSyscall E f H s = (oc, t)" by fastforce
  note t = dispatchSyscall_outcome [OF assms(1) d]
  note p = pushFrame_outcome [OF t(1), of P Opts k]
  have "outcome S F (if pushed then TargetSlot R else k, u)" if "pushFrame P Opts k t = (pushed, u)"
      "findFunction (ExecutableImage P) H = Some R" for pushed u R
    using p that assms(2,3) assms(5) [OF that(2)] by (cases pushed) (auto simp: outcome_def)
  with t assms(2-4) show ?thesis
    by (cases oc; cases "findFunction (ExecutableImage P) H")
      (auto simp: execute_legacy_call_def Let_def d split: prod.splits if_splits)
qed

lemma execute_CallX_outcome:
  assumes "Status s = Running" "{Fault_CallDepth, Fault_UnknownIndirectCall} \<subseteq> F"
  shows "outcome {..<length (program_text P) div 8} F (execute_CallX P Opts r k s)"
  using pushFrame_outcome [OF assms(1), of P Opts k] assms
  by (auto simp: execute_CallX_def Let_def outcome_def fail_def sbf_constants split: prod.splits)

lemma execute_Call_outcome:
  assumes "Status s = Running" "Op info = Op_Call" "ID info \<noteq> LDDW" "\<not> isConditionalBranch info"
  shows "outcome (successors P info I s) (possible_faults E P info) (execute_Call E P Opts f I (PC s + 1) s)"
proof -
  have S: "successors P info I s = (if versionHasFeature (program_version P) StaticSyscalls
      then {PC s + 1, nat (int (PC s) + 1 + Immediate I)}
      else {PC s + 1} \<union> {TargetSlot F |F. findFunction (ExecutableImage P) (word_of_int (Immediate I)) = Some F})"
    using assms(2-4) by (simp add: successors_def)
  have F: "{Fault_CallDepth, Fault_UnknownSyscall} \<subseteq> possible_faults E P info"
      "versionHasFeature (program_version P) StaticSyscalls \<Longrightarrow> Fault_InvalidInstruction \<in> possible_faults E P info"
      "(if HostSyscall E = None \<and> FeatureAwareSyscall E = None then {} else - {Fault_None}) \<subseteq> possible_faults E P info"
    using assms(2) by (auto simp: possible_faults_def)
  have "outcome (successors P info I s) (possible_faults E P info) (PC s + 1, execute_static_syscall E f H s)" for H
    by (rule execute_static_syscall_outcome [OF assms(1)]) (use S F in auto)
  moreover have "outcome (successors P info I s) (possible_faults E P info) (execute_static_call P Opts I (PC s + 1) s)"
    if "versionHasFeature (program_version P) StaticSyscalls"
    by (rule execute_static_call_outcome [OF assms(1)]) (use S F that in auto)
  moreover have "outcome (successors P info I s) (possible_faults E P info)
      (execute_legacy_call E P Opts f (word_of_int (Immediate I)) (PC s + 1) s)"
    if "\<not> versionHasFeature (program_version P) StaticSyscalls"
    by (rule execute_legacy_call_outcome [OF assms(1)]) (use S F that in auto)
  ultimately show ?thesis using assms(1) F(2) by (simp add: execute_Call_def Let_def)
qed

section \<open>Instructions and steps\<close>

definition returns :: "opcode_info \<Rightarrow> 'h exec_state \<Rightarrow> bool" where
  "returns info s = (Op info = Op_Exit \<and> Frames s = [])"

lemma execute_control_outcome:
  assumes run: "Status s = Running" and row: "info \<in> set OpcodeTable" and I: "Info I = Some info" "requisite T v I info"
    and V: "V = validateInstruction T v I" and rest: "ID info \<noteq> LDDW" "\<not> is_division (Op info)"
      "Op info \<notin> {Op_Load, Op_Store, Op_Mov, Op_UHighMul, Op_SHighMul, Op_EndianLE, Op_EndianBE, Op_HighOr}"
      "evaluateScalarALU (Op info) (Width info) l r sw = None"
    and x: "x = execute_control E P Opts f info I V src (PC s + 1) s"
  shows "if returns info s then Status (snd x) = Returned
    else outcome (successors P info I s) (possible_faults E P info) x"
proof -
  note c = instruction_classes [OF row, of l r sw]
  have t: "the (BranchTarget V) = nat (branchTargetOf I)" if "isBranch info"
    using validateInstruction_outputs(1) [OF I that] by (simp add: V)
  consider "Op info = Op_Jump" | "isConditionalBranch info" | "Op info = Op_Call" | "Op info = Op_CallX" | "Op info = Op_Exit"
    using c rest by auto
  then show ?thesis
  proof cases
    case 1
    with c t run rest show ?thesis by (simp add: x execute_control_def successors_def returns_def)
  next
    case 2
    with c t run rest show ?thesis by (auto simp: x execute_control_def successors_def returns_def)
  next
    case 3
    with c rest have "\<not> isConditionalBranch info" by auto
    with 3 execute_Call_outcome [OF run 3 rest(1)] show ?thesis by (simp add: x execute_control_def returns_def)
  next
    case 4
    with c rest have n: "\<not> isConditionalBranch info" by auto
    have "outcome {..<length (program_text P) div 8} (possible_faults E P info) (execute_CallX P Opts (the (CallXRegister V)) (PC s + 1) s)"
      by (rule execute_CallX_outcome [OF run]) (use 4 in \<open>simp add: possible_faults_def\<close>)
    with 4 n rest show ?thesis by (simp add: x execute_control_def returns_def successors_def)
  next
    case 5
    with c rest have n: "\<not> isConditionalBranch info" by auto
    with 5 run rest show ?thesis
      by (cases "Frames s") (simp_all add: x execute_control_def execute_Exit_def returns_def successors_def outcome_def)
  qed
qed

lemma execute_Endian_outcome:
  assumes "Status s = Running" "Immediate I \<in> {16, 32, 64}"
  shows "Status (execute_Endian nl info I s) = Running"
  using assms by (auto simp: execute_Endian_def convertEndian_def Let_def sbf_constants setReg_def)

text \<open>The instructions that do not transfer control.\<close>

lemma execute_data_outcome:
  assumes run: "Status s = Running"
  shows "outcome {k} {} (k, execute_LDDW text I s)" "outcome {k} {Fault_MemoryAccess} (k, execute_Load info I s)"
    "outcome {k} {Fault_MemoryAccess} (k, execute_Store info I src s)" "outcome {k} {} (k, execute_Mov info Traits I src s)"
    "outcome {k} {} (k, execute_ALU info Traits I v s)" "outcome {k} {} (k, execute_HighOr I s)"
    "is_division (Op info) \<Longrightarrow> outcome {k} (possible_faults E P info) (k, execute_Division info I src s)"
proof -
  show "outcome {k} {} (k, execute_LDDW text I s)" "outcome {k} {} (k, execute_Mov info Traits I src s)"
    "outcome {k} {} (k, execute_ALU info Traits I v s)" "outcome {k} {} (k, execute_HighOr I s)"
    using run by (simp_all add: execute_LDDW_def execute_Mov_def execute_ALU_def execute_HighOr_def Let_def)
  show "outcome {k} {Fault_MemoryAccess} (k, execute_Load info I s)" "outcome {k} {Fault_MemoryAccess} (k, execute_Store info I src s)"
    using run by (simp_all add: execute_Load_def execute_Store_def split: option.split sum.split)
  have "c \<in> possible_faults E P info" if "is_division (Op info)" "divide (Op info) w l r = Inl c" for w l r c
    using that by (auto simp: divide_def divideImpl_def possible_faults_def is_division_def split: if_splits sum.splits)
  then show "is_division (Op info) \<Longrightarrow> outcome {k} (possible_faults E P info) (k, execute_Division info I src s)"
    using run by (simp add: execute_Division_def split: sum.split)
qed

lemma straight_line:
  assumes "Op info \<notin> {Op_Jump, Op_Call, Op_CallX, Op_Exit}" "\<not> isConditionalBranch info"
  shows "\<not> returns info s" "successors P info I s = {if ID info = LDDW then PC s + 2 else PC s + 1}"
  using assms by (simp_all add: returns_def successors_def)

lemma data_classes:
  assumes row: "info \<in> set OpcodeTable"
    and "ID info = LDDW \<or> Op info \<in> {Op_Load, Op_Store, Op_Mov, Op_UHighMul, Op_SHighMul, Op_EndianLE, Op_EndianBE, Op_HighOr} \<or>
      is_division (Op info) \<or> evaluateScalarALU (Op info) (Width info) l r sw \<noteq> None"
  shows "Op info \<notin> {Op_Jump, Op_Call, Op_CallX, Op_Exit}" "\<not> isConditionalBranch info"
    "ID info = LDDW \<longleftrightarrow> Op info = Op_LoadImm"
proof -
  note c = instruction_classes [OF row, of l r sw]
  show "\<not> isConditionalBranch info" using assms(2) c by blast
  show "ID info = LDDW \<longleftrightarrow> Op info = Op_LoadImm" using c by blast
  with c have "ID info = LDDW \<Longrightarrow> Op info = Op_LoadImm"
    "evaluateScalarALU (Op info) (Width info) l r sw \<noteq> None \<Longrightarrow> Op info \<notin> {Op_Jump, Op_Call, Op_CallX, Op_Exit}" by blast+
  with assms(2) show "Op info \<notin> {Op_Jump, Op_Call, Op_CallX, Op_Exit}" by (auto simp: is_division_def)
qed

lemma execute_instruction_outcome:
  assumes run: "Status s = Running" and row: "info \<in> set OpcodeTable" and I: "Info I = Some info" "requisite T v I info"
    and V: "V = validateInstruction T v I" and x: "x = execute_instruction nl E P Opts f info I V s"
  shows "if returns info s then Status (snd x) = Returned
    else outcome (successors P info I s) (possible_faults E P info) x"
proof -
  let ?T = "semanticTraits info (program_version P)"
  let ?src = "sourceOperand ?T I s" and ?dst = "Registers s ! Dst I"
  let ?alu = "evaluateScalarALU (Op info) (Width info) ?dst ?src (Trait_SwapOperands ?T)"
  let ?data = "ID info = LDDW \<or> Op info \<in> {Op_Load, Op_Store, Op_Mov, Op_UHighMul, Op_SHighMul, Op_EndianLE, Op_EndianBE, Op_HighOr} \<or>
      is_division (Op info) \<or> ?alu \<noteq> None"
  show ?thesis
  proof (cases ?data)
    case False
    then have "x = execute_control E P Opts f info I V ?src (PC s + 1) s"
      by (simp add: x execute_instruction_def Let_def)
    from execute_control_outcome [OF run row I V _ _ _ _ this] False show ?thesis by blast
  next
    case True
    note c = data_classes [OF row True]
    have en: "Status (execute_Endian nl info I s) = Running" if "Op info \<in> {Op_EndianLE, Op_EndianBE}"
      using I(2) that by (intro execute_Endian_outcome [OF run]) (auto simp: requisite_def Let_def)
    let ?k = "if ID info = LDDW then PC s + 2 else PC s + 1"
    have pure: "outcome {k} (possible_faults E P info) r" if "outcome {k} {} r" for k and r :: "nat \<times> 'a exec_state"
      using outcome_mono [OF that] by simp
    have memory: "possible_faults E P info = {Fault_MemoryAccess}" if "Op info = Op_Load \<or> Op info = Op_Store"
      using that by (auto simp: possible_faults_def)
    have "outcome {?k} (possible_faults E P info) x"
      unfolding x execute_instruction_def Let_def
      using True c(3) run en
      by (simp add: execute_data_outcome [OF run] pure memory sbf_constants) auto
    then show ?thesis by (simp add: straight_line [OF c(1,2)])
  qed
qed

text \<open>A step of a running machine, classified by its instruction.\<close>

lemma step_outcome:
  assumes run: "Status s = Running"
    and I: "I = currentInstruction P s" and t: "t = step nl E P Opts f s"
  shows "case Info I of
      Some info \<Rightarrow>
        if valid (validateInstruction (program_text P) (program_version P) I)
        then if returns info s then Status t = Returned
             else Status t = Running \<and> PC t \<in> successors P info I s \<or> Status t = Faulted \<and> Fault t \<in> possible_faults E P info
        else Status t = Faulted \<and> Fault t = executionFaultForValidationRule (Rule (validateInstruction (program_text P) (program_version P) I))
    | None \<Rightarrow> Status t = Faulted \<and> Fault t = executionFaultForValidationRule Rule_UnknownOpcode"
proof (cases rule: step_cases [where s = s and P = P and nl = nl and E = E and Opts = Opts and f = f])
  case rejected
  have "Rule (validateInstruction (program_text P) (program_version P) I) = Rule_UnknownOpcode" if "Info I = None"
    using that by (simp add: validateInstruction_def)
  with rejected run show ?thesis by (auto simp: I t fail_def split: option.split)
next
  case (executed info k u)
  note e = executed [folded I]
  let ?s = "fetch P Opts I s"
  have row: "info \<in> set OpcodeTable"
    using e(1) getOpcodeInfo_SomeD [of _ _ info] by (simp add: I currentInstruction_def decodeRaw_def Let_def)
  have same: "returns info ?s = returns info s" "successors P info I ?s = successors P info I s"
    by (simp_all add: returns_def successors_def)
  have "valid (validateInstruction (program_text P) (program_version P) I)" using e(1,2) by (simp add: validateInstruction_valid)
  moreover have "Status ?s = Running" using run by simp
  from execute_instruction_outcome [OF this row e(1,2) refl e(3) [symmetric]] e(4)
  have "if returns info s then Status t = Returned
        else Status t = Running \<and> PC t \<in> successors P info I s \<or> Status t = Faulted \<and> Fault t \<in> possible_faults E P info"
    by (auto simp: same outcome_def t)
  ultimately show ?thesis using e(1) by simp
qed

end
