(* ===== verification/Spec2Isabelle.thy ===== *)
theory Spec2Isabelle
  imports Bv_Solver SBF_Demo SBF_Outcomes
begin

text \<open>
  NeverD lifts machine code and bytecode to readable source.  This library verifies two of its
  subsystems: the raw interpreter for Solana bytecode (SBF), which is the semantics the decompiler's
  SBF front end is tested against, and the bit-vector solver, which decides the predicates that
  recovered code raises.  Both are modelled from the C++ sources, function by function, and the
  names of the definitions are those of the code.

  Parts, theories and sources.

  \<^item> \<open>SBF_Version\<close>, \<open>SBF_Opcodes\<close>, \<open>SBF_Semantics\<close>: versions and their features, the machine
    configuration, the opcode table and the scalar semantics
    (\<open>include/neverd/sbf\<close>, \<open>lib/sbf/runtime/SBFVMConfig.cpp\<close>, \<open>SBFOpcodes.cpp\<close>,
    \<open>SBFSemantics.cpp\<close>).  The lemmas show the table consistent and its lookup exact, the
    wide multiplications exact, and division exact at both widths with its two faults.
  \<^item> \<open>SBF_Validation\<close>, \<open>SBF_Image\<close>: the instruction checks and the program image with its
    function registry (\<open>lib/sbf/analysis/SBFInstructionValidation.cpp\<close>,
    \<open>lib/sbf/image/SBFProgramImage.cpp\<close>, relative calls of \<open>SBFRelocations.cpp\<close>).  The registry
    is built in a \<open>DenseMap\<close>, a container of LLVM that reserves some keys; which ones is a parameter,
    and using one is an error.  Relocated calls are shown to reach the slots they named.
  \<^item> \<open>SBF_Memory\<close>, \<open>SBF_Interpreter\<close>, \<open>SBF_Execution\<close>: guest memory, the interpreter and its
    invariants (\<open>lib/sbf/runtime/SBFInterpreter.cpp\<close>, \<open>SBFInterpreterSupport.cpp\<close>).  The
    machine state is a record; one step is a function of it and the loop is bounded by the step
    meter \<open>MaxSteps\<close>, so it is a total function.  Host system calls are a parameter over an
    abstract host state.  The lemmas carry an invariant over every step and conclude that an
    admitted execution is safe, that calls return to their caller with the callee-saved registers
    restored, and that the active stack frame is always mapped.  \<open>SBF_Outcomes\<close>
    classifies a step by its instruction: where control can go and which faults it can raise, so
    no valid instruction is left undispatched.  \<open>SBF_Demo\<close> runs a concrete program, which
    witnesses the theorems.
  \<^item> \<open>Sat_Types\<close>, \<open>Sat_Queue\<close>, \<open>Sat_Engine\<close>: literals, the decision queue, and the clause
    engine with its arena, watch lists and trail (\<open>include/neverd/solver/SatTypes.h\<close>,
    \<open>lib/solver/sat/SatDetail.h\<close>, \<open>SatHeuristic.cpp\<close>, \<open>SatPropagate.cpp\<close>,
    \<open>SatSolver.cpp\<close>).  The propagation loop has fuel \<open>numVars + 2\<close>, which is shown to be
    enough: every round but an interrupted one consumes a literal of the trail, and the trail has
    at most one literal per variable.
  \<^item> \<open>Sat_Propagation\<close>, \<open>Sat_Formula\<close>: unit propagation keeps the watch invariant and the
    models; adding a clause cuts the models down to those of the clause.  The locale
    \<open>clause_backend\<close> states what an encoder relies on and is interpreted on the engine.
  \<^item> \<open>Sat_Float\<close>, \<open>Sat_Order\<close>, \<open>Sat_Search\<close>: rounding to doubles and floats, the correctness of
    the decision queue (the locale \<open>decision_queue\<close> is its contract), and the search itself:
    activities, decisions, conflict analysis with minimisation, learned clauses and their
    disposal, assumptions, restarts and the entry point (\<open>SatHeuristic.cpp\<close>,
    \<open>SatAnalyze.cpp\<close>, \<open>SatSolver.cpp\<close>).  The search and restart loops are partial functions,
    \<open>None\<close> for a loop that does not end.  The redundancy check has fuel \<open>numVars + 1\<close>, enough
    because a literal is put on its stack when its variable is marked, and no variable is
    marked twice; taking a decision has fuel for the size of the queue.  Activities are rational
    numbers rounded after each operation; infinities and not-a-number are not part of the model,
    and no theorem rests on their values.
  \<^item> \<open>Sat_Levels\<close>, \<open>Sat_Marks\<close>, \<open>Sat_Learning\<close>: levels and reasons, the marks of conflict
    analysis, and the learned clause, which the formula implies and which asserts its first
    literal at the level it names.
  \<^item> \<open>Sat_Stack\<close>, \<open>Sat_Store\<close>, \<open>Sat_Reduce\<close>, \<open>Sat_Choice\<close>, \<open>Sat_Rounds\<close>: the invariant of the
    search and what each move of a round does to it.  A weight of the trail grows with every
    round that gives no answer, so a search ends under every conflict budget.
  \<^item> \<open>Sat_Solve\<close>, \<open>Sat_Promises\<close>: the solver between calls, again an instance of
    \<open>clause_backend\<close>, and its answers: a model, or a set of failed assumptions without one.  A
    call is shown to return when restarts are off; with restarts each search ends, but the
    number of searches before the conflict allowance suffices is not bounded by the code.
  \<^item> \<open>Cnf_Encoder\<close>, \<open>Cnf_Table\<close>, \<open>Cnf_Gates\<close>, \<open>Cnf_Builders\<close>: the gate encoder with its
    open-addressed table (\<open>include/neverd/solver/CnfEncoder.h\<close>,
    \<open>lib/solver/cnf/CnfEncoder.cpp\<close>).  A probe has one step of fuel per slot, enough because the
    table keeps an empty slot.  Every builder's literal computes its function in every model,
    structurally equal gates are shared, and definitions in both halves lose no model.  The
    arena, the variable numbers and the operand pool are finite: theorems about what was built
    assume the encoder is not out of room at the end (\<open>enc_full\<close>), and \<open>room\<close> gives a
    number of gates for which it is not.
  \<^item> \<open>Bit_Circuits\<close>, \<open>Bit_Logic\<close>, \<open>Bit_Arith\<close>, \<open>Bit_Division\<close>, \<open>Bit_Compare\<close>,
    \<open>Bit_Shift\<close>: the circuits over literal vectors (\<open>lib/solver/bv/BitBlastArith.cpp\<close>,
    \<open>BitBlastShift.cpp\<close>) compute the arithmetic they are named for, at every width: addition,
    negation, multiplication, division signed and unsigned, comparison, shifts and rotates.
  \<^item> \<open>Sym_Expr\<close>, \<open>Blast_Model\<close>, \<open>Blast_Order\<close>, \<open>Blast_Circuits\<close>, \<open>Bit_Blaster\<close>: interned
    expressions with a reference semantics, and the blaster that turns them into literals
    (\<open>include/neverd/symbolic/SymExpr.h\<close>, \<open>lib/solver/bv/BitBlaster.cpp\<close>).  The walk is a total
    function: every round visits a new node number or shortens the work list.  The lemmas show that
    the literals of an expression are worth the expression in every model, that every valuation
    has a model, that the order of encoding is the ascending one whichever sort is used, and that a
    well-formed expression is refused for its size only.  What the interning builders
    establish of a context (operands come first, widths fit) is the hypothesis \<open>ctx_ok\<close>.

  \<^item> \<open>Bv_Model\<close>, \<open>Bv_Conjuncts\<close>, \<open>Bv_Invariant\<close>, \<open>Bv_Solver\<close>: the solver over predicates
    (\<open>include/neverd/solver/BitVectorSolver.h\<close>, \<open>lib/solver/bv/BitVectorSolver.cpp\<close>,
    \<open>PermanentConjuncts.h\<close>): conjuncts prepared ahead of an assertion, predicates as literals,
    assertions, questions under assumptions, recorded models and the one-shot question.  The
    theorems join the blaster, the encoder and the search: an answer of satisfiable comes with
    values that make the predicates true, one of unsatisfiable means that no valuation does, and
    every failed predicate is one of those asked.  The loop over conjuncts is a total function,
    because each round is paid from its allowance.  Values, which the code keeps as
    arbitrary-precision integers, are natural numbers below the power of two of their width.

  This theory holds the properties of steps and of whole executions.

  Assertions of the solver's code (operands of equal width, a variable obtained, a node already
  encoded) are not branches of the model; the theorems carry the hypotheses under which they
  hold, and what is said of other inputs is said of the model only.  Decision levels, which the code
  keeps in 32 bits, are natural numbers; a level is opened for an assumption or a variable, so the
  two differ only on a question with billions of assumptions.

  Not modelled: \<open>assertEqual\<close>, \<open>assertDistinct\<close> and \<open>checkEqual\<close> of the solver, which build an
  equality with the canonicalising builders of the expression context, and those builders with
  their rewrite rules; the back end over Z3, a foreign library; the ELF side of the program image;
  the analyses, emitters and front ends for other machines, which rest on LLVM's data structures
  or on file and operating-system interfaces.\<close>

section \<open>Whole executions\<close>

text \<open>
  C1.  A raw execution that is admitted always ends, within its step meter, in a final status that
  is \<open>Returned\<close> exactly when no fault was recorded; the call depth never reaches its limit, the
  register file keeps its size, \<open>ReturnValue\<close> is register 0, one trace entry is recorded per step,
  and memory keeps its layout with every read-only region unchanged.
\<close>

theorem execution_safe:
  assumes "executeRaw nl P E Options h = Inr r"
  shows "exec_post P Options (appendProgramMemory (ExecutableImage P) (Config P) (Env_Memory E)) r"
  using assms by (rule executeRaw_InrD) (auto intro: run_post initial_exec_inv)

theorem execution_safe_witness:
  "exec_post demo_program demo_options
     (appendProgramMemory (ExecutableImage demo_program) (Config demo_program) (Env_Memory demo_env))
     (finishExecution (demo_state 7 0x200000010 [] 1 Returned 1 4 1))"
  by (rule execution_safe [OF demo_run])



text \<open>
  C8.  Calls return cleanly: from the step that pushes a call frame, if execution later pops back to
  the caller's depth for the first time, the program counter is the recorded return slot, the
  caller's frames are untouched and registers 6 to 10 hold the values they had at the call.
\<close>

theorem call_returns_to_caller:
  fixes s :: "'h exec_state" and E :: "'h environment" and P :: sbf_program
    and Options :: interpreter_options and nl :: bool and f :: u64
  defines "st \<equiv> step nl E P Options f"
  assumes "stack_ok P Options s" and "Frames (st s) = makeFrame slot s # Frames s"
    and "\<forall>j \<le> Suc n. Status ((st ^^ j) (st s)) = Running"
    and "\<forall>j \<le> n. length (Frames s) < length (Frames ((st ^^ j) (st s)))"
    and "length (Frames ((st ^^ Suc n) (st s))) = length (Frames s)"
  shows "PC ((st ^^ Suc n) (st s)) = slot \<and> Frames ((st ^^ Suc n) (st s)) = Frames s \<and>
    (\<forall>i \<in> {6..<11}. Registers ((st ^^ Suc n) (st s)) ! i = Registers s ! i)"
  using assms call_return_restores [of P Options s nl E f slot n] unfolding st_def by auto

theorem call_returns_to_caller_witness:
  "PC ((demo_step ^^ 2) (demo_step demo_start)) = 1 \<and>
   Registers ((demo_step ^^ 2) (demo_step demo_start)) ! 10 = Registers demo_start ! 10"
proof -
  have "PC ((demo_step ^^ Suc 1) (demo_step demo_start)) = 1 \<and>
    Frames ((demo_step ^^ Suc 1) (demo_step demo_start)) = Frames demo_start \<and>
    (\<forall>i \<in> {6..<11}. Registers ((demo_step ^^ Suc 1) (demo_step demo_start)) ! i =
       Registers demo_start ! i)"
  proof (rule call_returns_to_caller)
    show "stack_ok demo_program demo_options demo_start" by (rule demo_stack_ok)
    show "Frames (demo_step demo_start) = makeFrame 1 demo_start # Frames demo_start"
      by (simp only: demo_evolution)
        (simp add: demo_state_sel demo_frame_def makeFrame_def sbf_constants upt_rec)
    show "\<forall>j \<le> Suc 1. Status ((demo_step ^^ j) (demo_step demo_start)) = Running"
      by (auto simp: le_Suc_eq demo_evolution demo_state_sel)
    show "\<forall>j \<le> 1. length (Frames demo_start) < length (Frames ((demo_step ^^ j) (demo_step demo_start)))"
      by (auto simp: le_Suc_eq demo_evolution demo_state_sel)
    show "length (Frames ((demo_step ^^ Suc 1) (demo_step demo_start))) = length (Frames demo_start)"
      by (simp add: demo_evolution demo_state_sel)
  qed
  then show ?thesis by (simp add: numeral_2_eq_2)
qed

text \<open>
  C2.  In a program whose version manages frames automatically the active stack frame is always
  usable: at every reachable state a store of any width anywhere inside the frame below \<open>r10\<close>
  succeeds, at any call depth and with or without frame gaps.
\<close>

theorem active_frame_usable:
  assumes "reachable nl E P Options h s" "\<not> manualFrames P" "access_width w"
    "x + w div 8 \<le> StackFrameSize (Config P)"
  shows "\<exists>Ms'. store_memory (Memory s)
     (Registers s ! 10 - word_of_nat (StackFrameSize (Config P)) + word_of_nat x) w v = Inr Ms'"
  using assms by (rule active_frame_writable)

theorem active_frame_usable_witness:
  "\<exists>Ms'. store_memory (Memory demo_start)
     (Registers demo_start ! 10 - word_of_nat 16 + word_of_nat 8) 64 42 = Inr Ms'"
  using active_frame_usable [OF demo_reachable, of 64 8 42]
  by (simp add: demo_manual access_width_def demo_fields)

text \<open>
  The frame pointer is determined by the call depth: at every reachable state of an
  automatic-frame program \<open>r10\<close> is the initial frame pointer plus one stride per active frame.
\<close>

lemma frame_pointer_by_depth:
  assumes "reachable nl E P Options h s" "\<not> manualFrames P"
  shows "Registers s ! 10 = initialFramePointer (program_version P) (Config P) +
     automaticFrameStride (program_version P) (Config P) * word_of_nat (length (Frames s))"
  using reachable_inv(3) [OF assms(1)] assms(2) fp_chain_eq
  by (fastforce simp: exec_inv_def stack_ok_def)

end
